(* ===== verification/Prelude.thy ===== *)
theory Prelude
  imports Main "HOL-Library.Word" "HOL-Library.List_Lexorder" "HOL-Library.Char_ord"
    "HOL-Library.Multiset"
begin

section \<open>Prelude: machine integers, results, byte strings and text\<close>

text \<open>
  What every component shares: names for Rust's integer types, the result type that the
  \<open>?\<close> operator threads, saturating arithmetic, big-endian integers, UTF-8 and the
  ASCII helpers of \<open>str\<close>; and, last, the locale of what runs keep.  Nothing here models a file of the repository; it models the
  part of the Rust language and its standard library that those files use.

  A \<open>usize\<close> is 64 bits wide on every platform the server is built for; lengths and counts
  of things held in memory are \<open>nat\<close>.  A Rust \<open>String\<close> is its UTF-8 bytes, held as an
  Isabelle \<open>string\<close> (whose characters are bytes).
\<close>

type_synonym u8 = "8 word"
type_synonym u16 = "16 word"
type_synonym u32 = "32 word"
type_synonym u64 = "64 word"
type_synonym bytes = "u8 list"

named_theorems result_simps \<open>how the result monad steps\<close>
named_theorems sat_simps \<open>saturating arithmetic read as naturals\<close>


subsection \<open>Results\<close>

text \<open>\<open>Result<T, E>\<close> is a sum with the error on the left; \<open>bindR\<close> is the \<open>?\<close> operator.\<close>

primrec bindR :: "'e + 'a \<Rightarrow> ('a \<Rightarrow> 'e + 'b) \<Rightarrow> 'e + 'b" where
  "bindR (Inl e) f = Inl e"
| "bindR (Inr x) f = f x"

definition ok_or :: "'e \<Rightarrow> 'a option \<Rightarrow> 'e + 'a" where
  "ok_or e m = (case m of None \<Rightarrow> Inl e | Some x \<Rightarrow> Inr x)"

definition guardR :: "bool \<Rightarrow> 'e \<Rightarrow> 'e + unit" where
  "guardR b e = (if b then Inr () else Inl e)"

definition map_err :: "('e \<Rightarrow> 'f) \<Rightarrow> 'e + 'a \<Rightarrow> 'f + 'a" where
  "map_err g m = (case m of Inl e \<Rightarrow> Inl (g e) | Inr x \<Rightarrow> Inr x)"

lemma bindR_Inr_iff [result_simps]:
  "bindR m f = Inr y \<longleftrightarrow> (\<exists>x. m = Inr x \<and> f x = Inr y)"
  by (cases m) auto

lemma bindR_Inl_iff:
  "bindR m f = Inl e \<longleftrightarrow> m = Inl e \<or> (\<exists>x. m = Inr x \<and> f x = Inl e)"
  by (cases m) auto

lemma bindR_cong [fundef_cong]:
  "m = m' \<Longrightarrow> (\<And>x. m' = Inr x \<Longrightarrow> f x = g x) \<Longrightarrow> bindR m f = bindR m' g"
  by (cases m') auto

lemma bindR_assoc: "bindR (bindR m f) g = bindR m (\<lambda>x. bindR (f x) g)"
  by (cases m) auto

lemma ok_or_simps [simp]:
  "ok_or e None = Inl e" "ok_or e (Some x) = Inr x"
  by (simp_all add: ok_or_def)

lemma ok_or_Inr_iff [result_simps]: "ok_or e m = Inr x \<longleftrightarrow> m = Some x"
  by (cases m) auto

lemma guardR_simps [simp]:
  "guardR True e = Inr ()" "guardR False e = Inl e"
  by (simp_all add: guardR_def)

lemma guardR_Inr_iff [result_simps]: "guardR b e = Inr u \<longleftrightarrow> b"
  by (simp add: guardR_def)

lemma guardR_Inl_iff: "guardR b e = Inl e' \<longleftrightarrow> \<not> b \<and> e' = e"
  by (auto simp: guardR_def)

lemma map_err_simps [simp]:
  "map_err g (Inl e) = Inl (g e)" "map_err g (Inr x) = Inr x"
  by (simp_all add: map_err_def)

lemma map_err_Inr_iff [result_simps]: "map_err g m = Inr x \<longleftrightarrow> m = Inr x"
  by (cases m) auto


subsection \<open>Saturating arithmetic\<close>

definition sat_add :: "'a::len word \<Rightarrow> 'a word \<Rightarrow> 'a word" where
  "sat_add a b = (if unat a + unat b < 2 ^ LENGTH('a) then a + b else - 1)"

definition sat_sub :: "'a::len word \<Rightarrow> 'a word \<Rightarrow> 'a word" where
  "sat_sub a b = (if a < b then 0 else a - b)"

definition sat_mul :: "'a::len word \<Rightarrow> 'a word \<Rightarrow> 'a word" where
  "sat_mul a b = (if unat a * unat b < 2 ^ LENGTH('a) then a * b else - 1)"

text \<open>\<open>u64::abs_diff\<close>.\<close>

definition abs_diff :: "'a::len word \<Rightarrow> 'a word \<Rightarrow> 'a word" where
  "abs_diff a b = (if a \<le> b then b - a else a - b)"

lemma unat_max_word_eq: "unat (- 1 :: 'a::len word) = 2 ^ LENGTH('a) - 1"
  by (simp add: unsigned_minus_1_eq_mask mask_eq_exp_minus_1)

lemma unat_sat_add [sat_simps]:
  "unat (sat_add a (b :: 'a::len word)) = min (unat a + unat b) (2 ^ LENGTH('a) - 1)"
  by (auto simp: sat_add_def unat_max_word_eq unat_word_ariths min_def)

lemma unat_sat_sub [sat_simps]: "unat (sat_sub a b) = unat a - unat b"
  by (auto simp: sat_sub_def unat_sub_if_size word_less_nat_alt unat_sub word_le_nat_alt)

lemma unat_lt_two_power: "unat (a :: 'a::len word) \<le> 2 ^ LENGTH('a) - 1"
  proof -
  have "unat a < 2 ^ LENGTH('a)" by (rule unsigned_less)
  then show ?thesis by linarith
qed

lemma le_sat_add: "a \<le> sat_add a (b :: 'a::len word)"
  using unat_lt_two_power [of a] by (simp add: word_le_nat_alt unat_sat_add)

lemma sat_add_mono: "a \<le> b \<Longrightarrow> sat_add a c \<le> sat_add b (c :: 'a::len word)"
  by (auto simp: word_le_nat_alt unat_sat_add)

lemma sat_add_mono2: "b \<le> c \<Longrightarrow> sat_add a b \<le> sat_add a (c :: 'a::len word)"
  by (auto simp: word_le_nat_alt unat_sat_add)

lemma sat_add_0 [simp]: "sat_add a 0 = a"
  by (simp add: sat_add_def)

lemma less_sat_add_1: "a \<noteq> - 1 \<Longrightarrow> a < sat_add a (1 :: 'a::len word)"
proof -
  assume "a \<noteq> - 1"
  then have "unat a \<noteq> 2 ^ LENGTH('a) - 1"
    using unat_max_word_eq [where 'a = 'a] by (metis word_unat_eq_iff)
  with unat_lt_two_power [of a] show ?thesis
    by (simp add: word_less_nat_alt unat_sat_add)
qed

lemma sat_add_1_leI: "a < b \<Longrightarrow> sat_add a (1 :: 'a::len word) \<le> b"
proof -
  assume "a < b"
  then have "unat a < unat b" by (simp add: word_less_nat_alt)
  then show ?thesis
    by (cases "LENGTH('a) = 0") (auto simp: word_le_nat_alt unat_sat_add)
qed


text \<open>Integer casts: \<open>as\<close> keeps the value modulo the target's width.\<close>

lemma unat_ucast_mod: "unat (ucast (w :: 'a::len word) :: 'b::len word) = unat w mod 2 ^ LENGTH('b)"
proof -
  have "(ucast w :: 'b word) = word_of_nat (unat w)" by simp
  then show ?thesis by (simp only: unsigned_of_nat take_bit_eq_mod) simp
qed

lemma unat_word_of_nat: "n < 2 ^ LENGTH('a) \<Longrightarrow> unat (word_of_nat n :: 'a::len word) = n"
  by (simp add: unsigned_of_nat take_bit_eq_mod)

lemma low_bits: "unat a < 2 ^ n \<Longrightarrow> bit a i \<Longrightarrow> i < n"
proof -
  assume less: "unat a < 2 ^ n" and "bit a i"
  then have "bit (unat a) i" by (simp add: bit_unsigned_iff)
  moreover have "take_bit n (unat a) = unat a" using less by (simp add: take_bit_nat_eq_self)
  ultimately show ?thesis by (metis bit_take_bit_iff)
qed


subsection \<open>Big-endian integers\<close>

text \<open>An unsigned integer as \<open>Display\<close> writes it.\<close>

fun decimal :: "nat \<Rightarrow> string" where
  "decimal n = (if n < 10 then [] else decimal (n div 10)) @ [char_of (48 + n mod 10)]"

declare decimal.simps [simp del]

text \<open>\<open>to_be_bytes\<close> and \<open>from_be_bytes\<close> at any width.\<close>

primrec be_bytes :: "nat \<Rightarrow> nat \<Rightarrow> bytes" where
  "be_bytes 0 n = []"
| "be_bytes (Suc k) n = be_bytes k (n div 256) @ [word_of_nat n]"

definition be_nat :: "bytes \<Rightarrow> nat" where
  "be_nat bs = foldl (\<lambda>acc b. 256 * acc + unat b) 0 bs"

lemma length_be_bytes [simp]: "length (be_bytes k n) = k"
  by (induction k arbitrary: n) auto

lemma be_nat_Nil [simp]: "be_nat [] = 0"
  by (simp add: be_nat_def)

lemma be_nat_snoc [simp]: "be_nat (bs @ [b]) = 256 * be_nat bs + unat b"
  by (simp add: be_nat_def)

lemma be_nat_be_bytes: "be_nat (be_bytes k n) = n mod 256 ^ k"
proof (induction k arbitrary: n)
  case 0
  show ?case by simp
next
  case (Suc k)
  have "n mod 256 ^ Suc k = 256 * (n div 256 mod 256 ^ k) + n mod 256"
    by (simp add: mod_mult2_eq)
  then show ?case using Suc [of "n div 256"]
    by (simp add: unsigned_of_nat take_bit_eq_mod)
qed

lemma be_nat_be_bytes_lt: "n < 256 ^ k \<Longrightarrow> be_nat (be_bytes k n) = n"
  by (simp add: be_nat_be_bytes)

lemma be_bytes_be_nat: "be_bytes (length bs) (be_nat bs) = bs"
proof (induction bs rule: rev_induct)
  case Nil
  show ?case by simp
next
  case (snoc b bs)
  have "unat b < 256" using unsigned_less [of b] by simp
  then have "(256 * be_nat bs + unat b) div 256 = be_nat bs" by simp
  moreover have "(word_of_nat (256 * be_nat bs + unat b) :: u8) = b"
    using \<open>unat b < 256\<close>
    by (simp only: word_unat_eq_iff unsigned_of_nat take_bit_eq_mod) simp
  ultimately show ?case using snoc by simp
qed

lemma be_nat_bound: "be_nat bs < 256 ^ length bs"
proof (induction bs rule: rev_induct)
  case Nil
  show ?case by simp
next
  case (snoc b bs)
  have "unat b < 256" using unsigned_less [of b] by simp
  with snoc show ?case by simp
qed


subsection \<open>Text\<close>

text \<open>\<open>str::as_bytes\<close> and back.\<close>

definition str_bytes :: "string \<Rightarrow> bytes" where
  "str_bytes s = map (\<lambda>c. word_of_nat (of_char c)) s"

definition bytes_str :: "bytes \<Rightarrow> string" where
  "bytes_str bs = map (\<lambda>b. char_of (unat b)) bs"

lemma length_str_bytes [simp]: "length (str_bytes s) = length s"
  by (simp add: str_bytes_def)

lemma length_bytes_str [simp]: "length (bytes_str bs) = length bs"
  by (simp add: bytes_str_def)

lemma unat_char_byte: "unat (word_of_nat (of_char c) :: u8) = (of_char c :: nat)"
proof -
  have "(of_char c :: nat) < 256" by simp
  then show ?thesis by (simp add: unsigned_of_nat take_bit_eq_mod)
qed

lemma bytes_str_str_bytes [simp]: "bytes_str (str_bytes s) = s"
  by (induction s) (simp_all add: str_bytes_def bytes_str_def unat_char_byte)

lemma str_bytes_bytes_str [simp]: "str_bytes (bytes_str bs) = bs"
proof (induction bs)
  case Nil
  show ?case by (simp add: str_bytes_def bytes_str_def)
next
  case (Cons b bs)
  have "unat b < 256" using unsigned_less [of b] by simp
  with Cons show ?case by (simp add: str_bytes_def bytes_str_def)
qed

lemma str_bytes_inject [simp]: "str_bytes s = str_bytes t \<longleftrightarrow> s = t"
  by (metis bytes_str_str_bytes)

lemma str_bytes_append: "str_bytes (s @ t) = str_bytes s @ str_bytes t"
  by (simp add: str_bytes_def)


subsection \<open>UTF-8\<close>

text \<open>
  \<open>std::str::from_utf8\<close> accepts exactly the well-formed sequences of the Unicode standard
  (table 3-7): no overlong form, no surrogate, nothing past U+10FFFF.  \<open>utf8_step\<close> reads one
  scalar value off the front; \<open>utf8_chars\<close> is \<open>str::chars\<close>, or \<open>None\<close> where the bytes are
  not UTF-8.
\<close>

definition utf8_cont :: "nat \<Rightarrow> bool" where
  "utf8_cont b \<longleftrightarrow> 128 \<le> b \<and> b \<le> 191"

definition utf8_step :: "nat list \<Rightarrow> (nat \<times> nat list) option" where
  "utf8_step bs = (case bs of
     [] \<Rightarrow> None
   | a # r \<Rightarrow>
      if a < 128 then Some (a, r)
      else if 194 \<le> a \<and> a \<le> 223 then
        (case r of
           b # r' \<Rightarrow> if utf8_cont b then Some ((a - 192) * 64 + (b - 128), r') else None
         | _ \<Rightarrow> None)
      else if 224 \<le> a \<and> a \<le> 239 then
        (case r of
           b # c # r' \<Rightarrow>
             if utf8_cont b \<and> utf8_cont c \<and> (a = 224 \<longrightarrow> 160 \<le> b) \<and> (a = 237 \<longrightarrow> b \<le> 159)
             then Some ((a - 224) * 4096 + (b - 128) * 64 + (c - 128), r') else None
         | _ \<Rightarrow> None)
      else if 240 \<le> a \<and> a \<le> 244 then
        (case r of
           b # c # d # r' \<Rightarrow>
             if utf8_cont b \<and> utf8_cont c \<and> utf8_cont d
                \<and> (a = 240 \<longrightarrow> 144 \<le> b) \<and> (a = 244 \<longrightarrow> b \<le> 143)
             then Some ((a - 240) * 262144 + (b - 128) * 4096 + (c - 128) * 64 + (d - 128), r')
             else None
         | _ \<Rightarrow> None)
      else None)"

lemma utf8_step_shorter: "utf8_step bs = Some (c, r) \<Longrightarrow> length r < length bs"
  by (auto simp: utf8_step_def split: list.splits if_splits)

function utf8_chars :: "nat list \<Rightarrow> nat list option" where
  "utf8_chars bs =
     (if bs = [] then Some []
      else case utf8_step bs of
             None \<Rightarrow> None
           | Some (c, r) \<Rightarrow> map_option ((#) c) (utf8_chars r))"
  by pat_completeness auto
termination
  by (relation "measure length") (auto dest: utf8_step_shorter)

declare utf8_chars.simps [simp del]

definition utf8_valid :: "bytes \<Rightarrow> bool" where
  "utf8_valid bs \<longleftrightarrow> utf8_chars (map unat bs) \<noteq> None"

definition str_valid :: "string \<Rightarrow> bool" where
  "str_valid s \<longleftrightarrow> utf8_valid (str_bytes s)"

text \<open>\<open>str::chars\<close>, as scalar values.\<close>

definition str_chars :: "string \<Rightarrow> nat list" where
  "str_chars s = (case utf8_chars (map unat (str_bytes s)) of None \<Rightarrow> [] | Some cs \<Rightarrow> cs)"

lemma utf8_chars_ascii: "\<forall>b\<in>set bs. b < 128 \<Longrightarrow> utf8_chars bs = Some bs"
proof (induction bs)
  case Nil
  show ?case by (simp add: utf8_chars.simps)
next
  case (Cons b bs)
  then have "utf8_step (b # bs) = Some (b, bs)" by (simp add: utf8_step_def)
  with Cons show ?case by (simp add: utf8_chars.simps [of "b # bs"])
qed

lemma utf8_step_takes: "utf8_step bs = Some (c, r) \<Longrightarrow> length bs \<le> length r + 4"
  by (auto simp: utf8_step_def split: list.splits if_splits)

lemma utf8_chars_length: "utf8_chars bs = Some cs \<Longrightarrow> length bs \<le> 4 * length cs"
proof (induction bs arbitrary: cs rule: utf8_chars.induct)
  case (1 bs)
  show ?case
  proof (cases "bs = []")
    case False
    with 1(2) obtain c r cs' where "utf8_step bs = Some (c, r)" "utf8_chars r = Some cs'" "cs = c # cs'"
      by (auto simp: utf8_chars.simps [of bs] split: option.splits)
    with 1(1) [OF False] utf8_step_takes [of bs c r] show ?thesis by fastforce
  qed simp
qed

lemma str_chars_length: "str_valid s \<Longrightarrow> length s \<le> 4 * length (str_chars s)"
  using utf8_chars_length [of "map unat (str_bytes s)"]
  by (auto simp: str_valid_def utf8_valid_def str_chars_def)

definition str_ascii :: "string \<Rightarrow> bool" where
  "str_ascii s \<longleftrightarrow> (\<forall>c\<in>set s. (of_char c :: nat) < 128)"

lemma map_unat_str_bytes: "map unat (str_bytes s) = map of_char s"
  by (simp add: str_bytes_def unat_char_byte)

lemma str_ascii_chars: "str_ascii s \<Longrightarrow> utf8_chars (map unat (str_bytes s)) = Some (map of_char s)"
  unfolding map_unat_str_bytes by (rule utf8_chars_ascii) (auto simp: str_ascii_def)

lemma str_ascii_valid: "str_ascii s \<Longrightarrow> str_valid s"
  by (simp add: str_valid_def utf8_valid_def str_ascii_chars)


subsection \<open>ASCII\<close>

definition is_ascii_lower :: "char \<Rightarrow> bool" where
  "is_ascii_lower c \<longleftrightarrow> CHR ''a'' \<le> c \<and> c \<le> CHR ''z''"

definition is_ascii_upper :: "char \<Rightarrow> bool" where
  "is_ascii_upper c \<longleftrightarrow> CHR ''A'' \<le> c \<and> c \<le> CHR ''Z''"

definition is_ascii_digit :: "char \<Rightarrow> bool" where
  "is_ascii_digit c \<longleftrightarrow> CHR ''0'' \<le> c \<and> c \<le> CHR ''9''"

text \<open>\<open>to_ascii_lowercase\<close> and \<open>to_ascii_uppercase\<close>.\<close>

definition ascii_lower :: "char \<Rightarrow> char" where
  "ascii_lower c = (if is_ascii_upper c then char_of (of_char c + 32 :: nat) else c)"

definition ascii_upper :: "char \<Rightarrow> char" where
  "ascii_upper c = (if is_ascii_lower c then char_of (of_char c - 32 :: nat) else c)"

definition to_ascii_lowercase :: "string \<Rightarrow> string" where
  "to_ascii_lowercase s = map ascii_lower s"


subsection \<open>Lists\<close>

text \<open>\<open>slice::windows(2)\<close>.\<close>

fun windows2 :: "'a list \<Rightarrow> ('a \<times> 'a) list" where
  "windows2 (x # y # zs) = (x, y) # windows2 (y # zs)"
| "windows2 _ = []"

lemma windows2_sorted_distinct:
  fixes xs :: "'a::linorder list"
  assumes "sorted xs"
  shows "(\<forall>(a, b)\<in>set (windows2 xs). a \<noteq> b) \<longleftrightarrow> distinct xs"
  using assms
proof (induction xs rule: windows2.induct)
  case (1 x y zs)
  then show ?case by force
qed auto

lemma windows2_map: "windows2 (map f xs) = map (\<lambda>(a, b). (f a, f b)) (windows2 xs)"
  by (induction xs rule: windows2.induct) auto

text \<open>\<open>Iterator::max\<close> over \<open>u64\<close>s.\<close>

definition max_opt :: "'a::linorder list \<Rightarrow> 'a option" where
  "max_opt xs = (if xs = [] then None else Some (Max (set xs)))"

lemma max_opt_None_iff [simp]: "max_opt xs = None \<longleftrightarrow> xs = []"
  by (simp add: max_opt_def)

lemma max_opt_ge: "x \<in> set xs \<Longrightarrow> \<exists>m. max_opt xs = Some m \<and> x \<le> m"
  by (auto simp: max_opt_def)

lemma max_opt_in: "max_opt xs = Some m \<Longrightarrow> m \<in> set xs"
  by (auto simp: max_opt_def split: if_splits dest: Max_in [rotated])


subsection \<open>Runs\<close>

text \<open>What one step keeps, and an order it moves up in, hold of runs.\<close>

locale monotone_steps =
  fixes step :: "'s \<Rightarrow> 's \<Rightarrow> bool"
    and ok :: "'s \<Rightarrow> bool"
    and le :: "'s \<Rightarrow> 's \<Rightarrow> bool"
  assumes le_refl: "le x x"
    and le_trans: "le x y \<Longrightarrow> le y z \<Longrightarrow> le x z"
    and keeps_ok: "step x y \<Longrightarrow> ok x \<Longrightarrow> ok y"
    and moves_up: "step x y \<Longrightarrow> ok x \<Longrightarrow> le x y"
begin

lemma run_ok: "step\<^sup>*\<^sup>* x y \<Longrightarrow> ok x \<Longrightarrow> ok y"
  by (induction rule: rtranclp_induct) (auto intro: keeps_ok)

lemma run_le: "step\<^sup>*\<^sup>* x y \<Longrightarrow> ok x \<Longrightarrow> le x y"
  by (induction rule: rtranclp_induct) (auto intro: le_refl le_trans moves_up run_ok)

end

end
