(* ===== verification/Access_Bits.thy ===== *)
theory Access_Bits
  imports Prelude
begin

section \<open>The access bitmap\<close>

text \<open>
  \<^verbatim>\<open>crates/hxd-core/src/access.rs\<close>: the 64-bit privilege bitmap that goes on the wire, its
  big-endian form and the names its bits are granted by.  Protocol bit \<open>n\<close> is stored at
  \<open>1 << (63 - n)\<close>, so bit 0 is the most significant bit of byte 0.
\<close>

unbundle bit_operations_syntax

datatype access_bits = AccessBits (raw: u64)

definition access_empty :: access_bits where
  "access_empty = AccessBits 0"

definition from_wire :: "bytes \<Rightarrow> access_bits" where
  "from_wire bs = AccessBits (word_of_nat (be_nat bs))"

definition to_wire :: "access_bits \<Rightarrow> bytes" where
  "to_wire a = be_bytes 8 (unat (raw a))"

definition from_raw :: "u64 \<Rightarrow> access_bits" where
  "from_raw r = AccessBits r"

definition has :: "access_bits \<Rightarrow> u8 \<Rightarrow> bool" where
  "has a n \<longleftrightarrow> n < 64 \<and> raw a AND push_bit (unat (63 - n)) 1 \<noteq> 0"

definition access_without :: "access_bits \<Rightarrow> u8 \<Rightarrow> access_bits" where
  "access_without a n =
     (if n < 64 then AccessBits (raw a AND NOT (push_bit (unat (63 - n)) 1)) else a)"

definition access_with :: "access_bits \<Rightarrow> u8 \<Rightarrow> access_bits" where
  "access_with a n =
     (if n < 64 then AccessBits (raw a OR push_bit (unat (63 - n)) 1) else a)"

text \<open>The table \<open>NAMES\<close>, with the numbers of the constants in module \<open>bit\<close> written in.\<close>

definition NAMES :: "(string \<times> u8) list" where
  "NAMES = [
     (''delete_files'', 0), (''upload_files'', 1), (''download_files'', 2),
     (''rename_files'', 3), (''move_files'', 4), (''create_folders'', 5),
     (''delete_folders'', 6), (''rename_folders'', 7), (''move_folders'', 8),
     (''read_chat'', 9), (''send_chat'', 10), (''create_pchats'', 11),
     (''create_users'', 14), (''delete_users'', 15), (''read_users'', 16),
     (''modify_users'', 17), (''read_news'', 20), (''post_news'', 21),
     (''disconnect_users'', 22), (''cant_be_disconnected'', 23), (''get_user_info'', 24),
     (''upload_anywhere'', 25), (''use_any_name'', 26), (''dont_show_agreement'', 27),
     (''comment_files'', 28), (''comment_folders'', 29), (''view_drop_boxes'', 30),
     (''make_aliases'', 31), (''can_broadcast'', 32), (''delete_articles'', 33),
     (''create_categories'', 34), (''delete_categories'', 35), (''create_news_bundles'', 36),
     (''delete_news_bundles'', 37), (''upload_folders'', 38), (''download_folders'', 39),
     (''send_msgs'', 40), (''voice_chat'', 55), (''read_chat_history'', 56),
     (''send_media'', 57), (''messaging'', 58), (''video_chat'', 59), (''screen_share'', 60)]"

definition named :: "string \<Rightarrow> u8 option" where
  "named name = map_option snd (find (\<lambda>p. fst p = name) NAMES)"

definition names_of :: "access_bits \<Rightarrow> string list \<times> u8 list" where
  "names_of access =
     (map fst (filter (\<lambda>p. has access (snd p)) NAMES),
      filter (\<lambda>b. has access b \<and> \<not> (\<exists>p\<in>set NAMES. snd p = b)) (map word_of_nat [0..<64]))"

text \<open>
  Granting a list of names and numbers one by one, as an account file's \<open>[access]\<close> table is
  read: the reference the tests of \<open>names_of\<close> go through.
\<close>

definition grant_all :: "u8 list \<Rightarrow> access_bits" where
  "grant_all bs = foldl access_with access_empty bs"


subsection \<open>Bits\<close>

lemma has_bit: "has a n \<longleftrightarrow> n < 64 \<and> bit (raw a) (63 - unat n)"
proof -
  have "n < 64 \<Longrightarrow> unat (63 - n) = 63 - unat n"
    by (simp add: unat_sub word_le_nat_alt word_less_nat_alt)
  then show ?thesis
    by (auto simp: has_def bit_iff_and_push_bit_not_eq_0)
qed

lemma bit_pos_inject: "m < (64::u8) \<Longrightarrow> n < 64 \<Longrightarrow> 63 - unat m = 63 - unat n \<longleftrightarrow> m = n"
  by (auto simp: word_less_nat_alt word_unat_eq_iff)

lemma bit_single: "bit (2 ^ k :: u64) j \<longleftrightarrow> j = k \<and> k < 64"
  by (auto simp: bit_exp_iff)

lemma unat_pos: "n < (64::u8) \<Longrightarrow> unat (63 - n) = 63 - unat n"
  by (simp add: unat_sub word_le_nat_alt word_less_nat_alt)

lemma has_with: "has (access_with a n) m \<longleftrightarrow> (m = n \<and> n < 64) \<or> has a m"
  by (auto simp: has_bit access_with_def bit_or_iff bit_single unat_pos bit_pos_inject)

lemma has_without: "has (access_without a n) m \<longleftrightarrow> has a m \<and> m \<noteq> n"
proof (cases "n < 64")
  case True
  then show ?thesis
    by (auto simp: has_bit access_without_def bit_and_iff bit_not_iff bit_single unat_pos bit_pos_inject)
next
  case False
  then show ?thesis by (auto simp: has_bit access_without_def)
qed

lemma has_empty [simp]: "\<not> has access_empty n"
  by (simp add: has_bit access_empty_def)

lemma access_bits_eqI: "(\<And>n. has a n = has b n) \<Longrightarrow> a = b"
proof -
  assume same: "\<And>n. has a n = has b n"
  have "bit (raw a) k = bit (raw b) k" if "k < 64" for k
  proof -
    have "unat (word_of_nat (63 - k) :: u8) = 63 - k"
      by (simp only: unsigned_of_nat take_bit_eq_mod) simp
    moreover have "63 - k < (64 :: nat)" by linarith
    ultimately show ?thesis
      using that same [of "word_of_nat (63 - k)"] by (simp only: has_bit word_less_nat_alt) simp
  qed
  then have "raw a = raw b" by (intro bit_word_eqI) simp
  then show ?thesis by (simp add: access_bits.expand)
qed

text \<open>Granting a bit sets that bit and no other, and clearing it clears that bit and no
  other; protocol numbers of 64 and above are inert in both.\<close>

theorem access_with_without:
  "(has (access_with a n) m \<longleftrightarrow> has a m \<or> (m = n \<and> n < 64))
   \<and> (has (access_without a n) m \<longleftrightarrow> has a m \<and> m \<noteq> n)
   \<and> \<not> has a 64"
  by (auto simp: has_with has_without) (simp add: has_def)


subsection \<open>The wire form\<close>

lemma bit_be_nat:
  "bit (be_nat bs) k \<longleftrightarrow> k div 8 < length bs \<and> bit (bs ! (length bs - 1 - k div 8)) (k mod 8)"
proof (induction bs arbitrary: k rule: rev_induct)
  case Nil
  then show ?case by simp
next
  case (snoc b bs)
  let ?z = "256 * be_nat bs + unat b"
  have b: "unat b < 256" using unsigned_less [of b] by simp
  show ?case
  proof (cases "k < 8")
    case True
    have "take_bit 8 ?z = unat b" using b by (simp add: take_bit_eq_mod)
    then have "bit ?z k = bit (unat b) k" using True by (metis bit_take_bit_iff)
    also have "\<dots> = bit b k" by (simp add: bit_unsigned_iff)
    finally show ?thesis using True by simp
  next
    case False
    have "drop_bit 8 ?z = be_nat bs" using b by (simp add: drop_bit_eq_div)
    moreover have "bit (drop_bit 8 ?z) (k - 8) = bit ?z k"
      using False by (simp only: bit_drop_bit_eq comp_apply) simp
    ultimately have "bit ?z k = bit (be_nat bs) (k - 8)" by simp
    moreover have "k div 8 = Suc ((k - 8) div 8)" "k mod 8 = (k - 8) mod 8"
      using False by (simp_all add: le_div_geq le_mod_geq not_less)
    ultimately show ?thesis using snoc [of "k - 8"] by (auto simp: nth_append)
  qed
qed

lemma length_to_wire [simp]: "length (to_wire a) = 8"
  by (simp add: to_wire_def)

lemma from_wire_to_wire: "from_wire (to_wire a) = a"
proof -
  have "unat (raw a) < 256 ^ 8" using unsigned_less [of "raw a"] by simp
  then show ?thesis by (simp add: from_wire_def to_wire_def be_nat_be_bytes_lt)
qed

lemma unat_be_u64: "length bs = 8 \<Longrightarrow> unat (word_of_nat (be_nat bs) :: u64) = be_nat bs"
proof -
  assume "length bs = 8"
  then have "be_nat bs < 2 ^ 64" using be_nat_bound [of bs] by simp
  then show ?thesis by (simp add: unsigned_of_nat take_bit_eq_mod)
qed

lemma to_wire_from_wire: "length bs = 8 \<Longrightarrow> to_wire (from_wire bs) = bs"
  using be_bytes_be_nat [of bs] unat_be_u64 [of bs] by (simp add: from_wire_def to_wire_def)

lemma has_from_wire:
  assumes "length bs = 8"
  shows "has (from_wire bs) n \<longleftrightarrow> n < 64 \<and> bit (bs ! (unat n div 8)) (7 - unat n mod 8)"
proof (cases "n < 64")
  case True
  then have n: "unat n < 64" by (simp add: word_less_nat_alt)
  have "unat n mod 8 \<le> 7" "unat n div 8 \<le> 7" using n by auto
  then have split: "63 - unat n = 8 * (7 - unat n div 8) + (7 - unat n mod 8)"
    using div_mult_mod_eq [of "unat n" 8] by linarith
  then have div: "(63 - unat n) div 8 = 7 - unat n div 8" and mod: "(63 - unat n) mod 8 = 7 - unat n mod 8"
    by (simp_all only: split div_mult_self4 mod_mult_self4) auto
  have "bit (word_of_nat (be_nat bs) :: u64) (63 - unat n) = bit (be_nat bs) (63 - unat n)"
    by (subst unat_be_u64 [OF assms, symmetric]) (simp add: bit_unsigned_iff)
  moreover have "7 - unat n div 8 < 8" by linarith
  then have "bit (be_nat bs) (63 - unat n) = bit (bs ! (unat n div 8)) (7 - unat n mod 8)"
    using assms n by (simp add: bit_be_nat div mod)
  ultimately show ?thesis using True by (simp add: has_bit from_wire_def)
qed (simp add: has_bit)

text \<open>The wire form is a bijection between bitmaps and 8-byte strings, and protocol bit
  \<open>n\<close> is bit \<open>7 - n mod 8\<close> of byte \<open>n div 8\<close>: bit 0 the most significant bit of byte 0.\<close>

theorem access_wire_roundtrip:
  assumes "length bs = 8"
  shows "from_wire (to_wire a) = a \<and> to_wire (from_wire bs) = bs
    \<and> (has (from_wire bs) n \<longleftrightarrow> n < 64 \<and> bit (bs ! (unat n div 8)) (7 - unat n mod 8))"
  using assms by (simp add: from_wire_to_wire to_wire_from_wire has_from_wire)

theorem access_wire_roundtrip_witness:
  "to_wire (from_wire [0xff, 0xf3, 0xcf, 0xef, 0xff, 0x80, 0, 0])
     = [0xff, 0xf3, 0xcf, 0xef, 0xff, 0x80, 0, 0]"
  using access_wire_roundtrip [of "[0xff, 0xf3, 0xcf, 0xef, 0xff, 0x80, 0, 0]"] by simp


subsection \<open>Names\<close>

lemma has_grant_all: "has (grant_all bs) m \<longleftrightarrow> m < 64 \<and> m \<in> set bs"
  unfolding grant_all_def
  by (induction bs rule: rev_induct) (auto simp: has_with)

lemma NAMES_distinct: "distinct (map fst NAMES)"
  by code_simp

lemma find_fst_distinct:
  "distinct (map fst xs) \<Longrightarrow> (n, b) \<in> set xs \<Longrightarrow> find (\<lambda>p. fst p = n) xs = Some (n, b)"
  by (induction xs) (auto simp: image_iff split: prod.splits)

lemma named_NAMES: "(n, b) \<in> set NAMES \<Longrightarrow> named n = Some b"
  using find_fst_distinct [OF NAMES_distinct] by (simp add: named_def)

lemma words_below_64: "n < (64 :: u8) \<Longrightarrow> n \<in> set (map word_of_nat [0..<64])"
proof -
  assume "n < 64"
  then have "unat n < 64" by (simp add: word_less_nat_alt)
  then have "(word_of_nat (unat n) :: u8) \<in> word_of_nat ` {0..<64}" by (intro imageI) simp
  then show ?thesis by simp
qed

text \<open>What \<open>names_of\<close> lists is exactly the bitmap: granting the bits its names name,
  and the numbers it lists beside them, gives the bitmap back.\<close>

theorem names_of_complete:
  "grant_all (map (\<lambda>n. the (named n)) (fst (names_of a)) @ snd (names_of a)) = a"
proof (rule access_bits_eqI)
  fix m
  have names: "(\<lambda>p. the (named (fst p))) ` {p \<in> set NAMES. has a (snd p)}
        = snd ` {p \<in> set NAMES. has a (snd p)}"
    by (rule image_cong) (auto simp: named_NAMES)
  have "has (grant_all (map (\<lambda>n. the (named n)) (fst (names_of a)) @ snd (names_of a))) m
        \<longleftrightarrow> m < 64 \<and> (m \<in> snd ` {p \<in> set NAMES. has a (snd p)} \<or> m \<in> set (snd (names_of a)))"
    using names by (simp add: has_grant_all names_of_def image_image)
  also have "\<dots> \<longleftrightarrow> has a m"
    using words_below_64 [of m] by (auto simp: names_of_def has_bit)
  finally show "has (grant_all (map (\<lambda>n. the (named n)) (fst (names_of a)) @ snd (names_of a))) m
        = has a m" .
qed

end
