(* ===== verification/Cbor.thy ===== *)
theory Cbor
  imports Prelude
begin

section \<open>Deterministic CBOR\<close>

text \<open>
  \<^verbatim>\<open>crates/hl-identity/src/cbor.rs\<close>: the codec of every signed object.  The encoder writes
  shortest heads and sorts map entries by their encoded keys; the decoder reads any definite
  length item of the subset and \<open>decode_canonical\<close> then refuses input that is not exactly the
  encoding of what was read, or that repeats a map key.

  A \<open>Reader { buf, pos }\<close> is represented by its unread suffix \<open>drop pos buf\<close>: \<open>byte\<close>,
  \<open>take\<close>, \<open>head\<close> and \<open>item\<close> return what they read and the suffix left.  \<open>item\<close> and its two
  loops terminate because the depth bound refuses nesting past \<open>MAX_DEPTH\<close>.
\<close>

unbundle bit_operations_syntax

datatype cbor_value =
    Uint u64
  | Bytes bytes
  | Text string
  | Array "cbor_value list"
  | Map "(cbor_value \<times> cbor_value) list"
  | Bool bool

datatype cbor_error = Truncated | Trailing | Unsupported u8 | Utf8 | TooDeep | NotCanonical

definition MAX_DEPTH :: nat where
  "MAX_DEPTH = 8"


subsection \<open>Encoding\<close>

definition put_head :: "u8 \<Rightarrow> u64 \<Rightarrow> bytes" where
  "put_head major n =
     (let mt = push_bit 5 major in
      if n < 24 then [mt OR ucast n]
      else if n \<le> 0xff then [mt OR 24, ucast n]
      else if n \<le> 0xffff then (mt OR 25) # be_bytes 2 (unat (ucast n :: u16))
      else if n \<le> 0xffffffff then (mt OR 26) # be_bytes 4 (unat (ucast n :: u32))
      else (mt OR 27) # be_bytes 8 (unat n))"

fun encode :: "cbor_value \<Rightarrow> bytes" where
  "encode (Uint n) = put_head 0 n"
| "encode (Bytes b) = put_head 2 (word_of_nat (length b)) @ b"
| "encode (Text s) = put_head 3 (word_of_nat (length s)) @ str_bytes s"
| "encode (Array items) = put_head 4 (word_of_nat (length items)) @ concat (map encode items)"
| "encode (Map entries) =
     (let encoded = sort_key fst (map (\<lambda>p. (encode (fst p), encode (snd p))) entries)
      in put_head 5 (word_of_nat (length encoded)) @ concat (map (\<lambda>p. fst p @ snd p) encoded))"
| "encode (Bool b) = [if b then 0xf5 else 0xf4]"


subsection \<open>Decoding\<close>

definition rd_byte :: "bytes \<Rightarrow> cbor_error + u8 \<times> bytes" where
  "rd_byte bs = (case bs of [] \<Rightarrow> Inl Truncated | b # r \<Rightarrow> Inr (b, r))"

definition rd_take :: "nat \<Rightarrow> bytes \<Rightarrow> cbor_error + bytes \<times> bytes" where
  "rd_take n bs = (if n \<le> length bs then Inr (take n bs, drop n bs) else Inl Truncated)"

definition rd_head :: "bytes \<Rightarrow> cbor_error + (u8 \<times> u64) \<times> bytes" where
  "rd_head bs =
     bindR (rd_byte bs) (\<lambda>(b, r).
       let major = drop_bit 5 b; ai = b AND 0x1f in
       if ai \<le> 23 then Inr ((major, ucast ai), r)
       else if ai = 24 then bindR (rd_byte r) (\<lambda>(c, r'). Inr ((major, ucast c), r'))
       else if ai = 25 then bindR (rd_take 2 r) (\<lambda>(c, r'). Inr ((major, word_of_nat (be_nat c)), r'))
       else if ai = 26 then bindR (rd_take 4 r) (\<lambda>(c, r'). Inr ((major, word_of_nat (be_nat c)), r'))
       else if ai = 27 then bindR (rd_take 8 r) (\<lambda>(c, r'). Inr ((major, word_of_nat (be_nat c)), r'))
       else Inl (Unsupported b))"

text \<open>\<open>Reader::item\<close>, and its two \<open>for _ in 0..count\<close> loops as \<open>rd_items\<close> and
  \<open>rd_entries\<close>.\<close>

function (sequential)
      rd_item :: "nat \<Rightarrow> bytes \<Rightarrow> cbor_error + cbor_value \<times> bytes"
  and rd_items :: "nat \<Rightarrow> nat \<Rightarrow> bytes \<Rightarrow> cbor_error + cbor_value list \<times> bytes"
  and rd_entries ::
        "nat \<Rightarrow> nat \<Rightarrow> bytes \<Rightarrow> cbor_error + (cbor_value \<times> cbor_value) list \<times> bytes"
where
  "rd_item depth bs =
     (if MAX_DEPTH < depth then Inl TooDeep
      else if bs \<noteq> [] \<and> hd bs = 0xf4 then Inr (Bool False, tl bs)
      else if bs \<noteq> [] \<and> hd bs = 0xf5 then Inr (Bool True, tl bs)
      else bindR (rd_head bs) (\<lambda>((major, n), r).
        if major = 0 then Inr (Uint n, r)
        else if major = 2 then bindR (rd_take (unat n) r) (\<lambda>(b, r'). Inr (Bytes b, r'))
        else if major = 3 then bindR (rd_take (unat n) r) (\<lambda>(b, r').
          if utf8_valid b then Inr (Text (bytes_str b), r') else Inl Utf8)
        else if major = 4 then
          (if length r < unat n then Inl Truncated
           else bindR (rd_items (Suc depth) (unat n) r) (\<lambda>(items, r'). Inr (Array items, r')))
        else if major = 5 then
          (if length r div 2 < unat n then Inl Truncated
           else bindR (rd_entries (Suc depth) (unat n) r) (\<lambda>(entries, r'). Inr (Map entries, r')))
        else Inl (Unsupported (hd bs))))"
| "rd_items depth 0 bs = Inr ([], bs)"
| "rd_items depth (Suc k) bs =
     bindR (rd_item depth bs) (\<lambda>(v, r).
     bindR (rd_items depth k r) (\<lambda>(vs, r'). Inr (v # vs, r')))"
| "rd_entries depth 0 bs = Inr ([], bs)"
| "rd_entries depth (Suc k) bs =
     bindR (rd_item depth bs) (\<lambda>(key, r).
     bindR (rd_item depth r) (\<lambda>(v, r').
     bindR (rd_entries depth k r') (\<lambda>(es, r''). Inr ((key, v) # es, r''))))"
  by pat_completeness auto
termination
  by (relation "measures [\<lambda>x. case x of Inl (d, _) \<Rightarrow> 10 - d
                          | Inr (Inl (d, _, _)) \<Rightarrow> 10 - d
                          | Inr (Inr (d, _, _)) \<Rightarrow> 10 - d,
                        \<lambda>x. case x of Inl _ \<Rightarrow> 0
                          | Inr (Inl (_, k, _)) \<Rightarrow> Suc k
                          | Inr (Inr (_, k, _)) \<Rightarrow> Suc k]")
     (auto simp: MAX_DEPTH_def)

declare rd_item.simps [simp del]

fun has_duplicate_keys :: "cbor_value \<Rightarrow> bool" where
  "has_duplicate_keys (Map entries) =
     ((\<exists>w\<in>set (windows2 entries). fst (fst w) = fst (snd w))
      \<or> (\<exists>p\<in>set entries. has_duplicate_keys (fst p) \<or> has_duplicate_keys (snd p)))"
| "has_duplicate_keys (Array items) = (\<exists>v\<in>set items. has_duplicate_keys v)"
| "has_duplicate_keys _ = False"

definition decode_canonical :: "bytes \<Rightarrow> cbor_error + cbor_value" where
  "decode_canonical bs =
     bindR (rd_item 0 bs) (\<lambda>(v, r).
       if r \<noteq> [] then Inl Trailing
       else if encode v \<noteq> bs then Inl NotCanonical
       else if has_duplicate_keys v then Inl NotCanonical
       else Inr v)"

definition item_len :: "bytes \<Rightarrow> cbor_error + nat" where
  "item_len bs = bindR (rd_item 0 bs) (\<lambda>(v, r). Inr (length bs - length r))"


subsection \<open>Maps of text keys\<close>

definition value_get :: "cbor_value \<Rightarrow> string \<Rightarrow> cbor_value option" where
  "value_get v key =
     (case v of Map entries \<Rightarrow> map_option snd (find (\<lambda>p. fst p = Text key) entries) | _ \<Rightarrow> None)"

definition value_without :: "cbor_value \<Rightarrow> string \<Rightarrow> cbor_value" where
  "value_without v key =
     (case v of Map entries \<Rightarrow> Map (filter (\<lambda>p. fst p \<noteq> Text key) entries) | other \<Rightarrow> other)"

definition cbor_map :: "(string \<times> cbor_value option) list \<Rightarrow> cbor_value" where
  "cbor_map entries =
     Map (List.map_filter (\<lambda>(k, v). map_option (\<lambda>v. (Text k, v)) v) entries)"


subsection \<open>Reference notions\<close>

text \<open>
  What the codec is measured against: \<open>cbor_wf\<close> (lengths fit their 64-bit heads and text is
  UTF-8, which Rust's types guarantee), the nesting depth, the canonical form of a value (every
  map's entries in the order of their encoded keys), and that no map repeats a key.
\<close>

fun cbor_wf :: "cbor_value \<Rightarrow> bool" where
  "cbor_wf (Uint n) = True"
| "cbor_wf (Bytes b) = (length b < 2 ^ 64)"
| "cbor_wf (Text s) = (length s < 2 ^ 64 \<and> str_valid s)"
| "cbor_wf (Array items) = (length items < 2 ^ 64 \<and> (\<forall>v\<in>set items. cbor_wf v))"
| "cbor_wf (Map entries) =
     (length entries < 2 ^ 64 \<and> (\<forall>p\<in>set entries. cbor_wf (fst p) \<and> cbor_wf (snd p)))"
| "cbor_wf (Bool b) = True"

fun cbor_depth :: "cbor_value \<Rightarrow> nat" where
  "cbor_depth (Array items) = (if items = [] then 0 else Suc (Max (set (map cbor_depth items))))"
| "cbor_depth (Map entries) =
     (if entries = [] then 0
      else Suc (Max (set (map (\<lambda>p. max (cbor_depth (fst p)) (cbor_depth (snd p))) entries))))"
| "cbor_depth _ = 0"

fun cbor_canon :: "cbor_value \<Rightarrow> cbor_value" where
  "cbor_canon (Array items) = Array (map cbor_canon items)"
| "cbor_canon (Map entries) =
     Map (map snd (sort_key fst
       (map (\<lambda>p. (encode (fst p), (cbor_canon (fst p), cbor_canon (snd p)))) entries)))"
| "cbor_canon v = v"

definition entry_key :: "cbor_value \<times> cbor_value \<Rightarrow> bytes" where
  "entry_key p = encode (fst p)"

fun cbor_distinct :: "cbor_value \<Rightarrow> bool" where
  "cbor_distinct (Map entries) =
     (distinct (map (\<lambda>p. encode (fst p)) entries)
      \<and> (\<forall>p\<in>set entries. cbor_distinct (fst p) \<and> cbor_distinct (snd p)))"
| "cbor_distinct (Array items) = (\<forall>v\<in>set items. cbor_distinct v)"
| "cbor_distinct _ = True"

definition cbor_canonical :: "cbor_value \<Rightarrow> bool" where
  "cbor_canonical v \<longleftrightarrow> cbor_wf v \<and> cbor_depth v \<le> MAX_DEPTH \<and> cbor_canon v = v \<and> cbor_distinct v"

definition keys_distinct :: "(cbor_value \<times> cbor_value) list \<Rightarrow> bool" where
  "keys_distinct es \<longleftrightarrow> distinct (map entry_key es)"


subsection \<open>Heads\<close>

lemma u8_low_bits: "(a :: u8) < 32 \<Longrightarrow> bit a i \<Longrightarrow> i < 5"
  by (rule low_bits) (simp_all add: word_less_nat_alt)

lemma u8_three_bits: "(m :: u8) < 8 \<Longrightarrow> bit m i \<Longrightarrow> i < 3"
  by (rule low_bits) (simp_all add: word_less_nat_alt)

lemma head_byte_major: "m < 8 \<Longrightarrow> a < 32 \<Longrightarrow> drop_bit 5 (push_bit 5 m OR a :: u8) = m"
  by (rule bit_word_eqI)
     (auto simp: bit_drop_bit_eq bit_or_iff bit_push_bit_iff dest: u8_low_bits u8_three_bits)

lemma head_byte_info: "m < 8 \<Longrightarrow> a < 32 \<Longrightarrow> (push_bit 5 m OR a :: u8) AND 0x1f = a"
proof -
  assume "m < 8" "a < 32"
  have "(push_bit 5 m OR a) AND 0x1f = take_bit 5 (push_bit 5 m OR a)"
    by (simp add: take_bit_eq_mask mask_eq_exp_minus_1)
  also have "\<dots> = a"
    using \<open>a < 32\<close>
    by (intro bit_word_eqI) (auto simp: bit_take_bit_iff bit_or_iff bit_push_bit_iff dest: u8_low_bits)
  finally show ?thesis .
qed

lemma word_be_u64: "be_nat bs = unat n \<Longrightarrow> (word_of_nat (be_nat bs) :: u64) = n"
  by simp

lemma rd_take_app: "length a = k \<Longrightarrow> rd_take k (a @ r) = Inr (a, r)"
  by (simp add: rd_take_def)

lemma rd_head_put_head:
  assumes "m < 8"
  shows "rd_head (put_head m n @ r) = Inr ((m, n), r)"
proof -
  have m0: "drop_bit 5 (push_bit 5 m) = m" using head_byte_major [OF assms, of 0] by simp
  note head = put_head_def rd_head_def rd_byte_def head_byte_major head_byte_info rd_take_app m0
  consider "n < 24" | "\<not> n < 24" "n \<le> 0xff" | "\<not> n \<le> 0xff" "n \<le> 0xffff"
    | "\<not> n \<le> 0xffff" "n \<le> 0xffffffff" | "\<not> n \<le> 0xffffffff"
    by linarith
  then show ?thesis
  proof cases
    case 1
    then have "(ucast n :: u8) < 24" "(ucast (ucast n :: u8) :: u64) = n"
      by (simp_all only: word_less_nat_alt word_unat_eq_iff unat_ucast_mod) simp_all
    moreover from this(1) have "(ucast n :: u8) < 32" "(ucast n :: u8) \<le> 23"
      by (simp_all add: word_less_nat_alt word_le_nat_alt)
    ultimately show ?thesis
      using 1 head_byte_major [OF assms, of "ucast n"] head_byte_info [OF assms, of "ucast n"]
      by (simp add: head)
  next
    case 2
    then have "(ucast (ucast n :: u8) :: u64) = n"
      by (simp only: word_le_nat_alt word_unat_eq_iff unat_ucast_mod) simp
    with 2 assms show ?thesis by (auto simp: head)
  next
    case 3
    then have "unat n < 2 ^ 16" by (simp add: word_le_nat_alt)
    then have "be_nat (be_bytes 2 (unat (ucast n :: u16))) = unat n"
      by (simp only: unat_ucast_mod be_nat_be_bytes) simp
    note w = word_be_u64 [OF this]
    from 3 have "\<not> n < 24" by (simp add: word_less_nat_alt word_le_nat_alt)
    with 3 assms w show ?thesis by (simp add: head)
  next
    case 4
    then have "unat n < 2 ^ 32" by (simp add: word_le_nat_alt)
    then have "be_nat (be_bytes 4 (unat (ucast n :: u32))) = unat n"
      by (simp only: unat_ucast_mod be_nat_be_bytes) simp
    note w = word_be_u64 [OF this]
    from 4 have "\<not> n < 24" "\<not> n \<le> 0xff" by (simp_all add: word_less_nat_alt word_le_nat_alt)
    with 4 assms w show ?thesis by (simp add: head)
  next
    case 5
    have "unat n < 2 ^ 64" using unsigned_less [of n] by simp
    then have "be_nat (be_bytes 8 (unat n)) = unat n"
      by (simp only: be_nat_be_bytes) simp
    note w = word_be_u64 [OF this]
    from 5 have "\<not> n < 24" "\<not> n \<le> 0xff" "\<not> n \<le> 0xffff"
      by (simp_all add: word_less_nat_alt word_le_nat_alt)
    with 5 assms w show ?thesis by (simp add: head)
  qed
qed

subsection \<open>What the decoder returns for an encoding\<close>

lemma sort_key_map: "sort_key g (map f xs) = map f (sort_key (\<lambda>x. g (f x)) xs)"
proof (induction xs)
  case (Cons x xs)
  have "insort_key g (f x) (map f ys) = map f (insort_key (\<lambda>x. g (f x)) x ys)" for ys
    by (induction ys) auto
  with Cons show ?case by simp
qed simp

lemma encode_Map:
  "encode (Map es) = put_head 5 (word_of_nat (length es)) @
     concat (map (\<lambda>p. encode (fst p) @ encode (snd p)) (sort_key entry_key es))"
  by (simp add: sort_key_map entry_key_def [abs_def] o_def)

lemma cbor_canon_Map:
  "cbor_canon (Map es) = Map (map (\<lambda>p. (cbor_canon (fst p), cbor_canon (snd p))) (sort_key entry_key es))"
  by (simp add: sort_key_map entry_key_def [abs_def] o_def)

declare encode.simps(5) [simp del] cbor_canon.simps(2) [simp del]

lemma put_head_ne [simp]: "put_head m n \<noteq> []"
  by (simp add: put_head_def Let_def)

lemma length_put_head_pos: "0 < length (put_head m n)"
  by simp

lemma encode_ne: "encode v \<noteq> []"
  by (cases v) (simp_all add: encode_Map)

lemma encode_length_pos: "Suc 0 \<le> length (encode v)"
  using encode_ne [of v] by (cases "encode v") auto

lemma entry_length_ge: "2 \<le> length (encode a @ encode b)"
  using encode_length_pos [of a] encode_length_pos [of b] by simp

lemma put_head_hd:
  assumes "m < 7"
  shows "hd (put_head m n) \<noteq> 0xf4" "hd (put_head m n) \<noteq> 0xf5"
proof -
  have m: "m < 8" using assms by (simp add: word_less_nat_alt)
  have "drop_bit 5 (hd (put_head m n)) = m"
    using rd_head_put_head [OF m, of n "[]"]
    by (auto simp: rd_head_def rd_byte_def Let_def bindR_Inr_iff split: list.splits if_splits)
  moreover have "drop_bit 5 (0xf4 :: u8) = 7" "drop_bit 5 (0xf5 :: u8) = 7" by simp_all
  ultimately show "hd (put_head m n) \<noteq> 0xf4" "hd (put_head m n) \<noteq> 0xf5"
    using assms by auto
qed

lemma rd_items_concat:
  assumes "\<And>v r. v \<in> set vs \<Longrightarrow> rd_item d (encode v @ r) = Inr (cbor_canon v, r)"
  shows "rd_items d (length vs) (concat (map encode vs) @ r) = Inr (map cbor_canon vs, r)"
  using assms by (induction vs arbitrary: r) simp_all

lemma rd_entries_concat:
  assumes "\<And>p r. p \<in> set es \<Longrightarrow> rd_item d (encode (fst p) @ r) = Inr (cbor_canon (fst p), r)"
    and "\<And>p r. p \<in> set es \<Longrightarrow> rd_item d (encode (snd p) @ r) = Inr (cbor_canon (snd p), r)"
  shows "rd_entries d (length es) (concat (map (\<lambda>p. encode (fst p) @ encode (snd p)) es) @ r)
         = Inr (map (\<lambda>p. (cbor_canon (fst p), cbor_canon (snd p))) es, r)"
  using assms by (induction es arbitrary: r) simp_all

lemma length_concat_ge:
  "(\<And>x. x \<in> set xs \<Longrightarrow> c \<le> length (f x)) \<Longrightarrow> c * length xs \<le> length (concat (map f xs))"
  by (induction xs) (auto simp: add_mono)

lemma rd_item_head:
  assumes "m < 7" "d \<le> MAX_DEPTH"
  shows "rd_item d (put_head m n @ r) =
     (if m = 0 then Inr (Uint n, r)
      else if m = 2 then bindR (rd_take (unat n) r) (\<lambda>(b, r'). Inr (Bytes b, r'))
      else if m = 3 then bindR (rd_take (unat n) r) (\<lambda>(b, r').
        if utf8_valid b then Inr (Text (bytes_str b), r') else Inl Utf8)
      else if m = 4 then
        (if length r < unat n then Inl Truncated
         else bindR (rd_items (Suc d) (unat n) r) (\<lambda>(items, r'). Inr (Array items, r')))
      else if m = 5 then
        (if length r div 2 < unat n then Inl Truncated
         else bindR (rd_entries (Suc d) (unat n) r) (\<lambda>(entries, r'). Inr (Map entries, r')))
      else Inl (Unsupported (hd (put_head m n))))"
proof -
  have "m < 8" using assms(1) by (simp add: word_less_nat_alt)
  then show ?thesis
    using assms put_head_hd [OF assms(1), of n]
    by (simp add: rd_item.simps [of d] rd_head_put_head)
qed

lemma cbor_depth_Array: "v \<in> set xs \<Longrightarrow> Suc (cbor_depth v) \<le> cbor_depth (Array xs)"
  by (auto intro: Max_ge)

lemma cbor_depth_Map:
  assumes "p \<in> set es"
  shows "Suc (cbor_depth (fst p)) \<le> cbor_depth (Map es)"
    "Suc (cbor_depth (snd p)) \<le> cbor_depth (Map es)"
proof -
  have "max (cbor_depth (fst p)) (cbor_depth (snd p))
        \<le> Max ((\<lambda>p. max (cbor_depth (fst p)) (cbor_depth (snd p))) ` set es)"
    using assms by (intro Max_ge) auto
  with assms show "Suc (cbor_depth (fst p)) \<le> cbor_depth (Map es)"
    "Suc (cbor_depth (snd p)) \<le> cbor_depth (Map es)" by auto
qed

lemma rd_item_encode:
  "cbor_wf v \<Longrightarrow> d + cbor_depth v \<le> MAX_DEPTH \<Longrightarrow> rd_item d (encode v @ r) = Inr (cbor_canon v, r)"
proof (induction v arbitrary: d r rule: encode.induct)
  case (1 n)
  then show ?case by (simp add: rd_item_head)
next
  case (2 b)
  then show ?case by (simp add: rd_item_head unat_word_of_nat rd_take_app)
next
  case (3 s)
  then show ?case by (simp add: rd_item_head unat_word_of_nat rd_take_app str_valid_def)
next
  case (4 items)
  have "rd_item (Suc d) (encode v @ r') = Inr (cbor_canon v, r')" if "v \<in> set items" for v r'
    using 4 that cbor_depth_Array [OF that] by (auto simp del: cbor_depth.simps)
  then have items: "rd_items (Suc d) (length items) (concat (map encode items) @ r)
                    = Inr (map cbor_canon items, r)" by (rule rd_items_concat)
  have "length items \<le> length (concat (map encode items))"
    using length_concat_ge [of items 1 encode] by (simp add: encode_length_pos)
  with 4(2,3) items show ?case by (simp add: rd_item_head unat_word_of_nat)
next
  case (5 es)
  let ?s = "sort_key entry_key es"
  have item: "rd_item (Suc d) (encode (fst p) @ r') = Inr (cbor_canon (fst p), r')"
       "rd_item (Suc d) (encode (snd p) @ r') = Inr (cbor_canon (snd p), r')"
    if "p \<in> set ?s" for p r'
  proof -
    from that have p: "p \<in> set es" by simp
    from 5(3,4) p cbor_depth_Map [OF p]
    have w: "cbor_wf (fst p)" "cbor_wf (snd p)"
      "Suc d + cbor_depth (fst p) \<le> MAX_DEPTH" "Suc d + cbor_depth (snd p) \<le> MAX_DEPTH"
      by (auto simp del: cbor_depth.simps)
    from 5(1) [OF p w(1,3)] 5(2) [OF p w(2,4)]
    show "rd_item (Suc d) (encode (fst p) @ r') = Inr (cbor_canon (fst p), r')"
       "rd_item (Suc d) (encode (snd p) @ r') = Inr (cbor_canon (snd p), r')" by auto
  qed
  have entries: "rd_entries (Suc d) (length es)
      (concat (map (\<lambda>p. encode (fst p) @ encode (snd p)) ?s) @ r)
      = Inr (map (\<lambda>p. (cbor_canon (fst p), cbor_canon (snd p))) ?s, r)"
    using rd_entries_concat [of ?s "Suc d" r, OF item] by simp
  have "2 * length ?s \<le> length (concat (map (\<lambda>p. encode (fst p) @ encode (snd p)) ?s))"
    by (rule length_concat_ge) (rule entry_length_ge)
  with 5(3,4) entries show ?case
    by (simp add: encode_Map cbor_canon_Map rd_item_head unat_word_of_nat)
next
  case (6 b)
  then show ?case by (simp add: rd_item.simps)
qed

subsection \<open>What the decoder can return\<close>

lemma rd_byte_Inr: "rd_byte bs = Inr (b, r) \<longleftrightarrow> bs = b # r"
  by (auto simp: rd_byte_def split: list.splits)

lemma rd_take_Inr: "rd_take n bs = Inr (b, r) \<longleftrightarrow> bs = b @ r \<and> length b = n"
  by (auto simp: rd_take_def)

lemma rd_head_consumes: "rd_head bs = Inr (mn, r) \<Longrightarrow> \<exists>p. p \<noteq> [] \<and> bs = p @ r"
  by (auto simp: rd_head_def Let_def bindR_Inr_iff rd_byte_Inr rd_take_Inr split: if_splits)

lemma rd_item_cases:
  assumes "rd_item d bs = Inr (v, r)"
  obtains
    (Bool) b x where "d \<le> MAX_DEPTH" "v = Bool b" "bs = x # r"
  | (Uint) m n where "d \<le> MAX_DEPTH" "v = Uint n" "rd_head bs = Inr ((m, n), r)"
  | (Bytes) m n b where "d \<le> MAX_DEPTH" "v = Bytes b" "rd_head bs = Inr ((m, n), b @ r)" "length b = unat n"
  | (Text) m n b where "d \<le> MAX_DEPTH" "v = Text (bytes_str b)" "rd_head bs = Inr ((m, n), b @ r)"
      "length b = unat n" "utf8_valid b"
  | (Array) m n q xs where "d \<le> MAX_DEPTH" "v = Array xs" "rd_head bs = Inr ((m, n), q)"
      "rd_items (Suc d) (unat n) q = Inr (xs, r)"
  | (Map) m n q es where "d \<le> MAX_DEPTH" "v = Map es" "rd_head bs = Inr ((m, n), q)"
      "rd_entries (Suc d) (unat n) q = Inr (es, r)"
  using assms
  by (subst (asm) rd_item.simps)
     (fastforce simp: bindR_Inr_iff rd_take_Inr neq_Nil_conv not_less split: if_splits)

lemma rd_loops_consume:
  assumes "\<And>bs v r. rd_item d bs = Inr (v, r) \<Longrightarrow> \<exists>p. p \<noteq> [] \<and> bs = p @ r"
  shows "rd_items d k bs = Inr (vs, r) \<Longrightarrow> \<exists>p. bs = p @ r"
    and "rd_entries d k bs = Inr (es, r) \<Longrightarrow> \<exists>p. bs = p @ r"
proof -
  show "\<exists>p. bs = p @ r" if "rd_items d k bs = Inr (vs, r)"
    using that
    by (induction k arbitrary: bs vs) (auto simp: bindR_Inr_iff dest!: assms, metis append_assoc)
  show "\<exists>p. bs = p @ r" if "rd_entries d k bs = Inr (es, r)"
    using that
    by (induction k arbitrary: bs es) (auto simp: bindR_Inr_iff dest!: assms, metis append_assoc)
qed

lemma rd_item_consumes: "rd_item d bs = Inr (v, r) \<Longrightarrow> \<exists>p. p \<noteq> [] \<and> bs = p @ r"
proof (induction "10 - d" arbitrary: d bs v r rule: less_induct)
  case less
  have deeper: "\<exists>p. p \<noteq> [] \<and> bs' = p @ r'" if "d \<le> MAX_DEPTH" "rd_item (Suc d) bs' = Inr (v', r')" for bs' v' r'
    using that by (intro less.hyps [of "Suc d" bs' v' r']) (auto simp: MAX_DEPTH_def)
  have trans: "\<exists>p. p \<noteq> [] \<and> bs = p @ r" if "rd_head bs = Inr (mn, q)" "\<exists>p. q = p @ r" for mn q
    using rd_head_consumes [OF that(1)] that(2) by (metis append_assoc append_is_Nil_conv)
  show ?case
    using less.prems
  proof (cases rule: rd_item_cases)
    case (Array m n q xs)
    from trans [OF Array(3) rd_loops_consume(1) [OF deeper [OF Array(1)] Array(4)]] show ?thesis by simp
  next
    case (Map m n q xs)
    from trans [OF Map(3) rd_loops_consume(2) [OF deeper [OF Map(1)] Map(4)]] show ?thesis by simp
  qed (auto dest: rd_head_consumes)
qed

lemma rd_loops_all:
  assumes "\<And>bs v r. rd_item d bs = Inr (v, r) \<Longrightarrow> P v"
  shows "rd_items d k bs = Inr (vs, r) \<Longrightarrow> length vs = k \<and> (\<forall>v\<in>set vs. P v)"
    and "rd_entries d k bs = Inr (es, r) \<Longrightarrow> length es = k \<and> (\<forall>p\<in>set es. P (fst p) \<and> P (snd p))"
proof -
  show "length vs = k \<and> (\<forall>v\<in>set vs. P v)" if "rd_items d k bs = Inr (vs, r)"
    using that by (induction k arbitrary: bs vs) (auto simp: bindR_Inr_iff dest: assms)
  show "length es = k \<and> (\<forall>p\<in>set es. P (fst p) \<and> P (snd p))" if "rd_entries d k bs = Inr (es, r)"
    using that
  proof (induction k arbitrary: bs es)
    case (Suc k)
    then obtain key r1 v r2 es' where
      "rd_item d bs = Inr (key, r1)" "rd_item d r1 = Inr (v, r2)"
      "rd_entries d k r2 = Inr (es', r)" "es = (key, v) # es'"
      by (auto simp: bindR_Inr_iff)
    with Suc.IH [of r2 es'] assms [of bs key r1] assms [of r1 v r2] show ?case by simp
  qed simp
qed

lemma cbor_depth_Array_le:
  "d \<le> M \<Longrightarrow> \<forall>v\<in>set xs. Suc (d + cbor_depth v) \<le> M \<Longrightarrow> d + cbor_depth (Array xs) \<le> M"
proof -
  assume "d \<le> M" and all: "\<forall>v\<in>set xs. Suc (d + cbor_depth v) \<le> M"
  show ?thesis
  proof (cases "xs = []")
    case False
    then have "Max (cbor_depth ` set xs) \<in> cbor_depth ` set xs" by (intro Max_in) auto
    with all False show ?thesis by fastforce
  qed (simp add: \<open>d \<le> M\<close>)
qed

lemma cbor_depth_Map_le:
  "d \<le> M \<Longrightarrow> \<forall>p\<in>set es. Suc (d + cbor_depth (fst p)) \<le> M \<and> Suc (d + cbor_depth (snd p)) \<le> M
   \<Longrightarrow> d + cbor_depth (Map es) \<le> M"
proof -
  let ?f = "\<lambda>p. max (cbor_depth (fst p)) (cbor_depth (snd p))"
  assume "d \<le> M" and all: "\<forall>p\<in>set es. Suc (d + cbor_depth (fst p)) \<le> M \<and> Suc (d + cbor_depth (snd p)) \<le> M"
  show ?thesis
  proof (cases "es = []")
    case False
    then have "Max (?f ` set es) \<in> ?f ` set es" by (intro Max_in) auto
    then obtain p where "p \<in> set es" "Max (?f ` set es) = ?f p" by auto
    with all False show ?thesis by (auto simp: max_def)
  qed (simp add: \<open>d \<le> M\<close>)
qed

lemma u64_lt: "unat (n :: u64) < 2 ^ 64"
  using unsigned_less [of n] by simp

lemma rd_item_wf: "rd_item d bs = Inr (v, r) \<Longrightarrow> cbor_wf v \<and> d + cbor_depth v \<le> MAX_DEPTH"
proof (induction "10 - d" arbitrary: d bs v r rule: less_induct)
  case less
  have deeper: "cbor_wf v' \<and> Suc d + cbor_depth v' \<le> MAX_DEPTH"
    if "d \<le> MAX_DEPTH" "rd_item (Suc d) bs' = Inr (v', r')" for bs' v' r'
    using that by (intro less.hyps [of "Suc d" bs' v' r']) (auto simp: MAX_DEPTH_def)
  show ?case
    using less.prems
  proof (cases rule: rd_item_cases)
    case (Array m n q xs)
    have "length xs = unat n \<and> (\<forall>v\<in>set xs. cbor_wf v \<and> Suc d + cbor_depth v \<le> MAX_DEPTH)"
      using Array(4) by (rule rd_loops_all(1) [rotated]) (rule deeper [OF Array(1)])
    with Array(1,2) u64_lt [of n] show ?thesis
      by (simp add: cbor_depth_Array_le del: cbor_depth.simps)
  next
    case (Map m n q es)
    have "length es = unat n \<and> (\<forall>p\<in>set es.
            (cbor_wf (fst p) \<and> Suc d + cbor_depth (fst p) \<le> MAX_DEPTH)
          \<and> (cbor_wf (snd p) \<and> Suc d + cbor_depth (snd p) \<le> MAX_DEPTH))"
      using Map(4) by (rule rd_loops_all(2) [rotated]) (rule deeper [OF Map(1)])
    with Map(1,2) u64_lt [of n] show ?thesis
      by (simp add: cbor_depth_Map_le del: cbor_depth.simps)
  next
    case (Bytes m n b)
    then show ?thesis using u64_lt [of n] by simp
  next
    case (Text m n b)
    then show ?thesis using u64_lt [of n] by (simp add: str_valid_def)
  qed auto
qed

subsection \<open>One encoding per value\<close>

lemma encode_canon: "encode (cbor_canon v) = encode v"
proof (induction v rule: encode.induct)
  case (4 items)
  then show ?case by (simp cong: map_cong)
next
  case (5 es)
  let ?s = "sort_key entry_key es" and ?g = "\<lambda>p. (cbor_canon (fst p), cbor_canon (snd p))"
  have keys: "map entry_key (map ?g ?s) = map entry_key ?s"
    using 5 by (simp add: entry_key_def)
  then have "sort_key entry_key (map ?g ?s) = map ?g ?s"
    by (intro sort_key_id_if_sorted) (simp only: keys sorted_sort_key)
  then have "encode (Map (map ?g ?s)) = put_head 5 (word_of_nat (length es)) @
      concat (map (\<lambda>p. encode (fst p) @ encode (snd p)) (map ?g ?s))"
    by (simp add: encode_Map)
  also have "map (\<lambda>p. encode (fst p) @ encode (snd p)) (map ?g ?s)
      = map (\<lambda>p. encode (fst p) @ encode (snd p)) ?s"
    using 5 by simp
  finally show ?case by (simp add: cbor_canon_Map encode_Map)
qed simp_all

lemma encode_canon_eqI: "cbor_canon v = cbor_canon w \<Longrightarrow> encode v = encode w"
  by (metis encode_canon)

lemma encode_prefix_unique:
  assumes "cbor_wf v" "cbor_depth v \<le> MAX_DEPTH" "cbor_wf w" "cbor_depth w \<le> MAX_DEPTH"
    and "encode v @ r = encode w @ s"
  shows "cbor_canon v = cbor_canon w \<and> r = s"
  using rd_item_encode [of v 0 r] rd_item_encode [of w 0 s] assms by simp

lemma windows2_set: "(a, b) \<in> set (windows2 xs) \<Longrightarrow> a \<in> set xs \<and> b \<in> set xs"
  by (induction xs rule: windows2.induct) auto

lemma adjacent_duplicates:
  fixes f :: "'a \<Rightarrow> 'k::linorder"
  assumes "sorted (map f xs)" "\<And>a b. a \<in> set xs \<Longrightarrow> b \<in> set xs \<Longrightarrow> g a = g b \<longleftrightarrow> f a = f b"
  shows "(\<exists>w\<in>set (windows2 xs). g (fst w) = g (snd w)) \<longleftrightarrow> \<not> distinct (map f xs)"
proof -
  have "g (fst w) = g (snd w) \<longleftrightarrow> f (fst w) = f (snd w)" if "w \<in> set (windows2 xs)" for w
    using that windows2_set [of "fst w" "snd w" xs] assms(2) by simp
  then have "(\<exists>w\<in>set (windows2 xs). g (fst w) = g (snd w))
      \<longleftrightarrow> \<not> (\<forall>w\<in>set (windows2 xs). f (fst w) \<noteq> f (snd w))" by blast
  also have "\<dots> \<longleftrightarrow> \<not> distinct (map f xs)"
    using windows2_sorted_distinct [OF assms(1)] by (simp add: windows2_map case_prod_beta)
  finally show ?thesis .
qed

lemma distinct_sort_key_keys: "distinct (map f (sort_key f xs)) \<longleftrightarrow> distinct (map f xs)"
  by (metis mset_map mset_sort mset_eq_imp_distinct_iff)

lemma encode_inject:
  assumes "cbor_wf v" "cbor_depth v \<le> MAX_DEPTH" "cbor_wf w" "cbor_depth w \<le> MAX_DEPTH"
  shows "encode v = encode w \<longleftrightarrow> cbor_canon v = cbor_canon w"
proof
  assume "encode v = encode w"
  then show "cbor_canon v = cbor_canon w" using encode_prefix_unique [OF assms, of "[]" "[]"] by simp
qed (rule encode_canon_eqI)

lemma has_duplicate_keys_canon:
  "cbor_wf v \<Longrightarrow> cbor_depth v \<le> MAX_DEPTH \<Longrightarrow>
   has_duplicate_keys (cbor_canon v) \<longleftrightarrow> \<not> cbor_distinct v"
proof (induction v rule: encode.induct)
  case (4 items)
  then have "has_duplicate_keys (cbor_canon v) \<longleftrightarrow> \<not> cbor_distinct v" if "v \<in> set items" for v
    using that cbor_depth_Array [OF that] by (auto simp del: cbor_depth.simps)
  then show ?case by auto
next
  case (5 es)
  let ?s = "sort_key entry_key es" and ?g = "\<lambda>p. (cbor_canon (fst p), cbor_canon (snd p))"
  have wf: "cbor_wf (fst p)" "cbor_wf (snd p)" "cbor_depth (fst p) \<le> MAX_DEPTH"
      "cbor_depth (snd p) \<le> MAX_DEPTH" if "p \<in> set es" for p
    using 5(3,4) that cbor_depth_Map [OF that] by (auto simp del: cbor_depth.simps)
  have IH: "has_duplicate_keys (cbor_canon (fst p)) \<longleftrightarrow> \<not> cbor_distinct (fst p)"
      "has_duplicate_keys (cbor_canon (snd p)) \<longleftrightarrow> \<not> cbor_distinct (snd p)" if "p \<in> set es" for p
    using 5(1,2) that wf [OF that] by auto
  have "(\<exists>w\<in>set (windows2 ?s). cbor_canon (fst (fst w)) = cbor_canon (fst (snd w)))
      \<longleftrightarrow> \<not> distinct (map entry_key ?s)"
  proof (rule adjacent_duplicates)
    show "sorted (map entry_key ?s)" by (rule sorted_sort_key)
    show "cbor_canon (fst a) = cbor_canon (fst b) \<longleftrightarrow> entry_key a = entry_key b"
      if "a \<in> set ?s" "b \<in> set ?s" for a b
      using that by (simp add: entry_key_def encode_inject wf)
  qed
  then have "(\<exists>w\<in>set (windows2 (map ?g ?s)). fst (fst w) = fst (snd w))
      \<longleftrightarrow> \<not> distinct (map entry_key es)"
    by (simp add: windows2_map case_prod_beta distinct_sort_key_keys)
  moreover have "distinct (map entry_key es) \<longleftrightarrow> distinct (map (\<lambda>p. encode (fst p)) es)"
    by (simp add: entry_key_def [abs_def])
  ultimately show ?case using IH by (auto simp: cbor_canon_Map)
qed simp_all

lemma cbor_canon_idem: "cbor_canon (cbor_canon v) = cbor_canon v"
proof (induction v rule: encode.induct)
  case (4 items)
  then show ?case by simp
next
  case (5 es)
  let ?s = "sort_key entry_key es" and ?g = "\<lambda>p. (cbor_canon (fst p), cbor_canon (snd p))"
  have "map entry_key (map ?g ?s) = map entry_key ?s" by (simp add: entry_key_def encode_canon)
  then have "sorted (map entry_key (map ?g ?s))" by (simp only: sorted_sort_key)
  then have "sort_key entry_key (map ?g ?s) = map ?g ?s" by (rule sort_key_id_if_sorted)
  with 5 show ?case by (simp add: cbor_canon_Map)
qed simp_all

lemma decode_canonical_encode:
  assumes "cbor_wf v" "cbor_depth v \<le> MAX_DEPTH"
  shows "decode_canonical (encode v) =
           (if cbor_distinct v then Inr (cbor_canon v) else Inl NotCanonical)"
  using rd_item_encode [of v 0 "[]"] assms
  by (simp add: decode_canonical_def encode_canon has_duplicate_keys_canon)

lemma decode_canonical_iff: "decode_canonical bs = Inr v \<longleftrightarrow> bs = encode v \<and> cbor_canonical v"
proof
  assume "decode_canonical bs = Inr v"
  then have item: "rd_item 0 bs = Inr (v, [])" and bs: "bs = encode v" and dup: "\<not> has_duplicate_keys v"
    by (auto simp: decode_canonical_def bindR_Inr_iff split: if_splits)
  from rd_item_wf [OF item] have wf: "cbor_wf v" "cbor_depth v \<le> MAX_DEPTH" by auto
  from rd_item_encode [of v 0 "[]"] wf item bs have "cbor_canon v = v" by simp
  with wf dup has_duplicate_keys_canon [OF wf] bs show "bs = encode v \<and> cbor_canonical v"
    by (simp add: cbor_canonical_def)
next
  assume "bs = encode v \<and> cbor_canonical v"
  then show "decode_canonical bs = Inr v"
    using decode_canonical_encode [of v] by (simp add: cbor_canonical_def)
qed

lemma item_len_encode:
  assumes "cbor_wf v" "cbor_depth v \<le> MAX_DEPTH"
  shows "item_len (encode v @ r) = Inr (length (encode v))"
  using rd_item_encode [of v 0 r] assms by (simp add: item_len_def)


subsection \<open>Maps of text keys, encoded\<close>

text \<open>With distinct keys a map is a finite function: its encoding and its canonical form do not
  depend on the order of its entries, and lookups in either agree.\<close>

lemma keys_distinct_inj: "keys_distinct es \<Longrightarrow> inj_on entry_key (set es)"
  by (simp add: keys_distinct_def distinct_map)

lemma encode_Map_perm: "keys_distinct es \<Longrightarrow> mset es = mset es' \<Longrightarrow> encode (Map es) = encode (Map es')"
  using sort_key_eq_sort_key [of es es' entry_key] mset_eq_length [of es es']
  by (simp add: encode_Map keys_distinct_inj)

lemma cbor_canon_Text: "cbor_canon k = Text s \<longleftrightarrow> k = Text s"
  by (cases k) (auto simp: cbor_canon_Map)

lemma value_get_Map:
  assumes "keys_distinct es"
  shows "value_get (Map es) key = Some v \<longleftrightarrow> (Text key, v) \<in> set es"
proof -
  have "map_option snd (find (\<lambda>p. fst p = Text key) es) = Some v \<longleftrightarrow> (Text key, v) \<in> set es"
    using assms unfolding keys_distinct_def
    by (induction es) (auto simp: entry_key_def image_iff)
  then show ?thesis by (simp add: value_get_def)
qed

lemma keys_distinct_canon:
  "keys_distinct es \<Longrightarrow>
   keys_distinct (map (\<lambda>p. (cbor_canon (fst p), cbor_canon (snd p))) (sort_key entry_key es))"
  using distinct_sort_key_keys [of entry_key es]
  by (simp add: keys_distinct_def entry_key_def [abs_def] encode_canon o_def)

lemma value_get_canon:
  assumes "keys_distinct es"
  shows "value_get (cbor_canon (Map es)) key = map_option cbor_canon (value_get (Map es) key)"
proof (cases "value_get (Map es) key")
  case None
  then have "Text key \<notin> fst ` set es"
    using value_get_Map [OF assms] by (force simp: image_iff)
  then have "value_get (cbor_canon (Map es)) key \<noteq> Some w" for w
    unfolding cbor_canon_Map value_get_Map [OF keys_distinct_canon [OF assms]]
    by (auto simp: cbor_canon_Text image_iff eq_commute [of "Text key"])
  with None show ?thesis by auto
next
  case (Some v)
  then have "(Text key, v) \<in> set es" by (simp add: value_get_Map [OF assms])
  then have "(Text key, cbor_canon v) \<in> (\<lambda>p. (cbor_canon (fst p), cbor_canon (snd p))) ` set es"
    by (force simp: image_iff)
  then have "value_get (cbor_canon (Map es)) key = Some (cbor_canon v)"
    unfolding cbor_canon_Map value_get_Map [OF keys_distinct_canon [OF assms]] by simp
  with Some show ?thesis by simp
qed

lemma encode_Map_canon_entries:
  "encode (Map (map (\<lambda>p. (cbor_canon (fst p), cbor_canon (snd p))) es)) = encode (Map es)"
proof -
  have "(\<lambda>p. entry_key (cbor_canon (fst p), cbor_canon (snd p))) = entry_key"
    by (simp add: entry_key_def [abs_def] encode_canon)
  then show ?thesis by (simp add: encode_Map sort_key_map encode_canon o_def)
qed

lemma value_without_canon_entries:
  "value_without (Map (map (\<lambda>p. (cbor_canon (fst p), cbor_canon (snd p))) es)) key
   = Map (map (\<lambda>p. (cbor_canon (fst p), cbor_canon (snd p))) (filter (\<lambda>p. fst p \<noteq> Text key) es))"
  by (simp add: value_without_def filter_map o_def cbor_canon_Text)

text \<open>Taking the keys of \<open>xs\<close> out of the canonical form of a map leaves the encoding of the map
  that never had them.\<close>

lemma encode_without_canon:
  assumes "keys_distinct es" "\<forall>k\<in>set ks. Text k \<notin> fst ` set es"
    and "mset es' = mset es + mset (map (\<lambda>k. (Text k, f k)) ks)"
  shows "encode (foldl value_without (cbor_canon (Map es')) ks) = encode (Map es)"
proof -
  let ?g = "\<lambda>p. (cbor_canon (fst p), cbor_canon (snd p))"
  have step: "foldl value_without (Map (map ?g zs)) ks
      = Map (map ?g (filter (\<lambda>p. \<forall>k\<in>set ks. fst p \<noteq> Text k) zs))" for zs
    by (induction ks arbitrary: zs) (simp_all add: value_without_canon_entries conj_commute)
  let ?z = "filter (\<lambda>p. \<forall>k\<in>set ks. fst p \<noteq> Text k) (sort_key entry_key es')"
  have "filter_mset (\<lambda>p. \<forall>k\<in>set ks. fst p \<noteq> Text k) (mset es) = mset es"
    using assms(2) by (force simp: filter_mset_eq_conv)
  moreover have "filter_mset (\<lambda>p. \<forall>k\<in>set ks. fst p \<noteq> Text k) (mset (map (\<lambda>k. (Text k, f k)) ks)) = {#}"
    by (auto simp: filter_mset_eq_mempty_iff)
  ultimately have "mset ?z = mset es"
    using assms(3) by (simp del: mset_map)
  then show ?thesis
    using encode_Map_perm [OF assms(1), of ?z] step [of "sort_key entry_key es'"]
    by (simp add: encode_Map_canon_entries cbor_canon_Map)
qed


subsection \<open>Properties\<close>

text \<open>C40: \<open>decode_canonical\<close> accepts exactly the encodings of canonical values: an input is
  accepted with value \<open>v\<close> if and only if it is \<open>v\<close>'s deterministic encoding, \<open>v\<close> is nested at
  most eight deep, its maps are in encoded-key order and none repeats a key.\<close>

theorem decode_canonical_exact:
  "decode_canonical bs = Inr v \<longleftrightarrow> bs = encode v \<and> cbor_canonical v"
  by (rule decode_canonical_iff)

text \<open>Encoding then decoding gives the value back in canonical form, or refuses it as
  \<open>NotCanonical\<close> exactly when some map in it repeats a key.\<close>

theorem cbor_roundtrip:
  assumes "cbor_wf v" "cbor_depth v \<le> MAX_DEPTH"
  shows "decode_canonical (encode v) =
           (if cbor_distinct v then Inr (cbor_canon v) else Inl NotCanonical)"
  using assms by (rule decode_canonical_encode)

theorem cbor_roundtrip_witness:
  "decode_canonical (encode (Map [(Text ''aa'', Uint 1), (Text ''z'', Bytes [7])]))
     = Inr (Map [(Text ''z'', Bytes [7]), (Text ''aa'', Uint 1)])"
proof -
  let ?v = "Map [(Text ''aa'', Uint 1), (Text ''z'', Bytes [7])]"
  have wf: "cbor_wf ?v" "cbor_depth ?v \<le> MAX_DEPTH"
    by (simp_all add: str_ascii_valid str_ascii_def MAX_DEPTH_def)
  have "cbor_distinct ?v" "cbor_canon ?v = Map [(Text ''z'', Bytes [7]), (Text ''aa'', Uint 1)]"
    by (simp_all add: cbor_canon_Map entry_key_def put_head_def str_bytes_def)
  with cbor_roundtrip [OF wf] show ?thesis by simp
qed

text \<open>A signature over the encoded bytes is unambiguous: two values whose encodings agree,
  even as prefixes of longer input, are the same value up to the order of map entries.\<close>

theorem encode_unambiguous:
  assumes "cbor_wf v" "cbor_depth v \<le> MAX_DEPTH" "cbor_wf w" "cbor_depth w \<le> MAX_DEPTH"
    and "encode v @ r = encode w @ s"
  shows "cbor_canon v = cbor_canon w \<and> r = s"
  using assms by (rule encode_prefix_unique)

theorem encode_unambiguous_witness:
  "cbor_canon (Map [(Uint 1, Bool True), (Uint 0, Bool False)])
     = cbor_canon (Map [(Uint 0, Bool False), (Uint 1, Bool True)])"
proof -
  let ?v = "Map [(Uint 1, Bool True), (Uint 0, Bool False)]"
  let ?w = "Map [(Uint 0, Bool False), (Uint 1, Bool True)]"
  have "encode ?v @ [] = encode ?w @ []"
    by (simp add: encode_Map entry_key_def put_head_def)
  moreover have "cbor_wf ?v" "cbor_depth ?v \<le> MAX_DEPTH" "cbor_wf ?w" "cbor_depth ?w \<le> MAX_DEPTH"
    by (simp_all add: MAX_DEPTH_def)
  ultimately show ?thesis using encode_unambiguous [of ?v ?w "[]" "[]"] by blast
qed

end
