(* ===== verification/Signed.thy ===== *)
theory Signed
  imports Cbor
begin

section \<open>Keys, envelopes and field access\<close>

text \<open>
  \<^verbatim>\<open>crates/hl-identity/src/keys.rs\<close>, \<^verbatim>\<open>signed.rs\<close>, \<^verbatim>\<open>error.rs\<close> and \<^verbatim>\<open>names.rs\<close>: the shape every
  signed object shares.  An object is a CBOR map with a version \<open>v\<close> and a signature \<open>sig\<close>; the
  signature is over the domain string, a zero byte and the encoding of the map without \<open>sig\<close>.

  Ed25519 and SHA-256 come from the crates \<^verbatim>\<open>ed25519-dalek\<close> and \<^verbatim>\<open>sha2\<close>.  They are the record
  \<open>crypto\<close>, an argument of every definition that uses them; \<open>crypto_ok\<close> states what their
  documentation promises and what the code relies on.  An array \<open>[u8; N]\<close> is a byte list, whose
  length the parsers check.

  The locale \<open>signed_object\<close> is the contract between an object type and this layer: the fields it
  writes are well formed, and reading them back gives the object.  Every object type interprets
  it, and gets from it that what is sealed opens to what was sealed.
\<close>

record crypto =
  sha256 :: "bytes \<Rightarrow> bytes"
  ed_public :: "bytes \<Rightarrow> bytes"
  ed_sign :: "bytes \<Rightarrow> bytes \<Rightarrow> bytes"
  ed_point :: "bytes \<Rightarrow> bool"
  ed_weak :: "bytes \<Rightarrow> bool"
  ed_recompress :: "bytes \<Rightarrow> bytes"
  ed_verify_strict :: "bytes \<Rightarrow> bytes \<Rightarrow> bytes \<Rightarrow> bool"

definition crypto_ok :: "crypto \<Rightarrow> bool" where
  "crypto_ok C \<longleftrightarrow>
     (\<forall>bs. length (sha256 C bs) = 32) \<and>
     (\<forall>seed. length seed = 32 \<longrightarrow>
        length (ed_public C seed) = 32 \<and> ed_point C (ed_public C seed)
        \<and> \<not> ed_weak C (ed_public C seed)
        \<and> ed_recompress C (ed_public C seed) = ed_public C seed
        \<and> (\<forall>m. length (ed_sign C seed m) = 64
              \<and> ed_verify_strict C (ed_public C seed) m (ed_sign C seed m)))"

datatype id_error =
    CborErr cbor_error
  | NotAMap
  | MissingField string
  | BadField string
  | UnsupportedVersion u64
  | InvalidKey
  | BadSignature
  | KeyMismatch
  | Expired
  | NotYetValid
  | ClockSkew
  | ChallengeMismatch
  | HostMismatch
  | CapabilityMissing
  | TooLarge
  | CertMismatch
  | OpenFailed
  | Replayed
  | Withdrawn


subsection \<open>Keys\<close>

definition fingerprint_of :: "crypto \<Rightarrow> bytes \<Rightarrow> bytes" where
  "fingerprint_of C public = sha256 C public"

definition domain_message :: "string \<Rightarrow> bytes \<Rightarrow> bytes" where
  "domain_message domain bs = str_bytes domain @ [0] @ bs"

definition sign_domain :: "crypto \<Rightarrow> bytes \<Rightarrow> string \<Rightarrow> bytes \<Rightarrow> bytes" where
  "sign_domain C key domain bs = ed_sign C key (domain_message domain bs)"

definition verify_domain ::
    "crypto \<Rightarrow> bytes \<Rightarrow> string \<Rightarrow> bytes \<Rightarrow> bytes \<Rightarrow> id_error + unit" where
  "verify_domain C public domain bs sig =
     (if \<not> ed_point C public then Inl InvalidKey
      else if ed_weak C public \<or> ed_recompress C public \<noteq> public then Inl InvalidKey
      else if ed_verify_strict C public (domain_message domain bs) sig then Inr ()
      else Inl BadSignature)"


subsection \<open>Field access\<close>

definition f_uint :: "cbor_value \<Rightarrow> string \<Rightarrow> id_error + u64" where
  "f_uint v key = (case value_get v key of
     Some (Uint n) \<Rightarrow> Inr n | Some _ \<Rightarrow> Inl (BadField key) | None \<Rightarrow> Inl (MissingField key))"

definition f_opt_uint :: "cbor_value \<Rightarrow> string \<Rightarrow> id_error + u64 option" where
  "f_opt_uint v key = (case value_get v key of
     Some (Uint n) \<Rightarrow> Inr (Some n) | Some _ \<Rightarrow> Inl (BadField key) | None \<Rightarrow> Inr None)"

definition f_bytes :: "cbor_value \<Rightarrow> string \<Rightarrow> id_error + bytes" where
  "f_bytes v key = (case value_get v key of
     Some (Bytes b) \<Rightarrow> Inr b | Some _ \<Rightarrow> Inl (BadField key) | None \<Rightarrow> Inl (MissingField key))"

definition f_opt_bytes :: "cbor_value \<Rightarrow> string \<Rightarrow> id_error + bytes option" where
  "f_opt_bytes v key = (case value_get v key of
     Some (Bytes b) \<Rightarrow> Inr (Some b) | Some _ \<Rightarrow> Inl (BadField key) | None \<Rightarrow> Inr None)"

definition f_bytes32 :: "cbor_value \<Rightarrow> string \<Rightarrow> id_error + bytes" where
  "f_bytes32 v key = (case value_get v key of
     Some (Bytes b) \<Rightarrow> if length b = 32 then Inr b else Inl (BadField key)
   | Some _ \<Rightarrow> Inl (BadField key) | None \<Rightarrow> Inl (MissingField key))"

definition f_opt_bytes32 :: "cbor_value \<Rightarrow> string \<Rightarrow> id_error + bytes option" where
  "f_opt_bytes32 v key = (case value_get v key of
     Some (Bytes b) \<Rightarrow> if length b = 32 then Inr (Some b) else Inl (BadField key)
   | Some _ \<Rightarrow> Inl (BadField key) | None \<Rightarrow> Inr None)"

definition f_bytes64 :: "cbor_value \<Rightarrow> string \<Rightarrow> id_error + bytes" where
  "f_bytes64 v key = (case value_get v key of
     Some (Bytes b) \<Rightarrow> if length b = 64 then Inr b else Inl (BadField key)
   | Some _ \<Rightarrow> Inl (BadField key) | None \<Rightarrow> Inl (MissingField key))"

definition f_text :: "cbor_value \<Rightarrow> string \<Rightarrow> id_error + string" where
  "f_text v key = (case value_get v key of
     Some (Text s) \<Rightarrow> Inr s | Some _ \<Rightarrow> Inl (BadField key) | None \<Rightarrow> Inl (MissingField key))"

definition f_opt_text :: "cbor_value \<Rightarrow> string \<Rightarrow> id_error + string option" where
  "f_opt_text v key = (case value_get v key of
     Some (Text s) \<Rightarrow> Inr (Some s) | Some _ \<Rightarrow> Inl (BadField key) | None \<Rightarrow> Inr None)"

definition f_bool :: "cbor_value \<Rightarrow> string \<Rightarrow> id_error + bool" where
  "f_bool v key = (case value_get v key of
     Some (Bool b) \<Rightarrow> Inr b | Some _ \<Rightarrow> Inl (BadField key) | None \<Rightarrow> Inl (MissingField key))"

definition f_opt_bool :: "cbor_value \<Rightarrow> string \<Rightarrow> id_error + bool option" where
  "f_opt_bool v key = (case value_get v key of
     Some (Bool b) \<Rightarrow> Inr (Some b) | Some _ \<Rightarrow> Inl (BadField key) | None \<Rightarrow> Inr None)"

lemmas field_defs = f_uint_def f_opt_uint_def f_bytes_def f_opt_bytes_def f_bytes32_def
  f_opt_bytes32_def f_bytes64_def f_text_def f_opt_text_def f_bool_def f_opt_bool_def


subsection \<open>Envelopes\<close>

definition VERSION :: u64 where
  "VERSION = 1"

record envelope =
  env_value :: cbor_value
  env_v :: u64
  env_signed_bytes :: bytes
  env_sig :: bytes

definition is_map :: "cbor_value \<Rightarrow> bool" where
  "is_map v = (case v of Map _ \<Rightarrow> True | _ \<Rightarrow> False)"

definition envelope_from_value_upto :: "cbor_value \<Rightarrow> u64 \<Rightarrow> id_error + envelope" where
  "envelope_from_value_upto value newest =
     (if \<not> is_map value then Inl NotAMap
      else bindR (f_uint value ''v'') (\<lambda>v.
        if v = 0 \<or> newest < v then Inl (UnsupportedVersion v)
        else bindR (f_bytes64 value ''sig'') (\<lambda>sig.
          Inr \<lparr>env_value = value, env_v = v,
               env_signed_bytes = encode (value_without value ''sig''), env_sig = sig\<rparr>)))"

definition envelope_from_value :: "cbor_value \<Rightarrow> id_error + envelope" where
  "envelope_from_value value = envelope_from_value_upto value VERSION"

definition envelope_open_upto :: "bytes \<Rightarrow> u64 \<Rightarrow> id_error + envelope" where
  "envelope_open_upto bs newest =
     bindR (map_err CborErr (decode_canonical bs)) (\<lambda>value. envelope_from_value_upto value newest)"

definition envelope_open :: "bytes \<Rightarrow> id_error + envelope" where
  "envelope_open bs = envelope_open_upto bs VERSION"

definition envelope_verify :: "crypto \<Rightarrow> envelope \<Rightarrow> bytes \<Rightarrow> string \<Rightarrow> id_error + unit" where
  "envelope_verify C env public domain =
     verify_domain C public domain (env_signed_bytes env) (env_sig env)"

record acked_envelope =
  ack_value :: cbor_value
  ack_signed_bytes :: bytes
  ack_sig :: bytes
  ack_ack :: bytes

definition acked_from_value :: "cbor_value \<Rightarrow> id_error + acked_envelope" where
  "acked_from_value value =
     (if \<not> is_map value then Inl NotAMap
      else bindR (f_uint value ''v'') (\<lambda>v.
        if v \<noteq> VERSION then Inl (UnsupportedVersion v)
        else bindR (f_bytes64 value ''sig'') (\<lambda>sig.
             bindR (f_bytes64 value ''ack'') (\<lambda>ack.
          Inr \<lparr>ack_value = value,
               ack_signed_bytes = encode (value_without (value_without value ''sig'') ''ack''),
               ack_sig = sig, ack_ack = ack\<rparr>))))"

definition ack_domain :: "string \<Rightarrow> string" where
  "ack_domain domain = domain @ ''/ack''"

definition acked_verify ::
    "crypto \<Rightarrow> acked_envelope \<Rightarrow> bytes \<Rightarrow> bytes \<Rightarrow> string \<Rightarrow> id_error + unit" where
  "acked_verify C env first second domain =
     bindR (verify_domain C first domain (ack_signed_bytes env) (ack_sig env)) (\<lambda>_.
       verify_domain C second (ack_domain domain) (ack_signed_bytes env) (ack_ack env))"

text \<open>
  The unsigned form of an object is the argument of \<open>cbor::map\<close>: a list of named optional
  fields.  \<open>seal\<close> and \<open>seal_acked\<close> take that list, so the \<open>unreachable!\<close> branch for a value
  that is not a map cannot be written.
\<close>

type_synonym fields = "(string \<times> cbor_value option) list"

definition entries_of :: "fields \<Rightarrow> (cbor_value \<times> cbor_value) list" where
  "entries_of fs = List.map_filter (\<lambda>(k, v). map_option (\<lambda>v. (Text k, v)) v) fs"

definition seal :: "fields \<Rightarrow> (bytes \<Rightarrow> bytes) \<Rightarrow> bytes" where
  "seal fs sign =
     (let body = encode (cbor_map fs)
      in encode (Map (entries_of fs @ [(Text ''sig'', Bytes (sign body))])))"

definition seal_acked :: "fields \<Rightarrow> (bytes \<Rightarrow> bytes) \<Rightarrow> (bytes \<Rightarrow> bytes) \<Rightarrow> bytes" where
  "seal_acked fs sign ack =
     (let body = encode (cbor_map fs)
      in encode (Map (entries_of fs
           @ [(Text ''sig'', Bytes (sign body)), (Text ''ack'', Bytes (ack body))])))"

definition check_window :: "u64 \<Rightarrow> u64 \<Rightarrow> u64 \<Rightarrow> u64 \<Rightarrow> id_error + unit" where
  "check_window issued expires now skew =
     (if expires \<le> issued then Inl NotYetValid
      else if sat_add now skew < issued then Inl NotYetValid
      else if sat_add expires skew < now then Inl Expired
      else Inr ())"


subsection \<open>Deceptive characters\<close>

text \<open>\<open>char::is_control\<close> is the category Cc; \<open>char::is_whitespace\<close> is the property
  White_Space.\<close>

definition char_is_control :: "nat \<Rightarrow> bool" where
  "char_is_control c \<longleftrightarrow> c \<le> 0x1f \<or> (0x7f \<le> c \<and> c \<le> 0x9f)"

definition char_is_whitespace :: "nat \<Rightarrow> bool" where
  "char_is_whitespace c \<longleftrightarrow>
     (9 \<le> c \<and> c \<le> 13) \<or> c = 0x20 \<or> c = 0x85 \<or> c = 0xa0 \<or> c = 0x1680
     \<or> (0x2000 \<le> c \<and> c \<le> 0x200a) \<or> c = 0x2028 \<or> c = 0x2029 \<or> c = 0x202f \<or> c = 0x205f
     \<or> c = 0x3000"

definition DECEPTIVE :: "(nat \<times> nat) list" where
  "DECEPTIVE = [
     (0xad, 0xad), (0x34f, 0x34f), (0x61c, 0x61c), (0x115f, 0x1160), (0x17b4, 0x17b5),
     (0x180b, 0x180f), (0x200b, 0x200f), (0x202a, 0x202e), (0x2060, 0x206f), (0x3164, 0x3164),
     (0xfe00, 0xfe0f), (0xfeff, 0xfeff), (0xffa0, 0xffa0), (0xfff0, 0xfff8),
     (0x1bca0, 0x1bca3), (0x1d173, 0x1d17a), (0xe0000, 0xe0fff),
     (0x600, 0x605), (0x6dd, 0x6dd), (0x70f, 0x70f), (0x890, 0x891), (0x8e2, 0x8e2),
     (0x110bd, 0x110bd), (0x110cd, 0x110cd), (0x13430, 0x1343f), (0xfff9, 0xfffb),
     (0x2800, 0x2800)]"

definition is_deceptive :: "nat \<Rightarrow> bool" where
  "is_deceptive c \<longleftrightarrow>
     char_is_control c \<or> (char_is_whitespace c \<and> c \<noteq> 0x20)
     \<or> (\<exists>r\<in>set DECEPTIVE. fst r \<le> c \<and> c \<le> snd r)"

lemma visible_ascii_not_deceptive: "0x20 \<le> c \<Longrightarrow> c \<le> 0x7e \<Longrightarrow> \<not> is_deceptive c"
  by (auto simp: is_deceptive_def char_is_control_def char_is_whitespace_def DECEPTIVE_def)


subsection \<open>Domain separation\<close>

definition nul_free :: "string \<Rightarrow> bool" where
  "nul_free s \<longleftrightarrow> (0 :: u8) \<notin> set (str_bytes s)"

lemma append_sep_inject:
  "x \<notin> set as \<Longrightarrow> x \<notin> set bs \<Longrightarrow> as @ x # cs = bs @ x # ds \<longleftrightarrow> as = bs \<and> cs = ds"
proof (induction as arbitrary: bs)
  case Nil
  then show ?case by (cases bs) auto
next
  case (Cons a as)
  then show ?case by (cases bs) auto
qed

lemma domain_message_inject:
  "nul_free d \<Longrightarrow> nul_free d' \<Longrightarrow> domain_message d bs = domain_message d' bs' \<longleftrightarrow> d = d' \<and> bs = bs'"
  by (simp add: domain_message_def nul_free_def append_sep_inject)

lemma verify_sign_domain:
  assumes "crypto_ok C" "length key = 32"
  shows "verify_domain C (ed_public C key) domain bs (sign_domain C key domain bs) = Inr ()"
  using assms by (simp add: verify_domain_def sign_domain_def crypto_ok_def)

lemma length_sign_domain: "crypto_ok C \<Longrightarrow> length key = 32 \<Longrightarrow> length (sign_domain C key domain bs) = 64"
  by (simp add: sign_domain_def crypto_ok_def)


subsection \<open>Opening what was sealed\<close>

definition field :: "fields \<Rightarrow> string \<Rightarrow> cbor_value option" where
  "field fs key = (case map_of fs key of Some (Some v) \<Rightarrow> Some v | _ \<Rightarrow> None)"

text \<open>Field lists as the objects write them: distinct ASCII names, none of them a signature,
  the version first, and values the codec can carry.\<close>

definition value_ok :: "cbor_value \<Rightarrow> bool" where
  "value_ok v \<longleftrightarrow> cbor_wf v \<and> Suc (cbor_depth v) \<le> MAX_DEPTH \<and> cbor_distinct v"

definition fields_plain :: "fields \<Rightarrow> bool" where
  "fields_plain fs \<longleftrightarrow>
     distinct (map fst fs) \<and> ''sig'' \<notin> fst ` set fs \<and> ''ack'' \<notin> fst ` set fs
     \<and> (\<forall>k\<in>fst ` set fs. length k < 2 ^ 64 \<and> str_valid k)
     \<and> length fs + 2 < 2 ^ 64 \<and> (\<forall>v. Some v \<in> snd ` set fs \<longrightarrow> value_ok v)"

definition fields_ok :: "fields \<Rightarrow> bool" where
  "fields_ok fs \<longleftrightarrow> fields_plain fs \<and> field fs ''v'' = Some (Uint VERSION)"

lemma fields_ok_plain: "fields_ok fs \<Longrightarrow> fields_plain fs"
  by (simp add: fields_ok_def)

lemma cbor_map_entries: "cbor_map fs = Map (entries_of fs)"
  by (simp add: cbor_map_def entries_of_def)

lemma entries_of_Cons:
  "entries_of ((k, v) # fs) = (case v of None \<Rightarrow> entries_of fs | Some w \<Rightarrow> (Text k, w) # entries_of fs)"
  by (simp add: entries_of_def map_filter_simps split: option.split)

lemma entries_of_Nil [simp]: "entries_of [] = []"
  by (simp add: entries_of_def map_filter_simps)

lemma set_entries_of: "p \<in> set (entries_of fs) \<longleftrightarrow> (\<exists>k v. (k, Some v) \<in> set fs \<and> p = (Text k, v))"
  by (induction fs) (auto simp: entries_of_Cons split: option.splits)

lemma length_entries_of: "length (entries_of fs) \<le> length fs"
  by (induction fs) (auto simp: entries_of_Cons split: option.splits)

lemma encode_Text_inject:
  "length s < 2 ^ 64 \<Longrightarrow> str_valid s \<Longrightarrow> length t < 2 ^ 64 \<Longrightarrow> str_valid t \<Longrightarrow>
   encode (Text s) = encode (Text t) \<longleftrightarrow> s = t"
  using encode_inject [of "Text s" "Text t"] by (simp add: MAX_DEPTH_def del: encode.simps)

lemma keys_distinct_Texts:
  assumes "distinct ks" "\<forall>k\<in>set ks. length k < 2 ^ 64 \<and> str_valid k" "map fst es = map Text ks"
  shows "keys_distinct es"
proof -
  have "map entry_key es = map (\<lambda>k. encode (Text k)) ks"
    using assms(3) by (simp add: entry_key_def [abs_def] flip: map_map [unfolded o_def])
  moreover have "inj_on (\<lambda>k. encode (Text k)) (set ks)"
    using assms(2) by (intro inj_onI) (metis encode_Text_inject)
  ultimately show ?thesis using assms(1) by (simp add: keys_distinct_def distinct_map)
qed

definition present :: "fields \<Rightarrow> string list" where
  "present fs = map fst (filter (\<lambda>p. snd p \<noteq> None) fs)"

lemma keys_entries_of: "map fst (entries_of fs) = map Text (present fs)"
  by (induction fs) (auto simp: entries_of_Cons present_def split: option.splits)

lemma present_subset: "set (present fs) \<subseteq> fst ` set fs"
  by (auto simp: present_def)

lemma distinct_present: "distinct (map fst fs) \<Longrightarrow> distinct (present fs)"
  by (simp add: present_def distinct_map_filter)

lemma field_entries:
  assumes "distinct (map fst fs)"
  shows "field fs key = Some v \<longleftrightarrow> (Text key, v) \<in> set (entries_of fs)"
  using map_of_eq_Some_iff [OF assms, of key "Some v"]
  by (auto simp: field_def set_entries_of split: option.splits)

text \<open>A field list followed by signatures: \<open>sig\<close>, or \<open>sig\<close> and \<open>ack\<close>.\<close>

definition signatures_ok :: "(string \<times> bytes) list \<Rightarrow> bool" where
  "signatures_ok xs \<longleftrightarrow> distinct (map fst xs) \<and> fst ` set xs \<subseteq> {''sig'', ''ack''}
     \<and> (\<forall>p\<in>set xs. length (snd p) = 64)"

definition sealed_entries :: "fields \<Rightarrow> (string \<times> bytes) list \<Rightarrow> (cbor_value \<times> cbor_value) list" where
  "sealed_entries fs xs = entries_of fs @ map (\<lambda>p. (Text (fst p), Bytes (snd p))) xs"

lemma signatures_ok_length: "signatures_ok xs \<Longrightarrow> length xs \<le> 2"
proof -
  assume xs: "signatures_ok xs"
  then have "card (set (map fst xs)) = length xs"
    using distinct_card [of "map fst xs"] by (simp add: signatures_ok_def)
  moreover have "card (set (map fst xs)) \<le> card {''sig'', ''ack''}"
    using xs by (intro card_mono) (simp_all add: signatures_ok_def)
  ultimately show ?thesis by simp
qed

lemma fields_key: "fields_plain fs \<Longrightarrow> k \<in> fst ` set fs \<Longrightarrow> length k < 2 ^ 64 \<and> str_valid k"
  unfolding fields_plain_def by metis

lemma fields_value: "fields_plain fs \<Longrightarrow> Some v \<in> snd ` set fs \<Longrightarrow> value_ok v"
  unfolding fields_plain_def by metis

lemma signature_key: "signatures_ok xs \<Longrightarrow> p \<in> set xs \<Longrightarrow> fst p = ''sig'' \<or> fst p = ''ack''"
  by (force simp: signatures_ok_def)

lemma signature_key_ok: "signatures_ok xs \<Longrightarrow> p \<in> set xs \<Longrightarrow> length (fst p) < 2 ^ 64 \<and> str_valid (fst p)"
  by (drule (1) signature_key) (auto simp: str_ascii_valid str_ascii_def)

lemma sealed_keys_distinct:
  assumes "fields_plain fs" "signatures_ok xs"
  shows "keys_distinct (sealed_entries fs xs)"
proof (rule keys_distinct_Texts)
  let ?ks = "present fs @ map fst xs"
  show "map fst (sealed_entries fs xs) = map Text ?ks"
    by (simp add: sealed_entries_def keys_entries_of o_def)
  have "''sig'' \<notin> set (present fs)" "''ack'' \<notin> set (present fs)"
    using assms(1) present_subset [of fs] by (auto simp: fields_plain_def dest: subsetD)
  then have "set (present fs) \<inter> fst ` set xs = {}"
    using signature_key [OF assms(2)] by fastforce
  then show "distinct ?ks"
    using assms distinct_present [of fs] by (simp add: fields_plain_def signatures_ok_def)
  have "\<forall>k\<in>set (present fs). length k < 2 ^ 64 \<and> str_valid k"
    using fields_key [OF assms(1)] present_subset [of fs] by blast
  then show "\<forall>k\<in>set ?ks. length k < 2 ^ 64 \<and> str_valid k"
    using signature_key_ok [OF assms(2)] by auto
qed

lemma sealed_value_ok:
  assumes "fields_plain fs" "signatures_ok xs"
  shows "cbor_wf (Map (sealed_entries fs xs))" "cbor_depth (Map (sealed_entries fs xs)) \<le> MAX_DEPTH"
    "cbor_distinct (Map (sealed_entries fs xs))"
proof -
  have entry: "(\<exists>k. fst p = Text k \<and> length k < 2 ^ 64 \<and> str_valid k) \<and> value_ok (snd p)"
    if "p \<in> set (sealed_entries fs xs)" for p
  proof -
    from that consider k v where "(k, Some v) \<in> set fs" "p = (Text k, v)"
      | q where "q \<in> set xs" "p = (Text (fst q), Bytes (snd q))"
      by (auto simp: sealed_entries_def set_entries_of)
    then show ?thesis
    proof cases
      case 1
      then have "k \<in> fst ` set fs" "Some v \<in> snd ` set fs" by force+
      with 1 fields_key [OF assms(1)] fields_value [OF assms(1)] show ?thesis by simp
    next
      case 2
      then have "length (snd q) = 64" using assms(2) by (simp add: signatures_ok_def)
      with 2 signature_key_ok [OF assms(2) 2(1)] show ?thesis by (simp add: value_ok_def MAX_DEPTH_def)
    qed
  qed
  have "length (sealed_entries fs xs) < 2 ^ 64"
    using assms signatures_ok_length [OF assms(2)] length_entries_of [of fs]
    by (simp add: sealed_entries_def fields_plain_def)
  with entry show "cbor_wf (Map (sealed_entries fs xs))" by (fastforce simp: value_ok_def)
  have "0 + cbor_depth (Map (sealed_entries fs xs)) \<le> MAX_DEPTH"
    by (rule cbor_depth_Map_le) (use entry in \<open>fastforce simp: value_ok_def MAX_DEPTH_def\<close>)+
  then show "cbor_depth (Map (sealed_entries fs xs)) \<le> MAX_DEPTH" by simp
  show "cbor_distinct (Map (sealed_entries fs xs))"
    using sealed_keys_distinct [OF assms] entry
    by (fastforce simp: keys_distinct_def entry_key_def [abs_def] value_ok_def)
qed

lemma decode_sealed:
  assumes "fields_plain fs" "signatures_ok xs"
  shows "decode_canonical (encode (Map (sealed_entries fs xs))) = Inr (cbor_canon (Map (sealed_entries fs xs)))"
  using decode_canonical_encode sealed_value_ok [OF assms] by simp

lemma get_sealed_field:
  assumes "fields_plain fs" "signatures_ok xs" "key \<notin> fst ` set xs"
  shows "value_get (cbor_canon (Map (sealed_entries fs xs))) key = map_option cbor_canon (field fs key)"
proof -
  have "value_get (Map (sealed_entries fs xs)) key = Some v \<longleftrightarrow> field fs key = Some v" for v
    unfolding value_get_Map [OF sealed_keys_distinct [OF assms(1,2)]]
    using assms(1,3) field_entries [of fs key v] by (auto simp: sealed_entries_def fields_plain_def)
  then have "value_get (Map (sealed_entries fs xs)) key = field fs key"
    by (metis not_None_eq)
  then show ?thesis by (simp add: value_get_canon [OF sealed_keys_distinct [OF assms(1,2)]])
qed

lemma get_sealed_signature:
  assumes "fields_plain fs" "signatures_ok xs" "(key, b) \<in> set xs"
  shows "value_get (cbor_canon (Map (sealed_entries fs xs))) key = Some (Bytes b)"
proof -
  have "value_get (Map (sealed_entries fs xs)) key = Some (Bytes b)"
    unfolding value_get_Map [OF sealed_keys_distinct [OF assms(1,2)]]
    using assms(3) by (force simp: sealed_entries_def)
  then show ?thesis by (simp add: value_get_canon [OF sealed_keys_distinct [OF assms(1,2)]])
qed

definition sealed_value :: "fields \<Rightarrow> (string \<times> bytes) list \<Rightarrow> cbor_value" where
  "sealed_value fs xs = cbor_canon (Map (sealed_entries fs xs))"

lemma is_map_sealed [simp]: "is_map (sealed_value fs xs)"
  by (simp add: sealed_value_def is_map_def cbor_canon_Map)

lemma sealed_value_without:
  assumes "fields_plain fs" "signatures_ok xs"
  shows "encode (foldl value_without (sealed_value fs xs) (map fst xs)) = encode (cbor_map fs)"
  unfolding sealed_value_def cbor_map_entries
proof (rule encode_without_canon)
  show "keys_distinct (entries_of fs)"
    using sealed_keys_distinct [OF assms(1), of "[]"]
    by (simp add: sealed_entries_def signatures_ok_def)
  show "\<forall>k\<in>set (map fst xs). Text k \<notin> fst ` set (entries_of fs)"
  proof
    fix k
    assume "k \<in> set (map fst xs)"
    then have "k = ''sig'' \<or> k = ''ack''" using signature_key [OF assms(2)] by auto
    moreover have "''sig'' \<notin> fst ` set fs" "''ack'' \<notin> fst ` set fs"
      using assms(1) unfolding fields_plain_def by blast+
    ultimately have "k \<notin> fst ` set fs" by (elim disjE) simp_all
    then show "Text k \<notin> fst ` set (entries_of fs)" by (force simp: set_entries_of)
  qed
  have "map (\<lambda>k. (Text k, Bytes (the (map_of xs k)))) (map fst xs)
      = map (\<lambda>p. (Text (fst p), Bytes (snd p))) xs"
    using assms(2) by (auto simp: signatures_ok_def)
  then show "mset (sealed_entries fs xs) = mset (entries_of fs)
      + mset (map (\<lambda>k. (Text k, Bytes (the (map_of xs k)))) (map fst xs))"
    by (simp add: sealed_entries_def del: map_map)
qed

lemma sealed_version:
  assumes "fields_ok fs" "signatures_ok xs"
  shows "f_uint (sealed_value fs xs) ''v'' = Inr VERSION"
proof -
  have "''v'' \<notin> fst ` set xs" using signature_key [OF assms(2)] by force
  with assms show ?thesis
    by (simp add: f_uint_def sealed_value_def get_sealed_field fields_ok_def)
qed

lemma envelope_of_sealed:
  assumes "fields_ok fs" "length s = 64"
  shows "envelope_from_value (sealed_value fs [(''sig'', s)]) =
    Inr \<lparr>env_value = sealed_value fs [(''sig'', s)], env_v = VERSION,
         env_signed_bytes = encode (cbor_map fs), env_sig = s\<rparr>"
proof -
  have sigs: "signatures_ok [(''sig'', s)]" using assms(2) by (simp add: signatures_ok_def)
  have "value_get (sealed_value fs [(''sig'', s)]) ''sig'' = Some (Bytes s)"
    using get_sealed_signature [OF fields_ok_plain [OF assms(1)] sigs, of "''sig''" s] by (simp add: sealed_value_def)
  then show ?thesis
    using sealed_version [OF assms(1) sigs] sealed_value_without [OF fields_ok_plain [OF assms(1)] sigs] assms(2)
    by (simp add: envelope_from_value_def envelope_from_value_upto_def f_bytes64_def VERSION_def)
qed

lemma seal_sealed: "seal fs sign = encode (Map (sealed_entries fs [(''sig'', sign (encode (cbor_map fs)))]))"
  by (simp add: seal_def sealed_entries_def)

lemma decode_seal:
  assumes "fields_ok fs" "length (sign (encode (cbor_map fs))) = 64"
  shows "decode_canonical (seal fs sign) = Inr (sealed_value fs [(''sig'', sign (encode (cbor_map fs)))])"
  unfolding seal_sealed sealed_value_def
  by (rule decode_sealed [OF fields_ok_plain [OF assms(1)]]) (simp add: signatures_ok_def assms(2))

lemma envelope_open_seal:
  assumes "fields_ok fs" "length (sign (encode (cbor_map fs))) = 64"
  shows "envelope_open (seal fs sign) =
    Inr \<lparr>env_value = sealed_value fs [(''sig'', sign (encode (cbor_map fs)))], env_v = VERSION,
         env_signed_bytes = encode (cbor_map fs), env_sig = sign (encode (cbor_map fs))\<rparr>"
  using decode_seal [of fs sign] envelope_of_sealed [of fs "sign (encode (cbor_map fs))"] assms
  by (simp add: envelope_open_def envelope_open_upto_def envelope_from_value_def)

text \<open>The same for a version of its own.\<close>

lemma envelope_open_upto_seal:
  assumes "fields_plain fs" "length (sign (encode (cbor_map fs))) = 64"
    and "field fs ''v'' = Some (Uint n)" "n \<noteq> 0" "n \<le> newest"
  shows "envelope_open_upto (seal fs sign) newest =
    Inr \<lparr>env_value = sealed_value fs [(''sig'', sign (encode (cbor_map fs)))], env_v = n,
         env_signed_bytes = encode (cbor_map fs), env_sig = sign (encode (cbor_map fs))\<rparr>"
proof -
  let ?s = "sign (encode (cbor_map fs))"
  have sigs: "signatures_ok [(''sig'', ?s)]" using assms(2) by (simp add: signatures_ok_def)
  have "decode_canonical (seal fs sign) = Inr (sealed_value fs [(''sig'', ?s)])"
    unfolding seal_sealed sealed_value_def by (rule decode_sealed [OF assms(1) sigs])
  moreover have "value_get (sealed_value fs [(''sig'', ?s)]) ''sig'' = Some (Bytes ?s)"
    using get_sealed_signature [OF assms(1) sigs, of "''sig''" ?s] by (simp add: sealed_value_def)
  moreover have "value_get (sealed_value fs [(''sig'', ?s)]) ''v'' = Some (Uint n)"
    using get_sealed_field [OF assms(1) sigs, of "''v''"] assms(3) by (simp add: sealed_value_def)
  ultimately show ?thesis
    using sealed_value_without [OF assms(1) sigs] assms(2,4,5)
    by (simp add: envelope_open_upto_def envelope_from_value_upto_def f_uint_def f_bytes64_def not_less)
qed

lemma decode_seal_acked:
  assumes "fields_ok fs"
    and "length (sign (encode (cbor_map fs))) = 64" "length (ack (encode (cbor_map fs))) = 64"
  shows "decode_canonical (seal_acked fs sign ack) =
    Inr (sealed_value fs [(''sig'', sign (encode (cbor_map fs))), (''ack'', ack (encode (cbor_map fs)))])"
proof -
  let ?b = "encode (cbor_map fs)"
  have "signatures_ok [(''sig'', sign ?b), (''ack'', ack ?b)]"
    using assms(2,3) by (simp add: signatures_ok_def)
  from decode_sealed [OF fields_ok_plain [OF assms(1)] this] show ?thesis
    by (simp add: seal_acked_def sealed_value_def sealed_entries_def Let_def)
qed

lemma acked_of_sealed:
  assumes "fields_ok fs" "length s = 64" "length a = 64"
  shows "acked_from_value (sealed_value fs [(''sig'', s), (''ack'', a)]) =
    Inr \<lparr>ack_value = sealed_value fs [(''sig'', s), (''ack'', a)],
         ack_signed_bytes = encode (cbor_map fs), ack_sig = s, ack_ack = a\<rparr>"
proof -
  let ?xs = "[(''sig'', s), (''ack'', a)]"
  have sigs: "signatures_ok ?xs" using assms(2,3) by (simp add: signatures_ok_def)
  have "value_get (sealed_value fs ?xs) ''sig'' = Some (Bytes s)"
    "value_get (sealed_value fs ?xs) ''ack'' = Some (Bytes a)"
    using get_sealed_signature [OF fields_ok_plain [OF assms(1)] sigs] by (simp_all add: sealed_value_def)
  then show ?thesis
    using sealed_version [OF assms(1) sigs] sealed_value_without [OF fields_ok_plain [OF assms(1)] sigs] assms(2,3)
    by (simp add: acked_from_value_def f_bytes64_def)
qed


text \<open>Checking a field list as an object writes it, one name at a time.\<close>

definition text_ok :: "string \<Rightarrow> bool" where
  "text_ok s \<longleftrightarrow> length s < 2 ^ 64 \<and> str_valid s"

lemma value_ok_simps [simp]:
  "value_ok (Uint n)" "value_ok (Bool b)"
  "value_ok (Bytes bs) \<longleftrightarrow> length bs < 2 ^ 64"
  "value_ok (Text s) \<longleftrightarrow> text_ok s"
  by (simp_all add: value_ok_def MAX_DEPTH_def text_ok_def)

lemma fields_okI:
  assumes "distinct (map fst fs)" "''sig'' \<notin> set (map fst fs)" "''ack'' \<notin> set (map fst fs)"
    and "list_all (\<lambda>k. length k < 64 \<and> str_ascii k) (map fst fs)" "length fs < 64"
    and "field fs ''v'' = Some (Uint VERSION)"
    and "list_all (\<lambda>p. case snd p of None \<Rightarrow> True | Some v \<Rightarrow> value_ok v) fs"
  shows "fields_ok fs"
proof -
  have "\<forall>k\<in>fst ` set fs. length k < 2 ^ 64 \<and> str_valid k"
    using assms(4) by (fastforce simp: list_all_iff str_ascii_valid)
  moreover have "\<forall>v. Some v \<in> snd ` set fs \<longrightarrow> value_ok v"
    using assms(7) by (force simp: list_all_iff)
  ultimately show ?thesis using assms by (simp add: fields_ok_def fields_plain_def)
qed

lemma value_get_wf: "cbor_wf v \<Longrightarrow> value_get v k = Some w \<Longrightarrow> cbor_wf w"
proof -
  assume wf: "cbor_wf v" and "value_get v k = Some w"
  then obtain es p where v: "v = Map es" and p: "find (\<lambda>p. fst p = Text k) es = Some p" "w = snd p"
    by (auto simp: value_get_def split: cbor_value.splits)
  then have "p \<in> set es" by (auto simp: find_Some_iff)
  with wf v p show ?thesis by (cases p) auto
qed

lemma value_get_Text: "cbor_wf v \<Longrightarrow> value_get v k = Some (Text s) \<Longrightarrow> text_ok s"
  using value_get_wf [of v k "Text s"] by (simp add: text_ok_def)

lemma value_get_Bytes: "cbor_wf v \<Longrightarrow> value_get v k = Some (Bytes b) \<Longrightarrow> length b < 2 ^ 64"
  using value_get_wf [of v k "Bytes b"] by simp

text \<open>What the field readers accept.\<close>

lemma f_Inr_iff [result_simps]:
  "f_uint v k = Inr n \<longleftrightarrow> value_get v k = Some (Uint n)"
  "f_opt_uint v k = Inr on \<longleftrightarrow> value_get v k = map_option Uint on"
  "f_bytes v k = Inr b \<longleftrightarrow> value_get v k = Some (Bytes b)"
  "f_opt_bytes v k = Inr ob \<longleftrightarrow> value_get v k = map_option Bytes ob"
  "f_bytes32 v k = Inr b \<longleftrightarrow> value_get v k = Some (Bytes b) \<and> length b = 32"
  "f_opt_bytes32 v k = Inr ob \<longleftrightarrow> value_get v k = map_option Bytes ob \<and> (\<forall>b. ob = Some b \<longrightarrow> length b = 32)"
  "f_bytes64 v k = Inr b \<longleftrightarrow> value_get v k = Some (Bytes b) \<and> length b = 64"
  "f_text v k = Inr s \<longleftrightarrow> value_get v k = Some (Text s)"
  "f_opt_text v k = Inr os \<longleftrightarrow> value_get v k = map_option Text os"
  "f_bool v k = Inr b' \<longleftrightarrow> value_get v k = Some (Bool b')"
  "f_opt_bool v k = Inr obb \<longleftrightarrow> value_get v k = map_option Bool obb"
  by (auto simp: field_defs map_option_case split: option.splits cbor_value.splits if_splits)


subsection \<open>Sizes\<close>

lemma length_encode_Map:
  "length (encode (Map es)) = length (put_head 5 (word_of_nat (length es)))
     + sum_list (map (\<lambda>p. length (encode (fst p)) + length (encode (snd p))) es)"
proof -
  have "sum_list (map f (sort_key entry_key es)) = sum_list (map f es)"
    for f :: "cbor_value \<times> cbor_value \<Rightarrow> nat"
    by (metis mset_map mset_sort sum_mset_sum_list)
  then show ?thesis by (simp add: encode_Map length_concat o_def)
qed

lemma length_put_head:
  "length (put_head m n) = (if n < 24 then 1 else if n < 256 then 2 else if n < 65536 then 3
     else if n < 4294967296 then 5 else 9)"
  by (simp add: put_head_def word_less_nat_alt word_le_nat_alt)

lemma length_put_head_le: "length (put_head m n) \<le> 9"
  by (simp add: length_put_head)

lemma length_put_head_small: "k < 65536 \<Longrightarrow> length (put_head m (word_of_nat k)) \<le> 3"
  by (simp add: length_put_head word_less_nat_alt unat_word_of_nat)

lemma length_put_head_tiny: "k < 24 \<Longrightarrow> length (put_head m (word_of_nat k)) = 1"
  by (simp add: length_put_head word_less_nat_alt unat_word_of_nat)

lemma length_put_head_byte: "k < 256 \<Longrightarrow> length (put_head m (word_of_nat k)) \<le> 2"
  by (simp add: length_put_head word_less_nat_alt unat_word_of_nat)

definition field_size :: "string \<times> cbor_value option \<Rightarrow> nat" where
  "field_size p = (case snd p of None \<Rightarrow> 0 | Some v \<Rightarrow> length (encode (Text (fst p))) + length (encode v))"

lemma field_size_None [simp]: "field_size (k, None) = 0"
  by (simp add: field_size_def)

named_theorems size_bounds \<open>bounds on the encoding of one field\<close>

lemma field_size_Uint [size_bounds]:
  "length k < 24 \<Longrightarrow> length k + 10 \<le> m \<Longrightarrow> field_size (k, Some (Uint n)) \<le> m"
  using length_put_head_le [of 0 n] length_put_head_tiny [of "length k" 3] by (simp add: field_size_def)

lemma field_size_small_Uint [size_bounds]:
  "length k < 24 \<Longrightarrow> n < 24 \<Longrightarrow> length k + 2 \<le> m \<Longrightarrow> field_size (k, Some (Uint n)) \<le> m"
  using length_put_head_tiny [of "length k" 3] by (simp add: field_size_def length_put_head)

lemma field_size_Bytes [size_bounds]:
  "length k < 24 \<Longrightarrow> length b < 65536 \<Longrightarrow> length k + length b + 4 \<le> m \<Longrightarrow>
   field_size (k, Some (Bytes b)) \<le> m"
  using length_put_head_small [of "length b" 2] length_put_head_tiny [of "length k" 3]
  by (simp add: field_size_def)

lemma field_size_Text [size_bounds]:
  "length k < 24 \<Longrightarrow> length s < 65536 \<Longrightarrow> length k + length s + 4 \<le> m \<Longrightarrow>
   field_size (k, Some (Text s)) \<le> m"
  using length_put_head_small [of "length s" 3] length_put_head_tiny [of "length k" 3]
  by (simp add: field_size_def)

lemma field_size_Bool [size_bounds]:
  "length k < 24 \<Longrightarrow> length k + 2 \<le> m \<Longrightarrow> field_size (k, Some (Bool t)) \<le> m"
  using length_put_head_tiny [of "length k" 3] by (simp add: field_size_def)

lemma sum_field_sizes:
  "list_all2 (\<lambda>p m. field_size p \<le> m) fs ms \<Longrightarrow> sum_list (map field_size fs) \<le> sum_list ms"
  by (induction rule: list_all2_induct) auto

lemma length_sealed_entries:
  assumes "signatures_ok xs" "length fs < 22"
  shows "length (encode (Map (sealed_entries fs xs))) = 1 + 70 * length xs + sum_list (map field_size fs)"
proof -
  let ?size = "\<lambda>p. length (encode (fst p)) + length (encode (snd p))"
  have "length (sealed_entries fs xs) < 24"
    using signatures_ok_length [OF assms(1)] assms(2) length_entries_of [of fs]
    by (simp add: sealed_entries_def)
  then have "length (put_head 5 (word_of_nat (length (sealed_entries fs xs)))) = 1"
    by (rule length_put_head_tiny)
  moreover have "sum_list (map ?size (entries_of fs)) = sum_list (map field_size fs)"
    by (induction fs) (auto simp: entries_of_Cons field_size_def split: option.split)
  moreover have "?size (Text (fst p), Bytes (snd p)) = 70" if "p \<in> set xs" for p
    using that signature_key [OF assms(1) that] assms(1)
    by (auto simp: signatures_ok_def length_put_head)
  then have "sum_list (map (\<lambda>p. ?size (Text (fst p), Bytes (snd p))) xs) = 70 * length xs"
    using sum_list_triv [of "70 :: nat" xs] by (simp cong: map_cong del: encode.simps)
  ultimately show ?thesis
    by (simp add: length_encode_Map sealed_entries_def o_def del: encode.simps)
qed

lemma length_seal:
  assumes "length (sign (encode (cbor_map fs))) = 64" "length fs < 22"
  shows "length (seal fs sign) = 71 + sum_list (map field_size fs)"
  unfolding seal_sealed
  using length_sealed_entries [of "[(''sig'', sign (encode (cbor_map fs)))]" fs] assms
  by (simp add: signatures_ok_def)

lemma length_seal_acked:
  assumes "length (sign (encode (cbor_map fs))) = 64" "length (ack (encode (cbor_map fs))) = 64"
    and "length fs < 22"
  shows "length (seal_acked fs sign ack) = 141 + sum_list (map field_size fs)"
  using length_sealed_entries [of "[(''sig'', sign (encode (cbor_map fs))), (''ack'', ack (encode (cbor_map fs)))]" fs]
    assms
  by (simp add: signatures_ok_def seal_acked_def sealed_entries_def Let_def)


subsection \<open>The contract of an object type\<close>

locale signed_object =
  fixes fields_of :: "'o \<Rightarrow> fields"
    and read :: "cbor_value \<Rightarrow> id_error + 'o"
    and valid :: "'o \<Rightarrow> bool"
  assumes fields: "valid x \<Longrightarrow> fields_ok (fields_of x)"
    and read_back: "valid x \<Longrightarrow>
      (\<And>k. k \<noteq> ''sig'' \<Longrightarrow> k \<noteq> ''ack'' \<Longrightarrow>
         value_get v k = map_option cbor_canon (field (fields_of x) k)) \<Longrightarrow> read v = Inr x"
    and read_valid: "cbor_wf v \<Longrightarrow> read v = Inr x \<Longrightarrow> valid x"
begin

lemma read_sealed:
  assumes "valid x" "signatures_ok xs"
  shows "read (sealed_value (fields_of x) xs) = Inr x"
proof (rule read_back [OF assms(1)])
  fix k
  assume "k \<noteq> ''sig''" "k \<noteq> ''ack''"
  then have "k \<notin> fst ` set xs" using signature_key [OF assms(2)] by force
  then show "value_get (sealed_value (fields_of x) xs) k = map_option cbor_canon (field (fields_of x) k)"
    using get_sealed_field [OF fields_ok_plain [OF fields [OF assms(1)]] assms(2)] by (simp add: sealed_value_def)
qed

lemma open_sealed:
  assumes "valid x" "length (sign (encode (cbor_map (fields_of x)))) = 64"
  obtains env where "envelope_open (seal (fields_of x) sign) = Inr env"
    "read (env_value env) = Inr x" "env_signed_bytes env = encode (cbor_map (fields_of x))"
    "env_sig env = sign (encode (cbor_map (fields_of x)))"
  using envelope_open_seal [of "fields_of x" sign] fields [OF assms(1)] read_sealed [OF assms(1)] assms(2)
  by (simp add: signatures_ok_def)

lemma open_signed:
  assumes "crypto_ok C" "length key = 32" "valid x"
  obtains env where "decode_canonical (seal (fields_of x) (sign_domain C key d)) = Inr (env_value env)"
    "envelope_from_value (env_value env) = Inr env" "read (env_value env) = Inr x"
    "envelope_verify C env (ed_public C key) d = Inr ()"
    "\<forall>k. k \<noteq> ''sig'' \<longrightarrow> value_get (env_value env) k = map_option cbor_canon (field (fields_of x) k)"
proof -
  let ?fs = "fields_of x"
  let ?body = "encode (cbor_map ?fs)"
  let ?s = "sign_domain C key d ?body"
  let ?v = "sealed_value ?fs [(''sig'', ?s)]"
  let ?env = "\<lparr>env_value = ?v, env_v = VERSION, env_signed_bytes = ?body, env_sig = ?s\<rparr>"
  have len: "length ?s = 64" using assms(1,2) by (rule length_sign_domain)
  then have sigs: "signatures_ok [(''sig'', ?s)]" by (simp add: signatures_ok_def)
  note ok = fields [OF assms(3)]
  show ?thesis
  proof (rule that)
    show "decode_canonical (seal ?fs (sign_domain C key d)) = Inr (env_value ?env)"
      using decode_seal [of ?fs "sign_domain C key d"] ok len by simp
    show "envelope_from_value (env_value ?env) = Inr ?env"
      using envelope_of_sealed [OF ok len] by simp
    show "read (env_value ?env) = Inr x" using read_sealed [OF assms(3) sigs] by simp
    show "envelope_verify C ?env (ed_public C key) d = Inr ()"
      using verify_sign_domain [OF assms(1,2)] by (simp add: envelope_verify_def)
    show "\<forall>k. k \<noteq> ''sig'' \<longrightarrow> value_get (env_value ?env) k = map_option cbor_canon (field ?fs k)"
      using get_sealed_field [OF fields_ok_plain [OF ok] sigs] by (simp add: sealed_value_def)
  qed
qed

lemma body_inject:
  assumes "valid x" "valid y" "encode (cbor_map (fields_of x)) = encode (cbor_map (fields_of y))"
  shows "x = y"
proof -
  have none: "signatures_ok []" by (simp add: signatures_ok_def)
  have "sealed_value (fields_of x) [] = sealed_value (fields_of y) []"
    using decode_sealed [OF fields_ok_plain [OF fields [OF assms(1)]] none] decode_sealed [OF fields_ok_plain [OF fields [OF assms(2)]] none] assms(3)
    by (simp add: sealed_value_def sealed_entries_def cbor_map_entries)
  then have "Inr x = (Inr y :: id_error + 'o)"
    using read_sealed [OF assms(1) none] read_sealed [OF assms(2) none] by metis
  then show ?thesis by blast
qed

end


subsection \<open>Opened envelopes\<close>

lemma decode_wf: "decode_canonical bs = Inr v \<Longrightarrow> cbor_wf v"
  by (simp add: decode_canonical_iff cbor_canonical_def)

lemma envelope_from_value_Inr:
  "envelope_from_value v = Inr env \<longleftrightarrow>
     is_map v \<and> value_get v ''v'' = Some (Uint VERSION)
     \<and> (\<exists>sig. value_get v ''sig'' = Some (Bytes sig) \<and> length sig = 64
          \<and> env = \<lparr>env_value = v, env_v = VERSION,
                   env_signed_bytes = encode (value_without v ''sig''), env_sig = sig\<rparr>)"
proof -
  have one: "(n = 0 \<or> VERSION < n) \<longleftrightarrow> n \<noteq> VERSION" for n :: u64
    by (auto simp: VERSION_def word_less_nat_alt word_unat_eq_iff)
  have "envelope_from_value v = Inr env \<longleftrightarrow> is_map v \<and> (\<exists>n. f_uint v ''v'' = Inr n \<and> n = VERSION \<and>
     (\<exists>sig. f_bytes64 v ''sig'' = Inr sig \<and> \<lparr>env_value = v, env_v = n,
        env_signed_bytes = encode (value_without v ''sig''), env_sig = sig\<rparr> = env))"
    unfolding envelope_from_value_def envelope_from_value_upto_def one
    by (simp add: bindR_Inr_iff)
  then show ?thesis by (auto simp: f_Inr_iff)
qed

lemma envelope_open_Inr:
  "envelope_open bs = Inr env \<longleftrightarrow> (\<exists>v. decode_canonical bs = Inr v \<and> envelope_from_value v = Inr env)"
  by (simp add: envelope_open_def envelope_open_upto_def envelope_from_value_def result_simps)

lemma envelope_open_wf: "envelope_open bs = Inr env \<Longrightarrow> cbor_wf (env_value env) \<and> bs = encode (env_value env)"
  by (auto simp: envelope_open_Inr envelope_from_value_Inr decode_canonical_iff cbor_canonical_def)

lemma envelope_open_ex:
  "(\<exists>env. envelope_open bs = Inr env \<and> P env) \<longleftrightarrow>
     (\<exists>v sig. bs = encode v \<and> cbor_canonical v \<and> is_map v \<and> value_get v ''v'' = Some (Uint VERSION)
        \<and> value_get v ''sig'' = Some (Bytes sig) \<and> length sig = 64
        \<and> P \<lparr>env_value = v, env_v = VERSION,
             env_signed_bytes = encode (value_without v ''sig''), env_sig = sig\<rparr>)"
  unfolding envelope_open_Inr envelope_from_value_Inr decode_canonical_iff by blast

text \<open>One concrete instance of the cryptography, for evaluating the model: it keeps the promises of
  \<open>crypto_ok\<close> and nothing else.\<close>

definition sample_crypto :: crypto where
  "sample_crypto = \<lparr>
     sha256 = \<lambda>bs. take 32 (bs @ replicate 32 0),
     ed_public = \<lambda>seed. seed,
     ed_sign = \<lambda>_ _. replicate 64 0,
     ed_point = \<lambda>_. True,
     ed_weak = \<lambda>_. False,
     ed_recompress = \<lambda>k. k,
     ed_verify_strict = \<lambda>_ _ _. True\<rparr>"

lemma sample_crypto_ok: "crypto_ok sample_crypto"
  by (simp add: crypto_ok_def sample_crypto_def min_def)

end
