(* ===== verification/Identity_Objects.thy ===== *)
theory Identity_Objects
  imports Signed
begin

section \<open>Attestations and device certificates\<close>

text \<open>
  \<^verbatim>\<open>crates/hl-identity/src/attestation.rs\<close> and \<^verbatim>\<open>cert.rs\<close>: the object a registrar signs about an
  identity, and the object an identity signs about one of its devices.  A signing function that
  asserts its key returns \<open>None\<close> where the assertion fails.  The \<open>..._read\<close> functions are the
  struct expressions of the source, which read every field before anything is checked.

  Each object interprets \<open>signed_object\<close>; the properties say that what is signed parses back to
  what was signed, and that nothing is accepted unless its fields pass the checks and its
  signature verifies.
\<close>


subsection \<open>Attestations\<close>

definition ATTESTATION_DOMAIN :: string where
  "ATTESTATION_DOMAIN = ''hl-identity/attestation/v1''"

definition MAX_HOST_BYTES :: nat where "MAX_HOST_BYTES = 253"
definition MAX_HANDLE_BYTES :: nat where "MAX_HANDLE_BYTES = 64"

definition is_host_char :: "nat \<Rightarrow> bool" where
  "is_host_char c \<longleftrightarrow> (0x30 \<le> c \<and> c \<le> 0x39) \<or> (0x41 \<le> c \<and> c \<le> 0x5a) \<or> (0x61 \<le> c \<and> c \<le> 0x7a)
     \<or> c = 0x2d \<or> c = 0x2e"

text \<open>\<open>str::to_lowercase\<close> is \<open>to_ascii_lowercase\<close> on ASCII; a host that is not ASCII is refused by
  the last conjunct, whatever its first one is.\<close>

definition is_host :: "string \<Rightarrow> bool" where
  "is_host host \<longleftrightarrow> host = to_ascii_lowercase host \<and> host \<noteq> [] \<and> length host \<le> MAX_HOST_BYTES
     \<and> str_valid host \<and> (\<forall>c\<in>set (str_chars host). is_host_char c)"

record attestation =
  at_identity :: bytes
  at_registrar :: string
  at_registrar_key :: bytes
  at_handle :: string
  at_registered :: u64
  at_issued :: u64
  at_expires :: u64
  at_level :: "u64 option"

definition full_handle :: "attestation \<Rightarrow> string" where
  "full_handle a = at_handle a @ ''@'' @ at_registrar a"

definition attestation_unsigned :: "attestation \<Rightarrow> fields" where
  "attestation_unsigned a =
     [(''v'', Some (Uint VERSION)),
      (''identity'', Some (Bytes (at_identity a))),
      (''registrar'', Some (Text (at_registrar a))),
      (''registrar_key'', Some (Bytes (at_registrar_key a))),
      (''handle'', Some (Text (at_handle a))),
      (''registered'', Some (Uint (at_registered a))),
      (''issued'', Some (Uint (at_issued a))),
      (''expires'', Some (Uint (at_expires a))),
      (''level'', map_option Uint (at_level a))]"

definition attestation_seal :: "crypto \<Rightarrow> bytes \<Rightarrow> attestation \<Rightarrow> bytes" where
  "attestation_seal C key a = seal (attestation_unsigned a) (sign_domain C key ATTESTATION_DOMAIN)"

definition attestation_sign :: "crypto \<Rightarrow> bytes \<Rightarrow> attestation \<Rightarrow> bytes option" where
  "attestation_sign C key a =
     (if ed_public C key \<noteq> at_registrar_key a then None else Some (attestation_seal C key a))"

definition attestation_signed_value :: "crypto \<Rightarrow> bytes \<Rightarrow> attestation \<Rightarrow> cbor_value option" where
  "attestation_signed_value C key a =
     (case attestation_sign C key a of
        None \<Rightarrow> None
      | Some bs \<Rightarrow> (case decode_canonical bs of Inl _ \<Rightarrow> None | Inr v \<Rightarrow> Some v))"

definition attestation_read :: "cbor_value \<Rightarrow> id_error + attestation" where
  "attestation_read v =
     bindR (f_bytes32 v ''identity'') (\<lambda>identity.
     bindR (f_text v ''registrar'') (\<lambda>registrar.
     bindR (f_bytes32 v ''registrar_key'') (\<lambda>registrar_key.
     bindR (f_text v ''handle'') (\<lambda>handle.
     bindR (f_uint v ''registered'') (\<lambda>registered.
     bindR (f_uint v ''issued'') (\<lambda>issued.
     bindR (f_uint v ''expires'') (\<lambda>expires.
     bindR (f_opt_uint v ''level'') (\<lambda>level.
       Inr \<lparr>at_identity = identity, at_registrar = registrar, at_registrar_key = registrar_key,
            at_handle = handle, at_registered = registered, at_issued = issued,
            at_expires = expires, at_level = level\<rparr>))))))))"

definition attestation_from_envelope ::
    "crypto \<Rightarrow> envelope \<Rightarrow> bytes option \<Rightarrow> id_error + attestation" where
  "attestation_from_envelope C env expect =
     bindR (attestation_read (env_value env)) (\<lambda>a.
       if \<not> is_host (at_registrar a) then Inl (BadField ''registrar'')
       else if at_handle a = [] \<or> MAX_HANDLE_BYTES < length (at_handle a)
         \<or> CHR ''@'' \<in> set (at_handle a)
         \<or> (\<exists>c\<in>set (str_chars (at_handle a)). c = 0x20 \<or> is_deceptive c)
       then Inl (BadField ''handle'')
       else if (case at_level a of Some l \<Rightarrow> 3 < l | None \<Rightarrow> False) then Inl (BadField ''level'')
       else if (case expect of Some e \<Rightarrow> at_identity a \<noteq> e | None \<Rightarrow> False) then Inl KeyMismatch
       else if at_issued a < at_registered a \<or> at_registered a = 0 then Inl (BadField ''registered'')
       else if at_expires a \<le> at_issued a then Inl (BadField ''expires'')
       else bindR (envelope_verify C env (at_registrar_key a) ATTESTATION_DOMAIN) (\<lambda>_. Inr a))"

definition attestation_parse :: "crypto \<Rightarrow> bytes \<Rightarrow> id_error + attestation" where
  "attestation_parse C bs = bindR (envelope_open bs) (\<lambda>env. attestation_from_envelope C env None)"

definition attestation_from_value :: "crypto \<Rightarrow> cbor_value \<Rightarrow> bytes \<Rightarrow> id_error + attestation" where
  "attestation_from_value C value expect =
     bindR (envelope_from_value value) (\<lambda>env. attestation_from_envelope C env (Some expect))"

definition verify_registrar :: "attestation \<Rightarrow> bytes \<Rightarrow> u64 \<Rightarrow> u64 \<Rightarrow> id_error + unit" where
  "verify_registrar a expected now skew =
     (if at_registrar_key a \<noteq> expected then Inl KeyMismatch
      else check_window (at_issued a) (at_expires a) now skew)"


subsection \<open>Device certificates\<close>

definition CERT_DOMAIN :: string where
  "CERT_DOMAIN = ''hl-identity/device-cert/v1''"

definition cap_LOGIN :: u64 where "cap_LOGIN = 1"
definition cap_MESSAGE :: u64 where "cap_MESSAGE = 2"
definition cap_VOUCH :: u64 where "cap_VOUCH = 4"
definition cap_MANAGE :: u64 where "cap_MANAGE = 8"

definition CERT_MAX_BYTES :: nat where "CERT_MAX_BYTES = 4 * 1024"
definition CERT_NAME_MAX_CHARS :: nat where "CERT_NAME_MAX_CHARS = 64"

record device_cert =
  dc_identity :: bytes
  dc_device :: bytes
  dc_device_enc :: bytes
  dc_issued :: u64
  dc_expires :: u64
  dc_caps :: "u64 option"
  dc_name :: "string option"

definition cert_for_keys ::
    "crypto \<Rightarrow> bytes \<Rightarrow> bytes \<Rightarrow> bytes \<Rightarrow> u64 \<Rightarrow> u64 \<Rightarrow> id_error + device_cert" where
  "cert_for_keys C identity device device_enc issued lifetime =
     (if unat issued + unat lifetime < 2 ^ 64
      then Inr \<lparr>dc_identity = ed_public C identity, dc_device = device, dc_device_enc = device_enc,
                dc_issued = issued, dc_expires = issued + lifetime, dc_caps = None, dc_name = None\<rparr>
      else Inl (BadField ''expires''))"

definition cert_unsigned :: "device_cert \<Rightarrow> fields" where
  "cert_unsigned c =
     [(''v'', Some (Uint VERSION)),
      (''identity'', Some (Bytes (dc_identity c))),
      (''device'', Some (Bytes (dc_device c))),
      (''device_enc'', Some (Bytes (dc_device_enc c))),
      (''issued'', Some (Uint (dc_issued c))),
      (''expires'', Some (Uint (dc_expires c))),
      (''caps'', map_option Uint (dc_caps c)),
      (''name'', map_option Text (dc_name c))]"

definition cert_sign :: "crypto \<Rightarrow> bytes \<Rightarrow> device_cert \<Rightarrow> bytes option" where
  "cert_sign C identity c =
     (if ed_public C identity \<noteq> dc_identity c then None
      else Some (seal (cert_unsigned c) (sign_domain C identity CERT_DOMAIN)))"

text \<open>\<open>str::trim\<close> over scalar values.\<close>

definition trim_chars :: "nat list \<Rightarrow> nat list" where
  "trim_chars cs = rev (dropWhile char_is_whitespace (rev (dropWhile char_is_whitespace cs)))"

definition cert_check_fields :: "device_cert \<Rightarrow> id_error + unit" where
  "cert_check_fields c =
     (case dc_name c of
        Some n \<Rightarrow>
          (let cs = str_chars n in
           if CERT_NAME_MAX_CHARS < length cs \<or> trim_chars cs \<noteq> cs \<or> trim_chars cs = []
              \<or> (\<exists>ch\<in>set cs. is_deceptive ch)
           then Inl (BadField ''name'') else Inr ())
      | None \<Rightarrow> Inr ())"

definition cert_from_envelope :: "cbor_value \<Rightarrow> id_error + device_cert" where
  "cert_from_envelope v =
     bindR (f_bytes32 v ''identity'') (\<lambda>identity.
     bindR (f_bytes32 v ''device'') (\<lambda>device.
     bindR (f_bytes32 v ''device_enc'') (\<lambda>device_enc.
     bindR (f_uint v ''issued'') (\<lambda>issued.
     bindR (f_uint v ''expires'') (\<lambda>expires.
     bindR (f_opt_uint v ''caps'') (\<lambda>caps.
     bindR (f_opt_text v ''name'') (\<lambda>name.
       Inr \<lparr>dc_identity = identity, dc_device = device, dc_device_enc = device_enc,
            dc_issued = issued, dc_expires = expires, dc_caps = caps, dc_name = name\<rparr>)))))))"

definition cert_open :: "bytes \<Rightarrow> id_error + device_cert \<times> envelope" where
  "cert_open bs =
     (if CERT_MAX_BYTES < length bs then Inl TooLarge
      else bindR (envelope_open bs) (\<lambda>env.
           bindR (cert_from_envelope (env_value env)) (\<lambda>c.
           bindR (cert_check_fields c) (\<lambda>_. Inr (c, env)))))"

definition cert_parse :: "crypto \<Rightarrow> bytes \<Rightarrow> id_error + device_cert" where
  "cert_parse C bs =
     bindR (cert_open bs) (\<lambda>(c, env).
     bindR (envelope_verify C env (dc_identity c) CERT_DOMAIN) (\<lambda>_. Inr c))"

definition cert_check_valid :: "device_cert \<Rightarrow> u64 \<Rightarrow> u64 \<Rightarrow> id_error + unit" where
  "cert_check_valid c now skew = check_window (dc_issued c) (dc_expires c) now skew"

definition cert_allows :: "device_cert \<Rightarrow> u64 \<Rightarrow> bool" where
  "cert_allows c capability = (case dc_caps c of None \<Rightarrow> True | Some bits \<Rightarrow> and bits capability = capability)"

definition cert_require :: "device_cert \<Rightarrow> u64 \<Rightarrow> id_error + unit" where
  "cert_require c capability = (if cert_allows c capability then Inr () else Inl CapabilityMissing)"


subsection \<open>The object contract\<close>

text \<open>What Rust's types promise of an object: keys of 32 bytes, text that is UTF-8.\<close>

definition attestation_typed :: "attestation \<Rightarrow> bool" where
  "attestation_typed a \<longleftrightarrow> length (at_identity a) = 32 \<and> length (at_registrar_key a) = 32
     \<and> text_ok (at_registrar a) \<and> text_ok (at_handle a)"

definition cert_typed :: "device_cert \<Rightarrow> bool" where
  "cert_typed c \<longleftrightarrow> length (dc_identity c) = 32 \<and> length (dc_device c) = 32
     \<and> length (dc_device_enc c) = 32 \<and> (\<forall>n. dc_name c = Some n \<longrightarrow> text_ok n)"

text \<open>The checks \<open>parse\<close> makes on an attestation's fields, as one predicate.\<close>

definition attestation_ok :: "attestation \<Rightarrow> bool" where
  "attestation_ok a \<longleftrightarrow> is_host (at_registrar a)
     \<and> at_handle a \<noteq> [] \<and> length (at_handle a) \<le> MAX_HANDLE_BYTES \<and> CHR ''@'' \<notin> set (at_handle a)
     \<and> (\<forall>c\<in>set (str_chars (at_handle a)). c \<noteq> 0x20 \<and> \<not> is_deceptive c)
     \<and> (\<forall>l. at_level a = Some l \<longrightarrow> l \<le> 3)
     \<and> 0 < at_registered a \<and> at_registered a \<le> at_issued a \<and> at_issued a < at_expires a"

lemmas object_simps = field_def str_ascii_def VERSION_def

interpretation att: signed_object attestation_unsigned attestation_read attestation_typed
proof unfold_locales
  fix x :: attestation
  assume "attestation_typed x"
  then show "fields_ok (attestation_unsigned x)"
    by (intro fields_okI)
      (auto simp: attestation_unsigned_def attestation_typed_def object_simps split: option.splits)
next
  fix x :: attestation and v
  assume "attestation_typed x"
    and get: "\<And>k. k \<noteq> ''sig'' \<Longrightarrow> k \<noteq> ''ack'' \<Longrightarrow>
      value_get v k = map_option cbor_canon (field (attestation_unsigned x) k)"
  then show "attestation_read v = Inr x"
    by (cases "at_level x")
      (simp_all add: attestation_read_def field_defs attestation_unsigned_def attestation_typed_def object_simps)
next
  fix x v
  assume "cbor_wf v" "attestation_read v = Inr x"
  then show "attestation_typed x"
    by (auto simp: attestation_read_def attestation_typed_def result_simps dest: value_get_Text)
qed

interpretation cert: signed_object cert_unsigned cert_from_envelope cert_typed
proof unfold_locales
  fix x :: device_cert
  assume "cert_typed x"
  then show "fields_ok (cert_unsigned x)"
    by (intro fields_okI)
      (auto simp: cert_unsigned_def cert_typed_def object_simps split: option.splits)
next
  fix x :: device_cert and v
  assume "cert_typed x"
    and get: "\<And>k. k \<noteq> ''sig'' \<Longrightarrow> k \<noteq> ''ack'' \<Longrightarrow>
      value_get v k = map_option cbor_canon (field (cert_unsigned x) k)"
  then show "cert_from_envelope v = Inr x"
    by (cases "dc_caps x"; cases "dc_name x")
      (simp_all add: cert_from_envelope_def field_defs cert_unsigned_def cert_typed_def object_simps)
next
  fix x v
  assume "cbor_wf v" "cert_from_envelope v = Inr x"
  then show "cert_typed x"
    by (auto simp: cert_from_envelope_def cert_typed_def result_simps dest: value_get_Text)
qed


subsection \<open>What is accepted\<close>

lemma attestation_from_envelope_iff:
  "attestation_from_envelope C env expect = Inr a \<longleftrightarrow>
     attestation_read (env_value env) = Inr a \<and> attestation_ok a
     \<and> (\<forall>e. expect = Some e \<longrightarrow> at_identity a = e)
     \<and> envelope_verify C env (at_registrar_key a) ATTESTATION_DOMAIN = Inr ()"
proof (cases "attestation_read (env_value env)")
  case (Inl e)
  then show ?thesis by (simp add: attestation_from_envelope_def)
next
  case (Inr b)
  then show ?thesis
    by (auto simp: attestation_from_envelope_def attestation_ok_def result_simps not_le not_less
        word_neq_0_conv split: option.splits)
qed

lemma attestation_seal_parses:
  assumes "crypto_ok C" "length key = 32" "attestation_typed a" "attestation_ok a"
    and "at_registrar_key a = ed_public C key"
  shows "attestation_parse C (attestation_seal C key a) = Inr a"
proof -
  let ?sign = "sign_domain C key ATTESTATION_DOMAIN"
  obtain env where env: "envelope_open (attestation_seal C key a) = Inr env"
    "attestation_read (env_value env) = Inr a"
    "env_signed_bytes env = encode (cbor_map (attestation_unsigned a))"
    "env_sig env = ?sign (encode (cbor_map (attestation_unsigned a)))"
    unfolding attestation_seal_def
    by (rule att.open_sealed [OF assms(3), of ?sign]) (simp_all add: length_sign_domain assms(1,2))
  then have "envelope_verify C env (at_registrar_key a) ATTESTATION_DOMAIN = Inr ()"
    using assms by (simp add: envelope_verify_def verify_sign_domain)
  with env(1,2) assms(4) show ?thesis
    by (simp add: attestation_parse_def attestation_from_envelope_iff)
qed

lemma cert_name_short:
  "cert_typed c \<Longrightarrow> cert_check_fields c = Inr () \<Longrightarrow> dc_name c = Some n \<Longrightarrow> length n \<le> 256"
  using str_chars_length [of n]
  by (auto simp: cert_check_fields_def cert_typed_def text_ok_def CERT_NAME_MAX_CHARS_def Let_def
      split: if_splits)

lemma cert_size:
  assumes "cert_typed c" "cert_check_fields c = Inr ()"
    and "length (sign (encode (cbor_map (cert_unsigned c)))) = 64"
  shows "length (seal (cert_unsigned c) sign) \<le> CERT_MAX_BYTES"
proof -
  have keys: "length (dc_identity c) = 32" "length (dc_device c) = 32" "length (dc_device_enc c) = 32"
    using assms(1) by (simp_all add: cert_typed_def)
  have name: "field_size (''name'', map_option Text (dc_name c)) \<le> 300"
    using cert_name_short [OF assms(1,2)]
    by (cases "dc_name c") (auto intro!: size_bounds)
  have caps: "field_size (''caps'', map_option Uint (dc_caps c)) \<le> 300"
    by (cases "dc_caps c") (auto intro!: field_size_Uint)
  have "list_all2 (\<lambda>p m. field_size p \<le> m) (cert_unsigned c) [300, 300, 300, 300, 300, 300, 300, 300]"
    unfolding cert_unsigned_def
    by (simp add: keys name caps field_size_Uint field_size_Bytes)
  then have "sum_list (map field_size (cert_unsigned c)) \<le> sum_list [300, 300, 300, 300, 300, 300, 300, 300]"
    by (rule sum_field_sizes)
  moreover have "length (cert_unsigned c) < 22" by (simp add: cert_unsigned_def)
  ultimately show ?thesis
    using length_seal [of sign "cert_unsigned c"] assms(3) by (simp add: CERT_MAX_BYTES_def)
qed

lemma cert_seal_parses:
  assumes "crypto_ok C" "length key = 32" "cert_typed c" "cert_check_fields c = Inr ()"
    and "dc_identity c = ed_public C key"
  shows "cert_parse C (seal (cert_unsigned c) (sign_domain C key CERT_DOMAIN)) = Inr c"
proof -
  let ?sign = "sign_domain C key CERT_DOMAIN"
  have len: "length (?sign bs) = 64" for bs by (simp add: length_sign_domain assms(1,2))
  obtain env where env: "envelope_open (seal (cert_unsigned c) ?sign) = Inr env"
    "cert_from_envelope (env_value env) = Inr c"
    "env_signed_bytes env = encode (cbor_map (cert_unsigned c))"
    "env_sig env = ?sign (encode (cbor_map (cert_unsigned c)))"
    by (rule cert.open_sealed [OF assms(3), of ?sign]) (simp_all add: len)
  then have "envelope_verify C env (dc_identity c) CERT_DOMAIN = Inr ()"
    using assms by (simp add: envelope_verify_def verify_sign_domain)
  with env(1,2) cert_size [OF assms(3,4), of ?sign] len assms(4) show ?thesis
    by (simp add: cert_parse_def cert_open_def not_less)
qed


subsection \<open>Properties\<close>

text \<open>An attestation a registrar signs with its own key, over fields that pass the checks, parses
  back to exactly what was signed, for any cryptography that keeps its documented promises.\<close>

theorem attestation_roundtrip:
  assumes "crypto_ok C" "length key = 32" "attestation_typed a" "attestation_ok a"
    and "at_registrar_key a = ed_public C key"
  shows "\<exists>bs. attestation_sign C key a = Some bs \<and> attestation_parse C bs = Inr a"
  using attestation_seal_parses [OF assms] assms(5) by (simp add: attestation_sign_def)

definition sample_attestation :: attestation where
  "sample_attestation = \<lparr>at_identity = replicate 32 7, at_registrar = ''hl.example'',
     at_registrar_key = replicate 32 9, at_handle = ''alice'', at_registered = 10, at_issued = 20,
     at_expires = 30, at_level = Some 2\<rparr>"

lemma sample_attestation_ok: "attestation_typed sample_attestation" "attestation_ok sample_attestation"
  by (simp_all add: sample_attestation_def attestation_typed_def text_ok_def str_ascii_valid
      str_ascii_def attestation_ok_def is_host_def to_ascii_lowercase_def ascii_lower_def
      is_ascii_upper_def MAX_HOST_BYTES_def MAX_HANDLE_BYTES_def str_chars_def str_ascii_chars
      is_host_char_def visible_ascii_not_deceptive less_eq_char_def)

theorem attestation_roundtrip_witness:
  "\<exists>bs. attestation_sign sample_crypto (replicate 32 9) sample_attestation = Some bs
     \<and> attestation_parse sample_crypto bs = Inr sample_attestation"
  by (rule attestation_roundtrip [OF sample_crypto_ok _ sample_attestation_ok])
    (simp_all add: sample_attestation_def sample_crypto_def)

text \<open>exactly what \<open>Attestation::parse\<close> accepts: canonical bytes of a version-1 envelope whose
  fields read as the attestation, pass every check on host, handle, level and timeline, and whose
  signature over the bytes without \<open>sig\<close> verifies under the embedded registrar key and the
  attestation domain.\<close>

theorem attestation_parse_exact:
  "attestation_parse C bs = Inr a \<longleftrightarrow>
     (\<exists>v sig. bs = encode v \<and> cbor_canonical v \<and> is_map v \<and> value_get v ''v'' = Some (Uint 1)
        \<and> value_get v ''sig'' = Some (Bytes sig) \<and> length sig = 64
        \<and> attestation_read v = Inr a \<and> attestation_ok a
        \<and> verify_domain C (at_registrar_key a) ATTESTATION_DOMAIN
            (encode (value_without v ''sig'')) sig = Inr ())"
  unfolding attestation_parse_def bindR_Inr_iff envelope_open_ex
  by (simp add: attestation_from_envelope_iff envelope_verify_def VERSION_def)

text \<open>A device certificate signed with its identity's key parses back to exactly what was signed
  whenever its name passes the name check; the size bound of 4 KiB can never be what refuses it,
  since a name of at most 64 characters is at most 256 bytes.\<close>

theorem cert_roundtrip:
  assumes "crypto_ok C" "length key = 32" "cert_typed c" "cert_check_fields c = Inr ()"
    and "dc_identity c = ed_public C key"
  shows "\<exists>bs. cert_sign C key c = Some bs \<and> cert_parse C bs = Inr c"
  using cert_seal_parses [OF assms] assms(5) by (simp add: cert_sign_def)

definition sample_cert :: device_cert where
  "sample_cert = \<lparr>dc_identity = replicate 32 7, dc_device = replicate 32 8,
     dc_device_enc = replicate 32 6, dc_issued = 10, dc_expires = 90, dc_caps = Some 9,
     dc_name = Some ''A phone''\<rparr>"

lemma sample_cert_ok: "cert_typed sample_cert" "cert_check_fields sample_cert = Inr ()"
  by (simp_all add: sample_cert_def cert_typed_def text_ok_def str_ascii_valid str_ascii_def
      cert_check_fields_def str_chars_def str_ascii_chars trim_chars_def char_is_whitespace_def
      CERT_NAME_MAX_CHARS_def visible_ascii_not_deceptive)

theorem cert_roundtrip_witness:
  "\<exists>bs. cert_sign sample_crypto (replicate 32 7) sample_cert = Some bs
     \<and> cert_parse sample_crypto bs = Inr sample_cert"
  by (rule cert_roundtrip [OF sample_crypto_ok _ sample_cert_ok])
    (simp_all add: sample_cert_def sample_crypto_def)

end
