(* ===== verification/Registrar_Objects.thy ===== *)
theory Registrar_Objects
  imports Identity_Objects
begin

section \<open>The registrar's objects\<close>

text \<open>
  \<^verbatim>\<open>crates/hl-identity/src/registrar.rs\<close>: the registration request, the five kinds of record, the
  signed lists and the stats.  \<open>record_parse\<close> is \<open>Record::parse\<close>, the one verifier that the
  registrar, the servers and the command-line tool all run.

  The objects carry no type tag: the kind of a record is read from the fields each kind alone has,
  and the signature is then checked under that kind's domain.  The properties say that each kind,
  once signed, is read back as itself, that a record is accepted only with a signature of the
  party that may make it, and that no message signed under one domain is a message of another.
\<close>

definition REGISTER_DOMAIN :: string where "REGISTER_DOMAIN = ''hl-identity/register/v1''"
definition REVOKE_DEVICE_DOMAIN :: string where "REVOKE_DEVICE_DOMAIN = ''hl-identity/revoke-device/v1''"
definition REVOKE_IDENTITY_DOMAIN :: string where
  "REVOKE_IDENTITY_DOMAIN = ''hl-identity/revoke-identity/v1''"
definition ROTATE_DOMAIN :: string where "ROTATE_DOMAIN = ''hl-identity/rotate/v1''"
definition FREEZE_DOMAIN :: string where "FREEZE_DOMAIN = ''hl-identity/freeze/v1''"
definition REVOKE_ATTESTATION_DOMAIN :: string where
  "REVOKE_ATTESTATION_DOMAIN = ''hl-identity/revoke-attestation/v1''"
definition RECORDS_DOMAIN :: string where "RECORDS_DOMAIN = ''hl-identity/records/v1''"
definition LOG_DOMAIN :: string where "LOG_DOMAIN = ''hl-identity/log/v1''"
definition STATS_DOMAIN :: string where "STATS_DOMAIN = ''hl-identity/stats/v1''"

lemmas domain_defs = REGISTER_DOMAIN_def REVOKE_DEVICE_DOMAIN_def REVOKE_IDENTITY_DOMAIN_def
  ROTATE_DOMAIN_def FREEZE_DOMAIN_def REVOKE_ATTESTATION_DOMAIN_def RECORDS_DOMAIN_def LOG_DOMAIN_def
  STATS_DOMAIN_def ATTESTATION_DOMAIN_def CERT_DOMAIN_def

definition REGISTER_MAX_BYTES :: nat where "REGISTER_MAX_BYTES = 2 * 1024"
definition REVOKE_DEVICE_MAX_BYTES :: nat where "REVOKE_DEVICE_MAX_BYTES = 6 * 1024"
definition SMALL_RECORD_MAX_BYTES :: nat where "SMALL_RECORD_MAX_BYTES = 512"
definition STATS_MAX_BYTES :: nat where "STATS_MAX_BYTES = 1024"
definition LIST_MAX_BYTES :: nat where "LIST_MAX_BYTES = 1024 * 1024"
definition PROOF_MAX_BYTES :: nat where "PROOF_MAX_BYTES = 1024"

definition handle_alnum :: "char \<Rightarrow> bool" where
  "handle_alnum c \<longleftrightarrow> is_ascii_lower c \<or> is_ascii_digit c"

definition handle_punct :: "char \<Rightarrow> bool" where
  "handle_punct c \<longleftrightarrow> c = CHR ''.'' \<or> c = CHR ''_'' \<or> c = CHR ''-''"

definition handle_is_canonical :: "string \<Rightarrow> nat \<Rightarrow> nat \<Rightarrow> bool" where
  "handle_is_canonical b lo hi =
     (if length b < lo \<or> hi < length b \<or> b = [] then False
      else if \<not> handle_alnum (b ! 0) \<or> \<not> handle_alnum (b ! (length b - 1)) then False
      else if \<not> list_all (\<lambda>c. handle_alnum c \<or> handle_punct c) b then False
      else \<not> list_ex (\<lambda>(x, y). handle_punct x \<and> handle_punct y) (windows2 b))"

definition check_host :: "string \<Rightarrow> id_error + unit" where
  "check_host host = (if is_host host then Inr () else Inl (BadField ''registrar''))"

definition check_size :: "bytes \<Rightarrow> nat \<Rightarrow> id_error + unit" where
  "check_size bs limit = (if limit < length bs then Inl TooLarge else Inr ())"

definition read_reason :: "cbor_value \<Rightarrow> u64 \<Rightarrow> id_error + u64 option" where
  "read_reason v limit =
     bindR (f_opt_uint v ''reason'') (\<lambda>r.
       if (case r of Some r \<Rightarrow> limit < r | None \<Rightarrow> False) then Inl (BadField ''reason'') else Inr r)"


subsection \<open>Registration request\<close>

record register_request =
  rr_identity :: bytes
  rr_registrar :: string
  rr_handle :: string
  rr_time :: u64
  rr_successor :: "bytes option"
  rr_proof :: "string option"

definition register_unsigned :: "register_request \<Rightarrow> fields" where
  "register_unsigned r =
     [(''v'', Some (Uint VERSION)),
      (''identity'', Some (Bytes (rr_identity r))),
      (''registrar'', Some (Text (rr_registrar r))),
      (''handle'', Some (Text (rr_handle r))),
      (''time'', Some (Uint (rr_time r))),
      (''successor'', map_option Bytes (rr_successor r)),
      (''proof'', map_option Text (rr_proof r))]"

definition register_read :: "cbor_value \<Rightarrow> id_error + register_request" where
  "register_read v =
     bindR (f_bytes32 v ''identity'') (\<lambda>identity.
     bindR (f_text v ''registrar'') (\<lambda>registrar.
     bindR (f_text v ''handle'') (\<lambda>handle.
     bindR (f_uint v ''time'') (\<lambda>time.
     bindR (f_opt_bytes32 v ''successor'') (\<lambda>successor.
     bindR (f_opt_text v ''proof'') (\<lambda>proof.
       Inr \<lparr>rr_identity = identity, rr_registrar = registrar, rr_handle = handle, rr_time = time,
            rr_successor = successor, rr_proof = proof\<rparr>))))))"

definition register_parse :: "crypto \<Rightarrow> bytes \<Rightarrow> id_error + register_request" where
  "register_parse C bs =
     bindR (check_size bs REGISTER_MAX_BYTES) (\<lambda>_.
     bindR (envelope_open bs) (\<lambda>env.
     bindR (register_read (env_value env)) (\<lambda>r.
     bindR (check_host (rr_registrar r)) (\<lambda>_.
       if rr_handle r = [] \<or> 64 < length (rr_handle r) then Inl (BadField ''handle'')
       else if (case rr_proof r of Some p \<Rightarrow> PROOF_MAX_BYTES < length p | None \<Rightarrow> False)
       then Inl (BadField ''proof'')
       else bindR (envelope_verify C env (rr_identity r) REGISTER_DOMAIN) (\<lambda>_. Inr r)))))"

definition register_sign :: "crypto \<Rightarrow> bytes \<Rightarrow> register_request \<Rightarrow> (id_error + bytes) option" where
  "register_sign C identity r =
     (if ed_public C identity \<noteq> rr_identity r then None
      else let bs = seal (register_unsigned r) (sign_domain C identity REGISTER_DOMAIN)
           in Some (bindR (register_parse C bs) (\<lambda>_. Inr bs)))"


subsection \<open>Device revocation\<close>

definition device_reason_RETIRED :: u64 where "device_reason_RETIRED = 3"

record device_revocation =
  dr_identity :: bytes
  dr_device :: bytes
  dr_time :: u64
  dr_until :: u64
  dr_reason :: "u64 option"
  dr_signer :: "bytes option"
  dr_signer_cert :: "bytes option"

definition default_until :: "u64 \<Rightarrow> u64" where
  "default_until time = sat_add time (2 * 365 * 24 * 3600)"

definition device_revocation_unsigned :: "device_revocation \<Rightarrow> fields" where
  "device_revocation_unsigned r =
     [(''v'', Some (Uint VERSION)),
      (''identity'', Some (Bytes (dr_identity r))),
      (''device'', Some (Bytes (dr_device r))),
      (''time'', Some (Uint (dr_time r))),
      (''until'', Some (Uint (dr_until r))),
      (''reason'', map_option Uint (dr_reason r)),
      (''signer'', map_option Bytes (dr_signer r)),
      (''signer_cert'', map_option Bytes (dr_signer_cert r))]"

definition device_revocation_read :: "cbor_value \<Rightarrow> id_error + device_revocation" where
  "device_revocation_read v =
     bindR (f_bytes32 v ''identity'') (\<lambda>identity.
     bindR (f_bytes32 v ''device'') (\<lambda>device.
     bindR (f_uint v ''time'') (\<lambda>time.
     bindR (f_uint v ''until'') (\<lambda>until.
     bindR (read_reason v device_reason_RETIRED) (\<lambda>reason.
     bindR (f_opt_bytes32 v ''signer'') (\<lambda>signer.
     bindR (f_opt_bytes v ''signer_cert'') (\<lambda>signer_cert.
       Inr \<lparr>dr_identity = identity, dr_device = device, dr_time = time, dr_until = until,
            dr_reason = reason, dr_signer = signer, dr_signer_cert = signer_cert\<rparr>)))))))"

definition device_revocation_from_envelope ::
    "crypto \<Rightarrow> envelope \<Rightarrow> id_error + device_revocation" where
  "device_revocation_from_envelope C env =
     bindR (device_revocation_read (env_value env)) (\<lambda>r.
       if dr_until r < dr_time r then Inl (BadField ''until'')
       else case (dr_signer r, dr_signer_cert r) of
         (None, None) \<Rightarrow>
           bindR (envelope_verify C env (dr_identity r) REVOKE_DEVICE_DOMAIN) (\<lambda>_. Inr r)
       | (Some signer, Some cert) \<Rightarrow>
           bindR (cert_parse C cert) (\<lambda>cert.
             if dc_identity cert \<noteq> dr_identity r \<or> dc_device cert \<noteq> signer then Inl KeyMismatch
             else bindR (cert_require cert cap_MANAGE) (\<lambda>_.
               if dr_time r < dc_issued cert \<or> dc_expires cert < dr_time r then Inl Expired
               else bindR (envelope_verify C env signer REVOKE_DEVICE_DOMAIN) (\<lambda>_. Inr r)))
       | (Some _, None) \<Rightarrow> Inl (MissingField ''signer_cert'')
       | (None, Some _) \<Rightarrow> Inl (MissingField ''signer''))"

definition device_revocation_parse :: "crypto \<Rightarrow> bytes \<Rightarrow> id_error + device_revocation" where
  "device_revocation_parse C bs =
     bindR (check_size bs REVOKE_DEVICE_MAX_BYTES) (\<lambda>_.
     bindR (envelope_open bs) (device_revocation_from_envelope C))"

definition device_revocation_sign ::
    "crypto \<Rightarrow> bytes \<Rightarrow> device_revocation \<Rightarrow> (id_error + bytes) option" where
  "device_revocation_sign C identity r =
     (if ed_public C identity \<noteq> dr_identity r \<or> \<not> (dr_signer r = None \<and> dr_signer_cert r = None) then None
      else let bs = seal (device_revocation_unsigned r) (sign_domain C identity REVOKE_DEVICE_DOMAIN)
           in Some (bindR (device_revocation_parse C bs) (\<lambda>_. Inr bs)))"

definition device_revocation_sign_as_device ::
    "crypto \<Rightarrow> bytes \<Rightarrow> bytes \<Rightarrow> device_revocation \<Rightarrow> id_error + bytes" where
  "device_revocation_sign_as_device C device cert r0 =
     (let r = r0\<lparr>dr_signer := Some (ed_public C device), dr_signer_cert := Some cert\<rparr>;
          bs = seal (device_revocation_unsigned r) (sign_domain C device REVOKE_DEVICE_DOMAIN)
      in bindR (device_revocation_parse C bs) (\<lambda>_. Inr bs))"


subsection \<open>Identity revocation\<close>

definition identity_reason_COMPROMISED :: u64 where "identity_reason_COMPROMISED = 2"

record identity_revocation =
  ir_identity :: bytes
  ir_time :: u64
  ir_reason :: "u64 option"

definition identity_revocation_unsigned :: "identity_revocation \<Rightarrow> fields" where
  "identity_revocation_unsigned r =
     [(''v'', Some (Uint VERSION)),
      (''identity'', Some (Bytes (ir_identity r))),
      (''time'', Some (Uint (ir_time r))),
      (''reason'', map_option Uint (ir_reason r))]"

definition identity_revocation_read :: "cbor_value \<Rightarrow> id_error + identity_revocation" where
  "identity_revocation_read v =
     bindR (f_bytes32 v ''identity'') (\<lambda>identity.
     bindR (f_uint v ''time'') (\<lambda>time.
     bindR (read_reason v identity_reason_COMPROMISED) (\<lambda>reason.
       Inr \<lparr>ir_identity = identity, ir_time = time, ir_reason = reason\<rparr>)))"

definition identity_revocation_from_envelope ::
    "crypto \<Rightarrow> envelope \<Rightarrow> id_error + identity_revocation" where
  "identity_revocation_from_envelope C env =
     bindR (identity_revocation_read (env_value env)) (\<lambda>r.
     bindR (envelope_verify C env (ir_identity r) REVOKE_IDENTITY_DOMAIN) (\<lambda>_. Inr r))"

definition identity_revocation_parse :: "crypto \<Rightarrow> bytes \<Rightarrow> id_error + identity_revocation" where
  "identity_revocation_parse C bs =
     bindR (check_size bs SMALL_RECORD_MAX_BYTES) (\<lambda>_.
     bindR (envelope_open bs) (identity_revocation_from_envelope C))"

definition identity_revocation_sign ::
    "crypto \<Rightarrow> bytes \<Rightarrow> identity_revocation \<Rightarrow> (id_error + bytes) option" where
  "identity_revocation_sign C identity r =
     (if ed_public C identity \<noteq> ir_identity r then None
      else let bs = seal (identity_revocation_unsigned r) (sign_domain C identity REVOKE_IDENTITY_DOMAIN)
           in Some (bindR (identity_revocation_parse C bs) (\<lambda>_. Inr bs)))"


subsection \<open>Rotation\<close>

record rotation =
  ro_identity :: bytes
  ro_successor :: bytes
  ro_time :: u64

definition rotation_unsigned :: "rotation \<Rightarrow> fields" where
  "rotation_unsigned r =
     [(''v'', Some (Uint VERSION)),
      (''identity'', Some (Bytes (ro_identity r))),
      (''successor'', Some (Bytes (ro_successor r))),
      (''time'', Some (Uint (ro_time r)))]"

definition rotation_read :: "cbor_value \<Rightarrow> id_error + rotation" where
  "rotation_read v =
     bindR (f_bytes32 v ''identity'') (\<lambda>identity.
     bindR (f_bytes32 v ''successor'') (\<lambda>successor.
     bindR (f_uint v ''time'') (\<lambda>time.
       Inr \<lparr>ro_identity = identity, ro_successor = successor, ro_time = time\<rparr>)))"

definition rotation_from_value :: "crypto \<Rightarrow> cbor_value \<Rightarrow> id_error + rotation" where
  "rotation_from_value C value =
     bindR (acked_from_value value) (\<lambda>env.
     bindR (rotation_read (ack_value env)) (\<lambda>r.
       if ro_identity r = ro_successor r then Inl (BadField ''successor'')
       else bindR (acked_verify C env (ro_identity r) (ro_successor r) ROTATE_DOMAIN) (\<lambda>_. Inr r)))"

definition rotation_parse :: "crypto \<Rightarrow> bytes \<Rightarrow> id_error + rotation" where
  "rotation_parse C bs =
     bindR (check_size bs SMALL_RECORD_MAX_BYTES) (\<lambda>_.
     bindR (map_err CborErr (decode_canonical bs)) (rotation_from_value C))"

definition rotation_sign :: "crypto \<Rightarrow> bytes \<Rightarrow> bytes \<Rightarrow> rotation \<Rightarrow> (id_error + bytes) option" where
  "rotation_sign C predecessor successor r =
     (if ed_public C predecessor \<noteq> ro_identity r \<or> ed_public C successor \<noteq> ro_successor r then None
      else let bs = seal_acked (rotation_unsigned r) (sign_domain C predecessor ROTATE_DOMAIN)
                      (sign_domain C successor (ack_domain ROTATE_DOMAIN))
           in Some (bindR (rotation_parse C bs) (\<lambda>_. Inr bs)))"

definition rotation_commitment :: "crypto \<Rightarrow> rotation \<Rightarrow> bytes" where
  "rotation_commitment C r = sha256 C (ro_successor r)"


subsection \<open>Records the registrar signs\<close>

record freeze_record =
  fr_identity :: bytes
  fr_registrar :: string
  fr_frozen :: bool
  fr_time :: u64

definition freeze_unsigned :: "freeze_record \<Rightarrow> fields" where
  "freeze_unsigned r =
     [(''v'', Some (Uint VERSION)),
      (''identity'', Some (Bytes (fr_identity r))),
      (''registrar'', Some (Text (fr_registrar r))),
      (''frozen'', Some (Bool (fr_frozen r))),
      (''time'', Some (Uint (fr_time r)))]"

definition freeze_sign :: "crypto \<Rightarrow> bytes \<Rightarrow> freeze_record \<Rightarrow> bytes" where
  "freeze_sign C registrar r = seal (freeze_unsigned r) (sign_domain C registrar FREEZE_DOMAIN)"

definition freeze_read :: "cbor_value \<Rightarrow> id_error + freeze_record" where
  "freeze_read v =
     bindR (f_bytes32 v ''identity'') (\<lambda>identity.
     bindR (f_text v ''registrar'') (\<lambda>registrar.
     bindR (f_bool v ''frozen'') (\<lambda>frozen.
     bindR (f_uint v ''time'') (\<lambda>time.
       Inr \<lparr>fr_identity = identity, fr_registrar = registrar, fr_frozen = frozen, fr_time = time\<rparr>))))"

fun verify_any_from :: "crypto \<Rightarrow> envelope \<Rightarrow> string \<Rightarrow> id_error \<Rightarrow> bytes list \<Rightarrow> id_error + unit" where
  "verify_any_from C env domain e0 [] = Inl e0"
| "verify_any_from C env domain e0 (k # ks) =
     (case envelope_verify C env k domain of
        Inr u \<Rightarrow> Inr u
      | Inl e \<Rightarrow> verify_any_from C env domain e ks)"

definition verify_any :: "crypto \<Rightarrow> envelope \<Rightarrow> bytes list \<Rightarrow> string \<Rightarrow> id_error + unit" where
  "verify_any C env keys domain =
     (if keys = [] then Inl KeyMismatch else verify_any_from C env domain BadSignature keys)"

definition freeze_from_envelope ::
    "crypto \<Rightarrow> envelope \<Rightarrow> bytes list \<Rightarrow> id_error + freeze_record" where
  "freeze_from_envelope C env keys =
     bindR (freeze_read (env_value env)) (\<lambda>r.
     bindR (check_host (fr_registrar r)) (\<lambda>_.
     bindR (verify_any C env keys FREEZE_DOMAIN) (\<lambda>_. Inr r)))"

definition attestation_reason_RECOVERED :: u64 where "attestation_reason_RECOVERED = 1"
definition attestation_reason_ROTATED :: u64 where "attestation_reason_ROTATED = 2"
definition attestation_reason_ABUSE :: u64 where "attestation_reason_ABUSE = 4"

record attestation_revocation =
  ar_identity :: bytes
  ar_registrar :: string
  ar_handle :: string
  ar_time :: u64
  ar_reason :: "u64 option"

definition attestation_revocation_unsigned :: "attestation_revocation \<Rightarrow> fields" where
  "attestation_revocation_unsigned r =
     [(''v'', Some (Uint VERSION)),
      (''identity'', Some (Bytes (ar_identity r))),
      (''registrar'', Some (Text (ar_registrar r))),
      (''handle'', Some (Text (ar_handle r))),
      (''time'', Some (Uint (ar_time r))),
      (''reason'', map_option Uint (ar_reason r))]"

definition attestation_revocation_sign :: "crypto \<Rightarrow> bytes \<Rightarrow> attestation_revocation \<Rightarrow> bytes" where
  "attestation_revocation_sign C registrar r =
     seal (attestation_revocation_unsigned r) (sign_domain C registrar REVOKE_ATTESTATION_DOMAIN)"

definition voids :: "attestation_revocation \<Rightarrow> attestation \<Rightarrow> bool" where
  "voids r a \<longleftrightarrow> at_identity a = ar_identity r \<and> at_registrar a = ar_registrar r
     \<and> at_handle a = ar_handle r \<and> at_issued a \<le> ar_time r"

definition attestation_revocation_read :: "cbor_value \<Rightarrow> id_error + attestation_revocation" where
  "attestation_revocation_read v =
     bindR (f_bytes32 v ''identity'') (\<lambda>identity.
     bindR (f_text v ''registrar'') (\<lambda>registrar.
     bindR (f_text v ''handle'') (\<lambda>handle.
     bindR (f_uint v ''time'') (\<lambda>time.
     bindR (read_reason v attestation_reason_ABUSE) (\<lambda>reason.
       Inr \<lparr>ar_identity = identity, ar_registrar = registrar, ar_handle = handle, ar_time = time,
            ar_reason = reason\<rparr>)))))"

definition attestation_revocation_from_envelope ::
    "crypto \<Rightarrow> envelope \<Rightarrow> bytes list \<Rightarrow> id_error + attestation_revocation" where
  "attestation_revocation_from_envelope C env keys =
     bindR (attestation_revocation_read (env_value env)) (\<lambda>r.
     bindR (check_host (ar_registrar r)) (\<lambda>_.
       if ar_handle r = [] \<or> 64 < length (ar_handle r) then Inl (BadField ''handle'')
       else bindR (verify_any C env keys REVOKE_ATTESTATION_DOMAIN) (\<lambda>_. Inr r)))"


subsection \<open>The records, as one type\<close>

datatype record_obj =
    RevokeDevice device_revocation
  | RevokeIdentity identity_revocation
  | Rotate rotation
  | Freeze freeze_record
  | RevokeAttestation attestation_revocation

record registrar_keys =
  rk_host :: string
  rk_keys :: "bytes list"

primrec record_registrar :: "record_obj \<Rightarrow> string option" where
  "record_registrar (RevokeDevice r) = None"
| "record_registrar (RevokeIdentity r) = None"
| "record_registrar (Rotate r) = None"
| "record_registrar (Freeze r) = Some (fr_registrar r)"
| "record_registrar (RevokeAttestation r) = Some (ar_registrar r)"

primrec record_identity :: "record_obj \<Rightarrow> bytes" where
  "record_identity (RevokeDevice r) = dr_identity r"
| "record_identity (RevokeIdentity r) = ir_identity r"
| "record_identity (Rotate r) = ro_identity r"
| "record_identity (Freeze r) = fr_identity r"
| "record_identity (RevokeAttestation r) = ar_identity r"

primrec record_time :: "record_obj \<Rightarrow> u64" where
  "record_time (RevokeDevice r) = dr_time r"
| "record_time (RevokeIdentity r) = ir_time r"
| "record_time (Rotate r) = ro_time r"
| "record_time (Freeze r) = fr_time r"
| "record_time (RevokeAttestation r) = ar_time r"

definition user_signed :: "record_obj \<Rightarrow> bool" where
  "user_signed r \<longleftrightarrow> record_registrar r = None"

definition map_ok :: "('a \<Rightarrow> 'b) \<Rightarrow> 'e + 'a \<Rightarrow> 'e + 'b" where
  "map_ok f m = bindR m (\<lambda>x. Inr (f x))"

definition has_key :: "cbor_value \<Rightarrow> string \<Rightarrow> bool" where
  "has_key v k \<longleftrightarrow> value_get v k \<noteq> None"

definition record_parse :: "crypto \<Rightarrow> bytes \<Rightarrow> registrar_keys option \<Rightarrow> id_error + record_obj" where
  "record_parse C bs registrar =
     bindR (check_size bs REVOKE_DEVICE_MAX_BYTES) (\<lambda>_.
     bindR (map_err CborErr (decode_canonical bs)) (\<lambda>value.
       if has_key value ''ack'' \<or> has_key value ''successor'' then
         bindR (check_size bs SMALL_RECORD_MAX_BYTES) (\<lambda>_. map_ok Rotate (rotation_from_value C value))
       else if has_key value ''device'' then
         bindR (envelope_from_value value) (\<lambda>env.
           map_ok RevokeDevice (device_revocation_from_envelope C env))
       else bindR (check_size bs SMALL_RECORD_MAX_BYTES) (\<lambda>_.
         if has_key value ''frozen'' \<or> has_key value ''handle'' then
           bindR (ok_or KeyMismatch registrar) (\<lambda>reg.
           bindR (envelope_from_value value) (\<lambda>env.
           bindR (if has_key (env_value env) ''frozen''
                  then map_ok Freeze (freeze_from_envelope C env (rk_keys reg))
                  else map_ok RevokeAttestation
                         (attestation_revocation_from_envelope C env (rk_keys reg))) (\<lambda>r.
             if record_registrar r \<noteq> Some (rk_host reg) then Inl (BadField ''registrar'') else Inr r)))
         else bindR (envelope_from_value value) (\<lambda>env.
           map_ok RevokeIdentity (identity_revocation_from_envelope C env)))))"


subsection \<open>Signed lists\<close>

datatype list_kind = Records | Log

primrec list_domain :: "list_kind \<Rightarrow> string" where
  "list_domain Records = RECORDS_DOMAIN"
| "list_domain Log = LOG_DOMAIN"

record signed_list =
  sl_registrar :: string
  sl_issued :: u64
  sl_expires :: u64
  sl_fingerprint :: "bytes option"
  sl_since :: "u64 option"
  sl_more :: bool
  sl_entries :: "(u64 \<times> bytes) list"

definition ENTRY_OVERHEAD :: nat where "ENTRY_OVERHEAD = 1 + 9 + 9"
definition PAGE_OVERHEAD :: nat where "PAGE_OVERHEAD = 512"

definition signed_list_unsigned :: "signed_list \<Rightarrow> fields" where
  "signed_list_unsigned l =
     [(''v'', Some (Uint VERSION)),
      (''registrar'', Some (Text (sl_registrar l))),
      (''issued'', Some (Uint (sl_issued l))),
      (''expires'', Some (Uint (sl_expires l))),
      (''fingerprint'', map_option Bytes (sl_fingerprint l)),
      (''since'', map_option Uint (sl_since l)),
      (''more'', if sl_more l then Some (Bool True) else None),
      (''entries'', Some (Array (map (\<lambda>(seq, b). Array [Uint seq, Bytes b]) (sl_entries l))))]"

definition signed_list_sign :: "crypto \<Rightarrow> bytes \<Rightarrow> list_kind \<Rightarrow> signed_list \<Rightarrow> bytes option" where
  "signed_list_sign C registrar kind l =
     (if kind = Records \<or> sl_fingerprint l = None
      then Some (seal (signed_list_unsigned l) (sign_domain C registrar (list_domain kind)))
      else None)"

fun read_entries :: "cbor_value list \<Rightarrow> id_error + (u64 \<times> bytes) list" where
  "read_entries [] = Inr []"
| "read_entries (Array [Uint seq, Bytes b] # items) =
     bindR (read_entries items) (\<lambda>rest. Inr ((seq, b) # rest))"
| "read_entries (_ # items) = Inl (BadField ''entries'')"

definition read_items :: "cbor_value \<Rightarrow> id_error + cbor_value list" where
  "read_items v = (case value_get v ''entries'' of
     Some (Array items) \<Rightarrow> Inr items
   | Some _ \<Rightarrow> Inl (BadField ''entries'')
   | None \<Rightarrow> Inl (MissingField ''entries''))"

definition signed_list_read :: "cbor_value \<Rightarrow> id_error + signed_list" where
  "signed_list_read v =
     bindR (read_items v) (\<lambda>items.
     bindR (read_entries items) (\<lambda>entries.
     bindR (f_text v ''registrar'') (\<lambda>registrar.
     bindR (f_uint v ''issued'') (\<lambda>issued.
     bindR (f_uint v ''expires'') (\<lambda>expires.
     bindR (f_opt_bytes32 v ''fingerprint'') (\<lambda>fingerprint.
     bindR (f_opt_uint v ''since'') (\<lambda>since.
     bindR (f_opt_bool v ''more'') (\<lambda>more.
       Inr \<lparr>sl_registrar = registrar, sl_issued = issued, sl_expires = expires,
            sl_fingerprint = fingerprint, sl_since = since,
            sl_more = (case more of Some b \<Rightarrow> b | None \<Rightarrow> False), sl_entries = entries\<rparr>))))))))"

fun check_seqs :: "u64 option \<Rightarrow> u64 option \<Rightarrow> (u64 \<times> bytes) list \<Rightarrow> bool" where
  "check_seqs since prev [] = True"
| "check_seqs since prev ((seq, b) # es) =
     (if (case since of Some floor \<Rightarrow> seq \<le> floor | None \<Rightarrow> False)
         \<or> (case prev of Some p \<Rightarrow> seq \<le> p | None \<Rightarrow> False)
      then False else check_seqs since (Some seq) es)"

definition signed_list_parse ::
    "crypto \<Rightarrow> bytes \<Rightarrow> list_kind \<Rightarrow> registrar_keys \<Rightarrow> id_error + signed_list" where
  "signed_list_parse C bs kind registrar =
     bindR (check_size bs LIST_MAX_BYTES) (\<lambda>_.
     bindR (envelope_open bs) (\<lambda>env.
     bindR (signed_list_read (env_value env)) (\<lambda>l.
       if sl_registrar l \<noteq> rk_host registrar then Inl (BadField ''registrar'')
       else if sl_expires l < sl_issued l then Inl (BadField ''expires'')
       else if kind = Log \<and> sl_fingerprint l \<noteq> None then Inl (BadField ''fingerprint'')
       else if \<not> check_seqs (sl_since l) None (sl_entries l) then Inl (BadField ''entries'')
       else bindR (verify_any C env (rk_keys registrar) (list_domain kind)) (\<lambda>_. Inr l))))"


subsection \<open>Stats\<close>

record stats =
  st_registrar :: string
  st_at :: u64
  st_identities :: u64
  st_issued_24h :: u64
  st_issued_7d :: u64
  st_issued_total :: u64
  st_revoked_total :: u64
  st_frozen :: u64
  st_log_seq :: u64

definition stats_unsigned :: "stats \<Rightarrow> fields" where
  "stats_unsigned s =
     [(''v'', Some (Uint VERSION)),
      (''registrar'', Some (Text (st_registrar s))),
      (''at'', Some (Uint (st_at s))),
      (''identities'', Some (Uint (st_identities s))),
      (''issued_24h'', Some (Uint (st_issued_24h s))),
      (''issued_7d'', Some (Uint (st_issued_7d s))),
      (''issued_total'', Some (Uint (st_issued_total s))),
      (''revoked_total'', Some (Uint (st_revoked_total s))),
      (''frozen'', Some (Uint (st_frozen s))),
      (''log_seq'', Some (Uint (st_log_seq s)))]"

definition stats_sign :: "crypto \<Rightarrow> bytes \<Rightarrow> stats \<Rightarrow> bytes" where
  "stats_sign C registrar s = seal (stats_unsigned s) (sign_domain C registrar STATS_DOMAIN)"

definition stats_read :: "cbor_value \<Rightarrow> id_error + stats" where
  "stats_read v =
     bindR (f_text v ''registrar'') (\<lambda>registrar.
     bindR (f_uint v ''at'') (\<lambda>at.
     bindR (f_uint v ''identities'') (\<lambda>identities.
     bindR (f_uint v ''issued_24h'') (\<lambda>issued_24h.
     bindR (f_uint v ''issued_7d'') (\<lambda>issued_7d.
     bindR (f_uint v ''issued_total'') (\<lambda>issued_total.
     bindR (f_uint v ''revoked_total'') (\<lambda>revoked_total.
     bindR (f_uint v ''frozen'') (\<lambda>frozen.
     bindR (f_uint v ''log_seq'') (\<lambda>log_seq.
       Inr \<lparr>st_registrar = registrar, st_at = at, st_identities = identities,
            st_issued_24h = issued_24h, st_issued_7d = issued_7d, st_issued_total = issued_total,
            st_revoked_total = revoked_total, st_frozen = frozen, st_log_seq = log_seq\<rparr>)))))))))"

definition stats_parse :: "crypto \<Rightarrow> bytes \<Rightarrow> registrar_keys \<Rightarrow> id_error + stats" where
  "stats_parse C bs registrar =
     bindR (check_size bs STATS_MAX_BYTES) (\<lambda>_.
     bindR (envelope_open bs) (\<lambda>env.
     bindR (stats_read (env_value env)) (\<lambda>s.
       if st_registrar s \<noteq> rk_host registrar then Inl (BadField ''registrar'')
       else bindR (verify_any C env (rk_keys registrar) STATS_DOMAIN) (\<lambda>_. Inr s))))"


subsection \<open>The object contracts\<close>

definition opt_all :: "('a \<Rightarrow> bool) \<Rightarrow> 'a option \<Rightarrow> bool" where
  "opt_all P m \<longleftrightarrow> (case m of None \<Rightarrow> True | Some x \<Rightarrow> P x)"

definition register_typed :: "register_request \<Rightarrow> bool" where
  "register_typed r \<longleftrightarrow> length (rr_identity r) = 32 \<and> text_ok (rr_registrar r) \<and> text_ok (rr_handle r)
     \<and> opt_all (\<lambda>b. length b = 32) (rr_successor r) \<and> opt_all text_ok (rr_proof r)"

definition device_revocation_typed :: "device_revocation \<Rightarrow> bool" where
  "device_revocation_typed r \<longleftrightarrow> length (dr_identity r) = 32 \<and> length (dr_device r) = 32
     \<and> opt_all (\<lambda>n. n \<le> device_reason_RETIRED) (dr_reason r)
     \<and> opt_all (\<lambda>b. length b = 32) (dr_signer r) \<and> opt_all (\<lambda>b. length b < 2 ^ 64) (dr_signer_cert r)"

definition identity_revocation_typed :: "identity_revocation \<Rightarrow> bool" where
  "identity_revocation_typed r \<longleftrightarrow> length (ir_identity r) = 32
     \<and> opt_all (\<lambda>n. n \<le> identity_reason_COMPROMISED) (ir_reason r)"

definition rotation_typed :: "rotation \<Rightarrow> bool" where
  "rotation_typed r \<longleftrightarrow> length (ro_identity r) = 32 \<and> length (ro_successor r) = 32"

definition freeze_typed :: "freeze_record \<Rightarrow> bool" where
  "freeze_typed r \<longleftrightarrow> length (fr_identity r) = 32 \<and> text_ok (fr_registrar r)"

definition attestation_revocation_typed :: "attestation_revocation \<Rightarrow> bool" where
  "attestation_revocation_typed r \<longleftrightarrow> length (ar_identity r) = 32 \<and> text_ok (ar_registrar r)
     \<and> text_ok (ar_handle r) \<and> opt_all (\<lambda>n. n \<le> attestation_reason_ABUSE) (ar_reason r)"

definition signed_list_typed :: "signed_list \<Rightarrow> bool" where
  "signed_list_typed l \<longleftrightarrow> text_ok (sl_registrar l) \<and> opt_all (\<lambda>b. length b = 32) (sl_fingerprint l)
     \<and> length (sl_entries l) < 2 ^ 64 \<and> (\<forall>e\<in>set (sl_entries l). length (snd e) < 2 ^ 64)"

definition stats_typed :: "stats \<Rightarrow> bool" where
  "stats_typed s \<longleftrightarrow> text_ok (st_registrar s)"

lemma opt_all_simps [simp]: "opt_all P None" "opt_all P (Some x) = P x"
  by (simp_all add: opt_all_def)

lemma opt_all_conv: "opt_all P m \<longleftrightarrow> (\<forall>x. m = Some x \<longrightarrow> P x)"
  by (cases m) simp_all

lemma read_reason_Inr [result_simps]:
  "read_reason v m = Inr r \<longleftrightarrow> value_get v ''reason'' = map_option Uint r \<and> opt_all (\<lambda>n. n \<le> m) r"
  by (cases r) (auto simp: read_reason_def result_simps not_less split: option.splits)

lemma value_get_opt_Text:
  "cbor_wf v \<Longrightarrow> value_get v k = map_option Text m \<Longrightarrow> opt_all text_ok m"
  by (cases m) (auto dest: value_get_Text)

lemma value_get_opt_Bytes:
  "cbor_wf v \<Longrightarrow> value_get v k = map_option Bytes m \<Longrightarrow> opt_all (\<lambda>b. length b < 2 ^ 64) m"
  by (cases m) (auto dest: value_get_Bytes)

interpretation reg_req: signed_object register_unsigned register_read register_typed
proof unfold_locales
  fix x :: register_request
  assume "register_typed x"
  then show "fields_ok (register_unsigned x)"
    by (intro fields_okI)
      (auto simp: register_unsigned_def register_typed_def opt_all_def object_simps split: option.splits)
next
  fix x :: register_request and v
  assume "register_typed x"
    and "\<And>k. k \<noteq> ''sig'' \<Longrightarrow> k \<noteq> ''ack'' \<Longrightarrow>
      value_get v k = map_option cbor_canon (field (register_unsigned x) k)"
  then show "register_read v = Inr x"
    by (cases "rr_successor x"; cases "rr_proof x")
      (simp_all add: register_read_def field_defs register_unsigned_def register_typed_def object_simps)
next
  fix x v
  assume "cbor_wf v" "register_read v = Inr x"
  then show "register_typed x"
    by (auto simp: register_read_def register_typed_def result_simps opt_all_conv
        dest: value_get_Text value_get_opt_Text)
qed

interpretation dev_rev: signed_object device_revocation_unsigned device_revocation_read device_revocation_typed
proof unfold_locales
  fix x :: device_revocation
  assume "device_revocation_typed x"
  then show "fields_ok (device_revocation_unsigned x)"
    by (intro fields_okI) (auto simp: device_revocation_unsigned_def device_revocation_typed_def
        opt_all_def object_simps split: option.splits)
next
  fix x :: device_revocation and v
  assume "device_revocation_typed x"
    and "\<And>k. k \<noteq> ''sig'' \<Longrightarrow> k \<noteq> ''ack'' \<Longrightarrow>
      value_get v k = map_option cbor_canon (field (device_revocation_unsigned x) k)"
  then show "device_revocation_read v = Inr x"
    by (cases "dr_reason x"; cases "dr_signer x"; cases "dr_signer_cert x")
      (simp_all add: device_revocation_read_def read_reason_def not_less field_defs device_revocation_unsigned_def
        device_revocation_typed_def object_simps)
next
  fix x v
  assume "cbor_wf v" "device_revocation_read v = Inr x"
  then show "device_revocation_typed x"
    by (auto simp: device_revocation_read_def device_revocation_typed_def result_simps
        dest: value_get_opt_Bytes) (simp add: opt_all_conv)
qed

interpretation id_rev:
  signed_object identity_revocation_unsigned identity_revocation_read identity_revocation_typed
proof unfold_locales
  fix x :: identity_revocation
  assume "identity_revocation_typed x"
  then show "fields_ok (identity_revocation_unsigned x)"
    by (intro fields_okI) (auto simp: identity_revocation_unsigned_def identity_revocation_typed_def
        object_simps split: option.splits)
next
  fix x :: identity_revocation and v
  assume "identity_revocation_typed x"
    and "\<And>k. k \<noteq> ''sig'' \<Longrightarrow> k \<noteq> ''ack'' \<Longrightarrow>
      value_get v k = map_option cbor_canon (field (identity_revocation_unsigned x) k)"
  then show "identity_revocation_read v = Inr x"
    by (cases "ir_reason x")
      (simp_all add: identity_revocation_read_def read_reason_def not_less field_defs
        identity_revocation_unsigned_def identity_revocation_typed_def object_simps)
next
  fix x v
  assume "cbor_wf v" "identity_revocation_read v = Inr x"
  then show "identity_revocation_typed x"
    by (auto simp: identity_revocation_read_def identity_revocation_typed_def result_simps)
qed

interpretation rot: signed_object rotation_unsigned rotation_read rotation_typed
proof unfold_locales
  fix x :: rotation
  assume "rotation_typed x"
  then show "fields_ok (rotation_unsigned x)"
    by (intro fields_okI) (auto simp: rotation_unsigned_def rotation_typed_def object_simps)
next
  fix x :: rotation and v
  assume "rotation_typed x"
    and "\<And>k. k \<noteq> ''sig'' \<Longrightarrow> k \<noteq> ''ack'' \<Longrightarrow>
      value_get v k = map_option cbor_canon (field (rotation_unsigned x) k)"
  then show "rotation_read v = Inr x"
    by (simp add: rotation_read_def field_defs rotation_unsigned_def rotation_typed_def object_simps)
next
  fix x v
  assume "cbor_wf v" "rotation_read v = Inr x"
  then show "rotation_typed x"
    by (auto simp: rotation_read_def rotation_typed_def result_simps)
qed

interpretation frz: signed_object freeze_unsigned freeze_read freeze_typed
proof unfold_locales
  fix x :: freeze_record
  assume "freeze_typed x"
  then show "fields_ok (freeze_unsigned x)"
    by (intro fields_okI) (auto simp: freeze_unsigned_def freeze_typed_def object_simps)
next
  fix x :: freeze_record and v
  assume "freeze_typed x"
    and "\<And>k. k \<noteq> ''sig'' \<Longrightarrow> k \<noteq> ''ack'' \<Longrightarrow>
      value_get v k = map_option cbor_canon (field (freeze_unsigned x) k)"
  then show "freeze_read v = Inr x"
    by (simp add: freeze_read_def field_defs freeze_unsigned_def freeze_typed_def object_simps)
next
  fix x v
  assume "cbor_wf v" "freeze_read v = Inr x"
  then show "freeze_typed x"
    by (auto simp: freeze_read_def freeze_typed_def result_simps dest: value_get_Text)
qed

interpretation att_rev: signed_object
  attestation_revocation_unsigned attestation_revocation_read attestation_revocation_typed
proof unfold_locales
  fix x :: attestation_revocation
  assume "attestation_revocation_typed x"
  then show "fields_ok (attestation_revocation_unsigned x)"
    by (intro fields_okI) (auto simp: attestation_revocation_unsigned_def
        attestation_revocation_typed_def object_simps split: option.splits)
next
  fix x :: attestation_revocation and v
  assume "attestation_revocation_typed x"
    and "\<And>k. k \<noteq> ''sig'' \<Longrightarrow> k \<noteq> ''ack'' \<Longrightarrow>
      value_get v k = map_option cbor_canon (field (attestation_revocation_unsigned x) k)"
  then show "attestation_revocation_read v = Inr x"
    by (cases "ar_reason x")
      (simp_all add: attestation_revocation_read_def read_reason_def not_less field_defs
        attestation_revocation_unsigned_def attestation_revocation_typed_def object_simps)
next
  fix x v
  assume "cbor_wf v" "attestation_revocation_read v = Inr x"
  then show "attestation_revocation_typed x"
    by (auto simp: attestation_revocation_read_def attestation_revocation_typed_def result_simps
        dest: value_get_Text)
qed

interpretation sts: signed_object stats_unsigned stats_read stats_typed
proof unfold_locales
  fix x :: stats
  assume "stats_typed x"
  then show "fields_ok (stats_unsigned x)"
    by (intro fields_okI) (auto simp: stats_unsigned_def stats_typed_def object_simps)
next
  fix x :: stats and v
  assume "stats_typed x"
    and "\<And>k. k \<noteq> ''sig'' \<Longrightarrow> k \<noteq> ''ack'' \<Longrightarrow>
      value_get v k = map_option cbor_canon (field (stats_unsigned x) k)"
  then show "stats_read v = Inr x"
    by (simp add: stats_read_def field_defs stats_unsigned_def object_simps)
next
  fix x v
  assume "cbor_wf v" "stats_read v = Inr x"
  then show "stats_typed x"
    by (auto simp: stats_read_def stats_typed_def result_simps dest: value_get_Text)
qed

lemma value_ok_entries:
  assumes "length es < 2 ^ 64" "\<forall>e\<in>set es. length (snd e) < 2 ^ 64"
  shows "value_ok (Array (map (\<lambda>(seq, b). Array [Uint seq, Bytes b]) es))"
proof -
  have "0 + cbor_depth (Array (map (\<lambda>(seq, b). Array [Uint seq, Bytes b]) es)) \<le> MAX_DEPTH - 1"
    by (induction es) (auto simp: MAX_DEPTH_def)
  with assms show ?thesis by (fastforce simp: value_ok_def MAX_DEPTH_def)
qed

lemma read_entries_canon:
  "read_entries (map (\<lambda>(seq, b). Array [Uint seq, Bytes b]) es) = Inr es"
  by (induction es) auto

lemma canon_entries:
  "map (cbor_canon \<circ> (\<lambda>(seq, b). Array [Uint seq, Bytes b])) es
     = map (\<lambda>(seq, b). Array [Uint seq, Bytes b]) es"
  by auto

lemma read_entries_Inr:
  "read_entries items = Inr es \<longleftrightarrow> items = map (\<lambda>(seq, b). Array [Uint seq, Bytes b]) es"
  by (induction items arbitrary: es rule: read_entries.induct) (auto simp: result_simps)

lemma read_items_Inr [result_simps]: "read_items v = Inr items \<longleftrightarrow> value_get v ''entries'' = Some (Array items)"
  by (auto simp: read_items_def split: option.splits cbor_value.splits)

interpretation slist: signed_object signed_list_unsigned signed_list_read signed_list_typed
proof unfold_locales
  fix x :: signed_list
  assume "signed_list_typed x"
  then show "fields_ok (signed_list_unsigned x)"
    using value_ok_entries [of "sl_entries x"]
    by (intro fields_okI) (auto simp: signed_list_unsigned_def signed_list_typed_def opt_all_def
        object_simps split: option.splits)
next
  fix x :: signed_list and v
  assume "signed_list_typed x"
    and "\<And>k. k \<noteq> ''sig'' \<Longrightarrow> k \<noteq> ''ack'' \<Longrightarrow>
      value_get v k = map_option cbor_canon (field (signed_list_unsigned x) k)"
  then show "signed_list_read v = Inr x"
    by (cases "sl_fingerprint x"; cases "sl_since x"; cases "sl_more x")
      (simp_all add: signed_list_read_def read_items_def field_defs signed_list_unsigned_def
        signed_list_typed_def object_simps canon_entries read_entries_canon)
next
  fix x v
  assume wf: "cbor_wf v" and "signed_list_read v = Inr x"
  then obtain more where get: "value_get v ''registrar'' = Some (Text (sl_registrar x))"
    "value_get v ''fingerprint'' = map_option Bytes (sl_fingerprint x)"
    "opt_all (\<lambda>b. length b = 32) (sl_fingerprint x)"
    "value_get v ''entries'' = Some (Array (map (\<lambda>(seq, b). Array [Uint seq, Bytes b]) (sl_entries x)))"
    by (auto simp: signed_list_read_def result_simps read_entries_Inr opt_all_conv)
  then show "signed_list_typed x"
    using value_get_wf [OF wf get(4)] value_get_Text [OF wf get(1)]
    by (fastforce simp: signed_list_typed_def)
qed


subsection \<open>Facts about the parts\<close>

lemma verify_any_from_iff:
  "verify_any_from C env d e keys = Inr u \<longleftrightarrow> (\<exists>k\<in>set keys. envelope_verify C env k d = Inr ())"
  by (induction keys arbitrary: e) (auto split: sum.splits)

lemma verify_any_iff [result_simps]:
  "verify_any C env keys d = Inr u \<longleftrightarrow> (\<exists>k\<in>set keys. envelope_verify C env k d = Inr ())"
  by (cases keys) (auto simp: verify_any_def verify_any_from_iff simp del: verify_any_from.simps)

lemma check_host_iff [result_simps]: "check_host h = Inr u \<longleftrightarrow> is_host h"
  by (simp add: check_host_def)

lemma check_size_iff [result_simps]: "check_size bs m = Inr u \<longleftrightarrow> length bs \<le> m"
  by (simp add: check_size_def not_less)

lemma check_size_le [simp]: "length bs \<le> m \<Longrightarrow> check_size bs m = Inr ()"
  by (simp add: check_size_def)

lemma map_ok_iff [result_simps]: "map_ok f m = Inr y \<longleftrightarrow> (\<exists>x. m = Inr x \<and> y = f x)"
  by (cases m) (auto simp: map_ok_def)

lemma map_ok_simps [simp]: "map_ok f (Inl e) = Inl e" "map_ok f (Inr x) = Inr (f x)"
  by (simp_all add: map_ok_def)

lemma check_seqs_iff:
  "check_seqs since prev es \<longleftrightarrow>
     sorted_wrt (<) (map fst es) \<and> (\<forall>e\<in>set es. opt_all (\<lambda>p. p < fst e) prev \<and> opt_all (\<lambda>s. s < fst e) since)"
proof (induction es arbitrary: prev)
  case (Cons e es)
  obtain seq b where e: "e = (seq, b)" by (cases e)
  show ?case unfolding e
    by (auto simp: Cons.IH opt_all_def not_le split: option.splits intro: less_trans)
qed simp

lemma is_host_short: "is_host h \<Longrightarrow> length h \<le> 253"
  by (simp add: is_host_def MAX_HOST_BYTES_def)

lemma is_host_text: "is_host h \<Longrightarrow> text_ok h"
  by (auto simp: is_host_def MAX_HOST_BYTES_def text_ok_def)

lemma handle_char_facts:
  assumes "handle_alnum c \<or> handle_punct c"
  shows "(of_char c :: nat) < 128" "ascii_lower c = c" "c \<noteq> CHR ''@''"
    "(of_char c :: nat) \<noteq> 0x20" "\<not> is_deceptive (of_char c)"
proof -
  have range: "0x20 < (of_char c :: nat) \<and> (of_char c :: nat) \<le> 0x7a \<and> \<not> is_ascii_upper c \<and> c \<noteq> CHR ''@''"
    using assms
    by (auto simp: handle_alnum_def handle_punct_def is_ascii_lower_def is_ascii_digit_def
        is_ascii_upper_def less_eq_char_def)
  then show "(of_char c :: nat) < 128" "ascii_lower c = c" "c \<noteq> CHR ''@''" "(of_char c :: nat) \<noteq> 0x20"
    by (auto simp: ascii_lower_def)
  show "\<not> is_deceptive (of_char c)" using range by (intro visible_ascii_not_deceptive) auto
qed

lemma handle_canonical_facts:
  assumes "handle_is_canonical h lo hi"
  shows "str_ascii h" "to_ascii_lowercase h = h" "CHR ''@'' \<notin> set h" "h \<noteq> []"
    "\<forall>c\<in>set (str_chars h). c \<noteq> 0x20 \<and> \<not> is_deceptive c"
proof -
  have c: "handle_alnum c \<or> handle_punct c" if "c \<in> set h" for c
    using assms that by (auto simp: handle_is_canonical_def list_all_iff split: if_splits)
  show ascii: "str_ascii h" using handle_char_facts(1) [OF c] by (simp add: str_ascii_def)
  show "to_ascii_lowercase h = h"
    using handle_char_facts(2) [OF c] by (simp add: to_ascii_lowercase_def map_idI)
  show "CHR ''@'' \<notin> set h" using handle_char_facts(3) [OF c] by blast
  show "h \<noteq> []" using assms by (auto simp: handle_is_canonical_def split: if_splits)
  show "\<forall>c\<in>set (str_chars h). c \<noteq> 0x20 \<and> \<not> is_deceptive c"
    using handle_char_facts(4,5) [OF c] by (auto simp: str_chars_def str_ascii_chars [OF ascii])
qed


subsection \<open>Sizes\<close>

lemma seal_size:
  assumes "crypto_ok C" "length key = 32" "list_all2 (\<lambda>p m. field_size p \<le> m) fs ms" "length ms < 22"
    and "71 + sum_list ms \<le> m"
  shows "length (seal fs (sign_domain C key d)) \<le> m"
proof -
  have "length fs < 22" using assms(3,4) by (simp add: list_all2_lengthD)
  then show ?thesis
    using length_seal [of "sign_domain C key d" fs] sum_field_sizes [OF assms(3)] assms(5)
    by (simp add: length_sign_domain assms(1,2))
qed

lemma field_size_opt:
  "opt_all (\<lambda>x. field_size (k, Some (f x)) \<le> m) ov \<Longrightarrow> field_size (k, map_option f ov) \<le> m"
  by (cases ov) auto

lemma register_size:
  assumes "crypto_ok C" "length key = 32" "register_typed r" "is_host (rr_registrar r)"
    "length (rr_handle r) \<le> 64" "opt_all (\<lambda>p. length p \<le> PROOF_MAX_BYTES) (rr_proof r)"
  shows "length (seal (register_unsigned r) (sign_domain C key d)) \<le> REGISTER_MAX_BYTES"
proof (rule seal_size [OF assms(1,2)])
  note short = is_host_short [OF assms(4)]
  show "list_all2 (\<lambda>p m. field_size p \<le> m) (register_unsigned r) [20, 50, 280, 80, 20, 50, 1040]"
    using assms(3,5,6) short
    by (auto simp: register_unsigned_def register_typed_def PROOF_MAX_BYTES_def opt_all_conv
        intro!: field_size_Uint field_size_Bytes field_size_Text field_size_opt)
qed (simp_all add: REGISTER_MAX_BYTES_def)

lemma device_revocation_size:
  assumes "crypto_ok C" "length key = 32" "device_revocation_typed r"
    and "opt_all (\<lambda>c. length c \<le> CERT_MAX_BYTES) (dr_signer_cert r)"
  shows "length (seal (device_revocation_unsigned r) (sign_domain C key d)) \<le> REVOKE_DEVICE_MAX_BYTES"
proof (rule seal_size [OF assms(1,2)])
  show "list_all2 (\<lambda>p m. field_size p \<le> m) (device_revocation_unsigned r)
      [20, 50, 50, 20, 20, 20, 50, 4120]"
    using assms(3,4)
    by (auto simp: device_revocation_unsigned_def device_revocation_typed_def CERT_MAX_BYTES_def
        opt_all_conv intro!: field_size_Uint field_size_Bytes field_size_opt)
qed (simp_all add: REVOKE_DEVICE_MAX_BYTES_def)

lemma identity_revocation_size:
  assumes "crypto_ok C" "length key = 32" "identity_revocation_typed r"
  shows "length (seal (identity_revocation_unsigned r) (sign_domain C key d)) \<le> SMALL_RECORD_MAX_BYTES"
proof (rule seal_size [OF assms(1,2)])
  show "list_all2 (\<lambda>p m. field_size p \<le> m) (identity_revocation_unsigned r) [20, 50, 20, 20]"
    using assms(3)
    by (auto simp: identity_revocation_unsigned_def identity_revocation_typed_def
        opt_all_conv intro!: field_size_Uint field_size_Bytes field_size_opt)
qed (simp_all add: SMALL_RECORD_MAX_BYTES_def)

lemma freeze_size:
  assumes "crypto_ok C" "length key = 32" "freeze_typed r" "is_host (fr_registrar r)"
  shows "length (freeze_sign C key r) \<le> SMALL_RECORD_MAX_BYTES"
  unfolding freeze_sign_def
proof (rule seal_size [OF assms(1,2)])
  show "list_all2 (\<lambda>p m. field_size p \<le> m) (freeze_unsigned r) [20, 50, 270, 10, 20]"
    using assms(3) is_host_short [OF assms(4)]
    by (auto simp: freeze_unsigned_def freeze_typed_def
        intro!: field_size_Uint field_size_Bytes field_size_Text field_size_Bool)
qed (simp_all add: SMALL_RECORD_MAX_BYTES_def)

lemma attestation_revocation_size:
  assumes "crypto_ok C" "length key = 32" "length (ar_identity r) = 32" "is_host (ar_registrar r)"
    and "length (ar_handle r) \<le> 64"
  shows "length (attestation_revocation_sign C key r) \<le> SMALL_RECORD_MAX_BYTES"
  unfolding attestation_revocation_sign_def
proof (rule seal_size [OF assms(1,2)])
  show "list_all2 (\<lambda>p m. field_size p \<le> m) (attestation_revocation_unsigned r) [11, 44, 266, 74, 14, 16]"
    using assms(3,5) is_host_short [OF assms(4)]
    by (auto simp: attestation_revocation_unsigned_def opt_all_conv
        intro!: field_size_Uint field_size_Bytes field_size_Text field_size_opt)
qed (simp_all add: SMALL_RECORD_MAX_BYTES_def)

lemma attestation_size:
  assumes "crypto_ok C" "length key = 32" "length (at_identity a) = 32" "length (at_registrar_key a) = 32"
    and "is_host (at_registrar a)" "length (at_handle a) \<le> 64"
  shows "length (attestation_seal C key a) \<le> 1024"
  unfolding attestation_seal_def
proof (rule seal_size [OF assms(1,2)])
  show "list_all2 (\<lambda>p m. field_size p \<le> m) (attestation_unsigned a) [20, 50, 280, 60, 80, 30, 30, 30, 30]"
    using assms(3,4,6) is_host_short [OF assms(5)]
    by (auto simp: attestation_unsigned_def opt_all_conv
        intro!: field_size_Uint field_size_Bytes field_size_Text field_size_opt)
qed simp_all

lemma stats_size:
  assumes "crypto_ok C" "length key = 32" "is_host (st_registrar s)"
  shows "length (stats_sign C key s) \<le> STATS_MAX_BYTES"
  unfolding stats_sign_def
proof (rule seal_size [OF assms(1,2)])
  show "list_all2 (\<lambda>p m. field_size p \<le> m) (stats_unsigned s) [20, 300, 24, 24, 24, 24, 24, 24, 24, 24]"
    using is_host_short [OF assms(3)]
    by (auto simp: stats_unsigned_def intro!: field_size_Uint field_size_Text)
qed (simp_all add: STATS_MAX_BYTES_def)


subsection \<open>What is signed parses\<close>

definition register_ok :: "register_request \<Rightarrow> bool" where
  "register_ok r \<longleftrightarrow> is_host (rr_registrar r) \<and> rr_handle r \<noteq> [] \<and> length (rr_handle r) \<le> 64
     \<and> opt_all (\<lambda>p. length p \<le> PROOF_MAX_BYTES) (rr_proof r)"

lemma register_parse_iff:
  "register_parse C bs = Inr r \<longleftrightarrow> length bs \<le> REGISTER_MAX_BYTES \<and>
     (\<exists>env. envelope_open bs = Inr env \<and> register_read (env_value env) = Inr r \<and> register_ok r
        \<and> envelope_verify C env (rr_identity r) REGISTER_DOMAIN = Inr ())"
proof -
  have step: "(if rr_handle x = [] \<or> 64 < length (rr_handle x) then Inl (BadField ''handle'')
       else if (case rr_proof x of Some p \<Rightarrow> PROOF_MAX_BYTES < length p | None \<Rightarrow> False)
       then Inl (BadField ''proof'')
       else bindR (envelope_verify C env (rr_identity x) REGISTER_DOMAIN) (\<lambda>_. Inr x)) = Inr r
     \<longleftrightarrow> rr_handle x \<noteq> [] \<and> length (rr_handle x) \<le> 64
        \<and> opt_all (\<lambda>p. length p \<le> PROOF_MAX_BYTES) (rr_proof x) \<and> x = r
        \<and> envelope_verify C env (rr_identity x) REGISTER_DOMAIN = Inr ()" for x env
    by (auto simp: result_simps opt_all_def not_less split: option.splits)
  show ?thesis
    unfolding register_parse_def bindR_Inr_iff step by (auto simp: result_simps register_ok_def)
qed

lemma register_seal_parses:
  assumes "crypto_ok C" "length key = 32" "register_typed r" "register_ok r" "rr_identity r = ed_public C key"
  shows "register_parse C (seal (register_unsigned r) (sign_domain C key REGISTER_DOMAIN)) = Inr r"
proof -
  obtain env where env:
    "decode_canonical (seal (register_unsigned r) (sign_domain C key REGISTER_DOMAIN)) = Inr (env_value env)"
    "envelope_from_value (env_value env) = Inr env" "register_read (env_value env) = Inr r"
    "envelope_verify C env (ed_public C key) REGISTER_DOMAIN = Inr ()"
    by (rule reg_req.open_signed [where d = REGISTER_DOMAIN, OF assms(1-3)])
  then show ?thesis
    using assms register_size [OF assms(1-3), of REGISTER_DOMAIN]
    by (auto simp: register_parse_iff register_ok_def envelope_open_Inr)
qed

text \<open>The bytes of a record as its maker signs them: \<open>key\<close> is the identity's, the managing device's
  or the registrar's, and \<open>succ\<close> the successor's, used by a rotation alone.\<close>

primrec record_bytes :: "crypto \<Rightarrow> bytes \<Rightarrow> bytes \<Rightarrow> record_obj \<Rightarrow> bytes" where
  "record_bytes C key succ (RevokeDevice r) =
     seal (device_revocation_unsigned r) (sign_domain C key REVOKE_DEVICE_DOMAIN)"
| "record_bytes C key succ (RevokeIdentity r) =
     seal (identity_revocation_unsigned r) (sign_domain C key REVOKE_IDENTITY_DOMAIN)"
| "record_bytes C key succ (Rotate r) =
     seal_acked (rotation_unsigned r) (sign_domain C key ROTATE_DOMAIN)
       (sign_domain C succ (ack_domain ROTATE_DOMAIN))"
| "record_bytes C key succ (Freeze r) = freeze_sign C key r"
| "record_bytes C key succ (RevokeAttestation r) = attestation_revocation_sign C key r"

text \<open>What its maker has to have for the record to be good.\<close>

definition device_signer_ok :: "crypto \<Rightarrow> bytes \<Rightarrow> device_revocation \<Rightarrow> bool" where
  "device_signer_ok C public r \<longleftrightarrow> (case (dr_signer r, dr_signer_cert r) of
     (None, None) \<Rightarrow> public = dr_identity r
   | (Some signer, Some bs) \<Rightarrow> public = signer \<and>
       (\<exists>cert. cert_parse C bs = Inr cert \<and> dc_identity cert = dr_identity r \<and> dc_device cert = signer
          \<and> cert_allows cert cap_MANAGE \<and> dc_issued cert \<le> dr_time r \<and> dr_time r \<le> dc_expires cert)
   | _ \<Rightarrow> False)"

primrec record_ready :: "crypto \<Rightarrow> registrar_keys \<Rightarrow> bytes \<Rightarrow> bytes \<Rightarrow> record_obj \<Rightarrow> bool" where
  "record_ready C reg key succ (RevokeDevice r) \<longleftrightarrow>
     device_revocation_typed r \<and> dr_time r \<le> dr_until r \<and> device_signer_ok C (ed_public C key) r"
| "record_ready C reg key succ (RevokeIdentity r) \<longleftrightarrow>
     identity_revocation_typed r \<and> ir_identity r = ed_public C key"
| "record_ready C reg key succ (Rotate r) \<longleftrightarrow>
     rotation_typed r \<and> ro_identity r = ed_public C key \<and> ro_successor r = ed_public C succ
     \<and> ro_identity r \<noteq> ro_successor r"
| "record_ready C reg key succ (Freeze r) \<longleftrightarrow>
     freeze_typed r \<and> is_host (fr_registrar r) \<and> fr_registrar r = rk_host reg
     \<and> ed_public C key \<in> set (rk_keys reg)"
| "record_ready C reg key succ (RevokeAttestation r) \<longleftrightarrow>
     attestation_revocation_typed r \<and> is_host (ar_registrar r) \<and> ar_registrar r = rk_host reg
     \<and> ar_handle r \<noteq> [] \<and> length (ar_handle r) \<le> 64 \<and> ed_public C key \<in> set (rk_keys reg)"

lemma device_revocation_from_envelope_iff:
  "device_revocation_from_envelope C env = Inr r \<longleftrightarrow>
     device_revocation_read (env_value env) = Inr r \<and> dr_time r \<le> dr_until r
     \<and> (\<exists>public. device_signer_ok C public r \<and> envelope_verify C env public REVOKE_DEVICE_DOMAIN = Inr ())"
proof (cases "device_revocation_read (env_value env)")
  case (Inl e)
  then show ?thesis by (simp add: device_revocation_from_envelope_def)
next
  case (Inr r')
  note defs = device_revocation_from_envelope_def device_signer_ok_def cert_require_def
  show ?thesis
  proof (cases "dr_signer r'"; cases "dr_signer_cert r'")
    fix signer bs
    assume "dr_signer r' = Some signer" "dr_signer_cert r' = Some bs"
    with Inr show ?thesis
      by (cases "cert_parse C bs") (auto simp: defs result_simps not_less split: if_splits)
  qed (use Inr in \<open>auto simp: defs result_simps not_less\<close>)
qed

lemma cert_parse_size: "cert_parse C bs = Inr c \<Longrightarrow> length bs \<le> CERT_MAX_BYTES"
  by (auto simp: cert_parse_def cert_open_def result_simps split: if_splits)

lemma small_le_large: "length bs \<le> SMALL_RECORD_MAX_BYTES \<Longrightarrow> length bs \<le> REVOKE_DEVICE_MAX_BYTES"
  by (simp add: SMALL_RECORD_MAX_BYTES_def REVOKE_DEVICE_MAX_BYTES_def)

lemma parse_device_revocation:
  assumes "crypto_ok C" "length key = 32" "record_ready C reg key succ (RevokeDevice r)"
  shows "record_parse C (record_bytes C key succ (RevokeDevice r)) rk = Inr (RevokeDevice r)"
proof -
  let ?bs = "seal (device_revocation_unsigned r) (sign_domain C key REVOKE_DEVICE_DOMAIN)"
  have typed: "device_revocation_typed r" using assms(3) by simp
  obtain env where env: "decode_canonical ?bs = Inr (env_value env)"
    "envelope_from_value (env_value env) = Inr env" "device_revocation_read (env_value env) = Inr r"
    "envelope_verify C env (ed_public C key) REVOKE_DEVICE_DOMAIN = Inr ()"
    and get: "\<forall>k. k \<noteq> ''sig'' \<longrightarrow>
      value_get (env_value env) k = map_option cbor_canon (field (device_revocation_unsigned r) k)"
    by (rule dev_rev.open_signed [where d = REVOKE_DEVICE_DOMAIN, OF assms(1,2) typed])
  have keys: "\<not> has_key (env_value env) ''ack''" "\<not> has_key (env_value env) ''successor''"
    "has_key (env_value env) ''device''"
    by (simp_all add: has_key_def get field_def device_revocation_unsigned_def)
  have "opt_all (\<lambda>c. length c \<le> CERT_MAX_BYTES) (dr_signer_cert r)"
    using assms(3) cert_parse_size
    by (cases "dr_signer_cert r") (auto simp: device_signer_ok_def split: option.splits)
  then have "length ?bs \<le> REVOKE_DEVICE_MAX_BYTES"
    by (rule device_revocation_size [OF assms(1,2) typed])
  moreover have "device_revocation_from_envelope C env = Inr r"
    using assms(3) env by (auto simp: device_revocation_from_envelope_iff)
  ultimately show ?thesis using env keys by (simp add: record_parse_def)
qed

lemma parse_identity_revocation:
  assumes "crypto_ok C" "length key = 32" "record_ready C reg key succ (RevokeIdentity r)"
  shows "record_parse C (record_bytes C key succ (RevokeIdentity r)) rk = Inr (RevokeIdentity r)"
proof -
  let ?bs = "seal (identity_revocation_unsigned r) (sign_domain C key REVOKE_IDENTITY_DOMAIN)"
  have typed: "identity_revocation_typed r" using assms(3) by simp
  obtain env where env: "decode_canonical ?bs = Inr (env_value env)"
    "envelope_from_value (env_value env) = Inr env" "identity_revocation_read (env_value env) = Inr r"
    "envelope_verify C env (ed_public C key) REVOKE_IDENTITY_DOMAIN = Inr ()"
    and get: "\<forall>k. k \<noteq> ''sig'' \<longrightarrow>
      value_get (env_value env) k = map_option cbor_canon (field (identity_revocation_unsigned r) k)"
    by (rule id_rev.open_signed [where d = REVOKE_IDENTITY_DOMAIN, OF assms(1,2) typed])
  have keys: "\<not> has_key (env_value env) ''ack''" "\<not> has_key (env_value env) ''successor''"
    "\<not> has_key (env_value env) ''device''" "\<not> has_key (env_value env) ''frozen''"
    "\<not> has_key (env_value env) ''handle''"
    by (simp_all add: has_key_def get field_def identity_revocation_unsigned_def)
  have size: "length ?bs \<le> SMALL_RECORD_MAX_BYTES"
    by (rule identity_revocation_size [OF assms(1,2) typed])
  show ?thesis
    using env keys size small_le_large [OF size] assms(3)
    by (simp add: record_parse_def identity_revocation_from_envelope_def)
qed

lemma parse_freeze:
  assumes "crypto_ok C" "length key = 32" "record_ready C reg key succ (Freeze r)"
  shows "record_parse C (record_bytes C key succ (Freeze r)) (Some reg) = Inr (Freeze r)"
proof -
  have typed: "freeze_typed r" "is_host (fr_registrar r)" using assms(3) by auto
  obtain env where env: "decode_canonical (freeze_sign C key r) = Inr (env_value env)"
    "envelope_from_value (env_value env) = Inr env" "freeze_read (env_value env) = Inr r"
    "envelope_verify C env (ed_public C key) FREEZE_DOMAIN = Inr ()"
    and get: "\<forall>k. k \<noteq> ''sig'' \<longrightarrow>
      value_get (env_value env) k = map_option cbor_canon (field (freeze_unsigned r) k)"
    unfolding freeze_sign_def
    by (rule frz.open_signed [where d = FREEZE_DOMAIN, OF assms(1,2) typed(1)])
  have keys: "\<not> has_key (env_value env) ''ack''" "\<not> has_key (env_value env) ''successor''"
    "\<not> has_key (env_value env) ''device''" "has_key (env_value env) ''frozen''"
    by (simp_all add: has_key_def get field_def freeze_unsigned_def)
  have size: "length (freeze_sign C key r) \<le> SMALL_RECORD_MAX_BYTES"
    by (rule freeze_size [OF assms(1,2) typed])
  have "freeze_from_envelope C env (rk_keys reg) = Inr r"
    using env assms(3) by (auto simp: freeze_from_envelope_def result_simps)
  then show ?thesis
    using env keys size small_le_large [OF size] assms(3) by (simp add: record_parse_def)
qed

lemma parse_attestation_revocation:
  assumes "crypto_ok C" "length key = 32" "record_ready C reg key succ (RevokeAttestation r)"
  shows "record_parse C (record_bytes C key succ (RevokeAttestation r)) (Some reg) = Inr (RevokeAttestation r)"
proof -
  let ?bs = "attestation_revocation_sign C key r"
  have typed: "attestation_revocation_typed r" using assms(3) by simp
  obtain env where env: "decode_canonical ?bs = Inr (env_value env)"
    "envelope_from_value (env_value env) = Inr env" "attestation_revocation_read (env_value env) = Inr r"
    "envelope_verify C env (ed_public C key) REVOKE_ATTESTATION_DOMAIN = Inr ()"
    and get: "\<forall>k. k \<noteq> ''sig'' \<longrightarrow>
      value_get (env_value env) k = map_option cbor_canon (field (attestation_revocation_unsigned r) k)"
    unfolding attestation_revocation_sign_def 
    by (rule att_rev.open_signed [where d = REVOKE_ATTESTATION_DOMAIN, OF assms(1,2) typed])
  have keys: "\<not> has_key (env_value env) ''ack''" "\<not> has_key (env_value env) ''successor''"
    "\<not> has_key (env_value env) ''device''" "\<not> has_key (env_value env) ''frozen''"
    "has_key (env_value env) ''handle''"
    by (simp_all add: has_key_def get field_def attestation_revocation_unsigned_def)
  have size: "length ?bs \<le> SMALL_RECORD_MAX_BYTES"
    using attestation_revocation_size [OF assms(1,2), of r] assms(3)
    by (auto simp: attestation_revocation_typed_def)
  have "attestation_revocation_from_envelope C env (rk_keys reg) = Inr r"
    using env assms(3) by (auto simp: attestation_revocation_from_envelope_def result_simps)
  then show ?thesis
    using env keys size small_le_large [OF size] assms(3) by (simp add: record_parse_def)
qed

lemma rotation_size:
  assumes "crypto_ok C" "length key = 32" "length succ = 32" "rotation_typed r"
  shows "length (record_bytes C key succ (Rotate r)) \<le> SMALL_RECORD_MAX_BYTES"
proof -
  have "list_all2 (\<lambda>p m. field_size p \<le> m) (rotation_unsigned r) [20, 50, 50, 20]"
    using assms(4)
    by (auto simp: rotation_unsigned_def rotation_typed_def intro!: field_size_Uint field_size_Bytes)
  then have "sum_list (map field_size (rotation_unsigned r)) \<le> 140"
    using sum_field_sizes by force
  moreover have "length (rotation_unsigned r) < 22" by (simp add: rotation_unsigned_def)
  ultimately show ?thesis
    using length_seal_acked [of "sign_domain C key ROTATE_DOMAIN" "rotation_unsigned r"
        "sign_domain C succ (ack_domain ROTATE_DOMAIN)"]
    by (simp add: length_sign_domain assms SMALL_RECORD_MAX_BYTES_def)
qed

lemma parse_rotation:
  assumes "crypto_ok C" "length key = 32" "length succ = 32" "record_ready C reg key succ (Rotate r)"
  shows "record_parse C (record_bytes C key succ (Rotate r)) rk = Inr (Rotate r)"
proof -
  let ?fs = "rotation_unsigned r"
  let ?body = "encode (cbor_map ?fs)"
  let ?s = "sign_domain C key ROTATE_DOMAIN ?body"
  let ?a = "sign_domain C succ (ack_domain ROTATE_DOMAIN) ?body"
  let ?v = "sealed_value ?fs [(''sig'', ?s), (''ack'', ?a)]"
  have typed: "rotation_typed r" using assms(4) by simp
  have ok: "fields_ok ?fs" by (rule rot.fields [OF typed])
  have len: "length ?s = 64" "length ?a = 64" by (simp_all add: length_sign_domain assms)
  then have sigs: "signatures_ok [(''sig'', ?s), (''ack'', ?a)]" by (simp add: signatures_ok_def)
  have decoded: "decode_canonical (record_bytes C key succ (Rotate r)) = Inr ?v"
    using decode_seal_acked [of ?fs "sign_domain C key ROTATE_DOMAIN"
        "sign_domain C succ (ack_domain ROTATE_DOMAIN)"] ok len by simp
  have "has_key ?v ''ack''"
    using get_sealed_signature [OF fields_ok_plain [OF ok] sigs, of "''ack''" ?a] by (simp add: has_key_def sealed_value_def)
  moreover have "rotation_from_value C ?v = Inr r"
    using acked_of_sealed [OF ok len] rot.read_sealed [OF typed sigs] assms(4)
      verify_sign_domain [OF assms(1,2), of ROTATE_DOMAIN ?body]
      verify_sign_domain [OF assms(1,3), of "ack_domain ROTATE_DOMAIN" ?body]
    by (auto simp: rotation_from_value_def acked_verify_def)
  moreover have size: "length (record_bytes C key succ (Rotate r)) \<le> SMALL_RECORD_MAX_BYTES"
    by (rule rotation_size [OF assms(1-3) typed])
  ultimately show ?thesis
    using decoded small_le_large [OF size] by (simp add: record_parse_def del: record_bytes.simps)
qed

lemma record_bytes_parse:
  assumes "crypto_ok C" "length key = 32" "length succ = 32" "record_ready C reg key succ r"
  shows "record_parse C (record_bytes C key succ r) (Some reg) = Inr r"
  using parse_device_revocation parse_identity_revocation parse_rotation parse_freeze
    parse_attestation_revocation assms
  by (cases r) (simp_all del: record_bytes.simps record_ready.simps)

text \<open>Each signing function checks what it signed by parsing it; of a good record it answers these bytes.\<close>

lemma record_parse_kinds:
  "record_parse C bs rk = Inr (RevokeDevice d) \<Longrightarrow> device_revocation_parse C bs = Inr d"
  "record_parse C bs rk = Inr (RevokeIdentity i) \<Longrightarrow> identity_revocation_parse C bs = Inr i"
  "record_parse C bs rk = Inr (Rotate t) \<Longrightarrow> rotation_parse C bs = Inr t"
  by (auto simp: record_parse_def device_revocation_parse_def identity_revocation_parse_def rotation_parse_def envelope_open_Inr
      result_simps split: if_splits)

lemma record_bytes_signed:
  assumes "crypto_ok C" "length key = 32" "length succ = 32"
  shows "record_ready C reg key succ (RevokeDevice d) \<Longrightarrow> dr_signer_cert d = None \<Longrightarrow>
      device_revocation_sign C key d = Some (Inr (record_bytes C key succ (RevokeDevice d)))"
    "record_ready C reg key succ (RevokeDevice d) \<Longrightarrow> dr_signer_cert d = Some cert \<Longrightarrow>
      device_revocation_sign_as_device C key cert (d\<lparr>dr_signer := None, dr_signer_cert := None\<rparr>)
        = Inr (record_bytes C key succ (RevokeDevice d))"
    "record_ready C reg key succ (RevokeIdentity i) \<Longrightarrow>
      identity_revocation_sign C key i = Some (Inr (record_bytes C key succ (RevokeIdentity i)))"
    "record_ready C reg key succ (Rotate t) \<Longrightarrow>
      rotation_sign C key succ t = Some (Inr (record_bytes C key succ (Rotate t)))"
proof -
  note parsed = record_bytes_parse [OF assms]
  show "identity_revocation_sign C key i = Some (Inr (record_bytes C key succ (RevokeIdentity i)))"
    if "record_ready C reg key succ (RevokeIdentity i)"
    using record_parse_kinds(2) [OF parsed [OF that]] that by (simp add: identity_revocation_sign_def Let_def)
  show "rotation_sign C key succ t = Some (Inr (record_bytes C key succ (Rotate t)))" if "record_ready C reg key succ (Rotate t)"
    using record_parse_kinds(3) [OF parsed [OF that]] that by (simp add: rotation_sign_def Let_def)
  assume d: "record_ready C reg key succ (RevokeDevice d)"
  note parses = record_parse_kinds(1) [OF parsed [OF d]]
  show "device_revocation_sign C key d = Some (Inr (record_bytes C key succ (RevokeDevice d)))" if "dr_signer_cert d = None"
    using parses d that by (auto simp: device_revocation_sign_def Let_def device_signer_ok_def split: option.splits)
  assume cert: "dr_signer_cert d = Some cert"
  then have "d\<lparr>dr_signer := Some (ed_public C key), dr_signer_cert := Some cert\<rparr> = d"
    using d by (cases d) (auto simp: device_signer_ok_def split: option.splits)
  then show "device_revocation_sign_as_device C key cert (d\<lparr>dr_signer := None, dr_signer_cert := None\<rparr>)
        = Inr (record_bytes C key succ (RevokeDevice d))"
    using parses by (simp add: device_revocation_sign_as_device_def Let_def)
qed


subsection \<open>Who signed an accepted record\<close>

definition signed_by :: "crypto \<Rightarrow> cbor_value \<Rightarrow> bytes \<Rightarrow> string \<Rightarrow> bool" where
  "signed_by C v public domain \<longleftrightarrow> (\<exists>sig. value_get v ''sig'' = Some (Bytes sig)
     \<and> verify_domain C public domain (encode (value_without v ''sig'')) sig = Inr ())"

definition acked_by :: "crypto \<Rightarrow> cbor_value \<Rightarrow> bytes \<Rightarrow> bytes \<Rightarrow> string \<Rightarrow> bool" where
  "acked_by C v public public' domain \<longleftrightarrow> (\<exists>sig ack. value_get v ''sig'' = Some (Bytes sig)
     \<and> value_get v ''ack'' = Some (Bytes ack)
     \<and> verify_domain C public domain (encode (value_without (value_without v ''sig'') ''ack'')) sig = Inr ()
     \<and> verify_domain C public' (ack_domain domain)
          (encode (value_without (value_without v ''sig'') ''ack'')) ack = Inr ())"

text \<open>The authority a record needs: the identity it is about, or a device that identity certified to
  manage at the record's time; both keys of a rotation; a key of the registrar it names.\<close>

primrec authorised :: "crypto \<Rightarrow> registrar_keys option \<Rightarrow> cbor_value \<Rightarrow> record_obj \<Rightarrow> bool" where
  "authorised C reg v (RevokeDevice r) \<longleftrightarrow> dr_time r \<le> dr_until r \<and>
     (\<exists>public. device_signer_ok C public r \<and> signed_by C v public REVOKE_DEVICE_DOMAIN)"
| "authorised C reg v (RevokeIdentity r) \<longleftrightarrow> signed_by C v (ir_identity r) REVOKE_IDENTITY_DOMAIN"
| "authorised C reg v (Rotate r) \<longleftrightarrow> ro_identity r \<noteq> ro_successor r
     \<and> acked_by C v (ro_identity r) (ro_successor r) ROTATE_DOMAIN"
| "authorised C reg v (Freeze r) \<longleftrightarrow>
     (\<exists>rk. reg = Some rk \<and> fr_registrar r = rk_host rk \<and> (\<exists>k\<in>set (rk_keys rk). signed_by C v k FREEZE_DOMAIN))"
| "authorised C reg v (RevokeAttestation r) \<longleftrightarrow>
     (\<exists>rk. reg = Some rk \<and> ar_registrar r = rk_host rk
        \<and> (\<exists>k\<in>set (rk_keys rk). signed_by C v k REVOKE_ATTESTATION_DOMAIN))"

text \<open>What the fields of the bytes say, kind by kind.\<close>

primrec record_reads :: "cbor_value \<Rightarrow> record_obj \<Rightarrow> bool" where
  "record_reads v (RevokeDevice r) \<longleftrightarrow> device_revocation_read v = Inr r"
| "record_reads v (RevokeIdentity r) \<longleftrightarrow> identity_revocation_read v = Inr r"
| "record_reads v (Rotate r) \<longleftrightarrow> rotation_read v = Inr r"
| "record_reads v (Freeze r) \<longleftrightarrow> freeze_read v = Inr r"
| "record_reads v (RevokeAttestation r) \<longleftrightarrow> attestation_revocation_read v = Inr r"

lemma envelope_signed:
  assumes "envelope_from_value v = Inr env"
  shows "env_value env = v" "envelope_verify C env public domain = Inr () \<Longrightarrow> signed_by C v public domain"
  using assms by (auto simp: envelope_from_value_Inr envelope_verify_def signed_by_def)

lemma acked_from_value_Inr:
  "acked_from_value v = Inr env \<Longrightarrow> ack_value env = v
     \<and> (acked_verify C env p q d = Inr () \<longrightarrow> acked_by C v p q d)"
  by (auto simp: acked_from_value_def acked_verify_def acked_by_def result_simps split: if_splits)

lemma record_parse_authorised:
  assumes "record_parse C bs reg = Inr r"
  obtains v where "decode_canonical bs = Inr v" "record_reads v r" "authorised C reg v r"
proof -
  from assms obtain v where v: "decode_canonical bs = Inr v"
    by (auto simp: record_parse_def result_simps)
  consider ro where "rotation_from_value C v = Inr ro" "r = Rotate ro"
    | env dr where "envelope_from_value v = Inr env" "device_revocation_from_envelope C env = Inr dr"
        "r = RevokeDevice dr"
    | env rk fr where "envelope_from_value v = Inr env" "reg = Some rk"
        "freeze_from_envelope C env (rk_keys rk) = Inr fr" "r = Freeze fr" "fr_registrar fr = rk_host rk"
    | env rk ar where "envelope_from_value v = Inr env" "reg = Some rk"
        "attestation_revocation_from_envelope C env (rk_keys rk) = Inr ar" "r = RevokeAttestation ar"
        "ar_registrar ar = rk_host rk"
    | env ir where "envelope_from_value v = Inr env" "identity_revocation_from_envelope C env = Inr ir"
        "r = RevokeIdentity ir"
    using assms v by (auto simp: record_parse_def result_simps split: if_splits)
  then have "record_reads v r \<and> authorised C reg v r"
  proof cases
    case 1
    then show ?thesis
      by (auto simp: rotation_from_value_def result_simps split: if_splits dest: acked_from_value_Inr)
  next
    case 2
    then show ?thesis
      using envelope_signed [OF 2(1)] by (auto simp: device_revocation_from_envelope_iff)
  next
    case 3
    then show ?thesis
      using envelope_signed [OF 3(1)] by (auto simp: freeze_from_envelope_def result_simps)
  next
    case 4
    then show ?thesis
      using envelope_signed [OF 4(1)]
      by (auto simp: attestation_revocation_from_envelope_def result_simps split: if_splits)
  next
    case 5
    then show ?thesis
      using envelope_signed [OF 5(1)] by (auto simp: identity_revocation_from_envelope_def result_simps)
  qed
  with v that show ?thesis by blast
qed


subsection \<open>Lists and stats\<close>

lemma entry_size:
  assumes "length b < 2 ^ 64"
  shows "length (encode (Array [Uint seq, Bytes b])) \<le> length b + ENTRY_OVERHEAD"
  using length_put_head_le [of 0 seq] length_put_head_le [of 2 "word_of_nat (length b)"]
    length_put_head_tiny [of 2 4]
  by (simp add: ENTRY_OVERHEAD_def)

lemma entries_size:
  assumes "\<forall>e\<in>set es. length (snd e) < 2 ^ 64"
  shows "length (encode (Array (map (\<lambda>(seq, b). Array [Uint seq, Bytes b]) es)))
    \<le> 9 + sum_list (map (\<lambda>e. length (snd e) + ENTRY_OVERHEAD) es)"
proof -
  have "length (concat (map (encode \<circ> (\<lambda>(seq, b). Array [Uint seq, Bytes b])) es))
      \<le> sum_list (map (\<lambda>e. length (snd e) + ENTRY_OVERHEAD) es)"
    using assms
  proof (induction es)
    case (Cons e es)
    then show ?case
      using entry_size [of "snd e" "fst e"] by (cases e) (auto simp del: encode.simps)
  qed simp
  then show ?thesis using length_put_head_le [of 4 "word_of_nat (length es)"] by simp
qed

lemma signed_list_size:
  assumes "crypto_ok C" "length key = 32" "signed_list_typed l" "is_host (sl_registrar l)"
  shows "length (seal (signed_list_unsigned l) (sign_domain C key d))
    \<le> PAGE_OVERHEAD + sum_list (map (\<lambda>e. length (snd e) + ENTRY_OVERHEAD) (sl_entries l))"
proof -
  let ?es = "sum_list (map (\<lambda>e. length (snd e) + ENTRY_OVERHEAD) (sl_entries l))"
  have "field_size (''entries'', Some (Array (map (\<lambda>(seq, b). Array [Uint seq, Bytes b]) (sl_entries l))))
      \<le> 17 + ?es"
    using entries_size [of "sl_entries l"] length_put_head_tiny [of 7 3] assms(3)
    by (simp add: field_size_def signed_list_typed_def del: encode.simps(4))
  then have "list_all2 (\<lambda>p m. field_size p \<le> m) (signed_list_unsigned l)
      [11, 270, 16, 17, 48, 15, 6, 17 + ?es]"
    using assms(3) is_host_short [OF assms(4)]
    by (auto simp: signed_list_unsigned_def signed_list_typed_def opt_all_conv
        intro!: field_size_Uint field_size_Bytes field_size_Text field_size_Bool field_size_opt)
  then show ?thesis by (rule seal_size [OF assms(1,2)]) (simp_all add: PAGE_OVERHEAD_def)
qed

lemma signed_list_parse_iff:
  "signed_list_parse C bs kind rk = Inr l \<longleftrightarrow> length bs \<le> LIST_MAX_BYTES \<and>
     (\<exists>env. envelope_open bs = Inr env \<and> signed_list_read (env_value env) = Inr l
        \<and> sl_registrar l = rk_host rk \<and> sl_issued l \<le> sl_expires l \<and> (kind = Log \<longrightarrow> sl_fingerprint l = None)
        \<and> check_seqs (sl_since l) None (sl_entries l)
        \<and> (\<exists>k\<in>set (rk_keys rk). envelope_verify C env k (list_domain kind) = Inr ()))"
  unfolding signed_list_parse_def bindR_Inr_iff
  by (auto simp: result_simps not_less split: if_splits)

lemma signed_list_seal_parses:
  assumes "crypto_ok C" "length key = 32" "signed_list_typed l" "is_host (sl_registrar l)"
    and "sl_issued l \<le> sl_expires l" "kind = Log \<longrightarrow> sl_fingerprint l = None"
    and "sorted_wrt (<) (map fst (sl_entries l))"
    and "\<forall>e\<in>set (sl_entries l). opt_all (\<lambda>s. s < fst e) (sl_since l)"
    and "sum_list (map (\<lambda>e. length (snd e) + ENTRY_OVERHEAD) (sl_entries l)) \<le> LIST_MAX_BYTES - PAGE_OVERHEAD"
    and "rk_host rk = sl_registrar l" "ed_public C key \<in> set (rk_keys rk)"
  shows "signed_list_parse C (seal (signed_list_unsigned l) (sign_domain C key (list_domain kind))) kind rk = Inr l"
proof -
  obtain env where env:
    "decode_canonical (seal (signed_list_unsigned l) (sign_domain C key (list_domain kind))) = Inr (env_value env)"
    "envelope_from_value (env_value env) = Inr env" "signed_list_read (env_value env) = Inr l"
    "envelope_verify C env (ed_public C key) (list_domain kind) = Inr ()"
    by (rule slist.open_signed [where d = "list_domain kind", OF assms(1-3)])
  have "length (seal (signed_list_unsigned l) (sign_domain C key (list_domain kind))) \<le> LIST_MAX_BYTES"
    using signed_list_size [OF assms(1-4), of "list_domain kind"] assms(9)
    by (simp add: LIST_MAX_BYTES_def PAGE_OVERHEAD_def)
  then show ?thesis
    using env assms by (auto simp: signed_list_parse_iff envelope_open_Inr check_seqs_iff)
qed

lemma stats_seal_parses:
  assumes "crypto_ok C" "length key = 32" "is_host (st_registrar s)"
    and "rk_host rk = st_registrar s" "ed_public C key \<in> set (rk_keys rk)"
  shows "stats_parse C (stats_sign C key s) rk = Inr s"
proof -
  have typed: "stats_typed s" using is_host_text [OF assms(3)] by (simp add: stats_typed_def)
  obtain env where env: "decode_canonical (stats_sign C key s) = Inr (env_value env)"
    "envelope_from_value (env_value env) = Inr env" "stats_read (env_value env) = Inr s"
    "envelope_verify C env (ed_public C key) STATS_DOMAIN = Inr ()"
    unfolding stats_sign_def by (rule sts.open_signed [where d = STATS_DOMAIN, OF assms(1,2) typed])
  then show ?thesis
    using stats_size [OF assms(1-3)] assms(4,5)
    by (auto simp: stats_parse_def envelope_open_Inr result_simps)
qed


subsection \<open>Properties\<close>

text \<open>C39: each of the five kinds of record, signed by the function of its kind with the key it needs, a device's revocation by
  the identity or by another device that may manage, is signed without error, and what comes out is read by \<open>Record::parse\<close>
  as the record it is, of the kind it is, with every field as signed: none is mistaken for another, and none is refused
  for its size.\<close>

theorem record_roundtrip:
  assumes "crypto_ok C" "length key = 32" "length succ = 32" "record_ready C reg key succ r"
  shows "\<exists>bs. (case r of
        RevokeDevice d \<Rightarrow>
          (case dr_signer_cert d of
             None \<Rightarrow> device_revocation_sign C key d
           | Some cert \<Rightarrow> Some (device_revocation_sign_as_device C key cert (d\<lparr>dr_signer := None, dr_signer_cert := None\<rparr>)))
      | RevokeIdentity d \<Rightarrow> identity_revocation_sign C key d
      | Rotate d \<Rightarrow> rotation_sign C key succ d
      | Freeze d \<Rightarrow> Some (Inr (freeze_sign C key d))
      | RevokeAttestation d \<Rightarrow> Some (Inr (attestation_revocation_sign C key d))) = Some (Inr bs)
    \<and> record_parse C bs (Some reg) = Inr r"
proof (intro exI conjI)
  show "record_parse C (record_bytes C key succ r) (Some reg) = Inr r" by (rule record_bytes_parse [OF assms])
  show "(case r of
        RevokeDevice d \<Rightarrow>
          (case dr_signer_cert d of
             None \<Rightarrow> device_revocation_sign C key d
           | Some cert \<Rightarrow> Some (device_revocation_sign_as_device C key cert (d\<lparr>dr_signer := None, dr_signer_cert := None\<rparr>)))
      | RevokeIdentity d \<Rightarrow> identity_revocation_sign C key d
      | Rotate d \<Rightarrow> rotation_sign C key succ d
      | Freeze d \<Rightarrow> Some (Inr (freeze_sign C key d))
      | RevokeAttestation d \<Rightarrow> Some (Inr (attestation_revocation_sign C key d))) = Some (Inr (record_bytes C key succ r))"
    using assms(4) record_bytes_signed [OF assms(1-3)]
    by (cases r) (simp_all del: record_ready.simps record_bytes.simps(1-3) split: option.split)
qed

theorem record_roundtrip_witness:
  "\<exists>bs. rotation_sign sample_crypto (replicate 32 7) (replicate 32 8)
        \<lparr>ro_identity = replicate 32 7, ro_successor = replicate 32 8, ro_time = 5\<rparr> = Some (Inr bs)
    \<and> record_parse sample_crypto bs (Some \<lparr>rk_host = ''hl.example'', rk_keys = []\<rparr>)
      = Inr (Rotate \<lparr>ro_identity = replicate 32 7, ro_successor = replicate 32 8, ro_time = 5\<rparr>)"
proof -
  have "replicate 32 (7 :: u8) \<noteq> replicate 32 8" by (simp add: replicate_eq_replicate)
  then have "record_ready sample_crypto \<lparr>rk_host = ''hl.example'', rk_keys = []\<rparr> (replicate 32 7) (replicate 32 8)
     (Rotate \<lparr>ro_identity = replicate 32 7, ro_successor = replicate 32 8, ro_time = 5\<rparr>)"
    by (simp add: rotation_typed_def sample_crypto_def)
  from record_roundtrip [OF sample_crypto_ok _ _ this] show ?thesis by simp
qed

text \<open>C38: every record \<open>Record::parse\<close> accepts is canonical bytes whose fields are the record's, and
  carries the authority its kind needs: the signature of the identity it is about, or of a device
  whose certificate by that identity parses, allows management and covers the record's time; for a
  rotation both keys' signatures over distinct keys; for a freeze or an attestation revocation a
  signature by one of the keys of the registrar the caller named, under that registrar's host.\<close>

theorem record_parse_sound:
  assumes "record_parse C bs reg = Inr r"
  shows "\<exists>v. decode_canonical bs = Inr v \<and> record_reads v r \<and> authorised C reg v r"
  using record_parse_authorised [OF assms] by blast

theorem record_parse_sound_witness:
  "\<exists>v. decode_canonical (record_bytes sample_crypto (replicate 32 7) (replicate 32 8)
          (RevokeIdentity \<lparr>ir_identity = replicate 32 7, ir_time = 5, ir_reason = None\<rparr>)) = Inr v
     \<and> record_reads v (RevokeIdentity \<lparr>ir_identity = replicate 32 7, ir_time = 5, ir_reason = None\<rparr>)
     \<and> authorised sample_crypto None v (RevokeIdentity \<lparr>ir_identity = replicate 32 7, ir_time = 5, ir_reason = None\<rparr>)"
  by (rule record_parse_sound, rule parse_identity_revocation [OF sample_crypto_ok])
    (simp_all add: identity_revocation_typed_def sample_crypto_def)

text \<open>A registration request over a well-formed host, a handle of 1 to 64 bytes and a proof of at
  most 1 KiB is signed without error, and every registrar reads from the bytes exactly the request
  that was signed.\<close>

theorem register_roundtrip:
  assumes "crypto_ok C" "length key = 32" "register_typed r" "register_ok r" "rr_identity r = ed_public C key"
  shows "\<exists>bs. register_sign C key r = Some (Inr bs) \<and> register_parse C bs = Inr r"
  using register_seal_parses [OF assms] assms(5) by (simp add: register_sign_def Let_def)

definition sample_request :: register_request where
  "sample_request = \<lparr>rr_identity = replicate 32 7, rr_registrar = ''hl.example'', rr_handle = ''alice'',
     rr_time = 100, rr_successor = None, rr_proof = None\<rparr>"

lemma sample_host: "is_host ''hl.example''"
  by (simp add: is_host_def to_ascii_lowercase_def ascii_lower_def is_ascii_upper_def MAX_HOST_BYTES_def
      str_ascii_valid str_ascii_def str_chars_def str_ascii_chars is_host_char_def less_eq_char_def)

lemma sample_request_ok: "register_typed sample_request" "register_ok sample_request"
  by (simp_all add: sample_request_def register_typed_def register_ok_def sample_host text_ok_def
      str_ascii_valid str_ascii_def)

theorem register_roundtrip_witness:
  "\<exists>bs. register_sign sample_crypto (replicate 32 7) sample_request = Some (Inr bs)
     \<and> register_parse sample_crypto bs = Inr sample_request"
  by (rule register_roundtrip [OF sample_crypto_ok _ sample_request_ok])
    (simp_all add: sample_request_def sample_crypto_def)

definition signing_domains :: "string list" where
  "signing_domains = [REGISTER_DOMAIN, REVOKE_DEVICE_DOMAIN, REVOKE_IDENTITY_DOMAIN, ROTATE_DOMAIN,
     ack_domain ROTATE_DOMAIN, FREEZE_DOMAIN, REVOKE_ATTESTATION_DOMAIN, RECORDS_DOMAIN, LOG_DOMAIN,
     STATS_DOMAIN, ATTESTATION_DOMAIN, CERT_DOMAIN]"

lemma signing_domains_distinct: "distinct signing_domains"
  by (simp add: signing_domains_def domain_defs ack_domain_def)

lemma signing_domains_nul_free: "\<forall>d\<in>set signing_domains. nul_free d"
  by (simp add: signing_domains_def domain_defs ack_domain_def nul_free_def str_bytes_def)

text \<open>Domain separation.  What is handed to the signer under one of the eleven domains, or as the
  acknowledgement of a rotation, is never what is handed to it under another: equal messages have
  equal domains and equal bodies.\<close>

theorem domains_separate:
  assumes "i < length signing_domains" "j < length signing_domains"
    and "domain_message (signing_domains ! i) body = domain_message (signing_domains ! j) body'"
  shows "i = j \<and> body = body'"
proof -
  have "nul_free (signing_domains ! i)" "nul_free (signing_domains ! j)"
    using assms(1,2) signing_domains_nul_free by simp_all
  with assms(3) have "signing_domains ! i = signing_domains ! j" "body = body'"
    by (simp_all add: domain_message_inject)
  with assms(1,2) signing_domains_distinct show ?thesis by (simp add: nth_eq_iff_index_eq)
qed

theorem domains_separate_witness:
  "3 < length signing_domains \<and> signing_domains ! 3 = ROTATE_DOMAIN
     \<and> domain_message (signing_domains ! 3) [1] = domain_message ROTATE_DOMAIN [1]
     \<and> (3 :: nat) = 3 \<and> [1 :: u8] = [1]"
proof -
  have "3 < length signing_domains" "signing_domains ! 3 = ROTATE_DOMAIN"
    by (simp_all add: signing_domains_def)
  with domains_separate [of 3 3 "[1]" "[1]"] show ?thesis by simp
qed

text \<open>A page of the record list or of the log, packed so that the entries' bytes and their
  framing stay 512 bytes under 1 MiB, always fits the bound a reader enforces and parses back to
  exactly the page that was signed.\<close>

theorem signed_list_roundtrip:
  assumes "crypto_ok C" "length key = 32" "signed_list_typed l" "is_host (sl_registrar l)"
    and "sl_issued l \<le> sl_expires l" "kind = Log \<longrightarrow> sl_fingerprint l = None"
    and "sorted_wrt (<) (map fst (sl_entries l))"
    and "\<forall>e\<in>set (sl_entries l). opt_all (\<lambda>s. s < fst e) (sl_since l)"
    and "sum_list (map (\<lambda>e. length (snd e) + ENTRY_OVERHEAD) (sl_entries l)) \<le> LIST_MAX_BYTES - PAGE_OVERHEAD"
    and "rk_host rk = sl_registrar l" "ed_public C key \<in> set (rk_keys rk)"
  shows "\<exists>bs. signed_list_sign C key kind l = Some bs \<and> length bs \<le> LIST_MAX_BYTES
     \<and> signed_list_parse C bs kind rk = Inr l"
  using signed_list_seal_parses [OF assms] assms(6)
  by (cases kind) (auto simp: signed_list_sign_def signed_list_parse_iff)

definition sample_list :: signed_list where
  "sample_list = \<lparr>sl_registrar = ''hl.example'', sl_issued = 5, sl_expires = 9, sl_fingerprint = None,
     sl_since = Some 3, sl_more = True, sl_entries = [(4, [1, 2]), (6, [])]\<rparr>"

theorem signed_list_roundtrip_witness:
  "\<exists>bs. signed_list_sign sample_crypto (replicate 32 9) Log sample_list = Some bs \<and> length bs \<le> LIST_MAX_BYTES
     \<and> signed_list_parse sample_crypto bs Log \<lparr>rk_host = ''hl.example'', rk_keys = [replicate 32 9]\<rparr> = Inr sample_list"
  by (rule signed_list_roundtrip [OF sample_crypto_ok])
    (simp_all add: sample_list_def signed_list_typed_def sample_host text_ok_def str_ascii_valid
      str_ascii_def ENTRY_OVERHEAD_def LIST_MAX_BYTES_def PAGE_OVERHEAD_def sample_crypto_def)

text \<open>A handle in the registrar's form is safe wherever a handle is shown or looked up: it is its
  own lowercase, so lookup and issuance agree on it; it is ASCII without a space, an at-sign or a
  deceptive character; and it begins and ends with a letter or digit.\<close>

theorem canonical_handle_safe:
  assumes "handle_is_canonical h lo hi"
  shows "to_ascii_lowercase h = h \<and> str_ascii h \<and> CHR ''@'' \<notin> set h
     \<and> (\<forall>c\<in>set (str_chars h). c \<noteq> 0x20 \<and> \<not> is_deceptive c)
     \<and> handle_alnum (hd h) \<and> handle_alnum (last h) \<and> lo \<le> length h \<and> length h \<le> hi"
proof -
  have "handle_alnum (hd h) \<and> handle_alnum (last h) \<and> lo \<le> length h \<and> length h \<le> hi"
    using assms by (auto simp: handle_is_canonical_def hd_conv_nth last_conv_nth split: if_splits)
  with handle_canonical_facts [OF assms] show ?thesis by simp
qed

theorem canonical_handle_safe_witness:
  "to_ascii_lowercase ''a.b'' = ''a.b'' \<and> str_ascii ''a.b'' \<and> CHR ''@'' \<notin> set ''a.b''
     \<and> handle_alnum (hd ''a.b'') \<and> handle_alnum (last ''a.b'')"
proof -
  have "handle_is_canonical ''a.b'' 3 32"
    by (simp add: handle_is_canonical_def handle_alnum_def handle_punct_def is_ascii_lower_def
        is_ascii_digit_def less_eq_char_def)
  from canonical_handle_safe [OF this] show ?thesis by blast
qed

end
