(* ===== verification/Ordered_Map.thy ===== *)
theory Ordered_Map
  imports Prelude
begin

section \<open>Finite maps kept in key order\<close>

text \<open>
  The stores keep their rows in \<open>BTreeMap\<close>s and \<open>HashMap\<close>s.  Both are modelled by an
  association list whose keys strictly increase: that is a \<open>BTreeMap\<close>'s iteration order, and
  one of the orders a \<open>HashMap\<close> may iterate in (no operation modelled on a \<open>HashMap\<close> has a
  result that depends on its order; where the code sorts, the model sorts too).

  \<open>keyed_store\<close> is the interface the stores rely on: what a lookup returns after an insertion,
  a removal or an in-place change, and that the representation invariant is kept.  It is
  interpreted on the lists below as \<open>om\<close>.
\<close>

type_synonym ('k, 'v) omap = "('k \<times> 'v) list"

definition om_wf :: "('k::linorder, 'v) omap \<Rightarrow> bool" where
  "om_wf m \<longleftrightarrow> sorted_wrt (<) (map fst m)"

text \<open>\<open>insert\<close>, \<open>remove\<close>, \<open>get_mut\<close> with an update, \<open>values_mut\<close>, \<open>retain\<close>, \<open>range(k+1..)\<close>.\<close>

definition om_put :: "'k::linorder \<Rightarrow> 'v \<Rightarrow> ('k, 'v) omap \<Rightarrow> ('k, 'v) omap" where
  "om_put k v m = filter (\<lambda>p. fst p < k) m @ (k, v) # filter (\<lambda>p. k < fst p) m"

definition om_del :: "'k::linorder \<Rightarrow> ('k, 'v) omap \<Rightarrow> ('k, 'v) omap" where
  "om_del k m = filter (\<lambda>p. fst p \<noteq> k) m"

definition om_adjust :: "'k \<Rightarrow> ('v \<Rightarrow> 'v) \<Rightarrow> ('k, 'v) omap \<Rightarrow> ('k, 'v) omap" where
  "om_adjust k f m = map (\<lambda>(k', v). (k', if k' = k then f v else v)) m"

definition om_map :: "('v \<Rightarrow> 'v) \<Rightarrow> ('k, 'v) omap \<Rightarrow> ('k, 'v) omap" where
  "om_map f m = map (\<lambda>(k, v). (k, f v)) m"

definition om_retain :: "('k \<Rightarrow> 'v \<Rightarrow> bool) \<Rightarrow> ('k, 'v) omap \<Rightarrow> ('k, 'v) omap" where
  "om_retain P m = filter (\<lambda>(k, v). P k v) m"

definition om_after :: "'k::linorder \<Rightarrow> ('k, 'v) omap \<Rightarrow> ('k, 'v) omap" where
  "om_after k m = filter (\<lambda>p. k < fst p) m"

text \<open>\<open>entry(k).or_insert(v)\<close>, leaving what is there.\<close>

definition om_or_insert :: "'k::linorder \<Rightarrow> 'v \<Rightarrow> ('k, 'v) omap \<Rightarrow> ('k, 'v) omap" where
  "om_or_insert k v m = (case map_of m k of None \<Rightarrow> om_put k v m | Some _ \<Rightarrow> m)"


subsection \<open>The interface\<close>

locale keyed_store =
  fixes empty :: "'m"
    and get :: "'m \<Rightarrow> 'k \<Rightarrow> 'v option"
    and put :: "'k \<Rightarrow> 'v \<Rightarrow> 'm \<Rightarrow> 'm"
    and del :: "'k \<Rightarrow> 'm \<Rightarrow> 'm"
    and adjust :: "'k \<Rightarrow> ('v \<Rightarrow> 'v) \<Rightarrow> 'm \<Rightarrow> 'm"
    and wf :: "'m \<Rightarrow> bool"
  assumes get_empty: "get empty k = None"
    and get_put: "wf m \<Longrightarrow> get (put k v m) k' = (if k' = k then Some v else get m k')"
    and get_del: "wf m \<Longrightarrow> get (del k m) k' = (if k' = k then None else get m k')"
    and get_adjust: "get (adjust k f m) k' = (if k' = k then map_option f (get m k') else get m k')"
    and wf_empty: "wf empty"
    and wf_put: "wf m \<Longrightarrow> wf (put k v m)"
    and wf_del: "wf m \<Longrightarrow> wf (del k m)"
    and wf_adjust: "wf m \<Longrightarrow> wf (adjust k f m)"
begin

lemma wf_fold_put: "wf m \<Longrightarrow> wf (fold (\<lambda>k. put k (g k)) ks m)"
  by (induction ks arbitrary: m) (auto intro: wf_put)

lemma get_fold_put:
  "wf m \<Longrightarrow> get (fold (\<lambda>k. put k (g k)) ks m) k' = (if k' \<in> set ks then Some (g k') else get m k')"
  by (induction ks arbitrary: m) (auto simp: get_put wf_put)

lemma put_overwrites: "wf m \<Longrightarrow> get (put k v (put k w m)) k' = get (put k v m) k'"
  by (simp add: get_put wf_put)

lemma put_swaps:
  "wf m \<Longrightarrow> j \<noteq> k \<Longrightarrow> get (put k v (put j w m)) k' = get (put j w (put k v m)) k'"
  by (simp add: get_put wf_put)

lemma del_put: "wf m \<Longrightarrow> get m k = None \<Longrightarrow> get (del k (put k v m)) k' = get m k'"
  by (simp add: get_put get_del wf_put)

end

lemma om_wf_distinct: "om_wf m \<Longrightarrow> distinct (map fst m)"
  by (simp add: om_wf_def strict_sorted_iff)

lemma om_wf_sorted: "om_wf m \<Longrightarrow> sorted (map fst m)"
  by (simp add: om_wf_def strict_sorted_iff)

lemma om_wf_Nil [simp]: "om_wf []"
  by (simp add: om_wf_def)

lemma om_wf_filter: "om_wf m \<Longrightarrow> om_wf (filter P m)"
  by (induction m) (auto simp: om_wf_def)

lemma om_wf_keys_eq: "map fst m = map fst m' \<Longrightarrow> om_wf m \<longleftrightarrow> om_wf m'"
  by (simp add: om_wf_def)

lemma keys_om_adjust [simp]: "map fst (om_adjust k f m) = map fst m"
  by (induction m) (auto simp: om_adjust_def)

lemma keys_om_map [simp]: "map fst (om_map f m) = map fst m"
  by (induction m) (auto simp: om_map_def)

lemma map_of_filter_key: "map_of (filter (\<lambda>p. P (fst p)) m) k = (if P k then map_of m k else None)"
  by (induction m) auto

lemma om_get_put: "map_of (om_put k v m) k' = (if k' = k then Some v else map_of m k')"
  using map_of_filter_key [of "\<lambda>x. x < k" m k'] map_of_filter_key [of "\<lambda>x. k < x" m k']
  by (auto simp: om_put_def map_add_def split: option.splits if_splits)

lemma om_get_del: "map_of (om_del k m) k' = (if k' = k then None else map_of m k')"
  using map_of_filter_key [of "\<lambda>x. x \<noteq> k" m k'] by (simp add: om_del_def)

lemma om_get_adjust:
  "map_of (om_adjust k f m) k' = (if k' = k then map_option f (map_of m k') else map_of m k')"
  by (induction m) (auto simp: om_adjust_def)

lemma om_get_map: "map_of (om_map f m) k = map_option f (map_of m k)"
  by (induction m) (auto simp: om_map_def)

lemma om_wf_put: "om_wf m \<Longrightarrow> om_wf (om_put k v m)"
  unfolding om_put_def
  by (auto simp: om_wf_def sorted_wrt_append sorted_wrt_map intro: sorted_wrt_filter)

lemma om_wf_del: "om_wf m \<Longrightarrow> om_wf (om_del k m)"
  by (simp add: om_del_def om_wf_filter)

lemma om_wf_adjust [simp]: "om_wf (om_adjust k f m) = om_wf m"
  by (rule om_wf_keys_eq) simp

lemma om_wf_map [simp]: "om_wf (om_map f m) = om_wf m"
  by (rule om_wf_keys_eq) simp

interpretation om: keyed_store "[]" map_of om_put om_del om_adjust om_wf
  by unfold_locales (simp_all add: om_get_put om_get_del om_get_adjust om_wf_put om_wf_del)

lemmas om_simps = om.get_put om.get_del om.get_adjust om_get_map om.wf_put om.wf_del


subsection \<open>Derived operations\<close>

lemma om_get_or_insert:
  "om_wf m \<Longrightarrow> map_of (om_or_insert k v m) k' =
     (if k' = k \<and> map_of m k = None then Some v else map_of m k')"
  by (auto simp: om_or_insert_def om_simps split: option.split)

lemma om_wf_or_insert: "om_wf m \<Longrightarrow> om_wf (om_or_insert k v m)"
  by (auto simp: om_or_insert_def om_simps split: option.split)

lemma om_wf_retain: "om_wf m \<Longrightarrow> om_wf (om_retain P m)"
  by (simp add: om_retain_def om_wf_filter)

lemma om_wf_after: "om_wf m \<Longrightarrow> om_wf (om_after k m)"
  by (simp add: om_after_def om_wf_filter)

lemma om_get_retain:
  "om_wf m \<Longrightarrow> map_of (om_retain P m) k =
     (case map_of m k of None \<Rightarrow> None | Some v \<Rightarrow> if P k v then Some v else None)"
  unfolding om_wf_def strict_sorted_iff om_retain_def
  by (induction m) (auto split: option.splits dest: map_of_SomeD simp: rev_image_eqI)

lemma om_get_in: "om_wf m \<Longrightarrow> map_of m k = Some v \<longleftrightarrow> (k, v) \<in> set m"
  using om_wf_distinct [of m] by (metis map_of_eq_Some_iff)

lemma om_put_fresh_max:
  "om_wf m \<Longrightarrow> (\<And>k'. k' \<in> fst ` set m \<Longrightarrow> k' < k) \<Longrightarrow> om_put k v m = m @ [(k, v)]"
proof -
  assume less: "\<And>k'. k' \<in> fst ` set m \<Longrightarrow> k' < k"
  then have "filter (\<lambda>p. fst p < k) m = m" by (auto simp: filter_id_conv)
  moreover have "filter (\<lambda>p. k < fst p) m = []"
    using less by (auto simp: filter_empty_conv dest: less_asym)
  ultimately show ?thesis by (simp add: om_put_def)
qed

lemma set_om_put:
  "om_wf m \<Longrightarrow> set (om_put k v m) = insert (k, v) {p \<in> set m. fst p \<noteq> k}"
  by (auto simp: om_put_def neq_iff)

end
