(* ===== verification/Registrar_Store.thy ===== *)
theory Registrar_Store
  imports Registrar_Objects Ordered_Map "HOL-Library.Product_Lexorder"
begin

section \<open>What the registrar keeps\<close>

text \<open>
  \<^verbatim>\<open>crates/hxd-registrar/src/store.rs\<close> and \<^verbatim>\<open>memory.rs\<close>: the rows, the two kinds of write
  (\<open>issue\<close> and \<open>publish\<close>), the queries, and the pages a reader fetches.  The model is the
  in-memory store, which the repository holds up as the semantics of the other one; it fails
  nowhere, so no operation here returns a store error.  The state behind the mutex is the record
  \<open>store\<close>, passed in and returned.

  \<open>store_wf\<close> is the representation invariant.  The lemmas say that every write keeps it, that
  the log and the record list only ever grow at the end, that a record already held is answered
  with the number it has, that an invite is spent once, and that a reader who follows \<open>more\<close>
  sees everything.
\<close>

type_synonym key = bytes

record identity_row =
  id_key :: key
  id_commitment :: "bytes option"
  id_frozen :: bool
  id_revoked :: bool
  id_rotated_to :: "key option"
  id_created :: u64

datatype handle_state = Held | Lapsed | Released

record handle_row =
  hr_name :: string
  hr_identity :: key
  hr_registered :: u64
  hr_expires :: u64
  hr_lapsed_at :: "u64 option"
  hr_barred :: bool

definition handle_lapsed :: "handle_row \<Rightarrow> u64 \<Rightarrow> u64 option" where
  "handle_lapsed h now = (case hr_lapsed_at h of
     Some at \<Rightarrow> Some (min at (hr_expires h))
   | None \<Rightarrow> if hr_expires h \<le> now then Some (hr_expires h) else None)"

definition handle_state_at :: "handle_row \<Rightarrow> u64 \<Rightarrow> u64 \<Rightarrow> handle_state" where
  "handle_state_at h now hold_secs = (case handle_lapsed h now of
     None \<Rightarrow> Held
   | Some at \<Rightarrow> if now < sat_add at hold_secs then Lapsed else Released)"

record issue_w =
  is_identity :: key
  is_commitment :: "bytes option"
  is_handle :: handle_row
  is_first :: bool
  is_issued :: u64
  is_attestation :: bytes
  is_invite :: "bytes option"
  is_recovery :: "string option"

datatype issued = Logged u64 | InviteSpent

datatype record_kind = KRevokeDevice | KRevokeIdentity | KRotate | KFreeze | KRevokeAttestation

primrec record_kind_str :: "record_kind \<Rightarrow> string" where
  "record_kind_str KRevokeDevice = ''revoke_device''"
| "record_kind_str KRevokeIdentity = ''revoke_identity''"
| "record_kind_str KRotate = ''rotate''"
| "record_kind_str KFreeze = ''freeze''"
| "record_kind_str KRevokeAttestation = ''revoke_attestation''"

definition record_kind_parse :: "string \<Rightarrow> record_kind option" where
  "record_kind_parse s =
     (if s = ''revoke_device'' then Some KRevokeDevice
      else if s = ''revoke_identity'' then Some KRevokeIdentity
      else if s = ''rotate'' then Some KRotate
      else if s = ''freeze'' then Some KFreeze
      else if s = ''revoke_attestation'' then Some KRevokeAttestation
      else None)"

record new_record =
  nr_kind :: record_kind
  nr_identity :: key
  nr_other :: "key option"
  nr_until :: "u64 option"
  nr_digest :: bytes
  nr_bytes :: bytes

record pending =
  pd_identity :: key
  pd_successor :: key
  pd_publish_at :: u64
  pd_digest :: bytes
  pd_bytes :: bytes

record recovery =
  rc_handle :: string
  rc_fingerprint :: bytes
  rc_keep_age :: bool
  rc_granted :: u64

datatype effect =
    SetFrozen key bool
  | EffRevoke key
  | EffRotate key key u64
  | LapseHandles key u64
  | LapseHandle string u64 bool
  | GrantRecovery recovery
  | SetPending pending
  | DropPending key

record publish_w =
  pb_records :: "new_record list"
  pb_effects :: "effect list"

datatype record_filter = ByIdentity key | AllRecords u64 nat

record page =
  pg_entries :: "(u64 \<times> bytes) list"
  pg_more :: bool

record counts =
  ct_identities :: u64
  ct_issued_24h :: u64
  ct_issued_7d :: u64
  ct_issued_total :: u64
  ct_revoked_total :: u64
  ct_frozen :: u64
  ct_log_seq :: u64

definition entry_cost :: "bytes \<Rightarrow> nat" where
  "entry_cost bs = length bs + ENTRY_OVERHEAD"

record log_entry =
  le_identity :: key
  le_handle :: string
  le_issued :: u64
  le_expires :: u64
  le_first :: bool
  le_bytes :: bytes

record store =
  identities :: "(key, identity_row) omap"
  handles :: "(string, handle_row) omap"
  log :: "(u64, log_entry) omap"
  records :: "(u64, new_record) omap"
  digests :: "(bytes, u64) omap"
  pendings :: "(key, pending) omap"
  recoveries :: "(string, recovery) omap"
  invites :: "(bytes, bool) omap"
  next_log :: u64
  next_record :: u64

definition empty_store :: store where
  "empty_store = \<lparr>identities = [], handles = [], log = [], records = [], digests = [], pendings = [],
     recoveries = [], invites = [], next_log = 0, next_record = 0\<rparr>"


subsection \<open>Pages\<close>

fun page_from :: "nat \<Rightarrow> nat \<Rightarrow> (u64 \<times> bytes) list \<Rightarrow> (u64 \<times> bytes) list \<Rightarrow> page" where
  "page_from budget used out [] = \<lparr>pg_entries = out, pg_more = False\<rparr>"
| "page_from budget used out ((seq, bs) # items) =
     (let cost = entry_cost bs in
      if out \<noteq> [] \<and> budget < used + cost then \<lparr>pg_entries = out, pg_more = True\<rparr>
      else page_from budget (used + cost) (out @ [(seq, bs)]) items)"

definition page_of :: "(u64 \<times> bytes) list \<Rightarrow> nat \<Rightarrow> page" where
  "page_of items budget = page_from budget 0 [] items"

text \<open>\<open>range(since.saturating_add(1)..)\<close>.\<close>

definition from_seq :: "u64 \<Rightarrow> (u64, 'v) omap \<Rightarrow> (u64, 'v) omap" where
  "from_seq since m = filter (\<lambda>p. sat_add since 1 \<le> fst p) m"


subsection \<open>Effects\<close>

definition fresh_identity :: "key \<Rightarrow> u64 \<Rightarrow> identity_row" where
  "fresh_identity key at = \<lparr>id_key = key, id_commitment = None, id_frozen = False, id_revoked = False,
     id_rotated_to = None, id_created = at\<rparr>"

primrec apply_effect :: "effect \<Rightarrow> store \<Rightarrow> store" where
  "apply_effect (SetFrozen key frozen) s =
     s\<lparr>identities := om_adjust key (\<lambda>row. row\<lparr>id_frozen := frozen\<rparr>) (identities s)\<rparr>"
| "apply_effect (EffRevoke key) s =
     s\<lparr>identities := om_adjust key (\<lambda>row. row\<lparr>id_revoked := True\<rparr>) (identities s)\<rparr>"
| "apply_effect (EffRotate from to at) s =
     s\<lparr>identities := om_or_insert to (fresh_identity to at)
         (om_adjust from (\<lambda>row. row\<lparr>id_rotated_to := Some to\<rparr>) (identities s)),
       handles := om_map (\<lambda>h. if hr_identity h = from then h\<lparr>hr_identity := to\<rparr> else h) (handles s)\<rparr>"
| "apply_effect (LapseHandles identity at) s =
     s\<lparr>handles := om_map (\<lambda>h. if hr_identity h = identity \<and> hr_lapsed_at h = None
         then h\<lparr>hr_lapsed_at := Some at\<rparr> else h) (handles s)\<rparr>"
| "apply_effect (LapseHandle name at barred) s =
     s\<lparr>handles := om_adjust name (\<lambda>h.
         (if hr_lapsed_at h = None then h\<lparr>hr_lapsed_at := Some at\<rparr> else h)
           \<lparr>hr_barred := hr_barred h \<or> barred\<rparr>) (handles s)\<rparr>"
| "apply_effect (GrantRecovery r) s = s\<lparr>recoveries := om_put (rc_handle r) r (recoveries s)\<rparr>"
| "apply_effect (SetPending p) s = s\<lparr>pendings := om_put (pd_identity p) p (pendings s)\<rparr>"
| "apply_effect (DropPending key) s = s\<lparr>pendings := om_del key (pendings s)\<rparr>"


subsection \<open>Queries and writes\<close>

definition store_identity :: "store \<Rightarrow> key \<Rightarrow> identity_row option" where
  "store_identity s key = map_of (identities s) key"

definition identity_by_fingerprint :: "crypto \<Rightarrow> store \<Rightarrow> bytes \<Rightarrow> identity_row option" where
  "identity_by_fingerprint C s fp = find (\<lambda>r. fingerprint_of C (id_key r) = fp) (map snd (identities s))"

definition store_handle :: "store \<Rightarrow> string \<Rightarrow> handle_row option" where
  "store_handle s name = map_of (handles s) name"

definition handles_of :: "store \<Rightarrow> key \<Rightarrow> handle_row list" where
  "handles_of s key = filter (\<lambda>h. hr_identity h = key) (map snd (handles s))"

definition store_recovery :: "store \<Rightarrow> string \<Rightarrow> recovery option" where
  "store_recovery s name = map_of (recoveries s) name"

definition spend_invite :: "bytes option \<Rightarrow> store \<Rightarrow> store option" where
  "spend_invite invite s = (case invite of
     None \<Rightarrow> Some s
   | Some hash \<Rightarrow> (case map_of (invites s) hash of
        Some False \<Rightarrow> Some (s\<lparr>invites := om_adjust hash (\<lambda>_. True) (invites s)\<rparr>)
      | _ \<Rightarrow> None))"

definition issue_row :: "issue_w \<Rightarrow> store \<Rightarrow> store" where
  "issue_row w s = s\<lparr>identities := om_adjust (is_identity w)
       (\<lambda>row. if id_commitment row = None then row\<lparr>id_commitment := is_commitment w\<rparr> else row)
       (om_or_insert (is_identity w) (fresh_identity (is_identity w) (is_issued w)) (identities s))\<rparr>"

definition store_issue :: "issue_w \<Rightarrow> store \<Rightarrow> issued \<times> store" where
  "store_issue w s = (case spend_invite (is_invite w) s of
     None \<Rightarrow> (InviteSpent, s)
   | Some s \<Rightarrow>
      (let s = issue_row w s;
           s = s\<lparr>handles := om_put (hr_name (is_handle w)) (is_handle w) (handles s)\<rparr>;
           s = (case is_recovery w of
                  Some name \<Rightarrow> s\<lparr>recoveries := om_del name (recoveries s)\<rparr>
                | None \<Rightarrow> s);
           seq = next_log s + 1;
           entry = \<lparr>le_identity = is_identity w, le_handle = hr_name (is_handle w),
                    le_issued = is_issued w, le_expires = hr_expires (is_handle w),
                    le_first = is_first w, le_bytes = is_attestation w\<rparr>
       in (Logged seq, s\<lparr>next_log := seq, log := om_put seq entry (log s)\<rparr>)))"

definition attestations_expire :: "store \<Rightarrow> key \<Rightarrow> string \<Rightarrow> u64 \<Rightarrow> u64 option" where
  "attestations_expire s identity handle issued_up_to =
     max_opt (map le_expires (filter (\<lambda>e. le_identity e = identity \<and> le_handle e = handle
        \<and> le_issued e \<le> issued_up_to) (map snd (log s))))"

fun publish_records :: "new_record list \<Rightarrow> store \<Rightarrow> u64 list \<times> store" where
  "publish_records [] s = ([], s)"
| "publish_records (r # rs) s = (case map_of (digests s) (nr_digest r) of
     Some seq \<Rightarrow> (let (seqs, s') = publish_records rs s in (seq # seqs, s'))
   | None \<Rightarrow>
      (let seq = next_record s + 1;
           s1 = s\<lparr>next_record := seq, digests := om_put (nr_digest r) seq (digests s),
                  records := om_put seq r (records s)\<rparr>;
           (seqs, s') = publish_records rs s1
       in (seq # seqs, s')))"

definition store_publish :: "publish_w \<Rightarrow> store \<Rightarrow> u64 list \<times> store" where
  "store_publish p s =
     (let (seqs, s') = publish_records (pb_records p) s
      in (seqs, fold apply_effect (pb_effects p) s'))"

definition record_seq :: "store \<Rightarrow> bytes \<Rightarrow> u64 option" where
  "record_seq s digest = map_of (digests s) digest"

definition set_commitment :: "key \<Rightarrow> bytes \<Rightarrow> store \<Rightarrow> bool \<times> store" where
  "set_commitment key commitment s = (case map_of (identities s) key of
     Some row \<Rightarrow> if id_commitment row = None
       then (True, s\<lparr>identities := om_adjust key (\<lambda>row. row\<lparr>id_commitment := Some commitment\<rparr>) (identities s)\<rparr>)
       else (False, s)
   | None \<Rightarrow> (False, s))"

definition store_pending :: "store \<Rightarrow> key \<Rightarrow> pending option" where
  "store_pending s key = map_of (pendings s) key"

definition pending_due :: "store \<Rightarrow> u64 \<Rightarrow> pending list" where
  "pending_due s now = sort_key (\<lambda>p. (pd_publish_at p, pd_identity p))
     (filter (\<lambda>p. pd_publish_at p \<le> now) (map snd (pendings s)))"

definition device_revocations_of :: "store \<Rightarrow> key \<Rightarrow> (u64 \<times> u64) list" where
  "device_revocations_of s key =
     map (\<lambda>(seq, r). (case nr_until r of Some u \<Rightarrow> u | None \<Rightarrow> - 1, seq))
       (filter (\<lambda>(seq, r). nr_kind r = KRevokeDevice \<and> nr_identity r = key) (records s))"

definition kept_seqs :: "store \<Rightarrow> nat \<Rightarrow> u64 list" where
  "kept_seqs s device_cap =
     concat (map (\<lambda>key. map snd (take device_cap (rev (sort (device_revocations_of s key)))))
       (remdups (map (nr_identity \<circ> snd) (filter (\<lambda>(seq, r). nr_kind r = KRevokeDevice) (records s)))))"

definition record_visible :: "store \<Rightarrow> record_filter \<Rightarrow> u64 \<Rightarrow> new_record \<Rightarrow> bool" where
  "record_visible s flt seq r = (case flt of
     ByIdentity key \<Rightarrow> nr_identity r = key \<or> nr_other r = Some key
   | AllRecords now device_cap \<Rightarrow>
      (let live = (case nr_until r of None \<Rightarrow> True | Some u \<Rightarrow> now \<le> u) in
       case nr_kind r of
         KRevokeDevice \<Rightarrow> live \<and> seq \<in> set (kept_seqs s device_cap)
       | KRevokeAttestation \<Rightarrow> live
       | _ \<Rightarrow> True))"

definition records_page :: "store \<Rightarrow> record_filter \<Rightarrow> u64 \<Rightarrow> nat \<Rightarrow> page" where
  "records_page s flt since budget =
     page_of (map (\<lambda>(seq, r). (seq, nr_bytes r))
       (filter (\<lambda>(seq, r). record_visible s flt seq r) (from_seq since (records s)))) budget"

definition log_page :: "store \<Rightarrow> u64 \<Rightarrow> nat \<Rightarrow> page" where
  "log_page s since budget = page_of (map (\<lambda>(seq, e). (seq, le_bytes e)) (from_seq since (log s))) budget"

definition store_counts :: "store \<Rightarrow> u64 \<Rightarrow> counts" where
  "store_counts s now =
     (let holders = remdups (map hr_identity (filter (\<lambda>h. handle_lapsed h now = None) (map snd (handles s))));
          first = (\<lambda>since. word_of_nat (length (filter (\<lambda>e. le_first e \<and> since < le_issued e) (map snd (log s)))))
      in \<lparr>ct_identities = word_of_nat (length holders),
          ct_issued_24h = first (sat_sub now 86400),
          ct_issued_7d = first (sat_sub now (7 * 86400)),
          ct_issued_total = word_of_nat (length (filter le_first (map snd (log s)))),
          ct_revoked_total =
            word_of_nat (length (filter (\<lambda>r. nr_kind r = KRevokeAttestation) (map snd (records s)))),
          ct_frozen = word_of_nat (length (filter id_frozen (map snd (identities s)))),
          ct_log_seq = (if log s = [] then 0 else fst (last (log s)))\<rparr>)"

definition invite_open :: "store \<Rightarrow> bytes \<Rightarrow> bool" where
  "invite_open s hash \<longleftrightarrow> map_of (invites s) hash = Some False"

fun store_add_invites :: "bytes list \<Rightarrow> store \<Rightarrow> nat \<times> store" where
  "store_add_invites [] s = (0, s)"
| "store_add_invites (h # hs) s =
     (if map_of (invites s) h = None
      then (let (n, s') = store_add_invites hs (s\<lparr>invites := om_put h False (invites s)\<rparr>) in (Suc n, s'))
      else store_add_invites hs s)"


subsection \<open>The invariant and the order of time\<close>

definition seqs_below :: "u64 \<Rightarrow> (u64, 'v) omap \<Rightarrow> bool" where
  "seqs_below n m \<longleftrightarrow> om_wf m \<and> (\<forall>q\<in>fst ` set m. 0 < q \<and> q \<le> n)"

definition store_wf :: "store \<Rightarrow> bool" where
  "store_wf s \<longleftrightarrow>
     om_wf (identities s) \<and> om_wf (handles s) \<and> om_wf (digests s) \<and> om_wf (pendings s)
     \<and> om_wf (recoveries s) \<and> om_wf (invites s)
     \<and> seqs_below (next_log s) (log s) \<and> seqs_below (next_record s) (records s)
     \<and> (\<forall>k row. map_of (identities s) k = Some row \<longrightarrow> id_key row = k)
     \<and> (\<forall>k h. map_of (handles s) k = Some h \<longrightarrow> hr_name h = k)
     \<and> (\<forall>k p. map_of (pendings s) k = Some p \<longrightarrow> pd_identity p = k)
     \<and> (\<forall>k r. map_of (recoveries s) k = Some r \<longrightarrow> rc_handle r = k)
     \<and> (\<forall>d q. map_of (digests s) d = Some q \<longleftrightarrow> (\<exists>r. map_of (records s) q = Some r \<and> nr_digest r = d))"

text \<open>The sequence counters are 64 bits wide; \<open>room n\<close> is that \<open>n\<close> more numbers are left in each.\<close>

definition room :: "nat \<Rightarrow> store \<Rightarrow> bool" where
  "room n s \<longleftrightarrow> unat (next_log s) + n < 2 ^ 64 \<and> unat (next_record s) + n < 2 ^ 64"

text \<open>How a row may change: what the specification calls permanent never changes back.\<close>

definition row_le :: "identity_row \<Rightarrow> identity_row \<Rightarrow> bool" where
  "row_le r r' \<longleftrightarrow> id_key r' = id_key r \<and> id_created r' = id_created r
     \<and> (id_commitment r \<noteq> None \<longrightarrow> id_commitment r' = id_commitment r)
     \<and> (id_revoked r \<longrightarrow> id_revoked r')
     \<and> (id_rotated_to r \<noteq> None \<longrightarrow> id_rotated_to r' = id_rotated_to r)"

definition identities_le :: "(key, identity_row) omap \<Rightarrow> (key, identity_row) omap \<Rightarrow> bool" where
  "identities_le m m' \<longleftrightarrow> (\<forall>k r. map_of m k = Some r \<longrightarrow> (\<exists>r'. map_of m' k = Some r' \<and> row_le r r'))"

definition store_le :: "store \<Rightarrow> store \<Rightarrow> bool" where
  "store_le s s' \<longleftrightarrow>
     (\<exists>xs. log s' = log s @ xs) \<and> (\<exists>xs. records s' = records s @ xs)
     \<and> (\<forall>d q. map_of (digests s) d = Some q \<longrightarrow> map_of (digests s') d = Some q)
     \<and> identities_le (identities s) (identities s')
     \<and> (\<forall>h. map_of (invites s) h = Some True \<longrightarrow> map_of (invites s') h = Some True)"

lemma store_wf_empty: "store_wf empty_store"
  by (simp add: store_wf_def empty_store_def seqs_below_def)

lemma row_le_refl [simp]: "row_le r r"
  by (simp add: row_le_def)

lemma row_le_trans: "row_le a b \<Longrightarrow> row_le b c \<Longrightarrow> row_le a c"
  by (auto simp: row_le_def)

lemma identities_le_refl [simp]: "identities_le m m"
  by (simp add: identities_le_def)

lemma identities_le_trans: "identities_le a b \<Longrightarrow> identities_le b c \<Longrightarrow> identities_le a c"
  unfolding identities_le_def by (meson row_le_trans)

lemma store_le_refl [simp]: "store_le s s"
  by (simp add: store_le_def)

lemma store_le_trans: "store_le a b \<Longrightarrow> store_le b c \<Longrightarrow> store_le a c"
  unfolding store_le_def using identities_le_trans by fastforce

lemma identities_le_adjust:
  "(\<And>r. map_of m k = Some r \<Longrightarrow> row_le r (f r)) \<Longrightarrow> identities_le m (om_adjust k f m)"
  by (auto simp: identities_le_def om_simps)

lemma identities_le_or_insert: "om_wf m \<Longrightarrow> identities_le m (om_or_insert k v m)"
  by (auto simp: identities_le_def om_get_or_insert)

lemma seqs_below_append:
  assumes "seqs_below n m" "unat n + 1 < 2 ^ 64"
  shows "seqs_below (n + 1) (om_put (n + 1) v m)" "om_put (n + 1) v m = m @ [(n + 1, v)]"
proof -
  have lt: "n < n + 1" "0 < n + 1"
    using assms(2) by (simp_all add: word_less_nat_alt unat_word_ariths)
  have "q < n + 1" if "q \<in> fst ` set m" for q
    using assms(1) that lt by (force simp: seqs_below_def)
  then show app: "om_put (n + 1) v m = m @ [(n + 1, v)]"
    using assms(1) by (intro om_put_fresh_max) (auto simp: seqs_below_def)
  have "om_wf (om_put (n + 1) v m)" using assms(1) by (simp add: seqs_below_def om_simps)
  then show "seqs_below (n + 1) (om_put (n + 1) v m)"
    using assms(1) lt unfolding seqs_below_def app by (auto intro: less_imp_le order.strict_trans1)
qed


subsection \<open>Every write keeps the invariant and moves forward\<close>

text \<open>An effect may not rotate an identity that is already rotated elsewhere; the registrar checks
  that before it hands the store a rotation.\<close>

definition effect_ok :: "effect \<Rightarrow> store \<Rightarrow> bool" where
  "effect_ok e s = (case e of
     EffRotate from to at \<Rightarrow>
       (case map_of (identities s) from of Some row \<Rightarrow> id_rotated_to row = None | None \<Rightarrow> True)
   | _ \<Rightarrow> True)"

lemma apply_effect_frame [simp]:
  "log (apply_effect e s) = log s" "records (apply_effect e s) = records s"
  "digests (apply_effect e s) = digests s" "invites (apply_effect e s) = invites s"
  "next_log (apply_effect e s) = next_log s" "next_record (apply_effect e s) = next_record s"
  by (induction e) simp_all

lemma fold_effects_frame [simp]:
  "log (fold apply_effect es s) = log s" "records (fold apply_effect es s) = records s"
  "digests (fold apply_effect es s) = digests s" "invites (fold apply_effect es s) = invites s"
  "next_log (fold apply_effect es s) = next_log s" "next_record (fold apply_effect es s) = next_record s"
  by (induction es arbitrary: s) simp_all

lemma apply_effect_le: "store_wf s \<Longrightarrow> effect_ok e s \<Longrightarrow> store_le s (apply_effect e s)"
proof -
  assume wf: "store_wf s" and ok: "effect_ok e s"
  have "identities_le (identities s) (identities (apply_effect e s))"
  proof (cases e)
    case (EffRotate old to at)
    let ?m = "om_adjust old (\<lambda>row. row\<lparr>id_rotated_to := Some to\<rparr>) (identities s)"
    have "identities_le (identities s) ?m"
      using ok EffRotate by (intro identities_le_adjust) (simp add: effect_ok_def row_le_def)
    moreover have "identities_le ?m (om_or_insert to (fresh_identity to at) ?m)"
      using wf by (intro identities_le_or_insert) (simp add: store_wf_def)
    ultimately show ?thesis using EffRotate identities_le_trans by simp
  qed (auto intro!: identities_le_adjust simp: row_le_def)
  then show ?thesis by (simp add: store_le_def)
qed

lemma apply_effect_wf: "store_wf s \<Longrightarrow> store_wf (apply_effect e s)"
  by (cases e)
    (auto simp: store_wf_def om_simps om_get_or_insert om_wf_or_insert fresh_identity_def
      split: if_splits)

lemma fold_effects_wf: "store_wf s \<Longrightarrow> store_wf (fold apply_effect es s)"
  by (induction es arbitrary: s) (simp_all add: apply_effect_wf)

lemma spend_invite_le:
  "store_wf s \<Longrightarrow> spend_invite i s = Some s' \<Longrightarrow> store_wf s' \<and> store_le s s'
     \<and> next_log s' = next_log s \<and> next_record s' = next_record s"
  by (auto simp: spend_invite_def store_wf_def store_le_def om_simps split: option.splits bool.splits)

lemma issue_row_le: "store_wf s \<Longrightarrow> store_wf (issue_row w s) \<and> store_le s (issue_row w s)"
proof -
  assume wf: "store_wf s"
  let ?m = "om_or_insert (is_identity w) (fresh_identity (is_identity w) (is_issued w)) (identities s)"
  have "identities_le (identities s) ?m"
    using wf by (intro identities_le_or_insert) (simp add: store_wf_def)
  moreover have "identities_le ?m (identities (issue_row w s))"
    unfolding issue_row_def
    by (auto intro!: identities_le_adjust simp: row_le_def)
  ultimately have "identities_le (identities s) (identities (issue_row w s))"
    by (rule identities_le_trans)
  moreover have "store_wf (issue_row w s)"
    using wf
    by (auto simp: issue_row_def store_wf_def om_simps om_get_or_insert om_wf_or_insert
        fresh_identity_def split: if_splits)
  ultimately show ?thesis by (simp add: store_le_def issue_row_def)
qed

lemma store_handles_wf:
  "store_wf s \<Longrightarrow> store_wf (s\<lparr>handles := om_put (hr_name h) h (handles s)\<rparr>)
     \<and> store_le s (s\<lparr>handles := om_put (hr_name h) h (handles s)\<rparr>)"
  by (auto simp: store_wf_def store_le_def om_simps split: if_splits)

lemma store_recoveries_wf:
  "store_wf s \<Longrightarrow> store_wf (s\<lparr>recoveries := om_del n (recoveries s)\<rparr>)
     \<and> store_le s (s\<lparr>recoveries := om_del n (recoveries s)\<rparr>)"
  by (auto simp: store_wf_def store_le_def om_simps split: if_splits)

lemma store_log_wf:
  assumes "store_wf s" "room 1 s"
  shows "store_wf (s\<lparr>next_log := next_log s + 1, log := om_put (next_log s + 1) e (log s)\<rparr>)"
    "store_le s (s\<lparr>next_log := next_log s + 1, log := om_put (next_log s + 1) e (log s)\<rparr>)"
  using assms seqs_below_append [of "next_log s" "log s" e]
  by (simp_all add: store_wf_def store_le_def room_def)

lemma next_log_issue_row [simp]: "next_log (issue_row w s) = next_log s" "next_record (issue_row w s) = next_record s"
  by (simp_all add: issue_row_def)

lemma store_issue_keeps:
  assumes "store_wf s" "room 1 s"
  shows "store_wf (snd (store_issue w s)) \<and> store_le s (snd (store_issue w s))"
proof (cases "spend_invite (is_invite w) s")
  case None
  with assms show ?thesis by (simp add: store_issue_def)
next
  case (Some s1)
  note s1 = spend_invite_le [OF assms(1) Some]
  define s2 where "s2 = issue_row w s1"
  define s3 where "s3 = s2\<lparr>handles := om_put (hr_name (is_handle w)) (is_handle w) (handles s2)\<rparr>"
  define s4 where "s4 = (case is_recovery w of Some n \<Rightarrow> s3\<lparr>recoveries := om_del n (recoveries s3)\<rparr> | None \<Rightarrow> s3)"
  have s2: "store_wf s2 \<and> store_le s1 s2" unfolding s2_def using s1 by (intro issue_row_le) simp
  have s3: "store_wf s3 \<and> store_le s2 s3" unfolding s3_def using s2 by (intro store_handles_wf) simp
  have s4: "store_wf s4 \<and> store_le s3 s4"
    unfolding s4_def using s3 store_recoveries_wf [of s3] by (cases "is_recovery w") simp_all
  have "next_log s4 = next_log s" "next_record s4 = next_record s"
    using s1 by (simp_all add: s4_def s3_def s2_def split: option.split)
  then have "room 1 s4" using assms(2) by (simp add: room_def)
  then have final: "store_wf (s4\<lparr>next_log := next_log s4 + 1, log := om_put (next_log s4 + 1) e (log s4)\<rparr>)"
    "store_le s4 (s4\<lparr>next_log := next_log s4 + 1, log := om_put (next_log s4 + 1) e (log s4)\<rparr>)" for e
    using s4 store_log_wf [of s4 e] by simp_all
  have le: "store_le s s4"
    using s1 s2 s3 s4 by (blast intro: store_le_trans)
  have "\<exists>e. snd (store_issue w s) = s4\<lparr>next_log := next_log s4 + 1, log := om_put (next_log s4 + 1) e (log s4)\<rparr>"
    by (auto simp: store_issue_def Some s4_def s3_def s2_def Let_def split: option.split)
  then obtain e where "snd (store_issue w s)
      = s4\<lparr>next_log := next_log s4 + 1, log := om_put (next_log s4 + 1) e (log s4)\<rparr>" ..
  with final [of e] le show ?thesis by (simp add: store_le_trans [of s s4])
qed

text \<open>\<open>publish\<close>: the records first, then the effects.\<close>

lemma publish_records_frame:
  "identities (snd (publish_records rs s)) = identities s" "handles (snd (publish_records rs s)) = handles s"
  "log (snd (publish_records rs s)) = log s" "next_log (snd (publish_records rs s)) = next_log s"
  "pendings (snd (publish_records rs s)) = pendings s" "recoveries (snd (publish_records rs s)) = recoveries s"
  "invites (snd (publish_records rs s)) = invites s"
  by (induction rs s rule: publish_records.induct)
    (simp_all add: Let_def split_beta split: option.split)

lemma store_record_wf:
  assumes "store_wf s" "room 1 s" "map_of (digests s) (nr_digest r) = None"
  defines "s' \<equiv> s\<lparr>next_record := next_record s + 1, digests := om_put (nr_digest r) (next_record s + 1) (digests s),
     records := om_put (next_record s + 1) r (records s)\<rparr>"
  shows "store_wf s'" "store_le s s'"
proof -
  let ?q = "next_record s + 1"
  have below: "seqs_below (next_record s) (records s)" "unat (next_record s) + 1 < 2 ^ 64"
    using assms(1,2) by (simp_all add: store_wf_def room_def)
  note app = seqs_below_append [OF below, of r]
  have "next_record s < ?q" using below(2) by (simp add: word_less_nat_alt unat_word_ariths)
  then have "?q \<notin> fst ` set (records s)" using below(1) by (force simp: seqs_below_def)
  then have fresh: "map_of (records s) ?q = None" by (simp add: map_of_eq_None_iff)
  have get: "map_of (om_put ?q r (records s)) k = (if k = ?q then Some r else map_of (records s) k)" for k
    using below(1) by (simp add: seqs_below_def om_simps)
  have "nr_digest ra \<noteq> nr_digest r" if "map_of (records s) q = Some ra" for q ra
    using assms(1,3) that unfolding store_wf_def by (metis option.distinct(1))
  then show "store_wf s'"
    using assms(1,3) app(1) get fresh
    by (auto simp: store_wf_def s'_def om_simps split: if_splits)
  have "om_wf (digests s)" using assms(1) by (simp add: store_wf_def)
  then show "store_le s s'"
    using assms(3) app(2) by (auto simp: store_le_def s'_def om_simps)
qed

lemma publish_records_keeps:
  assumes "store_wf s" "room (length rs) s"
  shows "store_wf (snd (publish_records rs s)) \<and> store_le s (snd (publish_records rs s))
     \<and> unat (next_record (snd (publish_records rs s))) \<le> unat (next_record s) + length rs"
  using assms
proof (induction rs s rule: publish_records.induct)
  case (2 r rs s)
  show ?case
  proof (cases "map_of (digests s) (nr_digest r)")
    case (Some q)
    with 2 show ?thesis by (auto simp: room_def split_beta Let_def)
  next
    case None
    let ?s1 = "s\<lparr>next_record := next_record s + 1, digests := om_put (nr_digest r) (next_record s + 1) (digests s),
       records := om_put (next_record s + 1) r (records s)\<rparr>"
    have room1: "room 1 s" using 2(4) by (simp add: room_def)
    have "unat (next_record s + 1) = unat (next_record s) + 1"
      using room1 by (simp add: room_def unat_word_ariths)
    moreover from this have "room (length rs) ?s1" using 2(4) by (simp add: room_def)
    ultimately show ?thesis
      using 2(1) [OF None refl refl store_record_wf(1) [OF 2(3) room1 None]]
        store_record_wf(2) [OF 2(3) room1 None] None store_le_trans
      by (auto simp: split_beta Let_def)
  qed
qed simp

lemma publish_records_seqs:
  assumes "store_wf s" "room (length rs) s"
  shows "list_all2 (\<lambda>r q. map_of (digests (snd (publish_records rs s))) (nr_digest r) = Some q)
    rs (fst (publish_records rs s))"
  using assms
proof (induction rs s rule: publish_records.induct)
  case (2 r rs s)
  show ?case
  proof (cases "map_of (digests s) (nr_digest r)")
    case (Some q)
    have roomy: "room (length rs) s" using 2(4) by (simp add: room_def)
    then have "store_le s (snd (publish_records rs s))"
      using publish_records_keeps [OF 2(3)] by simp
    with Some have "map_of (digests (snd (publish_records rs s))) (nr_digest r) = Some q"
      by (simp add: store_le_def)
    with 2(2) [OF Some 2(3) roomy] Some show ?thesis by (simp add: split_beta Let_def)
  next
    case None
    let ?s1 = "s\<lparr>next_record := next_record s + 1, digests := om_put (nr_digest r) (next_record s + 1) (digests s),
       records := om_put (next_record s + 1) r (records s)\<rparr>"
    have room1: "room 1 s" using 2(4) by (simp add: room_def)
    then have roomy: "room (length rs) ?s1" using 2(4) by (simp add: room_def unat_word_ariths)
    have wf1: "store_wf ?s1" by (rule store_record_wf(1) [OF 2(3) room1 None])
    have "map_of (digests ?s1) (nr_digest r) = Some (next_record s + 1)"
      using 2(3) by (simp add: store_wf_def om_simps)
    moreover have "store_le ?s1 (snd (publish_records rs ?s1))"
      using publish_records_keeps [OF wf1 roomy] by simp
    ultimately have "map_of (digests (snd (publish_records rs ?s1))) (nr_digest r) = Some (next_record s + 1)"
      unfolding store_le_def by blast
    with 2(1) [OF None refl refl wf1 roomy] None show ?thesis by (simp add: split_beta Let_def)
  qed
qed simp

lemma publish_held:
  "list_all2 (\<lambda>r q. map_of (digests s) (nr_digest r) = Some q) rs qs \<Longrightarrow> publish_records rs s = (qs, s)"
  by (induction rule: list_all2_induct) auto

text \<open>The effects of a publication are allowed when its rotations are of distinct keys not yet rotated;
  one rotation at most is ever published at once.\<close>

primrec effects_ok :: "effect list \<Rightarrow> store \<Rightarrow> bool" where
  "effects_ok [] s = True"
| "effects_ok (e # es) s = (effect_ok e s \<and> effects_ok es (apply_effect e s))"

lemma fold_effects_le: "store_wf s \<Longrightarrow> effects_ok es s \<Longrightarrow> store_le s (fold apply_effect es s)"
proof (induction es arbitrary: s)
  case (Cons e es)
  then show ?case
    using apply_effect_le [of s e] apply_effect_wf [of s e] store_le_trans by fastforce
qed simp

lemma store_publish_keeps:
  assumes "store_wf s" "room (length (pb_records p)) s"
    and "effects_ok (pb_effects p) (snd (publish_records (pb_records p) s))"
  shows "store_wf (snd (store_publish p s)) \<and> store_le s (snd (store_publish p s))"
  using publish_records_keeps [OF assms(1,2)] fold_effects_le [OF _ assms(3)] fold_effects_wf
    store_le_trans
  by (auto simp: store_publish_def split_beta Let_def)

lemma set_commitment_keeps:
  "store_wf s \<Longrightarrow> store_wf (snd (set_commitment k c s)) \<and> store_le s (snd (set_commitment k c s))"
  by (auto simp: set_commitment_def store_wf_def store_le_def om_simps row_le_def
      split: option.split intro!: identities_le_adjust)

lemma add_invites_keeps:
  "store_wf s \<Longrightarrow> store_wf (snd (store_add_invites hs s)) \<and> store_le s (snd (store_add_invites hs s))"
proof (induction hs s rule: store_add_invites.induct)
  case (2 h hs s)
  let ?s1 = "s\<lparr>invites := om_put h False (invites s)\<rparr>"
  show ?case
  proof (cases "map_of (invites s) h = None")
    case True
    have "store_wf ?s1" "store_le s ?s1"
      using 2(3) True by (auto simp: store_wf_def store_le_def om_simps)
    with 2(1) [OF True] True show ?thesis
      using store_le_trans by (auto simp: split_beta Let_def)
  next
    case False
    with 2 show ?thesis by auto
  qed
qed simp


subsection \<open>Pages\<close>

lemma page_from_take:
  "\<exists>n\<le>length items. page_from budget used out items = \<lparr>pg_entries = out @ take n items, pg_more = n < length items\<rparr>
     \<and> (out = [] \<longrightarrow> items \<noteq> [] \<longrightarrow> 0 < n)
     \<and> (out = [] \<and> n \<le> 1 \<or> n = 0 \<or> used + sum_list (map (\<lambda>e. entry_cost (snd e)) (take n items)) \<le> budget)"
proof (induction items arbitrary: used out)
  case (Cons item items)
  obtain seq bs where item: "item = (seq, bs)" by (cases item)
  show ?case
  proof (cases "out \<noteq> [] \<and> budget < used + entry_cost bs")
    case True
    then show ?thesis by (intro exI [of _ 0]) (simp add: item Let_def)
  next
    case False
    obtain n where n: "n \<le> length items"
      "page_from budget (used + entry_cost bs) (out @ [(seq, bs)]) items
         = \<lparr>pg_entries = (out @ [(seq, bs)]) @ take n items, pg_more = n < length items\<rparr>"
      "n = 0 \<or> used + entry_cost bs + sum_list (map (\<lambda>e. entry_cost (snd e)) (take n items)) \<le> budget"
      using Cons.IH [of "used + entry_cost bs" "out @ [(seq, bs)]"] by auto
    with False show ?thesis
      by (intro exI [of _ "Suc n"]) (auto simp: item Let_def)
  qed
qed simp

lemma page_of_take:
  obtains n where "n \<le> length items" "page_of items budget = \<lparr>pg_entries = take n items, pg_more = n < length items\<rparr>"
    "items \<noteq> [] \<longrightarrow> 0 < n" "n \<le> 1 \<or> sum_list (map (\<lambda>e. entry_cost (snd e)) (take n items)) \<le> budget"
  using page_from_take [of items budget 0 "[]"] by (auto simp: page_of_def)

text \<open>A reader that follows \<open>more\<close>: it asks again from the last number it was given.\<close>

fun read_pages :: "nat \<Rightarrow> (u64 \<Rightarrow> page) \<Rightarrow> u64 \<Rightarrow> (u64 \<times> bytes) list option" where
  "read_pages 0 fetch since = None"
| "read_pages (Suc fuel) fetch since =
     (let p = fetch since in
      if pg_more p
      then map_option ((@) (pg_entries p)) (read_pages fuel fetch (fst (last (pg_entries p))))
      else Some (pg_entries p))"

lemma filter_after_taken:
  assumes "sorted_wrt (<) (map fst items)" "0 < n" "n < length items"
  shows "filter (\<lambda>p. sat_add (fst (last (take n items))) 1 \<le> fst p) items = drop n (items :: (u64 \<times> 'b) list)"
proof -
  let ?q = "fst (last (take n items))"
  have last: "last (take n items) = items ! (n - 1)" using assms(2,3) last_conv_nth [of "take n items"] by (cases items) (simp_all add: min_def)
  have less: "fst (items ! i) < fst (items ! j)" if "i < j" "j < length items" for i j
    using assms(1) that by (simp add: sorted_wrt_iff_nth_less)
  have before: "fst p \<le> ?q" if "p \<in> set (take n items)" for p
  proof -
    from that obtain i where i: "i < n" "p = items ! i" using assms(3) by (auto simp: in_set_conv_nth)
    show ?thesis
    proof (cases "i = n - 1")
      case False
      then have "i < n - 1" using i(1) by simp
      moreover have "n - 1 < length items" using assms(3) by simp
      ultimately have "fst (items ! i) < fst (items ! (n - 1))" by (rule less)
      then show ?thesis using i by (simp add: last)
    qed (simp add: i last)
  qed
  have after: "?q < fst p" if "p \<in> set (drop n items)" for p
  proof -
    from that obtain j where "j < length items - n" "p = items ! (n + j)"
      by (auto simp: in_set_conv_nth)
    then show ?thesis using less [of "n - 1" "n + j"] assms(2) by (simp add: last)
  qed
  have "items ! n \<in> set (drop n items)"
    using assms(3) nth_mem [of 0 "drop n items"] by simp
  then have "?q \<noteq> - 1" using after by (metis not_less word_order.extremum)
  then have step: "sat_add ?q 1 \<le> r \<longleftrightarrow> ?q < r" for r
    using less_sat_add_1 [of ?q] sat_add_1_leI [of ?q r] by (auto dest: order.strict_trans2)
  have "filter (\<lambda>p. sat_add ?q 1 \<le> fst p) (take n items @ drop n items) = drop n items"
    unfolding filter_append step using before after by (auto simp: filter_empty_conv not_less)
  then show ?thesis by simp
qed

lemma read_pages_all:
  assumes "sorted_wrt (<) (map fst items)" "length (filter (\<lambda>p. sat_add since 1 \<le> fst p) items) < fuel"
  shows "read_pages fuel (\<lambda>since. page_of (filter (\<lambda>p. sat_add since 1 \<le> fst p) items) budget) since
    = Some (filter (\<lambda>p. sat_add since 1 \<le> fst p) items)"
  using assms(2)
proof (induction fuel arbitrary: since)
  case (Suc fuel)
  let ?fetch = "\<lambda>since. page_of (filter (\<lambda>p. sat_add since 1 \<le> fst p) items) budget"
  let ?rest = "filter (\<lambda>p. sat_add since 1 \<le> fst p) items"
  obtain n where n: "n \<le> length ?rest"
    "page_of ?rest budget = \<lparr>pg_entries = take n ?rest, pg_more = n < length ?rest\<rparr>" "?rest \<noteq> [] \<longrightarrow> 0 < n"
    by (rule page_of_take [of ?rest budget])
  show ?case
  proof (cases "n < length ?rest")
    case False
    with n show ?thesis by (simp add: Let_def)
  next
    case True
    then have pos: "0 < n" using n(3) by auto
    let ?q = "fst (last (take n ?rest))"
    have sorted: "sorted_wrt (<) (map fst ?rest)"
      using assms(1) by (simp add: sorted_wrt_map sorted_wrt_filter)
    have "last (take n ?rest) \<in> set ?rest"
      using pos True last_in_set [of "take n ?rest"] set_take_subset [of n ?rest] by fastforce
    then have "sat_add since 1 \<le> sat_add ?q 1"
      using le_sat_add [of ?q 1] by (auto intro: order_trans)
    then have "filter (\<lambda>p. sat_add ?q 1 \<le> fst p) items = filter (\<lambda>p. sat_add ?q 1 \<le> fst p) ?rest"
      by (auto intro: filter_cong [OF refl] dest: order_trans simp: filter_filter)
    then have rest: "filter (\<lambda>p. sat_add ?q 1 \<le> fst p) items = drop n ?rest"
      using filter_after_taken [OF sorted pos True] by simp
    then have "length (filter (\<lambda>p. sat_add ?q 1 \<le> fst p) items) < fuel"
      using Suc.prems pos True by simp
    from Suc.IH [OF this] have "read_pages fuel ?fetch ?q = Some (drop n ?rest)"
      unfolding rest .
    with True n(2) show ?thesis by (simp add: Let_def)
  qed
qed simp

lemma filter_fst_map: "filter (\<lambda>p. P (fst p)) (map (\<lambda>(q, e). (q, f e)) m) = map (\<lambda>(q, e). (q, f e)) (filter (\<lambda>p. P (fst p)) m)"
  by (induction m) auto

lemma keys_map_snd: "map fst (map (\<lambda>(q, e). (q, f e)) m) = map fst m"
  by (induction m) auto

lemma log_page_items:
  "log_page s since budget =
     page_of (filter (\<lambda>p. sat_add since 1 \<le> fst p) (map (\<lambda>(q, e). (q, le_bytes e)) (log s))) budget"
  by (simp add: log_page_def from_seq_def filter_fst_map)

definition visible_records :: "store \<Rightarrow> record_filter \<Rightarrow> (u64 \<times> bytes) list" where
  "visible_records s flt =
     map (\<lambda>(q, r). (q, nr_bytes r)) (filter (\<lambda>(q, r). record_visible s flt q r) (records s))"

lemma records_page_items:
  "records_page s flt since budget = page_of (filter (\<lambda>p. sat_add since 1 \<le> fst p) (visible_records s flt)) budget"
  by (simp add: records_page_def visible_records_def from_seq_def filter_fst_map conj_commute)

lemma filter_from_one: "(\<forall>q\<in>fst ` set m. 0 < q) \<Longrightarrow> filter (\<lambda>p. sat_add 0 1 \<le> fst p) m = (m :: (u64 \<times> 'v) list)"
  by (auto simp: filter_id_conv sat_add_1_leI)

lemma store_items:
  assumes "store_wf s"
  shows "sorted_wrt (<) (map fst (map (\<lambda>(q, e). (q, le_bytes e)) (log s)))"
    "\<forall>q\<in>fst ` set (map (\<lambda>(q, e). (q, le_bytes e)) (log s)). 0 < q"
    "sorted_wrt (<) (map fst (visible_records s flt))" "\<forall>q\<in>fst ` set (visible_records s flt). 0 < q"
proof -
  have wf: "om_wf (log s)" "om_wf (records s)" "\<forall>q\<in>fst ` set (log s). 0 < q" "\<forall>q\<in>fst ` set (records s). 0 < q"
    using assms by (simp_all add: store_wf_def seqs_below_def)
  then show "sorted_wrt (<) (map fst (map (\<lambda>(q, e). (q, le_bytes e)) (log s)))"
    unfolding keys_map_snd by (simp add: om_wf_def)
  show "\<forall>q\<in>fst ` set (map (\<lambda>(q, e). (q, le_bytes e)) (log s)). 0 < q" using wf(3) by force
  have "om_wf (filter (\<lambda>(q, r). record_visible s flt q r) (records s))"
    by (rule om_wf_filter [OF wf(2)])
  then show "sorted_wrt (<) (map fst (visible_records s flt))"
    unfolding visible_records_def keys_map_snd by (simp add: om_wf_def)
  show "\<forall>q\<in>fst ` set (visible_records s flt). 0 < q"
    using wf(4) by (force simp: visible_records_def)
qed


subsection \<open>The full list\<close>

lemma device_seq_identity:
  assumes "store_wf s" "(u, q) \<in> set (device_revocations_of s k)" "(q, r) \<in> set (records s)"
  shows "nr_identity r = k"
proof -
  from assms(2) obtain r' where "(q, r') \<in> set (records s)" "nr_identity r' = k"
    by (auto simp: device_revocations_of_def)
  moreover have "om_wf (records s)" using assms(1) by (simp add: store_wf_def seqs_below_def)
  ultimately show ?thesis using assms(3) om_get_in [of "records s" q] by (metis option.inject)
qed

lemma kept_seqs_of:
  assumes "store_wf s" "(q, r) \<in> set (records s)" "q \<in> set (kept_seqs s cap)"
  shows "q \<in> set (map snd (take cap (rev (sort (device_revocations_of s (nr_identity r))))))"
proof -
  from assms(3) obtain k u where k: "(u, q) \<in> set (take cap (rev (sort (device_revocations_of s k))))"
    by (auto simp: kept_seqs_def)
  then have "(u, q) \<in> set (device_revocations_of s k)"
    using set_take_subset [of cap "rev (sort (device_revocations_of s k))"] by auto
  then have "nr_identity r = k" by (rule device_seq_identity [OF assms(1) _ assms(2)])
  with k show ?thesis by force
qed

lemma kept_bound:
  assumes "store_wf s"
  shows "length (filter (\<lambda>(q, r). nr_kind r = KRevokeDevice \<and> nr_identity r = k
     \<and> record_visible s (AllRecords now cap) q r) (records s)) \<le> cap"
proof -
  let ?xs = "filter (\<lambda>(q, r). nr_kind r = KRevokeDevice \<and> nr_identity r = k
     \<and> record_visible s (AllRecords now cap) q r) (records s)"
  let ?ys = "map snd (take cap (rev (sort (device_revocations_of s k))))"
  have "om_wf ?xs" using assms by (intro om_wf_filter) (simp add: store_wf_def seqs_below_def)
  then have "length ?xs = card (set (map fst ?xs))"
    using distinct_card [of "map fst ?xs"] om_wf_distinct by fastforce
  also have "set (map fst ?xs) \<subseteq> set ?ys"
    using kept_seqs_of [OF assms] by (fastforce simp: record_visible_def Let_def)
  then have "card (set (map fst ?xs)) \<le> card (set ?ys)" by (simp add: card_mono)
  also have "\<dots> \<le> length ?ys" by (rule card_length)
  also have "\<dots> \<le> cap" by simp
  finally show ?thesis .
qed


subsection \<open>Properties\<close>

text \<open>Every write of the store keeps its invariant and only moves forward: the log and the record
  list grow at the end, a digest keeps its number, a commitment, a revocation and a rotation of an
  identity are never changed back, and a spent invite stays spent.  Stated of a publication with
  its effects, as long as the counters have room.\<close>

theorem publish_moves_forward:
  assumes "store_wf s" "room (length (pb_records p)) s"
    and "effects_ok (pb_effects p) (snd (publish_records (pb_records p) s))"
  shows "store_wf (snd (store_publish p s)) \<and> store_le s (snd (store_publish p s))"
  using assms by (rule store_publish_keeps)

definition sample_record :: new_record where
  "sample_record = \<lparr>nr_kind = KRotate, nr_identity = [1], nr_other = Some [2], nr_until = None,
     nr_digest = [3], nr_bytes = [4]\<rparr>"

theorem publish_moves_forward_witness:
  "store_wf (snd (store_publish \<lparr>pb_records = [sample_record], pb_effects = [EffRotate [1] [2] 9, DropPending [1]]\<rparr> empty_store))
   \<and> store_le empty_store
      (snd (store_publish \<lparr>pb_records = [sample_record], pb_effects = [EffRotate [1] [2] 9, DropPending [1]]\<rparr> empty_store))"
  by (rule publish_moves_forward [OF store_wf_empty])
    (simp_all add: room_def empty_store_def effect_ok_def sample_record_def)

text \<open>Publishing is idempotent.  Each record of a publication is answered with the number its digest
  is held under, and publishing the same records again answers the same numbers and changes
  nothing.\<close>

theorem publish_idempotent:
  assumes "store_wf s" "room (length rs) s"
  shows "let (qs, s') = publish_records rs s in
     list_all2 (\<lambda>r q. record_seq s' (nr_digest r) = Some q) rs qs \<and> publish_records rs s' = (qs, s')"
  using publish_records_seqs [OF assms] publish_held by (auto simp: record_seq_def split_beta Let_def)

theorem publish_idempotent_witness:
  "let (qs, s') = publish_records [sample_record, sample_record] empty_store in
     list_all2 (\<lambda>r q. record_seq s' (nr_digest r) = Some q) [sample_record, sample_record] qs
     \<and> publish_records [sample_record, sample_record] s' = (qs, s')"
  by (rule publish_idempotent [OF store_wf_empty]) (simp add: room_def empty_store_def)

text \<open>Pagination is complete.  A reader that starts at 0 and asks again from the last number of each
  page while \<open>more\<close> is set ends, and has been given the whole issuance log, in order, nothing
  twice, whatever the page budget: each page holds at least one entry.\<close>

theorem log_pages_complete:
  assumes "store_wf s" "length (log s) < fuel"
  shows "read_pages fuel (\<lambda>since. log_page s since budget) 0 = Some (map (\<lambda>(q, e). (q, le_bytes e)) (log s))"
  using read_pages_all [OF store_items(1) [OF assms(1)], of 0 fuel budget] assms(2)
    filter_from_one [OF store_items(2) [OF assms(1)]]
  by (simp add: log_page_items)

text \<open>A store with two entries in each list; a page budget of one byte puts each on its own page.\<close>

definition paged_store :: store where
  "paged_store = empty_store\<lparr>log := [(1, \<lparr>le_identity = [1], le_handle = ''a'', le_issued = 5, le_expires = 9, le_first = True,
       le_bytes = [7]\<rparr>), (2, \<lparr>le_identity = [2], le_handle = ''b'', le_issued = 6, le_expires = 9, le_first = True,
       le_bytes = [8]\<rparr>)],
     records := [(1, sample_record), (4, sample_record\<lparr>nr_digest := [5], nr_bytes := [6]\<rparr>)],
     digests := [([3], 1), ([5], 4)], next_log := 2, next_record := 4\<rparr>"

lemma paged_store_wf: "store_wf paged_store"
  by (auto simp: store_wf_def paged_store_def empty_store_def seqs_below_def om_wf_def sample_record_def
      split: if_splits)

theorem log_pages_complete_witness:
  "read_pages 3 (\<lambda>since. log_page paged_store since 1) 0 = Some [(1, [7]), (2, [8])]"
  using log_pages_complete [OF paged_store_wf, of 3 1] by (simp add: paged_store_def)

text \<open>the same for the record lists, both the per-identity one and the full one: following \<open>more\<close>
  gives every visible record exactly once and in order.\<close>

theorem record_pages_complete:
  assumes "store_wf s" "length (records s) < fuel"
  shows "read_pages fuel (\<lambda>since. records_page s flt since budget) 0 = Some (visible_records s flt)"
proof -
  have "length (visible_records s flt) < fuel"
    using assms(2) by (simp add: visible_records_def order.strict_trans1 [OF length_filter_le])
  then show ?thesis
    using read_pages_all [OF store_items(3) [OF assms(1)], of 0 flt fuel budget]
      filter_from_one [OF store_items(4) [OF assms(1), of flt]]
    by (simp add: records_page_items)
qed

theorem record_pages_complete_witness:
  "read_pages 3 (\<lambda>since. records_page paged_store (ByIdentity [1]) since 1) 0 = Some [(1, [4]), (4, [6])]"
  using record_pages_complete [OF paged_store_wf, of 3 "ByIdentity [1]" 1]
  by (simp add: paged_store_def visible_records_def record_visible_def sample_record_def)

text \<open>The full list carries at most \<open>device_cap\<close> device revocations of any one identity, while a
  rotation, an identity revocation or a freeze never leaves it.\<close>

theorem full_list_bounded:
  assumes "store_wf s"
  shows "length (filter (\<lambda>(q, r). nr_kind r = KRevokeDevice \<and> nr_identity r = k
       \<and> record_visible s (AllRecords now cap) q r) (records s)) \<le> cap
     \<and> (nr_kind r' \<in> {KRotate, KRevokeIdentity, KFreeze} \<longrightarrow> record_visible s (AllRecords now cap) q r')"
  using kept_bound [OF assms] by (auto simp: record_visible_def)

theorem full_list_bounded_witness:
  "length (filter (\<lambda>(q, r). nr_kind r = KRevokeDevice \<and> nr_identity r = [1]
       \<and> record_visible paged_store (AllRecords 5 1) q r) (records paged_store)) \<le> 1
     \<and> record_visible paged_store (AllRecords 5 1) 1 (sample_record\<lparr>nr_kind := KFreeze\<rparr>)"
  using full_list_bounded [OF paged_store_wf, of "[1]" 5 1 "sample_record\<lparr>nr_kind := KFreeze\<rparr>" 1] by simp

end
