(* ===== verification/Registrar_Limits.thy ===== *)
theory Registrar_Limits
  imports Ordered_Map "HOL-Library.Product_Lexorder"
begin

section \<open>The registrar's rate limits\<close>

text \<open>
  \<^verbatim>\<open>crates/hxd-registrar/src/lib.rs\<close>, the part that counts requests: addresses as they are counted,
  fixed windows per key, and the memory of registrations answered inside the skew window.  Both
  tables are bounded, since a caller who has proved nothing can grow them.

  A \<open>Limit\<close> is hashed by the code; here it is ordered, through an injection into pairs, so that
  the table is an ordered map like the others.
\<close>

datatype ip_addr = V4 bytes | V6 bytes

definition address_key :: "ip_addr \<Rightarrow> ip_addr" where
  "address_key addr = (case addr of
     V4 o4 \<Rightarrow> addr
   | V6 o6 \<Rightarrow> V6 (take 8 o6 @ replicate (length o6 - 8) 0))"

datatype limit = RegisterFrom ip_addr | RegisterAll | RecordsOf bytes | LookupFrom ip_addr

primrec limit_window :: "limit \<Rightarrow> u64" where
  "limit_window (LookupFrom a) = 60"
| "limit_window (RegisterFrom a) = 3600"
| "limit_window RegisterAll = 3600"
| "limit_window (RecordsOf k) = 3600"

definition limit_code :: "limit \<Rightarrow> nat \<times> bytes" where
  "limit_code l = (case l of
     RegisterFrom a \<Rightarrow> (case a of V4 b \<Rightarrow> (0, b) | V6 b \<Rightarrow> (1, b))
   | RegisterAll \<Rightarrow> (2, [])
   | RecordsOf k \<Rightarrow> (3, k)
   | LookupFrom a \<Rightarrow> (case a of V4 b \<Rightarrow> (4, b) | V6 b \<Rightarrow> (5, b)))"

lemma limit_code_inject: "limit_code a = limit_code b \<longleftrightarrow> a = b"
  by (auto simp: limit_code_def split: limit.splits ip_addr.splits)

instantiation limit :: linorder
begin

definition less_eq_limit :: "limit \<Rightarrow> limit \<Rightarrow> bool" where
  "a \<le> b \<longleftrightarrow> limit_code a \<le> limit_code b"

definition less_limit :: "limit \<Rightarrow> limit \<Rightarrow> bool" where
  "a < b \<longleftrightarrow> limit_code a < limit_code b"

instance
  by standard (auto simp: less_eq_limit_def less_limit_def less_le limit_code_inject)

end

text \<open>The answer to a registration; the limits keep it for replays.\<close>

record registered =
  rg_attestation :: bytes
  rg_handle :: string
  rg_registered :: u64
  rg_expires :: u64
  rg_reissued :: bool

record limits =
  windows :: "(limit, u64 \<times> u32) omap"
  seen :: "(bytes, u64 \<times> registered) omap"

definition MAX_WINDOWS :: nat where "MAX_WINDOWS = 16 * 1024"
definition MAX_SEEN :: nat where "MAX_SEEN = 16 * 1024"

definition limits_default :: limits where
  "limits_default = \<lparr>windows = [], seen = []\<rparr>"

text \<open>\<open>start + w\<close> is unchecked in the source: 64 bits, wrapping in a release build.\<close>

definition limits_check :: "limit \<Rightarrow> u32 \<Rightarrow> u64 \<Rightarrow> limits \<Rightarrow> (u64 + unit) \<times> limits" where
  "limits_check key cap now l =
     (let w = limit_window key in
      case (case map_of (windows l) key of
              Some (start, n) \<Rightarrow>
                if now < start + w \<and> cap \<le> n then Some (start + w - now) else None
            | None \<Rightarrow> None) of
        Some retry_after \<Rightarrow> (Inl retry_after, l)
      | None \<Rightarrow>
         if map_of (windows l) key = None \<and> MAX_WINDOWS \<le> length (windows l) then
           (let l' = l\<lparr>windows := om_retain (\<lambda>k v. now < fst v + limit_window k) (windows l)\<rparr> in
            if MAX_WINDOWS \<le> length (windows l') then (Inl w, l') else (Inr (), l'))
         else (Inr (), l))"

definition limits_charge :: "limit \<Rightarrow> u64 \<Rightarrow> limits \<Rightarrow> limits" where
  "limits_charge key now l =
     l\<lparr>windows := om_adjust key (\<lambda>(start, n).
          if start + limit_window key \<le> now then (now, 0 + 1) else (start, n + 1))
        (om_or_insert key (now, 0) (windows l))\<rparr>"

definition limits_take :: "limit \<Rightarrow> u32 \<Rightarrow> u64 \<Rightarrow> limits \<Rightarrow> (u64 + unit) \<times> limits" where
  "limits_take key cap now l =
     (case limits_check key cap now l of
        (Inl e, l') \<Rightarrow> (Inl e, l')
      | (Inr _, l') \<Rightarrow> (Inr (), limits_charge key now l'))"

definition limits_seen :: "limits \<Rightarrow> bytes \<Rightarrow> u64 \<Rightarrow> registered option" where
  "limits_seen l digest now = (case map_of (seen l) digest of
     Some (until, r) \<Rightarrow> if now < until then Some r else None
   | None \<Rightarrow> None)"

definition limits_remember :: "bytes \<Rightarrow> u64 \<Rightarrow> registered \<Rightarrow> u64 \<Rightarrow> limits \<Rightarrow> limits" where
  "limits_remember digest until reply now l =
     (if MAX_SEEN \<le> length (seen l) then
        (let l' = l\<lparr>seen := om_retain (\<lambda>_ v. now < fst v) (seen l)\<rparr> in
         if MAX_SEEN \<le> length (seen l') then l'
         else l'\<lparr>seen := om_put digest (until, reply) (seen l')\<rparr>)
      else l\<lparr>seen := om_put digest (until, reply) (seen l)\<rparr>)"


subsection \<open>Bounds\<close>

definition limits_wf :: "limits \<Rightarrow> bool" where
  "limits_wf l \<longleftrightarrow> om_wf (windows l) \<and> om_wf (seen l)
     \<and> length (windows l) \<le> MAX_WINDOWS \<and> length (seen l) \<le> MAX_SEEN"

lemma om_length_card: "om_wf m \<Longrightarrow> length m = card (fst ` set m)"
  using distinct_card [OF om_wf_distinct, of m] by simp

lemma length_om_put: "om_wf m \<Longrightarrow> length (om_put k v m) = (if map_of m k = None then Suc (length m) else length m)"
proof -
  assume wf: "om_wf m"
  have "fst ` set (om_put k v m) = insert k (fst ` set m)"
    using set_om_put [OF wf, of k v] by auto
  then have "length (om_put k v m) = card (insert k (fst ` set m))"
    using om_length_card [OF om.wf_put [OF wf], of k v] by simp
  then show ?thesis by (simp add: om_length_card [OF wf] card_insert_if map_of_eq_None_iff)
qed

lemma length_om_adjust [simp]: "length (om_adjust k f m) = length m"
  by (simp add: om_adjust_def)

lemma length_om_retain: "length (om_retain P m) \<le> length m"
  by (simp add: om_retain_def)

lemma limits_check_keeps:
  assumes "limits_wf l"
  shows "limits_wf (snd (limits_check key cap now l))"
    "fst (limits_check key cap now l) = Inr () \<Longrightarrow>
       map_of (windows (snd (limits_check key cap now l))) key = None \<Longrightarrow>
       length (windows (snd (limits_check key cap now l))) < MAX_WINDOWS"
  using assms length_om_retain [of "\<lambda>k v. now < fst v + limit_window k" "windows l"]
  by (auto simp: limits_check_def Let_def limits_wf_def om_wf_retain split: option.splits if_splits)

lemma limits_charge_keeps:
  assumes "limits_wf l" "map_of (windows l) key = None \<Longrightarrow> length (windows l) < MAX_WINDOWS"
  shows "limits_wf (limits_charge key now l)"
  using assms
  by (auto simp: limits_charge_def limits_wf_def om_wf_or_insert om_or_insert_def length_om_put om_simps
      split: option.split)

lemma limits_take_keeps: "limits_wf l \<Longrightarrow> limits_wf (snd (limits_take key cap now l))"
  using limits_check_keeps [of l key cap now] limits_charge_keeps [of "snd (limits_check key cap now l)" key now]
  by (auto simp: limits_take_def split: prod.splits sum.splits)

lemma limits_remember_keeps:
  "limits_wf l \<Longrightarrow> limits_wf (limits_remember d u r now l)"
  using length_om_retain [of "\<lambda>_ v. now < fst v" "seen l"]
  by (auto simp: limits_remember_def limits_wf_def Let_def length_om_put om_simps om_wf_retain)


subsection \<open>Counting\<close>

text \<open>A sequence of requests on one table, each a key, its ceiling and a time.\<close>

fun run_takes :: "(limit \<times> u32 \<times> u64) list \<Rightarrow> limits \<Rightarrow> (u64 + unit) list \<times> limits" where
  "run_takes [] l = ([], l)"
| "run_takes ((key, cap, now) # es) l =
     (let (r, l') = limits_take key cap now l; (rs, l'') = run_takes es l' in (r # rs, l''))"

fun accepted :: "limit \<Rightarrow> (limit \<times> u32 \<times> u64) list \<Rightarrow> (u64 + unit) list \<Rightarrow> nat" where
  "accepted k ((key, _, _) # es) (r # rs) = (if key = k \<and> r = Inr () then 1 else 0) + accepted k es rs"
| "accepted k _ _ = 0"

definition in_window :: "limit \<Rightarrow> u64 \<Rightarrow> u64 \<Rightarrow> bool" where
  "in_window k start now \<longleftrightarrow> now < start + limit_window k"

lemma check_keeps_window:
  assumes "om_wf (windows l)" "map_of (windows l) k = Some (start, c)" "in_window k start now"
  shows "map_of (windows (snd (limits_check key cap now l))) k = Some (start, c)"
  using assms
  by (auto simp: limits_check_def Let_def om_get_retain in_window_def split: option.splits)

lemma check_refuses:
  assumes "map_of (windows l) k = Some (start, c)" "in_window k start now" "cap \<le> c"
  shows "fst (limits_check k cap now l) = Inl (start + limit_window k - now)"
  using assms by (simp add: limits_check_def Let_def in_window_def)

lemma charge_window:
  assumes "om_wf (windows l)" "map_of (windows l) k = Some (start, c)" "in_window k start now"
  shows "map_of (windows (limits_charge key now l)) k = Some (start, if key = k then c + 1 else c)"
  using assms
  by (auto simp: limits_charge_def om_simps om_get_or_insert in_window_def not_le [symmetric])

lemma take_window:
  assumes "limits_wf l" "map_of (windows l) k = Some (start, c)" "in_window k start now"
    and "key = k \<longrightarrow> cap \<le> m" "c \<le> m"
  obtains c' where "map_of (windows (snd (limits_take key cap now l))) k = Some (start, c')" "c' \<le> m"
    "unat c' = unat c + (if key = k \<and> fst (limits_take key cap now l) = Inr () then 1 else 0)"
proof -
  have wf: "om_wf (windows l)" using assms(1) by (simp add: limits_wf_def)
  let ?l1 = "snd (limits_check key cap now l)"
  have l1: "om_wf (windows ?l1)" "map_of (windows ?l1) k = Some (start, c)"
    using limits_check_keeps(1) [OF assms(1)] check_keeps_window [OF wf assms(2,3)]
    by (simp_all add: limits_wf_def)
  note charged = charge_window [OF l1 assms(3), of key]
  show thesis
  proof (cases "fst (limits_check key cap now l)")
    case (Inl e)
    with l1(2) assms(5) that show ?thesis by (simp add: limits_take_def split_beta)
  next
    case (Inr u)
    then have take: "limits_take key cap now l = (Inr (), limits_charge key now ?l1)"
      by (simp add: limits_take_def split_beta)
    show ?thesis
    proof (cases "key = k")
      case False
      with take charged assms(5) that show ?thesis by simp
    next
      case True
      then have "c < cap" using Inr check_refuses [OF assms(2,3), of cap] by (force simp: not_le [symmetric])
      then have "c < m" using assms(4) True by simp
      then have "unat (c + 1) = unat c + 1" "c + 1 \<le> m"
        using unat_lt_two_power [of m]
        by (simp_all add: unat_word_ariths word_less_nat_alt word_le_nat_alt)
      with take charged True that [of "c + 1"] show ?thesis by simp
    qed
  qed
qed

lemma opens_window:
  assumes "limits_wf l" "\<forall>s n. map_of (windows l) k = Some (s, n) \<longrightarrow> \<not> in_window k s start"
    and "limits_check k m start l = (Inr (), l1)" "0 < limit_window k \<and> start < start + limit_window k"
  shows "map_of (windows (limits_charge k start l1)) k = Some (start, 1)"
proof (cases "map_of (windows l) k")
  case None
  have "limits_wf l1" using limits_check_keeps(1) [OF assms(1), of k m start] assms(3) by simp
  moreover have "map_of (windows l1) k = None"
    using assms(1,3) None
    by (auto simp: limits_check_def Let_def limits_wf_def om_get_retain split: option.splits if_splits)
  ultimately show ?thesis
    using assms(4) by (auto simp: limits_charge_def limits_wf_def om_simps om_get_or_insert not_le)
next
  case (Some w)
  obtain s n where w: "w = (s, n)" by (cases w)
  then have over: "s + limit_window k \<le> start" using assms(2) Some by (simp add: in_window_def not_less)
  have "l1 = l" using assms(3) Some by (auto simp: limits_check_def Let_def w split: if_splits)
  then show ?thesis
    using assms(1) Some over by (auto simp: limits_charge_def limits_wf_def om_simps om_get_or_insert w)
qed

lemma accepted_bound:
  assumes "limits_wf l" "map_of (windows l) k = Some (start, c)" "c \<le> m"
    and "\<forall>(key, cap, now)\<in>set es. in_window k start now \<and> (key = k \<longrightarrow> cap \<le> m)"
  shows "unat c + accepted k es (fst (run_takes es l)) \<le> unat m"
  using assms
proof (induction es arbitrary: l c)
  case Nil
  then show ?case by (simp add: word_le_nat_alt)
next
  case (Cons e es)
  obtain key cap now where e: "e = (key, cap, now)" by (cases e)
  have now: "in_window k start now" "key = k \<longrightarrow> cap \<le> m" using Cons.prems(4) by (auto simp: e)
  obtain c' where c': "map_of (windows (snd (limits_take key cap now l))) k = Some (start, c')" "c' \<le> m"
    "unat c' = unat c + (if key = k \<and> fst (limits_take key cap now l) = Inr () then 1 else 0)"
    by (rule take_window [OF Cons.prems(1,2) now Cons.prems(3)])
  have "unat c' + accepted k es (fst (run_takes es (snd (limits_take key cap now l)))) \<le> unat m"
    using Cons.IH [OF limits_take_keeps [OF Cons.prems(1)] c'(1,2)] Cons.prems(4) by auto
  with c'(3) show ?case by (simp add: e split_beta Let_def)
qed

lemma run_takes_keeps: "limits_wf l \<Longrightarrow> limits_wf (snd (run_takes es l))"
proof (induction es arbitrary: l)
  case (Cons e es)
  obtain key cap now where e: "e = (key, cap, now)" by (cases e)
  have "limits_wf (snd (limits_take key cap now l))" by (rule limits_take_keeps [OF Cons.prems])
  from Cons.IH [OF this] show ?case by (simp add: e split_beta Let_def)
qed simp

lemma limits_default_wf: "limits_wf limits_default"
  by (simp add: limits_wf_def limits_default_def)


subsection \<open>Properties\<close>

text \<open>C37: no more than its ceiling in a window.  A window opens when a request is accepted under a key that has none
  running: its first, or the first after its last window ended.  From that request on, however requests under it and under
  any other keys interleave while the window lasts, the requests accepted under it number at most the ceiling: neither what
  the last window counted, nor a full table, nor the pruning of expired windows lets one through uncounted.\<close>

theorem rate_window_bound:
  assumes "limits_wf l" "\<forall>s n. map_of (windows l) k = Some (s, n) \<longrightarrow> \<not> in_window k s start"
    and "limits_check k m start l = (Inr (), l1)" "0 < m"
    and "0 < limit_window k \<and> start < start + limit_window k"
    and "\<forall>(key, cap, now)\<in>set es. in_window k start now \<and> (key = k \<longrightarrow> cap \<le> m)"
  shows "accepted k ((k, m, start) # es) (fst (run_takes ((k, m, start) # es) l)) \<le> unat m"
proof -
  let ?l2 = "limits_charge k start l1"
  have wf1: "limits_wf l1" using limits_check_keeps(1) [OF assms(1), of k m start] assms(3) by simp
  have wf2: "limits_wf ?l2"
    using limits_check_keeps(2) [OF assms(1), of k m start] assms(3)
    by (intro limits_charge_keeps [OF wf1]) simp
  have "map_of (windows ?l2) k = Some (start, 1)"
    by (rule opens_window [OF assms(1-3,5)])
  moreover have "1 \<le> m" using assms(4) by (simp add: word_le_nat_alt word_less_nat_alt)
  ultimately have "unat (1 :: u32) + accepted k es (fst (run_takes es ?l2)) \<le> unat m"
    by (rule accepted_bound [OF wf2 _ _ assms(6)])
  then show ?thesis using assms(3) by (simp add: limits_take_def split_beta Let_def)
qed

text \<open>The window of a lookup has ended with two requests counted; the next opens another.\<close>

theorem rate_window_bound_witness:
  "accepted (LookupFrom (V4 [1, 2, 3, 4])) ((LookupFrom (V4 [1, 2, 3, 4]), 2, 100) # [(LookupFrom (V4 [1, 2, 3, 4]), 2, 101), (RegisterAll, 60, 102), (LookupFrom (V4 [1, 2, 3, 4]), 2, 103)])
     (fst (run_takes ((LookupFrom (V4 [1, 2, 3, 4]), 2, 100) # [(LookupFrom (V4 [1, 2, 3, 4]), 2, 101), (RegisterAll, 60, 102), (LookupFrom (V4 [1, 2, 3, 4]), 2, 103)])
        \<lparr>windows = [(LookupFrom (V4 [1, 2, 3, 4]), (30, 2))], seen = []\<rparr>)) \<le> unat (2 :: u32)"
  by (rule rate_window_bound [where ?l1.0 = "\<lparr>windows = [(LookupFrom (V4 [1, 2, 3, 4]), (30, 2))], seen = []\<rparr>"])
    (simp_all add: limits_wf_def om_wf_def limits_check_def MAX_WINDOWS_def MAX_SEEN_def in_window_def)

text \<open>Both tables an unauthenticated caller can grow stay within their ceilings of 16384 entries,
  whatever sequence of requests is made and whatever replies are remembered.\<close>

theorem limit_tables_bounded:
  "length (windows (snd (run_takes es limits_default))) \<le> MAX_WINDOWS
   \<and> length (seen (limits_remember d u r now (snd (run_takes es limits_default)))) \<le> MAX_SEEN"
  using run_takes_keeps [OF limits_default_wf, of es]
    limits_remember_keeps [OF run_takes_keeps [OF limits_default_wf], of d u r now es]
  by (simp add: limits_wf_def)

end
