(* ===== verification/Registrar.thy ===== *)
theory Registrar
  imports Registrar_Store Registrar_Limits
begin

section \<open>The registrar\<close>

text \<open>
  \<^verbatim>\<open>crates/hxd-registrar/src/lib.rs\<close>: every operation of \<open>Registrar\<close>.  The state is the record
  \<open>registrar\<close>: the configuration and the key, the reserved names, the store, the limits and the
  cached stats.  An operation takes the state last and returns its answer with the new state; a
  refusal keeps what was written before it, as the code commits a refusal like a success.  The
  write lock makes each operation one step, so a run of the registrar is a sequence of them.

  The sentence of a \<open>bad_request\<close> is a function of the datatype \<open>bad_request\<close>.  Log lines are not
  modelled.  The random bytes of a new invite code are an argument.
\<close>

definition DAY :: u64 where "DAY = 86400"

datatype signup = Open | Invite | Closed

record rates =
  registrations_per_address :: u32
  registrations_total :: u32
  records_per_identity :: u32
  lookups_per_address :: u32
  device_revocations_kept :: nat

definition default_rates :: rates where
  "default_rates = \<lparr>registrations_per_address = 5, registrations_total = 120, records_per_identity = 20,
     lookups_per_address = 60, device_revocations_kept = 256\<rparr>"

record config =
  cfg_host :: string
  cfg_signup :: signup
  cfg_proof_url :: "string option"
  cfg_level :: u64
  cfg_attestation_days :: u64
  cfg_hold_days :: u64
  cfg_handle_min :: nat
  cfg_handle_max :: nat
  cfg_reserved :: "string list"
  cfg_rotation_delay :: u64
  cfg_records_max_age :: u64
  cfg_retiring :: "(bytes \<times> u64) list"
  cfg_clock_skew :: u64
  cfg_rates :: rates

definition BUILT_IN_RESERVED :: "string list" where
  "BUILT_IN_RESERVED = [''guest'', ''admin'', ''administrator'', ''root'', ''system'', ''server'',
     ''registrar'', ''postmaster'', ''abuse'']"

definition new_config :: "string \<Rightarrow> config" where
  "new_config host = \<lparr>cfg_host = host, cfg_signup = Invite, cfg_proof_url = None, cfg_level = 2,
     cfg_attestation_days = 365, cfg_hold_days = 365, cfg_handle_min = 3, cfg_handle_max = 32,
     cfg_reserved = BUILT_IN_RESERVED, cfg_rotation_delay = 0, cfg_records_max_age = 3600,
     cfg_retiring = [], cfg_clock_skew = 300, cfg_rates = default_rates\<rparr>"

datatype bad_request =
    Malformed id_error
  | WrongRegistrar string string
  | RegistrarSignedRecord
  | RotationPending
  | SuccessorUnusable

datatype refusal =
    BadRequest bad_request
  | RefBadSignature
  | BadTime
  | HandleInvalid
  | HandleReserved
  | HandleTaken
  | HandleHeld
  | ProofRequired "string option"
  | ProofInvalid
  | SignupClosed
  | Frozen
  | Revoked "key option"
  | SuccessorMismatch
  | NotRegistered
  | NotFound
  | RefTooLarge
  | RateLimited u64

primrec refusal_code :: "refusal \<Rightarrow> string" where
  "refusal_code (BadRequest w) = ''bad_request''"
| "refusal_code RefBadSignature = ''bad_signature''"
| "refusal_code BadTime = ''bad_time''"
| "refusal_code HandleInvalid = ''handle_invalid''"
| "refusal_code HandleReserved = ''handle_reserved''"
| "refusal_code HandleTaken = ''handle_taken''"
| "refusal_code HandleHeld = ''handle_held''"
| "refusal_code (ProofRequired u) = ''proof_required''"
| "refusal_code ProofInvalid = ''proof_invalid''"
| "refusal_code SignupClosed = ''signup_closed''"
| "refusal_code Frozen = ''frozen''"
| "refusal_code (Revoked s) = ''revoked''"
| "refusal_code SuccessorMismatch = ''successor_mismatch''"
| "refusal_code NotRegistered = ''not_registered''"
| "refusal_code NotFound = ''not_found''"
| "refusal_code RefTooLarge = ''too_large''"
| "refusal_code (RateLimited n) = ''rate_limited''"

primrec refusal_status :: "refusal \<Rightarrow> u16" where
  "refusal_status (BadRequest w) = 400"
| "refusal_status RefBadSignature = 401"
| "refusal_status BadTime = 401"
| "refusal_status HandleInvalid = 409"
| "refusal_status HandleReserved = 409"
| "refusal_status HandleTaken = 409"
| "refusal_status HandleHeld = 409"
| "refusal_status SuccessorMismatch = 409"
| "refusal_status (ProofRequired u) = 403"
| "refusal_status ProofInvalid = 403"
| "refusal_status SignupClosed = 403"
| "refusal_status Frozen = 403"
| "refusal_status (Revoked s) = 403"
| "refusal_status NotRegistered = 404"
| "refusal_status NotFound = 404"
| "refusal_status RefTooLarge = 413"
| "refusal_status (RateLimited n) = 429"

definition parse_refusal :: "id_error \<Rightarrow> refusal" where
  "parse_refusal e = (case e of
     BadSignature \<Rightarrow> RefBadSignature
   | InvalidKey \<Rightarrow> RefBadSignature
   | TooLarge \<Rightarrow> RefTooLarge
   | other \<Rightarrow> BadRequest (Malformed other))"

datatype posted = Published u64 | PendingUntil u64

record found =
  fd_identity :: key
  fd_registered :: u64
  fd_expires :: u64

definition digest :: "crypto \<Rightarrow> bytes \<Rightarrow> bytes" where
  "digest C bs = sha256 C bs"


subsection \<open>Invite codes\<close>

text \<open>A scalar value's UTF-8 bytes, as \<open>collect::<String>\<close> writes them.\<close>

definition utf8_put :: "nat \<Rightarrow> bytes" where
  "utf8_put c = map word_of_nat
     (if c < 0x80 then [c]
      else if c < 0x800 then [192 + c div 64, 128 + c mod 64]
      else if c < 0x10000 then [224 + c div 4096, 128 + c div 64 mod 64, 128 + c mod 64]
      else [240 + c div 262144, 128 + c div 4096 mod 64, 128 + c div 64 mod 64, 128 + c mod 64])"

definition scalar_upper :: "nat \<Rightarrow> nat" where
  "scalar_upper c = (if 0x61 \<le> c \<and> c \<le> 0x7a then c - 32 else c)"

definition invite_norm :: "string \<Rightarrow> nat list" where
  "invite_norm code = map scalar_upper (filter (\<lambda>c. \<not> char_is_whitespace c \<and> c \<noteq> 0x2d) (str_chars code))"

definition invite_hash :: "crypto \<Rightarrow> string \<Rightarrow> bytes" where
  "invite_hash C code = digest C (concat (map utf8_put (invite_norm code)))"

definition INVITE_ALPHABET :: string where
  "INVITE_ALPHABET = ''0123456789ABCDEFGHJKMNPQRSTVWXYZ''"

fun join_groups :: "char list \<Rightarrow> string" where
  "join_groups (a # b # c # d # e # rest) = a # b # c # d # CHR ''-'' # join_groups (e # rest)"
| "join_groups cs = cs"

definition new_invite_code :: "bytes \<Rightarrow> string" where
  "new_invite_code raw = join_groups (map (\<lambda>b. INVITE_ALPHABET ! unat (and b 31)) raw)"


subsection \<open>State and helpers\<close>

record registrar =
  r_cfg :: config
  r_reserved :: "string list"
  r_key :: bytes
  r_store :: store
  r_limits :: limits
  r_stats :: "(u64 \<times> bytes) option"

definition new_registrar :: "config \<Rightarrow> bytes \<Rightarrow> store \<Rightarrow> registrar" where
  "new_registrar cfg key s = \<lparr>r_cfg = cfg, r_reserved = cfg_reserved cfg, r_key = key, r_store = s,
     r_limits = limits_default, r_stats = None\<rparr>"

definition set_reserved :: "string list \<Rightarrow> registrar \<Rightarrow> registrar" where
  "set_reserved names R = R\<lparr>r_reserved := names\<rparr>"

definition hold :: "registrar \<Rightarrow> u64" where
  "hold R = sat_mul (cfg_hold_days (r_cfg R)) DAY"

definition registrar_public_keys :: "crypto \<Rightarrow> registrar \<Rightarrow> bytes list" where
  "registrar_public_keys C R = ed_public C (r_key R) # map fst (cfg_retiring (r_cfg R))"

definition own_keys :: "crypto \<Rightarrow> registrar \<Rightarrow> registrar_keys" where
  "own_keys C R = \<lparr>rk_host = cfg_host (r_cfg R), rk_keys = registrar_public_keys C R\<rparr>"

definition check_time :: "registrar \<Rightarrow> u64 \<Rightarrow> u64 \<Rightarrow> refusal + unit" where
  "check_time R time now =
     (if cfg_clock_skew (r_cfg R) < abs_diff time now then Inl BadTime else Inr ())"

definition usable :: "identity_row \<Rightarrow> refusal + unit" where
  "usable row =
     (case id_rotated_to row of
        Some successor \<Rightarrow> Inl (Revoked (Some successor))
      | None \<Rightarrow>
         if id_revoked row then Inl (Revoked None)
         else if id_frozen row then Inl Frozen
         else Inr ())"

definition limit_check :: "limit \<Rightarrow> u32 \<Rightarrow> u64 \<Rightarrow> registrar \<Rightarrow> (refusal + unit) \<times> registrar" where
  "limit_check key cap now R =
     (let (r, l) = limits_check key cap now (r_limits R)
      in (map_err RateLimited r, R\<lparr>r_limits := l\<rparr>))"

definition charge :: "limit \<Rightarrow> u64 \<Rightarrow> registrar \<Rightarrow> registrar" where
  "charge key now R = R\<lparr>r_limits := limits_charge key now (r_limits R)\<rparr>"

definition USIZE_MAX :: nat where "USIZE_MAX = 2 ^ 64 - 1"

definition all_records_of :: "registrar \<Rightarrow> key \<Rightarrow> (u64 \<times> bytes) list" where
  "all_records_of R identity = pg_entries (records_page (r_store R) (ByIdentity identity) 0 USIZE_MAX)"

definition revocation_time :: "crypto \<Rightarrow> registrar \<Rightarrow> key \<Rightarrow> string \<Rightarrow> bytes \<Rightarrow> u64 option" where
  "revocation_time C R identity handle bs =
     (case record_parse C bs (Some (own_keys C R)) of
        Inr (RevokeAttestation r) \<Rightarrow>
          if ar_identity r = identity \<and> ar_handle r = handle then Some (ar_time r) else None
      | _ \<Rightarrow> None)"

definition revoked_through :: "crypto \<Rightarrow> registrar \<Rightarrow> key \<Rightarrow> string \<Rightarrow> u64 option" where
  "revoked_through C R identity handle =
     max_opt (List.map_filter (\<lambda>(_, bs). revocation_time C R identity handle bs) (all_records_of R identity))"

definition publish :: "publish_w \<Rightarrow> registrar \<Rightarrow> u64 list \<times> registrar" where
  "publish p R = (let (seqs, s) = store_publish p (r_store R) in (seqs, R\<lparr>r_store := s\<rparr>))"


subsection \<open>Rotations\<close>

definition rotation_allowed :: "crypto \<Rightarrow> registrar \<Rightarrow> identity_row \<Rightarrow> key \<Rightarrow> refusal + unit" where
  "rotation_allowed C R row successor =
     (if (case id_commitment row of Some c \<Rightarrow> c \<noteq> fingerprint_of C successor | None \<Rightarrow> False)
      then Inl SuccessorMismatch
      else case store_identity (r_store R) successor of
             Some succ \<Rightarrow>
               if id_revoked succ \<or> id_rotated_to succ \<noteq> None then Inl (BadRequest SuccessorUnusable)
               else Inr ()
           | None \<Rightarrow> Inr ())"

definition attestation_revocation ::
    "crypto \<Rightarrow> registrar \<Rightarrow> key \<Rightarrow> string \<Rightarrow> u64 \<Rightarrow> u64 \<Rightarrow> new_record" where
  "attestation_revocation C R identity handle reason now =
     (let time = (case revoked_through C R identity handle of
                    Some t \<Rightarrow> if now \<le> t then sat_add t 1 else now
                  | None \<Rightarrow> now);
          bs = attestation_revocation_sign C (r_key R)
                 \<lparr>ar_identity = identity, ar_registrar = cfg_host (r_cfg R), ar_handle = handle,
                  ar_time = time, ar_reason = Some reason\<rparr>;
          until = (case attestations_expire (r_store R) identity handle time of Some u \<Rightarrow> u | None \<Rightarrow> time)
      in \<lparr>nr_kind = KRevokeAttestation, nr_identity = identity, nr_other = None, nr_until = Some until,
          nr_digest = digest C bs, nr_bytes = bs\<rparr>)"

definition publish_rotation ::
    "crypto \<Rightarrow> key \<Rightarrow> key \<Rightarrow> bytes \<Rightarrow> bytes \<Rightarrow> u64 \<Rightarrow> registrar \<Rightarrow> u64 \<times> registrar" where
  "publish_rotation C from to d bs now R =
     (let records = \<lparr>nr_kind = KRotate, nr_identity = from, nr_other = Some to, nr_until = None,
                     nr_digest = d, nr_bytes = bs\<rparr>
            # map (\<lambda>h. attestation_revocation C R from (hr_name h) attestation_reason_ROTATED now)
                (handles_of (r_store R) from);
          (seqs, R') = publish \<lparr>pb_records = records, pb_effects = [EffRotate from to now, DropPending from]\<rparr> R
      in (hd seqs, R'))"

definition accept_rotation ::
    "crypto \<Rightarrow> identity_row \<Rightarrow> rotation \<Rightarrow> bytes \<Rightarrow> bytes \<Rightarrow> u64 \<Rightarrow> registrar \<Rightarrow> (refusal + posted) \<times> registrar" where
  "accept_rotation C row r d bs now R =
     (if store_pending (r_store R) (ro_identity r) \<noteq> None then (Inl (BadRequest RotationPending), R)
      else case rotation_allowed C R row (ro_successor r) of
        Inl e \<Rightarrow> (Inl e, R)
      | Inr _ \<Rightarrow>
         if 0 < cfg_rotation_delay (r_cfg R) then
           (let until = sat_add now (cfg_rotation_delay (r_cfg R));
                (_, R') = publish \<lparr>pb_records = [], pb_effects = [SetPending
                   \<lparr>pd_identity = ro_identity r, pd_successor = ro_successor r, pd_publish_at = until,
                    pd_digest = d, pd_bytes = bs\<rparr>]\<rparr> R
            in (Inr (PendingUntil until), R'))
         else
           (let (seq, R') = publish_rotation C (ro_identity r) (ro_successor r) d bs now R
            in (Inr (Published seq), R')))"

definition due_refused :: "crypto \<Rightarrow> registrar \<Rightarrow> pending \<Rightarrow> refusal option" where
  "due_refused C R p =
     (case store_identity (r_store R) (pd_identity p) of
        None \<Rightarrow> Some NotRegistered
      | Some row \<Rightarrow>
         (case usable row of
            Inl r \<Rightarrow> Some r
          | Inr _ \<Rightarrow>
             (case rotation_allowed C R row (pd_successor p) of Inl r \<Rightarrow> Some r | Inr _ \<Rightarrow> None)))"

definition publish_one_due :: "crypto \<Rightarrow> u64 \<Rightarrow> pending \<Rightarrow> registrar \<Rightarrow> registrar" where
  "publish_one_due C now p R =
     (case due_refused C R p of
        Some why \<Rightarrow> snd (publish \<lparr>pb_records = [], pb_effects = [DropPending (pd_identity p)]\<rparr> R)
      | None \<Rightarrow> snd (publish_rotation C (pd_identity p) (pd_successor p) (pd_digest p) (pd_bytes p) now R))"

definition publish_due :: "crypto \<Rightarrow> u64 \<Rightarrow> registrar \<Rightarrow> registrar" where
  "publish_due C now R = fold (publish_one_due C now) (pending_due (r_store R) now) R"


subsection \<open>Registration\<close>

definition register_standing :: "registrar \<Rightarrow> register_request \<Rightarrow> refusal + unit" where
  "register_standing R req =
     (case store_identity (r_store R) (rr_identity req) of
        None \<Rightarrow> Inr ()
      | Some row \<Rightarrow>
         bindR (usable row) (\<lambda>_.
           if id_commitment row \<noteq> None \<and> rr_successor req \<noteq> id_commitment row
           then Inl SuccessorMismatch else Inr ()))"

text \<open>Whether the identity may have the handle, and as what: since when it counts as registered,
  whether it is a first registration, and the recovery grant it redeems.\<close>

definition register_claim ::
    "bytes \<Rightarrow> key \<Rightarrow> recovery option \<Rightarrow> handle_row option \<Rightarrow> u64 \<Rightarrow> u64
     \<Rightarrow> refusal + u64 \<times> bool \<times> string option" where
  "register_claim fp identity grant existing now hold_secs =
     (case grant of
        Some g \<Rightarrow>
          if rc_fingerprint g = fp
          then Inr (case existing of
                      Some h \<Rightarrow> if rc_keep_age g then hr_registered h else now
                    | None \<Rightarrow> now,
                    False, Some (rc_handle g))
          else Inl HandleHeld
      | None \<Rightarrow>
         (case existing of
            Some h \<Rightarrow>
              if hr_identity h = identity then
                (case handle_state_at h now hold_secs of
                   Released \<Rightarrow> Inr (now, True, None)
                 | _ \<Rightarrow> if hr_barred h then Inl HandleHeld else Inr (hr_registered h, False, None))
              else
                (case handle_state_at h now hold_secs of
                   Held \<Rightarrow> Inl HandleTaken
                 | Lapsed \<Rightarrow> Inl HandleHeld
                 | Released \<Rightarrow> Inr (now, True, None))
          | None \<Rightarrow> Inr (now, True, None)))"

text \<open>What a first registration needs besides: a name that is not reserved, the proof the signup policy
  asks for, and room under both ceilings.\<close>

definition register_proof :: "crypto \<Rightarrow> registrar \<Rightarrow> register_request \<Rightarrow> refusal + bytes option" where
  "register_proof C R req =
     (if rr_handle req \<in> set (r_reserved R) then Inl HandleReserved
      else case cfg_signup (r_cfg R) of
        Closed \<Rightarrow> Inl SignupClosed
      | Open \<Rightarrow> Inr None
      | Invite \<Rightarrow>
         (case rr_proof req of
            None \<Rightarrow> Inl (ProofRequired (cfg_proof_url (r_cfg R)))
          | Some code \<Rightarrow>
             (let hash = invite_hash C code in
              if \<not> invite_open (r_store R) hash then Inl ProofInvalid else Inr (Some hash))))"

definition register_gate ::
    "crypto \<Rightarrow> register_request \<Rightarrow> ip_addr \<Rightarrow> u64 \<Rightarrow> registrar \<Rightarrow> (refusal + bytes option) \<times> registrar" where
  "register_gate C req addr now R =
     (case register_proof C R req of
        Inl e \<Rightarrow> (Inl e, R)
      | Inr invite \<Rightarrow>
         (case limit_check (RegisterFrom (address_key addr))
                 (registrations_per_address (cfg_rates (r_cfg R))) now R of
            (Inl e, R) \<Rightarrow> (Inl e, R)
          | (Inr _, R) \<Rightarrow>
             (case limit_check RegisterAll (registrations_total (cfg_rates (r_cfg R))) now R of
                (Inl e, R) \<Rightarrow> (Inl e, R)
              | (Inr _, R) \<Rightarrow> (Inr invite, R))))"

definition issue_time :: "crypto \<Rightarrow> registrar \<Rightarrow> register_request \<Rightarrow> u64 \<Rightarrow> u64" where
  "issue_time C R req now =
     (case store_identity (r_store R) (rr_identity req) of
        Some _ \<Rightarrow>
          (case revoked_through C R (rr_identity req) (rr_handle req) of
             Some t \<Rightarrow> if now \<le> t then sat_add t 1 else now
           | None \<Rightarrow> now)
      | None \<Rightarrow> now)"

definition issue_attestation :: "crypto \<Rightarrow> registrar \<Rightarrow> register_request \<Rightarrow> u64 \<Rightarrow> u64 \<Rightarrow> attestation" where
  "issue_attestation C R req registered issued =
     \<lparr>at_identity = rr_identity req, at_registrar = cfg_host (r_cfg R),
      at_registrar_key = ed_public C (r_key R), at_handle = rr_handle req, at_registered = registered,
      at_issued = issued,
      at_expires = sat_add issued (sat_mul (cfg_attestation_days (r_cfg R)) DAY),
      at_level = Some (cfg_level (r_cfg R))\<rparr>"

definition issue_of ::
    "crypto \<Rightarrow> registrar \<Rightarrow> register_request \<Rightarrow> u64 \<Rightarrow> bool \<Rightarrow> string option \<Rightarrow> bytes option \<Rightarrow> u64 \<Rightarrow> issue_w" where
  "issue_of C R req registered first recovery invite issued =
     (let a = issue_attestation C R req registered issued in
      \<lparr>is_identity = rr_identity req, is_commitment = rr_successor req,
       is_handle = \<lparr>hr_name = rr_handle req, hr_identity = rr_identity req,
         hr_registered = registered, hr_expires = at_expires a, hr_lapsed_at = None, hr_barred = False\<rparr>,
       is_first = first, is_issued = issued, is_attestation = attestation_seal C (r_key R) a,
       is_invite = invite, is_recovery = recovery\<rparr>)"

definition reply_of :: "registrar \<Rightarrow> issue_w \<Rightarrow> registered" where
  "reply_of R w = \<lparr>rg_attestation = is_attestation w,
     rg_handle = hr_name (is_handle w) @ ''@'' @ cfg_host (r_cfg R),
     rg_registered = hr_registered (is_handle w), rg_expires = hr_expires (is_handle w),
     rg_reissued = (\<not> is_first w)\<rparr>"

definition register_issue ::
    "crypto \<Rightarrow> register_request \<Rightarrow> ip_addr \<Rightarrow> u64 \<Rightarrow> u64 \<Rightarrow> bool \<Rightarrow> string option \<Rightarrow> bytes option
     \<Rightarrow> registrar \<Rightarrow> (refusal + registered) \<times> registrar" where
  "register_issue C req addr now registered first recovery invite R =
     (let issued = issue_time C R req now;
          skew = cfg_clock_skew (r_cfg R)
      in if sat_add now skew < issued then (Inl (RateLimited (issued - now - skew)), R)
      else
        let w = issue_of C R req registered first recovery invite issued
        in case store_issue w (r_store R) of
             (InviteSpent, s) \<Rightarrow> (Inl ProofInvalid, R\<lparr>r_store := s\<rparr>)
           | (Logged _, s) \<Rightarrow>
              (let R = R\<lparr>r_store := s\<rparr>
               in (Inr (reply_of R w),
                   if first then charge RegisterAll now (charge (RegisterFrom (address_key addr)) now R) else R)))"

definition register_decide ::
    "crypto \<Rightarrow> register_request \<Rightarrow> ip_addr \<Rightarrow> u64 \<Rightarrow> registrar \<Rightarrow> (refusal + registered) \<times> registrar" where
  "register_decide C req addr now R =
     (case register_standing R req of
        Inl e \<Rightarrow> (Inl e, R)
      | Inr _ \<Rightarrow>
         (case register_claim (fingerprint_of C (rr_identity req)) (rr_identity req)
                 (store_recovery (r_store R) (rr_handle req)) (store_handle (r_store R) (rr_handle req))
                 now (hold R) of
            Inl e \<Rightarrow> (Inl e, R)
          | Inr (registered, first, recovery) \<Rightarrow>
             (case (if first then register_gate C req addr now R else (Inr None, R)) of
                (Inl e, R) \<Rightarrow> (Inl e, R)
              | (Inr invite, R) \<Rightarrow> register_issue C req addr now registered first recovery invite R)))"

definition register :: "crypto \<Rightarrow> bytes \<Rightarrow> ip_addr \<Rightarrow> u64 \<Rightarrow> registrar \<Rightarrow> (refusal + registered) \<times> registrar" where
  "register C bs addr now R =
     (case map_err parse_refusal (register_parse C bs) of
        Inl e \<Rightarrow> (Inl e, R)
      | Inr req \<Rightarrow>
         if rr_registrar req \<noteq> cfg_host (r_cfg R)
         then (Inl (BadRequest (WrongRegistrar (cfg_host (r_cfg R)) (rr_registrar req))), R)
         else (case check_time R (rr_time req) now of
            Inl e \<Rightarrow> (Inl e, R)
          | Inr _ \<Rightarrow>
             (case limits_seen (r_limits R) (digest C bs) now of
                Some reply \<Rightarrow> (Inr reply, R)
              | None \<Rightarrow>
                 if \<not> handle_is_canonical (rr_handle req) (cfg_handle_min (r_cfg R)) (cfg_handle_max (r_cfg R))
                 then (Inl HandleInvalid, R)
                 else (case register_decide C req addr now (publish_due C now R) of
                    (Inl e, R) \<Rightarrow> (Inl e, R)
                  | (Inr reply, R) \<Rightarrow>
                     (let until = sat_add (rr_time req) (cfg_clock_skew (r_cfg R)) + 1
                      in (Inr reply, R\<lparr>r_limits := limits_remember (digest C bs) until reply now (r_limits R)\<rparr>))))))"


subsection \<open>Records\<close>

text \<open>The last case is \<open>unreachable!\<close> in the source: a registrar-signed record was refused before.\<close>

definition post_accept ::
    "crypto \<Rightarrow> record_obj \<Rightarrow> identity_row \<Rightarrow> bytes \<Rightarrow> u64 \<Rightarrow> registrar \<Rightarrow> (refusal + posted) \<times> registrar" where
  "post_accept C record row bs now R =
     (let identity = record_identity record; d = digest C bs in
      case record of
        RevokeDevice r \<Rightarrow>
          (let (seqs, R') = publish \<lparr>pb_records = [\<lparr>nr_kind = KRevokeDevice, nr_identity = identity,
                 nr_other = None, nr_until = Some (dr_until r), nr_digest = d, nr_bytes = bs\<rparr>],
               pb_effects = []\<rparr> R
           in (Inr (Published (hd seqs)), R'))
      | RevokeIdentity _ \<Rightarrow>
          (let (seqs, R') = publish \<lparr>pb_records = [\<lparr>nr_kind = KRevokeIdentity, nr_identity = identity,
                 nr_other = None, nr_until = None, nr_digest = d, nr_bytes = bs\<rparr>],
               pb_effects = [EffRevoke identity, LapseHandles identity now, DropPending identity]\<rparr> R
           in (Inr (Published (hd seqs)), R'))
      | Rotate r \<Rightarrow> accept_rotation C row r d bs now R
      | _ \<Rightarrow> (Inl (BadRequest RegistrarSignedRecord), R))"

definition pending_until :: "store \<Rightarrow> key \<Rightarrow> bytes \<Rightarrow> u64 option" where
  "pending_until s identity d = (case store_pending s identity of
     Some p \<Rightarrow> if pd_digest p = d then Some (pd_publish_at p) else None
   | None \<Rightarrow> None)"

definition post_decide ::
    "crypto \<Rightarrow> record_obj \<Rightarrow> bytes \<Rightarrow> u64 \<Rightarrow> registrar \<Rightarrow> (refusal + posted) \<times> registrar" where
  "post_decide C record bs now R =
     (let d = digest C bs; identity = record_identity record in
      case record_seq (r_store R) d of
        Some seq \<Rightarrow> (Inr (Published seq), R)
      | None \<Rightarrow>
         (case pending_until (r_store R) identity d of
            Some until \<Rightarrow> (Inr (PendingUntil until), R)
          | None \<Rightarrow>
             (case store_identity (r_store R) identity of
                None \<Rightarrow> (Inl NotRegistered, R)
              | Some row \<Rightarrow>
                 (case usable row of
                    Inl e \<Rightarrow> (Inl e, R)
                  | Inr _ \<Rightarrow>
                     (case limit_check (RecordsOf identity) (records_per_identity (cfg_rates (r_cfg R))) now R of
                        (Inl e, R) \<Rightarrow> (Inl e, R)
                      | (Inr _, R) \<Rightarrow>
                         (case post_accept C record row bs now R of
                            (Inl e, R) \<Rightarrow> (Inl e, R)
                          | (Inr posted, R) \<Rightarrow> (Inr posted, charge (RecordsOf identity) now R)))))))"

definition post_record :: "crypto \<Rightarrow> bytes \<Rightarrow> u64 \<Rightarrow> registrar \<Rightarrow> (refusal + posted) \<times> registrar" where
  "post_record C bs now R =
     (case map_err parse_refusal (record_parse C bs (Some (own_keys C R))) of
        Inl e \<Rightarrow> (Inl e, R)
      | Inr record \<Rightarrow>
         if \<not> user_signed record then (Inl (BadRequest RegistrarSignedRecord), R)
         else if sat_add now (cfg_clock_skew (r_cfg R)) < record_time record then (Inl BadTime, R)
         else post_decide C record bs now (publish_due C now R))"


subsection \<open>Lists, stats and lookups\<close>

definition list_to_sign ::
    "registrar \<Rightarrow> bytes option \<Rightarrow> u64 option \<Rightarrow> page \<Rightarrow> u64 \<Rightarrow> signed_list" where
  "list_to_sign R fingerprint since page now =
     \<lparr>sl_registrar = cfg_host (r_cfg R), sl_issued = now,
      sl_expires = sat_add now (cfg_records_max_age (r_cfg R)), sl_fingerprint = fingerprint,
      sl_since = since, sl_more = pg_more page, sl_entries = pg_entries page\<rparr>"

definition sign_list ::
    "crypto \<Rightarrow> registrar \<Rightarrow> list_kind \<Rightarrow> bytes option \<Rightarrow> u64 option \<Rightarrow> page \<Rightarrow> u64 \<Rightarrow> bytes option" where
  "sign_list C R kind fingerprint since page now =
     signed_list_sign C (r_key R) kind (list_to_sign R fingerprint since page now)"

definition page_budget :: nat where
  "page_budget = LIST_MAX_BYTES - PAGE_OVERHEAD"

definition since_or_0 :: "u64 option \<Rightarrow> u64" where
  "since_or_0 since = (case since of Some n \<Rightarrow> n | None \<Rightarrow> 0)"

definition records_for :: "crypto \<Rightarrow> bytes \<Rightarrow> u64 option \<Rightarrow> u64 \<Rightarrow> registrar \<Rightarrow> bytes option \<times> registrar" where
  "records_for C fp since now R =
     (let R = publish_due C now R;
          page = (case identity_by_fingerprint C (r_store R) fp of
                    Some row \<Rightarrow> records_page (r_store R) (ByIdentity (id_key row)) (since_or_0 since) page_budget
                  | None \<Rightarrow> \<lparr>pg_entries = [], pg_more = False\<rparr>)
      in (sign_list C R Records (Some fp) since page now, R))"

definition records_since :: "crypto \<Rightarrow> u64 option \<Rightarrow> u64 \<Rightarrow> registrar \<Rightarrow> bytes option \<times> registrar" where
  "records_since C since now R =
     (let R = publish_due C now R;
          page = records_page (r_store R)
            (AllRecords now (device_revocations_kept (cfg_rates (r_cfg R)))) (since_or_0 since) page_budget
      in (sign_list C R Records None since page now, R))"

definition log_since :: "crypto \<Rightarrow> u64 option \<Rightarrow> u64 \<Rightarrow> registrar \<Rightarrow> bytes option \<times> registrar" where
  "log_since C since now R =
     (sign_list C R Log None since (log_page (r_store R) (since_or_0 since) page_budget) now, R)"

definition stats_to_sign :: "registrar \<Rightarrow> u64 \<Rightarrow> stats" where
  "stats_to_sign R now =
     (let c = store_counts (r_store R) now in
      \<lparr>st_registrar = cfg_host (r_cfg R), st_at = now, st_identities = ct_identities c,
       st_issued_24h = ct_issued_24h c, st_issued_7d = ct_issued_7d c, st_issued_total = ct_issued_total c,
       st_revoked_total = ct_revoked_total c, st_frozen = ct_frozen c, st_log_seq = ct_log_seq c\<rparr>)"

definition registrar_stats :: "crypto \<Rightarrow> u64 \<Rightarrow> registrar \<Rightarrow> bytes \<times> registrar" where
  "registrar_stats C now R =
     (case (case r_stats R of
              Some (at, bs) \<Rightarrow> if now < at + 3600 then Some bs else None
            | None \<Rightarrow> None) of
        Some bs \<Rightarrow> (bs, R)
      | None \<Rightarrow>
         (let bs = stats_sign C (r_key R) (stats_to_sign R now)
          in (bs, R\<lparr>r_stats := Some (now, bs)\<rparr>)))"

definition lookup_limit :: "ip_addr \<Rightarrow> u64 \<Rightarrow> registrar \<Rightarrow> (refusal + unit) \<times> registrar" where
  "lookup_limit addr now R =
     (let (r, l) = limits_take (LookupFrom (address_key addr))
            (lookups_per_address (cfg_rates (r_cfg R))) now (r_limits R)
      in (map_err RateLimited r, R\<lparr>r_limits := l\<rparr>))"

definition lookup_handle ::
    "string \<Rightarrow> ip_addr \<Rightarrow> u64 \<Rightarrow> registrar \<Rightarrow> (refusal + found option) \<times> registrar" where
  "lookup_handle handle addr now R =
     (case lookup_limit addr now R of
        (Inl e, R) \<Rightarrow> (Inl e, R)
      | (Inr _, R) \<Rightarrow>
         (Inr (case store_handle (r_store R) (to_ascii_lowercase handle) of
             Some h \<Rightarrow>
               if handle_state_at h now (hold R) = Held
               then Some \<lparr>fd_identity = hr_identity h, fd_registered = hr_registered h, fd_expires = hr_expires h\<rparr>
               else None
           | None \<Rightarrow> None), R))"

definition lookup_identity ::
    "crypto \<Rightarrow> bytes \<Rightarrow> ip_addr \<Rightarrow> u64 \<Rightarrow> registrar \<Rightarrow> (refusal + string list) \<times> registrar" where
  "lookup_identity C fp addr now R =
     (case lookup_limit addr now R of
        (Inl e, R) \<Rightarrow> (Inl e, R)
      | (Inr _, R) \<Rightarrow>
         (Inr (case identity_by_fingerprint C (r_store R) fp of
             None \<Rightarrow> []
           | Some row \<Rightarrow>
              map hr_name (filter (\<lambda>h. handle_state_at h now (hold R) = Held)
                (handles_of (r_store R) (id_key row)))), R))"


subsection \<open>Cards\<close>

text \<open>Of a card the registrar reads the identity and the successor commitment.\<close>

definition check_card :: "key \<Rightarrow> bytes option \<Rightarrow> registrar \<Rightarrow> refusal + unit" where
  "check_card identity successor R =
     (case store_identity (r_store R) identity of
        Some row \<Rightarrow>
          if id_commitment row \<noteq> None \<and> successor \<noteq> id_commitment row then Inl SuccessorMismatch else Inr ()
      | None \<Rightarrow> Inr ())"

definition note_card :: "key \<Rightarrow> bytes option \<Rightarrow> registrar \<Rightarrow> registrar" where
  "note_card identity successor R =
     (case successor of
        None \<Rightarrow> R
      | Some c \<Rightarrow> R\<lparr>r_store := snd (set_commitment identity c (r_store R))\<rparr>)"


subsection \<open>Operator actions\<close>

datatype op_error = UnknownIdentity | UnknownHandle | SameIdentity

definition freeze_time :: "crypto \<Rightarrow> registrar \<Rightarrow> bytes \<Rightarrow> u64 option" where
  "freeze_time C R bs = (case record_parse C bs (Some (own_keys C R)) of
     Inr (Freeze f) \<Rightarrow> Some (fr_time f) | _ \<Rightarrow> None)"

definition next_freeze_time :: "crypto \<Rightarrow> registrar \<Rightarrow> key \<Rightarrow> u64 \<Rightarrow> u64" where
  "next_freeze_time C R identity now =
     fold (\<lambda>(_, bs) time. case freeze_time C R bs of Some t \<Rightarrow> max time (t + 1) | None \<Rightarrow> time)
       (all_records_of R identity) now"

definition freeze :: "crypto \<Rightarrow> bytes \<Rightarrow> bool \<Rightarrow> u64 \<Rightarrow> registrar \<Rightarrow> (op_error + u64) \<times> registrar" where
  "freeze C fp frozen now R =
     (let R = publish_due C now R in
      case identity_by_fingerprint C (r_store R) fp of
        None \<Rightarrow> (Inl UnknownIdentity, R)
      | Some row \<Rightarrow>
         (let bs = freeze_sign C (r_key R)
                \<lparr>fr_identity = id_key row, fr_registrar = cfg_host (r_cfg R), fr_frozen = frozen,
                 fr_time = next_freeze_time C R (id_key row) now\<rparr>;
              effects = SetFrozen (id_key row) frozen # (if frozen then [DropPending (id_key row)] else []);
              (seqs, R') = publish \<lparr>pb_records = [\<lparr>nr_kind = KFreeze, nr_identity = id_key row, nr_other = None,
                  nr_until = None, nr_digest = digest C bs, nr_bytes = bs\<rparr>], pb_effects = effects\<rparr> R
          in (Inr (hd seqs), R')))"

definition revoke_handle ::
    "crypto \<Rightarrow> string \<Rightarrow> u64 \<Rightarrow> bool \<Rightarrow> u64 \<Rightarrow> registrar \<Rightarrow> (op_error + u64) \<times> registrar" where
  "revoke_handle C handle0 reason bar now R =
     (let handle = to_ascii_lowercase handle0; R = publish_due C now R in
      case store_handle (r_store R) handle of
        None \<Rightarrow> (Inl UnknownHandle, R)
      | Some h \<Rightarrow>
         (let (seqs, R') = publish
                \<lparr>pb_records = [attestation_revocation C R (hr_identity h) handle reason now],
                 pb_effects = [LapseHandle handle now bar]\<rparr> R
          in (Inr (hd seqs), R')))"

definition recover ::
    "crypto \<Rightarrow> string \<Rightarrow> bytes \<Rightarrow> bool \<Rightarrow> u64 \<Rightarrow> registrar \<Rightarrow> (op_error + u64) \<times> registrar" where
  "recover C handle0 new_fp keep_age now R =
     (let handle = to_ascii_lowercase handle0; R = publish_due C now R in
      case store_handle (r_store R) handle of
        None \<Rightarrow> (Inl UnknownHandle, R)
      | Some h \<Rightarrow>
         if fingerprint_of C (hr_identity h) = new_fp then (Inl SameIdentity, R)
         else
           (let (seqs, R') = publish
                  \<lparr>pb_records = [attestation_revocation C R (hr_identity h) handle attestation_reason_RECOVERED now],
                   pb_effects = [LapseHandle handle now True,
                     GrantRecovery \<lparr>rc_handle = handle, rc_fingerprint = new_fp, rc_keep_age = keep_age,
                       rc_granted = now\<rparr>]\<rparr> R
            in (Inr (hd seqs), R')))"

definition add_invites :: "crypto \<Rightarrow> string list \<Rightarrow> registrar \<Rightarrow> nat \<times> registrar" where
  "add_invites C codes R =
     (let (n, s) = store_add_invites (map (invite_hash C) codes) (r_store R)
      in (n, R\<lparr>r_store := s\<rparr>))"

end
