(* ===== verification/Registrar_Runs.thy ===== *)
theory Registrar_Runs
  imports Registrar
begin

section \<open>Runs of the registrar\<close>

text \<open>
  What holds of every run.  The operations are the steps of a transition relation; the locale
  \<open>monotone_steps\<close> turns what one step keeps into what every run keeps, and is interpreted on the
  registrar with the order \<open>store_le\<close>: whatever is asked of it, in whatever order, the log and the
  record list only grow, a commitment never changes, and a revoked or rotated identity stays so.

  The two counters of the store are 64 bits wide.  \<open>capacity\<close> says that a state has the numbers
  left that one more operation may take; it is a hypothesis of every step.
\<close>


subsection \<open>What one operation may use\<close>

definition advance :: "nat \<Rightarrow> store \<Rightarrow> store \<Rightarrow> bool" where
  "advance n s s' \<longleftrightarrow> (store_wf s \<and> room n s \<longrightarrow>
     store_wf s' \<and> store_le s s' \<and> unat (next_log s') \<le> unat (next_log s) + n
     \<and> unat (next_record s') \<le> unat (next_record s) + n)"

lemma advance_refl [simp]: "advance n s s"
  by (simp add: advance_def)

lemma room_mono: "room n s \<Longrightarrow> m \<le> n \<Longrightarrow> room m s"
  by (simp add: room_def)

lemma advance_mono: "advance m s s' \<Longrightarrow> m \<le> n \<Longrightarrow> advance n s s'"
  by (force simp: advance_def intro: room_mono)

lemma advance_trans: "advance m s s' \<Longrightarrow> advance n s' s'' \<Longrightarrow> advance (m + n) s s''"
proof -
  assume a: "advance m s s'" and b: "advance n s' s''"
  show ?thesis
    unfolding advance_def
  proof
    assume s: "store_wf s \<and> room (m + n) s"
    then have "room m s" by (auto intro: room_mono)
    with a s have s': "store_wf s' \<and> store_le s s' \<and> unat (next_log s') \<le> unat (next_log s) + m
       \<and> unat (next_record s') \<le> unat (next_record s) + m"
      unfolding advance_def by blast
    with s have "room n s'" by (auto simp: room_def)
    with b s' have "store_wf s'' \<and> store_le s' s'' \<and> unat (next_log s'') \<le> unat (next_log s') + n
       \<and> unat (next_record s'') \<le> unat (next_record s') + n"
      unfolding advance_def by blast
    with s' show "store_wf s'' \<and> store_le s s'' \<and> unat (next_log s'') \<le> unat (next_log s) + (m + n)
       \<and> unat (next_record s'') \<le> unat (next_record s) + (m + n)"
      using store_le_trans by force
  qed
qed

lemma advance_issue: "advance 1 s (snd (store_issue w s))"
proof -
  have "unat (next_log s + 1) \<le> unat (next_log s) + 1" by (simp add: unat_word_ariths)
  then have "unat (next_log (snd (store_issue w s))) \<le> unat (next_log s) + 1
      \<and> next_record (snd (store_issue w s)) = next_record s"
    by (auto simp: store_issue_def spend_invite_def Let_def split: option.splits bool.splits)
  then show ?thesis using store_issue_keeps [of s w] by (simp add: advance_def)
qed

lemma advance_publish:
  assumes "effects_ok (pb_effects p) (snd (publish_records (pb_records p) s))"
  shows "advance (length (pb_records p)) s (snd (store_publish p s))"
  using store_publish_keeps [of s p] publish_records_keeps [of s "pb_records p"] assms
  by (auto simp: advance_def store_publish_def split_beta Let_def publish_records_frame)

lemma advance_commitment: "advance 0 s (snd (set_commitment k c s))"
proof -
  have "next_log (snd (set_commitment k c s)) = next_log s"
    "next_record (snd (set_commitment k c s)) = next_record s"
    by (simp_all add: set_commitment_def split: option.split)
  then show ?thesis using set_commitment_keeps [of s k c] by (simp add: advance_def)
qed

lemma add_invites_next:
  "next_log (snd (store_add_invites hs s)) = next_log s \<and> next_record (snd (store_add_invites hs s)) = next_record s"
  by (induction hs s rule: store_add_invites.induct) (auto simp: split_beta Let_def)

lemma advance_invites: "advance 0 s (snd (store_add_invites hs s))"
  using add_invites_keeps [of s hs] add_invites_next [of hs s] by (simp add: advance_def)


subsection \<open>Every operation advances the store\<close>

lemma effects_ok_no_rotation:
  "(\<forall>e\<in>set es. case e of EffRotate a b t \<Rightarrow> False | _ \<Rightarrow> True) \<Longrightarrow> effects_ok es s"
  by (induction es arbitrary: s) (auto simp: effect_ok_def split: effect.splits)

lemma publish_store [simp]:
  "r_store (snd (publish p R)) = snd (store_publish p (r_store R))"
  "r_cfg (snd (publish p R)) = r_cfg R" "r_key (snd (publish p R)) = r_key R"
  "r_limits (snd (publish p R)) = r_limits R" "r_reserved (snd (publish p R)) = r_reserved R"
  "r_stats (snd (publish p R)) = r_stats R"
  "fst (publish p R) = fst (store_publish p (r_store R))"
  by (simp_all add: publish_def split_beta Let_def)

lemma publish_rotation_snd:
  "snd (publish_rotation C k k' d bs now R) =
     snd (publish \<lparr>pb_records = \<lparr>nr_kind = KRotate, nr_identity = k, nr_other = Some k', nr_until = None,
                     nr_digest = d, nr_bytes = bs\<rparr>
            # map (\<lambda>h. attestation_revocation C R k (hr_name h) attestation_reason_ROTATED now)
                (handles_of (r_store R) k),
        pb_effects = [EffRotate k k' now, DropPending k]\<rparr> R)"
  by (simp add: publish_rotation_def split_beta Let_def)

lemma length_handles_of: "length (handles_of s k) \<le> length (handles s)"
  by (simp add: handles_of_def le_trans [OF length_filter_le])

lemma advance_rotation:
  assumes "map_of (identities (r_store R)) k = Some row" "id_rotated_to row = None"
  shows "advance (Suc (length (handles (r_store R)))) (r_store R) (r_store (snd (publish_rotation C k k' d bs now R)))"
  unfolding publish_rotation_snd publish_store
  by (rule advance_mono, rule advance_publish)
    (use assms length_handles_of [of "r_store R" k] in
      \<open>simp_all add: effect_ok_def publish_records_frame del: publish_records.simps\<close>)

lemma usable_not_rotated: "usable row = Inr u \<Longrightarrow> id_rotated_to row = None \<and> \<not> id_revoked row \<and> \<not> id_frozen row"
  by (auto simp: usable_def split: option.splits if_splits)

lemma advance_one_due:
  "advance (Suc (length (handles (r_store R)))) (r_store R) (r_store (publish_one_due C now p R))"
proof (cases "due_refused C R p")
  case None
  then obtain row u where "map_of (identities (r_store R)) (pd_identity p) = Some row" "usable row = Inr u"
    by (auto simp: due_refused_def store_identity_def split: option.splits sum.splits)
  then show ?thesis
    using None advance_rotation usable_not_rotated by (simp add: publish_one_due_def)
next
  case (Some why)
  have "advance 0 (r_store R) (snd (store_publish \<lparr>pb_records = [], pb_effects = [DropPending (pd_identity p)]\<rparr> (r_store R)))"
    using advance_publish [of "\<lparr>pb_records = [], pb_effects = [DropPending (pd_identity p)]\<rparr>" "r_store R"]
    by (simp add: effect_ok_def)
  then have "advance (Suc (length (handles (r_store R)))) (r_store R)
      (snd (store_publish \<lparr>pb_records = [], pb_effects = [DropPending (pd_identity p)]\<rparr> (r_store R)))"
    by (rule advance_mono) simp
  then show ?thesis using Some by (simp add: publish_one_due_def)
qed

lemma publish_frame:
  "length (handles (snd (store_publish p s))) = length (handles s)"
proof -
  have "length (handles (apply_effect e t)) = length (handles t)" for e t
    by (cases e) (simp_all add: om_map_def om_adjust_def)
  then have "length (handles (fold apply_effect es t)) = length (handles t)" for es t
    by (induction es arbitrary: t) simp_all
  then show ?thesis by (simp add: store_publish_def split_beta Let_def publish_records_frame)
qed

lemma one_due_handles: "length (handles (r_store (publish_one_due C now p R))) = length (handles (r_store R))"
  by (simp add: publish_one_due_def publish_rotation_snd publish_frame split: option.split)

lemma advance_due_list:
  "advance (length ps * Suc (length (handles (r_store R)))) (r_store R) (r_store (fold (publish_one_due C now) ps R))
     \<and> length (handles (r_store (fold (publish_one_due C now) ps R))) = length (handles (r_store R))"
proof (induction ps arbitrary: R)
  case (Cons p ps)
  let ?R = "publish_one_due C now p R"
  have "advance (Suc (length (handles (r_store R))) + length ps * Suc (length (handles (r_store R)))) (r_store R)
      (r_store (fold (publish_one_due C now) ps ?R))"
    using advance_trans [OF advance_one_due [of R C now p]] Cons.IH [of ?R]
    unfolding one_due_handles by blast
  then show ?case using Cons.IH [of ?R] by (simp add: one_due_handles ac_simps)
qed simp

lemma length_pending_due: "length (pending_due s now) \<le> length (pendings s)"
  by (simp add: pending_due_def le_trans [OF length_filter_le])

lemma advance_publish_due:
  "advance (length (pendings (r_store R)) * Suc (length (handles (r_store R)))) (r_store R) (r_store (publish_due C now R))"
  "length (handles (r_store (publish_due C now R))) = length (handles (r_store R))"
proof -
  note due = advance_due_list [of "pending_due (r_store R) now" R C now]
  show "length (handles (r_store (publish_due C now R))) = length (handles (r_store R))"
    using due by (simp add: publish_due_def)
  show "advance (length (pendings (r_store R)) * Suc (length (handles (r_store R)))) (r_store R)
      (r_store (publish_due C now R))"
    unfolding publish_due_def using due length_pending_due [of "r_store R" now]
    by (blast intro: advance_mono mult_le_mono1)
qed

lemma one_due_frame [simp]:
  "r_cfg (publish_one_due C now p R) = r_cfg R" "r_key (publish_one_due C now p R) = r_key R"
  "r_limits (publish_one_due C now p R) = r_limits R" "r_reserved (publish_one_due C now p R) = r_reserved R"
  by (simp_all add: publish_one_due_def publish_rotation_snd split: option.split)

lemma fold_due_frame:
  "r_cfg (fold (publish_one_due C now) ps R) = r_cfg R \<and> r_key (fold (publish_one_due C now) ps R) = r_key R
   \<and> r_limits (fold (publish_one_due C now) ps R) = r_limits R
   \<and> r_reserved (fold (publish_one_due C now) ps R) = r_reserved R"
  by (induction ps arbitrary: R) simp_all

lemma publish_due_frame [simp]:
  "r_cfg (publish_due C now R) = r_cfg R" "r_key (publish_due C now R) = r_key R"
  "r_limits (publish_due C now R) = r_limits R" "r_reserved (publish_due C now R) = r_reserved R"
  using fold_due_frame [of C now] by (simp_all add: publish_due_def)

text \<open>The store after an operation, in terms of the store after \<open>publish_due\<close>.\<close>

lemma limit_check_frame [simp]:
  "r_store (snd (limit_check k m now R)) = r_store R" "r_cfg (snd (limit_check k m now R)) = r_cfg R"
  "r_key (snd (limit_check k m now R)) = r_key R" "r_reserved (snd (limit_check k m now R)) = r_reserved R"
  by (simp_all add: limit_check_def split_beta Let_def)

lemma charge_frame [simp]:
  "r_store (charge k now R) = r_store R" "r_cfg (charge k now R) = r_cfg R" "r_key (charge k now R) = r_key R"
  "r_reserved (charge k now R) = r_reserved R"
  by (simp_all add: charge_def)

lemma register_gate_frame [simp]:
  "r_store (snd (register_gate C req addr now R)) = r_store R"
  "r_cfg (snd (register_gate C req addr now R)) = r_cfg R"
  "r_key (snd (register_gate C req addr now R)) = r_key R"
proof -
  let ?a = "limit_check (RegisterFrom (address_key addr)) (registrations_per_address (cfg_rates (r_cfg R))) now R"
  let ?b = "limit_check RegisterAll (registrations_total (cfg_rates (r_cfg R))) now (snd ?a)"
  have "snd (register_gate C req addr now R) \<in> {R, snd ?a, snd ?b}"
    by (auto simp: register_gate_def split_beta split: sum.split)
  then show "r_store (snd (register_gate C req addr now R)) = r_store R"
    "r_cfg (snd (register_gate C req addr now R)) = r_cfg R"
    "r_key (snd (register_gate C req addr now R)) = r_key R"
    by auto
qed

lemma register_issue_cases:
  assumes "register_issue C req addr now reg first rec ivt R = (res, R')"
  obtains (late) e where "res = Inl e" "r_store R' = r_store R" "r_cfg R' = r_cfg R" "r_key R' = r_key R"
    | (logged) w q where "w = issue_of C R req reg first rec ivt (issue_time C R req now)"
        "store_issue w (r_store R) = (Logged q, r_store R')" "res = Inr (reply_of R w)"
        "issue_time C R req now \<le> sat_add now (cfg_clock_skew (r_cfg R))"
        "r_cfg R' = r_cfg R" "r_key R' = r_key R"
proof -
  let ?w = "issue_of C R req reg first rec ivt (issue_time C R req now)"
  obtain outcome s where issue: "store_issue ?w (r_store R) = (outcome, s)" by fastforce
  have spent: "s = r_store R" if "outcome = InviteSpent"
    using issue that by (auto simp: store_issue_def Let_def split: option.splits)
  have reply: "reply_of (R\<lparr>r_store := t\<rparr>) w = reply_of R w" for t w by (simp add: reply_of_def)
  show thesis
  proof (cases "sat_add now (cfg_clock_skew (r_cfg R)) < issue_time C R req now")
    case True
    then show thesis using assms by (intro late) (auto simp: register_issue_def Let_def)
  next
    case False
    show thesis
    proof (cases outcome)
      case InviteSpent
      then show thesis
        using assms False issue spent by (intro late) (auto simp: register_issue_def Let_def)
    next
      case (Logged q)
      then show thesis
        using assms False issue reply
        by (intro logged [OF refl]) (auto simp: register_issue_def Let_def not_less split: if_splits)
    qed
  qed
qed

lemma register_decide_cases:
  assumes "register_decide C req addr now R = (res, R')"
  obtains (refused) e where "res = Inl e" "r_store R' = r_store R" "r_cfg R' = r_cfg R" "r_key R' = r_key R"
    | (issue) reg first rec ivt R1 where "register_standing R req = Inr ()"
        "register_claim (fingerprint_of C (rr_identity req)) (rr_identity req)
           (store_recovery (r_store R) (rr_handle req)) (store_handle (r_store R) (rr_handle req)) now (hold R)
           = Inr (reg, first, rec)"
        "(if first then register_gate C req addr now R else (Inr None, R)) = (Inr ivt, R1)"
        "r_store R1 = r_store R" "r_cfg R1 = r_cfg R" "r_key R1 = r_key R"
        "register_issue C req addr now reg first rec ivt R1 = (res, R')"
proof -
  let ?claim = "register_claim (fingerprint_of C (rr_identity req)) (rr_identity req)
     (store_recovery (r_store R) (rr_handle req)) (store_handle (r_store R) (rr_handle req)) now (hold R)"
  show thesis
  proof (cases "register_standing R req")
    case (Inl e)
    then show thesis using assms by (intro refused) (auto simp: register_decide_def)
  next
    case standing: (Inr u)
    show thesis
    proof (cases ?claim)
      case (Inl e)
      then show thesis using assms standing by (intro refused) (auto simp: register_decide_def)
    next
      case (Inr c)
      obtain reg first rec where c: "c = (reg, first, rec)" by (cases c)
      define g where "g = (if first then register_gate C req addr now R else (Inr None, R))"
      have frame: "r_store (snd g) = r_store R" "r_cfg (snd g) = r_cfg R" "r_key (snd g) = r_key R"
        by (simp_all add: g_def)
      have decide: "register_decide C req addr now R = (case g of (Inl e, R1) \<Rightarrow> (Inl e, R1)
          | (Inr ivt, R1) \<Rightarrow> register_issue C req addr now reg first rec ivt R1)"
        using standing Inr c by (simp add: register_decide_def g_def)
      obtain r R1 where g: "g = (r, R1)" by (cases g)
      show thesis
      proof (cases r)
        case (Inl e)
        then show thesis using assms decide frame g by (intro refused) auto
      next
        case r: (Inr ivt)
        have "r_store R1 = r_store R" "r_cfg R1 = r_cfg R" "r_key R1 = r_key R"
          using frame g by simp_all
        then show thesis
          by (intro issue [of reg first rec ivt R1])
            (use assms decide g r standing Inr c in \<open>simp_all add: g_def\<close>)
      qed
    qed
  qed
qed

lemma register_decide_store:
  "\<exists>w. r_store (snd (register_decide C req addr now R)) \<in> {r_store R, snd (store_issue w (r_store R))}"
proof -
  obtain res R' where decide: "register_decide C req addr now R = (res, R')" by fastforce
  then show ?thesis
  proof (cases rule: register_decide_cases)
    case (issue reg first rec ivt R1)
    from issue(7) show ?thesis
    proof (cases rule: register_issue_cases)
      case (logged w q)
      then show ?thesis using decide issue(4) by (intro exI [of _ w]) (simp add: logged(2))
    qed (use decide issue(4) in auto)
  qed (use decide in auto)
qed

lemma register_store:
  "\<exists>w. r_store (snd (register C bs addr now R)) \<in>
     {r_store R, r_store (publish_due C now R), snd (store_issue w (r_store (publish_due C now R)))}"
proof -
  have "r_store (snd (register C bs addr now R)) = r_store R
     \<or> (\<exists>req. r_store (snd (register C bs addr now R)) = r_store (snd (register_decide C req addr now (publish_due C now R))))"
    by (auto simp: register_def Let_def split_beta split: sum.split option.split)
  then show ?thesis
  proof
    assume "\<exists>req. r_store (snd (register C bs addr now R)) = r_store (snd (register_decide C req addr now (publish_due C now R)))"
    then obtain req where "r_store (snd (register C bs addr now R))
        = r_store (snd (register_decide C req addr now (publish_due C now R)))" by blast
    with register_decide_store [of C req addr now "publish_due C now R"] show ?thesis by auto
  qed simp
qed

lemma advance_plain: "effects_ok (pb_effects p) s \<Longrightarrow> pb_records p = [] \<Longrightarrow> advance 0 s (snd (store_publish p s))"
  using advance_publish [of p s] by simp

lemma advance_no_rotation:
  "(\<forall>e\<in>set (pb_effects p). case e of EffRotate a b t \<Rightarrow> False | _ \<Rightarrow> True) \<Longrightarrow>
   length (pb_records p) \<le> n \<Longrightarrow> advance n s (snd (store_publish p s))"
  using advance_publish [OF effects_ok_no_rotation] advance_mono by blast

lemma advance_accept_rotation:
  assumes "map_of (identities (r_store R)) (ro_identity r) = Some row" "usable row = Inr u"
  shows "advance (Suc (length (handles (r_store R)))) (r_store R) (r_store (snd (accept_rotation C row r d bs now R)))"
proof -
  note rotated = advance_rotation [OF assms(1) conjunct1 [OF usable_not_rotated [OF assms(2)]]]
  have "advance (Suc (length (handles (r_store R)))) (r_store R)
      (snd (store_publish \<lparr>pb_records = [], pb_effects = [SetPending p]\<rparr> (r_store R)))" for p
    by (rule advance_no_rotation) simp_all
  then show ?thesis
    using rotated by (simp add: accept_rotation_def split_beta Let_def split: sum.split)
qed

lemma advance_post_accept:
  assumes "map_of (identities (r_store R)) (record_identity rc) = Some row" "usable row = Inr u"
  shows "advance (Suc (length (handles (r_store R)))) (r_store R) (r_store (snd (post_accept C rc row bs now R)))"
proof (cases rc)
  case (Rotate r)
  then show ?thesis using advance_accept_rotation [of R r row u] assms by (simp add: post_accept_def Let_def)
qed (simp_all add: post_accept_def split_beta Let_def, (rule advance_no_rotation; simp)+)

lemma advance_post_decide:
  "advance (Suc (length (handles (r_store R)))) (r_store R) (r_store (snd (post_decide C rc bs now R)))"
proof -
  let ?id = "record_identity rc"
  let ?l = "limit_check (RecordsOf ?id) (records_per_identity (cfg_rates (r_cfg R))) now R"
  have "r_store (snd (post_decide C rc bs now R)) = r_store R
     \<or> (\<exists>row u. map_of (identities (r_store R)) ?id = Some row \<and> usable row = Inr u
          \<and> r_store (snd (post_decide C rc bs now R)) = r_store (snd (post_accept C rc row bs now (snd ?l))))"
    by (auto simp: post_decide_def store_identity_def Let_def split_beta split: option.split sum.split)
  then show ?thesis
    using advance_post_accept [of "snd ?l" rc] by auto
qed


subsection \<open>The transition relation\<close>

text \<open>What may be asked of the registrar.  The operations that only read are \<open>records_for\<close> and
  \<open>records_since\<close>, which publish what is due first, and the lookups and stats, which count and
  cache.\<close>

datatype request =
    RRegister bytes ip_addr
  | RPost bytes
  | RRecordsFor bytes "u64 option"
  | RRecordsSince "u64 option"
  | RLogSince "u64 option"
  | RStats
  | RLookupHandle string ip_addr
  | RLookupIdentity bytes ip_addr
  | RNoteCard key "bytes option"
  | RFreeze bytes bool
  | RRevokeHandle string u64 bool
  | RRecover string bytes bool
  | RAddInvites "string list"
  | RSetReserved "string list"

primrec serve :: "crypto \<Rightarrow> request \<Rightarrow> u64 \<Rightarrow> registrar \<Rightarrow> registrar" where
  "serve C (RRegister bs addr) now R = snd (register C bs addr now R)"
| "serve C (RPost bs) now R = snd (post_record C bs now R)"
| "serve C (RRecordsFor fp since) now R = snd (records_for C fp since now R)"
| "serve C (RRecordsSince since) now R = snd (records_since C since now R)"
| "serve C (RLogSince since) now R = snd (log_since C since now R)"
| "serve C RStats now R = snd (registrar_stats C now R)"
| "serve C (RLookupHandle h addr) now R = snd (lookup_handle h addr now R)"
| "serve C (RLookupIdentity fp addr) now R = snd (lookup_identity C fp addr now R)"
| "serve C (RNoteCard k c) now R = note_card k c R"
| "serve C (RFreeze fp on) now R = snd (freeze C fp on now R)"
| "serve C (RRevokeHandle h reason bar) now R = snd (revoke_handle C h reason bar now R)"
| "serve C (RRecover h fp keep) now R = snd (recover C h fp keep now R)"
| "serve C (RAddInvites codes) now R = snd (add_invites C codes R)"
| "serve C (RSetReserved names) now R = set_reserved names R"

definition needs :: "registrar \<Rightarrow> nat" where
  "needs R = Suc (length (pendings (r_store R))) * Suc (length (handles (r_store R)))"

definition capacity :: "registrar \<Rightarrow> bool" where
  "capacity R \<longleftrightarrow> room (needs R) (r_store R)"

lemma advance_after_due:
  assumes "\<And>R'. R' = publish_due C now R \<Longrightarrow> advance (Suc (length (handles (r_store R')))) (r_store R') s"
  shows "advance (needs R) (r_store R) s"
proof -
  have "needs R = length (pendings (r_store R)) * Suc (length (handles (r_store R)))
      + Suc (length (handles (r_store (publish_due C now R))))"
    by (simp add: needs_def advance_publish_due(2))
  then show ?thesis
    using advance_trans [OF advance_publish_due(1) [of R C now] assms [OF refl]] by simp
qed

lemma advance_due_needs: "advance (needs R) (r_store R) (r_store (publish_due C now R))"
  using advance_publish_due(1) [of R C now] by (rule advance_mono) (simp add: needs_def)

lemma advance_freeze: "advance (needs R) (r_store R) (r_store (snd (freeze C fp on now R)))"
  unfolding freeze_def Let_def
  by (rule advance_after_due [of C now])
    (auto simp: split_beta split: option.split intro!: advance_no_rotation)

lemma advance_revoke_handle: "advance (needs R) (r_store R) (r_store (snd (revoke_handle C h reason bar now R)))"
  unfolding revoke_handle_def Let_def
  by (rule advance_after_due [of C now])
    (auto simp: split_beta split: option.split intro!: advance_no_rotation)

lemma advance_recover: "advance (needs R) (r_store R) (r_store (snd (recover C h fp keep now R)))"
  unfolding recover_def Let_def
  by (rule advance_after_due [of C now])
    (auto simp: split_beta split: option.split intro!: advance_no_rotation)

lemma advance_post: "advance (needs R) (r_store R) (r_store (snd (post_record C bs now R)))"
proof -
  have "r_store (snd (post_record C bs now R)) = r_store R
     \<or> (\<exists>rc. r_store (snd (post_record C bs now R)) = r_store (snd (post_decide C rc bs now (publish_due C now R))))"
    by (auto simp: post_record_def split: sum.split)
  moreover have "advance (needs R) (r_store R) (r_store (snd (post_decide C rc bs now (publish_due C now R))))" for rc
    by (rule advance_after_due [of C now]) (simp add: advance_post_decide)
  ultimately show ?thesis by auto
qed

lemma advance_register: "advance (needs R) (r_store R) (r_store (snd (register C bs addr now R)))"
proof -
  have "advance (needs R) (r_store R) (snd (store_issue w (r_store (publish_due C now R))))" for w
    by (rule advance_after_due [of C now]) (simp add: advance_mono [OF advance_issue])
  then show ?thesis
    using register_store [of C bs addr now R] advance_due_needs [of R C now] by auto
qed

lemma advance_serve: "advance (needs R) (r_store R) (r_store (serve C rq now R))"
proof (cases rq)
  case (RNoteCard k c)
  then show ?thesis
    by (cases c) (simp_all add: note_card_def advance_mono [OF advance_commitment])
next
  case (RAddInvites codes)
  then show ?thesis
    by (simp add: add_invites_def split_beta Let_def advance_mono [OF advance_invites])
qed (simp_all add: advance_register advance_post advance_freeze advance_revoke_handle advance_recover
    advance_due_needs records_for_def records_since_def log_since_def registrar_stats_def lookup_handle_def
    lookup_identity_def lookup_limit_def set_reserved_def split_beta Let_def split: option.split sum.split)

text \<open>No operation changes the configuration or the key.\<close>

lemma accept_rotation_frame:
  "r_cfg (snd (accept_rotation C row r d bs now R)) = r_cfg R \<and> r_key (snd (accept_rotation C row r d bs now R)) = r_key R"
  by (simp add: accept_rotation_def publish_rotation_snd split_beta Let_def split: sum.split)

lemma post_accept_frame:
  "r_cfg (snd (post_accept C rc row bs now R)) = r_cfg R \<and> r_key (snd (post_accept C rc row bs now R)) = r_key R"
  by (simp add: post_accept_def accept_rotation_frame split_beta Let_def split: record_obj.split)

lemma post_decide_frame:
  "r_cfg (snd (post_decide C rc bs now R)) = r_cfg R \<and> r_key (snd (post_decide C rc bs now R)) = r_key R"
  using post_accept_frame
  by (simp add: post_decide_def split_beta Let_def split: option.split sum.split)

lemma register_decide_frame:
  "r_cfg (snd (register_decide C req addr now R)) = r_cfg R \<and> r_key (snd (register_decide C req addr now R)) = r_key R"
proof -
  obtain res R' where decide: "register_decide C req addr now R = (res, R')" by fastforce
  then show ?thesis
  proof (cases rule: register_decide_cases)
    case (issue reg first rec ivt R1)
    from issue(7) have "r_cfg R' = r_cfg R1 \<and> r_key R' = r_key R1"
      by (cases rule: register_issue_cases) auto
    with decide issue show ?thesis by simp
  qed (use decide in auto)
qed

lemma register_frame:
  "r_cfg (snd (register C bs addr now R)) = r_cfg R \<and> r_key (snd (register C bs addr now R)) = r_key R"
  using register_decide_frame [of C _ addr now "publish_due C now R"]
  by (auto simp: register_def Let_def split_beta split: sum.split option.split)

lemma serve_frame: "r_cfg (serve C rq now R) = r_cfg R \<and> r_key (serve C rq now R) = r_key R"
  by (cases rq)
    (simp_all add: register_frame post_record_def post_decide_frame freeze_def revoke_handle_def recover_def
      records_for_def records_since_def log_since_def registrar_stats_def lookup_handle_def lookup_identity_def
      lookup_limit_def note_card_def add_invites_def set_reserved_def split_beta Let_def
      split: option.split sum.split)


subsection \<open>Runs\<close>

text \<open>One step: a request is served at a time no earlier than the last one, by a registrar with
  capacity left.  The state of a run is the time and the registrar.\<close>

inductive reg_step :: "crypto \<Rightarrow> u64 \<times> registrar \<Rightarrow> u64 \<times> registrar \<Rightarrow> bool" for C where
  serve: "capacity R \<Longrightarrow> before \<le> now \<Longrightarrow> reg_step C (before, R) (now, serve C rq now R)"

inductive_cases reg_stepE: "reg_step C (before, R) (now, R')"

abbreviation reg_run :: "crypto \<Rightarrow> u64 \<times> registrar \<Rightarrow> u64 \<times> registrar \<Rightarrow> bool" where
  "reg_run C \<equiv> (reg_step C)\<^sup>*\<^sup>*"

definition reg_ok :: "u64 \<times> registrar \<Rightarrow> bool" where
  "reg_ok x \<longleftrightarrow> store_wf (r_store (snd x))"

definition reg_le :: "u64 \<times> registrar \<Rightarrow> u64 \<times> registrar \<Rightarrow> bool" where
  "reg_le x y \<longleftrightarrow> fst x \<le> fst y \<and> r_cfg (snd y) = r_cfg (snd x) \<and> r_key (snd y) = r_key (snd x)
     \<and> store_le (r_store (snd x)) (r_store (snd y))"

interpretation reg: monotone_steps "reg_step C" reg_ok reg_le for C
proof unfold_locales
  show "reg_le x x" for x by (simp add: reg_le_def)
  show "reg_le x y \<Longrightarrow> reg_le y z \<Longrightarrow> reg_le x z" for x y z
    by (auto simp: reg_le_def intro: store_le_trans)
  show "reg_step C x y \<Longrightarrow> reg_ok x \<Longrightarrow> reg_ok y" for x y
    by (induction rule: reg_step.induct)
      (use advance_serve in \<open>auto simp: reg_ok_def advance_def capacity_def\<close>)
  show "reg_step C x y \<Longrightarrow> reg_ok x \<Longrightarrow> reg_le x y" for x y
    by (induction rule: reg_step.induct)
      (use advance_serve serve_frame in \<open>auto simp: reg_ok_def reg_le_def advance_def capacity_def\<close>)
qed

end
