(* ===== verification/Registrar_Safety.thy ===== *)
theory Registrar_Safety
  imports Registrar_Runs
begin

section \<open>What the registrar promises\<close>

text \<open>
  The properties of the registrar as its clients see them.  Every request is a sequence of small
  moves (\<open>store_move\<close>): a publication of good records, an issuance, or a write that touches neither;
  \<open>reg_inv\<close> is an invariant of the moves, and so of every run.

  The invariant carries what the properties need: keys are keys and names are names; a record is
  held under the digest of its bytes and fits its bound; no handle is registered in the future;
  and no attestation was issued after the present, except in the second after a revocation of it.
\<close>


subsection \<open>Revocations only accumulate\<close>

lemma page_from_append:
  "\<exists>ys. pg_entries (page_from budget used out (items @ xs)) = pg_entries (page_from budget used out items) @ ys"
proof (induction items arbitrary: used out)
  case Nil
  obtain n where "page_from budget used out xs = \<lparr>pg_entries = out @ take n xs, pg_more = n < length xs\<rparr>"
    using page_from_take [of xs budget used out] by blast
  then show ?case by simp
next
  case (Cons item items)
  then show ?case by (cases item) (simp add: Let_def)
qed

lemma visible_append:
  assumes "records s' = records s @ xs"
  shows "\<exists>ys. visible_records s' (ByIdentity k) = visible_records s (ByIdentity k) @ ys"
  using assms by (simp add: visible_records_def record_visible_def)

lemma all_records_mono:
  assumes "store_le (r_store R) (r_store R')"
  shows "\<exists>ys. all_records_of R' k = all_records_of R k @ ys"
proof -
  obtain xs where "records (r_store R') = records (r_store R) @ xs"
    using assms by (auto simp: store_le_def)
  then obtain ys where "visible_records (r_store R') (ByIdentity k) = visible_records (r_store R) (ByIdentity k) @ ys"
    using visible_append by blast
  then show ?thesis
    unfolding all_records_of_def records_page_items page_of_def
    using page_from_append by simp
qed

definition same_registrar :: "registrar \<Rightarrow> registrar \<Rightarrow> bool" where
  "same_registrar R R' \<longleftrightarrow> r_cfg R' = r_cfg R \<and> r_key R' = r_key R"

lemma same_registrar_simps:
  assumes "same_registrar R R'"
  shows "own_keys C R' = own_keys C R" "hold R' = hold R" "revocation_time C R' = revocation_time C R"
    "freeze_time C R' = freeze_time C R"
  using assms
  by (simp_all add: same_registrar_def own_keys_def registrar_public_keys_def hold_def revocation_time_def fun_eq_iff
      freeze_time_def)

lemma map_filter_append: "List.map_filter f (xs @ ys) = List.map_filter f xs @ List.map_filter f ys"
  by (induction xs) (simp_all add: map_filter_simps split: option.split)

lemma revoked_through_mono:
  assumes "same_registrar R R'" "store_le (r_store R) (r_store R')" "revoked_through C R k h = Some t"
  shows "\<exists>t'. revoked_through C R' k h = Some t' \<and> t \<le> t'"
proof -
  let ?f = "\<lambda>(q :: u64, bs). revocation_time C R k h bs"
  obtain ys where ys: "all_records_of R' k = all_records_of R k @ ys"
    using all_records_mono [OF assms(2)] by blast
  have "t \<in> set (List.map_filter ?f (all_records_of R k))"
    using assms(3) by (auto simp: revoked_through_def dest: max_opt_in)
  then have "t \<in> set (List.map_filter ?f (all_records_of R' k))"
    by (simp add: ys map_filter_append)
  then show ?thesis
    using max_opt_ge by (simp add: revoked_through_def same_registrar_simps(3) [OF assms(1)])
qed


subsection \<open>The shape of what is kept\<close>

text \<open>The registrar is set up with a host name, a key and documented cryptography.\<close>

definition set_up :: "crypto \<Rightarrow> registrar \<Rightarrow> bool" where
  "set_up C R \<longleftrightarrow> crypto_ok C \<and> length (r_key R) = 32 \<and> is_host (cfg_host (r_cfg R))"

definition name_ok :: "string \<Rightarrow> bool" where
  "name_ok n \<longleftrightarrow> n \<noteq> [] \<and> length n \<le> 64 \<and> text_ok n"

definition record_good :: "crypto \<Rightarrow> new_record \<Rightarrow> bool" where
  "record_good C r \<longleftrightarrow> nr_digest r = digest C (nr_bytes r) \<and> length (nr_bytes r) \<le> REVOKE_DEVICE_MAX_BYTES"

definition pending_good :: "crypto \<Rightarrow> pending \<Rightarrow> bool" where
  "pending_good C p \<longleftrightarrow> length (pd_identity p) = 32 \<and> length (pd_successor p) = 32 \<and> pd_digest p = digest C (pd_bytes p)
     \<and> length (pd_bytes p) \<le> REVOKE_DEVICE_MAX_BYTES"

definition row_good :: "u64 \<Rightarrow> handle_row \<Rightarrow> bool" where
  "row_good T h \<longleftrightarrow> name_ok (hr_name h) \<and> length (hr_identity h) = 32 \<and> 0 < hr_registered h \<and> hr_registered h \<le> T"

definition om_all :: "('v \<Rightarrow> bool) \<Rightarrow> ('k, 'v) omap \<Rightarrow> bool" where
  "om_all P m \<longleftrightarrow> (\<forall>p\<in>set m. P (snd p))"

definition shapes :: "crypto \<Rightarrow> u64 \<Rightarrow> store \<Rightarrow> bool" where
  "shapes C T s \<longleftrightarrow>
     om_all (\<lambda>row. length (id_key row) = 32) (identities s) \<and> om_all (row_good T) (handles s)
     \<and> om_all (record_good C) (records s) \<and> om_all (pending_good C) (pendings s)
     \<and> om_all (\<lambda>e. length (le_bytes e) \<le> 1024) (log s)"

definition effect_good :: "crypto \<Rightarrow> effect \<Rightarrow> bool" where
  "effect_good C e = (case e of
     SetPending p \<Rightarrow> pending_good C p
   | EffRotate k k' at \<Rightarrow> length k' = 32
   | _ \<Rightarrow> True)"

lemma om_all_mono: "om_all P m \<Longrightarrow> (\<And>v. P v \<Longrightarrow> Q v) \<Longrightarrow> om_all Q m"
  by (simp add: om_all_def)

lemma om_all_adjust: "om_all P m \<Longrightarrow> (\<And>v. P v \<Longrightarrow> P (f v)) \<Longrightarrow> om_all P (om_adjust k f m)"
  by (auto simp: om_all_def om_adjust_def)

lemma om_all_map: "om_all P m \<Longrightarrow> (\<And>v. P v \<Longrightarrow> P (f v)) \<Longrightarrow> om_all P (om_map f m)"
  by (auto simp: om_all_def om_map_def)

lemma om_all_put: "om_all P m \<Longrightarrow> P v \<Longrightarrow> om_all P (om_put k v m)"
  by (auto simp: om_all_def om_put_def)

lemma om_all_del: "om_all P m \<Longrightarrow> om_all P (om_del k m)"
  by (auto simp: om_all_def om_del_def)

lemma om_all_or_insert: "om_all P m \<Longrightarrow> P v \<Longrightarrow> om_all P (om_or_insert k v m)"
  by (auto simp: om_or_insert_def om_all_put split: option.split)

lemma om_all_get: "om_all P m \<Longrightarrow> map_of m k = Some v \<Longrightarrow> P v"
  by (force simp: om_all_def dest: map_of_SomeD)

lemmas om_alls = om_all_adjust om_all_map om_all_or_insert om_all_put om_all_del

lemma row_good_later: "row_good T h \<Longrightarrow> T \<le> T' \<Longrightarrow> row_good T' h"
  by (auto simp: row_good_def)

lemma shapes_later: "shapes C T s \<Longrightarrow> T \<le> T' \<Longrightarrow> shapes C T' s"
  using row_good_later om_all_mono [of "row_good T" "handles s" "row_good T'"] by (auto simp: shapes_def)

lemma shapes_effect:
  assumes "shapes C T s" "effect_good C e"
  shows "shapes C T (apply_effect e s)"
proof (cases e)
  case (EffRotate k k' t)
  with assms show ?thesis
    by (auto simp: shapes_def effect_good_def row_good_def fresh_identity_def intro!: om_alls)
next
  case (SetPending p)
  with assms show ?thesis by (auto simp: shapes_def effect_good_def intro!: om_alls)
qed (use assms in \<open>auto simp: shapes_def row_good_def intro!: om_alls\<close>)

lemma shapes_effects:
  "shapes C T s \<Longrightarrow> \<forall>e\<in>set es. effect_good C e \<Longrightarrow> shapes C T (fold apply_effect es s)"
  by (induction es arbitrary: s) (simp_all add: shapes_effect)

lemma shapes_records:
  "shapes C T s \<Longrightarrow> \<forall>r\<in>set rs. record_good C r \<Longrightarrow> shapes C T (snd (publish_records rs s))"
proof (induction rs s rule: publish_records.induct)
  case (2 r rs s)
  show ?case
  proof (cases "map_of (digests s) (nr_digest r)")
    case (Some q)
    with 2 show ?thesis by (simp add: split_beta Let_def)
  next
    case None
    have "shapes C T (s\<lparr>next_record := next_record s + 1, digests := om_put (nr_digest r) (next_record s + 1) (digests s),
        records := om_put (next_record s + 1) r (records s)\<rparr>)"
      using 2(3,4) by (auto simp: shapes_def intro: om_all_put)
    with 2(1) [OF None refl refl] 2(4) None show ?thesis by (simp add: split_beta Let_def)
  qed
qed simp

lemma shapes_publish:
  assumes "shapes C T s" "\<forall>r\<in>set (pb_records p). record_good C r" "\<forall>e\<in>set (pb_effects p). effect_good C e"
  shows "shapes C T (snd (store_publish p s))"
  using shapes_effects [OF shapes_records [OF assms(1,2)] assms(3)]
  by (simp add: store_publish_def split_beta Let_def)

lemma shapes_issue:
  assumes "shapes C T s" "length (is_identity w) = 32" "row_good T (is_handle w)"
    and "length (is_attestation w) \<le> 1024"
  shows "shapes C T (snd (store_issue w s))"
proof (cases "spend_invite (is_invite w) s")
  case None
  with assms show ?thesis by (simp add: store_issue_def)
next
  case (Some s1)
  have "shapes C T s1"
    using Some assms(1) by (auto simp: spend_invite_def shapes_def split: option.splits bool.splits)
  then have "shapes C T (issue_row w s1)"
    using assms(2) by (auto simp: issue_row_def shapes_def fresh_identity_def intro!: om_alls)
  then show ?thesis
    using assms Some
    by (auto simp: store_issue_def shapes_def Let_def intro!: om_all_put split: option.split)
qed


subsection \<open>Every request keeps the shape\<close>

lemma small_record: "n \<le> SMALL_RECORD_MAX_BYTES \<Longrightarrow> n \<le> REVOKE_DEVICE_MAX_BYTES"
  by (simp add: SMALL_RECORD_MAX_BYTES_def REVOKE_DEVICE_MAX_BYTES_def)

lemma attestation_revocation_good:
  assumes "set_up C R" "length k = 32" "length n \<le> 64"
  shows "record_good C (attestation_revocation C R k n reason now)"
  using assms attestation_revocation_size [of C "r_key R"]
  by (auto simp: record_good_def attestation_revocation_def set_up_def Let_def intro!: small_record)

lemma set_up_same: "set_up C R \<Longrightarrow> same_registrar R R' \<Longrightarrow> set_up C R'"
  by (simp add: set_up_def same_registrar_def)

lemma shapes_rotation:
  assumes "set_up C R" "shapes C T (r_store R)" "length k = 32" "length k' = 32" "d = digest C bs"
    and "length bs \<le> REVOKE_DEVICE_MAX_BYTES"
  shows "shapes C T (r_store (snd (publish_rotation C k k' d bs now R)))"
  unfolding publish_rotation_snd publish_store
proof (rule shapes_publish [OF assms(2)]; simp)
  have "length (hr_name h) \<le> 64" if "h \<in> set (handles_of (r_store R) k)" for h
    using assms(2) that by (force simp: shapes_def om_all_def row_good_def name_ok_def handles_of_def)
  then show "record_good C \<lparr>nr_kind = KRotate, nr_identity = k, nr_other = Some k', nr_until = None, nr_digest = d,
       nr_bytes = bs\<rparr>
     \<and> (\<forall>h\<in>set (handles_of (r_store R) k).
          record_good C (attestation_revocation C R k (hr_name h) attestation_reason_ROTATED now))"
    using assms attestation_revocation_good [OF assms(1,3)] by (simp add: record_good_def)
  show "effect_good C (EffRotate k k' now) \<and> effect_good C (DropPending k)"
    using assms(4) by (simp add: effect_good_def)
qed

lemma shapes_one_due:
  assumes "set_up C R" "shapes C T (r_store R)" "pending_good C p"
  shows "shapes C T (r_store (publish_one_due C now p R))"
proof (cases "due_refused C R p")
  case None
  then show ?thesis
    using shapes_rotation [OF assms(1,2)] assms(3) by (simp add: publish_one_due_def pending_good_def)
next
  case (Some why)
  then show ?thesis
    using assms(2) by (simp add: publish_one_due_def) (rule shapes_publish, simp_all add: effect_good_def)
qed

lemma shapes_due_list:
  assumes "set_up C R" "shapes C T (r_store R)" "\<forall>p\<in>set ps. pending_good C p"
  shows "shapes C T (r_store (fold (publish_one_due C now) ps R))"
  using assms
proof (induction ps arbitrary: R)
  case (Cons p ps)
  have "set_up C (publish_one_due C now p R)"
    using Cons.prems(1) by (simp add: set_up_def)
  then show ?case using Cons.IH shapes_one_due [OF Cons.prems(1,2)] Cons.prems(3) by simp
qed simp

lemma shapes_due:
  assumes "set_up C R" "shapes C T (r_store R)"
  shows "shapes C T (r_store (publish_due C now R))"
  unfolding publish_due_def
  by (rule shapes_due_list [OF assms]) (use assms(2) in \<open>auto simp: pending_due_def shapes_def om_all_def\<close>)

lemma set_up_due [simp]: "set_up C (publish_due C now R) = set_up C R"
  by (simp add: set_up_def)

text \<open>A registration that is issued, in terms of the claim that was allowed.\<close>

lemma claim_registered:
  "register_claim fp k grant existing now hold_secs = Inr (reg, first, rec) \<Longrightarrow>
     reg = now \<or> (\<exists>h. existing = Some h \<and> reg = hr_registered h)"
  by (auto simp: register_claim_def split: option.splits if_splits handle_state.splits)

lemma issue_of_simps [simp]:
  "is_identity (issue_of C R req reg first rec ivt t) = rr_identity req"
  "hr_name (is_handle (issue_of C R req reg first rec ivt t)) = rr_handle req"
  "hr_identity (is_handle (issue_of C R req reg first rec ivt t)) = rr_identity req"
  "hr_registered (is_handle (issue_of C R req reg first rec ivt t)) = reg"
  "is_issued (issue_of C R req reg first rec ivt t) = t"
  "is_attestation (issue_of C R req reg first rec ivt t) = attestation_seal C (r_key R) (issue_attestation C R req reg t)"
  "is_first (issue_of C R req reg first rec ivt t) = first"
  "is_recovery (issue_of C R req reg first rec ivt t) = rec"
  "is_invite (issue_of C R req reg first rec ivt t) = ivt"
  "is_commitment (issue_of C R req reg first rec ivt t) = rr_successor req"
  by (simp_all add: issue_of_def Let_def)

definition request_good :: "register_request \<Rightarrow> bool" where
  "request_good req \<longleftrightarrow> length (rr_identity req) = 32 \<and> name_ok (rr_handle req)"

lemma register_parse_good: "register_parse C bs = Inr req \<Longrightarrow> request_good req"
proof -
  assume "register_parse C bs = Inr req"
  then obtain env where env: "envelope_open bs = Inr env" "register_read (env_value env) = Inr req" "register_ok req"
    by (auto simp: register_parse_iff)
  then have "register_typed req" using envelope_open_wf reg_req.read_valid by blast
  with env(3) show ?thesis by (simp add: request_good_def register_typed_def register_ok_def name_ok_def)
qed

lemma shapes_register_decide:
  assumes "set_up C R" "shapes C now (r_store R)" "request_good req" "0 < now"
  shows "shapes C now (r_store (snd (register_decide C req addr now R)))"
proof -
  obtain res R' where decide: "register_decide C req addr now R = (res, R')" by fastforce
  then show ?thesis
  proof (cases rule: register_decide_cases)
    case (issue reg first rec ivt R1)
    have row: "0 < reg \<and> reg \<le> now"
      using claim_registered [OF issue(2)] assms(2,4)
      by (auto simp: shapes_def store_handle_def row_good_def dest: om_all_get)
    have "set_up C R1" using assms(1) issue(5,6) by (simp add: set_up_def)
    then have small: "length (attestation_seal C (r_key R1) (issue_attestation C R1 req reg t)) \<le> 1024" for t
      using assms(3)
      by (intro attestation_size)
        (auto simp: issue_attestation_def set_up_def request_good_def name_ok_def crypto_ok_def)
    from issue(7) show ?thesis
    proof (cases rule: register_issue_cases)
      case (logged w q)
      have "shapes C now (snd (store_issue w (r_store R1)))"
        by (rule shapes_issue)
          (use assms row small logged(1) issue(4) in \<open>simp_all add: request_good_def row_good_def\<close>)
      then show ?thesis using decide logged(2) by simp
    qed (use decide issue(4) assms(2) in simp)
  qed (use decide assms(2) in simp)
qed

lemma shapes_register:
  assumes "set_up C R" "shapes C now (r_store R)" "0 < now"
  shows "shapes C now (r_store (snd (register C bs addr now R)))"
proof -
  have "r_store (snd (register C bs addr now R)) = r_store R
     \<or> (\<exists>req. register_parse C bs = Inr req
          \<and> r_store (snd (register C bs addr now R)) = r_store (snd (register_decide C req addr now (publish_due C now R))))"
    by (cases "register_parse C bs")
      (auto simp: register_def Let_def split_beta split: sum.split option.split)
  then show ?thesis
    using shapes_register_decide [of C "publish_due C now R"] shapes_due [OF assms(1,2)] assms
      register_parse_good by auto
qed

lemma record_parse_size: "record_parse C bs reg = Inr r \<Longrightarrow> length bs \<le> REVOKE_DEVICE_MAX_BYTES"
  by (auto simp: record_parse_def result_simps)

lemma rotation_parse_keys:
  assumes "record_parse C bs reg = Inr (Rotate r)"
  shows "length (ro_identity r) = 32 \<and> length (ro_successor r) = 32"
proof -
  obtain v where "decode_canonical bs = Inr v" "rotation_read v = Inr r"
    using record_parse_authorised [OF assms] by auto
  then have "rotation_typed r" using decode_wf rot.read_valid by blast
  then show ?thesis by (simp add: rotation_typed_def)
qed

lemma shapes_post_accept:
  assumes "set_up C R" "shapes C T (r_store R)" "record_parse C bs reg = Inr rc"
  shows "shapes C T (r_store (snd (post_accept C rc row bs now R)))"
proof -
  note size = record_parse_size [OF assms(3)]
  have one: "shapes C T (snd (store_publish \<lparr>pb_records = [\<lparr>nr_kind = k, nr_identity = i, nr_other = None,
      nr_until = u, nr_digest = digest C bs, nr_bytes = bs\<rparr>], pb_effects = es\<rparr> (r_store R)))"
    if "\<forall>e\<in>set es. effect_good C e" for k i u es
    by (rule shapes_publish [OF assms(2)]) (use that size in \<open>simp_all add: record_good_def\<close>)
  show ?thesis
  proof (cases rc)
    case (Rotate r)
    note keys = rotation_parse_keys [of C bs reg r]
    have "shapes C T (snd (store_publish \<lparr>pb_records = [], pb_effects = [SetPending
        \<lparr>pd_identity = ro_identity r, pd_successor = ro_successor r, pd_publish_at = t,
         pd_digest = digest C bs, pd_bytes = bs\<rparr>]\<rparr> (r_store R)))" for t
      by (rule shapes_publish [OF assms(2)])
        (use keys assms(3) Rotate size in \<open>simp_all add: effect_good_def pending_good_def\<close>)
    then show ?thesis
      using shapes_rotation [OF assms(1,2)] keys assms(2,3) Rotate size
      by (simp add: post_accept_def accept_rotation_def split_beta Let_def split: sum.split)
  qed (use one assms(2) in \<open>simp_all add: post_accept_def split_beta Let_def effect_good_def\<close>)
qed

lemma shapes_post_decide:
  assumes "set_up C R" "shapes C T (r_store R)" "record_parse C bs reg = Inr rc"
  shows "shapes C T (r_store (snd (post_decide C rc bs now R)))"
proof -
  let ?l = "limit_check (RecordsOf (record_identity rc)) (records_per_identity (cfg_rates (r_cfg R))) now R"
  have "r_store (snd (post_decide C rc bs now R)) = r_store R
     \<or> (\<exists>row. r_store (snd (post_decide C rc bs now R)) = r_store (snd (post_accept C rc row bs now (snd ?l))))"
    by (auto simp: post_decide_def Let_def split_beta split: option.split sum.split)
  moreover have "set_up C (snd ?l)" using assms(1) by (simp add: set_up_def)
  ultimately show ?thesis
    using shapes_post_accept [of C "snd ?l" T bs reg rc] assms by auto
qed

lemma shapes_post:
  assumes "set_up C R" "shapes C T (r_store R)"
  shows "shapes C T (r_store (snd (post_record C bs now R)))"
proof (cases "record_parse C bs (Some (own_keys C R))")
  case (Inr rc)
  with shapes_post_decide [of C "publish_due C now R" T bs "Some (own_keys C R)" rc] shapes_due [OF assms] assms
  show ?thesis by (simp add: post_record_def)
qed (use assms in \<open>simp add: post_record_def\<close>)

lemma freeze_record_good:
  assumes "set_up C R" "length k = 32"
  shows "record_good C \<lparr>nr_kind = KFreeze, nr_identity = k, nr_other = None, nr_until = None,
     nr_digest = digest C (freeze_sign C (r_key R) \<lparr>fr_identity = k, fr_registrar = cfg_host (r_cfg R),
       fr_frozen = on, fr_time = t\<rparr>),
     nr_bytes = freeze_sign C (r_key R) \<lparr>fr_identity = k, fr_registrar = cfg_host (r_cfg R),
       fr_frozen = on, fr_time = t\<rparr>\<rparr>"
  using assms freeze_size [of C "r_key R"] is_host_text
  by (simp add: record_good_def set_up_def freeze_typed_def small_record)

lemma identity_by_fingerprint_key:
  "shapes C T s \<Longrightarrow> identity_by_fingerprint C s fp = Some row \<Longrightarrow> length (id_key row) = 32"
  by (auto simp: identity_by_fingerprint_def find_Some_iff shapes_def om_all_def)

lemma shapes_freeze:
  assumes "set_up C R" "shapes C T (r_store R)"
  shows "shapes C T (r_store (snd (freeze C fp on now R)))"
proof (cases "identity_by_fingerprint C (r_store (publish_due C now R)) fp")
  case None
  then show ?thesis using shapes_due [OF assms] by (simp add: freeze_def)
next
  case (Some row)
  note due = shapes_due [OF assms, of now]
  note good = freeze_record_good [OF assms(1) identity_by_fingerprint_key [OF due Some]]
  show ?thesis
    using Some by (auto simp: freeze_def Let_def split_beta effect_good_def good intro!: shapes_publish [OF due])
qed

lemma handle_facts:
  assumes "shapes C T s" "store_wf s" "store_handle s n = Some h"
  shows "length (hr_identity h) = 32" "length n \<le> 64" "name_ok n"
proof -
  have "hr_name h = n" using assms(2,3) by (simp add: store_wf_def store_handle_def)
  moreover have "row_good T h"
    using assms(1,3) by (auto simp: shapes_def store_handle_def dest: om_all_get)
  ultimately show "length (hr_identity h) = 32" "length n \<le> 64" "name_ok n"
    by (simp_all add: row_good_def name_ok_def)
qed

lemma due_wf: "store_wf (r_store R) \<Longrightarrow> capacity R \<Longrightarrow> store_wf (r_store (publish_due C now R))"
  using advance_due_needs [of R C now] by (simp add: advance_def capacity_def)

lemma shapes_withdraw:
  assumes "set_up C R" "shapes C T (r_store R)" "store_wf (r_store R)" "store_handle (r_store R) n = Some h"
    and "\<forall>e\<in>set es. effect_good C e"
  shows "shapes C T (snd (store_publish \<lparr>pb_records = [attestation_revocation C R (hr_identity h) n reason now],
     pb_effects = es\<rparr> (r_store R)))"
  by (rule shapes_publish [OF assms(2)])
    (use attestation_revocation_good [OF assms(1)] handle_facts [OF assms(2-4)] assms(5) in simp_all)

lemma shapes_revoke_handle:
  assumes "set_up C R" "shapes C T (r_store R)" "store_wf (r_store R)" "capacity R"
  shows "shapes C T (r_store (snd (revoke_handle C n reason bar now R)))"
  using shapes_withdraw [OF _ shapes_due [OF assms(1,2), of now] due_wf [OF assms(3,4)]] assms(1)
    shapes_due [OF assms(1,2), of now]
  by (simp add: revoke_handle_def Let_def split_beta effect_good_def split: option.split)

lemma shapes_recover:
  assumes "set_up C R" "shapes C T (r_store R)" "store_wf (r_store R)" "capacity R"
  shows "shapes C T (r_store (snd (recover C n fp keep now R)))"
  using shapes_withdraw [OF _ shapes_due [OF assms(1,2), of now] due_wf [OF assms(3,4)]] assms(1)
    shapes_due [OF assms(1,2), of now]
  by (simp add: recover_def Let_def split_beta effect_good_def split: option.split)

lemma shapes_invites: "shapes C T s \<Longrightarrow> shapes C T (snd (store_add_invites hs s))"
proof (induction hs s rule: store_add_invites.induct)
  case (2 h hs s)
  have "shapes C T (s\<lparr>invites := om_put h False (invites s)\<rparr>)" using 2(3) by (simp add: shapes_def)
  with 2 show ?case by (auto simp: split_beta Let_def)
qed simp

lemma shapes_serve:
  assumes "set_up C R" "shapes C now (r_store R)" "store_wf (r_store R)" "capacity R" "0 < now"
  shows "shapes C now (r_store (serve C rq now R))"
proof (cases rq)
  case (RNoteCard k c)
  have "shapes C now (snd (set_commitment k x (r_store R)))" for x
    using assms(2) by (auto simp: set_commitment_def shapes_def intro!: om_alls split: option.split)
  then show ?thesis using RNoteCard assms(2) by (simp add: note_card_def split: option.split)
qed (use assms shapes_register shapes_post shapes_freeze shapes_revoke_handle shapes_recover shapes_due shapes_invites in
    \<open>simp_all add: records_for_def records_since_def log_since_def registrar_stats_def lookup_handle_def
      lookup_identity_def lookup_limit_def set_reserved_def add_invites_def split_beta Let_def
      split: option.split sum.split\<close>)


subsection \<open>When attestations are issued\<close>

definition issued_ok :: "crypto \<Rightarrow> u64 \<Rightarrow> registrar \<Rightarrow> log_entry \<Rightarrow> bool" where
  "issued_ok C T R e \<longleftrightarrow> le_issued e \<le> T
     \<or> (\<exists>t. revoked_through C R (le_identity e) (le_handle e) = Some t \<and> le_issued e \<le> sat_add t 1)"

lemma issued_ok_later:
  assumes "issued_ok C T R e" "T \<le> T'" "same_registrar R R'" "store_le (r_store R) (r_store R')"
  shows "issued_ok C T' R' e"
  using assms(1) unfolding issued_ok_def
proof
  assume "le_issued e \<le> T"
  then show "le_issued e \<le> T' \<or> (\<exists>t. revoked_through C R' (le_identity e) (le_handle e) = Some t \<and> le_issued e \<le> sat_add t 1)"
    using assms(2) by auto
next
  assume "\<exists>t. revoked_through C R (le_identity e) (le_handle e) = Some t \<and> le_issued e \<le> sat_add t 1"
  then obtain t where t: "revoked_through C R (le_identity e) (le_handle e) = Some t" "le_issued e \<le> sat_add t 1" by blast
  obtain t' where "revoked_through C R' (le_identity e) (le_handle e) = Some t'" "t \<le> t'"
    using revoked_through_mono [OF assms(3,4) t(1)] by blast
  then show "le_issued e \<le> T' \<or> (\<exists>t. revoked_through C R' (le_identity e) (le_handle e) = Some t \<and> le_issued e \<le> sat_add t 1)"
    using t(2) sat_add_mono [of t t' 1] by (auto intro: order_trans)
qed

lemma publish_log [simp]: "log (snd (store_publish p s)) = log s"
  by (simp add: store_publish_def split_beta Let_def publish_records_frame)

lemma one_due_log [simp]: "log (r_store (publish_one_due C now p R)) = log (r_store R)"
  by (simp add: publish_one_due_def publish_rotation_snd split: option.split)

lemma due_log [simp]: "log (r_store (publish_due C now R)) = log (r_store R)"
proof -
  have "log (r_store (fold (publish_one_due C now) ps R)) = log (r_store R)" for ps
    by (induction ps arbitrary: R) simp_all
  then show ?thesis by (simp add: publish_due_def)
qed

lemma post_accept_log [simp]: "log (r_store (snd (post_accept C rc row bs now R))) = log (r_store R)"
  by (simp add: post_accept_def accept_rotation_def publish_rotation_snd split_beta Let_def
      split: record_obj.split sum.split)

lemma post_decide_log [simp]: "log (r_store (snd (post_decide C rc bs now R))) = log (r_store R)"
  by (simp add: post_decide_def split_beta Let_def split: option.split sum.split)

lemma add_invites_log [simp]: "log (snd (store_add_invites hs s)) = log s"
  by (induction hs s rule: store_add_invites.induct) (auto simp: split_beta Let_def)

lemma serve_log:
  "(\<And>bs addr. rq \<noteq> RRegister bs addr) \<Longrightarrow> log (r_store (serve C rq now R)) = log (r_store R)"
  by (cases rq)
    (auto simp: post_record_def freeze_def revoke_handle_def recover_def
      records_for_def records_since_def log_since_def registrar_stats_def lookup_handle_def lookup_identity_def
      lookup_limit_def note_card_def set_commitment_def add_invites_def set_reserved_def split_beta Let_def
      split: option.split sum.split)

definition log_entry_of :: "issue_w \<Rightarrow> log_entry" where
  "log_entry_of w = \<lparr>le_identity = is_identity w, le_handle = hr_name (is_handle w), le_issued = is_issued w,
     le_expires = hr_expires (is_handle w), le_first = is_first w, le_bytes = is_attestation w\<rparr>"

lemma store_issue_log:
  assumes "store_issue w s = (Logged q, s')" "store_wf s" "room 1 s"
  shows "log s' = log s @ [(q, log_entry_of w)]" "q = next_log s + 1"
    "map_of (handles s') n = (if n = hr_name (is_handle w) then Some (is_handle w) else map_of (handles s) n)"
proof -
  have app: "om_put (next_log s + 1) e (log s) = log s @ [(next_log s + 1, e)]" for e
    using assms(2,3) by (intro seqs_below_append(2)) (simp_all add: store_wf_def room_def)
  have wf: "om_wf (handles s)" using assms(2) by (simp add: store_wf_def)
  obtain s1 where s1: "spend_invite (is_invite w) s = Some s1" "log s1 = log s" "next_log s1 = next_log s"
    "handles s1 = handles s"
    using assms(1)
    by (auto simp: store_issue_def spend_invite_def split: option.splits bool.splits)
  then show "log s' = log s @ [(q, log_entry_of w)]" "q = next_log s + 1"
    "map_of (handles s') n = (if n = hr_name (is_handle w) then Some (is_handle w) else map_of (handles s) n)"
    using assms(1) app wf
    by (auto simp: store_issue_def issue_row_def log_entry_of_def Let_def om_simps split: option.splits)
qed

text \<open>An issuance is dated now, or one second past the latest revocation.\<close>

lemma issue_time_cases:
  "issue_time C R req now = now \<or> (\<exists>t. revoked_through C R (rr_identity req) (rr_handle req) = Some t
     \<and> now \<le> t \<and> issue_time C R req now = sat_add t 1)"
  by (auto simp: issue_time_def split: option.split)

lemma revoked_through_store:
  "same_registrar R R' \<Longrightarrow> r_store R' = r_store R \<Longrightarrow> revoked_through C R' = revoked_through C R"
  by (simp add: revoked_through_def fun_eq_iff all_records_of_def same_registrar_simps(3))

lemma register_decide_log:
  assumes "store_wf (r_store R)" "room 1 (r_store R)"
  obtains "log (r_store (snd (register_decide C req addr now R))) = log (r_store R)"
    | q e where "log (r_store (snd (register_decide C req addr now R))) = log (r_store R) @ [(q, e)]"
        "issued_ok C now R e"
proof -
  obtain res R' where decide: "register_decide C req addr now R = (res, R')" by fastforce
  then show thesis
  proof (cases rule: register_decide_cases)
    case refused
    then show thesis using that(1) decide by simp
  next
    case (issue reg first rec ivt R1)
    have same: "same_registrar R R1" using issue(5,6) by (simp add: same_registrar_def)
    from issue(7) show thesis
    proof (cases rule: register_issue_cases)
      case late
      then show thesis using that(1) decide issue(4) by simp
    next
      case (logged w q)
      have "issued_ok C now R (log_entry_of w)"
        using issue_time_cases [of C R1 req now] revoked_through_store [OF same issue(4), of C]
        by (auto simp: issued_ok_def log_entry_of_def logged(1))
      then show thesis
        using that(2) store_issue_log(1) [OF logged(2)] assms decide issue(4) by simp
    qed
  qed
qed


subsection \<open>The invariant of every run\<close>

definition reg_inv :: "crypto \<Rightarrow> u64 \<times> registrar \<Rightarrow> bool" where
  "reg_inv C x \<longleftrightarrow> set_up C (snd x) \<and> 0 < fst x \<and> store_wf (r_store (snd x)) \<and> shapes C (fst x) (r_store (snd x))
     \<and> om_all (issued_ok C (fst x) (snd x)) (log (r_store (snd x)))"

lemma serve_same: "same_registrar R (serve C rq now R)"
  using serve_frame [of C rq now R] by (simp add: same_registrar_def)

lemma due_same: "same_registrar R (publish_due C now R)"
  by (simp add: same_registrar_def)

lemma due_le: "store_wf (r_store R) \<Longrightarrow> capacity R \<Longrightarrow> store_le (r_store R) (r_store (publish_due C now R))"
  using advance_due_needs [of R C now] by (simp add: advance_def capacity_def)

lemma due_room: "store_wf (r_store R) \<Longrightarrow> capacity R \<Longrightarrow> room 1 (r_store (publish_due C now R))"
proof -
  assume wf: "store_wf (r_store R)" and cap: "capacity R"
  let ?n = "length (pendings (r_store R)) * Suc (length (handles (r_store R)))"
  have needs: "?n + 1 \<le> needs R" by (simp add: needs_def)
  then have "room ?n (r_store R)" using cap by (auto simp: capacity_def intro: room_mono)
  then have "unat (next_log (r_store (publish_due C now R))) \<le> unat (next_log (r_store R)) + ?n"
    "unat (next_record (r_store (publish_due C now R))) \<le> unat (next_record (r_store R)) + ?n"
    using advance_publish_due(1) [of R C now] wf by (simp_all add: advance_def)
  with cap needs show ?thesis by (simp add: capacity_def room_def)
qed

lemma serve_le: "store_wf (r_store R) \<Longrightarrow> capacity R \<Longrightarrow> store_le (r_store R) (r_store (serve C rq now R))"
  using advance_serve [of R C rq now] by (simp add: advance_def capacity_def)

lemma register_log_cases:
  assumes "store_wf (r_store R)" "capacity R"
  obtains "log (r_store (snd (register C bs addr now R))) = log (r_store R)"
    | q e where "log (r_store (snd (register C bs addr now R))) = log (r_store R) @ [(q, e)]"
        "issued_ok C now (publish_due C now R) e"
        "store_le (r_store (publish_due C now R)) (r_store (snd (register C bs addr now R)))"
proof -
  let ?D = "publish_due C now R"
  have "r_store (snd (register C bs addr now R)) = r_store R
     \<or> (\<exists>req. r_store (snd (register C bs addr now R)) = r_store (snd (register_decide C req addr now ?D)))"
    by (auto simp: register_def Let_def split_beta split: sum.split option.split)
  then show thesis
  proof
    assume "r_store (snd (register C bs addr now R)) = r_store R"
    then show thesis using that(1) by simp
  next
    assume "\<exists>req. r_store (snd (register C bs addr now R)) = r_store (snd (register_decide C req addr now ?D))"
    then obtain req where req: "r_store (snd (register C bs addr now R)) = r_store (snd (register_decide C req addr now ?D))"
      by blast
    note wf = due_wf [OF assms] and roomy = due_room [OF assms]
    have le: "store_le (r_store ?D) (r_store (snd (register_decide C req addr now ?D)))"
      using register_decide_store [of C req addr now ?D] store_issue_keeps [OF wf roomy] by auto
    show thesis
    proof (rule register_decide_log [OF wf roomy, of C req addr now])
      fix q e
      assume "log (r_store (snd (register_decide C req addr now ?D))) = log (r_store ?D) @ [(q, e)]"
        "issued_ok C now ?D e"
      then show thesis using that(2) le req by simp
    qed (use that(1) req in simp)
  qed
qed

lemma issued_serve:
  assumes "store_wf (r_store R)" "capacity R" "T \<le> now" "om_all (issued_ok C T R) (log (r_store R))"
  shows "om_all (issued_ok C now (serve C rq now R)) (log (r_store (serve C rq now R)))"
proof -
  let ?S = "serve C rq now R"
  have old: "om_all (issued_ok C now ?S) (log (r_store R))"
    using assms(4) issued_ok_later [OF _ assms(3) serve_same serve_le [OF assms(1,2)]]
    by (rule om_all_mono)
  show ?thesis
  proof (cases "\<exists>bs addr. rq = RRegister bs addr")
    case False
    then have "log (r_store ?S) = log (r_store R)" by (intro serve_log) auto
    with old show ?thesis by simp
  next
    case True
    then obtain bs addr where rq: "rq = RRegister bs addr" by blast
    show ?thesis
    proof (cases rule: register_log_cases [OF assms(1,2), of C bs addr now])
      case 1
      with old rq show ?thesis by simp
    next
      case (2 q e)
      have "same_registrar (publish_due C now R) ?S"
        using serve_same [of R C rq now] by (simp add: same_registrar_def)
      from issued_ok_later [OF 2(2) order.refl this] 2(3) rq have "issued_ok C now ?S e" by simp
      with old 2(1) rq show ?thesis by (simp add: om_all_def)
    qed
  qed
qed

lemma reg_inv_step: "reg_step C x y \<Longrightarrow> reg_inv C x \<Longrightarrow> reg_inv C y"
proof (induction rule: reg_step.induct)
  case (serve R before now rq)
  then have inv: "set_up C R" "0 < before" "store_wf (r_store R)" "shapes C before (r_store R)"
    "om_all (issued_ok C before R) (log (r_store R))"
    by (simp_all add: reg_inv_def)
  have "0 < now" using inv(2) serve(2) by auto
  moreover have "shapes C now (r_store R)" by (rule shapes_later [OF inv(4) serve(2)])
  moreover have "store_wf (r_store (serve C rq now R))"
    using advance_serve [of R C rq now] inv(3) serve(1) by (simp add: advance_def capacity_def)
  ultimately show ?case
    using inv serve shapes_serve issued_serve set_up_same serve_same by (simp add: reg_inv_def)
qed

interpretation safe: monotone_steps "reg_step C" "reg_inv C" reg_le for C
proof unfold_locales
  show "reg_step C x y \<Longrightarrow> reg_inv C x \<Longrightarrow> reg_inv C y" for x y by (rule reg_inv_step)
  show "reg_step C x y \<Longrightarrow> reg_inv C x \<Longrightarrow> reg_le x y" for x y
    by (rule reg.moves_up) (auto simp: reg_inv_def reg_ok_def)
qed (auto intro: reg.le_refl reg.le_trans)

lemma reg_inv_new:
  assumes "crypto_ok C" "length key = 32" "is_host (cfg_host cfg)" "0 < t"
  shows "reg_inv C (t, new_registrar cfg key empty_store)"
  using assms store_wf_empty
  by (simp add: reg_inv_def set_up_def new_registrar_def shapes_def empty_store_def om_all_def)


subsection \<open>Withdrawal\<close>

definition withdrawn :: "identity_row \<Rightarrow> bool" where
  "withdrawn row \<longleftrightarrow> id_revoked row \<or> id_rotated_to row \<noteq> None"

lemma withdrawn_le:
  assumes "store_le s s'" "store_identity s k = Some row" "withdrawn row"
  shows "\<exists>row'. store_identity s' k = Some row' \<and> withdrawn row'"
proof -
  obtain row' where "store_identity s' k = Some row'" "row_le row row'"
    using assms(1,2) unfolding store_le_def identities_le_def store_identity_def by blast
  with assms(3) show ?thesis by (auto simp: withdrawn_def row_le_def)
qed

lemma withdrawn_unusable: "withdrawn row \<Longrightarrow> \<exists>e. usable row = Inl e"
  by (auto simp: withdrawn_def usable_def split: option.split)

lemma withdrawn_register:
  assumes "store_identity (r_store (publish_due C now R)) (rr_identity req) = Some row" "withdrawn row"
    and "register_parse C bs = Inr req" "limits_seen (r_limits R) (digest C bs) now = None"
  shows "\<exists>e. fst (register C bs addr now R) = Inl e"
    "log (r_store (snd (register C bs addr now R))) = log (r_store R)"
proof -
  obtain e where "register_standing (publish_due C now R) req = Inl e"
    using withdrawn_unusable [OF assms(2)] assms(1) by (auto simp: register_standing_def)
  then have "register_decide C req addr now (publish_due C now R) = (Inl e, publish_due C now R)"
    by (simp add: register_decide_def)
  then show "\<exists>e. fst (register C bs addr now R) = Inl e"
    "log (r_store (snd (register C bs addr now R))) = log (r_store R)"
    using assms(3,4) by (auto simp: register_def check_time_def)
qed

lemma withdrawn_post:
  assumes "store_identity (r_store (publish_due C now R)) (record_identity rc) = Some row" "withdrawn row"
    and "record_seq (r_store (publish_due C now R)) (digest C bs) = None"
    and "pending_until (r_store (publish_due C now R)) (record_identity rc) (digest C bs) = None"
    and "record_parse C bs (Some (own_keys C R)) = Inr rc"
  shows "\<exists>e. fst (post_record C bs now R) = Inl e"
  using assms withdrawn_unusable [OF assms(2)]
  by (auto simp: post_record_def post_decide_def Let_def)


subsection \<open>Handles\<close>

lemma claim_kept:
  assumes "register_claim fp k None (Some h) now hold_secs = Inr (reg, first, rec)"
    and "handle_state_at h now hold_secs \<noteq> Released"
  shows "hr_identity h = k" "reg = hr_registered h" "\<not> hr_barred h" "\<not> first" "rec = None"
  using assms by (auto simp: register_claim_def split: if_splits handle_state.splits)

lemma register_decide_holder:
  assumes "store_wf (r_store R)" "room 1 (r_store R)" "store_handle (r_store R) n = Some h"
    and "handle_state_at h now (hold R) \<noteq> Released" "store_recovery (r_store R) n = None"
    and "register_decide C req addr now R = (res, R')"
  shows "\<exists>h'. store_handle (r_store R') n = Some h' \<and> hr_identity h' = hr_identity h
     \<and> hr_registered h' = hr_registered h \<and> (hr_barred h \<longrightarrow> h' = h)"
  using assms(6)
proof (cases rule: register_decide_cases)
  case (issue reg first rec ivt R1)
  from issue(7) show ?thesis
  proof (cases rule: register_issue_cases)
    case (logged w q)
    note stored = store_issue_log(3) [OF logged(2)]
    show ?thesis
    proof (cases "n = rr_handle req")
      case True
      with issue(2) assms have "register_claim (fingerprint_of C (rr_identity req)) (rr_identity req) None (Some h) now (hold R)
          = Inr (reg, first, rec)" by simp
      note kept = claim_kept [OF this assms(4)]
      have "store_handle (r_store R') n = Some (is_handle w)"
        using stored [of n] assms(1,2) issue(4) True by (simp add: store_handle_def logged(1))
      with kept show ?thesis by (simp add: logged(1))
    next
      case False
      then have "store_handle (r_store R') n = Some h"
        using stored [of n] assms(1-3) issue(4) by (simp add: store_handle_def logged(1))
      then show ?thesis by simp
    qed
  qed (use issue(4) assms(3) in simp)
qed (use assms(3) in simp)


subsection \<open>Voiding what was issued\<close>

definition next_revocation :: "crypto \<Rightarrow> registrar \<Rightarrow> key \<Rightarrow> string \<Rightarrow> u64 \<Rightarrow> u64" where
  "next_revocation C R k n now = (case revoked_through C R k n of
     Some t \<Rightarrow> if now \<le> t then sat_add t 1 else now
   | None \<Rightarrow> now)"

lemma next_revocation_covers:
  assumes "issued_ok C now R e" "le_identity e = k" "le_handle e = n"
  shows "le_issued e \<le> next_revocation C R k n now"
  using assms(1) unfolding issued_ok_def
proof
  assume early: "le_issued e \<le> now"
  have "now \<le> next_revocation C R k n now"
    using le_sat_add by (auto simp: next_revocation_def split: option.split intro: order_trans)
  with early show ?thesis by simp
next
  assume "\<exists>t. revoked_through C R (le_identity e) (le_handle e) = Some t \<and> le_issued e \<le> sat_add t 1"
  then obtain t where "revoked_through C R k n = Some t" "le_issued e \<le> sat_add t 1"
    using assms by blast
  then show ?thesis
    using sat_add_1_leI [of t now] by (auto simp: next_revocation_def not_le intro: order_trans)
qed

definition revocation_of :: "crypto \<Rightarrow> registrar \<Rightarrow> key \<Rightarrow> string \<Rightarrow> u64 \<Rightarrow> u64 \<Rightarrow> attestation_revocation" where
  "revocation_of C R k n reason now = \<lparr>ar_identity = k, ar_registrar = cfg_host (r_cfg R), ar_handle = n,
     ar_time = next_revocation C R k n now, ar_reason = Some reason\<rparr>"

lemma attestation_revocation_bytes:
  "nr_bytes (attestation_revocation C R k n reason now) = attestation_revocation_sign C (r_key R) (revocation_of C R k n reason now)"
  "nr_digest (attestation_revocation C R k n reason now) = digest C (nr_bytes (attestation_revocation C R k n reason now))"
  by (simp_all add: attestation_revocation_def revocation_of_def next_revocation_def Let_def)

lemma revocation_parses:
  assumes "set_up C R" "length k = 32" "name_ok n" "reason \<le> attestation_reason_ABUSE"
  shows "record_parse C (nr_bytes (attestation_revocation C R k n reason now)) (Some (own_keys C R))
    = Inr (RevokeAttestation (revocation_of C R k n reason now))"
proof -
  have ready: "record_ready C (own_keys C R) (r_key R) succ (RevokeAttestation (revocation_of C R k n reason now))" for succ
    using assms is_host_text
    by (auto simp: revocation_of_def attestation_revocation_typed_def set_up_def name_ok_def own_keys_def
        registrar_public_keys_def)
  show ?thesis
    using parse_attestation_revocation [OF _ _ ready] assms(1)
    by (simp add: attestation_revocation_bytes(1) set_up_def)
qed

text \<open>No record already held has other bytes with the digest of these.\<close>

definition no_collision :: "crypto \<Rightarrow> registrar \<Rightarrow> bytes \<Rightarrow> bool" where
  "no_collision C R bs \<longleftrightarrow> (\<forall>p\<in>set (records (r_store R)). nr_digest (snd p) = digest C bs \<longrightarrow> nr_bytes (snd p) = bs)"

lemma publish_single:
  assumes "store_wf s" "room 1 s" "\<forall>p\<in>set (records s). nr_digest (snd p) = nr_digest r \<longrightarrow> nr_bytes (snd p) = nr_bytes r"
  obtains q r' where "fst (store_publish \<lparr>pb_records = [r], pb_effects = es\<rparr> s) = [q]"
    "map_of (records (snd (store_publish \<lparr>pb_records = [r], pb_effects = es\<rparr> s))) q = Some r'"
    "nr_bytes r' = nr_bytes r"
proof (cases "map_of (digests s) (nr_digest r)")
  case (Some q)
  then obtain r' where r': "map_of (records s) q = Some r'" "nr_digest r' = nr_digest r"
    using assms(1) unfolding store_wf_def by blast
  then have "nr_bytes r' = nr_bytes r" using assms(3) by (force dest: map_of_SomeD)
  with Some r' that show thesis by (simp add: store_publish_def)
next
  case None
  have "om_wf (records s)" using assms(1) by (simp add: store_wf_def seqs_below_def)
  with None that show thesis by (simp add: store_publish_def Let_def om_simps)
qed


subsection \<open>A state to evaluate\<close>

definition sample_row :: identity_row where
  "sample_row = fresh_identity (replicate 32 7) 20"

definition sample_handle :: handle_row where
  "sample_handle = \<lparr>hr_name = ''alice'', hr_identity = replicate 32 7, hr_registered = 20, hr_expires = 5000,
     hr_lapsed_at = None, hr_barred = False\<rparr>"

definition sample_entry :: log_entry where
  "sample_entry = \<lparr>le_identity = replicate 32 7, le_handle = ''alice'', le_issued = 20, le_expires = 5000,
     le_first = True, le_bytes = [1, 2, 3]\<rparr>"

definition sample_store :: store where
  "sample_store = \<lparr>identities = [(replicate 32 7, sample_row)], handles = [(''alice'', sample_handle)],
     log = [(1, sample_entry)], records = [], digests = [], pendings = [], recoveries = [], invites = [],
     next_log = 1, next_record = 0\<rparr>"

definition sample_registrar :: registrar where
  "sample_registrar = new_registrar (new_config ''hl.example'') (replicate 32 9) sample_store"

lemma sample_text: "text_ok ''alice''"
  by (simp add: text_ok_def str_ascii_valid str_ascii_def)

lemma sample_store_wf: "store_wf sample_store"
  by (simp add: store_wf_def sample_store_def seqs_below_def om_wf_def sample_row_def fresh_identity_def sample_handle_def)

lemma sample_inv: "reg_inv sample_crypto (100, sample_registrar)"
proof -
  have "row_good 100 sample_handle"
    by (simp add: row_good_def sample_handle_def name_ok_def sample_text)
  then have "shapes sample_crypto 100 sample_store"
    by (simp add: shapes_def sample_store_def om_all_def sample_row_def fresh_identity_def sample_entry_def)
  then show ?thesis
    using sample_store_wf sample_crypto_ok sample_host
    by (simp add: reg_inv_def set_up_def sample_registrar_def new_registrar_def new_config_def
        sample_store_def om_all_def issued_ok_def sample_entry_def)
qed

lemma sample_capacity: "capacity sample_registrar"
  by (simp add: capacity_def room_def needs_def sample_registrar_def new_registrar_def sample_store_def)

lemma sample_due: "publish_due sample_crypto now sample_registrar = sample_registrar"
  by (simp add: publish_due_def pending_due_def sample_registrar_def new_registrar_def sample_store_def)


subsection \<open>Properties\<close>

text \<open>C1: forward only.  However requests interleave, in every state a run reaches the store is well
  formed, the issuance log and the record list are what they were with entries added at the end,
  and every identity still has its row, created when it was, with its successor commitment, its
  revocation and its rotation as they were once set.\<close>

theorem registrar_run_forward:
  assumes "reg_run C (t0, R0) (t, R)" "store_wf (r_store R0)"
  shows "store_wf (r_store R)
    \<and> (\<exists>xs. log (r_store R) = log (r_store R0) @ xs) \<and> (\<exists>xs. records (r_store R) = records (r_store R0) @ xs)
    \<and> (\<forall>k row. store_identity (r_store R0) k = Some row \<longrightarrow>
         (\<exists>row'. store_identity (r_store R) k = Some row' \<and> id_created row' = id_created row
            \<and> (id_commitment row \<noteq> None \<longrightarrow> id_commitment row' = id_commitment row)
            \<and> (id_revoked row \<longrightarrow> id_revoked row')
            \<and> (id_rotated_to row \<noteq> None \<longrightarrow> id_rotated_to row' = id_rotated_to row)))"
proof -
  have ok: "reg_ok (t0, R0)" using assms(2) by (simp add: reg_ok_def)
  have "store_le (r_store R0) (r_store R)"
    using reg.run_le [OF assms(1) ok] by (simp add: reg_le_def)
  moreover have "store_wf (r_store R)" using reg.run_ok [OF assms(1) ok] by (simp add: reg_ok_def)
  ultimately show ?thesis
    by (simp add: store_le_def identities_le_def row_le_def store_identity_def) blast
qed

theorem registrar_run_forward_witness:
  "\<exists>xs. log (r_store (serve sample_crypto (RNoteCard (replicate 32 7) (Some [5])) 200 sample_registrar))
     = log (r_store sample_registrar) @ xs"
proof -
  have "reg_run sample_crypto (100, sample_registrar)
      (200, serve sample_crypto (RNoteCard (replicate 32 7) (Some [5])) 200 sample_registrar)"
    by (rule r_into_rtranclp, rule reg_step.serve [OF sample_capacity]) simp
  moreover have "store_wf (r_store sample_registrar)"
    using sample_inv by (simp add: reg_inv_def)
  ultimately show ?thesis using registrar_run_forward by blast
qed

text \<open>C4: a name in use is safe.  While a handle is held, or lapsed within its hold, and no operator has
  granted its recovery, no registration by anyone moves it to another identity or changes its age:
  either the request is refused before the store is touched, or the handle still belongs to the
  identity that had it, registered when it was; and one barred for abuse is left exactly as it
  was, even to its own holder.\<close>

theorem held_handle_safe:
  assumes "reg_inv C (t, R)" "capacity R"
    and "store_handle (r_store (publish_due C now R)) n = Some h"
    and "handle_state_at h now (hold R) \<noteq> Released" "store_recovery (r_store (publish_due C now R)) n = None"
  shows "r_store (snd (register C bs addr now R)) = r_store R
    \<or> (\<exists>h'. store_handle (r_store (snd (register C bs addr now R))) n = Some h'
         \<and> hr_identity h' = hr_identity h \<and> hr_registered h' = hr_registered h \<and> (hr_barred h \<longrightarrow> h' = h))"
proof -
  let ?D = "publish_due C now R"
  have wf: "store_wf (r_store R)" using assms(1) by (simp add: reg_inv_def)
  have hold: "hold ?D = hold R" by (rule same_registrar_simps(2) [OF due_same])
  have "r_store (snd (register C bs addr now R)) = r_store R
     \<or> (\<exists>req. r_store (snd (register C bs addr now R)) = r_store (snd (register_decide C req addr now ?D)))"
    by (auto simp: register_def Let_def split_beta split: sum.split option.split)
  moreover have "\<exists>h'. store_handle (r_store (snd (register_decide C req addr now ?D))) n = Some h'
     \<and> hr_identity h' = hr_identity h \<and> hr_registered h' = hr_registered h \<and> (hr_barred h \<longrightarrow> h' = h)" for req
    using register_decide_holder [OF due_wf [OF wf assms(2)] due_room [OF wf assms(2)] assms(3) _ assms(5)]
      assms(4) by (simp add: hold prod_eq_iff)
  ultimately show ?thesis by auto
qed

text \<open>C5: a withdrawn identity never comes back.  Once an identity is revoked or rotated away, then in
  every state of every later run a fresh registration request by it is refused and nothing is
  issued.\<close>

theorem withdrawn_never_registers:
  assumes "reg_run C (t0, R0) (t, R)" "store_wf (r_store R0)"
    and "store_identity (r_store R0) k = Some row" "id_revoked row \<or> id_rotated_to row \<noteq> None"
    and "capacity R" "register_parse C bs = Inr req" "rr_identity req = k"
    and "limits_seen (r_limits R) (digest C bs) now = None"
  shows "\<exists>e R'. register C bs addr now R = (Inl e, R') \<and> log (r_store R') = log (r_store R)"
proof -
  have ok: "reg_ok (t0, R0)" using assms(2) by (simp add: reg_ok_def)
  have le: "store_le (r_store R0) (r_store R)" using reg.run_le [OF assms(1) ok] by (simp add: reg_le_def)
  have wf: "store_wf (r_store R)" using reg.run_ok [OF assms(1) ok] by (simp add: reg_ok_def)
  have "withdrawn row" using assms(4) by (simp add: withdrawn_def)
  then obtain row' where "store_identity (r_store (publish_due C now R)) k = Some row'" "withdrawn row'"
    using withdrawn_le [OF store_le_trans [OF le due_le [OF wf assms(5)]] assms(3)] by blast
  then show ?thesis
    using withdrawn_register [of C now R req row' bs addr] assms(6-8) by (simp add: prod_eq_iff)
qed

definition sample_request_bytes :: bytes where
  "sample_request_bytes = seal (register_unsigned sample_request) (sign_domain sample_crypto (replicate 32 7) REGISTER_DOMAIN)"

lemma sample_request_parses: "register_parse sample_crypto sample_request_bytes = Inr sample_request"
  unfolding sample_request_bytes_def
  by (rule register_seal_parses [OF sample_crypto_ok _ sample_request_ok])
    (simp_all add: sample_request_def sample_crypto_def)

theorem held_handle_safe_witness:
  "\<exists>h'. store_handle (r_store (snd (register sample_crypto sample_request_bytes (V4 [1, 2, 3, 4]) 100 sample_registrar))) ''alice'' = Some h'
     \<and> hr_identity h' = replicate 32 7 \<and> hr_registered h' = 20"
proof -
  let ?R = "snd (register sample_crypto sample_request_bytes (V4 [1, 2, 3, 4]) 100 sample_registrar)"
  have held: "store_handle (r_store (publish_due sample_crypto 100 sample_registrar)) ''alice'' = Some sample_handle"
    "store_handle (r_store sample_registrar) ''alice'' = Some sample_handle"
    unfolding sample_due by (simp_all add: store_handle_def sample_registrar_def new_registrar_def sample_store_def)
  have "r_store ?R = r_store sample_registrar
   \<or> (\<exists>h'. store_handle (r_store ?R) ''alice'' = Some h' \<and> hr_identity h' = hr_identity sample_handle
        \<and> hr_registered h' = hr_registered sample_handle \<and> (hr_barred sample_handle \<longrightarrow> h' = sample_handle))"
    by (rule held_handle_safe [OF sample_inv sample_capacity held(1)])
      (simp_all add: sample_due, simp_all add: sample_registrar_def new_registrar_def sample_store_def
        store_recovery_def handle_state_at_def handle_lapsed_def sample_handle_def)
  then show ?thesis using held(2) by (auto simp: sample_handle_def)
qed

theorem withdrawn_never_registers_witness:
  "\<exists>e R'. register sample_crypto sample_request_bytes (V4 [1, 2, 3, 4]) 200
       (sample_registrar\<lparr>r_store := apply_effect (EffRevoke (replicate 32 7)) sample_store\<rparr>) = (Inl e, R')
     \<and> log (r_store R') = log (apply_effect (EffRevoke (replicate 32 7)) sample_store)"
proof -
  let ?R = "sample_registrar\<lparr>r_store := apply_effect (EffRevoke (replicate 32 7)) sample_store\<rparr>"
  have "\<exists>e R'. register sample_crypto sample_request_bytes (V4 [1, 2, 3, 4]) 200 ?R = (Inl e, R')
     \<and> log (r_store R') = log (r_store ?R)"
  proof (rule withdrawn_never_registers [OF rtranclp.rtrancl_refl [of _ "(100, ?R)"]])
    show "store_wf (r_store ?R)" using apply_effect_wf [OF sample_store_wf, of "EffRevoke (replicate 32 7)"] by simp
    show "store_identity (r_store ?R) (replicate 32 7) = Some (sample_row\<lparr>id_revoked := True\<rparr>)"
      by (simp add: store_identity_def sample_store_def om_simps)
    show "capacity ?R"
      by (simp add: capacity_def room_def needs_def sample_store_def)
    show "limits_seen (r_limits ?R) (digest sample_crypto sample_request_bytes) 200 = None"
      by (simp add: limits_seen_def sample_registrar_def new_registrar_def limits_default_def)
    show "register_parse sample_crypto sample_request_bytes = Inr sample_request" by (rule sample_request_parses)
    show "rr_identity sample_request = replicate 32 7" by (simp add: sample_request_def)
  qed simp
  then show ?thesis by simp
qed

text \<open>C2: a revocation voids everything.  When the operator revokes a handle, in any state a run reaches,
  the record published for it parses as an attestation revocation for the holder and the handle,
  and every attestation in the log for the two, whenever it was issued, even in the same second or
  the one after an earlier revocation, has an issue time the record covers; the handle has lapsed.
  (The record is looked up by its digest: the hypothesis is that no other record held has it.)\<close>

theorem revocation_voids_issued:
  assumes "reg_inv C (t0, R0)" "reg_run C (t0, R0) (t, R)" "t \<le> now" "capacity R"
    and "store_handle (r_store (publish_due C now R)) (to_ascii_lowercase n) = Some h"
    and "reason \<le> attestation_reason_ABUSE"
    and "no_collision C (publish_due C now R)
          (nr_bytes (attestation_revocation C (publish_due C now R) (hr_identity h) (to_ascii_lowercase n) reason now))"
  shows "\<exists>q r r' h' R'. revoke_handle C n reason bar now R = (Inr q, R')
    \<and> map_of (records (r_store R')) q = Some r'
    \<and> record_parse C (nr_bytes r') (Some (own_keys C R')) = Inr (RevokeAttestation r)
    \<and> ar_identity r = hr_identity h \<and> ar_handle r = to_ascii_lowercase n
    \<and> (\<forall>p\<in>set (log (r_store R')). le_identity (snd p) = hr_identity h
          \<and> le_handle (snd p) = to_ascii_lowercase n \<longrightarrow> le_issued (snd p) \<le> ar_time r)
    \<and> store_handle (r_store R') (to_ascii_lowercase n) = Some h' \<and> hr_lapsed_at h' \<noteq> None"
proof -
  let ?D = "publish_due C now R" and ?n = "to_ascii_lowercase n"
  let ?rec = "attestation_revocation C ?D (hr_identity h) ?n reason now"
  let ?p = "\<lparr>pb_records = [?rec], pb_effects = [LapseHandle ?n now bar]\<rparr>"
  let ?r = "revocation_of C ?D (hr_identity h) ?n reason now"
  have inv: "reg_inv C (t, R)" by (rule safe.run_ok [OF assms(2,1)])
  then have wf: "store_wf (r_store R)" and up: "set_up C ?D" by (simp_all add: reg_inv_def)
  note dwf = due_wf [OF wf assms(4)] and droom = due_room [OF wf assms(4)]
  have shapes: "shapes C t (r_store ?D)" using inv shapes_due by (simp add: reg_inv_def)
  have "om_all (issued_ok C now ?D) (log (r_store R))"
    using inv issued_ok_later [OF _ assms(3) due_same due_le [OF wf assms(4)]]
    by (auto simp: reg_inv_def intro: om_all_mono)
  then have covered: "le_identity (snd p) = hr_identity h \<and> le_handle (snd p) = ?n \<longrightarrow> le_issued (snd p) \<le> ar_time ?r"
    if "p \<in> set (log (r_store R))" for p
    using next_revocation_covers that by (auto simp: om_all_def revocation_of_def)
  obtain q r' where q: "fst (store_publish ?p (r_store ?D)) = [q]"
    "map_of (records (snd (store_publish ?p (r_store ?D)))) q = Some r'" "nr_bytes r' = nr_bytes ?rec"
    by (rule publish_single [OF dwf droom, where r = ?rec and es = "[LapseHandle ?n now bar]"])
      (use assms(7) in \<open>auto simp: no_collision_def attestation_revocation_bytes(2)\<close>)
  have parsed: "record_parse C (nr_bytes r') (Some (own_keys C ?D)) = Inr (RevokeAttestation ?r)"
    unfolding q(3) using handle_facts [OF shapes dwf assms(5)] by (intro revocation_parses up assms(6)) auto
  define R' where "R' = snd (publish ?p ?D)"
  have "revoke_handle C n reason bar now R = (Inr q, R')"
    using assms(5) q(1) by (simp add: revoke_handle_def Let_def split_beta R'_def)
  moreover have "own_keys C R' = own_keys C ?D"
    by (simp add: R'_def own_keys_def registrar_public_keys_def)
  moreover have "\<exists>h'. store_handle (r_store R') ?n = Some h' \<and> hr_lapsed_at h' \<noteq> None"
    using assms(5) by (simp add: R'_def store_publish_def store_handle_def split_beta Let_def publish_records_frame om_simps
        del: publish_records.simps)
  ultimately show ?thesis
    using q(2) parsed covered by (auto simp: R'_def revocation_of_def)
qed

theorem revocation_voids_issued_witness:
  "\<exists>q r r' h' R'. revoke_handle sample_crypto ''Alice'' 4 True 200 sample_registrar = (Inr q, R')
    \<and> map_of (records (r_store R')) q = Some r'
    \<and> record_parse sample_crypto (nr_bytes r') (Some (own_keys sample_crypto R')) = Inr (RevokeAttestation r)
    \<and> ar_identity r = hr_identity sample_handle \<and> ar_handle r = to_ascii_lowercase ''Alice''
    \<and> (\<forall>p\<in>set (log (r_store R')). le_identity (snd p) = hr_identity sample_handle
          \<and> le_handle (snd p) = to_ascii_lowercase ''Alice'' \<longrightarrow> le_issued (snd p) \<le> ar_time r)
    \<and> store_handle (r_store R') (to_ascii_lowercase ''Alice'') = Some h' \<and> hr_lapsed_at h' \<noteq> None"
proof (rule revocation_voids_issued [OF sample_inv rtranclp.rtrancl_refl _ sample_capacity])
  have low: "to_ascii_lowercase ''Alice'' = ''alice''"
    by code_simp
  show "store_handle (r_store (publish_due sample_crypto 200 sample_registrar)) (to_ascii_lowercase ''Alice'') = Some sample_handle"
    unfolding sample_due low
    by (simp add: store_handle_def sample_registrar_def new_registrar_def sample_store_def)
  show "no_collision sample_crypto (publish_due sample_crypto 200 sample_registrar)
     (nr_bytes (attestation_revocation sample_crypto (publish_due sample_crypto 200 sample_registrar)
        (hr_identity sample_handle) (to_ascii_lowercase ''Alice'') 4 200))"
    unfolding sample_due no_collision_def
    by (simp add: sample_registrar_def new_registrar_def sample_store_def)
qed (simp_all add: attestation_reason_ABUSE_def)

end
