(* ===== verification/Registrar_Issuance.thy ===== *)
theory Registrar_Issuance
  imports Registrar_Safety
begin

section \<open>What the registrar issues and signs\<close>

text \<open>
  The answers of the registrar: what a registration issues and what the signed lists carry, and that
  a client which checks them accepts them.
\<close>


subsection \<open>What a registration issues\<close>

lemma sat_mul_pos: "0 < a \<Longrightarrow> 0 < b \<Longrightarrow> 0 < sat_mul a (b :: u64)"
  by (auto simp: sat_mul_def word_less_nat_alt unat_word_ariths unat_max_word_eq)

lemma sat_add_greater: "0 < b \<Longrightarrow> a < - 1 \<Longrightarrow> a < sat_add a (b :: u64)"
  by (simp add: word_less_nat_alt unat_sat_add unat_max_word_eq)

lemma issue_time_ge: "now \<le> issue_time C R req now"
  using issue_time_cases [of C R req now] order_trans [OF _ le_sat_add] by auto

lemma issued_attestation_ok:
  assumes "set_up C R" "request_good req" "handle_is_canonical (rr_handle req) lo hi"
    and "cfg_level (r_cfg R) \<le> 3" "0 < cfg_attestation_days (r_cfg R)" "0 < reg" "reg \<le> t" "t < - 1"
  shows "attestation_typed (issue_attestation C R req reg t)" "attestation_ok (issue_attestation C R req reg t)"
proof -
  have "(0 :: u64) < DAY" by (simp add: DAY_def)
  then have "0 < sat_mul (cfg_attestation_days (r_cfg R)) DAY" using assms(5) by (intro sat_mul_pos)
  then have "t < sat_add t (sat_mul (cfg_attestation_days (r_cfg R)) DAY)"
    using assms(8) by (rule sat_add_greater)
  then show "attestation_ok (issue_attestation C R req reg t)"
    using assms handle_canonical_facts [OF assms(3)]
    by (auto simp: attestation_ok_def issue_attestation_def set_up_def request_good_def name_ok_def MAX_HANDLE_BYTES_def)
  show "attestation_typed (issue_attestation C R req reg t)"
    using assms(1,2) is_host_text
    by (auto simp: attestation_typed_def issue_attestation_def set_up_def request_good_def name_ok_def crypto_ok_def)
qed

lemma register_fresh_cases:
  assumes "register C bs addr now R = (Inr reply, R')" "limits_seen (r_limits R) (digest C bs) now = None"
  obtains req R1 where "register_parse C bs = Inr req" "rr_registrar req = cfg_host (r_cfg R)"
    "abs_diff (rr_time req) now \<le> cfg_clock_skew (r_cfg R)"
    "handle_is_canonical (rr_handle req) (cfg_handle_min (r_cfg R)) (cfg_handle_max (r_cfg R))"
    "register_decide C req addr now (publish_due C now R) = (Inr reply, R1)"
    "R' = R1\<lparr>r_limits := limits_remember (digest C bs) (sat_add (rr_time req) (cfg_clock_skew (r_cfg R1)) + 1)
        reply now (r_limits R1)\<rparr>"
proof (cases "register_parse C bs")
  case (Inl e)
  with assms show thesis by (simp add: register_def)
next
  case (Inr req)
  show thesis
    by (cases "register_decide C req addr now (publish_due C now R)", cases "fst (register_decide C req addr now (publish_due C now R))")
      (use assms Inr in \<open>auto simp: register_def check_time_def Let_def not_less split: if_splits intro!: that\<close>)
qed

lemma register_issues_entry:
  assumes "reg_inv C (now, R)" "capacity R" "request_good req"
    and "register_decide C req addr now (publish_due C now R) = (Inr reply, R')"
  obtains reg first rec ivt q where "0 < reg" "reg \<le> now"
    "issue_time C (publish_due C now R) req now \<le> sat_add now (cfg_clock_skew (r_cfg R))"
    "rg_attestation reply = attestation_seal C (r_key R) (issue_attestation C R req reg (issue_time C (publish_due C now R) req now))"
    "rg_registered reply = reg"
    "log (r_store R') = log (r_store R) @ [(q, log_entry_of (issue_of C R req reg first rec ivt (issue_time C (publish_due C now R) req now)))]"
    "store_handle (r_store R') (rr_handle req)
       = Some (is_handle (issue_of C R req reg first rec ivt (issue_time C (publish_due C now R) req now)))"
proof -
  let ?D = "publish_due C now R"
  have wf: "store_wf (r_store R)" using assms(1) by (simp add: reg_inv_def)
  have shapes: "shapes C now (r_store ?D)" "0 < now" using assms(1) shapes_due by (simp_all add: reg_inv_def)
  from assms(4) show thesis
  proof (cases rule: register_decide_cases)
    case (issue reg first rec ivt R1)
    have reg: "0 < reg" "reg \<le> now"
      using claim_registered [OF issue(2)] shapes
      by (auto simp: shapes_def store_handle_def row_good_def dest: om_all_get)
    have R1: "r_cfg R1 = r_cfg R" "r_key R1 = r_key R" "r_store R1 = r_store ?D" using issue by simp_all
    have same: "same_registrar ?D R1" using issue(5,6) by (simp add: same_registrar_def)
    have time: "issue_time C R1 req now = issue_time C ?D req now"
      unfolding issue_time_def issue(4) revoked_through_store [OF same issue(4)] ..
    have att: "issue_attestation C R1 = issue_attestation C R"
      by (simp add: issue_attestation_def fun_eq_iff R1)
    have iss: "issue_of C R1 = issue_of C R" by (simp add: issue_of_def fun_eq_iff att R1)
    from issue(7) show thesis
    proof (cases rule: register_issue_cases)
      case (logged w q)
      note stored = store_issue_log [OF logged(2)]
      show thesis
        by (rule that [of reg q first rec ivt])
          (use reg logged stored(1,3) due_wf [OF wf assms(2)] due_room [OF wf assms(2)] in
            \<open>simp_all add: R1 time iss att reply_of_def store_handle_def\<close>)
    qed (use assms in simp)
  qed simp
qed

lemma issue_time_past:
  assumes "store_identity (r_store R) (rr_identity req) \<noteq> None"
    and "revoked_through C R (rr_identity req) (rr_handle req) = Some t" "issue_time C R req now < - 1"
  shows "t < issue_time C R req now"
proof (cases "now \<le> t")
  case True
  then have "issue_time C R req now = sat_add t 1" using assms(1,2) by (auto simp: issue_time_def)
  with assms(3) less_sat_add_1 [of t] le_sat_add [of t 1] show ?thesis by (cases "t = - 1") auto
qed (use assms in \<open>auto simp: issue_time_def not_le\<close>)

text \<open>C3: what a registration issues.  A fresh registration that succeeds answers with an attestation that a
  client parses and verifies; it binds the identity that signed the request to the handle it asked
  for, at this registrar, under this registrar's key, dated between now and the clock skew from now
  and past every revocation of the two that was published; it is the next entry of the issuance log;
  and the handle is held by that identity, neither lapsed nor barred, until it expires.\<close>

theorem register_issues:
  assumes "reg_inv C (now, R)" "capacity R" "register C bs addr now R = (Inr reply, R')"
    and "limits_seen (r_limits R) (digest C bs) now = None"
    and "cfg_level (r_cfg R) \<le> 3" "0 < cfg_attestation_days (r_cfg R)" "sat_add now (cfg_clock_skew (r_cfg R)) < - 1"
  shows "\<exists>req a q e h. register_parse C bs = Inr req \<and> attestation_parse C (rg_attestation reply) = Inr a
    \<and> at_identity a = rr_identity req \<and> at_handle a = rr_handle req \<and> at_registrar a = cfg_host (r_cfg R)
    \<and> at_registrar_key a = ed_public C (r_key R)
    \<and> now \<le> at_issued a \<and> at_issued a \<le> sat_add now (cfg_clock_skew (r_cfg R))
    \<and> (\<forall>t. store_identity (r_store (publish_due C now R)) (rr_identity req) \<noteq> None
          \<and> revoked_through C (publish_due C now R) (rr_identity req) (rr_handle req) = Some t \<longrightarrow> t < at_issued a)
    \<and> log (r_store R') = log (r_store R) @ [(q, e)] \<and> le_bytes e = rg_attestation reply
    \<and> le_identity e = rr_identity req \<and> le_handle e = rr_handle req
    \<and> store_handle (r_store R') (rr_handle req) = Some h \<and> hr_identity h = rr_identity req
    \<and> hr_expires h = at_expires a \<and> hr_lapsed_at h = None \<and> \<not> hr_barred h"
proof -
  let ?D = "publish_due C now R"
  obtain req R1 where req: "register_parse C bs = Inr req"
    "handle_is_canonical (rr_handle req) (cfg_handle_min (r_cfg R)) (cfg_handle_max (r_cfg R))"
    "register_decide C req addr now ?D = (Inr reply, R1)" "r_store R' = r_store R1"
    by (rule register_fresh_cases [OF assms(3,4)]) auto
  let ?t = "issue_time C ?D req now"
  note good = register_parse_good [OF req(1)]
  obtain reg first rec ivt q where issued: "0 < reg" "reg \<le> now" "?t \<le> sat_add now (cfg_clock_skew (r_cfg R))"
    "rg_attestation reply = attestation_seal C (r_key R) (issue_attestation C R req reg ?t)"
    "log (r_store R1) = log (r_store R) @ [(q, log_entry_of (issue_of C R req reg first rec ivt ?t))]"
    "store_handle (r_store R1) (rr_handle req) = Some (is_handle (issue_of C R req reg first rec ivt ?t))"
    by (rule register_issues_entry [OF assms(1,2) good req(3)])
  have up: "set_up C R" using assms(1) by (simp add: reg_inv_def)
  have late: "?t < - 1" using issued(3) assms(7) by simp
  note ok = issued_attestation_ok [OF up good req(2) assms(5,6) issued(1) order_trans [OF issued(2) issue_time_ge] late]
  have "attestation_parse C (rg_attestation reply) = Inr (issue_attestation C R req reg ?t)"
    unfolding issued(4) using up ok by (intro attestation_seal_parses) (simp_all add: set_up_def issue_attestation_def)
  then show ?thesis
    using issued req(1,4) issue_time_ge [of now C ?D req] issue_time_past [OF _ _ late]
    by (auto simp: issue_attestation_def log_entry_of_def issue_of_def Let_def intro!: exI)
qed


text \<open>The holder of the sample handle asks for it again.\<close>

lemma sample_registers:
  obtains reply R' where "register sample_crypto sample_request_bytes (V4 [1, 2, 3, 4]) 100 sample_registrar = (Inr reply, R')"
proof -
  have state: "r_store sample_registrar = sample_store" "r_cfg sample_registrar = new_config ''hl.example''"
    "limits_seen (r_limits sample_registrar) d 100 = None" for d
    by (simp_all add: sample_registrar_def new_registrar_def limits_seen_def limits_default_def)
  have claim: "register_claim fp (replicate 32 7) (store_recovery sample_store ''alice'') (store_handle sample_store ''alice'') 100
      (hold sample_registrar) = Inr (20, False, None)" for fp
    by (simp add: register_claim_def store_recovery_def store_handle_def sample_store_def sample_handle_def
        handle_state_at_def handle_lapsed_def)
  have "revoked_through sample_crypto sample_registrar k n = None" for k n
    by (simp add: revoked_through_def all_records_of_def records_page_items visible_records_def state sample_store_def
        page_of_def map_filter_simps)
  then have time: "issue_time sample_crypto sample_registrar sample_request 100 = 100"
    by (simp add: issue_time_def split: option.split)
  have canonical: "handle_is_canonical ''alice'' 3 32" by code_simp
  have standing: "register_standing sample_registrar sample_request = Inr ()"
    by (simp add: register_standing_def state sample_request_def store_identity_def sample_store_def sample_row_def
        fresh_identity_def usable_def)
  have "\<exists>reply R'. register_decide sample_crypto sample_request (V4 [1, 2, 3, 4]) 100 sample_registrar = (Inr reply, R')"
    using standing claim time
    by (auto simp: register_decide_def state sample_request_def register_issue_def Let_def store_issue_def spend_invite_def
        issue_of_def new_config_def not_less [symmetric] sat_add_def split: option.split)
  then show thesis
    using that canonical
    by (auto simp: register_def sample_request_parses check_time_def state sample_due sample_request_def new_config_def
        abs_diff_def Let_def)
qed

theorem register_issues_witness:
  "\<exists>reply R' req a q e h. register sample_crypto sample_request_bytes (V4 [1, 2, 3, 4]) 100 sample_registrar = (Inr reply, R')
    \<and> register_parse sample_crypto sample_request_bytes = Inr req
    \<and> attestation_parse sample_crypto (rg_attestation reply) = Inr a \<and> at_identity a = rr_identity req
    \<and> at_handle a = rr_handle req
    \<and> log (r_store R') = log (r_store sample_registrar) @ [(q, e)] \<and> le_bytes e = rg_attestation reply
    \<and> store_handle (r_store R') (rr_handle req) = Some h \<and> hr_identity h = rr_identity req"
proof -
  obtain reply R' where registers:
    "register sample_crypto sample_request_bytes (V4 [1, 2, 3, 4]) 100 sample_registrar = (Inr reply, R')"
    by (rule sample_registers)
  have cfg: "r_cfg sample_registrar = new_config ''hl.example''"
    "limits_seen (r_limits sample_registrar) (digest sample_crypto sample_request_bytes) 100 = None"
    by (simp_all add: sample_registrar_def new_registrar_def limits_seen_def limits_default_def)
  show ?thesis
    using register_issues [OF sample_inv sample_capacity registers cfg(2)] registers
    by (simp add: cfg new_config_def sat_add_def) blast
qed


subsection \<open>The signed lists\<close>

lemma length_le_cost: "length es \<le> sum_list (map (\<lambda>e. length (snd e) + ENTRY_OVERHEAD) es)"
  by (induction es) (simp_all add: ENTRY_OVERHEAD_def)

lemma cost_member: "e \<in> set es \<Longrightarrow> length (snd e) \<le> sum_list (map (\<lambda>e. length (snd e) + ENTRY_OVERHEAD) es)"
  by (induction es) auto

text \<open>A page of entries that fit on their own fits the budget.\<close>

lemma page_of_fits:
  assumes "\<forall>e\<in>set items. entry_cost (snd e) \<le> budget"
  obtains n where "page_of items budget = \<lparr>pg_entries = take n items, pg_more = n < length items\<rparr>"
    "sum_list (map (\<lambda>e. entry_cost (snd e)) (take n items)) \<le> budget"
proof (rule page_of_take [of items budget])
  fix n
  assume n: "n \<le> length items" "page_of items budget = \<lparr>pg_entries = take n items, pg_more = n < length items\<rparr>"
    "n \<le> 1 \<or> sum_list (map (\<lambda>e. entry_cost (snd e)) (take n items)) \<le> budget"
  have "sum_list (map (\<lambda>e. entry_cost (snd e)) (take n items)) \<le> budget" if "n \<le> 1"
    using that assms by (cases items) (auto simp: take_Cons' le_Suc_eq)
  with n that show thesis by blast
qed

lemma list_to_sign_fingerprint [simp]: "sl_fingerprint (list_to_sign R fp since p now) = fp"
  by (simp add: list_to_sign_def)

lemma sign_list_parses:
  assumes "set_up C R" "sorted_wrt (<) (map fst items)" "\<forall>e\<in>set items. since_or_0 since < fst e"
    and "\<forall>e\<in>set items. length (snd e) \<le> REVOKE_DEVICE_MAX_BYTES"
    and "kind = Log \<longrightarrow> fp = None" "opt_all (\<lambda>f. length f = 32) fp"
  shows "\<exists>bs. sign_list C R kind fp since (page_of items page_budget) now = Some bs
    \<and> signed_list_parse C bs kind (own_keys C R) = Inr (list_to_sign R fp since (page_of items page_budget) now)"
proof -
  have "\<forall>e\<in>set items. entry_cost (snd e) \<le> page_budget"
    using assms(4)
    by (auto simp: entry_cost_def page_budget_def LIST_MAX_BYTES_def PAGE_OVERHEAD_def ENTRY_OVERHEAD_def
        REVOKE_DEVICE_MAX_BYTES_def dest!: bspec)
  then obtain n where n: "page_of items page_budget = \<lparr>pg_entries = take n items, pg_more = n < length items\<rparr>"
    "sum_list (map (\<lambda>e. length (snd e) + ENTRY_OVERHEAD) (take n items)) \<le> page_budget"
    by (rule page_of_fits) (simp add: entry_cost_def)
  let ?l = "list_to_sign R fp since (page_of items page_budget) now"
  have list: "sl_entries ?l = take n items" "sl_registrar ?l = cfg_host (r_cfg R)" "sl_fingerprint ?l = fp"
    "sl_since ?l = since" "sl_issued ?l = now" "now \<le> sl_expires ?l"
    by (simp_all add: list_to_sign_def n(1) le_sat_add)
  have small: "m < 2 ^ 64" if "m \<le> sum_list (map (\<lambda>e. length (snd e) + ENTRY_OVERHEAD) (take n items))" for m
    using that n(2) by (simp add: page_budget_def LIST_MAX_BYTES_def PAGE_OVERHEAD_def)
  have typed: "signed_list_typed ?l"
    unfolding signed_list_typed_def list
    using assms(1,6) is_host_text small [OF length_le_cost] small [OF cost_member] by (simp add: set_up_def)
  have "sorted_wrt (<) (map fst (take n items))"
    using assms(2) by (simp add: take_map [symmetric] sorted_wrt_take)
  moreover have "\<forall>e\<in>set (take n items). opt_all (\<lambda>s. s < fst e) since"
    using assms(3) by (cases since) (auto simp: since_or_0_def dest: in_set_takeD)
  ultimately have "signed_list_parse C (seal (signed_list_unsigned ?l) (sign_domain C (r_key R) (list_domain kind))) kind
      (own_keys C R) = Inr ?l"
    using typed assms(1,5) n(2) [unfolded page_budget_def]
    by (intro signed_list_seal_parses)
      (simp_all add: list set_up_def own_keys_def registrar_public_keys_def)
  moreover have "kind = Records \<or> fp = None" using assms(5) by (cases kind) auto
  ultimately show ?thesis by (auto simp: sign_list_def signed_list_sign_def list)
qed

lemma after_since:
  assumes "sat_add (since_or_0 since) 1 \<le> q" "q < - 1"
  shows "since_or_0 since < q"
proof -
  have "since_or_0 since \<noteq> - 1" using assms le_sat_add [of "- 1 :: u64" 1] by auto
  then show ?thesis using less_sat_add_1 assms(1) less_le_trans by blast
qed

lemma room_below_max:
  assumes "store_wf s" "room 1 s"
  shows "p \<in> set (records s) \<Longrightarrow> fst p < - 1" "p' \<in> set (log s) \<Longrightarrow> fst p' < - 1"
proof -
  have "next_record s < - 1" "next_log s < - 1"
    using assms(2) by (simp_all add: room_def word_less_nat_alt unat_max_word_eq)
  then show "p \<in> set (records s) \<Longrightarrow> fst p < - 1" "p' \<in> set (log s) \<Longrightarrow> fst p' < - 1"
    using assms(1) by (auto simp: store_wf_def seqs_below_def intro: le_less_trans)
qed

lemma sorted_filter_keys: "sorted_wrt (<) (map fst xs) \<Longrightarrow> sorted_wrt (<) (map fst (filter P xs))"
  by (simp add: sorted_wrt_map sorted_wrt_filter)

lemma records_list_parses:
  assumes "set_up C R" "shapes C T (r_store R)" "store_wf (r_store R)" "room 1 (r_store R)" "opt_all (\<lambda>f. length f = 32) fp"
  shows "\<exists>bs. sign_list C R Records fp since (records_page (r_store R) flt (since_or_0 since) page_budget) now = Some bs
    \<and> signed_list_parse C bs Records (own_keys C R)
        = Inr (list_to_sign R fp since (records_page (r_store R) flt (since_or_0 since) page_budget) now)"
  unfolding records_page_items
proof (rule sign_list_parses [OF assms(1)])
  let ?items = "filter (\<lambda>p. sat_add (since_or_0 since) 1 \<le> fst p) (visible_records (r_store R) flt)"
  show "sorted_wrt (<) (map fst ?items)" by (rule sorted_filter_keys [OF store_items(3) [OF assms(3)]])
  show "\<forall>e\<in>set ?items. since_or_0 since < fst e"
    using room_below_max(1) [OF assms(3,4)] after_since by (force simp: visible_records_def)
  show "\<forall>e\<in>set ?items. length (snd e) \<le> REVOKE_DEVICE_MAX_BYTES"
    using assms(2) by (force simp: visible_records_def shapes_def om_all_def record_good_def)
qed (use assms(5) in simp_all)

lemma log_list_parses:
  assumes "set_up C R" "shapes C T (r_store R)" "store_wf (r_store R)" "room 1 (r_store R)"
  shows "\<exists>bs. sign_list C R Log None since (log_page (r_store R) (since_or_0 since) page_budget) now = Some bs
    \<and> signed_list_parse C bs Log (own_keys C R)
        = Inr (list_to_sign R None since (log_page (r_store R) (since_or_0 since) page_budget) now)"
  unfolding log_page_items
proof (rule sign_list_parses [OF assms(1)])
  let ?items = "filter (\<lambda>p. sat_add (since_or_0 since) 1 \<le> fst p) (map (\<lambda>(q, e). (q, le_bytes e)) (log (r_store R)))"
  show "sorted_wrt (<) (map fst ?items)" by (rule sorted_filter_keys [OF store_items(1) [OF assms(3)]])
  show "\<forall>e\<in>set ?items. since_or_0 since < fst e"
    using room_below_max(2) [OF assms(3,4)] after_since by force
  show "\<forall>e\<in>set ?items. length (snd e) \<le> REVOKE_DEVICE_MAX_BYTES"
    using assms(2) by (force simp: shapes_def om_all_def REVOKE_DEVICE_MAX_BYTES_def)
qed simp_all


text \<open>C6: the lists verify.  In every state a run reaches, every list the registrar signs, the records of
  one identity, all the records, or the issuance log, from any \<open>since\<close>, fits the size bound and is
  accepted by a client that knows the registrar's keys, with exactly the page of the store's entries
  after \<open>since\<close>.\<close>

theorem signed_lists_verify:
  assumes "reg_inv C (t0, R0)" "reg_run C (t0, R0) (t, R)" "capacity R" "length fp = 32"
  shows "\<exists>b1 b2 b3 l1.
    fst (records_for C fp since now R) = Some b1 \<and> signed_list_parse C b1 Records (own_keys C R) = Inr l1
    \<and> sl_fingerprint l1 = Some fp \<and> sl_since l1 = since
    \<and> sl_entries l1 = (case identity_by_fingerprint C (r_store (publish_due C now R)) fp of
         Some row \<Rightarrow> pg_entries (records_page (r_store (publish_due C now R)) (ByIdentity (id_key row)) (since_or_0 since) page_budget)
       | None \<Rightarrow> [])
    \<and> fst (records_since C since now R) = Some b2
    \<and> signed_list_parse C b2 Records (own_keys C R) = Inr (list_to_sign (publish_due C now R) None since
        (records_page (r_store (publish_due C now R)) (AllRecords now (device_revocations_kept (cfg_rates (r_cfg R))))
           (since_or_0 since) page_budget) now)
    \<and> fst (log_since C since now R) = Some b3
    \<and> signed_list_parse C b3 Log (own_keys C R)
        = Inr (list_to_sign R None since (log_page (r_store R) (since_or_0 since) page_budget) now)"
proof -
  let ?D = "publish_due C now R"
  have inv: "set_up C R" "store_wf (r_store R)" "shapes C t (r_store R)" "room 1 (r_store R)"
    using safe.run_ok [OF assms(2,1)] assms(3) by (auto simp: reg_inv_def capacity_def needs_def intro: room_mono)
  have due: "set_up C ?D" "shapes C t (r_store ?D)" "store_wf (r_store ?D)" "room 1 (r_store ?D)"
    using inv shapes_due [OF inv(1,3)] due_wf [OF inv(2) assms(3)] due_room [OF inv(2) assms(3)] by simp_all
  have keys: "own_keys C ?D = own_keys C R" by (rule same_registrar_simps(1) [OF due_same])
  note lists = records_list_parses [OF due, unfolded keys, where since = since and now = now]
  have empty: "page_of [] page_budget = \<lparr>pg_entries = [], pg_more = False\<rparr>" by (simp add: page_of_def)
  note absent = sign_list_parses [OF due(1), of "[]" since Records "Some fp" now, unfolded keys empty]
  have one: "\<exists>b l. fst (records_for C fp since now R) = Some b \<and> signed_list_parse C b Records (own_keys C R) = Inr l
      \<and> sl_fingerprint l = Some fp \<and> sl_since l = since
      \<and> sl_entries l = (case identity_by_fingerprint C (r_store ?D) fp of
           Some row \<Rightarrow> pg_entries (records_page (r_store ?D) (ByIdentity (id_key row)) (since_or_0 since) page_budget)
         | None \<Rightarrow> [])"
  proof (cases "identity_by_fingerprint C (r_store ?D) fp")
    case None
    with absent assms(4) show ?thesis by (auto simp: records_for_def list_to_sign_def Let_def)
  next
    case (Some row)
    with lists [of "Some fp" "ByIdentity (id_key row)"] assms(4) show ?thesis
      by (auto simp: records_for_def list_to_sign_def Let_def)
  qed
  show ?thesis
    using one lists [of None] log_list_parses [OF inv(1,3,2,4), of since now]
    by (auto simp: records_since_def log_since_def Let_def)
qed

theorem signed_lists_verify_witness:
  "\<exists>b3. fst (log_since sample_crypto None 200 sample_registrar) = Some b3
    \<and> signed_list_parse sample_crypto b3 Log (own_keys sample_crypto sample_registrar)
        = Inr (list_to_sign sample_registrar None None \<lparr>pg_entries = [(1, [1, 2, 3])], pg_more = False\<rparr> 200)"
proof -
  have "log_page (r_store sample_registrar) (since_or_0 None) page_budget = \<lparr>pg_entries = [(1, [1, 2, 3])], pg_more = False\<rparr>"
    by (simp add: log_page_def from_seq_def since_or_0_def sample_registrar_def new_registrar_def sample_store_def
        sample_entry_def page_of_def sat_add_def)
  then show ?thesis
    using signed_lists_verify [OF sample_inv rtranclp.rtrancl_refl sample_capacity, of "replicate 32 5" None 200]
    by auto
qed

end
