(* ===== verification/Mailboxes.thy ===== *)
theory Mailboxes
  imports Ordered_Map "HOL-Library.Sublist"
begin

section \<open>Mailboxes, message ids and times\<close>

text \<open>
  \<^verbatim>\<open>crates/hxd-core/src/inbox.rs\<close>: the key the inbox and the relationship store share.  A mailbox is
  keyed by the identity's fingerprint where the account has one and by its login otherwise;
  \<open>mkey\<close> names that key, and \<open>is_mb\<close> compares it.

  A \<open>SystemTime\<close> is its signed distance from the Unix epoch in nanoseconds.
\<close>

type_synonym fp = bytes
type_synonym systime = int

record mailbox =
  mb_login :: string
  mb_fp :: "fp option"

definition mailbox_login :: "string \<Rightarrow> mailbox" where
  "mailbox_login l = \<lparr>mb_login = l, mb_fp = None\<rparr>"

definition mailbox_identified :: "string \<Rightarrow> fp \<Rightarrow> mailbox" where
  "mailbox_identified l f = \<lparr>mb_login = l, mb_fp = Some f\<rparr>"

definition mailbox_matches :: "mailbox \<Rightarrow> string \<Rightarrow> fp option \<Rightarrow> bool" where
  "mailbox_matches m row_login row_fp =
     (case (mb_fp m, row_fp) of
        (Some mine, Some theirs) \<Rightarrow> mine = theirs
      | (None, None) \<Rightarrow> mb_login m = row_login
      | _ \<Rightarrow> False)"

definition is_mb :: "mailbox \<Rightarrow> mailbox \<Rightarrow> bool" where
  "is_mb m key = mailbox_matches key (mb_login m) (mb_fp m)"

text \<open>The key itself.\<close>

datatype mkey = ByFp fp | ByLogin string

definition mkey :: "mailbox \<Rightarrow> mkey" where
  "mkey m = (case mb_fp m of Some f \<Rightarrow> ByFp f | None \<Rightarrow> ByLogin (mb_login m))"

lemma is_mb_mkey: "is_mb m k \<longleftrightarrow> mkey m = mkey k"
  by (auto simp: is_mb_def mailbox_matches_def mkey_def split: option.split)


subsection \<open>Lists edited in place\<close>

text \<open>\<open>Iterator::position\<close> and \<open>Vec::remove\<close>.\<close>

fun position :: "('a \<Rightarrow> bool) \<Rightarrow> 'a list \<Rightarrow> nat option" where
  "position P [] = None"
| "position P (x # xs) = (if P x then Some 0 else map_option Suc (position P xs))"

definition remove_nth :: "nat \<Rightarrow> 'a list \<Rightarrow> 'a list" where
  "remove_nth i xs = take i xs @ drop (Suc i) xs"

lemma position_None: "position P xs = None \<longleftrightarrow> (\<forall>x\<in>set xs. \<not> P x)"
  by (induction xs) auto

lemma position_split:
  "position P xs = Some i \<Longrightarrow> \<exists>ys x zs. xs = ys @ x # zs \<and> length ys = i \<and> P x \<and> (\<forall>y\<in>set ys. \<not> P y)"
proof (induction xs arbitrary: i)
  case (Cons x xs)
  show ?case
  proof (cases "P x")
    case True
    with Cons.prems show ?thesis by (intro exI [of _ "[]"]) simp
  next
    case False
    with Cons.prems obtain j where j: "position P xs = Some j" "i = Suc j" by auto
    from Cons.IH [OF this(1)] obtain ys z zs where
      "xs = ys @ z # zs" "length ys = j" "P z" "\<forall>y\<in>set ys. \<not> P y" by blast
    then have "x # xs = (x # ys) @ z # zs \<and> length (x # ys) = i \<and> P z \<and> (\<forall>y\<in>set (x # ys). \<not> P y)"
      using False j(2) by simp
    then show ?thesis by blast
  qed
qed simp

lemma remove_nth_split [simp]: "length ys = i \<Longrightarrow> remove_nth i (ys @ x # zs) = ys @ zs"
  by (auto simp: remove_nth_def)

lemma position_less: "position P xs = Some i \<Longrightarrow> i < length xs"
  by (auto dest!: position_split)

lemma length_remove_nth: "i < length xs \<Longrightarrow> length (remove_nth i xs) = length xs - 1"
  by (simp add: remove_nth_def)

lemma set_remove_nth: "set (remove_nth i xs) \<subseteq> set xs"
  using set_take_subset [of i xs] set_drop_subset [of "Suc i" xs] by (auto simp: remove_nth_def)

lemma position_cong: "(\<And>x. x \<in> set xs \<Longrightarrow> P x = Q x) \<Longrightarrow> position P xs = position Q xs"
  by (induction xs) auto

lemma subseq_set: "subseq xs ys \<Longrightarrow> set xs \<subseteq> set ys"
  by (auto elim: list_emb_set)

lemma subseq_keeps_distinct: "subseq xs ys \<Longrightarrow> distinct ys \<Longrightarrow> distinct xs"
  by (induction rule: list_emb.induct) (auto dest: subseq_set)

text \<open>\<open>Vec::retain\<close> with a counter: the first \<open>n\<close> that \<open>P\<close> names go.\<close>

fun retain_upto :: "('a \<Rightarrow> bool) \<Rightarrow> nat \<Rightarrow> 'a list \<Rightarrow> nat \<times> 'a list" where
  "retain_upto P n [] = (0, [])"
| "retain_upto P n (x # xs) =
     (if P x \<and> 0 < n then (let (k, ys) = retain_upto P (n - 1) xs in (Suc k, ys))
      else (let (k, ys) = retain_upto P n xs in (k, x # ys)))"

lemma filter_retain_upto:
  "(\<And>x. x \<in> set xs \<Longrightarrow> P x \<Longrightarrow> \<not> Q x) \<Longrightarrow> filter Q (snd (retain_upto P n xs)) = filter Q xs"
  by (induction P n xs rule: retain_upto.induct) (auto simp: split_beta Let_def)

lemma length_retain_upto: "fst (retain_upto P n xs) + length (snd (retain_upto P n xs)) = length xs"
  by (induction P n xs rule: retain_upto.induct) (auto simp: split_beta Let_def)

lemma retain_upto_bound: "fst (retain_upto P n xs) \<le> n"
proof (induction P n xs rule: retain_upto.induct)
  case (2 P n x xs)
  then show ?case by (cases "P x \<and> 0 < n") (auto simp: split_beta Let_def)
qed simp

lemma set_retain_upto: "set (snd (retain_upto P n xs)) \<subseteq> set xs"
  by (induction P n xs rule: retain_upto.induct) (auto simp: split_beta Let_def)


subsection \<open>Hexadecimal\<close>

definition hex_digit :: "nat \<Rightarrow> char" where
  "hex_digit n = ''0123456789abcdef'' ! n"

definition hex_byte :: "u8 \<Rightarrow> string" where
  "hex_byte b = [hex_digit (unat b div 16), hex_digit (unat b mod 16)]"

definition hex_str :: "bytes \<Rightarrow> string" where
  "hex_str bs = concat (map hex_byte bs)"

definition is_hexdigit :: "char \<Rightarrow> bool" where
  "is_hexdigit c \<longleftrightarrow> is_ascii_digit c \<or> (CHR ''a'' \<le> c \<and> c \<le> CHR ''f'') \<or> (CHR ''A'' \<le> c \<and> c \<le> CHR ''F'')"

lemma hex_digit_inject: "m < 16 \<Longrightarrow> n < 16 \<Longrightarrow> hex_digit m = hex_digit n \<longleftrightarrow> m = n"
proof -
  assume "m < 16" "n < 16"
  moreover have "distinct ''0123456789abcdef''" by simp
  ultimately show ?thesis by (simp add: hex_digit_def nth_eq_iff_index_eq)
qed

lemma hex_byte_inject: "hex_byte a = hex_byte b \<longleftrightarrow> a = b"
proof
  assume "hex_byte a = hex_byte b"
  moreover have "unat a < 256" "unat b < 256" using unsigned_less [of a] unsigned_less [of b] by simp_all
  ultimately have "unat a div 16 = unat b div 16" "unat a mod 16 = unat b mod 16"
    by (simp_all add: hex_byte_def hex_digit_inject less_mult_imp_div_less)
  then have "unat a = unat b" by (metis div_mult_mod_eq)
  then show "a = b" by (simp add: word_unat_eq_iff)
qed simp

lemma hex_str_inject: "hex_str a = hex_str b \<longleftrightarrow> a = b"
proof (induction a arbitrary: b)
  case Nil
  show ?case by (cases b) (simp_all add: hex_str_def hex_byte_def)
next
  case (Cons x a)
  show ?case
  proof (cases b)
    case Nil
    then show ?thesis by (simp add: hex_str_def hex_byte_def)
  next
    case (Cons y b')
    have "hex_str (x # a) = hex_str (y # b') \<longleftrightarrow> hex_byte x = hex_byte y \<and> hex_str a = hex_str b'"
      by (auto simp: hex_str_def hex_byte_def)
    with Cons Cons.IH show ?thesis by (simp add: hex_byte_inject)
  qed
qed


lemma length_hex_str: "length (hex_str bs) = 2 * length bs"
  by (induction bs) (simp_all add: hex_str_def hex_byte_def)

text \<open>Logins are 1 to 31 bytes (\<open>valid_login\<close> of \<^verbatim>\<open>hxd-auth-file\<close>) and fingerprints 32, so that a key spelled as
  text, a fingerprint in 64 digits, is never two keys' spelling.\<close>

definition plain :: "mailbox \<Rightarrow> bool" where
  "plain m = (case mb_fp m of Some f \<Rightarrow> length f = 32 | None \<Rightarrow> mb_login m \<noteq> [] \<and> length (mb_login m) \<le> 31)"

lemma hex_str_not_login: "length f = 32 \<Longrightarrow> length l \<le> 31 \<Longrightarrow> hex_str f \<noteq> l"
  using length_hex_str [of f] by auto


subsection \<open>Message ids\<close>

datatype message_guid = MessageGuid (guid_str: string)

definition hyphenated :: "string \<Rightarrow> string" where
  "hyphenated b = take 8 b @ ''-'' @ take 4 (drop 8 b) @ ''-'' @ take 4 (drop 12 b) @ ''-''
     @ take 4 (drop 16 b) @ ''-'' @ drop 20 b"

definition guid_bare :: "string \<Rightarrow> string option" where
  "guid_bare s =
     (if length s = 32 then Some (to_ascii_lowercase s)
      else if length s = 36 then
        (if s ! 8 \<noteq> CHR ''-'' \<or> s ! 13 \<noteq> CHR ''-'' \<or> s ! 18 \<noteq> CHR ''-'' \<or> s ! 23 \<noteq> CHR ''-'' then None
         else Some (to_ascii_lowercase (removeAll (CHR ''-'') s)))
      else None)"

definition guid_parse :: "string \<Rightarrow> message_guid option" where
  "guid_parse s =
     (case guid_bare s of
        None \<Rightarrow> None
      | Some bare \<Rightarrow>
         if length bare \<noteq> 32 \<or> \<not> list_all is_hexdigit bare then None
         else Some (MessageGuid (hyphenated bare)))"

end
