(* ===== verification/Relationships.thy ===== *)
theory Relationships
  imports Mailboxes "HOL-Library.Product_Lexorder"
begin

section \<open>The relationship store\<close>

text \<open>
  \<^verbatim>\<open>crates/hxd-core/src/relationships.rs\<close> and \<^verbatim>\<open>relationships/memory.rs\<close>: blocks, friendships, approvals,
  friend requests, ignores, holds, the ledger of requests, portable friendships, and what an account
  keeps about itself.  The record \<open>rel_state\<close> is \<open>Inner\<close>; there is one definition per method of
  \<open>RelationshipStore\<close>, which takes the state last and, where it writes, returns it updated.  The
  memory store never fails, so no method has an error.

  The ids of friendships and approvals are 64 bits and incremented unchecked.
\<close>


subsection \<open>Rows\<close>

type_synonym relation_id = u64

datatype sent_on = SentRequest | SentRelation relation_id

definition sent_on_i64 :: "sent_on \<Rightarrow> int" where
  "sent_on_i64 s = (case s of SentRequest \<Rightarrow> 0
     | SentRelation i \<Rightarrow> if uint i < 2 ^ 63 then uint i else 2 ^ 63 - 1)"

definition sent_on_of :: "int \<Rightarrow> sent_on option" where
  "sent_on_of n = (if n = 0 then Some SentRequest else if 0 < n then Some (SentRelation (word_of_int n)) else None)"

datatype ignore_mode = IgMessages | IgPresence | IgChat | IgAll

primrec ignore_mode_i64 :: "ignore_mode \<Rightarrow> int" where
  "ignore_mode_i64 IgMessages = 1"
| "ignore_mode_i64 IgPresence = 2"
| "ignore_mode_i64 IgChat = 3"
| "ignore_mode_i64 IgAll = 4"

definition ignore_mode_of :: "int \<Rightarrow> ignore_mode option" where
  "ignore_mode_of n = (if n = 1 then Some IgMessages else if n = 2 then Some IgPresence
     else if n = 3 then Some IgChat else if n = 4 then Some IgAll else None)"

record ignore =
  ig_mode :: ignore_mode
  ig_until :: "systime option"

record pending_out =
  po_sent_at :: systime
  po_lapses_at :: systime
  po_delivered :: bool
  po_note :: "string option"

record relationship =
  rel_owner :: mailbox
  rel_other :: mailbox
  rel_alias :: "string option"
  rel_blocked_at :: "systime option"
  rel_friendship :: "relation_id option"
  rel_approval :: "relation_id option"
  rel_pending_out :: "pending_out option"
  rel_ignore :: "ignore option"

definition new_relationship :: "mailbox \<Rightarrow> mailbox \<Rightarrow> relationship" where
  "new_relationship owner other = \<lparr>rel_owner = owner, rel_other = other, rel_alias = None,
     rel_blocked_at = None, rel_friendship = None, rel_approval = None, rel_pending_out = None,
     rel_ignore = None\<rparr>"

definition settle :: "relationship \<Rightarrow> relationship" where
  "settle r = (if rel_friendship r = None \<and> rel_blocked_at r = None then r\<lparr>rel_alias := None\<rparr> else r)"

definition rel_is_empty :: "relationship \<Rightarrow> bool" where
  "rel_is_empty r \<longleftrightarrow> rel_blocked_at r = None \<and> rel_friendship r = None \<and> rel_approval r = None
     \<and> rel_pending_out r = None \<and> rel_ignore r = None"

definition pending_lapsed :: "systime \<Rightarrow> pending_out option \<Rightarrow> bool" where
  "pending_lapsed now p = (case p of Some p \<Rightarrow> po_lapses_at p \<le> now | None \<Rightarrow> False)"

definition ignore_lapsed :: "systime \<Rightarrow> ignore option \<Rightarrow> bool" where
  "ignore_lapsed now i = (case i of
     Some i \<Rightarrow> (case ig_until i of Some u \<Rightarrow> u \<le> now | None \<Rightarrow> False)
   | None \<Rightarrow> False)"

definition rel_lapse :: "systime \<Rightarrow> relationship \<Rightarrow> relationship" where
  "rel_lapse now r0 =
     (let r1 = (if pending_lapsed now (rel_pending_out r0) then r0\<lparr>rel_pending_out := None\<rparr> else r0);
          r2 = (if ignore_lapsed now (rel_ignore r1) then r1\<lparr>rel_ignore := None\<rparr> else r1)
      in settle r2)"

definition as_of :: "systime \<Rightarrow> relationship \<Rightarrow> relationship option" where
  "as_of now r = (let r' = rel_lapse now r in if rel_is_empty r' then None else Some r')"

definition id_lost :: "relation_id option \<Rightarrow> relation_id option \<Rightarrow> (relation_id \<times> relation_id) list" where
  "id_lost mine theirs = (case (mine, theirs) of
     (Some m, Some t) \<Rightarrow> if m \<noteq> t then [(t, m)] else []
   | _ \<Rightarrow> [])"

definition or_opt :: "'a option \<Rightarrow> 'a option \<Rightarrow> 'a option" where
  "or_opt a b = (case a of Some x \<Rightarrow> Some x | None \<Rightarrow> b)"

definition absorb :: "relationship \<Rightarrow> relationship \<Rightarrow> (relation_id \<times> relation_id) list \<times> relationship" where
  "absorb r dup =
     (id_lost (rel_friendship r) (rel_friendship dup) @ id_lost (rel_approval r) (rel_approval dup),
      settle (r\<lparr>rel_friendship := or_opt (rel_friendship r) (rel_friendship dup),
        rel_approval := or_opt (rel_approval r) (rel_approval dup),
        rel_blocked_at := (case (rel_blocked_at r, rel_blocked_at dup) of
            (Some a, Some b) \<Rightarrow> Some (min a b)
          | (a, b) \<Rightarrow> or_opt a b),
        rel_alias := or_opt (rel_alias r) (rel_alias dup),
        rel_pending_out := or_opt (rel_pending_out r) (rel_pending_out dup),
        rel_ignore := or_opt (rel_ignore r) (rel_ignore dup)\<rparr>))"

record rekeyed =
  rk_moved :: nat
  rk_merged :: "(relation_id \<times> relation_id) list"


subsection \<open>Requests, accounts and portable friendships\<close>

datatype requester = RqAccount mailbox | RqAddress string | RqIdentity fp

datatype request_kind = KMessage | KFriend

primrec request_kind_i64 :: "request_kind \<Rightarrow> int" where
  "request_kind_i64 KMessage = 1"
| "request_kind_i64 KFriend = 2"

definition request_kind_of :: "int \<Rightarrow> request_kind option" where
  "request_kind_of n = (if n = 1 then Some KMessage else if n = 2 then Some KFriend else None)"

record ledger_entry =
  lg_kind :: request_kind
  lg_sender :: "mailbox option"
  lg_address :: "string option"
  lg_recipient :: mailbox
  lg_guid :: "message_guid option"
  lg_bytes :: u64
  lg_at :: systime

datatype recorded = RecNew | RecRetry ledger_entry

record profile =
  pf_nickname :: "string option"
  pf_first_name :: "string option"
  pf_last_name :: "string option"
  pf_email :: "string option"
  pf_gender :: u16
  pf_birthdate :: "u16 \<times> u8 \<times> u8"
  pf_country :: "string option"
  pf_postcode :: "string option"
  pf_languages :: "string list"

definition MAX_LANGUAGES :: nat where "MAX_LANGUAGES = 3"

definition default_profile :: profile where
  "default_profile = \<lparr>pf_nickname = None, pf_first_name = None, pf_last_name = None, pf_email = None,
     pf_gender = 0, pf_birthdate = (0, 0, 0), pf_country = None, pf_postcode = None, pf_languages = []\<rparr>"

record messaging_account =
  ma_status_text :: "string option"
  ma_shown_text :: "string option"
  ma_discoverable :: bool
  ma_takes_requests :: bool
  ma_requests_opted_at :: "systime option"
  ma_profile :: profile

definition default_account :: messaging_account where
  "default_account = \<lparr>ma_status_text = None, ma_shown_text = None, ma_discoverable = False,
     ma_takes_requests = False, ma_requests_opted_at = None, ma_profile = default_profile\<rparr>"

record account_update =
  au_status_text :: "string option option"
  au_shown_text :: "string option option"
  au_discoverable :: "bool option"
  au_takes_requests :: "systime option option"
  au_profile :: "profile option"

record presentation =
  pr_presenter :: fp
  pr_other :: fp
  pr_names :: "fp \<times> fp"
  pr_pair :: bytes
  pr_hash :: bytes
  pr_friendship :: "bytes option"
  pr_device :: bytes
  pr_edge :: "relation_id option"
  pr_at :: systime

record held_withdrawal =
  hw_owner :: fp
  hw_pair :: bytes
  hw_party :: fp
  hw_before :: u64
  hw_withdrawal :: "bytes option"
  hw_checked :: bool
  hw_at :: systime

record stored_offer =
  so_offer :: bytes
  so_lapses_at :: systime


subsection \<open>The state\<close>

record hold_key =
  hk_login :: "string option"
  hk_fp :: "fp option"

datatype held = HeldAccount hold_key | HeldAddress string

record hold_row =
  ho_owner :: hold_key
  ho_held :: held
  ho_until :: systime

record account_row =
  ac_owner :: mailbox
  ac_state :: messaging_account
  ac_dropped :: u64

record rel_state =
  next_seq :: u64
  next_relation :: relation_id
  rel_rows :: "(u64 \<times> relationship) list"
  relations :: "relation_id set"
  made :: "(relation_id, systime) omap"
  rel_holds :: "hold_row list"
  ledger :: "ledger_entry list"
  accounts :: "account_row list"
  presentations :: "presentation list"
  withdrawals :: "held_withdrawal list"
  offers :: "(fp \<times> fp \<times> stored_offer) list"
  rotations :: "(fp \<times> fp \<times> bytes) list"

definition empty_rel :: rel_state where
  "empty_rel = \<lparr>next_seq = 0, next_relation = 0, rel_rows = [], relations = {}, made = [], rel_holds = [],
     ledger = [], accounts = [], presentations = [], withdrawals = [], offers = [], rotations = []\<rparr>"

definition is_live :: "rel_state \<Rightarrow> relation_id \<Rightarrow> bool" where
  "is_live s i \<longleftrightarrow> i \<in> relations s"

definition is_approval :: "rel_state \<Rightarrow> relation_id \<Rightarrow> bool" where
  "is_approval s i = list_ex (\<lambda>(q, r). rel_approval r = Some i) (rel_rows s)"

definition hold_key_of :: "mailbox \<Rightarrow> hold_key" where
  "hold_key_of m = \<lparr>hk_login = Some (mb_login m), hk_fp = mb_fp m\<rparr>"

definition loosely :: "hold_key \<Rightarrow> mailbox \<Rightarrow> bool" where
  "loosely h m \<longleftrightarrow> hk_login h = Some (mb_login m) \<or> (hk_fp h \<noteq> None \<and> hk_fp h = mb_fp m)"

definition purged_by :: "hold_key \<Rightarrow> mailbox \<Rightarrow> bool" where
  "purged_by h m \<longleftrightarrow> (hk_fp h = None \<and> hk_login h = Some (mb_login m)) \<or> (mb_fp m \<noteq> None \<and> hk_fp h = mb_fp m)"

definition strip_key :: "mailbox \<Rightarrow> hold_key \<Rightarrow> hold_key" where
  "strip_key m h = (if hk_login h = Some (mb_login m) then h\<lparr>hk_login := None\<rparr> else h)"

definition held_of :: "requester \<Rightarrow> held" where
  "held_of r = (case r of
     RqAccount m \<Rightarrow> HeldAccount (hold_key_of m)
   | RqAddress a \<Rightarrow> HeldAddress a
   | RqIdentity f \<Rightarrow> HeldAccount \<lparr>hk_login = None, hk_fp = Some f\<rparr>)"

definition held_matches :: "held \<Rightarrow> requester \<Rightarrow> bool" where
  "held_matches h r = (case (h, r) of
     (HeldAccount h, RqAccount m) \<Rightarrow> loosely h m
   | (HeldAccount h, RqIdentity f) \<Rightarrow> hk_fp h = Some f
   | (HeldAddress h, RqAddress a) \<Rightarrow> h = a
   | _ \<Rightarrow> False)"

definition held_purged_by :: "held \<Rightarrow> mailbox \<Rightarrow> bool" where
  "held_purged_by h m = (case h of HeldAccount k \<Rightarrow> purged_by k m | HeldAddress _ \<Rightarrow> False)"

definition sent_by :: "ledger_entry \<Rightarrow> requester \<Rightarrow> bool" where
  "sent_by e r = (case (r, lg_sender e) of
     (RqAccount m, Some s) \<Rightarrow> is_mb s m
   | (RqAddress a, None) \<Rightarrow> lg_address e = Some a
   | (RqIdentity f, Some s) \<Rightarrow> mb_fp s = Some f
   | _ \<Rightarrow> False)"

definition key_str :: "mailbox \<Rightarrow> string" where
  "key_str m = (case mb_fp m of Some f \<Rightarrow> hex_str f | None \<Rightarrow> mb_login m)"

definition NANOS :: int where "NANOS = 1000000000"

definition secs :: "systime \<Rightarrow> int" where
  "secs t = (if t < 0 then 0 else t div NANOS)"

definition floor_time :: "systime \<Rightarrow> systime" where
  "floor_time t = secs t * NANOS"

definition floor_row :: "relationship \<Rightarrow> relationship" where
  "floor_row r = r\<lparr>rel_blocked_at := map_option floor_time (rel_blocked_at r),
     rel_pending_out := map_option (\<lambda>p. p\<lparr>po_sent_at := floor_time (po_sent_at p),
        po_lapses_at := floor_time (po_lapses_at p)\<rparr>) (rel_pending_out r),
     rel_ignore := map_option (\<lambda>i. i\<lparr>ig_until := map_option floor_time (ig_until i)\<rparr>) (rel_ignore r)\<rparr>"


subsection \<open>Editing a row\<close>

definition find_row :: "rel_state \<Rightarrow> mailbox \<Rightarrow> mailbox \<Rightarrow> nat option" where
  "find_row s owner other = position (\<lambda>(q, r). is_mb (rel_owner r) owner \<and> is_mb (rel_other r) other) (rel_rows s)"

definition row_at :: "rel_state \<Rightarrow> mailbox \<Rightarrow> mailbox \<Rightarrow> relationship option" where
  "row_at s owner other = map_option (\<lambda>i. snd (rel_rows s ! i)) (find_row s owner other)"

definition edit_row ::
    "mailbox \<Rightarrow> mailbox \<Rightarrow> (relationship \<Rightarrow> 'a \<times> relationship) \<Rightarrow> rel_state \<Rightarrow> 'a \<times> rel_state" where
  "edit_row owner other f s0 =
     (let (i, s) = (case find_row s0 owner other of
            Some i \<Rightarrow> (i, s0)
          | None \<Rightarrow> (length (rel_rows s0), s0\<lparr>next_seq := next_seq s0 + 1,
              rel_rows := rel_rows s0 @ [(next_seq s0 + 1, new_relationship owner other)]\<rparr>));
          (q, r0) = rel_rows s ! i;
          (out, r1) = f r0;
          r = settle (floor_row r1)
      in (out, s\<lparr>rel_rows := (if rel_is_empty r then remove_nth i (rel_rows s) else (rel_rows s)[i := (q, r)])\<rparr>))"

definition edit_unit :: "mailbox \<Rightarrow> mailbox \<Rightarrow> (relationship \<Rightarrow> relationship) \<Rightarrow> rel_state \<Rightarrow> rel_state" where
  "edit_unit owner other f s = snd (edit_row owner other (\<lambda>r. ((), f r)) s)"

definition mint :: "rel_state \<Rightarrow> relation_id \<times> rel_state" where
  "mint s = (next_relation s + 1, s\<lparr>next_relation := next_relation s + 1,
     relations := insert (next_relation s + 1) (relations s)\<rparr>)"

definition points_at :: "relation_id \<Rightarrow> u64 \<times> relationship \<Rightarrow> bool" where
  "points_at i p \<longleftrightarrow> rel_friendship (snd p) = Some i \<or> rel_approval (snd p) = Some i"

definition forget_one :: "relation_id \<Rightarrow> rel_state \<Rightarrow> rel_state" where
  "forget_one i s = (if list_ex (points_at i) (rel_rows s) then s
     else s\<lparr>relations := relations s - {i}, made := om_del i (made s)\<rparr>)"

definition forget :: "relation_id list \<Rightarrow> rel_state \<Rightarrow> rel_state" where
  "forget ids s = fold forget_one ids s"

definition opt_list :: "'a option \<Rightarrow> 'a list" where
  "opt_list x = (case x of Some v \<Rightarrow> [v] | None \<Rightarrow> [])"


subsection \<open>Reading and writing rows\<close>

definition rel_relationship :: "rel_state \<Rightarrow> mailbox \<Rightarrow> mailbox \<Rightarrow> systime \<Rightarrow> relationship option" where
  "rel_relationship s owner other now = Option.bind (row_at s owner other) (as_of (floor_time now))"

definition rel_relationships :: "rel_state \<Rightarrow> mailbox \<Rightarrow> systime \<Rightarrow> relationship list" where
  "rel_relationships s owner now =
     List.map_filter (\<lambda>(q, r). if is_mb (rel_owner r) owner then as_of (floor_time now) r else None) (rel_rows s)"

definition pending_in_row :: "mailbox \<Rightarrow> systime \<Rightarrow> u64 \<times> relationship \<Rightarrow> (int \<times> u64 \<times> relationship) option" where
  "pending_in_row owner now p =
     (if is_mb (rel_other (snd p)) owner then
        (case as_of (floor_time now) (snd p) of
           Some rel \<Rightarrow>
             (case rel_pending_out rel of
                Some p' \<Rightarrow> if po_delivered p' then Some (secs (po_sent_at p'), fst p, rel) else None
              | None \<Rightarrow> None)
         | None \<Rightarrow> None)
      else None)"

definition rel_pending_in :: "rel_state \<Rightarrow> mailbox \<Rightarrow> systime \<Rightarrow> relationship list" where
  "rel_pending_in s owner now =
     map (\<lambda>(t, q, r). r) (sort_key (\<lambda>(t, q, r). (t, q)) (List.map_filter (pending_in_row owner now) (rel_rows s)))"

definition roster_size :: "rel_state \<Rightarrow> mailbox \<Rightarrow> systime \<Rightarrow> nat" where
  "roster_size s owner now = length (rel_relationships s owner now)"

definition set_alias :: "mailbox \<Rightarrow> mailbox \<Rightarrow> string option \<Rightarrow> rel_state \<Rightarrow> rel_state" where
  "set_alias owner other a = edit_unit owner other (\<lambda>r. r\<lparr>rel_alias := a\<rparr>)"

definition set_blocked :: "mailbox \<Rightarrow> mailbox \<Rightarrow> bool \<Rightarrow> systime \<Rightarrow> rel_state \<Rightarrow> rel_state" where
  "set_blocked owner other blocked at = edit_unit owner other
     (\<lambda>r. r\<lparr>rel_blocked_at := (if blocked then or_opt (rel_blocked_at r) (Some at) else None)\<rparr>)"

definition is_blocked :: "rel_state \<Rightarrow> mailbox \<Rightarrow> mailbox \<Rightarrow> bool" where
  "is_blocked s owner other = (case row_at s owner other of Some r \<Rightarrow> rel_blocked_at r \<noteq> None | None \<Rightarrow> False)"

definition blocked_row :: "mailbox \<Rightarrow> u64 \<times> relationship \<Rightarrow> (int \<times> u64 \<times> mailbox) option" where
  "blocked_row owner p =
     (if is_mb (rel_owner (snd p)) owner
      then map_option (\<lambda>t. (secs t, fst p, rel_other (snd p))) (rel_blocked_at (snd p)) else None)"

definition rel_blocked :: "rel_state \<Rightarrow> mailbox \<Rightarrow> mailbox list" where
  "rel_blocked s owner =
     map (\<lambda>(t, q, m). m) (sort_key (\<lambda>(t, q, m). (t, q)) (List.map_filter (blocked_row owner) (rel_rows s)))"

definition set_pending_out :: "mailbox \<Rightarrow> mailbox \<Rightarrow> pending_out option \<Rightarrow> rel_state \<Rightarrow> rel_state" where
  "set_pending_out owner other p = edit_unit owner other (\<lambda>r. r\<lparr>rel_pending_out := p\<rparr>)"

definition set_ignore :: "mailbox \<Rightarrow> mailbox \<Rightarrow> ignore option \<Rightarrow> rel_state \<Rightarrow> rel_state" where
  "set_ignore owner other i = edit_unit owner other (\<lambda>r. r\<lparr>rel_ignore := i\<rparr>)"


subsection \<open>Friendships and approvals\<close>

definition friendship_at :: "rel_state \<Rightarrow> mailbox \<Rightarrow> mailbox \<Rightarrow> relation_id option" where
  "friendship_at s x y = Option.bind (row_at s x y) rel_friendship"

definition make_friend :: "relation_id \<Rightarrow> relationship \<Rightarrow> relation_id option \<times> relationship" where
  "make_friend i r = (rel_approval r, r\<lparr>rel_friendship := Some i, rel_pending_out := None, rel_approval := None\<rparr>)"

definition befriend_anew ::
    "mailbox \<Rightarrow> mailbox \<Rightarrow> systime \<Rightarrow> relation_id list \<Rightarrow> rel_state \<Rightarrow> relation_id \<times> rel_state" where
  "befriend_anew a b at ended s0 =
     (let (i, s1) = mint s0;
          s2 = s1\<lparr>made := om_put i (floor_time at) (made s1)\<rparr>;
          (e1, s3) = edit_row a b (make_friend i) s2;
          (e2, s4) = edit_row b a (make_friend i) s3
      in (i, forget (ended @ opt_list e1 @ opt_list e2) s4))"

definition befriend :: "mailbox \<Rightarrow> mailbox \<Rightarrow> systime \<Rightarrow> rel_state \<Rightarrow> relation_id \<times> rel_state" where
  "befriend a b at s =
     (let ab = friendship_at s a b; ba = friendship_at s b a;
          anew = befriend_anew a b at (opt_list ab @ opt_list ba) s
      in case (ab, ba) of
           (Some x, Some y) \<Rightarrow> if x = y then (x, s) else anew
         | _ \<Rightarrow> anew)"

definition unfriend_side :: "mailbox \<Rightarrow> mailbox \<Rightarrow> rel_state \<Rightarrow> relation_id list \<times> rel_state" where
  "unfriend_side x y s =
     (case find_row s x y of
        None \<Rightarrow> ([], s)
      | Some _ \<Rightarrow>
         (let (ended, s') = edit_row x y (\<lambda>r. (rel_friendship r, r\<lparr>rel_friendship := None\<rparr>)) s
          in (opt_list ended, s')))"

definition unfriend :: "mailbox \<Rightarrow> mailbox \<Rightarrow> rel_state \<Rightarrow> relation_id option \<times> rel_state" where
  "unfriend a b s =
     (let (e1, s1) = unfriend_side a b s; (e2, s2) = unfriend_side b a s1; ended = e1 @ e2
      in (case ended of i # _ \<Rightarrow> Some i | [] \<Rightarrow> None, forget ended s2))"

definition approve :: "mailbox \<Rightarrow> mailbox \<Rightarrow> systime \<Rightarrow> rel_state \<Rightarrow> relation_id \<times> rel_state" where
  "approve owner other at s =
     (case Option.bind (row_at s owner other) rel_approval of
        Some i \<Rightarrow> (i, s)
      | None \<Rightarrow>
         (let (i, s1) = mint s;
              s2 = s1\<lparr>made := om_put i (floor_time at) (made s1)\<rparr>
          in (i, edit_unit owner other (\<lambda>r. r\<lparr>rel_approval := Some i\<rparr>) s2)))"

definition end_approval :: "mailbox \<Rightarrow> mailbox \<Rightarrow> rel_state \<Rightarrow> relation_id option \<times> rel_state" where
  "end_approval owner other s =
     (case find_row s owner other of
        None \<Rightarrow> (None, s)
      | Some _ \<Rightarrow>
         (let (i, s') = edit_row owner other (\<lambda>r. (rel_approval r, r\<lparr>rel_approval := None\<rparr>)) s
          in (i, forget (opt_list i) s')))"

definition refriend :: "mailbox \<Rightarrow> mailbox \<Rightarrow> relation_id \<Rightarrow> systime \<Rightarrow> rel_state \<Rightarrow> rel_state" where
  "refriend a b i at s0 =
     (let replace = (\<lambda>r. (opt_list (rel_friendship r) @ opt_list (rel_approval r),
            r\<lparr>rel_friendship := Some i, rel_pending_out := None, rel_approval := None\<rparr>));
          s1 = s0\<lparr>relations := insert i (relations s0), made := om_or_insert i (floor_time at) (made s0)\<rparr>;
          (e1, s2) = edit_row a b replace s1;
          (e2, s3) = edit_row b a replace s2
      in forget (filter (\<lambda>e. e \<noteq> i) (e1 @ e2)) s3)"

definition made_at :: "rel_state \<Rightarrow> relation_id \<Rightarrow> systime option" where
  "made_at s i = map_of (made s) i"


subsection \<open>Portable friendships\<close>

definition by_pair :: "fp \<Rightarrow> fp \<Rightarrow> presentation \<Rightarrow> bool" where
  "by_pair presenter other p \<longleftrightarrow> pr_presenter p = presenter \<and> pr_other p = other"

definition unpresent :: "fp \<Rightarrow> fp \<Rightarrow> rel_state \<Rightarrow> presentation option \<times> rel_state" where
  "unpresent presenter other s =
     (case position (by_pair presenter other) (presentations s) of
        None \<Rightarrow> (None, s)
      | Some i \<Rightarrow> (Some (presentations s ! i), s\<lparr>presentations := remove_nth i (presentations s)\<rparr>))"

definition rel_present :: "presentation \<Rightarrow> rel_state \<Rightarrow> presentation option \<times> rel_state" where
  "rel_present p0 s0 =
     (let p = p0\<lparr>pr_at := floor_time (pr_at p0)\<rparr>;
          (old, s) = unpresent (pr_presenter p) (pr_other p) s0
      in (old, s\<lparr>presentations := presentations s @ [p]\<rparr>))"

definition rel_presentation :: "rel_state \<Rightarrow> fp \<Rightarrow> fp \<Rightarrow> presentation option" where
  "rel_presentation s presenter other = find (by_pair presenter other) (presentations s)"

definition rel_presentations :: "rel_state \<Rightarrow> fp \<Rightarrow> presentation list" where
  "rel_presentations s k = filter (\<lambda>p. pr_presenter p = k \<or> pr_other p = k) (presentations s)"

definition presented_by :: "rel_state \<Rightarrow> bytes \<Rightarrow> presentation list" where
  "presented_by s device = filter (\<lambda>p. pr_device p = device) (presentations s)"

definition same_withdrawal :: "held_withdrawal \<Rightarrow> held_withdrawal \<Rightarrow> bool" where
  "same_withdrawal w k \<longleftrightarrow> hw_owner k = hw_owner w \<and> hw_pair k = hw_pair w \<and> hw_party k = hw_party w
     \<and> (hw_withdrawal k = None \<longleftrightarrow> hw_withdrawal w = None)"

definition owned_by :: "fp \<Rightarrow> held_withdrawal list \<Rightarrow> nat list" where
  "owned_by owner ws = filter (\<lambda>i. hw_owner (ws ! i) = owner) [0..<length ws]"

definition victim :: "fp \<Rightarrow> held_withdrawal list \<Rightarrow> nat" where
  "victim owner ws = arg_min_list (\<lambda>i. (hw_withdrawal (ws ! i) = None, secs (hw_at (ws ! i)), i)) (owned_by owner ws)"

lemma victim_owned: "owned_by owner ws \<noteq> [] \<Longrightarrow> victim owner ws \<in> set (owned_by owner ws)"
  by (simp add: victim_def arg_min_list_in)

function trim_owned :: "fp \<Rightarrow> nat \<Rightarrow> held_withdrawal list \<Rightarrow> held_withdrawal list" where
  "trim_owned owner cap ws =
     (if length (owned_by owner ws) \<le> cap then ws
      else trim_owned owner cap (remove_nth (victim owner ws) ws))"
  by pat_completeness auto

termination
proof (relation "measure (\<lambda>(owner, cap, ws). length ws)")
  fix owner :: fp and cap :: nat and ws
  assume "\<not> length (owned_by owner ws) \<le> cap"
  then have "owned_by owner ws \<noteq> []" by auto
  then have "victim owner ws < length ws" using victim_owned by (fastforce simp: owned_by_def)
  then show "((owner, cap, remove_nth (victim owner ws) ws), owner, cap, ws) \<in> measure (\<lambda>(owner, cap, ws). length ws)"
    by (simp add: length_remove_nth)
qed simp

declare trim_owned.simps [simp del]

definition keep_withdrawal :: "held_withdrawal \<Rightarrow> nat \<Rightarrow> rel_state \<Rightarrow> rel_state" where
  "keep_withdrawal w cap s =
     (if list_ex (\<lambda>k. same_withdrawal w k \<and> hw_before w < hw_before k) (withdrawals s) then s
      else s\<lparr>withdrawals := trim_owned (hw_owner w) cap
        (filter (\<lambda>k. \<not> same_withdrawal w k) (withdrawals s) @ [w\<lparr>hw_at := floor_time (hw_at w)\<rparr>])\<rparr>)"

definition withdrawals_for :: "rel_state \<Rightarrow> bytes \<Rightarrow> held_withdrawal list" where
  "withdrawals_for s pair = filter (\<lambda>w. hw_pair w = pair) (withdrawals s)"

definition drop_withdrawal :: "fp \<Rightarrow> bytes \<Rightarrow> fp \<Rightarrow> rel_state \<Rightarrow> rel_state" where
  "drop_withdrawal owner pair party s = s\<lparr>withdrawals := filter (\<lambda>w. \<not> (hw_owner w = owner \<and> hw_pair w = pair
     \<and> hw_party w = party \<and> \<not> hw_checked w)) (withdrawals s)\<rparr>"

definition set_offer :: "fp \<Rightarrow> fp \<Rightarrow> stored_offer option \<Rightarrow> rel_state \<Rightarrow> rel_state" where
  "set_offer owner other off s =
     (let kept = filter (\<lambda>(a, b, k). \<not> (a = owner \<and> b = other)) (offers s)
      in s\<lparr>offers := (case off of
           Some k \<Rightarrow> kept @ [(owner, other, k\<lparr>so_lapses_at := floor_time (so_lapses_at k)\<rparr>)]
         | None \<Rightarrow> kept)\<rparr>)"

definition rel_offer :: "rel_state \<Rightarrow> fp \<Rightarrow> fp \<Rightarrow> systime \<Rightarrow> stored_offer option" where
  "rel_offer s owner other now =
     map_option (snd \<circ> snd) (find (\<lambda>(a, b, k). a = owner \<and> b = other \<and> floor_time now < so_lapses_at k) (offers s))"

definition keep_rotation :: "fp \<Rightarrow> fp \<Rightarrow> bytes \<Rightarrow> rel_state \<Rightarrow> rel_state" where
  "keep_rotation k k' bs s = (if list_ex (\<lambda>(f, _, _). f = k) (rotations s) then s
     else s\<lparr>rotations := rotations s @ [(k, k', bs)]\<rparr>)"

definition rotation_from :: "rel_state \<Rightarrow> fp \<Rightarrow> (fp \<times> bytes) option" where
  "rotation_from s k = map_option snd (find (\<lambda>(f, _, _). f = k) (rotations s))"

definition rotation_to :: "rel_state \<Rightarrow> fp \<Rightarrow> (fp \<times> bytes) option" where
  "rotation_to s k = map_option (\<lambda>(f, _, r). (f, r)) (find (\<lambda>(_, t, _). t = k) (rotations s))"


subsection \<open>Holds, the ledger and accounts\<close>

definition rel_hold :: "mailbox \<Rightarrow> requester \<Rightarrow> systime \<Rightarrow> rel_state \<Rightarrow> rel_state" where
  "rel_hold owner who until s = s\<lparr>rel_holds := rel_holds s @ [\<lparr>ho_owner = hold_key_of owner, ho_held = held_of who,
     ho_until = floor_time until\<rparr>]\<rparr>"

definition is_held :: "rel_state \<Rightarrow> mailbox \<Rightarrow> requester \<Rightarrow> systime \<Rightarrow> bool" where
  "is_held s owner sender now =
     list_ex (\<lambda>h. floor_time now < ho_until h \<and> loosely (ho_owner h) owner \<and> held_matches (ho_held h) sender) (rel_holds s)"

definition entry_from :: "ledger_entry \<Rightarrow> requester" where
  "entry_from e = (case lg_sender e of
     Some m \<Rightarrow> RqAccount m
   | None \<Rightarrow> RqAddress (case lg_address e of Some a \<Rightarrow> a | None \<Rightarrow> []))"

definition record_request :: "ledger_entry \<Rightarrow> rel_state \<Rightarrow> recorded \<times> rel_state" where
  "record_request entry s =
     (let new = (RecNew, s\<lparr>ledger := ledger s @ [entry\<lparr>lg_at := floor_time (lg_at entry)\<rparr>]\<rparr>) in
      case lg_guid entry of
        None \<Rightarrow> new
      | Some guid \<Rightarrow>
         (case find (\<lambda>e. lg_guid e = Some guid \<and> is_mb (lg_recipient e) (lg_recipient entry)
                  \<and> sent_by e (entry_from entry)) (ledger s) of
            Some e \<Rightarrow> (RecRetry e, s)
          | None \<Rightarrow> new))"

definition find_request :: "rel_state \<Rightarrow> requester \<Rightarrow> mailbox option \<Rightarrow> message_guid \<Rightarrow> ledger_entry option" where
  "find_request s who to guid =
     find (\<lambda>e. lg_guid e = Some guid \<and> (case to of Some m \<Rightarrow> is_mb (lg_recipient e) m | None \<Rightarrow> True) \<and> sent_by e who) (ledger s)"

definition requests_to :: "rel_state \<Rightarrow> requester \<Rightarrow> mailbox \<Rightarrow> request_kind \<Rightarrow> systime \<Rightarrow> nat" where
  "requests_to s who to kind since =
     length (filter (\<lambda>e. lg_kind e = kind \<and> floor_time since \<le> lg_at e \<and> is_mb (lg_recipient e) to \<and> sent_by e who) (ledger s))"

definition recipients_since :: "rel_state \<Rightarrow> requester \<Rightarrow> systime \<Rightarrow> nat" where
  "recipients_since s who since =
     length (remdups (map (\<lambda>e. key_str (lg_recipient e)) (filter (\<lambda>e. floor_time since \<le> lg_at e \<and> sent_by e who) (ledger s))))"

text \<open>Each address once, in the order of its first entry.\<close>

definition request_addresses :: "rel_state \<Rightarrow> mailbox \<Rightarrow> systime \<Rightarrow> systime option \<Rightarrow> string list" where
  "request_addresses s to since before =
     fold (\<lambda>e out. case lg_address e of
         Some a \<Rightarrow>
           if lg_sender e = None \<and> floor_time since \<le> lg_at e
              \<and> (case before of Some b \<Rightarrow> lg_at e < floor_time b | None \<Rightarrow> True)
              \<and> is_mb (lg_recipient e) to \<and> a \<notin> set out
           then out @ [a] else out
       | None \<Rightarrow> out) (ledger s) []"

definition guest_requests_to :: "rel_state \<Rightarrow> string \<Rightarrow> mailbox \<Rightarrow> systime \<Rightarrow> nat" where
  "guest_requests_to s address to since =
     length (filter (\<lambda>e. lg_kind e = KMessage \<and> lg_address e = Some address
        \<and> (case lg_sender e of Some m \<Rightarrow> mb_login m = ''guest'' | None \<Rightarrow> True)
        \<and> floor_time since \<le> lg_at e \<and> is_mb (lg_recipient e) to) (ledger s))"

definition recipients_from_address :: "rel_state \<Rightarrow> string \<Rightarrow> systime \<Rightarrow> nat" where
  "recipients_from_address s address since =
     length (remdups (map (\<lambda>e. key_str (lg_recipient e))
       (filter (\<lambda>e. floor_time since \<le> lg_at e \<and> lg_address e = Some address) (ledger s))))"

definition requested_since :: "rel_state \<Rightarrow> requester \<Rightarrow> systime \<Rightarrow> nat \<times> u64" where
  "requested_since s who since =
     fold (\<lambda>e (n, b). (n + 1, b + lg_bytes e))
       (filter (\<lambda>e. lg_kind e = KMessage \<and> floor_time since \<le> lg_at e \<and> sent_by e who) (ledger s)) (0, 0)"

definition account_index :: "mailbox \<Rightarrow> rel_state \<Rightarrow> nat option" where
  "account_index m s = position (\<lambda>a. is_mb (ac_owner a) m) (accounts s)"

definition account_edit :: "mailbox \<Rightarrow> (account_row \<Rightarrow> account_row) \<Rightarrow> rel_state \<Rightarrow> rel_state" where
  "account_edit m f s =
     (case account_index m s of
        Some i \<Rightarrow> s\<lparr>accounts := (accounts s)[i := f (accounts s ! i)]\<rparr>
      | None \<Rightarrow> s\<lparr>accounts := accounts s @ [f \<lparr>ac_owner = m, ac_state = default_account, ac_dropped = 0\<rparr>]\<rparr>)"

definition request_dropped :: "mailbox \<Rightarrow> rel_state \<Rightarrow> rel_state" where
  "request_dropped owner = account_edit owner (\<lambda>a. a\<lparr>ac_dropped := ac_dropped a + 1\<rparr>)"

definition requests_listed :: "mailbox \<Rightarrow> rel_state \<Rightarrow> u64 \<times> rel_state" where
  "requests_listed owner s =
     (case account_index owner s of Some i \<Rightarrow> ac_dropped (accounts s ! i) | None \<Rightarrow> 0,
      account_edit owner (\<lambda>a. a\<lparr>ac_dropped := 0\<rparr>) s)"

definition rel_account :: "rel_state \<Rightarrow> mailbox \<Rightarrow> messaging_account" where
  "rel_account s m = (case find (\<lambda>a. is_mb (ac_owner a) m) (accounts s) of
     Some a \<Rightarrow> ac_state a | None \<Rightarrow> default_account)"

definition opt_set :: "'b option \<Rightarrow> ('b \<Rightarrow> 'a \<Rightarrow> 'a) \<Rightarrow> 'a \<Rightarrow> 'a" where
  "opt_set v f x = (case v of Some y \<Rightarrow> f y x | None \<Rightarrow> x)"

definition apply_update :: "account_update \<Rightarrow> messaging_account \<Rightarrow> messaging_account" where
  "apply_update u =
     opt_set (au_profile u) (\<lambda>p st. st\<lparr>ma_profile := p\<lparr>pf_languages := take MAX_LANGUAGES (pf_languages p)\<rparr>\<rparr>)
     \<circ> opt_set (au_takes_requests u) (\<lambda>at st. opt_set at (\<lambda>t st. st\<lparr>ma_requests_opted_at := Some (floor_time t)\<rparr>)
         (st\<lparr>ma_takes_requests := (at \<noteq> None)\<rparr>))
     \<circ> opt_set (au_discoverable u) (\<lambda>on st. st\<lparr>ma_discoverable := on\<rparr>)
     \<circ> opt_set (au_shown_text u) (\<lambda>t st. st\<lparr>ma_shown_text := t\<rparr>)
     \<circ> opt_set (au_status_text u) (\<lambda>t st. st\<lparr>ma_status_text := t\<rparr>)"

definition update_account :: "mailbox \<Rightarrow> account_update \<Rightarrow> rel_state \<Rightarrow> rel_state" where
  "update_account m u = account_edit m (\<lambda>a. a\<lparr>ac_state := apply_update u (ac_state a)\<rparr>)"

end
