(* ===== verification/Relationship_Lifecycle.thy ===== *)
theory Relationship_Lifecycle
  imports Relationships
begin

section \<open>Claims, rotations, purges and cleanup\<close>

text \<open>
  \<^verbatim>\<open>crates/hxd-core/src/relationships/memory.rs\<close>, the second half: what happens to rows when an account
  links an identity (\<open>claim\<close>), when an identity rotates to a successor key (\<open>rotate\<close>), when an account is
  deleted (\<open>purge\<close>), and when lapsed rows are reclaimed (\<open>cleanup\<close>).
\<close>


subsection \<open>Re-keying\<close>

definition stamp :: "(mailbox \<Rightarrow> bool) \<Rightarrow> fp \<Rightarrow> mailbox \<Rightarrow> mailbox" where
  "stamp moves to m = (if moves m then m\<lparr>mb_fp := Some to\<rparr> else m)"

definition stamped :: "(mailbox \<Rightarrow> bool) \<Rightarrow> mailbox \<Rightarrow> nat" where
  "stamped moves m = (if moves m then 1 else 0)"

definition key_after :: "(mailbox \<Rightarrow> bool) \<Rightarrow> fp \<Rightarrow> mailbox \<Rightarrow> string" where
  "key_after moves to m = (if moves m then key_str (mailbox_identified [] to) else key_str m)"

definition row_moves :: "(mailbox \<Rightarrow> bool) \<Rightarrow> u64 \<times> relationship \<Rightarrow> bool" where
  "row_moves moves p \<longleftrightarrow> moves (rel_owner (snd p)) \<or> moves (rel_other (snd p))"

text \<open>The row that row \<open>p\<close> is folded into: one that does not move, already at the pair.\<close>

definition kept_for :: "(mailbox \<Rightarrow> bool) \<Rightarrow> fp \<Rightarrow> u64 \<times> relationship \<Rightarrow> (u64 \<times> relationship) list \<Rightarrow> nat option" where
  "kept_for moves to p rows = position (\<lambda>k. \<not> row_moves moves k
     \<and> key_str (rel_owner (snd k)) = key_after moves to (rel_owner (snd p))
     \<and> key_str (rel_other (snd k)) = key_after moves to (rel_other (snd p))) rows"

text \<open>Row \<open>i\<close> is taken out and absorbed by row \<open>k\<close>.\<close>

definition fold_into :: "nat \<Rightarrow> nat \<Rightarrow> (u64 \<times> relationship) list
    \<Rightarrow> (relation_id \<times> relation_id) list \<times> (u64 \<times> relationship) list" where
  "fold_into i k rows =
     (let dup = snd (rows ! i);
          rows' = remove_nth i rows;
          k' = (if i < k then k - 1 else k);
          (lost, r) = absorb (snd (rows' ! k')) dup
      in (lost, rows'[k' := (fst (rows' ! k'), r)]))"

lemma length_fold_into: "i < length rows \<Longrightarrow> length (snd (fold_into i k rows)) = length rows - 1"
  by (simp add: fold_into_def Let_def split_beta length_remove_nth)

function merge_rows :: "(mailbox \<Rightarrow> bool) \<Rightarrow> fp \<Rightarrow> nat \<Rightarrow> (u64 \<times> relationship) list \<Rightarrow>
    (relation_id \<times> relation_id) list \<Rightarrow> nat \<Rightarrow> (u64 \<times> relationship) list \<times> (relation_id \<times> relation_id) list \<times> nat" where
  "merge_rows moves to i rows merged n =
     (if length rows \<le> i then (rows, merged, n)
      else if \<not> row_moves moves (rows ! i) then merge_rows moves to (Suc i) rows merged n
      else case kept_for moves to (rows ! i) rows of
             None \<Rightarrow> merge_rows moves to (Suc i) rows merged n
           | Some k \<Rightarrow>
              (let (lost, rows') = fold_into i k rows
               in merge_rows moves to i rows' (merged @ lost) (Suc n)))"
  by pat_completeness auto

termination
proof (relation "measure (\<lambda>(moves, to, i, rows, merged, n). length rows - i)")
  fix moves to i rows merged n k x lost rows'
  assume "\<not> length rows \<le> i" and x: "x = fold_into i k rows" "(lost, rows') = x"
  then have "length rows' = length rows - 1" using length_fold_into [of i rows k] by (metis not_le snd_conv)
  with \<open>\<not> length rows \<le> i\<close>
  show "((moves, to, i, rows', merged @ lost, Suc n), moves, to, i, rows, merged, n)
      \<in> measure (\<lambda>(moves, to, i, rows, merged, n). length rows - i)" by simp
qed simp_all

declare merge_rows.simps [simp del]

definition stamp_key :: "(mailbox \<Rightarrow> bool) \<Rightarrow> fp \<Rightarrow> hold_key \<Rightarrow> hold_key" where
  "stamp_key moves to h =
     (if moves \<lparr>mb_login = (case hk_login h of Some l \<Rightarrow> l | None \<Rightarrow> []), mb_fp = hk_fp h\<rparr>
      then h\<lparr>hk_fp := Some to\<rparr> else h)"

definition stamped_key :: "(mailbox \<Rightarrow> bool) \<Rightarrow> hold_key \<Rightarrow> nat" where
  "stamped_key moves h =
     (if moves \<lparr>mb_login = (case hk_login h of Some l \<Rightarrow> l | None \<Rightarrow> []), mb_fp = hk_fp h\<rparr> then 1 else 0)"

definition stamp_row :: "(mailbox \<Rightarrow> bool) \<Rightarrow> fp \<Rightarrow> u64 \<times> relationship \<Rightarrow> u64 \<times> relationship" where
  "stamp_row moves to p = (fst p, (snd p)\<lparr>rel_owner := stamp moves to (rel_owner (snd p)),
     rel_other := stamp moves to (rel_other (snd p))\<rparr>)"

definition stamp_hold :: "(mailbox \<Rightarrow> bool) \<Rightarrow> fp \<Rightarrow> hold_row \<Rightarrow> hold_row" where
  "stamp_hold moves to h = h\<lparr>ho_owner := stamp_key moves to (ho_owner h),
     ho_held := (case ho_held h of HeldAccount k \<Rightarrow> HeldAccount (stamp_key moves to k) | HeldAddress a \<Rightarrow> HeldAddress a)\<rparr>"

definition stamped_hold :: "(mailbox \<Rightarrow> bool) \<Rightarrow> hold_row \<Rightarrow> nat" where
  "stamped_hold moves h = stamped_key moves (ho_owner h)
     + (case ho_held h of HeldAccount k \<Rightarrow> stamped_key moves k | HeldAddress a \<Rightarrow> 0)"

definition stamp_entry :: "(mailbox \<Rightarrow> bool) \<Rightarrow> fp \<Rightarrow> ledger_entry \<Rightarrow> ledger_entry" where
  "stamp_entry moves to e = e\<lparr>lg_recipient := stamp moves to (lg_recipient e),
     lg_sender := map_option (stamp moves to) (lg_sender e)\<rparr>"

definition stamped_entry :: "(mailbox \<Rightarrow> bool) \<Rightarrow> ledger_entry \<Rightarrow> nat" where
  "stamped_entry moves e = stamped moves (lg_recipient e)
     + (case lg_sender e of Some m \<Rightarrow> stamped moves m | None \<Rightarrow> 0)"

text \<open>An account record of its own already at the target is the one kept.  The target's record does not
  move, so it is there whichever are removed before.\<close>

function drop_accounts :: "(mailbox \<Rightarrow> bool) \<Rightarrow> fp \<Rightarrow> nat \<Rightarrow> account_row list \<Rightarrow> account_row list" where
  "drop_accounts moves to j as =
     (if length as \<le> j then as
      else if moves (ac_owner (as ! j)) \<and> list_ex (\<lambda>k. is_mb (ac_owner k) (mailbox_identified [] to)) as
      then drop_accounts moves to j (remove_nth j as)
      else drop_accounts moves to (Suc j) as)"
  by pat_completeness auto
termination
  by (relation "measure (\<lambda>(moves, to, j, as). length as - j)") (auto simp: length_remove_nth)

declare drop_accounts.simps [simp del]

definition rekey :: "(mailbox \<Rightarrow> bool) \<Rightarrow> fp \<Rightarrow> rel_state \<Rightarrow> rekeyed \<times> rel_state" where
  "rekey moves to s0 =
     (let (rows, merged, n0) = merge_rows moves to 0 (rel_rows s0) [] 0;
          s1 = forget (map fst merged) (s0\<lparr>rel_rows := rows\<rparr>);
          as = drop_accounts moves to 0 (accounts s1);
          n = n0 + sum_list (map (\<lambda>p. stamped moves (rel_owner (snd p)) + stamped moves (rel_other (snd p))) (rel_rows s1))
            + sum_list (map (stamped_hold moves) (rel_holds s1))
            + sum_list (map (stamped_entry moves) (ledger s1))
            + sum_list (map (\<lambda>a. stamped moves (ac_owner a)) as)
      in (\<lparr>rk_moved = n, rk_merged = remdups_adj (sort merged)\<rparr>,
          s1\<lparr>rel_rows := map (stamp_row moves to) (rel_rows s1),
             rel_holds := map (stamp_hold moves to) (rel_holds s1),
             ledger := map (stamp_entry moves to) (ledger s1),
             accounts := map (\<lambda>a. a\<lparr>ac_owner := stamp moves to (ac_owner a)\<rparr>) as\<rparr>))"

definition claim_moves :: "string \<Rightarrow> mailbox \<Rightarrow> bool" where
  "claim_moves l m \<longleftrightarrow> mb_fp m = None \<and> mb_login m = l"

definition rotate_moves :: "fp \<Rightarrow> mailbox \<Rightarrow> bool" where
  "rotate_moves k m \<longleftrightarrow> mb_fp m = Some k"

definition claim :: "string \<Rightarrow> fp \<Rightarrow> rel_state \<Rightarrow> rekeyed \<times> rel_state" where
  "claim l f = rekey (claim_moves l) f"


subsection \<open>The portable part of a rotation\<close>

definition swap_fp :: "fp \<Rightarrow> fp \<Rightarrow> fp \<Rightarrow> fp" where
  "swap_fp k k' x = (if x = k then k' else x)"

text \<open>Re-stamp what names \<open>k\<close>, but not onto a pair that is held: the pairs held so far are \<open>taken\<close>.  Returns
  how many named it, and what is kept.\<close>

fun restamp :: "fp \<Rightarrow> fp \<Rightarrow> ('a \<Rightarrow> fp \<times> fp) \<Rightarrow> (fp \<times> fp \<Rightarrow> 'a \<Rightarrow> 'a) \<Rightarrow> (fp \<times> fp) list \<Rightarrow> 'a list \<Rightarrow> nat \<times> 'a list" where
  "restamp k k' pair_of set_pair taken [] = (0, [])"
| "restamp k k' pair_of set_pair taken (p # ps) =
     (if fst (pair_of p) = k \<or> snd (pair_of p) = k then
        (let new = (swap_fp k k' (fst (pair_of p)), swap_fp k k' (snd (pair_of p))) in
         if new \<in> set taken then (let (n, qs) = restamp k k' pair_of set_pair taken ps in (Suc n, qs))
         else (let (n, qs) = restamp k k' pair_of set_pair (taken @ [new]) ps in (Suc n, set_pair new p # qs)))
      else (let (n, qs) = restamp k k' pair_of set_pair taken ps in (n, p # qs)))"

definition not_naming :: "fp \<Rightarrow> ('a \<Rightarrow> fp \<times> fp) \<Rightarrow> 'a list \<Rightarrow> (fp \<times> fp) list" where
  "not_naming k pair_of ps = map pair_of (filter (\<lambda>p. fst (pair_of p) \<noteq> k \<and> snd (pair_of p) \<noteq> k) ps)"

definition withdrawal_key :: "held_withdrawal \<Rightarrow> bytes \<times> fp \<times> bool" where
  "withdrawal_key w = (hw_pair w, hw_party w, hw_withdrawal w = None)"

definition rotate_portable :: "fp \<Rightarrow> fp \<Rightarrow> rel_state \<Rightarrow> nat \<times> rel_state" where
  "rotate_portable k k' s =
     (let pp = (\<lambda>p. (pr_presenter p, pr_other p));
          (n1, ps) = restamp k k' pp (\<lambda>(a, b) p. p\<lparr>pr_presenter := a, pr_other := b\<rparr>)
             (not_naming k pp (presentations s)) (presentations s);
          po = (\<lambda>(a, b, off). (a, b));
          (n2, os) = restamp k k' po (\<lambda>(a, b) (_, _, off). (a, b, off))
             (not_naming k po (offers s)) (offers s);
          of_owner = (\<lambda>f. map (\<lambda>w. (withdrawal_key w, hw_before w)) (filter (\<lambda>w. hw_owner w = f) (withdrawals s)));
          moved = of_owner k; theirs = of_owner k';
          ws = filter (\<lambda>w. if hw_owner w = k' then \<not> list_ex (\<lambda>(x, b). x = withdrawal_key w \<and> hw_before w \<le> b) moved
                 else if hw_owner w = k then \<not> list_ex (\<lambda>(x, b). x = withdrawal_key w \<and> hw_before w < b) theirs
                 else True) (withdrawals s);
          n3 = length (filter (\<lambda>w. hw_owner w = k) ws)
      in (n1 + n2 + n3, s\<lparr>presentations := ps, offers := os,
           withdrawals := map (\<lambda>w. if hw_owner w = k then w\<lparr>hw_owner := k'\<rparr> else w) ws\<rparr>))"

definition rotate :: "fp \<Rightarrow> fp \<Rightarrow> rel_state \<Rightarrow> rekeyed \<times> rel_state" where
  "rotate k k' s0 =
     (let (r, s1) = rekey (rotate_moves k) k' s0; (n, s2) = rotate_portable k k' s1
      in (r\<lparr>rk_moved := rk_moved r + n\<rparr>, s2))"


subsection \<open>Purging\<close>

definition doomed :: "mailbox \<Rightarrow> u64 \<times> relationship \<Rightarrow> bool" where
  "doomed m p \<longleftrightarrow> is_mb (rel_owner (snd p)) m \<or> is_mb (rel_other (snd p)) m"

definition hold_doomed :: "mailbox \<Rightarrow> hold_row \<Rightarrow> bool" where
  "hold_doomed m h \<longleftrightarrow> purged_by (ho_owner h) m \<or> held_purged_by (ho_held h) m"

definition entry_doomed :: "mailbox \<Rightarrow> ledger_entry \<Rightarrow> bool" where
  "entry_doomed m e \<longleftrightarrow> is_mb (lg_recipient e) m \<or> (case lg_sender e of Some x \<Rightarrow> is_mb x m | None \<Rightarrow> False)"

definition strip_hold :: "mailbox \<Rightarrow> hold_row \<Rightarrow> hold_row" where
  "strip_hold m h = h\<lparr>ho_owner := strip_key m (ho_owner h),
     ho_held := (case ho_held h of HeldAccount k \<Rightarrow> HeldAccount (strip_key m k) | HeldAddress a \<Rightarrow> HeldAddress a)\<rparr>"

definition row_ids :: "u64 \<times> relationship \<Rightarrow> relation_id list" where
  "row_ids p = opt_list (rel_friendship (snd p)) @ opt_list (rel_approval (snd p))"

definition purge_portable :: "fp \<Rightarrow> rel_state \<Rightarrow> nat \<times> rel_state" where
  "purge_portable f s =
     (let ps = filter (\<lambda>p. pr_presenter p \<noteq> f) (presentations s);
          os = filter (\<lambda>(a, b, off). a \<noteq> f \<and> b \<noteq> f) (offers s)
      in (length (presentations s) + length (offers s) - (length ps + length os), s\<lparr>presentations := ps, offers := os\<rparr>))"

definition rel_purge :: "mailbox \<Rightarrow> rel_state \<Rightarrow> nat \<times> rel_state" where
  "rel_purge m s0 =
     (let ids = concat (map row_ids (filter (doomed m) (rel_rows s0)));
          before = length (rel_rows s0) + length (rel_holds s0) + length (ledger s0) + length (accounts s0);
          s1 = s0\<lparr>rel_rows := filter (\<lambda>p. \<not> doomed m p) (rel_rows s0),
                 rel_holds := map (strip_hold m) (filter (\<lambda>h. \<not> hold_doomed m h) (rel_holds s0)),
                 ledger := filter (\<lambda>e. \<not> entry_doomed m e) (ledger s0),
                 accounts := filter (\<lambda>a. \<not> is_mb (ac_owner a) m) (accounts s0)\<rparr>;
          s2 = forget ids s1;
          n = before - (length (rel_rows s2) + length (rel_holds s2) + length (ledger s2) + length (accounts s2))
      in case mb_fp m of
           None \<Rightarrow> (n, s2)
         | Some f \<Rightarrow> (let (n', s3) = purge_portable f s2 in (n + n', s3)))"

definition purge_count :: "rel_state \<Rightarrow> mailbox \<Rightarrow> nat" where
  "purge_count s m =
     length (filter (doomed m) (rel_rows s)) + length (filter (hold_doomed m) (rel_holds s))
     + length (filter (entry_doomed m) (ledger s)) + length (filter (\<lambda>a. is_mb (ac_owner a) m) (accounts s))
     + (case mb_fp m of
          Some f \<Rightarrow> length (filter (\<lambda>p. pr_presenter p = f) (presentations s))
            + length (filter (\<lambda>(a, b, off). a = f \<or> b = f) (offers s))
        | None \<Rightarrow> 0)"


subsection \<open>Cleanup\<close>

text \<open>The first \<open>n\<close> rows that read differently at \<open>t\<close> are replaced by how they read, or removed.\<close>

fun lapse_rows :: "systime \<Rightarrow> nat \<Rightarrow> (u64 \<times> relationship) list \<Rightarrow> nat \<times> (u64 \<times> relationship) list" where
  "lapse_rows t n [] = (0, [])"
| "lapse_rows t n ((q, r) # rows) =
     (if as_of t r \<noteq> Some r \<and> 0 < n then
        (let (k, rest) = lapse_rows t (n - 1) rows
         in (Suc k, case as_of t r of Some r' \<Rightarrow> (q, r') # rest | None \<Rightarrow> rest))
      else (let (k, rest) = lapse_rows t n rows in (k, (q, r) # rest)))"

definition rel_cleanup :: "systime \<Rightarrow> systime \<Rightarrow> nat \<Rightarrow> rel_state \<Rightarrow> nat \<times> rel_state" where
  "rel_cleanup lapsed_before0 ledger_before0 batch s =
     (let lapsed_before = floor_time lapsed_before0; ledger_before = floor_time ledger_before0;
          (n1, hs) = retain_upto (\<lambda>h. ho_until h \<le> lapsed_before) batch (rel_holds s);
          (n2, rows) = lapse_rows lapsed_before batch (rel_rows s);
          (n3, es) = retain_upto (\<lambda>e. lg_at e < ledger_before) batch (ledger s);
          (n4, os) = retain_upto (\<lambda>(a, b, off). so_lapses_at off \<le> lapsed_before) batch (offers s)
      in (n1 + n2 + n3 + n4, s\<lparr>rel_holds := hs, rel_rows := rows, ledger := es, offers := os\<rparr>))"


subsection \<open>What moves, by key\<close>

lemma claim_moves_key: "claim_moves l m \<longleftrightarrow> mkey m = ByLogin l"
  by (auto simp: claim_moves_def mkey_def split: option.splits)

lemma rotate_moves_key: "rotate_moves k m \<longleftrightarrow> mkey m = ByFp k"
  by (auto simp: rotate_moves_def mkey_def split: option.splits)

end
