(* ===== verification/Relationship_Safety.thy ===== *)
theory Relationship_Safety
  imports Relationship_Lifecycle
begin

section \<open>What the relationship store keeps\<close>

text \<open>
  The invariant of the relationship store, \<open>rel_inv\<close>: the live ids are exactly those some row points
  at, each has the time it was made, none is above the last id minted, and every row is settled and not
  empty.  Every operation keeps it, and the last id minted never decreases; \<open>monotone_steps\<close>
  is interpreted on the store's transition relation, which gives both for every run.

  \<open>rel_slack E\<close> is the invariant in the middle of an operation: the ids in \<open>E\<close> may be live with no row
  pointing at them.  An edit may leave ids in \<open>E\<close>, and \<open>forget\<close> takes them out.
\<close>


subsection \<open>Rows\<close>

definition ids_of :: "relationship \<Rightarrow> relation_id set" where
  "ids_of r = set_option (rel_friendship r) \<union> set_option (rel_approval r)"

definition ptrs :: "(u64 \<times> relationship) list \<Rightarrow> relation_id set" where
  "ptrs rows = (\<Union>p\<in>set rows. ids_of (snd p))"

definition row_ok :: "relationship \<Rightarrow> bool" where
  "row_ok r \<longleftrightarrow> settle r = r \<and> \<not> rel_is_empty r"

lemma ptrs_simps [simp]:
  "ptrs [] = {}" "ptrs (p # rows) = ids_of (snd p) \<union> ptrs rows" "ptrs (xs @ ys) = ptrs xs \<union> ptrs ys"
  by (simp_all add: ptrs_def)

lemma ids_of_new [simp]: "ids_of (new_relationship a b) = {}"
  by (simp add: ids_of_def new_relationship_def)

lemma settle_simps [simp]:
  "rel_owner (settle r) = rel_owner r" "rel_other (settle r) = rel_other r"
  "rel_friendship (settle r) = rel_friendship r" "rel_approval (settle r) = rel_approval r"
  "rel_blocked_at (settle r) = rel_blocked_at r" "rel_pending_out (settle r) = rel_pending_out r"
  "rel_ignore (settle r) = rel_ignore r" "settle (settle r) = settle r"
  "ids_of (settle r) = ids_of r" "rel_is_empty (settle r) = rel_is_empty r"
  by (simp_all add: settle_def ids_of_def rel_is_empty_def)

lemma floor_row_simps [simp]:
  "rel_owner (floor_row r) = rel_owner r" "rel_other (floor_row r) = rel_other r"
  "rel_friendship (floor_row r) = rel_friendship r" "rel_approval (floor_row r) = rel_approval r"
  "rel_alias (floor_row r) = rel_alias r" "ids_of (floor_row r) = ids_of r"
  "rel_is_empty (floor_row r) = rel_is_empty r"
  by (auto simp: floor_row_def ids_of_def rel_is_empty_def)

lemma settled: "settle r = r \<longleftrightarrow> (rel_friendship r = None \<and> rel_blocked_at r = None \<longrightarrow> rel_alias r = None)"
  by (cases r) (auto simp: settle_def)

lemma row_ok_settle: "row_ok (settle r) \<longleftrightarrow> \<not> rel_is_empty r"
  by (simp add: row_ok_def)

lemma ids_of_empty: "rel_is_empty r \<Longrightarrow> ids_of r = {}"
  by (simp add: rel_is_empty_def ids_of_def)

lemma points_at_ptrs: "list_ex (points_at i) rows \<longleftrightarrow> i \<in> ptrs rows"
  by (force simp: list_ex_iff points_at_def ptrs_def ids_of_def elem_set)

lemma set_opt_list [simp]: "set (opt_list x) = set_option x"
  by (cases x) (simp_all add: opt_list_def)

lemma set_row_ids: "set (row_ids p) = ids_of (snd p)"
  by (simp add: row_ids_def ids_of_def)


subsection \<open>Editing\<close>

definition row_key :: "u64 \<times> relationship \<Rightarrow> mkey \<times> mkey" where
  "row_key p = (mkey (rel_owner (snd p)), mkey (rel_other (snd p)))"

definition old_row :: "rel_state \<Rightarrow> mailbox \<Rightarrow> mailbox \<Rightarrow> relationship" where
  "old_row s a b = (case row_at s a b of Some r \<Rightarrow> r | None \<Rightarrow> new_relationship a b)"

lemma find_row_key: "find_row s a b = position (\<lambda>p. row_key p = (mkey a, mkey b)) (rel_rows s)"
  unfolding find_row_def by (rule position_cong) (auto simp: row_key_def is_mb_mkey)

lemma row_at_None: "row_at s a b = None \<longleftrightarrow> (\<forall>p\<in>set (rel_rows s). row_key p \<noteq> (mkey a, mkey b))"
  by (simp add: row_at_def find_row_key position_None)

lemma position_append_cons:
  "\<forall>y\<in>set ys. \<not> P y \<Longrightarrow> P x \<Longrightarrow> position P (ys @ x # zs) = Some (length ys)"
  by (induction ys) auto

lemma row_at_append:
  assumes "rel_rows s = pre @ p # post" "row_key p = (mkey a, mkey b)"
    "\<forall>y\<in>set pre. row_key y \<noteq> (mkey a, mkey b)"
  shows "row_at s a b = Some (snd p)"
  using assms position_append_cons [of pre "\<lambda>p. row_key p = (mkey a, mkey b)" p post]
  by (simp add: row_at_def find_row_key)

text \<open>An edit replaces the row of the pair, or one it makes at the end, by what \<open>f\<close> makes of it.\<close>

lemma edit_row_cases:
  assumes "edit_row a b f s = (out, s')"
  obtains pre q post r where
    "out = fst (f (old_row s a b))" "r = settle (floor_row (snd (f (old_row s a b))))"
    "rel_rows s' = pre @ (if rel_is_empty r then [] else [(q, r)]) @ post"
    "rel_rows s = pre @ (if row_at s a b = None then [] else [(q, old_row s a b)]) @ post"
    "\<forall>p\<in>set pre. row_key p \<noteq> (mkey a, mkey b)" "row_at s a b = None \<Longrightarrow> post = []"
    "row_key (q, old_row s a b) = (mkey a, mkey b)"
    "s' = s\<lparr>next_seq := next_seq s', rel_rows := rel_rows s'\<rparr>"
proof (cases "find_row s a b")
  case None
  then have none: "row_at s a b = None" by (simp add: row_at_def)
  let ?r = "settle (floor_row (snd (f (new_relationship a b))))"
  have key: "row_key (q, new_relationship a b) = (mkey a, mkey b)" for q
    by (simp add: row_key_def new_relationship_def)
  show thesis
    by (rule that [of ?r "rel_rows s" "next_seq s + 1" "[]"])
      (use assms None none key row_at_None [of s a b] in
        \<open>auto simp: edit_row_def old_row_def Let_def split_beta remove_nth_def\<close>)
next
  case (Some i)
  then obtain pre p post where s: "rel_rows s = pre @ p # post" "length pre = i"
    "row_key p = (mkey a, mkey b)" "\<forall>y\<in>set pre. row_key y \<noteq> (mkey a, mkey b)"
    using position_split [of "\<lambda>p. row_key p = (mkey a, mkey b)"] unfolding find_row_key by metis
  then have at: "row_at s a b = Some (snd p)" by (intro row_at_append) auto
  let ?r = "settle (floor_row (snd (f (snd p))))"
  have "rel_rows s ! i = p" using s by (simp add: nth_append)
  then show thesis
    by (intro that [of ?r pre "fst p" post])
      (use assms Some s at in \<open>auto simp: edit_row_def old_row_def Let_def split_beta list_update_append row_key_def\<close>)
qed

lemma edit_row_frame:
  assumes "edit_row a b f s = (out, s')"
  shows "relations s' = relations s" "made s' = made s" "next_relation s' = next_relation s"
    "rel_holds s' = rel_holds s" "ledger s' = ledger s" "accounts s' = accounts s"
    "presentations s' = presentations s" "withdrawals s' = withdrawals s" "offers s' = offers s"
    "rotations s' = rotations s"
  using assms by (auto simp: edit_row_def Let_def split_beta split: option.splits)

text \<open>What the pair's row is afterwards, where the edit leaves something in it, and that the rows of
  other pairs are as they were.\<close>

definition keeps_pair :: "(relationship \<Rightarrow> 'a \<times> relationship) \<Rightarrow> bool" where
  "keeps_pair f \<longleftrightarrow> (\<forall>r. rel_owner (snd (f r)) = rel_owner r \<and> rel_other (snd (f r)) = rel_other r)"

lemma row_at_edit_same:
  assumes "edit_row a b f s = (out, s')" "keeps_pair f" "\<not> rel_is_empty (snd (f (old_row s a b)))"
    "mkey x = mkey a" "mkey y = mkey b"
  shows "row_at s' x y = Some (settle (floor_row (snd (f (old_row s a b)))))"
  using assms(1)
proof (cases rule: edit_row_cases)
  case (1 pre q post r)
  then show ?thesis
    using assms(2-) row_at_append [of s' pre "(q, r)" post x y] by (simp add: row_key_def keeps_pair_def)
qed

lemma position_skip: "\<not> P x \<Longrightarrow> map_option (\<lambda>i. (ys @ x # zs) ! i) (position P (ys @ x # zs))
    = map_option (\<lambda>i. (ys @ zs) ! i) (position P (ys @ zs))"
  by (induction ys) (auto simp: option.map_comp comp_def)

lemma row_at_via: "row_at s a b = map_option snd (map_option (\<lambda>i. rel_rows s ! i) (position (\<lambda>p. row_key p = (mkey a, mkey b)) (rel_rows s)))"
  by (simp add: row_at_def find_row_key option.map_comp comp_def)

lemma row_at_skip:
  assumes "rel_rows s = pre @ (if c then [] else [p]) @ post" "row_key p \<noteq> (mkey x, mkey y)"
    "rel_rows s' = pre @ (if c' then [] else [p']) @ post" "row_key p' \<noteq> (mkey x, mkey y)"
  shows "row_at s' x y = row_at s x y"
  using assms position_skip [of "\<lambda>p. row_key p = (mkey x, mkey y)"] by (simp add: row_at_via)

lemma row_at_edit_other:
  assumes "edit_row a b f s = (out, s')" "keeps_pair f" "(mkey x, mkey y) \<noteq> (mkey a, mkey b)"
  shows "row_at s' x y = row_at s x y"
  using assms(1)
proof (cases rule: edit_row_cases)
  case (1 pre q post r)
  then show ?thesis
    using row_at_skip [OF 1(4) _ 1(3), of x y] assms(2,3) by (auto simp: row_key_def keeps_pair_def)
qed


subsection \<open>The invariant\<close>

definition rel_slack :: "relation_id set \<Rightarrow> rel_state \<Rightarrow> bool" where
  "rel_slack E s \<longleftrightarrow> ptrs (rel_rows s) \<subseteq> relations s \<and> relations s \<subseteq> ptrs (rel_rows s) \<union> E
     \<and> om_wf (made s) \<and> dom (map_of (made s)) = relations s
     \<and> (\<forall>i\<in>relations s. i \<le> next_relation s) \<and> (\<forall>p\<in>set (rel_rows s). row_ok (snd p))"

definition rel_inv :: "rel_state \<Rightarrow> bool" where
  "rel_inv s \<longleftrightarrow> relations s = ptrs (rel_rows s) \<and> om_wf (made s) \<and> dom (map_of (made s)) = relations s
     \<and> (\<forall>i\<in>relations s. i \<le> next_relation s) \<and> (\<forall>p\<in>set (rel_rows s). row_ok (snd p))"

lemma rel_inv_slack: "rel_inv s \<longleftrightarrow> rel_slack {} s"
  by (auto simp: rel_inv_def rel_slack_def)

lemma rel_slack_mono: "rel_slack E s \<Longrightarrow> E \<subseteq> E' \<Longrightarrow> rel_slack E' s"
  by (auto simp: rel_slack_def)

lemma forget_frame:
  "rel_rows (forget ids s) = rel_rows s" "next_relation (forget ids s) = next_relation s"
  "next_seq (forget ids s) = next_seq s" "rel_holds (forget ids s) = rel_holds s"
  "ledger (forget ids s) = ledger s" "accounts (forget ids s) = accounts s"
  "presentations (forget ids s) = presentations s" "withdrawals (forget ids s) = withdrawals s"
  "offers (forget ids s) = offers s" "rotations (forget ids s) = rotations s"
  unfolding forget_def by (induction ids arbitrary: s) (simp_all add: forget_one_def)

lemma forget_relations: "relations (forget ids s) = relations s - (set ids - ptrs (rel_rows s))"
  unfolding forget_def by (induction ids arbitrary: s) (auto simp: forget_one_def points_at_ptrs)

lemma forget_made:
  "om_wf (made s) \<Longrightarrow> om_wf (made (forget ids s)) \<and> (\<forall>i. map_of (made (forget ids s)) i =
     (if i \<in> set ids - ptrs (rel_rows s) then None else map_of (made s) i))"
proof (induction ids arbitrary: s)
  case (Cons j ids)
  have "om_wf (made (forget_one j s))" "rel_rows (forget_one j s) = rel_rows s"
    using Cons.prems by (auto simp: forget_one_def om_simps)
  moreover have "map_of (made (forget_one j s)) i =
      (if i = j \<and> j \<notin> ptrs (rel_rows s) then None else map_of (made s) i)" for i
    using Cons.prems by (auto simp: forget_one_def om_simps points_at_ptrs)
  ultimately show ?case using Cons.IH [of "forget_one j s"] by (auto simp: forget_def)
qed (simp add: forget_def)

lemma forget_slack: "rel_slack E s \<Longrightarrow> E \<subseteq> set ids \<union> ptrs (rel_rows s) \<Longrightarrow> rel_slack {} (forget ids s)"
  using forget_made [of s ids]
  by (auto simp: rel_slack_def forget_frame forget_relations dom_def split: if_splits)

lemma edit_slack:
  assumes "edit_row a b f s = (out, s')" "rel_slack E s" "ids_of (snd (f (old_row s a b))) \<subseteq> relations s"
    "ids_of (old_row s a b) \<subseteq> ids_of (snd (f (old_row s a b))) \<union> E'"
  shows "rel_slack (E \<union> E') s'"
  using assms(1)
proof (cases rule: edit_row_cases)
  case (1 pre q post r)
  note frame = edit_row_frame [OF assms(1)]
  have r: "ids_of r = ids_of (snd (f (old_row s a b)))" "\<not> rel_is_empty r \<Longrightarrow> row_ok r"
    using 1(2) by (simp_all add: row_ok_def)
  have now: "ptrs (rel_rows s') = ptrs pre \<union> ids_of r \<union> ptrs post"
    using 1(3) ids_of_empty [of r] by auto
  have was: "ptrs (rel_rows s) = ptrs pre \<union> ids_of (old_row s a b) \<union> ptrs post"
    using 1(4) by (auto simp: old_row_def)
  have "set (rel_rows s') \<subseteq> set (rel_rows s) \<union> (if rel_is_empty r then {} else {(q, r)})"
    using 1(3,4) by auto
  then have "\<forall>p\<in>set (rel_rows s'). row_ok (snd p)"
    using r(2) assms(2) unfolding rel_slack_def by (force split: if_splits)
  then show ?thesis
    using assms(2-) was now r(1) unfolding rel_slack_def frame by blast
qed

lemma row_at_in: "row_at s a b = Some r \<Longrightarrow> r \<in> snd ` set (rel_rows s)"
  by (auto simp: row_at_def find_row_key dest!: position_less)

lemma row_at_ids: "row_at s a b = Some r \<Longrightarrow> ids_of r \<subseteq> ptrs (rel_rows s)"
  using row_at_in [of s a b r] by (auto simp: ptrs_def)

lemma old_row_ids: "rel_slack E s \<Longrightarrow> ids_of (old_row s a b) \<subseteq> relations s"
  using row_at_ids [of s a b] by (cases "row_at s a b") (auto simp: old_row_def rel_slack_def)

lemma edit_unit_slack:
  assumes "rel_slack E s" "ids_of (f (old_row s a b)) \<subseteq> relations s"
    "ids_of (old_row s a b) \<subseteq> ids_of (f (old_row s a b))"
  shows "rel_slack E (edit_unit a b f s)"
  using edit_slack [of a b "\<lambda>r. ((), f r)" s "()" "edit_unit a b f s" E "{}"] assms
  by (simp add: edit_unit_def prod_eq_iff)

lemma edit_unit_inv:
  assumes "rel_inv s" "ids_of (f (old_row s a b)) = ids_of (old_row s a b)"
  shows "rel_inv (edit_unit a b f s)"
  using edit_unit_slack [of "{}" s f a b] old_row_ids [of "{}" s a b] assms by (simp add: rel_inv_slack)


subsection \<open>Friendships and approvals keep it\<close>

text \<open>There is a number left to mint.\<close>

definition rel_room :: "rel_state \<Rightarrow> bool" where
  "rel_room s \<longleftrightarrow> next_relation s < - 1"

lemma rel_room_next: "rel_room s \<Longrightarrow> next_relation s < next_relation s + 1"
  using inc_less_eq_self_iff_eq [of "next_relation s"] by (force simp: rel_room_def)

lemma mint_slack:
  assumes "rel_inv s" "rel_room s"
  shows "rel_slack {next_relation s + 1} ((snd (mint s))\<lparr>made := om_put (next_relation s + 1) t (made (snd (mint s)))\<rparr>)"
  using assms rel_room_next [OF assms(2)]
  by (auto simp: rel_inv_def rel_slack_def mint_def om_simps dom_def split: if_splits
      intro: order.trans [OF _ less_imp_le])

lemma ids_make_friend [simp]: "ids_of (snd (make_friend i r)) = {i}"
  by (simp add: make_friend_def ids_of_def)

lemma make_friend_id [simp]: "rel_friendship (snd (make_friend i r)) = Some i"
  by (simp add: make_friend_def)

lemma make_friend_pair: "keeps_pair (make_friend i)"
  by (simp add: keeps_pair_def make_friend_def)

lemma make_friend_full [simp]: "\<not> rel_is_empty (snd (make_friend i r))"
  by (simp add: make_friend_def rel_is_empty_def)

text \<open>The rows of the pair after \<open>befriend_anew\<close>, and what it leaves for \<open>forget\<close>.\<close>

lemma two_edits:
  assumes f: "keeps_pair f" "\<And>r. \<not> rel_is_empty (snd (f r))" "\<And>r. rel_friendship (snd (f r)) = Some i"
    and e: "edit_row a b f s = (e1, s1)" "edit_row b a f s1 = (e2, s2)"
  shows "friendship_at s2 a b = Some i" "friendship_at s2 b a = Some i"
    "old_row s1 b a = old_row s b a \<or> rel_friendship (old_row s1 b a) = Some i \<and> old_row s1 b a = settle (floor_row (snd (f (old_row s a b))))"
    "(mkey x, mkey y) \<notin> {(mkey a, mkey b), (mkey b, mkey a)} \<Longrightarrow> row_at s2 x y = row_at s x y"
proof -
  have ab: "row_at s1 x y = Some (settle (floor_row (snd (f (old_row s a b)))))"
    if "mkey x = mkey a" "mkey y = mkey b" for x y
    by (rule row_at_edit_same [OF e(1) f(1,2) that])
  have ba: "row_at s2 x y = Some (settle (floor_row (snd (f (old_row s1 b a)))))"
    if "mkey x = mkey b" "mkey y = mkey a" for x y
    by (rule row_at_edit_same [OF e(2) f(1,2) that])
  show "friendship_at s2 b a = Some i" by (simp add: friendship_at_def ba f(3))
  show "friendship_at s2 a b = Some i"
  proof (cases "mkey a = mkey b")
    case False
    then show ?thesis
      using row_at_edit_other [OF e(2) f(1), of a b] by (simp add: friendship_at_def ab f(3))
  qed (simp add: friendship_at_def ba f(3))
  show "old_row s1 b a = old_row s b a \<or> rel_friendship (old_row s1 b a) = Some i \<and> old_row s1 b a = settle (floor_row (snd (f (old_row s a b))))"
  proof (cases "mkey a = mkey b")
    case False
    then show ?thesis using row_at_edit_other [OF e(1) f(1), of b a] by (simp add: old_row_def)
  qed (simp add: old_row_def ab f(3))
  show "row_at s2 x y = row_at s x y" if "(mkey x, mkey y) \<notin> {(mkey a, mkey b), (mkey b, mkey a)}"
    using that row_at_edit_other [OF e(1) f(1), of x y] row_at_edit_other [OF e(2) f(1), of x y] by simp
qed

lemma friendship_in_ptrs: "friendship_at s x y = Some i \<Longrightarrow> i \<in> ptrs (rel_rows s)"
  using row_at_ids [of s x y] by (auto simp: friendship_at_def ids_of_def Option.bind_eq_Some_conv)

lemma old_row_friendship: "rel_friendship (old_row s x y) = friendship_at s x y"
  by (simp add: old_row_def friendship_at_def new_relationship_def split: option.split)

lemma befriend_anew_inv:
  assumes "rel_inv s" "rel_room s" "ended = opt_list (friendship_at s a b) @ opt_list (friendship_at s b a)"
  shows "rel_inv (snd (befriend_anew a b at ended s))"
proof -
  define i where "i = next_relation s + 1"
  define s2 where "s2 = (snd (mint s))\<lparr>made := om_put i (floor_time at) (made (snd (mint s)))\<rparr>"
  obtain e1 s3 where e1: "edit_row a b (make_friend i) s2 = (e1, s3)" by fastforce
  obtain e2 s4 where e2: "edit_row b a (make_friend i) s3 = (e2, s4)" by fastforce
  have res: "snd (befriend_anew a b at ended s) = forget (ended @ opt_list e1 @ opt_list e2) s4"
    using e1 e2 by (simp add: befriend_anew_def mint_def s2_def i_def)
  have rows: "row_at s2 x y = row_at s x y" for x y
    by (simp add: s2_def mint_def row_at_def find_row_def)
  have slack2: "rel_slack {i} s2" unfolding s2_def i_def by (rule mint_slack [OF assms(1,2)])
  moreover have "i \<in> relations s2" by (simp add: s2_def mint_def i_def)
  ultimately have slack3: "rel_slack ({i} \<union> ids_of (old_row s2 a b)) s3"
    by (intro edit_slack [OF e1]) auto
  moreover have "i \<in> relations s3" using \<open>i \<in> relations s2\<close> edit_row_frame(1) [OF e1] by simp
  ultimately have slack4: "rel_slack ({i} \<union> ids_of (old_row s2 a b) \<union> ids_of (old_row s3 b a)) s4"
    by (intro edit_slack [OF e2]) auto
  note two = two_edits [OF make_friend_pair make_friend_full make_friend_id e1 e2]
  have out: "e1 = rel_approval (old_row s2 a b)" "e2 = rel_approval (old_row s3 b a)"
    using edit_row_cases [OF e1] edit_row_cases [OF e2] by (metis fst_conv make_friend_def)+
  have "i \<in> ptrs (rel_rows s4)" using two(1) by (rule friendship_in_ptrs)
  moreover have "rel_friendship (old_row s3 b a) \<in> {friendship_at s b a, Some i}"
    using two(3) rows by (metis (mono_tags, lifting) friendship_at_def insertI1 insertI2 make_friend_id old_row_friendship)
  moreover have "rel_friendship (old_row s2 a b) = friendship_at s a b"
    using rows by (simp add: old_row_friendship friendship_at_def)
  ultimately have "{i} \<union> ids_of (old_row s2 a b) \<union> ids_of (old_row s3 b a)
      \<subseteq> set (ended @ opt_list e1 @ opt_list e2) \<union> ptrs (rel_rows s4)"
    using assms(3) out by (auto simp: ids_of_def)
  then show ?thesis unfolding res rel_inv_slack by (rule forget_slack [OF slack4])
qed

lemma befriend_inv: "rel_inv s \<Longrightarrow> rel_room s \<Longrightarrow> rel_inv (snd (befriend a b at s))"
  using befriend_anew_inv [of s _ a b at] by (auto simp: befriend_def Let_def split: option.split)

lemma approve_inv:
  assumes "rel_inv s" "rel_room s"
  shows "rel_inv (snd (approve a b at s))"
proof (cases "Option.bind (row_at s a b) rel_approval")
  case None
  let ?i = "next_relation s + 1"
  let ?t = "(snd (mint s))\<lparr>made := om_put ?i (floor_time at) (made (snd (mint s)))\<rparr>"
  let ?f = "\<lambda>r. r\<lparr>rel_approval := Some ?i\<rparr>"
  obtain out s' where e: "edit_row a b (\<lambda>r. (rel_approval r, ?f r)) ?t = (out, s')" by fastforce
  have s': "edit_unit a b ?f ?t = s'"
    using e by (simp add: edit_unit_def edit_row_def Let_def split_beta split: option.splits)
  have rows: "row_at ?t a b = row_at s a b" by (simp add: mint_def row_at_def find_row_def)
  then have "rel_approval (old_row ?t a b) = None"
    using None by (cases "row_at s a b") (simp_all add: old_row_def new_relationship_def)
  then have "rel_slack ({?i} \<union> {}) s'"
    using mint_slack [OF assms] old_row_ids [OF mint_slack [OF assms], of "floor_time at" a b]
    by (intro edit_slack [OF e]) (auto simp: ids_of_def mint_def)
  moreover have "row_at s' a b = Some (settle (floor_row (?f (old_row ?t a b))))"
    using row_at_edit_same [OF e] by (simp add: keeps_pair_def rel_is_empty_def)
  then have "?i \<in> ptrs (rel_rows s')" using row_at_ids [of s' a b] by (auto simp: ids_of_def)
  ultimately have "rel_inv s'" by (auto simp: rel_inv_slack rel_slack_def)
  then show ?thesis using None s' by (simp add: approve_def mint_def)
qed (use assms in \<open>simp add: approve_def\<close>)

lemma unfriend_side_slack:
  assumes "unfriend_side x y s = (es, s')" "rel_slack E s"
  shows "rel_slack (E \<union> set es) s' \<and> ptrs (rel_rows s) \<subseteq> ptrs (rel_rows s') \<union> set es"
proof (cases "find_row s x y")
  case None
  then show ?thesis using assms by (simp add: unfriend_side_def)
next
  case (Some i)
  let ?f = "\<lambda>r. (rel_friendship r, r\<lparr>rel_friendship := None\<rparr>)"
  obtain out t where e: "edit_row x y ?f s = (out, t)" by fastforce
  then have t: "t = s'" "es = opt_list out" using assms(1) Some by (simp_all add: unfriend_side_def)
  have out: "out = rel_friendship (old_row s x y)" using edit_row_cases [OF e] by (metis fst_conv)
  have "rel_slack (E \<union> set es) s'"
    using edit_slack [OF e assms(2), of "set es"] old_row_ids [OF assms(2), of x y] out t
    by (auto simp: ids_of_def)
  moreover from e have "ptrs (rel_rows s) \<subseteq> ptrs (rel_rows t) \<union> set_option out"
  proof (cases rule: edit_row_cases)
    case (1 pre q post r)
    have "ids_of (old_row s x y) \<subseteq> ids_of r \<union> set_option out" using 1(1,2) by (auto simp: ids_of_def)
    moreover have "ids_of r \<subseteq> ptrs (rel_rows t)" using 1(3) ids_of_empty [of r] by auto
    moreover have "ptrs pre \<subseteq> ptrs (rel_rows t)" "ptrs post \<subseteq> ptrs (rel_rows t)" using 1(3) by auto
    moreover have "ptrs (rel_rows s) \<subseteq> ptrs pre \<union> ids_of (old_row s x y) \<union> ptrs post" using 1(4) by auto
    ultimately show ?thesis by blast
  qed
  ultimately show ?thesis using t by simp
qed

lemma unfriend_inv: "rel_inv s \<Longrightarrow> rel_inv (snd (unfriend a b s))"
proof -
  assume s: "rel_inv s"
  obtain e1 s1 where 1: "unfriend_side a b s = (e1, s1)" by fastforce
  obtain e2 s2 where 2: "unfriend_side b a s1 = (e2, s2)" by fastforce
  have "rel_slack ({} \<union> set e1 \<union> set e2) s2"
    using unfriend_side_slack [OF 1, of "{}"] unfriend_side_slack [OF 2] s by (simp add: rel_inv_slack)
  then have "rel_slack {} (forget (e1 @ e2) s2)" by (rule forget_slack) auto
  then show ?thesis using 1 2 by (simp add: unfriend_def rel_inv_slack Let_def)
qed

lemma end_approval_inv: "rel_inv s \<Longrightarrow> rel_inv (snd (end_approval a b s))"
proof (cases "find_row s a b")
  case (Some i)
  assume s: "rel_inv s"
  let ?f = "\<lambda>r. (rel_approval r, r\<lparr>rel_approval := None\<rparr>)"
  obtain out t where e: "edit_row a b ?f s = (out, t)" by fastforce
  have out: "out = rel_approval (old_row s a b)" using edit_row_cases [OF e] by (metis fst_conv)
  have "rel_slack ({} \<union> set_option out) t"
    using s old_row_ids [of "{}" s a b] out by (intro edit_slack [OF e]) (auto simp: ids_of_def rel_inv_slack)
  then have "rel_slack {} (forget (opt_list out) t)" by (rule forget_slack) auto
  then show ?thesis using Some e by (simp add: end_approval_def rel_inv_slack)
qed (simp add: end_approval_def)

lemma refriend_inv:
  assumes "rel_inv s" "i \<le> next_relation s"
  shows "rel_inv (refriend a b i at s)"
proof -
  define f where "f = (\<lambda>r::relationship. (opt_list (rel_friendship r) @ opt_list (rel_approval r),
     r\<lparr>rel_friendship := Some i, rel_pending_out := None, rel_approval := None\<rparr>))"
  define s1 where "s1 = s\<lparr>relations := insert i (relations s), made := om_or_insert i (floor_time at) (made s)\<rparr>"
  obtain e1 s2 where e1: "edit_row a b f s1 = (e1, s2)" by fastforce
  obtain e2 s3 where e2: "edit_row b a f s2 = (e2, s3)" by fastforce
  have res: "refriend a b i at s = forget (filter (\<lambda>e. e \<noteq> i) (e1 @ e2)) s3"
    using e1 e2 by (simp add: refriend_def f_def s1_def)
  have f: "keeps_pair f" "\<And>r. \<not> rel_is_empty (snd (f r))" "\<And>r. rel_friendship (snd (f r)) = Some i"
    "\<And>r. ids_of (snd (f r)) = {i}" "\<And>r. set (fst (f r)) = ids_of r"
    by (simp_all add: f_def keeps_pair_def rel_is_empty_def ids_of_def)
  have slack1: "rel_slack {i} s1" using assms
    by (auto simp: rel_inv_def rel_slack_def s1_def om_get_or_insert om_wf_or_insert dom_def split: if_splits option.splits)
  have i: "i \<in> relations s1" "i \<in> relations s2" using edit_row_frame(1) [OF e1] by (simp_all add: s1_def)
  have out: "set e1 = ids_of (old_row s1 a b)" "set e2 = ids_of (old_row s2 b a)"
    using edit_row_cases [OF e1] edit_row_cases [OF e2] f(5) by metis+
  have "rel_slack ({i} \<union> set e1) s2" by (rule edit_slack [OF e1 slack1]) (use f i out in auto)
  then have "rel_slack ({i} \<union> set e1 \<union> set e2) s3" by (rule edit_slack [OF e2]) (use f i out in auto)
  then have "rel_slack {} (forget (filter (\<lambda>e. e \<noteq> i) (e1 @ e2)) s3)"
    by (rule forget_slack) (use friendship_in_ptrs [OF two_edits(1) [OF f(1-3) e1 e2]] in auto)
  then show ?thesis by (simp add: res rel_inv_slack)
qed


subsection \<open>Re-keying, purging and cleanup keep it\<close>

lemma ptrs_remove: "i < length rows \<Longrightarrow> ptrs rows = ids_of (snd (rows ! i)) \<union> ptrs (remove_nth i rows)"
  by (subst id_take_nth_drop [of i rows]) (auto simp: remove_nth_def)

lemma ptrs_update:
  "k < length rows \<Longrightarrow> ptrs (rows[k := (fst (rows ! k), r)]) = ids_of r \<union> ptrs (remove_nth k rows)"
  by (auto simp: upd_conv_take_nth_drop remove_nth_def)

lemma or_opt_within: "set_option (or_opt a b) \<subseteq> set_option a \<union> set_option b"
  by (cases a) (simp_all add: or_opt_def)

lemma or_opt_lost: "set_option a \<union> set_option b \<subseteq> set_option (or_opt a b) \<union> fst ` set (id_lost a b)"
  by (cases a; cases b) (auto simp: or_opt_def id_lost_def image_iff)

lemma absorb_ids:
  assumes "absorb r dup = (lost, r')"
  shows "ids_of r' \<subseteq> ids_of r \<union> ids_of dup \<and> ids_of r \<union> ids_of dup \<subseteq> ids_of r' \<union> fst ` set lost"
proof -
  have "ids_of r' = set_option (or_opt (rel_friendship r) (rel_friendship dup))
      \<union> set_option (or_opt (rel_approval r) (rel_approval dup))"
    "lost = id_lost (rel_friendship r) (rel_friendship dup) @ id_lost (rel_approval r) (rel_approval dup)"
    using assms by (simp_all add: absorb_def ids_of_def eq_commute [of _ r'] eq_commute [of _ lost])
  then show ?thesis
    using or_opt_lost [of "rel_friendship r" "rel_friendship dup"] or_opt_lost [of "rel_approval r" "rel_approval dup"]
      or_opt_within [of "rel_friendship r" "rel_friendship dup"] or_opt_within [of "rel_approval r" "rel_approval dup"]
    unfolding ids_of_def [of r] ids_of_def [of dup] by (simp add: image_Un) blast
qed

lemma absorb_ok: "absorb r dup = (lost, r') \<Longrightarrow> \<not> rel_is_empty r \<Longrightarrow> row_ok r'"
  by (auto simp: absorb_def row_ok_settle rel_is_empty_def or_opt_def split: option.splits)

lemma fold_into_ids:
  assumes "fold_into i k rows = (lost, rows')" "i < length rows" "k < length rows" "k \<noteq> i"
    "\<forall>p\<in>set rows. row_ok (snd p)"
  shows "ptrs rows' \<subseteq> ptrs rows \<and> ptrs rows \<subseteq> ptrs rows' \<union> fst ` set lost \<and> (\<forall>p\<in>set rows'. row_ok (snd p))"
proof -
  define ys where "ys = remove_nth i rows"
  define k' where "k' = (if i < k then k - 1 else k)"
  obtain r where r: "absorb (snd (ys ! k')) (snd (rows ! i)) = (lost, r)" and rows': "rows' = ys[k' := (fst (ys ! k'), r)]"
    using assms(1) by (auto simp: fold_into_def Let_def split_beta ys_def k'_def prod_eq_iff)
  have k': "k' < length ys" using assms(2-4) by (auto simp: k'_def ys_def length_remove_nth)
  have ok: "\<forall>p\<in>set ys. row_ok (snd p)" using assms(5) set_remove_nth [of i rows] by (auto simp: ys_def)
  then have "row_ok r" using k' r by (intro absorb_ok) (auto simp: row_ok_def)
  then have "\<forall>p\<in>set rows'. row_ok (snd p)"
    using ok set_update_subset_insert [of ys k'] by (fastforce simp: rows')
  moreover have "ptrs rows = ids_of (snd (rows ! i)) \<union> (ids_of (snd (ys ! k')) \<union> ptrs (remove_nth k' ys))"
    using ptrs_remove [OF assms(2)] ptrs_remove [OF k'] by (simp add: ys_def)
  moreover have "ptrs rows' = ids_of r \<union> ptrs (remove_nth k' ys)" using ptrs_update [OF k'] by (simp add: rows')
  ultimately show ?thesis using absorb_ids [OF r] by blast
qed

lemma kept_for_Some:
  assumes "kept_for moves to p rows = Some k"
  shows "k < length rows" "\<not> row_moves moves (rows ! k)"
  using assms position_less position_split unfolding kept_for_def by fastforce+

lemma merge_rows_ids:
  assumes "merge_rows moves to i rows merged n = (rows', merged', n')" "\<forall>p\<in>set rows. row_ok (snd p)"
  shows "ptrs rows' \<subseteq> ptrs rows \<and> ptrs rows \<union> fst ` set merged \<subseteq> ptrs rows' \<union> fst ` set merged'
     \<and> (\<forall>p\<in>set rows'. row_ok (snd p))"
  using assms
proof (induction moves to i rows merged n rule: merge_rows.induct)
  case (1 moves to i rows merged n)
  consider (finished) "length rows \<le> i"
    | (skip) "i < length rows" "\<not> row_moves moves (rows ! i) \<or> kept_for moves to (rows ! i) rows = None"
    | (merge) k lost ys where "i < length rows" "row_moves moves (rows ! i)"
        "kept_for moves to (rows ! i) rows = Some k" "fold_into i k rows = (lost, ys)"
    by (meson not_le not_None_eq surj_pair)
  then show ?case
  proof cases
    case finished
    then show ?thesis using 1(4,5) by (auto simp: merge_rows.simps)
  next
    case skip
    then have "merge_rows moves to (Suc i) rows merged n = (rows', merged', n')"
      using 1(4) merge_rows.simps [of moves to i rows merged n] by (auto split: if_splits)
    then show ?thesis using 1(1,2,5) skip by (meson not_le)
  next
    case merge
    then have "merge_rows moves to i ys (merged @ lost) (Suc n) = (rows', merged', n')"
      using 1(4) merge_rows.simps [of moves to i rows merged n] by simp
    moreover have "k \<noteq> i" using kept_for_Some(2) [OF merge(3)] merge(2) by auto
    then have ys: "ptrs ys \<subseteq> ptrs rows \<and> ptrs rows \<subseteq> ptrs ys \<union> fst ` set lost \<and> (\<forall>p\<in>set ys. row_ok (snd p))"
      using fold_into_ids [OF merge(4,1) kept_for_Some(1) [OF merge(3)] _ 1(5)] by simp
    ultimately have "ptrs rows' \<subseteq> ptrs ys \<and> ptrs ys \<union> fst ` set (merged @ lost) \<subseteq> ptrs rows' \<union> fst ` set merged'
       \<and> (\<forall>p\<in>set rows'. row_ok (snd p))"
      using 1(3) [of k "(lost, ys)" lost ys] merge by simp
    then show ?thesis using ys unfolding set_append image_Un by blast
  qed
qed

lemma ptrs_stamp: "ptrs (map (stamp_row moves to) rows) = ptrs rows"
  by (simp add: ptrs_def stamp_row_def ids_of_def)

lemma row_ok_stamp: "row_ok (snd (stamp_row moves to p)) = row_ok (snd p)"
  by (simp add: row_ok_def settled stamp_row_def rel_is_empty_def)

lemma rekey_inv:
  assumes "rel_inv s"
  shows "rel_inv (snd (rekey moves to s))"
proof -
  obtain rows merged n where m: "merge_rows moves to 0 (rel_rows s) [] 0 = (rows, merged, n)"
    by (metis surj_pair)
  let ?t = "forget (map fst merged) (s\<lparr>rel_rows := rows\<rparr>)"
  have "ptrs rows \<subseteq> ptrs (rel_rows s) \<and> ptrs (rel_rows s) \<subseteq> ptrs rows \<union> fst ` set merged \<and> (\<forall>p\<in>set rows. row_ok (snd p))"
    using merge_rows_ids [OF m] assms by (auto simp: rel_inv_def)
  then have "rel_slack (fst ` set merged) (s\<lparr>rel_rows := rows\<rparr>)"
    using assms by (auto simp: rel_inv_def rel_slack_def)
  then have "rel_slack {} ?t" by (rule forget_slack) auto
  then show ?thesis
    using m by (auto simp: rekey_def Let_def rel_inv_slack rel_slack_def ptrs_stamp row_ok_stamp forget_frame)
qed

text \<open>The parts of the state the invariant reads.\<close>

lemma rel_inv_cong:
  "rel_rows s' = rel_rows s \<Longrightarrow> relations s' = relations s \<Longrightarrow> made s' = made s
   \<Longrightarrow> next_relation s' = next_relation s \<Longrightarrow> rel_inv s' = rel_inv s"
  by (simp add: rel_inv_def)

lemma rotate_inv: "rel_inv s \<Longrightarrow> rel_inv (snd (rotate k k' s))"
proof -
  assume "rel_inv s"
  then have "rel_inv (snd (rekey (rotate_moves k) k' s))" by (rule rekey_inv)
  moreover have "rel_inv (snd (rotate_portable k k' t)) = rel_inv t" for t
    by (rule rel_inv_cong) (simp_all add: rotate_portable_def Let_def split_beta)
  ultimately show ?thesis by (simp add: rotate_def split_beta)
qed

lemma purge_inv:
  assumes "rel_inv s"
  shows "rel_inv (snd (rel_purge m s))"
proof -
  let ?ids = "concat (map row_ids (filter (doomed m) (rel_rows s)))"
  let ?t = "s\<lparr>rel_rows := filter (\<lambda>p. \<not> doomed m p) (rel_rows s),
     rel_holds := map (strip_hold m) (filter (\<lambda>h. \<not> hold_doomed m h) (rel_holds s)),
     ledger := filter (\<lambda>e. \<not> entry_doomed m e) (ledger s),
     accounts := filter (\<lambda>a. \<not> is_mb (ac_owner a) m) (accounts s)\<rparr>"
  have "rel_slack (set ?ids) ?t"
    using assms by (auto simp: rel_inv_def rel_slack_def ptrs_def set_row_ids)
  then have "rel_inv (forget ?ids ?t)" unfolding rel_inv_slack by (rule forget_slack) auto
  then have "rel_inv (snd (purge_portable f (forget ?ids ?t)))" for f
    by (subst rel_inv_cong [of _ "forget ?ids ?t"]) (simp_all add: purge_portable_def Let_def)
  then show ?thesis
    using \<open>rel_inv (forget ?ids ?t)\<close> by (simp add: rel_purge_def Let_def split_beta split: option.split)
qed

lemma as_of_ids: "as_of t r = Some r' \<Longrightarrow> ids_of r' = ids_of r \<and> row_ok r'"
  by (auto simp: as_of_def rel_lapse_def Let_def row_ok_settle ids_of_def split: if_splits)

lemma as_of_None: "as_of t r = None \<Longrightarrow> ids_of r = {}"
  by (auto simp: as_of_def rel_lapse_def Let_def rel_is_empty_def ids_of_def split: if_splits)

lemma lapse_rows_ids:
  "\<forall>p\<in>set rows. row_ok (snd p) \<Longrightarrow> ptrs (snd (lapse_rows t n rows)) = ptrs rows
     \<and> (\<forall>p\<in>set (snd (lapse_rows t n rows)). row_ok (snd p))"
  by (induction t n rows rule: lapse_rows.induct)
    (auto simp: split_beta Let_def as_of_ids as_of_None split: option.split)

lemma cleanup_inv: "rel_inv s \<Longrightarrow> rel_inv (snd (rel_cleanup l g n s))"
  using lapse_rows_ids [of "rel_rows s" "floor_time l" n]
  by (auto simp: rel_inv_def rel_cleanup_def Let_def split_beta)


subsection \<open>The transition relation\<close>

text \<open>The methods of \<open>RelationshipStore\<close> that write.\<close>

datatype rel_request =
    QAlias mailbox mailbox "string option"
  | QBlock mailbox mailbox bool systime
  | QPending mailbox mailbox "pending_out option"
  | QIgnore mailbox mailbox "ignore option"
  | QBefriend mailbox mailbox systime
  | QUnfriend mailbox mailbox
  | QApprove mailbox mailbox systime
  | QEndApproval mailbox mailbox
  | QRefriend mailbox mailbox relation_id systime
  | QPresent presentation
  | QUnpresent fp fp
  | QKeepWithdrawal held_withdrawal nat
  | QDropWithdrawal fp bytes fp
  | QOffer fp fp "stored_offer option"
  | QKeepRotation fp fp bytes
  | QHold mailbox requester systime
  | QRecord ledger_entry
  | QDropped mailbox
  | QListed mailbox
  | QUpdate mailbox account_update
  | QClaim string fp
  | QRotate fp fp
  | QPurge mailbox
  | QCleanup systime systime nat

primrec rel_serve :: "rel_request \<Rightarrow> rel_state \<Rightarrow> rel_state" where
  "rel_serve (QAlias a b x) s = set_alias a b x s"
| "rel_serve (QBlock a b on at) s = set_blocked a b on at s"
| "rel_serve (QPending a b p) s = set_pending_out a b p s"
| "rel_serve (QIgnore a b i) s = set_ignore a b i s"
| "rel_serve (QBefriend a b at) s = snd (befriend a b at s)"
| "rel_serve (QUnfriend a b) s = snd (unfriend a b s)"
| "rel_serve (QApprove a b at) s = snd (approve a b at s)"
| "rel_serve (QEndApproval a b) s = snd (end_approval a b s)"
| "rel_serve (QRefriend a b i at) s = refriend a b i at s"
| "rel_serve (QPresent p) s = snd (rel_present p s)"
| "rel_serve (QUnpresent f g) s = snd (unpresent f g s)"
| "rel_serve (QKeepWithdrawal w n) s = keep_withdrawal w n s"
| "rel_serve (QDropWithdrawal f p g) s = drop_withdrawal f p g s"
| "rel_serve (QOffer f g k) s = set_offer f g k s"
| "rel_serve (QKeepRotation f g bs) s = keep_rotation f g bs s"
| "rel_serve (QHold a who t) s = rel_hold a who t s"
| "rel_serve (QRecord e) s = snd (record_request e s)"
| "rel_serve (QDropped a) s = request_dropped a s"
| "rel_serve (QListed a) s = snd (requests_listed a s)"
| "rel_serve (QUpdate a u) s = update_account a u s"
| "rel_serve (QClaim l f) s = snd (claim l f s)"
| "rel_serve (QRotate f g) s = snd (rotate f g s)"
| "rel_serve (QPurge a) s = snd (rel_purge a s)"
| "rel_serve (QCleanup t u n) s = snd (rel_cleanup t u n s)"

text \<open>What mints needs a number left; \<open>refriend\<close> is given an id a presentation kept, so one that was minted.\<close>

definition rel_allows :: "rel_request \<Rightarrow> rel_state \<Rightarrow> bool" where
  "rel_allows q s = (case q of
     QBefriend a b at \<Rightarrow> rel_room s
   | QApprove a b at \<Rightarrow> rel_room s
   | QRefriend a b i at \<Rightarrow> i \<le> next_relation s
   | _ \<Rightarrow> True)"

inductive rel_step :: "rel_state \<Rightarrow> rel_state \<Rightarrow> bool" where
  "rel_allows q s \<Longrightarrow> rel_step s (rel_serve q s)"

inductive_cases rel_stepE: "rel_step s s'"

text \<open>Writes that do not touch the rows.\<close>

definition same_rows :: "rel_state \<Rightarrow> rel_state \<Rightarrow> bool" where
  "same_rows s s' \<longleftrightarrow> rel_rows s' = rel_rows s \<and> relations s' = relations s \<and> made s' = made s
     \<and> next_relation s' = next_relation s"

lemma same_rows_writes:
  "same_rows s (snd (unpresent f g s))" "same_rows s (snd (rel_present p s))"
  "same_rows s (keep_withdrawal w n s)" "same_rows s (drop_withdrawal f pr g s)"
  "same_rows s (set_offer f g k s)" "same_rows s (keep_rotation f g bs s)" "same_rows s (rel_hold a who t s)"
  "same_rows s (snd (record_request e s))" "same_rows s (account_edit a h s)"
  "same_rows s (request_dropped a s)" "same_rows s (snd (requests_listed a s))" "same_rows s (update_account a u s)"
  by (simp_all add: same_rows_def unpresent_def rel_present_def keep_withdrawal_def drop_withdrawal_def set_offer_def
      keep_rotation_def rel_hold_def record_request_def account_edit_def request_dropped_def requests_listed_def
      update_account_def Let_def split_beta split: option.split)

lemma same_rows_keeps: "same_rows s s' \<Longrightarrow> rel_inv s \<Longrightarrow> rel_inv s'"
  using rel_inv_cong [of s' s] by (simp add: same_rows_def)

lemmas same_rows_inv = same_rows_writes [THEN same_rows_keeps]

lemma edit_writes_inv:
  assumes "rel_inv s"
  shows "rel_inv (set_alias a b x s)" "rel_inv (set_blocked a b on at s)" "rel_inv (set_pending_out a b p s)"
    "rel_inv (set_ignore a b i s)"
  unfolding set_alias_def set_blocked_def set_pending_out_def set_ignore_def
  by (intro edit_unit_inv assms; simp add: ids_of_def)+

lemma rel_serve_inv: "rel_inv s \<Longrightarrow> rel_allows q s \<Longrightarrow> rel_inv (rel_serve q s)"
  by (cases q)
    (simp_all add: rel_allows_def same_rows_inv edit_writes_inv befriend_inv unfriend_inv approve_inv end_approval_inv refriend_inv
      claim_def rekey_inv rotate_inv purge_inv cleanup_inv)

lemma edit_next [simp]: "next_relation (snd (edit_row a b f s)) = next_relation s" "next_relation (edit_unit a b g s) = next_relation s"
  using edit_row_frame(3) [OF prod.collapse [symmetric]] by (auto simp: edit_unit_def)

lemma unfriend_side_next [simp]: "next_relation (snd (unfriend_side a b s)) = next_relation s"
  by (simp add: unfriend_side_def split_beta Let_def split: option.split)

lemma rekey_next [simp]: "next_relation (snd (rekey moves to s)) = next_relation s"
  by (simp add: rekey_def Let_def split_beta forget_frame)

lemma rel_serve_next:
  "rel_allows q s \<Longrightarrow> next_relation s \<le> next_relation (rel_serve q s)"
  using rel_room_next [of s, THEN less_imp_le] same_rows_writes [unfolded same_rows_def]
  by (cases q)
    (simp_all add: rel_allows_def set_alias_def set_blocked_def set_pending_out_def set_ignore_def befriend_def
      befriend_anew_def mint_def unfriend_def approve_def end_approval_def refriend_def claim_def rotate_def
      rotate_portable_def rel_purge_def purge_portable_def rel_cleanup_def forget_frame Let_def split_beta split: option.split)

interpretation rel: monotone_steps rel_step rel_inv "\<lambda>s s'. next_relation s \<le> next_relation s'"
proof unfold_locales
  show "rel_step x y \<Longrightarrow> rel_inv x \<Longrightarrow> rel_inv y" for x y by (auto elim!: rel_stepE intro: rel_serve_inv)
  show "rel_step x y \<Longrightarrow> rel_inv x \<Longrightarrow> next_relation x \<le> next_relation y" for x y
    by (auto elim!: rel_stepE intro: rel_serve_next)
qed auto

lemma rel_inv_empty: "rel_inv empty_rel"
  by (simp add: rel_inv_def empty_rel_def)


subsection \<open>Properties\<close>

definition sam :: mailbox where "sam = mailbox_login ''sam''"

definition kim :: mailbox where "kim = mailbox_identified ''kim'' [1, 2]"

definition sam_and_kim :: rel_state where
  "sam_and_kim = rel_serve (QBefriend sam kim NANOS) empty_rel"

lemma rel_room_empty: "rel_room empty_rel"
  by code_simp

lemma sam_and_kim_run: "rel_step\<^sup>*\<^sup>* empty_rel sam_and_kim"
  unfolding sam_and_kim_def
  by (intro r_into_rtranclp rel_step.intros) (simp add: rel_allows_def rel_room_empty)

text \<open>C17: In every state the relationship store can reach, an id is live exactly when some row points at it, as a
  friendship or as an approval; the live ids are those with a time they were made at; none is above the
  last one minted; and every row is settled, with no alias beside neither a friendship nor a block, and not empty.\<close>

theorem live_ids_are_pointed_at:
  assumes "rel_step\<^sup>*\<^sup>* empty_rel s"
  shows "(is_live s i \<longleftrightarrow> list_ex (points_at i) (rel_rows s))
    \<and> (is_live s i \<longleftrightarrow> made_at s i \<noteq> None)
    \<and> (is_live s i \<longrightarrow> i \<le> next_relation s)
    \<and> list_all (\<lambda>p. settle (snd p) = snd p \<and> \<not> rel_is_empty (snd p)) (rel_rows s)"
  using rel.run_ok [OF assms rel_inv_empty]
  by (auto simp: rel_inv_def is_live_def points_at_ptrs made_at_def dom_def list_all_iff row_ok_def)

theorem live_ids_are_pointed_at_witness:
  "is_live sam_and_kim 1 \<and> made_at sam_and_kim 1 \<noteq> None \<and> \<not> is_live sam_and_kim 2"
proof -
  have "list_ex (points_at 1) (rel_rows sam_and_kim)" "\<not> list_ex (points_at 2) (rel_rows sam_and_kim)"
    by code_simp+
  then show ?thesis
    using live_ids_are_pointed_at [OF sam_and_kim_run, of 1] live_ids_are_pointed_at [OF sam_and_kim_run, of 2] by blast
qed

text \<open>C18: An id is never minted twice.  Where both halves of a pair hold one friendship, befriending them again answers its id and
  changes nothing; in every other case, an approval between the two or a friendship only one half holds included, the id
  answered is above every id that was live in any earlier state, whatever the store did between.  Approving answers
  the approval that stands and changes nothing, or else an id above all of those too.\<close>

theorem ids_not_reused:
  assumes "rel_step\<^sup>*\<^sup>* empty_rel s" "rel_step\<^sup>*\<^sup>* s s'" "rel_room s'" "is_live s i"
  shows "(if friendship_at s' a b \<noteq> None \<and> friendship_at s' b a = friendship_at s' a b
        then befriend a b at s' = (the (friendship_at s' a b), s')
        else i < fst (befriend a b at s'))
    \<and> (case Option.bind (row_at s' a b) rel_approval of
         Some j \<Rightarrow> approve a b at s' = (j, s')
       | None \<Rightarrow> i < fst (approve a b at s'))"
proof -
  have "rel_inv s" by (rule rel.run_ok [OF assms(1) rel_inv_empty])
  then have "i \<le> next_relation s" using assms(4) by (simp add: rel_inv_def is_live_def)
  also have "\<dots> \<le> next_relation s'" by (rule rel.run_le [OF assms(2) \<open>rel_inv s\<close>])
  also have "\<dots> < next_relation s' + 1" by (rule rel_room_next [OF assms(3)])
  finally have "i < next_relation s' + 1" .
  then have "i < fst (befriend_anew a b at ended s')" for ended by (simp add: befriend_anew_def mint_def Let_def split_beta)
  then have "if friendship_at s' a b \<noteq> None \<and> friendship_at s' b a = friendship_at s' a b
        then befriend a b at s' = (the (friendship_at s' a b), s') else i < fst (befriend a b at s')"
    by (auto simp: befriend_def Let_def split: option.split)
  moreover have "case Option.bind (row_at s' a b) rel_approval of
         Some j \<Rightarrow> approve a b at s' = (j, s') | None \<Rightarrow> i < fst (approve a b at s')"
    using \<open>i < next_relation s' + 1\<close> by (simp add: approve_def mint_def Let_def split: option.split)
  ultimately show ?thesis by blast
qed

theorem ids_not_reused_witness:
  "is_live sam_and_kim 1
   \<and> Option.bind (row_at (rel_serve (QApprove sam kim 0) (rel_serve (QUnfriend sam kim) sam_and_kim)) sam kim) rel_approval = Some 2
   \<and> 1 < fst (befriend sam kim 0 (rel_serve (QApprove sam kim 0) (rel_serve (QUnfriend sam kim) sam_and_kim)))"
proof -
  let ?s = "rel_serve (QApprove sam kim 0) (rel_serve (QUnfriend sam kim) sam_and_kim)"
  have room: "rel_room (rel_serve (QUnfriend sam kim) sam_and_kim)" "rel_room ?s" by code_simp+
  have "rel_step sam_and_kim (rel_serve (QUnfriend sam kim) sam_and_kim)" "rel_step (rel_serve (QUnfriend sam kim) sam_and_kim) ?s"
    using room by (auto intro!: rel_step.intros simp: rel_allows_def simp del: rel_serve.simps)
  then have steps: "rel_step\<^sup>*\<^sup>* sam_and_kim ?s" by (meson converse_rtranclp_into_rtranclp r_into_rtranclp)
  have at: "is_live sam_and_kim 1" "friendship_at ?s sam kim = None" "Option.bind (row_at ?s sam kim) rel_approval = Some 2"
    by code_simp+
  from ids_not_reused [OF sam_and_kim_run steps room(2) at(1), of sam kim 0] at show ?thesis
    by (simp del: rel_serve.simps)
qed

text \<open>Making friends: afterwards both halves hold the id that is returned, it is live, and the row of every other pair is as it was.\<close>

theorem befriend_makes_both_halves:
  assumes "rel_inv s" "rel_room s" "befriend a b at s = (i, s')"
    "(mkey x, mkey y) \<notin> {(mkey a, mkey b), (mkey b, mkey a)}"
  shows "friendship_at s' a b = Some i \<and> friendship_at s' b a = Some i \<and> is_live s' i
    \<and> row_at s' x y = row_at s x y"
proof -
  have inv: "rel_inv s'" using befriend_inv [OF assms(1,2), of a b at] assms(3) by simp
  have *: "friendship_at s' a b = Some i \<and> friendship_at s' b a = Some i \<and> row_at s' x y = row_at s x y"
  proof (cases "friendship_at s a b \<noteq> None \<and> friendship_at s a b = friendship_at s b a")
    case True
    then obtain j where "friendship_at s a b = Some j" "friendship_at s b a = Some j" by (metis option.exhaust)
    then show ?thesis using assms(3) by (auto simp: befriend_def)
  next
    case False
    define j where "j = next_relation s + 1"
    define t where "t = (snd (mint s))\<lparr>made := om_put j (floor_time at) (made (snd (mint s)))\<rparr>"
    obtain e1 s1 where e1: "edit_row a b (make_friend j) t = (e1, s1)" by fastforce
    obtain e2 s2 where e2: "edit_row b a (make_friend j) s1 = (e2, s2)" by fastforce
    note two = two_edits [OF make_friend_pair make_friend_full make_friend_id e1 e2]
    have "i = j" "rel_rows s' = rel_rows s2"
      using assms(3) False e1 e2
      by (auto simp: befriend_def befriend_anew_def Let_def mint_def t_def j_def forget_frame split: option.splits if_splits)
    moreover have "row_at t x y = row_at s x y" by (simp add: t_def mint_def row_at_def find_row_def)
    ultimately show ?thesis
      using two(1,2) two(4) [OF assms(4)] by (simp add: friendship_at_def row_at_def find_row_def)
  qed
  then have "i \<in> ptrs (rel_rows s')" using friendship_in_ptrs by blast
  then show ?thesis using inv * by (simp add: is_live_def rel_inv_def)
qed

theorem befriend_makes_both_halves_witness:
  "friendship_at sam_and_kim sam kim = Some 1 \<and> friendship_at sam_and_kim kim sam = Some 1
   \<and> row_at sam_and_kim sam sam = None"
proof -
  have "befriend sam kim NANOS empty_rel = (1, sam_and_kim)" by (simp add: sam_and_kim_def prod_eq_iff) code_simp
  moreover have "(mkey sam, mkey sam) \<notin> {(mkey sam, mkey kim), (mkey kim, mkey sam)}" "row_at empty_rel sam sam = None"
    by code_simp+
  ultimately show ?thesis
    using befriend_makes_both_halves [OF rel_inv_empty rel_room_empty, of sam kim NANOS 1 sam_and_kim sam sam] by simp
qed

end
