(* ===== verification/Relationship_Refinement.thy ===== *)
theory Relationship_Refinement
  imports Relationship_Safety
begin

section \<open>The relationship store as a map\<close>

text \<open>
  \<open>rel_view\<close> reads the rows as a map from pairs of mailbox keys.  While no two rows are of one
  pair (\<open>rel_distinct\<close>), every write is a simple act on that map, \<open>abs_serve\<close>: the list of rows, the
  positions in it and the rows that come and go are not seen.  \<open>claim\<close>, \<open>rotate\<close> and \<open>cleanup\<close> have
  properties of their own.
\<close>


subsection \<open>The abstract store\<close>

type_synonym rel_map = "mkey \<times> mkey \<Rightarrow> relationship option"

definition rel_view :: "rel_state \<Rightarrow> rel_map" where
  "rel_view s = map_of (map (\<lambda>p. (row_key p, snd p)) (rel_rows s))"

definition rel_distinct :: "rel_state \<Rightarrow> bool" where
  "rel_distinct s \<longleftrightarrow> distinct (map row_key (rel_rows s))"

definition abs_row :: "rel_map \<Rightarrow> mailbox \<Rightarrow> mailbox \<Rightarrow> relationship" where
  "abs_row m a b = (case m (mkey a, mkey b) of Some r \<Rightarrow> r | None \<Rightarrow> new_relationship a b)"

definition abs_edit :: "mailbox \<Rightarrow> mailbox \<Rightarrow> (relationship \<Rightarrow> relationship) \<Rightarrow> rel_map \<Rightarrow> rel_map" where
  "abs_edit a b f m =
     (let r = settle (floor_row (f (abs_row m a b)))
      in m((mkey a, mkey b) := if rel_is_empty r then None else Some r))"

definition abs_both :: "mailbox \<Rightarrow> mailbox \<Rightarrow> (relationship \<Rightarrow> relationship) \<Rightarrow> rel_map \<Rightarrow> rel_map" where
  "abs_both a b f m = abs_edit b a f (abs_edit a b f m)"

definition befriended :: "relation_id \<Rightarrow> relationship \<Rightarrow> relationship" where
  "befriended i r = r\<lparr>rel_friendship := Some i, rel_pending_out := None, rel_approval := None\<rparr>"

text \<open>What each request does to the map; \<open>i\<close> is the id it would mint.\<close>

fun abs_serve :: "rel_request \<Rightarrow> relation_id \<Rightarrow> rel_map \<Rightarrow> rel_map" where
  "abs_serve (QAlias a b x) i m = abs_edit a b (\<lambda>r. r\<lparr>rel_alias := x\<rparr>) m"
| "abs_serve (QBlock a b on at) i m =
     abs_edit a b (\<lambda>r. r\<lparr>rel_blocked_at := (if on then or_opt (rel_blocked_at r) (Some at) else None)\<rparr>) m"
| "abs_serve (QPending a b p) i m = abs_edit a b (\<lambda>r. r\<lparr>rel_pending_out := p\<rparr>) m"
| "abs_serve (QIgnore a b g) i m = abs_edit a b (\<lambda>r. r\<lparr>rel_ignore := g\<rparr>) m"
| "abs_serve (QBefriend a b at) i m =
     (if rel_friendship (abs_row m a b) \<noteq> None \<and> rel_friendship (abs_row m a b) = rel_friendship (abs_row m b a)
      then m else abs_both a b (befriended i) m)"
| "abs_serve (QUnfriend a b) i m = abs_both a b (\<lambda>r. r\<lparr>rel_friendship := None\<rparr>) m"
| "abs_serve (QApprove a b at) i m =
     (if rel_approval (abs_row m a b) \<noteq> None then m else abs_edit a b (\<lambda>r. r\<lparr>rel_approval := Some i\<rparr>) m)"
| "abs_serve (QEndApproval a b) i m = abs_edit a b (\<lambda>r. r\<lparr>rel_approval := None\<rparr>) m"
| "abs_serve (QRefriend a b j at) i m = abs_both a b (befriended j) m"
| "abs_serve (QPurge a) i m = (\<lambda>(k, k'). if k = mkey a \<or> k' = mkey a then None else m (k, k'))"
| "abs_serve q i m = m"

definition has_view :: "rel_request \<Rightarrow> bool" where
  "has_view q = (case q of QClaim l f \<Rightarrow> False | QRotate f g \<Rightarrow> False | QCleanup t u n \<Rightarrow> False | _ \<Rightarrow> True)"


subsection \<open>Edits\<close>

lemma row_at_view: "row_at s a b = rel_view s (mkey a, mkey b)"
proof -
  have "map_option snd (map_option (\<lambda>i. rows ! i) (position (\<lambda>p. row_key p = k) rows)) =
      map_of (map (\<lambda>p. (row_key p, snd p)) rows) k" for rows k
    by (induction rows) (auto simp: option.map_comp comp_def)
  then show ?thesis by (simp add: row_at_via rel_view_def)
qed

lemma old_row_view: "old_row s a b = abs_row (rel_view s) a b"
  by (simp add: old_row_def abs_row_def row_at_view)

lemma map_of_key_None: "k \<notin> row_key ` set rows \<Longrightarrow> map_of (map (\<lambda>p. (row_key p, snd p)) rows) k = None"
  by (force simp: map_of_eq_None_iff)

lemma row_key_with: "keeps_pair f \<Longrightarrow> row_key (q, settle (floor_row (snd (f r)))) = row_key (q, r)"
  by (simp add: row_key_def keeps_pair_def)

lemma edit_row_view:
  assumes "edit_row a b f s = (out, s')" "keeps_pair f" "rel_distinct s"
  shows "rel_distinct s' \<and> rel_view s' = abs_edit a b (\<lambda>r. snd (f r)) (rel_view s)"
  using assms(1)
proof (cases rule: edit_row_cases)
  case (1 pre q post r)
  let ?k = "(mkey a, mkey b)"
  have key: "row_key (q, r) = ?k" using 1(2,7) row_key_with [OF assms(2), of q] by simp
  have "?k \<notin> row_key ` set pre" using 1(5) by auto
  moreover have "?k \<notin> row_key ` set post"
    using assms(3) 1(4,6,7) by (cases "row_at s a b = None") (auto simp: rel_distinct_def image_iff)
  moreover have d: "distinct (map row_key (pre @ post))"
    using assms(3) 1(4,6) by (cases "row_at s a b = None") (auto simp: rel_distinct_def)
  ultimately have "rel_distinct s'" using 1(3) key by (auto simp: rel_distinct_def)
  moreover have "rel_view s' = (rel_view s)(?k := if rel_is_empty r then None else Some r)"
    using 1(3,4) key 1(7) \<open>?k \<notin> row_key ` set pre\<close> \<open>?k \<notin> row_key ` set post\<close>
    by (auto simp: rel_view_def fun_eq_iff map_add_def map_of_key_None split: option.split)
  ultimately show ?thesis using 1(2) by (simp add: abs_edit_def old_row_view)
qed

lemma view_cong:
  assumes "rel_rows s' = rel_rows s"
  shows "rel_view s' = rel_view s" "rel_distinct s' = rel_distinct s" "row_at s' a b = row_at s a b"
    "old_row s' a b = old_row s a b"
  using assms by (simp_all add: rel_view_def rel_distinct_def row_at_def find_row_def old_row_def)

text \<open>\<open>views s s' g\<close>: from \<open>s\<close> to \<open>s'\<close> the map changes by \<open>g\<close>.\<close>

definition views :: "rel_state \<Rightarrow> rel_state \<Rightarrow> (rel_map \<Rightarrow> rel_map) \<Rightarrow> bool" where
  "views s s' g \<longleftrightarrow> (rel_distinct s \<longrightarrow> rel_distinct s' \<and> rel_view s' = g (rel_view s))"

lemma views_same: "rel_rows s' = rel_rows s \<Longrightarrow> views s s' (\<lambda>m. m)"
  using view_cong [of s' s] by (simp add: views_def)

lemma views_trans: "views s t g \<Longrightarrow> views t u h \<Longrightarrow> views s u (\<lambda>m. h (g m))"
  by (simp add: views_def)

lemma views_edit: "edit_row a b f s = (out, s') \<Longrightarrow> keeps_pair f \<Longrightarrow> views s s' (abs_edit a b (\<lambda>r. snd (f r)))"
  using edit_row_view [of a b f s out s'] by (auto simp: views_def)

lemma views_edit_unit:
  assumes "\<And>r. rel_owner (f r) = rel_owner r" "\<And>r. rel_other (f r) = rel_other r"
  shows "views s (edit_unit a b f s) (abs_edit a b f)"
proof -
  have "keeps_pair (\<lambda>r. ((), f r))" using assms by (simp add: keeps_pair_def)
  then show ?thesis
    using views_edit [of a b "\<lambda>r. ((), f r)" s "()" "edit_unit a b f s"] by (simp add: edit_unit_def prod_eq_iff)
qed

lemma views_forget: "views s t g \<Longrightarrow> views s (forget ids t) g"
  using views_trans [OF _ views_same [of "forget ids t" t]] by (simp add: forget_frame)

lemma abs_edit_absent:
  assumes "m (mkey a, mkey b) = None" "rel_is_empty (f (new_relationship a b))"
  shows "abs_edit a b f m = m"
  using assms by (auto simp: abs_edit_def abs_row_def fun_eq_iff)

lemma row_at_find: "find_row s a b = None \<longleftrightarrow> rel_view s (mkey a, mkey b) = None"
  using row_at_view [of s a b] by (metis option.map_disc_iff row_at_def)

lemma new_empty: "rel_is_empty (new_relationship a b)"
  by (simp add: rel_is_empty_def new_relationship_def)

lemma views_unfriend_side:
  "views s (snd (unfriend_side a b s)) (abs_edit a b (\<lambda>r. r\<lparr>rel_friendship := None\<rparr>))"
proof (cases "find_row s a b")
  case None
  then have "abs_edit a b (\<lambda>r. r\<lparr>rel_friendship := None\<rparr>) (rel_view s) = rel_view s"
    by (intro abs_edit_absent) (simp_all add: row_at_find rel_is_empty_def new_relationship_def)
  then show ?thesis using None by (simp add: unfriend_side_def views_def)
next
  case (Some i)
  then show ?thesis
    using views_edit [of a b "\<lambda>r. (rel_friendship r, r\<lparr>rel_friendship := None\<rparr>)" s, OF prod.collapse [symmetric]]
    by (simp add: unfriend_side_def split_beta keeps_pair_def)
qed

lemma views_end_approval: "views s (snd (end_approval a b s)) (abs_edit a b (\<lambda>r. r\<lparr>rel_approval := None\<rparr>))"
proof (cases "find_row s a b")
  case None
  then have "abs_edit a b (\<lambda>r. r\<lparr>rel_approval := None\<rparr>) (rel_view s) = rel_view s"
    by (intro abs_edit_absent) (simp_all add: row_at_find rel_is_empty_def new_relationship_def)
  then show ?thesis using None by (simp add: end_approval_def views_def)
next
  case (Some i)
  then show ?thesis
    using views_edit [of a b "\<lambda>r. (rel_approval r, r\<lparr>rel_approval := None\<rparr>)" s, OF prod.collapse [symmetric]]
    by (simp add: end_approval_def split_beta keeps_pair_def views_forget)
qed

lemma views_both:
  assumes "edit_row a b f s = (e1, s1)" "edit_row b a f s1 = (e2, s2)" "keeps_pair f"
  shows "views s s2 (abs_both a b (\<lambda>r. snd (f r)))"
  using views_trans [OF views_edit [OF assms(1,3)] views_edit [OF assms(2,3)]] by (simp add: abs_both_def [abs_def])

lemma views_befriend_anew:
  "views s (snd (befriend_anew a b at ended s)) (abs_both a b (befriended (next_relation s + 1)))"
proof -
  let ?i = "next_relation s + 1"
  let ?t = "(snd (mint s))\<lparr>made := om_put ?i (floor_time at) (made (snd (mint s)))\<rparr>"
  obtain e1 s1 where e1: "edit_row a b (make_friend ?i) ?t = (e1, s1)" by fastforce
  obtain e2 s2 where e2: "edit_row b a (make_friend ?i) s1 = (e2, s2)" by fastforce
  have "(\<lambda>r. snd (make_friend ?i r)) = befriended ?i" by (simp add: make_friend_def befriended_def fun_eq_iff)
  then have "views ?t s2 (abs_both a b (befriended ?i))"
    using views_both [OF e1 e2 make_friend_pair] by simp
  then have "views s s2 (abs_both a b (befriended ?i))"
    using views_trans [OF views_same [of ?t s]] by (simp add: mint_def)
  moreover have "snd (befriend_anew a b at ended s) = forget (ended @ opt_list e1 @ opt_list e2) s2"
    using e1 e2 by (simp add: befriend_anew_def mint_def)
  ultimately show ?thesis by (simp add: views_forget)
qed

lemma friendship_at_view: "friendship_at s a b = rel_friendship (abs_row (rel_view s) a b)"
  using old_row_friendship [of s a b] by (simp add: old_row_view)

lemma views_befriend: "views s (snd (befriend a b at s)) (abs_serve (QBefriend a b at) (next_relation s + 1))"
proof -
  let ?ab = "friendship_at s a b" and ?ba = "friendship_at s b a"
  have "snd (befriend a b at s) = (if ?ab \<noteq> None \<and> ?ab = ?ba then s
      else snd (befriend_anew a b at (opt_list ?ab @ opt_list ?ba) s))"
    by (auto simp: befriend_def Let_def split: option.split)
  then show ?thesis
    using views_befriend_anew [of s a b at] views_same [of s s] by (auto simp: views_def friendship_at_view)
qed

lemma views_approve: "views s (snd (approve a b at s)) (abs_serve (QApprove a b at) (next_relation s + 1))"
proof -
  let ?i = "next_relation s + 1"
  let ?t = "(snd (mint s))\<lparr>made := om_put ?i (floor_time at) (made (snd (mint s)))\<rparr>"
  have "Option.bind (row_at s a b) rel_approval = rel_approval (abs_row (rel_view s) a b)"
    by (simp add: row_at_view abs_row_def new_relationship_def split: option.split)
  moreover have "views ?t (edit_unit a b (\<lambda>r. r\<lparr>rel_approval := Some ?i\<rparr>) ?t) (abs_edit a b (\<lambda>r. r\<lparr>rel_approval := Some ?i\<rparr>))"
    by (rule views_edit_unit) simp_all
  then have "views s (edit_unit a b (\<lambda>r. r\<lparr>rel_approval := Some ?i\<rparr>) ?t) (abs_edit a b (\<lambda>r. r\<lparr>rel_approval := Some ?i\<rparr>))"
    using views_trans [OF views_same [of ?t s]] by (simp add: mint_def)
  ultimately show ?thesis by (auto simp: approve_def mint_def views_def split: option.split)
qed

lemma views_refriend: "views s (refriend a b i at s) (abs_both a b (befriended i))"
proof -
  let ?f = "\<lambda>r::relationship. (opt_list (rel_friendship r) @ opt_list (rel_approval r), befriended i r)"
  let ?t = "s\<lparr>relations := insert i (relations s), made := om_or_insert i (floor_time at) (made s)\<rparr>"
  obtain e1 s1 where e1: "edit_row a b ?f ?t = (e1, s1)" by fastforce
  obtain e2 s2 where e2: "edit_row b a ?f s1 = (e2, s2)" by fastforce
  have "views ?t s2 (abs_both a b (befriended i))"
    using views_both [OF e1 e2] by (simp add: keeps_pair_def befriended_def [abs_def])
  then have "views s s2 (abs_both a b (befriended i))" using views_trans [OF views_same [of ?t s]] by simp
  moreover have "refriend a b i at s = forget (filter (\<lambda>e. e \<noteq> i) (e1 @ e2)) s2"
    using e1 e2 by (simp add: refriend_def befriended_def)
  ultimately show ?thesis by (simp add: views_forget)
qed

lemma purge_rows: "rel_rows (snd (rel_purge m s)) = filter (\<lambda>p. \<not> doomed m p) (rel_rows s)"
  by (simp add: rel_purge_def purge_portable_def forget_frame Let_def split: option.split)

lemma view_purge:
  "map_of (map (\<lambda>p. (row_key p, snd p)) (filter (\<lambda>p. \<not> doomed m p) rows)) k =
     (if fst k = mkey m \<or> snd k = mkey m then None else map_of (map (\<lambda>p. (row_key p, snd p)) rows) k)"
  by (induction rows) (auto simp: doomed_def is_mb_mkey row_key_def)

lemma views_purge: "views s (snd (rel_purge m s)) (abs_serve (QPurge m) i)"
  by (auto simp: views_def rel_view_def rel_distinct_def purge_rows view_purge distinct_map_filter fun_eq_iff)

lemma views_same_rows: "same_rows s s' \<Longrightarrow> rel_distinct s \<Longrightarrow> rel_distinct s' \<and> rel_view s' = rel_view s"
  using views_same [of s' s] by (simp add: same_rows_def views_def)

lemma views_unfriend: "views s (snd (unfriend a b s)) (abs_both a b (\<lambda>r. r\<lparr>rel_friendship := None\<rparr>))"
  using views_trans [OF views_unfriend_side [of s a b] views_unfriend_side [of _ b a], THEN views_forget]
  by (simp add: unfriend_def abs_both_def [abs_def] split_beta Let_def)

lemma views_writes:
  "views s (set_alias a b x s) (abs_serve (QAlias a b x) i)"
  "views s (set_blocked a b on at s) (abs_serve (QBlock a b on at) i)"
  "views s (set_pending_out a b p s) (abs_serve (QPending a b p) i)"
  "views s (set_ignore a b g s) (abs_serve (QIgnore a b g) i)"
  unfolding abs_serve.simps [abs_def] set_alias_def set_blocked_def set_pending_out_def set_ignore_def
  by (rule views_edit_unit; simp)+

lemmas views_all = views_writes views_befriend views_unfriend views_approve views_end_approval views_refriend views_purge

lemma views_serve:
  assumes "has_view q" "rel_distinct s"
  shows "rel_distinct (rel_serve q s) \<and> rel_view (rel_serve q s) = abs_serve q (next_relation s + 1) (rel_view s)"
  using assms views_all [unfolded views_def] same_rows_writes [THEN views_same_rows]
  by (cases q) (simp_all add: has_view_def)


subsection \<open>Cleanup is not seen\<close>

lemma lapse_simps [simp]:
  "rel_owner (rel_lapse t r) = rel_owner r" "rel_other (rel_lapse t r) = rel_other r"
  "rel_blocked_at (rel_lapse t r) = rel_blocked_at r"
  "rel_friendship (rel_lapse t r) = rel_friendship r" "rel_approval (rel_lapse t r) = rel_approval r"
  "rel_pending_out (rel_lapse t r) = (if pending_lapsed t (rel_pending_out r) then None else rel_pending_out r)"
  "rel_ignore (rel_lapse t r) = (if ignore_lapsed t (rel_ignore r) then None else rel_ignore r)"
  "rel_alias (rel_lapse t r) = (if rel_friendship r = None \<and> rel_blocked_at r = None then None else rel_alias r)"
  by (auto simp: rel_lapse_def Let_def settle_def)

lemma pending_lapsed_mono: "pending_lapsed t p \<Longrightarrow> t \<le> u \<Longrightarrow> pending_lapsed u p"
  by (auto simp: pending_lapsed_def split: option.splits)

lemma ignore_lapsed_mono: "ignore_lapsed t i \<Longrightarrow> t \<le> u \<Longrightarrow> ignore_lapsed u i"
  by (auto simp: ignore_lapsed_def split: option.splits)

lemma lapse_none [simp]: "\<not> pending_lapsed t None" "\<not> ignore_lapsed t None"
  by (simp_all add: pending_lapsed_def ignore_lapsed_def)

lemma lapse_lapse:
  assumes "t \<le> u"
  shows "rel_lapse u (rel_lapse t r) = rel_lapse u r"
  using pending_lapsed_mono [OF _ assms, of "rel_pending_out r"] ignore_lapsed_mono [OF _ assms, of "rel_ignore r"]
  by (intro relationship.equality) auto

lemma lapse_stays_empty: "rel_is_empty (rel_lapse t r) \<Longrightarrow> t \<le> u \<Longrightarrow> rel_is_empty (rel_lapse u r)"
  using pending_lapsed_mono [of t "rel_pending_out r" u] ignore_lapsed_mono [of t "rel_ignore r" u]
  by (auto simp: rel_is_empty_def split: if_splits)

lemma as_of_later: "t \<le> u \<Longrightarrow> Option.bind (as_of t r) (as_of u) = as_of u r"
  by (auto simp: as_of_def Let_def lapse_lapse lapse_stays_empty)

lemma as_of_pair: "as_of t r = Some r' \<Longrightarrow> rel_owner r' = rel_owner r \<and> rel_other r' = rel_other r
    \<and> rel_blocked_at r' = rel_blocked_at r"
  by (auto simp: as_of_def Let_def split: if_splits)

lemma as_of_blocked: "as_of t r = None \<Longrightarrow> rel_blocked_at r = None"
  by (auto simp: as_of_def Let_def rel_is_empty_def split: if_splits)

lemma map_filter_lapse:
  assumes "\<And>q r. g (q, r) = Option.bind (as_of t r) (\<lambda>r'. g (q, r'))"
  shows "List.map_filter g (snd (lapse_rows t n rows)) = List.map_filter g rows"
proof (induction rows arbitrary: n)
  case (Cons p rows)
  obtain q r where p: "p = (q, r)" by (cases p)
  show ?case
  proof (cases "as_of t r")
    case None
    then have "g (q, r) = None" using assms [of q r] by simp
    then show ?thesis using None Cons.IH by (simp add: p split_beta Let_def)
  next
    case (Some r')
    then have "g (q, r') = g (q, r)" using assms [of q r] by simp
    then show ?thesis using Some Cons.IH by (simp add: p split_beta Let_def split: option.split)
  qed
qed simp

text \<open>With one row to a pair, what is read of the pair's row is read by going through them all.\<close>

definition first_of :: "'a list \<Rightarrow> 'a option" where
  "first_of xs = (case xs of [] \<Rightarrow> None | x # _ \<Rightarrow> Some x)"

lemma bind_view:
  assumes "rel_distinct s"
  shows "Option.bind (row_at s a b) h =
    first_of (List.map_filter (\<lambda>p. if row_key p = (mkey a, mkey b) then h (snd p) else None) (rel_rows s))"
proof -
  have none: "k \<notin> row_key ` set rows \<Longrightarrow> List.map_filter (\<lambda>p. if row_key p = k then h (snd p) else None) rows = []"
    for k rows by (induction rows) auto
  have "distinct (map row_key rows) \<Longrightarrow> Option.bind (map_of (map (\<lambda>p. (row_key p, snd p)) rows) k) h =
      first_of (List.map_filter (\<lambda>p. if row_key p = k then h (snd p) else None) rows)" for rows k
    by (induction rows) (auto simp: none first_of_def split: option.split)
  then show ?thesis using assms by (simp add: row_at_view rel_view_def rel_distinct_def)
qed

lemma lapse_rows_keys:
  "set (map row_key (snd (lapse_rows t n rows))) \<subseteq> set (map row_key rows)
   \<and> (distinct (map row_key rows) \<longrightarrow> distinct (map row_key (snd (lapse_rows t n rows))))"
proof (induction t n rows rule: lapse_rows.induct)
  case (2 t n q r rows)
  have "row_key (q, r') = row_key (q, r)" if "as_of t r = Some r'" for r'
    using as_of_pair [OF that] by (simp add: row_key_def)
  then show ?case
    using 2 by (cases "as_of t r \<noteq> Some r \<and> 0 < n") (auto simp: split_beta Let_def split: option.splits)
qed simp

lemma cleanup_rows [simp]:
  "rel_rows (snd (rel_cleanup t g n s)) = snd (lapse_rows (floor_time t) n (rel_rows s))"
  "relations (snd (rel_cleanup t g n s)) = relations s"
  by (simp_all add: rel_cleanup_def Let_def split_beta)

lemma cleanup_distinct: "rel_distinct s \<Longrightarrow> rel_distinct (snd (rel_cleanup t g n s))"
  using lapse_rows_keys [of "floor_time t" n "rel_rows s"] by (simp add: rel_distinct_def)

lemma floor_mono: "t \<le> u \<Longrightarrow> floor_time t \<le> floor_time u"
  by (auto simp: floor_time_def secs_def NANOS_def zdiv_mono1 pos_imp_zdiv_nonneg_iff)

lemma lapse_reads:
  assumes "t \<le> u" "\<And>q r. h (q, r) = (if c (rel_owner r) (rel_other r) then Option.bind (as_of u r) (k q) else None)"
  shows "List.map_filter h (snd (lapse_rows t n rows)) = List.map_filter h rows"
proof (rule map_filter_lapse)
  fix q r
  show "h (q, r) = Option.bind (as_of t r) (\<lambda>r'. h (q, r'))"
    using as_of_later [OF assms(1), of r] as_of_pair [of t r] by (cases "as_of t r") (auto simp: assms(2))
qed

lemma cleanup_row_reads:
  assumes "t \<le> now"
  shows "rel_distinct s \<Longrightarrow> rel_relationship (snd (rel_cleanup t g n s)) a b now = rel_relationship s a b now"
    "rel_relationships (snd (rel_cleanup t g n s)) a now = rel_relationships s a now"
    "rel_pending_in (snd (rel_cleanup t g n s)) a now = rel_pending_in s a now"
    "rel_blocked (snd (rel_cleanup t g n s)) a = rel_blocked s a"
proof -
  note reads = lapse_reads [OF floor_mono [OF assms]]
  show "rel_relationship (snd (rel_cleanup t g n s)) a b now = rel_relationship s a b now" if "rel_distinct s"
    unfolding rel_relationship_def bind_view [OF that] bind_view [OF cleanup_distinct [OF that]] cleanup_rows
    by (subst reads [where c = "\<lambda>x y. mkey x = mkey a \<and> mkey y = mkey b" and k = "\<lambda>q. Some"])
      (auto simp: row_key_def fun_eq_iff)
  show "rel_relationships (snd (rel_cleanup t g n s)) a now = rel_relationships s a now"
    unfolding rel_relationships_def cleanup_rows
    by (subst reads [where c = "\<lambda>x y. is_mb x a" and k = "\<lambda>q. Some"]) (auto simp: fun_eq_iff)
  show "rel_pending_in (snd (rel_cleanup t g n s)) a now = rel_pending_in s a now"
    unfolding rel_pending_in_def cleanup_rows
    by (subst reads [where c = "\<lambda>x y. is_mb y a" and k = "\<lambda>q rel. case rel_pending_out rel of
          Some p' \<Rightarrow> if po_delivered p' then Some (secs (po_sent_at p'), q, rel) else None | None \<Rightarrow> None"])
      (auto simp: pending_in_row_def fun_eq_iff split: option.split)
  have "List.map_filter (blocked_row a) (snd (lapse_rows (floor_time t) n (rel_rows s)))
      = List.map_filter (blocked_row a) (rel_rows s)"
  proof (rule map_filter_lapse)
    fix q r
    show "blocked_row a (q, r) = Option.bind (as_of (floor_time t) r) (\<lambda>r'. blocked_row a (q, r'))"
      using as_of_pair [of "floor_time t" r] as_of_blocked [of "floor_time t" r]
      by (cases "as_of (floor_time t) r") (auto simp: blocked_row_def)
  qed
  then show "rel_blocked (snd (rel_cleanup t g n s)) a = rel_blocked s a"
    unfolding rel_blocked_def cleanup_rows by simp
qed

lemma find_filter: "find P xs = first_of (filter P xs)"
  by (induction xs) (simp_all add: first_of_def)

lemma list_ex_filter: "list_ex P xs \<longleftrightarrow> filter P xs \<noteq> []"
  by (induction xs) auto

lemma cleanup_other_reads:
  assumes "t \<le> now" "g \<le> since"
  shows "is_held (snd (rel_cleanup t g n s)) a who now = is_held s a who now"
    "rel_offer (snd (rel_cleanup t g n s)) f f' now = rel_offer s f f' now"
    "requests_to (snd (rel_cleanup t g n s)) who a kind since = requests_to s who a kind since"
    "recipients_since (snd (rel_cleanup t g n s)) who since = recipients_since s who since"
    "requested_since (snd (rel_cleanup t g n s)) who since = requested_since s who since"
proof -
  note le = floor_mono [OF assms(1)] floor_mono [OF assms(2)]
  have parts: "rel_holds (snd (rel_cleanup t g n s)) = snd (retain_upto (\<lambda>h. ho_until h \<le> floor_time t) n (rel_holds s))"
    "ledger (snd (rel_cleanup t g n s)) = snd (retain_upto (\<lambda>e. lg_at e < floor_time g) n (ledger s))"
    "offers (snd (rel_cleanup t g n s)) = snd (retain_upto (\<lambda>(a, b, off). so_lapses_at off \<le> floor_time t) n (offers s))"
    by (simp_all add: rel_cleanup_def Let_def split_beta)
  show "is_held (snd (rel_cleanup t g n s)) a who now = is_held s a who now"
    unfolding is_held_def list_ex_filter parts by (subst filter_retain_upto) (use le in auto)
  show "rel_offer (snd (rel_cleanup t g n s)) f f' now = rel_offer s f f' now"
    unfolding rel_offer_def find_filter parts by (subst filter_retain_upto) (use le in auto)
  show "requests_to (snd (rel_cleanup t g n s)) who a kind since = requests_to s who a kind since"
    unfolding requests_to_def parts by (subst filter_retain_upto) (use le in auto)
  show "recipients_since (snd (rel_cleanup t g n s)) who since = recipients_since s who since"
    unfolding recipients_since_def parts by (subst filter_retain_upto) (use le in auto)
  show "requested_since (snd (rel_cleanup t g n s)) who since = requested_since s who since"
    unfolding requested_since_def parts by (subst filter_retain_upto) (use le in auto)
qed

text \<open>The reads of the ledger by address, and those of what cleanup leaves alone.\<close>

lemma fold_filter: "(\<And>e. \<not> P e \<Longrightarrow> f e = id) \<Longrightarrow> fold f (filter P xs) = fold f xs"
  by (induction xs) auto

lemma cleanup_ledger: "ledger (snd (rel_cleanup t g n s)) = snd (retain_upto (\<lambda>e. lg_at e < floor_time g) n (ledger s))"
  by (simp add: rel_cleanup_def Let_def split_beta)

lemma cleanup_addresses:
  assumes "g \<le> since"
  shows "request_addresses (snd (rel_cleanup t g n s)) a since before = request_addresses s a since before"
    "guest_requests_to (snd (rel_cleanup t g n s)) adr a since = guest_requests_to s adr a since"
    "recipients_from_address (snd (rel_cleanup t g n s)) adr since = recipients_from_address s adr since"
proof -
  note le = floor_mono [OF assms]
  let ?step = "\<lambda>e out. case lg_address e of
         Some x \<Rightarrow>
           if lg_sender e = None \<and> floor_time since \<le> lg_at e
              \<and> (case before of Some b \<Rightarrow> lg_at e < floor_time b | None \<Rightarrow> True)
              \<and> is_mb (lg_recipient e) a \<and> x \<notin> set out
           then out @ [x] else out
       | None \<Rightarrow> out"
  have "request_addresses x a since before = fold ?step (filter (\<lambda>e. floor_time since \<le> lg_at e) (ledger x)) []" for x
    unfolding request_addresses_def by (rule fold_filter [symmetric, THEN fun_cong]) (auto simp: fun_eq_iff split: option.split)
  moreover have "filter (\<lambda>e. floor_time since \<le> lg_at e) (snd (retain_upto (\<lambda>e. lg_at e < floor_time g) n (ledger s)))
      = filter (\<lambda>e. floor_time since \<le> lg_at e) (ledger s)"
    by (subst filter_retain_upto) (use le in auto)
  ultimately show "request_addresses (snd (rel_cleanup t g n s)) a since before = request_addresses s a since before"
    by (simp only: cleanup_ledger)
  show "guest_requests_to (snd (rel_cleanup t g n s)) adr a since = guest_requests_to s adr a since"
    unfolding guest_requests_to_def cleanup_ledger by (subst filter_retain_upto) (use le in auto)
  show "recipients_from_address (snd (rel_cleanup t g n s)) adr since = recipients_from_address s adr since"
    unfolding recipients_from_address_def cleanup_ledger by (subst filter_retain_upto) (use le in auto)
qed

lemma cleanup_is_blocked:
  assumes "rel_distinct s"
  shows "is_blocked (snd (rel_cleanup t g n s)) a b = is_blocked s a b"
proof -
  have "rel_relationship (snd (rel_cleanup t g n s)) a b t = rel_relationship s a b t"
    by (rule cleanup_row_reads(1) [OF order_refl assms])
  moreover have "is_blocked x a b \<longleftrightarrow> (case rel_relationship x a b t of Some r \<Rightarrow> rel_blocked_at r \<noteq> None | None \<Rightarrow> False)" for x
  proof (cases "row_at x a b")
    case (Some r)
    then show ?thesis
      using as_of_blocked [of "floor_time t" r] as_of_pair [of "floor_time t" r "the (as_of (floor_time t) r)"]
      by (cases "as_of (floor_time t) r") (simp_all add: is_blocked_def rel_relationship_def)
  qed (simp add: is_blocked_def rel_relationship_def)
  ultimately show ?thesis by (simp only:)
qed

lemma find_retained: "find P (snd (retain_upto Q n xs)) = Some x \<Longrightarrow> find P xs \<noteq> None"
  by (induction Q n xs rule: retain_upto.induct) (auto simp: split_beta Let_def split: if_splits)

lemma find_kept: "find P xs = Some x \<Longrightarrow> \<not> Q x \<Longrightarrow> find P (snd (retain_upto Q n xs)) = Some x"
  by (induction Q n xs rule: retain_upto.induct) (auto simp: split_beta Let_def split: if_splits)

lemma cleanup_untouched:
  "is_live (snd (rel_cleanup t g n s)) i = is_live s i" "made_at (snd (rel_cleanup t g n s)) i = made_at s i"
  "rel_account (snd (rel_cleanup t g n s)) a = rel_account s a"
  by (simp_all add: is_live_def made_at_def rel_account_def rel_cleanup_def Let_def split_beta)

lemma cleanup_find_request:
  "case find_request s who sent_to guid of
      None \<Rightarrow> find_request (snd (rel_cleanup t g n s)) who sent_to guid = None
    | Some e \<Rightarrow> floor_time g \<le> lg_at e \<longrightarrow> find_request (snd (rel_cleanup t g n s)) who sent_to guid = Some e"
  unfolding find_request_def cleanup_ledger
  using find_retained [where Q = "\<lambda>e. lg_at e < floor_time g" and n = n and xs = "ledger s"] find_kept [where Q = "\<lambda>e. lg_at e < floor_time g" and n = n and xs = "ledger s"]
  by (fastforce simp: not_less split: option.split)


subsection \<open>Properties\<close>

definition sam_ignores :: rel_state where
  "sam_ignores = rel_serve (QIgnore sam kim (Some \<lparr>ig_mode = IgAll, ig_until = Some (5 * NANOS)\<rparr>))
     (rel_serve (QBefriend sam kim NANOS) empty_rel)"

text \<open>C19: Every write of the relationship store but \<open>claim\<close>, \<open>rotate\<close> and \<open>cleanup\<close> keeps one row to a pair and
  acts on the rows as the abstract store does: one entry of a map from pairs of mailbox keys is replaced,
  or the entries of a purged account are removed, and nothing else changes.  \<open>befriend\<close> is idle exactly when
  both halves hold one friendship, and the read of a pair's row at a time is the map's entry at that time.\<close>

theorem writes_refine_map:
  assumes "rel_distinct s" "has_view q"
  shows "rel_distinct (rel_serve q s)
    \<and> rel_view (rel_serve q s) = abs_serve q (next_relation s + 1) (rel_view s)
    \<and> rel_relationship (rel_serve q s) a b now
        = Option.bind (abs_serve q (next_relation s + 1) (rel_view s) (mkey a, mkey b)) (as_of (floor_time now))"
  using views_serve [OF assms(2,1)] by (simp add: rel_relationship_def row_at_view)

theorem writes_refine_map_witness:
  "rel_distinct sam_ignores
   \<and> map_option rel_friendship (rel_relationship (rel_serve (QUnfriend kim sam) sam_ignores) sam kim 0) = Some None
   \<and> rel_relationship (rel_serve (QUnfriend kim sam) sam_ignores) kim sam 0 = None"
proof -
  have 1: "rel_distinct empty_rel" by (simp add: rel_distinct_def empty_rel_def)
  have 2: "rel_distinct (rel_serve (QBefriend sam kim NANOS) empty_rel)"
    by (rule writes_refine_map [OF 1, THEN conjunct1]) (simp add: has_view_def)
  have 3: "rel_distinct sam_ignores"
    unfolding sam_ignores_def by (rule writes_refine_map [OF 2, THEN conjunct1]) (simp add: has_view_def)
  have "has_view (QUnfriend kim sam)" by (simp add: has_view_def)
  note 4 = writes_refine_map [OF 3 this, THEN conjunct2, THEN conjunct2]
  have view: "rel_view sam_ignores (mkey sam, mkey kim) = Some \<lparr>rel_owner = sam, rel_other = kim, rel_alias = None,
      rel_blocked_at = None, rel_friendship = Some 1, rel_approval = None, rel_pending_out = None,
      rel_ignore = Some \<lparr>ig_mode = IgAll, ig_until = Some (5 * NANOS)\<rparr>\<rparr>"
    "rel_view sam_ignores (mkey kim, mkey sam) = Some \<lparr>rel_owner = kim, rel_other = sam, rel_alias = None,
      rel_blocked_at = None, rel_friendship = Some 1, rel_approval = None, rel_pending_out = None, rel_ignore = None\<rparr>"
    by code_simp+
  then show ?thesis
    unfolding 4
    by (simp add: 3 abs_both_def abs_edit_def abs_row_def sam_def kim_def mkey_def mailbox_login_def
        mailbox_identified_def Let_def floor_row_def settle_def rel_is_empty_def as_of_def rel_lapse_def
        pending_lapsed_def ignore_lapsed_def floor_time_def secs_def NANOS_def)
qed

text \<open>What cleanup does change: a request repeated after the ledger has dropped its entry is recorded as a new one.\<close>

definition sam_asks :: ledger_entry where
  "sam_asks = \<lparr>lg_kind = KMessage, lg_sender = Some sam, lg_address = None, lg_recipient = kim, lg_guid = Some (MessageGuid ''hi''),
     lg_bytes = 3, lg_at = NANOS\<rparr>"

lemma cleanup_forgets_request:
  "fst (record_request sam_asks (rel_serve (QRecord sam_asks) empty_rel)) = RecRetry sam_asks
   \<and> fst (record_request sam_asks (rel_serve (QCleanup 0 (5 * NANOS) 10) (rel_serve (QRecord sam_asks) empty_rel))) = RecNew"
  by code_simp



end
