(* ===== verification/Relationship_Claims.thy ===== *)
theory Relationship_Claims
  imports Relationship_Refinement
begin

section \<open>Claims, rotations and purges of the relationship store\<close>

text \<open>
  What re-keying and purging promise: \<open>claim\<close> and \<open>rotate\<close> leave nothing under the key that moved and
  are idle the second time; the rows stay one to a pair unless the two keys had rows about each other;
  \<open>purge\<close> removes exactly what \<open>purge_count\<close> says and leaves nothing of the account.
\<close>


subsection \<open>Nothing left to move\<close>

definition hold_moves :: "(mailbox \<Rightarrow> bool) \<Rightarrow> hold_key \<Rightarrow> bool" where
  "hold_moves moves h = moves \<lparr>mb_login = (case hk_login h of Some l \<Rightarrow> l | None \<Rightarrow> []), mb_fp = hk_fp h\<rparr>"

text \<open>Nothing in the store is under a key that moves.\<close>

definition still :: "(mailbox \<Rightarrow> bool) \<Rightarrow> rel_state \<Rightarrow> bool" where
  "still moves s \<longleftrightarrow> (\<forall>p\<in>set (rel_rows s). \<not> row_moves moves p)
     \<and> (\<forall>h\<in>set (rel_holds s). \<not> hold_moves moves (ho_owner h) \<and> (\<forall>k. ho_held h = HeldAccount k \<longrightarrow> \<not> hold_moves moves k))
     \<and> (\<forall>e\<in>set (ledger s). \<not> moves (lg_recipient e) \<and> (\<forall>m. lg_sender e = Some m \<longrightarrow> \<not> moves m))
     \<and> (\<forall>a\<in>set (accounts s). \<not> moves (ac_owner a))"

lemma merge_rows_still:
  "\<forall>p\<in>set rows. \<not> row_moves moves p \<Longrightarrow> merge_rows moves to i rows merged n = (rows, merged, n)"
proof (induction moves to i rows merged n rule: merge_rows.induct)
  case (1 moves to i rows merged n)
  show ?case
  proof (cases "length rows \<le> i")
    case False
    then have "\<not> row_moves moves (rows ! i)" using 1(4) by (metis not_le nth_mem)
    then show ?thesis using 1(1) [OF False] 1(4) merge_rows.simps [of moves to i rows merged n] False by simp
  qed (simp add: merge_rows.simps)
qed

lemma drop_accounts_still: "\<forall>a\<in>set as. \<not> moves (ac_owner a) \<Longrightarrow> drop_accounts moves to j as = as"
proof (induction moves to j as rule: drop_accounts.induct)
  case (1 moves to j as)
  show ?case
  proof (cases "length as \<le> j")
    case False
    then have "\<not> moves (ac_owner (as ! j))" using 1(3) by (metis not_le nth_mem)
    then show ?thesis using 1(2) [OF False] 1(3) drop_accounts.simps [of moves to j as] False by simp
  qed (simp add: drop_accounts.simps)
qed

lemma stamp_idle [simp]: "\<not> moves m \<Longrightarrow> stamp moves to m = m"
  by (simp add: stamp_def)

lemma stamp_key_idle [simp]: "\<not> hold_moves moves h \<Longrightarrow> stamp_key moves to h = h"
  by (simp add: stamp_key_def hold_moves_def)

lemma stamp_row_idle: "\<not> row_moves moves p \<Longrightarrow> stamp_row moves to p = p"
  by (cases p; cases "snd p") (simp add: stamp_row_def row_moves_def)

lemma stamp_hold_idle:
  "\<not> hold_moves moves (ho_owner h) \<Longrightarrow> (\<And>k. ho_held h = HeldAccount k \<Longrightarrow> \<not> hold_moves moves k)
   \<Longrightarrow> stamp_hold moves to h = h"
  by (cases h; cases "ho_held h") (simp_all add: stamp_hold_def)

lemma stamp_entry_idle:
  "\<not> moves (lg_recipient e) \<Longrightarrow> (\<And>m. lg_sender e = Some m \<Longrightarrow> \<not> moves m) \<Longrightarrow> stamp_entry moves to e = e"
  by (cases e; cases "lg_sender e") (simp_all add: stamp_entry_def)

lemma stamp_still:
  assumes "still moves s"
  shows "map (stamp_row moves to) (rel_rows s) = rel_rows s"
    "map (stamp_hold moves to) (rel_holds s) = rel_holds s"
    "map (stamp_entry moves to) (ledger s) = ledger s"
    "map (\<lambda>a. a\<lparr>ac_owner := stamp moves to (ac_owner a)\<rparr>) (accounts s) = accounts s"
  by (rule map_idI; use assms in \<open>simp add: still_def stamp_row_idle stamp_hold_idle stamp_entry_idle\<close>)+

lemma stamped_still:
  assumes "still moves s"
  shows "sum_list (map (\<lambda>p. stamped moves (rel_owner (snd p)) + stamped moves (rel_other (snd p))) (rel_rows s)) = 0"
    "sum_list (map (stamped_hold moves) (rel_holds s)) = 0" "sum_list (map (stamped_entry moves) (ledger s)) = 0"
    "sum_list (map (\<lambda>a. stamped moves (ac_owner a)) (accounts s)) = 0"
  using assms
  by (auto simp: still_def row_moves_def hold_moves_def stamped_hold_def stamped_entry_def stamped_def
      stamped_key_def sum_list_eq_0_iff split: held.split option.split)

lemma rekey_still: "still moves s \<Longrightarrow> rekey moves to s = (\<lparr>rk_moved = 0, rk_merged = []\<rparr>, s)"
proof -
  assume s: "still moves s"
  then have "merge_rows moves to 0 (rel_rows s) [] 0 = (rel_rows s, [], 0)"
    "drop_accounts moves to 0 (accounts s) = accounts s"
    by (simp_all add: still_def merge_rows_still drop_accounts_still)
  then show ?thesis
    using stamp_still [OF s, of to] stamped_still [OF s] by (simp add: rekey_def forget_def)
qed

text \<open>A key that has been stamped does not move again.\<close>

definition once :: "(mailbox \<Rightarrow> bool) \<Rightarrow> fp \<Rightarrow> bool" where
  "once moves to \<longleftrightarrow> (\<forall>m. \<not> moves (m\<lparr>mb_fp := Some to\<rparr>))"

lemma once_stamp: "once moves to \<Longrightarrow> \<not> moves (stamp moves to m)"
  by (simp add: once_def stamp_def)

lemma once_stamp_key: "once moves to \<Longrightarrow> \<not> hold_moves moves (stamp_key moves to h)"
  using once_stamp [of moves to "\<lparr>mb_login = (case hk_login h of Some l \<Rightarrow> l | None \<Rightarrow> []), mb_fp = hk_fp h\<rparr>"]
  by (simp add: stamp_key_def hold_moves_def stamp_def split: if_splits)

lemma rekey_leaves_still: "once moves to \<Longrightarrow> still moves (snd (rekey moves to s))"
  by (auto simp: rekey_def Let_def split_beta still_def row_moves_def stamp_row_def stamp_hold_def stamp_entry_def
      once_stamp once_stamp_key split: held.split)

lemma once_claim: "once (claim_moves l) f"
  by (simp add: once_def claim_moves_def)

lemma once_rotate: "k \<noteq> k' \<Longrightarrow> once (rotate_moves k) k'"
  by (simp add: once_def rotate_moves_def)


subsection \<open>The portable part\<close>

lemma restamp_clean:
  assumes "k \<noteq> k'" "\<And>n p. pair_of (set_pair n p) = n" "q \<in> set (snd (restamp k k' pair_of set_pair taken ps))"
  shows "fst (pair_of q) \<noteq> k \<and> snd (pair_of q) \<noteq> k"
  using assms(3)
proof (induction ps arbitrary: taken)
  case (Cons p ps)
  show ?case
  proof (cases "fst (pair_of p) = k \<or> snd (pair_of p) = k")
    case True
    then show ?thesis
      using Cons assms(1) by (auto simp: split_beta Let_def assms(2) swap_fp_def split: if_splits)
  next
    case False
    then show ?thesis using Cons by (auto simp: split_beta Let_def)
  qed
qed simp

lemma restamp_idle:
  "\<forall>q\<in>set ps. fst (pair_of q) \<noteq> k \<and> snd (pair_of q) \<noteq> k \<Longrightarrow> restamp k k' pair_of set_pair taken ps = (0, ps)"
  by (induction ps arbitrary: taken) simp_all

text \<open>Nothing portable names \<open>k\<close>.\<close>

definition unnamed :: "fp \<Rightarrow> rel_state \<Rightarrow> bool" where
  "unnamed k s \<longleftrightarrow> (\<forall>p\<in>set (presentations s). pr_presenter p \<noteq> k \<and> pr_other p \<noteq> k)
     \<and> (\<forall>x\<in>set (offers s). fst x \<noteq> k \<and> fst (snd x) \<noteq> k) \<and> (\<forall>w\<in>set (withdrawals s). hw_owner w \<noteq> k)"

lemma rotate_portable_unnamed:
  assumes "k \<noteq> k'"
  shows "unnamed k (snd (rotate_portable k k' s))"
proof -
  have "fst (pr_presenter q, pr_other q) \<noteq> k \<and> snd (pr_presenter q, pr_other q) \<noteq> k"
    if "q \<in> set (presentations (snd (rotate_portable k k' s)))" for q
    by (rule restamp_clean [OF assms, where pair_of = "\<lambda>p. (pr_presenter p, pr_other p)"
          and set_pair = "\<lambda>(a, b) p. p\<lparr>pr_presenter := a, pr_other := b\<rparr>"])
      (use that in \<open>auto simp: rotate_portable_def Let_def split_beta\<close>)
  moreover have "fst (case q of (a, b, off) \<Rightarrow> (a, b)) \<noteq> k \<and> snd (case q of (a, b, off) \<Rightarrow> (a, b)) \<noteq> k"
    if "q \<in> set (offers (snd (rotate_portable k k' s)))" for q
    by (rule restamp_clean [OF assms, where pair_of = "\<lambda>(a, b, off). (a, b)"
          and set_pair = "\<lambda>(a, b) (_, _, off). (a, b, off)"])
      (use that in \<open>auto simp: rotate_portable_def Let_def split_beta\<close>)
  moreover have "hw_owner w \<noteq> k" if "w \<in> set (withdrawals (snd (rotate_portable k k' s)))" for w
    using that assms by (auto simp: rotate_portable_def Let_def split_beta split: if_splits)
  ultimately show ?thesis by (simp add: unnamed_def split_beta)
qed

lemma rotate_portable_idle:
  assumes "unnamed k s"
  shows "rotate_portable k k' s = (0, s)"
proof -
  have none: "filter (\<lambda>w. hw_owner w = k) (withdrawals s) = []"
    using assms by (auto simp: unnamed_def filter_empty_conv)
  have map: "map (\<lambda>w. if hw_owner w = k then w\<lparr>hw_owner := k'\<rparr> else w) (withdrawals s) = withdrawals s"
    using assms by (intro map_idI) (auto simp: unnamed_def)
  have keep: "filter (\<lambda>w. if hw_owner w = k' then \<not> list_ex (R w) [] else if hw_owner w = k then Q w else True)
      (withdrawals s) = withdrawals s" for Q and R :: "held_withdrawal \<Rightarrow> 'a \<Rightarrow> bool"
    using assms by (intro filter_True) (auto simp: unnamed_def)
  have ps: "restamp k k' (\<lambda>p. (pr_presenter p, pr_other p)) f taken (presentations s) = (0, presentations s)" for f taken
    using assms by (intro restamp_idle) (simp add: unnamed_def)
  have os: "restamp k k' (\<lambda>(a, b, off). (a, b)) f taken (offers s) = (0, offers s)" for f taken
    using assms by (intro restamp_idle) (simp add: unnamed_def split_beta)
  show ?thesis unfolding rotate_portable_def Let_def ps os none list.map keep map split_beta fst_conv snd_conv by simp
qed


subsection \<open>One row to a pair\<close>

text \<open>\<open>row_pair\<close>: the two mailboxes of a row, which a merge keeps.\<close>

definition row_pair :: "u64 \<times> relationship \<Rightarrow> mailbox \<times> mailbox" where
  "row_pair p = (rel_owner (snd p), rel_other (snd p))"

lemma map_remove_nth: "map f (remove_nth i xs) = remove_nth i (map f xs)"
  by (simp add: remove_nth_def take_map drop_map)

lemma absorb_pair: "absorb r dup = (lost, r') \<Longrightarrow> rel_owner r' = rel_owner r \<and> rel_other r' = rel_other r"
  by (auto simp: absorb_def)

lemma fold_into_pairs:
  assumes "i < length rows" "k < length rows" "k \<noteq> i"
  shows "map row_pair (snd (fold_into i k rows)) = remove_nth i (map row_pair rows)"
proof -
  define ys where "ys = remove_nth i rows"
  define k' where "k' = (if i < k then k - 1 else k)"
  have k': "k' < length ys" using assms by (auto simp: k'_def ys_def length_remove_nth)
  obtain lost r where r: "absorb (snd (ys ! k')) (snd (rows ! i)) = (lost, r)" by fastforce
  have "snd (fold_into i k rows) = ys[k' := (fst (ys ! k'), r)]"
    using r by (simp add: fold_into_def Let_def ys_def k'_def)
  moreover have "row_pair (fst (ys ! k'), r) = row_pair (ys ! k')" using absorb_pair [OF r] by (simp add: row_pair_def)
  ultimately have "map row_pair (snd (fold_into i k rows)) = map row_pair ys"
    using k' by (simp add: map_update list_update_same_conv)
  then show ?thesis by (simp add: ys_def map_remove_nth)
qed

lemma kept_for_pairs:
  "kept_for moves to p rows = None \<longleftrightarrow> (\<forall>(x, y)\<in>set (map row_pair rows). moves x \<or> moves y
     \<or> key_str x \<noteq> key_after moves to (fst (row_pair p)) \<or> key_str y \<noteq> key_after moves to (snd (row_pair p)))"
  by (auto simp: kept_for_def position_None row_moves_def row_pair_def)

lemma row_moves_pair: "row_moves moves p \<longleftrightarrow> moves (fst (row_pair p)) \<or> moves (snd (row_pair p))"
  by (simp add: row_moves_def row_pair_def)

text \<open>What is left after the merges: some of the pairs, in order, and no row that moves onto a row that does not.\<close>

definition settled_upto :: "(mailbox \<Rightarrow> bool) \<Rightarrow> fp \<Rightarrow> nat \<Rightarrow> (u64 \<times> relationship) list \<Rightarrow> bool" where
  "settled_upto moves to i rows \<longleftrightarrow>
     (\<forall>j < min i (length rows). row_moves moves (rows ! j) \<longrightarrow> kept_for moves to (rows ! j) rows = None)"

lemma nth_remove_nth: "j < i \<Longrightarrow> i < length xs \<Longrightarrow> remove_nth i xs ! j = xs ! j"
  by (simp add: remove_nth_def nth_append)

lemma settled_fold_into:
  assumes "settled_upto moves to i rows" "i < length rows" "k < length rows" "k \<noteq> i"
  shows "settled_upto moves to i (snd (fold_into i k rows))"
  unfolding settled_upto_def
proof (intro allI impI)
  fix j
  let ?rows' = "snd (fold_into i k rows)"
  assume j: "j < min i (length ?rows')" and m: "row_moves moves (?rows' ! j)"
  note pairs = fold_into_pairs [OF assms(2-4)]
  have len: "j < length ?rows'" "j < i" using j by auto
  have "row_pair (?rows' ! j) = map row_pair ?rows' ! j" using len by simp
  also have "\<dots> = row_pair (rows ! j)" using len assms(2) unfolding pairs by (simp add: nth_remove_nth)
  finally have p: "row_pair (?rows' ! j) = row_pair (rows ! j)" .
  then have "kept_for moves to (rows ! j) rows = None"
    using assms(1,2) m len by (auto simp: settled_upto_def row_moves_pair)
  then show "kept_for moves to (?rows' ! j) ?rows' = None"
    using set_remove_nth [of i "map row_pair rows"] unfolding kept_for_pairs p pairs by blast
qed

lemma subseq_remove_nth: "subseq (remove_nth i xs) xs"
proof -
  have "subseq (drop (Suc i) xs) (drop i xs)"
    by (metis drop_drop plus_1_eq_Suc suffix_drop suffix_imp_subseq)
  then have "subseq (take i xs @ drop (Suc i) xs) (take i xs @ drop i xs)" by (rule list_emb_append_mono [OF subseq_order.order_refl])
  then show ?thesis by (simp add: remove_nth_def)
qed

lemma merge_rows_settled:
  assumes "merge_rows moves to i rows merged n = (rows', merged', n')" "settled_upto moves to i rows"
  shows "settled_upto moves to (length rows') rows' \<and> subseq (map row_pair rows') (map row_pair rows)"
  using assms
proof (induction moves to i rows merged n rule: merge_rows.induct)
  case (1 moves to i rows merged n)
  consider (finished) "length rows \<le> i"
    | (skip) "i < length rows" "\<not> row_moves moves (rows ! i) \<or> kept_for moves to (rows ! i) rows = None"
    | (merge) k lost ys where "i < length rows" "row_moves moves (rows ! i)"
        "kept_for moves to (rows ! i) rows = Some k" "fold_into i k rows = (lost, ys)"
    by (meson not_le not_None_eq surj_pair)
  then show ?case
  proof cases
    case finished
    then show ?thesis using 1(4,5) by (auto simp: merge_rows.simps settled_upto_def)
  next
    case skip
    then have "merge_rows moves to (Suc i) rows merged n = (rows', merged', n')"
      using 1(4) merge_rows.simps [of moves to i rows merged n] by (auto split: if_splits)
    moreover have "settled_upto moves to (Suc i) rows"
      using 1(5) skip by (auto simp: settled_upto_def less_Suc_eq)
    ultimately show ?thesis using 1(1,2) skip by (meson not_le)
  next
    case merge
    then have m: "merge_rows moves to i ys (merged @ lost) (Suc n) = (rows', merged', n')"
      using 1(4) merge_rows.simps [of moves to i rows merged n] by simp
    have k: "k < length rows" "k \<noteq> i" using kept_for_Some [OF merge(3)] merge(2) by auto
    have "settled_upto moves to i ys" using settled_fold_into [OF 1(5) merge(1) k] merge(4) by simp
    then have "settled_upto moves to (length rows') rows' \<and> subseq (map row_pair rows') (map row_pair ys)"
      using 1(3) [of k "(lost, ys)" lost ys] merge m by simp
    moreover have "subseq (map row_pair ys) (map row_pair rows)"
      using fold_into_pairs [OF merge(1) k] merge(4) by (simp add: subseq_remove_nth)
    ultimately show ?thesis using subseq_order.order_trans by blast
  qed
qed

definition plain_rows :: "rel_state \<Rightarrow> bool" where
  "plain_rows s = list_all (\<lambda>p. plain (rel_owner (snd p)) \<and> plain (rel_other (snd p))) (rel_rows s)"

lemma key_str_mkey: "plain m \<Longrightarrow> plain m' \<Longrightarrow> key_str m = key_str m' \<longleftrightarrow> mkey m = mkey m'"
  using hex_str_not_login hex_str_not_login [THEN not_sym]
  by (auto simp: plain_def key_str_def mkey_def hex_str_inject split: option.splits)

text \<open>No row joins the key that moves, \<open>k\<close>, to itself or to the key it moves to.\<close>

definition apart :: "mkey \<Rightarrow> mkey \<Rightarrow> rel_state \<Rightarrow> bool" where
  "apart k k' s \<longleftrightarrow> (\<forall>p\<in>set (rel_rows s). \<not> (fst (row_key p) \<in> {k, k'} \<and> snd (row_key p) \<in> {k, k'}))"

definition move_key :: "mkey \<Rightarrow> mkey \<Rightarrow> mkey \<times> mkey \<Rightarrow> mkey \<times> mkey" where
  "move_key k k' x = (if fst x = k then k' else fst x, if snd x = k then k' else snd x)"

lemma move_key_inj:
  assumes "k \<noteq> k'" "\<forall>x\<in>K. \<not> (fst x \<in> {k, k'} \<and> snd x \<in> {k, k'})"
    "\<forall>x\<in>K. \<forall>y\<in>K. (fst x = k \<or> snd x = k) \<and> fst y \<noteq> k \<and> snd y \<noteq> k \<longrightarrow> move_key k k' x \<noteq> y"
  shows "inj_on (move_key k k') K"
proof (rule inj_onI)
  fix x y assume *: "x \<in> K" "y \<in> K" "move_key k k' x = move_key k k' y"
  have idle: "move_key k k' z = z" if "fst z \<noteq> k" "snd z \<noteq> k" for z using that by (simp add: move_key_def)
  consider "fst x \<noteq> k \<and> snd x \<noteq> k" | "fst y \<noteq> k \<and> snd y \<noteq> k"
    | "(fst x = k \<or> snd x = k) \<and> (fst y = k \<or> snd y = k)" by blast
  then show "x = y"
  proof cases
    case 1
    then show ?thesis using assms(3) * idle by metis
  next
    case 2
    then show ?thesis using assms(3) * idle by metis
  next
    case 3
    then show ?thesis
      using * assms(2) by (auto simp: move_key_def prod_eq_iff split: if_splits)
  qed
qed

lemma rekey_distinct:
  assumes moves: "\<And>m. moves m \<longleftrightarrow> mkey m = k" and "k \<noteq> ByFp to" "length to = 32"
    and s: "rel_distinct s" "plain_rows s" "apart k (ByFp to) s"
  shows "rel_distinct (snd (rekey moves to s))"
proof -
  obtain rows merged n where m: "merge_rows moves to 0 (rel_rows s) [] 0 = (rows, merged, n)" by (metis surj_pair)
  have done0: "settled_upto moves to 0 (rel_rows s)" by (simp add: settled_upto_def)
  note after = merge_rows_settled [OF m done0]
  have key: "row_key p = map_prod mkey mkey (row_pair p)" for p by (simp add: row_key_def row_pair_def)
  have keys: "map row_key xs = map (map_prod mkey mkey) (map row_pair xs)" for xs by (simp add: key)
  have sub: "subseq (map row_key rows) (map row_key (rel_rows s))"
    unfolding keys by (intro subseq_map conjunct2 [OF after])
  have pairs: "row_pair p \<in> row_pair ` set (rel_rows s)" if "p \<in> set rows" for p
    using subseq_set [OF conjunct2 [OF after]] that by auto
  have plain: "plain (fst (row_pair p)) \<and> plain (snd (row_pair p))" if "p \<in> set rows" for p
    using pairs [OF that] s(2) by (auto simp: plain_rows_def list_all_iff row_pair_def)
  have stamped: "row_key (stamp_row moves to p) = move_key k (ByFp to) (row_key p)" for p
    by (auto simp: row_key_def stamp_row_def stamp_def moves move_key_def) (simp_all add: mkey_def)
  have after_key: "key_str x = key_after moves to y \<longleftrightarrow> mkey x = (if mkey y = k then ByFp to else mkey y)"
    if "plain x" "plain y" for x y
    using that key_str_mkey [of x "mailbox_identified [] to"] key_str_mkey [of x y]
    by (simp add: key_after_def moves \<open>length to = 32\<close> plain_def mailbox_identified_def mkey_def)
  have "move_key k (ByFp to) (row_key p) \<noteq> row_key q"
    if "p \<in> set rows" "q \<in> set rows" "fst (row_key p) = k \<or> snd (row_key p) = k" "fst (row_key q) \<noteq> k" "snd (row_key q) \<noteq> k" for p q
  proof -
    obtain j where j: "j < length rows" "rows ! j = p" using \<open>p \<in> set rows\<close> by (auto simp: in_set_conv_nth)
    have "row_moves moves p" using that(3) by (auto simp: row_moves_pair moves key)
    then have "kept_for moves to p rows = None" using conjunct1 [OF after] j by (auto simp: settled_upto_def)
    then have "key_str (fst (row_pair q)) \<noteq> key_after moves to (fst (row_pair p))
        \<or> key_str (snd (row_pair q)) \<noteq> key_after moves to (snd (row_pair p))"
      using that(2,4,5) unfolding kept_for_pairs by (auto simp: moves key)
    then show ?thesis using plain that(1,2) by (auto simp: after_key move_key_def key prod_eq_iff)
  qed
  moreover have "\<forall>x\<in>row_key ` set rows. \<not> (fst x \<in> {k, ByFp to} \<and> snd x \<in> {k, ByFp to})"
    using s(3) subseq_set [OF sub] by (fastforce simp: apart_def)
  ultimately have "inj_on (move_key k (ByFp to)) (row_key ` set rows)"
    by (intro move_key_inj \<open>k \<noteq> ByFp to\<close>) auto
  moreover have "distinct (map row_key rows)"
    using sub s(1) subseq_keeps_distinct by (auto simp: rel_distinct_def)
  ultimately have "distinct (map (move_key k (ByFp to)) (map row_key rows))"
    by (simp add: distinct_map comp_inj_on)
  moreover have "rel_rows (snd (rekey moves to s)) = map (stamp_row moves to) rows"
    using m by (simp add: rekey_def Let_def forget_frame)
  ultimately show ?thesis by (simp add: rel_distinct_def stamped comp_def)
qed


subsection \<open>Purging\<close>

lemma strip_key_not_purged: "\<not> purged_by h m \<Longrightarrow> \<not> purged_by (strip_key m h) m"
  by (auto simp: purged_by_def strip_key_def split: if_splits)

lemma strip_hold_not_doomed: "\<not> hold_doomed m h \<Longrightarrow> \<not> hold_doomed m (strip_hold m h)"
  by (auto simp: hold_doomed_def strip_hold_def held_purged_by_def strip_key_not_purged split: held.splits)

lemma length_minus_filter: "length xs - length (filter (\<lambda>x. \<not> P x) xs) = length (filter P xs)"
  using sum_length_filter_compl [of P xs] by simp

lemma purge_parts:
  "rel_holds (snd (rel_purge m s)) = map (strip_hold m) (filter (\<lambda>h. \<not> hold_doomed m h) (rel_holds s))"
  "ledger (snd (rel_purge m s)) = filter (\<lambda>e. \<not> entry_doomed m e) (ledger s)"
  "accounts (snd (rel_purge m s)) = filter (\<lambda>a. \<not> is_mb (ac_owner a) m) (accounts s)"
  "presentations (snd (rel_purge m s)) = filter (\<lambda>p. mb_fp m \<noteq> Some (pr_presenter p)) (presentations s)"
  "offers (snd (rel_purge m s)) = filter (\<lambda>(a, b, off). mb_fp m \<noteq> Some a \<and> mb_fp m \<noteq> Some b) (offers s)"
  by (auto simp: rel_purge_def purge_portable_def forget_frame Let_def split_beta split: option.split intro!: filter_cong)

lemma purge_leaves_none: "purge_count (snd (rel_purge m s)) m = 0"
  by (auto simp: purge_count_def purge_rows purge_parts filter_empty_conv strip_hold_not_doomed split: option.split)

lemma purge_returns: "fst (rel_purge m s) = purge_count s m"
proof -
  have split: "length xs = length (filter P xs) + length (filter (\<lambda>x. \<not> P x) xs)" for P and xs :: "'a list"
    using sum_length_filter_compl [of P xs] by simp
  have o: "(\<lambda>(a, b, off). a \<noteq> f \<and> b \<noteq> f) = (\<lambda>x. \<not> (case x of (a, b, off) \<Rightarrow> a = f \<or> b = f))" for f :: fp
    by (auto simp: fun_eq_iff)
  have o': "(\<lambda>(a, x). a \<noteq> f \<and> fst x \<noteq> f) = (\<lambda>x. fst x \<noteq> f \<and> fst (snd x) \<noteq> f)" for f :: fp
    by (auto simp: fun_eq_iff)
  show ?thesis
    using split [of "rel_rows s" "doomed m"] split [of "rel_holds s" "hold_doomed m"]
      split [of "ledger s" "entry_doomed m"] split [of "accounts s" "\<lambda>a. is_mb (ac_owner a) m"]
      split [of "presentations s" "\<lambda>p. pr_presenter p = the (mb_fp m)"]
      split [of "offers s" "\<lambda>(a, b, off). a = the (mb_fp m) \<or> b = the (mb_fp m)"]
    by (cases "mb_fp m") (simp_all add: rel_purge_def purge_count_def purge_portable_def forget_frame Let_def split_beta o o')
qed


subsection \<open>Properties\<close>

lemma rotate_rows: "rel_rows (snd (rotate k k' s)) = rel_rows (snd (rekey (rotate_moves k) k' s))"
  by (simp add: rotate_def rotate_portable_def Let_def split_beta)

lemma rotate_portable_still: "still moves (snd (rotate_portable k k' s)) = still moves s"
  by (simp add: still_def rotate_portable_def Let_def split_beta)

definition sam_claims :: rel_state where
  "sam_claims = rel_serve (QBlock sam kim True NANOS) (rel_serve (QBefriend (mailbox_identified ''sam'' [7]) kim NANOS)
     (rel_serve (QApprove sam kim NANOS) empty_rel))"

text \<open>C20: \<open>claim\<close> and \<open>rotate\<close> are idempotent: afterwards no row, hold, ledger entry or account record is under the key
  that moved, no presentation, offer or withdrawal names it, and doing it again reports nothing moved and
  nothing merged and leaves the store as it is.\<close>

theorem claim_rotate_idempotent:
  assumes "k \<noteq> k'"
  shows "still (claim_moves l) (snd (claim l f s))
    \<and> claim l f (snd (claim l f s)) = (\<lparr>rk_moved = 0, rk_merged = []\<rparr>, snd (claim l f s))
    \<and> still (rotate_moves k) (snd (rotate k k' s)) \<and> unnamed k (snd (rotate k k' s))
    \<and> rotate k k' (snd (rotate k k' s)) = (\<lparr>rk_moved = 0, rk_merged = []\<rparr>, snd (rotate k k' s))"
proof -
  have c: "still (claim_moves l) (snd (claim l f s))"
    unfolding claim_def by (rule rekey_leaves_still [OF once_claim])
  have r: "still (rotate_moves k) (snd (rotate k k' s))" "unnamed k (snd (rotate k k' s))"
    using rekey_leaves_still [OF once_rotate [OF assms], of s] rotate_portable_unnamed [OF assms]
    by (simp_all add: rotate_def split_beta rotate_portable_still)
  have "rotate k k' (snd (rotate k k' s)) = (\<lparr>rk_moved = 0, rk_merged = []\<rparr>, snd (rotate k k' s))"
    by (subst rotate_def) (simp add: rekey_still [OF r(1)] rotate_portable_idle [OF r(2)])
  then show ?thesis using c r rekey_still [OF c, of f] by (simp add: claim_def)
qed

theorem claim_rotate_idempotent_witness:
  "fst (claim ''sam'' [7] sam_claims) = \<lparr>rk_moved = 1, rk_merged = []\<rparr>
   \<and> fst (claim ''sam'' [7] (snd (claim ''sam'' [7] sam_claims))) = \<lparr>rk_moved = 0, rk_merged = []\<rparr>"
proof -
  have "fst (claim ''sam'' [7] sam_claims) = \<lparr>rk_moved = 1, rk_merged = []\<rparr>" by code_simp
  moreover have "[7] \<noteq> ([8] :: fp)" by simp
  ultimately show ?thesis using claim_rotate_idempotent [of "[7]" "[8]" "''sam''" "[7]" sam_claims] by simp
qed

definition sam_blocks_self :: rel_state where
  "sam_blocks_self = rel_serve (QBlock (mailbox_identified ''sam'' [7]) sam True NANOS)
     (rel_serve (QBlock sam (mailbox_identified ''sam'' [7]) True NANOS) empty_rel)"

lemma sam_blocks_self_claimed:
  "rel_distinct sam_blocks_self
   \<and> map row_key (rel_rows (snd (claim ''sam'' [7] sam_blocks_self))) = [(ByFp [7], ByFp [7]), (ByFp [7], ByFp [7])]"
  by code_simp

text \<open>C21: Re-keying folds duplicates together: when there was one row to a pair before, there is after \<open>claim\<close> and after
  \<open>rotate\<close>, as long as no row joined the two keys to each other or the moving key to itself.  That condition
  is needed: where an account and the identity it claims had blocked each other, there was one row to a pair and
  the claim leaves two rows of the identity about itself.\<close>

theorem claim_rotate_one_row_to_a_pair:
  assumes "rel_distinct s" "plain_rows s" "length f = 32"
  shows "(apart (ByLogin l) (ByFp f) s \<longrightarrow> rel_distinct (snd (claim l f s)))
    \<and> (apart (ByFp k) (ByFp f) s \<and> k \<noteq> f \<longrightarrow> rel_distinct (snd (rotate k f s)))
    \<and> rel_distinct sam_blocks_self
    \<and> map row_key (rel_rows (snd (claim ''sam'' [7] sam_blocks_self))) = [(ByFp [7], ByFp [7]), (ByFp [7], ByFp [7])]"
  using rekey_distinct [OF claim_moves_key _ assms(3,1,2)] rekey_distinct [OF rotate_moves_key _ assms(3,1,2)]
  by (simp add: sam_blocks_self_claimed) (simp add: claim_def rel_distinct_def rotate_rows)

definition long_fp :: fp where "long_fp = replicate 32 7"

definition sam_merges :: rel_state where
  "sam_merges = rel_serve (QBlock sam (mailbox_login ''al'') True NANOS)
     (rel_serve (QBefriend (mailbox_identified ''sam'' long_fp) (mailbox_login ''al'') NANOS) empty_rel)"

theorem claim_rotate_one_row_to_a_pair_witness:
  "length (rel_rows sam_merges) = 3 \<and> length (rel_rows (snd (claim ''sam'' long_fp sam_merges))) = 2
   \<and> rel_distinct (snd (claim ''sam'' long_fp sam_merges))"
proof -
  have "length (rel_rows sam_merges) = 3" "length (rel_rows (snd (claim ''sam'' long_fp sam_merges))) = 2"
    "rel_distinct sam_merges" "plain_rows sam_merges" "length long_fp = 32"
    by code_simp+
  moreover have "apart (ByLogin ''sam'') (ByFp long_fp) sam_merges" unfolding apart_def by code_simp
  ultimately show ?thesis
    using claim_rotate_one_row_to_a_pair [of sam_merges long_fp "''sam''"] by simp
qed

text \<open>A purge removes exactly what \<open>purge_count\<close> counts, the total it returns, and afterwards there is nothing of
  the account left to count.\<close>

theorem purge_is_exact:
  "fst (rel_purge m s) = purge_count s m \<and> purge_count (snd (rel_purge m s)) m = 0"
  by (simp add: purge_returns purge_leaves_none)

end
