(* ===== verification/Inbox.thy ===== *)
theory Inbox
  imports Relationship_Lifecycle
begin

section \<open>The durable inbox\<close>

text \<open>
  \<^verbatim>\<open>crates/hxd-core/src/inbox.rs\<close> and \<^verbatim>\<open>inbox/memory.rs\<close>: stored private and instant messages, read
  receipts and message requests, the stubs retention leaves, and the reactions on them.  The record
  \<open>inbox\<close> is \<open>Inner\<close>; there is one definition per method of \<open>MessageStore\<close>.  The gate, which says which
  friendships and approvals are live, is the relationship store the message store was made with,
  \<open>g\<close>, or none.

  A message's reference is 16 random bytes: \<open>push\<close> takes what the random source gave, \<open>None\<close> where it
  failed, which is the one error the memory store has.  The maps kept in \<open>HashMap\<close>s are in key order.
\<close>


subsection \<open>Messages\<close>

type_synonym message_id = u64
type_synonym message_ref = bytes
type_synonym cursor = u64

datatype message_kind = MkMessage | MkReadReceipt

primrec message_kind_i64 :: "message_kind \<Rightarrow> int" where
  "message_kind_i64 MkMessage = 0"
| "message_kind_i64 MkReadReceipt = 1"

definition message_kind_of :: "int \<Rightarrow> message_kind option" where
  "message_kind_of n = (if n = 0 then Some MkMessage else if n = 1 then Some MkReadReceipt else None)"

record media_meta =
  mm_id :: bytes
  mm_mime :: string
  mm_width :: u32
  mm_height :: u32
  mm_bytes :: u32

record signature =
  sg_form :: bytes
  sg_content :: bytes

datatype reply =
    ReLine u32 u64
  | ReIm string message_guid
  | RePm message_ref
  | ReSigned bytes bytes bytes

record new_message =
  nm_recipient :: mailbox
  nm_sender :: "mailbox option"
  nm_sender_nick :: string
  nm_body :: string
  nm_sent_at :: systime
  nm_guid :: "message_guid option"
  nm_kind :: message_kind
  nm_media :: "media_meta option"
  nm_signed :: "signature option"
  nm_friendship :: "sent_on option"
  nm_sender_address :: "string option"
  nm_re :: "reply option"

record stored_message =
  sm_id :: message_id
  sm_reference :: message_ref
  sm_cursor :: cursor
  sm_recipient :: mailbox
  sm_sender :: "mailbox option"
  sm_sender_nick :: string
  sm_body :: string
  sm_sent_at :: systime
  sm_guid :: "message_guid option"
  sm_kind :: message_kind
  sm_media :: "media_meta option"
  sm_signed :: "signature option"
  sm_friendship :: "sent_on option"
  sm_re :: "reply option"
  sm_delivered_at :: "systime option"
  sm_read_at :: "systime option"

record inbox_counts =
  ct_unread :: nat
  ct_total :: nat

datatype pushed =
    PuStored message_id message_ref cursor
  | PuExisting stored_message
  | PuFull
  | PuPruned message_ref "bytes option"

record stub =
  st_reference :: message_ref
  st_recipient :: mailbox
  st_sender :: "mailbox option"
  st_guid :: "message_guid option"
  st_signed :: "bytes option"
  st_sent_at :: systime

datatype found = FoundRow stored_message | FoundStub stub

definition found_recipient :: "found \<Rightarrow> mailbox" where
  "found_recipient f = (case f of FoundRow m \<Rightarrow> sm_recipient m | FoundStub s \<Rightarrow> st_recipient s)"

datatype delivery = DeDelivered | DeRead

datatype pending =
    PeAll
  | PeUnapproved
  | PeMail
  | PeMailApproved
  | PeInstant bool bool
  | PeReceipts bool

datatype store_error = StoreError


subsection \<open>The state\<close>

record reaction =
  re_reference :: message_ref
  re_key :: bytes
  re_reactor :: string
  re_nick :: string
  re_at :: systime

record inbox =
  ib_next_id :: message_id
  ib_msgs :: "stored_message list"
  ib_cursors :: "(string, cursor) omap"
  ib_handed :: "message_id set"
  ib_receipted :: "message_id set"
  ib_requested :: "message_id set"
  ib_addresses :: "(message_id, string) omap"
  ib_stubs :: "(message_ref, stub) omap"
  ib_reactions :: "reaction list"

definition empty_inbox :: inbox where
  "empty_inbox = \<lparr>ib_next_id = 0, ib_msgs = [], ib_cursors = [], ib_handed = {}, ib_receipted = {},
     ib_requested = {}, ib_addresses = [], ib_stubs = [], ib_reactions = []\<rparr>"

definition stubs_of :: "inbox \<Rightarrow> stub list" where
  "stubs_of b = map snd (ib_stubs b)"

definition is_request :: "stored_message \<Rightarrow> bool" where
  "is_request m \<longleftrightarrow> sm_friendship m = Some SentRequest"

definition is_mail :: "stored_message \<Rightarrow> bool" where
  "is_mail m \<longleftrightarrow> sm_kind m = MkMessage"

definition forget_removed :: "inbox \<Rightarrow> inbox" where
  "forget_removed b =
     (let ids = set (map sm_id (ib_msgs b));
          refs = set (map sm_reference (ib_msgs b)) \<union> set (map fst (ib_stubs b))
      in b\<lparr>ib_handed := ib_handed b \<inter> ids, ib_receipted := ib_receipted b \<inter> ids,
           ib_requested := ib_requested b \<inter> ids,
           ib_addresses := om_retain (\<lambda>i _. i \<in> ids) (ib_addresses b),
           ib_reactions := filter (\<lambda>r. re_reference r \<in> refs) (ib_reactions b)\<rparr>)"


subsection \<open>The gate\<close>

definition ib_live :: "rel_state option \<Rightarrow> stored_message \<Rightarrow> bool" where
  "ib_live g m = (case sm_friendship m of
     None \<Rightarrow> True
   | Some SentRequest \<Rightarrow> False
   | Some (SentRelation i) \<Rightarrow> (case g of Some s \<Rightarrow> is_live s i | None \<Rightarrow> False))"

definition on_approval :: "rel_state option \<Rightarrow> stored_message \<Rightarrow> bool" where
  "on_approval g m = (case sm_friendship m of
     Some (SentRelation i) \<Rightarrow> (case g of Some s \<Rightarrow> is_approval s i | None \<Rightarrow> False)
   | _ \<Rightarrow> False)"

definition is_instant :: "stored_message \<Rightarrow> bool" where
  "is_instant m = (case sm_friendship m of Some (SentRelation i) \<Rightarrow> True | _ \<Rightarrow> False)"

definition waiting :: "rel_state option \<Rightarrow> inbox \<Rightarrow> stored_message \<Rightarrow> bool" where
  "waiting g b m \<longleftrightarrow> is_mail m \<and> sm_delivered_at m = None \<and> sm_id m \<notin> ib_handed b \<and> ib_live g m"

definition pends :: "rel_state option \<Rightarrow> inbox \<Rightarrow> mailbox \<Rightarrow> pending \<Rightarrow> stored_message \<Rightarrow> bool" where
  "pends g b to which m \<longleftrightarrow> is_mb (sm_recipient m) to \<and> sm_delivered_at m = None
     \<and> (case which of
          PeAll \<Rightarrow> waiting g b m
        | PeUnapproved \<Rightarrow> waiting g b m \<and> \<not> on_approval g m
        | PeMail \<Rightarrow> waiting g b m \<and> sm_friendship m = None
        | PeMailApproved \<Rightarrow> waiting g b m \<and> (sm_friendship m = None \<or> on_approval g m)
        | PeInstant again approvals \<Rightarrow> is_mail m \<and> is_instant m \<and> ib_live g m
            \<and> (again \<or> sm_id m \<notin> ib_handed b) \<and> (approvals \<or> \<not> on_approval g m)
        | PeReceipts approvals \<Rightarrow> sm_kind m = MkReadReceipt \<and> ib_live g m \<and> (approvals \<or> \<not> on_approval g m))"


subsection \<open>Finding and storing\<close>

definition index_key :: "mailbox \<Rightarrow> string" where
  "index_key m = (case mb_fp m of Some f \<Rightarrow> hex_str f | None \<Rightarrow> mb_login m)"

definition of_pair :: "mailbox \<Rightarrow> mailbox option \<Rightarrow> mailbox \<Rightarrow> mailbox option \<Rightarrow> bool" where
  "of_pair recipient sender to from \<longleftrightarrow> is_mb recipient to
     \<and> (case (sender, from) of
          (Some a, Some b) \<Rightarrow> is_mb a b
        | (None, None) \<Rightarrow> True
        | _ \<Rightarrow> False)"

definition find_guid_in :: "inbox \<Rightarrow> mailbox \<Rightarrow> mailbox option \<Rightarrow> message_guid \<Rightarrow> found option" where
  "find_guid_in b to from guid =
     (case find (\<lambda>m. sm_guid m = Some guid \<and> of_pair (sm_recipient m) (sm_sender m) to from) (ib_msgs b) of
        Some m \<Rightarrow> Some (FoundRow m)
      | None \<Rightarrow> map_option FoundStub
          (find (\<lambda>s. st_guid s = Some guid \<and> of_pair (st_recipient s) (st_sender s) to from) (stubs_of b)))"

definition pending_count :: "rel_state option \<Rightarrow> inbox \<Rightarrow> mailbox \<Rightarrow> nat" where
  "pending_count g b to = length (filter (\<lambda>m. is_mb (sm_recipient m) to \<and> waiting g b m) (ib_msgs b))"

definition last_cursor :: "inbox \<Rightarrow> mailbox \<Rightarrow> cursor" where
  "last_cursor b m = (case map_of (ib_cursors b) (index_key m) of Some c \<Rightarrow> c | None \<Rightarrow> 0)"

definition stored_of :: "new_message \<Rightarrow> message_id \<Rightarrow> message_ref \<Rightarrow> cursor \<Rightarrow> stored_message" where
  "stored_of m i r c = \<lparr>sm_id = i, sm_reference = r, sm_cursor = c, sm_recipient = nm_recipient m,
     sm_sender = nm_sender m, sm_sender_nick = nm_sender_nick m, sm_body = nm_body m, sm_sent_at = nm_sent_at m,
     sm_guid = nm_guid m, sm_kind = nm_kind m, sm_media = nm_media m, sm_signed = nm_signed m,
     sm_friendship = nm_friendship m, sm_re = nm_re m, sm_delivered_at = None,
     sm_read_at = (if nm_kind m = MkMessage then None else Some (nm_sent_at m))\<rparr>"

text \<open>The write of \<open>push\<close>, once the message is no duplicate and there is room for it.\<close>

definition push_row :: "new_message \<Rightarrow> message_ref \<Rightarrow> inbox \<Rightarrow> pushed \<times> inbox" where
  "push_row m r b =
     (let c = (if nm_kind m = MkMessage then last_cursor b (nm_recipient m) + 1 else 0);
          cursors = (if nm_kind m = MkMessage then om_put (index_key (nm_recipient m)) c (ib_cursors b) else ib_cursors b);
          i = ib_next_id b + 1
      in (PuStored i r c,
          b\<lparr>ib_cursors := cursors, ib_next_id := i, ib_msgs := ib_msgs b @ [stored_of m i r c],
            ib_requested := (if nm_friendship m = Some SentRequest then insert i (ib_requested b) else ib_requested b),
            ib_addresses := (case nm_sender_address m of Some a \<Rightarrow> om_put i a (ib_addresses b) | None \<Rightarrow> ib_addresses b)\<rparr>))"

definition push_fresh ::
    "rel_state option \<Rightarrow> new_message \<Rightarrow> nat \<Rightarrow> message_ref option \<Rightarrow> inbox \<Rightarrow> (store_error + pushed) \<times> inbox" where
  "push_fresh g m cap rnd b =
     (if nm_kind m = MkMessage \<and> cap \<le> pending_count g b (nm_recipient m) then (Inr PuFull, b)
      else case rnd of
             None \<Rightarrow> (Inl StoreError, b)
           | Some r \<Rightarrow> (let (p, b') = push_row m r b in (Inr p, b')))"

definition push ::
    "rel_state option \<Rightarrow> new_message \<Rightarrow> nat \<Rightarrow> message_ref option \<Rightarrow> inbox \<Rightarrow> (store_error + pushed) \<times> inbox" where
  "push g m cap rnd b =
     (case Option.bind (nm_guid m) (find_guid_in b (nm_recipient m) (nm_sender m)) of
        Some (FoundRow x) \<Rightarrow> (Inr (PuExisting x), b)
      | Some (FoundStub s) \<Rightarrow> (Inr (PuPruned (st_reference s) (st_signed s)), b)
      | None \<Rightarrow> push_fresh g m cap rnd b)"

definition find_sent :: "inbox \<Rightarrow> mailbox \<Rightarrow> message_guid \<Rightarrow> found option" where
  "find_sent b from guid =
     (let sent = (\<lambda>gd sd. gd = Some guid \<and> (case sd of Some s \<Rightarrow> is_mb s from | None \<Rightarrow> False)) in
      case find (\<lambda>m. sent (sm_guid m) (sm_sender m)) (ib_msgs b) of
        Some m \<Rightarrow> Some (FoundRow m)
      | None \<Rightarrow> map_option FoundStub (find (\<lambda>s. sent (st_guid s) (st_sender s)) (stubs_of b)))"


subsection \<open>Delivery and reading\<close>

definition pending_of :: "rel_state option \<Rightarrow> inbox \<Rightarrow> mailbox \<Rightarrow> nat \<Rightarrow> pending \<Rightarrow> stored_message list" where
  "pending_of g b to limit which = take limit (filter (pends g b to which) (ib_msgs b))"

definition pending_count_of :: "rel_state option \<Rightarrow> inbox \<Rightarrow> mailbox \<Rightarrow> pending \<Rightarrow> nat" where
  "pending_count_of g b to which = length (filter (pends g b to which) (ib_msgs b))"

definition mark_handed :: "message_id list \<Rightarrow> inbox \<Rightarrow> inbox" where
  "mark_handed ids b = b\<lparr>ib_handed := ib_handed b \<union> set ids\<rparr>"

definition receipt_told :: "message_id \<Rightarrow> inbox \<Rightarrow> bool \<times> inbox" where
  "receipt_told i b = (i \<notin> ib_receipted b, b\<lparr>ib_receipted := insert i (ib_receipted b)\<rparr>)"

definition mark_one :: "message_id list \<Rightarrow> systime \<Rightarrow> delivery \<Rightarrow> stored_message \<Rightarrow> stored_message" where
  "mark_one ids at what m =
     (if sm_id m \<in> set ids then
        m\<lparr>sm_delivered_at := or_opt (sm_delivered_at m) (Some at),
          sm_read_at := (if what = DeRead then or_opt (sm_read_at m) (Some at) else sm_read_at m)\<rparr>
      else m)"

definition mark_delivered :: "message_id list \<Rightarrow> systime \<Rightarrow> delivery \<Rightarrow> inbox \<Rightarrow> inbox" where
  "mark_delivered ids at what b = b\<lparr>ib_msgs := map (mark_one ids at what) (ib_msgs b)\<rparr>"

definition is_pending :: "rel_state option \<Rightarrow> inbox \<Rightarrow> mailbox \<Rightarrow> message_id \<Rightarrow> bool" where
  "is_pending g b to i = list_ex (\<lambda>m. sm_id m = i \<and> is_mb (sm_recipient m) to \<and> waiting g b m) (ib_msgs b)"

definition reads_now :: "rel_state option \<Rightarrow> mailbox \<Rightarrow> cursor \<Rightarrow> stored_message \<Rightarrow> bool" where
  "reads_now g to up_to m \<longleftrightarrow> is_mail m \<and> is_mb (sm_recipient m) to \<and> sm_cursor m \<le> up_to
     \<and> sm_read_at m = None \<and> ib_live g m"

definition mark_read :: "rel_state option \<Rightarrow> mailbox \<Rightarrow> cursor \<Rightarrow> systime \<Rightarrow> inbox \<Rightarrow> nat \<times> inbox" where
  "mark_read g to up_to at b =
     (length (filter (reads_now g to up_to) (ib_msgs b)),
      b\<lparr>ib_msgs := map (\<lambda>m. if reads_now g to up_to m
         then m\<lparr>sm_read_at := Some at, sm_delivered_at := or_opt (sm_delivered_at m) (Some at)\<rparr> else m) (ib_msgs b)\<rparr>)"

definition shown_to :: "rel_state option \<Rightarrow> mailbox \<Rightarrow> stored_message \<Rightarrow> bool" where
  "shown_to g to m \<longleftrightarrow> is_mail m \<and> is_mb (sm_recipient m) to \<and> ib_live g m"

definition ib_list :: "rel_state option \<Rightarrow> inbox \<Rightarrow> mailbox \<Rightarrow> cursor option \<Rightarrow> nat \<Rightarrow> stored_message list" where
  "ib_list g b to before limit =
     take limit (sort_key (\<lambda>m. - uint (sm_cursor m))
       (filter (\<lambda>m. shown_to g to m \<and> (case before of Some c \<Rightarrow> sm_cursor m < c | None \<Rightarrow> True)) (ib_msgs b)))"

definition ib_counts :: "rel_state option \<Rightarrow> inbox \<Rightarrow> mailbox \<Rightarrow> inbox_counts" where
  "ib_counts g b to =
     \<lparr>ct_unread = length (filter (\<lambda>m. shown_to g to m \<and> sm_read_at m = None) (ib_msgs b)),
      ct_total = length (filter (shown_to g to) (ib_msgs b))\<rparr>"

definition unlinked :: "string \<Rightarrow> fp \<Rightarrow> inbox \<Rightarrow> inbox" where
  "unlinked login f b =
     (case map_of (ib_cursors b) (index_key (mailbox_identified login f)) of
        Some past \<Rightarrow> b\<lparr>ib_cursors := om_put login
          (max (case map_of (ib_cursors b) login of Some c \<Rightarrow> c | None \<Rightarrow> 0) past) (ib_cursors b)\<rparr>
      | None \<Rightarrow> b)"


subsection \<open>Message requests\<close>

definition from_to :: "mailbox \<Rightarrow> mailbox \<Rightarrow> stored_message \<Rightarrow> bool" where
  "from_to to from m \<longleftrightarrow> is_request m \<and> is_mb (sm_recipient m) to
     \<and> (case sm_sender m of Some s \<Rightarrow> is_mb s from | None \<Rightarrow> False)"

definition ib_requests :: "inbox \<Rightarrow> mailbox \<Rightarrow> systime \<Rightarrow> nat \<Rightarrow> stored_message list" where
  "ib_requests b to since limit =
     take limit (filter (\<lambda>m. is_mail m \<and> is_request m \<and> is_mb (sm_recipient m) to \<and> since \<le> sm_sent_at m) (ib_msgs b))"

definition release_requests :: "mailbox \<Rightarrow> mailbox \<Rightarrow> relation_id \<Rightarrow> systime \<Rightarrow> inbox \<Rightarrow> nat \<times> inbox" where
  "release_requests to from on since b =
     (let goes = (\<lambda>m. from_to to from m \<and> since \<le> sm_sent_at m)
      in (length (filter goes (ib_msgs b)),
          b\<lparr>ib_msgs := map (\<lambda>m. if goes m then m\<lparr>sm_friendship := Some (SentRelation on)\<rparr> else m) (ib_msgs b)\<rparr>))"

text \<open>The address is looked up row by row, and removed with the row's.\<close>

definition to_mail :: "mailbox \<Rightarrow> mailbox \<Rightarrow> string option \<Rightarrow> systime \<Rightarrow> (message_id, string) omap \<Rightarrow> stored_message \<Rightarrow> bool" where
  "to_mail to from address since as m \<longleftrightarrow> from_to to from m \<and> since \<le> sm_sent_at m
     \<and> (case address of Some a \<Rightarrow> map_of as (sm_id m) = Some a | None \<Rightarrow> True)"

fun to_mail_rows :: "(stored_message \<Rightarrow> (message_id, string) omap \<Rightarrow> bool) \<Rightarrow> (message_id, string) omap
    \<Rightarrow> stored_message list \<Rightarrow> nat \<times> (message_id, string) omap \<times> stored_message list" where
  "to_mail_rows P as [] = (0, as, [])"
| "to_mail_rows P as (m # ms) =
     (if P m as then
        (let (n, as', ms') = to_mail_rows P (om_del (sm_id m) as) ms in (Suc n, as', m\<lparr>sm_friendship := None\<rparr> # ms'))
      else (let (n, as', ms') = to_mail_rows P as ms in (n, as', m # ms')))"

definition requests_to_mail :: "mailbox \<Rightarrow> mailbox \<Rightarrow> string option \<Rightarrow> systime \<Rightarrow> inbox \<Rightarrow> nat \<times> inbox" where
  "requests_to_mail to from address since b =
     (let (n, as, ms) = to_mail_rows (\<lambda>m as. to_mail to from address since as m) (ib_addresses b) (ib_msgs b)
      in (n, b\<lparr>ib_msgs := ms, ib_addresses := as\<rparr>))"

definition retain_msgs :: "(stored_message \<Rightarrow> bool) \<Rightarrow> inbox \<Rightarrow> nat \<times> inbox" where
  "retain_msgs P b =
     (let b' = forget_removed (b\<lparr>ib_msgs := filter P (ib_msgs b)\<rparr>)
      in (length (ib_msgs b) - length (ib_msgs b'), b'))"

definition delete_requests_from :: "mailbox \<Rightarrow> mailbox \<Rightarrow> string \<Rightarrow> inbox \<Rightarrow> nat \<times> inbox" where
  "delete_requests_from to from address b =
     retain_msgs (\<lambda>m. \<not> (from_to to from m \<and> map_of (ib_addresses b) (sm_id m) = Some address)) b"

definition delete_requests :: "mailbox \<Rightarrow> mailbox \<Rightarrow> inbox \<Rightarrow> nat \<times> inbox" where
  "delete_requests to from b = retain_msgs (\<lambda>m. \<not> from_to to from m) b"

definition sent_since :: "inbox \<Rightarrow> mailbox \<Rightarrow> systime \<Rightarrow> nat \<times> u64" where
  "sent_since b from since =
     fold (\<lambda>m (n, c). (n + 1, c + of_nat (length (sm_body m))))
       (filter (\<lambda>m. sm_kind m = MkMessage \<and> since \<le> sm_sent_at m \<and> sm_id m \<notin> ib_requested b
          \<and> (case sm_sender m of Some s \<Rightarrow> is_mb s from | None \<Rightarrow> False)) (ib_msgs b)) (0, 0)"

definition ib_restamp :: "(relation_id \<times> relation_id) list \<Rightarrow> inbox \<Rightarrow> nat \<times> inbox" where
  "ib_restamp merged b =
     fold (\<lambda>(lost, kept) (n, b).
        let hit = (\<lambda>m. sm_friendship m = Some (SentRelation lost))
        in (n + length (filter hit (ib_msgs b)),
            b\<lparr>ib_msgs := map (\<lambda>m. if hit m then m\<lparr>sm_friendship := Some (SentRelation kept)\<rparr> else m) (ib_msgs b)\<rparr>))
       merged (0, b)"

end
