(* ===== verification/Inbox_Merge.thy ===== *)
theory Inbox_Merge
  imports Inbox
begin

section \<open>Merging mailboxes, retention and reactions\<close>

text \<open>
  \<^verbatim>\<open>crates/hxd-core/src/inbox/memory.rs\<close>, the parts that move or remove rows: two mailboxes become one when
  an account links an identity (\<open>claim\<close>) or a key rotates (\<open>rotate\<close>), an account is deleted (\<open>purge\<close>),
  retention runs (\<open>prune\<close>); and the reactions on stored messages, with what they use of
  \<^verbatim>\<open>reaction.rs\<close> and \<^verbatim>\<open>history.rs\<close>.
\<close>


subsection \<open>Duplicates\<close>

text \<open>Each reaction on the first of a pair is copied onto the second, unless it holds that one.\<close>

definition holds_reaction :: "reaction list \<Rightarrow> reaction \<Rightarrow> bool" where
  "holds_reaction rs r = list_ex (\<lambda>h. re_reference h = re_reference r \<and> re_key h = re_key r \<and> re_reactor h = re_reactor r) rs"

definition carry :: "(message_ref \<times> message_ref) list \<Rightarrow> reaction list \<Rightarrow> reaction list" where
  "carry pairs rs =
     fold (\<lambda>r out. if holds_reaction out r then out else out @ [r])
       (concat (map (\<lambda>r. map (\<lambda>(dup, kept). r\<lparr>re_reference := kept\<rparr>) (filter (\<lambda>(dup, kept). dup = re_reference r) pairs)) rs))
       rs"

type_synonym guid_key = "string \<times> string \<times> message_guid option"

definition merged_key :: "(mailbox \<Rightarrow> string) \<Rightarrow> mailbox \<Rightarrow> mailbox option \<Rightarrow> message_guid option \<Rightarrow> guid_key" where
  "merged_key after recipient sender guid =
     (after recipient, case sender of Some m \<Rightarrow> after m | None \<Rightarrow> [], guid)"

definition side :: "bool \<Rightarrow> mailbox \<Rightarrow> mailbox option \<Rightarrow> (mailbox \<Rightarrow> bool) \<Rightarrow> bool" where
  "side sender_side recipient sender f =
     (if sender_side then (case sender of Some m \<Rightarrow> f m | None \<Rightarrow> False) else f recipient)"

definition row_on :: "bool \<Rightarrow> (mailbox \<Rightarrow> bool) \<Rightarrow> stored_message \<Rightarrow> bool" where
  "row_on ss f m \<longleftrightarrow> sm_guid m \<noteq> None \<and> side ss (sm_recipient m) (sm_sender m) f"

definition stub_on :: "bool \<Rightarrow> (mailbox \<Rightarrow> bool) \<Rightarrow> stub \<Rightarrow> bool" where
  "stub_on ss f s \<longleftrightarrow> st_guid s \<noteq> None \<and> side ss (st_recipient s) (st_sender s) f"

definition sm_key :: "(mailbox \<Rightarrow> string) \<Rightarrow> stored_message \<Rightarrow> guid_key" where
  "sm_key after m = merged_key after (sm_recipient m) (sm_sender m) (sm_guid m)"

definition st_key :: "(mailbox \<Rightarrow> string) \<Rightarrow> stub \<Rightarrow> guid_key" where
  "st_key after s = merged_key after (st_recipient s) (st_sender s) (st_guid s)"

definition doomed_rows :: "bool \<Rightarrow> (mailbox \<Rightarrow> bool) \<Rightarrow> (mailbox \<Rightarrow> bool) \<Rightarrow> (mailbox \<Rightarrow> string)
    \<Rightarrow> stored_message list \<Rightarrow> (nat \<times> nat) list" where
  "doomed_rows ss dest moves after msgs =
     List.map_filter (\<lambda>(i, m). if row_on ss moves m
        then map_option (\<lambda>k. (i, k)) (position (\<lambda>k. row_on ss dest k \<and> sm_key after k = sm_key after m) msgs)
        else None) (enumerate 0 msgs)"

text \<open>What a duplicate knew of delivery and reading comes with it.\<close>

definition take_over :: "nat \<times> nat \<Rightarrow> stored_message list \<Rightarrow> stored_message list" where
  "take_over p msgs = msgs[snd p := (msgs ! snd p)\<lparr>
     sm_delivered_at := or_opt (sm_delivered_at (msgs ! snd p)) (sm_delivered_at (msgs ! fst p)),
     sm_read_at := or_opt (sm_read_at (msgs ! snd p)) (sm_read_at (msgs ! fst p))\<rparr>]"

definition without :: "nat list \<Rightarrow> 'a list \<Rightarrow> 'a list" where
  "without is xs = map snd (filter (\<lambda>p. fst p \<notin> set is) (enumerate 0 xs))"

definition earliest :: "systime list \<Rightarrow> systime option" where
  "earliest ts = (case ts of [] \<Rightarrow> None | t # us \<Rightarrow> Some (fold min us t))"

text \<open>When the moving stubs of a key were sent, the earliest.\<close>

definition read_of :: "bool \<Rightarrow> (mailbox \<Rightarrow> bool) \<Rightarrow> (mailbox \<Rightarrow> string) \<Rightarrow> stub list \<Rightarrow> guid_key \<Rightarrow> systime option" where
  "read_of ss moves after stubs k = earliest (map st_sent_at (filter (\<lambda>s. stub_on ss moves s \<and> st_key after s = k) stubs))"

definition promote :: "bool \<Rightarrow> (mailbox \<Rightarrow> bool) \<Rightarrow> (mailbox \<Rightarrow> bool) \<Rightarrow> (mailbox \<Rightarrow> string) \<Rightarrow> stub list
    \<Rightarrow> stored_message \<Rightarrow> stored_message" where
  "promote ss dest moves after stubs m =
     (if row_on ss dest m then
        (case read_of ss moves after stubs (sm_key after m) of
           Some at \<Rightarrow> m\<lparr>sm_delivered_at := or_opt (sm_delivered_at m) (Some at), sm_read_at := or_opt (sm_read_at m) (Some at)\<rparr>
         | None \<Rightarrow> m)
      else m)"

definition meeting :: "(guid_key \<times> message_ref) list \<Rightarrow> (guid_key \<times> message_ref) list \<Rightarrow> (message_ref \<times> message_ref) list" where
  "meeting moving kept = concat (map (\<lambda>(key, dup). map (\<lambda>(k, r). (dup, r)) (filter (\<lambda>(k, r). k = key) kept)) moving)"

definition drop_stubs :: "bool \<Rightarrow> (mailbox \<Rightarrow> bool) \<Rightarrow> (mailbox \<Rightarrow> string) \<Rightarrow> (guid_key \<times> message_ref) list \<Rightarrow> inbox \<Rightarrow> inbox" where
  "drop_stubs ss moves after kept b =
     (let pairs = meeting (map (\<lambda>s. (st_key after s, st_reference s)) (filter (stub_on ss moves) (stubs_of b))) kept
      in b\<lparr>ib_reactions := carry pairs (ib_reactions b),
           ib_stubs := om_retain (\<lambda>r _. r \<notin> fst ` set pairs) (ib_stubs b)\<rparr>)"

definition collapse_rows :: "bool \<Rightarrow> (mailbox \<Rightarrow> bool) \<Rightarrow> (mailbox \<Rightarrow> bool) \<Rightarrow> (mailbox \<Rightarrow> string) \<Rightarrow> inbox \<Rightarrow> inbox" where
  "collapse_rows ss dest moves after b =
     (let doomed = doomed_rows ss dest moves after (ib_msgs b);
          msgs = fold take_over doomed (ib_msgs b);
          pairs = map (\<lambda>(dup, kept). (sm_reference (msgs ! dup), sm_reference (msgs ! kept))) doomed
      in b\<lparr>ib_msgs := without (map fst doomed) msgs, ib_reactions := carry pairs (ib_reactions b)\<rparr>)"

definition collapse_stubs :: "bool \<Rightarrow> (mailbox \<Rightarrow> bool) \<Rightarrow> (mailbox \<Rightarrow> bool) \<Rightarrow> (mailbox \<Rightarrow> string) \<Rightarrow> inbox \<Rightarrow> inbox" where
  "collapse_stubs ss dest moves after b =
     (let msgs = map (promote ss dest moves after (stubs_of b)) (ib_msgs b);
          stubbed = map (\<lambda>s. (st_key after s, st_reference s)) (filter (stub_on ss dest) (stubs_of b));
          rowed = map (\<lambda>m. (sm_key after m, sm_reference m)) (filter (row_on ss dest) msgs);
          pairs = meeting (map (\<lambda>m. (sm_key after m, sm_reference m)) (filter (row_on ss moves) msgs)) stubbed;
          b1 = b\<lparr>ib_reactions := carry pairs (ib_reactions b),
                 ib_msgs := filter (\<lambda>m. sm_reference m \<notin> fst ` set pairs) msgs\<rparr>
      in drop_stubs ss moves after stubbed (drop_stubs ss moves after rowed b1))"

definition collapse :: "(mailbox \<Rightarrow> bool) \<Rightarrow> (mailbox \<Rightarrow> bool) \<Rightarrow> (mailbox \<Rightarrow> string) \<Rightarrow> inbox \<Rightarrow> inbox" where
  "collapse dest moves after b =
     fold (\<lambda>ss b. collapse_stubs ss dest moves after (collapse_rows ss dest moves after b)) [False, True] b"


subsection \<open>Cursors\<close>

definition cursor_at :: "inbox \<Rightarrow> string \<Rightarrow> cursor" where
  "cursor_at b k = (case map_of (ib_cursors b) k of Some c \<Rightarrow> c | None \<Rightarrow> 0)"

text \<open>The moved mail, in the order of its cursors, is numbered from \<open>past + 1\<close>: a message's new cursor is
  \<open>past\<close> and its place in that order.\<close>

definition renumber_msgs :: "(mailbox \<Rightarrow> bool) \<Rightarrow> cursor \<Rightarrow> stored_message list \<Rightarrow> stored_message list" where
  "renumber_msgs moves past msgs =
     (let moving = filter (\<lambda>i. is_mail (msgs ! i) \<and> moves (sm_recipient (msgs ! i))) [0..<length msgs];
          order = sort_key (\<lambda>i. sm_cursor (msgs ! i)) moving
      in map (\<lambda>i. case position (\<lambda>j. j = i) order of
                Some n \<Rightarrow> (msgs ! i)\<lparr>sm_cursor := past + of_nat (Suc n)\<rparr>
              | None \<Rightarrow> msgs ! i) [0..<length msgs])"

definition renumber :: "(mailbox \<Rightarrow> bool) \<Rightarrow> string \<Rightarrow> string \<Rightarrow> inbox \<Rightarrow> inbox" where
  "renumber moves from into b =
     (if cursor_at b into = 0 then
        (if 0 < cursor_at b from then b\<lparr>ib_cursors := om_put into (cursor_at b from) (ib_cursors b)\<rparr> else b)
      else
        (let past = max (cursor_at b from) (cursor_at b into);
             n = length (filter (\<lambda>m. is_mail m \<and> moves (sm_recipient m)) (ib_msgs b))
         in b\<lparr>ib_msgs := renumber_msgs moves past (ib_msgs b),
              ib_cursors := om_put into (past + of_nat n) (ib_cursors b)\<rparr>))"


subsection \<open>Claims and rotations\<close>

definition stamp_msg :: "(mailbox \<Rightarrow> bool) \<Rightarrow> fp \<Rightarrow> stored_message \<Rightarrow> stored_message" where
  "stamp_msg moves f m = m\<lparr>sm_recipient := stamp moves f (sm_recipient m), sm_sender := map_option (stamp moves f) (sm_sender m)\<rparr>"

definition stamped_msg :: "(mailbox \<Rightarrow> bool) \<Rightarrow> stored_message \<Rightarrow> nat" where
  "stamped_msg moves m = stamped moves (sm_recipient m) + (case sm_sender m of Some s \<Rightarrow> stamped moves s | None \<Rightarrow> 0)"

definition stamp_stub :: "(mailbox \<Rightarrow> bool) \<Rightarrow> fp \<Rightarrow> stub \<Rightarrow> stub" where
  "stamp_stub moves f s = s\<lparr>st_recipient := stamp moves f (st_recipient s), st_sender := map_option (stamp moves f) (st_sender s)\<rparr>"

definition stamp_all :: "(mailbox \<Rightarrow> bool) \<Rightarrow> fp \<Rightarrow> inbox \<Rightarrow> nat \<times> inbox" where
  "stamp_all moves f b =
     (sum_list (map (stamped_msg moves) (ib_msgs b)),
      b\<lparr>ib_stubs := om_map (stamp_stub moves f) (ib_stubs b), ib_msgs := map (stamp_msg moves f) (ib_msgs b)\<rparr>)"

definition key_moved :: "(mailbox \<Rightarrow> bool) \<Rightarrow> fp \<Rightarrow> mailbox \<Rightarrow> string" where
  "key_moved moves f m = (if moves m then hex_str f else index_key m)"

definition ib_claim :: "string \<Rightarrow> fp \<Rightarrow> inbox \<Rightarrow> nat \<times> inbox" where
  "ib_claim login f b =
     (let b1 = forget_removed (collapse (rotate_moves f) (claim_moves login) (key_moved (claim_moves login) f) b);
          b2 = renumber (claim_moves login) login (hex_str f) b1
      in stamp_all (claim_moves login) f (b2\<lparr>ib_cursors := om_del login (ib_cursors b2)\<rparr>))"

definition ib_rotate :: "fp \<Rightarrow> fp \<Rightarrow> inbox \<Rightarrow> nat \<times> inbox" where
  "ib_rotate k k' b =
     (let b1 = forget_removed (collapse (rotate_moves k') (rotate_moves k) (key_moved (rotate_moves k) k') b)
      in stamp_all (rotate_moves k) k' (renumber (rotate_moves k) (hex_str k) (hex_str k') b1))"


subsection \<open>Purging and retention\<close>

definition reactor_key :: "mailbox \<Rightarrow> string" where
  "reactor_key m = (case mb_fp m of Some f \<Rightarrow> ''f:'' @ hex_str f | None \<Rightarrow> ''l:'' @ mb_login m)"

definition names :: "mailbox \<Rightarrow> mailbox \<Rightarrow> mailbox option \<Rightarrow> bool" where
  "names k recipient sender \<longleftrightarrow> is_mb recipient k \<or> (case sender of Some s \<Rightarrow> is_mb s k | None \<Rightarrow> False)"

definition ib_purge :: "mailbox \<Rightarrow> inbox \<Rightarrow> nat \<times> inbox" where
  "ib_purge k b =
     (let b' = forget_removed (b\<lparr>ib_msgs := filter (\<lambda>m. \<not> names k (sm_recipient m) (sm_sender m)) (ib_msgs b),
            ib_stubs := om_retain (\<lambda>_ s. \<not> names k (st_recipient s) (st_sender s)) (ib_stubs b),
            ib_cursors := om_del (index_key k) (ib_cursors b),
            ib_reactions := filter (\<lambda>r. re_reactor r \<noteq> reactor_key k) (ib_reactions b)\<rparr>)
      in (length (ib_msgs b) - length (ib_msgs b'), b'))"

definition ib_purge_count :: "inbox \<Rightarrow> mailbox \<Rightarrow> nat" where
  "ib_purge_count b k = length (filter (\<lambda>m. names k (sm_recipient m) (sm_sender m)) (ib_msgs b))"

text \<open>\<open>elapsed\<close>: a clock that went backwards is no time passed.\<close>

definition elapsed :: "systime \<Rightarrow> systime \<Rightarrow> int" where
  "elapsed now was = (if was \<le> now then now - was else 0)"

definition is_private :: "stored_message \<Rightarrow> bool" where
  "is_private m \<longleftrightarrow> is_mail m \<and> sm_friendship m = None"

definition is_open :: "systime \<Rightarrow> int \<Rightarrow> stored_message \<Rightarrow> bool" where
  "is_open now unread m \<longleftrightarrow> elapsed now (sm_sent_at m) < unread"

definition keeps :: "systime \<Rightarrow> int \<Rightarrow> int \<Rightarrow> stored_message \<Rightarrow> bool" where
  "keeps now unread rd m = (case sm_read_at m of Some t \<Rightarrow> elapsed now t < rd | None \<Rightarrow> is_open now unread m)"

definition stub_of :: "stored_message \<Rightarrow> stub" where
  "stub_of m = \<lparr>st_reference = sm_reference m, st_recipient = sm_recipient m, st_sender = sm_sender m,
     st_guid = sm_guid m, st_signed = map_option sg_content (sm_signed m), st_sent_at = sm_sent_at m\<rparr>"

definition prune :: "systime \<Rightarrow> int \<Rightarrow> int \<Rightarrow> inbox \<Rightarrow> nat \<times> inbox" where
  "prune now unread rd b =
     (let leaves = filter (\<lambda>m. \<not> keeps now unread rd m \<and> is_private m \<and> is_open now unread m) (ib_msgs b);
          stubs = fold (\<lambda>m. om_put (sm_reference m) (stub_of m)) leaves (ib_stubs b);
          kept = map (\<lambda>m. if is_private m \<and> \<not> is_open now unread m then m\<lparr>sm_guid := None\<rparr> else m)
                   (filter (keeps now unread rd) (ib_msgs b))
      in (length (ib_msgs b) - length kept,
          forget_removed (b\<lparr>ib_msgs := kept, ib_stubs := om_retain (\<lambda>_ s. elapsed now (st_sent_at s) < unread) stubs\<rparr>)))"


subsection \<open>Reactions\<close>

datatype reaction_key = Emoji string

definition EMOJI :: u8 where "EMOJI = 1"

definition rk_pack :: "reaction_key \<Rightarrow> bytes" where
  "rk_pack k = (case k of Emoji s \<Rightarrow> EMOJI # str_bytes s)"

definition rk_unpack :: "bytes \<Rightarrow> reaction_key option" where
  "rk_unpack b = (case b of
     [] \<Rightarrow> None
   | k # rest \<Rightarrow> if k = EMOJI then (if utf8_valid rest then Some (Emoji (bytes_str rest)) else None) else None)"

record reactions =
  rs_keys :: "(reaction_key \<times> u32) list"
  rs_mine :: "u8 list"

text \<open>\<open>summarize\<close>: the place of each packed key is kept beside the keys.\<close>

definition summarize_step :: "string option \<Rightarrow> bytes \<times> string \<Rightarrow> (bytes \<times> nat) list \<times> reactions \<Rightarrow> (bytes \<times> nat) list \<times> reactions" where
  "summarize_step reader p acc =
     (let (at, out) = acc; (packed, reactor) = p;
          found = (case map_of at packed of
             Some i \<Rightarrow> Some (i, at, out)
           | None \<Rightarrow> map_option (\<lambda>key. (length (rs_keys out), (packed, length (rs_keys out)) # at,
                        out\<lparr>rs_keys := rs_keys out @ [(key, 0)]\<rparr>)) (rk_unpack packed))
      in case found of
           None \<Rightarrow> acc
         | Some (i, at', o') \<Rightarrow>
            (at', o'\<lparr>rs_keys := (rs_keys o')[i := (fst (rs_keys o' ! i), snd (rs_keys o' ! i) + 1)],
               rs_mine := (if reader = Some reactor \<and> i < 256 then rs_mine o' @ [of_nat i] else rs_mine o')\<rparr>))"

definition summarize :: "(bytes \<times> string) list \<Rightarrow> string option \<Rightarrow> reactions" where
  "summarize rows reader =
     (let out = snd (fold (summarize_step reader) rows ([], \<lparr>rs_keys = [], rs_mine = []\<rparr>))
      in out\<lparr>rs_mine := sort (rs_mine out)\<rparr>)"

record parties =
  pt_recipient :: mailbox
  pt_sender :: "mailbox option"

definition seen_by :: "parties \<Rightarrow> mailbox \<Rightarrow> bool \<Rightarrow> systime \<Rightarrow> systime \<Rightarrow> parties option" where
  "seen_by p who row sent_at open_since =
     (let opn = (open_since \<le> sent_at);
          rcp = (is_mb (pt_recipient p) who \<and> (row \<or> opn));
          snr = (opn \<and> (case pt_sender p of Some s \<Rightarrow> is_mb s who | None \<Rightarrow> False))
      in if rcp \<or> snr then Some p else None)"

text \<open>The parties, when it was sent, whether a row holds it, and whether it was delivered.\<close>

definition ib_parties :: "inbox \<Rightarrow> message_ref \<Rightarrow> (parties \<times> systime \<times> bool \<times> bool) option" where
  "ib_parties b r =
     (case find (\<lambda>m. sm_reference m = r) (ib_msgs b) of
        Some m \<Rightarrow>
          if is_mail m \<and> sm_friendship m = None
          then Some (\<lparr>pt_recipient = sm_recipient m, pt_sender = sm_sender m\<rparr>, sm_sent_at m, True, sm_delivered_at m \<noteq> None)
          else None
      | None \<Rightarrow> map_option (\<lambda>s. (\<lparr>pt_recipient = st_recipient s, pt_sender = st_sender s\<rparr>, st_sent_at s, False, True))
          (map_of (ib_stubs b) r))"

definition ib_seen :: "inbox \<Rightarrow> message_ref \<Rightarrow> mailbox \<Rightarrow> systime \<Rightarrow> parties option" where
  "ib_seen b r who open_since =
     Option.bind (ib_parties b r) (\<lambda>(p, sent_at, row, _). seen_by p who row sent_at open_since)"

definition reaction_rows :: "inbox \<Rightarrow> message_ref \<Rightarrow> (bytes \<times> string) list" where
  "reaction_rows b r = map (\<lambda>x. (re_key x, re_reactor x)) (filter (\<lambda>x. re_reference x = r) (ib_reactions b))"

record message_state =
  ms_reference :: message_ref
  ms_recipient :: mailbox
  ms_sender :: "mailbox option"
  ms_sent_at :: systime
  ms_delivered :: bool
  ms_row :: bool
  ms_keys :: "(reaction_key \<times> u32) list"
  ms_held :: "(string \<times> reaction_key) list"

definition message_state_of :: "message_ref \<Rightarrow> parties \<Rightarrow> systime \<Rightarrow> bool \<Rightarrow> bool \<Rightarrow> (bytes \<times> string) list \<Rightarrow> message_state" where
  "message_state_of r p sent_at delivered row rows =
     \<lparr>ms_reference = r, ms_recipient = pt_recipient p, ms_sender = pt_sender p, ms_sent_at = sent_at,
      ms_delivered = delivered, ms_row = row, ms_keys = rs_keys (summarize rows None),
      ms_held = List.map_filter (\<lambda>(key, reactor). map_option (\<lambda>k. (reactor, k)) (rk_unpack key)) rows\<rparr>"

definition ib_state :: "inbox \<Rightarrow> message_ref \<Rightarrow> message_state option" where
  "ib_state b r = map_option (\<lambda>(p, sent_at, row, delivered). message_state_of r p sent_at delivered row (reaction_rows b r))
     (ib_parties b r)"

record react_act =
  ra_reference :: message_ref
  ra_who :: mailbox
  ra_nick :: string
  ra_key :: reaction_key
  ra_add :: bool
  ra_at :: systime
  ra_open_since :: systime
  ra_max_keys :: nat
  ra_max_per_user :: nat

datatype message_reacted = ReApplied message_state | ReHeld | ReDropped

text \<open>\<open>expect("a party's message")\<close> is met: a message \<open>seen\<close> has parties, and a reaction changes none.  The model
  answers \<open>ReDropped\<close> there.\<close>

definition applied :: "inbox \<Rightarrow> message_ref \<Rightarrow> message_reacted \<times> inbox" where
  "applied b r = (case ib_state b r of Some s \<Rightarrow> ReApplied s | None \<Rightarrow> ReDropped, b)"

definition past_cap :: "react_act \<Rightarrow> reaction list \<Rightarrow> bytes \<Rightarrow> string \<Rightarrow> bool" where
  "past_cap act on key reactor \<longleftrightarrow>
     (let keys = remdups_adj (sort (map re_key on)) in key \<notin> set keys \<and> ra_max_keys act \<le> length keys)
     \<or> ra_max_per_user act \<le> length (filter (\<lambda>x. re_reactor x = reactor) on)"

definition react_message :: "react_act \<Rightarrow> inbox \<Rightarrow> message_reacted \<times> inbox" where
  "react_message act b =
     (let r = ra_reference act; key = rk_pack (ra_key act); reactor = reactor_key (ra_who act);
          on = filter (\<lambda>x. re_reference x = r) (ib_reactions b);
          held = list_ex (\<lambda>x. re_key x = key \<and> re_reactor x = reactor) on
      in if ib_seen b r (ra_who act) (ra_open_since act) = None then (ReDropped, b)
         else if ra_add act = held then (ReHeld, b)
         else if ra_add act then
           (if past_cap act on key reactor then (ReDropped, b)
            else applied (b\<lparr>ib_reactions := ib_reactions b @ [\<lparr>re_reference = r, re_key = key, re_reactor = reactor,
                   re_nick = ra_nick act, re_at = ra_at act\<rparr>]\<rparr>) r)
         else applied (b\<lparr>ib_reactions := filter (\<lambda>x. \<not> (re_reference x = r \<and> re_key x = key \<and> re_reactor x = reactor))
                (ib_reactions b)\<rparr>) r)"

definition REACTORS_SHOWN :: nat where "REACTORS_SHOWN = 100"

definition message_reactions ::
    "inbox \<Rightarrow> message_ref list \<Rightarrow> mailbox \<Rightarrow> systime \<Rightarrow> reaction_key option \<Rightarrow> (message_ref, reactions \<times> string list) omap" where
  "message_reactions b refs reader open_since key =
     fold (\<lambda>r out.
        let shown = summarize (reaction_rows b r) (Some (reactor_key reader));
            holders = take REACTORS_SHOWN (sort_key (\<lambda>x. - re_at x)
              (filter (\<lambda>x. re_reference x = r \<and> map_option rk_pack key = Some (re_key x)) (rev (ib_reactions b))))
        in if ib_seen b r reader open_since = None \<or> rs_keys shown = [] then out
           else om_put r (shown, map re_nick holders) out) refs []"

definition message_reaction_states :: "inbox \<Rightarrow> message_ref list \<Rightarrow> message_state list" where
  "message_reaction_states b refs = List.map_filter (ib_state b) refs"

definition forget_message_reactions :: "mailbox \<Rightarrow> systime \<Rightarrow> inbox \<Rightarrow> message_ref list \<times> inbox" where
  "forget_message_reactions who since b =
     (let gone = (\<lambda>r. re_reactor r = reactor_key who \<and> since \<le> re_at r)
      in (sort (remdups (map re_reference (filter gone (ib_reactions b)))),
          b\<lparr>ib_reactions := filter (\<lambda>r. \<not> gone r) (ib_reactions b)\<rparr>))"

definition rekey_message_reactions :: "mailbox \<Rightarrow> mailbox \<Rightarrow> inbox \<Rightarrow> message_ref list \<times> inbox" where
  "rekey_message_reactions from to b =
     (let f = reactor_key from; t = reactor_key to;
          held = map (\<lambda>r. (re_reference r, re_key r)) (filter (\<lambda>r. re_reactor r = t) (ib_reactions b));
          twice = (\<lambda>r. re_reactor r = f \<and> (re_reference r, re_key r) \<in> set held)
      in if f = t then ([], b)
         else (sort (remdups (map re_reference (filter twice (ib_reactions b)))),
               b\<lparr>ib_reactions := map (\<lambda>r. if re_reactor r = f then r\<lparr>re_reactor := t\<rparr> else r)
                  (filter (\<lambda>r. \<not> twice r) (ib_reactions b))\<rparr>))"

end
