(* ===== verification/Inbox_Safety.thy ===== *)
theory Inbox_Safety
  imports Inbox_Merge Relationship_Safety
begin

section \<open>What the inbox keeps\<close>

text \<open>
  A guid names one message of a pair of mailboxes: no two of the rows and stubs that carry one have the same
  recipient, sender and guid.  The hard case is two mailboxes becoming one, where the same guid may be on
  both sides: \<open>collapse\<close> leaves one of them, and never neither.
\<close>


subsection \<open>What names a message\<close>

type_synonym trip = "mailbox \<times> mailbox option \<times> message_guid option"

definition sm_trip :: "stored_message \<Rightarrow> trip" where
  "sm_trip m = (sm_recipient m, sm_sender m, sm_guid m)"

definition st_trip :: "stub \<Rightarrow> trip" where
  "st_trip s = (st_recipient s, st_sender s, st_guid s)"

definition guided :: "trip \<Rightarrow> bool" where
  "guided t \<longleftrightarrow> snd (snd t) \<noteq> None"

definition trips :: "inbox \<Rightarrow> trip list" where
  "trips b = filter guided (map sm_trip (ib_msgs b) @ map st_trip (stubs_of b))"

definition guid_key_of :: "trip \<Rightarrow> mkey \<times> mkey option \<times> message_guid option" where
  "guid_key_of t = (mkey (fst t), map_option mkey (fst (snd t)), snd (snd t))"

definition trip_key :: "(mailbox \<Rightarrow> string) \<Rightarrow> trip \<Rightarrow> guid_key" where
  "trip_key after t = merged_key after (fst t) (fst (snd t)) (snd (snd t))"

definition trip_on :: "bool \<Rightarrow> (mailbox \<Rightarrow> bool) \<Rightarrow> trip \<Rightarrow> bool" where
  "trip_on ss f t \<longleftrightarrow> guided t \<and> side ss (fst t) (fst (snd t)) f"

lemma trip_simps:
  "row_on ss f m = trip_on ss f (sm_trip m)" "stub_on ss f s = trip_on ss f (st_trip s)"
  "sm_key after m = trip_key after (sm_trip m)" "st_key after s = trip_key after (st_trip s)"
  by (simp_all add: row_on_def stub_on_def trip_on_def guided_def sm_trip_def st_trip_def sm_key_def st_key_def trip_key_def)

text \<open>What a merge changes of a row it keeps is when it was delivered and read.\<close>

definition core :: "stored_message \<Rightarrow> stored_message" where
  "core m = m\<lparr>sm_delivered_at := None, sm_read_at := None\<rparr>"

lemma core_fields [simp]:
  "sm_trip (core m) = sm_trip m" "sm_reference (core m) = sm_reference m" "sm_id (core m) = sm_id m"
  "sm_cursor (core m) = sm_cursor m" "sm_kind (core m) = sm_kind m" "sm_recipient (core m) = sm_recipient m"
  "sm_sender (core m) = sm_sender m" "is_mail (core m) = is_mail m"
  by (simp_all add: core_def sm_trip_def is_mail_def)

lemma core_cong:
  "core m = core m' \<Longrightarrow> sm_trip m = sm_trip m' \<and> sm_reference m = sm_reference m' \<and> sm_id m = sm_id m' \<and> sm_cursor m = sm_cursor m'
     \<and> is_mail m = is_mail m'"
  by (metis core_fields)


subsection \<open>Lists\<close>

lemma set_without: "set (without is xs) = {xs ! i | i. i < length xs \<and> i \<notin> set is}"
  by (auto simp: without_def in_set_enumerate_eq image_iff)

lemma set_without_if:
  assumes "set is = {i. i < length xs \<and> P (xs ! i)}"
  shows "set (without is (map f xs)) = f ` {x \<in> set xs. \<not> P x}"
proof -
  have "set (without is (map f xs)) = {f (xs ! i) | i. i < length xs \<and> \<not> P (xs ! i)}"
    unfolding set_without assms length_map by (rule Collect_cong) (metis (no_types, lifting) mem_Collect_eq nth_map)
  also have "\<dots> = f ` {x \<in> set xs. \<not> P x}" by (auto simp: in_set_conv_nth)
  finally show ?thesis .
qed

lemma map_without: "map f (without is xs) = without is (map f xs)"
proof -
  have "map (\<lambda>p. f (snd p)) (filter (\<lambda>p. fst p \<notin> set is) (enumerate n xs))
      = map snd (filter (\<lambda>p. fst p \<notin> set is) (enumerate n (map f xs)))" for n
    by (induction xs arbitrary: n) auto
  then show ?thesis by (simp add: without_def comp_def)
qed

lemma subseq_without: "subseq (without is xs) xs"
  unfolding without_def by (metis map_snd_enumerate subseq_filter_left subseq_map)

lemma core_take_over: "map core (take_over p msgs) = map core msgs"
proof (cases "snd p < length msgs")
  case True
  then show ?thesis by (simp add: take_over_def map_update core_def list_update_same_conv)
qed (simp add: take_over_def list_update_beyond)

lemma core_fold_take_over: "map core (fold take_over ps msgs) = map core msgs"
  by (induction ps arbitrary: msgs) (simp_all add: core_take_over)

lemma core_promote: "core (promote ss dest moves after stubs m) = core m"
  by (simp add: promote_def core_def split: option.split)

lemma meeting_fst: "fst ` set (meeting moving kept) = {d. \<exists>k r. (k, d) \<in> set moving \<and> (k, r) \<in> set kept}"
  by (force simp: meeting_def)

lemma doomed_fst:
  "set (map fst (doomed_rows ss dest moves after msgs)) =
     {i. i < length msgs \<and> row_on ss moves (msgs ! i) \<and> (\<exists>k\<in>set msgs. row_on ss dest k \<and> sm_key after k = sm_key after (msgs ! i))}"
proof -
  have mf: "set (List.map_filter f xs) = {y. \<exists>x\<in>set xs. f x = Some y}" for f :: "'b \<Rightarrow> 'c option" and xs
    by (induction xs) (auto split: option.splits)
  have pos: "(\<exists>k. position P xs = Some k) \<longleftrightarrow> (\<exists>x\<in>set xs. P x)" for P and xs :: "stored_message list"
    using position_None [of P xs] by (cases "position P xs") auto
  have "i \<in> set (map fst (doomed_rows ss dest moves after msgs)) \<longleftrightarrow> i < length msgs \<and> row_on ss moves (msgs ! i)
      \<and> (\<exists>k. position (\<lambda>k. row_on ss dest k \<and> sm_key after k = sm_key after (msgs ! i)) msgs = Some k)" for i
  proof -
    let ?pos = "\<lambda>m. position (\<lambda>k. row_on ss dest k \<and> sm_key after k = sm_key after m) msgs"
    have "(\<exists>k. (i, k) \<in> set (doomed_rows ss dest moves after msgs)) \<longleftrightarrow>
        (\<exists>k. (i, msgs ! i) \<in> set (enumerate 0 msgs) \<and> row_on ss moves (msgs ! i) \<and> ?pos (msgs ! i) = Some k)"
      by (auto simp: doomed_rows_def mf in_set_enumerate_eq split: if_splits intro!: bexI [of _ "(i, msgs ! i)"])
    then show ?thesis by (force simp: in_set_enumerate_eq)
  qed
  then show ?thesis unfolding pos by blast
qed


subsection \<open>One pass of a merge\<close>

lemma collapse_rows_core:
  "subseq (map core (ib_msgs (collapse_rows ss dest moves after b))) (map core (ib_msgs b))
   \<and> core ` set (ib_msgs (collapse_rows ss dest moves after b)) =
      core ` {m \<in> set (ib_msgs b). \<not> (row_on ss moves m \<and> (\<exists>k\<in>set (ib_msgs b). row_on ss dest k \<and> sm_key after k = sm_key after m))}"
proof -
  let ?is = "map fst (doomed_rows ss dest moves after (ib_msgs b))"
  have msgs: "map core (ib_msgs (collapse_rows ss dest moves after b)) = without ?is (map core (ib_msgs b))"
    by (simp add: collapse_rows_def Let_def map_without core_fold_take_over)
  have "core ` set (ib_msgs (collapse_rows ss dest moves after b)) = set (without ?is (map core (ib_msgs b)))"
    by (simp flip: msgs)
  also have "\<dots> = core ` {m \<in> set (ib_msgs b). \<not> (row_on ss moves m \<and> (\<exists>k\<in>set (ib_msgs b). row_on ss dest k \<and> sm_key after k = sm_key after m))}"
    by (rule set_without_if [OF doomed_fst])
  finally show ?thesis using subseq_without msgs by metis
qed

text \<open>The stubs a pass drops.\<close>

definition stub_meets :: "bool \<Rightarrow> (mailbox \<Rightarrow> bool) \<Rightarrow> (mailbox \<Rightarrow> string) \<Rightarrow> guid_key set \<Rightarrow> stub \<Rightarrow> bool" where
  "stub_meets ss moves after keys s \<longleftrightarrow> stub_on ss moves s \<and> st_key after s \<in> keys"

definition stubs_ok :: "inbox \<Rightarrow> bool" where
  "stubs_ok b \<longleftrightarrow> om_wf (ib_stubs b) \<and> (\<forall>p\<in>set (ib_stubs b). st_reference (snd p) = fst p)"

lemma stubs_ok_inj: "stubs_ok b \<Longrightarrow> p \<in> set (ib_stubs b) \<Longrightarrow> q \<in> set (ib_stubs b) \<Longrightarrow> fst p = fst q \<Longrightarrow> p = q"
  unfolding stubs_ok_def by (metis eq_key_imp_eq_value om_wf_distinct prod.collapse)

lemma drop_stubs_msgs [simp]: "ib_msgs (drop_stubs ss moves after kept b) = ib_msgs b"
  by (simp add: drop_stubs_def Let_def)

lemma drop_stubs_stubs:
  assumes "stubs_ok b"
  shows "ib_stubs (drop_stubs ss moves after kept b) =
      filter (\<lambda>p. \<not> stub_meets ss moves after (fst ` set kept) (snd p)) (ib_stubs b)"
    "stubs_ok (drop_stubs ss moves after kept b)"
proof -
  let ?pairs = "meeting (map (\<lambda>s. (st_key after s, st_reference s)) (filter (stub_on ss moves) (stubs_of b))) kept"
  have mem: "fst p \<notin> fst ` set ?pairs \<longleftrightarrow> \<not> stub_meets ss moves after (fst ` set kept) (snd p)" if "p \<in> set (ib_stubs b)" for p
  proof -
    have ref: "st_reference (snd q) = fst q" if "q \<in> set (ib_stubs b)" for q using assms that by (simp add: stubs_ok_def)
    have "fst p \<in> fst ` set ?pairs \<longleftrightarrow> (\<exists>q\<in>set (ib_stubs b). stub_on ss moves (snd q) \<and> fst q = fst p \<and> st_key after (snd q) \<in> fst ` set kept)"
    proof
      assume "fst p \<in> fst ` set ?pairs"
      then obtain k r q where "q \<in> set (ib_stubs b)" "stub_on ss moves (snd q)" "k = st_key after (snd q)"
          "fst p = st_reference (snd q)" "(k, r) \<in> set kept"
        unfolding meeting_fst by (auto simp: stubs_of_def)
      then show "\<exists>q\<in>set (ib_stubs b). stub_on ss moves (snd q) \<and> fst q = fst p \<and> st_key after (snd q) \<in> fst ` set kept"
        using ref [of q] by (intro bexI [of _ q]) force+
    next
      assume "\<exists>q\<in>set (ib_stubs b). stub_on ss moves (snd q) \<and> fst q = fst p \<and> st_key after (snd q) \<in> fst ` set kept"
      then obtain q r where q: "q \<in> set (ib_stubs b)" "stub_on ss moves (snd q)" "fst q = fst p" "(st_key after (snd q), r) \<in> set kept"
        by auto
      have "(st_key after (snd q), fst p) \<in> set (map (\<lambda>s. (st_key after s, st_reference s)) (filter (stub_on ss moves) (stubs_of b)))"
        using q ref [OF q(1)] by (auto simp: stubs_of_def image_iff intro!: bexI [of _ q])
      with q(4) show "fst p \<in> fst ` set ?pairs" unfolding meeting_fst by blast
    qed
    also have "\<dots> \<longleftrightarrow> stub_meets ss moves after (fst ` set kept) (snd p)"
      using stubs_ok_inj [OF assms _ that] that by (auto simp: stub_meets_def)
    finally show ?thesis by blast
  qed
  have "ib_stubs (drop_stubs ss moves after kept b) = filter (\<lambda>p. fst p \<notin> fst ` set ?pairs) (ib_stubs b)"
    by (simp add: drop_stubs_def Let_def om_retain_def case_prod_beta')
  also have "\<dots> = filter (\<lambda>p. \<not> stub_meets ss moves after (fst ` set kept) (snd p)) (ib_stubs b)"
    by (rule filter_cong [OF refl mem])
  finally show eq: "ib_stubs (drop_stubs ss moves after kept b) =
      filter (\<lambda>p. \<not> stub_meets ss moves after (fst ` set kept) (snd p)) (ib_stubs b)" .
  show "stubs_ok (drop_stubs ss moves after kept b)"
    using assms unfolding stubs_ok_def eq by (auto intro: om_wf_filter)
qed

text \<open>The rows and stubs after the second half of a pass.\<close>

definition row_keys :: "bool \<Rightarrow> (mailbox \<Rightarrow> bool) \<Rightarrow> (mailbox \<Rightarrow> string) \<Rightarrow> inbox \<Rightarrow> guid_key set" where
  "row_keys ss f after b = sm_key after ` {m \<in> set (ib_msgs b). row_on ss f m}"

definition stub_keys :: "bool \<Rightarrow> (mailbox \<Rightarrow> bool) \<Rightarrow> (mailbox \<Rightarrow> string) \<Rightarrow> inbox \<Rightarrow> guid_key set" where
  "stub_keys ss f after b = st_key after ` {s \<in> set (stubs_of b). stub_on ss f s}"

lemma row_on_core: "row_on ss f m = row_on ss f (core m)" "sm_key after m = sm_key after (core m)"
  by (simp_all add: trip_simps)

lemma row_on_promote:
  "row_on ss f (promote ss' dest moves after stubs m) = row_on ss f m"
  "sm_key after' (promote ss' dest moves after stubs m) = sm_key after' m"
  "sm_reference (promote ss' dest moves after stubs m) = sm_reference m"
  using core_promote [of ss' dest moves after stubs m] row_on_core core_fields(2) by metis+

lemma collapse_stubs_msgs:
  assumes "distinct (map sm_reference (ib_msgs b))"
  shows "map core (ib_msgs (collapse_stubs ss dest moves after b)) =
    map core (filter (\<lambda>m. \<not> (row_on ss moves m \<and> sm_key after m \<in> stub_keys ss dest after b)) (ib_msgs b))"
proof -
  let ?pr = "promote ss dest moves after (stubs_of b)"
  let ?pairs = "meeting (map (\<lambda>m. (sm_key after m, sm_reference m)) (filter (row_on ss moves) (map ?pr (ib_msgs b))))
     (map (\<lambda>s. (st_key after s, st_reference s)) (filter (stub_on ss dest) (stubs_of b)))"
  have promoted: "map (\<lambda>m. (sm_key after m, sm_reference m)) (filter (row_on ss moves) (map ?pr (ib_msgs b)))
      = map (\<lambda>m. (sm_key after m, sm_reference m)) (filter (row_on ss moves) (ib_msgs b))"
    by (simp add: filter_map comp_def row_on_promote)
  have mem: "sm_reference m \<notin> fst ` set ?pairs \<longleftrightarrow> \<not> (row_on ss moves m \<and> sm_key after m \<in> stub_keys ss dest after b)"
    if m: "m \<in> set (ib_msgs b)" for m
  proof -
    have "sm_reference m \<in> fst ` set ?pairs \<longleftrightarrow> (\<exists>x\<in>set (ib_msgs b). row_on ss moves x \<and> sm_reference x = sm_reference m
        \<and> sm_key after x \<in> stub_keys ss dest after b)"
      unfolding promoted meeting_fst stub_keys_def by (auto simp: image_iff) (metis surj_pair)+
    also have "\<dots> \<longleftrightarrow> row_on ss moves m \<and> sm_key after m \<in> stub_keys ss dest after b"
      using assms m by (auto simp: distinct_map dest: inj_onD)
    finally show ?thesis by blast
  qed
  have "map core (ib_msgs (collapse_stubs ss dest moves after b)) =
      map core (filter (\<lambda>m. sm_reference m \<notin> fst ` set ?pairs) (map ?pr (ib_msgs b)))"
    by (simp add: collapse_stubs_def Let_def)
  also have "\<dots> = map core (filter (\<lambda>m. sm_reference m \<notin> fst ` set ?pairs) (ib_msgs b))"
    by (simp add: filter_map comp_def row_on_promote core_promote)
  also have "filter (\<lambda>m. sm_reference m \<notin> fst ` set ?pairs) (ib_msgs b) =
      filter (\<lambda>m. \<not> (row_on ss moves m \<and> sm_key after m \<in> stub_keys ss dest after b)) (ib_msgs b)"
    by (rule filter_cong [OF refl mem])
  finally show ?thesis .
qed

lemma collapse_stubs_stubs:
  assumes "stubs_ok b"
  shows "ib_stubs (collapse_stubs ss dest moves after b) = filter (\<lambda>p. \<not> (stub_on ss moves (snd p)
      \<and> st_key after (snd p) \<in> row_keys ss dest after b \<union> stub_keys ss dest after b)) (ib_stubs b)"
    "stubs_ok (collapse_stubs ss dest moves after b)"
proof -
  let ?msgs = "map (promote ss dest moves after (stubs_of b)) (ib_msgs b)"
  let ?stubbed = "map (\<lambda>s. (st_key after s, st_reference s)) (filter (stub_on ss dest) (stubs_of b))"
  let ?rowed = "map (\<lambda>m. (sm_key after m, sm_reference m)) (filter (row_on ss dest) ?msgs)"
  have keys: "fst ` set ?stubbed = stub_keys ss dest after b" "fst ` set ?rowed = row_keys ss dest after b"
    by (simp_all add: stub_keys_def row_keys_def filter_map comp_def row_on_promote image_image)
  obtain b1 where b1: "collapse_stubs ss dest moves after b = drop_stubs ss moves after ?stubbed (drop_stubs ss moves after ?rowed b1)"
      "ib_stubs b1 = ib_stubs b"
    by (simp add: collapse_stubs_def Let_def)
  then have ok: "stubs_ok b1" using assms by (simp add: stubs_ok_def)
  show "stubs_ok (collapse_stubs ss dest moves after b)"
    unfolding b1(1) by (intro drop_stubs_stubs(2) ok)
  show "ib_stubs (collapse_stubs ss dest moves after b) = filter (\<lambda>p. \<not> (stub_on ss moves (snd p)
      \<and> st_key after (snd p) \<in> row_keys ss dest after b \<union> stub_keys ss dest after b)) (ib_stubs b)"
    unfolding b1(1) drop_stubs_stubs(1) [OF drop_stubs_stubs(2) [OF ok]] drop_stubs_stubs(1) [OF ok] keys b1(2)
    by (auto simp: stub_meets_def intro!: filter_cong)
qed


subsection \<open>Both passes\<close>

definition inbox_pass :: "bool \<Rightarrow> (mailbox \<Rightarrow> bool) \<Rightarrow> (mailbox \<Rightarrow> bool) \<Rightarrow> (mailbox \<Rightarrow> string) \<Rightarrow> inbox \<Rightarrow> inbox" where
  "inbox_pass ss dest moves after b = collapse_stubs ss dest moves after (collapse_rows ss dest moves after b)"

lemma collapse_passes: "collapse dest moves after b = inbox_pass True dest moves after (inbox_pass False dest moves after b)"
  by (simp add: collapse_def inbox_pass_def)

definition refs_ok :: "inbox \<Rightarrow> bool" where
  "refs_ok b \<longleftrightarrow> stubs_ok b \<and> distinct (map sm_reference (ib_msgs b))"

text \<open>\<open>within b b'\<close>: the rows and stubs of \<open>b'\<close> are some of those of \<open>b\<close>, in order.\<close>

definition within :: "inbox \<Rightarrow> inbox \<Rightarrow> bool" where
  "within b b' \<longleftrightarrow> subseq (map core (ib_msgs b')) (map core (ib_msgs b)) \<and> subseq (ib_stubs b') (ib_stubs b)"

lemma within_trans: "within b b' \<Longrightarrow> within b' b'' \<Longrightarrow> within b b''"
  by (auto simp: within_def elim: subseq_order.order_trans)

lemma within_map:
  assumes "within b b'" "\<And>m. f (core m) = f m"
  shows "subseq (map f (ib_msgs b')) (map f (ib_msgs b))"
proof -
  have "subseq (map f (map core (ib_msgs b'))) (map f (map core (ib_msgs b)))"
    by (rule subseq_map) (use assms(1) in \<open>simp add: within_def\<close>)
  then show ?thesis by (simp add: assms(2) comp_def)
qed

lemma within_trips: "within b b' \<Longrightarrow> subseq (trips b') (trips b)"
proof -
  assume w: "within b b'"
  have "subseq (map st_trip (stubs_of b')) (map st_trip (stubs_of b))"
    unfolding stubs_of_def by (rule subseq_map, rule subseq_map) (use w in \<open>simp add: within_def\<close>)
  then show ?thesis
    using within_map [OF w, of sm_trip] unfolding trips_def by (intro subseq_filter list_emb_append_mono) simp_all
qed

lemma within_refs: "within b b' \<Longrightarrow> refs_ok b \<Longrightarrow> distinct (map sm_reference (ib_msgs b'))"
  using within_map [of b b' sm_reference] subseq_keeps_distinct by (auto simp: refs_ok_def)

lemma collapse_rows_stubs [simp]: "ib_stubs (collapse_rows ss dest moves after b) = ib_stubs b"
  by (simp add: collapse_rows_def Let_def)

lemma pass_within:
  assumes "refs_ok b"
  shows "within b (inbox_pass ss dest moves after b)" "refs_ok (inbox_pass ss dest moves after b)"
proof -
  let ?b1 = "collapse_rows ss dest moves after b"
  have 1: "within b ?b1" using collapse_rows_core [of ss dest moves after b] by (simp add: within_def)
  have ok: "stubs_ok ?b1" using assms by (simp add: refs_ok_def stubs_ok_def)
  note msgs = collapse_stubs_msgs [OF within_refs [OF 1 assms], of ss dest moves after]
  note stubs = collapse_stubs_stubs [OF ok, of ss dest moves after]
  have "within ?b1 (inbox_pass ss dest moves after b)"
    unfolding within_def inbox_pass_def msgs stubs(1) by (simp add: subseq_map)
  then show w: "within b (inbox_pass ss dest moves after b)" by (rule within_trans [OF 1])
  show "refs_ok (inbox_pass ss dest moves after b)"
    using within_refs [OF w assms] stubs(2) by (simp add: refs_ok_def inbox_pass_def)
qed

lemma row_trips: "t \<in> set (trips b) \<longleftrightarrow> guided t \<and> (t \<in> sm_trip ` set (ib_msgs b) \<or> t \<in> st_trip ` set (stubs_of b))"
  by (auto simp: trips_def)

lemma pass_core:
  fixes b :: inbox and ss :: bool and dest moves :: "mailbox \<Rightarrow> bool" and after :: "mailbox \<Rightarrow> string"
  defines "b1 \<equiv> collapse_rows ss dest moves after b" and "b2 \<equiv> inbox_pass ss dest moves after b"
  assumes "refs_ok b"
  shows "core ` set (ib_msgs b2) = core ` {m \<in> set (ib_msgs b1). \<not> (row_on ss moves m \<and> sm_key after m \<in> stub_keys ss dest after b1)}"
    "ib_stubs b2 = filter (\<lambda>p. \<not> (stub_on ss moves (snd p)
      \<and> st_key after (snd p) \<in> row_keys ss dest after b1 \<union> stub_keys ss dest after b1)) (ib_stubs b1)"
proof -
  have w1: "within b b1" using collapse_rows_core [of ss dest moves after b] by (simp add: within_def b1_def)
  have ok: "stubs_ok b1" using assms(3) by (simp add: refs_ok_def stubs_ok_def b1_def)
  show "core ` set (ib_msgs b2) = core ` {m \<in> set (ib_msgs b1). \<not> (row_on ss moves m \<and> sm_key after m \<in> stub_keys ss dest after b1)}"
    using arg_cong [OF collapse_stubs_msgs [OF within_refs [OF w1 assms(3)], of ss dest moves after], of set]
    by (simp add: b2_def inbox_pass_def b1_def)
  show "ib_stubs b2 = filter (\<lambda>p. \<not> (stub_on ss moves (snd p)
      \<and> st_key after (snd p) \<in> row_keys ss dest after b1 \<union> stub_keys ss dest after b1)) (ib_stubs b1)"
    using collapse_stubs_stubs(1) [OF ok, of ss dest moves after] by (simp add: b2_def inbox_pass_def b1_def)
qed

text \<open>After a pass, nothing that moves on its side meets anything at the destination.\<close>

lemma pass_no_meeting:
  assumes "refs_ok b" "t \<in> set (trips (inbox_pass ss dest moves after b))" "u \<in> set (trips (inbox_pass ss dest moves after b))"
    "trip_on ss moves t" "trip_on ss dest u"
  shows "trip_key after t \<noteq> trip_key after u"
proof
  assume eq: "trip_key after t = trip_key after u"
  define b1 where "b1 = collapse_rows ss dest moves after b"
  define b2 where "b2 = inbox_pass ss dest moves after b"
  note msgs2 = pass_core(1) [OF assms(1), of ss dest moves after, folded b1_def b2_def]
    and stubs2 = pass_core(2) [OF assms(1), of ss dest moves after, folded b1_def b2_def]
  have rows: "\<exists>x\<in>set (ib_msgs b1). sm_trip x = v \<and> \<not> (row_on ss moves x \<and> sm_key after x \<in> stub_keys ss dest after b1)"
    if "v \<in> sm_trip ` set (ib_msgs b2)" for v
  proof -
    obtain m where "m \<in> set (ib_msgs b2)" "v = sm_trip m" using \<open>v \<in> sm_trip ` set (ib_msgs b2)\<close> by auto
    then have "core m \<in> core ` {m \<in> set (ib_msgs b1). \<not> (row_on ss moves m \<and> sm_key after m \<in> stub_keys ss dest after b1)}"
      using msgs2 by blast
    then obtain x where x: "core x = core m" "x \<in> set (ib_msgs b1)"
        "\<not> (row_on ss moves x \<and> sm_key after x \<in> stub_keys ss dest after b1)" by auto
    then show ?thesis using core_cong [OF x(1)] \<open>v = sm_trip m\<close> by (intro bexI [of _ x]) simp_all
  qed
  have u_key: "trip_key after u \<in> row_keys ss dest after b1 \<union> stub_keys ss dest after b1"
  proof (cases "u \<in> sm_trip ` set (ib_msgs b2)")
    case True
    then obtain x where "x \<in> set (ib_msgs b1)" "sm_trip x = u" using rows by blast
    then have "trip_key after u \<in> row_keys ss dest after b1"
      unfolding row_keys_def using assms(5) by (intro image_eqI [of _ _ x]) (auto simp: trip_simps)
    then show ?thesis by simp
  next
    case False
    then have "u \<in> st_trip ` set (stubs_of b2)" using assms(3) by (simp add: row_trips b2_def)
    then obtain s where "s \<in> set (stubs_of b1)" "st_trip s = u" unfolding stubs_of_def stubs2 by auto
    then have "trip_key after u \<in> stub_keys ss dest after b1"
      unfolding stub_keys_def using assms(5) by (intro image_eqI [of _ _ s]) (auto simp: trip_simps)
    then show ?thesis by simp
  qed
  show False
  proof (cases "t \<in> sm_trip ` set (ib_msgs b2)")
    case True
    then obtain x where x: "x \<in> set (ib_msgs b1)" "sm_trip x = t" "sm_key after x \<notin> stub_keys ss dest after b1"
      using rows [OF True] assms(4) by (auto simp: trip_simps)
    then have "trip_key after u \<in> row_keys ss dest after b1" using u_key eq by (auto simp: trip_simps)
    then obtain y where y: "y \<in> set (ib_msgs b1)" "row_on ss dest y" "sm_key after y = sm_key after x"
      using eq x(2) by (auto simp: row_keys_def trip_simps)
    have "core y \<in> core ` set (ib_msgs b)" "core x \<in> core ` {m \<in> set (ib_msgs b). \<not> (row_on ss moves m
        \<and> (\<exists>k\<in>set (ib_msgs b). row_on ss dest k \<and> sm_key after k = sm_key after m))}"
      using collapse_rows_core [of ss dest moves after b] x(1) y(1) unfolding b1_def by blast+
    then obtain x' y' where *: "y' \<in> set (ib_msgs b)" "core y' = core y" "core x' = core x"
        "\<not> (row_on ss moves x' \<and> (\<exists>k\<in>set (ib_msgs b). row_on ss dest k \<and> sm_key after k = sm_key after x'))"
      by auto
    have "row_on ss dest y'" "sm_key after y' = sm_key after x'" "row_on ss moves x'"
      using core_cong [OF *(2)] core_cong [OF *(3)] y(2,3) x(2) assms(4) by (simp_all add: trip_simps)
    with *(1,4) show False by blast
  next
    case False
    then have "t \<in> st_trip ` set (stubs_of b2)" using assms(2) by (simp add: row_trips b2_def)
    then show False using u_key eq assms(4) unfolding stubs_of_def stubs2 by (auto simp: trip_simps)
  qed
qed

text \<open>What a pass removes is met by something at the destination.\<close>

lemma keys_from_trips:
  assumes "k \<in> row_keys ss dest after b \<union> stub_keys ss dest after b"
  obtains u where "u \<in> set (trips b)" "trip_on ss dest u" "trip_key after u = k"
proof -
  consider m where "m \<in> set (ib_msgs b)" "row_on ss dest m" "k = sm_key after m"
    | s where "s \<in> set (stubs_of b)" "stub_on ss dest s" "k = st_key after s"
    using assms by (auto simp: row_keys_def stub_keys_def)
  then show thesis
  proof cases
    case 1
    then show thesis by (intro that [of "sm_trip m"]) (auto simp: trip_simps row_trips trip_on_def)
  next
    case 2
    then show thesis by (intro that [of "st_trip s"]) (auto simp: trip_simps row_trips trip_on_def)
  qed
qed

lemma pass_trips:
  assumes "refs_ok b" "t \<in> set (trips b)"
  shows "t \<in> set (trips (inbox_pass ss dest moves after b))
    \<or> (trip_on ss moves t \<and> (\<exists>u\<in>set (trips b). trip_on ss dest u \<and> trip_key after u = trip_key after t))"
proof (cases "trip_on ss moves t \<and> (\<exists>u\<in>set (trips b). trip_on ss dest u \<and> trip_key after u = trip_key after t)")
  case False
  define b1 where "b1 = collapse_rows ss dest moves after b"
  define b2 where "b2 = inbox_pass ss dest moves after b"
  note core2 = pass_core [OF assms(1), of ss dest moves after, folded b1_def b2_def]
  have w1: "within b b1" using collapse_rows_core [of ss dest moves after b] by (simp add: within_def b1_def)
  have "trip_key after t \<notin> row_keys ss dest after b1 \<union> stub_keys ss dest after b1" if "trip_on ss moves t"
    using False that subseq_set [OF within_trips [OF w1]] by (meson keys_from_trips subsetD)
  then have no1: "\<not> (trip_on ss moves t \<and> trip_key after t \<in> row_keys ss dest after b1 \<union> stub_keys ss dest after b1)" by blast
  have g: "guided t" using assms(2) by (simp add: row_trips)
  show ?thesis
  proof (cases "t \<in> sm_trip ` set (ib_msgs b)")
    case True
    then obtain m where m: "m \<in> set (ib_msgs b)" "sm_trip m = t" by auto
    have "\<not> (row_on ss moves m \<and> (\<exists>k\<in>set (ib_msgs b). row_on ss dest k \<and> sm_key after k = sm_key after m))"
      using False m by (auto simp: trip_simps row_trips trip_on_def)
    then have "core m \<in> core ` set (ib_msgs b1)"
      using collapse_rows_core [of ss dest moves after b] m(1) unfolding b1_def by blast
    then obtain x where x: "x \<in> set (ib_msgs b1)" "core x = core m" by auto
    have t: "sm_trip x = t" using core_cong [OF x(2)] m(2) by simp
    then have "core x \<in> core ` set (ib_msgs b2)" unfolding core2(1) using no1 x(1) by (auto simp: trip_simps)
    then obtain y where "y \<in> set (ib_msgs b2)" "core y = core x" by auto
    then have "t \<in> sm_trip ` set (ib_msgs b2)" using core_cong [of y x] t by (intro image_eqI [of _ _ y]) simp_all
    then show ?thesis using g by (simp add: row_trips b2_def)
  next
    case False
    then have "t \<in> st_trip ` set (stubs_of b)" using assms(2) by (simp add: row_trips)
    then obtain p where p: "p \<in> set (ib_stubs b)" "st_trip (snd p) = t" by (auto simp: stubs_of_def)
    have "p \<in> set (ib_stubs b2)" unfolding core2(2) using p no1 by (auto simp: trip_simps b1_def)
    then have "t \<in> st_trip ` set (stubs_of b2)" using p(2) by (force simp: stubs_of_def)
    then show ?thesis using g by (simp add: row_trips b2_def)
  qed
qed blast

lemma pass_keeps_keys:
  assumes "refs_ok b" "\<And>m. \<not> (moves m \<and> dest m)"
  shows "trip_key after ` set (trips b) \<subseteq> trip_key after ` set (trips (inbox_pass ss dest moves after b))"
proof
  fix k assume "k \<in> trip_key after ` set (trips b)"
  then obtain t where t: "t \<in> set (trips b)" "k = trip_key after t" by auto
  have excl: "\<not> (trip_on ss moves u \<and> trip_on ss dest u)" for u
    using assms(2) by (auto simp: trip_on_def side_def split: option.splits if_splits)
  show "k \<in> trip_key after ` set (trips (inbox_pass ss dest moves after b))"
  proof (cases "t \<in> set (trips (inbox_pass ss dest moves after b))")
    case False
    then obtain u where u: "u \<in> set (trips b)" "trip_on ss dest u" "trip_key after u = trip_key after t"
      using pass_trips [OF assms(1) t(1), of ss dest moves after] by blast
    then have "u \<in> set (trips (inbox_pass ss dest moves after b))"
      using pass_trips [OF assms(1) u(1), of ss dest moves after] excl by blast
    then show ?thesis using u(3) t(2) by (metis imageI)
  qed (use t in simp)
qed

lemma collapse_keeps_keys:
  assumes "refs_ok b" "\<And>m. \<not> (moves m \<and> dest m)"
  shows "trip_key after ` set (trips b) \<subseteq> trip_key after ` set (trips (collapse dest moves after b))"
  unfolding collapse_passes
  using pass_keeps_keys [OF assms, of after False] pass_keeps_keys [OF pass_within(2) [OF assms(1)] assms(2)]
  by (meson subset_trans)

lemma collapse_within:
  assumes "refs_ok b"
  shows "within b (collapse dest moves after b)" "refs_ok (collapse dest moves after b)"
  unfolding collapse_passes
  by (rule within_trans [OF pass_within(1) [OF assms] pass_within(1) [OF pass_within(2) [OF assms]]],
      rule pass_within(2) [OF pass_within(2) [OF assms]])

lemma collapse_no_meeting:
  assumes "refs_ok b" "t \<in> set (trips (collapse dest moves after b))" "u \<in> set (trips (collapse dest moves after b))"
    "trip_on ss moves t" "trip_on ss dest u"
  shows "trip_key after t \<noteq> trip_key after u"
proof (cases ss)
  case True
  show ?thesis
    by (rule pass_no_meeting [OF pass_within(2) [OF assms(1)]])
      (use assms(2-) True in \<open>simp_all add: collapse_passes\<close>)
next
  case False
  have "set (trips (collapse dest moves after b)) \<subseteq> set (trips (inbox_pass False dest moves after b))"
    unfolding collapse_passes by (rule subseq_set [OF within_trips [OF pass_within(1) [OF pass_within(2) [OF assms(1)]]]])
  then have "t \<in> set (trips (inbox_pass ss dest moves after b))" "u \<in> set (trips (inbox_pass ss dest moves after b))"
    using assms(2,3) False by auto
  then show ?thesis by (rule pass_no_meeting [OF assms(1) _ _ assms(4,5)])
qed


subsection \<open>A merge keeps guids apart and loses none\<close>

definition plain_trip :: "trip \<Rightarrow> bool" where
  "plain_trip t \<longleftrightarrow> plain (fst t) \<and> (case fst (snd t) of Some m \<Rightarrow> plain m | None \<Rightarrow> True)"

definition stamp_trip :: "(mailbox \<Rightarrow> bool) \<Rightarrow> fp \<Rightarrow> trip \<Rightarrow> trip" where
  "stamp_trip moves f t = (stamp moves f (fst t), map_option (stamp moves f) (fst (snd t)), snd (snd t))"

definition moved_key :: "mkey \<Rightarrow> mkey \<Rightarrow> trip \<Rightarrow> mkey \<times> mkey option \<times> message_guid option" where
  "moved_key k k' t = (if mkey (fst t) = k then k' else mkey (fst t),
     map_option (\<lambda>m. if mkey m = k then k' else mkey m) (fst (snd t)), snd (snd t))"

lemma index_key_mkey: "plain m \<Longrightarrow> plain m' \<Longrightarrow> index_key m = index_key m' \<longleftrightarrow> mkey m = mkey m'"
  using hex_str_not_login hex_str_not_login [THEN not_sym]
  by (auto simp: plain_def index_key_def mkey_def hex_str_inject split: option.splits)

lemma index_key_nonempty: "plain m \<Longrightarrow> index_key m \<noteq> []"
  using length_hex_str [of "the (mb_fp m)"] by (cases "mb_fp m") (auto simp: plain_def index_key_def)

lemma hex_index: "length f = 32 \<Longrightarrow> plain m \<Longrightarrow> index_key m = hex_str f \<longleftrightarrow> mkey m = ByFp f"
  using index_key_mkey [of m "mailbox_identified [] f"]
  by (simp add: plain_def mailbox_identified_def index_key_def mkey_def)

lemma key_moved_eq:
  assumes "\<And>m. moves m \<longleftrightarrow> mkey m = k" "length f = 32" "plain x" "plain y"
  shows "key_moved moves f x = key_moved moves f y \<longleftrightarrow>
    (if mkey x = k then ByFp f else mkey x) = (if mkey y = k then ByFp f else mkey y)"
  using hex_index [OF assms(2,3)] hex_index [OF assms(2,4)] index_key_mkey [OF assms(3,4)]
  by (cases "mkey x = k"; cases "mkey y = k") (simp_all add: key_moved_def assms(1) eq_commute)

lemma key_moved_nonempty: "length f = 32 \<Longrightarrow> plain x \<Longrightarrow> key_moved moves f x \<noteq> []"
  using index_key_nonempty [of x] length_hex_str [of f] by (auto simp: key_moved_def)

lemma trip_key_moved:
  assumes "\<And>m. moves m \<longleftrightarrow> mkey m = k" "length f = 32" "plain_trip t" "plain_trip u"
  shows "trip_key (key_moved moves f) t = trip_key (key_moved moves f) u \<longleftrightarrow> moved_key k (ByFp f) t = moved_key k (ByFp f) u"
proof -
  note eq = key_moved_eq [OF assms(1,2)] and ne = key_moved_nonempty [OF assms(2), of _ moves]
  have "(case fst (snd t) of Some m \<Rightarrow> key_moved moves f m | None \<Rightarrow> []) = (case fst (snd u) of Some m \<Rightarrow> key_moved moves f m | None \<Rightarrow> [])
      \<longleftrightarrow> map_option (\<lambda>m. if mkey m = k then ByFp f else mkey m) (fst (snd t)) = map_option (\<lambda>m. if mkey m = k then ByFp f else mkey m) (fst (snd u))"
    using assms(3,4) eq ne by (cases "fst (snd t)"; cases "fst (snd u)") (auto simp: plain_trip_def dest: not_sym)
  moreover have "key_moved moves f (fst t) = key_moved moves f (fst u) \<longleftrightarrow>
      (if mkey (fst t) = k then ByFp f else mkey (fst t)) = (if mkey (fst u) = k then ByFp f else mkey (fst u))"
    using assms(3,4) by (intro eq) (simp_all add: plain_trip_def)
  ultimately show ?thesis by (simp add: trip_key_def merged_key_def moved_key_def)
qed

definition guids_ok :: "inbox \<Rightarrow> bool" where
  "guids_ok b \<longleftrightarrow> distinct (map guid_key_of (trips b))"

definition plain_inbox :: "inbox \<Rightarrow> bool" where
  "plain_inbox b \<longleftrightarrow> (\<forall>m\<in>set (ib_msgs b). plain_trip (sm_trip m)) \<and> (\<forall>s\<in>set (stubs_of b). plain_trip (st_trip s))"

lemma plain_trips: "plain_inbox b \<Longrightarrow> t \<in> set (trips b) \<Longrightarrow> plain_trip t"
  by (auto simp: plain_inbox_def row_trips)

text \<open>Two trips that become the same differed on one side, where one moved and the other was at the destination.\<close>

lemma moved_key_sides:
  assumes "moved_key k k' t = moved_key k k' u" "guid_key_of t \<noteq> guid_key_of u" "guided t" "guided u"
  obtains ss v w where "(v, w) \<in> {(t, u), (u, t)}" "trip_on ss (\<lambda>m. mkey m = k) v" "trip_on ss (\<lambda>m. mkey m = k') w"
proof (cases "mkey (fst t) = mkey (fst u)")
  case False
  then have "mkey (fst t) = k \<and> mkey (fst u) = k' \<or> mkey (fst u) = k \<and> mkey (fst t) = k'"
    using assms(1) by (auto simp: moved_key_def split: if_splits)
  then show thesis using that [of t u False] that [of u t False] assms(3,4) by (auto simp: trip_on_def side_def)
next
  case True
  then have "map_option mkey (fst (snd t)) \<noteq> map_option mkey (fst (snd u))"
    using assms(1,2) by (auto simp: moved_key_def guid_key_of_def)
  then obtain x y where xy: "fst (snd t) = Some x" "fst (snd u) = Some y" "mkey x = k \<and> mkey y = k' \<or> mkey y = k \<and> mkey x = k'"
    using assms(1) by (cases "fst (snd t)"; cases "fst (snd u)") (auto simp: moved_key_def split: if_splits)
  then show thesis using that [of t u True] that [of u t True] assms(3,4) by (auto simp: trip_on_def side_def)
qed

lemma merge_distinct:
  assumes "refs_ok b" "guids_ok b" "plain_inbox b" "\<And>m. moves m \<longleftrightarrow> mkey m = k" "\<And>m. dest m \<longleftrightarrow> mkey m = ByFp f" "length f = 32"
  shows "distinct (map (moved_key k (ByFp f)) (trips (collapse dest moves (key_moved moves f) b)))"
proof -
  define b' where "b' = collapse dest moves (key_moved moves f) b"
  have sub: "subseq (trips b') (trips b)" unfolding b'_def by (rule within_trips [OF collapse_within(1) [OF assms(1)]])
  have d: "distinct (map guid_key_of (trips b'))"
    using assms(2) unfolding guids_ok_def by (rule subseq_keeps_distinct [OF subseq_map [OF sub]])
  have fns: "(\<lambda>m. mkey m = k) = moves" "(\<lambda>m. mkey m = ByFp f) = dest" using assms(4,5) by auto
  have "inj_on (moved_key k (ByFp f)) (set (trips b'))"
  proof (rule inj_onI, rule ccontr)
    fix t u assume *: "t \<in> set (trips b')" "u \<in> set (trips b')" "moved_key k (ByFp f) t = moved_key k (ByFp f) u" "t \<noteq> u"
    have g: "guid_key_of t \<noteq> guid_key_of u" using d * by (auto simp: distinct_map dest: inj_onD)
    have "guided t" "guided u" using * by (simp_all add: row_trips)
    then obtain ss v w where vw: "(v, w) \<in> {(t, u), (u, t)}" "trip_on ss moves v" "trip_on ss dest w"
      using moved_key_sides [OF *(3) g] unfolding fns by metis
    have "trip_key (key_moved moves f) t = trip_key (key_moved moves f) u"
      using trip_key_moved [OF assms(4,6)] plain_trips [OF assms(3)] *(1-3) subseq_set [OF sub] by blast
    then show False
      using collapse_no_meeting [OF assms(1), of v dest moves "key_moved moves f" w ss] vw *(1,2) by (auto simp: b'_def)
  qed
  moreover have "distinct (trips b')" using d by (simp add: distinct_map)
  ultimately show ?thesis by (simp add: distinct_map b'_def)
qed

end
