(* ===== verification/Inbox_Runs.thy ===== *)
theory Inbox_Runs
  imports Inbox_Safety
begin

section \<open>Runs of the inbox\<close>

text \<open>
  The invariant \<open>inbox_inv\<close>: references name one row or stub each, the rows and stubs that carry a guid have
  different recipients, senders or guids, and mailboxes are well formed.  Every operation keeps it, which
  \<open>monotone_steps\<close> lifts to runs, with the gate's answers changing as they may between steps.
\<close>


subsection \<open>The invariant\<close>

definition inbox_inv :: "inbox \<Rightarrow> bool" where
  "inbox_inv b \<longleftrightarrow> stubs_ok b \<and> distinct (map sm_reference (ib_msgs b) @ map fst (ib_stubs b)) \<and> guids_ok b \<and> plain_inbox b"

text \<open>The part of a row the invariant reads.\<close>

definition sig :: "stored_message \<Rightarrow> message_ref \<times> trip" where
  "sig m = (sm_reference m, sm_trip m)"

definition less_of :: "inbox \<Rightarrow> inbox \<Rightarrow> bool" where
  "less_of b b' \<longleftrightarrow> subseq (map sig (ib_msgs b')) (map sig (ib_msgs b)) \<and> subseq (ib_stubs b') (ib_stubs b)"

lemma less_of_trans: "less_of b b' \<Longrightarrow> less_of b' b'' \<Longrightarrow> less_of b b''"
  by (auto simp: less_of_def elim: subseq_order.order_trans)

lemma less_of_same: "map sig (ib_msgs b') = map sig (ib_msgs b) \<Longrightarrow> ib_stubs b' = ib_stubs b \<Longrightarrow> less_of b b'"
  by (simp add: less_of_def)

lemma less_of_map:
  assumes "less_of b b'" "\<And>m. f m = g (sig m)"
  shows "subseq (map f (ib_msgs b')) (map f (ib_msgs b))"
proof -
  have "subseq (map g (map sig (ib_msgs b'))) (map g (map sig (ib_msgs b)))"
    by (rule subseq_map) (use assms(1) in \<open>simp add: less_of_def\<close>)
  moreover have "f = g \<circ> sig" using assms(2) by auto
  ultimately show ?thesis by simp
qed

lemma sorted_wrt_subseq: "subseq xs ys \<Longrightarrow> sorted_wrt R ys \<Longrightarrow> sorted_wrt R xs"
  by (induction rule: list_emb.induct) (auto dest: subseq_set)

lemma less_of_trips: "less_of b b' \<Longrightarrow> subseq (trips b') (trips b)"
proof -
  assume l: "less_of b b'"
  have "subseq (map st_trip (stubs_of b')) (map st_trip (stubs_of b))"
    unfolding stubs_of_def by (rule subseq_map, rule subseq_map) (use l in \<open>simp add: less_of_def\<close>)
  then show ?thesis
    using less_of_map [OF l, of sm_trip snd] unfolding trips_def
    by (intro subseq_filter list_emb_append_mono) (simp_all add: sig_def)
qed

lemma inv_less:
  assumes "inbox_inv b" "less_of b b'"
  shows "inbox_inv b'"
proof -
  have stubs: "subseq (ib_stubs b') (ib_stubs b)" using assms(2) by (simp add: less_of_def)
  have refs: "subseq (map sm_reference (ib_msgs b')) (map sm_reference (ib_msgs b))"
    by (rule less_of_map [OF assms(2), of _ fst]) (simp add: sig_def)
  have keys: "subseq (map fst (ib_stubs b')) (map fst (ib_stubs b))" by (rule subseq_map [OF stubs])
  have "om_wf (ib_stubs b')"
    using sorted_wrt_subseq [OF keys] assms(1) by (simp add: inbox_inv_def stubs_ok_def om_wf_def)
  then have 1: "stubs_ok b'" using assms(1) subseq_set [OF stubs] by (auto simp: inbox_inv_def stubs_ok_def)
  have 2: "distinct (map sm_reference (ib_msgs b') @ map fst (ib_stubs b'))"
    using subseq_keeps_distinct [OF list_emb_append_mono [OF refs keys]] assms(1) by (simp add: inbox_inv_def)
  have 3: "guids_ok b'"
    using subseq_keeps_distinct [OF subseq_map [OF less_of_trips [OF assms(2)], of guid_key_of]] assms(1)
    by (simp add: inbox_inv_def guids_ok_def)
  have "sm_trip ` set (ib_msgs b') \<subseteq> sm_trip ` set (ib_msgs b)"
    using subseq_set [OF less_of_map [OF assms(2), of sm_trip snd]] by (simp add: sig_def)
  moreover have "set (stubs_of b') \<subseteq> set (stubs_of b)" using subseq_set [OF stubs] by (auto simp: stubs_of_def)
  ultimately have "plain_inbox b'" using assms(1) by (auto simp: inbox_inv_def plain_inbox_def)
  then show ?thesis using 1 2 3 by (simp add: inbox_inv_def)
qed

lemma inv_refs: "inbox_inv b \<Longrightarrow> refs_ok b"
  by (simp add: inbox_inv_def refs_ok_def)


subsection \<open>Writes that keep or remove rows\<close>

lemma sig_change:
  "sig (m\<lparr>sm_delivered_at := d\<rparr>) = sig m" "sig (m\<lparr>sm_read_at := r\<rparr>) = sig m" "sig (m\<lparr>sm_friendship := x\<rparr>) = sig m"
  "sig (m\<lparr>sm_cursor := c\<rparr>) = sig m" "sig (core m) = sig m"
  by (simp_all add: sig_def sm_trip_def core_def)

lemma map_sig_same: "(\<And>m. sig (f m) = sig m) \<Longrightarrow> map sig (map f ms) = map sig ms"
  by simp

lemma less_of_filter: "less_of b (b\<lparr>ib_msgs := filter P (ib_msgs b)\<rparr>)"
  by (simp add: less_of_def subseq_map)

lemma forget_removed_frame [simp]:
  "ib_msgs (forget_removed b) = ib_msgs b" "ib_stubs (forget_removed b) = ib_stubs b"
  "ib_cursors (forget_removed b) = ib_cursors b" "ib_next_id (forget_removed b) = ib_next_id b"
  by (simp_all add: forget_removed_def Let_def)

lemma less_of_forget: "less_of b b' \<Longrightarrow> less_of b (forget_removed b')"
  by (simp add: less_of_def)

lemma to_mail_sig: "map sig (snd (snd (to_mail_rows P as ms))) = map sig ms"
  by (induction P as ms rule: to_mail_rows.induct) (auto simp: split_beta Let_def sig_change)

lemma restamp_less: "less_of b (snd (ib_restamp merged b))"
proof -
  have "less_of b (snd (fold (\<lambda>(lost, kept) (n, b).
        let hit = (\<lambda>m. sm_friendship m = Some (SentRelation lost))
        in (n + length (filter hit (ib_msgs b)),
            b\<lparr>ib_msgs := map (\<lambda>m. if hit m then m\<lparr>sm_friendship := Some (SentRelation kept)\<rparr> else m) (ib_msgs b)\<rparr>))
       merged (n, b)))" for n
  proof (induction merged arbitrary: n b)
    case Nil
    show ?case by (simp add: less_of_same)
  next
    case (Cons p merged)
    obtain lost kept where p: "p = (lost, kept)" by (cases p)
    let ?f = "\<lambda>m. if sm_friendship m = Some (SentRelation lost) then m\<lparr>sm_friendship := Some (SentRelation kept)\<rparr> else m"
    have "less_of b (b\<lparr>ib_msgs := map ?f (ib_msgs b)\<rparr>)" by (rule less_of_same) (simp_all add: sig_change)
    then show ?case using Cons.IH less_of_trans by (fastforce simp: p Let_def)
  qed
  then show ?thesis by (simp add: ib_restamp_def)
qed

lemma purge_less: "less_of b (snd (ib_purge k b))"
  by (simp add: ib_purge_def Let_def less_of_def om_retain_def subseq_map)

lemma plain_writes_less:
  "less_of b (mark_handed ids b)" "less_of b (snd (receipt_told i b))" "less_of b (mark_delivered ids at what b)"
  "less_of b (snd (mark_read g to up at b))" "less_of b (unlinked login f b)"
  "less_of b (snd (release_requests to from on since b))" "less_of b (snd (requests_to_mail to from a since b))"
  "less_of b (snd (delete_requests_from to from addr b))" "less_of b (snd (delete_requests to from b))"
  "less_of b (snd (react_message act b))" "less_of b (snd (forget_message_reactions who since b))"
  "less_of b (snd (rekey_message_reactions from to b))"
proof -
  show "less_of b (snd (delete_requests_from to from addr b))" "less_of b (snd (delete_requests to from b))"
    by (simp_all add: delete_requests_from_def delete_requests_def retain_msgs_def Let_def less_of_def subseq_map)
  show "less_of b (snd (requests_to_mail to from a since b))"
    by (rule less_of_same) (simp_all add: requests_to_mail_def split_beta to_mail_sig)
qed (rule less_of_same; simp add: mark_handed_def receipt_told_def mark_delivered_def mark_one_def mark_read_def
    unlinked_def release_requests_def react_message_def applied_def forget_message_reactions_def
    rekey_message_reactions_def sig_change Let_def split: option.split)+


subsection \<open>Storing\<close>

lemma of_pair_keys: "of_pair r s to from \<longleftrightarrow> mkey r = mkey to \<and> map_option mkey s = map_option mkey from"
  by (cases s; cases "from") (auto simp: of_pair_def is_mb_mkey)

text \<open>\<open>find_guid\<close> finds exactly what has the guid's key.\<close>

lemma find_guid_None:
  "find_guid_in b to from guid = None \<longleftrightarrow> (mkey to, map_option mkey from, Some guid) \<notin> guid_key_of ` set (trips b)"
proof -
  let ?k = "(mkey to, map_option mkey from, Some guid)"
  have m: "sm_guid m = Some guid \<and> of_pair (sm_recipient m) (sm_sender m) to from \<longleftrightarrow> guid_key_of (sm_trip m) = ?k" for m
    by (auto simp: of_pair_keys guid_key_of_def sm_trip_def)
  have s: "st_guid s = Some guid \<and> of_pair (st_recipient s) (st_sender s) to from \<longleftrightarrow> guid_key_of (st_trip s) = ?k" for s
    by (auto simp: of_pair_keys guid_key_of_def st_trip_def)
  have "find_guid_in b to from guid = None \<longleftrightarrow>
      find (\<lambda>m. guid_key_of (sm_trip m) = ?k) (ib_msgs b) = None \<and> find (\<lambda>s. guid_key_of (st_trip s) = ?k) (stubs_of b) = None"
    unfolding find_guid_in_def m s by (simp split: option.split)
  also have "\<dots> \<longleftrightarrow> ?k \<notin> (guid_key_of \<circ> sm_trip) ` set (ib_msgs b) \<and> ?k \<notin> (guid_key_of \<circ> st_trip) ` set (stubs_of b)"
    by (simp only: find_None_iff image_iff comp_apply) metis
  also have "\<dots> \<longleftrightarrow> ?k \<notin> guid_key_of ` (sm_trip ` set (ib_msgs b) \<union> st_trip ` set (stubs_of b))"
    by (simp only: image_Un image_comp Un_iff de_Morgan_disj)
  also have "\<dots> \<longleftrightarrow> ?k \<notin> guid_key_of ` set (trips b)"
  proof -
    have "guided t" if "guid_key_of t = ?k" for t using that by (simp add: guid_key_of_def guided_def)
    then have "?k \<in> guid_key_of ` A \<longleftrightarrow> ?k \<in> guid_key_of ` {t \<in> A. guided t}" for A by (auto simp: image_iff) metis+
    moreover have "set (trips b) = {t \<in> sm_trip ` set (ib_msgs b) \<union> st_trip ` set (stubs_of b). guided t}"
      by (auto simp: trips_def)
    ultimately show ?thesis by (simp only:)
  qed
  finally show ?thesis .
qed

definition ib_refs :: "inbox \<Rightarrow> message_ref set" where
  "ib_refs b = set (map sm_reference (ib_msgs b)) \<union> set (map fst (ib_stubs b))"

lemma push_cases:
  assumes "push g m cap rnd b = (res, b')"
  obtains (same) "b' = b"
    | (stored) r c where "rnd = Some r" "Option.bind (nm_guid m) (find_guid_in b (nm_recipient m) (nm_sender m)) = None"
        "nm_kind m = MkMessage \<Longrightarrow> pending_count g b (nm_recipient m) < cap"
        "b' = snd (push_row m r b)" "res = Inr (fst (push_row m r b))"
        "ib_msgs b' = ib_msgs b @ [stored_of m (ib_next_id b + 1) r c]" "ib_stubs b' = ib_stubs b"
  using assms
  by (auto simp: push_def push_fresh_def push_row_def Let_def not_le split: option.splits Inbox.found.splits if_splits)

lemma push_inv:
  assumes "inbox_inv b" "plain_trip (nm_recipient m, nm_sender m, nm_guid m)" "\<And>r. rnd = Some r \<Longrightarrow> r \<notin> ib_refs b"
  shows "inbox_inv (snd (push g m cap rnd b))"
proof -
  obtain res b' where p: "push g m cap rnd b = (res, b')" by fastforce
  from p have "inbox_inv b'"
  proof (cases rule: push_cases)
    case (stored r c)
    let ?x = "stored_of m (ib_next_id b + 1) r c"
    let ?t = "(nm_recipient m, nm_sender m, nm_guid m)"
    have x: "sm_trip ?x = ?t" "sm_reference ?x = r" by (simp_all add: stored_of_def sm_trip_def)
    have "mset (trips b') = mset (trips b) + mset (filter guided [?t])"
      by (simp add: trips_def stored(6,7) stubs_of_def x)
    then have perm: "mset (map guid_key_of (trips b')) = mset (map guid_key_of (trips b @ filter guided [?t]))" by simp
    have "guid_key_of ?t \<notin> guid_key_of ` set (trips b)" if "guided ?t"
    proof -
      obtain gd where gd: "nm_guid m = Some gd" using \<open>guided ?t\<close> by (auto simp: guided_def)
      then have "find_guid_in b (nm_recipient m) (nm_sender m) gd = None" using stored(2) by simp
      then have "(mkey (nm_recipient m), map_option mkey (nm_sender m), Some gd) \<notin> guid_key_of ` set (trips b)"
        by (simp only: find_guid_None simp_thms)
      moreover have "guid_key_of ?t = (mkey (nm_recipient m), map_option mkey (nm_sender m), Some gd)"
        by (simp add: guid_key_of_def gd)
      ultimately show ?thesis by metis
    qed
    then have "distinct (map guid_key_of (trips b @ filter guided [?t]))"
      using assms(1) by (auto simp: inbox_inv_def guids_ok_def)
    then have "guids_ok b'" unfolding guids_ok_def using mset_eq_imp_distinct_iff [OF perm] by simp
    moreover have "distinct (map sm_reference (ib_msgs b') @ map fst (ib_stubs b'))"
      using assms(1,3) stored(1) by (auto simp: stored(6,7) x inbox_inv_def ib_refs_def)
    moreover have "plain_inbox b'" "stubs_ok b'"
      using assms(1,2) by (auto simp: inbox_inv_def plain_inbox_def stubs_ok_def stored(6,7) stubs_of_def x)
    ultimately show ?thesis by (simp add: inbox_inv_def)
  qed (use assms(1) in simp)
  then show ?thesis by (simp add: p)
qed


subsection \<open>Merging\<close>

lemma guid_key_stamp:
  assumes "\<And>m. moves m \<longleftrightarrow> mkey m = k"
  shows "guid_key_of (stamp_trip moves f t) = moved_key k (ByFp f) t"
proof -
  have "mkey (stamp moves f m) = (if mkey m = k then ByFp f else mkey m)" for m
    using assms [of m] by (auto simp: stamp_def mkey_def)
  then show ?thesis by (simp add: guid_key_of_def stamp_trip_def moved_key_def option.map_comp comp_def)
qed

lemma stamp_all_trips: "trips (snd (stamp_all moves f b)) = map (stamp_trip moves f) (trips b)"
proof -
  have "sm_trip (stamp_msg moves f m) = stamp_trip moves f (sm_trip m)" "st_trip (stamp_stub moves f s) = stamp_trip moves f (st_trip s)" for m s
    by (simp_all add: sm_trip_def stamp_msg_def st_trip_def stamp_stub_def stamp_trip_def)
  moreover have "guided (stamp_trip moves f t) = guided t" for t by (simp add: guided_def stamp_trip_def)
  ultimately show ?thesis
    by (simp add: trips_def stamp_all_def stubs_of_def om_map_def filter_map comp_def split_beta)
qed

lemma plain_stamp: "length f = 32 \<Longrightarrow> plain m \<Longrightarrow> plain (stamp moves f m)"
  by (simp add: plain_def stamp_def)

lemma plain_trip_stamp: "length f = 32 \<Longrightarrow> plain_trip t \<Longrightarrow> plain_trip (stamp_trip moves f t)"
  by (auto simp: plain_trip_def stamp_trip_def plain_stamp split: option.splits)

lemma stamp_all_inv:
  assumes "inbox_inv b" "length f = 32" "distinct (map (guid_key_of \<circ> stamp_trip moves f) (trips b))"
  shows "inbox_inv (snd (stamp_all moves f b))"
proof -
  have msgs: "ib_msgs (snd (stamp_all moves f b)) = map (stamp_msg moves f) (ib_msgs b)"
    and stubs: "ib_stubs (snd (stamp_all moves f b)) = om_map (stamp_stub moves f) (ib_stubs b)"
    by (simp_all add: stamp_all_def)
  have "guids_ok (snd (stamp_all moves f b))" using assms(3) by (simp add: guids_ok_def stamp_all_trips comp_def)
  moreover have "stubs_ok (snd (stamp_all moves f b))"
    using assms(1) by (auto simp: inbox_inv_def stubs_ok_def stubs om_map_def stamp_stub_def om_wf_def comp_def split_beta)
  moreover have "distinct (map sm_reference (ib_msgs (snd (stamp_all moves f b))) @ map fst (ib_stubs (snd (stamp_all moves f b))))"
    using assms(1) by (simp add: inbox_inv_def msgs stubs stamp_msg_def comp_def)
  moreover have "plain_inbox (snd (stamp_all moves f b))"
    using assms(1,2) plain_trip_stamp [OF assms(2)]
    by (fastforce simp: inbox_inv_def plain_inbox_def msgs stubs stubs_of_def om_map_def sm_trip_def st_trip_def stamp_msg_def stamp_stub_def stamp_trip_def)
  ultimately show ?thesis by (simp add: inbox_inv_def)
qed

lemma renumber_sig: "map sig (ib_msgs (renumber moves from into b)) = map sig (ib_msgs b)" "ib_stubs (renumber moves from into b) = ib_stubs b"
proof -
  have "map sig (renumber_msgs moves past ms) = map sig (map (\<lambda>i. ms ! i) [0..<length ms])" for past ms
    unfolding renumber_msgs_def Let_def by (simp add: sig_change split: option.split)
  then have "map sig (renumber_msgs moves past ms) = map sig ms" for past ms by (simp only: map_nth)
  then show "map sig (ib_msgs (renumber moves from into b)) = map sig (ib_msgs b)" "ib_stubs (renumber moves from into b) = ib_stubs b"
    by (simp_all add: renumber_def Let_def)
qed

lemma sig_trips: "map sig (ib_msgs b') = map sig (ib_msgs b) \<Longrightarrow> ib_stubs b' = ib_stubs b \<Longrightarrow> trips b' = trips b"
proof -
  assume s: "map sig (ib_msgs b') = map sig (ib_msgs b)" "ib_stubs b' = ib_stubs b"
  have e: "map sm_trip ms = map snd (map sig ms)" for ms by (simp add: sig_def)
  have "map sm_trip (ib_msgs b') = map sm_trip (ib_msgs b)" unfolding e s(1) ..
  then show ?thesis using s(2) by (simp add: trips_def stubs_of_def)
qed

lemma within_less: "within b b' \<Longrightarrow> less_of b b'"
  using within_map [of b b' sig] by (simp add: less_of_def within_def sig_change)

text \<open>Both merges: \<open>collapse\<close>, then writes that change no row's name, then the stamp.\<close>

lemma merge_inv:
  assumes "inbox_inv b" "\<And>m. moves m \<longleftrightarrow> mkey m = k" "\<And>m. dest m \<longleftrightarrow> mkey m = ByFp f" "length f = 32"
    and b2: "map sig (ib_msgs b2) = map sig (ib_msgs (collapse dest moves (key_moved moves f) b))"
      "ib_stubs b2 = ib_stubs (collapse dest moves (key_moved moves f) b)"
  shows "inbox_inv (snd (stamp_all moves f b2))"
proof (rule stamp_all_inv)
  have "less_of b (collapse dest moves (key_moved moves f) b)"
    by (rule within_less [OF collapse_within(1) [OF inv_refs [OF assms(1)]]])
  then show "inbox_inv b2" using inv_less [OF assms(1)] inv_less less_of_same [OF b2] by blast
  show "distinct (map (guid_key_of \<circ> stamp_trip moves f) (trips b2))"
    using merge_distinct [OF inv_refs [OF assms(1)] _ _ assms(2,3,4)] assms(1)
    unfolding sig_trips [OF b2] guid_key_stamp [OF assms(2), abs_def] comp_def by (simp add: inbox_inv_def)
qed (rule assms(4))

lemma merge_keeps:
  assumes "inbox_inv b" "\<And>m. moves m \<longleftrightarrow> mkey m = k" "\<And>m. dest m \<longleftrightarrow> mkey m = ByFp f" "length f = 32" "k \<noteq> ByFp f"
    and b2: "map sig (ib_msgs b2) = map sig (ib_msgs (collapse dest moves (key_moved moves f) b))"
      "ib_stubs b2 = ib_stubs (collapse dest moves (key_moved moves f) b)"
  shows "moved_key k (ByFp f) ` set (trips b) = guid_key_of ` set (trips (snd (stamp_all moves f b2)))"
proof -
  let ?c = "collapse dest moves (key_moved moves f) b"
  have sub: "set (trips ?c) \<subseteq> set (trips b)"
    by (rule subseq_set [OF within_trips [OF collapse_within(1) [OF inv_refs [OF assms(1)]]]])
  have plain: "plain_trip t" if "t \<in> set (trips b)" for t by (rule plain_trips [OF _ that]) (use assms(1) in \<open>simp add: inbox_inv_def\<close>)
  have "moved_key k (ByFp f) t \<in> moved_key k (ByFp f) ` set (trips ?c)" if t: "t \<in> set (trips b)" for t
  proof -
    have "trip_key (key_moved moves f) t \<in> trip_key (key_moved moves f) ` set (trips ?c)"
      using collapse_keeps_keys [OF inv_refs [OF assms(1)], of moves dest "key_moved moves f"] t assms(2,3,5) by auto
    then obtain u where u: "u \<in> set (trips ?c)" "trip_key (key_moved moves f) t = trip_key (key_moved moves f) u" by auto
    then have "moved_key k (ByFp f) t = moved_key k (ByFp f) u"
      using trip_key_moved [OF assms(2,4) plain [OF t] plain] sub by blast
    then show ?thesis using u(1) by simp
  qed
  then have "moved_key k (ByFp f) ` set (trips b) = moved_key k (ByFp f) ` set (trips ?c)" using sub by blast
  then show ?thesis
    by (simp add: stamp_all_trips sig_trips [OF b2] image_image guid_key_stamp [OF assms(2)])
qed


text \<open>A claim renumbers and drops the login's cursor, a rotation renumbers; neither changes what \<open>collapse\<close> left.\<close>

lemma claim_merges:
  obtains b2 where "ib_claim l f b = stamp_all (claim_moves l) f b2"
    "map sig (ib_msgs b2) = map sig (ib_msgs (collapse (rotate_moves f) (claim_moves l) (key_moved (claim_moves l) f) b))"
    "ib_stubs b2 = ib_stubs (collapse (rotate_moves f) (claim_moves l) (key_moved (claim_moves l) f) b)"
  unfolding ib_claim_def Let_def by (simp add: renumber_sig)

lemma rotate_merges:
  obtains b2 where "ib_rotate k k' b = stamp_all (rotate_moves k) k' b2"
    "map sig (ib_msgs b2) = map sig (ib_msgs (collapse (rotate_moves k') (rotate_moves k) (key_moved (rotate_moves k) k') b))"
    "ib_stubs b2 = ib_stubs (collapse (rotate_moves k') (rotate_moves k) (key_moved (rotate_moves k) k') b)"
  unfolding ib_rotate_def Let_def by (simp add: renumber_sig)

lemma ib_claim_inv: "inbox_inv b \<Longrightarrow> length f = 32 \<Longrightarrow> inbox_inv (snd (ib_claim l f b))"
  by (rule claim_merges [of l f b]) (metis merge_inv claim_moves_key rotate_moves_key)

lemma ib_rotate_inv: "inbox_inv b \<Longrightarrow> length k' = 32 \<Longrightarrow> inbox_inv (snd (ib_rotate k k' b))"
  by (rule rotate_merges [of k k' b]) (metis merge_inv rotate_moves_key)


subsection \<open>Retention\<close>

lemma distinct_submset:
  assumes "mset xs \<subseteq># mset ys" "distinct ys"
  shows "distinct xs"
proof -
  obtain zs where "mset zs = mset ys - mset xs" using ex_mset by blast
  then have "mset ys = mset (xs @ zs)" using assms(1) by (simp add: subset_mset.add_diff_inverse)
  then show ?thesis using assms(2) mset_eq_imp_distinct_iff [of ys "xs @ zs"] by simp
qed

lemma submset_add: "A \<subseteq># B \<Longrightarrow> A \<subseteq># add_mset x B"
  by (metis add_mset_add_single mset_subset_eq_add_left subset_mset.order_trans)

lemma put_fresh: "k \<notin> fst ` set m \<Longrightarrow> mset (om_put k v m) = add_mset (k, v) (mset m)"
proof -
  assume "k \<notin> fst ` set m"
  then have "mset (filter (\<lambda>p. fst p < k) m) + mset (filter (\<lambda>p. k < fst p) m) = mset m"
    by (induction m) auto
  then show ?thesis by (simp add: om_put_def)
qed

lemma fold_put_fresh:
  "distinct (map r ms) \<Longrightarrow> r ` set ms \<inter> fst ` set m = {} \<Longrightarrow>
    mset (fold (\<lambda>x. om_put (r x) (v x)) ms m) = mset m + mset (map (\<lambda>x. (r x, v x)) ms)"
proof (induction ms arbitrary: m)
  case (Cons x ms)
  have p: "mset (om_put (r x) (v x) m) = add_mset (r x, v x) (mset m)" using Cons.prems by (intro put_fresh) auto
  then have "set (om_put (r x) (v x) m) = insert (r x, v x) (set m)" by (metis set_mset_add_mset_insert set_mset_mset)
  then show ?case using Cons.prems Cons.IH [of "om_put (r x) (v x) m"] by (simp add: p)
qed simp

lemma om_wf_fold_put: "om_wf m \<Longrightarrow> om_wf (fold (\<lambda>x. om_put (r x) (v x)) ms m)"
  by (induction ms arbitrary: m) (auto intro: om_wf_put)

lemma filter_apart: "mset (filter P xs) + mset (filter (\<lambda>x. \<not> P x \<and> Q x) xs) \<subseteq># mset xs"
proof -
  have "mset (filter P xs) + mset (filter (\<lambda>x. \<not> P x \<and> Q x) xs) = mset (filter (\<lambda>x. P x \<or> Q x) xs)"
    by (induction xs) auto
  then show ?thesis by (simp add: multiset_filter_subset)
qed

lemma mset_trips: "mset (trips b) = filter_mset guided (mset (map sm_trip (ib_msgs b)) + mset (map (st_trip \<circ> snd) (ib_stubs b)))"
  by (simp add: trips_def stubs_of_def)

text \<open>The rows retention keeps and those it leaves a stub of are different rows, so that what a stub
  stands for is named once.\<close>

definition prune_leaves :: "systime \<Rightarrow> int \<Rightarrow> int \<Rightarrow> inbox \<Rightarrow> stored_message list" where
  "prune_leaves now unread rd b =
     filter (\<lambda>m. \<not> keeps now unread rd m \<and> is_private m \<and> is_open now unread m) (ib_msgs b)"

definition prune_cut :: "systime \<Rightarrow> int \<Rightarrow> stored_message \<Rightarrow> stored_message" where
  "prune_cut now unread m = (if is_private m \<and> \<not> is_open now unread m then m\<lparr>sm_guid := None\<rparr> else m)"

lemma prune_frame:
  "ib_msgs (snd (prune now unread rd b)) = map (prune_cut now unread) (filter (keeps now unread rd) (ib_msgs b))"
  "ib_stubs (snd (prune now unread rd b)) = filter (\<lambda>p. elapsed now (st_sent_at (snd p)) < unread)
     (fold (\<lambda>m. om_put (sm_reference m) (stub_of m)) (prune_leaves now unread rd b) (ib_stubs b))"
  by (simp_all add: prune_def prune_leaves_def prune_cut_def [abs_def] Let_def om_retain_def case_prod_beta')

lemma prune_put:
  assumes "inbox_inv b"
  shows "mset (fold (\<lambda>m. om_put (sm_reference m) (stub_of m)) (prune_leaves now unread rd b) (ib_stubs b))
    = mset (ib_stubs b) + mset (map (\<lambda>m. (sm_reference m, stub_of m)) (prune_leaves now unread rd b))"
proof (rule fold_put_fresh)
  show "distinct (map sm_reference (prune_leaves now unread rd b))"
    using assms by (simp add: prune_leaves_def inbox_inv_def distinct_map_filter)
  show "sm_reference ` set (prune_leaves now unread rd b) \<inter> fst ` set (ib_stubs b) = {}"
    using assms by (auto simp: prune_leaves_def inbox_inv_def)
qed

lemma prune_apart: "mset (filter (keeps now unread rd) (ib_msgs b)) + mset (prune_leaves now unread rd b) \<subseteq># mset (ib_msgs b)"
  unfolding prune_leaves_def by (rule filter_apart)

lemma prune_refs:
  assumes "inbox_inv b" "b' = snd (prune now unread rd b)"
  shows "mset (map sm_reference (ib_msgs b') @ map fst (ib_stubs b')) \<subseteq># mset (map sm_reference (ib_msgs b) @ map fst (ib_stubs b))"
proof -
  let ?held = "mset (filter (keeps now unread rd) (ib_msgs b))" and ?leaves = "mset (prune_leaves now unread rd b)"
  have rows: "mset (map sm_reference (ib_msgs b')) = image_mset sm_reference ?held"
    unfolding assms(2) prune_frame by (simp add: multiset.map_comp comp_def prune_cut_def if_distrib cong: if_cong)
  have "mset (map fst (ib_stubs b')) \<subseteq># image_mset fst (mset (ib_stubs b)
      + mset (map (\<lambda>m. (sm_reference m, stub_of m)) (prune_leaves now unread rd b)))"
    unfolding assms(2) prune_frame mset_map mset_filter prune_put [OF assms(1)]
    by (intro image_mset_subseteq_mono multiset_filter_subset)
  also have "\<dots> = image_mset fst (mset (ib_stubs b)) + image_mset sm_reference ?leaves"
    by (simp add: multiset.map_comp comp_def)
  finally have "mset (map sm_reference (ib_msgs b') @ map fst (ib_stubs b'))
      \<subseteq># image_mset sm_reference ?held + (image_mset fst (mset (ib_stubs b)) + image_mset sm_reference ?leaves)"
    unfolding mset_append rows by (intro subset_mset.add_mono subset_mset.order_refl)
  also have "\<dots> = image_mset sm_reference (?held + ?leaves) + image_mset fst (mset (ib_stubs b))"
    by (simp add: ac_simps)
  also have "\<dots> \<subseteq># mset (map sm_reference (ib_msgs b) @ map fst (ib_stubs b))"
    unfolding mset_append mset_map by (intro subset_mset.add_mono subset_mset.order_refl image_mset_subseteq_mono prune_apart)
  finally show ?thesis .
qed

lemma prune_trips:
  assumes "inbox_inv b" "b' = snd (prune now unread rd b)"
  shows "mset (trips b') \<subseteq># mset (trips b)"
proof -
  let ?held = "mset (filter (keeps now unread rd) (ib_msgs b))" and ?leaves = "mset (prune_leaves now unread rd b)"
  have "filter_mset guided (image_mset sm_trip (image_mset (prune_cut now unread) M)) \<subseteq># filter_mset guided (image_mset sm_trip M)" for M
    by (induction M) (auto simp: prune_cut_def sm_trip_def guided_def submset_add)
  then have rows: "filter_mset guided (mset (map sm_trip (ib_msgs b'))) \<subseteq># filter_mset guided (image_mset sm_trip ?held)"
    unfolding assms(2) prune_frame mset_map .
  have "filter_mset guided (mset (map (st_trip \<circ> snd) (ib_stubs b'))) \<subseteq># filter_mset guided (image_mset (st_trip \<circ> snd) (mset (ib_stubs b)
      + mset (map (\<lambda>m. (sm_reference m, stub_of m)) (prune_leaves now unread rd b))))"
    unfolding assms(2) prune_frame mset_map mset_filter prune_put [OF assms(1)]
    by (intro multiset_filter_mono image_mset_subseteq_mono multiset_filter_subset)
  also have "\<dots> = filter_mset guided (image_mset (st_trip \<circ> snd) (mset (ib_stubs b)) + image_mset sm_trip ?leaves)"
    by (simp add: multiset.map_comp comp_def st_trip_def sm_trip_def [abs_def] stub_of_def)
  finally have "mset (trips b') \<subseteq># filter_mset guided (image_mset sm_trip ?held)
      + filter_mset guided (image_mset (st_trip \<circ> snd) (mset (ib_stubs b)) + image_mset sm_trip ?leaves)"
    unfolding mset_trips filter_union_mset using rows by (intro subset_mset.add_mono) (simp_all add: filter_union_mset)
  also have "\<dots> = filter_mset guided (image_mset sm_trip (?held + ?leaves) + image_mset (st_trip \<circ> snd) (mset (ib_stubs b)))"
    by (simp add: ac_simps)
  also have "\<dots> \<subseteq># mset (trips b)"
    unfolding mset_trips mset_map
    by (intro multiset_filter_mono subset_mset.add_mono subset_mset.order_refl image_mset_subseteq_mono prune_apart)
  finally show ?thesis .
qed

lemma prune_inv:
  assumes "inbox_inv b"
  shows "inbox_inv (snd (prune now unread rd b))"
proof -
  let ?b' = "snd (prune now unread rd b)"
  let ?stubs = "fold (\<lambda>m. om_put (sm_reference m) (stub_of m)) (prune_leaves now unread rd b) (ib_stubs b)"
  have put_set: "set ?stubs = set (ib_stubs b) \<union> (\<lambda>m. (sm_reference m, stub_of m)) ` set (prune_leaves now unread rd b)"
    using arg_cong [OF prune_put [OF assms], of set_mset] by simp
  have leaves: "set (prune_leaves now unread rd b) \<subseteq> set (ib_msgs b)" by (auto simp: prune_leaves_def)
  have "om_wf ?stubs" using assms by (intro om_wf_fold_put) (simp add: inbox_inv_def stubs_ok_def)
  moreover have "st_reference (snd p) = fst p" if "p \<in> set ?stubs" for p
    using that assms unfolding put_set by (auto simp: inbox_inv_def stubs_ok_def) (simp add: stub_of_def)
  ultimately have 1: "stubs_ok ?b'" unfolding stubs_ok_def prune_frame by (simp add: om_wf_filter)
  have 2: "distinct (map sm_reference (ib_msgs ?b') @ map fst (ib_stubs ?b'))"
    by (rule distinct_submset [OF prune_refs [OF assms refl]]) (use assms in \<open>simp add: inbox_inv_def\<close>)
  have "mset (map guid_key_of (trips ?b')) \<subseteq># mset (map guid_key_of (trips b))"
    unfolding mset_map by (rule image_mset_subseteq_mono [OF prune_trips [OF assms refl]])
  then have 3: "guids_ok ?b'" unfolding guids_ok_def by (rule distinct_submset) (use assms in \<open>simp add: inbox_inv_def guids_ok_def\<close>)
  have "plain_trip (sm_trip (prune_cut now unread m))" if "m \<in> set (ib_msgs b)" for m
    using assms that by (auto simp: inbox_inv_def plain_inbox_def plain_trip_def sm_trip_def prune_cut_def)
  moreover have "plain_trip (st_trip (stub_of m))" if "m \<in> set (ib_msgs b)" for m
    using assms that by (auto simp: inbox_inv_def plain_inbox_def plain_trip_def sm_trip_def st_trip_def stub_of_def)
  ultimately have "plain_inbox ?b'"
    using assms leaves unfolding plain_inbox_def stubs_of_def prune_frame by (auto simp: put_set inbox_inv_def plain_inbox_def stubs_of_def)
  then show ?thesis using 1 2 3 by (simp add: inbox_inv_def)
qed



subsection \<open>What stays of a message\<close>

text \<open>A row is followed by its reference.  What was said, by whom and when does not change; the times of delivery and of
  reading are set once; a guid may be forgotten, by retention.  The recipient, the sender and the friendship a message
  was sent on are what claims, rotations and releases write.\<close>

definition once :: "'a option \<Rightarrow> 'a option \<Rightarrow> bool" where
  "once x y \<longleftrightarrow> x = None \<or> y = x"

definition msg_le :: "stored_message \<Rightarrow> stored_message \<Rightarrow> bool" where
  "msg_le m m' \<longleftrightarrow> sm_reference m' = sm_reference m \<and> sm_id m' = sm_id m \<and> sm_sender_nick m' = sm_sender_nick m
     \<and> sm_body m' = sm_body m \<and> sm_sent_at m' = sm_sent_at m \<and> sm_kind m' = sm_kind m \<and> sm_media m' = sm_media m
     \<and> sm_signed m' = sm_signed m \<and> sm_re m' = sm_re m \<and> once (sm_guid m') (sm_guid m)
     \<and> once (sm_delivered_at m) (sm_delivered_at m') \<and> once (sm_read_at m) (sm_read_at m')"

lemma once_simps [simp]: "once x x" "once None y" "once x (or_opt x y)" "once (Some a) None \<longleftrightarrow> False"
  by (auto simp: once_def or_opt_def split: option.split)

lemma msg_le_refl [simp]: "msg_le m m"
  by (simp add: msg_le_def)

lemma msg_le_trans: "msg_le a b \<Longrightarrow> msg_le b c \<Longrightarrow> msg_le a c"
  by (auto simp: msg_le_def once_def)

definition from_rows :: "stored_message list \<Rightarrow> stored_message list \<Rightarrow> bool" where
  "from_rows ms ms' \<longleftrightarrow> (\<forall>m'\<in>set ms'. \<exists>m\<in>set ms. msg_le m m')"

lemma from_rows_trans: "from_rows a b \<Longrightarrow> from_rows b c \<Longrightarrow> from_rows a c"
  unfolding from_rows_def by (meson msg_le_trans)

lemma from_rows_refl [simp]: "from_rows ms ms"
  by (auto simp: from_rows_def intro: msg_le_refl)

lemma from_rows_sub: "set ms' \<subseteq> set ms \<Longrightarrow> from_rows ms ms'"
  by (auto simp: from_rows_def intro: msg_le_refl)

lemma from_rows_map: "(\<And>m. m \<in> set ms \<Longrightarrow> msg_le m (f m)) \<Longrightarrow> from_rows ms (map f ms)"
  by (auto simp: from_rows_def)

lemma from_rows_filter [simp]: "from_rows ms (filter P ms)"
  by (rule from_rows_sub) auto

lemma msg_le_change [simp]:
  "msg_le m (m\<lparr>sm_friendship := x\<rparr>)" "msg_le m (m\<lparr>sm_cursor := c\<rparr>)" "msg_le m (m\<lparr>sm_guid := None\<rparr>)"
  "msg_le m (m\<lparr>sm_recipient := r, sm_sender := s\<rparr>)"
  by (simp_all add: msg_le_def)

lemma msg_le_times: "once (sm_delivered_at m) d \<Longrightarrow> once (sm_read_at m) r \<Longrightarrow> msg_le m (m\<lparr>sm_delivered_at := d, sm_read_at := r\<rparr>)"
  by (simp add: msg_le_def)

lemma mark_from_rows:
  "from_rows ms (map (mark_one ids at what) ms)"
  "from_rows ms (map (\<lambda>m. if reads_now g to up m
     then m\<lparr>sm_read_at := Some at, sm_delivered_at := or_opt (sm_delivered_at m) (Some at)\<rparr> else m) ms)"
  by (rule from_rows_map, auto simp: mark_one_def msg_le_def reads_now_def)+

lemma take_over_from_rows: "snd p < length ms \<Longrightarrow> from_rows ms (take_over p ms)"
proof -
  assume l: "snd p < length ms"
  have "msg_le (ms ! snd p) ((ms ! snd p)\<lparr>sm_delivered_at := or_opt (sm_delivered_at (ms ! snd p)) d, sm_read_at := or_opt (sm_read_at (ms ! snd p)) r\<rparr>)" for d r
    by (rule msg_le_times) simp_all
  moreover have "from_rows ms (ms[i := x])" if "i < length ms" "msg_le (ms ! i) x" for i x
    using that set_update_subset_insert [of ms i x] unfolding from_rows_def by (metis insert_iff msg_le_refl nth_mem subsetD)
  ultimately show ?thesis using l by (simp add: take_over_def)
qed

lemma fold_take_over_from_rows:
  "list_all (\<lambda>p. snd p < length ms) ps \<Longrightarrow> from_rows ms (fold take_over ps ms)"
proof (induction ps arbitrary: ms)
  case (Cons p ps)
  have "from_rows ms (take_over p ms)" using Cons.prems by (intro take_over_from_rows) simp
  moreover have "from_rows (take_over p ms) (fold take_over ps (take_over p ms))"
    by (rule Cons.IH) (use Cons.prems in \<open>simp add: take_over_def\<close>)
  ultimately show ?case using from_rows_trans by simp
qed simp

lemma doomed_in: "list_all (\<lambda>p. snd p < length ms) (doomed_rows ss dest moves after ms)"
  by (auto simp: doomed_rows_def list_all_iff map_filter_def position_less split: if_splits)

lemma without_sub: "set (without is xs) \<subseteq> set xs"
  by (auto simp: without_def in_set_enumerate_eq)

lemma pass_from_rows:
  "from_rows (ib_msgs b) (ib_msgs (collapse_rows ss dest moves after b))"
  "from_rows (ib_msgs b) (ib_msgs (collapse_stubs ss dest moves after b))"
proof -
  show "from_rows (ib_msgs b) (ib_msgs (collapse_rows ss dest moves after b))"
    unfolding collapse_rows_def Let_def
    using from_rows_trans [OF fold_take_over_from_rows [OF doomed_in] from_rows_sub [OF without_sub]] by simp
  have "from_rows (ib_msgs b) (map (promote ss dest moves after (stubs_of b)) (ib_msgs b))"
    by (rule from_rows_map) (auto simp: promote_def intro: msg_le_times split: option.split)
  then show "from_rows (ib_msgs b) (ib_msgs (collapse_stubs ss dest moves after b))"
    unfolding collapse_stubs_def Let_def by (simp add: from_rows_trans)
qed

lemma collapse_from_rows: "from_rows (ib_msgs b) (ib_msgs (collapse dest moves after b))"
  unfolding collapse_def by (simp add: from_rows_trans [OF pass_from_rows(1) from_rows_trans [OF pass_from_rows(2) from_rows_trans [OF pass_from_rows(1) pass_from_rows(2)]]])

lemma renumber_from_rows: "from_rows (ib_msgs b) (ib_msgs (renumber moves from into b))"
proof -
  have "from_rows ms (renumber_msgs moves past ms)" for past ms
    by (auto simp: renumber_msgs_def Let_def from_rows_def split: option.split intro!: bexI [OF _ nth_mem])
  then show ?thesis by (simp add: renumber_def Let_def)
qed

lemma merge_from_rows: "from_rows (ib_msgs b) (ib_msgs (snd (ib_claim l f b)))" "from_rows (ib_msgs b) (ib_msgs (snd (ib_rotate k k' b)))"
proof -
  have "from_rows ms (map (stamp_msg moves f) ms)" for ms moves f by (rule from_rows_map) (simp add: stamp_msg_def)
  note all = from_rows_trans [OF collapse_from_rows from_rows_trans [OF renumber_from_rows [of "forget_removed _", simplified] this]]
  show "from_rows (ib_msgs b) (ib_msgs (snd (ib_claim l f b)))" "from_rows (ib_msgs b) (ib_msgs (snd (ib_rotate k k' b)))"
    unfolding ib_claim_def ib_rotate_def Let_def stamp_all_def by (simp_all add: all)
qed

end
