(* ===== verification/Inbox_Guarantees.thy ===== *)
theory Inbox_Guarantees
  imports Inbox_Runs Relationship_Safety
begin

section \<open>What the inbox promises\<close>

text \<open>
  The writes of \<^verbatim>\<open>MessageStore\<close> as requests, and the runs they make.  A step is any write, under any gate: the
  relationship store changes between two writes as it likes.  A run keeps beside the inbox the references drawn so far,
  since 16 random bytes are not drawn twice: that is the one thing asked of the random source.
\<close>


subsection \<open>Requests\<close>

datatype ib_request =
    IPush new_message nat "message_ref option"
  | IHanded "message_id list"
  | IReceiptTold message_id
  | IDelivered "message_id list" systime delivery
  | IRead mailbox cursor systime
  | IUnlinked string fp
  | IRelease mailbox mailbox relation_id systime
  | IToMail mailbox mailbox "string option" systime
  | IDeleteFrom mailbox mailbox string
  | IDelete mailbox mailbox
  | IRestamp "(relation_id \<times> relation_id) list"
  | IClaim string fp
  | IRotate fp fp
  | IPurge mailbox
  | IPrune systime int int
  | IReact react_act
  | IForget mailbox systime
  | IRekey mailbox mailbox

fun ib_serve :: "rel_state option \<Rightarrow> ib_request \<Rightarrow> inbox \<Rightarrow> inbox" where
  "ib_serve g (IPush m cap rnd) b = snd (push g m cap rnd b)"
| "ib_serve g (IHanded ids) b = mark_handed ids b"
| "ib_serve g (IReceiptTold i) b = snd (receipt_told i b)"
| "ib_serve g (IDelivered ids at what) b = mark_delivered ids at what b"
| "ib_serve g (IRead to up at) b = snd (mark_read g to up at b)"
| "ib_serve g (IUnlinked l f) b = unlinked l f b"
| "ib_serve g (IRelease to from on since) b = snd (release_requests to from on since b)"
| "ib_serve g (IToMail to from a since) b = snd (requests_to_mail to from a since b)"
| "ib_serve g (IDeleteFrom to from a) b = snd (delete_requests_from to from a b)"
| "ib_serve g (IDelete to from) b = snd (delete_requests to from b)"
| "ib_serve g (IRestamp merged) b = snd (ib_restamp merged b)"
| "ib_serve g (IClaim l f) b = snd (ib_claim l f b)"
| "ib_serve g (IRotate k k') b = snd (ib_rotate k k' b)"
| "ib_serve g (IPurge k) b = snd (ib_purge k b)"
| "ib_serve g (IPrune now unread rd) b = snd (prune now unread rd b)"
| "ib_serve g (IReact act) b = snd (react_message act b)"
| "ib_serve g (IForget who since) b = snd (forget_message_reactions who since b)"
| "ib_serve g (IRekey from to) b = snd (rekey_message_reactions from to b)"

text \<open>Mailboxes are those of accounts and identities; a reference is drawn once.\<close>

fun ib_allows :: "message_ref set \<Rightarrow> ib_request \<Rightarrow> bool" where
  "ib_allows u (IPush m cap rnd) \<longleftrightarrow> plain_trip (nm_recipient m, nm_sender m, nm_guid m)
     \<and> (case rnd of Some r \<Rightarrow> r \<notin> u | None \<Rightarrow> True)"
| "ib_allows u (IClaim l f) \<longleftrightarrow> length f = 32"
| "ib_allows u (IRotate k k') \<longleftrightarrow> length k' = 32"
| "ib_allows u _ \<longleftrightarrow> True"

fun ib_drawn :: "ib_request \<Rightarrow> message_ref set" where
  "ib_drawn (IPush m cap (Some r)) = {r}"
| "ib_drawn _ = {}"

inductive ib_step :: "message_ref set \<times> inbox \<Rightarrow> message_ref set \<times> inbox \<Rightarrow> bool" where
  serve: "ib_allows u q \<Longrightarrow> ib_step (u, b) (u \<union> ib_drawn q, ib_serve g q b)"

inductive_cases ib_stepE: "ib_step x y"


subsection \<open>Every write\<close>

definition ib_ok :: "message_ref set \<times> inbox \<Rightarrow> bool" where
  "ib_ok x \<longleftrightarrow> inbox_inv (snd x) \<and> ib_refs (snd x) \<subseteq> fst x"

definition ib_le :: "message_ref set \<times> inbox \<Rightarrow> message_ref set \<times> inbox \<Rightarrow> bool" where
  "ib_le x y \<longleftrightarrow> fst x \<subseteq> fst y
     \<and> (\<forall>m'\<in>set (ib_msgs (snd y)). sm_reference m' \<in> fst x \<longrightarrow> (\<exists>m\<in>set (ib_msgs (snd x)). msg_le m m'))"

lemma less_of_refs: "less_of b b' \<Longrightarrow> ib_refs b' \<subseteq> ib_refs b"
proof -
  assume l: "less_of b b'"
  have "set (map sm_reference (ib_msgs b')) \<subseteq> set (map sm_reference (ib_msgs b))"
    by (rule subseq_set [OF less_of_map [OF l, of _ fst]]) (simp add: sig_def)
  moreover have "set (ib_stubs b') \<subseteq> set (ib_stubs b)" using l by (simp add: less_of_def subseq_set)
  ultimately show ?thesis by (auto simp: ib_refs_def)
qed

lemma merge_refs:
  assumes "inbox_inv b" "map sig (ib_msgs b2) = map sig (ib_msgs (collapse dest moves after b))"
    "ib_stubs b2 = ib_stubs (collapse dest moves after b)"
  shows "ib_refs (snd (stamp_all mv f b2)) \<subseteq> ib_refs b"
proof -
  have "ib_refs (snd (stamp_all mv f b2)) = ib_refs b2"
    by (simp add: ib_refs_def stamp_all_def stamp_msg_def om_map_def image_image split_beta)
  also have "\<dots> \<subseteq> ib_refs (collapse dest moves after b)" by (rule less_of_refs [OF less_of_same [OF assms(2,3)]])
  also have "\<dots> \<subseteq> ib_refs b"
    by (rule less_of_refs [OF within_less [OF collapse_within(1) [OF inv_refs [OF assms(1)]]]])
  finally show ?thesis .
qed

text \<open>All but the writes that store, merge or prune leave rows and stubs as they were, or fewer of them.\<close>

fun rearranges :: "ib_request \<Rightarrow> bool" where
  "rearranges (IPush m cap rnd) = True"
| "rearranges (IClaim l f) = True"
| "rearranges (IRotate k k') = True"
| "rearranges (IPrune now unread rd) = True"
| "rearranges _ = False"

lemma serve_less: "\<not> rearranges q \<Longrightarrow> less_of b (ib_serve g q b)"
  by (cases q) (simp_all only: rearranges.simps ib_serve.simps plain_writes_less restamp_less purge_less simp_thms)

text \<open>All but \<open>push\<close>: the references and the rows are some of those there were.\<close>

lemma serve_refs:
  assumes "inbox_inv b" "\<And>m cap rnd. q \<noteq> IPush m cap rnd"
  shows "ib_refs (ib_serve g q b) \<subseteq> ib_refs b"
proof (cases q)
  case (IClaim l f)
  then show ?thesis using merge_refs [OF assms(1)] by (cases rule: claim_merges [of l f b]) simp
next
  case (IRotate k k')
  then show ?thesis using merge_refs [OF assms(1)] by (cases rule: rotate_merges [of k k' b]) simp
next
  case (IPrune now unread rd)
  have "set (map sm_reference (ib_msgs b') @ map fst (ib_stubs b')) = ib_refs b'" for b' by (simp add: ib_refs_def)
  then show ?thesis using set_mset_mono [OF prune_refs [OF assms(1) refl]] IPrune by (simp add: ib_refs_def)
qed (use assms(2) in \<open>blast intro: less_of_refs\<close>, (rule less_of_refs [OF serve_less]; simp)+)

lemma msg_le_ex: "m \<in> set ms \<Longrightarrow> \<exists>x\<in>set ms. msg_le x m"
  using msg_le_refl by blast

lemma from_rows_same: "from_rows (ib_msgs b) (ib_msgs b')" if "ib_msgs b' = ib_msgs b"
  by (simp add: that)

lemma from_rows_if: "(\<And>m. m \<in> set ms \<Longrightarrow> msg_le m (f m)) \<Longrightarrow> from_rows ms (map (\<lambda>m. if P m then f m else m) ms)"
  by (rule from_rows_map) simp

lemma restamp_rows: "from_rows (ib_msgs b) (ib_msgs (snd (ib_restamp merged b)))"
proof -
  have "from_rows (ib_msgs b) (ib_msgs (snd (fold (\<lambda>(lost, kept) (n, b).
        let hit = (\<lambda>m. sm_friendship m = Some (SentRelation lost))
        in (n + length (filter hit (ib_msgs b)),
            b\<lparr>ib_msgs := map (\<lambda>m. if hit m then m\<lparr>sm_friendship := Some (SentRelation kept)\<rparr> else m) (ib_msgs b)\<rparr>))
       merged (n, b))))" for n
  proof (induction merged arbitrary: n b)
    case (Cons p merged)
    obtain lost kept where p: "p = (lost, kept)" by (cases p)
    let ?f = "\<lambda>m. if sm_friendship m = Some (SentRelation lost) then m\<lparr>sm_friendship := Some (SentRelation kept)\<rparr> else m"
    have "from_rows (ib_msgs b) (ib_msgs (b\<lparr>ib_msgs := map ?f (ib_msgs b)\<rparr>))" by (simp add: from_rows_if)
    from from_rows_trans [OF this Cons.IH] show ?case by (simp add: p Let_def)
  qed simp
  then show ?thesis by (simp add: ib_restamp_def)
qed

lemma delivery_rows:
  "from_rows (ib_msgs b) (ib_msgs (mark_handed ids b))" "from_rows (ib_msgs b) (ib_msgs (snd (receipt_told i b)))"
  "from_rows (ib_msgs b) (ib_msgs (mark_delivered ids at what b))" "from_rows (ib_msgs b) (ib_msgs (snd (mark_read g to up at b)))"
  "from_rows (ib_msgs b) (ib_msgs (unlinked login f b))"
  by (simp_all add: mark_handed_def receipt_told_def mark_delivered_def mark_read_def unlinked_def mark_from_rows split: option.split)

lemma request_rows:
  "from_rows (ib_msgs b) (ib_msgs (snd (release_requests to from on since b)))"
  "from_rows (ib_msgs b) (ib_msgs (snd (requests_to_mail to from a since b)))"
  "from_rows (ib_msgs b) (ib_msgs (snd (delete_requests_from to from addr b)))"
  "from_rows (ib_msgs b) (ib_msgs (snd (delete_requests to from b)))"
proof -
  have "from_rows ms (snd (snd (to_mail_rows P as ms)))" for P as ms
  proof (induction P as ms rule: to_mail_rows.induct)
    case (2 P as m ms)
    then show ?case by (cases "P m as") (auto simp: from_rows_def split_beta Let_def intro: msg_le_refl)
  qed simp
  then show "from_rows (ib_msgs b) (ib_msgs (snd (requests_to_mail to from a since b)))"
    by (simp add: requests_to_mail_def split_beta)
qed (simp_all add: release_requests_def delete_requests_from_def delete_requests_def retain_msgs_def Let_def from_rows_if)

lemma retention_rows:
  "from_rows (ib_msgs b) (ib_msgs (snd (ib_purge k b)))" "from_rows (ib_msgs b) (ib_msgs (snd (prune now unread rd b)))"
proof -
  have "from_rows (filter P ms) (map (prune_cut now unread) (filter P ms))" for P ms
    by (rule from_rows_map) (simp add: prune_cut_def)
  from from_rows_trans [OF from_rows_filter this] show "from_rows (ib_msgs b) (ib_msgs (snd (prune now unread rd b)))"
    unfolding prune_frame .
qed (simp add: ib_purge_def Let_def)

lemma reaction_rows_same [simp]:
  "ib_msgs (snd (react_message act b)) = ib_msgs b" "ib_msgs (snd (forget_message_reactions who since b)) = ib_msgs b"
  "ib_msgs (snd (rekey_message_reactions from to b)) = ib_msgs b"
  by (simp_all add: react_message_def applied_def forget_message_reactions_def rekey_message_reactions_def Let_def)

lemma serve_rows:
  assumes "\<And>m cap rnd. q \<noteq> IPush m cap rnd"
  shows "from_rows (ib_msgs b) (ib_msgs (ib_serve g q b))"
  by (cases q) (use assms in \<open>simp_all only: ib_serve.simps delivery_rows request_rows retention_rows reaction_rows_same from_rows_refl restamp_rows merge_from_rows simp_thms\<close>)

lemma serve_inv:
  assumes "inbox_inv b" "ib_allows u q" "ib_refs b \<subseteq> u"
  shows "inbox_inv (ib_serve g q b)"
proof (cases q)
  case (IPush m cap rnd)
  then show ?thesis using assms by (auto intro!: push_inv split: option.splits)
next
  case (IClaim l f)
  then show ?thesis using assms by (simp add: ib_claim_inv)
next
  case (IRotate k k')
  then show ?thesis using assms by (simp add: ib_rotate_inv)
next
  case (IPrune now unread rd)
  then show ?thesis using assms by (simp add: prune_inv)
qed (rule inv_less [OF assms(1) serve_less]; simp)+

lemma push_rows:
  "\<exists>xs. ib_msgs (snd (push g m cap rnd b)) = ib_msgs b @ xs \<and> sm_reference ` set xs \<subseteq> set_option rnd
     \<and> ib_stubs (snd (push g m cap rnd b)) = ib_stubs b"
proof -
  obtain res b' where p: "push g m cap rnd b = (res, b')" by fastforce
  from p show ?thesis
  proof (cases rule: push_cases)
    case same
    then show ?thesis unfolding p snd_conv by (intro exI [of _ "[]"]) simp
  next
    case (stored r c)
    show ?thesis unfolding p snd_conv stored(6,7)
      by (intro exI [of _ "[stored_of m (ib_next_id b + 1) r c]"]) (simp add: stored(1) stored_of_def)
  qed
qed

interpretation ibx: monotone_steps ib_step ib_ok ib_le
proof unfold_locales
  show "ib_le x x" for x by (auto simp: ib_le_def intro: msg_le_refl)
  show "ib_le x z" if "ib_le x y" "ib_le y z" for x y z
  proof -
    have "\<exists>m\<in>set (ib_msgs (snd x)). msg_le m m2" if m2: "m2 \<in> set (ib_msgs (snd z))" "sm_reference m2 \<in> fst x" for m2
    proof -
      obtain m1 where m1: "m1 \<in> set (ib_msgs (snd y))" "msg_le m1 m2" using \<open>ib_le x y\<close> \<open>ib_le y z\<close> m2 by (auto simp: ib_le_def)
      then have "sm_reference m1 \<in> fst x" using m2 by (simp add: msg_le_def)
      then show ?thesis using m1 \<open>ib_le x y\<close> msg_le_trans by (fastforce simp: ib_le_def)
    qed
    then show ?thesis using that by (auto simp: ib_le_def)
  qed
  show "ib_ok y" if "ib_step x y" "ib_ok x" for x y
    using that(1)
  proof cases
    case (serve u q b g)
    have ok: "inbox_inv b" "ib_refs b \<subseteq> u" using that(2) by (simp_all add: ib_ok_def serve)
    have "ib_refs (ib_serve g q b) \<subseteq> u \<union> ib_drawn q"
    proof (cases "\<exists>m cap rnd. q = IPush m cap rnd")
      case True
      then obtain m cap rnd where q: "q = IPush m cap rnd" by blast
      then show ?thesis using push_rows [of g m cap rnd b] ok(2) by (cases rnd) (auto simp: ib_refs_def image_subset_iff)
    next
      case False
      then show ?thesis using serve_refs [OF ok(1)] ok(2) by blast
    qed
    then show ?thesis using serve_inv [OF ok(1) serve(3) ok(2)] by (simp add: ib_ok_def serve)
  qed
  show "ib_le x y" if "ib_step x y" "ib_ok x" for x y
    using that(1)
  proof cases
    case (serve u q b g)
    show ?thesis
    proof (cases "\<exists>m cap rnd. q = IPush m cap rnd")
      case True
      then obtain m cap rnd where q: "q = IPush m cap rnd" by blast
      then show ?thesis using push_rows [of g m cap rnd b] serve(3) by (cases rnd) (auto simp: ib_le_def serve image_subset_iff intro: msg_le_ex)
    next
      case False
      then show ?thesis using serve_rows [of q b g] by (auto simp: ib_le_def serve from_rows_def)
    qed
  qed
qed



subsection \<open>One message to a guid\<close>

lemma empty_inbox_ok: "ib_ok ({}, empty_inbox)"
  by (simp add: ib_ok_def inbox_inv_def empty_inbox_def stubs_ok_def guids_ok_def plain_inbox_def trips_def stubs_of_def ib_refs_def)

lemma run_inv: "ib_step\<^sup>*\<^sup>* ({}, empty_inbox) (u, b) \<Longrightarrow> inbox_inv b"
  using ibx.run_ok [OF _ empty_inbox_ok] by (fastforce simp: ib_ok_def)

lemma guid_row: "sm_guid m = Some guid \<and> of_pair (sm_recipient m) (sm_sender m) to from
    \<longleftrightarrow> guid_key_of (sm_trip m) = (mkey to, map_option mkey from, Some guid)"
  by (auto simp: of_pair_keys guid_key_of_def sm_trip_def)

lemma guid_stub: "st_guid s = Some guid \<and> of_pair (st_recipient s) (st_sender s) to from
    \<longleftrightarrow> guid_key_of (st_trip s) = (mkey to, map_option mkey from, Some guid)"
  by (auto simp: of_pair_keys guid_key_of_def st_trip_def)

lemma keyed_guided: "guid_key_of t = (x, y, Some guid) \<Longrightarrow> guided t"
  by (auto simp: guid_key_of_def guided_def)

lemma filter_trips:
  "map sm_trip (filter (\<lambda>m. guid_key_of (sm_trip m) = (x, y, Some guid)) (ib_msgs b))
    @ map st_trip (filter (\<lambda>s. guid_key_of (st_trip s) = (x, y, Some guid)) (stubs_of b))
   = filter (\<lambda>t. guid_key_of t = (x, y, Some guid)) (trips b)"
proof -
  have e: "guided t \<and> guid_key_of t = (x, y, Some guid) \<longleftrightarrow> guid_key_of t = (x, y, Some guid)" for t
    using keyed_guided by blast
  show ?thesis unfolding trips_def filter_filter e by (simp add: filter_map comp_def)
qed

lemma distinct_map_filter_le: "distinct (map f xs) \<Longrightarrow> length (filter (\<lambda>x. f x = k) xs) \<le> 1"
proof (induction xs)
  case (Cons x xs)
  show ?case
  proof (cases "f x = k")
    case True
    then have "filter (\<lambda>x. f x = k) xs = []" using Cons.prems by (auto simp: filter_empty_conv image_iff)
    then show ?thesis by simp
  next
    case False
    then show ?thesis using Cons by simp
  qed
qed simp

lemma find_head_filter: "find P xs = (case filter P xs of [] \<Rightarrow> None | x # _ \<Rightarrow> Some x)"
  by (induction xs) auto

lemma guid_once:
  assumes "inbox_inv b"
  shows "length (filter (\<lambda>m. sm_guid m = Some guid \<and> of_pair (sm_recipient m) (sm_sender m) to from) (ib_msgs b))
    + length (filter (\<lambda>s. st_guid s = Some guid \<and> of_pair (st_recipient s) (st_sender s) to from) (stubs_of b)) \<le> 1"
proof -
  let ?k = "(mkey to, map_option mkey from, Some guid)"
  have "length (filter (\<lambda>t. guid_key_of t = ?k) (trips b)) \<le> 1"
    by (rule distinct_map_filter_le) (use assms in \<open>simp add: inbox_inv_def guids_ok_def\<close>)
  then show ?thesis unfolding guid_row guid_stub filter_trips [symmetric] by simp
qed

definition pal :: mailbox where "pal = mailbox_login ''pal''"

definition ida :: mailbox where "ida = mailbox_identified ''ida'' (replicate 32 7)"

definition hello :: new_message where
  "hello = \<lparr>nm_recipient = pal, nm_sender = Some ida, nm_sender_nick = ''Ida'', nm_body = ''hello'', nm_sent_at = 10,
     nm_guid = Some (MessageGuid ''g1''), nm_kind = MkMessage, nm_media = None, nm_signed = None, nm_friendship = None,
     nm_sender_address = None, nm_re = None\<rparr>"

definition one_hello :: inbox where
  "one_hello = ib_serve None (IPush hello 50 (Some [1])) empty_inbox"

lemma plain_hello: "plain_trip (nm_recipient hello, nm_sender hello, nm_guid hello)"
  by code_simp

lemma one_hello_run: "ib_step\<^sup>*\<^sup>* ({}, empty_inbox) ({[1]}, one_hello)"
proof -
  have "ib_step ({}, empty_inbox) ({} \<union> ib_drawn (IPush hello 50 (Some [1])), ib_serve None (IPush hello 50 (Some [1])) empty_inbox)"
    by (rule ib_step.serve) (simp add: plain_hello)
  then show ?thesis by (auto simp: one_hello_def)
qed

text \<open>C23: In every state of the inbox that its writes can reach, a guid names at most one message from a sender to a
  recipient, counting what retention left a stub of: claims of a login, key rotations, purges, retention and retries
  store it no second time.\<close>

theorem guid_stored_once:
  assumes "ib_step\<^sup>*\<^sup>* ({}, empty_inbox) (u, b)"
  shows "length (filter (\<lambda>m. sm_guid m = Some guid \<and> of_pair (sm_recipient m) (sm_sender m) to from) (ib_msgs b))
    + length (filter (\<lambda>s. st_guid s = Some guid \<and> of_pair (st_recipient s) (st_sender s) to from) (stubs_of b)) \<le> 1"
  by (rule guid_once [OF run_inv [OF assms]])

theorem guid_stored_once_witness:
  "length (filter (\<lambda>m. sm_guid m = Some (MessageGuid ''g1'') \<and> of_pair (sm_recipient m) (sm_sender m) pal (Some ida)) (ib_msgs one_hello)) = 1
   \<and> stubs_of one_hello = []"
proof -
  have "length (filter (\<lambda>m. sm_guid m = Some (MessageGuid ''g1'') \<and> of_pair (sm_recipient m) (sm_sender m) pal (Some ida)) (ib_msgs one_hello)) \<ge> 1"
    "stubs_of one_hello = []" by code_simp+
  then show ?thesis using guid_stored_once [OF one_hello_run, of "MessageGuid ''g1''" pal "Some ida"] by simp
qed


subsection \<open>Retries\<close>

lemma find_row:
  assumes "inbox_inv b" "m \<in> set (ib_msgs b)" "sm_guid m = Some guid" "of_pair (sm_recipient m) (sm_sender m) to from"
  shows "find_guid_in b to from guid = Some (FoundRow m)"
proof -
  let ?P = "\<lambda>m. sm_guid m = Some guid \<and> of_pair (sm_recipient m) (sm_sender m) to from"
  have "length (filter ?P (ib_msgs b)) \<le> 1" using guid_once [OF assms(1), of guid to "from"] by simp
  moreover have "m \<in> set (filter ?P (ib_msgs b))" using assms(2-4) by simp
  ultimately have "filter ?P (ib_msgs b) = [m]" by (cases "filter ?P (ib_msgs b)") auto
  then show ?thesis by (simp add: find_guid_in_def find_head_filter)
qed

lemma find_stub:
  assumes "inbox_inv b" "s \<in> set (stubs_of b)" "st_guid s = Some guid" "of_pair (st_recipient s) (st_sender s) to from"
  shows "find_guid_in b to from guid = Some (FoundStub s)"
proof -
  let ?P = "\<lambda>s. st_guid s = Some guid \<and> of_pair (st_recipient s) (st_sender s) to from"
  let ?Q = "\<lambda>m. sm_guid m = Some guid \<and> of_pair (sm_recipient m) (sm_sender m) to from"
  have le: "length (filter ?Q (ib_msgs b)) + length (filter ?P (stubs_of b)) \<le> 1" by (rule guid_once [OF assms(1)])
  have "s \<in> set (filter ?P (stubs_of b))" using assms(2-4) by simp
  with le have "filter ?P (stubs_of b) = [s]" "filter ?Q (ib_msgs b) = []" by (cases "filter ?P (stubs_of b)"; auto)+
  then show ?thesis by (simp add: find_guid_in_def find_head_filter)
qed


text \<open>The row of a message that is open, or the stub retention left of it.\<close>

lemma prune_open:
  assumes "inbox_inv b" "m \<in> set (ib_msgs b)" "is_private m" "is_open now unread m"
  shows "m \<in> set (ib_msgs (snd (prune now unread rd b))) \<or> stub_of m \<in> set (stubs_of (snd (prune now unread rd b)))"
proof (cases "keeps now unread rd m")
  case True
  then show ?thesis using assms(2,4) unfolding prune_frame by (force simp: prune_cut_def)
next
  case False
  then have "m \<in> set (prune_leaves now unread rd b)" using assms by (simp add: prune_leaves_def)
  then have "(sm_reference m, stub_of m) \<in># mset (fold (\<lambda>m. om_put (sm_reference m) (stub_of m)) (prune_leaves now unread rd b) (ib_stubs b))"
    unfolding prune_put [OF assms(1)] by auto
  then have "(sm_reference m, stub_of m) \<in> set (ib_stubs (snd (prune now unread rd b)))"
    unfolding prune_frame using assms(4) by (simp add: is_open_def stub_of_def)
  then show ?thesis unfolding stubs_of_def by force
qed

lemma push_found:
  assumes "inbox_inv b" "nm_guid n = Some guid"
  shows "m \<in> set (ib_msgs b) \<Longrightarrow> sm_guid m = Some guid \<Longrightarrow> of_pair (sm_recipient m) (sm_sender m) (nm_recipient n) (nm_sender n) \<Longrightarrow>
      push g n cap rnd b = (Inr (PuExisting m), b)"
    "s \<in> set (stubs_of b) \<Longrightarrow> st_guid s = Some guid \<Longrightarrow> of_pair (st_recipient s) (st_sender s) (nm_recipient n) (nm_sender n) \<Longrightarrow>
      push g n cap rnd b = (Inr (PuPruned (st_reference s) (st_signed s)), b)"
  using find_row [OF assms(1), of m guid "nm_recipient n" "nm_sender n"] find_stub [OF assms(1), of s guid "nm_recipient n" "nm_sender n"]
  by (auto simp: push_def assms(2))

lemma push_stored:
  assumes "push g m cap (Some r) b = (Inr (PuStored i r' c), b')"
  shows "r' = r \<and> stored_of m i r c \<in> set (ib_msgs b')"
  using assms by (auto simp: push_def push_fresh_def push_row_def Let_def split: option.splits Inbox.found.splits if_splits)

text \<open>C25: A private message that was stored is answered for as long as it is open: a retry with its guid, between the
  same mailboxes, stores nothing and answers with the row, under the reference it was stored under; and after it was
  delivered or read and retention ran, with that row's reference or the stub that stands for it, whichever is left.\<close>

theorem retry_answered:
  assumes "ib_step\<^sup>*\<^sup>* ({}, empty_inbox) (u, b)" "ib_allows u (IPush m cap (Some r))"
    "push g m cap (Some r) b = (Inr (PuStored i r' c), b')"
    "nm_guid m = Some guid" "nm_kind m = MkMessage" "nm_friendship m = None" "elapsed now (nm_sent_at m) < unread"
    "nm_guid n = Some guid" "of_pair (nm_recipient m) (nm_sender m) (nm_recipient n) (nm_sender n)"
    "b'' = snd (prune now unread rd (mark_delivered ids at what b'))"
  shows "push g' n cap' rnd b' = (Inr (PuExisting (stored_of m i r c)), b')
    \<and> (push g' n cap' rnd b'' = (Inr (PuExisting (mark_one ids at what (stored_of m i r c))), b'')
       \<or> push g' n cap' rnd b'' = (Inr (PuPruned r (map_option sg_content (nm_signed m))), b''))"
proof -
  let ?x = "stored_of m i r c" and ?y = "mark_one ids at what (stored_of m i r c)" and ?bd = "mark_delivered ids at what b'"
  have "ib_step (u, b) (u \<union> ib_drawn (IPush m cap (Some r)), ib_serve g (IPush m cap (Some r)) b)"
    by (rule ib_step.serve [OF assms(2)])
  then have "ib_step\<^sup>*\<^sup>* ({}, empty_inbox) (u \<union> {r}, b')" using assms(1) by (simp add: assms(3))
  then have inv: "inbox_inv b'" by (rule run_inv)
  have invd: "inbox_inv ?bd" by (rule inv_less [OF inv plain_writes_less(3)])
  have x: "?x \<in> set (ib_msgs b')" using push_stored [OF assms(3)] by simp
  then have y: "?y \<in> set (ib_msgs ?bd)" by (auto simp: mark_delivered_def)
  have fields: "sm_guid ?y = Some guid" "sm_recipient ?y = nm_recipient m" "sm_sender ?y = nm_sender m" "sm_reference ?y = r"
    "sm_signed ?y = nm_signed m" "is_private ?y" "is_open now unread ?y"
    using assms(4-7) by (simp_all add: mark_one_def stored_of_def is_private_def is_mail_def is_open_def)
  have "push g' n cap' rnd b' = (Inr (PuExisting ?x), b')"
    by (rule push_found(1) [OF inv assms(8) x]) (use assms(4,9) in \<open>simp_all add: stored_of_def\<close>)
  moreover have inv2: "inbox_inv b''" unfolding assms(10) by (rule prune_inv [OF invd])
  then have "push g' n cap' rnd b'' = (Inr (PuExisting ?y), b'')" if "?y \<in> set (ib_msgs b'')"
    by (rule push_found(1) [OF _ assms(8) that]) (simp_all add: fields assms(9))
  moreover have "push g' n cap' rnd b'' = (Inr (PuPruned r (map_option sg_content (nm_signed m))), b'')" if "stub_of ?y \<in> set (stubs_of b'')"
    using push_found(2) [OF inv2 assms(8) that] by (simp add: stub_of_def fields assms(9))
  moreover have "?y \<in> set (ib_msgs b'') \<or> stub_of ?y \<in> set (stubs_of b'')"
    unfolding assms(10) by (rule prune_open [OF invd y fields(6,7)])
  ultimately show ?thesis by blast
qed

theorem retry_answered_witness:
  "fst (push None hello 50 (Some [2]) one_hello) = Inr (PuExisting (stored_of hello 1 [1] 1))
   \<and> fst (push None hello 50 (Some [2]) (snd (prune 100 200 5 (mark_delivered [1] 20 DeRead one_hello)))) = Inr (PuPruned [1] None)"
proof -
  have p: "push None hello 50 (Some [1]) empty_inbox = (Inr (PuStored 1 [1] 1), one_hello)" unfolding one_hello_def by code_simp
  have h: "nm_guid hello = Some (MessageGuid ''g1'')" "nm_kind hello = MkMessage" "nm_friendship hello = None"
    "elapsed 100 (nm_sent_at hello) < 200" "of_pair (nm_recipient hello) (nm_sender hello) (nm_recipient hello) (nm_sender hello)"
    by code_simp+
  have a: "ib_allows {} (IPush hello 50 (Some [1]))" by (simp add: plain_hello)
  have "fst (push None hello 50 (Some [2]) (snd (prune 100 200 5 (mark_delivered [1] 20 DeRead one_hello)))) \<noteq>
      Inr (PuExisting (mark_one [1] 20 DeRead (stored_of hello 1 [1] 1)))" by code_simp
  then show ?thesis
    using retry_answered [OF rtranclp.rtrancl_refl a p h(1-4) h(1,5) refl, where g' = None and cap' = 50 and rnd = "Some [2]"
        and rd = 5 and ids = "[1]" and at = 20 and what = DeRead] by (auto simp: hello_def)
qed


subsection \<open>Merges lose no message\<close>

lemma moved_key_of: "moved_key k k' t = (\<lambda>(a, s, g). (if a = k then k' else a, map_option (\<lambda>x. if x = k then k' else x) s, g)) (guid_key_of t)"
  by (simp add: moved_key_def guid_key_of_def option.map_comp comp_def)

lemma merged_found:
  assumes "\<And>m. moves m \<longleftrightarrow> mkey m = k" "moved_key k (ByFp f) ` set (trips b) = guid_key_of ` set (trips b')"
  shows "find_guid_in b' to' from' guid \<noteq> None \<longleftrightarrow>
    (\<exists>to from. find_guid_in b to from guid \<noteq> None \<and> of_pair (stamp moves f to) (map_option (stamp moves f) from) to' from')"
    (is "_ \<longleftrightarrow> ?R")
proof -
  let ?mv = "\<lambda>x. if x = k then ByFp f else x"
  have st: "mkey (stamp moves f m) = ?mv (mkey m)" for m using assms(1) [of m] by (auto simp: stamp_def mkey_def)
  have "find_guid_in b' to' from' guid \<noteq> None \<longleftrightarrow> (mkey to', map_option mkey from', Some guid) \<in> moved_key k (ByFp f) ` set (trips b)"
    by (simp only: find_guid_None assms(2) not_not)
  also have "\<dots> \<longleftrightarrow> ?R"
  proof
    assume "(mkey to', map_option mkey from', Some guid) \<in> moved_key k (ByFp f) ` set (trips b)"
    then obtain t where t: "t \<in> set (trips b)" "moved_key k (ByFp f) t = (mkey to', map_option mkey from', Some guid)" by force
    obtain a s where abc: "t = (a, s, Some guid)" using t(2) by (cases t) (simp add: moved_key_def)
    have "guid_key_of t = (mkey a, map_option mkey s, Some guid)" by (simp add: guid_key_of_def abc)
    then have "find_guid_in b a s guid \<noteq> None" unfolding find_guid_None using t(1) by (metis image_eqI)
    moreover have "of_pair (stamp moves f a) (map_option (stamp moves f) s) to' from'"
      using t(2) by (simp add: of_pair_keys st moved_key_def abc option.map_comp comp_def cong: if_cong)
    ultimately show ?R by blast
  next
    assume ?R
    then obtain a s where r: "find_guid_in b a s guid \<noteq> None" "of_pair (stamp moves f a) (map_option (stamp moves f) s) to' from'" by blast
    from r(1) have "(mkey a, map_option mkey s, Some guid) \<in> guid_key_of ` set (trips b)" by (simp only: find_guid_None not_not)
    then obtain t where t: "t \<in> set (trips b)" "guid_key_of t = (mkey a, map_option mkey s, Some guid)" by force
    have "moved_key k (ByFp f) t = (mkey to', map_option mkey from', Some guid)"
      using r(2) by (simp add: moved_key_of t(2) of_pair_keys st option.map_comp comp_def)
    then show "(mkey to', map_option mkey from', Some guid) \<in> moved_key k (ByFp f) ` set (trips b)" using t(1) by (metis image_eqI)
  qed
  finally show ?thesis .
qed

text \<open>C24: A claim of a login by a fingerprint, and a rotation from one key to another, lose no message and make none
  up.  After either, there is a message with a guid between two mailboxes, as a row or as a stub, exactly if before it
  there was one between mailboxes that are those two once the claimed login, or the old key, is stamped with the new
  key.\<close>

theorem merges_lose_nothing:
  assumes "ib_step\<^sup>*\<^sup>* ({}, empty_inbox) (u, b)" "length f = 32" "k \<noteq> f"
  shows "(find_guid_in (snd (ib_claim l f b)) to' from' guid \<noteq> None \<longleftrightarrow>
      (\<exists>to from. find_guid_in b to from guid \<noteq> None
         \<and> of_pair (stamp (claim_moves l) f to) (map_option (stamp (claim_moves l) f) from) to' from'))
    \<and> (find_guid_in (snd (ib_rotate k f b)) to' from' guid \<noteq> None \<longleftrightarrow>
      (\<exists>to from. find_guid_in b to from guid \<noteq> None
         \<and> of_pair (stamp (rotate_moves k) f to) (map_option (stamp (rotate_moves k) f) from) to' from'))"
proof
  note inv = run_inv [OF assms(1)]
  obtain b2 where c: "ib_claim l f b = stamp_all (claim_moves l) f b2"
    "map sig (ib_msgs b2) = map sig (ib_msgs (collapse (rotate_moves f) (claim_moves l) (key_moved (claim_moves l) f) b))"
    "ib_stubs b2 = ib_stubs (collapse (rotate_moves f) (claim_moves l) (key_moved (claim_moves l) f) b)"
    by (rule claim_merges)
  show "find_guid_in (snd (ib_claim l f b)) to' from' guid \<noteq> None \<longleftrightarrow>
      (\<exists>to from. find_guid_in b to from guid \<noteq> None
         \<and> of_pair (stamp (claim_moves l) f to) (map_option (stamp (claim_moves l) f) from) to' from')"
    unfolding c(1)
    by (rule merged_found [OF claim_moves_key merge_keeps [OF inv claim_moves_key rotate_moves_key assms(2) _ c(2,3)]]) simp
  obtain b3 where r: "ib_rotate k f b = stamp_all (rotate_moves k) f b3"
    "map sig (ib_msgs b3) = map sig (ib_msgs (collapse (rotate_moves f) (rotate_moves k) (key_moved (rotate_moves k) f) b))"
    "ib_stubs b3 = ib_stubs (collapse (rotate_moves f) (rotate_moves k) (key_moved (rotate_moves k) f) b)"
    by (rule rotate_merges)
  show "find_guid_in (snd (ib_rotate k f b)) to' from' guid \<noteq> None \<longleftrightarrow>
      (\<exists>to from. find_guid_in b to from guid \<noteq> None
         \<and> of_pair (stamp (rotate_moves k) f to) (map_option (stamp (rotate_moves k) f) from) to' from')"
    unfolding r(1)
    by (rule merged_found [OF rotate_moves_key merge_keeps [OF inv rotate_moves_key rotate_moves_key assms(2) _ r(2,3)]])
      (simp add: assms(3))
qed

definition pal_fp :: fp where "pal_fp = replicate 32 9"

theorem merges_lose_nothing_witness:
  "find_guid_in (snd (ib_claim ''pal'' pal_fp one_hello)) (mailbox_identified ''pal'' pal_fp) (Some ida) (MessageGuid ''g1'') \<noteq> None
   \<and> find_guid_in (snd (ib_rotate (replicate 32 7) pal_fp one_hello)) pal (Some (mailbox_identified ''ida'' pal_fp)) (MessageGuid ''g1'') \<noteq> None"
proof -
  have len: "length pal_fp = 32" "replicate 32 7 \<noteq> pal_fp" by code_simp+
  have held: "find_guid_in one_hello pal (Some ida) (MessageGuid ''g1'') \<noteq> None" by code_simp
  moreover have "of_pair (stamp (claim_moves ''pal'') pal_fp pal) (map_option (stamp (claim_moves ''pal'') pal_fp) (Some ida))
      (mailbox_identified ''pal'' pal_fp) (Some ida)"
    "of_pair (stamp (rotate_moves (replicate 32 7)) pal_fp pal) (map_option (stamp (rotate_moves (replicate 32 7)) pal_fp) (Some ida))
      pal (Some (mailbox_identified ''ida'' pal_fp))" by code_simp+
  ultimately show ?thesis using merges_lose_nothing [OF one_hello_run len] by blast
qed


subsection \<open>Messages do not change\<close>

text \<open>C26: Over any run of writes from a reachable inbox, a row that is still there under its reference holds what it
  held, its id, text, sender's nick, time, kind, media, signature and what it answers; a time of delivery or of reading, once set,
  stays; its guid is the one it had, or forgotten.  A row that is gone does not come back under its reference.\<close>

theorem messages_do_not_change:
  assumes "ib_step\<^sup>*\<^sup>* ({}, empty_inbox) x" "ib_step\<^sup>*\<^sup>* x y" "m' \<in> set (ib_msgs (snd y))" "sm_reference m' \<in> fst x"
  shows "\<exists>m\<in>set (ib_msgs (snd x)). sm_reference m' = sm_reference m \<and> sm_id m' = sm_id m \<and> sm_body m' = sm_body m
    \<and> sm_sender_nick m' = sm_sender_nick m \<and> sm_sent_at m' = sm_sent_at m \<and> sm_kind m' = sm_kind m
    \<and> sm_media m' = sm_media m \<and> sm_signed m' = sm_signed m \<and> sm_re m' = sm_re m
    \<and> sm_guid m' \<in> {None, sm_guid m}
    \<and> sm_delivered_at m \<in> {None, sm_delivered_at m'} \<and> sm_read_at m \<in> {None, sm_read_at m'}"
proof -
  have "ib_ok x" by (rule ibx.run_ok [OF assms(1) empty_inbox_ok])
  from ibx.run_le [OF assms(2) this] obtain m where "m \<in> set (ib_msgs (snd x))" "msg_le m m'"
    using assms(3,4) by (auto simp: ib_le_def)
  then show ?thesis by (intro bexI [of _ m]) (auto simp: msg_le_def once_def)
qed

theorem messages_do_not_change_witness:
  "sm_body (hd (ib_msgs (mark_delivered [1] 20 DeRead one_hello))) = ''hello''"
proof -
  let ?m = "mark_one [1] 20 DeRead (stored_of hello 1 [1] 1)"
  have "ib_step ({[1]}, one_hello) ({[1]} \<union> ib_drawn (IDelivered [1] 20 DeRead), ib_serve None (IDelivered [1] 20 DeRead) one_hello)"
    by (rule ib_step.serve) simp
  then have run: "ib_step\<^sup>*\<^sup>* ({[1]}, one_hello) ({[1]}, mark_delivered [1] 20 DeRead one_hello)" by auto
  have rows: "ib_msgs one_hello = [stored_of hello 1 [1] 1]" by code_simp
  have "?m \<in> set (ib_msgs (snd ({[1::u8]}, mark_delivered [1] 20 DeRead one_hello)))" by (simp add: mark_delivered_def rows)
  moreover have "sm_reference ?m \<in> fst ({[1]}, one_hello)" by (simp add: mark_one_def stored_of_def)
  ultimately have "sm_body ?m = ''hello''"
    using messages_do_not_change [OF one_hello_run run, of ?m] by (auto simp: rows stored_of_def hello_def)
  then show ?thesis by (simp add: mark_delivered_def rows)
qed

end
