(* ===== verification/News.thy ===== *)
theory News
  imports Inbox "HOL-Library.Product_Lexorder"
begin

section \<open>Threaded news\<close>

text \<open>
  The data of \<^verbatim>\<open>crates/hxd-core/src/news.rs\<close> and the state and reads of \<^verbatim>\<open>news/memory.rs\<close>: a tree of bundles and
  categories, articles in categories, replies below articles, references between articles, subscriptions and
  imported feeds.  The record \<open>news\<close> is \<^verbatim>\<open>Inner\<close>.

  What the code refuses is \<open>Refused\<close>, with the errors the store answers; where it would panic the model answers
  \<open>Panicked\<close>.  The memory store keeps no attachments, so those fields, always empty, are left out; so is search, which
  reads Unicode words.
\<close>


subsection \<open>Nodes and articles\<close>

type_synonym node_id = u64
type_synonym article_id = u32
type_synonym feed_id = u64

datatype node_kind = Bundle | Category

primrec node_kind_i64 :: "node_kind \<Rightarrow> int" where
  "node_kind_i64 Bundle = 0"
| "node_kind_i64 Category = 1"

definition node_kind_of :: "int \<Rightarrow> node_kind option" where
  "node_kind_of n = (if n = 0 then Some Bundle else if n = 1 then Some Category else None)"

primrec node_kind_name :: "node_kind \<Rightarrow> string" where
  "node_kind_name Bundle = ''bundle''"
| "node_kind_name Category = ''category''"

definition node_kind_named :: "string \<Rightarrow> node_kind option" where
  "node_kind_named s = (if s = ''bundle'' then Some Bundle else if s = ''category'' then Some Category else None)"

datatype body_type = BtPlain | BtMarkdown

primrec body_mime :: "body_type \<Rightarrow> string" where
  "body_mime BtPlain = ''text/plain''"
| "body_mime BtMarkdown = ''text/markdown''"

definition body_of_mime :: "string \<Rightarrow> body_type option" where
  "body_of_mime s = (if s = ''text/plain'' then Some BtPlain else if s = ''text/markdown'' then Some BtMarkdown else None)"

record author =
  au_nick :: string
  au_login :: "string option"
  au_fp :: "fp option"

definition author_is :: "author \<Rightarrow> mailbox \<Rightarrow> bool" where
  "author_is a who = (case au_login a of Some l \<Rightarrow> mailbox_matches who l (au_fp a) | None \<Rightarrow> False)"

record article_signature =
  sgn_form :: bytes
  sgn_content :: bytes
  sgn_signer :: bytes
  sgn_id :: bytes

record node_row =
  nn_id :: node_id
  nn_parent :: "node_id option"
  nn_kind :: node_kind
  nn_name :: string
  nn_guid :: bytes
  nn_add_sn :: u32
  nn_delete_sn :: u32
  nn_created_at :: systime

text \<open>\<open>Node\<close>, as it is shown: the row and how much it holds.\<close>

record node_view = node_row +
  nn_children :: u32

record article_row =
  art_id :: article_id
  art_category :: node_id
  art_parent :: "article_id option"
  art_root :: article_id
  art_path :: bytes
  art_depth :: u16
  art_author :: author
  art_guest :: "bytes option"
  art_subject :: string
  art_body :: string
  art_mime :: body_type
  art_plain :: "string option"
  art_at :: systime
  art_deleted :: bool
  art_feed :: "feed_id option"
  art_signed :: "article_signature option"

record reference =
  rf_id :: article_id
  rf_subject :: string
  rf_nick :: string
  rf_at :: systime
  rf_deleted :: bool

record article =
  av_id :: article_id
  av_category :: node_id
  av_parent :: "article_id option"
  av_root :: article_id
  av_depth :: u16
  av_author :: author
  av_subject :: string
  av_body :: string
  av_mime :: body_type
  av_plain :: "string option"
  av_at :: systime
  av_deleted :: bool
  av_refs :: "reference list"
  av_referenced_by :: u32
  av_feed :: "string option"
  av_signed :: "article_signature option"

record thread_head =
  th_article :: article
  th_replies :: u32
  th_last_at :: systime
  th_last_id :: article_id


subsection \<open>Subscriptions and feeds\<close>

datatype sub_scope = ScThread article_id | ScCategory node_id

primrec scope_kind :: "sub_scope \<Rightarrow> int" where
  "scope_kind (ScThread r) = 0"
| "scope_kind (ScCategory c) = 1"

primrec scope_target :: "sub_scope \<Rightarrow> u64" where
  "scope_target (ScThread r) = ucast r"
| "scope_target (ScCategory c) = c"

definition scope_of_parts :: "int \<Rightarrow> int \<Rightarrow> sub_scope option" where
  "scope_of_parts kind t =
     (if kind = 0 then (if 0 \<le> t \<and> t < 2 ^ 32 then Some (ScThread (word_of_int t)) else None)
      else if kind = 1 then (if 0 \<le> t then Some (ScCategory (word_of_int t)) else None)
      else None)"

record sub_row =
  sb_id :: u64
  sb_owner :: mailbox
  sb_scope :: sub_scope
  sb_auto :: bool
  sb_muted :: bool
  sb_last_seen :: article_id
  sb_at :: systime

record feed_row =
  fd_name :: string
  fd_url :: string
  fd_etag :: "string option"
  fd_last_modified :: "string option"
  fd_last_ok :: "systime option"
  fd_last_error :: "string option"
  fd_failures :: u32

record feed_item =
  fi_article :: "article_id option"
  fi_hash :: bytes
  fi_last_seen :: systime


subsection \<open>The state\<close>

record news =
  nw_last_node :: node_id
  nw_last_article :: u64
  nw_nodes :: "node_row list"
  nw_articles :: "article_row list"
  nw_refs :: "(article_id \<times> article_id) list"
  nw_last_sub :: u64
  nw_subs :: "sub_row list"
  nw_feeds :: "feed_row list"
  nw_feed_items :: "(feed_id \<times> bytes, feed_item) omap"

definition empty_news :: news where
  "empty_news = \<lparr>nw_last_node = 0, nw_last_article = 0, nw_nodes = [], nw_articles = [], nw_refs = [], nw_last_sub = 0,
     nw_subs = [], nw_feeds = [], nw_feed_items = []\<rparr>"

datatype news_error =
    NoSuchNode
  | NoSuchArticle
  | NotACategory
  | WrongCategory
  | TooDeep
  | NameTaken
  | NotEmpty
  | BadRequest string
  | TooManySubs
  | NoSuchMedia
  | NewsStore string

datatype fault = Refused news_error | Panicked

definition node_at :: "news \<Rightarrow> node_id \<Rightarrow> node_row option" where
  "node_at s i = find (\<lambda>n. nn_id n = i) (nw_nodes s)"

text \<open>\<open>node_mut\<close> with what is written through it: the first node of that id.\<close>

primrec change_first :: "('a \<Rightarrow> bool) \<Rightarrow> ('a \<Rightarrow> 'a) \<Rightarrow> 'a list \<Rightarrow> 'a list" where
  "change_first P f [] = []"
| "change_first P f (x # xs) = (if P x then f x # xs else x # change_first P f xs)"

definition node_change :: "node_id \<Rightarrow> (node_row \<Rightarrow> node_row) \<Rightarrow> news \<Rightarrow> news" where
  "node_change i f s = s\<lparr>nw_nodes := change_first (\<lambda>n. nn_id n = i) f (nw_nodes s)\<rparr>"

definition bump_add :: "node_row \<Rightarrow> node_row" where
  "bump_add n = n\<lparr>nn_add_sn := nn_add_sn n + 1\<rparr>"

definition bump_delete :: "node_row \<Rightarrow> node_row" where
  "bump_delete n = n\<lparr>nn_delete_sn := nn_delete_sn n + 1\<rparr>"

definition news_category :: "news \<Rightarrow> node_id \<Rightarrow> fault + node_row" where
  "news_category s i = (case node_at s i of
     None \<Rightarrow> Inl (Refused NoSuchNode)
   | Some n \<Rightarrow> if nn_kind n \<noteq> Category then Inl (Refused NotACategory) else Inr n)"

definition row_of :: "news \<Rightarrow> article_id \<Rightarrow> article_row option" where
  "row_of s i = find (\<lambda>a. art_id a = i) (nw_articles s)"

definition view_node :: "news \<Rightarrow> node_row \<Rightarrow> node_view" where
  "view_node s n = node_row.extend n (node_view.fields (word_of_nat (case nn_kind n of
     Bundle \<Rightarrow> length (filter (\<lambda>c. nn_parent c = Some (nn_id n)) (nw_nodes s))
   | Category \<Rightarrow> length (filter (\<lambda>a. art_category a = nn_id n \<and> \<not> art_deleted a) (nw_articles s)))))"

definition reference_of :: "article_row \<Rightarrow> reference" where
  "reference_of a = \<lparr>rf_id = art_id a, rf_subject = art_subject a, rf_nick = au_nick (art_author a), rf_at = art_at a,
     rf_deleted = art_deleted a\<rparr>"

text \<open>The name of an article's feed is read by index, which panics past the end.\<close>

definition feed_name :: "news \<Rightarrow> feed_id \<Rightarrow> string option" where
  "feed_name s f = (if f \<noteq> 0 \<and> unat f - 1 < length (nw_feeds s) then Some (fd_name (nw_feeds s ! (unat f - 1))) else None)"

definition view_article :: "news \<Rightarrow> article_row \<Rightarrow> article option" where
  "view_article s a =
     (let show = (\<lambda>name. \<lparr>av_id = art_id a, av_category = art_category a, av_parent = art_parent a, av_root = art_root a,
        av_depth = art_depth a, av_author = art_author a, av_subject = art_subject a, av_body = art_body a,
        av_mime = art_mime a, av_plain = art_plain a, av_at = art_at a, av_deleted = art_deleted a,
        av_refs = map reference_of (List.map_filter (\<lambda>(src, dst). if src = art_id a then row_of s dst else None) (nw_refs s)),
        av_referenced_by = word_of_nat (length (filter (\<lambda>(src, dst). dst = art_id a) (nw_refs s))),
        av_feed = name, av_signed = art_signed a\<rparr>)
      in case art_feed a of None \<Rightarrow> Some (show None) | Some f \<Rightarrow> map_option (\<lambda>n. show (Some n)) (feed_name s f))"

definition in_thread :: "news \<Rightarrow> article_id \<Rightarrow> article_row list" where
  "in_thread s r = filter (\<lambda>a. art_root a = r) (nw_articles s)"

definition thread_head_of :: "news \<Rightarrow> article_row \<Rightarrow> thread_head option" where
  "thread_head_of s root =
     (let (count, last_at, last_id) = fold (\<lambda>a (c, t, i). (c + 1, max t (art_at a), max i (art_id a)))
            (in_thread s (art_id root)) (0, art_at root, art_id root)
      in map_option (\<lambda>v. \<lparr>th_article = v, th_replies = count - 1, th_last_at = last_at, th_last_id = last_id\<rparr>)
           (view_article s root))"

text \<open>\<open>level\<close> follows parents; \<open>None\<close> would be a loop that does not end.\<close>

partial_function (option) level_from :: "news \<Rightarrow> node_id \<Rightarrow> u16 \<Rightarrow> u16 option" where
  "level_from s i level =
     (case node_at s i of
        None \<Rightarrow> Some level
      | Some n \<Rightarrow> (case nn_parent n of
           None \<Rightarrow> Some (level + 1)
         | Some p \<Rightarrow> level_from s p (level + 1)))"

declare level_from.simps [code]

definition level :: "news \<Rightarrow> node_id \<Rightarrow> u16 option" where
  "level s i = level_from s i 0"

definition name_taken :: "news \<Rightarrow> node_id option \<Rightarrow> string \<Rightarrow> node_id option \<Rightarrow> bool" where
  "name_taken s parent name except =
     list_ex (\<lambda>n. nn_parent n = parent \<and> nn_name n = name \<and> Some (nn_id n) \<noteq> except) (nw_nodes s)"

definition remove_articles :: "article_id list \<Rightarrow> news \<Rightarrow> news" where
  "remove_articles gone s =
     s\<lparr>nw_feed_items := om_map (\<lambda>it. case fi_article it of
           Some a \<Rightarrow> if a \<in> set gone then it\<lparr>fi_article := None\<rparr> else it | None \<Rightarrow> it) (nw_feed_items s),
       nw_articles := filter (\<lambda>a. art_id a \<notin> set gone) (nw_articles s),
       nw_refs := filter (\<lambda>(src, dst). src \<notin> set gone \<and> dst \<notin> set gone) (nw_refs s)\<rparr>"

definition scope_has :: "sub_scope \<Rightarrow> article_row \<Rightarrow> bool" where
  "scope_has sc a = (case sc of ScThread r \<Rightarrow> art_root a = r | ScCategory c \<Rightarrow> art_category a = c \<and> art_parent a = None)"

definition in_scope :: "news \<Rightarrow> sub_scope \<Rightarrow> article_row list" where
  "in_scope s sc = filter (scope_has sc) (nw_articles s)"

definition newest :: "news \<Rightarrow> sub_scope \<Rightarrow> article_id" where
  "newest s sc = fold max (map art_id (in_scope s sc)) 0"

definition counts_unread :: "mailbox \<Rightarrow> article_id \<Rightarrow> article_id \<Rightarrow> article_row \<Rightarrow> bool" where
  "counts_unread owner last_seen before a \<longleftrightarrow> last_seen < art_id a \<and> art_id a < before
     \<and> \<not> art_deleted a \<and> \<not> author_is (art_author a) owner"

definition unread_before :: "news \<Rightarrow> mailbox \<Rightarrow> sub_scope \<Rightarrow> article_id \<Rightarrow> article_id \<Rightarrow> nat" where
  "unread_before s owner sc last_seen before = length (filter (counts_unread owner last_seen before) (in_scope s sc))"

definition unread :: "news \<Rightarrow> mailbox \<Rightarrow> sub_scope \<Rightarrow> article_id \<Rightarrow> nat" where
  "unread s owner sc last_seen = unread_before s owner sc last_seen (- 1)"

definition earlier_span :: "news \<Rightarrow> mailbox \<Rightarrow> sub_scope \<Rightarrow> article_id \<Rightarrow> article_id \<Rightarrow> (systime \<times> systime) option" where
  "earlier_span s owner sc last_seen before =
     fold (\<lambda>at span. case span of None \<Rightarrow> Some (at, at) | Some (oldest, nw) \<Rightarrow> Some (min oldest at, max nw at))
       (map art_at (filter (counts_unread owner last_seen before) (in_scope s sc))) None"

definition check_target :: "news \<Rightarrow> sub_scope \<Rightarrow> fault + unit" where
  "check_target s sc = (case sc of
     ScThread r \<Rightarrow> (case row_of s r of
         Some a \<Rightarrow> if art_parent a = None then Inr () else Inl (Refused NoSuchArticle)
       | None \<Rightarrow> Inl (Refused NoSuchArticle))
   | ScCategory c \<Rightarrow> (case node_at s c of
         None \<Rightarrow> Inl (Refused NoSuchNode)
       | Some n \<Rightarrow> if nn_kind n \<noteq> Category then Inl (Refused NotACategory) else Inr ()))"

definition owns :: "mailbox \<Rightarrow> mailbox \<Rightarrow> bool" where
  "owns who row = mailbox_matches who (mb_login row) (mb_fp row)"

definition is_sub :: "mailbox \<Rightarrow> sub_scope \<Rightarrow> sub_row \<Rightarrow> bool" where
  "is_sub owner sc r \<longleftrightarrow> sb_scope r = sc \<and> owns owner (sb_owner r)"

definition sub_at :: "news \<Rightarrow> mailbox \<Rightarrow> sub_scope \<Rightarrow> sub_row option" where
  "sub_at s owner sc = find (is_sub owner sc) (nw_subs s)"

definition sub_change :: "mailbox \<Rightarrow> sub_scope \<Rightarrow> (sub_row \<Rightarrow> sub_row) \<Rightarrow> news \<Rightarrow> news" where
  "sub_change owner sc f s = s\<lparr>nw_subs := change_first (is_sub owner sc) f (nw_subs s)\<rparr>"

definition add_sub :: "mailbox \<Rightarrow> sub_scope \<Rightarrow> bool \<Rightarrow> bool \<Rightarrow> nat \<Rightarrow> systime \<Rightarrow> news \<Rightarrow> (fault + article_id) \<times> news" where
  "add_sub owner sc auto muted max_subs at s =
     (case check_target s sc of
        Inl e \<Rightarrow> (Inl e, s)
      | Inr _ \<Rightarrow>
         if max_subs \<le> length (filter (\<lambda>r. owns owner (sb_owner r)) (nw_subs s)) then (Inl (Refused TooManySubs), s)
         else (Inr (newest s sc),
           s\<lparr>nw_last_sub := nw_last_sub s + 1,
             nw_subs := nw_subs s @ [\<lparr>sb_id = nw_last_sub s + 1, sb_owner = owner, sb_scope = sc, sb_auto = auto,
               sb_muted = muted, sb_last_seen = newest s sc, sb_at = at\<rparr>]\<rparr>))"

definition drop_orphan_subs :: "news \<Rightarrow> news" where
  "drop_orphan_subs s = s\<lparr>nw_subs := filter (\<lambda>r. case check_target s (sb_scope r) of Inr _ \<Rightarrow> True | Inl _ \<Rightarrow> False) (nw_subs s)\<rparr>"


subsection \<open>The tree\<close>

definition news_nodes :: "news \<Rightarrow> node_id option \<Rightarrow> node_view list" where
  "news_nodes s parent = sort_key nn_name (map (view_node s) (filter (\<lambda>n. nn_parent n = parent) (nw_nodes s)))"

definition news_node :: "news \<Rightarrow> node_id \<Rightarrow> node_view option" where
  "news_node s i = map_option (view_node s) (node_at s i)"

record new_node =
  ne_parent :: "node_id option"
  ne_kind :: node_kind
  ne_name :: string
  ne_guid :: bytes
  ne_at :: systime

definition create_level :: "new_node \<Rightarrow> news \<Rightarrow> fault + u16" where
  "create_level n s = (case ne_parent n of
     None \<Rightarrow> Inr 1
   | Some p \<Rightarrow> (case node_at s p of
        None \<Rightarrow> Inl (Refused NoSuchNode)
      | Some parent \<Rightarrow>
         if nn_kind parent \<noteq> Bundle then Inl (Refused NotACategory)
         else (case level s p of Some l \<Rightarrow> Inr (l + 1) | None \<Rightarrow> Inl Panicked)))"

definition row_for :: "new_node \<Rightarrow> news \<Rightarrow> node_row" where
  "row_for n s = \<lparr>nn_id = nw_last_node s + 1, nn_parent = ne_parent n, nn_kind = ne_kind n, nn_name = ne_name n,
     nn_guid = ne_guid n, nn_add_sn = 1, nn_delete_sn = 1, nn_created_at = floor_time (ne_at n)\<rparr>"

definition create_node :: "new_node \<Rightarrow> u16 \<Rightarrow> news \<Rightarrow> (fault + node_view) \<times> news" where
  "create_node n max_depth s =
     (case create_level n s of
        Inl e \<Rightarrow> (Inl e, s)
      | Inr l \<Rightarrow>
         if max_depth < l then (Inl (Refused TooDeep), s)
         else if name_taken s (ne_parent n) (ne_name n) None then (Inl (Refused NameTaken), s)
         else if list_ex (\<lambda>m. nn_guid m = ne_guid n) (nw_nodes s)
           then (Inl (Refused (NewsStore ''a node holds that guid already'')), s)
         else (Inr (view_node s (row_for n s)),
           s\<lparr>nw_last_node := nw_last_node s + 1, nw_nodes := nw_nodes s @ [row_for n s]\<rparr>))"

definition rename_node :: "node_id \<Rightarrow> string \<Rightarrow> news \<Rightarrow> (fault + node_view) \<times> news" where
  "rename_node i name s =
     (case node_at s i of
        None \<Rightarrow> (Inl (Refused NoSuchNode), s)
      | Some n \<Rightarrow>
         if name_taken s (nn_parent n) name (Some i) then (Inl (Refused NameTaken), s)
         else (let s' = node_change i (\<lambda>n. n\<lparr>nn_name := name\<rparr>) s
               in (Inr (view_node s' (n\<lparr>nn_name := name\<rparr>)), s')))"

definition delete_node :: "node_id \<Rightarrow> news \<Rightarrow> (fault + u64) \<times> news" where
  "delete_node i s =
     (case node_at s i of
        None \<Rightarrow> (Inl (Refused NoSuchNode), s)
      | Some n \<Rightarrow>
         if nn_kind n = Bundle \<and> list_ex (\<lambda>c. nn_parent c = Some i) (nw_nodes s) then (Inl (Refused NotEmpty), s)
         else (let gone = (case nn_kind n of
                     Bundle \<Rightarrow> []
                   | Category \<Rightarrow> map art_id (filter (\<lambda>a. art_category a = i) (nw_articles s)));
                   s1 = remove_articles gone s
               in (Inr (of_nat (length gone)),
                   drop_orphan_subs (s1\<lparr>nw_nodes := filter (\<lambda>n. nn_id n \<noteq> i) (nw_nodes s1)\<rparr>))))"


subsection \<open>Posting\<close>

record feed_post =
  fp_feed :: feed_id
  fp_key :: bytes
  fp_hash :: bytes
  fp_seen :: systime

record auto_follow =
  fo_owner :: mailbox
  fo_max_subs :: nat

record new_post =
  np_category :: node_id
  np_parent :: "article_id option"
  np_author :: author
  np_guest :: "bytes option"
  np_subject :: string
  np_body :: string
  np_mime :: body_type
  np_plain :: "string option"
  np_refs :: "article_id list"
  np_at :: systime
  np_follow :: "auto_follow option"
  np_attachments :: "bytes list"
  np_feed :: "feed_post option"
  np_signed :: "article_signature option"

record posted =
  po_id :: article_id
  po_root :: article_id

text \<open>Where a post hangs: the path of its parent, its depth and the root of its thread.\<close>

definition post_place :: "new_post \<Rightarrow> u16 \<Rightarrow> news \<Rightarrow> fault + (bytes \<times> u16 \<times> article_id option)" where
  "post_place p max_depth s =
     (case np_parent p of
        None \<Rightarrow> Inr ([], 0, None)
      | Some pid \<Rightarrow> (case row_of s pid of
           None \<Rightarrow> Inl (Refused NoSuchArticle)
         | Some parent \<Rightarrow>
            if art_category parent \<noteq> np_category p then Inl (Refused WrongCategory)
            else if max_depth < art_depth parent + 1 then Inl (Refused TooDeep)
            else Inr (art_path parent, art_depth parent + 1, Some (art_root parent))))"

text \<open>At most \<open>max_refs\<close> of the references, each once, and only to articles there are.\<close>

definition kept_refs :: "new_post \<Rightarrow> nat \<Rightarrow> news \<Rightarrow> article_id list" where
  "kept_refs p max_refs s =
     fold (\<lambda>dst kept. if length kept < max_refs \<and> dst \<notin> set kept \<and> row_of s dst \<noteq> None then kept @ [dst] else kept) (np_refs p) []"

definition article_for :: "new_post \<Rightarrow> article_id \<Rightarrow> bytes \<Rightarrow> u16 \<Rightarrow> article_id \<Rightarrow> article_row" where
  "article_for p i path depth root = \<lparr>art_id = i, art_category = np_category p, art_parent = np_parent p, art_root = root,
     art_path = path, art_depth = depth, art_author = np_author p,
     art_guest = (if au_login (np_author p) = None \<and> au_fp (np_author p) = None then np_guest p else None),
     art_subject = np_subject p, art_body = np_body p, art_mime = np_mime p, art_plain = np_plain p,
     art_at = floor_time (np_at p), art_deleted = False, art_feed = map_option fp_feed (np_feed p), art_signed = np_signed p\<rparr>"

definition follow_thread :: "auto_follow option \<Rightarrow> article_id \<Rightarrow> systime \<Rightarrow> news \<Rightarrow> (fault + unit) \<times> news" where
  "follow_thread fo root at s =
     (case fo of
        None \<Rightarrow> (Inr (), s)
      | Some f \<Rightarrow>
         if sub_at s (fo_owner f) (ScThread root) \<noteq> None then (Inr (), s)
         else (case add_sub (fo_owner f) (ScThread root) True False (fo_max_subs f) at s of
             (Inr _, s') \<Rightarrow> (Inr (), s')
           | (Inl (Refused TooManySubs), s') \<Rightarrow> (Inr (), s')
           | (Inl _, s') \<Rightarrow> (Inl Panicked, s')))"

text \<open>The writes of \<open>post\<close> once the post has its place.\<close>

definition post_write :: "new_post \<Rightarrow> nat \<Rightarrow> article_id \<Rightarrow> bytes \<Rightarrow> u16 \<Rightarrow> article_id \<Rightarrow> news \<Rightarrow> news" where
  "post_write p max_refs i path depth root s =
     node_change (np_category p) bump_add
       (s\<lparr>nw_last_article := nw_last_article s + 1,
          nw_refs := nw_refs s @ map (\<lambda>dst. (i, dst)) (kept_refs p max_refs s),
          nw_articles := nw_articles s @ [article_for p i path depth root],
          nw_feed_items := (case np_feed p of
             Some f \<Rightarrow> om_put (fp_feed f, fp_key f) \<lparr>fi_article = Some i, fi_hash = fp_hash f,
                 fi_last_seen = floor_time (fp_seen f)\<rparr> (nw_feed_items s)
           | None \<Rightarrow> nw_feed_items s)\<rparr>)"

definition post :: "new_post \<Rightarrow> u16 \<Rightarrow> nat \<Rightarrow> news \<Rightarrow> (fault + posted) \<times> news" where
  "post p max_depth max_refs s =
     (if np_attachments p \<noteq> [] then (Inl (Refused NoSuchMedia), s)
      else case news_category s (np_category p) of
        Inl e \<Rightarrow> (Inl e, s)
      | Inr _ \<Rightarrow> (case post_place p max_depth s of
           Inl e \<Rightarrow> (Inl e, s)
         | Inr (parent_path, depth, rt) \<Rightarrow>
            if 2 ^ 32 \<le> nw_last_article s + 1 then (Inl (Refused (NewsStore ''article ids exhausted'')), s)
            else (let i = ucast (nw_last_article s + 1) :: article_id;
                      root = (case rt of Some r \<Rightarrow> r | None \<Rightarrow> i);
                      s1 = post_write p max_refs i (parent_path @ be_bytes 4 (unat i)) depth root s
                  in case follow_thread (np_follow p) root (np_at p) s1 of
                       (Inr _, s2) \<Rightarrow> (Inr \<lparr>po_id = i, po_root = root\<rparr>, s2)
                     | (Inl e, s2) \<Rightarrow> (Inl e, s2))))"

end
