(* ===== verification/News_Store.thy ===== *)
theory News_Store
  imports News
begin

section \<open>Reading news, subscriptions and feeds\<close>

text \<open>
  The rest of \<^verbatim>\<open>NewsStore\<close> in \<^verbatim>\<open>crates/hxd-core/src/news/memory.rs\<close>: articles and pages of threads, tombstones and
  retention, listings, subscriptions with their unread counts, imported feeds.
\<close>


subsection \<open>Articles and pages\<close>

definition news_article :: "news \<Rightarrow> article_id \<Rightarrow> fault + article option" where
  "news_article s i = (case row_of s i of
     None \<Rightarrow> Inr None
   | Some a \<Rightarrow> (case view_article s a of Some v \<Rightarrow> Inr (Some v) | None \<Rightarrow> Inl Panicked))"

definition find_signed :: "news \<Rightarrow> bytes \<Rightarrow> bytes \<Rightarrow> (article_id \<times> bytes) option" where
  "find_signed s signer i =
     (case List.map_filter (\<lambda>a. case art_signed a of
             Some g \<Rightarrow> if sgn_signer g = signer \<and> sgn_id g = i then Some (art_id a, sgn_content g) else None
           | None \<Rightarrow> None) (nw_articles s) of
        [] \<Rightarrow> None
      | x # _ \<Rightarrow> Some x)"

record thread_query =
  tq_category :: node_id
  tq_before :: "article_id option"
  tq_after :: "article_id option"
  tq_limit :: nat

record thread_page =
  tp_threads :: "thread_head list"
  tp_has_more :: bool

definition is_alive :: "news \<Rightarrow> article_row \<Rightarrow> bool" where
  "is_alive s r = list_ex (\<lambda>a. art_root a = art_id r \<and> \<not> art_deleted a) (nw_articles s)"

definition thread_roots :: "news \<Rightarrow> thread_query \<Rightarrow> article_row list" where
  "thread_roots s q = filter (\<lambda>a. art_category a = tq_category q \<and> art_parent a = None
     \<and> (case tq_before q of Some b \<Rightarrow> art_id a < b | None \<Rightarrow> True)
     \<and> (case tq_after q of Some b \<Rightarrow> b < art_id a | None \<Rightarrow> True) \<and> is_alive s a) (nw_articles s)"

definition newest_first :: "article_row list \<Rightarrow> article_row list" where
  "newest_first as = sort_key (\<lambda>a. - uint (art_id a)) as"

definition threads :: "news \<Rightarrow> thread_query \<Rightarrow> fault + thread_page" where
  "threads s q =
     (if tq_limit q = 0 then Inl (Refused (BadRequest ''A page needs a limit of at least 1.''))
      else case news_category s (tq_category q) of
        Inl e \<Rightarrow> Inl e
      | Inr _ \<Rightarrow>
         (let roots = (if tq_after q \<noteq> None then sort_key art_id (thread_roots s q) else newest_first (thread_roots s q));
              page = take (tq_limit q) roots
          in case those (map (thread_head_of s) (if tq_after q \<noteq> None then rev page else page)) of
               Some hs \<Rightarrow> Inr \<lparr>tp_threads = hs, tp_has_more = tq_limit q < length roots\<rparr>
             | None \<Rightarrow> Inl Panicked))"

record article_page =
  ap_articles :: "article list"
  ap_has_more :: bool
  ap_snapshot :: article_id

text \<open>The cursor of a page: the path of the article it comes after.\<close>

definition thread_from :: "news \<Rightarrow> article_id \<Rightarrow> article_id option \<Rightarrow> article_id \<Rightarrow> fault + bytes" where
  "thread_from s root after snapshot =
     (case after of
        None \<Rightarrow> Inr []
      | Some i \<Rightarrow> (case row_of s i of
           None \<Rightarrow> Inl (Refused NoSuchArticle)
         | Some a \<Rightarrow>
            if art_root a \<noteq> root then Inl (Refused NoSuchArticle)
            else if snapshot < i then Inl (Refused (BadRequest ''The cursor is past this snapshot.''))
            else Inr (art_path a)))"

definition thread_rows :: "news \<Rightarrow> article_id \<Rightarrow> article_id option \<Rightarrow> article_id \<Rightarrow> bytes \<Rightarrow> article_row list" where
  "thread_rows s root after snapshot p =
     sort_key art_path (filter (\<lambda>a. art_root a = root \<and> art_id a \<le> snapshot \<and> (after = None \<or> p < art_path a)) (nw_articles s))"

definition thread :: "news \<Rightarrow> article_id \<Rightarrow> article_id option \<Rightarrow> article_id option \<Rightarrow> nat \<Rightarrow> fault + article_page" where
  "thread s root after snapshot limit =
     (if limit = 0 then Inl (Refused (BadRequest ''A page needs a limit of at least 1.''))
      else case row_of s root of
        None \<Rightarrow> Inl (Refused NoSuchArticle)
      | Some r \<Rightarrow>
         if art_parent r \<noteq> None then Inl (Refused NoSuchArticle)
         else if in_thread s root = [] then Inl Panicked
         else (let shot = (case snapshot of Some x \<Rightarrow> x | None \<Rightarrow> Max (set (map art_id (in_thread s root)))) in
           if shot < root then Inl (Refused (BadRequest ''The snapshot predates this thread.''))
           else case thread_from s root after shot of
             Inl e \<Rightarrow> Inl e
           | Inr p \<Rightarrow>
              (let rows = thread_rows s root after shot p
               in case those (map (view_article s) (take limit rows)) of
                    Some vs \<Rightarrow> Inr \<lparr>ap_articles = vs, ap_has_more = limit < length rows, ap_snapshot = shot\<rparr>
                  | None \<Rightarrow> Inl Panicked)))"


subsection \<open>Removing\<close>

definition buried :: "article_row \<Rightarrow> article_row" where
  "buried a = a\<lparr>art_deleted := True, art_subject := [], art_body := [], art_plain := None, art_signed := None,
     art_author := \<lparr>au_nick = [], au_login = None, au_fp = None\<rparr>, art_guest := None\<rparr>"

definition tombstone :: "article_id \<Rightarrow> news \<Rightarrow> (fault + article option) \<times> news" where
  "tombstone i s =
     (case row_of s i of
        None \<Rightarrow> (Inr None, s)
      | Some a \<Rightarrow>
         if art_deleted a then (Inr None, s)
         else case view_article s a of
           None \<Rightarrow> (Inl Panicked, s)
         | Some before \<Rightarrow>
            (let s1 = s\<lparr>nw_refs := filter (\<lambda>(src, dst). src \<noteq> i) (nw_refs s),
                        nw_articles := change_first (\<lambda>a. art_id a = i) buried (nw_articles s)\<rparr>
             in if node_at s1 (art_category a) = None then (Inl Panicked, s1)
                else (Inr (Some before), node_change (art_category a) bump_delete s1)))"

definition articles_by :: "news \<Rightarrow> mailbox \<Rightarrow> systime \<Rightarrow> article_id list" where
  "articles_by s who since =
     map art_id (filter (\<lambda>a. \<not> art_deleted a \<and> since \<le> art_at a \<and> author_is (art_author a) who) (nw_articles s))"

record news_usage =
  us_articles :: u64
  us_bytes :: u64

definition usage :: "news \<Rightarrow> news_usage" where
  "usage s = fold (\<lambda>a u. \<lparr>us_articles = us_articles u + 1,
       us_bytes = us_bytes u + of_nat (length (art_body a) + (case art_plain a of Some p \<Rightarrow> length p | None \<Rightarrow> 0))\<rparr>)
     (filter (\<lambda>a. \<not> art_deleted a) (nw_articles s)) \<lparr>us_articles = 0, us_bytes = 0\<rparr>"

datatype writer = WrAccount mailbox | WrGuest "bytes option"

definition wrote :: "writer \<Rightarrow> article_row \<Rightarrow> bool" where
  "wrote who a = (case who of
     WrAccount m \<Rightarrow> author_is (art_author a) m
   | WrGuest addr \<Rightarrow> art_feed a = None \<and> au_login (art_author a) = None \<and> au_fp (art_author a) = None \<and> art_guest a = addr)"

definition written_by :: "news \<Rightarrow> writer \<Rightarrow> u64" where
  "written_by s who = of_nat (length (filter (\<lambda>a. \<not> art_deleted a \<and> wrote who a) (nw_articles s)))"

definition refs_to :: "news \<Rightarrow> article_id \<Rightarrow> nat \<Rightarrow> reference list" where
  "refs_to s i limit =
     map reference_of (List.map_filter (row_of s)
       (take limit (rev (sort (map fst (filter (\<lambda>(src, dst). dst = i) (nw_refs s)))))))"

text \<open>A thread is as old as its newest article; the threads that are too old go whole.\<close>

definition is_stale :: "news \<Rightarrow> systime \<Rightarrow> article_row \<Rightarrow> bool" where
  "is_stale s cutoff root \<longleftrightarrow> art_parent root = None
     \<and> (case map art_at (in_thread s (art_id root)) of [] \<Rightarrow> art_at root | t # ts \<Rightarrow> fold max ts t) < cutoff"

definition touch_deleted :: "node_id list \<Rightarrow> news \<Rightarrow> news" where
  "touch_deleted cs s = fold (\<lambda>c. node_change c bump_delete) (remdups_adj (sort cs)) s"

definition news_prune :: "int \<Rightarrow> systime \<Rightarrow> news \<Rightarrow> u64 \<times> news" where
  "news_prune max_age now s =
     (let stale = filter (is_stale s (floor_time (now - max_age))) (nw_articles s);
          gone = map art_id (filter (\<lambda>a. art_root a \<in> set (map art_id stale)) (nw_articles s))
      in (of_nat (length gone), touch_deleted (map art_category stale) (drop_orphan_subs (remove_articles gone s))))"

definition reindex :: "news \<Rightarrow> u64" where
  "reindex s = of_nat (length (filter (\<lambda>a. \<not> art_deleted a) (nw_articles s)))"


subsection \<open>Listings\<close>

record text_len =
  tl_chars :: nat
  tl_bytes :: nat

definition text_len_of :: "string \<Rightarrow> text_len" where
  "text_len_of t = \<lparr>tl_chars = length (str_chars t), tl_bytes = length t\<rparr>"

record listed =
  li_id :: article_id
  li_parent :: "article_id option"
  li_root :: article_id
  li_at :: systime
  li_subject :: string
  li_nick :: string
  li_mime :: body_type
  li_deleted :: bool
  li_body_len :: text_len
  li_plain_len :: "text_len option"

definition listed_of :: "article_row \<Rightarrow> listed" where
  "listed_of a = \<lparr>li_id = art_id a, li_parent = art_parent a, li_root = art_root a, li_at = art_at a, li_subject = art_subject a,
     li_nick = au_nick (art_author a), li_mime = art_mime a, li_deleted = art_deleted a,
     li_body_len = text_len_of (art_body a), li_plain_len = map_option text_len_of (art_plain a)\<rparr>"

text \<open>Whole threads, newest first, until the next does not fit; the first is cut where it alone is too long.\<close>

fun list_threads :: "nat \<Rightarrow> (article_row \<Rightarrow> article_row list) \<Rightarrow> article_row list \<Rightarrow> listed list \<Rightarrow> listed list" where
  "list_threads limit thr [] out = out"
| "list_threads limit thr (r # rs) out =
     (let t = thr r; out' = out @ map listed_of (take (limit - length out) t)
      in if out \<noteq> [] \<and> limit < length out + length t then out
         else if limit \<le> length out' then out' else list_threads limit thr rs out')"

definition listing :: "news \<Rightarrow> node_id \<Rightarrow> nat \<Rightarrow> fault + listed list" where
  "listing s c limit = (case news_category s c of
     Inl e \<Rightarrow> Inl e
   | Inr _ \<Rightarrow> Inr (list_threads limit (\<lambda>r. sort_key art_path (in_thread s (art_id r)))
       (newest_first (filter (\<lambda>a. art_category a = c \<and> art_parent a = None \<and> is_alive s a) (nw_articles s))) []))"

definition recent :: "news \<Rightarrow> node_id \<Rightarrow> nat \<Rightarrow> fault + article list" where
  "recent s c limit = (case news_category s c of
     Inl e \<Rightarrow> Inl e
   | Inr _ \<Rightarrow> (case those (map (view_article s)
        (take limit (newest_first (filter (\<lambda>a. art_category a = c) (nw_articles s))))) of
        Some vs \<Rightarrow> Inr vs | None \<Rightarrow> Inl Panicked))"


subsection \<open>Subscriptions\<close>

definition subscribe :: "mailbox \<Rightarrow> sub_scope \<Rightarrow> nat \<Rightarrow> systime \<Rightarrow> news \<Rightarrow> (fault + nat) \<times> news" where
  "subscribe owner sc max_subs at s =
     (case check_target s sc of
        Inl e \<Rightarrow> (Inl e, s)
      | Inr _ \<Rightarrow> (case sub_at s owner sc of
           Some r \<Rightarrow> (let s' = sub_change owner sc (\<lambda>r. r\<lparr>sb_auto := False, sb_muted := False\<rparr>) s
                      in (Inr (unread s' owner sc (sb_last_seen r)), s'))
         | None \<Rightarrow> (case add_sub owner sc False False max_subs at s of
             (Inl e, s') \<Rightarrow> (Inl e, s')
           | (Inr last_seen, s') \<Rightarrow> (Inr (unread s' owner sc last_seen), s'))))"

definition unsubscribe :: "mailbox \<Rightarrow> sub_scope \<Rightarrow> news \<Rightarrow> bool \<times> news" where
  "unsubscribe owner sc s =
     (let subs = filter (\<lambda>r. \<not> is_sub owner sc r) (nw_subs s)
      in (length subs \<noteq> length (nw_subs s), s\<lparr>nw_subs := subs\<rparr>))"

definition mute :: "mailbox \<Rightarrow> sub_scope \<Rightarrow> bool \<Rightarrow> nat \<Rightarrow> systime \<Rightarrow> news \<Rightarrow> (fault + unit) \<times> news" where
  "mute owner sc muted max_subs at s =
     (case sub_at s owner sc of
        Some _ \<Rightarrow> (Inr (), sub_change owner sc (\<lambda>r. r\<lparr>sb_muted := muted\<rparr>) s)
      | None \<Rightarrow>
         if muted then (case add_sub owner sc False True max_subs at s of (Inl e, s') \<Rightarrow> (Inl e, s') | (Inr _, s') \<Rightarrow> (Inr (), s'))
         else (Inr (), s))"

record subscription =
  sn_scope :: sub_scope
  sn_category :: node_id
  sn_label :: string
  sn_auto :: bool
  sn_muted :: bool
  sn_last_seen :: article_id
  sn_unread :: nat
  sn_at :: systime

definition scope_label :: "news \<Rightarrow> sub_scope \<Rightarrow> (node_id \<times> string) option" where
  "scope_label s sc = (case sc of
     ScThread r \<Rightarrow> map_option (\<lambda>a. (art_category a, art_subject a)) (row_of s r)
   | ScCategory c \<Rightarrow> map_option (\<lambda>n. (c, nn_name n)) (node_at s c))"

definition subscriptions :: "news \<Rightarrow> mailbox \<Rightarrow> subscription list" where
  "subscriptions s owner =
     List.map_filter (\<lambda>r. map_option (\<lambda>(category, label). \<lparr>sn_scope = sb_scope r, sn_category = category, sn_label = label,
         sn_auto = sb_auto r, sn_muted = sb_muted r, sn_last_seen = sb_last_seen r,
         sn_unread = unread s owner (sb_scope r) (sb_last_seen r), sn_at = sb_at r\<rparr>) (scope_label s (sb_scope r)))
       (sort_key (\<lambda>r. - uint (sb_id r)) (filter (\<lambda>r. owns owner (sb_owner r)) (nw_subs s)))"

definition seen_up_to :: "mailbox \<Rightarrow> sub_scope \<Rightarrow> article_id \<Rightarrow> news \<Rightarrow> nat option \<times> news" where
  "seen_up_to owner sc up_to s =
     (case sub_at s owner sc of
        None \<Rightarrow> (None, s)
      | Some r \<Rightarrow>
         (let last_seen = max (sb_last_seen r) (min up_to (newest s sc));
              s' = sub_change owner sc (\<lambda>r. r\<lparr>sb_last_seen := last_seen\<rparr>) s
          in (Some (unread s' owner sc last_seen), s')))"

record subscriber =
  sr_owner :: mailbox
  sr_scope :: sub_scope
  sr_muted :: bool
  sr_unread :: nat
  sr_earlier :: nat
  sr_earlier_oldest :: "systime option"
  sr_earlier_newest :: "systime option"

definition subscribers :: "news \<Rightarrow> article_id \<Rightarrow> node_id option \<Rightarrow> article_id \<Rightarrow> subscriber list" where
  "subscribers s root category i =
     map (\<lambda>r. let span = earlier_span s (sb_owner r) (sb_scope r) (sb_last_seen r) i
              in \<lparr>sr_owner = sb_owner r, sr_scope = sb_scope r, sr_muted = sb_muted r,
                  sr_unread = unread s (sb_owner r) (sb_scope r) (sb_last_seen r),
                  sr_earlier = unread_before s (sb_owner r) (sb_scope r) (sb_last_seen r) i,
                  sr_earlier_oldest = map_option fst span, sr_earlier_newest = map_option snd span\<rparr>)
       (filter (\<lambda>r. sb_scope r = ScThread root \<or> (case category of Some c \<Rightarrow> sb_scope r = ScCategory c | None \<Rightarrow> False)) (nw_subs s))"

definition unread_total :: "news \<Rightarrow> mailbox \<Rightarrow> nat" where
  "unread_total s owner =
     sum_list (map (\<lambda>r. unread s owner (sb_scope r) (sb_last_seen r)) (filter (\<lambda>r. \<not> sb_muted r \<and> owns owner (sb_owner r)) (nw_subs s)))"

text \<open>\<open>retain_mut\<close>: a row that moves goes where the new key holds its scope, and is stamped elsewhere.\<close>

definition move_subs :: "(mailbox \<Rightarrow> bool) \<Rightarrow> fp \<Rightarrow> sub_scope list \<Rightarrow> sub_row list \<Rightarrow> nat \<times> sub_row list" where
  "move_subs moves f held subs =
     (length (filter (\<lambda>r. moves (sb_owner r)) subs),
      map (\<lambda>r. r\<lparr>sb_owner := stamp moves f (sb_owner r)\<rparr>)
        (filter (\<lambda>r. \<not> (moves (sb_owner r) \<and> sb_scope r \<in> set held)) subs))"

definition subs_claim :: "string \<Rightarrow> fp \<Rightarrow> news \<Rightarrow> nat \<times> news" where
  "subs_claim login f s =
     (let held = map sb_scope (filter (\<lambda>r. owns (mailbox_identified login f) (sb_owner r)) (nw_subs s));
          (n, subs) = move_subs (claim_moves login) f held (nw_subs s)
      in (n, s\<lparr>nw_subs := subs\<rparr>))"

definition subs_rotate :: "fp \<Rightarrow> fp \<Rightarrow> news \<Rightarrow> nat \<times> news" where
  "subs_rotate k k' s =
     (let held = map sb_scope (filter (\<lambda>r. mb_fp (sb_owner r) = Some k') (nw_subs s));
          (n, subs) = move_subs (rotate_moves k) k' held (nw_subs s)
      in (n, s\<lparr>nw_subs := subs\<rparr>))"

definition authors_rotate :: "fp \<Rightarrow> fp \<Rightarrow> news \<Rightarrow> nat \<times> news" where
  "authors_rotate k k' s =
     (let moves = (\<lambda>a. au_fp (art_author a) = Some k)
      in (length (filter moves (nw_articles s)),
          s\<lparr>nw_articles := map (\<lambda>a. if moves a then a\<lparr>art_author := (art_author a)\<lparr>au_fp := Some k'\<rparr>\<rparr> else a) (nw_articles s)\<rparr>))"

definition subs_purge :: "mailbox \<Rightarrow> news \<Rightarrow> nat \<times> news" where
  "subs_purge m s =
     (let subs = filter (\<lambda>r. \<not> owns m (sb_owner r)) (nw_subs s)
      in (length (nw_subs s) - length subs, s\<lparr>nw_subs := subs\<rparr>))"


subsection \<open>Feeds\<close>

record feed_state =
  fs_id :: feed_id
  fs_etag :: "string option"
  fs_last_modified :: "string option"
  fs_last_ok :: "systime option"
  fs_last_error :: "string option"
  fs_failures :: u32
  fs_polled :: bool

definition feed_open :: "string \<Rightarrow> string \<Rightarrow> news \<Rightarrow> feed_state \<times> news" where
  "feed_open name url s =
     (let (at, s') = (case position (\<lambda>f. fd_name f = name) (nw_feeds s) of
            Some at \<Rightarrow> (at, s\<lparr>nw_feeds := (nw_feeds s)[at := (nw_feeds s ! at)\<lparr>fd_url := url\<rparr>]\<rparr>)
          | None \<Rightarrow> (length (nw_feeds s), s\<lparr>nw_feeds := nw_feeds s @ [\<lparr>fd_name = name, fd_url = url, fd_etag = None,
               fd_last_modified = None, fd_last_ok = None, fd_last_error = None, fd_failures = 0\<rparr>]\<rparr>));
          i = of_nat at + 1; f = nw_feeds s' ! at
      in (\<lparr>fs_id = i, fs_etag = fd_etag f, fs_last_modified = fd_last_modified f, fs_last_ok = fd_last_ok f,
           fs_last_error = fd_last_error f, fs_failures = fd_failures f,
           fs_polled = list_ex (\<lambda>((feed, _), _). feed = i) (nw_feed_items s')\<rparr>, s'))"

record seen_item =
  si_article :: "article_id option"
  si_hash :: bytes

definition feed_seen :: "feed_id \<Rightarrow> bytes list \<Rightarrow> systime \<Rightarrow> news \<Rightarrow> (bytes, seen_item) omap \<times> news" where
  "feed_seen feed keys now s =
     fold (\<lambda>key (out, s). case map_of (nw_feed_items s) (feed, key) of
        None \<Rightarrow> (out, s)
      | Some it \<Rightarrow> (om_put key \<lparr>si_article = fi_article it, si_hash = fi_hash it\<rparr> out,
          s\<lparr>nw_feed_items := om_adjust (feed, key) (\<lambda>it. it\<lparr>fi_last_seen := floor_time now\<rparr>) (nw_feed_items s)\<rparr>))
       keys ([], s)"

definition feed_skip :: "feed_id \<Rightarrow> (bytes \<times> bytes) list \<Rightarrow> systime \<Rightarrow> news \<Rightarrow> news" where
  "feed_skip feed items now s =
     fold (\<lambda>(key, hash) s. s\<lparr>nw_feed_items := om_adjust (feed, key) (\<lambda>it. it\<lparr>fi_hash := hash\<rparr>)
         (om_or_insert (feed, key) \<lparr>fi_article = None, fi_hash = hash, fi_last_seen = floor_time now\<rparr> (nw_feed_items s))\<rparr>)
       items s"

definition feed_revise :: "article_id \<Rightarrow> new_post \<Rightarrow> news \<Rightarrow> node_id option \<times> news" where
  "feed_revise i p s =
     (let s1 = (case np_feed p of
            Some f \<Rightarrow> s\<lparr>nw_feed_items := om_adjust (fp_feed f, fp_key f) (\<lambda>it. it\<lparr>fi_hash := fp_hash f\<rparr>) (nw_feed_items s)\<rparr>
          | None \<Rightarrow> s);
          hit = (\<lambda>a. art_id a = i \<and> \<not> art_deleted a);
          revise = (\<lambda>a. a\<lparr>art_author := (art_author a)\<lparr>au_nick := au_nick (np_author p)\<rparr>, art_subject := np_subject p,
             art_body := np_body p, art_mime := np_mime p, art_plain := np_plain p\<rparr>)
      in case find hit (nw_articles s1) of
           None \<Rightarrow> (None, s1)
         | Some a \<Rightarrow> (Some (art_category a),
             node_change (art_category a) bump_add (s1\<lparr>nw_articles := change_first hit revise (nw_articles s1)\<rparr>)))"

record feed_listing =
  fl_name :: string
  fl_url :: string
  fl_state :: feed_state
  fl_articles :: u64
  fl_items :: u64

definition feeds :: "news \<Rightarrow> feed_listing list \<times> news" where
  "feeds s =
     (let (out, s') = fold (\<lambda>f (out, s). let (st, s') = feed_open (fd_name f) (fd_url f) s
            in (out @ [\<lparr>fl_name = fd_name f, fl_url = fd_url f, fl_state = st,
                  fl_articles = of_nat (length (filter (\<lambda>a. art_feed a = Some (fs_id st) \<and> \<not> art_deleted a) (nw_articles s'))),
                  fl_items = of_nat (length (filter (\<lambda>((feed, _), _). feed = fs_id st) (nw_feed_items s')))\<rparr>], s'))
          (nw_feeds s) ([], s)
      in (sort_key fl_name out, s'))"

text \<open>All but the newest \<open>keep\<close> of a feed's articles go, where nobody replied to them.\<close>

definition feed_prune :: "feed_id \<Rightarrow> nat \<Rightarrow> news \<Rightarrow> u64 \<times> news" where
  "feed_prune feed keep s =
     (let live = rev (sort (map art_id (filter (\<lambda>a. art_feed a = Some feed \<and> \<not> art_deleted a) (nw_articles s))));
          oldest_kept = live ! (keep - 1);
          gone = filter (\<lambda>a. art_feed a = Some feed \<and> art_id a < oldest_kept
             \<and> Some (art_id a) \<notin> set (map art_parent (nw_articles s))) (nw_articles s);
          s1 = drop_orphan_subs (remove_articles (map art_id gone) s)
      in if keep = 0 \<or> length live < keep then (0, s)
         else (of_nat (length gone), case gone of [] \<Rightarrow> s1 | a # _ \<Rightarrow> node_change (art_category a) bump_delete s1))"

datatype feed_poll = Fetched "string option" "string option" | NotModified | Failed string

definition feed_polled :: "feed_id \<Rightarrow> feed_poll \<Rightarrow> systime \<Rightarrow> news \<Rightarrow> (fault + unit) \<times> news" where
  "feed_polled feed poll at s =
     (let i = unat (feed - 1); ok = (\<lambda>f. f\<lparr>fd_last_ok := Some (floor_time at), fd_failures := 0, fd_last_error := None\<rparr>) in
      if length (nw_feeds s) \<le> i then (Inl (Refused (NewsStore (''no feed '' @ decimal (unat feed)))), s)
      else (Inr (), s\<lparr>nw_feeds := (nw_feeds s)[i := (case poll of
          Fetched etag lm \<Rightarrow> ok ((nw_feeds s ! i)\<lparr>fd_etag := etag, fd_last_modified := lm\<rparr>)
        | NotModified \<Rightarrow> ok (nw_feeds s ! i)
        | Failed why \<Rightarrow> (nw_feeds s ! i)\<lparr>fd_failures := fd_failures (nw_feeds s ! i) + 1, fd_last_error := Some why\<rparr>)]\<rparr>))"

definition feed_forget :: "systime \<Rightarrow> news \<Rightarrow> u64 \<times> news" where
  "feed_forget before s =
     (let items = om_retain (\<lambda>_ it. fi_article it \<noteq> None \<or> floor_time before \<le> fi_last_seen it) (nw_feed_items s)
      in (of_nat (length (nw_feed_items s) - length items), s\<lparr>nw_feed_items := items\<rparr>))"

end
