(* ===== verification/News_Safety.thy ===== *)
theory News_Safety
  imports News_Store
begin

section \<open>The news tree stays a tree\<close>

text \<open>
  The invariant \<open>news_inv D\<close> of the news store: nodes hang below bundles older than they are, at most \<open>D\<close> levels deep,
  with names unique among siblings; articles hang below older articles of their category and thread, and their paths
  and depths say so; references, subscriptions and feed items name what there is.  It is stated on what a node and an
  article do not change, \<open>node_sig\<close> and \<open>art_sig\<close>, so that a write that keeps those keeps the invariant.
\<close>


subsection \<open>What is fixed\<close>

definition node_sig :: "node_row \<Rightarrow> node_id \<times> node_id option \<times> node_kind \<times> bytes" where
  "node_sig n = (nn_id n, nn_parent n, nn_kind n, nn_guid n)"

definition art_sig :: "article_row \<Rightarrow> article_id \<times> node_id \<times> article_id option \<times> article_id \<times> bytes \<times> u16 \<times> feed_id option" where
  "art_sig a = (art_id a, art_category a, art_parent a, art_root a, art_path a, art_depth a, art_feed a)"

lemma node_sig_eq [simp]:
  "node_sig m = node_sig n \<longleftrightarrow> nn_id m = nn_id n \<and> nn_parent m = nn_parent n \<and> nn_kind m = nn_kind n \<and> nn_guid m = nn_guid n"
  by (simp add: node_sig_def)

lemma art_sig_eq:
  "art_sig a = art_sig b \<longleftrightarrow> art_id a = art_id b \<and> art_category a = art_category b \<and> art_parent a = art_parent b
     \<and> art_root a = art_root b \<and> art_path a = art_path b \<and> art_depth a = art_depth b \<and> art_feed a = art_feed b"
  by (simp add: art_sig_def)

lemma map_change_first: "(\<And>x. g (f x) = g x) \<Longrightarrow> map g (change_first P f xs) = map g xs"
  by (induction xs) auto

lemma set_change_first: "x \<in> set (change_first P f xs) \<Longrightarrow> x \<in> set xs \<or> (\<exists>y\<in>set xs. P y \<and> x = f y)"
  by (induction xs) (auto split: if_splits)

lemma find_key:
  assumes "distinct (map k xs)"
  shows "find (\<lambda>x. k x = i) xs = Some x \<longleftrightarrow> x \<in> set xs \<and> k x = i"
  using assms by (induction xs) (auto simp: image_iff)

lemma find_append: "find P (xs @ ys) = (case find P xs of Some x \<Rightarrow> Some x | None \<Rightarrow> find P ys)"
  by (induction xs) auto

lemma find_key_None: "find (\<lambda>x. k x = i) xs = None \<longleftrightarrow> i \<notin> k ` set xs"
  by (auto simp: find_None_iff)

lemma map_eq_transfer:
  assumes "map g ys = map g xs" "y \<in> set ys"
  shows "\<exists>x\<in>set xs. g x = g y"
proof -
  have "g y \<in> g ` set xs" using assms by (metis image_eqI set_map)
  then show ?thesis by force
qed

lemma map_eq_proj:
  assumes "map g ys = map g xs" "\<And>x y. g x = g y \<Longrightarrow> h x = h y"
  shows "map h ys = map h xs"
proof -
  have "length ys = length xs" using assms(1) by (metis length_map)
  moreover have "h (ys ! i) = h (xs ! i)" if "i < length ys" for i
    using assms that calculation by (metis nth_map)
  ultimately show ?thesis by (simp add: list_eq_iff_nth_eq)
qed


subsection \<open>Nodes\<close>

definition node_ok :: "node_row list \<Rightarrow> node_row \<Rightarrow> bool" where
  "node_ok ns n = (case nn_parent n of None \<Rightarrow> True
     | Some p \<Rightarrow> p < nn_id n \<and> (\<exists>m\<in>set ns. nn_id m = p \<and> nn_kind m = Bundle))"

definition nodes_ok :: "news \<Rightarrow> bool" where
  "nodes_ok s \<longleftrightarrow> sorted_wrt (<) (map nn_id (nw_nodes s)) \<and> distinct (map nn_guid (nw_nodes s))
     \<and> (\<forall>n\<in>set (nw_nodes s). nn_id n \<le> nw_last_node s \<and> node_ok (nw_nodes s) n)"

definition names_ok :: "news \<Rightarrow> bool" where
  "names_ok s \<longleftrightarrow> distinct (map (\<lambda>n. (nn_parent n, nn_name n)) (nw_nodes s))"

definition levels_ok :: "u16 \<Rightarrow> news \<Rightarrow> bool" where
  "levels_ok D s \<longleftrightarrow> (\<forall>n\<in>set (nw_nodes s). \<exists>l. level s (nn_id n) = Some l \<and> 1 \<le> l \<and> l \<le> D)"

lemma sorted_ids_distinct: "sorted_wrt (<) (map (k :: 'a \<Rightarrow> 'b::linorder) xs) \<Longrightarrow> distinct (map k xs)"
  by (simp add: strict_sorted_iff)

lemma node_at_iff: "nodes_ok s \<Longrightarrow> node_at s i = Some n \<longleftrightarrow> n \<in> set (nw_nodes s) \<and> nn_id n = i"
  unfolding node_at_def nodes_ok_def by (auto simp: find_key sorted_ids_distinct)

lemma node_at_None: "node_at s i = None \<longleftrightarrow> i \<notin> nn_id ` set (nw_nodes s)"
  by (simp add: node_at_def find_key_None)

text \<open>Where parents are older than their children the walk up returns.\<close>

definition parent_of :: "news \<Rightarrow> node_id \<Rightarrow> node_id option option" where
  "parent_of s i = map_option nn_parent (node_at s i)"

definition descends :: "news \<Rightarrow> bool" where
  "descends s \<longleftrightarrow> (\<forall>i p. parent_of s i = Some (Some p) \<longrightarrow> p < i)"

lemma level_from_parent:
  "level_from s i c = (case parent_of s i of None \<Rightarrow> Some c | Some None \<Rightarrow> Some (c + 1) | Some (Some p) \<Rightarrow> level_from s p (c + 1))"
  by (subst level_from.simps) (auto simp: parent_of_def split: option.split)

lemma level_returns: "descends s \<Longrightarrow> \<exists>l. \<forall>c. level_from s i c = Some (c + l)"
proof (induction i rule: less_induct)
  case (less i)
  show ?case
  proof (cases "parent_of s i")
    case None
    then show ?thesis by (intro exI [of _ 0]) (simp add: level_from_parent [of s i])
  next
    case (Some q)
    show ?thesis
    proof (cases q)
      case None
      then show ?thesis using Some by (intro exI [of _ 1]) (simp add: level_from_parent [of s i])
    next
      case (Some p)
      then have "p < i" using less.prems \<open>parent_of s i = Some q\<close> by (simp add: descends_def)
      from less.IH [OF this less.prems] obtain l where "\<forall>c. level_from s p c = Some (c + l)" by blast
      then show ?thesis using Some \<open>parent_of s i = Some q\<close>
        by (intro exI [of _ "1 + l"]) (simp add: level_from_parent [of s i] ac_simps)
    qed
  qed
qed

lemma level_agree:
  assumes "descends s" "\<And>j. j \<in> A \<Longrightarrow> parent_of s' j = parent_of s j" "\<And>j p. j \<in> A \<Longrightarrow> parent_of s j = Some (Some p) \<Longrightarrow> p \<in> A"
  shows "i \<in> A \<Longrightarrow> level_from s' i c = level_from s i c"
proof (induction i arbitrary: c rule: less_induct)
  case (less i)
  show ?case
  proof (cases "parent_of s i")
    case None
    then show ?thesis using assms(2) [OF less.prems] by (simp add: level_from_parent [of _ i])
  next
    case (Some q)
    then show ?thesis
    proof (cases q)
      case None
      then show ?thesis using Some assms(2) [OF less.prems] by (simp add: level_from_parent [of _ i])
    next
      case (Some p)
      then have "p < i" "p \<in> A" using assms(1,3) \<open>parent_of s i = Some q\<close> less.prems by (auto simp: descends_def)
      then show ?thesis using less.IH Some \<open>parent_of s i = Some q\<close> assms(2) [OF less.prems]
        by (simp add: level_from_parent [of _ i])
    qed
  qed
qed

lemma nodes_descend: "nodes_ok s \<Longrightarrow> descends s"
  unfolding descends_def parent_of_def
  by (auto simp: node_at_iff) (auto simp: nodes_ok_def node_ok_def)

lemma level_child:
  assumes "nodes_ok s" "parent_of s i = Some (Some p)" "level s p = Some l"
  shows "level s i = Some (l + 1)"
proof -
  obtain k where k: "\<forall>c. level_from s p c = Some (c + k)" using level_returns [OF nodes_descend [OF assms(1)]] by blast
  then have "k = l" using assms(3) by (simp add: level_def)
  with k show ?thesis by (simp add: level_def level_from_parent [of s i] assms(2))
qed

text \<open>Writes that keep what is fixed of each node.\<close>

lemma node_ok_cong:
  assumes "map node_sig ns' = map node_sig ns" "node_sig n' = node_sig n" "node_ok ns n"
  shows "node_ok ns' n'"
proof -
  have "\<exists>m\<in>set ns'. nn_id m = p \<and> nn_kind m = Bundle" if "m \<in> set ns" "nn_id m = p" "nn_kind m = Bundle" for m p
    using map_eq_transfer [OF assms(1) [symmetric] that(1)] that by auto
  then show ?thesis using assms(2,3) unfolding node_ok_def by (auto split: option.splits)
qed

lemma nodes_ok_cong:
  assumes "map node_sig (nw_nodes s') = map node_sig (nw_nodes s)" "nw_last_node s \<le> nw_last_node s'" "nodes_ok s"
  shows "nodes_ok s'"
proof -
  have "map nn_id (nw_nodes s') = map nn_id (nw_nodes s)" "map nn_guid (nw_nodes s') = map nn_guid (nw_nodes s)"
    by (rule map_eq_proj [OF assms(1)], simp)+
  moreover have "nn_id n' \<le> nw_last_node s' \<and> node_ok (nw_nodes s') n'" if n': "n' \<in> set (nw_nodes s')" for n'
  proof -
    from map_eq_transfer [OF assms(1) n'] obtain n where n: "n \<in> set (nw_nodes s)" "node_sig n = node_sig n'" by blast
    then have "nn_id n \<le> nw_last_node s" "node_ok (nw_nodes s) n" using assms(3) by (auto simp: nodes_ok_def)
    then show ?thesis using n(2) node_ok_cong [OF assms(1) n(2) [symmetric]] assms(2) by auto
  qed
  ultimately show ?thesis using assms(3) by (simp add: nodes_ok_def)
qed

lemma find_map_cong:
  "map g xs = map g ys \<Longrightarrow> (\<And>x y. g x = g y \<Longrightarrow> P x = P y) \<Longrightarrow> map_option g (find P xs) = map_option g (find P ys)"
proof (induction xs arbitrary: ys)
  case (Cons x xs)
  obtain y zs where y: "ys = y # zs" "g x = g y" "map g xs = map g zs" using Cons.prems(1) by (cases ys) simp_all
  have "P x = P y" by (rule Cons.prems(2) [OF y(2)])
  moreover have "map_option g (find P xs) = map_option g (find P zs)" using Cons.IH [OF y(3)] Cons.prems(2) by blast
  ultimately show ?case using y(1,2) by simp
qed simp

lemma node_at_cong:
  assumes "map node_sig (nw_nodes s') = map node_sig (nw_nodes s)"
  shows "map_option node_sig (node_at s' i) = map_option node_sig (node_at s i)"
  unfolding node_at_def by (rule find_map_cong [OF assms]) simp

lemma parent_of_sig: "parent_of s i = map_option (\<lambda>t. fst (snd t)) (map_option node_sig (node_at s i))"
  by (simp add: parent_of_def node_sig_def option.map_comp comp_def)

lemma parent_of_cong: "map node_sig (nw_nodes s') = map node_sig (nw_nodes s) \<Longrightarrow> parent_of s' i = parent_of s i"
  unfolding parent_of_sig by (drule node_at_cong [of s' s i]) (rule arg_cong)

lemma levels_ok_ids: "levels_ok D s \<longleftrightarrow> (\<forall>i\<in>nn_id ` set (nw_nodes s). \<exists>l. level s i = Some l \<and> 1 \<le> l \<and> l \<le> D)"
  by (simp add: levels_ok_def)

lemma levels_ok_cong:
  assumes "map node_sig (nw_nodes s') = map node_sig (nw_nodes s)" "nodes_ok s" "levels_ok D s"
  shows "levels_ok D s'"
proof -
  have "level s' i = level s i" for i
    unfolding level_def by (rule level_agree [of s UNIV]) (auto simp: nodes_descend assms(2) parent_of_cong [OF assms(1)])
  moreover have "nn_id ` set (nw_nodes s') = nn_id ` set (nw_nodes s)"
    using map_eq_proj [OF assms(1), of nn_id] by (metis node_sig_eq set_map)
  ultimately show ?thesis using assms(3) by (simp add: levels_ok_ids)
qed


subsection \<open>Articles\<close>

definition art_ok :: "article_row list \<Rightarrow> article_row \<Rightarrow> bool" where
  "art_ok as a = (case art_parent a of
     None \<Rightarrow> art_root a = art_id a \<and> art_path a = be_bytes 4 (unat (art_id a)) \<and> art_depth a = 0
   | Some p \<Rightarrow> (\<exists>b\<in>set as. art_id b = p \<and> p < art_id a \<and> art_category a = art_category b \<and> art_root a = art_root b
       \<and> art_depth a = art_depth b + 1 \<and> art_path a = art_path b @ be_bytes 4 (unat (art_id a))))"

definition arts_ok :: "news \<Rightarrow> bool" where
  "arts_ok s \<longleftrightarrow> sorted_wrt (<) (map art_id (nw_articles s)) \<and> unat (nw_last_article s) < 2 ^ 32
     \<and> (\<forall>a\<in>set (nw_articles s). art_id a \<noteq> 0 \<and> unat (art_id a) \<le> unat (nw_last_article s) \<and> art_ok (nw_articles s) a)"

definition placed :: "news \<Rightarrow> bool" where
  "placed s \<longleftrightarrow> (\<forall>a\<in>set (nw_articles s). \<exists>n\<in>set (nw_nodes s). nn_id n = art_category a \<and> nn_kind n = Category)"

definition refs_there :: "news \<Rightarrow> bool" where
  "refs_there s \<longleftrightarrow> (\<forall>(src, dst)\<in>set (nw_refs s). src \<in> art_id ` set (nw_articles s) \<and> dst \<in> art_id ` set (nw_articles s))"

definition feeds_ok :: "news \<Rightarrow> bool" where
  "feeds_ok s \<longleftrightarrow> (\<forall>a\<in>set (nw_articles s). case art_feed a of None \<Rightarrow> True | Some f \<Rightarrow> feed_name s f \<noteq> None)"

definition items_ok :: "news \<Rightarrow> bool" where
  "items_ok s \<longleftrightarrow> om_wf (nw_feed_items s)
     \<and> (\<forall>p\<in>set (nw_feed_items s). case fi_article (snd p) of None \<Rightarrow> True | Some i \<Rightarrow> i \<in> art_id ` set (nw_articles s))"

definition sub_key :: "sub_row \<Rightarrow> mkey \<times> sub_scope" where
  "sub_key r = (mkey (sb_owner r), sb_scope r)"

definition subs_ok :: "news \<Rightarrow> bool" where
  "subs_ok s \<longleftrightarrow> distinct (map sub_key (nw_subs s)) \<and> (\<forall>r\<in>set (nw_subs s). check_target s (sb_scope r) = Inr ())"

text \<open>All of it but that subscriptions have their targets, which a removal restores at its end.\<close>

definition news_core :: "u16 \<Rightarrow> news \<Rightarrow> bool" where
  "news_core D s \<longleftrightarrow> nodes_ok s \<and> names_ok s \<and> levels_ok D s \<and> arts_ok s \<and> placed s \<and> refs_there s \<and> feeds_ok s \<and> items_ok s
     \<and> distinct (map sub_key (nw_subs s))"

definition news_inv :: "u16 \<Rightarrow> news \<Rightarrow> bool" where
  "news_inv D s \<longleftrightarrow> news_core D s \<and> subs_ok s"

lemma row_of_iff: "arts_ok s \<Longrightarrow> row_of s i = Some a \<longleftrightarrow> a \<in> set (nw_articles s) \<and> art_id a = i"
  unfolding row_of_def arts_ok_def by (auto simp: find_key sorted_ids_distinct)

lemma row_of_None: "row_of s i = None \<longleftrightarrow> i \<notin> art_id ` set (nw_articles s)"
  by (simp add: row_of_def find_key_None)

lemma arts_parent:
  assumes "arts_ok s" "a \<in> set (nw_articles s)" "art_parent a = Some p"
  obtains b where "b \<in> set (nw_articles s)" "art_id b = p" "p < art_id a" "art_category a = art_category b"
    "art_root a = art_root b" "art_depth a = art_depth b + 1" "art_path a = art_path b @ be_bytes 4 (unat (art_id a))"
proof -
  have "art_ok (nw_articles s) a" using assms(1,2) by (simp add: arts_ok_def)
  then show ?thesis using that assms(3) by (auto simp: art_ok_def)
qed

lemma arts_starter:
  assumes "arts_ok s" "a \<in> set (nw_articles s)" "art_parent a = None"
  shows "art_root a = art_id a \<and> art_path a = be_bytes 4 (unat (art_id a)) \<and> art_depth a = 0"
  using assms by (force simp: arts_ok_def art_ok_def)

lemma in_bounds: "arts_ok s \<Longrightarrow> a \<in> set (nw_articles s) \<Longrightarrow> unat (art_id a) \<le> unat (nw_last_article s)"
  by (simp add: arts_ok_def)

text \<open>Every article's thread has its starter.\<close>

lemma arts_root:
  assumes "arts_ok s"
  shows "a \<in> set (nw_articles s) \<Longrightarrow> \<exists>r\<in>set (nw_articles s). art_id r = art_root a \<and> art_parent r = None \<and> art_category r = art_category a"
proof (induction "art_id a" arbitrary: a rule: less_induct)
  case less
  show ?case
  proof (cases "art_parent a")
    case None
    then show ?thesis using arts_starter [OF assms less.prems None] less.prems by auto
  next
    case (Some p)
    from assms less.prems Some obtain b where b: "b \<in> set (nw_articles s)" "art_id b = p" "p < art_id a"
      "art_category a = art_category b" "art_root a = art_root b" by (rule arts_parent)
    then show ?thesis using less.hyps [of b] by simp
  qed
qed

text \<open>Writes that keep what is fixed of each article.\<close>

lemma art_ok_cong:
  assumes "map art_sig as' = map art_sig as" "art_sig a' = art_sig a" "art_ok as a"
  shows "art_ok as' a'"
proof -
  have kept: "\<exists>b'\<in>set as'. art_sig b' = art_sig b" if "b \<in> set as" for b
    using map_eq_transfer [OF assms(1) [symmetric] that] by auto
  note eqs = assms(2) [unfolded art_sig_eq]
  show ?thesis
  proof (cases "art_parent a")
    case None
    then show ?thesis using assms(3) eqs by (simp add: art_ok_def)
  next
    case (Some p)
    then obtain b where b: "b \<in> set as" "art_id b = p" "p < art_id a" "art_category a = art_category b" "art_root a = art_root b"
      "art_depth a = art_depth b + 1" "art_path a = art_path b @ be_bytes 4 (unat (art_id a))"
      using assms(3) by (auto simp: art_ok_def)
    from kept [OF b(1)] obtain b' where "b' \<in> set as'" "art_sig b' = art_sig b" by blast
    then show ?thesis using b Some eqs unfolding art_ok_def by (auto simp: art_sig_eq intro!: bexI [of _ b'])
  qed
qed

lemma ids_cong: "map art_sig as' = map art_sig as \<Longrightarrow> map art_id as' = map art_id as"
  using map_eq_proj [of art_sig as' as art_id] by (simp add: art_sig_eq)

lemma id_set_cong: "map art_sig as' = map art_sig as \<Longrightarrow> art_id ` set as' = art_id ` set as"
  by (metis ids_cong set_map)

lemma arts_ok_cong:
  assumes "map art_sig (nw_articles s') = map art_sig (nw_articles s)" "nw_last_article s' = nw_last_article s" "arts_ok s"
  shows "arts_ok s'"
proof -
  have "art_id a' \<noteq> 0 \<and> unat (art_id a') \<le> unat (nw_last_article s') \<and> art_ok (nw_articles s') a'" if a': "a' \<in> set (nw_articles s')" for a'
  proof -
    from map_eq_transfer [OF assms(1) a'] obtain a where a: "a \<in> set (nw_articles s)" "art_sig a = art_sig a'" by blast
    then have "art_id a \<noteq> 0 \<and> unat (art_id a) \<le> unat (nw_last_article s) \<and> art_ok (nw_articles s) a" using assms(3) by (simp add: arts_ok_def)
    then show ?thesis using art_ok_cong [OF assms(1) a(2) [symmetric]] a(2) by (auto simp: assms(2) art_sig_eq)
  qed
  then show ?thesis using assms(3) by (simp add: arts_ok_def ids_cong [OF assms(1)] assms(2))
qed

lemma row_of_cong:
  assumes "map art_sig (nw_articles s') = map art_sig (nw_articles s)"
  shows "map_option art_sig (row_of s' i) = map_option art_sig (row_of s i)"
  unfolding row_of_def by (rule find_map_cong [OF assms]) (auto simp: art_sig_eq)

lemma check_target_sig:
  "check_target s sc = Inr () \<longleftrightarrow> (case sc of
     ScThread r \<Rightarrow> (case map_option art_sig (row_of s r) of Some t \<Rightarrow> fst (snd (snd t)) = None | None \<Rightarrow> False)
   | ScCategory c \<Rightarrow> (case map_option node_sig (node_at s c) of Some t \<Rightarrow> fst (snd (snd t)) = Category | None \<Rightarrow> False))"
  by (auto simp: check_target_def art_sig_def node_sig_def split: sub_scope.split option.split)

lemma check_target_cong:
  assumes "map art_sig (nw_articles s') = map art_sig (nw_articles s)" "map node_sig (nw_nodes s') = map node_sig (nw_nodes s)"
  shows "check_target s' sc = Inr () \<longleftrightarrow> check_target s sc = Inr ()"
  unfolding check_target_sig by (simp only: row_of_cong [OF assms(1)] node_at_cong [OF assms(2)])

text \<open>A write that keeps the nodes' and articles' fixed parts keeps the core, given its own part of the rest.\<close>

lemma news_core_cong:
  assumes "news_core D s" "map node_sig (nw_nodes s') = map node_sig (nw_nodes s)" "map art_sig (nw_articles s') = map art_sig (nw_articles s)"
    "nw_last_node s' = nw_last_node s" "nw_last_article s' = nw_last_article s"
    "names_ok s'" "set (nw_refs s') \<subseteq> set (nw_refs s)" "length (nw_feeds s) \<le> length (nw_feeds s')" "items_ok s'"
    "distinct (map sub_key (nw_subs s'))"
  shows "news_core D s'"
proof -
  note core = assms(1) [unfolded news_core_def]
  have ids: "art_id ` set (nw_articles s') = art_id ` set (nw_articles s)" by (rule id_set_cong [OF assms(3)])
  have "nodes_ok s'" by (rule nodes_ok_cong [OF assms(2)]) (use core assms(4) in simp_all)
  moreover have "levels_ok D s'" by (rule levels_ok_cong [OF assms(2)]) (use core in simp_all)
  moreover have "arts_ok s'" by (rule arts_ok_cong [OF assms(3,5)]) (use core in simp)
  moreover have "placed s'"
    unfolding placed_def
  proof
    fix a' assume "a' \<in> set (nw_articles s')"
    from map_eq_transfer [OF assms(3) this] obtain a where a: "a \<in> set (nw_articles s)" "art_sig a = art_sig a'" by blast
    then obtain n where n: "n \<in> set (nw_nodes s)" "nn_id n = art_category a'" "nn_kind n = Category"
      using core by (auto simp: placed_def art_sig_eq)
    then show "\<exists>n\<in>set (nw_nodes s'). nn_id n = art_category a' \<and> nn_kind n = Category"
      using map_eq_transfer [OF assms(2) [symmetric] n(1)] by auto
  qed
  moreover have "refs_there s'" using core assms(7) unfolding refs_there_def ids by blast
  moreover have "feeds_ok s'"
    unfolding feeds_ok_def
  proof
    fix a' assume "a' \<in> set (nw_articles s')"
    from map_eq_transfer [OF assms(3) this] obtain a where a: "a \<in> set (nw_articles s)" "art_sig a = art_sig a'" by blast
    then have "case art_feed a' of None \<Rightarrow> True | Some f \<Rightarrow> feed_name s f \<noteq> None"
      using core by (auto simp: feeds_ok_def art_sig_eq)
    then show "case art_feed a' of None \<Rightarrow> True | Some f \<Rightarrow> feed_name s' f \<noteq> None"
      using assms(8) by (auto simp: feed_name_def split: option.splits if_splits)
  qed
  ultimately show ?thesis using assms(6,9,10) by (simp add: news_core_def)
qed

lemma inv_cong:
  assumes "news_inv D s" "map node_sig (nw_nodes s') = map node_sig (nw_nodes s)" "map art_sig (nw_articles s') = map art_sig (nw_articles s)"
    "nw_last_node s' = nw_last_node s" "nw_last_article s' = nw_last_article s"
    "names_ok s'" "set (nw_refs s') \<subseteq> set (nw_refs s)" "length (nw_feeds s) \<le> length (nw_feeds s')" "items_ok s'"
    "distinct (map sub_key (nw_subs s'))" "\<And>r. r \<in> set (nw_subs s') \<Longrightarrow> check_target s (sb_scope r) = Inr ()"
  shows "news_inv D s'"
proof -
  have "news_core D s'" by (rule news_core_cong [OF _ assms(2-10)]) (use assms(1) in \<open>simp add: news_inv_def\<close>)
  then show ?thesis using assms(10,11) by (simp add: news_inv_def subs_ok_def check_target_cong [OF assms(3,2)])
qed



subsection \<open>The tree's writes\<close>

lemma core_parts:
  assumes "news_inv D s"
  shows "nodes_ok s" "names_ok s" "levels_ok D s" "arts_ok s" "placed s" "refs_there s" "feeds_ok s" "items_ok s" "subs_ok s"
    "distinct (map sub_key (nw_subs s))"
  using assms by (simp_all add: news_inv_def news_core_def)

lemma node_change_frame [simp]:
  "nw_articles (node_change i f s) = nw_articles s" "nw_last_node (node_change i f s) = nw_last_node s"
  "nw_last_article (node_change i f s) = nw_last_article s" "nw_refs (node_change i f s) = nw_refs s"
  "nw_subs (node_change i f s) = nw_subs s" "nw_feeds (node_change i f s) = nw_feeds s"
  "nw_feed_items (node_change i f s) = nw_feed_items s"
  by (simp_all add: node_change_def)

lemma bump_sig:
  "node_sig (bump_add n) = node_sig n" "nn_name (bump_add n) = nn_name n" "nn_parent (bump_add n) = nn_parent n"
  "node_sig (bump_delete n) = node_sig n" "nn_name (bump_delete n) = nn_name n" "nn_parent (bump_delete n) = nn_parent n"
  by (simp_all add: bump_add_def bump_delete_def)

definition bump :: "(node_row \<Rightarrow> node_row) \<Rightarrow> bool" where
  "bump f \<longleftrightarrow> (\<forall>n. node_sig (f n) = node_sig n \<and> nn_name (f n) = nn_name n)"

lemma bumps: "bump bump_add" "bump bump_delete"
  by (simp_all add: bump_def bump_sig)

lemma bump_nodes:
  assumes "bump f"
  shows "map node_sig (nw_nodes (node_change i f s)) = map node_sig (nw_nodes s)"
    "map (\<lambda>n. (nn_parent n, nn_name n)) (nw_nodes (node_change i f s)) = map (\<lambda>n. (nn_parent n, nn_name n)) (nw_nodes s)"
  using assms by (simp_all add: node_change_def bump_def map_change_first)

lemma items_ok_ids:
  "items_ok s \<Longrightarrow> nw_feed_items s' = nw_feed_items s \<Longrightarrow> art_id ` set (nw_articles s) \<subseteq> art_id ` set (nw_articles s') \<Longrightarrow> items_ok s'"
  by (force simp: items_ok_def split: option.splits)

lemma bump_inv:
  assumes "bump f" "news_inv D s"
  shows "news_inv D (node_change i f s)"
proof (rule inv_cong [OF assms(2) bump_nodes(1) [OF assms(1)]])
  show "names_ok (node_change i f s)" using core_parts(2) [OF assms(2)] by (simp add: names_ok_def bump_nodes(2) [OF assms(1)])
  show "items_ok (node_change i f s)" by (rule items_ok_ids [OF core_parts(8) [OF assms(2)]]) simp_all
  show "check_target s (sb_scope r) = Inr ()" if "r \<in> set (nw_subs (node_change i f s))" for r
    using core_parts(9) [OF assms(2)] that by (simp add: subs_ok_def)
qed (simp_all add: core_parts(10) [OF assms(2)])

lemma fold_bump_inv: "bump f \<Longrightarrow> news_inv D s \<Longrightarrow> news_inv D (fold (\<lambda>c. node_change c f) cs s)"
  by (induction cs arbitrary: s) (auto intro: bump_inv)

lemma name_free:
  "\<not> name_taken s parent name except \<Longrightarrow> n \<in> set (nw_nodes s) \<Longrightarrow> nn_parent n = parent \<Longrightarrow> nn_name n = name \<Longrightarrow> Some (nn_id n) = except"
  by (auto simp: name_taken_def list_ex_iff)

lemma rename_inv:
  assumes "news_inv D s"
  shows "news_inv D (snd (rename_node i name s))"
proof (cases "node_at s i")
  case None
  then show ?thesis using assms by (simp add: rename_node_def)
next
  case (Some n)
  let ?f = "\<lambda>n. n\<lparr>nn_name := name\<rparr>"
  note parts = core_parts [OF assms]
  have n: "n \<in> set (nw_nodes s)" "nn_id n = i" using Some node_at_iff [OF parts(1)] by auto
  show ?thesis
  proof (cases "name_taken s (nn_parent n) name (Some i)")
    case True
    then show ?thesis using Some assms by (simp add: rename_node_def)
  next
    case False
    obtain xs ys where split: "nw_nodes s = xs @ n # ys" using n(1) by (meson split_list)
    have d: "distinct (map nn_id (nw_nodes s))" using parts(1) by (simp add: nodes_ok_def sorted_ids_distinct)
    have "change_first (\<lambda>n. nn_id n = i) ?f (nw_nodes s) = xs @ ?f n # ys"
      using d n(2) unfolding split by (induction xs) auto
    then have new: "nw_nodes (node_change i ?f s) = xs @ ?f n # ys" by (simp add: node_change_def)
    have "(nn_parent m, nn_name m) \<noteq> (nn_parent n, name)" if "m \<in> set xs \<union> set ys" for m
    proof
      assume "(nn_parent m, nn_name m) = (nn_parent n, name)"
      then have "nn_id m = i" using name_free [OF False, of m] that split by auto
      then show False using d that n(2) unfolding split by auto
    qed
    then have "names_ok (node_change i ?f s)"
      using parts(2) unfolding names_ok_def new split by (auto simp: image_iff) blast+
    moreover have "map node_sig (nw_nodes (node_change i ?f s)) = map node_sig (nw_nodes s)"
      by (simp add: node_change_def map_change_first)
    moreover have "items_ok (node_change i ?f s)" by (rule items_ok_ids [OF parts(8)]) simp_all
    ultimately have "news_inv D (node_change i ?f s)"
      using parts(9,10) by (intro inv_cong [OF assms]) (simp_all add: subs_ok_def)
    then show ?thesis using Some False by (simp add: rename_node_def Let_def)
  qed
qed

lemma u64_next: "(x::u64) < - 1 \<Longrightarrow> x < x + 1"
  using inc_less_eq_self_iff_eq [of x] by force

lemma create_cases:
  assumes "create_node n max_depth s = (res, s')"
  obtains (same) "s' = s"
    | (made) l where "create_level n s = Inr l" "l \<le> max_depth" "\<not> name_taken s (ne_parent n) (ne_name n) None"
        "ne_guid n \<notin> nn_guid ` set (nw_nodes s)"
        "s' = s\<lparr>nw_last_node := nw_last_node s + 1, nw_nodes := nw_nodes s @ [row_for n s]\<rparr>"
proof (cases "create_level n s")
  case (Inl e)
  then show ?thesis using assms by (intro same) (simp add: create_node_def)
next
  case (Inr l)
  let ?guid = "list_ex (\<lambda>m. nn_guid m = ne_guid n) (nw_nodes s)"
  show ?thesis
  proof (cases "max_depth < l \<or> name_taken s (ne_parent n) (ne_name n) None \<or> ?guid")
    case True
    then show ?thesis using assms Inr by (intro same) (auto simp: create_node_def split: if_splits)
  next
    case False
    then have free: "\<not> max_depth < l" "\<not> name_taken s (ne_parent n) (ne_name n) None" "\<not> ?guid" by simp_all
    then show ?thesis using assms Inr by (intro made [OF Inr]) (simp_all add: create_node_def, auto simp: list_ex_iff)
  qed
qed

lemma create_inv:
  assumes "news_inv D s" "nw_last_node s < - 1" "max_depth \<le> D" "D < - 1"
  shows "news_inv D (snd (create_node n max_depth s))"
proof -
  obtain res s' where c: "create_node n max_depth s = (res, s')" by fastforce
  note parts = core_parts [OF assms(1)]
  from c have "news_inv D s'"
  proof (cases rule: create_cases)
    case (made l)
    let ?r = "row_for n s" and ?new = "nw_last_node s + 1"
    have nodes: "nw_nodes s' = nw_nodes s @ [?r]" and r: "nn_id ?r = ?new" "nn_parent ?r = ne_parent n" "nn_name ?r = ne_name n" "nn_guid ?r = ne_guid n"
      by (simp_all add: made(5) row_for_def)
    have below: "nn_id m < ?new" if "m \<in> set (nw_nodes s)" for m
      using parts(1) that u64_next [OF assms(2)] by (auto simp: nodes_ok_def)
    have parent: "\<exists>m\<in>set (nw_nodes s). nn_id m = p \<and> nn_kind m = Bundle \<and> level s p = Some (l - 1)" if "ne_parent n = Some p" for p
      using made(1) that by (auto simp: create_level_def node_at_iff [OF parts(1)] split: option.splits if_splits)
    have old_ok: "node_ok (nw_nodes s @ [?r]) m" if "m \<in> set (nw_nodes s)" for m
      using parts(1) that by (auto simp: nodes_ok_def node_ok_def split: option.splits)
    have new_ok: "node_ok (nw_nodes s @ [?r]) ?r"
      using parent below by (force simp: node_ok_def r(2) r(1) split: option.split)
    have 1: "nodes_ok s'"
      using parts(1) below made(4) old_ok new_ok u64_next [OF assms(2)] unfolding nodes_ok_def nodes
      by (auto simp: sorted_wrt_append r(1,4) made(5) order.strict_implies_order)
    have 2: "names_ok s'"
      using parts(2) name_free [OF made(3)] unfolding names_ok_def nodes by (auto simp: r) metis
    have at_old: "parent_of s' i = parent_of s i" if "i \<in> {..nw_last_node s}" for i
      using that u64_next [OF assms(2)] by (auto simp: parent_of_def node_at_def nodes find_append r(1) split: option.split)
    have lev_old: "level s' i = level s i" if "i \<le> nw_last_node s" for i
      unfolding level_def
    proof (rule level_agree [OF nodes_descend [OF parts(1)] at_old])
      show "p \<in> {..nw_last_node s}" if "j \<in> {..nw_last_node s}" "parent_of s j = Some (Some p)" for j p
        using nodes_descend [OF parts(1)] that by (auto simp: descends_def intro: order.trans [OF less_imp_le])
    qed (use that in simp_all)
    have "\<exists>k. level s' ?new = Some k \<and> 1 \<le> k \<and> k \<le> D"
    proof (cases "ne_parent n")
      case None
      then have "l = 1" using made(1) by (simp add: create_level_def)
      moreover have "level s' ?new = Some 1"
        using None node_at_iff [OF 1, of ?new ?r] by (simp add: level_def level_from_parent [of s' ?new] parent_of_def nodes r)
      ultimately show ?thesis using made(2) assms(3) by auto
    next
      case (Some p)
      then obtain m where m: "m \<in> set (nw_nodes s)" "nn_id m = p" "nn_kind m = Bundle" "level s p = Some (l - 1)" using parent by blast
      then have "p \<le> nw_last_node s" using parts(1) by (auto simp: nodes_ok_def)
      then have "level s' p = Some (l - 1)" using lev_old m(4) by simp
      moreover have "parent_of s' ?new = Some (Some p)" using Some node_at_iff [OF 1, of ?new ?r] by (simp add: parent_of_def nodes r)
      ultimately have "level s' ?new = Some (l - 1 + 1)" by (rule level_child [OF 1, rotated])
      moreover have "l \<noteq> 0"
      proof -
        obtain k where k: "level s p = Some k" "1 \<le> k" "k \<le> D" using parts(3) m(1,2) by (auto simp: levels_ok_def)
        then have "l = k + 1" using m(4) by (metis diff_add_cancel option.inject)
        moreover have "k < k + 1" using inc_less_eq_self_iff_eq [of k] k(3) assms(4) by force
        ultimately show ?thesis by (metis word_not_simps(1))
      qed
      ultimately show ?thesis using made(2) assms(3) by (auto simp: word_le_nat_alt unat_gt_0 Suc_le_eq)
    qed
    moreover have "\<exists>k. level s' (nn_id m) = Some k \<and> 1 \<le> k \<and> k \<le> D" if "m \<in> set (nw_nodes s)" for m
      using parts(1,3) that lev_old by (auto simp: nodes_ok_def levels_ok_def)
    ultimately have 3: "levels_ok D s'" by (simp add: levels_ok_def nodes r(1))
    have "check_target s' sc = Inr ()" if "check_target s sc = Inr ()" for sc
      using that by (auto simp: check_target_def made(5) node_at_def row_of_def find_append split: sub_scope.splits option.splits)
    then have 4: "subs_ok s'" using parts(9) by (simp add: subs_ok_def made(5))
    have "arts_ok s'" "placed s'" "refs_there s'" "feeds_ok s'" "items_ok s'"
      using parts(4-8) by (auto simp: arts_ok_def placed_def refs_there_def feeds_ok_def items_ok_def feed_name_def made(5) split: option.splits)
    with 1 2 3 4 show ?thesis by (simp add: news_inv_def news_core_def subs_ok_def)
  qed (use assms(1) in simp)
  then show ?thesis by (simp add: c)
qed



subsection \<open>Removal\<close>

lemma remove_frame [simp]:
  "nw_nodes (remove_articles gone s) = nw_nodes s" "nw_last_node (remove_articles gone s) = nw_last_node s"
  "nw_last_article (remove_articles gone s) = nw_last_article s" "nw_subs (remove_articles gone s) = nw_subs s"
  "nw_feeds (remove_articles gone s) = nw_feeds s"
  "nw_articles (remove_articles gone s) = filter (\<lambda>a. art_id a \<notin> set gone) (nw_articles s)"
  by (simp_all add: remove_articles_def)

lemma feeds_ok_same: "feeds_ok s \<Longrightarrow> set (nw_articles s') \<subseteq> set (nw_articles s) \<Longrightarrow> nw_feeds s' = nw_feeds s \<Longrightarrow> feeds_ok s'"
proof -
  assume a: "feeds_ok s" "set (nw_articles s') \<subseteq> set (nw_articles s)" "nw_feeds s' = nw_feeds s"
  from a(3) have "feed_name s' = feed_name s" by (simp add: feed_name_def fun_eq_iff)
  with a(1,2) show ?thesis unfolding feeds_ok_def by (metis subsetD)
qed

lemma remove_arts:
  assumes "arts_ok s" "\<And>a p. a \<in> set (nw_articles s) \<Longrightarrow> art_parent a = Some p \<Longrightarrow> p \<in> set gone \<Longrightarrow> art_id a \<in> set gone"
  shows "arts_ok (remove_articles gone s)"
proof -
  have "art_ok (filter (\<lambda>a. art_id a \<notin> set gone) (nw_articles s)) a" if a: "a \<in> set (nw_articles s)" "art_id a \<notin> set gone" for a
  proof (cases "art_parent a")
    case None
    then show ?thesis using arts_starter [OF assms(1) a(1) None] by (simp add: art_ok_def)
  next
    case (Some p)
    obtain b where b: "b \<in> set (nw_articles s)" "art_id b = p" "p < art_id a" "art_category a = art_category b"
      "art_root a = art_root b" "art_depth a = art_depth b + 1" "art_path a = art_path b @ be_bytes 4 (unat (art_id a))"
      by (rule arts_parent [OF assms(1) a(1) Some])
    have "p \<notin> set gone" using assms(2) [OF a(1) Some] a(2) by blast
    then show ?thesis using b Some by (auto simp: art_ok_def intro!: bexI [of _ b])
  qed
  then show ?thesis using assms(1) by (auto simp: arts_ok_def sorted_wrt_map intro: sorted_wrt_filter)
qed

lemma remove_core:
  assumes "news_core D s" "\<And>a p. a \<in> set (nw_articles s) \<Longrightarrow> art_parent a = Some p \<Longrightarrow> p \<in> set gone \<Longrightarrow> art_id a \<in> set gone"
  shows "news_core D (remove_articles gone s)"
proof -
  let ?s = "remove_articles gone s"
  note core = assms(1) [unfolded news_core_def]
  have "nodes_ok ?s" "names_ok ?s" using core by (simp_all add: nodes_ok_def names_ok_def)
  moreover have "levels_ok D ?s" by (rule levels_ok_cong [of ?s s]) (use core in simp_all)
  moreover have "arts_ok ?s" by (rule remove_arts) (use core assms(2) in auto)
  moreover have "placed ?s" using core by (auto simp: placed_def)
  moreover have "feeds_ok ?s" by (rule feeds_ok_same [of s]) (use core in auto)
  moreover have "refs_there ?s" using core by (force simp: refs_there_def remove_articles_def)
  moreover have "items_ok ?s"
    using core unfolding items_ok_def remove_articles_def om_map_def by (force split: option.splits if_splits simp: om_wf_def comp_def case_prod_beta')
  ultimately show ?thesis using core by (simp add: news_core_def)
qed

lemma drop_orphan_frame [simp]:
  "nw_nodes (drop_orphan_subs s) = nw_nodes s" "nw_last_node (drop_orphan_subs s) = nw_last_node s"
  "nw_last_article (drop_orphan_subs s) = nw_last_article s" "nw_articles (drop_orphan_subs s) = nw_articles s"
  by (simp_all add: drop_orphan_subs_def)

lemma drop_orphan_inv: "news_core D s \<Longrightarrow> news_inv D (drop_orphan_subs s)"
proof -
  assume c: "news_core D s"
  note core = c [unfolded news_core_def]
  let ?s = "drop_orphan_subs s"
  have "distinct (map sub_key (nw_subs ?s))" using core by (simp add: drop_orphan_subs_def distinct_map_filter)
  moreover have "check_target ?s sc = check_target s sc" for sc
    by (simp add: check_target_def row_of_def node_at_def drop_orphan_subs_def split: sub_scope.split)
  then have "\<forall>r\<in>set (nw_subs ?s). check_target ?s (sb_scope r) = Inr ()"
    by (auto simp: drop_orphan_subs_def split: sum.splits)
  moreover have "nodes_ok ?s" "names_ok ?s" "arts_ok ?s" "placed ?s" "refs_there ?s"
    using core by (simp_all add: nodes_ok_def names_ok_def arts_ok_def placed_def refs_there_def drop_orphan_subs_def)
  moreover have "levels_ok D ?s" by (rule levels_ok_cong [of ?s s]) (use core in simp_all)
  moreover have "feeds_ok ?s" by (rule feeds_ok_same [of s]) (use core in \<open>simp_all add: drop_orphan_subs_def\<close>)
  moreover have "items_ok ?s" by (rule items_ok_ids [of s]) (use core in \<open>simp_all add: drop_orphan_subs_def\<close>)
  ultimately show ?thesis by (simp add: news_inv_def news_core_def subs_ok_def)
qed

lemma drop_node_core:
  assumes "news_core D s" "\<And>n. n \<in> set (nw_nodes s) \<Longrightarrow> nn_parent n \<noteq> Some i" "\<And>a. a \<in> set (nw_articles s) \<Longrightarrow> art_category a \<noteq> i"
  shows "news_core D (s\<lparr>nw_nodes := filter (\<lambda>n. nn_id n \<noteq> i) (nw_nodes s)\<rparr>)"
proof -
  let ?s = "s\<lparr>nw_nodes := filter (\<lambda>n. nn_id n \<noteq> i) (nw_nodes s)\<rparr>"
  note core = assms(1) [unfolded news_core_def]
  have nodes: "nodes_ok s" and desc: "descends s" using core by (simp_all add: nodes_descend)
  have ok: "node_ok (filter (\<lambda>n. nn_id n \<noteq> i) (nw_nodes s)) n" if "n \<in> set (nw_nodes s)" for n
    using nodes that assms(2) [OF that] by (fastforce simp: nodes_ok_def node_ok_def split: option.splits)
  have "nodes_ok ?s" using nodes ok by (auto simp: nodes_ok_def sorted_wrt_map distinct_map_filter intro: sorted_wrt_filter)
  moreover have "names_ok ?s" using core by (simp add: names_ok_def distinct_map_filter)
  moreover have "levels_ok D ?s"
  proof -
    have find: "find P (filter Q xs) = find P xs" if "\<And>x. P x \<Longrightarrow> Q x" for P Q and xs :: "node_row list"
      using that by (induction xs) auto
    have same: "parent_of ?s j = parent_of s j" if "j \<in> {j. j \<noteq> i}" for j
      using that by (auto simp: parent_of_def node_at_def find)
    have "level ?s j = level s j" if "j \<noteq> i" for j
      unfolding level_def
    proof (rule level_agree [OF desc same])
      show "p \<in> {j. j \<noteq> i}" if "parent_of s k = Some (Some p)" for k p
        using that assms(2) by (auto simp: parent_of_def node_at_iff [OF nodes])
    qed (use that in simp_all)
    then show ?thesis using core by (auto simp: levels_ok_def)
  qed
  moreover have "placed ?s" using core assms(3) by (fastforce simp: placed_def)
  moreover have "arts_ok ?s" "refs_there ?s" using core by (simp_all add: arts_ok_def refs_there_def)
  moreover have "feeds_ok ?s" by (rule feeds_ok_same [of s]) (use core in simp_all)
  moreover have "items_ok ?s" by (rule items_ok_ids [of s]) (use core in simp_all)
  ultimately show ?thesis using core by (simp add: news_core_def)
qed

definition of_node :: "news \<Rightarrow> node_row \<Rightarrow> article_id list" where
  "of_node s n = (case nn_kind n of
     Bundle \<Rightarrow> [] | Category \<Rightarrow> map art_id (filter (\<lambda>a. art_category a = nn_id n) (nw_articles s)))"

definition without_node :: "news \<Rightarrow> node_row \<Rightarrow> news" where
  "without_node s n = (let s1 = remove_articles (of_node s n) s in s1\<lparr>nw_nodes := filter (\<lambda>m. nn_id m \<noteq> nn_id n) (nw_nodes s1)\<rparr>)"

lemma delete_cases:
  assumes "nodes_ok s" "delete_node i s = (res, s')"
  obtains (same) "s' = s"
    | (gone) n where "n \<in> set (nw_nodes s)" "nn_id n = i" "nn_kind n = Bundle \<Longrightarrow> \<forall>c\<in>set (nw_nodes s). nn_parent c \<noteq> Some i"
        "s' = drop_orphan_subs (without_node s n)"
proof (cases "node_at s i")
  case None
  then show ?thesis using assms(2) by (intro same) (simp add: delete_node_def)
next
  case (Some n)
  have n: "n \<in> set (nw_nodes s)" "nn_id n = i" using Some node_at_iff [OF assms(1)] by auto
  show ?thesis
  proof (cases "nn_kind n = Bundle \<and> list_ex (\<lambda>c. nn_parent c = Some i) (nw_nodes s)")
    case True
    then show ?thesis using Some assms(2) by (intro same) (simp add: delete_node_def)
  next
    case False
    have "s' = drop_orphan_subs (without_node s n)"
      using Some False assms(2) by (simp add: delete_node_def without_node_def of_node_def n(2) Let_def if_not_P cong: node_kind.case_cong)
    then show ?thesis using n False by (intro gone) (auto simp: list_ex_iff)
  qed
qed

lemma no_children:
  assumes "nodes_ok s" "n \<in> set (nw_nodes s)" "nn_kind n = Bundle \<Longrightarrow> \<forall>c\<in>set (nw_nodes s). nn_parent c \<noteq> Some (nn_id n)" "m \<in> set (nw_nodes s)"
  shows "nn_parent m \<noteq> Some (nn_id n)"
proof
  assume p: "nn_parent m = Some (nn_id n)"
  have "node_ok (nw_nodes s) m" using assms(1,4) by (simp add: nodes_ok_def)
  then obtain b where b: "b \<in> set (nw_nodes s)" "nn_id b = nn_id n" "nn_kind b = Bundle" using p by (auto simp: node_ok_def)
  have "node_at s (nn_id n) = Some n" "node_at s (nn_id n) = Some b" using assms(2) b by (simp_all add: node_at_iff [OF assms(1)])
  then have "nn_kind n = Bundle" using b(3) by simp
  then show False using assms(3,4) p by blast
qed

lemma of_node_closed:
  assumes "arts_ok s" "a \<in> set (nw_articles s)" "art_parent a = Some p" "p \<in> set (of_node s n)"
  shows "art_id a \<in> set (of_node s n)"
proof -
  have kind: "nn_kind n = Category" using assms(4) by (cases "nn_kind n") (simp_all add: of_node_def)
  obtain c where c: "c \<in> set (nw_articles s)" "art_id c = p" "art_category c = nn_id n" using assms(4) kind by (auto simp: of_node_def)
  obtain b where b: "b \<in> set (nw_articles s)" "art_id b = p" "art_category a = art_category b" by (rule arts_parent [OF assms(1-3)])
  have "row_of s p = Some b" "row_of s p = Some c" using b c by (simp_all add: row_of_iff [OF assms(1)])
  then have "art_category a = nn_id n" using b(3) c(3) by simp
  then show ?thesis using assms(2) kind by (simp add: of_node_def)
qed

lemma of_node_all:
  assumes "nodes_ok s" "placed s" "n \<in> set (nw_nodes s)" "a \<in> set (nw_articles s)" "art_id a \<notin> set (of_node s n)"
  shows "art_category a \<noteq> nn_id n"
proof
  assume c: "art_category a = nn_id n"
  then obtain m where m: "m \<in> set (nw_nodes s)" "nn_id m = nn_id n" "nn_kind m = Category" using assms(2,4) by (auto simp: placed_def)
  have "node_at s (nn_id n) = Some n" "node_at s (nn_id n) = Some m" using assms(3) m by (simp_all add: node_at_iff [OF assms(1)])
  then have "nn_kind n = Category" using m(3) by simp
  then show False using assms(4,5) c by (simp add: of_node_def)
qed

lemma delete_inv:
  assumes "news_inv D s"
  shows "news_inv D (snd (delete_node i s))"
proof -
  obtain res s' where d: "delete_node i s = (res, s')" by fastforce
  note parts = core_parts [OF assms]
  from parts(1) d have "news_inv D s'"
  proof (cases rule: delete_cases)
    case (gone n)
    have "news_core D (remove_articles (of_node s n) s)"
      by (rule remove_core [OF _ of_node_closed [OF parts(4)]]) (use assms in \<open>simp_all add: news_inv_def\<close>)
    then have "news_core D (without_node s n)"
      unfolding without_node_def Let_def
    proof (rule drop_node_core)
      show "nn_parent m \<noteq> Some (nn_id n)" if "m \<in> set (nw_nodes (remove_articles (of_node s n) s))" for m
        by (rule no_children [OF parts(1) gone(1)]) (use gone(2,3) that in simp_all)
      show "art_category a \<noteq> nn_id n" if "a \<in> set (nw_articles (remove_articles (of_node s n) s))" for a
        by (rule of_node_all [OF parts(1,5) gone(1)]) (use that in simp_all)
    qed
    then show ?thesis unfolding gone(4) by (rule drop_orphan_inv)
  qed (use assms in simp)
  then show ?thesis by (simp add: d)
qed

end
