(* ===== verification/News_Runs.thy ===== *)
theory News_Runs
  imports News_Safety
begin

section \<open>Runs of the news store\<close>

text \<open>
  Posting, burying, retention, subscriptions and feeds keep \<open>news_inv\<close>, and with the tree's writes these are all the writes there are;
  \<open>monotone_steps\<close> lifts that to runs.
\<close>


subsection \<open>Subscriptions\<close>

lemma owns_key: "owns who row \<longleftrightarrow> mkey row = mkey who"
  using is_mb_mkey [of row who] by (simp add: owns_def is_mb_def)

lemma is_sub_key: "is_sub owner sc r \<longleftrightarrow> sub_key r = (mkey owner, sc)"
  by (auto simp: is_sub_def owns_key sub_key_def)

lemma sub_at_None: "sub_at s owner sc = None \<longleftrightarrow> (mkey owner, sc) \<notin> sub_key ` set (nw_subs s)"
  by (auto simp: sub_at_def find_None_iff is_sub_key image_iff)

text \<open>Writes of the subscriptions alone.\<close>

lemma subs_inv:
  assumes "news_inv D s" "s' = s\<lparr>nw_last_sub := n, nw_subs := subs\<rparr>" "distinct (map sub_key subs)"
    "\<And>r. r \<in> set subs \<Longrightarrow> check_target s (sb_scope r) = Inr ()"
  shows "news_inv D s'"
proof (rule inv_cong [OF assms(1)])
  show "names_ok s'" using core_parts(2) [OF assms(1)] by (simp add: names_ok_def assms(2))
  show "items_ok s'" by (rule items_ok_ids [OF core_parts(8) [OF assms(1)]]) (simp_all add: assms(2))
qed (use assms in simp_all)

lemma subs_same: "s\<lparr>nw_subs := subs\<rparr> = s\<lparr>nw_last_sub := nw_last_sub s, nw_subs := subs\<rparr>"
  by simp

lemma subs_filter_inv:
  assumes "news_inv D s"
  shows "news_inv D (s\<lparr>nw_subs := filter P (nw_subs s)\<rparr>)"
  by (rule subs_inv [OF assms subs_same]) (use core_parts(9) [OF assms] in \<open>auto simp: subs_ok_def distinct_map_filter\<close>)

lemma add_sub_cases:
  assumes "add_sub owner sc auto muted max_subs at s = (res, s')"
  obtains (refused) e where "res = Inl e" "s' = s" "check_target s sc = Inl e \<or> e = Refused TooManySubs"
    | (added) r where "check_target s sc = Inr ()" "sb_owner r = owner" "sb_scope r = sc" "sb_last_seen r = newest s sc" "res = Inr (newest s sc)"
        "s' = s\<lparr>nw_last_sub := nw_last_sub s + 1, nw_subs := nw_subs s @ [r]\<rparr>"
        "length (filter (\<lambda>r. owns owner (sb_owner r)) (nw_subs s)) < max_subs"
proof (cases "check_target s sc")
  case (Inl e)
  then show ?thesis using assms by (intro refused) (auto simp: add_sub_def)
next
  case (Inr u)
  show ?thesis
  proof (cases "max_subs \<le> length (filter (\<lambda>r. owns owner (sb_owner r)) (nw_subs s))")
    case True
    then show ?thesis using assms Inr by (intro refused) (auto simp: add_sub_def)
  next
    case False
    then show ?thesis using assms Inr
      by (intro added [of "\<lparr>sb_id = nw_last_sub s + 1, sb_owner = owner, sb_scope = sc, sb_auto = auto,
               sb_muted = muted, sb_last_seen = newest s sc, sb_at = at\<rparr>"]) (simp_all add: add_sub_def)
  qed
qed

lemma add_sub_inv:
  assumes "news_inv D s" "sub_at s owner sc = None"
  shows "news_inv D (snd (add_sub owner sc auto muted max_subs at s))"
proof -
  obtain res s' where a: "add_sub owner sc auto muted max_subs at s = (res, s')" by fastforce
  from a have "news_inv D s'"
  proof (cases rule: add_sub_cases)
    case (added r)
    show ?thesis
    proof (rule subs_inv [OF assms(1) added(6)])
      show "distinct (map sub_key (nw_subs s @ [r]))"
        using assms(2) core_parts(10) [OF assms(1)] by (simp add: sub_at_None sub_key_def added(2,3))
      show "check_target s (sb_scope x) = Inr ()" if "x \<in> set (nw_subs s @ [r])" for x
        using that core_parts(9) [OF assms(1)] added(1,3) by (auto simp: subs_ok_def)
    qed
  qed (use assms(1) in simp)
  then show ?thesis by (simp add: a)
qed

lemma sub_change_inv:
  assumes "news_inv D s" "\<And>r. sub_key (f r) = sub_key r"
  shows "news_inv D (sub_change owner sc f s)"
proof -
  have keys: "map sub_key (change_first (is_sub owner sc) f (nw_subs s)) = map sub_key (nw_subs s)" by (rule map_change_first) (rule assms(2))
  show ?thesis unfolding sub_change_def
  proof (rule subs_inv [OF assms(1) subs_same])
    show "distinct (map sub_key (change_first (is_sub owner sc) f (nw_subs s)))" unfolding keys by (rule core_parts(10) [OF assms(1)])
    show "check_target s (sb_scope r) = Inr ()" if r: "r \<in> set (change_first (is_sub owner sc) f (nw_subs s))" for r
    proof -
      obtain q where "q \<in> set (nw_subs s)" "sub_key q = sub_key r" using map_eq_transfer [OF keys r] by auto
      then show ?thesis using core_parts(9) [OF assms(1)] by (auto simp: subs_ok_def sub_key_def)
    qed
  qed
qed

lemma subscribe_inv: "news_inv D s \<Longrightarrow> news_inv D (snd (subscribe owner sc max_subs at s))"
  using add_sub_inv [of D s owner sc False False max_subs at]
  by (auto simp: subscribe_def Let_def sub_key_def intro: sub_change_inv split: sum.split option.split prod.split)

lemma mute_inv: "news_inv D s \<Longrightarrow> news_inv D (snd (mute owner sc muted max_subs at s))"
  using add_sub_inv [of D s owner sc False True max_subs at]
  by (auto simp: mute_def sub_key_def intro: sub_change_inv split: sum.split option.split prod.split)

lemma seen_inv: "news_inv D s \<Longrightarrow> news_inv D (snd (seen_up_to owner sc up_to s))"
  by (auto simp: seen_up_to_def Let_def sub_key_def intro: sub_change_inv split: option.split)

lemma move_subs_inv:
  assumes "news_inv D s" "\<And>m. moves m \<longleftrightarrow> mkey m = k" "\<And>r. r \<in> set (nw_subs s) \<Longrightarrow> mkey (sb_owner r) = ByFp f \<Longrightarrow> sb_scope r \<in> set held"
  shows "news_inv D (s\<lparr>nw_subs := snd (move_subs moves f held (nw_subs s))\<rparr>)"
proof (rule subs_inv [OF assms(1) subs_same])
  let ?kept = "filter (\<lambda>r. \<not> (moves (sb_owner r) \<and> sb_scope r \<in> set held)) (nw_subs s)"
  let ?g = "\<lambda>r. r\<lparr>sb_owner := stamp moves f (sb_owner r)\<rparr>"
  have key: "sub_key (?g r) = (if mkey (sb_owner r) = k then ByFp f else mkey (sb_owner r), sb_scope r)" for r
    using assms(2) [of "sb_owner r"] by (auto simp: sub_key_def stamp_def mkey_def)
  have "inj_on (\<lambda>r. sub_key (?g r)) (set ?kept)"
  proof (rule inj_onI)
    fix q r assume q: "q \<in> set ?kept" and r: "r \<in> set ?kept" and eq: "sub_key (?g q) = sub_key (?g r)"
    have "mkey (sb_owner q) = mkey (sb_owner r)"
      using eq q r assms(3) [of q] assms(3) [of r] unfolding key by (auto simp: assms(2) split: if_splits)
    then have "sub_key q = sub_key r" using eq by (simp add: key sub_key_def)
    then show "q = r" using core_parts(10) [OF assms(1)] q r by (auto simp: distinct_map inj_on_def)
  qed
  moreover have "distinct ?kept" using core_parts(10) [OF assms(1)] by (simp add: distinct_map)
  ultimately show "distinct (map sub_key (snd (move_subs moves f held (nw_subs s))))"
    by (simp add: move_subs_def distinct_map inj_on_def)
  show "check_target s (sb_scope r) = Inr ()" if "r \<in> set (snd (move_subs moves f held (nw_subs s)))" for r
    using that core_parts(9) [OF assms(1)] by (auto simp: move_subs_def subs_ok_def)
qed

lemma subs_claim_inv: "news_inv D s \<Longrightarrow> news_inv D (snd (subs_claim l f s))"
  unfolding subs_claim_def Let_def split_beta snd_conv
  by (rule move_subs_inv [OF _ claim_moves_key]) (auto simp: owns_key mkey_def mailbox_identified_def)

lemma subs_rotate_inv: "news_inv D s \<Longrightarrow> news_inv D (snd (subs_rotate k k' s))"
  unfolding subs_rotate_def Let_def split_beta snd_conv
  by (rule move_subs_inv [OF _ rotate_moves_key]) (auto simp: mkey_def split: option.splits)


subsection \<open>Posting\<close>

lemma kept_refs_rows: "set (kept_refs p max_refs s) \<subseteq> art_id ` set (nw_articles s)"
proof -
  have "set (fold (\<lambda>dst kept. if length kept < max_refs \<and> dst \<notin> set kept \<and> row_of s dst \<noteq> None then kept @ [dst] else kept) ds kept)
      \<subseteq> set kept \<union> art_id ` set (nw_articles s)" for ds kept
  proof (induction ds arbitrary: kept)
    case (Cons d ds)
    show ?case using Cons.IH [of "kept @ [d]"] Cons.IH [of kept] by (auto simp: row_of_None)
  qed simp
  from this [of "np_refs p" "[]"] show ?thesis by (simp add: kept_refs_def)
qed

lemma kept_refs_bound: "length (kept_refs p max_refs s) \<le> max_refs"
proof -
  have "length (fold (\<lambda>dst kept. if length kept < max_refs \<and> dst \<notin> set kept \<and> row_of s dst \<noteq> None then kept @ [dst] else kept) ds kept)
      \<le> max_refs" if "length kept \<le> max_refs" for ds kept
    using that by (induction ds arbitrary: kept) auto
  from this [of "[]"] show ?thesis by (simp add: kept_refs_def)
qed

definition next_id :: "news \<Rightarrow> article_id" where
  "next_id s = ucast (nw_last_article s + 1)"

lemma next_id_unat:
  assumes "\<not> 2 ^ 32 \<le> nw_last_article s + 1" "unat (nw_last_article s) < 2 ^ 32"
  shows "unat (next_id s) = unat (nw_last_article s) + 1" "unat (nw_last_article s + 1) = unat (nw_last_article s) + 1"
    "unat (nw_last_article s) + 1 < 2 ^ 32"
proof -
  have "unat (nw_last_article s + 1) = unat (nw_last_article s) + 1"
    using assms(2) by (subst unat_add_lem [THEN iffD1]) (simp_all add: unsigned_1)
  moreover from assms(1) have "unat (nw_last_article s + 1) < unat (2 ^ 32 :: u64)" by (simp add: word_le_nat_alt not_le)
  then have "unat (nw_last_article s + 1) < 2 ^ 32" by simp
  ultimately show "unat (next_id s) = unat (nw_last_article s) + 1" "unat (nw_last_article s + 1) = unat (nw_last_article s) + 1"
    "unat (nw_last_article s) + 1 < 2 ^ 32"
    by (simp_all add: next_id_def unat_ucast_mod)
qed


text \<open>Where a post hangs, its row is in order.\<close>

lemma post_place_ok:
  assumes "arts_ok s" "post_place p max_depth s = Inr (parent_path, depth, rt)" "\<not> 2 ^ 32 \<le> nw_last_article s + 1"
  shows "art_ok (nw_articles s) (article_for p (next_id s) (parent_path @ be_bytes 4 (unat (next_id s))) depth
    (case rt of Some r \<Rightarrow> r | None \<Rightarrow> next_id s))"
proof (cases "np_parent p")
  case None
  then show ?thesis using assms(2) by (simp add: post_place_def article_for_def art_ok_def)
next
  case (Some pid)
  then obtain b where b: "row_of s pid = Some b" "art_category b = np_category p" "parent_path = art_path b" "depth = art_depth b + 1" "rt = Some (art_root b)"
    using assms(2) by (auto simp: post_place_def split: option.splits if_splits)
  then have in_b: "b \<in> set (nw_articles s)" "art_id b = pid" by (simp_all add: row_of_iff [OF assms(1)])
  moreover have "pid < next_id s"
    using in_bounds [OF assms(1) in_b(1)] next_id_unat(1) [OF assms(3)] assms(1) in_b(2) by (simp add: word_less_nat_alt arts_ok_def)
  ultimately show ?thesis using Some b by (auto simp: article_for_def art_ok_def intro!: bexI [of _ b])
qed

lemma art_ok_mono: "art_ok as a \<Longrightarrow> set as \<subseteq> set as' \<Longrightarrow> art_ok as' a"
  by (fastforce simp: art_ok_def split: option.splits)

lemma post_write_frame [simp]:
  "nw_articles (post_write p max_refs i path depth root s) = nw_articles s @ [article_for p i path depth root]"
  "nw_last_article (post_write p max_refs i path depth root s) = nw_last_article s + 1"
  "nw_last_node (post_write p max_refs i path depth root s) = nw_last_node s"
  "nw_subs (post_write p max_refs i path depth root s) = nw_subs s" "nw_feeds (post_write p max_refs i path depth root s) = nw_feeds s"
  by (simp_all add: post_write_def)

definition feed_allowed :: "news \<Rightarrow> new_post \<Rightarrow> bool" where
  "feed_allowed s p = (case np_feed p of None \<Rightarrow> True | Some f \<Rightarrow> feed_name s (fp_feed f) \<noteq> None)"

lemma post_write_inv:
  assumes inv: "news_inv D s" and cat: "news_category s (np_category p) = Inr c" and feed: "feed_allowed s p"
    and room: "\<not> 2 ^ 32 \<le> nw_last_article s + 1"
    and ok: "art_ok (nw_articles s) (article_for p (next_id s) path depth root)"
  shows "news_inv D (post_write p max_refs (next_id s) path depth root s)"
proof -
  note parts = core_parts [OF inv]
  let ?a = "article_for p (next_id s) path depth root"
  let ?s = "s\<lparr>nw_last_article := nw_last_article s + 1,
          nw_refs := nw_refs s @ map (\<lambda>dst. (next_id s, dst)) (kept_refs p max_refs s), nw_articles := nw_articles s @ [?a],
          nw_feed_items := (case np_feed p of
             Some f \<Rightarrow> om_put (fp_feed f, fp_key f) \<lparr>fi_article = Some (next_id s), fi_hash = fp_hash f,
                 fi_last_seen = floor_time (fp_seen f)\<rparr> (nw_feed_items s)
           | None \<Rightarrow> nw_feed_items s)\<rparr>"
  have last: "unat (nw_last_article s) < 2 ^ 32" using parts(4) by (simp add: arts_ok_def)
  note next_nums = next_id_unat [OF room last]
  have a: "art_id ?a = next_id s" "art_category ?a = np_category p" "art_feed ?a = map_option fp_feed (np_feed p)" by (simp_all add: article_for_def)
  have above: "art_id b < next_id s" if "b \<in> set (nw_articles s)" for b
    using in_bounds [OF parts(4) that] next_nums(1) by (simp add: word_less_nat_alt)
  have 1: "arts_ok ?s"
  proof -
    have "next_id s \<noteq> 0" using next_nums(1) by (metis Suc_eq_plus1 old.nat.distinct(2) unsigned_0)
    moreover have "art_ok (nw_articles s @ [?a]) b" if "b \<in> set (nw_articles s)" for b
      using parts(4) that by (auto simp: arts_ok_def intro: art_ok_mono)
    moreover have "art_ok (nw_articles s @ [?a]) ?a" by (rule art_ok_mono [OF ok]) auto
    ultimately show ?thesis
      using parts(4) above next_nums by (auto simp: arts_ok_def sorted_wrt_append a intro: le_SucI)
  qed
  have 2: "placed ?s"
    using cat parts(5) by (auto simp: placed_def news_category_def a node_at_iff [OF parts(1)] split: option.splits if_splits)
  have 3: "refs_there ?s" using parts(6) kept_refs_rows [of p max_refs s] by (auto simp: refs_there_def a)
  have 4: "feeds_ok ?s"
    using parts(7) feed by (auto simp: feeds_ok_def feed_allowed_def feed_name_def a split: option.splits)
  have 5: "items_ok ?s"
  proof -
    have "om_wf (nw_feed_items ?s)" using parts(8) by (auto simp: items_ok_def om_wf_put split: option.split)
    then show ?thesis using parts(8) by (auto simp: items_ok_def a om_put_def split: option.splits)
  qed
  have "check_target ?s sc = Inr ()" if "check_target s sc = Inr ()" for sc
    using that by (auto simp: check_target_def row_of_def node_at_def find_append split: sub_scope.splits option.splits if_splits)
  then have 6: "subs_ok ?s" using parts(9) by (simp add: subs_ok_def)
  have "nodes_ok ?s" "names_ok ?s" using parts(1,2) by (simp_all add: nodes_ok_def names_ok_def)
  moreover have "levels_ok D ?s" by (rule levels_ok_cong [of ?s s]) (use parts(1,3) in simp_all)
  ultimately have "news_inv D ?s" using 1 2 3 4 5 6 by (simp add: news_inv_def news_core_def subs_ok_def)
  from bump_inv [OF bumps(1) this] show ?thesis by (simp add: post_write_def)
qed

lemma follow_inv: "news_inv D s \<Longrightarrow> news_inv D (snd (follow_thread fo root at s))"
  using add_sub_inv [of D s _ "ScThread root" True False _ at]
  by (auto simp: follow_thread_def split: option.split prod.split sum.split fault.split news_error.split) (metis snd_conv)+

lemma post_cases:
  assumes "post p max_depth max_refs s = (res, s')"
  obtains (refused) e where "res = Inl (Refused e)" "s' = s"
    | (stored) c parent_path depth rt root s1 fr where "news_category s (np_category p) = Inr c" "post_place p max_depth s = Inr (parent_path, depth, rt)"
        "\<not> 2 ^ 32 \<le> nw_last_article s + 1" "root = (case rt of Some r \<Rightarrow> r | None \<Rightarrow> next_id s)"
        "s1 = post_write p max_refs (next_id s) (parent_path @ be_bytes 4 (unat (next_id s))) depth root s"
        "follow_thread (np_follow p) root (np_at p) s1 = (fr, s')"
        "res = (case fr of Inr _ \<Rightarrow> Inr \<lparr>po_id = next_id s, po_root = root\<rparr> | Inl e \<Rightarrow> Inl e)"
proof (cases "np_attachments p = []")
  case False
  then show ?thesis using assms by (intro refused) (auto simp: post_def)
next
  case True
  show ?thesis
  proof (cases "news_category s (np_category p)")
    case (Inl e)
    then have "\<exists>x. e = Refused x" by (auto simp: news_category_def split: option.splits if_splits)
    then show ?thesis using assms True Inl by (auto simp: post_def intro: refused)
  next
    case (Inr c)
    show ?thesis
    proof (cases "post_place p max_depth s")
      case (Inl e)
      then have "\<exists>x. e = Refused x" by (auto simp: post_place_def split: option.splits if_splits)
      then show ?thesis using assms True Inl Inr by (auto simp: post_def intro: refused)
    next
      case place: (Inr t)
      obtain pp d rt where t: "t = (pp, d, rt)" by (cases t)
      show ?thesis
      proof (cases "2 ^ 32 \<le> nw_last_article s + 1")
        case True': True
        then show ?thesis using assms True Inr place t by (intro refused) (auto simp: post_def)
      next
        case False
        let ?root = "case rt of Some r \<Rightarrow> r | None \<Rightarrow> next_id s"
        let ?s1 = "post_write p max_refs (next_id s) (pp @ be_bytes 4 (unat (next_id s))) d ?root s"
        obtain fr s2 where f: "follow_thread (np_follow p) ?root (np_at p) ?s1 = (fr, s2)" by fastforce
        have "post p max_depth max_refs s = (case fr of Inr _ \<Rightarrow> Inr \<lparr>po_id = next_id s, po_root = ?root\<rparr> | Inl e \<Rightarrow> Inl e, s2)"
          using True Inr place t False f by (simp add: post_def Let_def next_id_def [symmetric] split: sum.split)
        then show ?thesis using assms f by (intro stored [OF Inr place [unfolded t] False refl refl]) auto
      qed
    qed
  qed
qed


lemma post_inv:
  assumes "news_inv D s" "feed_allowed s p"
  shows "news_inv D (snd (post p max_depth max_refs s))"
proof -
  obtain res s' where c: "post p max_depth max_refs s = (res, s')" by fastforce
  from c have "news_inv D s'"
  proof (cases rule: post_cases)
    case (stored c parent_path depth rt root s1 fr)
    have "news_inv D s1"
      unfolding stored(4,5)
      by (rule post_write_inv [OF assms(1) stored(1) assms(2) stored(3) post_place_ok [OF core_parts(4) [OF assms(1)] stored(2,3)]])
    from follow_inv [OF this] show ?thesis using stored(6) by (metis snd_conv)
  qed (use assms in simp)
  then show ?thesis by (simp add: c)
qed


subsection \<open>Burying and retention\<close>

lemma articles_keep_inv:
  assumes "news_inv D s" "map art_sig as = map art_sig (nw_articles s)" "set rs \<subseteq> set (nw_refs s)"
    "om_wf its" "\<And>p. p \<in> set its \<Longrightarrow> fi_article (snd p) \<in> insert None (Some ` art_id ` set (nw_articles s))"
  shows "news_inv D (s\<lparr>nw_refs := rs, nw_articles := as, nw_feed_items := its\<rparr>)"
proof (rule inv_cong [OF assms(1)])
  show "names_ok (s\<lparr>nw_refs := rs, nw_articles := as, nw_feed_items := its\<rparr>)"
    using core_parts(2) [OF assms(1)] by (simp add: names_ok_def)
  show "items_ok (s\<lparr>nw_refs := rs, nw_articles := as, nw_feed_items := its\<rparr>)"
    using assms(4,5) id_set_cong [OF assms(2)] by (fastforce simp: items_ok_def split: option.split)
  show "check_target s (sb_scope r) = Inr ()" if "r \<in> set (nw_subs (s\<lparr>nw_refs := rs, nw_articles := as, nw_feed_items := its\<rparr>))" for r
    using core_parts(9) [OF assms(1)] that by (simp add: subs_ok_def)
qed (use assms(2,3) core_parts(10) [OF assms(1)] in simp_all)

lemma items_of: "news_inv D s \<Longrightarrow> om_wf (nw_feed_items s)"
  "news_inv D s \<Longrightarrow> p \<in> set (nw_feed_items s) \<Longrightarrow> fi_article (snd p) \<in> insert None (Some ` art_id ` set (nw_articles s))"
  using core_parts(8) [of D s] by (simp add: items_ok_def) (cases "fi_article (snd p)"; use core_parts(8) [of D s] in \<open>force simp: items_ok_def\<close>)

lemma tombstone_inv:
  assumes "news_inv D s"
  shows "news_inv D (snd (tombstone i s))"
proof -
  let ?s1 = "s\<lparr>nw_refs := filter (\<lambda>(src, dst). src \<noteq> i) (nw_refs s), nw_articles := change_first (\<lambda>a. art_id a = i) buried (nw_articles s)\<rparr>"
  have "news_inv D (s\<lparr>nw_refs := filter (\<lambda>(src, dst). src \<noteq> i) (nw_refs s), nw_articles := change_first (\<lambda>a. art_id a = i) buried (nw_articles s),
      nw_feed_items := nw_feed_items s\<rparr>)"
    by (rule articles_keep_inv [OF assms]) (auto simp: map_change_first art_sig_eq buried_def items_of [OF assms] dest: items_of(2) [OF assms])
  then have "news_inv D ?s1" by simp
  then show ?thesis using assms bump_inv [OF bumps(2)] by (auto simp: tombstone_def Let_def split: option.split)
qed

lemma authors_rotate_inv:
  assumes "news_inv D s"
  shows "news_inv D (snd (authors_rotate k k' s))"
proof -
  let ?f = "\<lambda>a. if au_fp (art_author a) = Some k then a\<lparr>art_author := (art_author a)\<lparr>au_fp := Some k'\<rparr>\<rparr> else a"
  have "news_inv D (s\<lparr>nw_refs := nw_refs s, nw_articles := map ?f (nw_articles s), nw_feed_items := nw_feed_items s\<rparr>)"
    by (rule articles_keep_inv [OF assms]) (auto simp: art_sig_eq items_of [OF assms] dest: items_of(2) [OF assms])
  then show ?thesis by (simp add: authors_rotate_def Let_def)
qed

lemma prune_news_inv:
  assumes "news_inv D s"
  shows "news_inv D (snd (news_prune max_age now s))"
proof -
  note parts = core_parts [OF assms]
  define stale where "stale = filter (is_stale s (floor_time (now - max_age))) (nw_articles s)"
  define gone where "gone = map art_id (filter (\<lambda>a. art_root a \<in> set (map art_id stale)) (nw_articles s))"
  have closed: "art_id a \<in> set gone" if a: "a \<in> set (nw_articles s)" "art_parent a = Some p" "p \<in> set gone" for a p
  proof -
    obtain b where b: "b \<in> set (nw_articles s)" "art_id b = p" "art_root a = art_root b" by (rule arts_parent [OF parts(4) a(1,2)])
    obtain c where c: "c \<in> set (nw_articles s)" "art_id c = p" "art_root c \<in> set (map art_id stale)" using a(3) by (auto simp: gone_def)
    have "row_of s p = Some b" "row_of s p = Some c" using b c by (simp_all add: row_of_iff [OF parts(4)])
    then have "art_root a \<in> set (map art_id stale)" using b c by simp
    then show ?thesis using a(1) by (simp add: gone_def)
  qed
  have "news_core D (remove_articles gone s)" by (rule remove_core [OF _ closed]) (use assms in \<open>simp_all add: news_inv_def\<close>)
  from fold_bump_inv [OF bumps(2) drop_orphan_inv [OF this]] show ?thesis
    by (simp add: news_prune_def Let_def touch_deleted_def stale_def gone_def)
qed


subsection \<open>Feeds\<close>

lemma items_only_inv:
  assumes "news_inv D s" "om_wf its" "\<And>p. p \<in> set its \<Longrightarrow> fi_article (snd p) \<in> insert None (Some ` art_id ` set (nw_articles s))"
  shows "news_inv D (s\<lparr>nw_feed_items := its\<rparr>)"
  using articles_keep_inv [OF assms(1) refl order_refl assms(2,3)] by simp

lemma adjust_items:
  assumes "news_inv D s" "\<And>it. fi_article (f it) = fi_article it"
  shows "news_inv D (s\<lparr>nw_feed_items := om_adjust k f (nw_feed_items s)\<rparr>)"
proof (rule items_only_inv [OF assms(1)])
  show "om_wf (om_adjust k f (nw_feed_items s))" using items_of(1) [OF assms(1)] by simp
  show "fi_article (snd p) \<in> insert None (Some ` art_id ` set (nw_articles s))" if p: "p \<in> set (om_adjust k f (nw_feed_items s))" for p
  proof -
    obtain q where q: "q \<in> set (nw_feed_items s)" "p = (fst q, if fst q = k then f (snd q) else snd q)" using p by (auto simp: om_adjust_def)
    then have "fi_article (snd p) = fi_article (snd q)" by (simp add: assms(2))
    then show ?thesis using items_of(2) [OF assms(1) q(1)] by simp
  qed
qed

lemma feed_seen_inv:
  assumes "news_inv D s"
  shows "news_inv D (snd (feed_seen feed keys now s))"
proof -
  have "news_inv D (snd (fold (\<lambda>key (out, s). case map_of (nw_feed_items s) (feed, key) of
        None \<Rightarrow> (out, s)
      | Some it \<Rightarrow> (om_put key \<lparr>si_article = fi_article it, si_hash = fi_hash it\<rparr> out,
          s\<lparr>nw_feed_items := om_adjust (feed, key) (\<lambda>it. it\<lparr>fi_last_seen := floor_time now\<rparr>) (nw_feed_items s)\<rparr>))
       keys (out, s)))" for out
    using assms
  proof (induction keys arbitrary: s out)
    case (Cons key keys)
    have "news_inv D (s\<lparr>nw_feed_items := om_adjust (feed, key) (\<lambda>it. it\<lparr>fi_last_seen := floor_time now\<rparr>) (nw_feed_items s)\<rparr>)"
      by (rule adjust_items [OF Cons.prems]) simp
    then show ?case using Cons by (simp split: option.split)
  qed simp
  then show ?thesis by (simp add: feed_seen_def)
qed

lemma feed_skip_inv:
  assumes "news_inv D s"
  shows "news_inv D (feed_skip feed items now s)"
  unfolding feed_skip_def using assms
proof (induction items arbitrary: s)
  case (Cons p items)
  obtain key hash where p: "p = (key, hash)" by (cases p)
  let ?its = "om_or_insert (feed, key) \<lparr>fi_article = None, fi_hash = hash, fi_last_seen = floor_time now\<rparr> (nw_feed_items s)"
  have "news_inv D (s\<lparr>nw_feed_items := ?its\<rparr>)"
  proof (rule items_only_inv [OF Cons.prems])
    show "om_wf ?its" using items_of(1) [OF Cons.prems] by (rule om_wf_or_insert)
    show "fi_article (snd q) \<in> insert None (Some ` art_id ` set (nw_articles s))" if "q \<in> set ?its" for q
      using that items_of(2) [OF Cons.prems, of q] by (auto simp: om_or_insert_def om_put_def split: option.splits)
  qed
  from adjust_items [OF this, of "\<lambda>it. it\<lparr>fi_hash := hash\<rparr>" "(feed, key)"]
  have "news_inv D (s\<lparr>nw_feed_items := om_adjust (feed, key) (\<lambda>it. it\<lparr>fi_hash := hash\<rparr>) ?its\<rparr>)" by simp
  from Cons.IH [OF this] show ?case by (simp add: p)
qed simp

lemma feed_revise_inv:
  assumes "news_inv D s"
  shows "news_inv D (snd (feed_revise i p s))"
proof -
  define s1 where "s1 = (case np_feed p of
      Some f \<Rightarrow> s\<lparr>nw_feed_items := om_adjust (fp_feed f, fp_key f) (\<lambda>it. it\<lparr>fi_hash := fp_hash f\<rparr>) (nw_feed_items s)\<rparr>
    | None \<Rightarrow> s)"
  have s1: "news_inv D s1" using assms by (auto simp: s1_def intro: adjust_items split: option.split)
  define as where "as = change_first (\<lambda>a. art_id a = i \<and> \<not> art_deleted a) (\<lambda>a. a\<lparr>art_author := (art_author a)\<lparr>au_nick := au_nick (np_author p)\<rparr>,
      art_subject := np_subject p, art_body := np_body p, art_mime := np_mime p, art_plain := np_plain p\<rparr>) (nw_articles s1)"
  have "news_inv D (s1\<lparr>nw_refs := nw_refs s1, nw_articles := as, nw_feed_items := nw_feed_items s1\<rparr>)"
    by (rule articles_keep_inv [OF s1]) (auto simp: as_def map_change_first art_sig_eq items_of [OF s1] dest: items_of(2) [OF s1])
  then have "news_inv D (s1\<lparr>nw_articles := as\<rparr>)" by simp
  then show ?thesis using s1 bump_inv [OF bumps(1)]
    by (auto simp: feed_revise_def Let_def s1_def [symmetric] as_def [symmetric] split: option.split)
qed


lemma feeds_only_inv:
  assumes "news_inv D s" "length (nw_feeds s) \<le> length fs"
  shows "news_inv D (s\<lparr>nw_feeds := fs\<rparr>)"
proof (rule inv_cong [OF assms(1)])
  show "names_ok (s\<lparr>nw_feeds := fs\<rparr>)" using core_parts(2) [OF assms(1)] by (simp add: names_ok_def)
  show "items_ok (s\<lparr>nw_feeds := fs\<rparr>)" by (rule items_ok_ids [OF core_parts(8) [OF assms(1)]]) simp_all
  show "check_target s (sb_scope r) = Inr ()" if "r \<in> set (nw_subs (s\<lparr>nw_feeds := fs\<rparr>))" for r
    using core_parts(9) [OF assms(1)] that by (simp add: subs_ok_def)
qed (use assms(2) core_parts(10) [OF assms(1)] in simp_all)

lemma feed_open_state:
  "\<exists>fs. snd (feed_open name url s) = s\<lparr>nw_feeds := fs\<rparr> \<and> length (nw_feeds s) \<le> length fs"
proof (cases "position (\<lambda>f. fd_name f = name) (nw_feeds s)")
  case None
  then show ?thesis by (auto simp: feed_open_def Let_def)
next
  case (Some at)
  then show ?thesis
    by (intro exI [of _ "(nw_feeds s)[at := (nw_feeds s ! at)\<lparr>fd_url := url\<rparr>]"]) (simp add: feed_open_def Let_def)
qed

lemma feed_open_inv: "news_inv D s \<Longrightarrow> news_inv D (snd (feed_open name url s))"
  using feed_open_state [of name url s] feeds_only_inv by metis

lemma feeds_inv:
  assumes "news_inv D s"
  shows "news_inv D (snd (feeds s))"
proof -
  have "news_inv D (snd (fold (\<lambda>f (out, s). let (st, s') = feed_open (fd_name f) (fd_url f) s
            in (out @ [\<lparr>fl_name = fd_name f, fl_url = fd_url f, fl_state = st,
                  fl_articles = of_nat (length (filter (\<lambda>a. art_feed a = Some (fs_id st) \<and> \<not> art_deleted a) (nw_articles s'))),
                  fl_items = of_nat (length (filter (\<lambda>((feed, _), _). feed = fs_id st) (nw_feed_items s')))\<rparr>], s'))
          fs (out, t)))" if "news_inv D t" for fs out t
    using that
  proof (induction fs arbitrary: out t)
    case (Cons f fs)
    then show ?case using feed_open_inv by (simp add: split_beta Let_def)
  qed simp
  from this [OF assms] show ?thesis by (simp add: feeds_def split_beta Let_def)
qed

lemma feed_prune_inv:
  assumes "news_inv D s"
  shows "news_inv D (snd (feed_prune feed keep s))"
proof -
  note parts = core_parts [OF assms]
  define live where "live = rev (sort (map art_id (filter (\<lambda>a. art_feed a = Some feed \<and> \<not> art_deleted a) (nw_articles s))))"
  define gone where "gone = filter (\<lambda>a. art_feed a = Some feed \<and> art_id a < live ! (keep - 1)
      \<and> Some (art_id a) \<notin> set (map art_parent (nw_articles s))) (nw_articles s)"
  have "art_id a \<in> set (map art_id gone)" if "a \<in> set (nw_articles s)" "art_parent a = Some p" "p \<in> set (map art_id gone)" for a p
    using that by (force simp: gone_def)
  then have "news_core D (remove_articles (map art_id gone) s)" by (rule remove_core [rotated]) (use assms in \<open>simp_all add: news_inv_def\<close>)
  then have "news_inv D (drop_orphan_subs (remove_articles (map art_id gone) s))" by (rule drop_orphan_inv)
  moreover have "snd (feed_prune feed keep s) = (if keep = 0 \<or> length live < keep then s
      else case gone of [] \<Rightarrow> drop_orphan_subs (remove_articles (map art_id gone) s)
        | a # _ \<Rightarrow> node_change (art_category a) bump_delete (drop_orphan_subs (remove_articles (map art_id gone) s)))"
    unfolding feed_prune_def Let_def live_def gone_def by simp
  ultimately show ?thesis using assms bump_inv [OF bumps(2)] by (auto split: list.split)
qed

lemma feed_polled_inv: "news_inv D s \<Longrightarrow> news_inv D (snd (feed_polled feed poll at s))"
  by (simp add: feed_polled_def Let_def feeds_only_inv)

lemma feed_forget_inv:
  assumes "news_inv D s"
  shows "news_inv D (snd (feed_forget before s))"
proof -
  have "news_inv D (s\<lparr>nw_feed_items := om_retain (\<lambda>_ it. fi_article it \<noteq> None \<or> floor_time before \<le> fi_last_seen it) (nw_feed_items s)\<rparr>)"
  proof (rule items_only_inv [OF assms])
    show "fi_article (snd p) \<in> insert None (Some ` art_id ` set (nw_articles s))"
      if "p \<in> set (om_retain (\<lambda>_ it. fi_article it \<noteq> None \<or> floor_time before \<le> fi_last_seen it) (nw_feed_items s))" for p
      using that items_of(2) [OF assms, of p] by (simp add: om_retain_def)
  qed (rule om_wf_retain [OF items_of(1) [OF assms]])
  then show ?thesis by (simp add: feed_forget_def Let_def)
qed



subsection \<open>What only grows\<close>

text \<open>The writes but \<open>create_node\<close> and \<open>post\<close> make no node and no article, and change nothing fixed of those that stay.\<close>

definition shrinks :: "news \<Rightarrow> news \<Rightarrow> bool" where
  "shrinks s s' \<longleftrightarrow> nw_last_article s' = nw_last_article s \<and> nw_last_node s' = nw_last_node s
     \<and> art_sig ` set (nw_articles s') \<subseteq> art_sig ` set (nw_articles s) \<and> node_sig ` set (nw_nodes s') \<subseteq> node_sig ` set (nw_nodes s)"

lemma shrinks_refl [simp]: "shrinks s s"
  by (simp add: shrinks_def)

lemma shrinks_trans: "shrinks a b \<Longrightarrow> shrinks b c \<Longrightarrow> shrinks a c"
  unfolding shrinks_def by (elim conjE) (intro conjI; (erule (1) subset_trans)?; simp)

lemma shrinks_update [simp]:
  "shrinks s (s\<lparr>nw_subs := x\<rparr>)" "shrinks s (s\<lparr>nw_feeds := fs\<rparr>)" "shrinks s (s\<lparr>nw_feed_items := its\<rparr>)"
  "shrinks s (s\<lparr>nw_last_sub := n, nw_subs := x\<rparr>)" "shrinks s (sub_change owner sc f s)" "shrinks s (drop_orphan_subs s)"
  by (simp_all add: shrinks_def sub_change_def)

lemma shrinks_change: "(\<And>n. node_sig (f n) = node_sig n) \<Longrightarrow> shrinks s (node_change i f s)"
proof -
  assume f: "\<And>n. node_sig (f n) = node_sig n"
  have "map node_sig (nw_nodes (node_change i f s)) = map node_sig (nw_nodes s)"
    unfolding node_change_def by (simp del: node_sig_eq add: map_change_first [of node_sig f, OF f])
  then have "node_sig ` set (nw_nodes (node_change i f s)) = node_sig ` set (nw_nodes s)" by (metis set_map)
  then show ?thesis by (simp add: shrinks_def)
qed

lemma shrinks_bump [simp]: "shrinks s (node_change i bump_add s)" "shrinks s (node_change i bump_delete s)"
  using bumps by (auto simp: bump_def intro: shrinks_change)

lemma shrinks_fold_bump: "shrinks s (fold (\<lambda>c. node_change c bump_delete) cs s)"
  by (induction cs arbitrary: s) (auto intro: shrinks_trans [OF shrinks_bump(2)])

lemma shrinks_remove [simp]: "shrinks s (remove_articles gone s)"
  by (auto simp: shrinks_def)

lemma shrinks_articles: "(\<And>a. art_sig (f a) = art_sig a) \<Longrightarrow> shrinks s (s\<lparr>nw_articles := change_first P f (nw_articles s)\<rparr>)"
proof -
  assume f: "\<And>a. art_sig (f a) = art_sig a"
  have "map art_sig (change_first P f (nw_articles s)) = map art_sig (nw_articles s)" by (rule map_change_first) (rule f)
  then have "art_sig ` set (change_first P f (nw_articles s)) = art_sig ` set (nw_articles s)" by (metis set_map)
  then show ?thesis by (simp add: shrinks_def)
qed

lemma shrinks_refs: "shrinks s (s\<lparr>nw_articles := as\<rparr>) \<Longrightarrow> shrinks s (s\<lparr>nw_refs := rs, nw_articles := as\<rparr>)"
  by (simp add: shrinks_def)

lemma add_sub_shrinks: "shrinks s (snd (add_sub owner sc auto muted max_subs at s))"
proof -
  obtain res s' where a: "add_sub owner sc auto muted max_subs at s = (res, s')" by fastforce
  from a show ?thesis by (cases rule: add_sub_cases) (simp_all add: a)
qed

lemma sub_writes_shrink:
  "shrinks s (snd (subscribe owner sc max_subs at s))" "shrinks s (snd (unsubscribe owner sc s))"
  "shrinks s (snd (mute owner sc muted max_subs at s))" "shrinks s (snd (seen_up_to owner sc up_to s))"
  "shrinks s (snd (subs_claim l f s))" "shrinks s (snd (subs_rotate k k' s))" "shrinks s (snd (subs_purge owner s))"
  "shrinks s (snd (follow_thread fo root at s))"
proof -
  note add = add_sub_shrinks [of s owner sc False False max_subs at] add_sub_shrinks [of s owner sc False True max_subs at]
  show "shrinks s (snd (subscribe owner sc max_subs at s))"
    using add(1) by (auto simp: subscribe_def Let_def split: sum.split option.split prod.split)
  show "shrinks s (snd (mute owner sc muted max_subs at s))"
    using add(2) by (auto simp: mute_def split: sum.split option.split prod.split)
  show "shrinks s (snd (follow_thread fo root at s))"
    using add_sub_shrinks [of s _ "ScThread root" True False _ at]
    by (auto simp: follow_thread_def split: option.split prod.split sum.split fault.split news_error.split) (metis snd_conv)+
qed (auto simp: unsubscribe_def seen_up_to_def subs_claim_def subs_rotate_def subs_purge_def Let_def split_beta split: option.split)

lemma buried_sig: "art_sig (buried a) = art_sig a"
  by (simp add: art_sig_def buried_def)

lemma article_writes_shrink:
  "shrinks s (snd (rename_node i name s))" "shrinks s (snd (delete_node i s))" "shrinks s (snd (tombstone j s))"
  "shrinks s (snd (news_prune max_age now s))" "shrinks s (snd (authors_rotate k k' s))"
proof -
  show "shrinks s (snd (rename_node i name s))"
    by (auto simp: rename_node_def Let_def intro!: shrinks_change split: option.split)
  have drop: "shrinks t (t\<lparr>nw_nodes := filter P (nw_nodes t)\<rparr>)" for t P by (auto simp: shrinks_def)
  show "shrinks s (snd (delete_node i s))"
    using shrinks_trans [OF shrinks_remove shrinks_trans [OF drop shrinks_update(6)]]
    by (auto simp: delete_node_def Let_def split: option.split)
  show "shrinks s (snd (tombstone j s))"
    using shrinks_refs [OF shrinks_articles [of buried, OF buried_sig]] shrinks_trans [OF shrinks_refs [OF shrinks_articles [of buried, OF buried_sig]] shrinks_bump(2)]
    by (auto simp: tombstone_def Let_def split: option.split)
  show "shrinks s (snd (news_prune max_age now s))"
    unfolding news_prune_def Let_def touch_deleted_def snd_conv
    by (rule shrinks_trans [OF shrinks_remove shrinks_trans [OF shrinks_update(6) shrinks_fold_bump]])
  show "shrinks s (snd (authors_rotate k k' s))"
    by (auto simp: authors_rotate_def shrinks_def art_sig_def Let_def image_iff) 
qed


lemma feed_writes_shrink:
  "shrinks s (snd (feed_open name url s))" "shrinks s (snd (feed_seen feed keys now s))" "shrinks s (feed_skip feed items now s)"
  "shrinks s (snd (feed_revise j p s))" "shrinks s (snd (feeds s))" "shrinks s (snd (feed_prune feed keep s))"
  "shrinks s (snd (feed_polled feed poll at s))" "shrinks s (snd (feed_forget before s))"
proof -
  show opens: "shrinks s (snd (feed_open name url s))" for name url s
    using feed_open_state [of name url s] by auto
  show "shrinks s (snd (feed_seen feed keys now s))"
  proof -
    have "shrinks s (snd (fold (\<lambda>key (out, s). case map_of (nw_feed_items s) (feed, key) of
        None \<Rightarrow> (out, s)
      | Some it \<Rightarrow> (om_put key \<lparr>si_article = fi_article it, si_hash = fi_hash it\<rparr> out,
          s\<lparr>nw_feed_items := om_adjust (feed, key) (\<lambda>it. it\<lparr>fi_last_seen := floor_time now\<rparr>) (nw_feed_items s)\<rparr>))
       keys (out, s)))" for out
    proof (induction keys arbitrary: s out)
      case (Cons key keys)
      show ?case using Cons.IH shrinks_trans [OF shrinks_update(3) Cons.IH] by (simp split: option.split)
    qed simp
    then show ?thesis by (simp add: feed_seen_def)
  qed
  show "shrinks s (feed_skip feed items now s)"
    unfolding feed_skip_def
  proof (induction items arbitrary: s)
    case (Cons it items)
    show ?case using shrinks_trans [OF shrinks_update(3) Cons.IH] by (simp add: split_beta)
  qed simp
  show "shrinks s (snd (feed_revise j p s))"
  proof -
    define s1 where "s1 = (case np_feed p of
        Some f \<Rightarrow> s\<lparr>nw_feed_items := om_adjust (fp_feed f, fp_key f) (\<lambda>it. it\<lparr>fi_hash := fp_hash f\<rparr>) (nw_feed_items s)\<rparr>
      | None \<Rightarrow> s)"
    have "shrinks s s1" by (simp add: s1_def split: option.split)
    moreover have "shrinks s1 (s1\<lparr>nw_articles := change_first P (\<lambda>a. a\<lparr>art_author := (art_author a)\<lparr>au_nick := au_nick (np_author p)\<rparr>,
      art_subject := np_subject p, art_body := np_body p, art_mime := np_mime p, art_plain := np_plain p\<rparr>) (nw_articles s1)\<rparr>)" for P
      by (rule shrinks_articles) (simp add: art_sig_def)
    ultimately show ?thesis
      by (auto simp: feed_revise_def Let_def s1_def [symmetric] intro: shrinks_trans [OF _ shrinks_bump(1)] shrinks_trans split: option.split)
  qed
  show "shrinks s (snd (feeds s))"
  proof -
    have "shrinks t (snd (fold (\<lambda>f (out, s). let (st, s') = feed_open (fd_name f) (fd_url f) s
            in (out @ [\<lparr>fl_name = fd_name f, fl_url = fd_url f, fl_state = st,
                  fl_articles = of_nat (length (filter (\<lambda>a. art_feed a = Some (fs_id st) \<and> \<not> art_deleted a) (nw_articles s'))),
                  fl_items = of_nat (length (filter (\<lambda>((feed, _), _). feed = fs_id st) (nw_feed_items s')))\<rparr>], s'))
          fs (out, t)))" for fs out t
    proof (induction fs arbitrary: out t)
      case (Cons f fs)
      show ?case using shrinks_trans [OF opens Cons.IH] by (simp add: split_beta Let_def)
    qed simp
    then show ?thesis by (simp add: feeds_def split_beta Let_def)
  qed
  show "shrinks s (snd (feed_prune feed keep s))"
    using shrinks_trans [OF shrinks_remove shrinks_update(6)] shrinks_trans [OF shrinks_trans [OF shrinks_remove shrinks_update(6)] shrinks_bump(2)]
    by (simp add: feed_prune_def Let_def split: list.split)
qed (simp_all add: feed_polled_def feed_forget_def Let_def)


subsection \<open>Requests and runs\<close>

datatype news_request =
    NCreate new_node u16
  | NRename node_id string
  | NDelete node_id
  | NPost new_post u16 nat
  | NTombstone article_id
  | NPrune int systime
  | NSubscribe mailbox sub_scope nat systime
  | NUnsubscribe mailbox sub_scope
  | NMute mailbox sub_scope bool nat systime
  | NSeen mailbox sub_scope article_id
  | NClaim string fp
  | NRotate fp fp
  | NAuthors fp fp
  | NPurge mailbox
  | NFeedOpen string string
  | NFeedSeen feed_id "bytes list" systime
  | NFeedSkip feed_id "(bytes \<times> bytes) list" systime
  | NFeedRevise article_id new_post
  | NFeeds
  | NFeedPrune feed_id nat
  | NFeedPolled feed_id feed_poll systime
  | NFeedForget systime

fun news_serve :: "news_request \<Rightarrow> news \<Rightarrow> news" where
  "news_serve (NCreate n d) s = snd (create_node n d s)"
| "news_serve (NRename i name) s = snd (rename_node i name s)"
| "news_serve (NDelete i) s = snd (delete_node i s)"
| "news_serve (NPost p d r) s = snd (post p d r s)"
| "news_serve (NTombstone i) s = snd (tombstone i s)"
| "news_serve (NPrune age now) s = snd (news_prune age now s)"
| "news_serve (NSubscribe o' sc m at) s = snd (subscribe o' sc m at s)"
| "news_serve (NUnsubscribe o' sc) s = snd (unsubscribe o' sc s)"
| "news_serve (NMute o' sc b m at) s = snd (mute o' sc b m at s)"
| "news_serve (NSeen o' sc up) s = snd (seen_up_to o' sc up s)"
| "news_serve (NClaim l f) s = snd (subs_claim l f s)"
| "news_serve (NRotate k k') s = snd (subs_rotate k k' s)"
| "news_serve (NAuthors k k') s = snd (authors_rotate k k' s)"
| "news_serve (NPurge m) s = snd (subs_purge m s)"
| "news_serve (NFeedOpen n u) s = snd (feed_open n u s)"
| "news_serve (NFeedSeen f ks now) s = snd (feed_seen f ks now s)"
| "news_serve (NFeedSkip f its now) s = feed_skip f its now s"
| "news_serve (NFeedRevise i p) s = snd (feed_revise i p s)"
| "news_serve NFeeds s = snd (feeds s)"
| "news_serve (NFeedPrune f keep) s = snd (feed_prune f keep s)"
| "news_serve (NFeedPolled f poll at) s = snd (feed_polled f poll at s)"
| "news_serve (NFeedForget before) s = snd (feed_forget before s)"

text \<open>What a caller keeps to: a node id is left, the depth asked is at most \<open>D\<close>, a feed posted from was opened.\<close>

fun news_allows :: "u16 \<Rightarrow> news \<Rightarrow> news_request \<Rightarrow> bool" where
  "news_allows D s (NCreate n d) \<longleftrightarrow> nw_last_node s < - 1 \<and> d \<le> D"
| "news_allows D s (NPost p d r) \<longleftrightarrow> feed_allowed s p"
| "news_allows D s _ \<longleftrightarrow> True"

inductive news_step :: "u16 \<Rightarrow> news \<Rightarrow> news \<Rightarrow> bool" for D where
  "news_allows D s q \<Longrightarrow> news_step D s (news_serve q s)"

inductive_cases news_stepE: "news_step D s s'"

fun makes :: "news_request \<Rightarrow> bool" where
  "makes (NCreate n d) = True"
| "makes (NPost p d r) = True"
| "makes _ = False"

lemma serve_shrinks: "\<not> makes q \<Longrightarrow> shrinks s (news_serve q s)"
  by (cases q) (simp_all only: makes.simps news_serve.simps sub_writes_shrink article_writes_shrink feed_writes_shrink simp_thms)

lemma news_serve_inv:
  assumes "news_inv D s" "news_allows D s q" "D < - 1"
  shows "news_inv D (news_serve q s)"
  using assms
  by (cases q) (simp_all only: news_serve.simps news_allows.simps create_inv rename_inv delete_inv post_inv tombstone_inv prune_news_inv
      subscribe_inv mute_inv seen_inv subs_claim_inv subs_rotate_inv authors_rotate_inv feed_open_inv feed_seen_inv feed_skip_inv
      feed_revise_inv feeds_inv feed_prune_inv feed_polled_inv feed_forget_inv unsubscribe_def subs_purge_def Let_def snd_conv subs_filter_inv)

definition news_le :: "news \<Rightarrow> news \<Rightarrow> bool" where
  "news_le s s' \<longleftrightarrow> nw_last_article s \<le> nw_last_article s' \<and> nw_last_node s \<le> nw_last_node s'
     \<and> (\<forall>a\<in>set (nw_articles s'). unat (art_id a) \<le> unat (nw_last_article s) \<longrightarrow> art_sig a \<in> art_sig ` set (nw_articles s))
     \<and> (\<forall>n\<in>set (nw_nodes s'). nn_id n \<le> nw_last_node s \<longrightarrow> node_sig n \<in> node_sig ` set (nw_nodes s))"

lemma shrinks_le: "shrinks s s' \<Longrightarrow> news_le s s'"
  by (auto simp: shrinks_def news_le_def)

lemma news_le_trans:
  assumes "news_le a b" "news_le b c"
  shows "news_le a c"
proof -
  have "art_sig x \<in> art_sig ` set (nw_articles a)" if x: "x \<in> set (nw_articles c)" "unat (art_id x) \<le> unat (nw_last_article a)" for x
  proof -
    have "unat (art_id x) \<le> unat (nw_last_article b)" using x(2) assms(1) by (simp add: news_le_def word_le_nat_alt)
    then obtain y where y: "y \<in> set (nw_articles b)" "art_sig y = art_sig x" using x(1) assms(2) by (auto simp: news_le_def)
    then have "unat (art_id y) \<le> unat (nw_last_article a)" using x(2) by (simp add: art_sig_eq)
    then have "art_sig y \<in> art_sig ` set (nw_articles a)" using y(1) assms(1) by (simp add: news_le_def)
    then show ?thesis by (simp only: y(2))
  qed
  moreover have "node_sig x \<in> node_sig ` set (nw_nodes a)" if x: "x \<in> set (nw_nodes c)" "nn_id x \<le> nw_last_node a" for x
  proof -
    have "nn_id x \<le> nw_last_node b" using x(2) assms(1) by (auto simp: news_le_def)
    then obtain y where y: "y \<in> set (nw_nodes b)" "node_sig y = node_sig x" using x(1) assms(2) unfolding news_le_def by (metis imageE)
    then have "nn_id y \<le> nw_last_node a" using x(2) by simp
    then have "node_sig y \<in> node_sig ` set (nw_nodes a)" using y(1) assms(1) unfolding news_le_def by blast
    then show ?thesis by (simp only: y(2))
  qed
  ultimately show ?thesis using assms unfolding news_le_def by (meson order_trans)
qed

lemma create_le:
  assumes "nw_last_node s < - 1"
  shows "news_le s (snd (create_node n d s))"
proof -
  obtain res s' where c: "create_node n d s = (res, s')" by fastforce
  from c show ?thesis
  proof (cases rule: create_cases)
    case same
    then show ?thesis by (simp add: c shrinks_le)
  next
    case (made l)
    have "nw_last_node s < nw_last_node s + 1" by (rule u64_next [OF assms])
    then show ?thesis unfolding c snd_conv made(5) by (auto simp: news_le_def row_for_def)
  qed
qed

lemma post_le:
  assumes "arts_ok s"
  shows "news_le s (snd (post p d r s))"
proof -
  obtain res s' where c: "post p d r s = (res, s')" by fastforce
  from c show ?thesis
  proof (cases rule: post_cases)
    case refused
    then show ?thesis by (simp add: c shrinks_le)
  next
    case (stored cat parent_path depth rt root s1 fr)
    have last: "unat (nw_last_article s) < 2 ^ 32" using assms by (simp add: arts_ok_def)
    note nums = next_id_unat [OF stored(3) last]
    have "map node_sig (nw_nodes s1) = map node_sig (nw_nodes s)"
      unfolding stored(5) post_write_def using bump_nodes(1) [OF bumps(1)] by simp
    then have "node_sig ` set (nw_nodes s1) = node_sig ` set (nw_nodes s)" by (metis set_map)
    moreover have "nw_last_article s \<le> nw_last_article s + 1" using nums(2) by (simp add: word_le_nat_alt)
    ultimately have "news_le s s1"
      using nums(1) unfolding stored(5) by (auto simp: news_le_def article_for_def simp del: node_sig_eq)
    moreover have "shrinks s1 s'" using sub_writes_shrink(8) [of s1 "np_follow p" root "np_at p"] stored(6) by simp
    ultimately show ?thesis unfolding c snd_conv using news_le_trans shrinks_le by blast
  qed
qed

interpretation nws: monotone_steps "news_step D" "\<lambda>s. D < - 1 \<and> news_inv D s" news_le for D
proof unfold_locales
  show "news_le s s" for s by (simp add: shrinks_le)
  show "news_le x y \<Longrightarrow> news_le y z \<Longrightarrow> news_le x z" for x y z
    by (rule news_le_trans)
  show "news_step D s s' \<Longrightarrow> D < - 1 \<and> news_inv D s \<Longrightarrow> D < - 1 \<and> news_inv D s'" for s s'
    by (auto elim!: news_stepE intro: news_serve_inv)
  show "news_le s s'" if step: "news_step D s s'" and ok: "D < - 1 \<and> news_inv D s" for s s'
  proof -
    from step obtain q where q: "news_allows D s q" "s' = news_serve q s" by (rule news_stepE)
    show ?thesis
    proof (cases q)
      case (NCreate n d)
      then show ?thesis using q create_le by simp
    next
      case (NPost p d r)
      then show ?thesis using q post_le core_parts(4) ok by auto
    qed (use q serve_shrinks [of q s] shrinks_le in auto)
  qed
qed

end
