(* ===== verification/News_Threads.thy ===== *)
theory News_Threads
  imports News_Runs
begin

section \<open>A thread reads in order\<close>

text \<open>
  The store keeps with each article the path of ids from its thread's starter down to it, four bytes to an id, and reads
  a thread by sorting paths as bytes.  \<open>preorder\<close> is what that is for: an article, then each of its replies in turn
  with all below it.  The two are the same on every state the invariant holds of.  Pages of a thread are read with the
  path of the last article seen; \<open>pages\<close> says what a client sees that reads them one after another while others write.
\<close>


subsection \<open>Paths as bytes\<close>

lemma list_less_append_same [simp]: "(p @ xs < p @ ys) = (xs < (ys :: 'a::linorder list))"
  by (induction p) auto

lemma list_less_append_tail: "length xs = length ys \<Longrightarrow> xs < ys \<Longrightarrow> xs @ u < (ys :: 'a::linorder list) @ v"
  by (induction xs ys rule: list_induct2) auto

lemma list_prefix_less: "q \<noteq> [] \<Longrightarrow> p < p @ (q :: 'a::linorder list)"
  using list_less_append_same [of p "[]" q] by (cases q) simp_all

lemma prefix_same_length: "prefix p q \<Longrightarrow> length p = length q \<Longrightarrow> p = q"
  by (auto simp: prefix_def)

lemma be_bytes_less: "m < n \<Longrightarrow> n < 256 ^ k \<Longrightarrow> be_bytes k m < be_bytes k n"
proof (induction k arbitrary: m n)
  case (Suc k)
  show ?case
  proof (cases "m div 256 < n div 256")
    case True
    then have "be_bytes k (m div 256) < be_bytes k (n div 256)" using Suc by (intro Suc.IH) (auto simp: less_mult_imp_div_less)
    then show ?thesis by (simp add: list_less_append_tail)
  next
    case False
    have le: "m div 256 \<le> n div 256" using Suc.prems(1) by (intro div_le_mono) simp
    with False have e: "m div 256 = n div 256" by simp
    then have "m mod 256 < n mod 256" using Suc.prems(1) by (metis div_mult_mod_eq nat_add_left_cancel_less)
    then have "(word_of_nat m :: u8) < word_of_nat n" by (simp add: word_less_nat_alt unat_of_nat)
    then show ?thesis by (simp add: e)
  qed
qed simp

definition id_bytes :: "article_id \<Rightarrow> bytes" where
  "id_bytes i = be_bytes 4 (unat i)"

lemma length_id_bytes [simp]: "length (id_bytes i) = 4"
  by (simp add: id_bytes_def)

lemma id_bytes_less: "i < j \<Longrightarrow> id_bytes i < id_bytes j"
  using unsigned_less [of j, where 'a = nat] by (simp add: id_bytes_def word_less_nat_alt be_bytes_less)

lemma id_bytes_inj [simp]: "id_bytes i = id_bytes j \<longleftrightarrow> i = j"
  using id_bytes_less [of i j] id_bytes_less [of j i] by (metis linorder_neqE order_less_irrefl)


subsection \<open>Where an article's path leads\<close>

lemma path_cases:
  assumes "arts_ok s" "a \<in> set (nw_articles s)"
  obtains (starter) "art_parent a = None" "art_root a = art_id a" "art_path a = id_bytes (art_id a)"
  | (reply) b where "b \<in> set (nw_articles s)" "art_parent a = Some (art_id b)" "art_id b < art_id a" "art_root a = art_root b"
      "art_path a = art_path b @ id_bytes (art_id a)"
proof (cases "art_parent a")
  case None
  then show ?thesis using starter arts_starter [OF assms] by (simp add: id_bytes_def)
next
  case (Some p)
  from arts_parent [OF assms Some] obtain b where "b \<in> set (nw_articles s)" "art_id b = p" "p < art_id a"
    "art_root a = art_root b" "art_path a = art_path b @ be_bytes 4 (unat (art_id a))" by metis
  then show ?thesis using Some reply by (simp add: id_bytes_def)
qed

lemma path_induct [consumes 2, case_names starter reply]:
  assumes "arts_ok s" "a \<in> set (nw_articles s)"
    and "\<And>a. a \<in> set (nw_articles s) \<Longrightarrow> art_parent a = None \<Longrightarrow> art_root a = art_id a \<Longrightarrow> art_path a = id_bytes (art_id a) \<Longrightarrow> P a"
    and "\<And>a b. a \<in> set (nw_articles s) \<Longrightarrow> b \<in> set (nw_articles s) \<Longrightarrow> art_parent a = Some (art_id b) \<Longrightarrow> art_id b < art_id a
       \<Longrightarrow> art_root a = art_root b \<Longrightarrow> art_path a = art_path b @ id_bytes (art_id a) \<Longrightarrow> P b \<Longrightarrow> P a"
  shows "P a"
  using assms(2)
proof (induction "art_id a" arbitrary: a rule: less_induct)
  case less
  from assms(1) less.prems show ?case
  proof (cases rule: path_cases)
    case starter
    then show ?thesis using assms(3) less.prems by blast
  next
    case (reply b)
    then show ?thesis using assms(4) less by blast
  qed
qed

lemma path_length: "arts_ok s \<Longrightarrow> a \<in> set (nw_articles s) \<Longrightarrow> 4 dvd length (art_path a) \<and> 0 < length (art_path a)"
  by (induction a rule: path_induct) simp_all

lemma path_id:
  assumes "arts_ok s" "a \<in> set (nw_articles s)" "b \<in> set (nw_articles s)" "art_path a = art_path b"
  shows "a = b"
proof -
  have tail: "\<exists>p. art_path x = p @ id_bytes (art_id x)" if "x \<in> set (nw_articles s)" for x
    using assms(1) that by (cases rule: path_cases) auto
  obtain p q where "art_path a = p @ id_bytes (art_id a)" "art_path b = q @ id_bytes (art_id b)"
    using tail assms(2,3) by blast
  then have "art_id a = art_id b" using assms(4) by simp
  then show ?thesis using row_of_iff [OF assms(1)] assms(2,3) by (metis option.inject)
qed

lemma path_root: "arts_ok s \<Longrightarrow> a \<in> set (nw_articles s) \<Longrightarrow> prefix (id_bytes (art_root a)) (art_path a)"
  by (induction a rule: path_induct) (auto intro: prefix_prefix)

text \<open>Four bytes to an id: what a path continues, its parent's continues, or it is the path itself.\<close>

lemma path_step:
  assumes "4 dvd length (p :: bytes)" "4 dvd length q" "prefix p (q @ id_bytes i)"
  shows "p = q @ id_bytes i \<or> prefix p q"
proof -
  have "length p \<le> length q + 4" using prefix_length_le [OF assms(3)] by simp
  moreover have "length p \<le> length q \<or> length q + 4 \<le> length p" using assms(1,2) by presburger
  ultimately consider "length p \<le> length q" | "length p = length (q @ id_bytes i)" by force
  then show ?thesis
  proof cases
    case 1
    then show ?thesis using assms(3) by (meson prefix_length_prefix prefix_prefix prefix_order.order_refl)
  next
    case 2
    then show ?thesis using assms(3) by (simp add: prefix_same_length)
  qed
qed

definition child_of :: "article_row \<Rightarrow> article_row \<Rightarrow> bool" where
  "child_of a c \<longleftrightarrow> art_parent c = Some (art_id a) \<and> art_id a < art_id c"

lemma child_path:
  assumes "arts_ok s" "a \<in> set (nw_articles s)" "c \<in> set (nw_articles s)" "child_of a c"
  shows "art_path c = art_path a @ id_bytes (art_id c)"
  using assms(1,3)
proof (cases rule: path_cases)
  case (reply d)
  then have "d = a" using assms(4) row_of_iff [OF assms(1)] assms(2) by (metis child_of_def option.inject)
  then show ?thesis using reply by simp
qed (use assms(4) in \<open>simp add: child_of_def\<close>)

lemma below_iff:
  assumes "arts_ok s" "a \<in> set (nw_articles s)" "b \<in> set (nw_articles s)"
  shows "prefix (art_path a) (art_path b) \<longleftrightarrow> b = a \<or> (\<exists>c\<in>set (nw_articles s). child_of a c \<and> prefix (art_path c) (art_path b))"
    (is "?L b \<longleftrightarrow> ?R b")
proof
  show "?L b \<Longrightarrow> ?R b"
    using assms(1,3)
  proof (induction b rule: path_induct)
    case (starter b)
    have "length (art_path a) \<ge> 4" using path_length [OF assms(1,2)] dvd_imp_le by blast
    then have "art_path a = art_path b"
      using starter(4,5) prefix_length_le [of "art_path a" "art_path b"] by (intro prefix_same_length) auto
    then show ?case using path_id [OF assms(1)] assms(2) starter(1) by blast
  next
    case (reply b p)
    have "art_path a = art_path b \<or> prefix (art_path a) (art_path p)"
      using path_step path_length [OF assms(1)] assms(2) reply(2,6,8) by metis
    then show ?case
    proof
      assume "art_path a = art_path b"
      then show ?thesis using path_id [OF assms(1)] assms(2) reply(1) by blast
    next
      assume "prefix (art_path a) (art_path p)"
      then have "?R p" by (rule reply(7))
      then show ?thesis
      proof (elim disjE bexE conjE)
        assume "p = a"
        then show ?thesis using reply(1,3,4) by (auto simp: child_of_def)
      next
        fix c assume "c \<in> set (nw_articles s)" "child_of a c" "prefix (art_path c) (art_path p)"
        then show ?thesis using reply(6) by (auto intro: prefix_prefix)
      qed
    qed
  qed
next
  assume "?R b"
  then show "?L b"
  proof (elim disjE bexE conjE)
    fix c assume c: "c \<in> set (nw_articles s)" "child_of a c" "prefix (art_path c) (art_path b)"
    have "prefix (art_path a) (art_path c)" using child_path [OF assms(1,2) c(1,2)] by simp
    then show ?thesis using c(3) by (rule prefix_order.order_trans)
  qed simp
qed


subsection \<open>Preorder\<close>

function preorder :: "article_row list \<Rightarrow> article_row \<Rightarrow> article_row list" where
  "preorder as a = a # concat (map (preorder as) (filter (child_of a) as))"
  by pat_completeness auto

termination
proof (relation "measure (\<lambda>(as, a). 2 ^ 32 - unat (art_id a))")
  fix as :: "article_row list" and a c :: article_row
  assume "c \<in> set (filter (child_of a) as)"
  then have "unat (art_id a) < unat (art_id c)" by (simp add: child_of_def word_less_nat_alt)
  then show "((as, c), as, a) \<in> measure (\<lambda>(as, a). 2 ^ 32 - unat (art_id a))"
    using unsigned_less [of "art_id c", where 'a = nat] by simp
qed simp

declare preorder.simps [simp del]

lemma set_preorder:
  assumes "arts_ok s"
  shows "a \<in> set (nw_articles s) \<Longrightarrow> set (preorder (nw_articles s) a) = {b \<in> set (nw_articles s). prefix (art_path a) (art_path b)}"
proof (induction "nw_articles s" a rule: preorder.induct)
  case (1 a)
  have "set (preorder (nw_articles s) a) = insert a (\<Union>c\<in>set (filter (child_of a) (nw_articles s)). set (preorder (nw_articles s) c))"
    by (subst preorder.simps) simp
  also have "\<dots> = insert a (\<Union>c\<in>set (filter (child_of a) (nw_articles s)). {b \<in> set (nw_articles s). prefix (art_path c) (art_path b)})"
    using 1(1) by auto
  also have "\<dots> = {b \<in> set (nw_articles s). prefix (art_path a) (art_path b)}"
    using below_iff [OF assms 1(2)] 1(2) by auto
  finally show ?case .
qed

lemma sorted_wrt_concat_map:
  assumes "sorted_wrt R xs" "\<And>x. x \<in> set xs \<Longrightarrow> sorted_wrt Q (f x)"
    and "\<And>x y u v. x \<in> set xs \<Longrightarrow> y \<in> set xs \<Longrightarrow> R x y \<Longrightarrow> u \<in> set (f x) \<Longrightarrow> v \<in> set (f y) \<Longrightarrow> Q u v"
  shows "sorted_wrt Q (concat (map f xs))"
  using assms by (induction xs) (fastforce simp: sorted_wrt_append)+

lemma sorted_preorder:
  assumes "arts_ok s"
  shows "a \<in> set (nw_articles s) \<Longrightarrow> sorted_wrt (\<lambda>x y. art_path x < art_path y) (preorder (nw_articles s) a)"
proof (induction "nw_articles s" a rule: preorder.induct)
  case (1 a)
  let ?cs = "filter (child_of a) (nw_articles s)"
  have below: "\<exists>r. art_path b = art_path a @ id_bytes (art_id c) @ r"
    if c: "c \<in> set ?cs" and b: "b \<in> set (preorder (nw_articles s) c)" for b c
    using child_path [OF assms 1(2)] set_preorder [OF assms, of c] c b by (auto simp: prefix_def)
  have "sorted_wrt (\<lambda>x y. art_path x < art_path y) (concat (map (preorder (nw_articles s)) ?cs))"
  proof (rule sorted_wrt_concat_map)
    show "sorted_wrt (\<lambda>x y. art_id x < art_id y) ?cs"
      using assms by (simp add: arts_ok_def sorted_wrt_map sorted_wrt_filter)
    show "sorted_wrt (\<lambda>x y. art_path x < art_path y) (preorder (nw_articles s) c)" if "c \<in> set ?cs" for c
      using 1(1) that by simp
    show "art_path u < art_path v" if "x \<in> set ?cs" "y \<in> set ?cs" "art_id x < art_id y"
      "u \<in> set (preorder (nw_articles s) x)" "v \<in> set (preorder (nw_articles s) y)" for x y u v
    proof -
      obtain r t where "art_path u = art_path a @ id_bytes (art_id x) @ r" "art_path v = art_path a @ id_bytes (art_id y) @ t"
        using below [OF \<open>x \<in> set ?cs\<close> \<open>u \<in> _\<close>] below [OF \<open>y \<in> set ?cs\<close> \<open>v \<in> _\<close>] by blast
      then show ?thesis using id_bytes_less [OF that(3)] by (simp add: list_less_append_tail)
    qed
  qed
  moreover have "art_path a < art_path b" if c: "c \<in> set ?cs" and b: "b \<in> set (preorder (nw_articles s) c)" for b c
  proof -
    obtain r where "art_path b = art_path a @ id_bytes (art_id c) @ r" using below [OF c b] by blast
    moreover have "id_bytes (art_id c) @ r \<noteq> []" using length_id_bytes [of "art_id c"] by fastforce
    ultimately show ?thesis by (simp add: list_prefix_less)
  qed
  ultimately show ?case by (subst preorder.simps) auto
qed

text \<open>Lists strictly sorted by the same key with the same elements are one list.\<close>

lemma sorted_key_unique:
  fixes k :: "'a \<Rightarrow> 'b::linorder"
  assumes "sorted_wrt (\<lambda>x y. k x < k y) xs" "sorted_wrt (\<lambda>x y. k x < k y) ys" "set xs = set ys"
  shows "xs = ys"
  using assms
proof (induction xs arbitrary: ys)
  case (Cons x xs)
  then obtain y ys' where ys: "ys = y # ys'" by (cases ys) simp_all
  have "x = y" using Cons.prems ys by simp (metis insertI1 insertE order_less_asym)
  moreover have "x \<notin> set xs" "y \<notin> set ys'" using Cons.prems ys by auto
  ultimately have "set xs = set ys'" using Cons.prems(3) ys by (metis insert_ident list.simps(15))
  then show ?case using Cons ys \<open>x = y\<close> by simp
qed simp

lemma sort_key_strict:
  fixes k :: "'a \<Rightarrow> 'b::linorder"
  assumes "distinct (map k xs)"
  shows "sorted_wrt (\<lambda>x y. k x < k y) (sort_key k xs)"
proof -
  have "distinct (map k (sort_key k xs))" using assms by (metis distinct_map distinct_sort inj_on_cong set_sort)
  then have "sorted_wrt (<) (map k (sort_key k xs))" by (simp add: strict_sorted_iff)
  then show ?thesis by (simp add: sorted_wrt_map)
qed

lemma paths_distinct: "arts_ok s \<Longrightarrow> distinct (map art_path (filter P (nw_articles s)))"
proof -
  assume ok: "arts_ok s"
  then have "distinct (filter P (nw_articles s))"
    by (simp add: arts_ok_def strict_sorted_iff distinct_map)
  then show ?thesis using path_id [OF ok] by (auto simp: distinct_map inj_on_def)
qed

lemma in_thread_prefix:
  assumes "arts_ok s" "r \<in> set (nw_articles s)" "art_parent r = None" "b \<in> set (nw_articles s)"
  shows "art_root b = art_id r \<longleftrightarrow> prefix (art_path r) (art_path b)"
proof -
  have r: "art_path r = id_bytes (art_id r)" using arts_starter [OF assms(1-3)] by (simp add: id_bytes_def)
  note b = path_root [OF assms(1,4)]
  show ?thesis
  proof
    assume "prefix (art_path r) (art_path b)"
    then have "id_bytes (art_root b) = id_bytes (art_id r)" using b r by (metis length_id_bytes prefix_same_length prefix_same_cases)
    then show "art_root b = art_id r" by simp
  qed (use b r in auto)
qed

lemma thread_sorted:
  assumes "arts_ok s" "r \<in> set (nw_articles s)" "art_parent r = None"
  shows "sort_key art_path (in_thread s (art_id r)) = preorder (nw_articles s) r"
proof (rule sorted_key_unique [of art_path])
  show "sorted_wrt (\<lambda>x y. art_path x < art_path y) (sort_key art_path (in_thread s (art_id r)))"
    unfolding in_thread_def by (rule sort_key_strict [OF paths_distinct [OF assms(1)]])
  show "sorted_wrt (\<lambda>x y. art_path x < art_path y) (preorder (nw_articles s) r)" by (rule sorted_preorder [OF assms(1,2)])
  show "set (sort_key art_path (in_thread s (art_id r))) = set (preorder (nw_articles s) r)"
    using in_thread_prefix [OF assms] by (auto simp: set_preorder [OF assms(1,2)] in_thread_def)
qed

end
