(* ===== verification/News_Guarantees.thy ===== *)
theory News_Guarantees
  imports News_Threads
begin

section \<open>What the news store promises\<close>

text \<open>
  The properties of the news store, over every run of its writes from the empty store: \<open>news_step D\<close> is any write a
  caller may make whose depth limit is at most \<open>D\<close>, where \<open>D\<close> is less than the largest \<^verbatim>\<open>u16\<close>.
\<close>

lemma empty_news_inv: "news_inv D empty_news"
  by (simp add: news_inv_def news_core_def empty_news_def nodes_ok_def names_ok_def levels_ok_def arts_ok_def placed_def
      refs_there_def feeds_ok_def items_ok_def subs_ok_def om_wf_def)

lemma news_run_inv: "D < - 1 \<Longrightarrow> (news_step D)\<^sup>*\<^sup>* empty_news s \<Longrightarrow> news_inv D s"
  using nws.run_ok [of D empty_news s] empty_news_inv by blast

text \<open>A store with a thread in it, for the examples: a category, a starter, two replies, and a reply to the first.\<close>

definition demo_author :: author where
  "demo_author = \<lparr>au_nick = ''ann'', au_login = Some ''ann'', au_fp = None\<rparr>"

definition demo_node :: new_node where
  "demo_node = \<lparr>ne_parent = None, ne_kind = Category, ne_name = ''talk'', ne_guid = [7], ne_at = 5\<rparr>"

definition demo_post :: "article_id option \<Rightarrow> new_post" where
  "demo_post parent = \<lparr>np_category = 1, np_parent = parent, np_author = demo_author, np_guest = None, np_subject = ''s'',
     np_body = ''b'', np_mime = BtPlain, np_plain = None, np_refs = [], np_at = 6, np_follow = None, np_attachments = [],
     np_feed = None, np_signed = None\<rparr>"

definition demo_starter :: news where
  "demo_starter = news_serve (NPost (demo_post None) 8 4) (news_serve (NCreate demo_node 4) empty_news)"

definition demo_news :: news where
  "demo_news = news_serve (NPost (demo_post (Some 2)) 8 4) (news_serve (NPost (demo_post (Some 1)) 8 4)
     (news_serve (NPost (demo_post (Some 1)) 8 4) demo_starter))"

lemma demo_post_step: "(news_step D)\<^sup>*\<^sup>* x s \<Longrightarrow> (news_step D)\<^sup>*\<^sup>* x (news_serve (NPost (demo_post q) 8 4) s)"
  by (rule rtranclp.rtrancl_into_rtrancl, assumption, rule news_step.intros) (simp add: feed_allowed_def demo_post_def)

lemma demo_starter_run: "(news_step 4)\<^sup>*\<^sup>* empty_news demo_starter"
proof -
  have "news_step 4 empty_news (news_serve (NCreate demo_node 4) empty_news)"
    by (rule news_step.intros) code_simp
  then show ?thesis unfolding demo_starter_def by (intro demo_post_step r_into_rtranclp)
qed

lemma demo_run_from: "(news_step 4)\<^sup>*\<^sup>* demo_starter demo_news"
  unfolding demo_news_def by (intro demo_post_step rtranclp.rtrancl_refl)

lemma demo_run: "(news_step 4)\<^sup>*\<^sup>* empty_news demo_news"
  using demo_starter_run demo_run_from by (rule rtranclp_trans)

lemma demo_ids: "map (\<lambda>a. (art_id a, art_parent a, art_root a)) (nw_articles demo_news)
  = [(1, None, 1), (2, Some 1, 1), (3, Some 1, 1), (4, Some 2, 1)]"
  by code_simp


subsection \<open>A tree of nodes, trees of articles\<close>

text \<open>C27: Whatever is asked of the news store, in whatever order: a node's parent is a bundle made before it and no two
  siblings have a name or two nodes an id; an article is in a category, starts its thread at depth 0, or replies to an
  article before it of its category and thread, one level deeper; references and feed items name articles that are
  there, and a subscription a thread or category that is there; nobody is subscribed twice to the same.\<close>

theorem news_stays_well_formed:
  assumes "D < - 1" "(news_step D)\<^sup>*\<^sup>* empty_news s"
  shows "(\<forall>n\<in>set (nw_nodes s). case nn_parent n of None \<Rightarrow> True
        | Some p \<Rightarrow> \<exists>m\<in>set (nw_nodes s). nn_id m = p \<and> nn_kind m = Bundle \<and> p < nn_id n)
    \<and> distinct (map (\<lambda>n. (nn_parent n, nn_name n)) (nw_nodes s)) \<and> distinct (map nn_id (nw_nodes s))
    \<and> (\<forall>a\<in>set (nw_articles s). (\<exists>n\<in>set (nw_nodes s). nn_id n = art_category a \<and> nn_kind n = Category)
        \<and> (case art_parent a of None \<Rightarrow> art_root a = art_id a \<and> art_depth a = 0
           | Some p \<Rightarrow> \<exists>b\<in>set (nw_articles s). art_id b = p \<and> p < art_id a \<and> art_category b = art_category a
               \<and> art_root b = art_root a \<and> art_depth a = art_depth b + 1))
    \<and> distinct (map art_id (nw_articles s))
    \<and> (\<forall>(src, dst)\<in>set (nw_refs s). row_of s src \<noteq> None \<and> row_of s dst \<noteq> None)
    \<and> (\<forall>(k, it)\<in>set (nw_feed_items s). \<forall>i. fi_article it = Some i \<longrightarrow> row_of s i \<noteq> None)
    \<and> (\<forall>r\<in>set (nw_subs s). check_target s (sb_scope r) = Inr ())
    \<and> distinct (map (\<lambda>r. (mkey (sb_owner r), sb_scope r)) (nw_subs s))"
proof -
  note parts = core_parts [OF news_run_inv [OF assms]]
  have "case nn_parent n of None \<Rightarrow> True
      | Some p \<Rightarrow> \<exists>m\<in>set (nw_nodes s). nn_id m = p \<and> nn_kind m = Bundle \<and> p < nn_id n" if "n \<in> set (nw_nodes s)" for n
    using parts(1) that by (auto simp: nodes_ok_def node_ok_def split: option.splits)
  moreover have "\<exists>n\<in>set (nw_nodes s). nn_id n = art_category a \<and> nn_kind n = Category" if "a \<in> set (nw_articles s)" for a
    using parts(5) that by (simp add: placed_def)
  moreover have "case art_parent a of None \<Rightarrow> art_root a = art_id a \<and> art_depth a = 0
      | Some p \<Rightarrow> \<exists>b\<in>set (nw_articles s). art_id b = p \<and> p < art_id a \<and> art_category b = art_category a
          \<and> art_root b = art_root a \<and> art_depth a = art_depth b + 1" if "a \<in> set (nw_articles s)" for a
  proof -
    have "art_ok (nw_articles s) a" using parts(4) that by (simp add: arts_ok_def)
    then show ?thesis unfolding art_ok_def by (auto split: option.splits)
  qed
  moreover have "distinct (map nn_id (nw_nodes s))" "distinct (map art_id (nw_articles s))"
    using parts(1,4) by (auto simp: nodes_ok_def arts_ok_def intro: sorted_ids_distinct)
  moreover have "\<forall>(src, dst)\<in>set (nw_refs s). row_of s src \<noteq> None \<and> row_of s dst \<noteq> None"
    using parts(6) by (simp only: refs_there_def row_of_None not_not)
  moreover have "\<forall>(k, it)\<in>set (nw_feed_items s). \<forall>i. fi_article it = Some i \<longrightarrow> row_of s i \<noteq> None"
    using parts(8) by (auto simp: items_ok_def row_of_None)
  moreover have "distinct (map (\<lambda>r. (mkey (sb_owner r), sb_scope r)) (nw_subs s))"
    using parts(10) unfolding sub_key_def .
  ultimately show ?thesis using parts(2,9) by (simp add: names_ok_def subs_ok_def)
qed

theorem news_stays_well_formed_witness:
  "length (nw_articles demo_news) = 4 \<and> distinct (map art_id (nw_articles demo_news))"
  using news_stays_well_formed [OF _ demo_run] arg_cong [OF demo_ids, of length] by simp

text \<open>C31: Working out how deep a node is, by following parents, always ends, and the answer is at most the deepest level a
  caller allowed.\<close>

theorem level_ends:
  assumes "D < - 1" "(news_step D)\<^sup>*\<^sup>* empty_news s" "node_at s i = Some n"
  shows "\<exists>l. level s i = Some l \<and> 1 \<le> l \<and> l \<le> D"
proof -
  note parts = core_parts [OF news_run_inv [OF assms(1,2)]]
  have "n \<in> set (nw_nodes s)" "nn_id n = i" using assms(3) node_at_iff [OF parts(1)] by auto
  then show ?thesis using parts(3) by (auto simp: levels_ok_def)
qed

theorem level_ends_witness: "\<exists>l. level demo_news 1 = Some l \<and> 1 \<le> l \<and> l \<le> 4"
proof -
  have "node_at demo_news 1 \<noteq> None" by code_simp
  then show ?thesis using level_ends [OF _ demo_run] by auto
qed

subsection \<open>Nothing panics\<close>

lemma view_total: "feeds_ok s \<Longrightarrow> a \<in> set (nw_articles s) \<Longrightarrow> \<exists>v. view_article s a = Some v \<and> av_id v = art_id a"
  by (auto simp: feeds_ok_def view_article_def Let_def split: option.splits dest!: bspec)

lemma views_total:
  assumes "feeds_ok s"
  shows "set rows \<subseteq> set (nw_articles s) \<Longrightarrow> \<exists>vs. those (map (view_article s) rows) = Some vs \<and> map av_id vs = map art_id rows"
proof (induction rows)
  case (Cons a rows)
  then obtain v vs where "view_article s a = Some v" "av_id v = art_id a" "those (map (view_article s) rows) = Some vs"
    "map av_id vs = map art_id rows" using view_total [OF assms, of a] by auto
  then show ?case by simp
qed simp

lemma views_some: "feeds_ok s \<Longrightarrow> set rows \<subseteq> set (nw_articles s) \<Longrightarrow> those (map (view_article s) rows) \<noteq> None"
  by (drule (1) views_total) auto

lemma heads_total:
  assumes "feeds_ok s"
  shows "set rows \<subseteq> set (nw_articles s) \<Longrightarrow> those (map (thread_head_of s) rows) \<noteq> None"
proof (induction rows)
  case (Cons a rows)
  then obtain v where "view_article s a = Some v" using view_total [OF assms, of a] by auto
  then show ?case using Cons by (auto simp: thread_head_of_def split_beta Let_def)
qed simp

lemma create_no_panic:
  assumes "nodes_ok s"
  shows "fst (create_node n d s) \<noteq> Inl Panicked"
proof -
  have "\<exists>l. level s i = Some l" for i
    using level_returns [OF nodes_descend [OF assms], of i] by (auto simp: level_def)
  then have "create_level n s \<noteq> Inl Panicked"
    by (simp add: create_level_def split: option.split) (metis option.distinct(1))
  then show ?thesis by (auto simp: create_node_def split: sum.split)
qed

lemma target_refused: "check_target s sc \<noteq> Inl Panicked"
  by (auto simp: check_target_def split: sub_scope.split option.split)

lemma follow_no_panic:
  assumes "check_target s (ScThread root) = Inr ()"
  shows "fst (follow_thread fo root at s) = Inr ()"
  using assms by (auto simp: follow_thread_def add_sub_def split: option.split)

lemma post_no_panic:
  assumes "news_inv D s" "feed_allowed s p"
  shows "fst (post p d r s) \<noteq> Inl Panicked"
proof -
  obtain res s' where c: "post p d r s = (res, s')" by fastforce
  from c show ?thesis
  proof (cases rule: post_cases)
    case (stored cat parent_path depth rt root s1 fr)
    have inv: "news_inv D s1"
      unfolding stored(4,5)
      by (rule post_write_inv [OF assms(1) stored(1) assms(2) stored(3) post_place_ok [OF core_parts(4) [OF assms(1)] stored(2,3)]])
    let ?a = "article_for p (next_id s) (parent_path @ be_bytes 4 (unat (next_id s))) depth root"
    have "?a \<in> set (nw_articles s1)" "art_root ?a = root" by (simp_all add: stored(5) article_for_def)
    then obtain b where "b \<in> set (nw_articles s1)" "art_id b = root" "art_parent b = None"
      using arts_root [OF core_parts(4) [OF inv]] by metis
    then have "row_of s1 root = Some b" "art_parent b = None" using row_of_iff [OF core_parts(4) [OF inv]] by auto
    then have "fr = Inr ()" using follow_no_panic [of s1 root] stored(6) by (simp add: check_target_def) (metis fst_conv)
    then show ?thesis using c stored(7) by simp
  qed (use c in simp)
qed

lemma tombstone_no_panic:
  assumes "news_inv D s"
  shows "fst (tombstone i s) \<noteq> Inl Panicked"
proof (cases "row_of s i")
  case (Some a)
  note parts = core_parts [OF assms]
  have a: "a \<in> set (nw_articles s)" using Some row_of_iff [OF parts(4)] by simp
  have "node_at s (art_category a) \<noteq> None" using bspec [OF parts(5) [unfolded placed_def] a] by (simp add: node_at_None image_iff) metis
  then show ?thesis using view_total [OF parts(7) a] Some by (auto simp: tombstone_def Let_def node_at_def)
qed (simp add: tombstone_def)

lemma reads_no_panic:
  assumes "news_inv D s"
  shows "news_article s i \<noteq> Inl Panicked" "threads s q \<noteq> Inl Panicked" "recent s c limit \<noteq> Inl Panicked"
    "thread s i after snapshot limit \<noteq> Inl Panicked"
proof -
  note parts = core_parts [OF assms]
  show "news_article s i \<noteq> Inl Panicked"
  proof (cases "row_of s i")
    case (Some a)
    then have "a \<in> set (nw_articles s)" using row_of_iff [OF parts(4)] by simp
    from view_total [OF parts(7) this] Some show ?thesis by (auto simp: news_article_def)
  qed (simp add: news_article_def)
  have cat: "news_category s j \<noteq> Inl Panicked" for j by (auto simp: news_category_def split: option.split)
  have "those (map (view_article s) (take limit (newest_first (filter (\<lambda>a. art_category a = c) (nw_articles s))))) \<noteq> None"
    by (rule views_some [OF parts(7)]) (auto simp: newest_first_def dest: in_set_takeD)
  then show "recent s c limit \<noteq> Inl Panicked" using cat by (auto simp: recent_def split: sum.split option.split)
  have "those (map (thread_head_of s) (take (tq_limit q) (newest_first (thread_roots s q)))) \<noteq> None"
    "those (map (thread_head_of s) (rev (take (tq_limit q) (sort_key art_id (thread_roots s q))))) \<noteq> None"
    by (rule heads_total [OF parts(7)]; auto simp: newest_first_def thread_roots_def dest: in_set_takeD)+
  then show "threads s q \<noteq> Inl Panicked" using cat by (auto simp: threads_def Let_def split: sum.split option.split)
  have "thread_from s r af sh \<noteq> Inl Panicked" for r af sh by (auto simp: thread_from_def split: option.split)
  moreover have "in_thread s i \<noteq> []" if "row_of s i = Some a" "art_parent a = None" for a
    using that arts_starter [OF parts(4), of a] row_of_iff [OF parts(4)] by (auto simp: in_thread_def filter_empty_conv)
  moreover have "those (map (view_article s) (take n (thread_rows s r af sh p))) \<noteq> None" for n r af sh p
    by (rule views_some [OF parts(7)]) (auto simp: thread_rows_def dest: in_set_takeD)
  ultimately show "thread s i after snapshot limit \<noteq> Inl Panicked"
    by (auto simp: thread_def Let_def split: sum.split option.split) (metis option.distinct(1))+
qed

lemma subs_no_panic:
  "fst (subscribe owner sc m at s) \<noteq> Inl Panicked" "fst (mute owner sc b m at s) \<noteq> Inl Panicked"
  using target_refused [of s sc] by (auto simp: subscribe_def mute_def add_sub_def Let_def split: sum.split option.split)




subsection \<open>Reading a thread\<close>

lemma thread_cases:
  assumes "thread s root after snapshot limit = Inr p"
  obtains r q where "limit \<noteq> 0" "row_of s root = Some r" "art_parent r = None" "\<not> ap_snapshot p < root"
    "ap_snapshot p = (case snapshot of Some x \<Rightarrow> x | None \<Rightarrow> Max (set (map art_id (in_thread s root))))"
    "thread_from s root after (ap_snapshot p) = Inr q"
    "those (map (view_article s) (take limit (thread_rows s root after (ap_snapshot p) q))) = Some (ap_articles p)"
    "ap_has_more p \<longleftrightarrow> limit < length (thread_rows s root after (ap_snapshot p) q)"
  using assms by (fastforce simp: thread_def Let_def split: option.splits if_splits sum.splits)

lemma in_thread_top:
  assumes "a \<in> set (in_thread s r)"
  shows "art_id a \<le> Max (set (map art_id (in_thread s r)))"
  using assms by (intro Max_ge) auto

lemma thread_rows_all: "thread_rows s r None (Max (set (map art_id (in_thread s r)))) q = sort_key art_path (in_thread s r)"
proof -
  have "filter (\<lambda>a. art_root a = r \<and> art_id a \<le> Max (set (map art_id (in_thread s r)))) (nw_articles s) = in_thread s r"
    unfolding in_thread_def
    by (rule filter_cong [OF refl]) (use in_thread_top [of _ s r] in \<open>auto simp: in_thread_def\<close>)
  then show ?thesis by (simp add: thread_rows_def)
qed

lemma thread_first:
  assumes "news_inv D s" "row_of s r = Some a" "art_parent a = None" "0 < limit"
  shows "\<exists>vs. those (map (view_article s) (take limit (preorder (nw_articles s) a))) = Some vs
    \<and> thread s r None None limit = Inr \<lparr>ap_articles = vs, ap_has_more = limit < length (preorder (nw_articles s) a),
        ap_snapshot = Max (art_id ` set (preorder (nw_articles s) a))\<rparr>"
proof -
  note parts = core_parts [OF assms(1)]
  have a: "a \<in> set (nw_articles s)" "art_id a = r" using assms(2) row_of_iff [OF parts(4)] by auto
  have order: "sort_key art_path (in_thread s r) = preorder (nw_articles s) a" using thread_sorted [OF parts(4) a(1) assms(3)] a(2) by simp
  then have same: "set (preorder (nw_articles s) a) = set (in_thread s r)" by (metis set_sort)
  have "art_root a = r" using arts_starter [OF parts(4) a(1) assms(3)] a(2) by simp
  then have in_it: "a \<in> set (in_thread s r)" using a by (simp add: in_thread_def)
  then have "\<not> Max (set (map art_id (in_thread s r))) < r" using in_thread_top [OF in_it] a(2) by simp
  moreover have "in_thread s r \<noteq> []" using in_it by auto
  moreover have "those (map (view_article s) (take limit (preorder (nw_articles s) a))) \<noteq> None"
    by (rule views_some [OF parts(7)]) (use same in \<open>auto simp: in_thread_def dest: in_set_takeD\<close>)
  moreover have "thread_from s r None x = Inr []" for x by (simp add: thread_from_def)
  ultimately show ?thesis
    using assms(2-4) thread_rows_all [of s r "[]"] order same by (auto simp: thread_def Let_def)
qed

text \<open>C29: Sorting paths as bytes reads a thread as a reader expects it: an article, then its replies in the order they were
  posted, each followed by all that was said below it.  The first page of a thread is the first so many of that list,
  and says rightly whether there is more.\<close>

theorem thread_is_preorder:
  assumes "D < - 1" "(news_step D)\<^sup>*\<^sup>* empty_news s" "row_of s r = Some a" "art_parent a = None" "0 < limit"
  shows "\<exists>vs. those (map (view_article s) (take limit (preorder (nw_articles s) a))) = Some vs
    \<and> thread s r None None limit = Inr \<lparr>ap_articles = vs, ap_has_more = limit < length (preorder (nw_articles s) a),
        ap_snapshot = Max (art_id ` set (preorder (nw_articles s) a))\<rparr>"
  by (rule thread_first [OF news_run_inv [OF assms(1,2)] assms(3-5)])

theorem thread_is_preorder_witness:
  "map art_id (preorder (nw_articles demo_news) (hd (nw_articles demo_news))) = [1, 2, 4, 3]
    \<and> map_sum id (map av_id \<circ> ap_articles) (thread demo_news 1 None None 3) = Inr [1, 2, 4]"
proof -
  let ?a = "hd (nw_articles demo_news)"
  have "row_of demo_news 1 = Some ?a" "art_parent ?a = None" by code_simp+
  from thread_is_preorder [OF _ demo_run this, of 3] obtain vs where
    vs: "those (map (view_article demo_news) (take 3 (preorder (nw_articles demo_news) ?a))) = Some vs"
      "thread demo_news 1 None None 3 = Inr \<lparr>ap_articles = vs, ap_has_more = 3 < length (preorder (nw_articles demo_news) ?a),
        ap_snapshot = Max (art_id ` set (preorder (nw_articles demo_news) ?a))\<rparr>" by auto
  have ids: "map art_id (preorder (nw_articles demo_news) ?a) = [1, 2, 4, 3]" by code_simp
  have "map_option (map av_id) (those (map (view_article demo_news) (take 3 (preorder (nw_articles demo_news) ?a)))) = Some [1, 2, 4]"
    by code_simp
  then show ?thesis using ids vs by simp
qed


subsection \<open>Articles stay where they are\<close>

text \<open>C32: An article's number, category, parent, thread, path, depth and feed are fixed when it is posted, and numbers are
  not used twice: whatever happens later, an article of a number that was given out is the one that had it, and one
  that was removed does not come back.\<close>

theorem articles_stay_put:
  assumes "D < - 1" "(news_step D)\<^sup>*\<^sup>* empty_news s" "(news_step D)\<^sup>*\<^sup>* s s'" "row_of s' i = Some a'" "unat i \<le> unat (nw_last_article s)"
  shows "\<exists>a. row_of s i = Some a \<and> art_category a = art_category a' \<and> art_parent a = art_parent a' \<and> art_root a = art_root a'
    \<and> art_path a = art_path a' \<and> art_depth a = art_depth a' \<and> art_feed a = art_feed a'"
proof -
  note inv = news_run_inv [OF assms(1,2)] news_run_inv [OF assms(1) rtranclp_trans [OF assms(2,3)]]
  have "a' \<in> set (nw_articles s')" "art_id a' = i" using assms(4) row_of_iff [OF core_parts(4) [OF inv(2)]] by auto
  moreover have "news_le s s'" using nws.run_le [OF assms(3)] assms(1) inv(1) by blast
  ultimately have "art_sig a' \<in> art_sig ` set (nw_articles s)" using assms(5) by (simp add: news_le_def)
  then obtain a where "a \<in> set (nw_articles s)" "art_sig a' = art_sig a" by (rule imageE)
  then show ?thesis using \<open>art_id a' = i\<close> row_of_iff [OF core_parts(4) [OF inv(1)], of i a] by (auto simp: art_sig_eq)
qed

theorem articles_stay_put_witness:
  "\<exists>a'. row_of demo_news 1 = Some a' \<and> map_option art_path (row_of demo_starter 1) = Some (art_path a')"
proof -
  have "row_of demo_news 1 \<noteq> None" "unat (1::article_id) \<le> unat (nw_last_article demo_starter)" "(4::u16) < - 1" by code_simp+
  then show ?thesis using articles_stay_put [OF _ demo_starter_run demo_run_from, of 1] by auto
qed


subsection \<open>Unread\<close>

lemma post_stored:
  assumes "post p d r s = (Inr po, s')"
  obtains path depth where "nw_articles s' = nw_articles s @ [article_for p (po_id po) path depth (po_root po)]"
  using assms
proof (cases rule: post_cases)
  case (stored c pp depth rt root s1 fr)
  have "nw_articles s' = nw_articles s1"
    using stored(6) by (auto simp: follow_thread_def add_sub_def split: option.splits if_splits sum.splits fault.splits news_error.splits)
  then show ?thesis using that stored(5,7) by (auto split: sum.splits)
qed simp

text \<open>What a post does to the unread count of somebody subscribed to its thread or, where it starts one, to its category:
  one more when somebody else wrote it, and none when the subscriber did.  Counts of other scopes do not change.\<close>

theorem post_counts_unread:
  assumes "post p d r s = (Inr po, s')" "last_seen < po_id po" "po_id po < - 1"
  shows "unread s' owner sc last_seen = unread s owner sc last_seen
    + (if (case sc of ScThread t \<Rightarrow> po_root po = t | ScCategory c \<Rightarrow> np_category p = c \<and> np_parent p = None)
          \<and> \<not> author_is (np_author p) owner then 1 else 0)"
proof -
  obtain path depth where "nw_articles s' = nw_articles s @ [article_for p (po_id po) path depth (po_root po)]"
    by (rule post_stored [OF assms(1)])
  then show ?thesis using assms(2,3)
    by (auto simp: unread_def unread_before_def in_scope_def counts_unread_def scope_has_def article_for_def split: sub_scope.split)
qed

theorem post_counts_unread_witness:
  "unread (snd (post (demo_post (Some 1)) 8 4 demo_news)) \<lparr>mb_login = ''bob'', mb_fp = None\<rparr> (ScThread 1) 4 = 1"
proof -
  let ?bob = "\<lparr>mb_login = ''bob'', mb_fp = None\<rparr>"
  have "fst (post (demo_post (Some 1)) 8 4 demo_news) = Inr \<lparr>po_id = 5, po_root = 1\<rparr>" by code_simp
  then have p: "post (demo_post (Some 1)) 8 4 demo_news = (Inr \<lparr>po_id = 5, po_root = 1\<rparr>, snd (post (demo_post (Some 1)) 8 4 demo_news))"
    by (metis prod.collapse)
  have "unread demo_news ?bob (ScThread 1) 4 = 0" "\<not> author_is (np_author (demo_post (Some 1))) ?bob" "(4 :: article_id) < 5" "(5 :: article_id) < - 1"
    by code_simp+
  then show ?thesis using post_counts_unread [OF p, of 4 ?bob "ScThread 1"] by simp
qed

end
