(* ===== verification/News_Pages.thy ===== *)
theory News_Pages
  imports News_Guarantees
begin

section \<open>Reading a thread page by page\<close>

text \<open>
  A client reads a thread in pages: it asks for the first, and then, with the snapshot that page named, for what comes
  after the last article it has.  Others write in between.  \<open>pages\<close> relates the first page, read in one state, to all
  that the client has when a page says there is no more, and the state it has it in.
\<close>

inductive pages :: "u16 \<Rightarrow> article_id \<Rightarrow> nat \<Rightarrow> news \<Rightarrow> article_page \<Rightarrow> article list \<Rightarrow> news \<Rightarrow> bool" for D r limit where
  last_page: "\<not> ap_has_more p \<Longrightarrow> pages D r limit s p (ap_articles p) s"
| next_page: "ap_has_more p \<Longrightarrow> (news_step D)\<^sup>*\<^sup>* s s'
    \<Longrightarrow> thread s' r (Some (av_id (last (ap_articles p)))) (Some (ap_snapshot p)) limit = Inr p'
    \<Longrightarrow> pages D r limit s' p' vs s'' \<Longrightarrow> pages D r limit s p (ap_articles p @ vs) s''"

inductive_cases pagesE: "pages D r limit s p vs s'"

lemma pages_run: "pages D r limit s p vs s' \<Longrightarrow> (news_step D)\<^sup>*\<^sup>* s s'"
  by (induction rule: pages.induct) (auto intro: rtranclp_trans)


subsection \<open>What a page holds\<close>

definition past :: "article_id \<Rightarrow> article_id option \<Rightarrow> article_id \<Rightarrow> bytes \<Rightarrow> article_row \<Rightarrow> bool" where
  "past r after shot q a \<longleftrightarrow> art_root a = r \<and> art_id a \<le> shot \<and> (after = None \<or> q < art_path a)"

abbreviation by_path :: "article_row list \<Rightarrow> bool" where
  "by_path \<equiv> sorted_wrt (\<lambda>x y. art_path x < art_path y)"

lemma rows_past [simp]: "set (thread_rows s r after shot q) = {a \<in> set (nw_articles s). past r after shot q a}"
  by (auto simp: thread_rows_def past_def)

lemma rows_by_path: "arts_ok s \<Longrightarrow> by_path (thread_rows s r after shot q)"
  unfolding thread_rows_def by (rule sort_key_strict [OF paths_distinct])

lemma page_ids:
  assumes "feeds_ok s" "those (map (view_article s) (take n rows)) = Some vs" "set rows \<subseteq> set (nw_articles s)"
  shows "map av_id vs = map art_id (take n rows)"
  using views_total [OF assms(1), of "take n rows"] assms(2,3) by (auto dest: in_set_takeD)

lemma past_sig: "art_sig a = art_sig b \<Longrightarrow> past r after shot q a \<longleftrightarrow> past r after shot q b"
  by (simp add: art_sig_eq past_def)

text \<open>An article as old as the snapshot was there, in the same place, when the snapshot was taken.\<close>

lemma was_there:
  assumes "news_le s s'" "a \<in> set (nw_articles s')" "art_id a \<le> shot" "unat shot \<le> unat (nw_last_article s)"
  obtains b where "b \<in> set (nw_articles s)" "art_sig b = art_sig a"
proof -
  have "unat (art_id a) \<le> unat (nw_last_article s)" using assms(3,4) by (simp add: word_le_nat_alt)
  then have "art_sig a \<in> art_sig ` set (nw_articles s)" using assms(1,2) by (simp add: news_le_def)
  then show ?thesis using that by (metis imageE)
qed

lemma same_row: "arts_ok s \<Longrightarrow> a \<in> set (nw_articles s) \<Longrightarrow> b \<in> set (nw_articles s) \<Longrightarrow> art_id a = art_id b \<Longrightarrow> a = b"
  using row_of_iff by (metis option.inject)

text \<open>Rows read later, as the rows they were.\<close>

lemma rows_before:
  assumes "news_le s s'" "unat shot \<le> unat (nw_last_article s)"
  shows "set rows' \<subseteq> {a \<in> set (nw_articles s'). past r after shot q a} \<Longrightarrow> by_path rows'
    \<Longrightarrow> \<exists>rows. map art_id rows = map art_id rows' \<and> set rows \<subseteq> {a \<in> set (nw_articles s). past r after shot q a} \<and> by_path rows
       \<and> art_path ` set rows = art_path ` set rows'"
proof (induction rows')
  case (Cons a rows')
  then obtain rows where rows: "map art_id rows = map art_id rows'" "set rows \<subseteq> {a \<in> set (nw_articles s). past r after shot q a}"
    "by_path rows" "art_path ` set rows = art_path ` set rows'" by auto
  have a: "a \<in> set (nw_articles s')" "past r after shot q a" using Cons.prems(1) by auto
  then obtain b where b: "b \<in> set (nw_articles s)" "art_sig b = art_sig a"
    using was_there [OF assms(1) _ _ assms(2), of a] by (auto simp: past_def)
  have "art_path b < x" if "x \<in> art_path ` set rows" for x
    using that Cons.prems(2) b(2) unfolding rows(4) by (auto simp: art_sig_eq)
  then have "by_path (b # rows)" using rows(3) by simp
  moreover have "set (b # rows) \<subseteq> {a \<in> set (nw_articles s). past r after shot q a}" using rows(2) b(1) a(2) past_sig [OF b(2)] by auto
  ultimately show ?case using rows(1,4) b(2) by (intro exI [of _ "b # rows"]) (auto simp: art_sig_eq)
qed simp

lemma by_path_last:
  assumes "by_path rows" "n < length rows" "n \<noteq> 0" "a \<in> set rows"
  shows "a \<in> set (take n rows) \<or> art_path (last (take n rows)) < art_path a"
proof -
  have "a \<in> set (take n rows) \<or> a \<in> set (drop n rows)" using assms(4) by (metis Un_iff append_take_drop_id set_append)
  moreover have "last (take n rows) \<in> set (take n rows)" using assms(2,3) by (intro last_in_set) auto
  moreover have "sorted_wrt (\<lambda>x y. art_path x < art_path y) (take n rows @ drop n rows)" using assms(1) by simp
  ultimately show ?thesis unfolding sorted_wrt_append by blast
qed

lemma by_path_le_last:
  assumes "by_path rows" "a \<in> set rows"
  shows "art_path a \<le> art_path (last rows)"
proof -
  have "by_path (butlast rows @ [last rows])" using assms by (cases rows) simp_all
  moreover have "a \<in> set (butlast rows) \<or> a = last rows" using assms(2)
    by (metis append_butlast_last_id empty_iff empty_set in_set_conv_decomp rotate1.simps(2) set_ConsD set_rotate1)
  ultimately show ?thesis by (auto simp: sorted_wrt_append)
qed


subsection \<open>All pages\<close>

text \<open>The articles of all pages, as rows of the state the first was read in.\<close>

definition covers :: "article_row list \<Rightarrow> article_id \<Rightarrow> article_id option \<Rightarrow> article_id \<Rightarrow> bytes \<Rightarrow> news \<Rightarrow> article list \<Rightarrow> news \<Rightarrow> bool" where
  "covers rows r after shot q s vs s' \<longleftrightarrow> map av_id vs = map art_id rows \<and> set rows \<subseteq> {a \<in> set (nw_articles s). past r after shot q a}
     \<and> by_path rows \<and> (\<forall>a\<in>set (nw_articles s'). past r after shot q a \<longrightarrow> art_id a \<in> art_id ` set rows)"

lemma covers_next:
  assumes inv: "news_inv D s" and le: "news_le s s'" "news_le s s''" and shot: "unat shot \<le> unat (nw_last_article s)"
    and more: "limit < length (thread_rows s r after shot q)" "limit \<noteq> 0"
    and ids: "map av_id vs = map art_id (take limit (thread_rows s r after shot q))"
    and from': "thread_from s' r (Some (av_id (last vs))) shot = Inr q'"
    and rest: "covers rows' r (Some (av_id (last vs))) shot q' s' vs' s''" and ok': "arts_ok s'"
  shows "\<exists>rows. covers rows r after shot q s (vs @ vs') s''"
proof -
  let ?page = "take limit (thread_rows s r after shot q)"
  note ok = core_parts(4) [OF inv]
  have page: "?page \<noteq> []" "by_path ?page" "set ?page \<subseteq> {a \<in> set (nw_articles s). past r after shot q a}"
    using more rows_by_path [OF ok, of r after shot q] rows_past [of s r after shot q]
    by (auto simp: sorted_wrt_take dest: in_set_takeD)
  have "vs \<noteq> []" using ids page(1) by (metis Nil_is_map_conv)
  have cursor: "av_id (last vs) = art_id (last ?page)"
    using arg_cong [OF ids, of last] by (simp only: last_map [OF page(1)] last_map [OF \<open>vs \<noteq> []\<close>])
  obtain b where b: "b \<in> set (nw_articles s')" "art_id b = art_id (last ?page)" "q' = art_path b"
    using from' row_of_iff [OF ok'] unfolding cursor by (auto simp: thread_from_def split: option.splits if_splits)
  have last_in: "last ?page \<in> set (nw_articles s)" "art_id (last ?page) \<le> shot" using subsetD [OF page(3) last_in_set [OF page(1)]] by (auto simp: past_def)
  have "art_id b \<le> shot" using b(2) last_in(2) by simp
  from was_there [OF le(1) b(1) this shot] obtain b0 where b0: "b0 \<in> set (nw_articles s)" "art_sig b0 = art_sig b" .
  then have "b0 = last ?page" using b(2) by (intro same_row [OF ok _ last_in(1)]) (simp_all add: art_sig_eq)
  then have q': "q' = art_path (last ?page)" using b(3) b0(2) by (simp add: art_sig_eq)
  obtain rows where rows: "map art_id rows = map art_id rows'"
    "set rows \<subseteq> {a \<in> set (nw_articles s). past r (Some (av_id (last vs))) shot q' a}" "by_path rows"
    using rows_before [OF le(1) shot, of rows' r "Some (av_id (last vs))" q'] rest unfolding covers_def by blast
  have after_page: "art_path x < art_path y" if "x \<in> set ?page" "y \<in> set rows" for x y
    using by_path_le_last [OF page(2) that(1)] rows(2) that(2) q' by (auto simp: past_def)
  have "set rows \<subseteq> {a \<in> set (nw_articles s). past r after shot q a}"
  proof
    fix y assume y: "y \<in> set rows"
    have "past r after shot q (last ?page)" "art_path (last ?page) < art_path y"
      using page(3) last_in_set [OF page(1)] after_page [OF last_in_set [OF page(1)] y] by auto
    then have "after = None \<or> q < art_path y" unfolding past_def using order_less_trans by blast
    then show "y \<in> {a \<in> set (nw_articles s). past r after shot q a}" using rows(2) y by (auto simp: past_def)
  qed
  moreover have "art_id a \<in> art_id ` set (?page @ rows)" if a: "a \<in> set (nw_articles s'')" "past r after shot q a" for a
  proof -
    obtain a0 where a0: "a0 \<in> set (nw_articles s)" "art_sig a0 = art_sig a"
      using was_there [OF le(2) a(1) _ shot] a(2) by (auto simp: past_def)
    then have "a0 \<in> set (thread_rows s r after shot q)" using a(2) past_sig [OF a0(2)] by simp
    from by_path_last [OF rows_by_path [OF ok] more this] show ?thesis
    proof
      assume "a0 \<in> set ?page"
      then show ?thesis using a0(2) by (intro image_eqI [of _ _ a0]) (auto simp: art_sig_eq)
    next
      assume "art_path (last ?page) < art_path a0"
      then have "past r (Some (av_id (last vs))) shot q' a" using a(2) a0(2) q' by (simp add: past_def art_sig_eq)
      then have "art_id a \<in> set (map art_id rows)" using rest a(1) rows(1) by (simp add: covers_def)
      then show ?thesis by auto
    qed
  qed
  moreover have "by_path (?page @ rows)" using page(2) rows(3) after_page by (auto simp: sorted_wrt_append)
  moreover have "map av_id (vs @ vs') = map art_id (?page @ rows)" using ids rest rows(1) by (simp add: covers_def)
  ultimately show ?thesis using page(3) unfolding covers_def by (intro exI [of _ "?page @ rows"]) auto
qed

lemma pages_cover:
  assumes "pages D r limit s p vs s'"
  shows "news_inv D s \<Longrightarrow> D < - 1 \<Longrightarrow> thread s r after snapshot limit = Inr p \<Longrightarrow> thread_from s r after (ap_snapshot p) = Inr q
    \<Longrightarrow> unat (ap_snapshot p) \<le> unat (nw_last_article s) \<Longrightarrow> \<exists>rows. covers rows r after (ap_snapshot p) q s vs s'"
  using assms
proof (induction arbitrary: after snapshot q rule: pages.induct)
  case (last_page p s)
  obtain q' where t: "thread_from s r after (ap_snapshot p) = Inr q'"
    "those (map (view_article s) (take limit (thread_rows s r after (ap_snapshot p) q'))) = Some (ap_articles p)"
    "ap_has_more p \<longleftrightarrow> limit < length (thread_rows s r after (ap_snapshot p) q')" by (rule thread_cases [OF last_page.prems(3)])
  then have "q' = q" using last_page.prems(4) by simp
  have "map av_id (ap_articles p) = map art_id (take limit (thread_rows s r after (ap_snapshot p) q))"
    using page_ids [OF core_parts(7) [OF last_page.prems(1)] t(2)] \<open>q' = q\<close> by auto
  then show ?case using t(3) last_page.hyps \<open>q' = q\<close> rows_by_path [OF core_parts(4) [OF last_page.prems(1)]]
    by (intro exI [of _ "thread_rows s r after (ap_snapshot p) q"]) (auto simp: covers_def)
next
  case (next_page p s s' p' vs s'')
  obtain q1 where t: "limit \<noteq> 0" "thread_from s r after (ap_snapshot p) = Inr q1"
    "those (map (view_article s) (take limit (thread_rows s r after (ap_snapshot p) q1))) = Some (ap_articles p)"
    "ap_has_more p \<longleftrightarrow> limit < length (thread_rows s r after (ap_snapshot p) q1)" by (rule thread_cases [OF next_page.prems(3)])
  then have "q1 = q" using next_page.prems(4) by simp
  obtain q' where t': "ap_snapshot p' = ap_snapshot p" "thread_from s' r (Some (av_id (last (ap_articles p)))) (ap_snapshot p') = Inr q'"
    by (rule thread_cases [OF next_page.hyps(3)]) auto
  have inv': "news_inv D s'" using nws.run_ok [OF next_page.hyps(2)] next_page.prems(1,2) by blast
  have le: "news_le s s'" "news_le s s''"
    using nws.run_le [OF next_page.hyps(2)] nws.run_le [OF rtranclp_trans [OF next_page.hyps(2) pages_run [OF next_page.hyps(4)]]]
      next_page.prems(1,2) by blast+
  have "unat (ap_snapshot p') \<le> unat (nw_last_article s')"
    using le(1) next_page.prems(5) t'(1) by (simp add: news_le_def word_le_nat_alt)
  from next_page.IH [OF inv' next_page.prems(2) next_page.hyps(3) t'(2) this] obtain rows' where
    "covers rows' r (Some (av_id (last (ap_articles p)))) (ap_snapshot p') q' s' vs s''" by blast
  moreover have "map av_id (ap_articles p) = map art_id (take limit (thread_rows s r after (ap_snapshot p) q))"
    using page_ids [OF core_parts(7) [OF next_page.prems(1)] t(3)] \<open>q1 = q\<close> by auto
  ultimately show ?case
    using covers_next [OF next_page.prems(1) le next_page.prems(5)] t(1,4) t' next_page.hyps(1) \<open>q1 = q\<close> core_parts(4) [OF inv'] by simp
qed

lemma first_page:
  assumes "news_inv D s" "thread s r None None limit = Inr p"
  obtains a where "row_of s r = Some a" "limit \<noteq> 0" "thread_from s r None (ap_snapshot p) = Inr []"
    "thread_rows s r None (ap_snapshot p) [] = preorder (nw_articles s) a" "unat (ap_snapshot p) \<le> unat (nw_last_article s)"
    "{b \<in> set (nw_articles s). past r None (ap_snapshot p) [] b} = set (in_thread s r)"
proof -
  note ok = core_parts(4) [OF assms(1)]
  from assms(2) obtain a where a: "row_of s r = Some a" "art_parent a = None" "limit \<noteq> 0"
    "ap_snapshot p = Max (set (map art_id (in_thread s r)))" by (rule thread_cases) auto
  have in_a: "a \<in> set (nw_articles s)" "art_id a = r" using a(1) row_of_iff [OF ok] by auto
  have rows: "thread_rows s r None (ap_snapshot p) [] = preorder (nw_articles s) a"
    using thread_rows_all [of s r "[]"] thread_sorted [OF ok in_a(1) a(2)] in_a(2) a(4) by simp
  have "art_root a = r" using arts_starter [OF ok in_a(1) a(2)] in_a(2) by simp
  then have "set (map art_id (in_thread s r)) \<noteq> {}" using in_a by (auto simp: in_thread_def filter_empty_conv)
  then have "ap_snapshot p \<in> set (map art_id (in_thread s r))" unfolding a(4) by (intro Max_in) auto
  then have "unat (ap_snapshot p) \<le> unat (nw_last_article s)" using in_bounds [OF ok] by (auto simp: in_thread_def)
  moreover have "{b \<in> set (nw_articles s). past r None (ap_snapshot p) [] b} = set (in_thread s r)"
    using in_thread_top [of _ s r] a(4) by (auto simp: past_def in_thread_def)
  ultimately show ?thesis using that a(1,3) rows by (simp add: thread_from_def)
qed

lemma by_path_subseq:
  assumes "by_path rows" "by_path whole" "set rows \<subseteq> set whole"
  shows "rows = filter (\<lambda>a. a \<in> set rows) whole"
  by (rule sorted_key_unique [of art_path]) (use assms in \<open>auto simp: sorted_wrt_filter\<close>)

text \<open>C28: A client that reads a thread page by page, with the snapshot the first page gave it, while others post, delete and
  prune between its requests, gets a part of the thread as it stood when it began, in that order and nothing twice; and
  every article of it that is still there at the end is among what it got.\<close>

theorem paging_misses_nothing:
  assumes "D < - 1" "(news_step D)\<^sup>*\<^sup>* empty_news s" "thread s r None None limit = Inr p" "pages D r limit s p vs s'"
  shows "\<exists>a. row_of s r = Some a \<and> subseq (map av_id vs) (map art_id (preorder (nw_articles s) a)) \<and> distinct (map av_id vs)
    \<and> art_id ` {b \<in> set (in_thread s' r). art_id b \<le> ap_snapshot p} \<subseteq> set (map av_id vs)"
proof -
  note inv = news_run_inv [OF assms(1,2)]
  note ok = core_parts(4) [OF inv]
  obtain a where a: "row_of s r = Some a" "thread_from s r None (ap_snapshot p) = Inr []"
    "thread_rows s r None (ap_snapshot p) [] = preorder (nw_articles s) a" "unat (ap_snapshot p) \<le> unat (nw_last_article s)"
    by (rule first_page [OF inv assms(3)])
  from pages_cover [OF assms(4) inv assms(1,3) a(2,4)] obtain rows where rows: "map av_id vs = map art_id rows"
    "set rows \<subseteq> set (preorder (nw_articles s) a)" "by_path rows"
    "\<forall>b\<in>set (nw_articles s'). past r None (ap_snapshot p) [] b \<longrightarrow> art_id b \<in> art_id ` set rows"
    unfolding covers_def a(3) [symmetric] rows_past by blast
  have whole: "by_path (preorder (nw_articles s) a)" using rows_by_path [OF ok, of r None "ap_snapshot p" "[]"] a(3) by simp
  have "subseq rows (preorder (nw_articles s) a)"
    by (subst by_path_subseq [OF rows(3) whole rows(2)]) (rule subseq_filter_left)
  then have sub: "subseq (map av_id vs) (map art_id (preorder (nw_articles s) a))" unfolding rows(1) by (rule subseq_map)
  have "set (preorder (nw_articles s) a) \<subseteq> set (nw_articles s)" using a(3) rows_past [of s r None "ap_snapshot p" "[]"] by auto
  then have "inj_on art_id (set rows)" using rows(2) same_row [OF ok] by (intro inj_onI) blast
  moreover have "distinct rows" using rows(3) by (induction rows) auto
  ultimately have "distinct (map av_id vs)" unfolding rows(1) by (simp add: distinct_map)
  moreover have "art_id ` {b \<in> set (in_thread s' r). art_id b \<le> ap_snapshot p} \<subseteq> set (map av_id vs)"
    unfolding rows(1) using rows(4) by (auto simp: in_thread_def past_def)
  ultimately show ?thesis using a(1) sub by blast
qed

definition demo_more :: news where
  "demo_more = news_serve (NPost (demo_post (Some 3)) 8 4) demo_news"

theorem paging_misses_nothing_witness:
  "\<exists>p vs. thread demo_news 1 None None 2 = Inr p \<and> pages 4 1 2 demo_news p vs demo_more
     \<and> distinct (map av_id vs) \<and> {1, 2, 3, 4} \<subseteq> set (map av_id vs)"
proof -
  have "case thread demo_news 1 None None 2 of Inr p \<Rightarrow> ap_has_more p \<and> av_id (last (ap_articles p)) = 2 \<and> ap_snapshot p = 4 | Inl _ \<Rightarrow> False"
    by code_simp
  then obtain p where p: "thread demo_news 1 None None 2 = Inr p" "ap_has_more p" "av_id (last (ap_articles p)) = 2" "ap_snapshot p = 4"
    by (auto split: sum.splits)
  have "case thread demo_more 1 (Some 2) (Some 4) 2 of Inr p \<Rightarrow> \<not> ap_has_more p | Inl _ \<Rightarrow> False" by code_simp
  then obtain p' where p': "thread demo_more 1 (Some 2) (Some 4) 2 = Inr p'" "\<not> ap_has_more p'" by (auto split: sum.splits)
  have "(news_step 4)\<^sup>*\<^sup>* demo_news demo_more" unfolding demo_more_def by (rule demo_post_step) simp
  then have run: "pages 4 1 2 demo_news p (ap_articles p @ ap_articles p') demo_more"
    using next_page [OF p(2) _ _ last_page [OF p'(2)]] p(3,4) p'(1) by simp
  have "map art_id (filter (\<lambda>b. art_id b \<le> 4) (in_thread demo_more 1)) = [1, 2, 3, 4]" by code_simp
  then have "art_id ` {b \<in> set (in_thread demo_more 1). art_id b \<le> 4} = {1, 2, 3, 4}"
    unfolding set_filter [symmetric] set_map [symmetric] by simp
  moreover have "(4::u16) < - 1" by code_simp
  note paging_misses_nothing [OF this demo_run p(1) run, unfolded p(4)]
  ultimately have "distinct (map av_id (ap_articles p @ ap_articles p'))" "{1, 2, 3, 4} \<subseteq> set (map av_id (ap_articles p @ ap_articles p'))"
    by (elim exE conjE; simp only:)+
  then show ?thesis using p(1) run by blast
qed

subsection \<open>Reading ends\<close>

lemma thread_answers:
  assumes "news_inv D s" "limit \<noteq> 0" "row_of s root = Some a" "art_parent a = None" "\<not> shot < root" "thread_from s root after shot = Inr q"
  shows "\<exists>p. thread s root after (Some shot) limit = Inr p \<and> ap_snapshot p = shot"
proof -
  have "thread s root after (Some shot) limit \<noteq> Inl Panicked" by (rule reads_no_panic [OF assms(1)])
  then show ?thesis using assms(2-6) by (auto simp: thread_def Let_def split: if_splits option.splits)
qed

lemma pages_exist:
  assumes "news_inv D s"
  shows "thread s r after snapshot limit = Inr p \<Longrightarrow> thread_from s r after (ap_snapshot p) = Inr q \<Longrightarrow> \<exists>vs. pages D r limit s p vs s"
proof (induction "card (set (thread_rows s r after (ap_snapshot p) q))" arbitrary: p after snapshot q rule: less_induct)
  case less
  note ok = core_parts(4) [OF assms]
  let ?rows = "thread_rows s r after (ap_snapshot p) q"
  obtain a q1 where t: "limit \<noteq> 0" "row_of s r = Some a" "art_parent a = None" "\<not> ap_snapshot p < r"
    "thread_from s r after (ap_snapshot p) = Inr q1"
    "those (map (view_article s) (take limit (thread_rows s r after (ap_snapshot p) q1))) = Some (ap_articles p)"
    "ap_has_more p \<longleftrightarrow> limit < length (thread_rows s r after (ap_snapshot p) q1)" by (rule thread_cases [OF less.prems(1)])
  then have [simp]: "q1 = q" using less.prems(2) by simp
  show ?case
  proof (cases "ap_has_more p")
    case False
    then show ?thesis by (blast intro: last_page)
  next
    case True
    let ?b = "last (take limit ?rows)"
    have page: "take limit ?rows \<noteq> []" using True t(1,7) by auto
    then have b: "?b \<in> set ?rows" using in_set_takeD last_in_set by metis
    have ids: "map av_id (ap_articles p) = map art_id (take limit ?rows)"
      using page_ids [OF core_parts(7) [OF assms] t(6)] by auto
    then have some: "ap_articles p \<noteq> []" using page by (metis Nil_is_map_conv)
    have cursor: "av_id (last (ap_articles p)) = art_id ?b"
      using arg_cong [OF ids, of last] by (simp only: last_map [OF page] last_map [OF some])
    have "row_of s (art_id ?b) = Some ?b" using b row_of_iff [OF ok] by simp
    then have at: "thread_from s r (Some (art_id ?b)) (ap_snapshot p) = Inr (art_path ?b)"
      using b by (auto simp: thread_from_def past_def)
    from thread_answers [OF assms t(1-4) this] obtain p' where
      p': "thread s r (Some (art_id ?b)) (Some (ap_snapshot p)) limit = Inr p'" "ap_snapshot p' = ap_snapshot p" by blast
    have "set (thread_rows s r (Some (art_id ?b)) (ap_snapshot p') (art_path ?b)) \<subseteq> set ?rows - {?b}"
      using b p'(2) by (auto simp: past_def)
    then have "card (set (thread_rows s r (Some (art_id ?b)) (ap_snapshot p') (art_path ?b))) < card (set ?rows)"
      using b by (intro psubset_card_mono) (simp_all del: rows_past, blast)
    from less.hyps [OF this p'(1)] at p'(2) obtain vs where "pages D r limit s p' vs s" by auto
    then show ?thesis using next_page [OF True rtranclp.rtrancl_refl] p'(1) cursor by metis
  qed
qed

text \<open>Reading a thread page by page ends.  Whatever the size of a page, while nothing is written the pages together are
  the whole thread in order.\<close>

theorem paging_ends:
  assumes "D < - 1" "(news_step D)\<^sup>*\<^sup>* empty_news s" "row_of s r = Some a" "art_parent a = None" "0 < limit"
  shows "\<exists>p vs. thread s r None None limit = Inr p \<and> pages D r limit s p vs s
    \<and> map av_id vs = map art_id (preorder (nw_articles s) a)"
proof -
  note inv = news_run_inv [OF assms(1,2)]
  note ok = core_parts(4) [OF inv]
  obtain p where p: "thread s r None None limit = Inr p" using thread_first [OF inv assms(3-5)] by blast
  obtain a' where a: "row_of s r = Some a'" "thread_from s r None (ap_snapshot p) = Inr []"
    "thread_rows s r None (ap_snapshot p) [] = preorder (nw_articles s) a'" "unat (ap_snapshot p) \<le> unat (nw_last_article s)"
    by (rule first_page [OF inv p])
  then have [simp]: "a' = a" using assms(3) by simp
  from pages_exist [OF inv p a(2)] obtain vs where vs: "pages D r limit s p vs s" by blast
  have pre: "set (preorder (nw_articles s) a) = {b \<in> set (nw_articles s). past r None (ap_snapshot p) [] b}"
    using rows_past [of s r None "ap_snapshot p" "[]"] unfolding a(3) by simp
  from pages_cover [OF vs inv assms(1) p a(2,4)] obtain rows where rows: "map av_id vs = map art_id rows"
    "set rows \<subseteq> set (preorder (nw_articles s) a)" "by_path rows"
    and all: "\<And>b. b \<in> set (preorder (nw_articles s) a) \<Longrightarrow> art_id b \<in> art_id ` set rows"
    unfolding covers_def pre by blast
  have "set (preorder (nw_articles s) a) \<subseteq> set rows"
  proof
    fix b assume b: "b \<in> set (preorder (nw_articles s) a)"
    from all [OF b] obtain c where c: "art_id b = art_id c" "c \<in> set rows" by (rule imageE)
    have "b \<in> set (nw_articles s)" "c \<in> set (nw_articles s)" using b subsetD [OF rows(2) c(2)] unfolding pre by simp_all
    then show "b \<in> set rows" using same_row [OF ok _ _ c(1)] c(2) by simp
  qed
  moreover have "by_path (preorder (nw_articles s) a)" using rows_by_path [OF ok, of r None "ap_snapshot p" "[]"] unfolding a(3) by simp
  ultimately have "rows = preorder (nw_articles s) a" using rows(2,3) by (intro sorted_key_unique [of art_path]) auto
  then show ?thesis using p vs rows(1) by blast
qed

theorem paging_ends_witness:
  "\<exists>p vs. thread demo_news 1 None None 2 = Inr p \<and> pages 4 1 2 demo_news p vs demo_news \<and> map av_id vs = [1, 2, 4, 3]"
proof -
  let ?a = "hd (nw_articles demo_news)"
  have "row_of demo_news 1 = Some ?a" "art_parent ?a = None" by code_simp+
  moreover have "map art_id (preorder (nw_articles demo_news) ?a) = [1, 2, 4, 3]" by code_simp
  ultimately show ?thesis using paging_ends [OF _ demo_run, of 1 ?a 2] by simp
qed

end
