(* ===== verification/Identity_Cards.thy ===== *)
theory Identity_Cards
  imports Identity_Objects
begin

section \<open>Cards and bundles\<close>

text \<open>
  \<^verbatim>\<open>crates/hl-identity/src/card.rs\<close> and \<^verbatim>\<open>bundle.rs\<close>: the user card, which carries attestations as they were signed, and
  the bundle of a certificate and the card of the identity that signed it.  \<open>card_sign\<close> answers \<open>None\<close> where the
  assertion on its key fails.
\<close>


subsection \<open>Cards\<close>

definition CARD_DOMAIN :: string where
  "CARD_DOMAIN = ''hl-identity/card/v1''"

definition CARD_MAX_BYTES :: nat where "CARD_MAX_BYTES = 16 * 1024"
definition CARD_NAME_MAX_CHARS :: nat where "CARD_NAME_MAX_CHARS = 32"
definition PROFILE_MAX_BYTES :: nat where "PROFILE_MAX_BYTES = 2048"
definition MAX_ATTESTATIONS :: nat where "MAX_ATTESTATIONS = 8"

record card =
  ca_identity :: bytes
  ca_updated :: u64
  ca_name :: string
  ca_icon :: "u64 option"
  ca_profile :: "string option"
  ca_attestations :: "attestation list"
  ca_vouches :: "cbor_value list"
  ca_links :: "string list"
  ca_successor :: "bytes option"

definition card_new :: "crypto \<Rightarrow> bytes \<Rightarrow> string \<Rightarrow> u64 \<Rightarrow> card" where
  "card_new C key name updated = \<lparr>ca_identity = ed_public C key, ca_updated = updated, ca_name = name, ca_icon = None,
     ca_profile = None, ca_attestations = [], ca_vouches = [], ca_links = [], ca_successor = None\<rparr>"

definition array_field :: "cbor_value list \<Rightarrow> cbor_value option" where
  "array_field vs = (if vs = [] then None else Some (Array vs))"

definition card_unsigned :: "card \<Rightarrow> cbor_value list \<Rightarrow> fields" where
  "card_unsigned c atts =
     [(''v'', Some (Uint VERSION)),
      (''identity'', Some (Bytes (ca_identity c))),
      (''updated'', Some (Uint (ca_updated c))),
      (''name'', Some (Text (ca_name c))),
      (''icon'', map_option Uint (ca_icon c)),
      (''profile'', map_option Text (ca_profile c)),
      (''attestations'', array_field atts),
      (''vouches'', array_field (ca_vouches c)),
      (''links'', array_field (map Text (ca_links c))),
      (''successor'', map_option Bytes (ca_successor c))]"

definition card_check_fields :: "card \<Rightarrow> id_error + unit" where
  "card_check_fields c =
     (let cs = str_chars (ca_name c) in
      if cs = [] \<or> CARD_NAME_MAX_CHARS < length cs then Inl (BadField ''name'')
      else if trim_chars cs \<noteq> cs \<or> trim_chars cs = [] then Inl (BadField ''name'')
      else if \<exists>ch\<in>set cs. is_deceptive ch then Inl (BadField ''name'')
      else if (case ca_profile c of Some p \<Rightarrow> PROFILE_MAX_BYTES < length p | None \<Rightarrow> False) then Inl (BadField ''profile'')
      else Inr ())"

definition card_sign :: "crypto \<Rightarrow> bytes \<Rightarrow> card \<Rightarrow> cbor_value list \<Rightarrow> (id_error + bytes) option" where
  "card_sign C key c atts =
     (if ed_public C key \<noteq> ca_identity c then None
      else Some (bindR (card_check_fields c) (\<lambda>_.
        if MAX_ATTESTATIONS < length atts then Inl (BadField ''attestations'')
        else (let bs = seal (card_unsigned c atts) (sign_domain C key CARD_DOMAIN)
              in if CARD_MAX_BYTES < length bs then Inl TooLarge else Inr bs))))"

definition f_opt_array :: "cbor_value \<Rightarrow> string \<Rightarrow> id_error + cbor_value list" where
  "f_opt_array v key = (case value_get v key of
     Some (Array items) \<Rightarrow> Inr items | Some _ \<Rightarrow> Inl (BadField key) | None \<Rightarrow> Inr [])"

fun read_links :: "cbor_value list \<Rightarrow> id_error + string list" where
  "read_links [] = Inr []"
| "read_links (Text s # vs) = bindR (read_links vs) (\<lambda>ss. Inr (s # ss))"
| "read_links (_ # vs) = Inl (BadField ''links'')"

text \<open>An attestation of a version not read here is left out; any other error is the card's.\<close>

fun read_attestations :: "crypto \<Rightarrow> bytes \<Rightarrow> cbor_value list \<Rightarrow> id_error + attestation list" where
  "read_attestations C identity [] = Inr []"
| "read_attestations C identity (v # vs) =
     (case attestation_from_value C v identity of
        Inr a \<Rightarrow> bindR (read_attestations C identity vs) (\<lambda>as. Inr (a # as))
      | Inl (UnsupportedVersion n) \<Rightarrow> read_attestations C identity vs
      | Inl e \<Rightarrow> Inl e)"

text \<open>The fields but the attestations.\<close>

definition card_read :: "cbor_value \<Rightarrow> bytes \<Rightarrow> string list \<Rightarrow> id_error + card" where
  "card_read v identity links =
     bindR (f_uint v ''updated'') (\<lambda>updated.
     bindR (f_text v ''name'') (\<lambda>name.
     bindR (f_opt_uint v ''icon'') (\<lambda>icon.
     bindR (f_opt_text v ''profile'') (\<lambda>profile.
     bindR (f_opt_array v ''vouches'') (\<lambda>vouches.
     bindR (f_opt_bytes32 v ''successor'') (\<lambda>successor.
       Inr \<lparr>ca_identity = identity, ca_updated = updated, ca_name = name, ca_icon = icon, ca_profile = profile,
            ca_attestations = [], ca_vouches = vouches, ca_links = links, ca_successor = successor\<rparr>))))))"

definition card_parse :: "crypto \<Rightarrow> bytes \<Rightarrow> id_error + card" where
  "card_parse C bs =
     (if CARD_MAX_BYTES < length bs then Inl TooLarge
      else bindR (envelope_open bs) (\<lambda>env.
        let v = env_value env in
        bindR (f_bytes32 v ''identity'') (\<lambda>identity.
        bindR (envelope_verify C env identity CARD_DOMAIN) (\<lambda>_.
        bindR (f_opt_array v ''attestations'') (\<lambda>embedded.
          if MAX_ATTESTATIONS < length embedded then Inl (BadField ''attestations'')
          else bindR (f_opt_array v ''links'') (\<lambda>ls.
               bindR (read_links ls) (\<lambda>links.
               bindR (card_read v identity links) (\<lambda>c.
               bindR (card_check_fields c) (\<lambda>_.
               bindR (read_attestations C identity embedded) (\<lambda>as.
                 Inr (c\<lparr>ca_attestations := as\<rparr>)))))))))))"


subsection \<open>Bundles\<close>

definition BUNDLE_MAX_BYTES :: nat where
  "BUNDLE_MAX_BYTES = CERT_MAX_BYTES + CARD_MAX_BYTES + 256"

record cert_bundle =
  bu_cert :: bytes
  bu_card :: bytes

definition bundle_fields :: "cert_bundle \<Rightarrow> fields" where
  "bundle_fields b = [(''v'', Some (Uint VERSION)), (''card'', Some (Bytes (bu_card b))), (''cert'', Some (Bytes (bu_cert b)))]"

definition bundle_encode :: "cert_bundle \<Rightarrow> bytes" where
  "bundle_encode b = encode (cbor_map (bundle_fields b))"

definition bundle_parse :: "bytes \<Rightarrow> id_error + cert_bundle" where
  "bundle_parse bs =
     (if BUNDLE_MAX_BYTES < length bs then Inl TooLarge
      else bindR (map_err CborErr (decode_canonical bs)) (\<lambda>v.
        if \<not> is_map v then Inl NotAMap
        else bindR (f_uint v ''v'') (\<lambda>version.
          if version \<noteq> VERSION then Inl (UnsupportedVersion version)
          else bindR (f_bytes v ''cert'') (\<lambda>cert.
               bindR (f_bytes v ''card'') (\<lambda>card.
                 Inr \<lparr>bu_cert = cert, bu_card = card\<rparr>)))))"

definition bundle_open :: "crypto \<Rightarrow> cert_bundle \<Rightarrow> id_error + device_cert \<times> card" where
  "bundle_open C b =
     bindR (cert_parse C (bu_cert b)) (\<lambda>cert.
     bindR (card_parse C (bu_card b)) (\<lambda>card.
       if dc_identity cert \<noteq> ca_identity card then Inl KeyMismatch else Inr (cert, card)))"


subsection \<open>What is signed is read back\<close>

text \<open>What Rust's types promise of a card, and that the values it carries are as decoding gives them.\<close>

definition carried_ok :: "cbor_value list \<Rightarrow> bool" where
  "carried_ok vs \<longleftrightarrow> value_ok (Array vs) \<and> map cbor_canon vs = vs"

definition card_typed :: "card \<Rightarrow> bool" where
  "card_typed c \<longleftrightarrow> length (ca_identity c) = 32 \<and> text_ok (ca_name c) \<and> (\<forall>p. ca_profile c = Some p \<longrightarrow> text_ok p)
     \<and> carried_ok (ca_vouches c) \<and> length (ca_links c) < 2 ^ 64 \<and> (\<forall>l\<in>set (ca_links c). text_ok l)
     \<and> (\<forall>s. ca_successor c = Some s \<longrightarrow> length s = 32)"

lemma value_ok_texts: "length ls < 2 ^ 64 \<Longrightarrow> \<forall>l\<in>set ls. text_ok l \<Longrightarrow> value_ok (Array (map Text ls))"
  by (auto simp: value_ok_def text_ok_def MAX_DEPTH_def image_image image_constant_conv)

lemma card_fields_ok:
  assumes "card_typed c" "carried_ok atts"
  shows "fields_ok (card_unsigned c atts)"
proof (rule fields_okI)
  show "list_all (\<lambda>p. case snd p of None \<Rightarrow> True | Some v \<Rightarrow> value_ok v) (card_unsigned c atts)"
    using assms value_ok_texts [of "ca_links c"]
    by (auto simp: card_unsigned_def card_typed_def carried_ok_def array_field_def simp del: value_ok_simps(3) split: option.splits)
      (simp_all add: value_ok_def)
qed (simp_all add: card_unsigned_def object_simps)

lemma read_links_texts: "read_links (map Text ls) = Inr ls"
  by (induction ls) simp_all

lemma f_opt_array_field:
  assumes "value_get v k = map_option cbor_canon (array_field vs)" "map cbor_canon vs = vs"
  shows "f_opt_array v k = Inr vs"
  using assms by (simp add: f_opt_array_def array_field_def split: if_splits)

lemma card_read_back:
  assumes "card_typed c" "carried_ok atts"
    and get: "\<And>k. k \<noteq> ''sig'' \<Longrightarrow> k \<noteq> ''ack'' \<Longrightarrow> value_get v k = map_option cbor_canon (field (card_unsigned c atts) k)"
  shows "f_bytes32 v ''identity'' = Inr (ca_identity c)" "f_opt_array v ''attestations'' = Inr atts"
    "f_opt_array v ''links'' = Inr (map Text (ca_links c))"
    "card_read v (ca_identity c) (ca_links c) = Inr (c\<lparr>ca_attestations := []\<rparr>)"
proof -
  have vouches: "f_opt_array v ''vouches'' = Inr (ca_vouches c)"
    by (rule f_opt_array_field) (use assms(1) get [of "''vouches''"] in \<open>simp_all add: card_unsigned_def field_def card_typed_def carried_ok_def split: option.split\<close>)
  show "f_opt_array v ''attestations'' = Inr atts"
    by (rule f_opt_array_field) (use assms(2) get [of "''attestations''"] in \<open>simp_all add: card_unsigned_def field_def carried_ok_def split: option.split\<close>)
  show "f_opt_array v ''links'' = Inr (map Text (ca_links c))"
    by (rule f_opt_array_field) (use get [of "''links''"] in \<open>simp_all add: card_unsigned_def field_def split: option.split\<close>)
  show "f_bytes32 v ''identity'' = Inr (ca_identity c)"
    using assms(1) get [of "''identity''"] by (simp add: card_unsigned_def field_def f_bytes32_def card_typed_def)
  show "card_read v (ca_identity c) (ca_links c) = Inr (c\<lparr>ca_attestations := []\<rparr>)"
    using assms(1) vouches
    by (cases "ca_icon c"; cases "ca_profile c"; cases "ca_successor c")
      (simp_all add: card_read_def f_uint_def f_text_def f_opt_uint_def f_opt_text_def f_opt_bytes32_def get
        card_unsigned_def field_def card_typed_def)
qed

lemma card_check_only: "card_check_fields (c\<lparr>ca_attestations := as\<rparr>) = card_check_fields c"
  by (simp add: card_check_fields_def)

lemma card_seal_parses:
  assumes C: "crypto_ok C" "length key = 32" and c: "card_typed c" "carried_ok atts" "ca_identity c = ed_public C key"
    and ok: "card_check_fields c = Inr ()" "length atts \<le> MAX_ATTESTATIONS"
      "length (seal (card_unsigned c atts) (sign_domain C key CARD_DOMAIN)) \<le> CARD_MAX_BYTES"
    and as: "read_attestations C (ca_identity c) atts = Inr as"
  shows "card_parse C (seal (card_unsigned c atts) (sign_domain C key CARD_DOMAIN)) = Inr (c\<lparr>ca_attestations := as\<rparr>)"
proof -
  let ?fs = "card_unsigned c atts" and ?sign = "sign_domain C key CARD_DOMAIN"
  let ?s = "?sign (encode (cbor_map ?fs))"
  note fs = card_fields_ok [OF c(1,2)]
  have len: "length ?s = 64" by (rule length_sign_domain [OF C])
  have sigs: "signatures_ok [(''sig'', ?s)]" using len by (simp add: signatures_ok_def)
  let ?v = "sealed_value ?fs [(''sig'', ?s)]"
  have get: "value_get ?v k = map_option cbor_canon (field ?fs k)" if "k \<noteq> ''sig''" "k \<noteq> ''ack''" for k
    using get_sealed_field [OF fields_ok_plain [OF fs] sigs, of k] that by (simp add: sealed_value_def)
  note read = card_read_back [OF c(1,2) get]
  have "envelope_verify C \<lparr>env_value = ?v, env_v = VERSION, env_signed_bytes = encode (cbor_map ?fs), env_sig = ?s\<rparr> (ca_identity c) CARD_DOMAIN = Inr ()"
    using verify_sign_domain [OF C] c(3) by (simp add: envelope_verify_def)
  then show ?thesis
    using ok as envelope_open_seal [OF fs, of ?sign, OF len] read read_links_texts card_check_only [of "[]" c]
    by (simp add: card_parse_def Let_def not_less)
qed

text \<open>A card that \<open>sign\<close> accepts parses back to the card, with the attestations it was given to carry as they verify;
  what \<open>parse\<close> bounds, \<open>sign\<close> bounds too, so no card is signed that no server will read.\<close>

theorem card_roundtrip:
  assumes "crypto_ok C" "length key = 32" "card_typed c" "carried_ok atts"
    and "card_sign C key c atts = Some (Inr bs)" "read_attestations C (ca_identity c) atts = Inr as"
  shows "card_parse C bs = Inr (c\<lparr>ca_attestations := as\<rparr>)"
proof -
  have "ca_identity c = ed_public C key" "card_check_fields c = Inr ()" "length atts \<le> MAX_ATTESTATIONS"
    "bs = seal (card_unsigned c atts) (sign_domain C key CARD_DOMAIN)" "length bs \<le> CARD_MAX_BYTES"
    using assms(5) by (auto simp: card_sign_def Let_def result_simps split: if_splits)
  then show ?thesis using card_seal_parses [OF assms(1-4)] assms(6) by simp
qed

definition sample_card :: card where
  "sample_card = \<lparr>ca_identity = replicate 32 7, ca_updated = 40, ca_name = ''Alice'', ca_icon = Some 4, ca_profile = None,
     ca_attestations = [], ca_vouches = [], ca_links = [''https://alice.example''], ca_successor = None\<rparr>"

lemma sample_card_ok: "card_typed sample_card" "carried_ok []" "card_check_fields sample_card = Inr ()"
  by (simp_all add: sample_card_def card_typed_def carried_ok_def value_ok_def MAX_DEPTH_def text_ok_def str_ascii_valid
      str_ascii_def card_check_fields_def str_chars_def str_ascii_chars trim_chars_def char_is_whitespace_def
      CARD_NAME_MAX_CHARS_def visible_ascii_not_deceptive)

theorem card_roundtrip_witness:
  "card_parse sample_crypto (the (map_option projr (card_sign sample_crypto (replicate 32 7) sample_card []))) = Inr sample_card"
proof -
  let ?bs = "seal (card_unsigned sample_card []) (sign_domain sample_crypto (replicate 32 7) CARD_DOMAIN)"
  have size: "length ?bs \<le> CARD_MAX_BYTES" by code_simp
  have "card_sign sample_crypto (replicate 32 7) sample_card [] = Some (Inr ?bs)"
    using sample_card_ok(3) size
    by (simp add: card_sign_def Let_def sample_card_def sample_crypto_def MAX_ATTESTATIONS_def not_less)
  moreover from card_roundtrip [OF sample_crypto_ok _ sample_card_ok(1,2) this, of "[]"]
  have "card_parse sample_crypto ?bs = Inr sample_card" by (simp add: sample_card_def)
  ultimately show ?thesis by simp
qed

lemma field_size_Bytes_le: "length k < 24 \<Longrightarrow> field_size (k, Some (Bytes b)) \<le> length k + length b + 10"
  using length_put_head_le [of 2 "word_of_nat (length b)"] length_put_head_tiny [of "length k" 3] by (simp add: field_size_def)

lemma bundle_fields_ok: "length (bu_cert b) < 2 ^ 64 \<Longrightarrow> length (bu_card b) < 2 ^ 64 \<Longrightarrow> fields_ok (bundle_fields b)"
  by (rule fields_okI) (simp_all add: bundle_fields_def object_simps)

text \<open>A bundle of a certificate and a card within their bounds parses back to itself.\<close>

lemma bundle_roundtrip:
  assumes "length (bu_cert b) \<le> CERT_MAX_BYTES" "length (bu_card b) \<le> CARD_MAX_BYTES"
  shows "bundle_parse (bundle_encode b) = Inr b"
proof -
  have none: "signatures_ok []" by (simp add: signatures_ok_def)
  have fs: "fields_ok (bundle_fields b)" using assms by (intro bundle_fields_ok) (simp_all add: CERT_MAX_BYTES_def CARD_MAX_BYTES_def)
  let ?v = "sealed_value (bundle_fields b) []"
  have enc: "bundle_encode b = encode (Map (sealed_entries (bundle_fields b) []))"
    by (simp add: bundle_encode_def cbor_map_entries sealed_entries_def del: encode.simps)
  then have "decode_canonical (bundle_encode b) = Inr ?v"
    using decode_sealed [OF fields_ok_plain [OF fs] none] by (simp add: sealed_value_def)
  moreover have "value_get ?v k = map_option cbor_canon (field (bundle_fields b) k)" for k
    using get_sealed_field [OF fields_ok_plain [OF fs] none, of k] by (simp add: sealed_value_def)
  moreover have "length (bundle_encode b) \<le> BUNDLE_MAX_BYTES"
    using length_sealed_entries [OF none, of "bundle_fields b"] field_size_Bytes_le [of "''card''" "bu_card b"]
      field_size_Bytes_le [of "''cert''" "bu_cert b"] field_size_Uint [of "''v''" 11 VERSION] assms
    by (simp add: enc bundle_fields_def BUNDLE_MAX_BYTES_def)
  ultimately show ?thesis
    by (simp add: bundle_parse_def f_uint_def f_bytes_def bundle_fields_def field_def not_less)
qed

end
