(* ===== verification/Identity_Proofs.thy ===== *)
theory Identity_Proofs
  imports Identity_Cards
begin

section \<open>Login proofs, challenges and enrolment\<close>

text \<open>
  \<^verbatim>\<open>crates/hl-identity/src/proof.rs\<close>, \<^verbatim>\<open>enroll.rs\<close> and \<open>verify_login\<close> of \<^verbatim>\<open>lib.rs\<close>: a device's answer to a server's
  challenge, the server's signed challenge, the request to be certified, and the sequence of checks that admits a login.

  Hosts are compared as the crate \<^verbatim>\<open>url\<close> writes them.  Its parser is a parameter: \<open>U s\<close> is the host and the port that
  \<open>Url::parse\<close> finds in \<open>s\<close>, with \<open>None\<close> where it fails.  \<open>url_ok\<close> states what its documentation promises of the URLs the
  program gives it, \<open>http://\<close> and an authority that holds none of the characters that end one: the host of such a URL is
  written in ASCII so that parsing it again in one gives it, and the scheme's own port, 80, is not reported.  The MAC of a pairing tag, from
  the crate \<^verbatim>\<open>hmac\<close>, is a parameter too.
\<close>

type_synonym url_parser = "string \<Rightarrow> (string option \<times> u16 option) option"

definition http_url :: "string \<Rightarrow> string" where
  "http_url authority = ''http://'' @ authority @ ''/''"

definition host_port :: "string \<Rightarrow> u16 \<Rightarrow> string" where
  "host_port host port = host @ '':'' @ decimal (unat port)"

definition not_authority :: "string \<Rightarrow> bool" where
  "not_authority s \<longleftrightarrow> (\<exists>c\<in>set s. c \<in> {CHR ''/'', CHR 0x5C, CHR ''?'', CHR ''#'', CHR ''@''})"

definition url_ok :: "url_parser \<Rightarrow> bool" where
  "url_ok U \<longleftrightarrow> (\<forall>a h p. a \<noteq> [] \<and> \<not> not_authority a \<and> U (http_url a) = Some (Some h, p) \<and> h \<noteq> [] \<longrightarrow>
     str_ascii h \<and> length h < 2 ^ 32 \<and> \<not> not_authority h \<and> p \<noteq> Some 80
     \<and> U (http_url h) = Some (Some h, None) \<and> (\<forall>q. q \<noteq> 80 \<longrightarrow> U (http_url (host_port h q)) = Some (Some h, Some q)))"

definition canonical_host :: "url_parser \<Rightarrow> string \<Rightarrow> string option" where
  "canonical_host U authority =
     (if authority = [] \<or> not_authority authority then None
      else case U (http_url authority) of
        None \<Rightarrow> None
      | Some (None, _) \<Rightarrow> None
      | Some (Some host, port) \<Rightarrow>
          if host = [] then None
          else Some (case port of Some p \<Rightarrow> if p \<noteq> 443 then host_port host p else host | None \<Rightarrow> host))"

definition host_field :: "url_parser \<Rightarrow> cbor_value \<Rightarrow> id_error + string" where
  "host_field U v = bindR (f_text v ''host'') (\<lambda>host.
     if canonical_host U host \<noteq> Some host then Inl (BadField ''host'') else Inr host)"

definition canonical :: "url_parser \<Rightarrow> string \<Rightarrow> id_error + string" where
  "canonical U host = (case canonical_host U host of Some h \<Rightarrow> Inr h | None \<Rightarrow> Inl (BadField ''host''))"


subsection \<open>Answers\<close>

definition LOGIN_DOMAIN :: string where "LOGIN_DOMAIN = ''hl-identity/login/v1''"
definition SERVER_DOMAIN :: string where "SERVER_DOMAIN = ''hl-identity/server-challenge/v1''"
definition TRTP_SERVER_DOMAIN :: string where "TRTP_SERVER_DOMAIN = ''hl-identity/server-challenge-trtp/v1''"
definition DEVICE_DOMAIN :: string where "DEVICE_DOMAIN = ''hl-identity/device-proof/v1''"
definition HOST_VERSION :: u64 where "HOST_VERSION = 2"

record answer =
  an_challenge :: bytes
  an_server_key :: bytes
  an_device :: bytes
  an_time :: u64

definition answer_read :: "cbor_value \<Rightarrow> id_error + answer" where
  "answer_read v =
     bindR (f_bytes32 v ''challenge'') (\<lambda>challenge.
     bindR (f_bytes32 v ''server_key'') (\<lambda>server_key.
     bindR (f_bytes32 v ''device'') (\<lambda>device.
     bindR (f_uint v ''time'') (\<lambda>time.
       Inr \<lparr>an_challenge = challenge, an_server_key = server_key, an_device = device, an_time = time\<rparr>))))"

definition answer_check :: "answer \<Rightarrow> bytes \<Rightarrow> bytes \<Rightarrow> u64 \<Rightarrow> u64 \<Rightarrow> bool \<Rightarrow> id_error + unit" where
  "answer_check a challenge server_key now skew host_ok =
     (if an_challenge a \<noteq> challenge \<or> an_server_key a \<noteq> server_key then Inl ChallengeMismatch
      else if \<not> host_ok then Inl HostMismatch
      else if skew < abs_diff (an_time a) now then Inl ClockSkew
      else Inr ())"

definition answer_fields :: "u64 \<Rightarrow> bytes \<Rightarrow> bytes \<Rightarrow> bytes \<Rightarrow> string option \<Rightarrow> u64 \<Rightarrow> bytes option \<Rightarrow> fields" where
  "answer_fields v device challenge server_key host time exporter =
     [(''v'', Some (Uint v)),
      (''challenge'', Some (Bytes challenge)),
      (''server_key'', Some (Bytes server_key)),
      (''host'', map_option Text host),
      (''device'', Some (Bytes device)),
      (''time'', Some (Uint time)),
      (''exporter'', map_option Bytes exporter)]"

definition seal_answer :: "crypto \<Rightarrow> string \<Rightarrow> u64 \<Rightarrow> bytes \<Rightarrow> bytes \<Rightarrow> bytes \<Rightarrow> string option \<Rightarrow> u64 \<Rightarrow> bytes option \<Rightarrow> bytes" where
  "seal_answer C domain v device challenge server_key host time exporter =
     seal (answer_fields v (ed_public C device) challenge server_key host time exporter) (sign_domain C device domain)"

record login_proof =
  lp_challenge :: bytes
  lp_server_key :: bytes
  lp_host :: "string option"
  lp_device :: bytes
  lp_time :: u64

definition login_seal :: "crypto \<Rightarrow> bytes \<Rightarrow> bytes \<Rightarrow> bytes \<Rightarrow> string option \<Rightarrow> u64 \<Rightarrow> bytes" where
  "login_seal C device challenge server_key host time =
     seal_answer C LOGIN_DOMAIN (if host \<noteq> None then HOST_VERSION else 1) device challenge server_key host time None"

definition login_sign :: "crypto \<Rightarrow> url_parser \<Rightarrow> bytes \<Rightarrow> bytes \<Rightarrow> bytes \<Rightarrow> string \<Rightarrow> u64 \<Rightarrow> id_error + bytes" where
  "login_sign C U device challenge server_key host time =
     bindR (canonical U host) (\<lambda>host. Inr (login_seal C device challenge server_key (Some host) time))"

definition login_sign_v1 :: "crypto \<Rightarrow> bytes \<Rightarrow> bytes \<Rightarrow> bytes \<Rightarrow> u64 \<Rightarrow> bytes" where
  "login_sign_v1 C device challenge server_key time = login_seal C device challenge server_key None time"

definition login_parse :: "crypto \<Rightarrow> url_parser \<Rightarrow> bytes \<Rightarrow> id_error + login_proof" where
  "login_parse C U bs =
     bindR (envelope_open_upto bs HOST_VERSION) (\<lambda>env.
     bindR (answer_read (env_value env)) (\<lambda>a.
     bindR (if env_v env = HOST_VERSION then bindR (host_field U (env_value env)) (\<lambda>h. Inr (Some h)) else Inr None) (\<lambda>host.
     bindR (envelope_verify C env (an_device a) LOGIN_DOMAIN) (\<lambda>_.
       Inr \<lparr>lp_challenge = an_challenge a, lp_server_key = an_server_key a, lp_host = host, lp_device = an_device a,
            lp_time = an_time a\<rparr>))))"

definition login_check :: "url_parser \<Rightarrow> login_proof \<Rightarrow> bytes \<Rightarrow> bytes \<Rightarrow> string option \<Rightarrow> u64 \<Rightarrow> u64 \<Rightarrow> id_error + unit" where
  "login_check U p challenge server_key host now skew =
     answer_check \<lparr>an_challenge = lp_challenge p, an_server_key = lp_server_key p, an_device = lp_device p, an_time = lp_time p\<rparr>
       challenge server_key now skew
       (case lp_host p of
          Some signed_for \<Rightarrow> (case host of None \<Rightarrow> False | Some h \<Rightarrow> canonical_host U h = Some signed_for)
        | None \<Rightarrow> True)"

record device_proof =
  dp_challenge :: bytes
  dp_server_key :: bytes
  dp_host :: string
  dp_device :: bytes
  dp_time :: u64
  dp_exporter :: "bytes option"

definition device_sign :: "crypto \<Rightarrow> url_parser \<Rightarrow> bytes \<Rightarrow> bytes \<Rightarrow> bytes \<Rightarrow> string \<Rightarrow> u64 \<Rightarrow> bytes option \<Rightarrow> id_error + bytes" where
  "device_sign C U device challenge server_key host time exporter =
     bindR (canonical U host) (\<lambda>host. Inr (seal_answer C DEVICE_DOMAIN VERSION device challenge server_key (Some host) time exporter))"

definition device_parse :: "crypto \<Rightarrow> url_parser \<Rightarrow> bytes \<Rightarrow> id_error + device_proof" where
  "device_parse C U bs =
     bindR (envelope_open bs) (\<lambda>env.
     bindR (answer_read (env_value env)) (\<lambda>a.
     bindR (host_field U (env_value env)) (\<lambda>host.
     bindR (f_opt_bytes32 (env_value env) ''exporter'') (\<lambda>exporter.
     bindR (envelope_verify C env (an_device a) DEVICE_DOMAIN) (\<lambda>_.
       Inr \<lparr>dp_challenge = an_challenge a, dp_server_key = an_server_key a, dp_host = host, dp_device = an_device a,
            dp_time = an_time a, dp_exporter = exporter\<rparr>)))))"

definition device_check :: "url_parser \<Rightarrow> device_proof \<Rightarrow> bytes \<Rightarrow> bytes \<Rightarrow> string \<Rightarrow> bytes option \<Rightarrow> u64 \<Rightarrow> u64 \<Rightarrow> id_error + unit" where
  "device_check U p challenge server_key host exporter now skew =
     (if dp_exporter p \<noteq> exporter then Inl ChallengeMismatch
      else answer_check \<lparr>an_challenge = dp_challenge p, an_server_key = dp_server_key p, an_device = dp_device p, an_time = dp_time p\<rparr>
        challenge server_key now skew (canonical_host U host = Some (dp_host p)))"


subsection \<open>Server challenges\<close>

record server_challenge =
  sc_challenge :: bytes
  sc_server_key :: bytes
  sc_host :: string
  sc_expires :: u64
  sc_next :: "bytes option"

definition challenge_unsigned :: "server_challenge \<Rightarrow> fields" where
  "challenge_unsigned c =
     [(''v'', Some (Uint VERSION)),
      (''challenge'', Some (Bytes (sc_challenge c))),
      (''server_key'', Some (Bytes (sc_server_key c))),
      (''host'', Some (Text (sc_host c))),
      (''expires'', Some (Uint (sc_expires c))),
      (''next'', map_option Bytes (sc_next c))]"

definition challenge_sign_under :: "crypto \<Rightarrow> url_parser \<Rightarrow> string \<Rightarrow> bytes \<Rightarrow> bytes \<Rightarrow> string \<Rightarrow> u64 \<Rightarrow> bytes option \<Rightarrow> id_error + bytes" where
  "challenge_sign_under C U domain key challenge host expires nxt =
     bindR (canonical U host) (\<lambda>host.
       Inr (seal (challenge_unsigned \<lparr>sc_challenge = challenge, sc_server_key = ed_public C key, sc_host = host,
         sc_expires = expires, sc_next = nxt\<rparr>) (sign_domain C key domain)))"

definition challenge_sign :: "crypto \<Rightarrow> url_parser \<Rightarrow> bytes \<Rightarrow> bytes \<Rightarrow> string \<Rightarrow> u64 \<Rightarrow> bytes option \<Rightarrow> id_error + bytes" where
  "challenge_sign C U = challenge_sign_under C U SERVER_DOMAIN"

definition challenge_sign_trtp :: "crypto \<Rightarrow> url_parser \<Rightarrow> bytes \<Rightarrow> bytes \<Rightarrow> string \<Rightarrow> u64 \<Rightarrow> bytes option \<Rightarrow> id_error + bytes" where
  "challenge_sign_trtp C U = challenge_sign_under C U TRTP_SERVER_DOMAIN"

definition challenge_read :: "url_parser \<Rightarrow> cbor_value \<Rightarrow> id_error + server_challenge" where
  "challenge_read U v =
     bindR (f_bytes32 v ''challenge'') (\<lambda>challenge.
     bindR (f_bytes32 v ''server_key'') (\<lambda>server_key.
     bindR (host_field U v) (\<lambda>host.
     bindR (f_uint v ''expires'') (\<lambda>expires.
     bindR (f_opt_bytes32 v ''next'') (\<lambda>nxt.
       Inr \<lparr>sc_challenge = challenge, sc_server_key = server_key, sc_host = host, sc_expires = expires, sc_next = nxt\<rparr>)))))"

definition challenge_parse_under :: "crypto \<Rightarrow> url_parser \<Rightarrow> bytes \<Rightarrow> string \<Rightarrow> id_error + server_challenge" where
  "challenge_parse_under C U bs domain =
     bindR (envelope_open bs) (\<lambda>env.
     bindR (challenge_read U (env_value env)) (\<lambda>c.
     bindR (envelope_verify C env (sc_server_key c) domain) (\<lambda>_. Inr c)))"

definition challenge_parse :: "crypto \<Rightarrow> url_parser \<Rightarrow> bytes \<Rightarrow> id_error + server_challenge" where
  "challenge_parse C U bs = challenge_parse_under C U bs SERVER_DOMAIN"

definition challenge_parse_trtp :: "crypto \<Rightarrow> url_parser \<Rightarrow> bytes \<Rightarrow> id_error + server_challenge" where
  "challenge_parse_trtp C U bs = challenge_parse_under C U bs TRTP_SERVER_DOMAIN"

definition challenge_check :: "url_parser \<Rightarrow> server_challenge \<Rightarrow> bytes \<Rightarrow> bytes \<Rightarrow> string \<Rightarrow> u64 \<Rightarrow> u64 \<Rightarrow> id_error + unit" where
  "challenge_check U c challenge server_key host now skew =
     (if sc_challenge c \<noteq> challenge \<or> sc_server_key c \<noteq> server_key then Inl ChallengeMismatch
      else if canonical_host U host \<noteq> Some (sc_host c) then Inl HostMismatch
      else if sat_add (sc_expires c) skew < now then Inl Expired
      else Inr ())"


subsection \<open>Enrolment\<close>

definition ENROLL_DOMAIN :: string where "ENROLL_DOMAIN = ''hl-identity/enroll-request/v1''"
definition ENROLL_MAX_BYTES :: nat where "ENROLL_MAX_BYTES = 8 * 1024"
definition CLAIM_DOMAIN :: string where "CLAIM_DOMAIN = ''hl-identity/enroll-session/v1''"
definition MAX_CLAIM_BYTES :: nat where "MAX_CLAIM_BYTES = 256"

type_synonym mac = "bytes \<Rightarrow> bytes \<Rightarrow> bytes"

definition pair_tag :: "mac \<Rightarrow> bytes \<Rightarrow> bytes \<Rightarrow> bytes" where
  "pair_tag H secret device = H secret device"

record enroll_request =
  er_device :: bytes
  er_device_enc :: bytes
  er_name :: "string option"
  er_caps :: "u64 option"
  er_days :: "u64 option"
  er_time :: u64
  er_prev :: "bytes option"
  er_pair :: "bytes option"

text \<open>The device's X25519 public key is an argument.\<close>

definition enroll_new :: "crypto \<Rightarrow> bytes \<Rightarrow> bytes \<Rightarrow> u64 \<Rightarrow> enroll_request" where
  "enroll_new C device device_enc time = \<lparr>er_device = ed_public C device, er_device_enc = device_enc, er_name = None, er_caps = None,
     er_days = None, er_time = time, er_prev = None, er_pair = None\<rparr>"

definition enroll_unsigned :: "enroll_request \<Rightarrow> fields" where
  "enroll_unsigned r =
     [(''v'', Some (Uint VERSION)),
      (''device'', Some (Bytes (er_device r))),
      (''device_enc'', Some (Bytes (er_device_enc r))),
      (''name'', map_option Text (er_name r)),
      (''caps'', map_option Uint (er_caps r)),
      (''days'', map_option Uint (er_days r)),
      (''time'', Some (Uint (er_time r))),
      (''prev'', map_option Bytes (er_prev r)),
      (''pair'', map_option Bytes (er_pair r))]"

definition enroll_sign :: "crypto \<Rightarrow> bytes \<Rightarrow> enroll_request \<Rightarrow> bytes option" where
  "enroll_sign C device r =
     (if ed_public C device \<noteq> er_device r then None else Some (seal (enroll_unsigned r) (sign_domain C device ENROLL_DOMAIN)))"

definition enroll_from_envelope :: "cbor_value \<Rightarrow> id_error + enroll_request" where
  "enroll_from_envelope v =
     bindR (f_bytes32 v ''device'') (\<lambda>device.
     bindR (f_bytes32 v ''device_enc'') (\<lambda>device_enc.
     bindR (f_opt_text v ''name'') (\<lambda>name.
     bindR (f_opt_uint v ''caps'') (\<lambda>caps.
     bindR (f_opt_uint v ''days'') (\<lambda>days.
     bindR (f_uint v ''time'') (\<lambda>time.
     bindR (f_opt_bytes v ''prev'') (\<lambda>prev.
     bindR (f_opt_bytes32 v ''pair'') (\<lambda>pair.
       Inr \<lparr>er_device = device, er_device_enc = device_enc, er_name = name, er_caps = caps, er_days = days,
            er_time = time, er_prev = prev, er_pair = pair\<rparr>))))))))"

definition enroll_check_fields :: "enroll_request \<Rightarrow> id_error + unit" where
  "enroll_check_fields r =
     (if (case er_name r of None \<Rightarrow> False | Some n \<Rightarrow>
            (let cs = str_chars n in CERT_NAME_MAX_CHARS < length cs \<or> trim_chars cs \<noteq> cs \<or> trim_chars cs = []
               \<or> (\<exists>ch\<in>set cs. is_deceptive ch)))
      then Inl (BadField ''name'')
      else if (case er_prev r of None \<Rightarrow> False | Some p \<Rightarrow> CERT_MAX_BYTES < length p) then Inl (BadField ''prev'')
      else Inr ())"

definition enroll_parse :: "crypto \<Rightarrow> bytes \<Rightarrow> id_error + enroll_request" where
  "enroll_parse C bs =
     (if ENROLL_MAX_BYTES < length bs then Inl TooLarge
      else bindR (envelope_open bs) (\<lambda>env.
           bindR (enroll_from_envelope (env_value env)) (\<lambda>r.
           bindR (enroll_check_fields r) (\<lambda>_.
           bindR (envelope_verify C env (er_device r) ENROLL_DOMAIN) (\<lambda>_. Inr r)))))"

definition prev_cert :: "crypto \<Rightarrow> enroll_request \<Rightarrow> (id_error + device_cert) option" where
  "prev_cert C r = map_option (\<lambda>prev. bindR (cert_parse C prev) (\<lambda>c.
     if dc_device c = er_device r then Inr c else Inl KeyMismatch)) (er_prev r)"

definition pair_matches :: "mac \<Rightarrow> enroll_request \<Rightarrow> bytes \<Rightarrow> bool" where
  "pair_matches H r secret = (case er_pair r of None \<Rightarrow> False | Some tag \<Rightarrow> H secret (er_device r) = tag)"

record session_claim =
  sl_identity :: bytes
  sl_session :: bytes

definition claim_new :: "bytes \<Rightarrow> bytes \<Rightarrow> session_claim" where
  "claim_new identity session = \<lparr>sl_identity = identity, sl_session = session\<rparr>"

definition claim_unsigned :: "session_claim \<Rightarrow> fields" where
  "claim_unsigned c =
     [(''v'', Some (Uint VERSION)), (''identity'', Some (Bytes (sl_identity c))), (''session'', Some (Bytes (sl_session c)))]"

definition claim_sign :: "crypto \<Rightarrow> bytes \<Rightarrow> session_claim \<Rightarrow> bytes option" where
  "claim_sign C key c =
     (if ed_public C key \<noteq> sl_identity c then None else Some (seal (claim_unsigned c) (sign_domain C key CLAIM_DOMAIN)))"

definition claim_read :: "cbor_value \<Rightarrow> id_error + session_claim" where
  "claim_read v = bindR (f_bytes32 v ''identity'') (\<lambda>identity. bindR (f_bytes32 v ''session'') (\<lambda>session.
     Inr \<lparr>sl_identity = identity, sl_session = session\<rparr>))"

definition claim_parse :: "crypto \<Rightarrow> bytes \<Rightarrow> bytes \<Rightarrow> id_error + session_claim" where
  "claim_parse C bs session =
     (if MAX_CLAIM_BYTES < length bs then Inl TooLarge
      else bindR (envelope_open bs) (\<lambda>env.
           bindR (claim_read (env_value env)) (\<lambda>c.
             if sl_session c \<noteq> session then Inl (BadField ''session'')
             else bindR (envelope_verify C env (sl_identity c) CLAIM_DOMAIN) (\<lambda>_. Inr c))))"

definition session_key :: "crypto \<Rightarrow> string \<Rightarrow> bytes" where
  "session_key C secret = sha256 C (str_bytes secret)"


subsection \<open>Admitting a login\<close>

record login_context =
  lx_challenge :: bytes
  lx_server_key :: bytes
  lx_host :: "string option"
  lx_now :: u64
  lx_skew :: u64

record verified_login =
  vl_card :: card
  vl_cert :: device_cert
  vl_proof :: login_proof

definition vl_identity :: "verified_login \<Rightarrow> bytes" where "vl_identity l = dc_identity (vl_cert l)"
definition vl_device :: "verified_login \<Rightarrow> bytes" where "vl_device l = dc_device (vl_cert l)"
definition vl_fingerprint :: "crypto \<Rightarrow> verified_login \<Rightarrow> bytes" where "vl_fingerprint C l = fingerprint_of C (dc_identity (vl_cert l))"

definition verify_login :: "crypto \<Rightarrow> url_parser \<Rightarrow> bytes \<Rightarrow> bytes \<Rightarrow> bytes \<Rightarrow> login_context \<Rightarrow> id_error + verified_login" where
  "verify_login C U card_bytes cert_bytes proof_bytes x =
     bindR (login_parse C U proof_bytes) (\<lambda>proof.
     bindR (login_check U proof (lx_challenge x) (lx_server_key x) (lx_host x) (lx_now x) (lx_skew x)) (\<lambda>_.
     bindR (cert_parse C cert_bytes) (\<lambda>cert.
       if dc_device cert \<noteq> lp_device proof then Inl KeyMismatch
       else bindR (cert_check_valid cert (lx_now x) (lx_skew x)) (\<lambda>_.
            bindR (cert_require cert cap_LOGIN) (\<lambda>_.
            bindR (card_parse C card_bytes) (\<lambda>card.
              if ca_identity card \<noteq> dc_identity cert then Inl KeyMismatch
              else Inr \<lparr>vl_card = card, vl_cert = cert, vl_proof = proof\<rparr>))))))"

definition verify_presented :: "crypto \<Rightarrow> bytes \<Rightarrow> bytes \<Rightarrow> bytes \<Rightarrow> u64 \<Rightarrow> u64 \<Rightarrow> id_error + card \<times> device_cert" where
  "verify_presented C card_bytes cert_bytes device now skew =
     bindR (cert_parse C cert_bytes) (\<lambda>cert.
       if dc_device cert \<noteq> device then Inl KeyMismatch
       else bindR (cert_check_valid cert now skew) (\<lambda>_.
            bindR (cert_require cert cap_LOGIN) (\<lambda>_.
            bindR (card_parse C card_bytes) (\<lambda>card.
              if ca_identity card \<noteq> dc_identity cert then Inl KeyMismatch else Inr (card, cert)))))"


subsection \<open>Hosts\<close>

lemma decimal_digits: "c \<in> set (decimal n) \<Longrightarrow> of_char c \<in> {48..<(58 :: nat)}"
proof (induction n rule: decimal.induct)
  case (1 n)
  have "of_char (char_of (48 + n mod 10) :: char) = (48 + n mod 10 :: nat)" by simp
  then show ?case using 1 by (subst (asm) (2) decimal.simps) (auto split: if_splits)
qed

lemma decimal_ascii: "str_ascii (decimal n)"
  using decimal_digits by (fastforce simp: str_ascii_def)

lemma decimal_length: "length (decimal n) \<le> Suc n"
proof (induction n rule: decimal.induct)
  case (1 n)
  show ?case
  proof (cases "n < 10")
    case False
    then have "length (decimal n) = Suc (length (decimal (n div 10)))" by (subst decimal.simps) simp
    then show ?thesis using 1 False by simp
  qed (subst decimal.simps, simp)
qed

lemma decimal_authority: "\<not> not_authority (decimal n)"
proof -
  have "c \<notin> {CHR ''/'', CHR 0x5C, CHR ''?'', CHR ''#'', CHR ''@''}" if "c \<in> set (decimal n)" for c
    using decimal_digits [OF that] by auto
  then show ?thesis by (auto simp: not_authority_def)
qed

lemma canonical_hostE:
  assumes "url_ok U" "canonical_host U a = Some h"
  obtains "canonical_host U h = Some h" "text_ok h" "str_ascii h" "length h < 2 ^ 33"
proof -
  obtain host port where u: "U (http_url a) = Some (Some host, port)" "host \<noteq> []" "a \<noteq> []" "\<not> not_authority a"
    "h = (case port of Some p \<Rightarrow> if p \<noteq> 443 then host_port host p else host | None \<Rightarrow> host)"
    using assms(2) by (auto simp: canonical_host_def split: if_splits option.splits prod.splits)
  have ok: "str_ascii host" "length host < 2 ^ 32" "\<not> not_authority host" "port \<noteq> Some 80" "U (http_url host) = Some (Some host, None)"
    "\<And>q. q \<noteq> 80 \<Longrightarrow> U (http_url (host_port host q)) = Some (Some host, Some q)"
    using assms(1) u(1,2,3,4) unfolding url_ok_def by blast+
  show ?thesis
  proof (cases "\<exists>p. port = Some p \<and> p \<noteq> 443")
    case False
    then have "h = host" using u(5) by (auto split: option.splits)
    then show ?thesis using ok u(2) by (intro that) (simp_all add: canonical_host_def text_ok_def str_ascii_valid)
  next
    case True
    then obtain p where p: "port = Some p" "p \<noteq> 443" "h = host_port host p" using u(5) by auto
    have "p \<noteq> 80" using ok(4) p(1) by simp
    have ascii: "str_ascii h" using ok(1) decimal_ascii [of "unat p"] by (auto simp: p(3) host_port_def str_ascii_def)
    have "\<not> not_authority h" using ok(3) decimal_authority [of "unat p"] by (auto simp: p(3) host_port_def not_authority_def)
    moreover have "unat p < 65536" using unsigned_less [of p, where 'a = nat] by simp
    then have "length h < 2 ^ 33" using decimal_length [of "unat p"] ok(2) by (simp add: p(3) host_port_def)
    moreover have "canonical_host U h = Some h" if "\<not> not_authority h"
      using that ok(6) [OF \<open>p \<noteq> 80\<close>] p(2,3) u(2) by (simp add: canonical_host_def) (simp add: host_port_def)
    ultimately show ?thesis using ascii by (intro that) (simp_all add: text_ok_def str_ascii_valid)
  qed
qed


subsection \<open>Signing and reading\<close>

definition answer_typed :: "bytes \<Rightarrow> bytes \<Rightarrow> bytes \<Rightarrow> string option \<Rightarrow> bytes option \<Rightarrow> bool" where
  "answer_typed device challenge server_key host exporter \<longleftrightarrow> length device = 32 \<and> length challenge = 32 \<and> length server_key = 32
     \<and> (\<forall>h. host = Some h \<longrightarrow> text_ok h) \<and> (\<forall>e. exporter = Some e \<longrightarrow> length e = 32)"

lemma answer_fields_plain:
  assumes "answer_typed device challenge server_key host exporter"
  shows "fields_plain (answer_fields v device challenge server_key host time exporter)"
proof -
  have "fields_ok (answer_fields VERSION device challenge server_key host time exporter)"
    using assms by (intro fields_okI) (auto simp: answer_fields_def answer_typed_def object_simps split: option.splits)
  then show ?thesis by (auto simp: fields_ok_def fields_plain_def answer_fields_def)
qed

lemma open_answer:
  assumes C: "crypto_ok C" "length key = 32" and typed: "answer_typed (ed_public C key) challenge server_key host exporter"
    and v: "v \<noteq> 0" "v \<le> newest"
  obtains env where "envelope_open_upto (seal_answer C domain v key challenge server_key host time exporter) newest = Inr env"
    "env_v env = v" "answer_read (env_value env)
       = Inr \<lparr>an_challenge = challenge, an_server_key = server_key, an_device = ed_public C key, an_time = time\<rparr>"
    "value_get (env_value env) ''host'' = map_option Text host" "value_get (env_value env) ''exporter'' = map_option Bytes exporter"
    "envelope_verify C env (ed_public C key) domain = Inr ()"
proof -
  let ?fs = "answer_fields v (ed_public C key) challenge server_key host time exporter" and ?sign = "sign_domain C key domain"
  let ?s = "?sign (encode (cbor_map ?fs))"
  let ?v = "sealed_value ?fs [(''sig'', ?s)]"
  note plain = answer_fields_plain [OF typed]
  have len: "length ?s = 64" by (rule length_sign_domain [OF C])
  have sigs: "signatures_ok [(''sig'', ?s)]" using len by (simp add: signatures_ok_def)
  have get: "value_get ?v k = map_option cbor_canon (field ?fs k)" if "k \<noteq> ''sig''" for k
    using get_sealed_field [OF plain sigs, of k] that by (simp add: sealed_value_def)
  show ?thesis
  proof (rule that)
    show "envelope_open_upto (seal_answer C domain v key challenge server_key host time exporter) newest
        = Inr \<lparr>env_value = ?v, env_v = v, env_signed_bytes = encode (cbor_map ?fs), env_sig = ?s\<rparr>"
      unfolding seal_answer_def
      by (rule envelope_open_upto_seal [OF plain]) (use len v in \<open>simp_all add: answer_fields_def field_def\<close>)
  qed (use get typed verify_sign_domain [OF C] in
    \<open>auto simp: answer_read_def f_bytes32_def f_uint_def answer_fields_def field_def answer_typed_def envelope_verify_def
      option.map_comp comp_def split: option.splits\<close>)
qed

lemma host_field_read:
  "canonical_host U h = Some h \<Longrightarrow> value_get v ''host'' = Some (Text h) \<Longrightarrow> host_field U v = Inr h"
  by (simp add: host_field_def f_text_def)

lemma login_reads_back:
  assumes "crypto_ok C" "url_ok U" "length key = 32" "length challenge = 32" "length server_key = 32"
    and "login_sign C U key challenge server_key host time = Inr bs"
  shows "\<exists>h. canonical_host U host = Some h \<and> login_parse C U bs
    = Inr \<lparr>lp_challenge = challenge, lp_server_key = server_key, lp_host = Some h, lp_device = ed_public C key, lp_time = time\<rparr>"
proof -
  obtain h where h: "canonical_host U host = Some h" "bs = login_seal C key challenge server_key (Some h) time"
    using assms(6) by (auto simp: login_sign_def canonical_def split: option.splits)
  from canonical_hostE [OF assms(2) h(1)] have again: "canonical_host U h = Some h" "text_ok h" by blast+
  have "length (ed_public C key) = 32" using assms(1,3) by (simp add: crypto_ok_def)
  then have "answer_typed (ed_public C key) challenge server_key (Some h) None" using assms(4,5) again(2) by (simp add: answer_typed_def)
  from open_answer [OF assms(1,3) this, of HOST_VERSION HOST_VERSION LOGIN_DOMAIN time] obtain env where
    env: "envelope_open_upto bs HOST_VERSION = Inr env" "env_v env = HOST_VERSION"
      "answer_read (env_value env) = Inr \<lparr>an_challenge = challenge, an_server_key = server_key, an_device = ed_public C key, an_time = time\<rparr>"
      "value_get (env_value env) ''host'' = Some (Text h)" "envelope_verify C env (ed_public C key) LOGIN_DOMAIN = Inr ()"
    unfolding h(2) login_seal_def by (auto simp: HOST_VERSION_def)
  then show ?thesis using h(1) host_field_read [OF again(1) env(4)] by (simp add: login_parse_def)
qed


subsection \<open>What a login proves\<close>

lemma login_parse_signed:
  assumes "login_parse C U bs = Inr p"
  obtains v sig where "decode_canonical bs = Inr v" "value_get v ''sig'' = Some (Bytes sig)"
    "verify_domain C (lp_device p) LOGIN_DOMAIN (encode (value_without v ''sig'')) sig = Inr ()"
    "value_get v ''challenge'' = Some (Bytes (lp_challenge p))" "value_get v ''server_key'' = Some (Bytes (lp_server_key p))"
    "value_get v ''device'' = Some (Bytes (lp_device p))" "value_get v ''time'' = Some (Uint (lp_time p))"
    "value_get v ''v'' = Some (Uint 2) \<longrightarrow> lp_host p \<noteq> None"
    "\<forall>h. lp_host p = Some h \<longrightarrow> value_get v ''host'' = Some (Text h)"
proof -
  obtain env a host where e: "envelope_open_upto bs HOST_VERSION = Inr env" "answer_read (env_value env) = Inr a"
    "(if env_v env = HOST_VERSION then bindR (host_field U (env_value env)) (\<lambda>h. Inr (Some h)) else Inr None) = Inr host"
    "envelope_verify C env (an_device a) LOGIN_DOMAIN = Inr ()"
    "p = \<lparr>lp_challenge = an_challenge a, lp_server_key = an_server_key a, lp_host = host, lp_device = an_device a, lp_time = an_time a\<rparr>"
    using assms by (auto simp: login_parse_def result_simps)
  obtain v n sig where v: "decode_canonical bs = Inr v" "value_get v ''v'' = Some (Uint n)" "value_get v ''sig'' = Some (Bytes sig)"
    "env = \<lparr>env_value = v, env_v = n, env_signed_bytes = encode (value_without v ''sig''), env_sig = sig\<rparr>"
    using e(1) by (auto simp: envelope_open_upto_def envelope_from_value_upto_def result_simps split: if_splits)
  have "value_get v ''host'' = Some (Text h)" if "host = Some h" for h
    using e(3) that v(4) by (auto simp: host_field_def result_simps split: if_splits)
  moreover have "host \<noteq> None" if "value_get v ''v'' = Some (Uint 2)"
    using e(3) that v(2,4) by (auto simp: HOST_VERSION_def result_simps split: if_splits)
  ultimately show ?thesis
    using that [OF v(1,3)] e(2,4,5) v(4) by (auto simp: answer_read_def result_simps envelope_verify_def)
qed

lemma verify_login_Inr:
  "verify_login C U cd ct pr x = Inr l \<longleftrightarrow> login_parse C U pr = Inr (vl_proof l)
     \<and> login_check U (vl_proof l) (lx_challenge x) (lx_server_key x) (lx_host x) (lx_now x) (lx_skew x) = Inr ()
     \<and> cert_parse C ct = Inr (vl_cert l) \<and> dc_device (vl_cert l) = lp_device (vl_proof l)
     \<and> cert_check_valid (vl_cert l) (lx_now x) (lx_skew x) = Inr () \<and> cert_allows (vl_cert l) cap_LOGIN
     \<and> card_parse C cd = Inr (vl_card l) \<and> ca_identity (vl_card l) = dc_identity (vl_cert l)"
  by (cases l) (auto simp: verify_login_def result_simps cert_require_def)

lemma login_admitted:
  assumes C: "crypto_ok C" "url_ok U"
    and keys: "length device = 32" "length identity = 32" "length (lx_challenge x) = 32" "length (lx_server_key x) = 32"
    and pr: "login_sign C U device (lx_challenge x) (lx_server_key x) host time = Inr pr"
      "lx_host x = Some h" "canonical_host U h = canonical_host U host" "abs_diff time (lx_now x) \<le> lx_skew x"
    and ct: "cert_typed c" "cert_check_fields c = Inr ()" "cert_sign C identity c = Some ct" "dc_device c = ed_public C device"
      "cert_check_valid c (lx_now x) (lx_skew x) = Inr ()" "cert_allows c cap_LOGIN"
    and cd: "card_typed k" "carried_ok atts" "card_sign C identity k atts = Some (Inr cd)"
      "read_attestations C (ca_identity k) atts = Inr as"
  shows "\<exists>l. verify_login C U cd ct pr x = Inr l \<and> vl_cert l = c \<and> vl_card l = k\<lparr>ca_attestations := as\<rparr>"
proof -
  from login_reads_back [OF C(1,2) keys(1,3,4) pr(1)] obtain p where p: "login_parse C U pr = Inr p"
    "p = \<lparr>lp_challenge = lx_challenge x, lp_server_key = lx_server_key x, lp_host = canonical_host U host,
       lp_device = ed_public C device, lp_time = time\<rparr>" "canonical_host U host \<noteq> None" by auto
  have "login_check U p (lx_challenge x) (lx_server_key x) (lx_host x) (lx_now x) (lx_skew x) = Inr ()"
    using pr(2-4) p(2,3) by (auto simp: login_check_def answer_check_def not_less)
  moreover have id: "dc_identity c = ed_public C identity" "ct = seal (cert_unsigned c) (sign_domain C identity CERT_DOMAIN)"
    using ct(3) by (auto simp: cert_sign_def split: if_splits)
  moreover have "cert_parse C ct = Inr c" using cert_seal_parses [OF C(1) keys(2) ct(1,2) id(1)] id(2) by simp
  moreover have "ca_identity k = ed_public C identity" "card_check_fields k = Inr ()" "length atts \<le> MAX_ATTESTATIONS"
    "cd = seal (card_unsigned k atts) (sign_domain C identity CARD_DOMAIN)" "length cd \<le> CARD_MAX_BYTES"
    using cd(3) by (auto simp: card_sign_def Let_def result_simps split: if_splits)
  moreover from this have "card_parse C cd = Inr (k\<lparr>ca_attestations := as\<rparr>)"
    using card_seal_parses [OF C(1) keys(2) cd(1,2)] cd(4) by simp
  ultimately show ?thesis
    using p ct(4-6) by (intro exI [of _ "\<lparr>vl_card = k\<lparr>ca_attestations := as\<rparr>, vl_cert = c, vl_proof = p\<rparr>"]) (simp add: verify_login_Inr)
qed

text \<open>One concrete parser of addresses, for evaluating the model: it knows one host.\<close>

definition sample_host :: string where
  "sample_host = ''hl.example''"

definition undecimal :: "string \<Rightarrow> nat" where
  "undecimal s = foldl (\<lambda>n c. 10 * n + (of_char c - 48)) 0 s"

definition sample_url :: url_parser where
  "sample_url s =
     (let q = word_of_nat (undecimal (butlast (drop (length (''http://'' @ sample_host) + 1) s))) in
      if s = http_url sample_host then Some (Some sample_host, None)
      else if q \<noteq> 80 \<and> s = http_url (host_port sample_host q) then Some (Some sample_host, Some q)
      else None)"

lemma undecimal_decimal: "undecimal (decimal n) = n"
proof (induction n rule: decimal.induct)
  case (1 n)
  show ?case
  proof (cases "n < 10")
    case True
    then show ?thesis by (subst decimal.simps) (simp add: undecimal_def)
  next
    case False
    then have "undecimal (decimal n) = 10 * undecimal (decimal (n div 10)) + n mod 10"
      by (subst decimal.simps) (simp add: undecimal_def)
    then show ?thesis using 1 False by simp
  qed
qed

lemma sample_url_ok: "url_ok sample_url"
proof -
  have "sample_url (http_url (host_port sample_host q)) = Some (Some sample_host, Some q)" if "q \<noteq> 80" for q
    using that by (simp add: sample_url_def Let_def http_url_def host_port_def undecimal_decimal)
  moreover have "sample_url (http_url sample_host) = Some (Some sample_host, None)" by (simp add: sample_url_def)
  moreover have "h = sample_host \<and> p \<noteq> Some 80" if "sample_url s = Some (Some h, p)" for s h p
    using that by (auto simp: sample_url_def Let_def split: if_splits)
  moreover have "str_ascii sample_host" "length sample_host < 2 ^ 32" "\<not> not_authority sample_host"
    by (auto simp: sample_host_def str_ascii_def not_authority_def)
  ultimately show ?thesis unfolding url_ok_def by metis
qed

definition sample_login :: login_context where
  "sample_login = \<lparr>lx_challenge = replicate 32 3, lx_server_key = replicate 32 4, lx_host = Some sample_host, lx_now = 50, lx_skew = 5\<rparr>"

definition sample_login_bytes :: "bytes \<times> bytes \<times> bytes" where
  "sample_login_bytes =
     (seal (card_unsigned sample_card []) (sign_domain sample_crypto (replicate 32 7) CARD_DOMAIN),
      seal (cert_unsigned sample_cert) (sign_domain sample_crypto (replicate 32 7) CERT_DOMAIN),
      login_seal sample_crypto (replicate 32 8) (replicate 32 3) (replicate 32 4) (Some sample_host) 48)"

lemma sample_signed:
  "login_sign sample_crypto sample_url (replicate 32 8) (lx_challenge sample_login) (lx_server_key sample_login) sample_host 48
     = Inr (snd (snd sample_login_bytes))"
  "cert_sign sample_crypto (replicate 32 7) sample_cert = Some (fst (snd sample_login_bytes))"
  "card_sign sample_crypto (replicate 32 7) sample_card [] = Some (Inr (fst sample_login_bytes))"
proof -
  have "canonical_host sample_url sample_host = Some sample_host" by code_simp
  then show "login_sign sample_crypto sample_url (replicate 32 8) (lx_challenge sample_login) (lx_server_key sample_login) sample_host 48
     = Inr (snd (snd sample_login_bytes))" by (simp add: login_sign_def canonical_def sample_login_def sample_login_bytes_def)
  show "cert_sign sample_crypto (replicate 32 7) sample_cert = Some (fst (snd sample_login_bytes))"
    by (simp add: cert_sign_def sample_login_bytes_def sample_cert_def sample_crypto_def)
  have "length (seal (card_unsigned sample_card []) (sign_domain sample_crypto (replicate 32 7) CARD_DOMAIN)) \<le> CARD_MAX_BYTES" by code_simp
  then show "card_sign sample_crypto (replicate 32 7) sample_card [] = Some (Inr (fst sample_login_bytes))"
    using sample_card_ok(3)
    by (simp add: card_sign_def Let_def sample_login_bytes_def MAX_ATTESTATIONS_def not_less) (simp add: sample_card_def sample_crypto_def)
qed

lemma sample_side:
  "length (lx_challenge sample_login) = 32" "length (lx_server_key sample_login) = 32" "lx_host sample_login = Some sample_host"
  "abs_diff 48 (lx_now sample_login) \<le> lx_skew sample_login" "dc_device sample_cert = ed_public sample_crypto (replicate 32 8)"
  "cert_check_valid sample_cert (lx_now sample_login) (lx_skew sample_login) = Inr ()" "cert_allows sample_cert cap_LOGIN"
  "read_attestations sample_crypto (ca_identity sample_card) [] = Inr []"
proof -
  have "check_window 10 90 50 5 = Inr ()" by (simp add: check_window_def sat_add_def)
  moreover have "abs_diff 48 50 \<le> (5 :: u64)" by (simp add: abs_diff_def)
  moreover have "cert_allows sample_cert cap_LOGIN" by (simp add: cert_allows_def sample_cert_def cap_LOGIN_def)
  ultimately show "cert_check_valid sample_cert (lx_now sample_login) (lx_skew sample_login) = Inr ()"
    "abs_diff 48 (lx_now sample_login) \<le> lx_skew sample_login" "cert_allows sample_cert cap_LOGIN"
    by (simp_all add: cert_check_valid_def sample_login_def sample_cert_def)
qed (simp_all add: sample_login_def sample_cert_def sample_crypto_def)

lemmas sample_admitted = login_admitted [OF sample_crypto_ok sample_url_ok _ _ sample_side(1,2) sample_signed(1) sample_side(3) refl
  sample_side(4) sample_cert_ok sample_signed(2) sample_side(5-7) sample_card_ok(1,2) sample_signed(3) sample_side(8)]

text \<open>C7: A login is admitted only on a signature that verifies under the device key of a certificate that verifies, allows
  login and is in its time, and that covers this challenge, this server's key and, from version 2, the host the request
  was sent to; and with the card of the identity that signed the certificate.  So an answer made for one server cannot be
  spent at another.\<close>

theorem login_proves:
  assumes "verify_login C U cd ct pr x = Inr l"
  shows "\<exists>v sig. decode_canonical pr = Inr v \<and> value_get v ''sig'' = Some (Bytes sig)
    \<and> verify_domain C (dc_device (vl_cert l)) LOGIN_DOMAIN (encode (value_without v ''sig'')) sig = Inr ()
    \<and> value_get v ''challenge'' = Some (Bytes (lx_challenge x)) \<and> value_get v ''server_key'' = Some (Bytes (lx_server_key x))
    \<and> (value_get v ''v'' = Some (Uint 2) \<longrightarrow>
         (\<exists>h c. lx_host x = Some h \<and> canonical_host U h = Some c \<and> value_get v ''host'' = Some (Text c)))
    \<and> cert_parse C ct = Inr (vl_cert l) \<and> cert_allows (vl_cert l) cap_LOGIN
    \<and> dc_issued (vl_cert l) \<le> sat_add (lx_now x) (lx_skew x) \<and> lx_now x \<le> sat_add (dc_expires (vl_cert l)) (lx_skew x)
    \<and> card_parse C cd = Inr (vl_card l) \<and> ca_identity (vl_card l) = dc_identity (vl_cert l)"
proof -
  note l = assms [unfolded verify_login_Inr]
  from l have "login_parse C U pr = Inr (vl_proof l)" by blast
  then obtain v sig where v: "decode_canonical pr = Inr v" "value_get v ''sig'' = Some (Bytes sig)"
    "verify_domain C (lp_device (vl_proof l)) LOGIN_DOMAIN (encode (value_without v ''sig'')) sig = Inr ()"
    "value_get v ''challenge'' = Some (Bytes (lp_challenge (vl_proof l)))"
    "value_get v ''server_key'' = Some (Bytes (lp_server_key (vl_proof l)))"
    "value_get v ''v'' = Some (Uint 2) \<longrightarrow> lp_host (vl_proof l) \<noteq> None"
    "\<forall>h. lp_host (vl_proof l) = Some h \<longrightarrow> value_get v ''host'' = Some (Text h)"
    by (rule login_parse_signed)
  have chk: "lp_challenge (vl_proof l) = lx_challenge x" "lp_server_key (vl_proof l) = lx_server_key x"
    "\<forall>c. lp_host (vl_proof l) = Some c \<longrightarrow> (\<exists>h. lx_host x = Some h \<and> canonical_host U h = Some c)"
    using l by (auto simp: login_check_def answer_check_def split: if_splits option.splits)
  have win: "dc_issued (vl_cert l) \<le> sat_add (lx_now x) (lx_skew x)" "lx_now x \<le> sat_add (dc_expires (vl_cert l)) (lx_skew x)"
    using l by (auto simp: cert_check_valid_def check_window_def not_less split: if_splits)
  show ?thesis
    by (rule exI [of _ v], rule exI [of _ sig]) (use v chk win l in \<open>auto\<close>)
qed

theorem login_proves_witness:
  "\<exists>v. decode_canonical (snd (snd sample_login_bytes)) = Inr v \<and> value_get v ''challenge'' = Some (Bytes (replicate 32 3))"
proof -
  obtain l where "verify_login sample_crypto sample_url (fst sample_login_bytes) (fst (snd sample_login_bytes)) (snd (snd sample_login_bytes)) sample_login = Inr l"
    using sample_admitted by auto
  from login_proves [OF this] show ?thesis by (auto simp: sample_login_def)
qed

text \<open>C33: A client that addresses the server by a name the server knows as its host, whose certificate is good and lets it
  log in, and whose clock is near enough, is admitted, with the card and the certificate it showed.\<close>

theorem honest_login_admitted:
  assumes C: "crypto_ok C" "url_ok U"
    and keys: "length device = 32" "length identity = 32" "length (lx_challenge x) = 32" "length (lx_server_key x) = 32"
    and pr: "login_sign C U device (lx_challenge x) (lx_server_key x) host time = Inr pr"
      "lx_host x = Some h" "canonical_host U h = canonical_host U host" "abs_diff time (lx_now x) \<le> lx_skew x"
    and ct: "cert_typed c" "cert_check_fields c = Inr ()" "cert_sign C identity c = Some ct" "dc_device c = ed_public C device"
      "cert_check_valid c (lx_now x) (lx_skew x) = Inr ()" "cert_allows c cap_LOGIN"
    and cd: "card_typed k" "carried_ok atts" "card_sign C identity k atts = Some (Inr cd)"
      "read_attestations C (ca_identity k) atts = Inr as"
  shows "\<exists>l. verify_login C U cd ct pr x = Inr l \<and> vl_cert l = c \<and> vl_card l = k\<lparr>ca_attestations := as\<rparr>"
  by (rule login_admitted [OF assms])

theorem honest_login_admitted_witness:
  "\<exists>l. verify_login sample_crypto sample_url (fst sample_login_bytes) (fst (snd sample_login_bytes)) (snd (snd sample_login_bytes)) sample_login = Inr l
     \<and> vl_cert l = sample_cert \<and> vl_card l = sample_card"
  using honest_login_admitted [OF sample_crypto_ok sample_url_ok _ _ sample_side(1,2) sample_signed(1) sample_side(3) refl
    sample_side(4) sample_cert_ok sample_signed(2) sample_side(5-7) sample_card_ok(1,2) sample_signed(3) sample_side(8)]
  by (simp add: sample_card_def)

end
