(* ===== verification/Handover.thy ===== *)
theory Handover
  imports Identity_Proofs
begin

section \<open>Server key handover\<close>

text \<open>
  \<^verbatim>\<open>crates/hl-identity/src/handover.rs\<close>: a server key signs over to the successor it committed to, and a client checks the
  chain a server serves against what it pinned for the host.  \<open>walk\<close> is the loop over the chain, with the keys seen, the
  handover before and what was followed as its accumulators.
\<close>

definition HANDOVER_DOMAIN :: string where "HANDOVER_DOMAIN = ''hl-identity/server-handover/v1''"
definition MAX_CHAIN :: nat where "MAX_CHAIN = 16"
definition SKEW :: u64 where "SKEW = 600"

definition commitment :: "crypto \<Rightarrow> bytes \<Rightarrow> bytes" where
  "commitment C key = sha256 C key"

record handover =
  ho_old :: bytes
  ho_new :: bytes
  ho_next :: "bytes option"
  ho_time :: u64

definition handover_unsigned :: "handover \<Rightarrow> fields" where
  "handover_unsigned h =
     [(''v'', Some (Uint VERSION)),
      (''old'', Some (Bytes (ho_old h))),
      (''new'', Some (Bytes (ho_new h))),
      (''next'', map_option Bytes (ho_next h)),
      (''time'', Some (Uint (ho_time h)))]"

definition handover_read :: "cbor_value \<Rightarrow> id_error + handover" where
  "handover_read v =
     bindR (f_bytes32 v ''old'') (\<lambda>old.
     bindR (f_bytes32 v ''new'') (\<lambda>new.
     bindR (f_opt_bytes32 v ''next'') (\<lambda>nxt.
     bindR (f_uint v ''time'') (\<lambda>time.
       Inr \<lparr>ho_old = old, ho_new = new, ho_next = nxt, ho_time = time\<rparr>))))"

definition handover_parse :: "crypto \<Rightarrow> bytes \<Rightarrow> id_error + handover" where
  "handover_parse C bs =
     bindR (envelope_open bs) (\<lambda>env.
     bindR (handover_read (env_value env)) (\<lambda>h.
       if ho_new h = ho_old h then Inl (BadField ''new'')
       else bindR (envelope_verify C env (ho_old h) HANDOVER_DOMAIN) (\<lambda>_. Inr h)))"

definition handover_sign :: "crypto \<Rightarrow> bytes \<Rightarrow> handover \<Rightarrow> (id_error + bytes) option" where
  "handover_sign C key h =
     (if ed_public C key \<noteq> ho_old h then None
      else let bs = seal (handover_unsigned h) (sign_domain C key HANDOVER_DOMAIN)
           in Some (bindR (handover_parse C bs) (\<lambda>_. Inr bs)))"

record followed =
  fw_old :: bytes
  fw_sha256 :: bytes
  fw_time :: u64
  fw_next :: "bytes option"

definition followed_covers :: "followed \<Rightarrow> bytes \<Rightarrow> u64 \<Rightarrow> bool" where
  "followed_covers f server sent \<longleftrightarrow> fw_old f = server \<and> sent \<le> sat_add (fw_time f) SKEW"

definition same_key :: "bytes option \<Rightarrow> bytes option \<Rightarrow> bool" where
  "same_key remembered seen \<longleftrightarrow> remembered = None \<or> remembered = seen"

record pinned =
  pn_key :: bytes
  pn_commitment :: "bytes option"
  pn_followed :: "followed list"
  pn_dismissed :: "bytes list"

datatype broken =
    TooLong
  | NotServed
  | CommitmentOff
  | BadHandover id_error
  | LinkOff
  | TimeOff
  | RepeatedKey
  | ServerKeyOff
  | NextOff

datatype warning = Fork bytes | Recommitted | Chain broken

datatype verdict = Keep | Follow bytes "bytes option" "followed list" | Warn warning

type_synonym served = "(id_error + handover) \<times> bytes"

definition serve_chain :: "crypto \<Rightarrow> bytes list \<Rightarrow> served list option" where
  "serve_chain C chain = (if MAX_CHAIN < length chain then None else Some (map (\<lambda>b. (handover_parse C b, sha256 C b)) chain))"

fun forks :: "served list \<Rightarrow> followed list \<Rightarrow> bytes list \<Rightarrow> warning + unit" where
  "forks [] followed dismissed = Inr ()"
| "forks ((Inl e, sha) # cs) followed dismissed = forks cs followed dismissed"
| "forks ((Inr h, sha) # cs) followed dismissed =
     (if sha \<notin> set dismissed \<and> (\<exists>f\<in>set followed. fw_old f = ho_old h \<and> fw_sha256 f \<noteq> sha) then Inl (Fork sha)
      else forks cs followed dismissed)"

definition followed_of :: "handover \<Rightarrow> bytes \<Rightarrow> followed" where
  "followed_of h sha = \<lparr>fw_old = ho_old h, fw_sha256 = sha, fw_time = ho_time h, fw_next = ho_next h\<rparr>"

fun walk_from :: "crypto \<Rightarrow> server_challenge \<Rightarrow> u64 \<Rightarrow> bytes list \<Rightarrow> handover option \<Rightarrow> followed list \<Rightarrow> served list \<Rightarrow> broken + followed list" where
  "walk_from C challenge now keys prev out [] =
     (case prev of
        None \<Rightarrow> Inr out
      | Some l \<Rightarrow>
         if ho_new l \<noteq> sc_server_key challenge then Inl ServerKeyOff
         else if ho_next l \<noteq> sc_next challenge then Inl NextOff
         else Inr out)"
| "walk_from C challenge now keys prev out ((Inl e, sha) # cs) = Inl (BadHandover e)"
| "walk_from C challenge now keys prev out ((Inr h, sha) # cs) =
     bindR (case prev of
          Some p \<Rightarrow>
            if ho_old h \<noteq> ho_new p \<or> ho_next p \<noteq> Some (commitment C (ho_new h)) then Inl LinkOff
            else if ho_time h \<le> ho_time p then Inl TimeOff
            else Inr keys
        | None \<Rightarrow> Inr (keys @ [ho_old h])) (\<lambda>keys.
       if sat_add now SKEW < ho_time h then Inl TimeOff
       else if ho_new h \<in> set keys then Inl RepeatedKey
       else walk_from C challenge now (keys @ [ho_new h]) (Some h) (out @ [followed_of h sha]) cs)"

definition walk :: "crypto \<Rightarrow> served list \<Rightarrow> server_challenge \<Rightarrow> u64 \<Rightarrow> broken + followed list" where
  "walk C chain challenge now = walk_from C challenge now [] None [] chain"

definition first_pin :: "crypto \<Rightarrow> bytes list \<Rightarrow> server_challenge \<Rightarrow> u64 \<Rightarrow> followed list" where
  "first_pin C chain challenge now =
     (case serve_chain C chain of
        None \<Rightarrow> []
      | Some served \<Rightarrow> (case walk C served challenge now of Inr fs \<Rightarrow> fs | Inl _ \<Rightarrow> []))"

definition repin :: "crypto \<Rightarrow> bytes list \<Rightarrow> followed list \<Rightarrow> bytes list \<Rightarrow> warning + unit" where
  "repin C chain followed dismissed =
     forks (case serve_chain C chain of None \<Rightarrow> [] | Some served \<Rightarrow> served) followed dismissed"

text \<open>The served handovers from the first that hands over \<open>key\<close> on.\<close>

fun from_key :: "bytes \<Rightarrow> served list \<Rightarrow> (handover \<times> served list) option" where
  "from_key key [] = None"
| "from_key key ((Inr h, sha) # cs) = (if ho_old h = key then Some (h, (Inr h, sha) # cs) else from_key key cs)"
| "from_key key ((Inl e, sha) # cs) = from_key key cs"

definition follow :: "crypto \<Rightarrow> pinned \<Rightarrow> served list option \<Rightarrow> server_challenge \<Rightarrow> u64 \<Rightarrow> broken + followed list" where
  "follow C pin served challenge now =
     (case served of
        None \<Rightarrow> Inl TooLong
      | Some served \<Rightarrow> (case from_key (pn_key pin) served of
           None \<Rightarrow> Inl NotServed
         | Some (first, rest) \<Rightarrow>
            if pn_commitment pin \<noteq> Some (commitment C (ho_new first)) then Inl CommitmentOff
            else if \<exists>f\<in>set (pn_followed pin). ho_time first \<le> fw_time f then Inl TimeOff
            else bindR (walk C rest challenge now) (\<lambda>fs.
              Inr (filter (\<lambda>f. \<not> (\<exists>r\<in>set (pn_followed pin). fw_old r = fw_old f)) fs))))"

definition handover_check :: "crypto \<Rightarrow> pinned \<Rightarrow> bytes list \<Rightarrow> server_challenge \<Rightarrow> u64 \<Rightarrow> verdict" where
  "handover_check C pin chain challenge now =
     (let served = serve_chain C chain;
          listed = (case served of None \<Rightarrow> [] | Some l \<Rightarrow> l)
      in case forks listed (pn_followed pin) (pn_dismissed pin) of
           Inl w \<Rightarrow> Warn w
         | Inr _ \<Rightarrow>
            if sc_server_key challenge = pn_key pin
            then (if same_key (pn_commitment pin) (sc_next challenge) then Keep else Warn Recommitted)
            else (case follow C pin served challenge now of
                Inr fs \<Rightarrow> Follow (sc_server_key challenge) (sc_next challenge) fs
              | Inl b \<Rightarrow> Warn (Chain b)))"


subsection \<open>Signing and reading\<close>

definition handover_typed :: "handover \<Rightarrow> bool" where
  "handover_typed h \<longleftrightarrow> length (ho_old h) = 32 \<and> length (ho_new h) = 32 \<and> (\<forall>n. ho_next h = Some n \<longrightarrow> length n = 32)"

interpretation hov: signed_object handover_unsigned handover_read handover_typed
proof unfold_locales
  fix x :: handover
  assume "handover_typed x"
  then show "fields_ok (handover_unsigned x)"
    by (intro fields_okI) (auto simp: handover_unsigned_def handover_typed_def object_simps split: option.splits)
next
  fix x :: handover and v
  assume "handover_typed x"
    and get: "\<And>k. k \<noteq> ''sig'' \<Longrightarrow> k \<noteq> ''ack'' \<Longrightarrow> value_get v k = map_option cbor_canon (field (handover_unsigned x) k)"
  then show "handover_read v = Inr x"
    by (cases "ho_next x") (simp_all add: handover_read_def field_defs handover_unsigned_def handover_typed_def object_simps)
next
  fix x v
  assume "cbor_wf v" "handover_read v = Inr x"
  then show "handover_typed x" by (auto simp: handover_read_def handover_typed_def result_simps)
qed

lemma handover_roundtrip:
  assumes "crypto_ok C" "length key = 32" "handover_typed h" "ho_old h = ed_public C key" "ho_new h \<noteq> ho_old h"
  shows "\<exists>bs. handover_sign C key h = Some (Inr bs) \<and> handover_parse C bs = Inr h"
proof -
  let ?sign = "sign_domain C key HANDOVER_DOMAIN"
  obtain env where env: "envelope_open (seal (handover_unsigned h) ?sign) = Inr env" "handover_read (env_value env) = Inr h"
    "env_signed_bytes env = encode (cbor_map (handover_unsigned h))" "env_sig env = ?sign (encode (cbor_map (handover_unsigned h)))"
    by (rule hov.open_sealed [OF assms(3), of ?sign]) (simp_all add: length_sign_domain assms(1,2))
  then have "envelope_verify C env (ho_old h) HANDOVER_DOMAIN = Inr ()"
    using assms by (simp add: envelope_verify_def verify_sign_domain)
  then have "handover_parse C (seal (handover_unsigned h) ?sign) = Inr h" using env(1,2) assms(5) by (simp add: handover_parse_def)
  then show ?thesis using assms(4) by (simp add: handover_sign_def Let_def)
qed


subsection \<open>Which chains carry a pin\<close>

definition linked :: "crypto \<Rightarrow> handover \<Rightarrow> handover \<Rightarrow> bool" where
  "linked C p h \<longleftrightarrow> ho_old h = ho_new p \<and> ho_next p = Some (commitment C (ho_new h)) \<and> ho_time p < ho_time h"

lemma map_Inr_Cons: "map fst ((x, sha) # cs) = map Inr hs \<longleftrightarrow> (\<exists>h hs'. x = Inr h \<and> hs = h # hs' \<and> map fst cs = map Inr hs')"
  by (cases hs) auto

lemma walk_some:
  "walk_from C ch now keys (Some p) out cs = Inr res \<longleftrightarrow>
     (\<exists>hs. map fst cs = map Inr hs \<and> successively (linked C) (p # hs) \<and> (\<forall>h\<in>set hs. ho_time h \<le> sat_add now SKEW)
        \<and> distinct (map ho_new hs) \<and> set (map ho_new hs) \<inter> set keys = {}
        \<and> ho_new (last (p # hs)) = sc_server_key ch \<and> ho_next (last (p # hs)) = sc_next ch
        \<and> res = out @ map2 followed_of hs (map snd cs))"
proof (induction cs arbitrary: keys p out)
  case Nil
  show ?case by auto
next
  case (Cons c cs)
  obtain x sha where c: "c = (x, sha)" by (cases c)
  show ?case
  proof (cases x)
    case (Inl e)
    then show ?thesis by (simp add: c map_Inr_Cons del: list.map)
  next
    case (Inr h)
    let ?ok = "linked C p h \<and> ho_time h \<le> sat_add now SKEW \<and> ho_new h \<notin> set keys"
    have "walk_from C ch now keys (Some p) out (c # cs) = Inr res \<longleftrightarrow>
        ?ok \<and> walk_from C ch now (keys @ [ho_new h]) (Some h) (out @ [followed_of h sha]) cs = Inr res"
      by (auto simp: c Inr linked_def not_le not_less)
    also have "\<dots> \<longleftrightarrow> (\<exists>hs'. map fst cs = map Inr hs' \<and> successively (linked C) (p # h # hs')
        \<and> (\<forall>g\<in>set (h # hs'). ho_time g \<le> sat_add now SKEW) \<and> distinct (map ho_new (h # hs'))
        \<and> set (map ho_new (h # hs')) \<inter> set keys = {} \<and> ho_new (last (p # h # hs')) = sc_server_key ch
        \<and> ho_next (last (p # h # hs')) = sc_next ch \<and> res = out @ map2 followed_of (h # hs') (map snd (c # cs)))"
      unfolding Cons.IH by (auto simp: c)
    also have "\<dots> \<longleftrightarrow> (\<exists>hs. map fst (c # cs) = map Inr hs \<and> successively (linked C) (p # hs) \<and> (\<forall>h\<in>set hs. ho_time h \<le> sat_add now SKEW)
        \<and> distinct (map ho_new hs) \<and> set (map ho_new hs) \<inter> set keys = {}
        \<and> ho_new (last (p # hs)) = sc_server_key ch \<and> ho_next (last (p # hs)) = sc_next ch
        \<and> res = out @ map2 followed_of hs (map snd (c # cs)))"
      unfolding c Inr map_Inr_Cons by blast
    finally show ?thesis .
  qed
qed

definition carries :: "crypto \<Rightarrow> server_challenge \<Rightarrow> u64 \<Rightarrow> handover list \<Rightarrow> bool" where
  "carries C ch now hs \<longleftrightarrow> hs \<noteq> [] \<and> successively (linked C) hs \<and> (\<forall>h\<in>set hs. ho_time h \<le> sat_add now SKEW)
     \<and> distinct (ho_old (hd hs) # map ho_new hs) \<and> ho_new (last hs) = sc_server_key ch \<and> ho_next (last hs) = sc_next ch"

lemma walk_iff:
  assumes "cs \<noteq> []"
  shows "walk C cs ch now = Inr res \<longleftrightarrow>
    (\<exists>hs. map fst cs = map Inr hs \<and> carries C ch now hs \<and> res = map2 followed_of hs (map snd cs))"
proof -
  obtain x sha cs' where cs: "cs = (x, sha) # cs'" using assms by (metis list.exhaust prod.exhaust)
  show ?thesis
  proof (cases x)
    case (Inl e)
    then show ?thesis by (simp add: walk_def cs map_Inr_Cons del: list.map)
  next
    case (Inr h)
    have "walk C cs ch now = Inr res \<longleftrightarrow> ho_time h \<le> sat_add now SKEW \<and> ho_old h \<noteq> ho_new h
        \<and> walk_from C ch now [ho_old h, ho_new h] (Some h) [followed_of h sha] cs' = Inr res"
      by (auto simp: walk_def cs Inr not_less)
    also have "\<dots> \<longleftrightarrow> (\<exists>hs'. map fst cs' = map Inr hs' \<and> carries C ch now (h # hs') \<and> res = map2 followed_of (h # hs') (map snd cs))"
    proof -
      have "ho_time h \<le> sat_add now SKEW \<and> ho_old h \<noteq> ho_new h \<and> successively (linked C) (h # hs') \<and> (\<forall>g\<in>set hs'. ho_time g \<le> sat_add now SKEW)
          \<and> distinct (map ho_new hs') \<and> set (map ho_new hs') \<inter> set [ho_old h, ho_new h] = {}
          \<and> ho_new (last (h # hs')) = sc_server_key ch \<and> ho_next (last (h # hs')) = sc_next ch
        \<longleftrightarrow> carries C ch now (h # hs')" for hs'
        unfolding carries_def by (simp del: successively.simps last.simps) blast
      moreover have "[followed_of h sha] @ map2 followed_of hs' (map snd cs') = map2 followed_of (h # hs') (map snd cs)" for hs' by (simp add: cs)
      ultimately show ?thesis unfolding walk_some by metis
    qed
    also have "\<dots> \<longleftrightarrow> (\<exists>hs. map fst cs = map Inr hs \<and> carries C ch now hs \<and> res = map2 followed_of hs (map snd cs))"
      unfolding cs Inr map_Inr_Cons by blast
    finally show ?thesis .
  qed
qed


text \<open>The handover \<open>bs\<close> hands over \<open>key\<close>; and it conflicts with what the client followed, and
  was not dismissed.\<close>

definition hands_over :: "crypto \<Rightarrow> bytes \<Rightarrow> bytes \<Rightarrow> bool" where
  "hands_over C key bs \<longleftrightarrow> (\<exists>h. handover_parse C bs = Inr h \<and> ho_old h = key)"

definition conflicts :: "crypto \<Rightarrow> followed list \<Rightarrow> bytes list \<Rightarrow> bytes \<Rightarrow> bool" where
  "conflicts C followed dismissed bs \<longleftrightarrow> sha256 C bs \<notin> set dismissed
     \<and> (\<exists>h f. handover_parse C bs = Inr h \<and> f \<in> set followed \<and> fw_old f = ho_old h \<and> fw_sha256 f \<noteq> sha256 C bs)"

abbreviation served_as :: "crypto \<Rightarrow> bytes \<Rightarrow> served" where
  "served_as C b \<equiv> (handover_parse C b, sha256 C b)"

lemma forks_iff: "forks (map (served_as C) chain) followed dismissed = Inr () \<longleftrightarrow> \<not> list_ex (conflicts C followed dismissed) chain"
proof (induction chain)
  case (Cons b chain)
  then show ?case by (cases "handover_parse C b") (auto simp: conflicts_def)
qed simp

lemma from_key_iff:
  "from_key key (map (served_as C) chain) =
     (case dropWhile (\<lambda>b. \<not> hands_over C key b) chain of
        [] \<Rightarrow> None
      | b # bs \<Rightarrow> (case handover_parse C b of Inl _ \<Rightarrow> None | Inr h \<Rightarrow> Some (h, map (served_as C) (b # bs))))"
proof (induction chain)
  case (Cons b chain)
  then show ?case by (cases "handover_parse C b") (auto simp: hands_over_def)
qed simp

lemma follow_iff:
  "follow C pin (Some (map (served_as C) chain)) ch now = Inr fs \<longleftrightarrow>
     (\<exists>hs. map (handover_parse C) (dropWhile (\<lambda>b. \<not> hands_over C (pn_key pin) b) chain) = map Inr hs
        \<and> carries C ch now hs \<and> pn_commitment pin = Some (commitment C (ho_new (hd hs)))
        \<and> list_all (\<lambda>f. fw_time f < ho_time (hd hs)) (pn_followed pin)
        \<and> fs = filter (\<lambda>f. fw_old f \<notin> fw_old ` set (pn_followed pin))
            (map2 followed_of hs (map (sha256 C) (dropWhile (\<lambda>b. \<not> hands_over C (pn_key pin) b) chain))))"
proof (cases "dropWhile (\<lambda>b. \<not> hands_over C (pn_key pin) b) chain")
  case Nil
  show ?thesis by (auto simp: follow_def from_key_iff Nil carries_def)
next
  case (Cons b bs)
  then have "hands_over C (pn_key pin) b" by (metis dropWhile_eq_Cons_conv)
  then obtain h where h: "handover_parse C b = Inr h" by (auto simp: hands_over_def)
  have keep: "(\<forall>r\<in>set (pn_followed pin). fw_old r \<noteq> fw_old f) \<longleftrightarrow> fw_old f \<notin> fw_old ` set (pn_followed pin)" for f by force
  let ?fit = "\<lambda>fs'. fs = filter (\<lambda>f. fw_old f \<notin> fw_old ` set (pn_followed pin)) fs'"
  have "follow C pin (Some (map (served_as C) chain)) ch now = Inr fs \<longleftrightarrow>
      pn_commitment pin = Some (commitment C (ho_new h)) \<and> list_all (\<lambda>f. fw_time f < ho_time h) (pn_followed pin)
      \<and> (\<exists>fs'. walk C (map (served_as C) (b # bs)) ch now = Inr fs' \<and> ?fit fs')"
    by (auto simp: follow_def from_key_iff Cons h list_all_iff result_simps keep not_less [symmetric])
  also have "\<dots> \<longleftrightarrow> (\<exists>hs. map (handover_parse C) (b # bs) = map Inr hs \<and> carries C ch now hs
      \<and> pn_commitment pin = Some (commitment C (ho_new h)) \<and> list_all (\<lambda>f. fw_time f < ho_time h) (pn_followed pin)
      \<and> ?fit (map2 followed_of hs (map (sha256 C) (b # bs))))"
  proof -
    have ne: "map (served_as C) (b # bs) \<noteq> []" by simp
    have maps: "map fst (map (served_as C) xs) = map (handover_parse C) xs" "map snd (map (served_as C) xs) = map (sha256 C) xs" for xs by simp_all
    show ?thesis unfolding walk_iff [OF ne] maps by blast
  qed
  also have "\<dots> \<longleftrightarrow> (\<exists>hs. map (handover_parse C) (b # bs) = map Inr hs \<and> carries C ch now hs
      \<and> pn_commitment pin = Some (commitment C (ho_new (hd hs))) \<and> list_all (\<lambda>f. fw_time f < ho_time (hd hs)) (pn_followed pin)
      \<and> ?fit (map2 followed_of hs (map (sha256 C) (b # bs))))"
    by (intro ex_cong1) (auto simp: h Cons_eq_map_conv)
  finally show ?thesis unfolding Cons .
qed

text \<open>C10: A client moves its pin to another key without a warning exactly when the key is the
  challenge's, at most sixteen handovers are served, none of them conflicts with one the client
  followed, and all the served handovers from the first of the pinned key on are signed ones that
  lead, each by the commitment of the one before and each later than it, from the key whose
  commitment was remembered, later than every remembered handover, through keys that never repeat,
  to the challenge's key and commitment; what it then remembers is those handovers whose key has no
  record yet.\<close>

theorem follow_exact:
  "handover_check C pin chain ch now = Follow key cm fs \<longleftrightarrow>
     key = sc_server_key ch \<and> cm = sc_next ch \<and> key \<noteq> pn_key pin \<and> length chain \<le> MAX_CHAIN
     \<and> \<not> list_ex (conflicts C (pn_followed pin) (pn_dismissed pin)) chain
     \<and> (\<exists>hs. map (handover_parse C) (dropWhile (\<lambda>b. \<not> hands_over C (pn_key pin) b) chain) = map Inr hs
        \<and> carries C ch now hs \<and> pn_commitment pin = Some (commitment C (ho_new (hd hs)))
        \<and> list_all (\<lambda>f. fw_time f < ho_time (hd hs)) (pn_followed pin)
        \<and> fs = filter (\<lambda>f. fw_old f \<notin> fw_old ` set (pn_followed pin))
            (map2 followed_of hs (map (sha256 C) (dropWhile (\<lambda>b. \<not> hands_over C (pn_key pin) b) chain))))"
proof (cases "length chain \<le> MAX_CHAIN")
  case False
  then show ?thesis by (simp add: handover_check_def serve_chain_def follow_def Let_def)
next
  case True
  then have serve: "serve_chain C chain = Some (map (served_as C) chain)" by (simp add: serve_chain_def)
  have "handover_check C pin chain ch now = Follow key cm fs \<longleftrightarrow>
      forks (map (served_as C) chain) (pn_followed pin) (pn_dismissed pin) = Inr () \<and> sc_server_key ch \<noteq> pn_key pin
      \<and> key = sc_server_key ch \<and> cm = sc_next ch \<and> follow C pin (Some (map (served_as C) chain)) ch now = Inr fs"
    unfolding handover_check_def serve by (auto simp: Let_def split: sum.splits)
  then show ?thesis unfolding forks_iff follow_iff using True by auto
qed

end
