(* ===== verification/Friendships.thy ===== *)
theory Friendships
  imports Handover Registrar_Objects
begin

section \<open>Friendship objects\<close>

text \<open>
  \<^verbatim>\<open>crates/hl-identity/src/friendship.rs\<close>: an offer, the acceptance that answers it, the friendship the two make, and the
  withdrawal that ends friendships between a pair, each signed by a device key whose certificate it carries.  A refusal
  names the step of the check it failed at.  The bounds and the reader of 16-byte fields come from \<^verbatim>\<open>message.rs\<close>.
\<close>

definition OFFER_DOMAIN :: string where "OFFER_DOMAIN = ''hl-identity/friend-offer/v1''"
definition ACCEPT_DOMAIN :: string where "ACCEPT_DOMAIN = ''hl-identity/friend-accept/v1''"
definition WITHDRAW_DOMAIN :: string where "WITHDRAW_DOMAIN = ''hl-identity/friend-withdraw/v1''"
definition PAIR_DOMAIN :: string where "PAIR_DOMAIN = ''hl-identity/friend-pair/v1''"
definition FRIEND_MAX_BYTES :: nat where "FRIEND_MAX_BYTES = 1024"
definition FRIENDSHIP_MAX_BYTES :: nat where "FRIENDSHIP_MAX_BYTES = 1 + 2 * (3 + FRIEND_MAX_BYTES)"
definition OFFER_MAX_LIFETIME :: u64 where "OFFER_MAX_LIFETIME = 30 * 24 * 3600"
definition MESSAGE_CERT_MAX_BYTES :: nat where "MESSAGE_CERT_MAX_BYTES = 512"

datatype refused = Refused u8 id_error

definition at_step :: "id_error + 'a \<Rightarrow> u8 \<Rightarrow> refused + 'a" where
  "at_step m n = map_err (Refused n) m"

definition opt_bytes16 :: "cbor_value \<Rightarrow> string \<Rightarrow> id_error + bytes option" where
  "opt_bytes16 v key =
     bindR (f_opt_bytes v key) (\<lambda>b.
       case b of
         None \<Rightarrow> Inr None
       | Some b \<Rightarrow> if length b = 16 then Inr (Some b) else Inl (BadField key))"

definition bytes16 :: "cbor_value \<Rightarrow> string \<Rightarrow> id_error + bytes" where
  "bytes16 v key = bindR (opt_bytes16 v key) (\<lambda>b. case b of None \<Rightarrow> Inl (MissingField key) | Some b \<Rightarrow> Inr b)"


subsection \<open>Pairs\<close>

record fp_pair =
  pa_lo :: bytes
  pa_hi :: bytes

definition pair_new :: "bytes \<Rightarrow> bytes \<Rightarrow> fp_pair" where
  "pair_new a b = (if a \<le> b then \<lparr>pa_lo = a, pa_hi = b\<rparr> else \<lparr>pa_lo = b, pa_hi = a\<rparr>)"

definition pair_contains :: "fp_pair \<Rightarrow> bytes \<Rightarrow> bool" where
  "pair_contains p fp \<longleftrightarrow> pa_lo p = fp \<or> pa_hi p = fp"

definition pair_hash :: "crypto \<Rightarrow> fp_pair \<Rightarrow> bytes" where
  "pair_hash C p = sha256 C (str_bytes PAIR_DOMAIN @ [0] @ pa_lo p @ pa_hi p)"


subsection \<open>The checks the objects share\<close>

definition open_object :: "bytes \<Rightarrow> (cbor_value \<Rightarrow> id_error + 'o) \<Rightarrow> id_error + 'o \<times> envelope" where
  "open_object bs read =
     (if FRIEND_MAX_BYTES < length bs then Inl TooLarge
      else bindR (envelope_open bs) (\<lambda>env.
           bindR (read (env_value env)) (\<lambda>x. Inr (x, env))))"

definition not_ahead :: "u64 \<Rightarrow> u64 \<Rightarrow> id_error + unit" where
  "not_ahead time now = (if sat_add now SKEW < time then Inl ClockSkew else Inr ())"

definition cert_at :: "bytes \<Rightarrow> bytes \<Rightarrow> u64 \<Rightarrow> id_error + device_cert \<times> envelope" where
  "cert_at bs from time =
     (if MESSAGE_CERT_MAX_BYTES < length bs then Inl (BadField ''cert'')
      else bindR (cert_open bs) (\<lambda>(c, env).
           if dc_identity c \<noteq> from then Inl KeyMismatch
           else bindR (cert_require c cap_MESSAGE) (\<lambda>_.
                bindR (check_window (dc_issued c) (dc_expires c) time SKEW) (\<lambda>_.
                  Inr (c, env)))))"

definition verify_with :: "crypto \<Rightarrow> device_cert \<times> envelope \<Rightarrow> envelope \<Rightarrow> string \<Rightarrow> id_error + unit" where
  "verify_with C ce env domain =
     (case ce of (c, cert_env) \<Rightarrow>
        bindR (envelope_verify C cert_env (dc_identity c) CERT_DOMAIN) (\<lambda>_.
          envelope_verify C env (dc_device c) domain))"

definition seal_object :: "crypto \<Rightarrow> fields \<Rightarrow> bytes \<Rightarrow> bytes \<Rightarrow> u64 \<Rightarrow> bytes \<Rightarrow> string \<Rightarrow> id_error + bytes" where
  "seal_object C body from cert_bytes time device domain =
     bindR (cert_at cert_bytes from time) (\<lambda>(c, cert_env).
     bindR (envelope_verify C cert_env (dc_identity c) CERT_DOMAIN) (\<lambda>_.
       if dc_device c \<noteq> ed_public C device then Inl KeyMismatch
       else let bs = seal body (sign_domain C device domain)
            in if FRIEND_MAX_BYTES < length bs then Inl TooLarge else Inr bs))"


subsection \<open>Cutoffs\<close>

record cutoff =
  cu_pair :: bytes
  cu_party :: bytes
  cu_before :: u64

definition cutoff_ends :: "crypto \<Rightarrow> cutoff \<Rightarrow> fp_pair \<Rightarrow> bytes \<Rightarrow> u64 \<Rightarrow> bool" where
  "cutoff_ends C c p party time \<longleftrightarrow> cu_pair c = pair_hash C p \<and> cu_party c = party \<and> time < cu_before c"


subsection \<open>Withdrawals\<close>

record withdrawal =
  wd_from :: bytes
  wd_pair :: bytes
  wd_party :: "bytes option"
  wd_before :: u64
  wd_time :: u64
  wd_cert :: bytes

definition withdrawal_unsigned :: "withdrawal \<Rightarrow> fields" where
  "withdrawal_unsigned w =
     [(''v'', Some (Uint VERSION)),
      (''from'', Some (Bytes (wd_from w))),
      (''pair'', Some (Bytes (wd_pair w))),
      (''party'', map_option Bytes (wd_party w)),
      (''before'', Some (Uint (wd_before w))),
      (''time'', Some (Uint (wd_time w))),
      (''cert'', Some (Bytes (wd_cert w)))]"

definition withdrawal_from_value :: "crypto \<Rightarrow> cbor_value \<Rightarrow> id_error + withdrawal" where
  "withdrawal_from_value C v =
     bindR (f_bytes32 v ''from'') (\<lambda>from.
     bindR (f_bytes32 v ''pair'') (\<lambda>pr.
     bindR (f_opt_bytes32 v ''party'') (\<lambda>party.
     bindR (f_uint v ''before'') (\<lambda>before.
     bindR (f_uint v ''time'') (\<lambda>time.
     bindR (f_bytes v ''cert'') (\<lambda>c.
       if party = Some (fingerprint_of C from) then Inl (BadField ''party'')
       else Inr \<lparr>wd_from = from, wd_pair = pr, wd_party = party, wd_before = before, wd_time = time, wd_cert = c\<rparr>))))))"

definition withdrawal_sign :: "crypto \<Rightarrow> bytes \<Rightarrow> withdrawal \<Rightarrow> id_error + bytes" where
  "withdrawal_sign C device w =
     bindR (withdrawal_from_value C (cbor_map (withdrawal_unsigned w))) (\<lambda>_.
       if wd_time w < wd_before w then Inl (BadField ''before'')
       else seal_object C (withdrawal_unsigned w) (wd_from w) (wd_cert w) (wd_time w) device WITHDRAW_DOMAIN)"

definition effective_party :: "crypto \<Rightarrow> withdrawal \<Rightarrow> bytes" where
  "effective_party C w = (case wd_party w of Some p \<Rightarrow> p | None \<Rightarrow> fingerprint_of C (wd_from w))"

text \<open>The loop of \<open>chain_end\<close> runs once more than there are rotations; \<open>chain_from\<close> counts its passes down.\<close>

fun chain_from :: "crypto \<Rightarrow> rotation list \<Rightarrow> nat \<Rightarrow> bytes \<Rightarrow> bytes option" where
  "chain_from C rotations 0 key = None"
| "chain_from C rotations (Suc n) key =
     (case map ro_successor (filter (\<lambda>r. fingerprint_of C (ro_identity r) = key) rotations) of
        [] \<Rightarrow> Some key
      | successor # others \<Rightarrow>
          if list_all (\<lambda>s. s = successor) others then chain_from C rotations n (fingerprint_of C successor) else None)"

definition chain_end :: "crypto \<Rightarrow> bytes \<Rightarrow> rotation list \<Rightarrow> bytes option" where
  "chain_end C start rotations = chain_from C rotations (Suc (length rotations)) start"

definition pair_rules :: "crypto \<Rightarrow> withdrawal \<Rightarrow> fp_pair \<Rightarrow> rotation list \<Rightarrow> refused + unit" where
  "pair_rules C w p rotations =
     (if wd_pair w \<noteq> pair_hash C p then at_step (Inl KeyMismatch) 3
      else let from = Some (fingerprint_of C (wd_from w)); party = effective_party C w in
        if chain_end C (pa_lo p) rotations \<noteq> from \<and> chain_end C (pa_hi p) rotations \<noteq> from then at_step (Inl KeyMismatch) 4
        else if \<not> pair_contains p party then at_step (Inl (BadField ''party'')) 4
        else if \<exists>r\<in>set rotations. fingerprint_of C (ro_identity r) = party \<and> ro_time r < wd_before w
          then at_step (Inl (BadField ''before'')) 4
        else Inr ())"

definition open_timed :: "crypto \<Rightarrow> bytes \<Rightarrow> u64 \<Rightarrow> refused + withdrawal \<times> envelope" where
  "open_timed C bs now =
     bindR (at_step (open_object bs (withdrawal_from_value C)) 1) (\<lambda>(w, env).
       if wd_time w < wd_before w then at_step (Inl (BadField ''before'')) 2
       else bindR (at_step (not_ahead (wd_time w) now) 2) (\<lambda>_. Inr (w, env)))"

definition withdrawal_verify :: "crypto \<Rightarrow> withdrawal \<Rightarrow> envelope \<Rightarrow> refused + unit" where
  "withdrawal_verify C w env =
     bindR (at_step (cert_at (wd_cert w) (wd_from w) (wd_time w)) 5) (\<lambda>ce.
       at_step (verify_with C ce env WITHDRAW_DOMAIN) 6)"

datatype kept = Kept withdrawal
datatype held = Held withdrawal

definition withdrawal_parse :: "crypto \<Rightarrow> bytes \<Rightarrow> u64 \<Rightarrow> refused + kept" where
  "withdrawal_parse C bs now =
     bindR (open_timed C bs now) (\<lambda>(w, env).
     bindR (withdrawal_verify C w env) (\<lambda>_. Inr (Kept w)))"

definition withdrawal_check :: "crypto \<Rightarrow> bytes \<Rightarrow> u64 \<Rightarrow> fp_pair \<Rightarrow> rotation list \<Rightarrow> refused + held" where
  "withdrawal_check C bs now p rotations =
     bindR (open_timed C bs now) (\<lambda>(w, env).
     bindR (pair_rules C w p rotations) (\<lambda>_.
     bindR (withdrawal_verify C w env) (\<lambda>_. Inr (Held w))))"

fun kept_withdrawal :: "kept \<Rightarrow> withdrawal" where
  "kept_withdrawal (Kept w) = w"

fun kept_check_pair :: "crypto \<Rightarrow> kept \<Rightarrow> fp_pair \<Rightarrow> rotation list \<Rightarrow> refused + held" where
  "kept_check_pair C (Kept w) p rotations = bindR (pair_rules C w p rotations) (\<lambda>_. Inr (Held w))"

fun held_withdrawal :: "held \<Rightarrow> withdrawal" where
  "held_withdrawal (Held w) = w"

fun held_cutoff :: "crypto \<Rightarrow> held \<Rightarrow> cutoff" where
  "held_cutoff C (Held w) = \<lparr>cu_pair = wd_pair w, cu_party = effective_party C w, cu_before = wd_before w\<rparr>"

definition held_ends :: "crypto \<Rightarrow> held \<Rightarrow> fp_pair \<Rightarrow> bytes \<Rightarrow> u64 \<Rightarrow> bool" where
  "held_ends C h p party time = cutoff_ends C (held_cutoff C h) p party time"


subsection \<open>Offers, acceptances and friendships\<close>

record offer =
  of_from :: bytes
  of_to :: bytes
  of_time :: u64
  of_expires :: u64
  of_id :: bytes
  of_cert :: bytes

definition offer_unsigned :: "offer \<Rightarrow> fields" where
  "offer_unsigned f =
     [(''v'', Some (Uint VERSION)),
      (''from'', Some (Bytes (of_from f))),
      (''to'', Some (Bytes (of_to f))),
      (''time'', Some (Uint (of_time f))),
      (''expires'', Some (Uint (of_expires f))),
      (''id'', Some (Bytes (of_id f))),
      (''cert'', Some (Bytes (of_cert f)))]"

definition offerer :: "crypto \<Rightarrow> offer \<Rightarrow> bytes" where
  "offerer C f = fingerprint_of C (of_from f)"

definition offer_from_value :: "crypto \<Rightarrow> cbor_value \<Rightarrow> id_error + offer" where
  "offer_from_value C v =
     bindR (f_bytes32 v ''from'') (\<lambda>from.
     bindR (f_bytes32 v ''to'') (\<lambda>to.
     bindR (f_uint v ''time'') (\<lambda>time.
     bindR (f_uint v ''expires'') (\<lambda>expires.
     bindR (bytes16 v ''id'') (\<lambda>id.
     bindR (f_bytes v ''cert'') (\<lambda>c.
       let f = \<lparr>of_from = from, of_to = to, of_time = time, of_expires = expires, of_id = id, of_cert = c\<rparr> in
       if expires \<le> time \<or> sat_add time OFFER_MAX_LIFETIME < expires then Inl (BadField ''expires'')
       else if to = offerer C f then Inl (BadField ''to'')
       else Inr f))))))"

definition offer_sign :: "crypto \<Rightarrow> bytes \<Rightarrow> offer \<Rightarrow> id_error + bytes" where
  "offer_sign C device f =
     bindR (offer_from_value C (cbor_map (offer_unsigned f))) (\<lambda>_.
       seal_object C (offer_unsigned f) (of_from f) (of_cert f) (of_time f) device OFFER_DOMAIN)"

definition offer_pair :: "crypto \<Rightarrow> offer \<Rightarrow> fp_pair" where
  "offer_pair C f = pair_new (offerer C f) (of_to f)"

definition offer_cut_by :: "crypto \<Rightarrow> offer \<Rightarrow> cutoff \<Rightarrow> bool" where
  "offer_cut_by C f c = cutoff_ends C c (offer_pair C f) (offerer C f) (of_time f)"

definition offer_ended_by :: "crypto \<Rightarrow> offer \<Rightarrow> held \<Rightarrow> bool" where
  "offer_ended_by C f w = offer_cut_by C f (held_cutoff C w)"

definition offer_check :: "crypto \<Rightarrow> bytes \<Rightarrow> u64 \<Rightarrow> held list \<Rightarrow> refused + offer" where
  "offer_check C bs now ws =
     bindR (at_step (open_object bs (offer_from_value C)) 1) (\<lambda>(f, env).
     bindR (at_step (not_ahead (of_time f) now) 3) (\<lambda>_.
     bindR (at_step (cert_at (of_cert f) (of_from f) (of_time f)) 4) (\<lambda>ce.
     bindR (at_step (verify_with C ce env OFFER_DOMAIN) 5) (\<lambda>_.
       if \<exists>w\<in>set ws. offer_ended_by C f w then at_step (Inl Withdrawn) 6 else Inr f))))"

record acceptance =
  ac_offer :: bytes
  ac_from :: bytes
  ac_time :: u64
  ac_cert :: bytes

definition acceptance_unsigned :: "acceptance \<Rightarrow> fields" where
  "acceptance_unsigned a =
     [(''v'', Some (Uint VERSION)),
      (''offer'', Some (Bytes (ac_offer a))),
      (''from'', Some (Bytes (ac_from a))),
      (''time'', Some (Uint (ac_time a))),
      (''cert'', Some (Bytes (ac_cert a)))]"

definition acceptance_from_value :: "cbor_value \<Rightarrow> id_error + acceptance" where
  "acceptance_from_value v =
     bindR (f_bytes32 v ''offer'') (\<lambda>f.
     bindR (f_bytes32 v ''from'') (\<lambda>from.
     bindR (f_uint v ''time'') (\<lambda>time.
     bindR (f_bytes v ''cert'') (\<lambda>c.
       Inr \<lparr>ac_offer = f, ac_from = from, ac_time = time, ac_cert = c\<rparr>))))"

definition acceptance_sign :: "crypto \<Rightarrow> bytes \<Rightarrow> acceptance \<Rightarrow> id_error + bytes" where
  "acceptance_sign C device a =
     seal_object C (acceptance_unsigned a) (ac_from a) (ac_cert a) (ac_time a) device ACCEPT_DOMAIN"

record friendship =
  fr_offer :: offer
  fr_acceptance :: acceptance
  fr_hash :: bytes

definition friendship_encode :: "bytes \<Rightarrow> bytes \<Rightarrow> bytes" where
  "friendship_encode ob ab = encode (Array [Bytes ob, Bytes ab])"

definition friendship_pair :: "crypto \<Rightarrow> friendship \<Rightarrow> fp_pair" where
  "friendship_pair C f = offer_pair C (fr_offer f)"

definition friendship_cut_by :: "crypto \<Rightarrow> friendship \<Rightarrow> cutoff \<Rightarrow> bool" where
  "friendship_cut_by C f c \<longleftrightarrow>
     cutoff_ends C c (friendship_pair C f) (offerer C (fr_offer f)) (of_time (fr_offer f))
     \<or> cutoff_ends C c (friendship_pair C f) (of_to (fr_offer f)) (ac_time (fr_acceptance f))"

definition friendship_ended_by :: "crypto \<Rightarrow> friendship \<Rightarrow> held \<Rightarrow> bool" where
  "friendship_ended_by C f w = friendship_cut_by C f (held_cutoff C w)"

definition friendship_split :: "bytes \<Rightarrow> id_error + bytes \<times> bytes" where
  "friendship_split bs =
     (if FRIENDSHIP_MAX_BYTES < length bs then Inl TooLarge
      else bindR (map_err CborErr (decode_canonical bs)) (\<lambda>v.
        case v of
          Array [Bytes ob, Bytes ab] \<Rightarrow> Inr (ob, ab)
        | _ \<Rightarrow> Inl (BadField ''friendship'')))"

definition friendship_check :: "crypto \<Rightarrow> bytes \<Rightarrow> u64 \<Rightarrow> held list \<Rightarrow> refused + friendship" where
  "friendship_check C bs now ws =
     bindR (at_step (friendship_split bs) 1) (\<lambda>(ob, ab).
     bindR (at_step (open_object ob (offer_from_value C)) 1) (\<lambda>(f, offer_env).
     bindR (at_step (open_object ab acceptance_from_value) 1) (\<lambda>(a, accept_env).
       if ac_offer a \<noteq> sha256 C ob then at_step (Inl (BadField ''offer'')) 2
       else if fingerprint_of C (ac_from a) \<noteq> of_to f \<or> ac_from a = of_from f then at_step (Inl KeyMismatch) 2
       else bindR (at_step (bindR (not_ahead (of_time f) now) (\<lambda>_. not_ahead (ac_time a) now)) 3) (\<lambda>_.
         if \<not> (of_time f \<le> ac_time a \<and> ac_time a \<le> of_expires f) then at_step (Inl (BadField ''time'')) 3
         else bindR (at_step (cert_at (of_cert f) (of_from f) (of_time f)) 4) (\<lambda>offer_cert.
              bindR (at_step (cert_at (ac_cert a) (ac_from a) (ac_time a)) 4) (\<lambda>accept_cert.
              bindR (at_step (bindR (verify_with C offer_cert offer_env OFFER_DOMAIN) (\<lambda>_.
                       verify_with C accept_cert accept_env ACCEPT_DOMAIN)) 5) (\<lambda>_.
                let fs = \<lparr>fr_offer = f, fr_acceptance = a, fr_hash = sha256 C bs\<rparr> in
                if \<exists>w\<in>set ws. friendship_ended_by C fs w then at_step (Inl Withdrawn) 6 else Inr fs)))))))"


subsection \<open>Signing and opening\<close>

lemma at_step_Inr_iff [result_simps]: "at_step m n = Inr x \<longleftrightarrow> m = Inr x"
  by (simp add: at_step_def map_err_Inr_iff)

lemma at_step_simps [simp]: "at_step (Inl e) n = Inl (Refused n e)" "at_step (Inr x) n = Inr x"
  by (simp_all add: at_step_def)

lemma opt_bytes16_Inr_iff [result_simps]:
  "opt_bytes16 v k = Inr ob \<longleftrightarrow> value_get v k = map_option Bytes ob \<and> (\<forall>b. ob = Some b \<longrightarrow> length b = 16)"
proof -
  have "opt_bytes16 v k = Inr ob \<longleftrightarrow> f_opt_bytes v k = Inr ob \<and> (\<forall>b. ob = Some b \<longrightarrow> length b = 16)"
    by (cases "f_opt_bytes v k") (auto simp: opt_bytes16_def split: option.splits if_splits)
  then show ?thesis by (simp only: f_Inr_iff)
qed

lemma bytes16_Inr_iff [result_simps]:
  "bytes16 v k = Inr b \<longleftrightarrow> value_get v k = Some (Bytes b) \<and> length b = 16"
proof -
  have "bytes16 v k = Inr b \<longleftrightarrow> opt_bytes16 v k = Inr (Some b)"
    by (cases "opt_bytes16 v k") (auto simp: bytes16_def split: option.splits)
  then show ?thesis by (simp add: opt_bytes16_Inr_iff)
qed

lemma not_ahead_iff [result_simps]: "not_ahead t now = Inr u \<longleftrightarrow> t \<le> sat_add now SKEW"
  by (auto simp: not_ahead_def not_less)

lemma value_get_cbor_map: "distinct (map fst fs) \<Longrightarrow> value_get (cbor_map fs) k = field fs k"
proof (induction fs)
  case (Cons p fs)
  obtain k' v where p: "p = (k', v)" by (cases p)
  have none: "map_of fs k' = None" using Cons.prems by (simp add: p map_of_eq_None_iff)
  have IH: "value_get (Map (entries_of fs)) k = field fs k" using Cons by (simp add: cbor_map_entries)
  show ?case
  proof (cases "k = k'")
    case True
    then show ?thesis using IH none by (cases v) (simp_all add: p cbor_map_entries entries_of_Cons value_get_def field_def)
  next
    case False
    then show ?thesis using IH by (cases v) (simp_all add: p cbor_map_entries entries_of_Cons value_get_def field_def)
  qed
qed (simp add: value_get_def field_def cbor_map_entries)

context signed_object
begin

lemma sealed_opens:
  assumes C: "crypto_ok C" "length device = 32" and x: "valid x"
    and sealed: "seal_object C (fields_of x) from c time device d = Inr bs"
  obtains env ce where "open_object bs read = Inr (x, env)" "cert_at c from time = Inr ce" "verify_with C ce env d = Inr ()"
    "length bs \<le> FRIEND_MAX_BYTES"
proof -
  let ?sign = "sign_domain C device d"
  obtain dc cenv where cert: "cert_at c from time = Inr (dc, cenv)" "envelope_verify C cenv (dc_identity dc) CERT_DOMAIN = Inr ()"
    "dc_device dc = ed_public C device" "bs = seal (fields_of x) ?sign" "length bs \<le> FRIEND_MAX_BYTES"
    using sealed by (auto simp: seal_object_def result_simps Let_def split: if_splits)
  obtain env where env: "envelope_open (seal (fields_of x) ?sign) = Inr env" "read (env_value env) = Inr x"
    "env_signed_bytes env = encode (cbor_map (fields_of x))" "env_sig env = ?sign (encode (cbor_map (fields_of x)))"
    by (rule open_sealed [OF x, of ?sign]) (simp_all add: length_sign_domain C)
  have "envelope_verify C env (dc_device dc) d = Inr ()"
    using C env cert(3) by (simp add: envelope_verify_def verify_sign_domain)
  with cert env show ?thesis by (intro that [of env "(dc, cenv)"]) (simp_all add: open_object_def verify_with_def)
qed

end

definition offer_valid :: "crypto \<Rightarrow> offer \<Rightarrow> bool" where
  "offer_valid C f \<longleftrightarrow> length (of_from f) = 32 \<and> length (of_to f) = 32 \<and> length (of_id f) = 16 \<and> length (of_cert f) < 2 ^ 64
     \<and> of_time f < of_expires f \<and> of_expires f \<le> sat_add (of_time f) OFFER_MAX_LIFETIME \<and> of_to f \<noteq> offerer C f"

definition acceptance_valid :: "acceptance \<Rightarrow> bool" where
  "acceptance_valid a \<longleftrightarrow> length (ac_offer a) = 32 \<and> length (ac_from a) = 32 \<and> length (ac_cert a) < 2 ^ 64"

definition withdrawal_valid :: "crypto \<Rightarrow> withdrawal \<Rightarrow> bool" where
  "withdrawal_valid C w \<longleftrightarrow> length (wd_from w) = 32 \<and> length (wd_pair w) = 32 \<and> length (wd_cert w) < 2 ^ 64
     \<and> (\<forall>p. wd_party w = Some p \<longrightarrow> length p = 32 \<and> p \<noteq> fingerprint_of C (wd_from w))"

lemmas friend_simps = field_defs bytes16_def opt_bytes16_def object_simps

interpretation off: signed_object offer_unsigned "offer_from_value C" "offer_valid C" for C
proof unfold_locales
  fix x
  assume "offer_valid C x"
  then show "fields_ok (offer_unsigned x)" by (intro fields_okI) (auto simp: offer_unsigned_def offer_valid_def object_simps)
next
  fix x v
  assume "offer_valid C x"
    and get: "\<And>k. k \<noteq> ''sig'' \<Longrightarrow> k \<noteq> ''ack'' \<Longrightarrow> value_get v k = map_option cbor_canon (field (offer_unsigned x) k)"
  then show "offer_from_value C v = Inr x"
    by (simp add: offer_from_value_def friend_simps offer_unsigned_def offer_valid_def offerer_def Let_def not_le not_less)
next
  fix x v
  assume "cbor_wf v" "offer_from_value C v = Inr x"
  then show "offer_valid C x"
    by (auto simp: offer_from_value_def offer_valid_def result_simps Let_def not_le not_less split: if_splits dest: value_get_Bytes)
qed

interpretation acc: signed_object acceptance_unsigned acceptance_from_value acceptance_valid
proof unfold_locales
  fix x
  assume "acceptance_valid x"
  then show "fields_ok (acceptance_unsigned x)" by (intro fields_okI) (auto simp: acceptance_unsigned_def acceptance_valid_def object_simps)
next
  fix x v
  assume "acceptance_valid x"
    and get: "\<And>k. k \<noteq> ''sig'' \<Longrightarrow> k \<noteq> ''ack'' \<Longrightarrow> value_get v k = map_option cbor_canon (field (acceptance_unsigned x) k)"
  then show "acceptance_from_value v = Inr x"
    by (simp add: acceptance_from_value_def friend_simps acceptance_unsigned_def acceptance_valid_def)
next
  fix x v
  assume "cbor_wf v" "acceptance_from_value v = Inr x"
  then show "acceptance_valid x" by (auto simp: acceptance_from_value_def acceptance_valid_def result_simps dest: value_get_Bytes)
qed

interpretation wdr: signed_object withdrawal_unsigned "withdrawal_from_value C" "withdrawal_valid C" for C
proof unfold_locales
  fix x
  assume "withdrawal_valid C x"
  then show "fields_ok (withdrawal_unsigned x)"
    by (intro fields_okI) (auto simp: withdrawal_unsigned_def withdrawal_valid_def object_simps split: option.splits)
next
  fix x v
  assume "withdrawal_valid C x"
    and get: "\<And>k. k \<noteq> ''sig'' \<Longrightarrow> k \<noteq> ''ack'' \<Longrightarrow> value_get v k = map_option cbor_canon (field (withdrawal_unsigned x) k)"
  then show "withdrawal_from_value C v = Inr x"
    by (cases "wd_party x") (simp_all add: withdrawal_from_value_def friend_simps withdrawal_unsigned_def withdrawal_valid_def)
next
  fix x v
  assume "cbor_wf v" "withdrawal_from_value C v = Inr x"
  then show "withdrawal_valid C x"
    by (auto simp: withdrawal_from_value_def withdrawal_valid_def result_simps split: if_splits dest: value_get_Bytes)
qed


subsection \<open>The end of a chain of rotations\<close>

definition rotates :: "crypto \<Rightarrow> rotation list \<Rightarrow> (bytes \<times> bytes) set" where
  "rotates C rs = (\<lambda>r. (fingerprint_of C (ro_identity r), fingerprint_of C (ro_successor r))) ` set rs"

definition unforked :: "crypto \<Rightarrow> rotation list \<Rightarrow> bytes \<Rightarrow> bool" where
  "unforked C rs x \<longleftrightarrow> (\<forall>r\<in>set rs. \<forall>r'\<in>set rs.
     fingerprint_of C (ro_identity r) = x \<longrightarrow> fingerprint_of C (ro_identity r') = x \<longrightarrow> ro_successor r = ro_successor r')"

abbreviation successors :: "crypto \<Rightarrow> rotation list \<Rightarrow> bytes \<Rightarrow> bytes list" where
  "successors C rs x \<equiv> map ro_successor (filter (\<lambda>r. fingerprint_of C (ro_identity r) = x) rs)"

lemma successors_rotates: "(x, y) \<in> rotates C rs \<longleftrightarrow> y \<in> fingerprint_of C ` set (successors C rs x)"
  by (auto simp: rotates_def)

lemma unforked_successors: "unforked C rs x \<longleftrightarrow> (\<forall>s\<in>set (successors C rs x). \<forall>t\<in>set (successors C rs x). s = t)"
  by (auto simp: unforked_def)

lemma chain_from_Some:
  "chain_from C rs n x = Some k \<longleftrightarrow> (\<exists>m<n. (x, k) \<in> rotates C rs ^^ m) \<and> k \<notin> Domain (rotates C rs)
     \<and> (rotates C rs)\<^sup>* `` {x} \<subseteq> {y. unforked C rs y}"
proof (induction n arbitrary: x)
  case (Suc n)
  let ?R = "rotates C rs"
  show ?case
  proof (cases "successors C rs x")
    case Nil
    then have out: "x \<notin> Domain ?R" by (auto simp: Domain_iff successors_rotates)
    then have "?R\<^sup>* `` {x} = {x}" by (auto elim: converse_rtranclE)
    moreover have "unforked C rs x" unfolding unforked_successors Nil by simp
    moreover have "(\<exists>m<Suc n. (x, k) \<in> ?R ^^ m) \<longleftrightarrow> k = x"
      using out by (auto intro: exI [of _ 0] elim: relpow_E2)
    ultimately show ?thesis using out Nil by auto
  next
    case (Cons s others)
    have inD: "x \<in> Domain ?R" using Cons by (auto simp: Domain_iff successors_rotates simp del: set_map)
    show ?thesis
    proof (cases "list_all (\<lambda>t. t = s) others")
      case True
      then have one: "(x, y) \<in> ?R \<longleftrightarrow> y = fingerprint_of C s" for y
        unfolding successors_rotates Cons by (auto simp: list_all_iff)
      have "unforked C rs x" unfolding unforked_successors Cons using True unfolding list_all_iff by (metis set_ConsD)
      moreover have "?R\<^sup>* `` {x} = insert x (?R\<^sup>* `` {fingerprint_of C s})"
        by (auto simp: one elim: converse_rtranclE intro: converse_rtrancl_into_rtrancl)
      moreover have "(\<exists>m<Suc n. (x, k) \<in> ?R ^^ m) \<longleftrightarrow> (\<exists>m<n. (fingerprint_of C s, k) \<in> ?R ^^ m)" if "k \<notin> Domain ?R"
      proof -
        have "(x, k) \<in> ?R ^^ m \<longleftrightarrow> (\<exists>m'. m = Suc m' \<and> (fingerprint_of C s, k) \<in> ?R ^^ m')" for m
        proof (cases m)
          case 0
          then show ?thesis using that inD by auto
        next
          case (Suc m')
          have "(x, k) \<in> ?R ^^ Suc m' \<longleftrightarrow> (\<exists>y. (x, y) \<in> ?R \<and> (y, k) \<in> ?R ^^ m')" by (meson relpow_Suc_D2 relpow_Suc_I2)
          then show ?thesis by (simp only: Suc one nat.inject ex_simps simp_thms)
        qed
        then show ?thesis by auto
      qed
      ultimately show ?thesis using True Cons Suc.IH by auto
    next
      case False
      then have "\<not> unforked C rs x" unfolding unforked_successors Cons by (auto simp: list_all_iff)
      then show ?thesis using False Cons by auto
    qed
  qed
qed simp

lemma card_rotates: "finite (rotates C rs)" "card (rotates C rs) \<le> length rs"
  unfolding rotates_def by (simp_all add: le_trans [OF card_image_le card_length])

lemma chain_end_Some:
  "chain_end C x rs = Some k \<longleftrightarrow> (x, k) \<in> (rotates C rs)\<^sup>* \<and> k \<notin> Domain (rotates C rs)
     \<and> (rotates C rs)\<^sup>* `` {x} \<subseteq> {y. unforked C rs y}"
proof -
  have "(\<exists>m<Suc (length rs). (x, k) \<in> rotates C rs ^^ m) \<longleftrightarrow> (x, k) \<in> (rotates C rs)\<^sup>*"
  proof
    assume "(x, k) \<in> (rotates C rs)\<^sup>*"
    then obtain m where "m \<le> card (rotates C rs)" "(x, k) \<in> rotates C rs ^^ m"
      using rtrancl_finite_eq_relpow [OF card_rotates(1) [of C rs]] by auto
    then show "\<exists>m<Suc (length rs). (x, k) \<in> rotates C rs ^^ m" using card_rotates(2) [of C rs] by (meson le_imp_less_Suc le_trans)
  qed (auto dest: relpow_imp_rtrancl)
  then show ?thesis by (simp only: chain_end_def chain_from_Some)
qed

lemma chain_end_self: "x \<notin> (\<lambda>r. fingerprint_of C (ro_identity r)) ` set rs \<Longrightarrow> chain_end C x rs = Some x"
proof -
  assume out: "x \<notin> (\<lambda>r. fingerprint_of C (ro_identity r)) ` set rs"
  then have "filter (\<lambda>r. fingerprint_of C (ro_identity r) = x) rs = []" by (auto simp: filter_empty_conv)
  then show ?thesis by (simp add: chain_end_def)
qed


subsection \<open>Making and ending friendships\<close>

lemma offer_signed:
  "offer_sign C device f = Inr bs \<longleftrightarrow> offer_valid C f
     \<and> seal_object C (offer_unsigned f) (of_from f) (of_cert f) (of_time f) device OFFER_DOMAIN = Inr bs"
proof -
  have get: "value_get (cbor_map (offer_unsigned f)) k = field (offer_unsigned f) k" for k
    by (rule value_get_cbor_map) (simp add: offer_unsigned_def)
  have read: "offer_from_value C (cbor_map (offer_unsigned f)) = Inr g \<longleftrightarrow> g = f \<and> length (of_from f) = 32 \<and> length (of_to f) = 32
      \<and> length (of_id f) = 16 \<and> of_time f < of_expires f \<and> of_expires f \<le> sat_add (of_time f) OFFER_MAX_LIFETIME \<and> of_to f \<noteq> offerer C f" for g
    by (auto simp: offer_from_value_def result_simps get Let_def offerer_def not_le not_less)
       (auto simp: offer_unsigned_def field_def)
  have "length (of_cert f) < 2 ^ 64" if "seal_object C (offer_unsigned f) (of_from f) (of_cert f) (of_time f) device OFFER_DOMAIN = Inr bs"
    using that by (auto simp: seal_object_def cert_at_def MESSAGE_CERT_MAX_BYTES_def result_simps split: if_splits)
  then show ?thesis unfolding offer_sign_def bindR_Inr_iff read offer_valid_def by auto
qed

lemma acceptance_signed:
  assumes "acceptance_sign C device a = Inr bs" "length (ac_offer a) = 32" "length (ac_from a) = 32"
  shows "acceptance_valid a"
  using assms
  by (auto simp: acceptance_sign_def acceptance_valid_def seal_object_def cert_at_def MESSAGE_CERT_MAX_BYTES_def result_simps split: if_splits)

lemma withdrawal_signed:
  assumes "withdrawal_sign C device w = Inr bs"
  shows "withdrawal_valid C w \<and> wd_before w \<le> wd_time w
    \<and> seal_object C (withdrawal_unsigned w) (wd_from w) (wd_cert w) (wd_time w) device WITHDRAW_DOMAIN = Inr bs"
proof -
  have get: "value_get (cbor_map (withdrawal_unsigned w)) k = field (withdrawal_unsigned w) k" for k
    by (rule value_get_cbor_map) (simp add: withdrawal_unsigned_def)
  obtain u where read: "withdrawal_from_value C (cbor_map (withdrawal_unsigned w)) = Inr u"
    and seal: "wd_before w \<le> wd_time w"
      "seal_object C (withdrawal_unsigned w) (wd_from w) (wd_cert w) (wd_time w) device WITHDRAW_DOMAIN = Inr bs"
    using assms by (auto simp: withdrawal_sign_def result_simps not_less split: if_splits)
  from seal(2) have "length (wd_cert w) < 2 ^ 64"
    by (auto simp: seal_object_def cert_at_def MESSAGE_CERT_MAX_BYTES_def result_simps split: if_splits)
  moreover have same: "Some (Bytes b) = map_option Bytes x \<longleftrightarrow> x = Some b" for b x by (cases x) auto
  have "length (wd_from w) = 32 \<and> length (wd_pair w) = 32
      \<and> (\<forall>p. wd_party w = Some p \<longrightarrow> length p = 32 \<and> p \<noteq> fingerprint_of C (wd_from w))"
    using read unfolding withdrawal_from_value_def bindR_Inr_iff f_Inr_iff get
    by (cases "wd_party w") (auto simp: withdrawal_unsigned_def field_def same split: if_splits)
  ultimately show ?thesis using seal by (simp add: withdrawal_valid_def)
qed

lemma split_encode:
  assumes "length ob \<le> FRIEND_MAX_BYTES" "length ab \<le> FRIEND_MAX_BYTES"
  shows "friendship_split (friendship_encode ob ab) = Inr (ob, ab)"
proof -
  have small: "length ob < 65536" "length ab < 65536" using assms by (simp_all add: FRIEND_MAX_BYTES_def)
  have "length (friendship_encode ob ab) \<le> FRIENDSHIP_MAX_BYTES"
    using assms length_put_head_small [OF small(1), of 2] length_put_head_small [OF small(2), of 2] length_put_head_tiny [of 2 4]
    by (simp add: friendship_encode_def FRIENDSHIP_MAX_BYTES_def)
  moreover have "decode_canonical (friendship_encode ob ab) = Inr (Array [Bytes ob, Bytes ab])"
    using small decode_canonical_encode [of "Array [Bytes ob, Bytes ab]"] by (simp add: friendship_encode_def MAX_DEPTH_def)
  ultimately show ?thesis by (simp add: friendship_split_def)
qed

text \<open>The withdrawals held decide last: without them the check is the same.\<close>

lemma friendship_check_held:
  "friendship_check C bs now ws = bindR (friendship_check C bs now []) (\<lambda>f.
     if \<exists>w\<in>set ws. friendship_ended_by C f w then Inl (Refused 6 Withdrawn) else Inr f)"
  unfolding friendship_check_def bindR_assoc
  by (intro bindR_cong refl) (auto simp: Let_def bindR_assoc intro!: bindR_cong)

lemma made_friendship:
  assumes C: "crypto_ok C" "length dev = 32" "length dev' = 32" "length (ac_from a) = 32"
    and signed: "offer_sign C dev f = Inr ob" "acceptance_sign C dev' a = Inr ab"
    and answers: "ac_offer a = sha256 C ob" "fingerprint_of C (ac_from a) = of_to f"
    and times: "of_time f \<le> ac_time a" "ac_time a \<le> of_expires f" "ac_time a \<le> sat_add now SKEW"
  shows "friendship_check C (friendship_encode ob ab) now []
    = Inr \<lparr>fr_offer = f, fr_acceptance = a, fr_hash = sha256 C (friendship_encode ob ab)\<rparr>"
proof -
  from signed(1) have f: "offer_valid C f" and so: "seal_object C (offer_unsigned f) (of_from f) (of_cert f) (of_time f) dev OFFER_DOMAIN = Inr ob"
    by (simp_all add: offer_signed)
  have "length (ac_offer a) = 32" using C(1) answers(1) by (simp add: crypto_ok_def)
  then have a: "acceptance_valid a" by (rule acceptance_signed [OF signed(2) _ C(4)])
  obtain oenv oce where off: "open_object ob (offer_from_value C) = Inr (f, oenv)" "cert_at (of_cert f) (of_from f) (of_time f) = Inr oce"
    "verify_with C oce oenv OFFER_DOMAIN = Inr ()" "length ob \<le> FRIEND_MAX_BYTES"
    by (rule off.sealed_opens [OF C(1,2) f so])
  obtain aenv ace where acc: "open_object ab acceptance_from_value = Inr (a, aenv)" "cert_at (ac_cert a) (ac_from a) (ac_time a) = Inr ace"
    "verify_with C ace aenv ACCEPT_DOMAIN = Inr ()" "length ab \<le> FRIEND_MAX_BYTES"
    by (rule acc.sealed_opens [OF C(1,3) a signed(2) [unfolded acceptance_sign_def]])
  have "ac_from a \<noteq> of_from f" using f answers(2) by (auto simp: offer_valid_def offerer_def)
  moreover have "not_ahead (of_time f) now = Inr ()" "not_ahead (ac_time a) now = Inr ()"
    using times order_trans [OF times(1,3)] by (simp_all add: not_ahead_iff)
  ultimately show ?thesis
    using off acc answers times by (simp add: friendship_check_def split_encode)
qed

text \<open>Checking a withdrawal in two stages, before and after its pair is known, takes the same withdrawals.\<close>

lemma withdrawal_two_stages:
  "withdrawal_check C bs now p rs = Inr h \<longleftrightarrow> (\<exists>k. withdrawal_parse C bs now = Inr k \<and> kept_check_pair C k p rs = Inr h)"
  by (auto simp: withdrawal_check_def withdrawal_parse_def result_simps)

lemma pair_new_contains: "pair_contains (pair_new a b) c \<longleftrightarrow> c = a \<or> c = b"
  by (auto simp: pair_contains_def pair_new_def)

lemma pair_new_commute: "pair_new a b = pair_new b a"
  by (auto simp: pair_new_def)

lemma friendship_check_later:
  assumes "friendship_check C bs now [] = Inr f" "now \<le> later"
  shows "friendship_check C bs later [] = Inr f"
  using assms order_trans [OF _ sat_add_mono [OF assms(2), of SKEW]]
  by (auto simp: friendship_check_def result_simps Let_def split: if_splits)

lemma friendship_check_pair:
  assumes "friendship_check C bs now ws = Inr f"
  shows "of_to (fr_offer f) = fingerprint_of C (ac_from (fr_acceptance f))"
    "friendship_pair C f = pair_new (fingerprint_of C (of_from (fr_offer f))) (fingerprint_of C (ac_from (fr_acceptance f)))"
  using assms by (auto simp: friendship_check_def result_simps Let_def friendship_pair_def offer_pair_def offerer_def split: if_splits)

lemma withdrawal_passes:
  assumes C: "crypto_ok C" "length device = 32" and signed: "withdrawal_sign C device w = Inr wb"
    and own: "wd_party w = None" "wd_pair w = pair_hash C p" "pair_contains p (fingerprint_of C (wd_from w))"
    and time: "wd_time w \<le> sat_add now SKEW"
    and fresh: "fingerprint_of C (wd_from w) \<notin> (\<lambda>r. fingerprint_of C (ro_identity r)) ` set rs"
  shows "withdrawal_check C wb now p rs = Inr (Held w)"
proof -
  note w = withdrawal_signed [OF signed]
  obtain env ce where env: "open_object wb (withdrawal_from_value C) = Inr (w, env)"
    "cert_at (wd_cert w) (wd_from w) (wd_time w) = Inr ce" "verify_with C ce env WITHDRAW_DOMAIN = Inr ()"
    by (rule wdr.sealed_opens [OF C w [THEN conjunct1] w [THEN conjunct2, THEN conjunct2]])
  have "pair_rules C w p rs = Inr ()"
  proof -
    have "\<forall>r\<in>set rs. fingerprint_of C (ro_identity r) \<noteq> fingerprint_of C (wd_from w)" using fresh by force
    then have "\<not> (\<exists>r\<in>set rs. fingerprint_of C (ro_identity r) = fingerprint_of C (wd_from w) \<and> ro_time r < wd_before w)" by blast
    then show ?thesis
      using own(2,3) chain_end_self [OF fresh] unfolding pair_rules_def Let_def effective_party_def own(1) pair_contains_def by auto
  qed
  with env w time show ?thesis
    by (simp add: withdrawal_check_def open_timed_def withdrawal_verify_def not_less not_ahead_def leD)
qed


lemma cert_at_sealed:
  assumes "crypto_ok C" "length key = 32" "cert_typed c" "cert_check_fields c = Inr ()" "dc_identity c = ed_public C key"
    and "length (seal (cert_unsigned c) (sign_domain C key CERT_DOMAIN)) \<le> MESSAGE_CERT_MAX_BYTES"
    and "cert_allows c cap_MESSAGE" "check_window (dc_issued c) (dc_expires c) time SKEW = Inr ()"
  obtains env where "cert_at (seal (cert_unsigned c) (sign_domain C key CERT_DOMAIN)) (dc_identity c) time = Inr (c, env)"
    "envelope_verify C env (dc_identity c) CERT_DOMAIN = Inr ()"
proof -
  obtain env where "cert_open (seal (cert_unsigned c) (sign_domain C key CERT_DOMAIN)) = Inr (c, env)"
    "envelope_verify C env (dc_identity c) CERT_DOMAIN = Inr ()"
    using cert_seal_parses [OF assms(1-5)] by (auto simp: cert_parse_def result_simps)
  with assms(6-8) show ?thesis by (intro that) (simp_all add: cert_at_def cert_require_def not_less)
qed

text \<open>The bound on an object can never be what refuses one whose certificate is within its own.\<close>

lemma fits:
  assumes "crypto_ok C" "length key = 32" "length fs < 22" "list_all2 (\<lambda>p m. field_size p \<le> m) fs ms" "71 + sum_list ms \<le> n"
  shows "length (seal fs (sign_domain C key d)) \<le> n"
  using sum_field_sizes [OF assms(4)] assms(5) length_seal [of "sign_domain C key d" fs] length_sign_domain [OF assms(1,2)] assms(3) by simp

lemma offer_fits:
  assumes "crypto_ok C" "length key = 32"
    and "length (of_from f) = 32" "length (of_to f) = 32" "length (of_id f) = 16" "length (of_cert f) \<le> MESSAGE_CERT_MAX_BYTES"
  shows "length (seal (offer_unsigned f) (sign_domain C key d)) \<le> FRIEND_MAX_BYTES"
  by (rule fits [OF assms(1,2), where ms = "[20, 50, 50, 20, 20, 30, 530]"])
    (use assms(3-) in \<open>simp_all add: offer_unsigned_def FRIEND_MAX_BYTES_def MESSAGE_CERT_MAX_BYTES_def size_bounds\<close>)

lemma acceptance_fits:
  assumes "crypto_ok C" "length key = 32" "length (ac_offer a) = 32" "length (ac_from a) = 32" "length (ac_cert a) \<le> MESSAGE_CERT_MAX_BYTES"
  shows "length (seal (acceptance_unsigned a) (sign_domain C key d)) \<le> FRIEND_MAX_BYTES"
  by (rule fits [OF assms(1,2), where ms = "[20, 50, 50, 20, 530]"])
    (use assms(3-) in \<open>simp_all add: acceptance_unsigned_def FRIEND_MAX_BYTES_def MESSAGE_CERT_MAX_BYTES_def size_bounds\<close>)

lemma withdrawal_fits:
  assumes "crypto_ok C" "length key = 32" "length (wd_from w) = 32" "length (wd_pair w) = 32" "length (wd_cert w) \<le> MESSAGE_CERT_MAX_BYTES"
    and "\<forall>p. wd_party w = Some p \<longrightarrow> length p = 32"
  shows "length (seal (withdrawal_unsigned w) (sign_domain C key d)) \<le> FRIEND_MAX_BYTES"
proof -
  have "field_size (''party'', map_option Bytes (wd_party w)) \<le> 50"
    using assms(6) by (cases "wd_party w") (auto intro: field_size_Bytes)
  then show ?thesis
    by (intro fits [OF assms(1,2), where ms = "[20, 50, 50, 50, 20, 20, 530]"])
      (use assms(3-) in \<open>simp_all add: withdrawal_unsigned_def FRIEND_MAX_BYTES_def MESSAGE_CERT_MAX_BYTES_def size_bounds\<close>)
qed


subsection \<open>Two friends\<close>

definition friend_key :: "u8 \<Rightarrow> bytes" where "friend_key n = replicate 32 n"

definition friend_cert :: "u8 \<Rightarrow> device_cert" where
  "friend_cert n = \<lparr>dc_identity = friend_key n, dc_device = friend_key (n + 1), dc_device_enc = friend_key 0, dc_issued = 10,
     dc_expires = 90, dc_caps = None, dc_name = None\<rparr>"

definition friend_cert_bytes :: "u8 \<Rightarrow> bytes" where
  "friend_cert_bytes n = seal (cert_unsigned (friend_cert n)) (sign_domain sample_crypto (friend_key n) CERT_DOMAIN)"

definition sample_offer :: offer where
  "sample_offer = \<lparr>of_from = friend_key 5, of_to = friend_key 7, of_time = 20, of_expires = 40, of_id = replicate 16 1,
     of_cert = friend_cert_bytes 5\<rparr>"

definition sample_offer_bytes :: bytes where
  "sample_offer_bytes = seal (offer_unsigned sample_offer) (sign_domain sample_crypto (friend_key 6) OFFER_DOMAIN)"

definition sample_acceptance :: acceptance where
  "sample_acceptance = \<lparr>ac_offer = sha256 sample_crypto sample_offer_bytes, ac_from = friend_key 7, ac_time = 30, ac_cert = friend_cert_bytes 7\<rparr>"

definition sample_acceptance_bytes :: bytes where
  "sample_acceptance_bytes = seal (acceptance_unsigned sample_acceptance) (sign_domain sample_crypto (friend_key 8) ACCEPT_DOMAIN)"

definition sample_withdrawal :: withdrawal where
  "sample_withdrawal = \<lparr>wd_from = friend_key 5, wd_pair = pair_hash sample_crypto (pair_new (friend_key 5) (friend_key 7)), wd_party = None,
     wd_before = 45, wd_time = 50, wd_cert = friend_cert_bytes 5\<rparr>"

definition sample_withdrawal_bytes :: bytes where
  "sample_withdrawal_bytes = seal (withdrawal_unsigned sample_withdrawal) (sign_domain sample_crypto (friend_key 6) WITHDRAW_DOMAIN)"

lemma length_friend_key [simp]: "length (friend_key n) = 32"
  by (simp add: friend_key_def)

lemma sample_keys: "fingerprint_of sample_crypto (friend_key n) = friend_key n" "ed_public sample_crypto k = k"
  by (simp_all add: fingerprint_of_def sample_crypto_def)

lemma length_sha: "length (sha256 sample_crypto bs) = 32"
  using sample_crypto_ok by (simp add: crypto_ok_def)

lemma sample_small:
  "length (friend_cert_bytes 5) \<le> MESSAGE_CERT_MAX_BYTES" "length (friend_cert_bytes 7) \<le> MESSAGE_CERT_MAX_BYTES"
  "length sample_offer_bytes \<le> FRIEND_MAX_BYTES" "length sample_acceptance_bytes \<le> FRIEND_MAX_BYTES"
  "length sample_withdrawal_bytes \<le> FRIEND_MAX_BYTES"
proof -
  show cert: "length (friend_cert_bytes 5) \<le> MESSAGE_CERT_MAX_BYTES" "length (friend_cert_bytes 7) \<le> MESSAGE_CERT_MAX_BYTES"
    unfolding friend_cert_bytes_def MESSAGE_CERT_MAX_BYTES_def
    by (rule fits [OF sample_crypto_ok length_friend_key, where ms = "[20, 50, 50, 50, 20, 20, 0, 0]"]; simp add: cert_unsigned_def friend_cert_def size_bounds)+
  show "length sample_offer_bytes \<le> FRIEND_MAX_BYTES" "length sample_withdrawal_bytes \<le> FRIEND_MAX_BYTES"
    "length sample_acceptance_bytes \<le> FRIEND_MAX_BYTES"
    unfolding sample_offer_bytes_def sample_withdrawal_bytes_def sample_acceptance_bytes_def
    using cert by (simp_all add: offer_fits acceptance_fits withdrawal_fits sample_crypto_ok sample_offer_def sample_withdrawal_def sample_acceptance_def pair_hash_def length_sha)
qed

lemma friend_cert_at:
  assumes "length (friend_cert_bytes n) \<le> MESSAGE_CERT_MAX_BYTES" "check_window 10 90 time SKEW = Inr ()"
  obtains env where "cert_at (friend_cert_bytes n) (friend_key n) time = Inr (friend_cert n, env)"
    "envelope_verify sample_crypto env (friend_key n) CERT_DOMAIN = Inr ()"
  by (rule cert_at_sealed [OF sample_crypto_ok length_friend_key, of "friend_cert n" n time])
    (use assms in \<open>simp_all add: friend_cert_bytes_def, simp_all add: friend_cert_def cert_typed_def cert_check_fields_def cert_allows_def sample_keys\<close>)


lemma sample_sat: "sat_add 20 OFFER_MAX_LIFETIME = 2592020" "sat_add 60 SKEW = 660" "sat_add n SKEW < 10 \<longleftrightarrow> False"
  "check_window 10 90 20 SKEW = Inr ()" "check_window 10 90 30 SKEW = Inr ()" "check_window 10 90 50 SKEW = Inr ()"
proof -
  show "sat_add 20 OFFER_MAX_LIFETIME = 2592020" "sat_add 60 SKEW = 660"
    by (simp_all add: sat_add_def OFFER_MAX_LIFETIME_def SKEW_def)
  show "sat_add n SKEW < 10 \<longleftrightarrow> False" by (simp add: word_less_nat_alt unat_sat_add SKEW_def)
  show "check_window 10 90 20 SKEW = Inr ()" "check_window 10 90 30 SKEW = Inr ()" "check_window 10 90 50 SKEW = Inr ()"
    by (simp_all add: check_window_def sat_add_def SKEW_def)
qed

lemma sample_offer_signed: "offer_sign sample_crypto (friend_key 6) sample_offer = Inr sample_offer_bytes"
proof -
  obtain env where env: "cert_at (friend_cert_bytes 5) (friend_key 5) 20 = Inr (friend_cert 5, env)"
    "envelope_verify sample_crypto env (friend_key 5) CERT_DOMAIN = Inr ()"
    by (rule friend_cert_at [OF sample_small(1) sample_sat(4)])
  have "friend_key 7 \<noteq> friend_key 5" by (simp add: friend_key_def)
  moreover have "length (friend_cert_bytes 5) < 2 ^ 64" using sample_small(1) by (simp add: MESSAGE_CERT_MAX_BYTES_def)
  ultimately have "offer_valid sample_crypto sample_offer"
    by (simp add: offer_valid_def sample_offer_def offerer_def sample_keys sample_sat)
  moreover have "seal_object sample_crypto (offer_unsigned sample_offer) (friend_key 5) (friend_cert_bytes 5) 20 (friend_key 6) OFFER_DOMAIN = Inr sample_offer_bytes"
    using env sample_small(3) by (simp add: seal_object_def Let_def friend_cert_def sample_keys sample_offer_bytes_def [symmetric])
  ultimately show ?thesis unfolding offer_signed by (simp add: sample_offer_def)
qed

lemma sample_acceptance_signed: "acceptance_sign sample_crypto (friend_key 8) sample_acceptance = Inr sample_acceptance_bytes"
proof -
  obtain env where env: "cert_at (friend_cert_bytes 7) (friend_key 7) 30 = Inr (friend_cert 7, env)"
    "envelope_verify sample_crypto env (friend_key 7) CERT_DOMAIN = Inr ()"
    by (rule friend_cert_at [OF sample_small(2) sample_sat(5)])
  have "seal_object sample_crypto (acceptance_unsigned sample_acceptance) (friend_key 7) (friend_cert_bytes 7) 30 (friend_key 8) ACCEPT_DOMAIN = Inr sample_acceptance_bytes"
    using env sample_small(4) by (simp add: seal_object_def Let_def friend_cert_def sample_keys sample_acceptance_bytes_def [symmetric])
  then show ?thesis by (simp add: acceptance_sign_def sample_acceptance_def)
qed

lemma sample_withdrawal_signed: "withdrawal_sign sample_crypto (friend_key 6) sample_withdrawal = Inr sample_withdrawal_bytes"
proof -
  obtain env where env: "cert_at (friend_cert_bytes 5) (friend_key 5) 50 = Inr (friend_cert 5, env)"
    "envelope_verify sample_crypto env (friend_key 5) CERT_DOMAIN = Inr ()"
    by (rule friend_cert_at [OF sample_small(1) sample_sat(6)])
  have "seal_object sample_crypto (withdrawal_unsigned sample_withdrawal) (friend_key 5) (friend_cert_bytes 5) 50 (friend_key 6) WITHDRAW_DOMAIN = Inr sample_withdrawal_bytes"
    using env sample_small(5) by (simp add: seal_object_def Let_def friend_cert_def sample_keys sample_withdrawal_bytes_def [symmetric])
  moreover have "value_get (cbor_map (withdrawal_unsigned sample_withdrawal)) k = field (withdrawal_unsigned sample_withdrawal) k" for k
    by (rule value_get_cbor_map) (simp add: withdrawal_unsigned_def)
  then have "withdrawal_from_value sample_crypto (cbor_map (withdrawal_unsigned sample_withdrawal)) = Inr sample_withdrawal"
    by (simp add: withdrawal_from_value_def friend_simps withdrawal_unsigned_def sample_withdrawal_def pair_hash_def length_sha)
  ultimately show ?thesis by (simp add: withdrawal_sign_def) (simp add: sample_withdrawal_def)
qed

definition sample_friendship :: friendship where
  "sample_friendship = \<lparr>fr_offer = sample_offer, fr_acceptance = sample_acceptance,
     fr_hash = sha256 sample_crypto (friendship_encode sample_offer_bytes sample_acceptance_bytes)\<rparr>"

lemma sample_times:
  "ac_offer sample_acceptance = sha256 sample_crypto sample_offer_bytes" "fingerprint_of sample_crypto (ac_from sample_acceptance) = of_to sample_offer"
  "of_time sample_offer \<le> ac_time sample_acceptance" "ac_time sample_acceptance \<le> of_expires sample_offer"
  "ac_time sample_acceptance \<le> sat_add 60 SKEW" "length (ac_from sample_acceptance) = 32"
  by (simp_all add: sample_acceptance_def sample_offer_def sample_keys sample_sat)

text \<open>An offer and an acceptance that names it by hash, each signed through a good certificate, the acceptance by the
  one the offer is to and between the offer's time and its expiry, make a friendship that every checker whose clock is not
  behind takes back as those two, unless it holds a withdrawal that ends one of the halves; then, and only then, it
  refuses it, at the last step.\<close>

theorem friendship_made:
  assumes C: "crypto_ok C" "length dev = 32" "length dev' = 32" "length (ac_from a) = 32"
    and signed: "offer_sign C dev f = Inr ob" "acceptance_sign C dev' a = Inr ab"
    and answers: "ac_offer a = sha256 C ob" "fingerprint_of C (ac_from a) = of_to f"
    and times: "of_time f \<le> ac_time a" "ac_time a \<le> of_expires f" "ac_time a \<le> sat_add now SKEW"
  shows "friendship_check C (friendship_encode ob ab) now ws =
    (let fs = \<lparr>fr_offer = f, fr_acceptance = a, fr_hash = sha256 C (friendship_encode ob ab)\<rparr> in
     if \<exists>w\<in>set ws. friendship_ended_by C fs w then Inl (Refused 6 Withdrawn) else Inr fs)"
  unfolding friendship_check_held [of C _ now ws] made_friendship [OF assms] by (simp add: Let_def)

theorem friendship_made_witness:
  "friendship_check sample_crypto (friendship_encode sample_offer_bytes sample_acceptance_bytes) 60 [] = Inr sample_friendship"
  using friendship_made [OF sample_crypto_ok length_friend_key length_friend_key sample_times(6) sample_offer_signed sample_acceptance_signed
    sample_times(1-5), of "[]"] by (simp add: sample_friendship_def)

text \<open>C8: Either friend can end a friendship: a withdrawal the friend signs with its own identity, dated after its own half,
  passes the whole check of every server that has seen no rotation away from that identity, and a server that holds it
  refuses the friendship from then on, whatever else it holds.\<close>

theorem withdrawal_ends_friendship:
  assumes C: "crypto_ok C" "length device = 32"
    and f: "friendship_check C fb now ws = Inr f" "now \<le> later"
    and signed: "withdrawal_sign C device w = Inr wb" "wd_party w = None" "wd_pair w = pair_hash C (friendship_pair C f)"
    and half: "wd_from w = of_from (fr_offer f) \<and> of_time (fr_offer f) < wd_before w
      \<or> wd_from w = ac_from (fr_acceptance f) \<and> ac_time (fr_acceptance f) < wd_before w"
    and time: "wd_time w \<le> sat_add later SKEW"
    and fresh: "fingerprint_of C (wd_from w) \<notin> (\<lambda>r. fingerprint_of C (ro_identity r)) ` set rs"
  shows "\<exists>h. withdrawal_check C wb later (friendship_pair C f) rs = Inr h
    \<and> friendship_check C fb later (ws' @ h # ws'') = Inl (Refused 6 Withdrawn)"
proof -
  note p = friendship_check_pair [OF f(1)]
  have "pair_contains (friendship_pair C f) (fingerprint_of C (wd_from w))" using half by (auto simp: p(2) pair_new_contains)
  from withdrawal_passes [OF C signed this time fresh]
  have check: "withdrawal_check C wb later (friendship_pair C f) rs = Inr (Held w)" .
  have "friendship_check C fb now [] = Inr f" using f(1) unfolding friendship_check_held [of C fb now ws] by (auto simp: result_simps split: if_splits)
  from friendship_check_later [OF this f(2)] have later: "friendship_check C fb later [] = Inr f" .
  have "friendship_ended_by C f (Held w)"
    using half signed(2,3) p(1)
    by (auto simp: friendship_ended_by_def friendship_cut_by_def cutoff_ends_def effective_party_def offerer_def)
  then show ?thesis using check later unfolding friendship_check_held [of C fb later "ws' @ _ # ws''"] by auto
qed

theorem withdrawal_ends_friendship_witness:
  "\<exists>h. withdrawal_check sample_crypto sample_withdrawal_bytes 60 (friendship_pair sample_crypto sample_friendship) [] = Inr h
    \<and> friendship_check sample_crypto (friendship_encode sample_offer_bytes sample_acceptance_bytes) 60 ([] @ h # [])
      = Inl (Refused 6 Withdrawn)"
proof (rule withdrawal_ends_friendship [OF sample_crypto_ok length_friend_key _ order_refl sample_withdrawal_signed])
  show "friendship_check sample_crypto (friendship_encode sample_offer_bytes sample_acceptance_bytes) 60 [] = Inr sample_friendship"
    unfolding sample_friendship_def
    by (rule made_friendship [OF sample_crypto_ok length_friend_key length_friend_key sample_times(6) sample_offer_signed
      sample_acceptance_signed sample_times(1-5)])
qed (simp_all add: sample_withdrawal_def sample_friendship_def sample_offer_def friendship_pair_def offer_pair_def offerer_def sample_keys sample_sat)

text \<open>C11: A checker takes a withdrawal exactly when it could have kept it before it knew the pair, it is for this pair, its
  party is one of the pair, and its signer is the one key an unforked chain of rotations from one of the pair ends in, so
  never a key the checker saw rotated away from; and it reaches no further back than the rotation of a party that rotated.\<close>

theorem withdrawal_taken:
  "withdrawal_check C bs now p rs = Inr (Held w) \<longleftrightarrow>
     withdrawal_parse C bs now = Inr (Kept w) \<and> wd_pair w = pair_hash C p \<and> pair_contains p (effective_party C w)
     \<and> (\<exists>start. pair_contains p start \<and> (start, fingerprint_of C (wd_from w)) \<in> (rotates C rs)\<^sup>*
          \<and> (rotates C rs)\<^sup>* `` {start} \<subseteq> {y. unforked C rs y})
     \<and> fingerprint_of C (wd_from w) \<notin> Domain (rotates C rs)
     \<and> list_all (\<lambda>r. wd_before w \<le> ro_time r) (filter (\<lambda>r. fingerprint_of C (ro_identity r) = effective_party C w) rs)"
proof -
  have ends: "chain_end C (pa_lo p) rs = Some k \<or> chain_end C (pa_hi p) rs = Some k \<longleftrightarrow>
      (\<exists>start. pair_contains p start \<and> (start, k) \<in> (rotates C rs)\<^sup>* \<and> (rotates C rs)\<^sup>* `` {start} \<subseteq> {y. unforked C rs y})
      \<and> k \<notin> Domain (rotates C rs)" for k
    unfolding chain_end_Some pair_contains_def by blast
  have "withdrawal_check C bs now p rs = Inr (Held w) \<longleftrightarrow> withdrawal_parse C bs now = Inr (Kept w) \<and> pair_rules C w p rs = Inr ()"
    by (auto simp: withdrawal_check_def withdrawal_parse_def result_simps)
  also have "pair_rules C w p rs = Inr () \<longleftrightarrow> wd_pair w = pair_hash C p \<and> pair_contains p (effective_party C w)
      \<and> (chain_end C (pa_lo p) rs = Some (fingerprint_of C (wd_from w)) \<or> chain_end C (pa_hi p) rs = Some (fingerprint_of C (wd_from w)))
      \<and> list_all (\<lambda>r. wd_before w \<le> ro_time r) (filter (\<lambda>r. fingerprint_of C (ro_identity r) = effective_party C w) rs)"
    by (auto simp: pair_rules_def Let_def list_all_iff not_le [symmetric])
  finally show ?thesis unfolding ends by blast
qed

end
