(* ===== verification/Signed_Messages.thy ===== *)
theory Signed_Messages
  imports Friendships
begin

section \<open>Signed messages\<close>

text \<open>
  \<^verbatim>\<open>crates/hl-identity/src/message.rs\<close>: a private message, a line of public chat and a news article, each signed by the sender
  device's key and bound to its scope; their whole, detached and link forms; the states a reader shows them in; and the
  padding a sealed one is sent in.  The trait \<open>Object\<close> is the record \<open>object_ops\<close> of what its three implementations
  provide, and the functions of \<open>Signed<T>\<close> take it as an argument.  The texts of a detached form are a list as long as
  \<open>TEXT_KEYS\<close>, which the trait's array type makes sure of.
\<close>

definition MESSAGE_DOMAIN :: string where "MESSAGE_DOMAIN = ''hl-identity/message/v1''"
definition CHAT_DOMAIN :: string where "CHAT_DOMAIN = ''hl-identity/chat/v1''"
definition NEWS_DOMAIN :: string where "NEWS_DOMAIN = ''hl-identity/news/v1''"
definition DETACHED_MAX_BYTES :: nat where "DETACHED_MAX_BYTES = 1020"
definition LINK_MAX_BYTES :: nat where "LINK_MAX_BYTES = 256"
definition PAD_SIZES :: "nat list" where "PAD_SIZES = [512, 1024, 2048, 4096, 8192, 17103]"
definition DENIABLE_KEY_BYTES :: nat where "DENIABLE_KEY_BYTES = 32"

definition head_len :: "nat \<Rightarrow> nat" where
  "head_len n = (if n < 24 then 1 else if n \<le> 0xff then 2 else if n \<le> 0xffff then 3 else 5)"

definition text_entry :: "nat \<Rightarrow> nat \<Rightarrow> nat" where
  "text_entry key_len max_len = head_len key_len + key_len + head_len max_len + max_len"

text \<open>\<open>replace("\r\n", "\n")\<close>, then \<open>replace('\r', "\n")\<close>.\<close>

abbreviation CR :: char where "CR \<equiv> CHR 0x0D"
abbreviation LF :: char where "LF \<equiv> CHR 0x0A"

fun replace_crlf :: "string \<Rightarrow> string" where
  "replace_crlf (c # d # s) = (if c = CR \<and> d = LF then LF # replace_crlf s else c # replace_crlf (d # s))"
| "replace_crlf s = s"

definition canonicalize :: "string \<Rightarrow> string" where
  "canonicalize s = map (\<lambda>c. if c = CR then LF else c) (replace_crlf s)"

definition is_canonical :: "string \<Rightarrow> bool" where
  "is_canonical s \<longleftrightarrow> \<not> (\<exists>c\<in>set (str_chars s). c < 0x20 \<and> c \<noteq> 0x0A \<and> c \<noteq> 0x09)"

definition canonical_value :: "string \<Rightarrow> cbor_value" where
  "canonical_value s = Text (canonicalize s)"


subsection \<open>Fields\<close>

definition refuse :: "cbor_value \<Rightarrow> string \<Rightarrow> id_error + unit" where
  "refuse v key = (case value_get v key of Some _ \<Rightarrow> Inl (BadField key) | None \<Rightarrow> Inr ())"

definition common :: "cbor_value \<Rightarrow> id_error + bytes \<times> u64 \<times> bytes" where
  "common v =
     bindR (refuse v ''cert_sha256'') (\<lambda>_.
     bindR (bytes16 v ''id'') (\<lambda>id.
     bindR (f_uint v ''sent'') (\<lambda>sent.
     bindR (f_bytes v ''cert'') (\<lambda>c. Inr (id, sent, c)))))"

definition key_among :: "string list \<Rightarrow> cbor_value \<Rightarrow> bool" where
  "key_among allowed k = (case k of Text t \<Rightarrow> t \<in> set allowed | _ \<Rightarrow> False)"

definition exact :: "cbor_value \<Rightarrow> string \<Rightarrow> string list \<Rightarrow> id_error + cbor_value" where
  "exact v key allowed =
     (case value_get v key of
        Some (Map es) \<Rightarrow> if list_all (\<lambda>p. key_among allowed (fst p)) es then Inr (Map es) else Inl (BadField key)
      | Some _ \<Rightarrow> Inl (BadField key)
      | None \<Rightarrow> Inl (MissingField key))"

definition only_true :: "cbor_value \<Rightarrow> string \<Rightarrow> id_error + bool" where
  "only_true v key = bindR (f_opt_bool v key) (\<lambda>b. if b = Some False then Inl (BadField key) else Inr (b \<noteq> None))"

definition check_text :: "string \<Rightarrow> string \<Rightarrow> nat \<Rightarrow> nat \<Rightarrow> id_error + unit" where
  "check_text s key mn mx = (if \<not> is_canonical s \<or> length s < mn \<or> mx < length s then Inl (BadField key) else Inr ())"

definition check_cert :: "crypto \<Rightarrow> bytes \<Rightarrow> u64 \<Rightarrow> u64 \<Rightarrow> id_error + device_cert" where
  "check_cert C bs sent at =
     (if MESSAGE_CERT_MAX_BYTES < length bs then Inl (BadField ''cert'')
      else bindR (cert_parse C bs) (\<lambda>c.
           bindR (cert_require c cap_MESSAGE) (\<lambda>_.
           bindR (check_window (dc_issued c) (dc_expires c) sent SKEW) (\<lambda>_.
           bindR (check_window (dc_issued c) (dc_expires c) at SKEW) (\<lambda>_. Inr c)))))"


subsection \<open>The three objects\<close>

datatype place = Here | Elsewhere | UnknownPlace

record ('m, 's) object_ops =
  op_domain :: string
  op_text_keys :: "string list"
  op_whole_max :: nat
  op_id :: "'m \<Rightarrow> bytes"
  op_sent :: "'m \<Rightarrow> u64"
  op_cert :: "'m \<Rightarrow> bytes"
  op_unsigned :: "'m \<Rightarrow> fields"
  op_from_value :: "cbor_value \<Rightarrow> bool \<Rightarrow> id_error + 'm"
  op_place :: "'m \<Rightarrow> 's \<Rightarrow> place"

record private_message =
  pm_id :: bytes
  pm_sent :: u64
  pm_to :: bytes
  pm_cert :: bytes
  pm_text :: string
  pm_quote :: "string option"
  pm_auto :: bool

definition pm_unsigned :: "private_message \<Rightarrow> fields" where
  "pm_unsigned m =
     [(''v'', Some (Uint VERSION)),
      (''id'', Some (Bytes (pm_id m))),
      (''sent'', Some (Uint (pm_sent m))),
      (''to'', Some (Bytes (pm_to m))),
      (''cert'', Some (Bytes (pm_cert m))),
      (''text'', Some (canonical_value (pm_text m))),
      (''quote'', map_option canonical_value (pm_quote m)),
      (''auto'', if pm_auto m then Some (Bool True) else None)]"

definition pm_from_value :: "cbor_value \<Rightarrow> bool \<Rightarrow> id_error + private_message" where
  "pm_from_value v detached =
     bindR (refuse v ''in'') (\<lambda>_.
     bindR (common v) (\<lambda>(id, sent, c).
     bindR (f_opt_text v ''quote'') (\<lambda>quote.
     bindR (case quote of
         Some q \<Rightarrow> if detached then Inl (BadField ''quote'') else check_text q ''quote'' 1 8192
       | None \<Rightarrow> Inr ()) (\<lambda>_.
     bindR (f_text v ''text'') (\<lambda>s.
     bindR (check_text s ''text'' 1 (if detached then 4096 else 8192)) (\<lambda>_.
     bindR (f_bytes32 v ''to'') (\<lambda>to.
     bindR (only_true v ''auto'') (\<lambda>auto.
       Inr \<lparr>pm_id = id, pm_sent = sent, pm_to = to, pm_cert = c, pm_text = s, pm_quote = quote, pm_auto = auto\<rparr>))))))))"

definition pm_place :: "private_message \<Rightarrow> bytes option \<Rightarrow> place" where
  "pm_place m reader = (case reader of None \<Rightarrow> UnknownPlace | Some fp \<Rightarrow> if fp = pm_to m then Here else Elsewhere)"

definition private_messages :: "(private_message, bytes option) object_ops" where
  "private_messages = \<lparr>op_domain = MESSAGE_DOMAIN, op_text_keys = [''text''], op_whole_max = last PAD_SIZES, op_id = pm_id,
     op_sent = pm_sent, op_cert = pm_cert, op_unsigned = pm_unsigned, op_from_value = pm_from_value, op_place = pm_place\<rparr>"

record chat_line =
  cl_id :: bytes
  cl_sent :: u64
  cl_server :: bytes
  cl_room :: u64
  cl_cert :: bytes
  cl_text :: string
  cl_act :: bool

record chat_scope =
  cs_server :: "bytes option"
  cs_room :: u64

definition cl_unsigned :: "chat_line \<Rightarrow> fields" where
  "cl_unsigned m =
     [(''v'', Some (Uint VERSION)),
      (''id'', Some (Bytes (cl_id m))),
      (''sent'', Some (Uint (cl_sent m))),
      (''in'', Some (cbor_map [(''server'', Some (Bytes (cl_server m))), (''room'', Some (Uint (cl_room m)))])),
      (''cert'', Some (Bytes (cl_cert m))),
      (''text'', Some (canonical_value (cl_text m))),
      (''act'', if cl_act m then Some (Bool True) else None)]"

definition cl_from_value :: "cbor_value \<Rightarrow> bool \<Rightarrow> id_error + chat_line" where
  "cl_from_value v detached =
     bindR (refuse v ''to'') (\<lambda>_.
     bindR (common v) (\<lambda>(id, sent, c).
     bindR (exact v ''in'' [''server'', ''room'']) (\<lambda>scope.
     bindR (f_text v ''text'') (\<lambda>s.
     bindR (check_text s ''text'' 1 4096) (\<lambda>_.
     bindR (map_err (\<lambda>_. BadField ''in'') (f_bytes32 scope ''server'')) (\<lambda>server.
     bindR (map_err (\<lambda>_. BadField ''in'') (f_uint scope ''room'')) (\<lambda>room.
     bindR (only_true v ''act'') (\<lambda>act.
       Inr \<lparr>cl_id = id, cl_sent = sent, cl_server = server, cl_room = room, cl_cert = c, cl_text = s, cl_act = act\<rparr>))))))))"

definition cl_place :: "chat_line \<Rightarrow> chat_scope \<Rightarrow> place" where
  "cl_place m expect =
     (case cs_server expect of
        None \<Rightarrow> UnknownPlace
      | Some server \<Rightarrow> if server = cl_server m \<and> cs_room expect = cl_room m then Here else Elsewhere)"

definition chat_lines :: "(chat_line, chat_scope) object_ops" where
  "chat_lines = \<lparr>op_domain = CHAT_DOMAIN, op_text_keys = [''text''], op_whole_max = DETACHED_MAX_BYTES + text_entry 4 4096 + 1, op_id = cl_id,
     op_sent = cl_sent, op_cert = cl_cert, op_unsigned = cl_unsigned, op_from_value = cl_from_value, op_place = cl_place\<rparr>"

record parent =
  pt_article :: u64
  pt_signed :: "(bytes \<times> bytes) option"

record article =
  ar_id :: bytes
  ar_sent :: u64
  ar_server :: bytes
  ar_category :: bytes
  ar_parent :: "parent option"
  ar_cert :: bytes
  ar_subject :: string
  ar_body :: string
  ar_mime :: string

record news_scope =
  ns_server :: bytes
  ns_category :: bytes
  ns_parent :: "parent option"

definition ar_unsigned :: "article \<Rightarrow> fields" where
  "ar_unsigned m =
     [(''v'', Some (Uint VERSION)),
      (''id'', Some (Bytes (ar_id m))),
      (''sent'', Some (Uint (ar_sent m))),
      (''in'', Some (cbor_map [(''server'', Some (Bytes (ar_server m))), (''category'', Some (Bytes (ar_category m)))])),
      (''parent'', map_option (\<lambda>p. cbor_map
         [(''article'', Some (Uint (pt_article p))),
          (''id'', map_option (\<lambda>s. Bytes (fst s)) (pt_signed p)),
          (''by'', map_option (\<lambda>s. Bytes (snd s)) (pt_signed p))]) (ar_parent m)),
      (''cert'', Some (Bytes (ar_cert m))),
      (''subject'', Some (canonical_value (ar_subject m))),
      (''body'', Some (canonical_value (ar_body m))),
      (''mime'', Some (Text (ar_mime m)))]"

definition parent_from_value :: "cbor_value \<Rightarrow> id_error + parent option" where
  "parent_from_value v =
     (case value_get v ''parent'' of
        None \<Rightarrow> Inr None
      | Some _ \<Rightarrow>
          bindR (exact v ''parent'' [''article'', ''id'', ''by'']) (\<lambda>p.
          bindR (map_err (\<lambda>_. BadField ''parent'') (opt_bytes16 p ''id'')) (\<lambda>mid.
          bindR (map_err (\<lambda>_. BadField ''parent'') (f_opt_bytes32 p ''by'')) (\<lambda>by.
          bindR (case (mid, by) of
              (Some i, Some b) \<Rightarrow> Inr (Some (i, b))
            | (None, None) \<Rightarrow> Inr None
            | _ \<Rightarrow> Inl (BadField ''parent'')) (\<lambda>signed.
          bindR (map_err (\<lambda>_. BadField ''parent'') (f_uint p ''article'')) (\<lambda>a.
            Inr (Some \<lparr>pt_article = a, pt_signed = signed\<rparr>)))))))"

definition ar_from_value :: "cbor_value \<Rightarrow> bool \<Rightarrow> id_error + article" where
  "ar_from_value v detached =
     bindR (refuse v ''to'') (\<lambda>_.
     bindR (common v) (\<lambda>(id, sent, c).
     bindR (exact v ''in'' [''server'', ''category'']) (\<lambda>scope.
     bindR (parent_from_value v) (\<lambda>parent.
     bindR (f_text v ''subject'') (\<lambda>subject.
     bindR (check_text subject ''subject'' 1 255) (\<lambda>_.
     bindR (guardR (LF \<notin> set subject) (BadField ''subject'')) (\<lambda>_.
     bindR (f_text v ''body'') (\<lambda>body.
     bindR (check_text body ''body'' 0 65535) (\<lambda>_.
     bindR (f_text v ''mime'') (\<lambda>mime.
     bindR (guardR (mime = ''text/plain'' \<or> mime = ''text/markdown'') (BadField ''mime'')) (\<lambda>_.
     bindR (map_err (\<lambda>_. BadField ''in'') (f_bytes32 scope ''server'')) (\<lambda>server.
     bindR (map_err (\<lambda>_. BadField ''in'') (bytes16 scope ''category'')) (\<lambda>category.
       Inr \<lparr>ar_id = id, ar_sent = sent, ar_server = server, ar_category = category, ar_parent = parent, ar_cert = c,
            ar_subject = subject, ar_body = body, ar_mime = mime\<rparr>)))))))))))))"

definition ar_place :: "article \<Rightarrow> news_scope \<Rightarrow> place" where
  "ar_place m expect =
     (if ns_server expect = ar_server m \<and> ns_category expect = ar_category m \<and> ns_parent expect = ar_parent m then Here else Elsewhere)"

definition articles :: "(article, news_scope) object_ops" where
  "articles = \<lparr>op_domain = NEWS_DOMAIN, op_text_keys = [''subject'', ''body''],
     op_whole_max = DETACHED_MAX_BYTES + text_entry 7 255 + text_entry 4 65535 + 1, op_id = ar_id,
     op_sent = ar_sent, op_cert = ar_cert, op_unsigned = ar_unsigned, op_from_value = ar_from_value, op_place = ar_place\<rparr>"


subsection \<open>Signing, and the three forms\<close>

definition object_sign :: "crypto \<Rightarrow> ('m, 's) object_ops \<Rightarrow> bytes \<Rightarrow> 'm \<Rightarrow> id_error + bytes" where
  "object_sign C T device m =
     bindR (op_from_value T (cbor_map (op_unsigned T m)) False) (\<lambda>_.
     bindR (check_cert C (op_cert T m) (op_sent T m) (op_sent T m)) (\<lambda>c.
       if dc_device c \<noteq> ed_public C device then Inl KeyMismatch
       else Inr (seal (op_unsigned T m) (sign_domain C device (op_domain T)))))"

record 'm signed =
  sg_message :: 'm
  sg_cert :: device_cert
  sg_whole :: cbor_value

definition signed_verify :: "crypto \<Rightarrow> ('m, 's) object_ops \<Rightarrow> cbor_value \<Rightarrow> bool \<Rightarrow> u64 \<Rightarrow> id_error + 'm signed" where
  "signed_verify C T value detached at =
     bindR (envelope_from_value value) (\<lambda>env.
     bindR (op_from_value T (env_value env) detached) (\<lambda>m.
     bindR (check_cert C (op_cert T m) (op_sent T m) at) (\<lambda>c.
     bindR (envelope_verify C env (dc_device c) (op_domain T)) (\<lambda>_.
       Inr \<lparr>sg_message = m, sg_cert = c, sg_whole = env_value env\<rparr>))))"

definition signed_parse :: "crypto \<Rightarrow> ('m, 's) object_ops \<Rightarrow> bytes \<Rightarrow> u64 \<Rightarrow> id_error + 'm signed" where
  "signed_parse C T whole at =
     (if op_whole_max T < length whole then Inl TooLarge
      else bindR (map_err CborErr (decode_canonical whole)) (\<lambda>v. signed_verify C T v False at))"

fun put_texts :: "(string \<times> string) list \<Rightarrow> (cbor_value \<times> cbor_value) list \<Rightarrow> id_error + (cbor_value \<times> cbor_value) list" where
  "put_texts [] es = Inr es"
| "put_texts ((key, s) # kts) es =
     (if \<exists>p\<in>set es. fst p = Text key then Inl (BadField key) else put_texts kts (es @ [(Text key, canonical_value s)]))"

definition reassemble :: "crypto \<Rightarrow> ('m, 's) object_ops \<Rightarrow> cbor_value \<Rightarrow> string list \<Rightarrow> u64 \<Rightarrow> id_error + 'm signed" where
  "reassemble C T value texts at =
     (case value of
        Map es \<Rightarrow> bindR (put_texts (zip (op_text_keys T) texts) es) (\<lambda>es. signed_verify C T (Map es) True at)
      | _ \<Rightarrow> Inl NotAMap)"

definition parse_detached :: "crypto \<Rightarrow> ('m, 's) object_ops \<Rightarrow> bytes \<Rightarrow> string list \<Rightarrow> u64 \<Rightarrow> id_error + 'm signed" where
  "parse_detached C T bs texts at =
     (if DETACHED_MAX_BYTES < length bs then Inl TooLarge
      else bindR (map_err CborErr (decode_canonical bs)) (\<lambda>v. reassemble C T v texts at))"

definition link_value :: "bytes \<Rightarrow> id_error + cbor_value \<times> bytes" where
  "link_value bs =
     (if LINK_MAX_BYTES < length bs then Inl TooLarge
      else bindR (map_err CborErr (decode_canonical bs)) (\<lambda>v.
        if \<not> is_map v then Inl NotAMap
        else if value_get v ''cert'' \<noteq> None then Inl (BadField ''cert'')
        else bindR (f_bytes32 v ''cert_sha256'') (\<lambda>hash. Inr (v, hash))))"

definition link_cert_sha256 :: "bytes \<Rightarrow> id_error + bytes" where
  "link_cert_sha256 bs = bindR (link_value bs) (\<lambda>(v, hash). Inr hash)"

text \<open>A map's entries; \<open>link_value\<close> and \<open>signed_verify\<close> return maps, so the \<open>unreachable!\<close> branches are.\<close>

definition entries :: "cbor_value \<Rightarrow> (cbor_value \<times> cbor_value) list" where
  "entries v = (case v of Map es \<Rightarrow> es | _ \<Rightarrow> [])"

definition parse_link :: "crypto \<Rightarrow> ('m, 's) object_ops \<Rightarrow> bytes \<Rightarrow> string list \<Rightarrow> bytes \<Rightarrow> u64 \<Rightarrow> id_error + 'm signed" where
  "parse_link C T bs texts c at =
     bindR (link_value bs) (\<lambda>(v, hash).
       if sha256 C c \<noteq> hash then Inl CertMismatch
       else reassemble C T (Map (entries (value_without v ''cert_sha256'') @ [(Text ''cert'', Bytes c)])) texts at)"

definition link_content_sha256 :: "crypto \<Rightarrow> ('m, 's) object_ops \<Rightarrow> bytes \<Rightarrow> string list \<Rightarrow> id_error + bytes" where
  "link_content_sha256 C T bs texts =
     bindR (link_value bs) (\<lambda>(v, hash).
       Inr (sha256 C (encode (Map (entries (value_without (value_without (value_without v ''cert_sha256'') ''sent'') ''sig'')
         @ map (\<lambda>(key, s). (Text key, canonical_value s)) (zip (op_text_keys T) texts))))))"

definition detached_value :: "('m, 's) object_ops \<Rightarrow> 'm signed \<Rightarrow> cbor_value" where
  "detached_value T s = fold (\<lambda>key v. value_without v key) (op_text_keys T) (sg_whole s)"

definition detached_form :: "('m, 's) object_ops \<Rightarrow> 'm signed \<Rightarrow> id_error + bytes" where
  "detached_form T s =
     bindR (op_from_value T (sg_whole s) True) (\<lambda>_.
       let bs = encode (detached_value T s) in if DETACHED_MAX_BYTES < length bs then Inl TooLarge else Inr bs)"

definition link_form :: "crypto \<Rightarrow> ('m, 's) object_ops \<Rightarrow> 'm signed \<Rightarrow> id_error + bytes" where
  "link_form C T s =
     bindR (detached_form T s) (\<lambda>_.
       let bs = encode (Map (entries (value_without (detached_value T s) ''cert'')
             @ [(Text ''cert_sha256'', Bytes (sha256 C (op_cert T (sg_message s))))]))
       in if LINK_MAX_BYTES < length bs then Inl TooLarge else Inr bs)"

definition signer :: "crypto \<Rightarrow> 'm signed \<Rightarrow> bytes" where
  "signer C s = fingerprint_of C (dc_identity (sg_cert s))"

definition whole_bytes :: "'m signed \<Rightarrow> bytes" where
  "whole_bytes s = encode (sg_whole s)"

definition content_sha256 :: "crypto \<Rightarrow> 'm signed \<Rightarrow> bytes" where
  "content_sha256 C s = sha256 C (encode (value_without (value_without (value_without (sg_whole s) ''sent'') ''cert'') ''sig''))"

definition same_content :: "crypto \<Rightarrow> 'm signed \<Rightarrow> 'm signed \<Rightarrow> bool" where
  "same_content C s t \<longleftrightarrow> content_sha256 C s = content_sha256 C t"


subsection \<open>What a reader shows\<close>

datatype form =
    Whole bytes
  | Detached bytes "string list"
  | Link bytes "string list" "bytes option"

datatype sender = Named bytes | Certificate | UnknownSender

record 's read_context =
  cx_at :: u64
  cx_sender :: sender
  cx_scope :: 's

datatype outcome =
    Verified bytes bool
  | SaidElsewhere bytes bool
  | Unverified "bytes option"
  | Invalid id_error

definition signed_check :: "crypto \<Rightarrow> ('m, 's) object_ops \<Rightarrow> 'm signed \<Rightarrow> 's read_context \<Rightarrow> outcome" where
  "signed_check C T s cx =
     (let by = signer C s; apart = SKEW < abs_diff (op_sent T (sg_message s)) (cx_at cx) in
      if (case cx_sender cx of Named fp \<Rightarrow> fp \<noteq> by | _ \<Rightarrow> False) then Invalid KeyMismatch
      else case (op_place T (sg_message s) (cx_scope cx), cx_sender cx) of
          (Elsewhere, _) \<Rightarrow> SaidElsewhere by apart
        | (UnknownPlace, _) \<Rightarrow> Unverified (Some by)
        | (_, UnknownSender) \<Rightarrow> Unverified (Some by)
        | (Here, _) \<Rightarrow> Verified by apart)"

definition read_form :: "crypto \<Rightarrow> ('m, 's) object_ops \<Rightarrow> form \<Rightarrow> 's read_context \<Rightarrow> outcome" where
  "read_form C T f cx =
     (let shown = (\<lambda>parsed. case parsed of
            Inr s \<Rightarrow> signed_check C T s cx
          | Inl CertMismatch \<Rightarrow> Unverified None
          | Inl e \<Rightarrow> Invalid e)
      in case f of
           Whole bs \<Rightarrow> shown (signed_parse C T bs (cx_at cx))
         | Detached bs texts \<Rightarrow> shown (parse_detached C T bs texts (cx_at cx))
         | Link bs texts (Some c) \<Rightarrow> shown (parse_link C T bs texts c (cx_at cx))
         | Link bs texts None \<Rightarrow> (case link_value bs of Inr _ \<Rightarrow> Unverified None | Inl e \<Rightarrow> shown (Inl e)))"


subsection \<open>Padding\<close>

definition pad_sizes :: "bool \<Rightarrow> nat list" where
  "pad_sizes deniable = map (\<lambda>size. size - (if deniable then DENIABLE_KEY_BYTES else 0)) PAD_SIZES"

definition pad :: "bytes \<Rightarrow> bool \<Rightarrow> id_error + bytes" where
  "pad m deniable =
     bindR (ok_or TooLarge (find (\<lambda>size. length m \<le> size) (pad_sizes deniable))) (\<lambda>size.
       Inr (m @ replicate (size - length m) 0))"

definition unpad :: "bytes \<Rightarrow> bool \<Rightarrow> id_error + bytes" where
  "unpad padded deniable =
     (if length padded \<notin> set (pad_sizes deniable) then Inl (BadField ''padding'')
      else bindR (map_err CborErr (item_len padded)) (\<lambda>e.
        if \<exists>b\<in>set (drop e padded). b \<noteq> 0 then Inl (BadField ''padding'') else Inr (take e padded)))"

end
