(* ===== verification/Message_Forms.thy ===== *)
theory Message_Forms
  imports Signed_Messages
begin

section \<open>The forms of a signed message agree\<close>

text \<open>
  What the three forms of a signed object promise each other, and what padding keeps.  The three implementations of the
  trait \<open>Object\<close> meet one contract, \<open>message_object\<close>; what is shown of the forms is shown of it once.
\<close>

subsection \<open>Canonical text\<close>

lemma utf8_step_low: "utf8_step bs = Some (c, r) \<Longrightarrow> b \<in> set bs \<Longrightarrow> b < 128 \<Longrightarrow> b = c \<or> b \<in> set r"
  by (auto simp: utf8_step_def utf8_cont_def split: list.splits if_splits)

lemma utf8_chars_low: "utf8_chars bs = Some cs \<Longrightarrow> b \<in> set bs \<Longrightarrow> b < 128 \<Longrightarrow> b \<in> set cs"
proof (induction bs arbitrary: cs rule: utf8_chars.induct)
  case (1 bs)
  show ?case
  proof (cases "bs = []")
    case False
    with 1(2) obtain c r cs' where step: "utf8_step bs = Some (c, r)" "utf8_chars r = Some cs'" "cs = c # cs'"
      by (auto simp: utf8_chars.simps [of bs] split: option.splits)
    with 1 False utf8_step_low [OF step(1)] show ?thesis by fastforce
  qed (use 1 in simp)
qed

lemma canonical_no_CR: "str_valid s \<Longrightarrow> is_canonical s \<Longrightarrow> CR \<notin> set s"
proof
  assume s: "str_valid s" "is_canonical s" and "CR \<in> set s"
  then have "(13 :: nat) \<in> set (map of_char s)" by force
  moreover obtain cs where "utf8_chars (map of_char s) = Some cs"
    using s(1) by (auto simp: str_valid_def utf8_valid_def map_unat_str_bytes)
  ultimately have "13 \<in> set (str_chars s)" using utf8_chars_low [of _ cs 13] by (simp add: str_chars_def map_unat_str_bytes)
  with s(2) show False by (force simp: is_canonical_def)
qed

lemma replace_crlf_id: "CR \<notin> set s \<Longrightarrow> replace_crlf s = s"
  by (induction s rule: replace_crlf.induct) auto

lemma canonicalize_no_CR: "CR \<notin> set s \<Longrightarrow> canonicalize s = s"
  by (auto simp: canonicalize_def replace_crlf_id intro: map_idI)

lemma CR_canonicalize: "CR \<notin> set (canonicalize s)"
  by (auto simp: canonicalize_def)

lemma canonicalize_idem: "canonicalize (canonicalize s) = canonicalize s"
  by (rule canonicalize_no_CR [OF CR_canonicalize])


subsection \<open>Maps as functions\<close>

text \<open>An entry the codec carries as it is.\<close>

definition entry_ok :: "cbor_value \<times> cbor_value \<Rightarrow> bool" where
  "entry_ok p \<longleftrightarrow> cbor_wf (fst p) \<and> cbor_wf (snd p) \<and> cbor_canon (fst p) = fst p \<and> cbor_canon (snd p) = snd p
     \<and> cbor_distinct (fst p) \<and> cbor_distinct (snd p) \<and> Suc (cbor_depth (fst p)) \<le> MAX_DEPTH \<and> Suc (cbor_depth (snd p)) \<le> MAX_DEPTH"

definition map_ok :: "(cbor_value \<times> cbor_value) list \<Rightarrow> bool" where
  "map_ok es \<longleftrightarrow> keys_distinct es \<and> length es < 2 ^ 64 \<and> (\<forall>p\<in>set es. entry_ok p)"

lemma entry_ok_flat [simp]: "length k < 2 ^ 64 \<Longrightarrow> str_valid k \<Longrightarrow> length b < 2 ^ 64 \<Longrightarrow> entry_ok (Text k, Bytes b)"
  "length k < 2 ^ 64 \<Longrightarrow> str_valid k \<Longrightarrow> entry_ok (Text k, Text s) \<longleftrightarrow> length s < 2 ^ 64 \<and> str_valid s"
  by (simp_all add: entry_ok_def MAX_DEPTH_def)

lemma decode_entries:
  assumes "map_ok es"
  shows "decode_canonical (encode (Map es)) = Inr (Map (sort_key entry_key es))"
proof -
  have ok: "keys_distinct es" "length es < 2 ^ 64" "\<forall>p\<in>set es. entry_ok p" using assms by (simp_all add: map_ok_def)
  have "cbor_wf (Map es)" using ok by (auto simp: entry_ok_def)
  moreover have "cbor_depth (Map es) \<le> MAX_DEPTH"
  proof -
    have "\<forall>p\<in>set es. Suc (cbor_depth (fst p)) \<le> MAX_DEPTH \<and> Suc (cbor_depth (snd p)) \<le> MAX_DEPTH" using ok(3) by (simp add: entry_ok_def)
    then show ?thesis using cbor_depth_Map_le [of 0 MAX_DEPTH es] by (simp del: cbor_depth.simps)
  qed
  moreover have "cbor_distinct (Map es)" using ok by (auto simp: entry_ok_def keys_distinct_def entry_key_def [abs_def])
  moreover have "cbor_canon (Map es) = Map (sort_key entry_key es)"
    unfolding cbor_canon_Map using ok(3) by (force simp: entry_ok_def intro!: map_idI)
  ultimately show ?thesis by (simp add: decode_canonical_encode del: cbor_wf.simps cbor_depth.simps cbor_distinct.simps)
qed

lemma decoded_map_ok: "decode_canonical bs = Inr (Map es) \<Longrightarrow> map_ok es \<and> bs = encode (Map es)"
proof -
  assume "decode_canonical bs = Inr (Map es)"
  then have can: "cbor_canonical (Map es)" and bs: "bs = encode (Map es)" by (simp_all add: decode_canonical_iff)
  have "cbor_canon (fst p) = fst p \<and> cbor_canon (snd p) = snd p" if p: "p \<in> set es" for p
  proof -
    have "map (\<lambda>p. (cbor_canon (fst p), cbor_canon (snd p))) (sort_key entry_key es) = es"
      using can unfolding cbor_canonical_def cbor_canon_Map by simp
    then have "set es = (\<lambda>p. (cbor_canon (fst p), cbor_canon (snd p))) ` set es" by (metis set_map set_sort)
    with p obtain q where "p = (cbor_canon (fst q), cbor_canon (snd q))" by blast
    then show ?thesis by (simp add: cbor_canon_idem)
  qed
  moreover have "Suc (cbor_depth (fst p)) \<le> MAX_DEPTH \<and> Suc (cbor_depth (snd p)) \<le> MAX_DEPTH" if "p \<in> set es" for p
    using cbor_depth_Map [of p es] that can by (auto simp: cbor_canonical_def simp del: cbor_depth.simps)
  ultimately show ?thesis using can bs
    by (auto simp: map_ok_def entry_ok_def cbor_canonical_def keys_distinct_def entry_key_def [abs_def] simp del: cbor_depth.simps)
qed

lemma map_ok_perm: "map_ok es \<Longrightarrow> mset es' = mset es \<Longrightarrow> map_ok es'"
  by (metis map_ok_def keys_distinct_def mset_eq_setD mset_eq_length mset_map mset_eq_imp_distinct_iff)

lemma map_ok_filter: "map_ok es \<Longrightarrow> map_ok (filter P es)"
  using le_less_trans [OF length_filter_le [of P es]] by (auto simp: map_ok_def keys_distinct_def distinct_map_filter)

lemma value_get_perm:
  assumes "map_ok es" "mset es' = mset es"
  shows "value_get (Map es') k = value_get (Map es) k"
proof -
  have "value_get (Map es') k = Some v \<longleftrightarrow> value_get (Map es) k = Some v" for v
    using value_get_Map [of es] value_get_Map [of es'] map_ok_perm [OF assms] assms mset_eq_setD [OF assms(2)] by (simp add: map_ok_def)
  then show ?thesis by (metis not_None_eq)
qed

lemma envelope_perm:
  assumes "map_ok es" "mset es' = mset es" "envelope_from_value (Map es) = Inr env"
  shows "envelope_from_value (Map es') = Inr (env\<lparr>env_value := Map es'\<rparr>)"
proof -
  have "encode (value_without (Map es) ''sig'') = encode (value_without (Map es') ''sig'')"
    unfolding value_without_def cbor_value.case
    by (rule encode_Map_perm) (use map_ok_filter [OF assms(1)] assms(2) in \<open>simp_all add: map_ok_def\<close>)
  with assms(3) show ?thesis
    by (auto simp: envelope_from_value_def envelope_from_value_upto_def is_map_def result_simps value_get_perm [OF assms(1,2)] split: if_splits)
qed



subsection \<open>The contract of the three objects\<close>

definition texts_of :: "('m, 's) object_ops \<Rightarrow> cbor_value \<Rightarrow> string list" where
  "texts_of T v = map (\<lambda>k. case value_get v k of Some (Text t) \<Rightarrow> t | _ \<Rightarrow> []) (op_text_keys T)"

definition is_text_key :: "('m, 's) object_ops \<Rightarrow> cbor_value \<times> cbor_value \<Rightarrow> bool" where
  "is_text_key T p \<longleftrightarrow> fst p \<in> Text ` set (op_text_keys T)"

abbreviation text_entries :: "('m, 's) object_ops \<Rightarrow> string list \<Rightarrow> (cbor_value \<times> cbor_value) list" where
  "text_entries T texts \<equiv> map (\<lambda>(key, s). (Text key, canonical_value s)) (zip (op_text_keys T) texts)"

lemma put_texts_Inr:
  "put_texts kts es = Inr es' \<longleftrightarrow> es' = es @ map (\<lambda>(key, s). (Text key, canonical_value s)) kts
     \<and> distinct (map fst kts) \<and> Text ` set (map fst kts) \<inter> fst ` set es = {}"
  by (induction kts es rule: put_texts.induct) (auto simp: image_iff, fastforce)

lemma detached_value_entries:
  "sg_whole s = Map es \<Longrightarrow> detached_value T s = Map (filter (\<lambda>p. \<not> is_text_key T p) es)"
proof -
  have "fold (\<lambda>key v. value_without v key) ks (Map es) = Map (filter (\<lambda>p. fst p \<notin> Text ` set ks) es)" for ks
    by (induction ks arbitrary: es) (auto simp: value_without_def intro!: filter_cong)
  then show "sg_whole s = Map es \<Longrightarrow> detached_value T s = Map (filter (\<lambda>p. \<not> is_text_key T p) es)"
    by (simp add: detached_value_def is_text_key_def)
qed

locale message_object =
  fixes T :: "('m, 's) object_ops"
  assumes keys: "distinct (op_text_keys T)" "''cert'' \<notin> set (op_text_keys T)" "''cert_sha256'' \<notin> set (op_text_keys T)"
      "''sig'' \<notin> set (op_text_keys T)" "''sent'' \<notin> set (op_text_keys T)"
    and read_get: "(\<And>k. value_get v k = value_get v' k) \<Longrightarrow> op_from_value T v d = op_from_value T v' d"
    and read_detached: "op_from_value T v True = Inr m \<Longrightarrow> op_from_value T v False = Inr m"
    and read_texts: "op_from_value T v d = Inr m \<Longrightarrow> k \<in> set (op_text_keys T) \<Longrightarrow>
      \<exists>t. value_get v k = Some (Text t) \<and> is_canonical t"
    and read_cert: "op_from_value T v d = Inr m \<Longrightarrow> value_get v ''cert'' = Some (Bytes (op_cert T m)) \<and> value_get v ''cert_sha256'' = None"
begin

text \<open>The entries without the texts, in any order, and the texts back: the same map.\<close>

lemma put_back:
  assumes es: "map_ok es" "op_from_value T (Map es) d = Inr m"
    and ds: "mset ds = mset (filter (\<lambda>p. \<not> is_text_key T p) es)"
    and texts: "map canonicalize texts = texts_of T (Map es)"
  shows "put_texts (zip (op_text_keys T) texts) ds = Inr (ds @ text_entries T texts)"
    and "mset (ds @ text_entries T texts) = mset es"
proof -
  let ?ts = "text_entries T texts"
  have kd: "keys_distinct es" using es(1) by (simp add: map_ok_def)
  have len: "length texts = length (op_text_keys T)" using texts by (metis length_map texts_of_def)
  have set_ds: "set ds = {p \<in> set es. \<not> is_text_key T p}" using mset_eq_setD [OF ds] by simp
  show "put_texts (zip (op_text_keys T) texts) ds = Inr (ds @ ?ts)"
    unfolding put_texts_Inr using keys(1) len by (auto simp: set_ds is_text_key_def)
  have "?ts = map (\<lambda>k. (Text k, the (value_get (Map es) k))) (op_text_keys T)"
  proof (rule nth_equalityI)
    fix i
    assume "i < length ?ts"
    then have i: "i < length (op_text_keys T)" using len by simp
    obtain t where t: "value_get (Map es) (op_text_keys T ! i) = Some (Text t)" using read_texts [OF es(2) nth_mem [OF i]] by blast
    have "canonicalize (texts ! i) = texts_of T (Map es) ! i" using texts i len by (metis nth_map)
    then show "?ts ! i = map (\<lambda>k. (Text k, the (value_get (Map es) k))) (op_text_keys T) ! i"
      using i len t by (simp add: texts_of_def canonical_value_def)
  qed (use len in simp)
  moreover have "set (map (\<lambda>k. (Text k, the (value_get (Map es) k))) (op_text_keys T)) = {p \<in> set es. is_text_key T p}"
  proof -
    have "p \<in> set es \<and> is_text_key T p \<longleftrightarrow> (\<exists>k\<in>set (op_text_keys T). p = (Text k, the (value_get (Map es) k)))" for p
    proof
      assume "p \<in> set es \<and> is_text_key T p"
      then obtain k v where k: "k \<in> set (op_text_keys T)" "p = (Text k, v)" "(Text k, v) \<in> set es" by (cases p) (auto simp: is_text_key_def)
      then have "value_get (Map es) k = Some v" by (simp add: value_get_Map [OF kd])
      with k show "\<exists>k\<in>set (op_text_keys T). p = (Text k, the (value_get (Map es) k))" by auto
    next
      assume "\<exists>k\<in>set (op_text_keys T). p = (Text k, the (value_get (Map es) k))"
      then obtain k where k: "k \<in> set (op_text_keys T)" "p = (Text k, the (value_get (Map es) k))" by blast
      obtain t where "value_get (Map es) k = Some (Text t)" using read_texts [OF es(2) k(1)] by blast
      with k show "p \<in> set es \<and> is_text_key T p" using value_get_Map [OF kd, of k "Text t"] by (simp add: is_text_key_def)
    qed
    then show ?thesis by auto
  qed
  moreover have "distinct (map (\<lambda>k. (Text k, the (value_get (Map es) k))) (op_text_keys T))"
    using keys(1) by (auto simp: distinct_map inj_on_def)
  moreover have "distinct (filter (is_text_key T) es)" using kd by (auto simp: keys_distinct_def distinct_map)
  ultimately have "mset ?ts = mset (filter (is_text_key T) es)" by (metis set_eq_iff_mset_eq_distinct set_filter)
  then show "mset (ds @ ?ts) = mset es" using ds by (simp add: union_commute)
qed

lemma reassembles:
  assumes es: "map_ok es" "signed_verify C T (Map es) False at = Inr s" "op_from_value T (Map es) True = Inr m"
    and ds: "mset ds = mset (filter (\<lambda>p. \<not> is_text_key T p) es)"
    and texts: "map canonicalize texts = texts_of T (Map es)"
  obtains s' where "reassemble C T (Map ds) texts at = Inr s'" "sg_message s' = sg_message s" "sg_cert s' = sg_cert s"
    "whole_bytes s' = encode (Map es)"
proof -
  let ?es' = "ds @ text_entries T texts"
  note pb = put_back [OF es(1,3) ds texts]
  have get: "value_get (Map ?es') k = value_get (Map es) k" for k by (rule value_get_perm [OF es(1) pb(2)])
  obtain env c where env: "envelope_from_value (Map es) = Inr env" "env_value env = Map es" "sg_message s = m"
    "check_cert C (op_cert T m) (op_sent T m) at = Inr c" "envelope_verify C env (dc_device c) (op_domain T) = Inr ()" "sg_cert s = c"
    using es(2) read_detached [OF es(3)]
    by (auto simp: signed_verify_def result_simps envelope_from_value_def envelope_from_value_upto_def split: if_splits)
  have "op_from_value T (Map ?es') True = Inr m" using read_get [OF get] es(3) by simp
  then have "reassemble C T (Map ds) texts at = Inr \<lparr>sg_message = m, sg_cert = c, sg_whole = Map ?es'\<rparr>"
    using envelope_perm [OF es(1) pb(2) env(1)] env pb(1) by (simp add: reassemble_def signed_verify_def envelope_verify_def)
  moreover have "encode (Map es) = encode (Map ?es')" using encode_Map_perm [of es ?es'] es(1) pb(2) by (simp add: map_ok_def)
  ultimately show ?thesis using env by (intro that [of "\<lparr>sg_message = m, sg_cert = c, sg_whole = Map ?es'\<rparr>"]) (simp_all add: whole_bytes_def)
qed

text \<open>What a whole map parsed to.\<close>

lemma parsed_whole:
  assumes "signed_parse C T bs at = Inr s"
  obtains es where "map_ok es" "bs = encode (Map es)" "sg_whole s = Map es" "signed_verify C T (Map es) False at = Inr s"
    "op_from_value T (Map es) False = Inr (sg_message s)"
proof -
  obtain v where v: "decode_canonical bs = Inr v" "signed_verify C T v False at = Inr s"
    using assms by (auto simp: signed_parse_def result_simps split: if_splits)
  then have "is_map v" "sg_whole s = v" "op_from_value T v False = Inr (sg_message s)"
    by (auto simp: signed_verify_def envelope_from_value_def envelope_from_value_upto_def result_simps split: if_splits)
  then obtain es where "v = Map es" by (auto simp: is_map_def split: cbor_value.splits)
  with v \<open>sg_whole s = v\<close> \<open>op_from_value T v False = Inr (sg_message s)\<close> decoded_map_ok [of bs es] show ?thesis by (intro that) auto
qed

lemma detached_agrees:
  assumes whole: "signed_parse C T bs at = Inr s" and form: "detached_form T s = Inr db"
    and texts: "map canonicalize texts = texts_of T (sg_whole s)"
  obtains s' where "parse_detached C T db texts at = Inr s'" "sg_message s' = sg_message s" "sg_cert s' = sg_cert s" "whole_bytes s' = bs"
proof -
  obtain es where es: "map_ok es" "bs = encode (Map es)" "sg_whole s = Map es" "signed_verify C T (Map es) False at = Inr s"
    by (rule parsed_whole [OF whole])
  let ?ds = "filter (\<lambda>p. \<not> is_text_key T p) es"
  obtain m where m: "op_from_value T (Map es) True = Inr m" "db = encode (Map ?ds)" "length db \<le> DETACHED_MAX_BYTES"
    using form by (auto simp: detached_form_def result_simps es(3) detached_value_entries [OF es(3)] Let_def split: if_splits)
  have "decode_canonical db = Inr (Map (sort_key entry_key ?ds))" unfolding m(2) by (rule decode_entries [OF map_ok_filter [OF es(1)]])
  moreover obtain s' where "reassemble C T (Map (sort_key entry_key ?ds)) texts at = Inr s'" "sg_message s' = sg_message s"
    "sg_cert s' = sg_cert s" "whole_bytes s' = encode (Map es)"
    by (rule reassembles [OF es(1,4) m(1) _ texts [unfolded es(3)], of "sort_key entry_key ?ds"]) simp
  ultimately show ?thesis using m(3) es(2) by (intro that [of s']) (simp_all add: parse_detached_def)
qed

end

text \<open>The entries of a link form: the certificate's hash in the place of the certificate.\<close>

definition link_entries :: "crypto \<Rightarrow> (cbor_value \<times> cbor_value) list \<Rightarrow> bytes \<Rightarrow> (cbor_value \<times> cbor_value) list" where
  "link_entries C ds c = filter (\<lambda>p. fst p \<noteq> Text ''cert'') ds @ [(Text ''cert_sha256'', Bytes (sha256 C c))]"

lemma only_entry:
  assumes "keys_distinct ds" "(k, v) \<in> set ds"
  shows "filter (\<lambda>p. fst p = k) ds = [(k, v)]"
proof -
  have "set (filter (\<lambda>p. fst p = k) ds) \<subseteq> {(k, v)}"
  proof
    fix q
    assume "q \<in> set (filter (\<lambda>p. fst p = k) ds)"
    then have "q \<in> set ds" "fst q = k" by simp_all
    then show "q \<in> {(k, v)}"
      using inj_onD [OF keys_distinct_inj [OF assms(1)], of q "(k, v)"] assms(2) by (simp add: entry_key_def)
  qed
  moreover have "{(k, v)} \<subseteq> set (filter (\<lambda>p. fst p = k) ds)" using assms(2) by simp
  ultimately have "set (filter (\<lambda>p. fst p = k) ds) = {(k, v)}" by (rule equalityI)
  moreover have "distinct (filter (\<lambda>p. fst p = k) ds)" using assms(1) by (simp add: keys_distinct_def distinct_map)
  moreover have "distinct xs \<Longrightarrow> set xs = {x} \<Longrightarrow> xs = [x]" for x and xs :: "(cbor_value \<times> cbor_value) list"
    by (cases xs; cases "tl xs") auto
  ultimately show ?thesis by metis
qed

lemma swap_entry:
  assumes "keys_distinct ds" "(k, v) \<in> set ds"
  shows "mset (filter (\<lambda>p. fst p \<noteq> k) ds @ [(k, v)]) = mset ds"
proof -
  have "mset ds = mset (filter (\<lambda>p. fst p = k) ds) + mset (filter (\<lambda>p. fst p \<noteq> k) ds)"
    using multiset_partition [of "mset ds" "\<lambda>p. fst p = k"] by (simp only: mset_filter)
  then show ?thesis unfolding only_entry [OF assms] by simp
qed

lemma link_entries_ok:
  assumes "crypto_ok C" and ds: "map_ok ds" "(Text ''cert'', Bytes c) \<in> set ds" "Text ''cert_sha256'' \<notin> fst ` set ds"
  shows "map_ok (link_entries C ds c)"
    and "value_get (Map (link_entries C ds c)) ''cert'' = None"
    and "value_get (Map (link_entries C ds c)) ''cert_sha256'' = Some (Bytes (sha256 C c))"
proof -
  have len: "length (sha256 C c) = 32" using assms(1) by (simp add: crypto_ok_def)
  have key: "encode k \<noteq> encode (Text ''cert_sha256'')" if "(k, v) \<in> set ds" for k v
  proof
    assume "encode k = encode (Text ''cert_sha256'')"
    moreover have "entry_ok (k, v)" using that ds(1) by (simp add: map_ok_def)
    ultimately have "k = Text ''cert_sha256''"
      using encode_inject [of k "Text ''cert_sha256''"] by (simp add: entry_ok_def str_ascii_valid str_ascii_def)
    then show False using that ds(3) by force
  qed
  have kd: "keys_distinct (link_entries C ds c)"
  proof -
    have "entry_key (Text ''cert_sha256'', Bytes (sha256 C c)) \<notin> entry_key ` set ds" using key unfolding entry_key_def by force
    then show ?thesis using ds(1) by (auto simp: link_entries_def map_ok_def keys_distinct_def distinct_map_filter)
  qed
  have "length (filter (\<lambda>p. fst p \<noteq> Text ''cert'') ds) < length ds" using ds(2) by (auto intro: length_filter_less)
  then show "map_ok (link_entries C ds c)"
    using kd ds(1) len by (auto simp: map_ok_def link_entries_def str_ascii_valid str_ascii_def)
  show "value_get (Map (link_entries C ds c)) ''cert_sha256'' = Some (Bytes (sha256 C c))"
    unfolding value_get_Map [OF kd] by (simp add: link_entries_def)
  have "value_get (Map (link_entries C ds c)) ''cert'' \<noteq> Some v" for v unfolding value_get_Map [OF kd] by (simp add: link_entries_def)
  then show "value_get (Map (link_entries C ds c)) ''cert'' = None" by (metis not_None_eq)
qed


lemma Map_parts: "value_without (Map es) k = Map (filter (\<lambda>p. fst p \<noteq> Text k) es)" "entries (Map es) = es"
  by (simp_all add: value_without_def entries_def)

lemma link_value_entries:
  assumes "map_ok ls" "value_get (Map ls) ''cert'' = None" "value_get (Map ls) ''cert_sha256'' = Some (Bytes h)" "length h = 32"
    and "length (encode (Map ls)) \<le> LINK_MAX_BYTES"
  shows "link_value (encode (Map ls)) = Inr (Map (sort_key entry_key ls), h)"
proof -
  have "value_get (Map (sort_key entry_key ls)) k = value_get (Map ls) k" for k by (rule value_get_perm [OF assms(1)]) simp
  then show ?thesis using assms by (simp add: link_value_def decode_entries is_map_def f_bytes32_def)
qed

context message_object
begin

lemma parsed_parts:
  assumes "map_ok es" "op_from_value T (Map es) d = Inr m"
  shows "(Text ''cert'', Bytes (op_cert T m)) \<in> set (filter (\<lambda>p. \<not> is_text_key T p) es)" "Text ''cert_sha256'' \<notin> fst ` set es"
proof -
  have kd: "keys_distinct es" using assms(1) by (simp add: map_ok_def)
  have "value_get (Map es) ''cert'' = Some (Bytes (op_cert T m))" "value_get (Map es) ''cert_sha256'' = None" using read_cert [OF assms(2)] by auto
  then show "(Text ''cert'', Bytes (op_cert T m)) \<in> set (filter (\<lambda>p. \<not> is_text_key T p) es)" "Text ''cert_sha256'' \<notin> fst ` set es"
    using value_get_Map [OF kd] keys(2) by (force simp: is_text_key_def image_iff)+
qed

lemma link_form_entries:
  assumes form: "link_form C T s = Inr lb" and whole: "sg_whole s = Map es"
  shows "(\<exists>m. op_from_value T (Map es) True = Inr m)
    \<and> lb = encode (Map (link_entries C (filter (\<lambda>p. \<not> is_text_key T p) es) (op_cert T (sg_message s)))) \<and> length lb \<le> LINK_MAX_BYTES"
proof -
  have "entries (value_without (detached_value T s) ''cert'') = filter (\<lambda>p. fst p \<noteq> Text ''cert'') (filter (\<lambda>p. \<not> is_text_key T p) es)"
    by (simp only: detached_value_entries [OF whole] Map_parts)
  then show ?thesis
    using form unfolding link_form_def detached_form_def whole Let_def link_entries_def bindR_Inr_iff by (auto split: if_splits)
qed

lemma without_hash:
  assumes "Text ''cert_sha256'' \<notin> fst ` set ds"
  shows "mset (filter (\<lambda>p. fst p \<noteq> Text ''cert_sha256'') (sort_key entry_key (link_entries C ds c))) = mset (filter (\<lambda>p. fst p \<noteq> Text ''cert'') ds)"
proof -
  let ?P = "\<lambda>p. fst p \<noteq> Text ''cert_sha256''"
  have "?P p" if "p \<in> set ds" for p using assms that by (metis imageI)
  then have "filter ?P (filter (\<lambda>p. fst p \<noteq> Text ''cert'') ds) = filter (\<lambda>p. fst p \<noteq> Text ''cert'') ds" by (intro filter_True) simp
  moreover have "filter ?P [(Text ''cert_sha256'', Bytes (sha256 C c))] = []" by simp
  ultimately have "filter ?P (link_entries C ds c) = filter (\<lambda>p. fst p \<noteq> Text ''cert'') ds"
    by (simp only: link_entries_def filter_append append_Nil2)
  then show ?thesis by (simp only: mset_filter mset_sort flip: mset_filter [of ?P "link_entries C ds c"])
qed

lemma link_read:
  assumes C: "crypto_ok C" and es: "map_ok es" "op_from_value T (Map es) False = Inr (sg_message s)" "sg_whole s = Map es"
    and form: "link_form C T s = Inr lb"
  obtains ws where "link_value lb = Inr (ws, sha256 C (op_cert T (sg_message s)))"
    "mset (entries (value_without ws ''cert_sha256'')) = mset (filter (\<lambda>p. fst p \<noteq> Text ''cert'') (filter (\<lambda>p. \<not> is_text_key T p) es))" "is_map ws"
proof -
  let ?ds = "filter (\<lambda>p. \<not> is_text_key T p) es" and ?c = "op_cert T (sg_message s)"
  note parts = parsed_parts [OF es(1,2)]
  have sha: "Text ''cert_sha256'' \<notin> fst ` set ?ds" using parts(2) by auto
  note ls = link_entries_ok [OF C map_ok_filter [OF es(1)] parts(1) sha]
  have len: "length (sha256 C ?c) = 32" using C by (simp add: crypto_ok_def)
  from link_form_entries [OF form es(3)] have lb: "lb = encode (Map (link_entries C ?ds ?c))" "length lb \<le> LINK_MAX_BYTES" by blast+
  have "link_value lb = Inr (Map (sort_key entry_key (link_entries C ?ds ?c)), sha256 C ?c)"
    unfolding lb(1) by (rule link_value_entries [OF ls len lb(2) [unfolded lb(1)]])
  moreover have "entries (value_without (Map (sort_key entry_key (link_entries C ?ds ?c))) ''cert_sha256'')
      = filter (\<lambda>p. fst p \<noteq> Text ''cert_sha256'') (sort_key entry_key (link_entries C ?ds ?c))"
    by (simp only: Map_parts)
  ultimately show ?thesis using without_hash [OF sha, of C ?c]
    by (intro that [of "Map (sort_key entry_key (link_entries C ?ds ?c))"]) (simp_all only: is_map_def cbor_value.case)
qed

lemma link_agrees:
  assumes C: "crypto_ok C" and whole: "signed_parse C T bs at = Inr s" and form: "link_form C T s = Inr lb"
    and texts: "map canonicalize texts = texts_of T (sg_whole s)"
  obtains s' where "parse_link C T lb texts (op_cert T (sg_message s)) at = Inr s'" "sg_message s' = sg_message s" "sg_cert s' = sg_cert s"
    "whole_bytes s' = bs"
proof -
  obtain es where es: "map_ok es" "bs = encode (Map es)" "sg_whole s = Map es" "signed_verify C T (Map es) False at = Inr s"
    "op_from_value T (Map es) False = Inr (sg_message s)"
    by (rule parsed_whole [OF whole])
  let ?ds = "filter (\<lambda>p. \<not> is_text_key T p) es" and ?c = "op_cert T (sg_message s)"
  from link_form_entries [OF form es(3)] obtain m where m: "op_from_value T (Map es) True = Inr m" by blast
  obtain ws where ws: "link_value lb = Inr (ws, sha256 C ?c)"
    "mset (entries (value_without ws ''cert_sha256'')) = mset (filter (\<lambda>p. fst p \<noteq> Text ''cert'') ?ds)"
    by (rule link_read [OF C es(1,5,3) form])
  have "keys_distinct ?ds" using map_ok_filter [OF es(1)] by (simp add: map_ok_def)
  then have "mset (entries (value_without ws ''cert_sha256'') @ [(Text ''cert'', Bytes ?c)]) = mset ?ds"
    using swap_entry [OF _ parsed_parts(1) [OF es(1,5)]] ws(2) by (simp only: mset_append)
  then obtain s' where "reassemble C T (Map (entries (value_without ws ''cert_sha256'') @ [(Text ''cert'', Bytes ?c)])) texts at = Inr s'"
    "sg_message s' = sg_message s" "sg_cert s' = sg_cert s" "whole_bytes s' = encode (Map es)"
    by (rule reassembles [OF es(1,4) m _ texts [unfolded es(3)]])
  then show ?thesis using es(2) by (intro that [of s']) (simp_all add: parse_link_def ws(1))
qed

lemma without_three:
  "value_without (value_without (value_without (Map es) a) b) c = Map (filter (\<lambda>p. fst p \<noteq> Text a \<and> fst p \<noteq> Text b \<and> fst p \<noteq> Text c) es)"
  by (simp only: Map_parts filter_filter conj_ac)

lemma link_content_agrees:
  assumes C: "crypto_ok C" and whole: "signed_parse C T bs at = Inr s" and form: "link_form C T s = Inr lb"
    and texts: "map canonicalize texts = texts_of T (sg_whole s)"
  shows "link_content_sha256 C T lb texts = Inr (content_sha256 C s)"
proof -
  obtain es where es: "map_ok es" "sg_whole s = Map es" "op_from_value T (Map es) False = Inr (sg_message s)"
    by (rule parsed_whole [OF whole])
  let ?ds = "filter (\<lambda>p. \<not> is_text_key T p) es" and ?ts = "text_entries T texts"
  let ?P = "\<lambda>p. fst p \<noteq> Text ''sent'' \<and> fst p \<noteq> Text ''cert'' \<and> fst p \<noteq> Text ''sig''"
  obtain ws where ws: "link_value lb = Inr (ws, sha256 C (op_cert T (sg_message s)))"
    "mset (entries (value_without ws ''cert_sha256'')) = mset (filter (\<lambda>p. fst p \<noteq> Text ''cert'') ?ds)" "is_map ws"
    by (rule link_read [OF C es(1,3,2) form])
  let ?rs = "entries (value_without (value_without (value_without ws ''cert_sha256'') ''sent'') ''sig'')"
  obtain vs where vs: "value_without ws ''cert_sha256'' = Map vs" using ws(3) by (auto simp: is_map_def value_without_def split: cbor_value.splits)
  have "mset ?rs = mset (filter (\<lambda>p. fst p \<noteq> Text ''sig'') (filter (\<lambda>p. fst p \<noteq> Text ''sent'') vs))"
    by (simp only: vs Map_parts)
  also have "\<dots> = mset (filter (\<lambda>p. fst p \<noteq> Text ''sig'') (filter (\<lambda>p. fst p \<noteq> Text ''sent'') (filter (\<lambda>p. fst p \<noteq> Text ''cert'') ?ds)))"
    using ws(2) by (simp only: vs Map_parts mset_filter)
  also have "\<dots> = mset (filter ?P ?ds)" unfolding filter_filter by (simp only: conj_ac)
  finally have rest: "mset ?rs = mset (filter ?P ?ds)" .
  have "?P p" if "p \<in> set ?ts" for p using that keys(2,4,5) by (auto dest!: set_zip_leftD)
  then have "filter ?P ?ts = ?ts" by (rule filter_True [rule_format])
  then have "mset (?rs @ ?ts) = mset (filter ?P (?ds @ ?ts))" by (simp only: mset_append rest filter_append)
  also have "\<dots> = mset (filter ?P es)" using put_back(2) [OF es(1,3) refl texts [unfolded es(2)]] by (simp only: mset_filter)
  finally have "encode (Map (filter ?P es)) = encode (Map (?rs @ ?ts))"
    using map_ok_filter [OF es(1), of ?P] by (intro encode_Map_perm) (simp_all add: map_ok_def)
  then show ?thesis by (simp only: link_content_sha256_def ws(1) bindR.simps case_prod_conv content_sha256_def es(2) without_three)
qed

end



subsection \<open>The three objects keep the contract\<close>

lemma check_text_Inr [result_simps]: "check_text s key mn mx = Inr u \<longleftrightarrow> is_canonical s \<and> mn \<le> length s \<and> length s \<le> mx"
  by (auto simp: check_text_def not_less)

lemma refuse_Inr [result_simps]: "refuse v key = Inr u \<longleftrightarrow> value_get v key = None"
  by (simp add: refuse_def split: option.split)

lemma common_Inr [result_simps]: "common v = Inr (i, t, c) \<longleftrightarrow> value_get v ''cert_sha256'' = None \<and> bytes16 v ''id'' = Inr i
     \<and> value_get v ''sent'' = Some (Uint t) \<and> value_get v ''cert'' = Some (Bytes c)"
  by (auto simp: common_def result_simps)

lemmas reader_defs = common_def refuse_def bytes16_def opt_bytes16_def field_defs exact_def only_true_def

lemma parent_get:
  assumes "\<And>k. value_get v k = value_get v' k"
  shows "parent_from_value v = parent_from_value v'"
proof -
  have "exact v = exact v'" by (intro ext) (simp add: exact_def assms)
  then show ?thesis by (simp only: parent_from_value_def assms)
qed

interpretation pms: message_object private_messages
proof unfold_locales
  fix v v' d
  assume "\<And>k. value_get v k = value_get v' k"
  then show "op_from_value private_messages v d = op_from_value private_messages v' d"
    by (simp add: private_messages_def pm_from_value_def reader_defs)
next
  fix v m
  assume "op_from_value private_messages v True = Inr m"
  then obtain i t c s to auto where parts: "refuse v ''in'' = Inr ()" "common v = Inr (i, t, c)" "f_opt_text v ''quote'' = Inr None"
    "f_text v ''text'' = Inr s" "check_text s ''text'' 1 4096 = Inr ()" "f_bytes32 v ''to'' = Inr to" "only_true v ''auto'' = Inr auto"
    "m = \<lparr>pm_id = i, pm_sent = t, pm_to = to, pm_cert = c, pm_text = s, pm_quote = None, pm_auto = auto\<rparr>"
    by (auto simp: private_messages_def pm_from_value_def bindR_Inr_iff split: option.splits)
  then have "check_text s ''text'' 1 8192 = Inr ()" by (simp add: check_text_Inr)
  with parts show "op_from_value private_messages v False = Inr m" by (simp add: private_messages_def pm_from_value_def)
next
  fix v d m k
  assume "op_from_value private_messages v d = Inr m" "k \<in> set (op_text_keys private_messages)"
  then show "\<exists>t. value_get v k = Some (Text t) \<and> is_canonical t"
    by (auto simp: private_messages_def pm_from_value_def bindR_Inr_iff f_Inr_iff check_text_Inr)
next
  fix v d m
  assume "op_from_value private_messages v d = Inr m"
  then show "value_get v ''cert'' = Some (Bytes (op_cert private_messages m)) \<and> value_get v ''cert_sha256'' = None"
    by (auto simp: private_messages_def pm_from_value_def bindR_Inr_iff common_Inr)
qed (simp_all add: private_messages_def)

interpretation cls: message_object chat_lines
proof unfold_locales
  fix v v' d
  assume "\<And>k. value_get v k = value_get v' k"
  then show "op_from_value chat_lines v d = op_from_value chat_lines v' d"
    by (simp add: chat_lines_def cl_from_value_def reader_defs)
next
  fix v m
  assume "op_from_value chat_lines v True = Inr m"
  then show "op_from_value chat_lines v False = Inr m" by (simp add: chat_lines_def cl_from_value_def)
next
  fix v d m k
  assume "op_from_value chat_lines v d = Inr m" "k \<in> set (op_text_keys chat_lines)"
  then show "\<exists>t. value_get v k = Some (Text t) \<and> is_canonical t"
    by (auto simp: chat_lines_def cl_from_value_def bindR_Inr_iff f_Inr_iff check_text_Inr)
next
  fix v d m
  assume "op_from_value chat_lines v d = Inr m"
  then show "value_get v ''cert'' = Some (Bytes (op_cert chat_lines m)) \<and> value_get v ''cert_sha256'' = None"
    by (auto simp: chat_lines_def cl_from_value_def bindR_Inr_iff common_Inr)
qed (simp_all add: chat_lines_def)

interpretation ars: message_object articles
proof unfold_locales
  fix v v' d
  assume "\<And>k. value_get v k = value_get v' k"
  then show "op_from_value articles v d = op_from_value articles v' d"
    using parent_get [of v v'] by (simp add: articles_def ar_from_value_def reader_defs)
next
  fix v m
  assume "op_from_value articles v True = Inr m"
  then show "op_from_value articles v False = Inr m" by (simp add: articles_def ar_from_value_def)
next
  fix v d m k
  assume "op_from_value articles v d = Inr m" "k \<in> set (op_text_keys articles)"
  then show "\<exists>t. value_get v k = Some (Text t) \<and> is_canonical t"
    by (auto simp: articles_def ar_from_value_def bindR_Inr_iff f_Inr_iff check_text_Inr)
next
  fix v d m
  assume "op_from_value articles v d = Inr m"
  then show "value_get v ''cert'' = Some (Bytes (op_cert articles m)) \<and> value_get v ''cert_sha256'' = None"
    by (auto simp: articles_def ar_from_value_def bindR_Inr_iff common_Inr)
qed (simp_all add: articles_def)


subsection \<open>Properties\<close>

text \<open>A reader handed the detached form, or the link form and its certificate, and the texts as they arrived, with any line
  ends that canonicalize to the signed ones, reads the very message the whole map holds.\<close>

definition forms_read_alike :: "crypto \<Rightarrow> ('m, 's) object_ops \<Rightarrow> bytes \<Rightarrow> 'm signed \<Rightarrow> u64 \<Rightarrow> string list \<Rightarrow> bool" where
  "forms_read_alike C T bs s at texts \<longleftrightarrow>
     (\<forall>db. detached_form T s = Inr db \<longrightarrow> (\<exists>s'. parse_detached C T db texts at = Inr s'
        \<and> sg_message s' = sg_message s \<and> sg_cert s' = sg_cert s \<and> whole_bytes s' = bs))
     \<and> (\<forall>lb. link_form C T s = Inr lb \<longrightarrow> (\<exists>s'. parse_link C T lb texts (op_cert T (sg_message s)) at = Inr s'
          \<and> sg_message s' = sg_message s \<and> sg_cert s' = sg_cert s \<and> whole_bytes s' = bs)
        \<and> link_content_sha256 C T lb texts = Inr (content_sha256 C s))"

context message_object
begin

lemma forms_agree:
  assumes "crypto_ok C" "signed_parse C T bs at = Inr s" "map canonicalize texts = texts_of T (sg_whole s)"
  shows "forms_read_alike C T bs s at texts"
proof -
  have "\<exists>s'. parse_detached C T db texts at = Inr s' \<and> sg_message s' = sg_message s \<and> sg_cert s' = sg_cert s \<and> whole_bytes s' = bs"
    if "detached_form T s = Inr db" for db using detached_agrees [OF assms(2) that assms(3)] by blast
  moreover have "\<exists>s'. parse_link C T lb texts (op_cert T (sg_message s)) at = Inr s' \<and> sg_message s' = sg_message s
      \<and> sg_cert s' = sg_cert s \<and> whole_bytes s' = bs" if "link_form C T s = Inr lb" for lb
    using link_agrees [OF assms(1,2) that assms(3)] by blast
  ultimately show ?thesis using link_content_agrees [OF assms(1,2) _ assms(3)] by (simp add: forms_read_alike_def)
qed

end

end
