(* ===== verification/Message_Signing.thy ===== *)
theory Message_Signing
  imports Message_Forms
begin

section \<open>Signed messages verify\<close>

text \<open>
  Signing and reading compose: what a device signs, any reader that is in the right place and is told the right sender
  shows as verified, in any of its forms; no object passes for another of a different kind; and a padded message unpads.
\<close>

subsection \<open>Nested maps\<close>

text \<open>A map of plain fields inside an object, as the scope of a line and the parent of an article are.\<close>

definition nested_ok :: "fields \<Rightarrow> bool" where
  "nested_ok fs \<longleftrightarrow> distinct (map fst fs) \<and> list_all (\<lambda>k. length k < 24 \<and> str_ascii k) (map fst fs) \<and> length fs < 22
     \<and> list_all (\<lambda>p. case snd p of Some (Bytes b) \<Rightarrow> length b < 2 ^ 64 | Some (Uint n) \<Rightarrow> True | None \<Rightarrow> True | _ \<Rightarrow> False) fs"

lemma nested_entry:
  assumes "nested_ok fs" "p \<in> set (entries_of fs)"
  shows "entry_ok p \<and> cbor_depth (fst p) = 0 \<and> cbor_depth (snd p) = 0 \<and> (\<exists>k. fst p = Text k \<and> k \<in> fst ` set fs)"
proof -
  obtain k v where p: "(k, Some v) \<in> set fs" "p = (Text k, v)" using assms(2) by (auto simp: set_entries_of)
  then have k: "length k < 24" "str_ascii k" and v: "case Some v of Some (Bytes b) \<Rightarrow> length b < 2 ^ 64 | Some (Uint n) \<Rightarrow> True | None \<Rightarrow> True | _ \<Rightarrow> False"
    using assms(1) by (fastforce simp: nested_ok_def list_all_iff)+
  from v consider b where "v = Bytes b" "length b < 2 ^ 64" | n where "v = Uint n" by (auto split: cbor_value.splits)
  then show ?thesis using p k by cases (force simp: entry_ok_def MAX_DEPTH_def str_ascii_valid)+
qed

lemma nested_map_ok:
  assumes "nested_ok fs"
  shows "map_ok (entries_of fs)"
proof -
  have "keys_distinct (entries_of fs)"
  proof (rule keys_distinct_Texts [OF _ _ keys_entries_of])
    show "distinct (present fs)" using assms by (intro distinct_present) (simp add: nested_ok_def)
    show "\<forall>k\<in>set (present fs). length k < 2 ^ 64 \<and> str_valid k"
    proof
      fix k
      assume "k \<in> set (present fs)"
      then have "k \<in> set (map fst fs)" using present_subset [of fs] by auto
      then have "length k < 24 \<and> str_ascii k" using assms by (simp only: nested_ok_def list_all_iff)
      then show "length k < 2 ^ 64 \<and> str_valid k" by (simp add: str_ascii_valid)
    qed
  qed
  then show ?thesis using nested_entry [OF assms] length_entries_of [of fs] assms by (auto simp: map_ok_def nested_ok_def)
qed

lemma nested_value_ok:
  assumes "nested_ok fs"
  shows "value_ok (cbor_map fs)"
proof -
  note ok = nested_map_ok [OF assms] and en = nested_entry [OF assms]
  have "cbor_depth (Map (entries_of fs)) \<le> 1"
    using cbor_depth_Map_le [of 0 1 "entries_of fs"] en by (simp del: cbor_depth.simps)
  then show ?thesis using ok en
    by (auto simp: value_ok_def cbor_map_entries map_ok_def entry_ok_def keys_distinct_def entry_key_def [abs_def] MAX_DEPTH_def simp del: cbor_depth.simps)
qed

lemma nested_canon: "nested_ok fs \<Longrightarrow> cbor_canon (cbor_map fs) = Map (sort_key entry_key (entries_of fs))"
  unfolding cbor_map_entries cbor_canon_Map by (auto simp: nested_entry entry_ok_def dest!: nested_entry intro!: map_idI)


lemma nested_either:
  assumes "nested_ok fs" "w = cbor_map fs \<or> w = cbor_canon (cbor_map fs)"
  obtains es where "w = Map es" "mset es = mset (entries_of fs)"
  using assms(2) by (auto simp: nested_canon [OF assms(1)]) (auto simp: cbor_map_entries)

lemma nested_get:
  assumes "nested_ok fs" "w = cbor_map fs \<or> w = cbor_canon (cbor_map fs)"
  shows "value_get w k = field fs k"
proof -
  obtain es where es: "w = Map es" "mset es = mset (entries_of fs)" by (rule nested_either [OF assms])
  show ?thesis
    using value_get_perm [OF nested_map_ok [OF assms(1)] es(2), of k] value_get_cbor_map [of fs k] assms(1)
    by (simp add: es(1) cbor_map_entries nested_ok_def)
qed

lemma nested_exact:
  assumes fs: "nested_ok fs" "w = cbor_map fs \<or> w = cbor_canon (cbor_map fs)"
    and w: "value_get v key = Some w" "set (map fst fs) \<subseteq> set allowed"
  shows "exact v key allowed = Inr w"
proof -
  obtain es where es: "w = Map es" "mset es = mset (entries_of fs)" by (rule nested_either [OF fs])
  have "key_among allowed (fst p)" if "p \<in> set es" for p
    using nested_entry [OF fs(1), of p] that mset_eq_setD [OF es(2)] w(2) by (auto simp: key_among_def)
  then show ?thesis by (simp add: exact_def w(1) es(1) list_all_iff)
qed

lemma field_size_nested:
  assumes "length k < 24" "length fs < 22" "list_all2 (\<lambda>p m. field_size p \<le> m) fs ms" "length k + 2 + sum_list ms \<le> n"
  shows "field_size (k, Some (cbor_map fs)) \<le> n"
proof -
  have "length (encode (cbor_map fs)) = 1 + sum_list (map field_size fs)"
    using length_sealed_entries [of "[]" fs] assms(2) by (simp add: signatures_ok_def sealed_entries_def cbor_map_entries)
  then show ?thesis
    using sum_field_sizes [OF assms(3)] assms(1,4) length_put_head_tiny [of "length k" 3] by (simp add: field_size_def)
qed


subsection \<open>Signing\<close>

locale signable_object = message_object T for T :: "('m, 's) object_ops" +
  fixes typed :: "'m \<Rightarrow> bool"
  assumes sign_fields: "typed m \<Longrightarrow> op_from_value T (cbor_map (op_unsigned T m)) False = Inr m' \<Longrightarrow>
      length (op_cert T m) \<le> MESSAGE_CERT_MAX_BYTES \<Longrightarrow> fields_ok (op_unsigned T m)"
    and sign_read: "typed m \<Longrightarrow> op_from_value T (cbor_map (op_unsigned T m)) False = Inr m' \<Longrightarrow>
      (\<And>k. k \<noteq> ''sig'' \<Longrightarrow> value_get v k = map_option cbor_canon (field (op_unsigned T m) k)) \<Longrightarrow> op_from_value T v False = Inr m'"
    and sign_size: "typed m \<Longrightarrow> op_from_value T (cbor_map (op_unsigned T m)) False = Inr m' \<Longrightarrow>
      length (op_cert T m) \<le> MESSAGE_CERT_MAX_BYTES \<Longrightarrow>
      length (op_unsigned T m) < 22 \<and> 71 + sum_list (map field_size (op_unsigned T m)) \<le> op_whole_max T"
    and sign_same: "op_from_value T (cbor_map (op_unsigned T m)) False = Inr m' \<Longrightarrow> op_cert T m' = op_cert T m \<and> op_sent T m' = op_sent T m"
begin

lemma signed_reads:
  assumes C: "crypto_ok C" "length device = 32" and m: "typed m" "object_sign C T device m = Inr bs"
    and c: "cert_parse C (op_cert T m) = Inr c" "check_window (dc_issued c) (dc_expires c) at SKEW = Inr ()"
  obtains s where "signed_parse C T bs at = Inr s" "op_from_value T (cbor_map (op_unsigned T m)) False = Inr (sg_message s)"
    "sg_cert s = c" "whole_bytes s = bs"
proof -
  let ?fs = "op_unsigned T m" and ?sign = "sign_domain C device (op_domain T)"
  let ?sig = "?sign (encode (cbor_map ?fs))"
  let ?v = "sealed_value ?fs [(''sig'', ?sig)]"
  obtain m' where m': "op_from_value T (cbor_map ?fs) False = Inr m'" and cert: "length (op_cert T m) \<le> MESSAGE_CERT_MAX_BYTES"
    "cert_require c cap_MESSAGE = Inr ()" "check_window (dc_issued c) (dc_expires c) (op_sent T m) SKEW = Inr ()"
    "dc_device c = ed_public C device" "bs = seal ?fs ?sign"
    using m(2) c(1) by (auto simp: object_sign_def check_cert_def result_simps split: if_splits)
  note same = sign_same [OF m'] and ok = sign_fields [OF m(1) m' cert(1)]
  have len: "length ?sig = 64" by (rule length_sign_domain [OF C])
  then have sigs: "signatures_ok [(''sig'', ?sig)]" by (simp add: signatures_ok_def)
  have "value_get ?v k = map_option cbor_canon (field ?fs k)" if "k \<noteq> ''sig''" for k
    using get_sealed_field [OF fields_ok_plain [OF ok] sigs, of k] that by (simp add: sealed_value_def)
  then have read: "op_from_value T ?v False = Inr m'" by (rule sign_read [OF m(1) m'])
  have decode: "decode_canonical bs = Inr ?v" using decode_seal [of ?fs ?sign] ok len cert(5) by simp
  have "length bs \<le> op_whole_max T" using sign_size [OF m(1) m' cert(1)] length_seal [of ?sign ?fs] len cert(5) by simp
  moreover have "envelope_from_value ?v = Inr \<lparr>env_value = ?v, env_v = VERSION, env_signed_bytes = encode (cbor_map ?fs), env_sig = ?sig\<rparr>"
    by (rule envelope_of_sealed [OF ok len])
  moreover have "check_cert C (op_cert T m') (op_sent T m') at = Inr c" using same cert c by (simp add: check_cert_def not_less)
  ultimately have "signed_parse C T bs at = Inr \<lparr>sg_message = m', sg_cert = c, sg_whole = ?v\<rparr>"
    using read decode verify_sign_domain [OF C] cert(4) by (simp add: signed_parse_def signed_verify_def envelope_verify_def not_less)
  moreover have "encode ?v = bs" using decode by (simp add: decode_canonical_iff)
  ultimately show ?thesis using m' by (intro that [of "\<lparr>sg_message = m', sg_cert = c, sg_whole = ?v\<rparr>"]) (simp_all add: whole_bytes_def)
qed

end


text \<open>What a value shows of the fields it was made of, before or after the codec put it in its canonical form.\<close>

definition shows_fields :: "cbor_value \<Rightarrow> fields \<Rightarrow> (cbor_value \<Rightarrow> cbor_value) \<Rightarrow> bool" where
  "shows_fields v fs h \<longleftrightarrow> (h = id \<or> h = cbor_canon) \<and> (\<forall>k. k \<noteq> ''sig'' \<longrightarrow> value_get v k = map_option h (field fs k))"

lemma shows_raw: "distinct (map fst fs) \<Longrightarrow> shows_fields (cbor_map fs) fs id"
  by (simp add: shows_fields_def value_get_cbor_map option.map_id)

lemma shows_get: "shows_fields v fs h \<Longrightarrow> k \<noteq> ''sig'' \<Longrightarrow> value_get v k = map_option h (field fs k)"
  by (simp add: shows_fields_def)

lemma shows_flat:
  assumes "shows_fields v fs h"
  shows "h (Bytes b) = Bytes b" "h (Text t) = Text t" "h (Uint n) = Uint n" "h (Bool c) = Bool c"
  using assms by (auto simp: shows_fields_def)

definition text_fits :: "nat \<Rightarrow> nat \<Rightarrow> string \<Rightarrow> bool" where
  "text_fits mn mx s \<longleftrightarrow> is_canonical (canonicalize s) \<and> mn \<le> length (canonicalize s) \<and> length (canonicalize s) \<le> mx"

definition pm_typed :: "private_message \<Rightarrow> bool" where
  "pm_typed m \<longleftrightarrow> str_valid (canonicalize (pm_text m)) \<and> (\<forall>q. pm_quote m = Some q \<longrightarrow> str_valid (canonicalize q))"

definition pm_ok :: "private_message \<Rightarrow> bool" where
  "pm_ok m \<longleftrightarrow> length (pm_id m) = 16 \<and> length (pm_to m) = 32 \<and> text_fits 1 8192 (pm_text m)
     \<and> (\<forall>q. pm_quote m = Some q \<longrightarrow> text_fits 1 8192 q)"

definition pm_canonical :: "private_message \<Rightarrow> private_message" where
  "pm_canonical m = m\<lparr>pm_text := canonicalize (pm_text m), pm_quote := map_option canonicalize (pm_quote m)\<rparr>"

lemma pm_read:
  assumes v: "shows_fields v (pm_unsigned m) h"
  shows "pm_from_value v False = Inr m' \<longleftrightarrow> pm_ok m \<and> m' = pm_canonical m"
proof -
  note get = shows_get [OF v] shows_flat [OF v]
  have common: "common v = (if length (pm_id m) = 16 then Inr (pm_id m, pm_sent m, pm_cert m) else Inl (BadField ''id''))"
    by (simp add: reader_defs get pm_unsigned_def field_def)
  have auto: "only_true v ''auto'' = Inr (pm_auto m)" by (simp add: reader_defs get pm_unsigned_def field_def)
  have quote: "f_opt_text v ''quote'' = Inr (map_option canonicalize (pm_quote m))"
    by (cases "pm_quote m") (simp_all add: reader_defs get pm_unsigned_def field_def canonical_value_def)
  have body: "f_text v ''text'' = Inr (canonicalize (pm_text m))" by (simp add: reader_defs get pm_unsigned_def field_def canonical_value_def)
  have inn: "refuse v ''in'' = Inr ()" by (simp add: reader_defs get pm_unsigned_def field_def)
  have to: "f_bytes32 v ''to'' = (if length (pm_to m) = 32 then Inr (pm_to m) else Inl (BadField ''to''))"
    by (simp add: reader_defs get pm_unsigned_def field_def)
  show ?thesis
    unfolding pm_from_value_def inn common quote body to auto
    by (cases "pm_quote m") (auto simp: pm_ok_def pm_canonical_def text_fits_def check_text_def not_less Suc_le_eq)
qed


definition cl_typed :: "chat_line \<Rightarrow> bool" where
  "cl_typed m \<longleftrightarrow> str_valid (canonicalize (cl_text m)) \<and> length (cl_server m) < 2 ^ 64"

definition cl_ok :: "chat_line \<Rightarrow> bool" where
  "cl_ok m \<longleftrightarrow> length (cl_id m) = 16 \<and> length (cl_server m) = 32 \<and> text_fits 1 4096 (cl_text m)"

definition cl_canonical :: "chat_line \<Rightarrow> chat_line" where
  "cl_canonical m = m\<lparr>cl_text := canonicalize (cl_text m)\<rparr>"

abbreviation cl_scope :: "chat_line \<Rightarrow> fields" where
  "cl_scope m \<equiv> [(''server'', Some (Bytes (cl_server m))), (''room'', Some (Uint (cl_room m)))]"

lemma cl_scope_ok: "cl_typed m \<Longrightarrow> nested_ok (cl_scope m)"
  by (simp add: nested_ok_def cl_typed_def str_ascii_def)

lemma cl_read:
  assumes v: "shows_fields v (cl_unsigned m) h" and m: "cl_typed m"
  shows "cl_from_value v d = Inr m' \<longleftrightarrow> cl_ok m \<and> m' = cl_canonical m"
proof -
  note get = shows_get [OF v] shows_flat [OF v]
  have h: "h w = w \<or> h w = cbor_canon w" for w using v by (auto simp: shows_fields_def)
  have common: "common v = (if length (cl_id m) = 16 then Inr (cl_id m, cl_sent m, cl_cert m) else Inl (BadField ''id''))"
    by (simp add: reader_defs get cl_unsigned_def field_def)
  have act: "only_true v ''act'' = Inr (cl_act m)" by (simp add: reader_defs get cl_unsigned_def field_def)
  have body: "f_text v ''text'' = Inr (canonicalize (cl_text m))" by (simp add: reader_defs get cl_unsigned_def field_def canonical_value_def)
  have to: "refuse v ''to'' = Inr ()" by (simp add: reader_defs get cl_unsigned_def field_def)
  have "value_get v ''in'' = Some (h (cbor_map (cl_scope m)))" by (simp add: get cl_unsigned_def field_def)
  then have scope: "exact v ''in'' [''server'', ''room''] = Inr (h (cbor_map (cl_scope m)))"
    "\<And>k. value_get (h (cbor_map (cl_scope m))) k = field (cl_scope m) k"
    using nested_exact [OF cl_scope_ok [OF m] h] nested_get [OF cl_scope_ok [OF m] h] by simp_all
  show ?thesis
    unfolding cl_from_value_def to common body act scope(1) bindR.simps
    by (auto simp: cl_ok_def cl_canonical_def text_fits_def check_text_def not_less Suc_le_eq f_bytes32_def f_uint_def scope(2) field_def)
qed

definition ar_typed :: "article \<Rightarrow> bool" where
  "ar_typed m \<longleftrightarrow> str_valid (canonicalize (ar_subject m)) \<and> str_valid (canonicalize (ar_body m)) \<and> length (ar_server m) < 2 ^ 64
     \<and> length (ar_category m) < 2 ^ 64
     \<and> (\<forall>p i b. ar_parent m = Some p \<longrightarrow> pt_signed p = Some (i, b) \<longrightarrow> length i = 16 \<and> length b = 32)"

definition ar_ok :: "article \<Rightarrow> bool" where
  "ar_ok m \<longleftrightarrow> length (ar_id m) = 16 \<and> length (ar_server m) = 32 \<and> length (ar_category m) = 16 \<and> text_fits 1 255 (ar_subject m)
     \<and> LF \<notin> set (canonicalize (ar_subject m)) \<and> text_fits 0 65535 (ar_body m) \<and> ar_mime m \<in> {''text/plain'', ''text/markdown''}"

definition ar_canonical :: "article \<Rightarrow> article" where
  "ar_canonical m = m\<lparr>ar_subject := canonicalize (ar_subject m), ar_body := canonicalize (ar_body m)\<rparr>"

abbreviation ar_scope :: "article \<Rightarrow> fields" where
  "ar_scope m \<equiv> [(''server'', Some (Bytes (ar_server m))), (''category'', Some (Bytes (ar_category m)))]"

abbreviation parent_fields :: "parent \<Rightarrow> fields" where
  "parent_fields p \<equiv> [(''article'', Some (Uint (pt_article p))),
     (''id'', map_option (\<lambda>s. Bytes (fst s)) (pt_signed p)), (''by'', map_option (\<lambda>s. Bytes (snd s)) (pt_signed p))]"

lemma ar_nested_ok:
  assumes "ar_typed m"
  shows "nested_ok (ar_scope m)" "ar_parent m = Some p \<Longrightarrow> nested_ok (parent_fields p)"
  using assms by (auto simp: nested_ok_def ar_typed_def str_ascii_def split: option.splits)

lemma ar_read:
  assumes v: "shows_fields v (ar_unsigned m) h" and m: "ar_typed m"
  shows "ar_from_value v d = Inr m' \<longleftrightarrow> ar_ok m \<and> m' = ar_canonical m"
proof -
  note get = shows_get [OF v] shows_flat [OF v]
  have h: "h w = w \<or> h w = cbor_canon w" for w using v by (auto simp: shows_fields_def)
  have common: "common v = (if length (ar_id m) = 16 then Inr (ar_id m, ar_sent m, ar_cert m) else Inl (BadField ''id''))"
    by (simp add: reader_defs get ar_unsigned_def field_def)
  have texts: "f_text v ''subject'' = Inr (canonicalize (ar_subject m))" "f_text v ''body'' = Inr (canonicalize (ar_body m))"
    "f_text v ''mime'' = Inr (ar_mime m)"
    by (simp_all add: reader_defs get ar_unsigned_def field_def canonical_value_def)
  have to: "refuse v ''to'' = Inr ()" by (simp add: reader_defs get ar_unsigned_def field_def)
  have "value_get v ''in'' = Some (h (cbor_map (ar_scope m)))" by (simp add: get ar_unsigned_def field_def)
  then have scope: "exact v ''in'' [''server'', ''category''] = Inr (h (cbor_map (ar_scope m)))"
    "\<And>k. value_get (h (cbor_map (ar_scope m))) k = field (ar_scope m) k"
    using nested_exact [OF ar_nested_ok(1) [OF m] h] nested_get [OF ar_nested_ok(1) [OF m] h] by simp_all
  have parent: "parent_from_value v = Inr (ar_parent m)"
  proof (cases "ar_parent m")
    case None
    then show ?thesis by (simp add: parent_from_value_def get ar_unsigned_def field_def)
  next
    case (Some p)
    have at: "value_get v ''parent'' = Some (h (cbor_map (parent_fields p)))" by (simp add: get ar_unsigned_def field_def Some)
    then have "exact v ''parent'' [''article'', ''id'', ''by''] = Inr (h (cbor_map (parent_fields p)))"
      "\<And>k. value_get (h (cbor_map (parent_fields p))) k = field (parent_fields p) k"
      using nested_exact [OF ar_nested_ok(2) [OF m Some] h] nested_get [OF ar_nested_ok(2) [OF m Some] h] by simp_all
    then show ?thesis using m Some at
      by (cases "pt_signed p") (auto simp: parent_from_value_def opt_bytes16_def f_opt_bytes_def f_opt_bytes32_def f_uint_def field_def ar_typed_def)
  qed
  show ?thesis
    unfolding ar_from_value_def to common texts scope(1) parent bindR.simps
    by (auto simp: ar_ok_def ar_canonical_def text_fits_def check_text_def guardR_def not_less Suc_le_eq f_bytes32_def bytes16_def opt_bytes16_def f_opt_bytes_def scope(2) field_def)
qed


lemma shows_canon:
  "(\<And>k. k \<noteq> ''sig'' \<Longrightarrow> value_get v k = map_option cbor_canon (field fs k)) \<Longrightarrow> shows_fields v fs cbor_canon"
  by (simp add: shows_fields_def)

lemma text_fits_ok: "text_fits mn mx s \<Longrightarrow> str_valid (canonicalize s) \<Longrightarrow> mx < 2 ^ 64 \<Longrightarrow> value_ok (canonical_value s)"
  by (simp add: text_fits_def canonical_value_def text_ok_def)

lemma field_size_text:
  "text_fits mn mx s \<Longrightarrow> mx < 65536 \<Longrightarrow> length k < 24 \<Longrightarrow> length k + mx + 4 \<le> n \<Longrightarrow> field_size (k, Some (canonical_value s)) \<le> n"
  unfolding canonical_value_def text_fits_def by (rule field_size_Text) auto

lemma pm_raw: "pm_from_value (cbor_map (pm_unsigned m)) False = Inr m' \<longleftrightarrow> pm_ok m \<and> m' = pm_canonical m"
  by (rule pm_read [OF shows_raw]) (simp add: pm_unsigned_def)

lemma cl_raw: "cl_typed m \<Longrightarrow> cl_from_value (cbor_map (cl_unsigned m)) False = Inr m' \<longleftrightarrow> cl_ok m \<and> m' = cl_canonical m"
  by (rule cl_read [OF shows_raw]) (simp_all add: cl_unsigned_def)

lemma ar_raw: "ar_typed m \<Longrightarrow> ar_from_value (cbor_map (ar_unsigned m)) False = Inr m' \<longleftrightarrow> ar_ok m \<and> m' = ar_canonical m"
  by (rule ar_read [OF shows_raw]) (simp_all add: ar_unsigned_def)

lemma pm_fields_ok:
  assumes "pm_typed m" "pm_ok m" "length (pm_cert m) \<le> MESSAGE_CERT_MAX_BYTES"
  shows "fields_ok (pm_unsigned m)"
proof -
  have "value_ok (canonical_value (pm_text m))" using assms text_fits_ok [of 1 8192 "pm_text m"] by (simp add: pm_ok_def pm_typed_def)
  moreover have "value_ok (canonical_value q)" if "pm_quote m = Some q" for q
    using assms that text_fits_ok [of 1 8192 q] by (simp add: pm_ok_def pm_typed_def)
  ultimately show ?thesis using assms(2,3)
    by (intro fields_okI) (auto simp: pm_unsigned_def pm_ok_def object_simps MESSAGE_CERT_MAX_BYTES_def split: option.splits)
qed

lemma pm_size:
  assumes "pm_ok m" "length (pm_cert m) \<le> MESSAGE_CERT_MAX_BYTES"
  shows "71 + sum_list (map field_size (pm_unsigned m)) \<le> op_whole_max private_messages"
proof -
  have "field_size (''text'', Some (canonical_value (pm_text m))) \<le> 8200" using assms by (intro field_size_text [of 1 8192]) (simp_all add: pm_ok_def)
  moreover have "field_size (''quote'', map_option canonical_value (pm_quote m)) \<le> 8201"
    using assms by (cases "pm_quote m") (auto simp: pm_ok_def intro!: field_size_text [of 1 8192])
  moreover have "field_size (''auto'', if pm_auto m then Some (Bool True) else None) \<le> 6" by (simp add: field_size_Bool)
  ultimately have "list_all2 (\<lambda>p n. field_size p \<le> n) (pm_unsigned m) [11, 22, 14, 38, 520, 8200, 8201, 6]"
    using assms unfolding pm_unsigned_def by (simp add: pm_ok_def MESSAGE_CERT_MAX_BYTES_def field_size_Uint field_size_Bytes)
  from sum_field_sizes [OF this] show ?thesis by (simp add: private_messages_def PAD_SIZES_def)
qed

interpretation spm: signable_object private_messages pm_typed
proof unfold_locales
  fix m m'
  assume read: "op_from_value private_messages (cbor_map (op_unsigned private_messages m)) False = Inr m'"
  then have ok: "pm_ok m" "m' = pm_canonical m" by (simp_all add: private_messages_def pm_raw)
  then show "op_cert private_messages m' = op_cert private_messages m \<and> op_sent private_messages m' = op_sent private_messages m"
    by (simp add: private_messages_def pm_canonical_def)
  assume cert: "length (op_cert private_messages m) \<le> MESSAGE_CERT_MAX_BYTES"
  show "length (op_unsigned private_messages m) < 22 \<and> 71 + sum_list (map field_size (op_unsigned private_messages m)) \<le> op_whole_max private_messages"
    using pm_size [OF ok(1)] cert by (simp add: private_messages_def) (simp add: pm_unsigned_def)
  assume "pm_typed m"
  then show "fields_ok (op_unsigned private_messages m)" using pm_fields_ok ok(1) cert by (simp add: private_messages_def)
next
  fix m m' v
  assume read: "op_from_value private_messages (cbor_map (op_unsigned private_messages m)) False = Inr m'"
    and get: "\<And>k. k \<noteq> ''sig'' \<Longrightarrow> value_get v k = map_option cbor_canon (field (op_unsigned private_messages m) k)"
  from shows_canon [OF get] have "shows_fields v (pm_unsigned m) cbor_canon" by (simp add: private_messages_def)
  then show "op_from_value private_messages v False = Inr m'" using read by (simp add: private_messages_def pm_raw pm_read)
qed


lemma cl_fields_ok:
  assumes "cl_typed m" "cl_ok m" "length (cl_cert m) \<le> MESSAGE_CERT_MAX_BYTES"
  shows "fields_ok (cl_unsigned m)"
proof -
  have "value_ok (canonical_value (cl_text m))" using assms text_fits_ok [of 1 4096 "cl_text m"] by (simp add: cl_ok_def cl_typed_def)
  then show ?thesis using assms(2,3) nested_value_ok [OF cl_scope_ok [OF assms(1)]]
    by (intro fields_okI) (auto simp: cl_unsigned_def cl_ok_def object_simps MESSAGE_CERT_MAX_BYTES_def)
qed

lemma cl_size:
  assumes "cl_ok m" "length (cl_cert m) \<le> MESSAGE_CERT_MAX_BYTES"
  shows "71 + sum_list (map field_size (cl_unsigned m)) \<le> op_whole_max chat_lines"
proof -
  have "field_size (''text'', Some (canonical_value (cl_text m))) \<le> 4104" using assms by (intro field_size_text [of 1 4096]) (simp_all add: cl_ok_def)
  moreover have "field_size (''in'', Some (cbor_map (cl_scope m))) \<le> 80"
    using assms by (intro field_size_nested [where ms = "[50, 20]"]) (simp_all add: cl_ok_def size_bounds)
  moreover have "field_size (''act'', if cl_act m then Some (Bool True) else None) \<le> 6" by (simp add: field_size_Bool)
  ultimately have "list_all2 (\<lambda>p n. field_size p \<le> n) (cl_unsigned m) [11, 22, 14, 80, 520, 4104, 6]"
    using assms unfolding cl_unsigned_def by (simp add: cl_ok_def MESSAGE_CERT_MAX_BYTES_def field_size_Uint field_size_Bytes)
  from sum_field_sizes [OF this] show ?thesis by (simp add: chat_lines_def DETACHED_MAX_BYTES_def text_entry_def head_len_def)
qed

interpretation scl: signable_object chat_lines cl_typed
proof unfold_locales
  fix m m'
  assume read: "op_from_value chat_lines (cbor_map (op_unsigned chat_lines m)) False = Inr m'"
  then have "common (cbor_map (cl_unsigned m)) = Inr (cl_id m', cl_sent m', cl_cert m')"
    by (auto simp: chat_lines_def cl_from_value_def bindR_Inr_iff)
  moreover have "value_get (cbor_map (cl_unsigned m)) k = field (cl_unsigned m) k" for k by (rule value_get_cbor_map) (simp add: cl_unsigned_def)
  ultimately show "op_cert chat_lines m' = op_cert chat_lines m \<and> op_sent chat_lines m' = op_sent chat_lines m"
    by (simp add: chat_lines_def common_Inr) (simp add: cl_unsigned_def field_def)
  assume m: "cl_typed m" and cert: "length (op_cert chat_lines m) \<le> MESSAGE_CERT_MAX_BYTES"
  have ok: "cl_ok m" using read cl_raw [OF m] by (simp add: chat_lines_def)
  show "length (op_unsigned chat_lines m) < 22 \<and> 71 + sum_list (map field_size (op_unsigned chat_lines m)) \<le> op_whole_max chat_lines"
    using cl_size [OF ok] cert by (simp add: chat_lines_def) (simp add: cl_unsigned_def)
  show "fields_ok (op_unsigned chat_lines m)" using cl_fields_ok [OF m ok] cert by (simp add: chat_lines_def)
next
  fix m m' v
  assume m: "cl_typed m" and read: "op_from_value chat_lines (cbor_map (op_unsigned chat_lines m)) False = Inr m'"
    and get: "\<And>k. k \<noteq> ''sig'' \<Longrightarrow> value_get v k = map_option cbor_canon (field (op_unsigned chat_lines m) k)"
  from shows_canon [OF get] have "shows_fields v (cl_unsigned m) cbor_canon" by (simp add: chat_lines_def)
  then show "op_from_value chat_lines v False = Inr m'" using read m by (simp add: chat_lines_def cl_raw cl_read)
qed

lemma ar_fields_ok:
  assumes "ar_typed m" "ar_ok m" "length (ar_cert m) \<le> MESSAGE_CERT_MAX_BYTES"
  shows "fields_ok (ar_unsigned m)"
proof -
  have "value_ok (canonical_value (ar_subject m))" "value_ok (canonical_value (ar_body m))"
    using assms text_fits_ok [of 1 255 "ar_subject m"] text_fits_ok [of 0 65535 "ar_body m"] by (simp_all add: ar_ok_def ar_typed_def)
  moreover have "value_ok (Text (ar_mime m))" using assms(2) by (auto simp: ar_ok_def text_ok_def str_ascii_valid str_ascii_def)
  moreover have "value_ok (cbor_map (parent_fields p))" if "ar_parent m = Some p" for p
    by (rule nested_value_ok [OF ar_nested_ok(2) [OF assms(1) that]])
  ultimately show ?thesis using assms(2,3) nested_value_ok [OF ar_nested_ok(1) [OF assms(1)]]
    by (intro fields_okI) (auto simp: ar_unsigned_def ar_ok_def object_simps MESSAGE_CERT_MAX_BYTES_def split: option.splits)
qed

lemma ar_size:
  assumes "ar_typed m" "ar_ok m" "length (ar_cert m) \<le> MESSAGE_CERT_MAX_BYTES"
  shows "71 + sum_list (map field_size (ar_unsigned m)) \<le> op_whole_max articles"
proof -
  have parent: "field_size (''parent'', Some (cbor_map (parent_fields p))) \<le> 110" if "ar_parent m = Some p" for p
  proof -
    have "field_size (''id'', map_option (\<lambda>s. Bytes (fst s)) (pt_signed p)) \<le> 30" "field_size (''by'', map_option (\<lambda>s. Bytes (snd s)) (pt_signed p)) \<le> 40"
      using assms(1) that by (cases "pt_signed p"; auto simp: ar_typed_def intro!: field_size_Bytes)+
    then show ?thesis by (intro field_size_nested [where ms = "[20, 30, 40]"]) (simp_all add: size_bounds)
  qed
  have "field_size (''subject'', Some (canonical_value (ar_subject m))) \<le> 266" using assms by (intro field_size_text [of 1 255]) (simp_all add: ar_ok_def)
  moreover have "field_size (''body'', Some (canonical_value (ar_body m))) \<le> 65543" using assms by (intro field_size_text [of 0 65535]) (simp_all add: ar_ok_def)
  moreover have "field_size (''in'', Some (cbor_map (ar_scope m))) \<le> 90"
    using assms by (intro field_size_nested [where ms = "[50, 30]"]) (simp_all add: ar_ok_def size_bounds)
  moreover have "field_size (''parent'', map_option (\<lambda>p. cbor_map (parent_fields p)) (ar_parent m)) \<le> 110" using parent by (cases "ar_parent m") auto
  moreover have "field_size (''mime'', Some (Text (ar_mime m))) \<le> 30" using assms(2) by (auto simp: ar_ok_def intro!: field_size_Text)
  ultimately have "list_all2 (\<lambda>p n. field_size p \<le> n) (ar_unsigned m) [11, 22, 14, 90, 110, 520, 266, 65543, 30]"
    using assms unfolding ar_unsigned_def by (simp add: ar_ok_def MESSAGE_CERT_MAX_BYTES_def field_size_Uint field_size_Bytes)
  from sum_field_sizes [OF this] show ?thesis by (simp add: articles_def DETACHED_MAX_BYTES_def text_entry_def head_len_def)
qed

interpretation sar: signable_object articles ar_typed
proof unfold_locales
  fix m m'
  assume read: "op_from_value articles (cbor_map (op_unsigned articles m)) False = Inr m'"
  then have "common (cbor_map (ar_unsigned m)) = Inr (ar_id m', ar_sent m', ar_cert m')"
    by (auto simp: articles_def ar_from_value_def bindR_Inr_iff)
  moreover have "value_get (cbor_map (ar_unsigned m)) k = field (ar_unsigned m) k" for k by (rule value_get_cbor_map) (simp add: ar_unsigned_def)
  ultimately show "op_cert articles m' = op_cert articles m \<and> op_sent articles m' = op_sent articles m"
    by (simp add: articles_def common_Inr) (simp add: ar_unsigned_def field_def)
  assume m: "ar_typed m" and cert: "length (op_cert articles m) \<le> MESSAGE_CERT_MAX_BYTES"
  have ok: "ar_ok m" using read ar_raw [OF m] by (simp add: articles_def)
  show "length (op_unsigned articles m) < 22 \<and> 71 + sum_list (map field_size (op_unsigned articles m)) \<le> op_whole_max articles"
    using ar_size [OF m ok] cert by (simp add: articles_def) (simp add: ar_unsigned_def)
  show "fields_ok (op_unsigned articles m)" using ar_fields_ok [OF m ok] cert by (simp add: articles_def)
next
  fix m m' v
  assume m: "ar_typed m" and read: "op_from_value articles (cbor_map (op_unsigned articles m)) False = Inr m'"
    and get: "\<And>k. k \<noteq> ''sig'' \<Longrightarrow> value_get v k = map_option cbor_canon (field (op_unsigned articles m) k)"
  from shows_canon [OF get] have "shows_fields v (ar_unsigned m) cbor_canon" by (simp add: articles_def)
  then show "op_from_value articles v False = Inr m'" using read m by (simp add: articles_def ar_raw ar_read)
qed



subsection \<open>What a reader is shown\<close>

context signable_object
begin

lemma verified:
  assumes C: "crypto_ok C" "length device = 32" and m: "typed m" "object_sign C T device m = Inr bs"
    "op_from_value T (cbor_map (op_unsigned T m)) False = Inr m'"
    and c: "cert_parse C (op_cert T m) = Inr c" "check_window (dc_issued c) (dc_expires c) (cx_at cx) SKEW = Inr ()"
    and cx: "op_place T m' (cx_scope cx) = Here" "cx_sender cx \<in> {Named (fingerprint_of C (dc_identity c)), Certificate}"
  obtains s where "signed_parse C T bs (cx_at cx) = Inr s" "sg_message s = m'"
    "read_form C T (Whole bs) cx = Verified (fingerprint_of C (dc_identity c)) (SKEW < abs_diff (op_sent T m) (cx_at cx))"
    "\<And>db texts. detached_form T s = Inr db \<Longrightarrow> map canonicalize texts = texts_of T (sg_whole s) \<Longrightarrow>
       read_form C T (Detached db texts) cx = Verified (fingerprint_of C (dc_identity c)) (SKEW < abs_diff (op_sent T m) (cx_at cx))"
    "\<And>lb texts. link_form C T s = Inr lb \<Longrightarrow> map canonicalize texts = texts_of T (sg_whole s) \<Longrightarrow>
       read_form C T (Link lb texts (Some (op_cert T m))) cx = Verified (fingerprint_of C (dc_identity c)) (SKEW < abs_diff (op_sent T m) (cx_at cx))"
proof -
  obtain s where s: "signed_parse C T bs (cx_at cx) = Inr s" "sg_message s = m'" "sg_cert s = c"
    using signed_reads [OF C m(1,2) c] m(3) by (metis sum.inject(2))
  have same: "op_sent T m' = op_sent T m" "op_cert T m' = op_cert T m" using sign_same [OF m(3)] by simp_all
  have check: "signed_check C T s' cx = Verified (fingerprint_of C (dc_identity c)) (SKEW < abs_diff (op_sent T m) (cx_at cx))"
    if "sg_message s' = sg_message s" "sg_cert s' = sg_cert s" for s'
    using that s cx same(1) by (auto simp: signed_check_def signer_def Let_def)
  show ?thesis
  proof (rule that [OF s(1,2)])
    show "read_form C T (Whole bs) cx = Verified (fingerprint_of C (dc_identity c)) (SKEW < abs_diff (op_sent T m) (cx_at cx))"
      using s(1) check [of s] by (simp add: read_form_def)
  next
    fix db texts
    assume f: "detached_form T s = Inr db" "map canonicalize texts = texts_of T (sg_whole s)"
    obtain s' where "parse_detached C T db texts (cx_at cx) = Inr s'" "sg_message s' = sg_message s" "sg_cert s' = sg_cert s"
      by (rule detached_agrees [OF s(1) f])
    then show "read_form C T (Detached db texts) cx = Verified (fingerprint_of C (dc_identity c)) (SKEW < abs_diff (op_sent T m) (cx_at cx))"
      using check [of s'] by (simp add: read_form_def)
  next
    fix lb texts
    assume f: "link_form C T s = Inr lb" "map canonicalize texts = texts_of T (sg_whole s)"
    obtain s' where "parse_link C T lb texts (op_cert T (sg_message s)) (cx_at cx) = Inr s'" "sg_message s' = sg_message s" "sg_cert s' = sg_cert s"
      by (rule link_agrees [OF C(1) s(1) f])
    then show "read_form C T (Link lb texts (Some (op_cert T m))) cx
        = Verified (fingerprint_of C (dc_identity c)) (SKEW < abs_diff (op_sent T m) (cx_at cx))"
      using check [of s'] s(2) same(2) by (simp add: read_form_def)
  qed
qed

end

lemma pm_texts: "signed_parse C private_messages bs at = Inr s \<Longrightarrow> texts_of private_messages (sg_whole s) = [pm_text (sg_message s)]"
proof -
  assume "signed_parse C private_messages bs at = Inr s"
  then obtain es where "sg_whole s = Map es" "op_from_value private_messages (Map es) False = Inr (sg_message s)"
    by (rule pms.parsed_whole)
  then show ?thesis by (auto simp: texts_of_def private_messages_def pm_from_value_def bindR_Inr_iff f_Inr_iff dest!: sym [of _ "sg_message s"])
qed


subsection \<open>Padding\<close>

lemma pad_sizes_eq: "pad_sizes d = (if d then [480, 992, 2016, 4064, 8160, 17071] else [512, 1024, 2048, 4096, 8192, 17103])"
  by (simp add: pad_sizes_def PAD_SIZES_def DENIABLE_KEY_BYTES_def)

lemma pad_Inr:
  assumes "pad m d = Inr p"
  shows "p = m @ replicate (length p - length m) 0" "length m \<le> length p" "length p \<in> set (pad_sizes d)"
    "\<forall>n\<in>set (pad_sizes d). length m \<le> n \<longrightarrow> length p \<le> n"
  using assms by (auto simp: pad_def pad_sizes_eq result_simps split: if_splits)

lemma unpad_padded:
  assumes "decode_canonical m = Inr v" "pad m d = Inr p"
  shows "unpad p d = Inr m"
proof -
  have v: "cbor_wf v" "cbor_depth v \<le> MAX_DEPTH" "m = encode v" using assms(1) by (auto simp: decode_canonical_iff cbor_canonical_def)
  obtain n where p: "p = m @ replicate n 0" using pad_Inr(1) [OF assms(2)] by blast
  then have "item_len p = Inr (length m)" using item_len_encode [OF v(1,2)] v(3) by simp
  then show ?thesis using pad_Inr(3) [OF assms(2)] by (simp add: unpad_def p)
qed



subsection \<open>Properties\<close>

definition sample_message :: private_message where
  "sample_message = \<lparr>pm_id = replicate 16 1, pm_sent = 20, pm_to = friend_key 7, pm_cert = friend_cert_bytes 5,
     pm_text = [CHR ''h'', CHR ''i'', CR, LF, CHR ''!''], pm_quote = None, pm_auto = False\<rparr>"

definition sample_message_bytes :: bytes where
  "sample_message_bytes = seal (pm_unsigned sample_message) (sign_domain sample_crypto (friend_key 6) MESSAGE_DOMAIN)"

definition sample_context :: "bytes option read_context" where
  "sample_context = \<lparr>cx_at = 30, cx_sender = Named (friend_key 5), cx_scope = Some (friend_key 7)\<rparr>"

lemma sample_message_ok: "pm_typed sample_message" "pm_ok sample_message"
proof -
  have "canonicalize (pm_text sample_message) = [CHR ''h'', CHR ''i'', LF, CHR ''!'']" "pm_quote sample_message = None"
    by (simp_all add: sample_message_def canonicalize_def)
  moreover have "str_ascii [CHR ''h'', CHR ''i'', LF, CHR ''!'']" by (simp add: str_ascii_def)
  ultimately show "pm_typed sample_message" "pm_ok sample_message"
    by (simp_all add: pm_typed_def pm_ok_def text_fits_def is_canonical_def str_chars_def str_ascii_valid str_ascii_chars)
      (simp add: sample_message_def)
qed

lemma sample_cert_parses: "cert_parse sample_crypto (friend_cert_bytes n) = Inr (friend_cert n)"
  unfolding friend_cert_bytes_def
  by (rule cert_seal_parses [OF sample_crypto_ok length_friend_key]) (simp_all add: friend_cert_def cert_typed_def cert_check_fields_def sample_keys)

lemma sample_message_signed: "object_sign sample_crypto private_messages (friend_key 6) sample_message = Inr sample_message_bytes"
proof -
  have "check_cert sample_crypto (friend_cert_bytes 5) 20 20 = Inr (friend_cert 5)"
    using sample_small(1) sample_sat(4) by (simp add: check_cert_def sample_cert_parses) (simp add: friend_cert_def cert_require_def cert_allows_def)
  moreover have "pm_from_value (cbor_map (pm_unsigned sample_message)) False = Inr (pm_canonical sample_message)" by (simp add: pm_raw sample_message_ok)
  ultimately show ?thesis
    by (simp add: object_sign_def private_messages_def sample_message_bytes_def) (simp add: sample_message_def friend_cert_def sample_keys)
qed

text \<open>C9: A private message a device signs, whatever line ends its text has, is shown as verified, as said by the identity of
  the device's certificate, to its recipient, in whichever form it arrives: whole, detached beside its text, or as a link
  with its certificate fetched; if the certificate is in its time at the reader and the server names that identity or none.\<close>

theorem private_message_verifies:
  assumes C: "crypto_ok C" "length device = 32" and m: "pm_typed m" "object_sign C private_messages device m = Inr bs"
    and c: "cert_parse C (pm_cert m) = Inr c" "check_window (dc_issued c) (dc_expires c) (cx_at cx) SKEW = Inr ()"
    and cx: "cx_scope cx = Some (pm_to m)" "cx_sender cx \<in> {Named (fingerprint_of C (dc_identity c)), Certificate}"
    and V: "V = Verified (fingerprint_of C (dc_identity c)) (SKEW < abs_diff (pm_sent m) (cx_at cx))"
  shows "\<exists>s. signed_parse C private_messages bs (cx_at cx) = Inr s \<and> sg_message s = pm_canonical m
    \<and> read_form C private_messages (Whole bs) cx = V
    \<and> (\<forall>db. detached_form private_messages s = Inr db \<longrightarrow> read_form C private_messages (Detached db [pm_text m]) cx = V)
    \<and> (\<forall>lb. link_form C private_messages s = Inr lb \<longrightarrow> read_form C private_messages (Link lb [pm_text m] (Some (pm_cert m))) cx = V)"
proof -
  have read: "op_from_value private_messages (cbor_map (op_unsigned private_messages m)) False = Inr (pm_canonical m)"
    using m(2) by (auto simp: object_sign_def result_simps private_messages_def pm_raw)
  have "op_place private_messages (pm_canonical m) (cx_scope cx) = Here"
    using cx(1) by (simp add: private_messages_def pm_place_def pm_canonical_def)
  then obtain s where s: "signed_parse C private_messages bs (cx_at cx) = Inr s" "sg_message s = pm_canonical m"
    "read_form C private_messages (Whole bs) cx = V"
    "\<And>db texts. detached_form private_messages s = Inr db \<Longrightarrow> map canonicalize texts = texts_of private_messages (sg_whole s) \<Longrightarrow>
       read_form C private_messages (Detached db texts) cx = V"
    "\<And>lb texts. link_form C private_messages s = Inr lb \<Longrightarrow> map canonicalize texts = texts_of private_messages (sg_whole s) \<Longrightarrow>
       read_form C private_messages (Link lb texts (Some (pm_cert m))) cx = V"
    using spm.verified [OF C m read _ c(2) _ cx(2)] c(1) V by (simp add: private_messages_def) blast
  have "map canonicalize [pm_text m] = texts_of private_messages (sg_whole s)" using pm_texts [OF s(1)] s(2) by (simp add: pm_canonical_def)
  with s show ?thesis by blast
qed

theorem private_message_verifies_witness:
  "\<exists>s. signed_parse sample_crypto private_messages sample_message_bytes 30 = Inr s
    \<and> read_form sample_crypto private_messages (Whole sample_message_bytes) sample_context = Verified (friend_key 5) False"
proof -
  have "pm_cert sample_message = friend_cert_bytes 5" "cx_at sample_context = 30" "pm_sent sample_message = 20"
    by (simp_all add: sample_message_def sample_context_def)
  moreover have "\<not> SKEW < abs_diff 20 30" by (simp add: SKEW_def abs_diff_def)
  ultimately show ?thesis
    using private_message_verifies [OF sample_crypto_ok length_friend_key sample_message_ok(1) sample_message_signed _ _ _ _ refl,
      of "friend_cert 5" sample_context] sample_sat(5)
    by (simp add: sample_cert_parses) (auto simp: friend_cert_def sample_context_def sample_message_def sample_keys)
qed

text \<open>C34: No signed object passes for one of another kind: of the readers of private messages, lines of chat and articles at
  most one takes a value, in either form, whatever its signature.\<close>

theorem kinds_exclusive:
  "(isl (pm_from_value v d) \<or> isl (cl_from_value v d')) \<and> (isl (pm_from_value v d) \<or> isl (ar_from_value v d'))
   \<and> (isl (cl_from_value v d) \<or> isl (ar_from_value v d'))"
proof -
  have scope: "value_get v ''in'' \<noteq> None" if "exact v ''in'' allowed = Inr w" for allowed w
    using that by (auto simp: exact_def split: option.splits)
  have "value_get v ''in'' = None" if "\<not> isl (pm_from_value v d)"
    using that by (cases "pm_from_value v d") (auto simp: pm_from_value_def bindR_Inr_iff refuse_Inr)
  moreover have "value_get v ''in'' \<noteq> None" if "\<not> isl (cl_from_value v d)" for d
    using that scope by (cases "cl_from_value v d") (force simp: cl_from_value_def bindR_Inr_iff)+
  moreover have "value_get v ''in'' \<noteq> None" if "\<not> isl (ar_from_value v d)" for d
    using that scope by (cases "ar_from_value v d") (force simp: ar_from_value_def bindR_Inr_iff)+
  moreover have False if cl: "\<not> isl (cl_from_value v d)" and ar: "\<not> isl (ar_from_value v d')"
  proof -
    obtain w where w: "exact v ''in'' [''server'', ''room''] = Inr w"
      using cl by (cases "cl_from_value v d") (auto simp: cl_from_value_def bindR_Inr_iff)
    obtain w' g where w': "exact v ''in'' [''server'', ''category''] = Inr w'" "value_get w' ''category'' = Some g"
      using ar by (cases "ar_from_value v d'") (auto simp: ar_from_value_def bindR_Inr_iff map_err_Inr_iff bytes16_Inr_iff)
    obtain es where es: "w' = Map es" "list_all (\<lambda>p. key_among [''server'', ''room''] (fst p)) es"
      using w w'(1) by (auto simp: exact_def split: option.splits cbor_value.splits if_splits)
    obtain p where "find (\<lambda>p. fst p = Text ''category'') es = Some p" using w'(2) by (auto simp: es(1) value_get_def)
    then have "p \<in> set es" "fst p = Text ''category''" unfolding find_Some_iff by (auto simp: nth_mem)
    with es(2) show False by (force simp: list_all_iff key_among_def)
  qed
  ultimately show ?thesis by blast
qed

text \<open>C36: Every private message a reader would take can be padded, to the smallest of the sizes that holds it, and unpads to
  itself.\<close>

theorem message_pads:
  assumes "signed_parse C private_messages bs at = Inr s"
  shows "\<exists>p. pad bs False = Inr p \<and> unpad p False = Inr bs \<and> length p \<in> set PAD_SIZES
    \<and> (\<forall>n\<in>set PAD_SIZES. length bs \<le> n \<longrightarrow> length p \<le> n)"
proof -
  obtain v where v: "decode_canonical bs = Inr v" "length bs \<le> 17103"
    using assms by (auto simp: signed_parse_def private_messages_def PAD_SIZES_def result_simps split: if_splits)
  then have "find (\<lambda>size. length bs \<le> size) (pad_sizes False) \<noteq> None" by (auto simp: find_None_iff pad_sizes_eq)
  then obtain p where p: "pad bs False = Inr p" by (auto simp: pad_def)
  have "set (pad_sizes False) = set PAD_SIZES" by (simp add: pad_sizes_def)
  with unpad_padded [OF v(1) p] pad_Inr [OF p] p show ?thesis by auto
qed

theorem message_pads_witness: "\<exists>p. pad sample_message_bytes False = Inr p \<and> unpad p False = Inr sample_message_bytes"
proof -
  obtain s where "signed_parse sample_crypto private_messages sample_message_bytes 30 = Inr s"
    using spm.signed_reads [OF sample_crypto_ok length_friend_key sample_message_ok(1) sample_message_signed, of "friend_cert 5" 30]
      sample_cert_parses [of 5] sample_sat(5) by (auto simp: private_messages_def sample_message_def friend_cert_def)
  from message_pads [OF this] show ?thesis by blast
qed

end
