(* ===== verification/Bans.thy ===== *)
theory Bans
  imports Access_Bits Identity_Objects Inbox
begin

section \<open>Bans and how they are matched\<close>

text \<open>
  \<^verbatim>\<open>crates/hxd-core/src/ban.rs\<close>: what a ban refuses, its rows, and \<open>BanMatcher\<close>, which holds every standing ban so
  that a connection is matched without the store; with \<open>prefix_eq\<close> of \<^verbatim>\<open>limits.rs\<close>.  An address is the octets of its
  family.  The hash maps are kept in key order.  \<open>str::to_lowercase\<close> reads the tables of Unicode, which are data and not
  code of the program: where a login is compared it is the parameter \<open>lo\<close>.
\<close>

unbundle bit_operations_syntax


subsection \<open>Addresses\<close>

datatype ip_addr = V4 (octets: bytes) | V6 (octets: bytes)

definition ip_wf :: "ip_addr \<Rightarrow> bool" where
  "ip_wf ip \<longleftrightarrow> length (octets ip) = (case ip of V4 _ \<Rightarrow> 4 | V6 _ \<Rightarrow> 16)"

definition is_ipv4 :: "ip_addr \<Rightarrow> bool" where
  "is_ipv4 ip \<longleftrightarrow> (case ip of V4 _ \<Rightarrow> True | V6 _ \<Rightarrow> False)"

definition mapped_head :: bytes where
  "mapped_head = replicate 10 0 @ [0xff, 0xff]"

definition to_ipv6_mapped :: "bytes \<Rightarrow> bytes" where
  "to_ipv6_mapped v4 = mapped_head @ v4"

definition to_ipv4_mapped :: "bytes \<Rightarrow> bytes option" where
  "to_ipv4_mapped v6 = (if take 12 v6 = mapped_head then Some (drop 12 v6) else None)"

definition to_canonical :: "ip_addr \<Rightarrow> ip_addr" where
  "to_canonical ip =
     (case ip of
        V4 v4 \<Rightarrow> V4 v4
      | V6 v6 \<Rightarrow> (case to_ipv4_mapped v6 of Some v4 \<Rightarrow> V4 v4 | None \<Rightarrow> V6 v6))"

definition v6_octets :: "ip_addr \<Rightarrow> bytes" where
  "v6_octets ip = (case to_canonical ip of V4 v4 \<Rightarrow> to_ipv6_mapped v4 | V6 v6 \<Rightarrow> v6)"

text \<open>One byte of \<open>mask\<close>, with \<open>bits_before\<close> bits of the address before it.\<close>

definition mask_byte :: "nat \<Rightarrow> nat \<Rightarrow> u8 \<Rightarrow> u8" where
  "mask_byte plen bits_before byte =
     (if plen \<le> bits_before then 0
      else if plen - bits_before < 8 then byte AND push_bit (8 - (plen - bits_before)) 0xff
      else byte)"

definition mask_octets :: "bytes \<Rightarrow> u8 \<Rightarrow> bytes" where
  "mask_octets octs plen =
     map (\<lambda>(i, byte). mask_byte (min (unat plen) 128) (i * 8) byte) (enumerate 0 octs)"

text \<open>\<open>limits.rs\<close>: do \<open>a\<close> and \<open>b\<close> agree in their first \<open>bits\<close> bits?\<close>

definition prefix_eq :: "ip_addr \<Rightarrow> ip_addr \<Rightarrow> u32 \<Rightarrow> bool" where
  "prefix_eq a b bits =
     (if is_ipv4 a \<noteq> is_ipv4 b then False
      else
        let (a, b) = (octets a, octets b);
            (whole, rest) = (unat bits div 8, unat bits mod 8) in
        if take whole a \<noteq> take whole b then False
        else if rest = 0 then True
        else let m = push_bit (8 - rest) (0xff :: u8) in (a ! whole) AND m = (b ! whole) AND m)"

text \<open>\<open>Display\<close> of addresses: dotted decimals; groups in hexadecimal, the first longest run of two zeroes or more left out.\<close>

fun hex_nat :: "nat \<Rightarrow> string" where
  "hex_nat n = (if n < 16 then [] else hex_nat (n div 16)) @ [hex_digit (n mod 16)]"

declare hex_nat.simps [simp del]

fun joined :: "string \<Rightarrow> string list \<Rightarrow> string" where
  "joined sep [] = []"
| "joined sep [x] = x"
| "joined sep (x # y # xs) = x @ sep @ joined sep (y # xs)"

definition ipv4_string :: "bytes \<Rightarrow> string" where
  "ipv4_string v4 = joined ''.'' (map (\<lambda>b. decimal (unat b)) v4)"

fun segments :: "bytes \<Rightarrow> nat list" where
  "segments (a # b # bs) = (256 * unat a + unat b) # segments bs"
| "segments bs = []"

fun zero_span :: "nat \<Rightarrow> nat \<times> nat \<Rightarrow> nat \<times> nat \<Rightarrow> nat list \<Rightarrow> nat \<times> nat" where
  "zero_span i current longest [] = longest"
| "zero_span i (start, len) longest (s # ss) =
     (if s = 0 then
        let current = (if len = 0 then i else start, Suc len) in
        zero_span (Suc i) current (if snd longest < snd current then current else longest) ss
      else zero_span (Suc i) (0, 0) longest ss)"

definition ipv6_string :: "bytes \<Rightarrow> string" where
  "ipv6_string v6 =
     (case to_ipv4_mapped v6 of
        Some v4 \<Rightarrow> ''::ffff:'' @ ipv4_string v4
      | None \<Rightarrow>
          let ss = segments v6; (start, len) = zero_span 0 (0, 0) (0, 0) ss; groups = joined '':'' \<circ> map hex_nat in
          if 1 < len then groups (take start ss) @ ''::'' @ groups (drop (start + len) ss) else groups ss)"


subsection \<open>Targets\<close>

datatype ban_target =
    Address bytes u8
  | Login string
  | Identity fp
  | Registrar string

text \<open>What a target is refused for; the code says it in words.\<close>

datatype target_error = PrefixTooLong u8 | NeedsLogin | NotARegistrar string

definition target_address :: "ip_addr \<Rightarrow> u8 \<Rightarrow> target_error + ban_target" where
  "target_address ip plen =
     bindR (case to_canonical ip of
          V4 v4 \<Rightarrow> if 32 < plen then Inl (PrefixTooLong plen) else Inr (to_ipv6_mapped v4, plen + 96)
        | V6 v6 \<Rightarrow> if 128 < plen then Inl (PrefixTooLong plen) else Inr (v6, plen)) (\<lambda>(v6, plen).
       Inr (Address (mask_octets v6 plen) plen))"

text \<open>A scalar value in UTF-8, and \<open>str::trim\<close>.\<close>

definition utf8_encode :: "nat \<Rightarrow> nat list" where
  "utf8_encode c =
     (if c < 0x80 then [c]
      else if c < 0x800 then [0xc0 + c div 64, 0x80 + c mod 64]
      else if c < 0x10000 then [0xe0 + c div 4096, 0x80 + c div 64 mod 64, 0x80 + c mod 64]
      else [0xf0 + c div 262144, 0x80 + c div 4096 mod 64, 0x80 + c div 64 mod 64, 0x80 + c mod 64])"

definition chars_str :: "nat list \<Rightarrow> string" where
  "chars_str cs = map char_of (concat (map utf8_encode cs))"

definition str_trim :: "string \<Rightarrow> string" where
  "str_trim s = chars_str (trim_chars (str_chars s))"

lemma utf8_step_encode:
  assumes "utf8_step bs = Some (c, r)"
  shows "bs = utf8_encode c @ r" "utf8_step (utf8_encode c @ r') = Some (c, r')" "\<forall>b\<in>set (utf8_encode c). b < 256"
proof -
  have "\<exists>p. bs = p @ r \<and> utf8_encode c = p \<and> utf8_step (p @ r') = Some (c, r') \<and> (\<forall>b\<in>set p. b < 256)"
  proof -
    obtain a bs' where bs: "bs = a # bs'" using assms by (cases bs) (simp_all add: utf8_step_def)
    consider "a < 128" | "194 \<le> a" "a \<le> 223" | "224 \<le> a" "a \<le> 239" | "240 \<le> a" "a \<le> 244"
      using assms by (force simp: utf8_step_def bs split: if_splits)
    then show ?thesis
    proof cases
      case 1
      then show ?thesis using assms by (intro exI [of _ "[a]"]) (simp add: utf8_step_def bs utf8_encode_def)
    next
      case 2
      then obtain b where b: "bs' = b # r" "utf8_cont b" "c = (a - 192) * 64 + (b - 128)"
        using assms by (auto simp: utf8_step_def bs split: list.splits if_splits)
      define x y where "x = a - 192" and "y = b - 128"
      then have xy: "a = 192 + x" "b = 128 + y" "y < 64" "2 \<le> x" "x < 32" using 2 b(2) by (auto simp: utf8_cont_def)
      then have "utf8_encode c = [a, b]" by (simp add: utf8_encode_def b(3))
      then show ?thesis using 2 b by (intro exI [of _ "[a, b]"]) (simp add: utf8_step_def bs utf8_cont_def)
    next
      case 3
      then obtain b d where b: "bs' = b # d # r" "utf8_cont b" "utf8_cont d" "a = 224 \<longrightarrow> 160 \<le> b" "a = 237 \<longrightarrow> b \<le> 159"
        "c = (a - 224) * 4096 + (b - 128) * 64 + (d - 128)"
        using assms by (auto simp: utf8_step_def bs split: list.splits if_splits)
      define x y z where "x = a - 224" and "y = b - 128" and "z = d - 128"
      then have xy: "a = 224 + x" "b = 128 + y" "d = 128 + z" "y < 64" "z < 64" "x < 16" "x = 0 \<longrightarrow> 32 \<le> y"
        using 3 b(2-4) by (auto simp: utf8_cont_def)
      have c: "c = (x * 64 + y) * 64 + z" using b(6) by (simp add: xy(1-3))
      then have "c div 64 = x * 64 + y" using xy(5) by simp
      moreover have "c mod 64 = z" using xy(5) by (simp only: c mod_mult_self3 mod_less)
      moreover from calculation(1) have "c div 4096 = x" using xy(4) div_mult2_eq [of c 64 64] by simp
      moreover have "\<not> c < 0x800" "c < 0x10000" using c xy(4-7) by auto
      ultimately have "utf8_encode c = [a, b, d]" using xy by (simp add: utf8_encode_def)
      then show ?thesis using 3 b by (intro exI [of _ "[a, b, d]"]) (auto simp: utf8_step_def bs utf8_cont_def)
    next
      case 4
      then obtain b d e where b: "bs' = b # d # e # r" "utf8_cont b" "utf8_cont d" "utf8_cont e" "a = 240 \<longrightarrow> 144 \<le> b" "a = 244 \<longrightarrow> b \<le> 143"
        "c = (a - 240) * 262144 + (b - 128) * 4096 + (d - 128) * 64 + (e - 128)"
        using assms by (auto simp: utf8_step_def bs split: list.splits if_splits)
      define x y z w where "x = a - 240" and "y = b - 128" and "z = d - 128" and "w = e - 128"
      then have xy: "a = 240 + x" "b = 128 + y" "d = 128 + z" "e = 128 + w" "y < 64" "z < 64" "w < 64" "x = 0 \<longrightarrow> 16 \<le> y"
        using 4 b(2-5) by (auto simp: utf8_cont_def)
      have c: "c = ((x * 64 + y) * 64 + z) * 64 + w" using b(7) by (simp add: xy(1-4))
      then have z: "c div 64 = (x * 64 + y) * 64 + z" using xy(7) by simp
      then have y: "c div 4096 = x * 64 + y" using xy(6) div_mult2_eq [of c 64 64] by simp
      then have "c div 262144 = x" using xy(5) div_mult2_eq [of c 4096 64] by simp
      moreover have "c mod 64 = w" "c div 64 mod 64 = z" "c div 4096 mod 64 = y"
        using xy(5-7) by (simp_all only: z y mod_mult_self3 mod_less) (simp only: c mod_mult_self3 mod_less)
      moreover have "\<not> c < 0x10000" using c xy(8) by auto
      ultimately have "utf8_encode c = [a, b, d, e]" using xy(1-4) by (simp add: utf8_encode_def)
      then show ?thesis using 4 b by (intro exI [of _ "[a, b, d, e]"]) (auto simp: utf8_step_def bs utf8_cont_def)
    qed
  qed
  then show "bs = utf8_encode c @ r" "utf8_step (utf8_encode c @ r') = Some (c, r')" "\<forall>b\<in>set (utf8_encode c). b < 256"
    by auto
qed

text \<open>The scalar values a string can hold.\<close>

definition str_scalar :: "nat \<Rightarrow> bool" where
  "str_scalar c \<longleftrightarrow> (\<forall>r. utf8_step (utf8_encode c @ r) = Some (c, r)) \<and> (\<forall>b\<in>set (utf8_encode c). b < 256)"

lemma utf8_chars_scalar: "utf8_chars bs = Some cs \<Longrightarrow> \<forall>c\<in>set cs. str_scalar c"
proof (induction bs arbitrary: cs rule: utf8_chars.induct)
  case (1 bs)
  show ?case
  proof (cases "bs = []")
    case False
    with 1(2) obtain c r cs' where step: "utf8_step bs = Some (c, r)" and rest: "utf8_chars r = Some cs'" "cs = c # cs'"
      by (auto simp: utf8_chars.simps [of bs] split: option.splits)
    have "str_scalar c" using utf8_step_encode(2,3) [OF step] by (simp add: str_scalar_def)
    with 1(1) [OF False step refl rest(1)] rest(2) show ?thesis by simp
  qed (use 1(2) in \<open>simp add: utf8_chars.simps\<close>)
qed

lemma utf8_encode_not_empty [simp]: "utf8_encode c \<noteq> []"
  by (simp add: utf8_encode_def)

lemma utf8_chars_encode: "\<forall>c\<in>set cs. str_scalar c \<Longrightarrow> utf8_chars (concat (map utf8_encode cs)) = Some cs"
  by (induction cs) (simp_all add: utf8_chars.simps [of "[]"] utf8_chars.simps [of "utf8_encode _ @ _"] str_scalar_def)

lemma str_chars_scalar: "\<forall>c\<in>set (str_chars s). str_scalar c"
  using utf8_chars_scalar [of "map unat (str_bytes s)"]
  by (cases "utf8_chars (map unat (str_bytes s))") (simp_all add: str_chars_def)

lemma chars_str_chars:
  assumes "\<forall>c\<in>set cs. str_scalar c"
  shows "str_chars (chars_str cs) = cs" "str_valid (chars_str cs)"
proof -
  have "map (of_char \<circ> char_of) bs = bs" if "\<forall>b\<in>set bs. b < (256 :: nat)" for bs
    using that by (induction bs) simp_all
  moreover have "\<forall>b\<in>set (concat (map utf8_encode cs)). b < 256" using assms by (auto simp: str_scalar_def)
  ultimately have "map unat (str_bytes (chars_str cs)) = concat (map utf8_encode cs)"
    unfolding map_unat_str_bytes chars_str_def map_map by blast
  then show "str_chars (chars_str cs) = cs" "str_valid (chars_str cs)"
    using utf8_chars_encode [OF assms] by (simp_all add: str_chars_def str_valid_def utf8_valid_def)
qed

lemma trim_chars_set: "set (trim_chars cs) \<subseteq> set cs"
  by (auto simp: trim_chars_def dest!: set_dropWhileD)

lemma trim_chars_ends:
  assumes "trim_chars cs \<noteq> []"
  shows "\<not> char_is_whitespace (hd (trim_chars cs))" "\<not> char_is_whitespace (last (trim_chars cs))"
proof -
  let ?xs = "dropWhile char_is_whitespace cs"
  let ?zs = "dropWhile char_is_whitespace (rev ?xs)"
  have z: "?zs \<noteq> []" "trim_chars cs = rev ?zs" using assms by (simp_all add: trim_chars_def)
  then show "\<not> char_is_whitespace (last (trim_chars cs))" using hd_dropWhile [OF z(1)] by (simp add: last_rev)
  obtain ws where "rev ?xs = ws @ ?zs" by (metis takeWhile_dropWhile_id)
  then have xs: "?xs = rev ?zs @ rev ws" by (metis rev_append rev_rev_ident)
  then have "?xs \<noteq> []" "hd ?xs = hd (rev ?zs)" using z(1) by (metis append_is_Nil_conv rev_is_Nil_conv, metis hd_append rev_is_Nil_conv)
  with hd_dropWhile [of char_is_whitespace cs] z(2) show "\<not> char_is_whitespace (hd (trim_chars cs))" by simp
qed

lemma trim_chars_idem: "trim_chars (trim_chars cs) = trim_chars cs"
proof (cases "trim_chars cs = []")
  case False
  have keep: "dropWhile char_is_whitespace xs = xs" if "xs \<noteq> []" "\<not> char_is_whitespace (hd xs)" for xs
    using that by (cases xs) simp_all
  show ?thesis
    using trim_chars_ends [OF False] False
    unfolding trim_chars_def [of "trim_chars cs"] by (simp add: keep hd_rev)
qed (simp add: trim_chars_def [of "[]"])

lemma str_trim_chars: "str_chars (str_trim s) = trim_chars (str_chars s)" "str_valid (str_trim s)"
  using str_chars_scalar [of s] trim_chars_set [of "str_chars s"]
  by (auto simp: str_trim_def chars_str_chars subset_iff)

lemma str_trim_idem: "str_trim (str_trim s) = str_trim s"
  by (simp add: str_trim_def [of "str_trim s"] str_trim_chars trim_chars_idem) (simp add: str_trim_def)

definition target_login :: "(string \<Rightarrow> string) \<Rightarrow> string \<Rightarrow> target_error + ban_target" where
  "target_login lo login =
     (let login = lo (str_trim login) in if login = [] then Inl NeedsLogin else Inr (Login login))"

definition trim_dots :: "string \<Rightarrow> string" where
  "trim_dots s = rev (dropWhile (\<lambda>c. c = CHR ''.'') (rev s))"

definition target_registrar :: "string \<Rightarrow> target_error + ban_target" where
  "target_registrar host =
     (let host = to_ascii_lowercase (trim_dots (str_trim host)) in
      if host = [] \<or> \<not> str_ascii host \<or> (\<exists>c\<in>set host. c \<in> {CHR ''@'', CHR ''/'', CHR '' ''})
      then Inl (NotARegistrar host) else Inr (Registrar host))"

definition kind_i64 :: "ban_target \<Rightarrow> int" where
  "kind_i64 t = (case t of Address _ _ \<Rightarrow> 1 | Login _ \<Rightarrow> 2 | Identity _ \<Rightarrow> 3 | Registrar _ \<Rightarrow> 4)"

definition kind_name :: "ban_target \<Rightarrow> string" where
  "kind_name t =
     (case t of Address _ _ \<Rightarrow> ''address'' | Login _ \<Rightarrow> ''login'' | Identity _ \<Rightarrow> ''identity'' | Registrar _ \<Rightarrow> ''registrar'')"

definition to_row :: "ban_target \<Rightarrow> bytes \<times> u8 option" where
  "to_row t =
     (case t of
        Address net plen \<Rightarrow> (net, Some plen)
      | Login l \<Rightarrow> (str_bytes l, None)
      | Identity f \<Rightarrow> (f, None)
      | Registrar h \<Rightarrow> (str_bytes h, None))"

definition from_row :: "int \<Rightarrow> bytes \<Rightarrow> u8 option \<Rightarrow> ban_target option" where
  "from_row kind target plen =
     (case plen of
        Some p \<Rightarrow> if kind = 1 \<and> length target = 16 then Some (Address target p) else None
      | None \<Rightarrow>
          if kind = 2 then if utf8_valid target then Some (Login (bytes_str target)) else None
          else if kind = 3 then if length target = 32 then Some (Identity target) else None
          else if kind = 4 then if utf8_valid target then Some (Registrar (bytes_str target)) else None
          else None)"

definition describe :: "(fp \<Rightarrow> string) \<Rightarrow> ban_target \<Rightarrow> string" where
  "describe fingerprint t =
     (case t of
        Address net plen \<Rightarrow>
          (case to_ipv4_mapped net of
             Some v4 \<Rightarrow>
               if 96 \<le> plen then
                 if plen = 128 then ipv4_string v4 else ipv4_string v4 @ ''/'' @ decimal (unat (plen - 96))
               else ipv6_string net @ ''/'' @ decimal (unat plen)
           | None \<Rightarrow>
               if plen = 128 then ipv6_string net else ipv6_string net @ ''/'' @ decimal (unat plen))
      | Login l \<Rightarrow> ''login '' @ l
      | Identity f \<Rightarrow> ''identity '' @ fingerprint f
      | Registrar h \<Rightarrow> ''*@'' @ h)"


subsection \<open>Rows\<close>

type_synonym ban_id = u64
type_synonym act_id = u64

datatype ban_source = Kick | Moderator | Cli | Config

definition source_i64 :: "ban_source \<Rightarrow> int" where
  "source_i64 s = (case s of Kick \<Rightarrow> 1 | Moderator \<Rightarrow> 2 | Cli \<Rightarrow> 3 | Config \<Rightarrow> 4)"

definition source_of_i64 :: "int \<Rightarrow> ban_source option" where
  "source_of_i64 n =
     (if n = 1 then Some Kick else if n = 2 then Some Moderator else if n = 3 then Some Cli
      else if n = 4 then Some Config else None)"

definition source_name :: "ban_source \<Rightarrow> string" where
  "source_name s = (case s of Kick \<Rightarrow> ''kick'' | Moderator \<Rightarrow> ''moderator'' | Cli \<Rightarrow> ''cli'' | Config \<Rightarrow> ''config'')"

record ban =
  bn_id :: ban_id
  bn_target :: ban_target
  bn_reason :: string
  bn_note :: "string option"
  bn_actor :: string
  bn_actor_fp :: "fp option"
  bn_source :: ban_source
  bn_created_at :: systime
  bn_expires_at :: "systime option"
  bn_lifted_at :: "systime option"
  bn_lifted_by :: "string option"
  bn_act :: "act_id option"

definition not_over :: "systime option \<Rightarrow> systime \<Rightarrow> bool" where
  "not_over expires now = (case expires of None \<Rightarrow> True | Some e \<Rightarrow> now < e)"

definition standing :: "ban \<Rightarrow> systime \<Rightarrow> bool" where
  "standing b now \<longleftrightarrow> bn_lifted_at b = None \<and> not_over (bn_expires_at b) now"

record ban_hit =
  bh_id :: ban_id
  bh_reason :: string
  bh_expires_at :: "systime option"

definition hit_of :: "ban \<Rightarrow> ban_hit" where
  "hit_of b = \<lparr>bh_id = bn_id b, bh_reason = bn_reason b, bh_expires_at = bn_expires_at b\<rparr>"

definition live :: "ban_hit \<Rightarrow> systime \<Rightarrow> bool" where
  "live hit now = not_over (bh_expires_at hit) now"


subsection \<open>The matcher\<close>

record ban_matcher =
  bm_addrs :: "(u8, (bytes, ban_hit) omap) omap"
  bm_logins :: "(string, ban_hit) omap"
  bm_identities :: "(fp, ban_hit) omap"
  bm_registrars :: "(string, ban_hit) omap"
  bm_by_id :: "(ban_id, ban_target) omap"

definition matcher_empty :: ban_matcher where
  "matcher_empty = \<lparr>bm_addrs = [], bm_logins = [], bm_identities = [], bm_registrars = [], bm_by_id = []\<rparr>"

definition take_hit :: "'k::linorder \<Rightarrow> ban_id \<Rightarrow> ('k, ban_hit) omap \<Rightarrow> ('k, ban_hit) omap" where
  "take_hit key i hits =
     (case map_of hits key of Some hit \<Rightarrow> if bh_id hit = i then om_del key hits else hits | None \<Rightarrow> hits)"

definition matcher_remove :: "ban_id \<Rightarrow> ban_matcher \<Rightarrow> ban_matcher" where
  "matcher_remove i m =
     (case map_of (bm_by_id m) i of
        None \<Rightarrow> m
      | Some target \<Rightarrow>
          let m = m\<lparr>bm_by_id := om_del i (bm_by_id m)\<rparr> in
          case target of
            Address net plen \<Rightarrow>
              (case map_of (bm_addrs m) plen of
                 None \<Rightarrow> m
               | Some hits \<Rightarrow>
                   let hits = take_hit net i hits in
                   m\<lparr>bm_addrs := if hits = [] then om_del plen (bm_addrs m) else om_put plen hits (bm_addrs m)\<rparr>)
          | Login l \<Rightarrow> m\<lparr>bm_logins := take_hit l i (bm_logins m)\<rparr>
          | Identity f \<Rightarrow> m\<lparr>bm_identities := take_hit f i (bm_identities m)\<rparr>
          | Registrar h \<Rightarrow> m\<lparr>bm_registrars := take_hit h i (bm_registrars m)\<rparr>)"

text \<open>Filing a hit under a target; what was filed there is returned.\<close>

definition file_hit :: "ban_target \<Rightarrow> ban_hit \<Rightarrow> ban_matcher \<Rightarrow> ban_hit option \<times> ban_matcher" where
  "file_hit target hit m =
     (case target of
        Address net plen \<Rightarrow>
          let hits = (case map_of (bm_addrs m) plen of None \<Rightarrow> [] | Some hits \<Rightarrow> hits) in
          (map_of hits net, m\<lparr>bm_addrs := om_put plen (om_put net hit hits) (bm_addrs m)\<rparr>)
      | Login l \<Rightarrow> (map_of (bm_logins m) l, m\<lparr>bm_logins := om_put l hit (bm_logins m)\<rparr>)
      | Identity f \<Rightarrow> (map_of (bm_identities m) f, m\<lparr>bm_identities := om_put f hit (bm_identities m)\<rparr>)
      | Registrar h \<Rightarrow> (map_of (bm_registrars m) h, m\<lparr>bm_registrars := om_put h hit (bm_registrars m)\<rparr>))"

definition matcher_insert :: "ban \<Rightarrow> ban_matcher \<Rightarrow> ban_matcher" where
  "matcher_insert b m =
     (let (displaced, m) = file_hit (bn_target b) (hit_of b) (matcher_remove (bn_id b) m);
          by_id = (case displaced of Some old \<Rightarrow> om_del (bh_id old) (bm_by_id m) | None \<Rightarrow> bm_by_id m) in
      m\<lparr>bm_by_id := om_put (bn_id b) (bn_target b) by_id\<rparr>)"

definition matcher_load :: "ban list \<Rightarrow> ban_matcher" where
  "matcher_load bans = fold matcher_insert bans matcher_empty"

definition matcher_contains :: "ban_matcher \<Rightarrow> ban_id \<Rightarrow> bool" where
  "matcher_contains m i \<longleftrightarrow> map_of (bm_by_id m) i \<noteq> None"

fun find_map :: "('a \<Rightarrow> 'b option) \<Rightarrow> 'a list \<Rightarrow> 'b option" where
  "find_map f [] = None"
| "find_map f (x # xs) = (case f x of Some y \<Rightarrow> Some y | None \<Rightarrow> find_map f xs)"

definition filter_live :: "systime \<Rightarrow> ban_hit option \<Rightarrow> ban_hit option" where
  "filter_live now hit = (case hit of Some h \<Rightarrow> if live h now then Some h else None | None \<Rightarrow> None)"

definition matcher_address :: "ban_matcher \<Rightarrow> ip_addr \<Rightarrow> systime \<Rightarrow> ban_hit option" where
  "matcher_address m ip now =
     (let octs = v6_octets ip; shortest = (if is_ipv4 (to_canonical ip) then 96 else 0) in
      find_map (\<lambda>(plen, hits). filter_live now (map_of hits (mask_octets octs plen)))
        (filter (\<lambda>p. shortest \<le> fst p) (bm_addrs m)))"

text \<open>\<open>rsplit_once('@')\<close>, the part after it.\<close>

definition after_at :: "string \<Rightarrow> string option" where
  "after_at h = (if CHR ''@'' \<in> set h then Some (rev (takeWhile (\<lambda>c. c \<noteq> CHR ''@'') (rev h))) else None)"

definition opt_then :: "'a option \<Rightarrow> ('a \<Rightarrow> 'b option) \<Rightarrow> 'b option" where
  "opt_then x f = (case x of Some a \<Rightarrow> f a | None \<Rightarrow> None)"

definition matcher_person ::
    "(string \<Rightarrow> string) \<Rightarrow> ban_matcher \<Rightarrow> string option \<Rightarrow> fp option \<Rightarrow> string option \<Rightarrow> systime \<Rightarrow> ban_hit option" where
  "matcher_person lo m login identity handle now =
     (let by_login = opt_then login (\<lambda>l. map_of (bm_logins m) (lo l));
          by_identity = opt_then identity (map_of (bm_identities m));
          by_registrar = opt_then (opt_then handle after_at) (\<lambda>host. map_of (bm_registrars m) (to_ascii_lowercase host)) in
      find_map (filter_live now) [by_login, by_identity, by_registrar])"

end
