(* ===== verification/Moderation.thy ===== *)
theory Moderation
  imports Bans
begin

section \<open>The moderation store\<close>

text \<open>
  \<^verbatim>\<open>crates/hxd-core/src/moderation.rs\<close>, its data, and \<^verbatim>\<open>moderation/memory.rs\<close>: the audit trail, reports, blocked images,
  bans, and the bans of linked servers.  The record \<open>mod_store\<close> is \<open>Inner\<close>; one definition per method of \<open>ModerationStore\<close>.
  The field \<open>md_bans_before_failing\<close>, which the tests set, is kept: it is how this store can fail partway through a ban.
\<close>


subsection \<open>Acts, subjects and reports\<close>

type_synonym report_id = u64
type_synonym line_id = u64
type_synonym article_number = u32
type_synonym media_handle = bytes

datatype act_kind =
    UnknownKind int | Redact | Revoke | Purge | CloseReport | NewsDelete | NodeDelete | BanAct | Unban | RoomDelete
  | ReactionsClear

definition act_kind_i64 :: "act_kind \<Rightarrow> int" where
  "act_kind_i64 k =
     (case k of
        UnknownKind n \<Rightarrow> n | Redact \<Rightarrow> 1 | Revoke \<Rightarrow> 2 | Purge \<Rightarrow> 3 | CloseReport \<Rightarrow> 4 | NewsDelete \<Rightarrow> 5 | NodeDelete \<Rightarrow> 6
      | BanAct \<Rightarrow> 7 | Unban \<Rightarrow> 8 | RoomDelete \<Rightarrow> 9 | ReactionsClear \<Rightarrow> 10)"

definition act_kind_of_i64 :: "int \<Rightarrow> act_kind option" where
  "act_kind_of_i64 n =
     map_of [(1, Redact), (2, Revoke), (3, Purge), (4, CloseReport), (5, NewsDelete), (6, NodeDelete), (7, BanAct),
       (8, Unban), (9, RoomDelete), (10, ReactionsClear)] n"

definition act_kind_name :: "act_kind \<Rightarrow> string" where
  "act_kind_name k =
     (case k of
        UnknownKind _ \<Rightarrow> ''unknown'' | Redact \<Rightarrow> ''redact'' | Revoke \<Rightarrow> ''revoke'' | Purge \<Rightarrow> ''purge'' | CloseReport \<Rightarrow> ''close''
      | NewsDelete \<Rightarrow> ''news_delete'' | NodeDelete \<Rightarrow> ''news_node_delete'' | BanAct \<Rightarrow> ''ban'' | Unban \<Rightarrow> ''unban''
      | RoomDelete \<Rightarrow> ''room_delete'' | ReactionsClear \<Rightarrow> ''reactions_clear'')"

record act =
  ac_id :: act_id
  ac_kind :: act_kind
  ac_actor :: string
  ac_actor_fp :: "fp option"
  ac_line :: "line_id option"
  ac_media :: "media_handle option"
  ac_article :: "article_number option"
  ac_report :: "report_id option"
  ac_room :: "u32 option"
  ac_login :: "string option"
  ac_fingerprint :: "fp option"
  ac_reason :: string
  ac_evidence :: "string option"
  ac_signed :: "bytes option"
  ac_media_hash :: "bytes option"
  ac_at :: systime

record subject =
  su_login :: "string option"
  su_fingerprint :: "fp option"
  su_nick :: string

definition subject_mailbox :: "subject \<Rightarrow> mailbox option" where
  "subject_mailbox s =
     (case (su_login s, su_fingerprint s) of
        (login, Some f) \<Rightarrow> Some (mailbox_identified (case login of Some l \<Rightarrow> l | None \<Rightarrow> []) f)
      | (Some login, None) \<Rightarrow> Some (mailbox_login login)
      | (None, None) \<Rightarrow> None)"

definition same_person :: "subject \<Rightarrow> subject \<Rightarrow> bool" where
  "same_person s t =
     (case (subject_mailbox s, subject_mailbox t) of
        (Some a, Some b) \<Rightarrow> mailbox_matches a (mb_login b) (mb_fp b)
      | _ \<Rightarrow> False)"

definition of_mailbox :: "mailbox \<Rightarrow> string \<Rightarrow> subject" where
  "of_mailbox m nick =
     \<lparr>su_login = (if mb_login m \<noteq> [] then Some (mb_login m) else None), su_fingerprint = mb_fp m, su_nick = nick\<rparr>"

datatype report_target =
    TgLine line_id | TgMedia media_handle | TgMsg "message_ref option" | TgUser | TgArticle article_number

definition report_kind_i64 :: "report_target \<Rightarrow> int" where
  "report_kind_i64 t = (case t of TgLine _ \<Rightarrow> 1 | TgMedia _ \<Rightarrow> 2 | TgMsg _ \<Rightarrow> 3 | TgUser \<Rightarrow> 4 | TgArticle _ \<Rightarrow> 5)"

definition report_kind_name :: "report_target \<Rightarrow> string" where
  "report_kind_name t =
     (case t of TgLine _ \<Rightarrow> ''line'' | TgMedia _ \<Rightarrow> ''media'' | TgMsg _ \<Rightarrow> ''msg'' | TgUser \<Rightarrow> ''user'' | TgArticle _ \<Rightarrow> ''article'')"

datatype outcome = Removed | Dismissed | Duplicate

definition outcome_i64 :: "outcome \<Rightarrow> int" where
  "outcome_i64 r = (case r of Removed \<Rightarrow> 1 | Dismissed \<Rightarrow> 2 | Duplicate \<Rightarrow> 3)"

definition outcome_of_i64 :: "int \<Rightarrow> outcome option" where
  "outcome_of_i64 n = map_of [(1, Removed), (2, Dismissed), (3, Duplicate)] n"

definition outcome_name :: "outcome \<Rightarrow> string" where
  "outcome_name r = (case r of Removed \<Rightarrow> ''removed'' | Dismissed \<Rightarrow> ''dismissed'' | Duplicate \<Rightarrow> ''duplicate'')"

definition outcome_of_name :: "string \<Rightarrow> outcome option" where
  "outcome_of_name s = map_of [(''removed'', Removed), (''dismissed'', Dismissed), (''duplicate'', Duplicate)] s"

record closing =
  cl_at :: systime
  cl_by :: string
  cl_outcome :: outcome
  cl_note :: "string option"
  cl_duplicate_of :: "report_id option"

record report =
  rp_id :: report_id
  rp_at :: systime
  rp_reporter :: "mailbox option"
  rp_target :: report_target
  rp_about :: subject
  rp_reason :: string
  rp_evidence :: "string option"
  rp_verified :: bool
  rp_signed :: "bytes option"
  rp_media :: "media_handle option"
  rp_closed :: "closing option"

definition report_about :: "report \<Rightarrow> string" where
  "report_about r =
     (case su_login (rp_about r) of
        Some l \<Rightarrow>
          if l \<noteq> [] then l else if su_nick (rp_about r) = [] then ''someone'' else su_nick (rp_about r)
      | None \<Rightarrow> if su_nick (rp_about r) = [] then ''someone'' else su_nick (rp_about r))"

definition report_what :: "report_target \<Rightarrow> string" where
  "report_what t =
     (case t of
        TgLine _ \<Rightarrow> ''a chat line from ''
      | TgMedia _ \<Rightarrow> ''an image from ''
      | TgMsg _ \<Rightarrow> ''a private message from ''
      | TgUser \<Rightarrow> []
      | TgArticle n \<Rightarrow> ''article #'' @ decimal (unat n) @ '' by '')"

definition report_summary :: "report \<Rightarrow> string" where
  "report_summary r =
     (let reporter = (case rp_reporter r of Some m \<Rightarrow> mb_login m | None \<Rightarrow> ''a guest'');
          reason = chars_str (take 200 (str_chars (rp_reason r)));
          reason = (if length reason < length (rp_reason r) then reason @ chars_str [0x2026] else reason) in
      ''[report #'' @ decimal (unat (rp_id r)) @ ''] '' @ reporter @ '' reported '' @ report_what (rp_target r) @ report_about r
        @ '': '' @ [CHR 0x22] @ reason @ [CHR 0x22])"

datatype report_filter = OpenOnly | ClosedOnly | AllReports

definition admits :: "report_filter \<Rightarrow> report \<Rightarrow> bool" where
  "admits f r = (case f of OpenOnly \<Rightarrow> rp_closed r = None | ClosedOnly \<Rightarrow> rp_closed r \<noteq> None | AllReports \<Rightarrow> True)"

text \<open>A ban this server asked a linked server for: \<open>NetworkBan\<close> of \<^verbatim>\<open>server_link.rs\<close>.\<close>

record network_ban =
  nb_id :: u64
  nb_requester :: bytes
  nb_home :: bytes
  nb_home_tag :: string
  nb_handle :: bytes
  nb_nick :: string
  nb_reason :: string
  nb_actor :: string
  nb_created_at :: systime
  nb_expires_at :: "systime option"
  nb_lift_asked :: "systime option"
  nb_lifted_at :: "systime option"

definition network_standing :: "network_ban \<Rightarrow> systime \<Rightarrow> bool" where
  "network_standing b now \<longleftrightarrow> nb_lifted_at b = None \<and> not_over (nb_expires_at b) now"

definition extend_ban :: "ban \<Rightarrow> ban \<Rightarrow> ban" where
  "extend_ban old new =
     new\<lparr>bn_id := bn_id old, bn_target := bn_target old, bn_created_at := bn_created_at old,
       bn_expires_at := (case (bn_expires_at old, bn_expires_at new) of (Some a, Some b) \<Rightarrow> Some (max a b) | _ \<Rightarrow> None),
       bn_source := (if bn_source old = Config then Config else bn_source new),
       bn_lifted_at := None, bn_lifted_by := None, bn_act := bn_act old\<rparr>"


subsection \<open>The store\<close>

record mod_store =
  md_acts :: "act list"
  md_reports :: "report list"
  md_last_report :: report_id
  md_blocked :: "bytes list"
  md_bans :: "ban list"
  md_last_ban :: ban_id
  md_link_bans :: "(bytes, bytes \<times> ban_id) omap"
  md_network_bans :: "network_ban list"
  md_last_network_ban :: u64
  md_bans_before_failing :: "nat option"

definition mod_store_new :: mod_store where
  "mod_store_new = \<lparr>md_acts = [], md_reports = [], md_last_report = 0, md_blocked = [], md_bans = [], md_last_ban = 0,
     md_link_bans = [], md_network_bans = [], md_last_network_ban = 0, md_bans_before_failing = None\<rparr>"

text \<open>\<open>iter_mut().find(..)\<close> and the edit of what it finds.\<close>

fun edit_first :: "('a \<Rightarrow> bool) \<Rightarrow> ('a \<Rightarrow> 'a) \<Rightarrow> 'a list \<Rightarrow> 'a option \<times> 'a list" where
  "edit_first P f [] = (None, [])"
| "edit_first P f (x # xs) =
     (if P x then (Some (f x), f x # xs) else let (r, ys) = edit_first P f xs in (r, x # ys))"

definition below :: "u64 option \<Rightarrow> u64 \<Rightarrow> bool" where
  "below before i = (case before of None \<Rightarrow> True | Some b \<Rightarrow> i < b)"

definition not_before :: "systime option \<Rightarrow> systime \<Rightarrow> bool" where
  "not_before at before = (case at of None \<Rightarrow> True | Some t \<Rightarrow> before \<le> t)"

definition record_act :: "act \<Rightarrow> mod_store \<Rightarrow> (store_error + act_id) \<times> mod_store" where
  "record_act a s =
     (case ac_kind a of
        UnknownKind _ \<Rightarrow> (Inl StoreError, s)
      | _ \<Rightarrow>
          let i = word_of_nat (length (md_acts s)) + 1 in
          (Inr i, s\<lparr>md_acts := md_acts s @ [a\<lparr>ac_id := i\<rparr>]\<rparr>))"

definition acts_page :: "act_id option \<Rightarrow> nat \<Rightarrow> mod_store \<Rightarrow> act list" where
  "acts_page before limit s = take limit (filter (\<lambda>a. below before (ac_id a)) (rev (md_acts s)))"

definition file_report :: "report \<Rightarrow> mod_store \<Rightarrow> report_id \<times> mod_store" where
  "file_report r s =
     (let i = md_last_report s + 1 in
      (i, s\<lparr>md_last_report := i, md_reports := md_reports s @ [r\<lparr>rp_id := i\<rparr>]\<rparr>))"

definition report_by_id :: "report_id \<Rightarrow> mod_store \<Rightarrow> report option" where
  "report_by_id i s = find (\<lambda>r. rp_id r = i) (md_reports s)"

definition reports_page :: "report_filter \<Rightarrow> report_id option \<Rightarrow> nat \<Rightarrow> mod_store \<Rightarrow> report list" where
  "reports_page f before limit s =
     take limit (filter (\<lambda>r. admits f r \<and> below before (rp_id r)) (rev (md_reports s)))"

definition open_count :: "mod_store \<Rightarrow> nat" where
  "open_count s = length (filter (\<lambda>r. rp_closed r = None) (md_reports s))"

definition names_target :: "report \<Rightarrow> report_target \<Rightarrow> bool" where
  "names_target r t = (case (t, rp_target r) of (TgUser, TgUser) \<Rightarrow> True | (t, rt) \<Rightarrow> t = rt)"

definition open_on :: "report_target \<Rightarrow> mod_store \<Rightarrow> report list" where
  "open_on t s = filter (\<lambda>r. rp_closed r = None \<and> names_target r t) (md_reports s)"

definition close_report :: "report_id \<Rightarrow> closing \<Rightarrow> mod_store \<Rightarrow> bool \<times> mod_store" where
  "close_report i c s =
     (case edit_first (\<lambda>r. rp_id r = i \<and> rp_closed r = None) (\<lambda>r. r\<lparr>rp_closed := Some c\<rparr>) (md_reports s) of
        (Some _, rs) \<Rightarrow> (True, s\<lparr>md_reports := rs\<rparr>)
      | (None, rs) \<Rightarrow> (False, s))"

definition holds_media :: "media_handle \<Rightarrow> mod_store \<Rightarrow> bool" where
  "holds_media h s = (\<exists>r\<in>set (md_reports s). rp_closed r = None \<and> rp_media r = Some h)"

definition block_hash :: "bytes \<Rightarrow> mod_store \<Rightarrow> mod_store" where
  "block_hash h s = (if h \<in> set (md_blocked s) then s else s\<lparr>md_blocked := md_blocked s @ [h]\<rparr>)"

definition blocked_hashes :: "mod_store \<Rightarrow> bytes list" where
  "blocked_hashes s = md_blocked s"

definition scrubs :: "systime \<Rightarrow> act \<Rightarrow> bool" where
  "scrubs before a \<longleftrightarrow> ac_at a < before \<and> ac_kind a \<noteq> CloseReport \<and> ac_kind a \<noteq> RoomDelete
     \<and> (case ac_evidence a of Some e \<Rightarrow> e \<noteq> [] | None \<Rightarrow> False)"

definition scrub_evidence :: "systime \<Rightarrow> mod_store \<Rightarrow> nat \<times> mod_store" where
  "scrub_evidence before s =
     (length (filter (scrubs before) (md_acts s)),
      s\<lparr>md_acts := map (\<lambda>a. if scrubs before a then a\<lparr>ac_evidence := Some [], ac_signed := None\<rparr> else a) (md_acts s)\<rparr>)"

definition prune_reports :: "systime \<Rightarrow> mod_store \<Rightarrow> nat \<times> mod_store" where
  "prune_reports before s =
     (let kept = filter (\<lambda>r. case rp_closed r of None \<Rightarrow> True | Some c \<Rightarrow> before \<le> cl_at c) (md_reports s) in
      (length (md_reports s) - length kept, s\<lparr>md_reports := kept\<rparr>))"

text \<open>
  \<open>ban\<close>: the open row of the target is extended while it stands; one that ran out is closed at its expiry and a new row
  takes its place.
\<close>

definition new_row :: "ban \<Rightarrow> mod_store \<Rightarrow> ban \<times> mod_store" where
  "new_row b s =
     (let i = md_last_ban s + 1; b = b\<lparr>bn_id := i\<rparr> in
      (b, s\<lparr>md_last_ban := i, md_bans := md_bans s @ [b]\<rparr>))"

definition open_for :: "ban_target \<Rightarrow> ban \<Rightarrow> bool" where
  "open_for t b \<longleftrightarrow> bn_lifted_at b = None \<and> bn_target b = t"

definition ban_row :: "ban \<Rightarrow> mod_store \<Rightarrow> ban \<times> mod_store" where
  "ban_row b s =
     (case find (open_for (bn_target b)) (md_bans s) of
        Some old \<Rightarrow>
          if standing old (bn_created_at b)
          then (extend_ban old b, s\<lparr>md_bans := snd (edit_first (open_for (bn_target b)) (\<lambda>old. extend_ban old b) (md_bans s))\<rparr>)
          else new_row b
            (s\<lparr>md_bans := snd (edit_first (open_for (bn_target b)) (\<lambda>old. old\<lparr>bn_lifted_at := bn_expires_at old\<rparr>) (md_bans s))\<rparr>)
      | None \<Rightarrow> new_row b s)"

definition store_ban :: "ban \<Rightarrow> mod_store \<Rightarrow> (store_error + ban) \<times> mod_store" where
  "store_ban b s =
     (case md_bans_before_failing s of
        Some 0 \<Rightarrow> (Inl StoreError, s)
      | Some (Suc n) \<Rightarrow> let (row, s) = ban_row b (s\<lparr>md_bans_before_failing := Some n\<rparr>) in (Inr row, s)
      | None \<Rightarrow> let (row, s) = ban_row b s in (Inr row, s))"

definition store_lift_ban :: "ban_id \<Rightarrow> string \<Rightarrow> systime \<Rightarrow> mod_store \<Rightarrow> ban option \<times> mod_store" where
  "store_lift_ban i by at s =
     (let (row, bans) = edit_first (\<lambda>b. bn_id b = i \<and> bn_lifted_at b = None)
            (\<lambda>b. b\<lparr>bn_lifted_at := Some at, bn_lifted_by := Some by\<rparr>) (md_bans s) in
      (row, s\<lparr>md_bans := bans\<rparr>))"

definition store_bans :: "systime option \<Rightarrow> ban_id option \<Rightarrow> nat \<Rightarrow> mod_store \<Rightarrow> ban list" where
  "store_bans standing_at before limit s =
     take limit (filter (\<lambda>b. below before (bn_id b) \<and> (case standing_at of None \<Rightarrow> True | Some now \<Rightarrow> standing b now))
       (rev (md_bans s)))"

definition prune_bans :: "systime \<Rightarrow> mod_store \<Rightarrow> nat \<times> mod_store" where
  "prune_bans before s =
     (let bans = filter (\<lambda>b. not_before (bn_lifted_at b) before \<and> not_before (bn_expires_at b) before) (md_bans s) in
      (length (md_bans s) - length bans,
       s\<lparr>md_bans := bans,
         md_link_bans := om_retain (\<lambda>_ (_, i). \<exists>b\<in>set bans. bn_id b = i) (md_link_bans s),
         md_network_bans := filter (\<lambda>b. not_before (nb_lifted_at b) before \<and> not_before (nb_expires_at b) before)
           (md_network_bans s)\<rparr>))"

definition note_link_ban :: "ban_id \<Rightarrow> bytes \<Rightarrow> bytes \<Rightarrow> mod_store \<Rightarrow> mod_store" where
  "note_link_ban i requester handle s = s\<lparr>md_link_bans := om_put handle (requester, i) (md_link_bans s)\<rparr>"

definition record_network_ban :: "network_ban \<Rightarrow> mod_store \<Rightarrow> network_ban \<times> mod_store" where
  "record_network_ban b s =
     (let i = md_last_network_ban s + 1; row = b\<lparr>nb_id := i\<rparr> in
      (row, s\<lparr>md_last_network_ban := i, md_network_bans := md_network_bans s @ [row]\<rparr>))"

definition network_bans :: "mod_store \<Rightarrow> network_ban list" where
  "network_bans s = rev (md_network_bans s)"

definition ask_network_unban :: "u64 \<Rightarrow> systime \<Rightarrow> mod_store \<Rightarrow> network_ban option \<times> mod_store" where
  "ask_network_unban i at s =
     (let (row, bans) = edit_first (\<lambda>b. nb_id b = i \<and> network_standing b at) (\<lambda>b. b\<lparr>nb_lift_asked := Some at\<rparr>)
            (md_network_bans s) in
      (row, s\<lparr>md_network_bans := bans\<rparr>))"

definition network_unbanned :: "u64 \<Rightarrow> systime \<Rightarrow> mod_store \<Rightarrow> mod_store" where
  "network_unbanned i at s =
     s\<lparr>md_network_bans := snd (edit_first (\<lambda>b. nb_id b = i)
       (\<lambda>b. b\<lparr>nb_lifted_at := Some (case nb_lifted_at b of Some t \<Rightarrow> t | None \<Rightarrow> at)\<rparr>) (md_network_bans s))\<rparr>"

definition link_ban :: "bytes \<Rightarrow> bytes \<Rightarrow> mod_store \<Rightarrow> ban_id option" where
  "link_ban requester handle s =
     (case map_of (md_link_bans s) handle of
        Some (by, i) \<Rightarrow> if by = requester then Some i else None
      | None \<Rightarrow> None)"

end
