(* ===== verification/Ban_Desk.thy ===== *)
theory Ban_Desk
  imports Moderation
begin

section \<open>Placing and lifting bans\<close>

text \<open>
  The methods of \<open>Core\<close> that place, lift, reread and carry over bans (\<^verbatim>\<open>crates/hxd-core/src/ban.rs\<close>, with what
  \<^verbatim>\<open>chat.rs\<close>, \<^verbatim>\<open>moderation.rs\<close>, \<^verbatim>\<open>rotation.rs\<close> and \<^verbatim>\<open>server_link.rs\<close> call them for).  The record \<open>ban_core\<close> is what they
  change of \<open>Core\<close>: the store, the matcher and the counter used where there is no store.  What they read of it, the reserved
  login and the accounts, is \<open>ban_env\<close>; of the roster, \<open>user_session\<close> has the fields they read.  Ending a session is the
  roster's work: an operation answers which targets' sessions are to end, and \<open>refused_sessions\<close> says which those are.
\<close>


subsection \<open>What is read and changed\<close>

type_synonym uid = u16

datatype mod_error =
    Disabled | AccessDenied | BadRequest string | NoSuchLine | NoSuchMedia | NoSuchUser | NoSuchReport | NoSuchTarget
  | Protected | NoIdentity | OwnReport | SignedByAnother | RateLimited | NoSession | NoSuchBan | ConfigBan | Store store_error

datatype actor = Session uid | Operator

record acting =
  ag_name :: string
  ag_fingerprint :: "fp option"
  ag_overrides :: bool
  ag_uid :: "uid option"
  ag_person :: "subject option"

record new_ban =
  nn_target :: ban_target
  nn_reason :: string
  nn_note :: "string option"
  nn_expires_at :: "systime option"
  nn_source :: ban_source

record user_session =
  us_system :: bool
  us_addr :: "ip_addr option"
  us_login :: string
  us_identity :: "fp option"
  us_handle :: "string option"
  us_access :: access_bits
  us_moderate :: bool
  us_is_person :: bool
  us_nick :: string

type_synonym roster = "(uid, user_session) omap"

record ban_env =
  en_system :: "string option"
  en_directory :: "(string \<Rightarrow> (mailbox \<times> access_bits) option) option"

record ban_core =
  bc_moderation :: "mod_store option"
  bc_bans :: ban_matcher
  bc_ban_ids :: u64

definition OPERATOR :: string where "OPERATOR = ''cli''"
definition DELETE_USERS :: u8 where "DELETE_USERS = 15"
definition CANT_BE_DISCONNECTED :: u8 where "CANT_BE_DISCONNECTED = 23"
definition USIZE_MAX :: nat where "USIZE_MAX = 2 ^ 64 - 1"

definition operator_acting :: acting where
  "operator_acting = \<lparr>ag_name = OPERATOR, ag_fingerprint = None, ag_overrides = True, ag_uid = None, ag_person = None\<rparr>"

definition session_acting :: "uid \<Rightarrow> user_session \<Rightarrow> acting" where
  "session_acting uid s =
     \<lparr>ag_name = us_login s, ag_fingerprint = us_identity s, ag_overrides = has (us_access s) DELETE_USERS, ag_uid = Some uid,
      ag_person = Some \<lparr>su_login = (if us_is_person s then Some (us_login s) else None), su_fingerprint = us_identity s,
        su_nick = us_nick s\<rparr>\<rparr>"

definition acting_of :: "roster \<Rightarrow> actor \<Rightarrow> mod_error + acting" where
  "acting_of r by =
     (case by of
        Operator \<Rightarrow> Inr operator_acting
      | Session uid \<Rightarrow>
          (case map_of r uid of
             None \<Rightarrow> Inl NoSession
           | Some s \<Rightarrow> if \<not> us_moderate s then Inl AccessDenied else Inr (session_acting uid s)))"

definition acting_kicker :: "roster \<Rightarrow> actor \<Rightarrow> acting option" where
  "acting_kicker r by =
     (case by of
        Operator \<Rightarrow> Some operator_acting
      | Session uid \<Rightarrow> map_option (session_acting uid) (map_of r uid))"

definition is_system_login :: "ban_env \<Rightarrow> string \<Rightarrow> bool" where
  "is_system_login env login =
     (case en_system env of Some s \<Rightarrow> to_ascii_lowercase s = to_ascii_lowercase login | None \<Rightarrow> False)"

definition act_new :: "act_kind \<Rightarrow> acting \<Rightarrow> string \<Rightarrow> systime \<Rightarrow> act" where
  "act_new kind by reason now =
     \<lparr>ac_id = 0, ac_kind = kind, ac_actor = ag_name by, ac_actor_fp = ag_fingerprint by, ac_line = None, ac_media = None,
      ac_article = None, ac_report = None, ac_room = None, ac_login = None, ac_fingerprint = None, ac_reason = reason,
      ac_evidence = None, ac_signed = None, ac_media_hash = None, ac_at = now\<rparr>"


subsection \<open>Whom a ban refuses\<close>

definition address_banned :: "ban_core \<Rightarrow> systime \<Rightarrow> ip_addr \<Rightarrow> ban_hit option" where
  "address_banned c now ip = matcher_address (bc_bans c) ip now"

definition person_banned ::
    "(string \<Rightarrow> string) \<Rightarrow> ban_core \<Rightarrow> systime \<Rightarrow> string option \<Rightarrow> fp option \<Rightarrow> string option \<Rightarrow> ban_hit option" where
  "person_banned lo c now login identity handle = matcher_person lo (bc_bans c) login identity handle now"

text \<open>\<open>end_if_refused\<close>: the ban refusing a session; where it answers one the session is ended.\<close>

definition end_if_refused :: "(string \<Rightarrow> string) \<Rightarrow> ban_core \<Rightarrow> systime \<Rightarrow> roster \<Rightarrow> uid \<Rightarrow> bool \<Rightarrow> ban_hit option" where
  "end_if_refused lo c now r uid by_address =
     opt_then (map_of r uid) (\<lambda>s.
       case opt_then (if by_address then us_addr s else None) (address_banned c now) of
         Some hit \<Rightarrow> Some hit
       | None \<Rightarrow> person_banned lo c now (Some (us_login s)) (us_identity s) (us_handle s))"

text \<open>The ban of \<open>target\<close> alone, as \<open>end_refused\<close> makes it to match sessions with.\<close>

definition lone_ban :: "ban_target \<Rightarrow> ban" where
  "lone_ban target =
     \<lparr>bn_id = 0, bn_target = target, bn_reason = [], bn_note = None, bn_actor = [], bn_actor_fp = None, bn_source = Moderator,
      bn_created_at = 0, bn_expires_at = None, bn_lifted_at = None, bn_lifted_by = None, bn_act = None\<rparr>"

definition refused_sessions :: "(string \<Rightarrow> string) \<Rightarrow> systime \<Rightarrow> roster \<Rightarrow> ban_target \<Rightarrow> uid option \<Rightarrow> uid list" where
  "refused_sessions lo now r target spare =
     (let m = matcher_load [lone_ban target] in
      map fst
        (filter (\<lambda>(uid, s).
             opt_then (us_addr s) (\<lambda>a. matcher_address m a now) \<noteq> None
             \<or> matcher_person lo m (Some (us_login s)) (us_identity s) (us_handle s) now \<noteq> None)
          (filter (\<lambda>(uid, s). \<not> us_system s \<and> Some uid \<noteq> spare \<and> \<not> has (us_access s) CANT_BE_DISCONNECTED) r)))"


subsection \<open>Placing\<close>

definition own_login :: "(string \<Rightarrow> string) \<Rightarrow> acting \<Rightarrow> string option" where
  "own_login lo a = map_option (\<lambda>_. lo (ag_name a)) (ag_uid a)"

definition own_fp :: "acting \<Rightarrow> fp option" where
  "own_fp a = opt_then (ag_uid a) (\<lambda>_. ag_fingerprint a)"

text \<open>Whether one target may be banned, and the identity that goes with it: the one the account of a login links.\<close>

definition vet_target :: "(string \<Rightarrow> string) \<Rightarrow> ban_env \<Rightarrow> acting \<Rightarrow> ban_target \<Rightarrow> mod_error + ban_target option" where
  "vet_target lo env a target =
     (case target of
        Login l \<Rightarrow>
          if l = ''guest'' \<or> l = [] \<or> is_system_login env l
          then Inl (BadRequest ''not that login: disable the account instead'')
          else if own_login lo a = Some l then Inl (BadRequest ''a moderator does not ban themselves'')
          else Inr (map_option Identity (opt_then (opt_then (en_directory env) (\<lambda>d. d l)) (\<lambda>(m, _). mb_fp m)))
      | Identity f \<Rightarrow>
          if own_fp a = Some f then Inl (BadRequest ''a moderator does not ban themselves'') else Inr None
      | _ \<Rightarrow> Inr None)"

definition add_target :: "ban_target \<Rightarrow> ban_target list \<Rightarrow> ban_target list" where
  "add_target t ts = (if t \<in> set ts then ts else ts @ [t])"

fun gather :: "(string \<Rightarrow> string) \<Rightarrow> ban_env \<Rightarrow> acting \<Rightarrow> ban_target list \<Rightarrow> ban_target list \<Rightarrow> mod_error + ban_target list" where
  "gather lo env a [] targets = Inr targets"
| "gather lo env a (t # ts) targets =
     bindR (vet_target lo env a t) (\<lambda>twin.
       gather lo env a ts (fold add_target (t # (case twin of Some w \<Rightarrow> [w] | None \<Rightarrow> [])) targets))"

definition as_secs :: "systime \<Rightarrow> nat" where
  "as_secs t = nat (t div 1000000000)"

definition ban_evidence :: "ban_target list \<Rightarrow> systime option \<Rightarrow> string" where
  "ban_evidence targets expires =
     joined '', '' (map (describe hex_str) targets) @ '' until ''
       @ (case expires of Some t \<Rightarrow> decimal (as_secs t) | None \<Rightarrow> ''lifted'')"

definition ban_act :: "acting \<Rightarrow> new_ban \<Rightarrow> ban_target list \<Rightarrow> systime \<Rightarrow> act" where
  "ban_act a b targets now =
     (act_new BanAct a (nn_reason b) now)\<lparr>ac_evidence := Some (ban_evidence targets (nn_expires_at b)),
       ac_login := find_map (\<lambda>t. case t of Login l \<Rightarrow> Some l | _ \<Rightarrow> None) targets,
       ac_fingerprint := find_map (\<lambda>t. case t of Identity f \<Rightarrow> Some f | _ \<Rightarrow> None) targets\<rparr>"

definition row_of :: "acting \<Rightarrow> new_ban \<Rightarrow> systime \<Rightarrow> act_id option \<Rightarrow> ban_target \<Rightarrow> ban" where
  "row_of a b now act_id target =
     \<lparr>bn_id = 0, bn_target = target, bn_reason = nn_reason b, bn_note = nn_note b, bn_actor = ag_name a,
      bn_actor_fp = ag_fingerprint a, bn_source = nn_source b, bn_created_at = now, bn_expires_at = nn_expires_at b,
      bn_lifted_at = None, bn_lifted_by = None, bn_act = act_id\<rparr>"

text \<open>
  The loop over the targets, under the lock \<open>ban_writes\<close>.  A store that fails after the first row leaves the rows before
  it standing, and they are the answer.
\<close>

fun place_rows :: "(ban_target \<Rightarrow> ban) \<Rightarrow> ban_target list \<Rightarrow> ban list \<Rightarrow> ban_core \<Rightarrow> (mod_error + ban list) \<times> ban_core" where
  "place_rows row [] placed c = (Inr placed, c)"
| "place_rows row (t # ts) placed c =
     (case bc_moderation c of
        Some s \<Rightarrow>
          (case store_ban (row t) s of
             (Inr b, s') \<Rightarrow>
               place_rows row ts (placed @ [b]) (c\<lparr>bc_moderation := Some s', bc_bans := matcher_insert b (bc_bans c)\<rparr>)
           | (Inl e, s') \<Rightarrow>
               (if placed = [] then Inl (Store e) else Inr placed, c\<lparr>bc_moderation := Some s'\<rparr>))
      | None \<Rightarrow>
          let b = (row t)\<lparr>bn_id := bc_ban_ids c + 1\<rparr> in
          place_rows row ts (placed @ [b]) (c\<lparr>bc_ban_ids := bc_ban_ids c + 1, bc_bans := matcher_insert b (bc_bans c)\<rparr>))"

definition record_in :: "act \<Rightarrow> ban_core \<Rightarrow> (mod_error + act_id option) \<times> ban_core" where
  "record_in a c =
     (case bc_moderation c of
        Some s \<Rightarrow>
          (case record_act a s of
             (Inr i, s') \<Rightarrow> (Inr (Some i), c\<lparr>bc_moderation := Some s'\<rparr>)
           | (Inl e, s') \<Rightarrow> (Inl (Store e), c\<lparr>bc_moderation := Some s'\<rparr>))
      | None \<Rightarrow> (Inr None, c))"

text \<open>The answer is the act, the rows, and the targets whose sessions are to end.\<close>

definition place_bans_act ::
    "(string \<Rightarrow> string) \<Rightarrow> ban_env \<Rightarrow> systime \<Rightarrow> acting \<Rightarrow> new_ban \<Rightarrow> ban_target list \<Rightarrow> ban_core
       \<Rightarrow> (mod_error + act_id option \<times> ban list \<times> ban_target list) \<times> ban_core" where
  "place_bans_act lo env now a b also_on c =
     (if trim_chars (str_chars (nn_reason b)) = [] then (Inl (BadRequest ''a ban needs a reason''), c)
      else case gather lo env a (nn_target b # also_on) [] of
        Inl e \<Rightarrow> (Inl e, c)
      | Inr targets \<Rightarrow>
          (case record_in (ban_act a b targets now) c of
             (Inl e, c1) \<Rightarrow> (Inl e, c1)
           | (Inr act_id, c1) \<Rightarrow>
               (case place_rows (row_of a b now act_id) targets [] c1 of
                  (Inl e, c2) \<Rightarrow> (Inl e, c2)
                | (Inr placed, c2) \<Rightarrow>
                    (Inr (act_id, placed, if nn_source b \<noteq> Kick then map bn_target placed else []), c2))))"

definition place_ban ::
    "(string \<Rightarrow> string) \<Rightarrow> ban_env \<Rightarrow> roster \<Rightarrow> systime \<Rightarrow> actor \<Rightarrow> new_ban \<Rightarrow> ban_core
       \<Rightarrow> (mod_error + act_id option \<times> ban list \<times> ban_target list) \<times> ban_core" where
  "place_ban lo env r now by b c =
     (case acting_of r by of
        Inl e \<Rightarrow> (Inl e, c)
      | Inr a \<Rightarrow> place_bans_act lo env now a b [] c)"


subsection \<open>The ban of a kick\<close>

definition addr_set_contains :: "(ip_addr \<times> u32) list \<Rightarrow> ip_addr \<Rightarrow> bool" where
  "addr_set_contains nets peer = (\<exists>(net, bits)\<in>set nets. prefix_eq (to_canonical peer) net bits)"

definition v6_stands_alone :: "bytes \<Rightarrow> bool" where
  "v6_stands_alone v6 \<longleftrightarrow>
     (let s = segments v6 in
      v6 = replicate 15 0 @ [1] \<or> v6 = replicate 16 0
      \<or> take 6 s = [0x64, 0xff9b, 0, 0, 0, 0] \<or> take 3 s = [0x64, 0xff9b, 1] \<or> take 6 s = replicate 6 0)"

definition address_ban_target :: "u8 \<Rightarrow> ip_addr \<Rightarrow> ban_target option" where
  "address_ban_target ban_v6_prefix addr =
     (let plen = (case to_canonical addr of V4 _ \<Rightarrow> 32 | V6 v6 \<Rightarrow> if v6_stands_alone v6 then 128 else ban_v6_prefix) in
      case target_address addr plen of Inr t \<Rightarrow> Some t | Inl _ \<Rightarrow> None)"

definition kick_ban_targets :: "(string \<Rightarrow> string) \<Rightarrow> u8 \<Rightarrow> (ip_addr \<times> u32) list \<Rightarrow> user_session \<Rightarrow> ban_target list" where
  "kick_ban_targets lo ban_v6_prefix exempt s =
     (let login = (if us_is_person s then
                     (case target_login lo (us_login s) of
                        Inr t \<Rightarrow> if t \<noteq> Login ''guest'' then Some t else None
                      | Inl _ \<Rightarrow> None)
                   else None);
          person = (case login of Some t \<Rightarrow> Some t | None \<Rightarrow> map_option Identity (us_identity s));
          address = opt_then (us_addr s) (\<lambda>a. if addr_set_contains exempt a then None else address_ban_target ban_v6_prefix a) in
      (case person of Some t \<Rightarrow> [t] | None \<Rightarrow> []) @ (case address of Some t \<Rightarrow> [t] | None \<Rightarrow> []))"

definition not_the_kicker :: "(string \<Rightarrow> string) \<Rightarrow> acting \<Rightarrow> ban_target \<Rightarrow> bool" where
  "not_the_kicker lo a t =
     (case t of Login l \<Rightarrow> l \<noteq> lo (ag_name a) | Identity f \<Rightarrow> ag_fingerprint a \<noteq> Some f | _ \<Rightarrow> True)"

definition place_kick_ban ::
    "(string \<Rightarrow> string) \<Rightarrow> ban_env \<Rightarrow> roster \<Rightarrow> systime \<Rightarrow> ban_target list \<Rightarrow> actor \<Rightarrow> systime option \<Rightarrow> string \<Rightarrow> ban_core
       \<Rightarrow> bool \<times> ban_core" where
  "place_kick_ban lo env r now targets by expires reason c =
     (if targets = [] then (False, c)
      else case acting_kicker r by of
        None \<Rightarrow> (False, c)
      | Some a \<Rightarrow>
          (case (case ag_uid a of Some _ \<Rightarrow> filter (not_the_kicker lo a) targets | None \<Rightarrow> targets) of
             [] \<Rightarrow> (False, c)
           | first # rest \<Rightarrow>
               (case place_bans_act lo env now a \<lparr>nn_target = first, nn_reason = reason, nn_note = None,
                       nn_expires_at = expires, nn_source = Kick\<rparr> rest c of
                  (Inr _, c') \<Rightarrow> (True, c')
                | (Inl _, c') \<Rightarrow> (False, c'))))"


subsection \<open>Lifting, rereading, carrying over\<close>

fun lift_each :: "systime \<Rightarrow> string \<Rightarrow> ban_id list \<Rightarrow> ban list \<Rightarrow> mod_store \<Rightarrow> (mod_error + ban list) \<times> mod_store" where
  "lift_each now by [] lifted s = (Inr lifted, s)"
| "lift_each now by (i # is) lifted s =
     (case store_lift_ban i by now s of
        (Some row, s') \<Rightarrow> lift_each now by is (lifted @ [row]) s'
      | (None, s') \<Rightarrow> if lifted = [] then (Inl NoSuchBan, s') else lift_each now by is lifted s')"

definition twins :: "systime \<Rightarrow> ban \<Rightarrow> mod_store \<Rightarrow> ban_id list" where
  "twins now b s =
     (case bn_act b of
        None \<Rightarrow> []
      | Some a \<Rightarrow>
          map bn_id (filter (\<lambda>t. bn_id t \<noteq> bn_id b \<and> bn_act t = Some a \<and> bn_source t \<noteq> Config)
            (store_bans (Some now) None USIZE_MAX s)))"

definition unban_act :: "acting \<Rightarrow> ban list \<Rightarrow> systime \<Rightarrow> act" where
  "unban_act a lifted now =
     (act_new Unban a (''ban '' @ joined '', '' (map (\<lambda>b. ''#'' @ decimal (unat (bn_id b))) lifted)) now)
       \<lparr>ac_evidence := Some (joined '', '' (map (\<lambda>b. describe hex_str (bn_target b)) lifted))\<rparr>"

definition lift_ban_as :: "systime \<Rightarrow> acting \<Rightarrow> ban_id \<Rightarrow> ban_core \<Rightarrow> (mod_error + ban list) \<times> ban_core" where
  "lift_ban_as now a i c =
     (case bc_moderation c of
        None \<Rightarrow> (Inl Disabled, c)
      | Some s \<Rightarrow>
          (case find (\<lambda>b. bn_id b = i \<and> bn_lifted_at b = None) (store_bans None (Some (sat_add i 1)) 1 s) of
             None \<Rightarrow> (Inl NoSuchBan, c)
           | Some b \<Rightarrow>
               if bn_source b = Config then (Inl ConfigBan, c)
               else
                 (case lift_each now (ag_name a) (i # twins now b s) [] s of
                    (Inl e, s1) \<Rightarrow> (Inl e, c\<lparr>bc_moderation := Some s1\<rparr>)
                  | (Inr lifted, s1) \<Rightarrow>
                      (case record_act (unban_act a lifted now) s1 of
                         (Inl e, s2) \<Rightarrow> (Inl (Store e), c\<lparr>bc_moderation := Some s2\<rparr>)
                       | (Inr _, s2) \<Rightarrow>
                           (Inr lifted, c\<lparr>bc_moderation := Some s2,
                              bc_bans := fold (\<lambda>row. matcher_remove (bn_id row)) lifted (bc_bans c)\<rparr>)))))"

definition lift_ban :: "roster \<Rightarrow> systime \<Rightarrow> actor \<Rightarrow> ban_id \<Rightarrow> ban_core \<Rightarrow> (mod_error + ban list) \<times> ban_core" where
  "lift_ban r now by i c = (case acting_of r by of Inl e \<Rightarrow> (Inl e, c) | Inr a \<Rightarrow> lift_ban_as now a i c)"

definition list_bans :: "bool \<Rightarrow> ban_id option \<Rightarrow> nat \<Rightarrow> systime \<Rightarrow> ban_core \<Rightarrow> mod_error + ban list" where
  "list_bans stand before limit now c =
     (case bc_moderation c of
        None \<Rightarrow> Inl Disabled
      | Some s \<Rightarrow> Inr (store_bans (if stand then Some now else None) before limit s))"

definition load_bans :: "systime \<Rightarrow> mod_store \<Rightarrow> ban_matcher" where
  "load_bans now s = matcher_load (store_bans (Some now) None USIZE_MAX s)"

text \<open>\<open>with_moderation\<close> reads the bans once; \<open>reload_bans\<close> again, and answers the targets it had not held.\<close>

definition with_moderation :: "systime \<Rightarrow> mod_store \<Rightarrow> ban_core \<Rightarrow> ban_core" where
  "with_moderation now s c = c\<lparr>bc_bans := load_bans now s, bc_moderation := Some s\<rparr>"

definition reload_bans :: "systime \<Rightarrow> ban_core \<Rightarrow> ban_target list \<times> ban_core" where
  "reload_bans now c =
     (case bc_moderation c of
        None \<Rightarrow> ([], c)
      | Some s \<Rightarrow>
          let m = load_bans now s in
          (map snd (filter (\<lambda>(i, _). \<not> matcher_contains (bc_bans c) i) (bm_by_id m)), c\<lparr>bc_bans := m\<rparr>))"

text \<open>
  \<open>rotate_identity\<close>, the bans: each standing ban of the predecessor is placed on the successor.  An error of the store
  ends the loop and is passed on; the rows before it stand.
\<close>

fun rotate_rows :: "fp \<Rightarrow> ban list \<Rightarrow> ban list \<Rightarrow> ban_core \<Rightarrow> (store_error + ban list) \<times> ban_core" where
  "rotate_rows to [] placed c = (Inr placed, c)"
| "rotate_rows to (b # bs) placed c =
     (case bc_moderation c of
        None \<Rightarrow> (Inr placed, c)
      | Some s \<Rightarrow>
          (case store_ban (b\<lparr>bn_target := Identity to\<rparr>) s of
             (Inl e, s') \<Rightarrow> (Inl e, c\<lparr>bc_moderation := Some s'\<rparr>)
           | (Inr row, s') \<Rightarrow>
               rotate_rows to bs (placed @ [row]) (c\<lparr>bc_moderation := Some s', bc_bans := matcher_insert row (bc_bans c)\<rparr>)))"

definition rotate_bans :: "systime \<Rightarrow> fp \<Rightarrow> fp \<Rightarrow> ban_core \<Rightarrow> (store_error + ban_target list) \<times> ban_core" where
  "rotate_bans now from to c =
     (case bc_moderation c of
        None \<Rightarrow> (Inr [], c)
      | Some s \<Rightarrow>
          (case rotate_rows to (filter (\<lambda>b. bn_target b = Identity from) (store_bans (Some now) None USIZE_MAX s)) [] c of
             (Inl e, c') \<Rightarrow> (Inl e, c')
           | (Inr placed, c') \<Rightarrow> (Inr (map bn_target placed), c')))"

record requester =
  rq_id :: bytes
  rq_tag :: string
  rq_name :: string

definition requester_acting :: "requester \<Rightarrow> acting" where
  "requester_acting q =
     \<lparr>ag_name = ''link '' @ rq_tag q @ '' ('' @ rq_name q @ '')'', ag_fingerprint = None, ag_overrides = True, ag_uid = None,
      ag_person = None\<rparr>"

datatype peer_refusal =
    UnknownUser | RefusesMessages | Excluded | PeerRateLimited | FeatureNotNegotiated | Unreachable | Unanswered | UnknownBan
  | Refused | NotExported | CannotCross | NoDeviceKeys | PeerBadSignature | SenderUnkeyed

definition peer_unban :: "systime \<Rightarrow> bytes \<Rightarrow> requester \<Rightarrow> ban_core \<Rightarrow> (peer_refusal + unit) \<times> ban_core" where
  "peer_unban now handle by c =
     (case bc_moderation c of
        None \<Rightarrow> (Inl UnknownBan, c)
      | Some s \<Rightarrow>
          (case link_ban (rq_id by) handle s of
             None \<Rightarrow> (Inl UnknownBan, c)
           | Some i \<Rightarrow>
               (case lift_ban_as now (requester_acting by) i c of
                  (Inr _, c') \<Rightarrow> (Inr (), c')
                | (Inl NoSuchBan, c') \<Rightarrow> (Inl UnknownBan, c')
                | (Inl _, c') \<Rightarrow> (Inl Unreachable, c'))))"

text \<open>The sweeper.  A day is 24 hours; \<open>SystemTime\<close> reaches far enough back for any number of them.\<close>

definition days :: "u32 \<Rightarrow> systime" where
  "days n = int (unat n) * 24 * 3600 * 1000000000"

definition prune_moderation :: "u32 \<Rightarrow> u32 \<Rightarrow> systime \<Rightarrow> ban_core \<Rightarrow> (nat \<times> nat \<times> nat) \<times> ban_core" where
  "prune_moderation evidence_days report_days now c =
     (case bc_moderation c of
        None \<Rightarrow> ((0, 0, 0), c)
      | Some s \<Rightarrow>
          let (scrubbed, s) = (if evidence_days = 0 then (0, s) else scrub_evidence (now - days evidence_days) s);
              (pruned, s) = (if report_days = 0 then (0, s) else prune_reports (now - days report_days) s);
              (bans, s) = (if report_days = 0 then (0, s) else prune_bans (now - days report_days) s) in
          ((scrubbed, pruned, bans), c\<lparr>bc_moderation := Some s\<rparr>))"

end
