(* ===== verification/Ban_Matching.thy ===== *)
theory Ban_Matching
  imports Bans
begin

section \<open>Matching is exact\<close>

text \<open>
  What \<open>BanMatcher\<close> finds.  \<open>filed\<close> reads its five maps as one, from targets to hits; \<open>matcher_ok\<close> says that the index by
  id is that map inverted.  An address ban refuses exactly the addresses of its own family that share its prefix, which is
  the comparison \<open>prefix_eq\<close> that the limits use.
\<close>


subsection \<open>Masks compare prefixes\<close>

definition first_bits :: "nat \<Rightarrow> bytes \<Rightarrow> bytes \<Rightarrow> bool" where
  "first_bits n a b \<longleftrightarrow> take (n div 8) a = take (n div 8) b
     \<and> (n mod 8 \<noteq> 0 \<longrightarrow> (a ! (n div 8)) AND push_bit (8 - n mod 8) 0xff = (b ! (n div 8)) AND push_bit (8 - n mod 8) 0xff)"

lemma length_mask_octets [simp]: "length (mask_octets a p) = length a"
  by (simp add: mask_octets_def)

lemma nth_mask_octets: "i < length a \<Longrightarrow> mask_octets a p ! i = mask_byte (min (unat p) 128) (i * 8) (a ! i)"
  by (simp add: mask_octets_def nth_enumerate_eq)

lemma mask_byte_cases:
  "mask_byte n (i * 8) x =
     (if i < n div 8 then x else if i = n div 8 \<and> n mod 8 \<noteq> 0 then x AND push_bit (8 - n mod 8) 0xff else 0)"
proof -
  define q r where "q = n div 8" and "r = n mod 8"
  then have n: "n = q * 8 + r" and r: "r < 8" by simp_all
  consider d where "q = i + Suc d" | "i = q" | d where "i = q + Suc d"
    by (metis less_imp_Suc_add linorder_neqE_nat add_Suc_right)
  then have "mask_byte (q * 8 + r) (i * 8) x =
      (if i < q then x else if i = q \<and> r \<noteq> 0 then x AND push_bit (8 - r) 0xff else 0)"
    using r by cases (auto simp: mask_byte_def)
  then show ?thesis by (simp add: n [symmetric] q_def r_def)
qed

lemma mask_octets_eq:
  assumes "length a = 16" "length b = 16" "p \<le> 128"
  shows "mask_octets a p = mask_octets b p \<longleftrightarrow> first_bits (unat p) a b"
proof -
  define n where "n = unat p"
  have n: "n \<le> 128" using assms(3) by (simp add: n_def word_le_nat_alt)
  then have d: "n div 8 \<le> 16" "n mod 8 \<noteq> 0 \<Longrightarrow> n div 8 < 16" by presburger+
  have "mask_octets a p = mask_octets b p \<longleftrightarrow> (\<forall>i<16. mask_byte n (i * 8) (a ! i) = mask_byte n (i * 8) (b ! i))"
    using n assms by (auto simp: list_eq_iff_nth_eq nth_mask_octets n_def min_absorb1)
  also have "\<dots> \<longleftrightarrow> (\<forall>i < n div 8. a ! i = b ! i)
      \<and> (n mod 8 \<noteq> 0 \<longrightarrow> (a ! (n div 8)) AND push_bit (8 - n mod 8) 0xff = (b ! (n div 8)) AND push_bit (8 - n mod 8) 0xff)"
    using d unfolding mask_byte_cases by (auto split: if_splits)
  also have "\<dots> \<longleftrightarrow> first_bits n a b"
    using d assms by (simp add: first_bits_def list_eq_iff_nth_eq)
  finally show ?thesis by (simp add: n_def)
qed

lemma first_bits_head:
  assumes "first_bits n a b" "8 * k \<le> n"
  shows "take k a = take k b"
proof -
  have "k \<le> n div 8" using assms(2) by presburger
  then have k: "take k xs = take k (take (n div 8) xs)" for xs :: bytes
    by (simp add: min_absorb1)
  have "take (n div 8) a = take (n div 8) b" using assms(1) by (simp add: first_bits_def)
  then show ?thesis using k [of a] k [of b] by metis
qed

lemma first_bits_append: "length h = k \<Longrightarrow> first_bits (8 * k + n) (h @ a) (h @ b) \<longleftrightarrow> first_bits n a b"
  by (simp add: first_bits_def nth_append)

lemma prefix_eq_first_bits: "prefix_eq a b bits \<longleftrightarrow> is_ipv4 a = is_ipv4 b \<and> first_bits (unat bits) (octets a) (octets b)"
  by (auto simp: prefix_eq_def first_bits_def Let_def)


subsection \<open>Addresses\<close>

lemma length_mapped_head [simp]: "length mapped_head = 12"
  by (simp add: mapped_head_def)

lemma take_mapped [simp]: "take 12 (to_ipv6_mapped v4) = mapped_head"
  by (simp add: to_ipv6_mapped_def)

lemma canonical_cases [consumes 1, case_names v4 v6]:
  assumes "ip_wf ip"
  obtains o4 where "to_canonical ip = V4 o4" "length o4 = 4" "v6_octets ip = mapped_head @ o4"
  | o6 where "to_canonical ip = V6 o6" "length o6 = 16" "v6_octets ip = o6" "take 12 o6 \<noteq> mapped_head"
proof (cases ip)
  case (V4 o4)
  with assms show ?thesis by (intro that(1) [of o4]) (auto simp: to_canonical_def ip_wf_def v6_octets_def to_ipv6_mapped_def)
next
  case (V6 o6)
  show ?thesis
  proof (cases "take 12 o6 = mapped_head")
    case True
    with V6 assms show ?thesis
      by (intro that(1) [of "drop 12 o6"])
        (auto simp: to_canonical_def to_ipv4_mapped_def ip_wf_def v6_octets_def to_ipv6_mapped_def)
  next
    case False
    with V6 assms show ?thesis
      by (intro that(2) [of o6]) (auto simp: to_canonical_def to_ipv4_mapped_def ip_wf_def v6_octets_def)
  qed
qed

lemma length_v6_octets: "ip_wf ip \<Longrightarrow> length (v6_octets ip) = 16"
  by (cases rule: canonical_cases) auto

text \<open>The reference: a target covers an address.\<close>

definition covers_address :: "ban_target \<Rightarrow> ip_addr \<Rightarrow> bool" where
  "covers_address t ip =
     (case t of
        Address net plen \<Rightarrow> net = mask_octets (v6_octets ip) plen \<and> (is_ipv4 (to_canonical ip) \<longrightarrow> 96 \<le> plen)
      | _ \<Rightarrow> False)"

lemma unat_u8_small: "(p :: u8) \<le> 32 \<Longrightarrow> unat (p + 96) = unat p + 96"
proof -
  assume "p \<le> 32"
  then have "unat p \<le> 32" by (simp add: word_le_nat_alt)
  then show ?thesis by (simp add: unat_word_ariths)
qed

lemma first_bits_mapped: "first_bits (96 + n) (mapped_head @ a) (mapped_head @ b) \<longleftrightarrow> first_bits n a b"
  using first_bits_append [of mapped_head 12 n a b] by simp

lemma first_bits_not_mapped:
  assumes "take 12 a \<noteq> mapped_head" "96 \<le> n"
  shows "\<not> first_bits n a (mapped_head @ b)" "\<not> first_bits n (mapped_head @ b) a"
  using first_bits_head [of n a "mapped_head @ b" 12] first_bits_head [of n "mapped_head @ b" a 12] assms by auto

lemma covers_masked:
  assumes "ip_wf peer" "length net = 16" "p \<le> 128"
  shows "covers_address (Address (mask_octets net p) p) peer
    \<longleftrightarrow> first_bits (unat p) (v6_octets peer) net \<and> (is_ipv4 (to_canonical peer) \<longrightarrow> 96 \<le> p)"
  using mask_octets_eq [OF length_v6_octets [OF assms(1)] assms(2,3)] by (auto simp: covers_address_def)

lemma covers_v4:
  assumes "ip_wf peer" "length a = 4" "p \<le> 32"
  shows "covers_address (Address (mask_octets (mapped_head @ a) (p + 96)) (p + 96)) peer
    \<longleftrightarrow> is_ipv4 (to_canonical peer) \<and> first_bits (unat p) (octets (to_canonical peer)) a"
proof -
  have le: "p + 96 \<le> 128" "96 \<le> p + 96" and n: "unat (p + 96) = 96 + unat p"
    using assms(3) unat_u8_small [OF assms(3)] by (simp_all add: word_le_nat_alt)
  have "covers_address (Address (mask_octets (mapped_head @ a) (p + 96)) (p + 96)) peer
      \<longleftrightarrow> first_bits (96 + unat p) (v6_octets peer) (mapped_head @ a)"
    using covers_masked [OF assms(1) _ le(1), of "mapped_head @ a"] assms(2) le(2) n by simp
  also have "\<dots> \<longleftrightarrow> is_ipv4 (to_canonical peer) \<and> first_bits (unat p) (octets (to_canonical peer)) a"
    using assms(1)
    by (cases rule: canonical_cases) (simp_all add: first_bits_mapped is_ipv4_def first_bits_not_mapped)
  finally show ?thesis .
qed

lemma covers_v6:
  assumes "ip_wf peer" "length a = 16" "p \<le> 128" "take 12 a \<noteq> mapped_head"
  shows "covers_address (Address (mask_octets a p) p) peer
    \<longleftrightarrow> \<not> is_ipv4 (to_canonical peer) \<and> first_bits (unat p) (octets (to_canonical peer)) a"
proof -
  have "covers_address (Address (mask_octets a p) p) peer
      \<longleftrightarrow> first_bits (unat p) (v6_octets peer) a \<and> (is_ipv4 (to_canonical peer) \<longrightarrow> 96 \<le> unat p)"
    using covers_masked [OF assms(1,2,3)] by (simp add: word_le_nat_alt)
  also have "\<dots> \<longleftrightarrow> \<not> is_ipv4 (to_canonical peer) \<and> first_bits (unat p) (octets (to_canonical peer)) a"
    using assms(1)
  proof (cases rule: canonical_cases)
    case (v4 b)
    then show ?thesis using first_bits_not_mapped(2) [OF assms(4), of "unat p" b] by (auto simp: is_ipv4_def)
  next
    case (v6 b)
    then show ?thesis by (simp add: is_ipv4_def)
  qed
  finally show ?thesis .
qed

lemma address_covers_iff:
  assumes ip: "ip_wf ip" and peer: "ip_wf peer" and t: "target_address ip p = Inr t"
  shows "covers_address t peer \<longleftrightarrow> prefix_eq (to_canonical peer) (to_canonical ip) (ucast p)"
proof -
  have u: "unat (ucast p :: u32) = unat p"
    using unat_lt_two_power [of p] by (simp add: unat_ucast_mod)
  show ?thesis
    using ip
  proof (cases rule: canonical_cases)
    case (v4 a)
    then have p: "p \<le> 32" and t4: "t = Address (mask_octets (mapped_head @ a) (p + 96)) (p + 96)"
      using t by (simp_all add: target_address_def to_ipv6_mapped_def not_less split: if_splits)
    show ?thesis
      using covers_v4 [OF peer v4(2) p] v4(1) by (simp add: t4 prefix_eq_first_bits u is_ipv4_def)
  next
    case (v6 a)
    then have p: "p \<le> 128" and t6: "t = Address (mask_octets a p) p"
      using t by (simp_all add: target_address_def not_less split: if_splits)
    show ?thesis
      using covers_v6 [OF peer v6(2) p v6(4)] v6(1) by (simp add: t6 prefix_eq_first_bits u is_ipv4_def)
  qed
qed


subsection \<open>The matcher as one map\<close>

definition filed :: "ban_matcher \<Rightarrow> ban_target \<Rightarrow> ban_hit option" where
  "filed m t =
     (case t of
        Address net plen \<Rightarrow> opt_then (map_of (bm_addrs m) plen) (\<lambda>hits. map_of hits net)
      | Login l \<Rightarrow> map_of (bm_logins m) l
      | Identity f \<Rightarrow> map_of (bm_identities m) f
      | Registrar h \<Rightarrow> map_of (bm_registrars m) h)"

definition matcher_ok :: "ban_matcher \<Rightarrow> bool" where
  "matcher_ok m \<longleftrightarrow> om_wf (bm_addrs m)
     \<and> (\<forall>i t. map_of (bm_by_id m) i = Some t \<longleftrightarrow> (\<exists>h. filed m t = Some h \<and> bh_id h = i))"

lemma matcher_okD:
  "matcher_ok m \<Longrightarrow> map_of (bm_by_id m) i = Some t \<longleftrightarrow> (\<exists>h. filed m t = Some h \<and> bh_id h = i)"
  by (simp add: matcher_ok_def)

lemma filed_empty [simp]: "filed matcher_empty t = None"
  by (simp add: filed_def matcher_empty_def opt_then_def split: ban_target.split)

lemma matcher_ok_empty: "matcher_ok matcher_empty"
  unfolding matcher_ok_def by (simp add: matcher_empty_def) (simp add: matcher_empty_def [symmetric])

lemma get_take_hit:
  "map_of (take_hit k i hits) k' =
     (if k' = k \<and> (\<exists>h. map_of hits k = Some h \<and> bh_id h = i) then None else map_of hits k')"
  by (auto simp: take_hit_def om_get_del split: option.split)

lemma get_nested:
  "opt_then (map_of (if hits = [] then om_del k m else om_put k hits m) k') (\<lambda>hits. map_of hits n) =
     (if k' = k then map_of hits n else opt_then (map_of m k') (\<lambda>hits. map_of hits n))"
  by (simp add: opt_then_def om_get_put om_get_del)

lemma by_id_remove: "map_of (bm_by_id (matcher_remove i m)) j = (if j = i then None else map_of (bm_by_id m) j)"
  by (simp add: matcher_remove_def Let_def om_get_del split: option.split ban_target.split)

lemma addrs_wf_remove: "om_wf (bm_addrs m) \<Longrightarrow> om_wf (bm_addrs (matcher_remove i m))"
  by (simp add: matcher_remove_def Let_def om_simps split: option.split ban_target.split)

lemma filed_remove:
  "filed (matcher_remove i m) t =
     (if map_of (bm_by_id m) i = Some t \<and> (\<exists>h. filed m t = Some h \<and> bh_id h = i) then None else filed m t)"
proof (cases "map_of (bm_by_id m) i")
  case None
  then show ?thesis by (simp add: matcher_remove_def)
next
  case (Some u)
  show ?thesis
  proof (cases u)
    case (Address net plen)
    show ?thesis
    proof (cases "map_of (bm_addrs m) plen")
      case None
      with Some Address show ?thesis by (auto simp: matcher_remove_def filed_def opt_then_def split: ban_target.split)
    next
      case (Some hits)
      with \<open>map_of (bm_by_id m) i = Some u\<close> Address
      have "filed (matcher_remove i m) t =
          (case t of Address n p \<Rightarrow> if p = plen then map_of (take_hit net i hits) n else filed m t | _ \<Rightarrow> filed m t)"
        by (cases t) (simp_all add: matcher_remove_def filed_def Let_def get_nested)
      with \<open>map_of (bm_by_id m) i = Some u\<close> Address Some show ?thesis
        by (cases t) (auto simp: filed_def opt_then_def get_take_hit)
    qed
  qed (use Some in \<open>cases t; auto simp: matcher_remove_def filed_def get_take_hit\<close>)+
qed

lemma file_hit_simps:
  "fst (file_hit t h m) = filed m t"
  "bm_by_id (snd (file_hit t h m)) = bm_by_id m"
  "om_wf (bm_addrs m) \<Longrightarrow> om_wf (bm_addrs (snd (file_hit t h m)))"
  by (simp_all add: file_hit_def filed_def opt_then_def Let_def om_simps split: ban_target.split option.split)

lemma filed_file_hit: "filed (snd (file_hit t h m)) t' = (if t' = t then Some h else filed m t')"
  by (cases t; cases t')
    (simp_all add: file_hit_def filed_def opt_then_def Let_def om_get_put split: option.split)


lemma filed_remove_ok:
  "matcher_ok m \<Longrightarrow> filed (matcher_remove i m) t = (if map_of (bm_by_id m) i = Some t then None else filed m t)"
  using matcher_okD [of m i t] by (auto simp: filed_remove)

lemma matcher_ok_remove: "matcher_ok m \<Longrightarrow> matcher_ok (matcher_remove i m)"
  unfolding matcher_ok_def by (auto simp: by_id_remove filed_remove addrs_wf_remove)

lemma insert_simps:
  "filed (matcher_insert b m) t = (if t = bn_target b then Some (hit_of b) else filed (matcher_remove (bn_id b) m) t)"
  "map_of (bm_by_id (matcher_insert b m)) j =
     (if j = bn_id b then Some (bn_target b)
      else if \<exists>old. filed (matcher_remove (bn_id b) m) (bn_target b) = Some old \<and> bh_id old = j then None
      else map_of (bm_by_id (matcher_remove (bn_id b) m)) j)"
  "om_wf (bm_addrs m) \<Longrightarrow> om_wf (bm_addrs (matcher_insert b m))"
proof -
  let ?m = "matcher_remove (bn_id b) m"
  let ?f = "file_hit (bn_target b) (hit_of b) ?m"
  have "filed (m\<lparr>bm_by_id := x\<rparr>) = filed m" for m x by (simp add: filed_def fun_eq_iff split: ban_target.split)
  then have "filed (matcher_insert b m) = filed (snd ?f)"
    by (simp add: matcher_insert_def Let_def split_beta)
  then show "filed (matcher_insert b m) t = (if t = bn_target b then Some (hit_of b) else filed ?m t)"
    by (simp add: filed_file_hit)
  show "map_of (bm_by_id (matcher_insert b m)) j =
     (if j = bn_id b then Some (bn_target b)
      else if \<exists>old. filed ?m (bn_target b) = Some old \<and> bh_id old = j then None else map_of (bm_by_id ?m) j)"
    by (auto simp: matcher_insert_def Let_def split_beta file_hit_simps om_get_put om_get_del split: option.split)
  show "om_wf (bm_addrs (matcher_insert b m))" if "om_wf (bm_addrs m)"
    using file_hit_simps(3) [OF addrs_wf_remove [OF that]] by (simp add: matcher_insert_def Let_def split_beta)
qed

lemma matcher_ok_insert:
  assumes "matcher_ok m"
  shows "matcher_ok (matcher_insert b m)"
proof -
  let ?m = "matcher_remove (bn_id b) m"
  have ok: "map_of (bm_by_id ?m) i = Some t \<longleftrightarrow> (\<exists>h. filed ?m t = Some h \<and> bh_id h = i)" for i t
    using matcher_okD [OF matcher_ok_remove [OF assms]] .
  have gone: "map_of (bm_by_id ?m) (bn_id b) = None" by (simp add: by_id_remove)
  have "map_of (bm_by_id (matcher_insert b m)) j = Some t \<longleftrightarrow> (\<exists>h. filed (matcher_insert b m) t = Some h \<and> bh_id h = j)" for j t
  proof (cases "j = bn_id b")
    case True
    with ok [of j t] gone show ?thesis by (auto simp: insert_simps hit_of_def)
  next
    case False
    with ok [of j t] ok [of j "bn_target b"] show ?thesis by (auto simp: insert_simps hit_of_def)
  qed
  then show ?thesis using assms insert_simps(3) by (auto simp: matcher_ok_def)
qed

lemma filed_insert_ok:
  "matcher_ok m \<Longrightarrow> filed (matcher_insert b m) t =
     (if t = bn_target b then Some (hit_of b) else if map_of (bm_by_id m) (bn_id b) = Some t then None else filed m t)"
  by (simp add: insert_simps filed_remove_ok)

lemma load_ok: "matcher_ok (matcher_load bs)"
  unfolding matcher_load_def
  by (induction bs rule: rev_induct) (simp_all add: matcher_ok_empty matcher_ok_insert)

lemma filed_load:
  "distinct (map bn_id bs) \<Longrightarrow> distinct (map bn_target bs) \<Longrightarrow>
   filed (matcher_load bs) t = Some h \<longleftrightarrow> (\<exists>b\<in>set bs. bn_target b = t \<and> hit_of b = h)"
proof (induction bs arbitrary: t h rule: rev_induct)
  case Nil
  then show ?case by (simp add: matcher_load_def)
next
  case (snoc b bs)
  let ?m = "matcher_load bs"
  have IH: "filed ?m t = Some h \<longleftrightarrow> (\<exists>b\<in>set bs. bn_target b = t \<and> hit_of b = h)" for t h
    using snoc by simp
  have "map_of (bm_by_id ?m) (bn_id b) \<noteq> Some u" for u
  proof
    assume "map_of (bm_by_id ?m) (bn_id b) = Some u"
    then obtain h where "filed ?m u = Some h" "bh_id h = bn_id b"
      using matcher_okD [OF load_ok] by blast
    then show False using IH snoc.prems(1) by (auto simp: hit_of_def image_iff)
  qed
  then have "filed (matcher_load (bs @ [b])) t = (if t = bn_target b then Some (hit_of b) else filed ?m t)"
    using filed_insert_ok [of ?m b t] load_ok by (simp add: matcher_load_def)
  then show ?case using IH snoc.prems(2) by (auto simp: image_iff)
qed


subsection \<open>What a lookup finds\<close>

lemma find_map_Some: "find_map f xs = Some y \<Longrightarrow> \<exists>x\<in>set xs. f x = Some y"
  by (induction xs) (auto split: option.splits)

lemma find_map_None: "find_map f xs = None \<longleftrightarrow> (\<forall>x\<in>set xs. f x = None)"
  by (induction xs) (auto split: option.splits)

lemma filter_live_Some: "filter_live now r = Some h \<longleftrightarrow> r = Some h \<and> live h now"
  by (auto simp: filter_live_def split: option.splits)

lemma filter_live_None: "filter_live now r = None \<longleftrightarrow> (\<forall>h. r = Some h \<longrightarrow> \<not> live h now)"
  by (auto simp: filter_live_def split: option.splits)

definition covers_person ::
    "(string \<Rightarrow> string) \<Rightarrow> ban_target \<Rightarrow> string option \<Rightarrow> fp option \<Rightarrow> string option \<Rightarrow> bool" where
  "covers_person lo t login identity handle =
     (case t of
        Address _ _ \<Rightarrow> False
      | Login l \<Rightarrow> map_option lo login = Some l
      | Identity f \<Rightarrow> identity = Some f
      | Registrar h \<Rightarrow> map_option to_ascii_lowercase (opt_then handle after_at) = Some h)"

text \<open>A lookup answers some live hit filed under what it is asked about, and none only where there is none.\<close>

definition finds :: "ban_matcher \<Rightarrow> (ban_target \<Rightarrow> bool) \<Rightarrow> systime \<Rightarrow> ban_hit option \<Rightarrow> bool" where
  "finds m covers now r \<longleftrightarrow>
     (case r of
        Some h \<Rightarrow> live h now \<and> (\<exists>t. covers t \<and> filed m t = Some h)
      | None \<Rightarrow> \<forall>t h. covers t \<and> filed m t = Some h \<longrightarrow> \<not> live h now)"

lemma addrs_in:
  "om_wf (bm_addrs m) \<Longrightarrow> (p, hits) \<in> set (bm_addrs m) \<Longrightarrow> map_of hits net = Some h \<Longrightarrow> filed m (Address net p) = Some h"
  using om_get_in [of "bm_addrs m" p hits] by (simp add: filed_def opt_then_def)

lemma address_finds:
  assumes "matcher_ok m"
  shows "finds m (\<lambda>t. covers_address t ip) now (matcher_address m ip now)"
proof -
  let ?short = "if is_ipv4 (to_canonical ip) then 96 else 0 :: u8"
  let ?f = "\<lambda>(plen, hits). filter_live now (map_of hits (mask_octets (v6_octets ip) plen))"
  let ?as = "filter (\<lambda>p. ?short \<le> fst p) (bm_addrs m)"
  have wf: "om_wf (bm_addrs m)" using assms by (simp add: matcher_ok_def)
  have r: "matcher_address m ip now = find_map ?f ?as" by (simp add: matcher_address_def Let_def)
  show ?thesis
  proof (cases "find_map ?f ?as")
    case (Some h)
    then obtain p hits where "(p, hits) \<in> set (bm_addrs m)" "?short \<le> p" "live h now"
        "map_of hits (mask_octets (v6_octets ip) p) = Some h"
      using find_map_Some [OF Some] by (auto simp: filter_live_Some)
    with addrs_in [OF wf] Some show ?thesis
      by (auto simp: finds_def r covers_address_def split: if_splits intro!: exI [of _ "Address (mask_octets (v6_octets ip) p) p"])
  next
    case None
    have "\<not> live h now" if c: "covers_address t ip" and f: "filed m t = Some h" for t h
    proof -
      obtain net p where t: "t = Address net p" "net = mask_octets (v6_octets ip) p" "?short \<le> p"
        using c by (cases t) (auto simp: covers_address_def)
      then obtain hits where "map_of (bm_addrs m) p = Some hits" "map_of hits net = Some h"
        using f by (auto simp: filed_def opt_then_def split: option.splits)
      with None t om_get_in [OF wf, of p hits] show ?thesis
        by (fastforce simp: find_map_None filter_live_None)
    qed
    then have "\<forall>t h. covers_address t ip \<and> filed m t = Some h \<longrightarrow> \<not> live h now" by blast
    with None show ?thesis by (simp add: finds_def r)
  qed
qed

lemma person_finds: "finds m (\<lambda>t. covers_person lo t login identity handle) now (matcher_person lo m login identity handle now)"
proof -
  let ?l = "opt_then login (\<lambda>l. map_of (bm_logins m) (lo l))"
  let ?i = "opt_then identity (map_of (bm_identities m))"
  let ?g = "opt_then (opt_then handle after_at) (\<lambda>host. map_of (bm_registrars m) (to_ascii_lowercase host))"
  have r: "matcher_person lo m login identity handle now = find_map (filter_live now) [?l, ?i, ?g]"
    by (simp add: matcher_person_def Let_def)
  have E: "(\<exists>t. covers_person lo t login identity handle \<and> filed m t = Some h) \<longleftrightarrow> Some h \<in> set [?l, ?i, ?g]" for h
  proof
    assume "\<exists>t. covers_person lo t login identity handle \<and> filed m t = Some h"
    then obtain t where t: "covers_person lo t login identity handle" "filed m t = Some h" by blast
    then show "Some h \<in> set [?l, ?i, ?g]"
      by (cases t) (auto simp: covers_person_def filed_def opt_then_def)
  next
    assume "Some h \<in> set [?l, ?i, ?g]"
    then consider "?l = Some h" | "?i = Some h" | "?g = Some h" by auto
    then show "\<exists>t. covers_person lo t login identity handle \<and> filed m t = Some h"
    proof cases
      case 1
      then obtain l where "login = Some l" "filed m (Login (lo l)) = Some h"
        by (auto simp: filed_def opt_then_def split: option.splits)
      then show ?thesis by (intro exI [of _ "Login (lo l)"]) (simp add: covers_person_def)
    next
      case 2
      then obtain f where "identity = Some f" "filed m (Identity f) = Some h"
        by (auto simp: filed_def opt_then_def split: option.splits)
      then show ?thesis by (intro exI [of _ "Identity f"]) (simp add: covers_person_def)
    next
      case 3
      then obtain host where "opt_then handle after_at = Some host" "filed m (Registrar (to_ascii_lowercase host)) = Some h"
        by (cases "opt_then handle after_at") (auto simp: filed_def opt_then_def)
      then show ?thesis by (intro exI [of _ "Registrar (to_ascii_lowercase host)"]) (simp add: covers_person_def)
    qed
  qed
  show ?thesis
  proof (cases "find_map (filter_live now) [?l, ?i, ?g]")
    case (Some h)
    then obtain x where "x \<in> set [?l, ?i, ?g]" "x = Some h" "live h now"
      using find_map_Some [OF Some] by (auto simp only: filter_live_Some)
    with E [of h] Some show ?thesis by (simp only: finds_def r option.case simp_thms)
  next
    case None
    then have "\<forall>x\<in>set [?l, ?i, ?g]. \<forall>h. x = Some h \<longrightarrow> \<not> live h now"
      by (simp only: find_map_None filter_live_None)
    with E None show ?thesis unfolding finds_def r by (simp only: option.case) blast
  qed
qed

end
