(* ===== verification/Ban_Safety.thy ===== *)
theory Ban_Safety
  imports Ban_Desk Ban_Matching
begin

section \<open>The store and the matcher agree\<close>

text \<open>
  The invariant of the bans.  \<open>store_ok\<close>: rows are numbered upwards and a target has one row that was not lifted.
  \<open>agrees now\<close>: at \<open>now\<close> and ever after, until something is written, the matcher holds a live hit for a target exactly
  where the store has a row standing for it, and the hit is that row's.  Each write of the store, followed by its write of
  the matcher, keeps both.
\<close>


subsection \<open>Edits in place\<close>

lemma edit_first_None: "find P xs = None \<Longrightarrow> edit_first P f xs = (None, xs)"
  by (induction xs) (auto split: if_splits)

lemma edit_first_Some:
  assumes "find P xs = Some x"
  obtains ys zs where "xs = ys @ x # zs" "P x" "\<forall>y\<in>set ys. \<not> P y" "edit_first P f xs = (Some (f x), ys @ f x # zs)"
proof -
  have "\<exists>ys zs. xs = ys @ x # zs \<and> P x \<and> (\<forall>y\<in>set ys. \<not> P y) \<and> edit_first P f xs = (Some (f x), ys @ f x # zs)"
    using assms
  proof (induction xs)
    case (Cons a xs)
    show ?case
    proof (cases "P a")
      case True
      with Cons.prems show ?thesis by (intro exI [of _ "[]"] exI [of _ xs]) simp
    next
      case False
      then obtain ys zs where "xs = ys @ x # zs \<and> P x \<and> (\<forall>y\<in>set ys. \<not> P y)
          \<and> edit_first P f xs = (Some (f x), ys @ f x # zs)"
        using Cons by auto
      with False have "a # xs = (a # ys) @ x # zs \<and> P x \<and> (\<forall>y\<in>set (a # ys). \<not> P y)
          \<and> edit_first P f (a # xs) = (Some (f x), (a # ys) @ f x # zs)" by auto
      then show ?thesis by blast
    qed
  qed simp
  then show thesis using that by blast
qed

lemma not_over_antimono: "not_over e u \<Longrightarrow> now \<le> u \<Longrightarrow> not_over e now"
  by (auto simp: not_over_def split: option.splits)

lemma standing_antimono: "standing b u \<Longrightarrow> now \<le> u \<Longrightarrow> standing b now"
  by (auto simp: standing_def intro: not_over_antimono)

lemma live_hit_of: "live (hit_of b) now \<longleftrightarrow> not_over (bn_expires_at b) now"
  by (simp add: live_def hit_of_def)


subsection \<open>The store\<close>

definition open_rows :: "ban list \<Rightarrow> ban list" where
  "open_rows bs = filter (\<lambda>b. bn_lifted_at b = None) bs"

definition store_ok :: "mod_store \<Rightarrow> bool" where
  "store_ok s \<longleftrightarrow> sorted_wrt (<) (map bn_id (md_bans s)) \<and> (\<forall>b\<in>set (md_bans s). 0 < bn_id b \<and> bn_id b \<le> md_last_ban s)
     \<and> distinct (map bn_target (open_rows (md_bans s)))"

lemma store_ok_new: "store_ok mod_store_new"
  by (simp add: store_ok_def mod_store_new_def open_rows_def)

lemma store_ok_ids: "store_ok s \<Longrightarrow> distinct (map bn_id (md_bans s))"
  unfolding store_ok_def strict_sorted_iff by blast

lemma row_by_id: "store_ok s \<Longrightarrow> a \<in> set (md_bans s) \<Longrightarrow> b \<in> set (md_bans s) \<Longrightarrow> bn_id a = bn_id b \<Longrightarrow> a = b"
  using store_ok_ids [of s] by (auto simp: distinct_map dest: inj_onD)

lemma open_row_by_target:
  "store_ok s \<Longrightarrow> a \<in> set (open_rows (md_bans s)) \<Longrightarrow> b \<in> set (open_rows (md_bans s)) \<Longrightarrow> bn_target a = bn_target b \<Longrightarrow> a = b"
  by (auto simp: store_ok_def distinct_map dest: inj_onD)

lemma no_open_row: "t \<notin> set (map bn_target (open_rows bs)) \<longleftrightarrow> (\<forall>x\<in>set bs. \<not> open_for t x)"
  unfolding open_rows_def open_for_def set_map set_filter by blast

lemma open_rows_append [simp]: "open_rows (xs @ ys) = open_rows xs @ open_rows ys"
  by (simp add: open_rows_def)

text \<open>What \<open>ban\<close> does to the rows, whichever way it goes.\<close>

definition ban_effect :: "ban \<Rightarrow> mod_store \<Rightarrow> ban \<Rightarrow> mod_store \<Rightarrow> bool" where
  "ban_effect b s row s' \<longleftrightarrow>
     store_ok s' \<and> md_last_ban s \<le> md_last_ban s' \<and> unat (md_last_ban s') \<le> unat (md_last_ban s) + 1
     \<and> row \<in> set (md_bans s') \<and> bn_target row = bn_target b \<and> bn_lifted_at row = None
     \<and> (\<forall>u. not_over (bn_expires_at b) u \<longrightarrow> not_over (bn_expires_at row) u)
     \<and> (\<forall>x\<in>set (md_bans s'). x = row \<or> (\<exists>y\<in>set (md_bans s). bn_id y = bn_id x \<and> bn_target y = bn_target x
          \<and> (bn_lifted_at x = None \<longrightarrow> x = y \<and> bn_target x \<noteq> bn_target b)))
     \<and> (\<forall>x\<in>set (md_bans s). bn_target x \<noteq> bn_target b \<longrightarrow> x \<in> set (md_bans s'))
     \<and> (md_last_ban s < bn_id row
        \<or> (\<exists>old\<in>set (md_bans s). bn_id old = bn_id row \<and> open_for (bn_target b) old \<and> row = extend_ban old b))"

lemma ban_effectD:
  assumes "ban_effect b s row s'"
  shows "store_ok s'" "md_last_ban s \<le> md_last_ban s'" "unat (md_last_ban s') \<le> unat (md_last_ban s) + 1"
    "row \<in> set (md_bans s')" "bn_target row = bn_target b" "bn_lifted_at row = None"
    "not_over (bn_expires_at b) u \<Longrightarrow> not_over (bn_expires_at row) u"
    "x \<in> set (md_bans s') \<Longrightarrow> x = row \<or> (\<exists>y\<in>set (md_bans s). bn_id y = bn_id x \<and> bn_target y = bn_target x
          \<and> (bn_lifted_at x = None \<longrightarrow> x = y \<and> bn_target x \<noteq> bn_target b))"
    "x \<in> set (md_bans s) \<Longrightarrow> bn_target x \<noteq> bn_target b \<Longrightarrow> x \<in> set (md_bans s')"
    "md_last_ban s < bn_id row \<or> (\<exists>old\<in>set (md_bans s). bn_id old = bn_id row \<and> open_for (bn_target b) old \<and> row = extend_ban old b)"
  using assms unfolding ban_effect_def by simp_all

lemma extend_simps [simp]:
  "bn_id (extend_ban old b) = bn_id old" "bn_target (extend_ban old b) = bn_target old"
  "bn_lifted_at (extend_ban old b) = None" "bn_act (extend_ban old b) = bn_act old"
  by (simp_all add: extend_ban_def)

lemma not_over_extend:
  "not_over (bn_expires_at (extend_ban old b)) u \<longleftrightarrow> not_over (bn_expires_at old) u \<or> not_over (bn_expires_at b) u"
  by (auto simp: extend_ban_def not_over_def split: option.split)

lemma others_differ:
  assumes "store_ok s" "md_bans s = ys @ old # zs" "open_for t old" "x \<in> set (ys @ zs)" "bn_lifted_at x = None"
  shows "bn_target x \<noteq> t"
proof
  assume "bn_target x = t"
  have "distinct (map bn_target (open_rows ys @ old # open_rows zs))"
    using assms(1,2,3) by (simp add: store_ok_def open_rows_def open_for_def)
  moreover have "x \<in> set (open_rows ys @ open_rows zs)" using assms(4,5) by (auto simp: open_rows_def)
  ultimately show False using \<open>bn_target x = t\<close> assms(3) by (force simp: open_for_def)
qed

lemma ban_effect_extend:
  assumes ok: "store_ok s" and f: "find (open_for (bn_target b)) (md_bans s) = Some old"
  shows "ban_effect b s (extend_ban old b)
    (s\<lparr>md_bans := snd (edit_first (open_for (bn_target b)) (\<lambda>old. extend_ban old b) (md_bans s))\<rparr>)"
proof -
  obtain ys zs where s: "md_bans s = ys @ old # zs" and old: "open_for (bn_target b) old"
    and e: "edit_first (open_for (bn_target b)) (\<lambda>old. extend_ban old b) (md_bans s)
      = (Some (extend_ban old b), ys @ extend_ban old b # zs)"
    by (rule edit_first_Some [OF f])
  let ?s = "s\<lparr>md_bans := ys @ extend_ban old b # zs\<rparr>"
  have "store_ok ?s"
    using ok old by (simp add: store_ok_def s open_rows_def open_for_def)
  moreover have "bn_lifted_at x = None \<longrightarrow> bn_target x \<noteq> bn_target b" if "x \<in> set (ys @ zs)" for x
    using others_differ [OF ok s old that] by blast
  moreover have "extend_ban old b \<in> set (md_bans ?s)" "bn_target (extend_ban old b) = bn_target b"
    using old by (simp_all add: open_for_def)
  ultimately have "ban_effect b s (extend_ban old b) ?s"
    using old unfolding ban_effect_def by (auto simp: s not_over_extend open_for_def)
  then show ?thesis by (simp add: e)
qed

lemma ban_effect_new_row:
  assumes ok: "store_ok s" and room: "md_last_ban s \<noteq> - 1"
    and free: "bn_target b \<notin> set (map bn_target (open_rows (md_bans s)))" and b: "bn_lifted_at b = None"
  shows "ban_effect b s (fst (new_row b s)) (snd (new_row b s))"
proof -
  have n: "unat (md_last_ban s + 1) = Suc (unat (md_last_ban s))"
  proof -
    have "1 + md_last_ban s \<noteq> 0" using room by (metis add.commute eq_neg_iff_add_eq_0)
    then show ?thesis using unatSuc [of "md_last_ban s"] by (simp add: add.commute)
  qed
  then have less: "md_last_ban s < md_last_ban s + 1" by (simp add: word_less_nat_alt)
  let ?row = "b\<lparr>bn_id := md_last_ban s + 1\<rparr>"
  have row: "new_row b s = (?row, s\<lparr>md_last_ban := md_last_ban s + 1, md_bans := md_bans s @ [?row]\<rparr>)"
    by (simp add: new_row_def Let_def)
  have up: "bn_id x < md_last_ban s + 1" "bn_id x \<le> md_last_ban s + 1" "0 < bn_id x" if "x \<in> set (md_bans s)" for x
    using ok that less by (auto simp: store_ok_def)
  have "open_rows [?row] = [?row]" using b by (simp add: open_rows_def)
  then have "store_ok (snd (new_row b s))"
    using ok free up less unfolding store_ok_def row by (auto simp: sorted_wrt_append order_le_less_trans [OF word_zero_le])
  moreover have "bn_lifted_at x = None \<longrightarrow> bn_target x \<noteq> bn_target b" if "x \<in> set (md_bans s)" for x
    using free that unfolding no_open_row open_for_def by blast
  ultimately show ?thesis
    using b less n unfolding ban_effect_def row by (auto simp: order_less_imp_le)
qed


text \<open>Closing a row that ran out, before the row that takes its place.\<close>

lemma close_expired:
  assumes ok: "store_ok s" and f: "find (open_for t) (md_bans s) = Some old" and over: "\<not> standing old at"
  defines "s1 \<equiv> s\<lparr>md_bans := snd (edit_first (open_for t) (\<lambda>old. old\<lparr>bn_lifted_at := bn_expires_at old\<rparr>) (md_bans s))\<rparr>"
  shows "store_ok s1" "t \<notin> set (map bn_target (open_rows (md_bans s1)))"
    "\<forall>x\<in>set (md_bans s1). \<exists>y\<in>set (md_bans s). bn_id y = bn_id x \<and> bn_target y = bn_target x \<and> (bn_lifted_at x = None \<longrightarrow> x = y)"
    "\<forall>x\<in>set (md_bans s). bn_target x \<noteq> t \<longrightarrow> x \<in> set (md_bans s1)"
proof -
  let ?f = "\<lambda>old. old\<lparr>bn_lifted_at := bn_expires_at old\<rparr>"
  obtain ys zs where s: "md_bans s = ys @ old # zs" and old: "open_for t old"
    and e: "edit_first (open_for t) ?f (md_bans s) = (Some (?f old), ys @ ?f old # zs)"
    by (rule edit_first_Some [OF f])
  obtain x where x: "bn_expires_at old = Some x"
    using over old by (cases "bn_expires_at old") (auto simp: standing_def open_for_def not_over_def)
  have s1: "md_bans s1 = ys @ ?f old # zs" by (simp add: s1_def e)
  have o: "open_rows (md_bans s1) = open_rows (ys @ zs)" by (simp add: s1 open_rows_def x)
  have "store_ok (s\<lparr>md_bans := ys @ ?f old # zs\<rparr>)"
    using ok by (simp add: store_ok_def s open_rows_def x split: if_splits)
  then show "store_ok s1" by (simp add: s1_def e)
  show "t \<notin> set (map bn_target (open_rows (md_bans s1)))"
    using others_differ [OF ok s old] unfolding o by (auto simp: open_rows_def)
  show "\<forall>x\<in>set (md_bans s1). \<exists>y\<in>set (md_bans s). bn_id y = bn_id x \<and> bn_target y = bn_target x \<and> (bn_lifted_at x = None \<longrightarrow> x = y)"
    using x by (auto simp: s1 s)
  show "\<forall>x\<in>set (md_bans s). bn_target x \<noteq> t \<longrightarrow> x \<in> set (md_bans s1)"
    using old by (auto simp: s1 s open_for_def)
qed

text \<open>The effect on a store is the effect after a row was closed.\<close>

lemma ban_effect_after_close:
  assumes e: "ban_effect b s1 row s'" and last: "md_last_ban s1 = md_last_ban s"
    and free: "bn_target b \<notin> set (map bn_target (open_rows (md_bans s1)))"
    and src: "\<forall>x\<in>set (md_bans s1). \<exists>y\<in>set (md_bans s). bn_id y = bn_id x \<and> bn_target y = bn_target x \<and> (bn_lifted_at x = None \<longrightarrow> x = y)"
    and kept: "\<forall>x\<in>set (md_bans s). bn_target x \<noteq> bn_target b \<longrightarrow> x \<in> set (md_bans s1)"
  shows "ban_effect b s row s'"
proof -
  note d = ban_effectD [OF e, unfolded last]
  have "\<not> (\<exists>old\<in>set (md_bans s1). bn_id old = bn_id row \<and> open_for (bn_target b) old \<and> row = extend_ban old b)"
    using free unfolding no_open_row by metis
  then have new: "md_last_ban s < bn_id row" using d(10) by metis
  have rows: "x = row \<or> (\<exists>y\<in>set (md_bans s). bn_id y = bn_id x \<and> bn_target y = bn_target x
      \<and> (bn_lifted_at x = None \<longrightarrow> x = y \<and> bn_target x \<noteq> bn_target b))" if x: "x \<in> set (md_bans s')" for x
  proof (cases "x = row")
    case False
    then obtain y where y: "y \<in> set (md_bans s1)" "bn_id y = bn_id x" "bn_target y = bn_target x"
        "bn_lifted_at x = None \<longrightarrow> x = y \<and> bn_target x \<noteq> bn_target b"
      using d(8) [OF x] by metis
    obtain z where z: "z \<in> set (md_bans s)" "bn_id z = bn_id y" "bn_target z = bn_target y" "bn_lifted_at y = None \<longrightarrow> y = z"
      using src y(1) by metis
    have "bn_id z = bn_id x \<and> bn_target z = bn_target x \<and> (bn_lifted_at x = None \<longrightarrow> x = z \<and> bn_target x \<noteq> bn_target b)"
      using y(2-4) z(2-4) by metis
    then show ?thesis using z(1) by metis
  qed simp
  show ?thesis
    unfolding ban_effect_def
  proof (intro conjI)
    show "\<forall>x\<in>set (md_bans s'). x = row \<or> (\<exists>y\<in>set (md_bans s). bn_id y = bn_id x \<and> bn_target y = bn_target x
      \<and> (bn_lifted_at x = None \<longrightarrow> x = y \<and> bn_target x \<noteq> bn_target b))" by (rule ballI) (rule rows)
    show "\<forall>x\<in>set (md_bans s). bn_target x \<noteq> bn_target b \<longrightarrow> x \<in> set (md_bans s')" using d(9) kept by metis
    show "\<forall>u. not_over (bn_expires_at b) u \<longrightarrow> not_over (bn_expires_at row) u" using d(7) by metis
    show "md_last_ban s < bn_id row
      \<or> (\<exists>old\<in>set (md_bans s). bn_id old = bn_id row \<and> open_for (bn_target b) old \<and> row = extend_ban old b)"
      using new by (rule disjI1)
  qed (fact d)+
qed

lemma ban_row_effect:
  assumes ok: "store_ok s" and room: "md_last_ban s \<noteq> - 1" and b: "bn_lifted_at b = None"
  shows "ban_effect b s (fst (ban_row b s)) (snd (ban_row b s))"
proof (cases "find (open_for (bn_target b)) (md_bans s)")
  case None
  then have "bn_target b \<notin> set (map bn_target (open_rows (md_bans s)))"
    unfolding no_open_row by (auto simp: find_None_iff)
  with ban_effect_new_row [OF ok room _ b] None show ?thesis by (simp add: ban_row_def)
next
  case (Some old)
  show ?thesis
  proof (cases "standing old (bn_created_at b)")
    case True
    with Some ban_effect_extend [OF ok Some] show ?thesis by (simp add: ban_row_def)
  next
    case False
    define s1 where "s1 = s\<lparr>md_bans := snd (edit_first (open_for (bn_target b))
      (\<lambda>old. old\<lparr>bn_lifted_at := bn_expires_at old\<rparr>) (md_bans s))\<rparr>"
    note c = close_expired [OF ok Some False, folded s1_def]
    have last: "md_last_ban s1 = md_last_ban s" by (simp add: s1_def)
    have "ban_row b s = new_row b s1" using Some False by (simp add: ban_row_def s1_def)
    moreover have "md_last_ban s1 \<noteq> - 1" using room last by metis
    ultimately show ?thesis
      using ban_effect_after_close [OF ban_effect_new_row [OF c(1) _ c(2) b] last c(2-4)] by metis
  qed
qed


subsection \<open>Agreement\<close>

definition agrees :: "systime \<Rightarrow> mod_store \<Rightarrow> ban_matcher \<Rightarrow> bool" where
  "agrees now s m \<longleftrightarrow>
     (\<forall>b\<in>set (md_bans s). standing b now \<longrightarrow> filed m (bn_target b) = Some (hit_of b))
     \<and> (\<forall>t h. filed m t = Some h \<and> live h now \<longrightarrow> (\<exists>b\<in>set (md_bans s). bn_target b = t \<and> hit_of b = h \<and> standing b now))
     \<and> (\<forall>i t. map_of (bm_by_id m) i = Some t \<longrightarrow> i \<le> md_last_ban s \<and> (\<forall>b\<in>set (md_bans s). bn_id b = i \<longrightarrow> bn_target b = t))"

lemma agreesD:
  assumes "agrees now s m"
  shows "b \<in> set (md_bans s) \<Longrightarrow> standing b now \<Longrightarrow> filed m (bn_target b) = Some (hit_of b)"
    and "filed m t = Some h \<Longrightarrow> live h now \<Longrightarrow> \<exists>b\<in>set (md_bans s). bn_target b = t \<and> hit_of b = h \<and> standing b now"
    and "map_of (bm_by_id m) i = Some t \<Longrightarrow> i \<le> md_last_ban s"
    and "map_of (bm_by_id m) i = Some t \<Longrightarrow> b \<in> set (md_bans s) \<Longrightarrow> bn_id b = i \<Longrightarrow> bn_target b = t"
  using assms by (auto simp: agrees_def)

lemma agrees_later:
  assumes a: "agrees now s m" and "now \<le> u"
  shows "agrees u s m"
proof -
  have "\<exists>b\<in>set (md_bans s). bn_target b = t \<and> hit_of b = h \<and> standing b u" if f: "filed m t = Some h" and l: "live h u" for t h
  proof -
    have "live h now" using l assms(2) by (auto simp: live_def intro: not_over_antimono)
    then obtain b where "b \<in> set (md_bans s)" "bn_target b = t" "hit_of b = h" "standing b now"
      using agreesD(2) [OF a f] by blast
    with l show ?thesis by (auto simp: standing_def live_hit_of)
  qed
  then show ?thesis
    using a standing_antimono [OF _ assms(2)] unfolding agrees_def by blast
qed

lemma agrees_ban:
  assumes a: "agrees now s m" and m: "matcher_ok m" and s: "store_ok s" and e: "ban_effect b s row s'"
  shows "agrees now s' (matcher_insert row m)"
proof -
  have e1: "store_ok s'" "md_last_ban s \<le> md_last_ban s'" "row \<in> set (md_bans s')" "bn_target row = bn_target b"
      "bn_lifted_at row = None"
    and e2: "\<And>x. x \<in> set (md_bans s') \<Longrightarrow> x \<noteq> row \<Longrightarrow> \<exists>y\<in>set (md_bans s). bn_id y = bn_id x \<and> bn_target y = bn_target x
          \<and> (bn_lifted_at x = None \<longrightarrow> x = y \<and> bn_target x \<noteq> bn_target b)"
    and e3: "\<And>x. x \<in> set (md_bans s) \<Longrightarrow> bn_target x \<noteq> bn_target b \<Longrightarrow> x \<in> set (md_bans s')"
    and e4: "md_last_ban s < bn_id row \<or> (\<exists>old\<in>set (md_bans s). bn_id old = bn_id row \<and> bn_target old = bn_target b)"
    using ban_effectD [OF e] unfolding open_for_def by blast+
  have id: "u = bn_target b" if "map_of (bm_by_id m) (bn_id row) = Some u" for u
    using e4 agreesD(3,4) [OF a that] by (auto simp: not_le [symmetric])
  have filed: "filed (matcher_insert row m) t = (if t = bn_target b then Some (hit_of row) else filed m t)" for t
    using id by (auto simp: filed_insert_ok [OF m] e1(4))
  have "filed (matcher_insert row m) (bn_target x) = Some (hit_of x)" if x: "x \<in> set (md_bans s')" "standing x now" for x
  proof (cases "x = row")
    case False
    with e2 [OF x(1)] x(2) agreesD(1) [OF a] show ?thesis by (auto simp: filed standing_def)
  qed (simp add: filed e1)
  moreover have "\<exists>x\<in>set (md_bans s'). bn_target x = t \<and> hit_of x = h \<and> standing x now"
    if f: "filed (matcher_insert row m) t = Some h" "live h now" for t h
  proof (cases "t = bn_target b")
    case True
    with f e1 show ?thesis by (auto simp: filed standing_def live_hit_of)
  next
    case False
    with f agreesD(2) [OF a, of t h] e3 show ?thesis by (auto simp: filed)
  qed
  moreover have "i \<le> md_last_ban s' \<and> (\<forall>x\<in>set (md_bans s'). bn_id x = i \<longrightarrow> bn_target x = t)"
    if i: "map_of (bm_by_id (matcher_insert row m)) i = Some t" for i t
  proof (cases "i = bn_id row")
    case True
    with i e1 row_by_id [OF e1(1) _ e1(3)] show ?thesis by (auto simp: insert_simps store_ok_def)
  next
    case False
    then have "map_of (bm_by_id m) i = Some t"
      using i by (auto simp: insert_simps by_id_remove split: if_splits)
    with agreesD(3,4) [OF a] e1(2) e2 False show ?thesis by (metis order_trans)
  qed
  ultimately show ?thesis unfolding agrees_def by blast
qed



subsection \<open>Writing rows\<close>

lemma store_ok_cong: "md_bans s = md_bans s' \<Longrightarrow> md_last_ban s = md_last_ban s' \<Longrightarrow> store_ok s = store_ok s'"
  by (simp add: store_ok_def)

lemma agrees_cong: "md_bans s = md_bans s' \<Longrightarrow> md_last_ban s = md_last_ban s' \<Longrightarrow> agrees now s m = agrees now s' m"
  by (simp add: agrees_def)

lemma ban_effect_cong:
  "md_bans s = md_bans s0 \<Longrightarrow> md_last_ban s = md_last_ban s0 \<Longrightarrow> ban_effect b s row s' = ban_effect b s0 row s'"
  by (simp add: ban_effect_def)

lemma store_ban_effect:
  assumes "store_ok s" "md_last_ban s \<noteq> - 1" "bn_lifted_at b = None" "store_ban b s = (r, s')"
  shows "case r of Inl _ \<Rightarrow> s' = s | Inr row \<Rightarrow> ban_effect b s row s'"
proof -
  have row: "ban_effect b s (fst (ban_row b s0)) (snd (ban_row b s0))"
    if "md_bans s = md_bans s0" "md_last_ban s = md_last_ban s0" for s0
    using ban_row_effect [of s0 b] assms(1-3) that store_ok_cong [OF that] ban_effect_cong [OF that] by simp
  consider "md_bans_before_failing s = Some 0" | n where "md_bans_before_failing s = Some (Suc n)"
    | "md_bans_before_failing s = None"
    by (metis not0_implies_Suc option.exhaust)
  then show ?thesis
    using assms(4) row [of s] row [of "s\<lparr>md_bans_before_failing := Some _\<rparr>"]
    by cases (auto simp: store_ban_def Let_def split_beta)
qed

text \<open>The state of the desk: the clock, the store, the matcher.\<close>

definition desk_ok :: "systime \<times> ban_core \<Rightarrow> bool" where
  "desk_ok x \<longleftrightarrow> (\<exists>s. bc_moderation (snd x) = Some s \<and> store_ok s \<and> matcher_ok (bc_bans (snd x)) \<and> agrees (fst x) s (bc_bans (snd x)))"

definition ids_left :: "nat \<Rightarrow> ban_core \<Rightarrow> bool" where
  "ids_left n c = (case bc_moderation c of None \<Rightarrow> True | Some s \<Rightarrow> unat (md_last_ban s) + n < 2 ^ 64)"

lemma desk_okI:
  "bc_moderation c = Some s \<Longrightarrow> store_ok s \<Longrightarrow> matcher_ok (bc_bans c) \<Longrightarrow> agrees now s (bc_bans c) \<Longrightarrow> desk_ok (now, c)"
  by (simp add: desk_ok_def)

lemma desk_okE:
  assumes "desk_ok (now, c)"
  obtains s where "bc_moderation c = Some s" "store_ok s" "matcher_ok (bc_bans c)" "agrees now s (bc_bans c)"
  using assms by (auto simp: desk_ok_def)

lemma desk_ok_later: "desk_ok (before, c) \<Longrightarrow> before \<le> now \<Longrightarrow> desk_ok (now, c)"
  by (auto simp: desk_ok_def intro: agrees_later)

lemma desk_ok_store:
  assumes "desk_ok (now, c)" "bc_moderation c = Some s" "md_bans s' = md_bans s" "md_last_ban s' = md_last_ban s"
  shows "desk_ok (now, c\<lparr>bc_moderation := Some s'\<rparr>)"
  using assms store_ok_cong [OF assms(3,4)] agrees_cong [OF assms(3,4)] by (auto simp: desk_ok_def)

lemma room_not_max: "unat (i :: u64) + Suc n < 2 ^ 64 \<Longrightarrow> i \<noteq> - 1"
  using unat_max_word_eq [where 'a = 64] by auto

text \<open>One row written and filed, and what it leaves of the ids.\<close>

lemma desk_ban:
  assumes ok: "desk_ok (now, c)" and s: "bc_moderation c = Some s" and left: "ids_left (Suc n) c" and b: "bn_lifted_at b = None"
    and r: "store_ban b s = (Inr row, s')"
  defines "c' \<equiv> c\<lparr>bc_moderation := Some s', bc_bans := matcher_insert row (bc_bans c)\<rparr>"
  shows "desk_ok (now, c')" "ids_left n c'" "ban_effect b s row s'"
proof -
  have so: "store_ok s" "matcher_ok (bc_bans c)" "agrees now s (bc_bans c)"
    using ok s by (auto simp: desk_ok_def)
  have l: "unat (md_last_ban s) + Suc n < 2 ^ 64" using left s by (simp add: ids_left_def)
  show e: "ban_effect b s row s'"
    using store_ban_effect [OF so(1) room_not_max [OF l] b r] by simp
  show "desk_ok (now, c')"
    using ban_effectD(1) [OF e] matcher_ok_insert [OF so(2)] agrees_ban [OF so(3,2,1) e]
    by (auto simp: desk_ok_def c'_def)
  show "ids_left n c'"
    using l ban_effectD(3) [OF e] by (simp add: ids_left_def c'_def)
qed

lemma desk_ban_fails:
  assumes ok: "desk_ok (now, c)" and s: "bc_moderation c = Some s" and left: "ids_left (Suc n) c" and b: "bn_lifted_at b = None"
    and r: "store_ban b s = (Inl e, s')"
  shows "c\<lparr>bc_moderation := Some s'\<rparr> = c"
proof -
  have "store_ok s" using ok s by (auto simp: desk_ok_def)
  moreover have "unat (md_last_ban s) + Suc n < 2 ^ 64" using left s by (simp add: ids_left_def)
  ultimately have "s' = s" using store_ban_effect [OF _ room_not_max b r] by simp
  with s show ?thesis by simp
qed

lemma desk_place_rows:
  assumes "\<And>t. bn_lifted_at (row t) = None"
  shows "desk_ok (now, c) \<Longrightarrow> ids_left (length ts) c \<Longrightarrow> desk_ok (now, snd (place_rows row ts placed c))"
proof (induction ts arbitrary: placed c)
  case (Cons t ts)
  obtain s where s: "bc_moderation c = Some s" using Cons.prems(1) by (rule desk_okE)
  obtain r s' where r: "store_ban (row t) s = (r, s')" by fastforce
  have left: "ids_left (Suc (length ts)) c" using Cons.prems(2) by simp
  show ?case
  proof (cases r)
    case (Inl e)
    with s r desk_ban_fails [OF Cons.prems(1) s left assms] Cons.prems(1) show ?thesis by simp
  next
    case (Inr b)
    with r have r': "store_ban (row t) s = (Inr b, s')" by simp
    from Cons.IH [OF desk_ban(1,2) [OF Cons.prems(1) s left assms r']] s r' show ?thesis by simp
  qed
qed simp

lemma desk_rotate_rows:
  "desk_ok (now, c) \<Longrightarrow> ids_left (length bs) c \<Longrightarrow> \<forall>b\<in>set bs. bn_lifted_at b = None \<Longrightarrow>
   desk_ok (now, snd (rotate_rows to bs placed c))"
proof (induction bs arbitrary: placed c)
  case (Cons b bs)
  let ?b = "b\<lparr>bn_target := Identity to\<rparr>"
  obtain s where s: "bc_moderation c = Some s" using Cons.prems(1) by (rule desk_okE)
  obtain r s' where r: "store_ban ?b s = (r, s')" by fastforce
  have left: "ids_left (Suc (length bs)) c" and b: "bn_lifted_at ?b = None" using Cons.prems(2,3) by simp_all
  show ?case
  proof (cases r)
    case (Inl e)
    with s r desk_ban_fails [OF Cons.prems(1) s left b] Cons.prems(1) show ?thesis by simp
  next
    case (Inr x)
    with r have r': "store_ban ?b s = (Inr x, s')" by simp
    from Cons.IH [OF desk_ban(1,2) [OF Cons.prems(1) s left b r']] Cons.prems(3) s r' show ?thesis by simp
  qed
qed simp



subsection \<open>Lifting\<close>

definition lifted_row :: "string \<Rightarrow> systime \<Rightarrow> ban \<Rightarrow> ban" where
  "lifted_row by at b = b\<lparr>bn_lifted_at := Some at, bn_lifted_by := Some by\<rparr>"

definition lift_rows :: "ban_id set \<Rightarrow> string \<Rightarrow> systime \<Rightarrow> mod_store \<Rightarrow> mod_store" where
  "lift_rows ids by at s = s\<lparr>md_bans := map (\<lambda>b. if bn_id b \<in> ids then lifted_row by at b else b) (md_bans s)\<rparr>"

lemma lifted_row_simps [simp]:
  "bn_id (lifted_row by at b) = bn_id b" "bn_target (lifted_row by at b) = bn_target b"
  "bn_lifted_at (lifted_row by at b) = Some at"
  by (simp_all add: lifted_row_def)

lemma lift_rows_simps [simp]:
  "md_last_ban (lift_rows ids by at s) = md_last_ban s" "lift_rows {} by at s = s"
  by (simp_all add: lift_rows_def)

lemma lift_rows_twice: "i \<notin> ids \<Longrightarrow> lift_rows ids by at (lift_rows {i} by at s) = lift_rows (insert i ids) by at s"
  by (auto simp: lift_rows_def)

lemma store_ok_lift_rows:
  assumes "store_ok s"
  shows "store_ok (lift_rows ids by at s)"
proof -
  have "map bn_id (md_bans (lift_rows ids by at s)) = map bn_id (md_bans s)"
    by (simp add: lift_rows_def comp_def)
  moreover have "open_rows (map (\<lambda>b. if bn_id b \<in> ids then lifted_row by at b else b) bs)
      = filter (\<lambda>b. bn_id b \<notin> ids) (open_rows bs)" for bs
    by (induction bs) (auto simp: open_rows_def)
  then have "open_rows (md_bans (lift_rows ids by at s)) = filter (\<lambda>b. bn_id b \<notin> ids) (open_rows (md_bans s))"
    by (simp add: lift_rows_def)
  moreover have "distinct (map bn_target (filter P (open_rows (md_bans s))))" for P
    using assms by (simp add: store_ok_def distinct_map_filter)
  moreover have "\<forall>b\<in>set (md_bans (lift_rows ids by at s)). 0 < bn_id b \<and> bn_id b \<le> md_last_ban s"
    using assms by (auto simp: store_ok_def lift_rows_def)
  ultimately show ?thesis using assms by (simp add: store_ok_def)
qed

lemma store_lift_ban_open:
  assumes "store_ok s" "b \<in> set (md_bans s)" "bn_lifted_at b = None"
  shows "store_lift_ban (bn_id b) by at s = (Some (lifted_row by at b), lift_rows {bn_id b} by at s)"
proof -
  let ?P = "\<lambda>x. bn_id x = bn_id b \<and> bn_lifted_at x = None"
  have only: "x = b" if "x \<in> set (md_bans s)" "?P x" for x using row_by_id [OF assms(1) that(1) assms(2)] that by simp
  have "find ?P (md_bans s) \<noteq> None" using assms(2,3) by (auto simp: find_None_iff)
  then obtain x where x: "find ?P (md_bans s) = Some x" by auto
  then have "x \<in> set (md_bans s)" "?P x" by (auto simp: find_Some_iff)
  with x only have f: "find ?P (md_bans s) = Some b" by simp
  obtain ys zs where s: "md_bans s = ys @ b # zs"
    and e: "edit_first ?P (lifted_row by at) (md_bans s) = (Some (lifted_row by at b), ys @ lifted_row by at b # zs)"
    by (rule edit_first_Some [OF f])
  have "bn_id x \<noteq> bn_id b" if "x \<in> set ys \<union> set zs" for x
    using store_ok_ids [OF assms(1)] that unfolding s by (auto simp: image_iff)
  then have "map (\<lambda>x. if bn_id x \<in> {bn_id b} then lifted_row by at x else x) (md_bans s) = ys @ lifted_row by at b # zs"
    by (auto simp: s map_idI)
  then show ?thesis using e by (simp add: store_lift_ban_def lift_rows_def lifted_row_def [abs_def])
qed

lemma lift_each_open:
  "store_ok s \<Longrightarrow> \<forall>b\<in>set rows. b \<in> set (md_bans s) \<and> bn_lifted_at b = None \<Longrightarrow> distinct (map bn_id rows) \<Longrightarrow>
   lift_each at by (map bn_id rows) lifted s = (Inr (lifted @ map (lifted_row by at) rows), lift_rows (bn_id ` set rows) by at s)"
proof (induction rows arbitrary: lifted s)
  case (Cons b rows)
  let ?s = "lift_rows {bn_id b} by at s"
  have l: "store_lift_ban (bn_id b) by at s = (Some (lifted_row by at b), ?s)"
    using Cons.prems store_lift_ban_open by simp
  have "\<forall>x\<in>set rows. x \<in> set (md_bans ?s) \<and> bn_lifted_at x = None"
    using Cons.prems(2,3) by (force simp: lift_rows_def image_iff)
  then have "lift_each at by (map bn_id rows) (lifted @ [lifted_row by at b]) ?s =
      (Inr ((lifted @ [lifted_row by at b]) @ map (lifted_row by at) rows), lift_rows (bn_id ` set rows) by at ?s)"
    using Cons.IH [OF store_ok_lift_rows [OF Cons.prems(1)]] Cons.prems(3) by simp
  moreover have "bn_id b \<notin> bn_id ` set rows" using Cons.prems(3) by simp
  ultimately show ?case using l lift_rows_twice by simp
qed simp

lemma filed_remove_all:
  "matcher_ok m \<Longrightarrow> matcher_ok (fold (\<lambda>row. matcher_remove (bn_id row)) rows m)
    \<and> (filed (fold (\<lambda>row. matcher_remove (bn_id row)) rows m) t = Some h \<longleftrightarrow> filed m t = Some h \<and> bh_id h \<notin> bn_id ` set rows)
    \<and> (map_of (bm_by_id (fold (\<lambda>row. matcher_remove (bn_id row)) rows m)) i = Some t \<longrightarrow> map_of (bm_by_id m) i = Some t)"
proof (induction rows arbitrary: m)
  case (Cons b rows)
  note IH = Cons.IH [OF matcher_ok_remove [OF Cons.prems, of "bn_id b"]]
  have "filed (matcher_remove (bn_id b) m) t = Some h \<longleftrightarrow> filed m t = Some h \<and> bh_id h \<noteq> bn_id b"
    using filed_remove_ok [OF Cons.prems, of "bn_id b" t] matcher_okD [OF Cons.prems, of "bn_id b" t] by auto
  with IH show ?case by (auto simp: by_id_remove split: if_splits)
qed simp

lemma agrees_lift:
  assumes a: "agrees now s m" and m: "matcher_ok m" and ids: "bn_id ` set out = ids"
  shows "agrees now (lift_rows ids by at s) (fold (\<lambda>row. matcher_remove (bn_id row)) out m)"
proof -
  let ?m = "fold (\<lambda>row. matcher_remove (bn_id row)) out m"
  note r = filed_remove_all [OF m, of out]
  have rows: "b \<in> set (md_bans (lift_rows ids by at s)) \<and> standing b u \<longleftrightarrow> b \<in> set (md_bans s) \<and> standing b u \<and> bn_id b \<notin> ids" for b u
    by (auto simp: lift_rows_def standing_def image_iff)
  have "filed ?m (bn_target b) = Some (hit_of b)" if "b \<in> set (md_bans (lift_rows ids by at s))" "standing b now" for b
  proof -
    have b: "b \<in> set (md_bans s)" "bn_id b \<notin> ids" using rows that by auto
    then show ?thesis using r agreesD(1) [OF a b(1) that(2)] ids by (simp add: hit_of_def)
  qed
  moreover have "\<exists>b\<in>set (md_bans (lift_rows ids by at s)). bn_target b = t \<and> hit_of b = h \<and> standing b now"
    if h: "filed ?m t = Some h" "live h now" for t h
  proof -
    have "filed m t = Some h" "bh_id h \<notin> ids" using h(1) r ids by auto
    with agreesD(2) [OF a _ h(2)] obtain b where "b \<in> set (md_bans s)" "bn_target b = t" "hit_of b = h" "standing b now" "bn_id b \<notin> ids"
      by (fastforce simp: hit_of_def)
    with rows [of b now] show ?thesis by blast
  qed
  moreover have "i \<le> md_last_ban s \<and> (\<forall>b\<in>set (md_bans (lift_rows ids by at s)). bn_id b = i \<longrightarrow> bn_target b = t)"
    if "map_of (bm_by_id ?m) i = Some t" for i t
  proof -
    have "map_of (bm_by_id m) i = Some t" using that r by blast
    then show ?thesis using agreesD(3,4) [OF a] by (auto simp: lift_rows_def)
  qed
  ultimately show ?thesis unfolding agrees_def by simp
qed



subsection \<open>Reading the store\<close>

lemma card_u64: "card (UNIV :: u64 set) = 2 ^ 64"
  using card_word [where 'a = 64] by simp

lemma few_rows: "store_ok s \<Longrightarrow> length (md_bans s) \<le> USIZE_MAX"
proof -
  assume ok: "store_ok s"
  then have "length (md_bans s) = card (bn_id ` set (md_bans s))"
    using distinct_card [OF store_ok_ids [OF ok]] by simp
  also have "bn_id ` set (md_bans s) \<subseteq> UNIV - {0}" using ok by (auto simp: store_ok_def)
  then have "card (bn_id ` set (md_bans s)) \<le> card (UNIV - {0 :: u64})" by (intro card_mono) auto
  also have "\<dots> = USIZE_MAX" by (simp add: card_Diff_singleton card_u64 USIZE_MAX_def)
  finally show ?thesis .
qed

definition standing_rows :: "systime \<Rightarrow> mod_store \<Rightarrow> ban list" where
  "standing_rows now s = filter (\<lambda>b. standing b now) (rev (md_bans s))"

lemma store_bans_all: "store_ok s \<Longrightarrow> store_bans (Some now) None USIZE_MAX s = standing_rows now s"
  using few_rows [of s] order_trans [OF length_filter_le [of "\<lambda>b. standing b now" "rev (md_bans s)"], of USIZE_MAX]
  by (simp add: store_bans_def standing_rows_def below_def)

lemma set_standing_rows: "set (standing_rows now s) = {b \<in> set (md_bans s). standing b now}"
  by (simp add: standing_rows_def)

lemma distinct_standing_rows:
  assumes "store_ok s"
  shows "distinct (map bn_id (standing_rows now s))" "distinct (map bn_target (standing_rows now s))"
proof -
  show "distinct (map bn_id (standing_rows now s))"
    using store_ok_ids [OF assms] unfolding standing_rows_def by (intro distinct_map_filter) (simp add: rev_map [symmetric])
  have "inj_on bn_target (set (open_rows (md_bans s)))" "distinct (md_bans s)"
    using assms store_ok_ids [OF assms] by (auto simp: store_ok_def distinct_map)
  moreover have "set (standing_rows now s) \<subseteq> set (open_rows (md_bans s))"
    by (auto simp: set_standing_rows open_rows_def standing_def)
  ultimately show "distinct (map bn_target (standing_rows now s))"
    by (auto simp: distinct_map standing_rows_def intro: inj_on_subset)
qed

lemma agrees_load:
  assumes ok: "store_ok s"
  shows "agrees now s (load_bans now s)" "matcher_ok (load_bans now s)"
proof -
  let ?m = "load_bans now s"
  have m: "?m = matcher_load (standing_rows now s)" by (simp add: load_bans_def store_bans_all [OF ok])
  then show mok: "matcher_ok ?m" by (simp add: load_ok)
  have f: "filed ?m t = Some h \<longleftrightarrow> (\<exists>b\<in>set (md_bans s). standing b now \<and> bn_target b = t \<and> hit_of b = h)" for t h
    unfolding m filed_load [OF distinct_standing_rows [OF ok]] set_standing_rows by blast
  have "i \<le> md_last_ban s \<and> (\<forall>b\<in>set (md_bans s). bn_id b = i \<longrightarrow> bn_target b = t)" if it: "map_of (bm_by_id ?m) i = Some t" for i t
  proof -
    obtain h where "filed ?m t = Some h" "bh_id h = i" using matcher_okD [OF mok, of i t] it by blast
    moreover from this(1) obtain b where b: "b \<in> set (md_bans s)" "bn_target b = t" "hit_of b = h" using f [of t h] by blast
    ultimately have i: "bn_id b = i" by (auto simp: hit_of_def)
    with b(1) have "i \<le> md_last_ban s" using ok unfolding store_ok_def by blast
    moreover have "x = b" if "x \<in> set (md_bans s)" "bn_id x = i" for x using row_by_id [OF ok that(1) b(1)] that(2) i by simp
    ultimately show ?thesis using b(2) by blast
  qed
  moreover have "filed ?m (bn_target b) = Some (hit_of b)" if "b \<in> set (md_bans s)" "standing b now" for b
    using f [of "bn_target b" "hit_of b"] that by blast
  moreover have "\<exists>b\<in>set (md_bans s). bn_target b = t \<and> hit_of b = h \<and> standing b now" if "filed ?m t = Some h" for t h
    using f [of t h] that by blast
  ultimately show "agrees now s ?m" unfolding agrees_def by metis
qed

lemma prune_keeps:
  assumes ok: "store_ok s" and a: "agrees now s m" and "before \<le> now"
  shows "store_ok (snd (prune_bans before s))" "agrees now (snd (prune_bans before s)) m"
proof -
  let ?P = "\<lambda>b. not_before (bn_lifted_at b) before \<and> not_before (bn_expires_at b) before"
  have p: "md_bans (snd (prune_bans before s)) = filter ?P (md_bans s)" "md_last_ban (snd (prune_bans before s)) = md_last_ban s"
    by (simp_all add: prune_bans_def Let_def)
  have "open_rows (filter ?P (md_bans s)) = filter ?P (open_rows (md_bans s))"
    by (simp add: open_rows_def conj_commute)
  then show "store_ok (snd (prune_bans before s))"
    using ok unfolding store_ok_def p by (simp add: distinct_map_filter sorted_wrt_map sorted_wrt_filter)
  have "?P b" if "standing b now" for b
    using that assms(3) by (auto simp: standing_def not_over_def not_before_def split: option.splits)
  then show "agrees now (snd (prune_bans before s)) m"
    using a unfolding agrees_def p by (simp only: set_filter) blast
qed


subsection \<open>A lift, whole\<close>

definition twin_rows :: "systime \<Rightarrow> ban \<Rightarrow> mod_store \<Rightarrow> ban list" where
  "twin_rows now b s =
     (case bn_act b of
        None \<Rightarrow> []
      | Some a \<Rightarrow> filter (\<lambda>t. bn_id t \<noteq> bn_id b \<and> bn_act t = Some a \<and> bn_source t \<noteq> Config) (standing_rows now s))"

lemma twins_rows: "store_ok s \<Longrightarrow> twins now b s = map bn_id (twin_rows now b s)"
  by (simp add: twins_def twin_rows_def store_bans_all split: option.split)

lemma twin_rows_open:
  assumes "store_ok s"
  shows "\<forall>t\<in>set (twin_rows now b s). t \<in> set (md_bans s) \<and> bn_lifted_at t = None \<and> bn_id t \<noteq> bn_id b"
    and "distinct (map bn_id (twin_rows now b s))"
  using distinct_standing_rows(1) [OF assms, of now]
  by (auto simp: twin_rows_def set_standing_rows standing_def distinct_map_filter split: option.split)

lemma record_unban:
  obtains j s' where "record_act (unban_act a rows now) s = (Inr j, s')" "md_bans s' = md_bans s" "md_last_ban s' = md_last_ban s"
proof -
  have "ac_kind (unban_act a rows now) = Unban" by (simp add: unban_act_def act_new_def)
  then show ?thesis
    by (intro that [of "word_of_nat (length (md_acts s)) + 1"
          "s\<lparr>md_acts := md_acts s @ [(unban_act a rows now)\<lparr>ac_id := word_of_nat (length (md_acts s)) + 1\<rparr>]\<rparr>"])
      (simp_all add: record_act_def Let_def)
qed

text \<open>What a lift answers when it finds the ban.\<close>

lemma lift_found:
  assumes ok: "store_ok s" and c: "bc_moderation c = Some s"
    and f: "find (\<lambda>b. bn_id b = i \<and> bn_lifted_at b = None) (store_bans None (Some (sat_add i 1)) 1 s) = Some b"
    and src: "bn_source b \<noteq> Config"
  shows "b \<in> set (md_bans s)" "bn_id b = i" "bn_lifted_at b = None"
    and "\<exists>s'. lift_ban_as now a i c = (Inr (map (lifted_row (ag_name a) now) (b # twin_rows now b s)),
        c\<lparr>bc_moderation := Some s',
          bc_bans := fold (\<lambda>row. matcher_remove (bn_id row)) (map (lifted_row (ag_name a) now) (b # twin_rows now b s)) (bc_bans c)\<rparr>)
      \<and> md_bans s' = md_bans (lift_rows (bn_id ` set (b # twin_rows now b s)) (ag_name a) now s) \<and> md_last_ban s' = md_last_ban s"
proof -
  have "b \<in> set (store_bans None (Some (sat_add i 1)) 1 s)" "bn_id b = i" "bn_lifted_at b = None"
    using f by (auto simp: find_Some_iff)
  moreover from this(1) show b: "b \<in> set (md_bans s)"
    by (auto simp: store_bans_def dest: in_set_takeD)
  ultimately show i: "bn_id b = i" and o: "bn_lifted_at b = None" by simp_all
  let ?rows = "b # twin_rows now b s"
  have "lift_each now (ag_name a) (map bn_id ?rows) [] s =
      (Inr ([] @ map (lifted_row (ag_name a) now) ?rows), lift_rows (bn_id ` set ?rows) (ag_name a) now s)"
  proof (rule lift_each_open [OF ok])
    show "\<forall>x\<in>set ?rows. x \<in> set (md_bans s) \<and> bn_lifted_at x = None"
      using twin_rows_open(1) [OF ok, of now b] b o by simp
    have "bn_id b \<notin> bn_id ` set (twin_rows now b s)"
      using twin_rows_open(1) [OF ok, of now b] by (metis (no_types, lifting) imageE)
    then show "distinct (map bn_id ?rows)" using twin_rows_open(2) [OF ok, of now b] by simp
  qed
  then show "\<exists>s'. lift_ban_as now a i c = (Inr (map (lifted_row (ag_name a) now) ?rows),
        c\<lparr>bc_moderation := Some s',
          bc_bans := fold (\<lambda>row. matcher_remove (bn_id row)) (map (lifted_row (ag_name a) now) ?rows) (bc_bans c)\<rparr>)
      \<and> md_bans s' = md_bans (lift_rows (bn_id ` set ?rows) (ag_name a) now s) \<and> md_last_ban s' = md_last_ban s"
  proof -
    assume l: "lift_each now (ag_name a) (map bn_id ?rows) [] s =
      (Inr ([] @ map (lifted_row (ag_name a) now) ?rows), lift_rows (bn_id ` set ?rows) (ag_name a) now s)"
    obtain j s' where r: "record_act (unban_act a (map (lifted_row (ag_name a) now) ?rows) now)
          (lift_rows (bn_id ` set ?rows) (ag_name a) now s) = (Inr j, s')"
        "md_bans s' = md_bans (lift_rows (bn_id ` set ?rows) (ag_name a) now s)" "md_last_ban s' = md_last_ban s"
      by (rule record_unban [of a "map (lifted_row (ag_name a) now) ?rows" now "lift_rows (bn_id ` set ?rows) (ag_name a) now s"]) simp
    have "i # twins now b s = map bn_id ?rows" using i by (simp add: twins_rows [OF ok])
    then have "lift_ban_as now a i c = (Inr (map (lifted_row (ag_name a) now) ?rows),
        c\<lparr>bc_moderation := Some s',
          bc_bans := fold (\<lambda>row. matcher_remove (bn_id row)) (map (lifted_row (ag_name a) now) ?rows) (bc_bans c)\<rparr>)"
      using src by (simp only: lift_ban_as_def c f l r(1) append_Nil option.case prod.case sum.case if_False)
    then show ?thesis using r(2,3) by blast
  qed
qed

lemma desk_lift:
  assumes "desk_ok (now, c)"
  shows "desk_ok (now, snd (lift_ban_as now a i c))"
proof -
  obtain s where s: "bc_moderation c = Some s" "store_ok s" "matcher_ok (bc_bans c)" "agrees now s (bc_bans c)"
    using assms by (rule desk_okE)
  let ?f = "find (\<lambda>b. bn_id b = i \<and> bn_lifted_at b = None) (store_bans None (Some (sat_add i 1)) 1 s)"
  show ?thesis
  proof (cases "\<exists>b. ?f = Some b \<and> bn_source b \<noteq> Config")
    case False
    then have "snd (lift_ban_as now a i c) = c"
      using s(1) by (cases ?f) (auto simp: lift_ban_as_def)
    with assms show ?thesis by simp
  next
    case True
    then obtain b where b: "?f = Some b" "bn_source b \<noteq> Config" by blast
    let ?out = "map (lifted_row (ag_name a) now) (b # twin_rows now b s)"
    let ?ids = "bn_id ` set (b # twin_rows now b s)"
    obtain s' where s': "snd (lift_ban_as now a i c) = c\<lparr>bc_moderation := Some s',
          bc_bans := fold (\<lambda>row. matcher_remove (bn_id row)) ?out (bc_bans c)\<rparr>"
      "md_bans s' = md_bans (lift_rows ?ids (ag_name a) now s)" "md_last_ban s' = md_last_ban (lift_rows ?ids (ag_name a) now s)"
      using lift_found(4) [OF s(2,1) b, of now a] by (metis snd_conv lift_rows_simps(1))
    have ids: "bn_id ` set ?out = ?ids" by (simp add: image_image)
    show ?thesis
      unfolding s'(1)
    proof (rule desk_okI)
      show "store_ok s'" using store_ok_cong [OF s'(2,3)] store_ok_lift_rows [OF s(2)] by metis
      show "matcher_ok (bc_bans (c\<lparr>bc_moderation := Some s', bc_bans := fold (\<lambda>row. matcher_remove (bn_id row)) ?out (bc_bans c)\<rparr>))"
        using filed_remove_all [OF s(3), of ?out] by simp
      show "agrees now s' (bc_bans (c\<lparr>bc_moderation := Some s', bc_bans := fold (\<lambda>row. matcher_remove (bn_id row)) ?out (bc_bans c)\<rparr>))"
        using agrees_cong [OF s'(2,3)] agrees_lift [OF s(4,3) ids] by simp
    qed simp
  qed
qed

end
