(* ===== verification/Ban_Guarantees.thy ===== *)
theory Ban_Guarantees
  imports Ban_Safety
begin

section \<open>What bans promise\<close>

text \<open>
  Requests to the moderation store and the ban desk, runs of them, and what holds over every run.  \<open>ban_step lo allow\<close> serves
  one request that \<open>allow\<close> admits; the clock may move before it, and the accounts may change between requests.  The desk
  writes the store and the matcher under one lock, so requests interleave as whole steps.
\<close>


subsection \<open>Requests and runs\<close>

datatype ban_request =
    RqPlace acting new_ban "ban_target list"
  | RqKick roster "ban_target list" actor "systime option" string
  | RqLift acting ban_id
  | RqPeerUnban bytes requester
  | RqReload
  | RqRotate fp fp
  | RqSweep u32 u32
  | RqRecord act
  | RqFile report
  | RqClose report_id closing
  | RqBlock bytes
  | RqNoteLink ban_id bytes bytes
  | RqNetworkBan network_ban
  | RqAskUnban u64
  | RqNetworkUnbanned u64

definition on_store :: "(mod_store \<Rightarrow> mod_store) \<Rightarrow> ban_core \<Rightarrow> ban_core" where
  "on_store f c = c\<lparr>bc_moderation := map_option f (bc_moderation c)\<rparr>"

definition serve_ban :: "(string \<Rightarrow> string) \<Rightarrow> ban_env \<Rightarrow> systime \<Rightarrow> ban_request \<Rightarrow> ban_core \<Rightarrow> ban_core" where
  "serve_ban lo env now rq c =
     (case rq of
        RqPlace a b also_on \<Rightarrow> snd (place_bans_act lo env now a b also_on c)
      | RqKick r targets by expires reason \<Rightarrow> snd (place_kick_ban lo env r now targets by expires reason c)
      | RqLift a i \<Rightarrow> snd (lift_ban_as now a i c)
      | RqPeerUnban handle by \<Rightarrow> snd (peer_unban now handle by c)
      | RqReload \<Rightarrow> snd (reload_bans now c)
      | RqRotate f t \<Rightarrow> snd (rotate_bans now f t c)
      | RqSweep evidence_days report_days \<Rightarrow> snd (prune_moderation evidence_days report_days now c)
      | RqRecord a \<Rightarrow> on_store (\<lambda>s. snd (record_act a s)) c
      | RqFile r \<Rightarrow> on_store (\<lambda>s. snd (file_report r s)) c
      | RqClose i cl \<Rightarrow> on_store (\<lambda>s. snd (close_report i cl s)) c
      | RqBlock h \<Rightarrow> on_store (block_hash h) c
      | RqNoteLink i requester handle \<Rightarrow> on_store (note_link_ban i requester handle) c
      | RqNetworkBan b \<Rightarrow> on_store (\<lambda>s. snd (record_network_ban b s)) c
      | RqAskUnban i \<Rightarrow> on_store (\<lambda>s. snd (ask_network_unban i now s)) c
      | RqNetworkUnbanned i \<Rightarrow> on_store (network_unbanned i now) c)"

text \<open>How many ids a request may take: a login brings the identity its account links.\<close>

definition ids_taken :: "ban_request \<Rightarrow> nat" where
  "ids_taken rq =
     (case rq of
        RqPlace _ _ also_on \<Rightarrow> 2 * Suc (length also_on)
      | RqKick _ targets _ _ _ \<Rightarrow> 2 * length targets
      | RqRotate _ _ \<Rightarrow> 1
      | _ \<Rightarrow> 0)"

inductive ban_step ::
    "(string \<Rightarrow> string) \<Rightarrow> (ban_request \<Rightarrow> bool) \<Rightarrow> systime \<times> ban_core \<Rightarrow> systime \<times> ban_core \<Rightarrow> bool" for lo allow where
  served: "allow rq \<Longrightarrow> before \<le> now \<Longrightarrow> ids_left (ids_taken rq) c \<Longrightarrow>
     ban_step lo allow (before, c) (now, serve_ban lo env now rq c)"

inductive_cases ban_stepE: "ban_step lo allow x y"

abbreviation ban_run :: "(string \<Rightarrow> string) \<Rightarrow> (ban_request \<Rightarrow> bool) \<Rightarrow> systime \<times> ban_core \<Rightarrow> systime \<times> ban_core \<Rightarrow> bool" where
  "ban_run lo allow \<equiv> (ban_step lo allow)\<^sup>*\<^sup>*"


subsection \<open>Every request keeps the invariant\<close>

lemma gather_length: "gather lo env a ts acc = Inr targets \<Longrightarrow> length targets \<le> length acc + 2 * length ts"
proof (induction ts arbitrary: acc)
  case (Cons t ts)
  then obtain twin where g: "gather lo env a ts (fold add_target (t # (case twin of Some w \<Rightarrow> [w] | None \<Rightarrow> [])) acc) = Inr targets"
    by (auto simp: bindR_Inr_iff)
  have add: "length (add_target x xs) \<le> Suc (length xs)" for x xs by (simp add: add_target_def)
  have "length (fold add_target (t # (case twin of Some w \<Rightarrow> [w] | None \<Rightarrow> [])) acc) \<le> length acc + 2"
    using add [of t acc] add [of _ "add_target t acc"] by (cases twin) (auto intro: le_trans)
  with Cons.IH [OF g] show ?case by simp
qed simp

lemma ids_left_mono: "ids_left n c \<Longrightarrow> k \<le> n \<Longrightarrow> ids_left k c"
  by (auto simp: ids_left_def split: option.splits)

text \<open>The bans of a store are the same after a write that is not about bans.\<close>

definition same_bans :: "mod_store \<Rightarrow> mod_store \<Rightarrow> bool" where
  "same_bans s s' \<longleftrightarrow> md_bans s' = md_bans s \<and> md_last_ban s' = md_last_ban s"

lemma desk_on_store:
  assumes "desk_ok (now, c)" "\<And>s. same_bans s (f s)"
  shows "desk_ok (now, on_store f c)"
proof -
  obtain s where s: "bc_moderation c = Some s" using assms(1) by (rule desk_okE)
  have "desk_ok (now, c\<lparr>bc_moderation := Some (f s)\<rparr>)"
    using desk_ok_store [OF assms(1) s] assms(2) by (simp add: same_bans_def)
  with s show ?thesis by (simp add: on_store_def)
qed

lemma same_bans_writes:
  "same_bans s (snd (record_act a s))" "same_bans s (snd (file_report r s))" "same_bans s (snd (close_report i cl s))"
  "same_bans s (block_hash h s)" "same_bans s (note_link_ban i q handle s)" "same_bans s (snd (record_network_ban b s))"
  "same_bans s (snd (ask_network_unban j now s))" "same_bans s (network_unbanned j now s)"
  "same_bans s (snd (scrub_evidence at s))" "same_bans s (snd (prune_reports at s))"
  by (simp_all add: same_bans_def record_act_def file_report_def close_report_def block_hash_def note_link_ban_def
      record_network_ban_def ask_network_unban_def network_unbanned_def scrub_evidence_def prune_reports_def Let_def split_beta
      split: act_kind.split option.split prod.split)

lemma record_in_same:
  assumes "desk_ok (now, c)" "record_in a c = (r, c')"
  shows "desk_ok (now, c')" "ids_left n c \<Longrightarrow> ids_left n c'"
proof -
  obtain s where s: "bc_moderation c = Some s" using assms(1) by (rule desk_okE)
  have c': "c' = c\<lparr>bc_moderation := Some (snd (record_act a s))\<rparr>"
    using assms(2) s by (cases "record_act a s"; cases "fst (record_act a s)") (simp_all add: record_in_def)
  with desk_ok_store [OF assms(1) s] same_bans_writes(1) show "desk_ok (now, c')" by (simp add: same_bans_def)
  show "ids_left n c \<Longrightarrow> ids_left n c'"
    using s same_bans_writes(1) [of s a] by (simp add: c' ids_left_def same_bans_def)
qed

lemma desk_place:
  assumes ok: "desk_ok (now, c)" and left: "ids_left (2 * Suc (length also_on)) c"
  shows "desk_ok (now, snd (place_bans_act lo env at a b also_on c))"
proof (cases "gather lo env a (nn_target b # also_on) []")
  case (Inl e)
  with ok show ?thesis by (simp add: place_bans_act_def)
next
  case (Inr targets)
  obtain r c1 where r: "record_in (ban_act a b targets at) c = (r, c1)" by fastforce
  have "length targets \<le> 2 * Suc (length also_on)" using gather_length [OF Inr] by simp
  then have c1: "desk_ok (now, c1)" "ids_left (length targets) c1"
    using record_in_same [OF ok r] left ids_left_mono by blast+
  have "desk_ok (now, snd (place_rows (row_of a b at act_id) targets [] c1))" for act_id
    using desk_place_rows [OF _ c1] by (simp add: row_of_def)
  with ok r c1(1) Inr show ?thesis
    by (auto simp: place_bans_act_def split: sum.split prod.split) (metis snd_conv)+
qed

text \<open>A kick's ban is a ban placed on no more targets than the kick has.\<close>

lemma kick_is_place:
  "snd (place_kick_ban lo env r at targets by expires reason c) = c
   \<or> (\<exists>a b rest. Suc (length rest) \<le> length targets
        \<and> snd (place_kick_ban lo env r at targets by expires reason c) = snd (place_bans_act lo env at a b rest c))"
proof -
  have "Suc (length rest) \<le> length targets" if "filter P targets = first # rest \<or> targets = first # rest" for P first rest
    using that length_filter_le [of P targets] by (metis length_Cons order_refl)
  then show ?thesis
    unfolding place_kick_ban_def
    by (auto split: option.split list.split prod.split sum.split) (metis snd_conv)+
qed

lemma desk_kick:
  assumes ok: "desk_ok (now, c)" and left: "ids_left (2 * length targets) c"
  shows "desk_ok (now, snd (place_kick_ban lo env r at targets by expires reason c))"
  using kick_is_place [of lo env r at targets "by" expires reason c] ok desk_place [OF ok ids_left_mono [OF left]] by auto

lemma one_row:
  assumes "store_ok s"
  shows "length (filter (\<lambda>b. bn_target b = Identity f) (standing_rows at s)) \<le> 1"
proof -
  let ?rows = "filter (\<lambda>b. bn_target b = Identity f) (standing_rows at s)"
  have "distinct (map bn_target ?rows)" using distinct_standing_rows(2) [OF assms] by (rule distinct_map_filter)
  moreover have "set (map bn_target ?rows) \<subseteq> {Identity f}" by auto
  ultimately show ?thesis
    by (metis card_mono distinct_card finite.emptyI finite.insertI is_singletonI is_singleton_altdef length_map)
qed

lemma desk_rotate:
  assumes ok: "desk_ok (now, c)" and left: "ids_left 1 c"
  shows "desk_ok (now, snd (rotate_bans at f t c))"
proof -
  obtain s where s: "bc_moderation c = Some s" "store_ok s" using ok by (rule desk_okE)
  let ?rows = "filter (\<lambda>b. bn_target b = Identity f) (standing_rows at s)"
  have "desk_ok (now, snd (rotate_rows t ?rows [] c))"
    using desk_rotate_rows [OF ok ids_left_mono [OF left one_row [OF s(2)]]] by (auto simp: set_standing_rows standing_def)
  with ok s show ?thesis by (auto simp: rotate_bans_def store_bans_all split: prod.split sum.split)
qed

lemma desk_reload: "desk_ok (now, c) \<Longrightarrow> desk_ok (now, snd (reload_bans now c))"
  using agrees_load by (auto simp: desk_ok_def reload_bans_def Let_def)

lemma desk_sweep:
  assumes ok: "desk_ok (now, c)"
  shows "desk_ok (now, snd (prune_moderation ed rd now c))"
proof -
  obtain s where s: "bc_moderation c = Some s" "store_ok s" "matcher_ok (bc_bans c)" "agrees now s (bc_bans c)"
    using ok by (rule desk_okE)
  define s1 where "s1 = (if ed = 0 then s else snd (scrub_evidence (now - days ed) s))"
  define s2 where "s2 = (if rd = 0 then s1 else snd (prune_reports (now - days rd) s1))"
  define s3 where "s3 = (if rd = 0 then s2 else snd (prune_bans (now - days rd) s2))"
  have "same_bans s s2" using same_bans_writes(9,10) by (simp add: s1_def s2_def same_bans_def)
  then have "store_ok s2" "agrees now s2 (bc_bans c)"
    using s store_ok_cong [of s2 s] agrees_cong [of s2 s] by (simp_all add: same_bans_def)
  then have "store_ok s3" "agrees now s3 (bc_bans c)"
    using prune_keeps [of s2 now "bc_bans c" "now - days rd"] by (simp_all add: s3_def days_def)
  moreover have "snd (prune_moderation ed rd now c) = c\<lparr>bc_moderation := Some s3\<rparr>"
    by (simp add: prune_moderation_def s(1) s1_def s2_def s3_def Let_def split_beta)
  ultimately show ?thesis using s(3) by (auto simp: desk_ok_def)
qed

lemma desk_serve:
  assumes ok: "desk_ok (now, c)" and left: "ids_left (ids_taken rq) c"
  shows "desk_ok (now, serve_ban lo env now rq c)"
proof (cases rq)
  case (RqPeerUnban handle q)
  have "snd (peer_unban now handle q c) = c \<or> (\<exists>a i. snd (peer_unban now handle q c) = snd (lift_ban_as now a i c))"
    by (auto simp: peer_unban_def split: option.split prod.split sum.split mod_error.split) (metis snd_conv)+
  with ok desk_lift [OF ok] RqPeerUnban show ?thesis by (auto simp: serve_ban_def)
qed (use ok left in \<open>auto simp: serve_ban_def ids_taken_def same_bans_writes
      intro: desk_place desk_kick desk_lift desk_reload desk_rotate desk_sweep desk_on_store\<close>)

definition clock_le :: "systime \<times> ban_core \<Rightarrow> systime \<times> ban_core \<Rightarrow> bool" where
  "clock_le x y \<longleftrightarrow> fst x \<le> fst y"

interpretation desk: monotone_steps "ban_step lo allow" desk_ok clock_le for lo allow
proof unfold_locales
  show "ban_step lo allow x y \<Longrightarrow> desk_ok x \<Longrightarrow> desk_ok y" for x y
    by (erule ban_stepE) (auto intro: desk_serve desk_ok_later)
  show "ban_step lo allow x y \<Longrightarrow> desk_ok x \<Longrightarrow> clock_le x y" for x y
    by (erule ban_stepE) (simp add: clock_le_def)
qed (simp_all add: clock_le_def)

lemma desk_start: "store_ok s \<Longrightarrow> desk_ok (now, with_moderation now s c)"
  using agrees_load by (simp add: desk_ok_def with_moderation_def)



subsection \<open>Lookups answer as the store would\<close>

text \<open>What a search of the store's rows may answer: a row that stands and covers what was asked about.\<close>

definition answers_for :: "mod_store \<Rightarrow> (ban_target \<Rightarrow> bool) \<Rightarrow> systime \<Rightarrow> ban_hit option \<Rightarrow> bool" where
  "answers_for s covers now r \<longleftrightarrow>
     (case r of
        Some h \<Rightarrow> \<exists>b\<in>set (md_bans s). standing b now \<and> covers (bn_target b) \<and> hit_of b = h
      | None \<Rightarrow> \<forall>b\<in>set (md_bans s). standing b now \<longrightarrow> \<not> covers (bn_target b))"

lemma finds_answers:
  assumes a: "agrees now s m" and f: "finds m covers now r"
  shows "answers_for s covers now r"
proof (cases r)
  case None
  have "\<not> covers (bn_target b)" if "b \<in> set (md_bans s)" "standing b now" for b
  proof -
    have "live (hit_of b) now" using that(2) by (simp add: standing_def live_hit_of)
    with agreesD(1) [OF a that] f None show ?thesis by (fastforce simp: finds_def)
  qed
  with None show ?thesis by (simp add: answers_for_def)
next
  case (Some h)
  with f obtain t where "live h now" "covers t" "filed m t = Some h" by (auto simp: finds_def)
  with agreesD(2) [OF a] Some show ?thesis by (fastforce simp: answers_for_def)
qed

lemma desk_answers:
  assumes "desk_ok (t, c)" "t \<le> now" "bc_moderation c = Some s"
  shows "answers_for s (\<lambda>b. covers_address b ip) now (address_banned c now ip)"
    and "answers_for s (\<lambda>b. covers_person lo b login identity handle) now (person_banned lo c now login identity handle)"
proof -
  have "matcher_ok (bc_bans c)" "agrees now s (bc_bans c)"
    using desk_ok_later [OF assms(1,2)] assms(3) by (auto simp: desk_ok_def)
  then show "answers_for s (\<lambda>b. covers_address b ip) now (address_banned c now ip)"
    and "answers_for s (\<lambda>b. covers_person lo b login identity handle) now (person_banned lo c now login identity handle)"
    unfolding address_banned_def person_banned_def by (auto intro: finds_answers address_finds person_finds)
qed

lemma run_desk:
  assumes "store_ok s0" "ban_run lo allow (t0, with_moderation t0 s0 c0) (t, c)"
  obtains s where "desk_ok (t, c)" "bc_moderation c = Some s" "store_ok s"
  using desk.run_ok [OF assms(2) desk_start [OF assms(1)]] by (auto simp: desk_ok_def)

text \<open>C12: In every state that requests to place, kick, lift, reload, rotate and sweep lead to over the memory store, whose one
  write that can fail is that of a ban's row, wherever in an act it does, the accept path's answers from memory are those of a search of the store: an address or a person is refused, with the id, the
  reason and the expiry of a row of the store, exactly while a row that covers it stands.\<close>

theorem bans_answer_as_store:
  assumes "store_ok s0" "ban_run lo (\<lambda>_. True) (t0, with_moderation t0 s0 c0) (t, c)" "t \<le> now"
  shows "\<exists>s. bc_moderation c = Some s
    \<and> answers_for s (\<lambda>b. covers_address b ip) now (address_banned c now ip)
    \<and> answers_for s (\<lambda>b. covers_person lo b login identity handle) now (person_banned lo c now login identity handle)"
proof -
  obtain s where "desk_ok (t, c)" "bc_moderation c = Some s" by (rule run_desk [OF assms(1,2)])
  then show ?thesis using desk_answers assms(3) by blast
qed

text \<open>C16: An address ban of a block refuses exactly the addresses of its own family that share the block's prefix, IPv4 in
  any of its written forms being IPv4, until it runs out.\<close>

theorem address_ban_exact:
  assumes "ip_wf ip" "ip_wf peer" "target_address ip p = Inr (bn_target b)"
  shows "matcher_address (matcher_load [b]) peer now \<noteq> None
    \<longleftrightarrow> prefix_eq (to_canonical peer) (to_canonical ip) (ucast p) \<and> not_over (bn_expires_at b) now"
proof -
  let ?m = "matcher_load [b]"
  have f: "filed ?m t = Some h \<longleftrightarrow> bn_target b = t \<and> hit_of b = h" for t h
    using filed_load [of "[b]" t h] by simp
  have "finds ?m (\<lambda>t. covers_address t peer) now (matcher_address ?m peer now)"
    by (rule address_finds [OF load_ok])
  then have "matcher_address ?m peer now \<noteq> None \<longleftrightarrow> covers_address (bn_target b) peer \<and> live (hit_of b) now"
    unfolding finds_def f by (auto split: option.splits)
  then show ?thesis by (simp add: address_covers_iff [OF assms] live_hit_of)
qed


subsection \<open>A lift is whole\<close>

lemma sat_succ_less: "i \<noteq> - 1 \<Longrightarrow> x < sat_add i (1 :: u64) \<longleftrightarrow> x \<le> i"
  using less_sat_add_1 [of i] sat_add_1_leI [of i x] by (meson linorder_not_le order_le_less_trans)

lemma find_open:
  assumes ok: "store_ok s" and b: "b \<in> set (md_bans s)" "bn_lifted_at b = None" and max: "md_last_ban s \<noteq> - 1"
  shows "find (\<lambda>x. bn_id x = bn_id b \<and> bn_lifted_at x = None) (store_bans None (Some (sat_add (bn_id b) 1)) 1 s) = Some b"
proof -
  have "bn_id b \<le> md_last_ban s" using ok b(1) by (auto simp: store_ok_def)
  then have i: "bn_id b \<noteq> - 1" using max by (metis word_order.extremum_uniqueI)
  obtain ys zs where s: "md_bans s = ys @ b # zs" using b(1) by (meson split_list)
  have "\<forall>x\<in>set zs. bn_id b < bn_id x" using ok by (simp add: store_ok_def s sorted_wrt_append)
  then have "filter (\<lambda>x. bn_id x \<le> bn_id b) (rev zs) = []" by (auto simp: filter_empty_conv)
  then have "store_bans None (Some (sat_add (bn_id b) 1)) 1 s = [b]"
    by (simp add: store_bans_def below_def sat_succ_less [OF i] s)
  with b(2) show ?thesis by simp
qed

text \<open>Is \<open>x\<close> lifted with \<open>b\<close>: the row named, or one standing that the same act placed, the config's own apart?\<close>

definition lifted_with :: "systime \<Rightarrow> ban \<Rightarrow> ban \<Rightarrow> bool" where
  "lifted_with now b x \<longleftrightarrow> x = b \<or> (bn_act b \<noteq> None \<and> bn_act x = bn_act b \<and> standing x now \<and> bn_source x \<noteq> Config)"

lemma lifted_with_rows:
  assumes ok: "store_ok s" and b: "b \<in> set (md_bans s)"
  shows "set (b # twin_rows now b s) = {x \<in> set (md_bans s). lifted_with now b x}"
proof -
  have "x = b" if "x \<in> set (md_bans s)" "bn_id x = bn_id b" for x using row_by_id [OF ok that(1) b that(2)] .
  then show ?thesis
    using b by (cases "bn_act b") (auto simp: twin_rows_def lifted_with_def set_standing_rows)
qed

lemma lifted_with_ids:
  assumes ok: "store_ok s" and b: "b \<in> set (md_bans s)" and x: "x \<in> set (md_bans s)"
  shows "bn_id x \<in> bn_id ` set (b # twin_rows now b s) \<longleftrightarrow> lifted_with now b x"
  unfolding lifted_with_rows [OF ok b] using x row_by_id [OF ok x] by blast

text \<open>A row that does not stand is not what a lookup answers.\<close>

lemma not_answered:
  assumes ok: "store_ok s" and a: "answers_for s covers now (Some h)" and x: "x \<in> set (md_bans s)" "\<not> standing x now"
  shows "bh_id h \<noteq> bn_id x"
proof
  assume "bh_id h = bn_id x"
  with a obtain y where "y \<in> set (md_bans s)" "standing y now" "bn_id y = bn_id x"
    by (auto simp: answers_for_def hit_of_def)
  with row_by_id [OF ok _ x(1)] x(2) show False by blast
qed

text \<open>C14: Lifting a ban of the config is refused. Lifting another that is not lifted yet lifts its row and with it every row
  standing that the same act placed, and no other; afterwards nobody is refused for any of them.\<close>

theorem lift_is_whole:
  assumes "store_ok s0" "ban_run lo (\<lambda>_. True) (t0, with_moderation t0 s0 c0) (t, c)" "t \<le> now"
    and "bc_moderation c = Some s" "ids_left 1 c" "b \<in> set (md_bans s)" "bn_lifted_at b = None"
  shows "if bn_source b = Config then lift_ban_as now a (bn_id b) c = (Inl ConfigBan, c)
    else \<exists>rows c' s'. lift_ban_as now a (bn_id b) c = (Inr (map (lifted_row (ag_name a) now) (b # rows)), c') \<and> bc_moderation c' = Some s'
        \<and> set (b # rows) = {x \<in> set (md_bans s). lifted_with now b x}
        \<and> md_bans s' = map (\<lambda>x. if lifted_with now b x then lifted_row (ag_name a) now x else x) (md_bans s)
        \<and> (\<forall>u ip h. now \<le> u \<and> address_banned c' u ip = Some h \<longrightarrow> bh_id h \<notin> bn_id ` set (b # rows))
        \<and> (\<forall>u l i hd h. now \<le> u \<and> person_banned lo c' u l i hd = Some h \<longrightarrow> bh_id h \<notin> bn_id ` set (b # rows))"
proof -
  have d: "desk_ok (t, c)" "store_ok s"
    using run_desk [OF assms(1,2)] assms(4) by (metis option.inject)+
  have max: "md_last_ban s \<noteq> - 1" using assms(4,5) room_not_max [of "md_last_ban s" 0] by (simp add: ids_left_def)
  note f = find_open [OF d(2) assms(6,7) max]
  show ?thesis
  proof (cases "bn_source b = Config")
    case True
    then show ?thesis using assms(4) f by (simp add: lift_ban_as_def)
  next
    case False
    let ?rows = "b # twin_rows now b s"
    obtain s' where l: "lift_ban_as now a (bn_id b) c = (Inr (map (lifted_row (ag_name a) now) ?rows),
        c\<lparr>bc_moderation := Some s',
          bc_bans := fold (\<lambda>row. matcher_remove (bn_id row)) (map (lifted_row (ag_name a) now) ?rows) (bc_bans c)\<rparr>)"
      "md_bans s' = md_bans (lift_rows (bn_id ` set ?rows) (ag_name a) now s)"
      using lift_found(4) [OF d(2) assms(4) f False, of now a] by blast
    define c' where "c' = snd (lift_ban_as now a (bn_id b) c)"
    have c': "lift_ban_as now a (bn_id b) c = (Inr (map (lifted_row (ag_name a) now) ?rows), c')" "bc_moderation c' = Some s'"
      unfolding c'_def l(1) by simp_all
    have "desk_ok (now, c')" unfolding c'_def by (rule desk_lift [OF desk_ok_later [OF d(1) assms(3)]])
    moreover from this have "store_ok s'" using c'(2) by (simp add: desk_ok_def)
    ultimately have ok': "desk_ok (now, c')" "store_ok s'" by simp_all
    have bans: "md_bans s' = map (\<lambda>x. if lifted_with now b x then lifted_row (ag_name a) now x else x) (md_bans s)"
      unfolding l(2) lift_rows_def using lifted_with_ids [OF d(2) assms(6)] by simp
    have gone: "bh_id h \<notin> bn_id ` set ?rows" if h: "answers_for s' covers u (Some h)" for covers u h
    proof
      assume "bh_id h \<in> bn_id ` set ?rows"
      then obtain x where x: "x \<in> set (md_bans s)" "lifted_with now b x" "bh_id h = bn_id x"
        unfolding lifted_with_rows [OF d(2) assms(6)] by blast
      then have "lifted_row (ag_name a) now x \<in> set (md_bans s')" unfolding bans by force
      from not_answered [OF ok'(2) h this] x(3) show False by (simp add: standing_def)
    qed
    have "bh_id h \<notin> bn_id ` set ?rows" if "now \<le> u" "address_banned c' u ip = Some h" for u ip h
      using gone desk_answers(1) [OF ok'(1) that(1) c'(2), of ip] that(2) by simp
    moreover have "bh_id h \<notin> bn_id ` set ?rows" if "now \<le> u" "person_banned lo c' u l i hd = Some h" for u l i hd h
      using gone desk_answers(2) [OF ok'(1) that(1) c'(2), of lo l i hd] that(2) by simp
    ultimately have "lift_ban_as now a (bn_id b) c = (Inr (map (lifted_row (ag_name a) now) ?rows), c') \<and> bc_moderation c' = Some s'
        \<and> set ?rows = {x \<in> set (md_bans s). lifted_with now b x}
        \<and> md_bans s' = map (\<lambda>x. if lifted_with now b x then lifted_row (ag_name a) now x else x) (md_bans s)
        \<and> (\<forall>u ip h. now \<le> u \<and> address_banned c' u ip = Some h \<longrightarrow> bh_id h \<notin> bn_id ` set ?rows)
        \<and> (\<forall>u l i hd h. now \<le> u \<and> person_banned lo c' u l i hd = Some h \<longrightarrow> bh_id h \<notin> bn_id ` set ?rows)"
      using c' bans lifted_with_rows [OF d(2) assms(6)] by blast
    then show ?thesis using False by (simp only: if_False) blast
  qed
qed



subsection \<open>Witnesses\<close>

definition sample_block :: ban where
  "sample_block = \<lparr>bn_id = 1, bn_target = Address (mask_octets (to_ipv6_mapped [192, 0, 2, 0]) 120) 120, bn_reason = ''spam'',
     bn_note = None, bn_actor = ''cli'', bn_actor_fp = None, bn_source = Moderator, bn_created_at = 0, bn_expires_at = Some 100,
     bn_lifted_at = None, bn_lifted_by = None, bn_act = Some 1\<rparr>"

definition sample_store :: mod_store where
  "sample_store = mod_store_new\<lparr>md_bans := [sample_block], md_last_ban := 1\<rparr>"

definition sample_core :: ban_core where
  "sample_core = with_moderation 0 sample_store \<lparr>bc_moderation = None, bc_bans = matcher_empty, bc_ban_ids = 0\<rparr>"

lemma sample_store_ok: "store_ok sample_store" "bc_moderation sample_core = Some sample_store"
    "ids_left 4 sample_core" "sample_block \<in> set (md_bans sample_store)" "md_bans_before_failing sample_store = None"
  by (simp_all add: store_ok_def sample_store_def mod_store_new_def sample_block_def open_rows_def sample_core_def
      with_moderation_def ids_left_def)

lemma sample_run: "ban_run id allow (0, with_moderation 0 sample_store \<lparr>bc_moderation = None, bc_bans = matcher_empty, bc_ban_ids = 0\<rparr>) (0, sample_core)"
  by (simp add: sample_core_def)

lemma sample_served:
  assumes "allow rq" "ids_left (ids_taken rq) sample_core"
  shows "ban_run id allow (0, with_moderation 0 sample_store \<lparr>bc_moderation = None, bc_bans = matcher_empty, bc_ban_ids = 0\<rparr>)
    (6, serve_ban id env 6 rq sample_core)"
  using sample_run served [of allow rq 0 6 sample_core id env] assms by (auto intro: rtranclp.rtrancl_into_rtrancl)

theorem bans_answer_as_store_witness:
  "let c = serve_ban id \<lparr>en_system = None, en_directory = None\<rparr> 6 (RqRotate (replicate 32 7) (replicate 32 8)) sample_core in
    \<exists>s. bc_moderation c = Some s
    \<and> answers_for s (\<lambda>b. covers_address b (V4 [192, 0, 2, 7])) 6 (address_banned c 6 (V4 [192, 0, 2, 7]))
    \<and> answers_for s (\<lambda>b. covers_person id b (Some ''eve'') None None) 6 (person_banned id c 6 (Some ''eve'') None None)"
  unfolding Let_def
  by (rule bans_answer_as_store [OF sample_store_ok(1) sample_served [of "\<lambda>_. True"]])
    (simp_all add: ids_left_mono [OF sample_store_ok(3)] ids_taken_def)

theorem address_ban_exact_witness:
  "matcher_address (matcher_load [sample_block]) (V4 [192, 0, 2, 7]) 6 \<noteq> None
    \<longleftrightarrow> prefix_eq (to_canonical (V4 [192, 0, 2, 7])) (to_canonical (V4 [192, 0, 2, 0])) (ucast (24 :: u8))
      \<and> not_over (bn_expires_at sample_block) 6"
  by (rule address_ban_exact) (simp_all add: ip_wf_def target_address_def to_canonical_def sample_block_def)

theorem lift_is_whole_witness:
  "\<exists>rows c' s'. lift_ban_as 6 operator_acting 1 sample_core
        = (Inr (map (lifted_row (ag_name operator_acting) 6) (sample_block # rows)), c') \<and> bc_moderation c' = Some s'
      \<and> md_bans s' = map (\<lambda>x. if lifted_with 6 sample_block x then lifted_row (ag_name operator_acting) 6 x else x) (md_bans sample_store)"
proof -
  have "bn_lifted_at sample_block = None" "bn_source sample_block \<noteq> Config" "bn_id sample_block = 1" by (simp_all add: sample_block_def)
  with lift_is_whole [OF sample_store_ok(1) sample_run _ sample_store_ok(2) ids_left_mono [OF sample_store_ok(3)] sample_store_ok(4),
      of 6 operator_acting]
  show ?thesis by auto
qed

end
