(* ===== verification/Ban_Lasting.thy ===== *)
theory Ban_Lasting
  imports Ban_Guarantees
begin

section \<open>Bans last\<close>

text \<open>
  A ban that stands is not lost by anything but a lift, and one that is placed refuses whom it names from then on.
  \<open>rows_last\<close> compares two states of the store; \<open>core_last\<close> is the order of an interpretation of \<open>monotone_steps\<close> on runs
  without a lift.
\<close>


subsection \<open>Rows that stand\<close>

definition rows_last :: "systime \<Rightarrow> mod_store \<Rightarrow> mod_store \<Rightarrow> bool" where
  "rows_last u s s' \<longleftrightarrow> (\<forall>b\<in>set (md_bans s). standing b u \<longrightarrow>
     (\<exists>b'\<in>set (md_bans s'). bn_id b' = bn_id b \<and> bn_target b' = bn_target b \<and> standing b' u))"

definition all_created :: "systime \<Rightarrow> mod_store \<Rightarrow> bool" where
  "all_created now s \<longleftrightarrow> (\<forall>b\<in>set (md_bans s). bn_created_at b \<le> now)"

lemma rows_last_trans: "rows_last u s s' \<Longrightarrow> rows_last u s' s'' \<Longrightarrow> rows_last u s s''"
  unfolding rows_last_def by fastforce

lemma rows_last_same: "same_bans s s' \<Longrightarrow> rows_last u s s'" "same_bans s s' \<Longrightarrow> all_created now s' = all_created now s"
  by (auto simp: rows_last_def all_created_def same_bans_def)

lemma edit_first_set: "set (snd (edit_first P f xs)) \<subseteq> set xs \<union> f ` set xs"
  by (induction xs) (auto simp: split_beta)

lemma all_created_new_row: "all_created now s \<Longrightarrow> bn_created_at b \<le> now \<Longrightarrow> all_created now (snd (new_row b s))"
  by (auto simp: all_created_def new_row_def Let_def)

lemma all_created_edit:
  assumes "all_created now s" "\<And>x. bn_created_at (f x) = bn_created_at x"
  shows "all_created now (s\<lparr>md_bans := snd (edit_first P f (md_bans s))\<rparr>)"
  using assms edit_first_set [of P f "md_bans s"] unfolding all_created_def by fastforce

lemma all_created_ban_row:
  assumes "all_created now s" "bn_created_at b \<le> now"
  shows "all_created now (snd (ban_row b s))"
proof (cases "find (open_for (bn_target b)) (md_bans s)")
  case None
  with all_created_new_row [OF assms] show ?thesis by (simp add: ban_row_def)
next
  case (Some old)
  have "all_created now (s\<lparr>md_bans := snd (edit_first (open_for (bn_target b)) (\<lambda>old. extend_ban old b) (md_bans s))\<rparr>)"
    by (rule all_created_edit [OF assms(1)]) (simp add: extend_ban_def)
  moreover have "all_created now (snd (new_row b (s\<lparr>md_bans := snd (edit_first (open_for (bn_target b))
      (\<lambda>old. old\<lparr>bn_lifted_at := bn_expires_at old\<rparr>) (md_bans s))\<rparr>)))"
    by (rule all_created_new_row [OF all_created_edit [OF assms(1)] assms(2)]) simp
  ultimately show ?thesis using Some by (simp add: ban_row_def)
qed

lemma ban_row_lasts:
  assumes ok: "store_ok s" and room: "md_last_ban s \<noteq> - 1" and b: "bn_lifted_at b = None" "bn_created_at b \<le> u"
  shows "rows_last u s (snd (ban_row b s))"
  unfolding rows_last_def
proof (intro ballI impI)
  fix x assume x: "x \<in> set (md_bans s)" "standing x u"
  note e = ban_row_effect [OF ok room b(1)]
  show "\<exists>b'\<in>set (md_bans (snd (ban_row b s))). bn_id b' = bn_id x \<and> bn_target b' = bn_target x \<and> standing b' u"
  proof (cases "bn_target x = bn_target b")
    case False
    with ban_effectD(9) [OF e x(1)] x(2) show ?thesis by blast
  next
    case True
    then have o: "open_for (bn_target b) x" using x(2) by (simp add: open_for_def standing_def)
    then have "find (open_for (bn_target b)) (md_bans s) \<noteq> None" using x(1) by (auto simp: find_None_iff)
    then obtain old where old: "find (open_for (bn_target b)) (md_bans s) = Some old" by blast
    then have "old \<in> set (md_bans s)" "open_for (bn_target b) old" by (auto simp: find_Some_iff)
    then have "old = x" using open_row_by_target [OF ok, of old x] x(1) o by (simp add: open_rows_def open_for_def)
    moreover have "standing x (bn_created_at b)" using standing_antimono [OF x(2) b(2)] .
    ultimately have "fst (ban_row b s) = extend_ban x b" using old by (simp add: ban_row_def)
    with ban_effectD(4) [OF e] x(2) show ?thesis
      by (intro bexI [of _ "extend_ban x b"]) (auto simp: standing_def not_over_extend)
  qed
qed

lemma store_ban_lasts:
  assumes "store_ok s" "md_last_ban s \<noteq> - 1" "bn_lifted_at b = None" "bn_created_at b \<le> now" "all_created now s"
    "store_ban b s = (r, s')"
  shows "\<forall>u\<ge>now. rows_last u s s'" "all_created now s'"
proof -
  have row: "rows_last u s (snd (ban_row b s0))" "all_created now (snd (ban_row b s0))" if "same_bans s s0" "now \<le> u" for s0 u
  proof -
    have "rows_last u s0 (snd (ban_row b s0))"
      using assms(1-4) that store_ok_cong [of s0 s] by (intro ban_row_lasts) (auto simp: same_bans_def)
    then show "rows_last u s (snd (ban_row b s0))" using rows_last_trans [OF rows_last_same(1) [OF that(1)]] by blast
    show "all_created now (snd (ban_row b s0))" using all_created_ban_row [OF _ assms(4)] assms(5) rows_last_same(2) [OF that(1)] by blast
  qed
  have "s' = s \<or> (\<exists>s0. same_bans s s0 \<and> s' = snd (ban_row b s0))"
  proof -
    consider "md_bans_before_failing s = Some 0" | n where "md_bans_before_failing s = Some (Suc n)"
      | "md_bans_before_failing s = None"
      by (metis not0_implies_Suc option.exhaust)
    then show ?thesis
    proof cases
      case 2
      then show ?thesis using assms(6)
        by (intro disjI2 exI [of _ "s\<lparr>md_bans_before_failing := Some n\<rparr>"]) (auto simp: store_ban_def same_bans_def split_beta)
    qed (use assms(6) in \<open>auto simp: store_ban_def same_bans_def split_beta\<close>)
  qed
  moreover have "rows_last u s s" for u by (auto simp: rows_last_def)
  ultimately show "\<forall>u\<ge>now. rows_last u s s'" "all_created now s'"
    using row [OF _ order_refl] row(1) assms(5) by auto
qed


definition core_last :: "systime \<Rightarrow> ban_core \<Rightarrow> ban_core \<Rightarrow> bool" where
  "core_last now c c' \<longleftrightarrow> (\<exists>s s'. bc_moderation c = Some s \<and> bc_moderation c' = Some s' \<and> all_created now s' \<and> (\<forall>u\<ge>now. rows_last u s s'))"

definition created_ok :: "systime \<times> ban_core \<Rightarrow> bool" where
  "created_ok x \<longleftrightarrow> desk_ok x \<and> (\<forall>s. bc_moderation (snd x) = Some s \<longrightarrow> all_created (fst x) s)"

lemma core_last_refl: "created_ok (now, c) \<Longrightarrow> core_last now c c"
  by (auto simp: core_last_def created_ok_def desk_ok_def rows_last_def)

lemma core_last_trans: "core_last now c c' \<Longrightarrow> core_last now c' c'' \<Longrightarrow> core_last now c c''"
  unfolding core_last_def by (metis option.inject rows_last_trans)

lemma core_last_created: "core_last now c c' \<Longrightarrow> desk_ok (now, c') \<Longrightarrow> created_ok (now, c')"
  by (auto simp: core_last_def created_ok_def)

lemma core_last_ban:
  assumes ok: "created_ok (now, c)" and s: "bc_moderation c = Some s" and left: "ids_left (Suc n) c"
    and b: "bn_lifted_at b = None" "bn_created_at b \<le> now" and r: "store_ban b s = (r, s')"
  shows "core_last now c (c\<lparr>bc_moderation := Some s', bc_bans := m\<rparr>)"
proof -
  have "store_ok s" "all_created now s" using ok s by (auto simp: created_ok_def desk_ok_def)
  moreover have "md_last_ban s \<noteq> - 1" using left s room_not_max by (auto simp: ids_left_def)
  ultimately show ?thesis using store_ban_lasts [OF _ _ b _ r] s by (simp add: core_last_def)
qed

lemma core_last_place_rows:
  assumes row: "\<And>t. bn_lifted_at (row t) = None" "\<And>t. bn_created_at (row t) \<le> now"
  shows "created_ok (now, c) \<Longrightarrow> ids_left (length ts) c \<Longrightarrow> core_last now c (snd (place_rows row ts placed c))"
proof (induction ts arbitrary: placed c)
  case (Cons t ts)
  have ok: "desk_ok (now, c)" using Cons.prems(1) by (simp add: created_ok_def)
  obtain s where s: "bc_moderation c = Some s" using ok by (rule desk_okE)
  obtain r s' where r: "store_ban (row t) s = (r, s')" by fastforce
  have left: "ids_left (Suc (length ts)) c" using Cons.prems(2) by simp
  note last = core_last_ban [OF Cons.prems(1) s left row r]
  show ?case
  proof (cases r)
    case (Inl e)
    with s r last [of "bc_bans c"] show ?thesis by simp
  next
    case (Inr b)
    with r have r': "store_ban (row t) s = (Inr b, s')" by simp
    let ?c = "c\<lparr>bc_moderation := Some s', bc_bans := matcher_insert b (bc_bans c)\<rparr>"
    note d = desk_ban(1,2) [OF ok s left row(1) r']
    have "core_last now ?c (snd (place_rows row ts (placed @ [b]) ?c))"
      using Cons.IH [OF core_last_created [OF last d(1)] d(2)] .
    with core_last_trans [OF last this] s r' show ?thesis by simp
  qed
qed (simp add: core_last_refl)

lemma core_last_rotate_rows:
  "created_ok (now, c) \<Longrightarrow> ids_left (length bs) c \<Longrightarrow> \<forall>b\<in>set bs. bn_lifted_at b = None \<and> bn_created_at b \<le> now \<Longrightarrow>
   core_last now c (snd (rotate_rows to bs placed c))"
proof (induction bs arbitrary: placed c)
  case (Cons b bs)
  let ?b = "b\<lparr>bn_target := Identity to\<rparr>"
  have ok: "desk_ok (now, c)" using Cons.prems(1) by (simp add: created_ok_def)
  obtain s where s: "bc_moderation c = Some s" using ok by (rule desk_okE)
  obtain r s' where r: "store_ban ?b s = (r, s')" by fastforce
  have left: "ids_left (Suc (length bs)) c" and b: "bn_lifted_at ?b = None" "bn_created_at ?b \<le> now" using Cons.prems(2,3) by simp_all
  note last = core_last_ban [OF Cons.prems(1) s left b r]
  show ?case
  proof (cases r)
    case (Inl e)
    with s r last [of "bc_bans c"] show ?thesis by simp
  next
    case (Inr x)
    with r have r': "store_ban ?b s = (Inr x, s')" by simp
    let ?c = "c\<lparr>bc_moderation := Some s', bc_bans := matcher_insert x (bc_bans c)\<rparr>"
    note d = desk_ban(1,2) [OF ok s left b(1) r']
    have "core_last now ?c (snd (rotate_rows to bs (placed @ [x]) ?c))"
      using Cons.IH [OF core_last_created [OF last d(1)] d(2)] Cons.prems(3) by simp
    with core_last_trans [OF last this] s r' show ?thesis by simp
  qed
qed (simp add: core_last_refl)

lemma core_last_same:
  "created_ok (now, c) \<Longrightarrow> bc_moderation c = Some s \<Longrightarrow> bc_moderation c' = Some s' \<Longrightarrow> same_bans s s' \<Longrightarrow> core_last now c c'"
  using rows_last_same by (auto simp: core_last_def created_ok_def)

lemma core_last_place:
  assumes ok: "created_ok (now, c)" and left: "ids_left (2 * Suc (length also_on)) c"
  shows "core_last now c (snd (place_bans_act lo env now a b also_on c))"
proof (cases "gather lo env a (nn_target b # also_on) []")
  case (Inl e)
  with core_last_refl [OF ok] show ?thesis by (simp add: place_bans_act_def)
next
  case (Inr targets)
  obtain s where s: "bc_moderation c = Some s" using ok by (auto simp: created_ok_def desk_ok_def)
  let ?act = "ban_act a b targets now"
  let ?c = "c\<lparr>bc_moderation := Some (snd (record_act ?act s))\<rparr>"
  have r: "\<exists>r. record_in ?act c = (r, ?c)"
    using s by (cases "record_act ?act s"; cases "fst (record_act ?act s)") (auto simp: record_in_def)
  then obtain r where r: "record_in ?act c = (r, ?c)" by blast
  have last: "core_last now c ?c" using core_last_same [OF ok s _ same_bans_writes(1)] by simp
  have "desk_ok (now, ?c)" "ids_left (length targets) ?c"
    using record_in_same [OF _ r] ok left gather_length [OF Inr] ids_left_mono [of "2 * Suc (length also_on)"]
    by (auto simp: created_ok_def)
  then have "core_last now ?c (snd (place_rows (row_of a b now act_id) targets [] ?c))" for act_id
    using core_last_place_rows [OF _ _ core_last_created [OF last]] by (simp add: row_of_def)
  then have rows: "core_last now c (snd (place_rows (row_of a b now act_id) targets [] ?c))" for act_id
    using core_last_trans [OF last] by blast
  show ?thesis
    using core_last_refl [OF ok] last rows Inr r
    by (cases r) (auto simp: place_bans_act_def split: sum.split prod.split, (metis snd_conv)+)
qed


lemma core_last_kick:
  assumes ok: "created_ok (now, c)" and left: "ids_left (2 * length targets) c"
  shows "core_last now c (snd (place_kick_ban lo env r now targets by expires reason c))"
  using kick_is_place [of lo env r now targets "by" expires reason c] core_last_refl [OF ok] core_last_place [OF ok ids_left_mono [OF left]]
  by auto

lemma core_last_rotate:
  assumes ok: "created_ok (now, c)" and left: "ids_left 1 c"
  shows "core_last now c (snd (rotate_bans now f t c))"
proof -
  obtain s where s: "bc_moderation c = Some s" "store_ok s" "all_created now s"
    using ok by (auto simp: created_ok_def desk_ok_def)
  let ?rows = "filter (\<lambda>b. bn_target b = Identity f) (standing_rows now s)"
  have "core_last now c (snd (rotate_rows t ?rows [] c))"
    using core_last_rotate_rows [OF ok ids_left_mono [OF left one_row [OF s(2)]]] s(3)
    by (auto simp: set_standing_rows standing_def all_created_def)
  with s show ?thesis by (auto simp: rotate_bans_def store_bans_all split: prod.split sum.split)
qed

lemma core_last_reload: "created_ok (now, c) \<Longrightarrow> core_last now c (snd (reload_bans now c))"
  using core_last_same [of now c _ "snd (reload_bans now c)"]
  by (auto simp: created_ok_def desk_ok_def reload_bans_def Let_def same_bans_def)

lemma prune_lasts: "before \<le> u \<Longrightarrow> rows_last u s (snd (prune_bans before s))" "all_created now s \<Longrightarrow> all_created now (snd (prune_bans before s))"
  by (auto simp: rows_last_def all_created_def prune_bans_def Let_def standing_def not_over_def not_before_def split: option.splits)

lemma core_last_sweep:
  assumes ok: "created_ok (now, c)"
  shows "core_last now c (snd (prune_moderation ed rd now c))"
proof -
  obtain s where s: "bc_moderation c = Some s" "all_created now s" using ok by (auto simp: created_ok_def desk_ok_def)
  define s2 where "s2 = (let s1 = (if ed = 0 then s else snd (scrub_evidence (now - days ed) s)) in
    if rd = 0 then s1 else snd (prune_reports (now - days rd) s1))"
  define s3 where "s3 = (if rd = 0 then s2 else snd (prune_bans (now - days rd) s2))"
  have same: "same_bans s s2" using same_bans_writes(9,10) by (simp add: s2_def Let_def same_bans_def)
  have le: "now - days rd \<le> now" by (simp add: days_def)
  have "rows_last u s2 s3" if "now \<le> u" for u
    using prune_lasts(1) [OF order_trans [OF le that], of s2] by (auto simp: s3_def rows_last_def)
  then have "\<forall>u\<ge>now. rows_last u s s3" using rows_last_trans [OF rows_last_same(1) [OF same]] by blast
  moreover have "all_created now s3" using prune_lasts(2) rows_last_same(2) [OF same] s(2) by (simp add: s3_def)
  moreover have "bc_moderation (snd (prune_moderation ed rd now c)) = Some s3"
    by (simp add: prune_moderation_def s(1) s2_def s3_def Let_def split_beta)
  ultimately show ?thesis using s(1) by (simp add: core_last_def)
qed

lemma core_last_on_store:
  assumes "created_ok (now, c)" "\<And>s. same_bans s (f s)"
  shows "core_last now c (on_store f c)"
proof -
  obtain s where "bc_moderation c = Some s" using assms(1) by (auto simp: created_ok_def desk_ok_def)
  then show ?thesis using core_last_same [OF assms(1) _ _ assms(2)] by (simp add: on_store_def)
qed

definition lifts :: "ban_request \<Rightarrow> bool" where
  "lifts rq = (case rq of RqLift _ _ \<Rightarrow> True | RqPeerUnban _ _ \<Rightarrow> True | _ \<Rightarrow> False)"

lemma core_last_serve:
  assumes ok: "created_ok (now, c)" and left: "ids_left (ids_taken rq) c" and rq: "\<not> lifts rq"
  shows "core_last now c (serve_ban lo env now rq c)"
  using assms
  by (cases rq) (auto simp: serve_ban_def ids_taken_def lifts_def same_bans_writes
      intro: core_last_place core_last_kick core_last_rotate core_last_reload core_last_sweep core_last_on_store)

definition lasting :: "systime \<times> ban_core \<Rightarrow> systime \<times> ban_core \<Rightarrow> bool" where
  "lasting x y \<longleftrightarrow> fst x \<le> fst y \<and> (\<forall>s. bc_moderation (snd x) = Some s \<longrightarrow>
     (\<exists>s'. bc_moderation (snd y) = Some s' \<and> (\<forall>u\<ge>fst y. rows_last u s s')))"

lemma created_ok_later: "created_ok (before, c) \<Longrightarrow> before \<le> now \<Longrightarrow> created_ok (now, c)"
  unfolding created_ok_def all_created_def using desk_ok_later by fastforce

interpretation keeps: monotone_steps "ban_step lo (\<lambda>rq. \<not> lifts rq)" created_ok lasting for lo
proof unfold_locales
  show "lasting x x" for x by (auto simp: lasting_def rows_last_def)
  show "lasting x y \<Longrightarrow> lasting y z \<Longrightarrow> lasting x z" for x y z
    unfolding lasting_def by (meson order_trans rows_last_trans)
  have serve: "created_ok y \<and> lasting x y" if "ban_step lo (\<lambda>rq. \<not> lifts rq) x y" "created_ok x" for x y
    using that
  proof (elim ban_stepE)
    fix rq before now c env
    assume xy: "x = (before, c)" "y = (now, serve_ban lo env now rq c)"
      and a: "\<not> lifts rq" "before \<le> now" "ids_left (ids_taken rq) c"
    have ok: "created_ok (now, c)" using created_ok_later that(2) a(2) xy(1) by blast
    have last: "core_last now c (serve_ban lo env now rq c)" by (rule core_last_serve [OF ok a(3,1)])
    have "desk_ok (now, serve_ban lo env now rq c)" using desk_serve ok a(3) by (simp add: created_ok_def)
    with last xy a(2) show "created_ok y \<and> lasting x y"
      using core_last_created by (auto simp: lasting_def core_last_def)
  qed
  show "ban_step lo (\<lambda>rq. \<not> lifts rq) x y \<Longrightarrow> created_ok x \<Longrightarrow> created_ok y"
    and "ban_step lo (\<lambda>rq. \<not> lifts rq) x y \<Longrightarrow> created_ok x \<Longrightarrow> lasting x y" for x y
    using serve by blast+
qed


text \<open>C15: While nobody lifts, no request loses a ban: not another ban of the same target, a kick, a reload, a rotated key, a
  sweep or a store that fails. A row that stands at a time still to come keeps its number and target and stands then.\<close>

theorem bans_last:
  assumes "store_ok s0" "all_created t0 s0" "ban_run lo (\<lambda>rq. \<not> lifts rq) (t0, with_moderation t0 s0 c0) (t, c)"
  shows "\<exists>s. bc_moderation c = Some s \<and> (\<forall>u\<ge>t. rows_last u s0 s)"
proof -
  let ?x = "(t0, with_moderation t0 s0 c0)"
  have "created_ok ?x"
    using desk_start [OF assms(1)] assms(2) by (simp add: created_ok_def with_moderation_def)
  from keeps.run_le [OF assms(3) this] show ?thesis
    by (auto simp: lasting_def with_moderation_def)
qed


subsection \<open>What is placed refuses\<close>

lemma set_add_target: "set (add_target t ts) = insert t (set ts)" "distinct (add_target t ts) = distinct ts"
  by (auto simp: add_target_def)

lemma gather_targets:
  "gather lo env a ts acc = Inr targets \<Longrightarrow> distinct acc \<Longrightarrow>
   distinct targets \<and> set targets = set acc \<union> set ts \<union> {w. \<exists>t\<in>set ts. vet_target lo env a t = Inr (Some w)}"
proof (induction ts arbitrary: acc)
  case (Cons t ts)
  then obtain twin where v: "vet_target lo env a t = Inr twin"
    and g: "gather lo env a ts (fold add_target (t # (case twin of Some w \<Rightarrow> [w] | None \<Rightarrow> [])) acc) = Inr targets"
    by (auto simp: bindR_Inr_iff)
  have "distinct (fold add_target (t # (case twin of Some w \<Rightarrow> [w] | None \<Rightarrow> [])) acc)"
    using Cons.prems(2) by (simp add: set_add_target split: option.split)
  from Cons.IH [OF g this] v show ?case by (cases twin) (auto simp: set_add_target)
qed auto

lemma gather_vetted:
  "\<forall>t\<in>set ts. \<exists>w. vet_target lo env a t = Inr w \<Longrightarrow> \<exists>targets. gather lo env a ts acc = Inr targets"
proof (induction ts arbitrary: acc)
  case (Cons t ts)
  then obtain w where "vet_target lo env a t = Inr w" by auto
  with Cons show ?case by simp
qed simp

lemma ban_row_failing: "md_bans_before_failing (snd (ban_row b s)) = md_bans_before_failing s"
  by (simp add: ban_row_def new_row_def Let_def split: option.split)

lemma store_ban_works:
  "md_bans_before_failing s = None \<Longrightarrow> \<exists>row s'. store_ban b s = (Inr row, s') \<and> md_bans_before_failing s' = None"
  using ban_row_failing [of b s] by (cases "ban_row b s") (simp add: store_ban_def)

text \<open>The loop over distinct targets, with a store that does not fail: a row that stands as long as asked, for each.\<close>

lemma place_rows_all:
  assumes row: "\<And>t. bn_lifted_at (row t) = None" "\<And>t. bn_target (row t) = t"
  shows "desk_ok (now, c) \<Longrightarrow> ids_left (length ts) c \<Longrightarrow> distinct ts \<Longrightarrow> bc_moderation c = Some s \<Longrightarrow>
    md_bans_before_failing s = None \<Longrightarrow>
    \<exists>rows c' s'. place_rows row ts placed c = (Inr (placed @ rows), c') \<and> map bn_target rows = ts \<and> bc_moderation c' = Some s'
      \<and> (\<forall>x\<in>set (md_bans s). bn_target x \<notin> set ts \<longrightarrow> x \<in> set (md_bans s'))
      \<and> (\<forall>t\<in>set ts. \<exists>x\<in>set (md_bans s'). bn_target x = t \<and> bn_lifted_at x = None
           \<and> (\<forall>u. not_over (bn_expires_at (row t)) u \<longrightarrow> not_over (bn_expires_at x) u))"
proof (induction ts arbitrary: placed c s)
  case (Cons t ts)
  obtain b s1 where r: "store_ban (row t) s = (Inr b, s1)" and f: "md_bans_before_failing s1 = None"
    using store_ban_works [OF Cons.prems(5)] by blast
  have left: "ids_left (Suc (length ts)) c" using Cons.prems(2) by simp
  let ?c = "c\<lparr>bc_moderation := Some s1, bc_bans := matcher_insert b (bc_bans c)\<rparr>"
  note d = desk_ban [OF Cons.prems(1,4) left row(1) r]
  note e = ban_effectD [OF d(3), unfolded row(2)]
  obtain rows c' s' where IH: "place_rows row ts (placed @ [b]) ?c = (Inr ((placed @ [b]) @ rows), c')" "map bn_target rows = ts"
      "bc_moderation c' = Some s'" "\<forall>x\<in>set (md_bans s1). bn_target x \<notin> set ts \<longrightarrow> x \<in> set (md_bans s')"
      "\<forall>t\<in>set ts. \<exists>x\<in>set (md_bans s'). bn_target x = t \<and> bn_lifted_at x = None
           \<and> (\<forall>u. not_over (bn_expires_at (row t)) u \<longrightarrow> not_over (bn_expires_at x) u)"
    using Cons.IH [OF d(1,2), of s1 "placed @ [b]"] Cons.prems(3) f by auto
  have "place_rows row (t # ts) placed c = (Inr (placed @ (b # rows)), c')" using IH(1) Cons.prems(4) r by simp
  moreover have "map bn_target (b # rows) = t # ts" using IH(2) e(5) by simp
  moreover have "x \<in> set (md_bans s')" if "x \<in> set (md_bans s)" "bn_target x \<notin> set (t # ts)" for x
    using e(9) [OF that(1)] that(2) IH(4) by simp
  moreover have "b \<in> set (md_bans s')" using e(4,5) IH(4) Cons.prems(3) by simp
  ultimately show ?case using IH(3,5) e(5,6,7) by (intro exI [of _ "b # rows"] exI [of _ c'] exI [of _ s']) auto
qed simp

lemma answers_refuse: "answers_for s covers u r \<Longrightarrow> x \<in> set (md_bans s) \<Longrightarrow> standing x u \<Longrightarrow> covers (bn_target x) \<Longrightarrow> r \<noteq> None"
  by (cases r) (auto simp: answers_for_def)

lemma row_refuses:
  assumes ok: "desk_ok (now, c)" and s: "bc_moderation c = Some s" and "now \<le> u" and x: "x \<in> set (md_bans s)" "standing x u"
  shows "covers_address (bn_target x) ip \<Longrightarrow> address_banned c u ip \<noteq> None"
    and "covers_person lo (bn_target x) login identity handle \<Longrightarrow> person_banned lo c u login identity handle \<noteq> None"
  using answers_refuse [OF desk_answers(1) [OF ok assms(3) s] x] answers_refuse [OF desk_answers(2) [OF ok assms(3) s] x] by auto

lemma record_ban_act:
  assumes "bc_moderation c = Some s"
  obtains i s1 where "record_in (ban_act a b targets now) c = (Inr (Some i), c\<lparr>bc_moderation := Some s1\<rparr>)" "same_bans s s1"
    "md_bans_before_failing s1 = md_bans_before_failing s"
proof -
  have "ac_kind (ban_act a b targets now) = BanAct" by (simp add: ban_act_def act_new_def)
  then show thesis
    using assms by (intro that [of "word_of_nat (length (md_acts s)) + 1"
          "s\<lparr>md_acts := md_acts s @ [(ban_act a b targets now)\<lparr>ac_id := word_of_nat (length (md_acts s)) + 1\<rparr>]\<rparr>"])
      (simp_all add: record_in_def record_act_def Let_def same_bans_def)
qed

text \<open>C13: A ban with a reason, on targets that may be banned, is placed in one act when the store does not fail: on each
  target and on the identity the account of a login links. From then until it runs out whoever any of these covers is
  refused.\<close>

theorem placed_ban_refuses:
  assumes run: "store_ok s0" "ban_run lo (\<lambda>_. True) (t0, with_moderation t0 s0 c0) (t, c)" "t \<le> now"
    and s: "bc_moderation c = Some s" "md_bans_before_failing s = None" and left: "ids_left (2 * Suc (length also_on)) c"
    and reason: "trim_chars (str_chars (nn_reason b)) \<noteq> []"
    and vetted: "\<forall>x\<in>set (nn_target b # also_on). \<exists>w. vet_target lo env a x = Inr w"
  shows "\<exists>i rows ends c'. place_bans_act lo env now a b also_on c = (Inr (Some i, rows, ends), c')
    \<and> bn_target ` set rows = set (nn_target b # also_on) \<union> {w. \<exists>x\<in>set (nn_target b # also_on). vet_target lo env a x = Inr (Some w)}
    \<and> (\<forall>u x. now \<le> u \<and> not_over (nn_expires_at b) u \<and> x \<in> bn_target ` set rows \<longrightarrow>
         (\<forall>ip. covers_address x ip \<longrightarrow> address_banned c' u ip \<noteq> None)
         \<and> (\<forall>l f h. covers_person lo x l f h \<longrightarrow> person_banned lo c' u l f h \<noteq> None))"
proof -
  obtain targets where g: "gather lo env a (nn_target b # also_on) [] = Inr targets"
    using gather_vetted [OF vetted] by blast
  note t = gather_targets [OF g]
  obtain i s1 where r: "record_in (ban_act a b targets now) c = (Inr (Some i), c\<lparr>bc_moderation := Some s1\<rparr>)"
      "same_bans s s1" "md_bans_before_failing s1 = None"
    by (rule record_ban_act [OF s(1), of a b targets now]) (use s(2) in simp)
  have ok: "desk_ok (now, c)" using run_desk [OF run(1,2)] desk_ok_later [OF _ run(3)] by metis
  let ?c1 = "c\<lparr>bc_moderation := Some s1\<rparr>"
  have ok1: "desk_ok (now, ?c1)" "ids_left (length targets) ?c1"
    using record_in_same [OF ok r(1)] left gather_length [OF g] ids_left_mono [of "2 * Suc (length also_on)"] by auto
  obtain rows c' s' where p: "place_rows (row_of a b now (Some i)) targets [] ?c1 = (Inr rows, c')" "map bn_target rows = targets"
      "bc_moderation c' = Some s'"
      "\<forall>t\<in>set targets. \<exists>x\<in>set (md_bans s'). bn_target x = t \<and> bn_lifted_at x = None
         \<and> (\<forall>u. not_over (nn_expires_at b) u \<longrightarrow> not_over (bn_expires_at x) u)"
    using place_rows_all [OF _ _ ok1, of "row_of a b now (Some i)" s1 "[]"] t r(3) by (auto simp: row_of_def)
  have "desk_ok (now, c')"
    using desk_place_rows [OF _ ok1, of "row_of a b now (Some i)" "[]"] p(1) by (simp add: row_of_def)
  note refuses = row_refuses [OF this p(3)]
  have covered: "(covers_address x ip \<longrightarrow> address_banned c' u ip \<noteq> None) \<and> (covers_person lo x l f h \<longrightarrow> person_banned lo c' u l f h \<noteq> None)"
    if u: "now \<le> u" "not_over (nn_expires_at b) u" and x: "x \<in> set targets" for u x ip l f h
  proof -
    obtain y where y: "y \<in> set (md_bans s')" "bn_target y = x" "standing y u"
      using p(4) x u(2) unfolding standing_def by blast
    show ?thesis using refuses [OF u(1) y(1,3)] unfolding y(2) by blast
  qed
  have rows: "bn_target ` set rows = set targets" using arg_cong [OF p(2), of set] by simp
  have "set targets = set (nn_target b # also_on) \<union> {w. \<exists>x\<in>set (nn_target b # also_on). vet_target lo env a x = Inr (Some w)}"
    using t by simp
  moreover have "place_bans_act lo env now a b also_on c
      = (Inr (Some i, rows, if nn_source b \<noteq> Kick then map bn_target rows else []), c')"
    using reason g r(1) p(1) by (simp add: place_bans_act_def)
  moreover have "\<forall>u x. now \<le> u \<and> not_over (nn_expires_at b) u \<and> x \<in> bn_target ` set rows \<longrightarrow>
         (\<forall>ip. covers_address x ip \<longrightarrow> address_banned c' u ip \<noteq> None)
         \<and> (\<forall>l f h. covers_person lo x l f h \<longrightarrow> person_banned lo c' u l f h \<noteq> None)"
    unfolding rows using covered by blast
  ultimately show ?thesis using rows by blast
qed



subsection \<open>Targets are canonical\<close>

text \<open>What \<open>str::to_lowercase\<close> promises: its result is a string, lowering that again changes nothing, and where the argument
  neither begins nor ends with whitespace nor does the result.\<close>

definition lower_ok :: "(string \<Rightarrow> string) \<Rightarrow> bool" where
  "lower_ok lo \<longleftrightarrow> (\<forall>s. str_valid s \<longrightarrow> str_valid (lo s) \<and> lo (lo s) = lo s \<and> (str_trim s = s \<longrightarrow> str_trim (lo s) = lo s))"

text \<open>Canonical form: an address has the bits past its prefix clear; a login is not empty, lowercase and trimmed; a registrar is
  not empty, in ASCII and lowercase, does not begin with whitespace or end with a dot, and holds no \<open>@\<close>, slash or space.\<close>

definition target_typed :: "(string \<Rightarrow> string) \<Rightarrow> ban_target \<Rightarrow> bool" where
  "target_typed lo t =
     (case t of
        Address net plen \<Rightarrow> length net = 16 \<and> plen \<le> 128 \<and> mask_octets net plen = net
      | Login l \<Rightarrow> l \<noteq> [] \<and> str_valid l \<and> lo l = l \<and> str_trim l = l
      | Identity f \<Rightarrow> length f = 32
      | Registrar h \<Rightarrow> h \<noteq> [] \<and> str_ascii h \<and> to_ascii_lowercase h = h \<and> \<not> char_is_whitespace (of_char (hd h))
          \<and> last h \<noteq> CHR ''.'' \<and> set h \<inter> {CHR ''@'', CHR ''/'', CHR '' ''} = {})"

lemma mask_byte_idem: "mask_byte n k (mask_byte n k x) = mask_byte n k x"
  by (simp add: mask_byte_def and.assoc)

lemma mask_octets_idem: "mask_octets (mask_octets a p) p = mask_octets a p"
  by (simp add: list_eq_iff_nth_eq nth_mask_octets mask_byte_idem)

lemma ascii_upper_code:
  "is_ascii_upper c \<Longrightarrow> 65 \<le> (of_char c :: nat) \<and> (of_char c :: nat) \<le> 90 \<and> of_char (ascii_lower c) = (of_char c + 32 :: nat)"
proof -
  assume upper: "is_ascii_upper c"
  then have "65 \<le> (of_char c :: nat)" "(of_char c :: nat) \<le> 90" by (simp_all add: is_ascii_upper_def less_eq_char_def)
  moreover from this have "of_char (char_of (of_char c + 32 :: nat)) = (of_char c + 32 :: nat)" by simp
  ultimately show ?thesis using upper by (simp add: ascii_lower_def)
qed

lemma ascii_lower_not_upper: "\<not> is_ascii_upper (ascii_lower c)"
proof (cases "is_ascii_upper c")
  case True
  then show ?thesis using ascii_upper_code [OF True] by (simp add: is_ascii_upper_def [of "ascii_lower c"] less_eq_char_def)
qed (simp add: ascii_lower_def)

lemma to_ascii_lowercase_idem: "to_ascii_lowercase (to_ascii_lowercase s) = to_ascii_lowercase s"
  using ascii_lower_not_upper by (simp add: to_ascii_lowercase_def ascii_lower_def [of "ascii_lower _"])

lemma target_address_typed: "ip_wf ip \<Longrightarrow> target_address ip p = Inr t \<Longrightarrow> target_typed lo t"
proof -
  assume "ip_wf ip" and t: "target_address ip p = Inr t"
  then show ?thesis
  proof (cases rule: canonical_cases)
    case (v4 a)
    then have p: "p \<le> 32" and "t = Address (mask_octets (mapped_head @ a) (p + 96)) (p + 96)"
      using t by (simp_all add: target_address_def to_ipv6_mapped_def not_less split: if_splits)
    moreover have "p + 96 \<le> 128" using p unat_u8_small [OF p] by (simp add: word_le_nat_alt)
    ultimately show ?thesis using v4(2) by (simp add: target_typed_def mask_octets_idem)
  next
    case (v6 a)
    then have "p \<le> 128" "t = Address (mask_octets a p) p"
      using t by (simp_all add: target_address_def not_less split: if_splits)
    then show ?thesis using v6(2) by (simp add: target_typed_def mask_octets_idem)
  qed
qed

lemma typed_row: "target_typed lo t \<Longrightarrow> from_row (kind_i64 t) (fst (to_row t)) (snd (to_row t)) = Some t"
  using str_ascii_valid by (cases t) (auto simp: target_typed_def from_row_def kind_i64_def to_row_def str_valid_def)

lemma target_login_typed: "lower_ok lo \<Longrightarrow> target_login lo l = Inr t \<Longrightarrow> target_typed lo t"
  using str_trim_chars(2) [of l] str_trim_idem [of l]
  by (auto simp: target_login_def target_typed_def lower_ok_def Let_def split: if_splits)

lemma ascii_lower_id: "\<not> is_ascii_upper c \<Longrightarrow> ascii_lower c = c"
  by (simp add: ascii_lower_def)

lemma ascii_lower_keeps:
  "char_is_whitespace (of_char (ascii_lower c)) \<longleftrightarrow> char_is_whitespace (of_char c)"
  "(of_char (ascii_lower c) :: nat) < 128 \<longleftrightarrow> (of_char c :: nat) < 128"
  "(of_char (ascii_lower c) :: nat) = 46 \<longleftrightarrow> (of_char c :: nat) = 46"
  using ascii_upper_code [of c] ascii_lower_id [of c] by (cases "is_ascii_upper c"; simp add: char_is_whitespace_def)+

lemma ascii_lower_dot: "ascii_lower c = CHR ''.'' \<longleftrightarrow> c = CHR ''.''"
  using ascii_lower_keeps(3) [of c] of_char_eq_iff [of _ "CHR ''.''", where 'a = nat] by simp

text \<open>What begins a trimmed string is no whitespace, where it is ASCII.\<close>

lemma str_trim_hd:
  assumes "str_trim s \<noteq> []" "(of_char (hd (str_trim s)) :: nat) < 128"
  shows "\<not> char_is_whitespace (of_char (hd (str_trim s)))"
proof -
  obtain c cs where cs: "trim_chars (str_chars s) = c # cs"
    using assms(1) by (cases "trim_chars (str_chars s)") (simp_all add: str_trim_def chars_str_def)
  have c: "str_scalar c" using str_chars_scalar [of s] trim_chars_set [of "str_chars s"] cs by auto
  obtain b bs where b: "utf8_encode c = b # bs" by (cases "utf8_encode c") simp_all
  then have hd: "of_char (hd (str_trim s)) = b" using c by (simp add: str_trim_def cs chars_str_def str_scalar_def)
  then have "b = c" using assms(2) b by (auto simp: utf8_encode_def split: if_splits)
  then show ?thesis using trim_chars_ends(1) [of "str_chars s"] cs hd by simp
qed

lemma trim_dots_ends:
  assumes "trim_dots s \<noteq> []"
  shows "last (trim_dots s) \<noteq> CHR ''.''" "s \<noteq> []" "hd (trim_dots s) = hd s"
proof -
  let ?z = "dropWhile (\<lambda>c. c = CHR ''.'') (rev s)"
  have z: "?z \<noteq> []" using assms by (simp add: trim_dots_def)
  then show "last (trim_dots s) \<noteq> CHR ''.''" using hd_dropWhile [OF z] by (simp add: trim_dots_def last_rev)
  obtain ws where "rev s = ws @ ?z" by (metis takeWhile_dropWhile_id)
  then have s: "s = trim_dots s @ rev ws" unfolding trim_dots_def by (metis rev_append rev_rev_ident)
  then show "s \<noteq> []" "hd (trim_dots s) = hd s" using assms by (metis append_is_Nil_conv, metis hd_append)
qed

lemma target_registrar_typed: "target_registrar h = Inr t \<Longrightarrow> target_typed lo t"
proof -
  assume "target_registrar h = Inr t"
  then have t: "t = Registrar (to_ascii_lowercase (trim_dots (str_trim h)))" "trim_dots (str_trim h) \<noteq> []"
    "str_ascii (to_ascii_lowercase (trim_dots (str_trim h)))"
    "set (to_ascii_lowercase (trim_dots (str_trim h))) \<inter> {CHR ''@'', CHR ''/'', CHR '' ''} = {}"
    by (auto simp: target_registrar_def Let_def to_ascii_lowercase_def split: if_splits)
  note ends = trim_dots_ends [OF t(2)]
  have hd: "hd (to_ascii_lowercase (trim_dots (str_trim h))) = ascii_lower (hd (str_trim h))"
    using t(2) ends(3) by (simp add: to_ascii_lowercase_def hd_map)
  have "hd (to_ascii_lowercase (trim_dots (str_trim h))) \<in> set (to_ascii_lowercase (trim_dots (str_trim h)))"
    using t(2) by (intro hd_in_set) (simp add: to_ascii_lowercase_def)
  then have "(of_char (hd (str_trim h)) :: nat) < 128"
    using t(3) unfolding hd str_ascii_def by (metis ascii_lower_keeps(2))
  then have "\<not> char_is_whitespace (of_char (hd (str_trim h)))" by (rule str_trim_hd [OF ends(2)])
  then have "\<not> char_is_whitespace (of_char (hd (to_ascii_lowercase (trim_dots (str_trim h)))))"
    unfolding hd ascii_lower_keeps(1) .
  moreover have "last (to_ascii_lowercase (trim_dots (str_trim h))) \<noteq> CHR ''.''"
    using ends(1) t(2) by (simp add: to_ascii_lowercase_def last_map ascii_lower_dot)
  ultimately show ?thesis
    using t(2-4) by (simp add: t(1) target_typed_def to_ascii_lowercase_idem) (simp add: to_ascii_lowercase_def)
qed

text \<open>Whitespace other than a space is not looked for inside a host: a tab before the trailing dot stays, though a second
  reading would trim it.\<close>

lemma registrar_keeps_tab:
  "target_registrar [CHR ''a'', CHR 0x09, CHR ''.''] = Inr (Registrar [CHR ''a'', CHR 0x09])"
  "target_registrar [CHR ''a'', CHR 0x09] = Inr (Registrar [CHR ''a''])"
  by code_simp+

text \<open>C35: Every target made of an address and a prefix length, of a login or of a registrar's host is in canonical form: the
  address masked and in the bounds of its family, the login trimmed, lowercase and not empty, the host in ASCII, lowercase, with no
  leading whitespace, no trailing dot and no \<open>@\<close>, slash or space.  A row of the database written from it reads back as it.\<close>

theorem targets_typed:
  assumes "lower_ok lo" "ip_wf ip"
    and "target_address ip p = Inr t \<or> target_login lo l = Inr t \<or> target_registrar h = Inr t"
  shows "target_typed lo t \<and> from_row (kind_i64 t) (fst (to_row t)) (snd (to_row t)) = Some t"
proof -
  have "target_typed lo t"
    using assms(3) target_address_typed [OF assms(2)] target_login_typed [OF assms(1)] target_registrar_typed by blast
  then show ?thesis using typed_row by blast
qed


subsection \<open>Witnesses\<close>

definition sample_env :: ban_env where
  "sample_env = \<lparr>en_system = Some ''system'', en_directory = Some (\<lambda>l. if l = ''eve'' then Some (mailbox_identified l (replicate 32 7), access_empty) else None)\<rparr>"

definition sample_new :: new_ban where
  "sample_new = \<lparr>nn_target = Login ''eve'', nn_reason = ''spam'', nn_note = None, nn_expires_at = Some 100, nn_source = Moderator\<rparr>"

lemma sample_created: "all_created 0 sample_store"
  by (simp add: all_created_def sample_store_def sample_block_def)

theorem bans_last_witness:
  "\<exists>s. bc_moderation (serve_ban id sample_env 6 (RqPlace operator_acting sample_new []) sample_core) = Some s
    \<and> (\<forall>u\<ge>6. rows_last u sample_store s)"
  by (rule bans_last [OF sample_store_ok(1) sample_created sample_served])
    (simp_all add: ids_left_mono [OF sample_store_ok(3)] ids_taken_def lifts_def)

theorem placed_ban_refuses_witness:
  "\<exists>i rows ends c'. place_bans_act id sample_env 6 operator_acting sample_new [] sample_core = (Inr (Some i, rows, ends), c')
    \<and> person_banned id c' 7 (Some ''eve'') None None \<noteq> None \<and> person_banned id c' 7 None (Some (replicate 32 7)) None \<noteq> None"
proof -
  have v: "vet_target id sample_env operator_acting (nn_target sample_new) = Inr (Some (Identity (replicate 32 7)))"
    by (simp add: vet_target_def sample_new_def sample_env_def operator_acting_def own_login_def is_system_login_def
        to_ascii_lowercase_def opt_then_def mailbox_identified_def)
  have reason: "trim_chars (str_chars (nn_reason sample_new)) \<noteq> []"
    by (simp add: sample_new_def str_chars_def str_ascii_chars str_ascii_def trim_chars_def char_is_whitespace_def)
  have vetted: "\<forall>x\<in>set [nn_target sample_new]. \<exists>w. vet_target id sample_env operator_acting x = Inr w"
    using v by simp
  have left: "ids_left (2 * Suc (length [])) sample_core" by (rule ids_left_mono [OF sample_store_ok(3)]) simp
  have le: "0 \<le> (6 :: systime)" by simp
  obtain i rows ends c' where p: "place_bans_act id sample_env 6 operator_acting sample_new [] sample_core = (Inr (Some i, rows, ends), c')"
    and t: "bn_target ` set rows = set [nn_target sample_new]
      \<union> {w. \<exists>x\<in>set [nn_target sample_new]. vet_target id sample_env operator_acting x = Inr (Some w)}"
    and r: "\<forall>u x. 6 \<le> u \<and> not_over (nn_expires_at sample_new) u \<and> x \<in> bn_target ` set rows \<longrightarrow>
         (\<forall>ip. covers_address x ip \<longrightarrow> address_banned c' u ip \<noteq> None)
         \<and> (\<forall>l f h. covers_person id x l f h \<longrightarrow> person_banned id c' u l f h \<noteq> None)"
    using placed_ban_refuses [OF sample_store_ok(1) sample_run le sample_store_ok(2,5) left reason vetted] by (elim exE conjE) (rule that)
  have 7: "6 \<le> (7 :: systime) \<and> not_over (nn_expires_at sample_new) 7" by (simp add: sample_new_def not_over_def)
  have in_rows: "Login ''eve'' \<in> bn_target ` set rows" "Identity (replicate 32 7) \<in> bn_target ` set rows"
    unfolding t using v by (simp_all add: sample_new_def)
  have "covers_person id (Login ''eve'') (Some ''eve'') None None"
      "covers_person id (Identity (replicate 32 7)) None (Some (replicate 32 7)) None"
    by (simp_all add: covers_person_def)
  then have "person_banned id c' 7 (Some ''eve'') None None \<noteq> None" "person_banned id c' 7 None (Some (replicate 32 7)) None \<noteq> None"
    using r 7 in_rows by blast+
  with p show ?thesis by blast
qed

definition sample_lower :: "string \<Rightarrow> string" where
  "sample_lower s = (if str_ascii s then to_ascii_lowercase s else s)"

lemma sample_lower_ok: "lower_ok sample_lower"
proof -
  have ascii: "str_ascii (to_ascii_lowercase s) \<longleftrightarrow> str_ascii s" for s
    by (simp add: str_ascii_def to_ascii_lowercase_def ascii_lower_keeps(2))
  have chars: "str_chars s = map of_char s" if "str_ascii s" for s using that by (simp add: str_chars_def str_ascii_chars)
  have drop: "dropWhile (char_is_whitespace \<circ> (of_char \<circ> ascii_lower)) s = dropWhile (char_is_whitespace \<circ> of_char) s" for s
    by (induction s) (simp_all add: ascii_lower_keeps(1))
  define trim where "trim s = rev (dropWhile (char_is_whitespace \<circ> of_char) (rev (dropWhile (char_is_whitespace \<circ> of_char) s)))" for s
  have trim: "str_trim s = trim s" if "str_ascii s" for s
  proof -
    have "concat (map (utf8_encode \<circ> of_char) xs) = map of_char xs" if "str_ascii xs" for xs
      using that by (induction xs) (simp_all add: str_ascii_def utf8_encode_def)
    moreover have "str_ascii (trim s)" using that by (auto simp: trim_def str_ascii_def dest!: set_dropWhileD)
    moreover have "trim_chars (str_chars s) = map of_char (trim s)"
      by (simp add: chars [OF that] trim_def trim_chars_def dropWhile_map rev_map)
    ultimately show ?thesis by (simp add: str_trim_def chars_str_def comp_def)
  qed
  have "trim (to_ascii_lowercase s) = to_ascii_lowercase (trim s)" for s
    by (simp add: trim_def to_ascii_lowercase_def dropWhile_map rev_map comp_assoc drop)
  then show ?thesis
    by (auto simp: lower_ok_def sample_lower_def ascii trim str_ascii_valid to_ascii_lowercase_idem)
qed

theorem targets_typed_witness:
  "target_typed sample_lower (Login ''eve'')
    \<and> from_row (kind_i64 (Login ''eve'')) (fst (to_row (Login ''eve''))) (snd (to_row (Login ''eve''))) = Some (Login ''eve'')"
proof (rule targets_typed [OF sample_lower_ok, of "V4 [192, 0, 2, 7]" 24 _ "'' Eve''" "[]"])
  have "str_trim '' Eve'' = ''Eve''"
    by (simp add: str_trim_def str_chars_def str_ascii_chars str_ascii_def trim_chars_def char_is_whitespace_def chars_str_def
        utf8_encode_def char_of_def bit_0)
  moreover have "to_ascii_lowercase ''Eve'' = ''eve''" by code_simp
  ultimately show "target_address (V4 [192, 0, 2, 7]) 24 = Inr (Login ''eve'')
      \<or> target_login sample_lower '' Eve'' = Inr (Login ''eve'') \<or> target_registrar [] = Inr (Login ''eve'')"
    by (simp add: target_login_def sample_lower_def str_ascii_def)
qed (simp add: ip_wf_def)

end
