(* ===== verification/Spec2Isabelle.thy ===== *)
theory Spec2Isabelle
  imports Access_Bits Registrar_Issuance Relationship_Claims Inbox_Guarantees News_Pages Message_Signing Ban_Lasting
begin

text \<open>
  hxd-ng is a Hotline server in Rust.  Users carry an identity, a key pair they hold themselves; a
  registrar binds identities to handles by signing attestations, publishes what is withdrawn, and
  keeps a public log of what it issued; servers and clients check those signatures and lists.  With
  those keys users log in, follow a server from one key to the next, make and end friendships that
  hold across servers, and sign what they write.  This
  library models that part of the program from the bytes up; and of the server core, the permission
  bits and four of its stores: who is whose friend, blocked or approved; the inbox of stored
  messages; threaded news; and moderation, with the bans.  The first two meet in the ids of friendships: a message sent on one is
  handed over only while the relationship store says that the id is live.  The first three are keyed by
  mailboxes, and each moves what it keeps when an account claims an identity or rotates its key.  Of moderation
  the server keeps a copy in memory of the bans of its store, the matcher, which the door asks at every connection and
  login; every operation that changes the one changes the other.

  \<^bold>\<open>Theories and what they model\<close> (paths under \<^verbatim>\<open>src/crates/\<close>):

  \<^item> \<^verbatim>\<open>Prelude\<close>: results as sums (\<open>Inl\<close> the error), saturating arithmetic on machine words, big-endian
    bytes, UTF-8 and ASCII strings; the collection \<open>sat_simps\<close> and the simp rules the proofs share.  The locale
    \<open>monotone_steps\<close> lifts a step invariant and a step order to runs; the stores interpret it.
  \<^item> \<^verbatim>\<open>Ordered_Map\<close>: Rust's \<^verbatim>\<open>BTreeMap\<close> as a strictly sorted association list.  The locale
    \<open>keyed_store\<close> states what its clients rely on; it is interpreted on the list operations.
  \<^item> \<^verbatim>\<open>Access_Bits\<close>: \<^verbatim>\<open>hxd-core/src/access.rs\<close>.  A 64-bit word, the wire form and the table of names.
  \<^item> \<^verbatim>\<open>Cbor\<close>: \<^verbatim>\<open>hl-identity/src/cbor.rs\<close>.  Values, the encoder, the strict decoder.  The decoder's
    recursion is total: its measure is the input left and the depth.
  \<^item> \<^verbatim>\<open>Signed\<close>: \<^verbatim>\<open>hl-identity/src/signed.rs\<close>, \<^verbatim>\<open>keys.rs\<close>, \<^verbatim>\<open>error.rs\<close>, \<^verbatim>\<open>names.rs\<close>.  Envelopes, field
    readers, domain-separated signatures.  SHA-256 and Ed25519 come from third-party crates: they
    are the record \<open>crypto\<close>, a parameter, and \<open>crypto_ok\<close> states what their documentation promises
    (sizes, and that a signature made with a key verifies under it).  The locale \<open>signed_object\<close> is
    the contract of every signed object, that reading gives back the fields written; its lemmas
    carry every round trip.
  \<^item> \<^verbatim>\<open>Identity_Objects\<close>: \<^verbatim>\<open>hl-identity/src/attestation.rs\<close> and \<^verbatim>\<open>cert.rs\<close>.
  \<^item> \<^verbatim>\<open>Identity_Cards\<close>: \<^verbatim>\<open>hl-identity/src/card.rs\<close> and \<^verbatim>\<open>bundle.rs\<close>.  Cards, the bundle a login brings, and
    how a server opens one.
  \<^item> \<^verbatim>\<open>Identity_Proofs\<close>: \<^verbatim>\<open>hl-identity/src/proof.rs\<close>, \<^verbatim>\<open>enroll.rs\<close> and \<^verbatim>\<open>lib.rs\<close>.  Both versions of the login proof,
    the challenges and device proofs of the classic protocol, enrolment requests, and \<open>verify_login\<close>.  The
    parser of URLs is a third-party crate and an argument.
  \<^item> \<^verbatim>\<open>Handover\<close>: \<^verbatim>\<open>hl-identity/src/handover.rs\<close>.  What a server serves when its key changes, and the pins a client
    keeps; \<open>walk\<close> is the loop over the chain.
  \<^item> \<^verbatim>\<open>Friendships\<close>: \<^verbatim>\<open>hl-identity/src/friendship.rs\<close>.  Offers, acceptances, withdrawals and succession chains, the
    rules of a pair, and the withdrawals kept until their pair is known.
  \<^item> \<^verbatim>\<open>Signed_Messages\<close>, \<^verbatim>\<open>Message_Forms\<close>, \<^verbatim>\<open>Message_Signing\<close>: \<^verbatim>\<open>hl-identity/src/message.rs\<close>.  The three objects
    (private message, chat line, article); reading one in its whole, detached and link form; signing, verifying
    and padding.  The locales \<open>message_object\<close> and \<open>signable_object\<close> hold what the three share and are
    interpreted on each.
  \<^item> \<^verbatim>\<open>Registrar_Objects\<close>: \<^verbatim>\<open>hl-identity/src/registrar.rs\<close>.  The registration request, the five records,
    the signed lists and the stats; each interprets \<open>signed_object\<close>.
  \<^item> \<^verbatim>\<open>Registrar_Store\<close>: \<^verbatim>\<open>hxd-registrar/src/store.rs\<close> and \<^verbatim>\<open>memory.rs\<close>.  The record \<open>store\<close> is \<^verbatim>\<open>State\<close>;
    one definition per method of \<^verbatim>\<open>RegistrarStore\<close>.
  \<^item> \<^verbatim>\<open>Registrar_Limits\<close>: the rate windows and the replay table of \<^verbatim>\<open>hxd-registrar/src/lib.rs\<close>.
  \<^item> \<^verbatim>\<open>Registrar\<close>: every operation of \<^verbatim>\<open>Registrar\<close> in \<^verbatim>\<open>hxd-registrar/src/lib.rs\<close>.  The record \<open>registrar\<close>
    holds the configuration, the key, the reserved names, the store, the limits and the cached
    stats; an operation takes it last and returns it with the answer.
  \<^item> \<^verbatim>\<open>Registrar_Runs\<close>: the requests as one datatype, \<open>serve\<close>, and runs as the closure of the step
    relation \<open>reg_step\<close>.  The code holds one lock for a whole operation, so requests interleave as
    whole steps.
  \<^item> \<^verbatim>\<open>Registrar_Safety\<close>, \<^verbatim>\<open>Registrar_Issuance\<close>: the invariant \<open>reg_inv\<close> of every run and the properties
    clients rely on.

  \<^item> \<^verbatim>\<open>Mailboxes\<close>: \<^verbatim>\<open>Mailbox\<close> and \<^verbatim>\<open>MessageGuid\<close> of \<^verbatim>\<open>hxd-core/src/inbox.rs\<close>.  A mailbox is an identity's where it
    has a fingerprint, else a login's; \<open>mkey\<close> is which.
  \<^item> \<^verbatim>\<open>Relationships\<close>, \<^verbatim>\<open>Relationship_Lifecycle\<close>: \<^verbatim>\<open>hxd-core/src/relationships.rs\<close> and \<^verbatim>\<open>relationships/memory.rs\<close>.  The
    record \<open>rel_state\<close> is \<^verbatim>\<open>Inner\<close>; one definition per method of \<^verbatim>\<open>RelationshipStore\<close>, the second theory those
    that move or remove whole accounts (\<open>claim\<close>, \<open>rotate\<close>, \<open>rel_purge\<close>, \<open>rel_cleanup\<close>).
  \<^item> \<^verbatim>\<open>Relationship_Safety\<close>, \<^verbatim>\<open>Relationship_Refinement\<close>, \<^verbatim>\<open>Relationship_Claims\<close>: the invariant \<open>rel_inv\<close> of every run of
    that store; that its writes refine a map from pairs of mailbox keys to rows (\<open>rel_view\<close>, \<open>abs_serve\<close>); and
    claims, rotations and purges.
  \<^item> \<^verbatim>\<open>Inbox\<close>, \<^verbatim>\<open>Inbox_Merge\<close>: \<^verbatim>\<open>hxd-core/src/inbox.rs\<close> and \<^verbatim>\<open>inbox/memory.rs\<close>, with what they use of \<^verbatim>\<open>reaction.rs\<close>,
    \<^verbatim>\<open>history.rs\<close> and \<^verbatim>\<open>reply.rs\<close>.  The record \<open>inbox\<close> is \<^verbatim>\<open>Inner\<close>; one definition per method of \<^verbatim>\<open>MessageStore\<close>.
    The gate, the relationship store, is an argument.
  \<^item> \<^verbatim>\<open>Inbox_Safety\<close>, \<^verbatim>\<open>Inbox_Runs\<close>, \<^verbatim>\<open>Inbox_Guarantees\<close>: what merging two mailboxes keeps, the invariant \<open>inbox_inv\<close>,
    and the guarantees of runs, by an interpretation of \<open>monotone_steps\<close>.
  \<^item> \<^verbatim>\<open>News\<close>, \<^verbatim>\<open>News_Store\<close>: the data of \<^verbatim>\<open>hxd-core/src/news.rs\<close> and the store \<^verbatim>\<open>news/memory.rs\<close>.  The record \<open>news\<close> is
    \<^verbatim>\<open>Inner\<close>; one definition per method of \<^verbatim>\<open>NewsStore\<close>, the first theory those of the tree and posting, the second
    reading, removing, subscriptions and feeds.  Where the code would panic the model answers \<open>Panicked\<close>.
  \<^item> \<^verbatim>\<open>News_Safety\<close>, \<^verbatim>\<open>News_Runs\<close>: the invariant \<open>news_inv\<close> and that every write keeps it; writes as requests, the step
    relation \<open>news_step\<close>, and the order \<open>news_le\<close> of an interpretation of \<open>monotone_steps\<close>.
  \<^item> \<^verbatim>\<open>News_Threads\<close>, \<^verbatim>\<open>News_Guarantees\<close>, \<^verbatim>\<open>News_Pages\<close>: that sorting paths reads a thread in \<open>preorder\<close>, what every run
    of the store keeps, and what a client sees that reads a thread page by page while others write.
  \<^item> \<^verbatim>\<open>Bans\<close>, \<^verbatim>\<open>Moderation\<close>: \<^verbatim>\<open>hxd-core/src/ban.rs\<close> down to the matcher, \<^verbatim>\<open>moderation.rs\<close> and \<^verbatim>\<open>moderation/memory.rs\<close>.
    What a ban names, addresses and prefixes, and the record \<open>matcher\<close>, which is \<^verbatim>\<open>BanMatcher\<close>; reports, acts and
    bans as they are stored, and the record \<open>mod_store\<close>, one definition per method.
  \<^item> \<^verbatim>\<open>Ban_Desk\<close>: the rest of \<^verbatim>\<open>ban.rs\<close>, with what it uses of \<^verbatim>\<open>chat.rs\<close>, \<^verbatim>\<open>roster.rs\<close>, \<^verbatim>\<open>rotation.rs\<close>, \<^verbatim>\<open>server_link.rs\<close>,
    \<^verbatim>\<open>limits.rs\<close> and \<^verbatim>\<open>system.rs\<close>.  The record \<open>ban_core\<close> is the store with the matcher: placing, kicking, lifting, rereading,
    pruning, a rotation of keys, a linked server's unban, and the questions of the door.
  \<^item> \<^verbatim>\<open>Ban_Matching\<close>, \<^verbatim>\<open>Ban_Safety\<close>: what the matcher answers for the bans filed in it, and the invariant \<open>desk_ok\<close> of the
    store and of its agreement with the matcher.
  \<^item> \<^verbatim>\<open>Ban_Guarantees\<close>, \<^verbatim>\<open>Ban_Lasting\<close>: the operations as requests and the step relation \<open>ban_step\<close>; what every run keeps.

  \<^bold>\<open>What is shown.\<close>  The decoder accepts exactly the encodings of canonical values, so what a
  signature covers is one value.  Every signed object round-trips, and what parses was signed in its
  own domain by the key entitled to it.  A login is admitted only where the device named in the
  certificate signed that server's nonce, key and host, and an honest login is admitted.  A client follows
  a new server key exactly where a chain of commitments leads to it from the key it pinned.  Two halves
  that agree make a friendship and a withdrawal either side signs ends it, through successions of
  keys as well.  A message signed verifies in every form it is carried in, as the kind it was signed as and
  no other, and every message pads to one of the fixed sizes and back.  The store moves only forward, its pages are complete and
  its full list bounded; the limits keep their ceilings and their tables their caps.  Over all runs
  of the registrar: nothing published or withdrawn is taken back; a handle in use is not moved by
  anyone's registration; a withdrawn identity never registers again; a revocation voids everything
  issued before it; what is issued parses, is logged and is not already void; every signed list is
  accepted by its readers.  Over all runs of the relationship store: the live ids are those rows point
  at, and no new friendship gets an old id; its writes are writes of a map; cleanup is not seen by
  the reads of rows, holds, offers and accounts nor by the counts of the ledger; a
  claim done twice is a claim done once.  Over all runs of the inbox, whatever the gate answers in between: a
  guid is stored once for a sender and a recipient, a retry is answered under the first reference, through
  retention too; a claim or rotation that merges two mailboxes loses no message; what a message says does
  not change.  Over all runs of the news store: nodes and articles stay trees and nothing points at what is
  gone; nothing panics; a thread reads in the order of its replies; paging through one while others write
  ends, repeats nothing and misses nothing that stays; an article does not move.  Over all runs of the bans: the
  door answers from memory as a search of the store would; a ban that was placed refuses whom it names, and stays until
  it runs out or is lifted; a lift takes the ban off everything it was
  placed on together; what a ban names is in one canonical form.  An address ban matches exactly the addresses of its
  prefix.

  \<^bold>\<open>What modelling found.\<close>  A claim leaves two rows for one pair where an account and the identity it
  claims had rows about each other (\<open>claim_rotate_one_row_to_a_pair\<close>).  Cleanup of the relationship store forgets old requests, so
  that one repeated later is recorded as new, though its doc says it changes no answer (\<open>cleanup_forgets_request\<close>).
  \<^verbatim>\<open>lift_ban_as\<close> lifts rows first and removes them from the matcher last: where the store fails in between, which the memory
  store never does, the door refuses on lifted rows until the bans are reloaded.  A tab before the trailing dot of a
  registrar's host stays in the ban's target (\<open>registrar_keeps_tab\<close>).

  \<^bold>\<open>Bounds.\<close>  Machine integers are words of their width.  The sequence counters are 64 bits and the
  code increments them unchecked; \<open>capacity\<close>, a hypothesis of each step, says that the numbers one
  operation may take are left.  The fuel of \<open>read_pages\<close>, the reader that follows \<open>more\<close>, is any number
  above the length of the list, which the theorems show is enough.  \<open>rel_room\<close> says the same of the ids of
  the relationship store.  References of messages are 16 random bytes, drawn by the caller of the model: a run
  draws none twice.  Logins have 1 to 31 bytes and fingerprints 32 (\<open>plain\<close>).
  In a run of the news store the depth limits callers pass are at most a \<open>D\<close> below the largest \<^verbatim>\<open>u16\<close>, a node id is
  left for each node made, and a feed is opened before it is posted from; running out of article ids is an error of the
  code itself.  \<open>ids_left\<close> says that ban ids are left for what a request places.  Arithmetic wraps where a release build's does.

  \<^bold>\<open>Not modelled.\<close>  \<^verbatim>\<open>StoreError\<close> and the transaction hooks: the memory stores never fail, but for the row of
  a ban, which the moderation store can be told to refuse and the model refuses too, and their hooks do nothing (the SQLite store is not modelled).  Log lines and the English text of errors.  Search in news,
  which reads Unicode words, and attachments, which the memory store refuses.  Sealed boxes
  (\<^verbatim>\<open>hl-identity/src/sealed.rs\<close>), which call a third-party implementation of HPKE for all they do.  Of enrolment the
  objects are modelled and no theorem is stated.  The
  random bytes of a new invite code are an argument.  Clocks: the time is an argument of every
  operation, and a run's times do not decrease.  Sockets, HTTP, files; the sessions of
  the two protocols, the chat, roster, rooms, voice and push services of the server, which
  are asynchronous code around the stores above; the codecs of the protocols.  Of moderation: ending the sessions
  a ban is on, reading an address from text, the bans a linked server asks for, and the service
  that files reports and acts on lines, images and articles.  \<^verbatim>\<open>str::to_lowercase\<close>, whose table is Unicode's, is an argument
  (\<open>lo\<close>) of what compares names; \<open>lower_ok\<close> states what one theorem needs of it.
\<close>

end
